(* ===== verification/Traza_Prelude.thy ===== *)
theory Traza_Prelude
  imports Main "HOL-Library.Word"
begin

text \<open>
  Shared vocabulary of the development: the machine integers of the Rust sources, the
  little-endian byte encodings every on-disk format of the engine is written in
  (\<open>to_le_bytes\<close> / \<open>from_le_bytes\<close> of the standard library), cutting a byte string, and the
  contract of a \<^emph>\<open>prefix codec\<close>, an encoder whose decoder consumes exactly what it wrote and hands
  the rest of the input back. The varints, lists of postings, offsets, records and log frames of
  the formats are all instances of that contract.
\<close>

section \<open>Machine integers and bytes\<close>

type_synonym u8 = "8 word"
type_synonym u16 = "16 word"
type_synonym u32 = "32 word"
type_synonym u64 = "64 word"
type_synonym bytes = "u8 list"

named_theorems codec_simps \<open>decoding what an encoder wrote\<close>
named_theorems len_simps \<open>lengths of encodings\<close>

abbreviation byte_of :: "char \<Rightarrow> u8" where
  "byte_of c \<equiv> of_nat (of_char c)"

definition ascii :: "string \<Rightarrow> bytes" where
  "ascii s = map (\<lambda>c. of_nat (of_char c)) s"

lemma length_ascii [simp]: "length (ascii s) = length s"
  by (simp add: ascii_def)

section \<open>Little-endian encodings\<close>

text \<open>\<open>le_bytes n v\<close>: the low \<open>n\<close> bytes of \<open>v\<close>, least significant first; \<open>le_nat\<close> reads
  such a byte string back.\<close>

fun le_bytes :: "nat \<Rightarrow> nat \<Rightarrow> bytes" where
  "le_bytes 0 v = []"
| "le_bytes (Suc n) v = of_nat (v mod 256) # le_bytes n (v div 256)"

fun le_nat :: "bytes \<Rightarrow> nat" where
  "le_nat [] = 0"
| "le_nat (b # bs) = unat b + 256 * le_nat bs"

lemma length_le_bytes [simp, len_simps]: "length (le_bytes n v) = n"
  by (induction n arbitrary: v) auto

lemma unat_lt: "unat (w :: 'a::len word) < 2 ^ LENGTH('a)"
  by (rule unsigned_less)

lemma unat_u8_lt [simp]: "unat (b :: u8) < 256"
  using unat_lt [of b] by simp

lemma unat_u32_lt: "unat (w :: u32) < 2 ^ 32"
  using unat_lt [of w] by simp

lemma unat_u64_lt: "unat (w :: u64) < 2 ^ 64"
  using unat_lt [of w] by simp

lemma unat_of_nat_u32: "n < 2 ^ 32 \<Longrightarrow> unat (of_nat n :: u32) = n"
  by (simp add: unat_of_nat)

lemma unat_of_nat_u64: "n < 2 ^ 64 \<Longrightarrow> unat (of_nat n :: u64) = n"
  by (simp add: unat_of_nat)

lemma unat_u8_of_nat_mod [simp]: "unat (of_nat (v mod 256) :: u8) = v mod 256"
  by (simp add: unat_of_nat)

lemma le_nat_le_bytes [codec_simps]: "le_nat (le_bytes n v) = v mod 256 ^ n"
proof (induction n arbitrary: v)
  case 0
  then show ?case by simp
next
  case (Suc n)
  have "v mod 256 + 256 * (v div 256 mod 256 ^ n) = v mod (256 * 256 ^ n)"
    by (metis add.commute mod_mult2_eq)
  with Suc show ?case by simp
qed

lemma le_nat_bound: "le_nat bs < 256 ^ length bs"
proof (induction bs)
  case Nil
  then show ?case by simp
next
  case (Cons b bs)
  have "le_nat bs + 1 \<le> 256 ^ length bs" using Cons by simp
  then have "256 * (le_nat bs + 1) \<le> 256 * 256 ^ length bs" by (rule mult_le_mono2)
  moreover have "unat b + 256 * le_nat bs < 256 * (le_nat bs + 1)" by simp
  ultimately have "unat b + 256 * le_nat bs < 256 * 256 ^ length bs" by (rule less_le_trans [rotated])
  then show ?case by simp
qed

lemma le_bytes_le_nat [codec_simps]: "le_bytes (length bs) (le_nat bs) = bs"
proof (induction bs)
  case Nil
  then show ?case by simp
next
  case (Cons b bs)
  have b: "unat b < 256" by simp
  then have "(unat b + 256 * le_nat bs) mod 256 = unat b"
    and "(unat b + 256 * le_nat bs) div 256 = le_nat bs" by simp_all
  with Cons show ?case by simp
qed

lemma le_nat_inj: "length xs = length ys \<Longrightarrow> le_nat xs = le_nat ys \<Longrightarrow> xs = ys"
  by (metis le_bytes_le_nat)

definition u32_le :: "u32 \<Rightarrow> bytes" where
  "u32_le w = le_bytes 4 (unat w)"

definition u64_le :: "u64 \<Rightarrow> bytes" where
  "u64_le w = le_bytes 8 (unat w)"

definition le_u32 :: "bytes \<Rightarrow> u32" where
  "le_u32 bs = of_nat (le_nat bs)"

definition le_u64 :: "bytes \<Rightarrow> u64" where
  "le_u64 bs = of_nat (le_nat bs)"

lemma length_u32_le [simp, len_simps]: "length (u32_le w) = 4"
  by (simp add: u32_le_def)

lemma length_u64_le [simp, len_simps]: "length (u64_le w) = 8"
  by (simp add: u64_le_def)

lemma le_u32_u32_le [simp, codec_simps]: "le_u32 (u32_le w) = w"
  using unat_u32_lt [of w] by (simp add: le_u32_def u32_le_def le_nat_le_bytes)

lemma le_u64_u64_le [simp, codec_simps]: "le_u64 (u64_le w) = w"
  using unat_u64_lt [of w] by (simp add: le_u64_def u64_le_def le_nat_le_bytes)

lemma u32_le_le_u32 [codec_simps]: "length bs = 4 \<Longrightarrow> u32_le (le_u32 bs) = bs"
  using le_nat_bound [of bs] le_bytes_le_nat [of bs]
  by (simp add: le_u32_def u32_le_def unat_of_nat)

lemma u64_le_le_u64 [codec_simps]: "length bs = 8 \<Longrightarrow> u64_le (le_u64 bs) = bs"
  using le_nat_bound [of bs] le_bytes_le_nat [of bs]
  by (simp add: le_u64_def u64_le_def unat_of_nat)

section \<open>Cutting byte strings\<close>

text \<open>\<open>bytes_at i n xs\<close> is Rust's \<open>xs[i .. i + n]\<close>, used only where the bounds were checked.\<close>

definition bytes_at :: "nat \<Rightarrow> nat \<Rightarrow> 'a list \<Rightarrow> 'a list" where
  "bytes_at i n xs = take n (drop i xs)"

lemma length_bytes_at [simp]: "i + n \<le> length xs \<Longrightarrow> length (bytes_at i n xs) = n"
  by (simp add: bytes_at_def)

lemma bytes_at_append_left: "i + n \<le> length xs \<Longrightarrow> bytes_at i n (xs @ ys) = bytes_at i n xs"
  by (simp add: bytes_at_def)

lemma bytes_at_append_right: "length xs \<le> i \<Longrightarrow> bytes_at i n (xs @ ys) = bytes_at (i - length xs) n ys"
  by (simp add: bytes_at_def)

lemma bytes_at_0_append [simp]: "length xs = n \<Longrightarrow> bytes_at 0 n (xs @ ys) = xs"
  by (simp add: bytes_at_def)

lemma bytes_at_all [simp]: "length xs = n \<Longrightarrow> bytes_at 0 n xs = xs"
  by (simp add: bytes_at_def)

text \<open>The exact-size chunks of a bytes_at and what is left over: Rust's \<open>chunks_exact(n)\<close>.\<close>

function chunks_exact :: "nat \<Rightarrow> 'a list \<Rightarrow> 'a list list" where
  "chunks_exact n xs =
     (if n = 0 \<or> length xs < n then [] else take n xs # chunks_exact n (drop n xs))"
  by pat_completeness auto
termination
  by (relation "measure (\<lambda>(n, xs). length xs)") auto

declare chunks_exact.simps [simp del]

definition chunks_remainder :: "nat \<Rightarrow> 'a list \<Rightarrow> 'a list" where
  "chunks_remainder n xs = drop (length xs - length xs mod n) xs"

lemma chunks_exact_short: "length xs < n \<Longrightarrow> chunks_exact n xs = []"
  by (subst chunks_exact.simps) simp

lemma chunks_exact_append:
  "0 < n \<Longrightarrow> length xs = n \<Longrightarrow> chunks_exact n (xs @ ys) = xs # chunks_exact n ys"
  by (subst chunks_exact.simps) simp

lemma chunks_remainder_short: "length xs < n \<Longrightarrow> chunks_remainder n xs = xs"
  by (simp add: chunks_remainder_def)

lemma chunks_remainder_append:
  assumes "0 < n" and "length xs = n"
  shows "chunks_remainder n (xs @ ys) = chunks_remainder n ys"
proof -
  have "length ys mod n \<le> length ys" by simp
  then have "n + length ys - length ys mod n = n + (length ys - length ys mod n)" by arith
  moreover have "drop (n + k) (xs @ ys) = drop k ys" for k
    using assms(2) by simp
  ultimately have "drop (n + length ys - length ys mod n) (xs @ ys) = drop (length ys - length ys mod n) ys"
    by metis
  with assms show ?thesis by (simp add: chunks_remainder_def del: drop_append)
qed

text \<open>An induction that peels one chunk at a time, the shape of every chunked loop.\<close>

lemma chunk_induct:
  assumes "0 < (n::nat)"
    and short: "\<And>xs. length xs < n \<Longrightarrow> P xs"
    and chunk: "\<And>c xs. length c = n \<Longrightarrow> P xs \<Longrightarrow> P (c @ xs)"
  shows "P xs"
proof (induction xs rule: length_induct)
  case (1 xs)
  show ?case
  proof (cases "length xs < n")
    case True
    then show ?thesis by (rule short)
  next
    case False
    with assms(1) have "length (drop n xs) < length xs" by simp
    with "1" have "P (drop n xs)" by blast
    with False have "P (take n xs @ drop n xs)" by (intro chunk) simp_all
    then show ?thesis by simp
  qed
qed

lemma chunk_split:
  assumes "0 < n"
  shows "concat (chunks_exact n xs) @ chunks_remainder n xs = xs"
proof (induction xs rule: chunk_induct [OF assms])
  case (1 xs)
  then show ?case by (simp add: chunks_exact_short chunks_remainder_short)
next
  case (2 c xs)
  with assms show ?case by (simp add: chunks_exact_append chunks_remainder_append)
qed

lemma length_chunks:
  assumes "0 < n"
  shows "c \<in> set (chunks_exact n xs) \<Longrightarrow> length c = n"
proof (induction xs rule: chunk_induct [OF assms])
  case (1 xs)
  then show ?case by (simp add: chunks_exact_short)
next
  case (2 d xs)
  with assms show ?case by (auto simp: chunks_exact_append)
qed

text \<open>\<open>chunks(n)\<close>: the same with the shorter last chunk kept.\<close>

function chunks :: "nat \<Rightarrow> 'a list \<Rightarrow> 'a list list" where
  "chunks n xs = (if n = 0 \<or> xs = [] then [] else take n xs # chunks n (drop n xs))"
  by pat_completeness auto
termination
  by (relation "measure (\<lambda>(n, xs). length xs)") auto

declare chunks.simps [simp del]

lemma chunks_Nil [simp]: "chunks n [] = []"
  by (subst chunks.simps) simp

lemma chunks_rec: "0 < n \<Longrightarrow> xs \<noteq> [] \<Longrightarrow> chunks n xs = take n xs # chunks n (drop n xs)"
  by (subst chunks.simps) simp

lemma concat_chunks: "0 < n \<Longrightarrow> concat (chunks n xs) = xs"
proof (induction n xs rule: chunks.induct)
  case (1 n xs)
  then show ?case by (cases "xs = []") (simp_all add: chunks_rec)
qed

lemma chunks_nth: "0 < n \<Longrightarrow> i < length (chunks n xs) \<Longrightarrow> chunks n xs ! i = bytes_at (i * n) n xs"
proof (induction n xs arbitrary: i rule: chunks.induct)
  case (1 n xs)
  then have ne: "xs \<noteq> []" by (cases "xs = []") simp_all
  show ?case
  proof (cases i)
    case 0
    with 1 ne show ?thesis by (simp add: chunks_rec bytes_at_def)
  next
    case (Suc j)
    then have "chunks n (drop n xs) ! j = bytes_at (j * n) n (drop n xs)"
      using 1 ne by (intro "1.IH") (simp_all add: chunks_rec)
    with 1 ne Suc show ?thesis by (simp add: chunks_rec bytes_at_def add.commute)
  qed
qed

lemma length_chunks_ceil: "0 < n \<Longrightarrow> length (chunks n xs) = (length xs + n - 1) div n"
proof (induction n xs rule: chunks.induct)
  case (1 n xs)
  show ?case
  proof (cases "xs = []")
    case False
    then have "length (chunks n xs) = Suc ((length xs - n + n - 1) div n)"
      using 1 by (simp add: chunks_rec)
    also have "\<dots> = (length xs + n - 1) div n"
    proof (cases "length xs < n")
      case True
      moreover have "0 < length xs" using False by simp
      ultimately have "(length xs + n - 1) div n = Suc 0" by (intro div_nat_eqI) linarith+
      with True "1.prems" show ?thesis by simp
    next
      case ge: False
      then have "length xs + n - 1 = (length xs - n + n - 1) + n" using "1.prems" by simp
      then have "(length xs + n - 1) div n = ((length xs - n + n - 1) + n) div n" by (rule arg_cong)
      also have "\<dots> = Suc ((length xs - n + n - 1) div n)" by (subst div_add_self2) (use "1.prems" in simp_all)
      finally show ?thesis ..
    qed
    finally show ?thesis .
  next
    case True
    then show ?thesis using "1.prems" by (simp add: div_less)
  qed
qed

section \<open>The contract of a prefix codec\<close>

text \<open>
  \<open>enc\<close> writes a value, \<open>dec\<close> reads one off the front of its input and returns the rest,
  \<open>valid\<close> says which values the encoder may be given. The client lemma, proved once here, is the
  one the loops of the formats need: reading \<open>n\<close> values off the concatenation of \<open>n\<close> encodings
  gives them back and leaves the rest alone.
\<close>

fun dec_many :: "(bytes \<Rightarrow> 'e + ('a \<times> bytes)) \<Rightarrow> nat \<Rightarrow> bytes \<Rightarrow> 'e + ('a list \<times> bytes)" where
  "dec_many dec 0 bs = Inr ([], bs)"
| "dec_many dec (Suc n) bs =
     (case dec bs of Inl e \<Rightarrow> Inl e
      | Inr (x, rest) \<Rightarrow>
          (case dec_many dec n rest of Inl e \<Rightarrow> Inl e | Inr (xs, rest') \<Rightarrow> Inr (x # xs, rest')))"

locale prefix_codec =
  fixes enc :: "'a \<Rightarrow> bytes"
    and dec :: "bytes \<Rightarrow> 'e + ('a \<times> bytes)"
    and valid :: "'a \<Rightarrow> bool"
  assumes dec_enc: "valid x \<Longrightarrow> dec (enc x @ rest) = Inr (x, rest)"
begin

lemma dec_enc_nil: "valid x \<Longrightarrow> dec (enc x) = Inr (x, [])"
  using dec_enc [of x "[]"] by simp

lemma enc_inj:
  assumes "valid x" and "valid y" and eq: "enc x @ r = enc y @ s"
  shows "x = y \<and> r = s"
proof -
  have "dec (enc x @ r) = Inr (x, r)" using assms(1) by (rule dec_enc)
  moreover have "dec (enc x @ r) = Inr (y, s)" unfolding eq using assms(2) by (rule dec_enc)
  ultimately show ?thesis by simp
qed

lemma dec_many_enc:
  "list_all valid xs \<Longrightarrow>
   dec_many dec (length xs) (concat (map enc xs) @ rest) = Inr (xs, rest)"
  by (induction xs) (simp_all add: dec_enc)

lemma concat_enc_inj:
  assumes "list_all valid xs" and "list_all valid ys"
    and "length xs = length ys" and "concat (map enc xs) = concat (map enc ys)"
  shows "xs = ys"
  using dec_many_enc [OF assms(1), of "[]"] dec_many_enc [OF assms(2), of "[]"] assms(3,4) by simp

end

section \<open>Checked and saturating arithmetic of the standard library\<close>

definition checked_add :: "'a::len word \<Rightarrow> 'a word \<Rightarrow> 'a word option" where
  "checked_add a b = (if unat a + unat b < 2 ^ LENGTH('a) then Some (a + b) else None)"

definition checked_sub :: "'a::len word \<Rightarrow> 'a word \<Rightarrow> 'a word option" where
  "checked_sub a b = (if b \<le> a then Some (a - b) else None)"

definition checked_mul :: "'a::len word \<Rightarrow> 'a word \<Rightarrow> 'a word option" where
  "checked_mul a b = (if unat a * unat b < 2 ^ LENGTH('a) then Some (a * b) else None)"

definition saturating_add :: "'a::len word \<Rightarrow> 'a word \<Rightarrow> 'a word" where
  "saturating_add a b = (if unat a + unat b < 2 ^ LENGTH('a) then a + b else - 1)"

definition saturating_sub :: "'a::len word \<Rightarrow> 'a word \<Rightarrow> 'a word" where
  "saturating_sub a b = (if b \<le> a then a - b else 0)"

lemma unat_add_lt: "unat a + unat b < 2 ^ LENGTH('a) \<Longrightarrow> unat (a + b) = unat a + unat b"
  for a b :: "'a::len word"
  by (simp add: unat_word_ariths)

lemma checked_add_SomeD: "checked_add a b = Some c \<Longrightarrow> c = a + b \<and> unat c = unat a + unat b"
  by (auto simp: checked_add_def unat_add_lt split: if_splits)

lemma checked_add_gap: "a \<le> c \<Longrightarrow> checked_add a (c - a) = Some c"
  using unat_lt [of c] by (auto simp: checked_add_def unat_sub word_le_nat_alt)

text \<open>The same on a \<open>u64\<close> read as a natural number.\<close>

definition u64_checked_add :: "nat \<Rightarrow> nat \<Rightarrow> nat option" where
  "u64_checked_add a b = (if a + b < 2 ^ 64 then Some (a + b) else None)"

definition u64_checked_mul :: "nat \<Rightarrow> nat \<Rightarrow> nat option" where
  "u64_checked_mul a b = (if a * b < 2 ^ 64 then Some (a * b) else None)"

text \<open>\<open>div_ceil\<close>.\<close>

definition div_ceil :: "nat \<Rightarrow> nat \<Rightarrow> nat" where
  "div_ceil a b = (a + b - 1) div b"

section \<open>Results\<close>

text \<open>The \<open>?\<close> operator: go on with the value or return the error.\<close>

fun and_then :: "'e + 'a \<Rightarrow> ('a \<Rightarrow> 'e + 'b) \<Rightarrow> 'e + 'b" where
  "and_then (Inl e) f = Inl e"
| "and_then (Inr x) f = f x"

fun ok_or :: "'a option \<Rightarrow> 'e \<Rightarrow> 'e + 'a" where
  "ok_or None e = Inl e"
| "ok_or (Some x) e = Inr x"

lemma and_then_Inr: "and_then m f = Inr y \<longleftrightarrow> (\<exists>x. m = Inr x \<and> f x = Inr y)"
  by (cases m) simp_all

lemma ok_or_Inr: "ok_or m e = Inr x \<longleftrightarrow> m = Some x"
  by (cases m) simp_all

section \<open>UTF-8\<close>

text \<open>
  A Rust \<open>String\<close> is its UTF-8 bytes. \<open>utf8_valid\<close> is the well-formedness \<open>str::from_utf8\<close>
  checks: no overlong form, no surrogate, nothing above U+10FFFF.
\<close>

definition utf8_cont :: "u8 \<Rightarrow> bool" where
  "utf8_cont b \<longleftrightarrow> 0x80 \<le> b \<and> b \<le> 0xBF"

fun utf8_valid :: "bytes \<Rightarrow> bool" where
  "utf8_valid [] = True"
| "utf8_valid (a # bs) =
     (if a < 0x80 then utf8_valid bs
      else if 0xC2 \<le> a \<and> a \<le> 0xDF then
        (case bs of b # r \<Rightarrow> utf8_cont b \<and> utf8_valid r | _ \<Rightarrow> False)
      else if 0xE0 \<le> a \<and> a \<le> 0xEF then
        (case bs of b # c # r \<Rightarrow>
            utf8_cont b \<and> utf8_cont c \<and> (a = 0xE0 \<longrightarrow> 0xA0 \<le> b) \<and> (a = 0xED \<longrightarrow> b \<le> 0x9F) \<and> utf8_valid r
         | _ \<Rightarrow> False)
      else if 0xF0 \<le> a \<and> a \<le> 0xF4 then
        (case bs of b # c # d # r \<Rightarrow>
            utf8_cont b \<and> utf8_cont c \<and> utf8_cont d \<and> (a = 0xF0 \<longrightarrow> 0x90 \<le> b) \<and> (a = 0xF4 \<longrightarrow> b \<le> 0x8F)
            \<and> utf8_valid r
         | _ \<Rightarrow> False)
      else False)"

lemma utf8_valid_ascii_only: "list_all (\<lambda>b. b < 0x80) bs \<Longrightarrow> utf8_valid bs"
  by (induction bs) auto

section \<open>Maps and lists\<close>

lemma fold_map_upd_apply:
  "fold (\<lambda>x m. m(k x \<mapsto> x)) xs m y =
     (case find (\<lambda>x. k x = y) (rev xs) of Some x \<Rightarrow> Some x | None \<Rightarrow> m y)"
  by (induction xs rule: rev_induct) auto

lemma find_append:
  "find P (xs @ ys) = (case find P xs of Some x \<Rightarrow> Some x | None \<Rightarrow> find P ys)"
  by (induction xs) auto

end
