(* ===== verification/Crc.thy ===== *)
theory Crc
  imports Traza_Prelude
begin

unbundle bit_operations_syntax

text \<open>
  \<open>src/src/crc.rs\<close>: CRC-32 over the reflected polynomial, computed sixteen bytes at a time from
  sixteen tables. The reference is the bitwise definition, one polynomial step per message bit.
  The main results are that the sliced code computes the reference on every input, and that a
  message changed in one byte never keeps its checksum, which is what the log, the segment
  directory and the blob framing rely on to notice damage.
\<close>

section \<open>The code\<close>

definition SLICES :: nat where
  "SLICES = 16"

text \<open>One turn of the inner loop of \<open>build_tables\<close>: the mask is \<open>(crc & 1).wrapping_neg()\<close>.\<close>

definition crc_bit :: "u32 \<Rightarrow> u32" where
  "crc_bit crc = (let mask = - (crc AND 1) in drop_bit 1 crc XOR (0xEDB88320 AND mask))"

definition table0 :: "u32 list" where
  "table0 = map (\<lambda>index. (crc_bit ^^ 8) (of_nat index)) [0..<256]"

definition next_table :: "u32 list \<Rightarrow> u32 list" where
  "next_table previous = map (\<lambda>p. drop_bit 8 p XOR table0 ! unat (p AND 0xFF)) previous"

primrec build_tables_from :: "nat \<Rightarrow> u32 list \<Rightarrow> u32 list list" where
  "build_tables_from 0 t = []"
| "build_tables_from (Suc n) t = t # build_tables_from n (next_table t)"

definition build_tables :: "u32 list list" where
  "build_tables = build_tables_from SLICES table0"

definition TABLE :: "u32 list list" where
  "TABLE = build_tables"

text \<open>The body of the main loop, one chunk of sixteen bytes.\<close>

definition crc_chunk :: "u32 \<Rightarrow> bytes \<Rightarrow> u32" where
  "crc_chunk crc chunk =
     (let low = crc XOR le_u32 (take 4 chunk) in
        TABLE ! 15 ! unat (low AND 0xFF)
        XOR TABLE ! 14 ! unat (drop_bit 8 low AND 0xFF)
        XOR TABLE ! 13 ! unat (drop_bit 16 low AND 0xFF)
        XOR TABLE ! 12 ! unat (drop_bit 24 low)
        XOR TABLE ! 11 ! unat (chunk ! 4)
        XOR TABLE ! 10 ! unat (chunk ! 5)
        XOR TABLE ! 9 ! unat (chunk ! 6)
        XOR TABLE ! 8 ! unat (chunk ! 7)
        XOR TABLE ! 7 ! unat (chunk ! 8)
        XOR TABLE ! 6 ! unat (chunk ! 9)
        XOR TABLE ! 5 ! unat (chunk ! 10)
        XOR TABLE ! 4 ! unat (chunk ! 11)
        XOR TABLE ! 3 ! unat (chunk ! 12)
        XOR TABLE ! 2 ! unat (chunk ! 13)
        XOR TABLE ! 1 ! unat (chunk ! 14)
        XOR TABLE ! 0 ! unat (chunk ! 15))"

text \<open>The body of the tail loop, one byte (the Sarwate step).\<close>

definition crc_byte :: "u32 \<Rightarrow> u8 \<Rightarrow> u32" where
  "crc_byte crc byte = drop_bit 8 crc XOR TABLE ! 0 ! unat ((crc XOR ucast byte) AND 0xFF)"

definition crc32 :: "bytes \<Rightarrow> u32" where
  "crc32 bs =
     (let crc = foldl crc_chunk 0xFFFFFFFF (chunks_exact SLICES bs);
          crc = foldl crc_byte crc (chunks_remainder SLICES bs)
      in NOT crc)"

section \<open>The bitwise reference\<close>

definition crc_shift :: "u32 \<Rightarrow> u32" where
  "crc_shift crc = (crc_bit ^^ 8) crc"

definition crc32_bitwise :: "bytes \<Rightarrow> u32" where
  "crc32_bitwise bs = NOT (foldl (\<lambda>crc b. crc_shift (crc XOR ucast b)) 0xFFFFFFFF bs)"

section \<open>The polynomial step is linear\<close>

lemma crc_bit_alt: "crc_bit c = drop_bit 1 c XOR (if bit c 0 then 0xEDB88320 else 0)"
proof -
  have "c AND 1 = (if bit c 0 then 1 else 0)"
    by (rule bit_word_eqI) (auto simp: bit_simps intro: gr0I)
  then show ?thesis by (simp add: crc_bit_def)
qed

lemma crc_bit_xor: "crc_bit (x XOR y) = crc_bit x XOR crc_bit y"
  unfolding crc_bit_alt by (auto simp: bit_xor_iff ac_simps)

lemma funpow_xor:
  fixes f :: "u32 \<Rightarrow> u32"
  assumes "\<And>x y. f (x XOR y) = f x XOR f y"
  shows "(f ^^ n) (x XOR y) = (f ^^ n) x XOR (f ^^ n) y"
  by (induction n) (simp_all add: assms)

lemma crc_shift_xor: "crc_shift (x XOR y) = crc_shift x XOR crc_shift y"
  by (simp add: crc_shift_def funpow_xor crc_bit_xor)

lemma crc_shift_pow_xor: "(crc_shift ^^ n) (x XOR y) = (crc_shift ^^ n) x XOR (crc_shift ^^ n) y"
  by (rule funpow_xor) (rule crc_shift_xor)

lemma crc_bit_pow_low_zero: "take_bit n c = 0 \<Longrightarrow> (crc_bit ^^ n) c = drop_bit n c"
proof (induction n arbitrary: c)
  case 0
  then show ?case by simp
next
  case (Suc n)
  have low: "\<not> bit c m" if "m < Suc n" for m
    using Suc.prems that by (metis bit_take_bit_iff bit_0_eq bot_apply bot_bool_def)
  have "take_bit n c = 0"
    by (rule bit_word_eqI) (use low in \<open>auto simp: bit_simps\<close>)
  then have "(crc_bit ^^ n) c = drop_bit n c" by (rule Suc.IH)
  moreover have "\<not> bit (drop_bit n c) 0" using low by (simp add: bit_simps)
  ultimately show ?case by (simp add: crc_bit_alt [of "drop_bit n c"])
qed

lemma crc_shift_low_zero: "take_bit 8 c = 0 \<Longrightarrow> crc_shift c = drop_bit 8 c"
  unfolding crc_shift_def by (rule crc_bit_pow_low_zero)

lemma mask_FF: "(0xFF :: u32) = mask 8"
  by (simp add: mask_eq_exp_minus_1)

lemma and_FF: "c AND 0xFF = take_bit 8 (c :: u32)"
  by (simp add: mask_FF take_bit_eq_mask)

lemma split_low: "c = push_bit 8 (drop_bit 8 c) XOR (c AND 0xFF)" for c :: u32
  unfolding and_FF by (rule bit_word_eqI) (auto simp: bit_simps)

text \<open>The table step computes the bitwise step.\<close>

lemma unat_and_FF: "unat (c AND 0xFF :: u32) < 256"
proof -
  have "unat (c AND 0xFF) = take_bit 8 (unat c)"
    unfolding and_FF by (simp add: unsigned_take_bit_eq)
  then show ?thesis using take_bit_nat_less_exp [of 8 "unat c"] by simp
qed

lemma table0_nth: "i < 256 \<Longrightarrow> table0 ! i = crc_shift (of_nat i)"
  by (simp add: table0_def crc_shift_def)

lemma crc_shift_split: "crc_shift c = drop_bit 8 c XOR crc_shift (c AND 0xFF)"
proof -
  have "crc_shift (push_bit 8 (drop_bit 8 c)) = drop_bit 8 c"
  proof (subst crc_shift_low_zero)
    show "take_bit 8 (push_bit 8 (drop_bit 8 c)) = 0"
      by (rule bit_word_eqI) (auto simp: bit_simps)
    show "drop_bit 8 (push_bit 8 (drop_bit 8 c)) = drop_bit 8 c"
      by (rule bit_word_eqI) (auto simp: bit_simps dest: bit_imp_le_length)
  qed
  then show ?thesis
    using arg_cong [OF split_low [of c], of crc_shift] by (simp add: crc_shift_xor)
qed

lemma table_step: "drop_bit 8 c XOR table0 ! unat (c AND 0xFF) = crc_shift c"
  by (simp add: table0_nth unat_and_FF crc_shift_split [of c])

section \<open>The tables\<close>

lemma length_table0 [simp]: "length table0 = 256"
  by (simp add: table0_def)

lemma next_table_alt: "next_table t = map crc_shift t"
  by (simp add: next_table_def table_step)

lemma build_tables_from_nth:
  "k < n \<Longrightarrow> build_tables_from n t ! k = map (crc_shift ^^ k) t"
proof (induction n arbitrary: k t)
  case 0
  then show ?case by simp
next
  case (Suc n)
  then show ?case
    by (cases k) (auto simp: next_table_alt funpow_swap1)
qed

lemma TABLE_nth:
  assumes "k < 16" and "i < 256"
  shows "TABLE ! k ! i = (crc_shift ^^ Suc k) (of_nat i)"
proof -
  have "TABLE ! k ! i = (crc_shift ^^ k) (crc_shift (of_nat i))"
    using assms by (simp add: TABLE_def build_tables_def SLICES_def build_tables_from_nth table0_nth)
  then show ?thesis by (simp add: funpow_swap1)
qed

lemma TABLE_byte: "k < 16 \<Longrightarrow> TABLE ! k ! unat (b :: u8) = (crc_shift ^^ Suc k) (ucast b)"
  by (simp add: TABLE_nth del: funpow.simps)

lemma TABLE_low:
  "k < 16 \<Longrightarrow> TABLE ! k ! unat (c AND 0xFF :: u32) = (crc_shift ^^ Suc k) (c AND 0xFF)"
  using unat_and_FF [of c] by (simp add: TABLE_nth del: funpow.simps)

section \<open>One chunk\<close>

lemma fold_byte: "crc_byte crc b = crc_shift (crc XOR ucast b)"
proof -
  have z: "drop_bit 8 (ucast b :: u32) = 0"
    by (rule bit_word_eqI) (auto simp: bit_simps dest: bit_imp_le_length)
  have "TABLE ! 0 = table0"
    by (simp add: TABLE_def build_tables_def SLICES_def build_tables_from_nth del: build_tables_from.simps)
  with table_step [of "crc XOR ucast b"] z show ?thesis by (simp add: crc_byte_def)
qed

lemma peel_low:
  "(crc_shift ^^ Suc n) c = (crc_shift ^^ n) (drop_bit 8 c) XOR (crc_shift ^^ Suc n) (c AND 0xFF)"
proof -
  have "(crc_shift ^^ Suc n) c = (crc_shift ^^ n) (crc_shift c)" by (simp add: funpow_swap1)
  also have "crc_shift c = drop_bit 8 c XOR crc_shift (c AND 0xFF)" by (rule crc_shift_split)
  finally show ?thesis by (simp add: crc_shift_pow_xor funpow_swap1)
qed

lemma of_nat_le_nat_Cons:
  "(of_nat (le_nat (b # bs)) :: u32) = ucast b XOR push_bit 8 (of_nat (le_nat bs))"
proof -
  have "(of_nat (le_nat (b # bs)) :: u32) = ucast b + push_bit 8 (of_nat (le_nat bs))"
    by (simp add: push_bit_eq_mult)
  also have "\<dots> = ucast b XOR push_bit 8 (of_nat (le_nat bs))"
    by (rule disjunctive_add_eq_xor, rule bit_word_eqI)
      (auto simp: bit_simps dest: bit_imp_le_length)
  finally show ?thesis .
qed

lemma le_u32_four:
  "le_u32 [b0, b1, b2, b3] =
     ucast b0 XOR push_bit 8 (ucast b1 XOR push_bit 8 (ucast b2 XOR push_bit 8 (ucast b3)))"
  unfolding le_u32_def by (simp only: of_nat_le_nat_Cons) simp

lemma foldl_bytes:
  "foldl (\<lambda>crc b. crc_shift (crc XOR ucast b)) crc bs =
     (crc_shift ^^ length bs) crc XOR
     foldl (\<lambda>crc b. crc_shift (crc XOR ucast b)) 0 bs"
proof (induction bs rule: rev_induct)
  case Nil
  then show ?case by simp
next
  case (snoc b bs)
  then show ?case by (simp add: crc_shift_xor ac_simps)
qed

lemma pow_word_Cons:
  assumes "drop_bit 24 x = (0 :: u32)"
  shows "(crc_shift ^^ Suc n) (ucast (b :: u8) XOR push_bit 8 x) =
     (crc_shift ^^ Suc n) (ucast b) XOR (crc_shift ^^ n) x"
proof -
  have x: "\<not> bit x m" if "24 \<le> m" for m
  proof -
    have "\<not> bit (drop_bit 24 x) (m - 24)" by (simp add: assms)
    with that show ?thesis by (simp add: bit_simps)
  qed
  have "drop_bit 8 (ucast b XOR push_bit 8 x) = x"
    by (rule bit_word_eqI) (use x in \<open>auto simp: bit_simps not_le dest: bit_imp_le_length\<close>)
  moreover have "(ucast b XOR push_bit 8 x) AND 0xFF = (ucast b :: u32)"
    unfolding and_FF by (rule bit_word_eqI) (auto simp: bit_simps dest: bit_imp_le_length)
  ultimately show ?thesis
    using peel_low [of n "ucast b XOR push_bit 8 x"] by (simp add: ac_simps del: funpow.simps)
qed

lemma high_byte: "drop_bit 24 (ucast b :: u32) = 0" for b :: u8
  by (rule bit_word_eqI) (auto simp: bit_simps dest: bit_imp_le_length)

lemma drop_ucast_push:
  "drop_bit m (push_bit 8 x) = drop_bit (m - 8) x" if "8 \<le> m" "drop_bit 24 x = 0" for x :: u32
proof -
  have x: "k < 24" if "bit x k" for k
  proof (rule ccontr)
    assume "\<not> k < 24"
    moreover have "\<not> bit (drop_bit 24 x) (k - 24)" by (simp add: \<open>drop_bit 24 x = 0\<close>)
    ultimately show False using that by (simp add: bit_simps)
  qed
  show ?thesis
  proof (rule bit_word_eqI)
    fix n
    show "bit (drop_bit m (push_bit 8 x)) n = bit (drop_bit (m - 8) x) n"
      using that(1) x [of "m + n - 8"] by (auto simp: bit_simps)
  qed
qed

lemma pow_word:
  "(crc_shift ^^ Suc (Suc (Suc (Suc n)))) (le_u32 [b0, b1, b2, b3]) =
     (crc_shift ^^ Suc (Suc (Suc (Suc n)))) (ucast b0) XOR (crc_shift ^^ Suc (Suc (Suc n))) (ucast b1)
     XOR (crc_shift ^^ Suc (Suc n)) (ucast b2) XOR (crc_shift ^^ Suc n) (ucast b3)"
proof -
  have z: "drop_bit m (ucast b :: u32) = 0" if "8 \<le> m" for m and b :: u8
    by (rule bit_word_eqI) (use that in \<open>auto simp: bit_simps dest: bit_imp_le_length\<close>)
  let ?w2 = "ucast b2 XOR push_bit 8 (ucast b3) :: u32"
  let ?w1 = "ucast b1 XOR push_bit 8 ?w2 :: u32"
  have 2: "drop_bit 24 ?w2 = 0" by (simp only: drop_bit_xor) (simp add: z drop_ucast_push)
  have 1: "drop_bit 24 ?w1 = 0"
  proof -
    have "drop_bit 16 ?w2 = 0" by (simp only: drop_bit_xor) (simp add: z drop_ucast_push)
    then have "drop_bit 24 (push_bit 8 ?w2) = 0" by (simp only: drop_ucast_push 2) simp
    then show ?thesis by (simp only: drop_bit_xor) (simp add: z)
  qed
  show ?thesis
    using pow_word_Cons [OF 1, of "Suc (Suc (Suc n))" b0] pow_word_Cons [OF 2, of "Suc (Suc n)" b1]
      pow_word_Cons [OF high_byte, of "Suc n" b2 b3]
    unfolding le_u32_four by (simp add: ac_simps del: push_bit_xor funpow.simps)
qed

lemma peel_word:
  "(crc_shift ^^ 16) low =
     (crc_shift ^^ 16) (low AND 0xFF) XOR (crc_shift ^^ 15) (drop_bit 8 low AND 0xFF)
     XOR (crc_shift ^^ 14) (drop_bit 16 low AND 0xFF) XOR (crc_shift ^^ 13) (drop_bit 24 low)"
  using peel_low [of 15 low] peel_low [of 14 "drop_bit 8 low"] peel_low [of 13 "drop_bit 16 low"]
  by (simp add: ac_simps)

lemma crc_run_Cons:
  "foldl (\<lambda>crc b. crc_shift (crc XOR ucast b)) 0 (b # bs) =
     (crc_shift ^^ Suc (length bs)) (ucast b) XOR
     foldl (\<lambda>crc b. crc_shift (crc XOR ucast b)) 0 bs"
  using foldl_bytes [of "crc_shift (ucast b)" bs] by (simp add: funpow_swap1)

lemma crc_chunk_16:
  "crc_chunk crc [b0, b1, b2, b3, b4, b5, b6, b7, b8, b9, b10, b11, b12, b13, b14, b15] =
     foldl (\<lambda>crc b. crc_shift (crc XOR ucast b)) crc
       [b0, b1, b2, b3, b4, b5, b6, b7, b8, b9, b10, b11, b12, b13, b14, b15]"
proof -
  let ?bs = "[b0, b1, b2, b3, b4, b5, b6, b7, b8, b9, b10, b11, b12, b13, b14, b15]"
  let ?low = "crc XOR le_u32 [b0, b1, b2, b3]"
  have t24: "TABLE ! 12 ! unat (drop_bit 24 ?low) = (crc_shift ^^ 13) (drop_bit 24 ?low)"
  proof -
    have "unat (drop_bit 24 ?low) < 256"
    proof -
      have "unat (drop_bit 24 ?low) = unat ?low div 2 ^ 24"
        by (simp add: drop_bit_eq_div unat_div_distrib)
      then show ?thesis using unat_u32_lt [of ?low] by (simp add: less_mult_imp_div_less)
    qed
    then show ?thesis by (simp add: TABLE_nth)
  qed
  have "crc_chunk crc ?bs =
      (crc_shift ^^ 16) ?low
      XOR (crc_shift ^^ 12) (ucast b4) XOR (crc_shift ^^ 11) (ucast b5)
      XOR (crc_shift ^^ 10) (ucast b6) XOR (crc_shift ^^ 9) (ucast b7)
      XOR (crc_shift ^^ 8) (ucast b8) XOR (crc_shift ^^ 7) (ucast b9)
      XOR (crc_shift ^^ 6) (ucast b10) XOR (crc_shift ^^ 5) (ucast b11)
      XOR (crc_shift ^^ 4) (ucast b12) XOR (crc_shift ^^ 3) (ucast b13)
      XOR (crc_shift ^^ Suc (Suc 0)) (ucast b14) XOR (crc_shift ^^ 1) (ucast b15)"
    unfolding peel_word [of ?low]
    by (simp add: crc_chunk_def Let_def TABLE_byte TABLE_low t24 xor.assoc
        del: funpow.simps drop_bit_xor)
  also have "(crc_shift ^^ 16) ?low = (crc_shift ^^ 16) crc
      XOR (crc_shift ^^ 16) (ucast b0) XOR (crc_shift ^^ 15) (ucast b1)
      XOR (crc_shift ^^ 14) (ucast b2) XOR (crc_shift ^^ 13) (ucast b3)"
    using pow_word [of 12 b0 b1 b2 b3]
    by (simp add: crc_shift_pow_xor xor.assoc del: funpow.simps)
  finally show ?thesis
    unfolding foldl_bytes [of crc ?bs] crc_run_Cons
    by (simp add: xor.assoc numeral_eq_Suc del: funpow.simps)
qed

lemma crc_chunk_eq:
  assumes "length chunk = 16"
  shows "crc_chunk crc chunk = foldl (\<lambda>crc b. crc_shift (crc XOR ucast b)) crc chunk"
  using assms by (auto simp: numeral_eq_Suc length_Suc_conv crc_chunk_16)

section \<open>The sliced code computes the reference\<close>

lemma foldl_chunks:
  "foldl crc_byte (foldl crc_chunk crc (chunks_exact 16 bs)) (chunks_remainder 16 bs) =
     foldl (\<lambda>crc b. crc_shift (crc XOR ucast b)) crc bs"
proof (induction bs arbitrary: crc rule: chunk_induct [of 16])
  case 1
  then show ?case by simp
next
  case (2 xs)
  then show ?case
    by (simp add: chunks_exact_short chunks_remainder_short fold_byte [abs_def] fun_eq_iff)
next
  case (3 c xs)
  then show ?case by (simp add: chunks_exact_append chunks_remainder_append crc_chunk_eq)
qed

lemma crc32_eq_bitwise: "crc32 bs = crc32_bitwise bs"
  by (simp add: crc32_def crc32_bitwise_def SLICES_def foldl_chunks)

lemma xor_zero_eq: "x XOR y = 0 \<Longrightarrow> x = (y :: u32)"
proof -
  assume z: "x XOR y = 0"
  have "x = (x XOR y) XOR y" by (simp add: xor.assoc)
  then show "x = y" by (simp add: z)
qed

lemma xor_cancel_right [simp]: "x XOR z = y XOR z \<longleftrightarrow> x = (y :: u32)"
proof
  assume "x XOR z = y XOR z"
  then have "(x XOR z) XOR z = (y XOR z) XOR z" by (rule arg_cong)
  then show "x = y" by (simp add: xor.assoc)
qed simp

lemma xor_cancel_left [simp]: "z XOR x = z XOR y \<longleftrightarrow> x = (y :: u32)"
  by (simp only: xor.commute [of z] xor_cancel_right)

lemma crc_bit_zero: "crc_bit z = 0 \<Longrightarrow> z = 0"
proof -
  assume z: "crc_bit z = 0"
  have "\<not> bit z 0"
  proof
    assume "bit z 0"
    with z have eq: "drop_bit 1 z XOR 0xEDB88320 = 0" by (simp add: crc_bit_alt)
    have "\<not> bit (drop_bit 1 z) 31" by (auto simp: bit_simps dest: bit_imp_le_length)
    moreover have "bit (0xEDB88320 :: u32) 31" by simp
    ultimately have "bit (drop_bit 1 z XOR 0xEDB88320) 31" unfolding bit_xor_iff by blast
    with eq show False by simp
  qed
  with z have d: "drop_bit 1 z = 0" by (simp add: crc_bit_alt)
  show "z = 0"
  proof (rule bit_word_eqI)
    fix n
    have "bit z (Suc k) = False" for k
      using arg_cong [OF d, of "\<lambda>w. bit w k"] by (simp add: bit_simps)
    with \<open>\<not> bit z 0\<close> show "bit z n = bit 0 n" by (cases n) simp_all
  qed
qed

lemma crc_bit_pow_zero: "(crc_bit ^^ n) z = 0 \<Longrightarrow> z = 0"
  by (induction n) (auto dest: crc_bit_zero)

lemma crc_shift_pow_inj: "(crc_shift ^^ n) x = (crc_shift ^^ n) y \<Longrightarrow> x = y"
proof (induction n)
  case 0
  then show ?case by simp
next
  case (Suc n)
  then have "crc_shift ((crc_shift ^^ n) x XOR (crc_shift ^^ n) y) = 0" by (simp add: crc_shift_xor)
  then have "(crc_shift ^^ n) x XOR (crc_shift ^^ n) y = 0"
    by (metis crc_bit_pow_zero crc_shift_def)
  then have "(crc_shift ^^ n) x = (crc_shift ^^ n) y" by (rule xor_zero_eq)
  then show ?case by (rule Suc.IH)
qed

lemma crc_shift_0 [simp]: "crc_shift 0 = 0"
  using crc_shift_xor [of 0 0] by simp

section \<open>Burst errors\<close>

abbreviation crc_run :: "u32 \<Rightarrow> bytes \<Rightarrow> u32" where
  "crc_run \<equiv> foldl (\<lambda>crc b. crc_shift (crc XOR ucast b))"

lemma crc_run_word: "length w = 4 \<Longrightarrow> crc_run 0 w = (crc_shift ^^ 4) (le_u32 w)"
  using pow_word [of 0]
  by (auto simp: numeral_eq_Suc length_Suc_conv crc_shift_xor ac_simps)

lemma crc_run_inj_word:
  assumes "length v = 4" and "length w = 4" and "crc_run 0 v = crc_run 0 w"
  shows "v = w"
proof -
  have "le_u32 v = le_u32 w" using assms crc_shift_pow_inj [of 4] by (simp add: crc_run_word)
  then show ?thesis using assms(1,2) by (metis u32_le_le_u32)
qed

lemma crc_run_zeros: "crc_run 0 (replicate k 0 @ w) = crc_run 0 w"
proof (induction k)
  case (Suc k)
  then show ?case by simp
qed simp

lemma crc_run_inj:
  assumes "length v = length w" and "length w \<le> 4" and "crc_run 0 v = crc_run 0 w"
  shows "v = w"
proof -
  have "replicate (4 - length w) 0 @ v = replicate (4 - length w) (0 :: u8) @ w"
    by (rule crc_run_inj_word) (use assms in \<open>simp_all add: crc_run_zeros del: foldl_append\<close>)
  then show ?thesis by simp
qed

lemma crc32_burst:
  assumes "length v = length w" and "length w \<le> 4" and "v \<noteq> w"
  shows "crc32 (p @ v @ s) \<noteq> crc32 (p @ w @ s)"
proof
  assume eq: "crc32 (p @ v @ s) = crc32 (p @ w @ s)"
  let ?c = "crc_run 0xFFFFFFFF p"
  have "crc_run (crc_run ?c v) s = crc_run (crc_run ?c w) s"
    using eq by (simp add: crc32_eq_bitwise crc32_bitwise_def)
  then have "(crc_shift ^^ length s) (crc_run ?c v) = (crc_shift ^^ length s) (crc_run ?c w)"
    using foldl_bytes [of "crc_run ?c v" s] foldl_bytes [of "crc_run ?c w" s] by simp
  then have "crc_run ?c v = crc_run ?c w" by (rule crc_shift_pow_inj)
  then have "crc_run 0 v = crc_run 0 w"
    using assms(1) foldl_bytes [of ?c v] foldl_bytes [of ?c w] by simp
  with assms show False using crc_run_inj by blast
qed

text \<open>Evaluation at a concrete input, one polynomial step per bit.\<close>

lemma crc_shift_eval: "crc_shift c = crc_bit (crc_bit (crc_bit (crc_bit (crc_bit (crc_bit (crc_bit (crc_bit c)))))))"
  by (simp add: crc_shift_def eval_nat_numeral)

lemma crc_bit_eval: "crc_bit c = (if even c then drop_bit 1 c else drop_bit 1 c XOR 0xEDB88320)"
  by (simp add: crc_bit_alt bit_0)



lemma crc32_nil: "crc32 [] = 0"
  by (simp add: crc32_eq_bitwise crc32_bitwise_def)

lemma crc32_digit: "crc32 (ascii ''1'') = 0x83DCEFB7"
  by (simp add: crc32_eq_bitwise crc32_bitwise_def ascii_def crc_shift_eval crc_bit_eval)

section \<open>Properties\<close>

text \<open>C17: the sliced, table-driven checksum of the code is the bitwise CRC-32 of the declared
  reflected polynomial, on every byte string, so neither a wrong table nor a wrong distance of a
  byte from the end of its chunk is possible.\<close>

theorem crc32_computes_the_bitwise_crc: "crc32 bs = crc32_bitwise bs"
  by (rule crc32_eq_bitwise)

text \<open>Damage confined to four consecutive bytes, wherever it lies in the message, always
  changes the checksum, so a frame, block or blob whose payload was altered there is never
  accepted.\<close>

theorem crc32_detects_every_burst:
  assumes "length damaged = length original" and "length original \<le> 4" and "damaged \<noteq> original"
  shows "crc32 (before @ damaged @ after) \<noteq> crc32 (before @ original @ after)"
  using assms by (rule crc32_burst)

theorem crc32_detects_every_burst_witness:
  "crc32 ([7, 7] @ [1, 2, 3] @ [9]) \<noteq> crc32 ([7, 7] @ [1, 0, 3] @ [9])"
  by (rule crc32_detects_every_burst) simp_all

end
