(* ===== verification/Wal.thy ===== *)
theory Wal
  imports Crc "HOL-Library.Sublist"
begin

text \<open>
  \<open>src/src/wal.rs\<close>: the framing of the write-ahead log, the stamps that tie a frame to a
  generation (\<open>FoldedThrough\<close>, \<open>src/src/generation.rs\<close>), and recovery. A log file is a byte
  string; recovery is the loop of \<open>Wal::recover\<close> over it, with every way it stops: a clean end, a
  torn tail that is cut off, and the damage it refuses. The JSON encoding of a batch
  (\<open>serde_json\<close>, not under \<open>src/\<close>) is the parameter pair \<open>to_vec\<close> / \<open>from_slice\<close>. Operating-system
  read errors are not modelled: they end the open and change nothing.
\<close>

section \<open>Stamps\<close>

datatype folded_through = FoldedThrough (epoch: u64) (sequence: u64)

definition NONE :: folded_through where
  "NONE = FoldedThrough 0 0"

text \<open>The derived \<open>Ord\<close>: epoch first, then sequence.\<close>

instantiation folded_through :: linorder
begin

definition less_eq_folded_through :: "folded_through \<Rightarrow> folded_through \<Rightarrow> bool" where
  "x \<le> y \<longleftrightarrow> epoch x < epoch y \<or> (epoch x = epoch y \<and> sequence x \<le> sequence y)"

definition less_folded_through :: "folded_through \<Rightarrow> folded_through \<Rightarrow> bool" where
  "x < y \<longleftrightarrow> epoch x < epoch y \<or> (epoch x = epoch y \<and> sequence x < sequence y)"

instance
  by standard (auto simp: less_eq_folded_through_def less_folded_through_def
      intro: folded_through.expand)

end

lemma NONE_least [simp]: "NONE \<le> x"
  by (auto simp: NONE_def less_eq_folded_through_def word_gt_0)

lemma max_NONE [simp]: "max NONE x = x"
  by (simp add: max_def)

section \<open>Frames\<close>

definition WAL_MAGIC :: bytes where
  "WAL_MAGIC = ascii ''TRZWAL02''"

definition HEADER_BYTES :: nat where
  "HEADER_BYTES = 24"

definition V1_HEADER_BYTES :: nat where
  "V1_HEADER_BYTES = 8"

definition MAX_RECORD_BYTES :: nat where
  "MAX_RECORD_BYTES = 256 * 1024 * 1024"

lemma length_WAL_MAGIC [simp]: "length WAL_MAGIC = 8"
  by (simp add: WAL_MAGIC_def)

datatype wal_error =
    LogMagic                 \<comment> \<open>\<open>WalCorrupt\<close>: no log magic\<close>
  | RecordLength nat         \<comment> \<open>\<open>WalCorrupt\<close>: a length that cannot be real, at this byte\<close>
  | Checksum nat             \<comment> \<open>\<open>WalCorrupt\<close>: complete but fails its checksum\<close>
  | Decode nat               \<comment> \<open>\<open>WalCorrupt\<close>: does not decode\<close>
  | JsonError                \<comment> \<open>the batch does not serialize\<close>
  | RecordExceedsU32
  | RecordExceedsMaximum
  | IoError

text \<open>\<open>Wal::encode_batch\<close>. The sixteen stamp bytes are zero until \<open>Frame::stamp\<close> fills them.\<close>

definition encode_batch :: "('span list \<Rightarrow> bytes option) \<Rightarrow> 'span list \<Rightarrow> wal_error + bytes" where
  "encode_batch to_vec spans =
     (case to_vec spans of
        None \<Rightarrow> Inl JsonError
      | Some payload \<Rightarrow>
          if length payload \<ge> 2 ^ 32 then Inl RecordExceedsU32
          else if length payload > MAX_RECORD_BYTES then Inl RecordExceedsMaximum
          else Inr (u32_le (of_nat (length payload)) @ u32_le (crc32 payload)
                    @ replicate 16 0 @ payload))"

definition stamp :: "bytes \<Rightarrow> u64 \<Rightarrow> u64 \<Rightarrow> bytes" where
  "stamp frame e s = take 8 frame @ u64_le e @ u64_le s @ drop 24 frame"

section \<open>Recovery\<close>

text \<open>
  The loop of \<open>Wal::recover\<close>. \<open>rest\<close> is what the reader has not consumed, \<open>intact\<close> the bytes of
  complete verified frames, \<open>file_len\<close> the length the file had when it was opened, \<open>out\<close> what the sink
  has received. A result is \<open>(intact, highest, out)\<close> when the loop breaks.
\<close>

function recover_loop ::
  "(bytes \<Rightarrow> 'span list option) \<Rightarrow> nat \<Rightarrow> folded_through \<Rightarrow> bytes \<Rightarrow> nat \<Rightarrow> folded_through \<Rightarrow> 'span list
    \<Rightarrow> wal_error + (nat \<times> folded_through \<times> 'span list)" where
  "recover_loop from_slice file_len folded rest intact highest out =
     (let header = take HEADER_BYTES rest; body = drop HEADER_BYTES rest in
      if header = [] then Inr (intact, highest, out)
      else if length header < HEADER_BYTES then Inr (intact, highest, out)
      else
        let len = unat (le_u32 (bytes_at 0 4 header)); checksum = le_u32 (bytes_at 4 4 header);
            e = le_u64 (bytes_at 8 8 header); s = le_u64 (bytes_at 16 8 header)
        in if len = 0 \<or> len > MAX_RECORD_BYTES then
             (if list_all (\<lambda>b. b = 0) header \<and> list_all (\<lambda>b. b = 0) body
              then Inr (intact, highest, out)
              else Inl (RecordLength intact))
           else
             let remaining = file_len - (intact + HEADER_BYTES) in
             if len > remaining then Inr (intact, highest, out)
             else
               let payload = take len body in
               if length payload < len then Inr (intact, highest, out)
               else if crc32 payload \<noteq> checksum then Inl (Checksum intact)
               else
                 let st = FoldedThrough e s; highest' = max highest st in
                 if st > folded then
                   (case from_slice payload of
                      None \<Rightarrow> Inl (Decode intact)
                    | Some batch \<Rightarrow>
                        recover_loop from_slice file_len folded (drop len body)
                          (intact + HEADER_BYTES + len) highest' (out @ batch))
                 else
                   recover_loop from_slice file_len folded (drop len body)
                     (intact + HEADER_BYTES + len) highest' out)"
  by pat_completeness auto
termination
  by (relation "measure (\<lambda>(fs, t, fo, rest, i, h, out). length rest)")
    (auto simp: HEADER_BYTES_def Let_def)

declare recover_loop.simps [simp del]

text \<open>
  \<open>Wal::recover\<close> of the directory's log file (\<open>None\<close>: no such file). The result is the highest
  stamp seen, what the sink received, and the file as recovery leaves it: a torn tail is cut off.
\<close>

definition recover ::
  "(bytes \<Rightarrow> 'span list option) \<Rightarrow> folded_through \<Rightarrow> bytes option
    \<Rightarrow> wal_error + (folded_through \<times> 'span list \<times> bytes option)" where
  "recover from_slice folded file =
     (case file of
        None \<Rightarrow> Inr (NONE, [], None)
      | Some contents \<Rightarrow>
          let file_len = length contents in
          if file_len = 0 then Inr (NONE, [], Some contents)
          else if length (take 8 contents) < 8 \<or> take 8 contents \<noteq> WAL_MAGIC then Inl LogMagic
          else
            (case recover_loop from_slice file_len folded (drop 8 contents) 8 NONE [] of
               Inl e \<Rightarrow> Inl e
             | Inr (intact, highest, out) \<Rightarrow>
                 Inr (highest, out, Some (if intact < file_len then take intact contents else contents))))"

text \<open>\<open>Wal::recover_v1\<close>: the pre-generation log, eight-byte headers, no magic and no stamps.\<close>

function recover_v1_loop ::
  "(bytes \<Rightarrow> 'span list option) \<Rightarrow> nat \<Rightarrow> bytes \<Rightarrow> nat \<Rightarrow> 'span list \<Rightarrow> wal_error + 'span list" where
  "recover_v1_loop from_slice file_len rest intact out =
     (let header = take V1_HEADER_BYTES rest; body = drop V1_HEADER_BYTES rest in
      if length header < V1_HEADER_BYTES then Inr out
      else
        let len = unat (le_u32 (bytes_at 0 4 header)); checksum = le_u32 (bytes_at 4 4 header)
        in if len = 0 \<or> len > MAX_RECORD_BYTES then
             (if list_all (\<lambda>b. b = 0) header \<and> list_all (\<lambda>b. b = 0) body
              then Inr out else Inl (RecordLength intact))
           else
             let remaining = file_len - (intact + V1_HEADER_BYTES) in
             if len > remaining then Inr out
             else
               let payload = take len body in
               if length payload < len then Inr out
               else if crc32 payload \<noteq> checksum then Inl (Checksum intact)
               else
                 (case from_slice payload of
                    None \<Rightarrow> Inl (Decode intact)
                  | Some batch \<Rightarrow>
                      recover_v1_loop from_slice file_len (drop len body)
                        (intact + V1_HEADER_BYTES + len) (out @ batch)))"
  by pat_completeness auto
termination
  by (relation "measure (\<lambda>(fs, t, rest, i, out). length rest)")
    (auto simp: V1_HEADER_BYTES_def Let_def)

declare recover_v1_loop.simps [simp del]

definition recover_v1 :: "(bytes \<Rightarrow> 'span list option) \<Rightarrow> bytes option \<Rightarrow> wal_error + 'span list" where
  "recover_v1 from_slice file =
     (case file of None \<Rightarrow> Inr []
      | Some contents \<Rightarrow> recover_v1_loop from_slice (length contents) contents 0 [])"

section \<open>What the writer leaves in the file\<close>

text \<open>A stamped frame as the file holds it, and what recovery must make of it.\<close>

record frame =
  f_stamp :: folded_through
  f_payload :: bytes

definition frame_bytes :: "frame \<Rightarrow> bytes" where
  "frame_bytes f = u32_le (of_nat (length (f_payload f))) @ u32_le (crc32 (f_payload f))
     @ u64_le (epoch (f_stamp f)) @ u64_le (sequence (f_stamp f)) @ f_payload f"

definition frame_ok :: "frame \<Rightarrow> bool" where
  "frame_ok f \<longleftrightarrow> f_payload f \<noteq> [] \<and> length (f_payload f) \<le> MAX_RECORD_BYTES"

lemma encode_batch_stamped:
  assumes "encode_batch to_vec spans = Inr fr"
  shows "\<exists>payload. to_vec spans = Some payload \<and> length payload \<le> MAX_RECORD_BYTES \<and>
    stamp fr e s = frame_bytes \<lparr>f_stamp = FoldedThrough e s, f_payload = payload\<rparr>"
  using assms
  by (auto simp: encode_batch_def stamp_def frame_bytes_def split: option.splits if_splits)

lemma length_frame_bytes [simp, len_simps]: "length (frame_bytes f) = 24 + length (f_payload f)"
  by (simp add: frame_bytes_def)

lemma frame_bytes_nonempty [simp]: "frame_bytes f \<noteq> []"
  by (metis length_frame_bytes list.size(3) add_is_0 zero_neq_numeral)

lemma bytes_at_header [simp]:
  "bytes_at 0 4 (take 24 (frame_bytes f)) = u32_le (of_nat (length (f_payload f)))"
  "bytes_at 4 4 (take 24 (frame_bytes f)) = u32_le (crc32 (f_payload f))"
  "bytes_at 8 8 (take 24 (frame_bytes f)) = u64_le (epoch (f_stamp f))"
  "bytes_at 16 8 (take 24 (frame_bytes f)) = u64_le (sequence (f_stamp f))"
  by (simp_all add: bytes_at_def frame_bytes_def)

lemma drop_header [simp]: "drop 24 (frame_bytes f) = f_payload f"
  by (simp add: frame_bytes_def)

lemma unat_len: "n \<le> MAX_RECORD_BYTES \<Longrightarrow> unat (of_nat n :: u32) = n"
  by (simp add: MAX_RECORD_BYTES_def unat_of_nat)

lemma recover_loop_nil [simp]:
  "recover_loop fs n folded [] intact highest out = Inr (intact, highest, out)"
  by (subst recover_loop.simps) simp

text \<open>One good frame: decoded and handed to the sink when its stamp is after the fold point, skipped
  without decoding otherwise.\<close>

lemma recover_loop_frame:
  assumes "frame_ok f" and len: "file_len = intact + length (frame_bytes f @ r)"
  shows "recover_loop fs file_len folded (frame_bytes f @ r) intact highest out =
    (if f_stamp f > folded then
       (case fs (f_payload f) of
          None \<Rightarrow> Inl (Decode intact)
        | Some batch \<Rightarrow>
            recover_loop fs file_len folded r (intact + length (frame_bytes f))
              (max highest (f_stamp f)) (out @ batch))
     else recover_loop fs file_len folded r (intact + length (frame_bytes f))
            (max highest (f_stamp f)) out)"
  using assms
  by (subst recover_loop.simps)
    (simp add: HEADER_BYTES_def Let_def unat_len frame_ok_def add.assoc cong: option.case_cong if_cong)

text \<open>What a log of good frames replays to.\<close>

fun replayed :: "(bytes \<Rightarrow> 'span list option) \<Rightarrow> folded_through \<Rightarrow> frame list \<Rightarrow> 'span list" where
  "replayed from_slice folded [] = []"
| "replayed from_slice folded (f # fs) =
     (if f_stamp f > folded
      then (case from_slice (f_payload f) of None \<Rightarrow> [] | Some batch \<Rightarrow> batch)
      else []) @ replayed from_slice folded fs"

definition highest_stamp :: "folded_through \<Rightarrow> frame list \<Rightarrow> folded_through" where
  "highest_stamp h fs = foldl max h (map f_stamp fs)"

definition decodes :: "(bytes \<Rightarrow> 'span list option) \<Rightarrow> folded_through \<Rightarrow> frame \<Rightarrow> bool" where
  "decodes from_slice folded f \<longleftrightarrow>
     frame_ok f \<and> (f_stamp f > folded \<longrightarrow> from_slice (f_payload f) \<noteq> None)"

text \<open>What a crash can leave after the last complete frame: a header cut short, a payload cut short,
  or a gap the file system filled with zeros.\<close>

definition torn_tail :: "bytes \<Rightarrow> bool" where
  "torn_tail t \<longleftrightarrow>
     length t < HEADER_BYTES \<or> list_all (\<lambda>b. b = 0) t \<or>
     (\<exists>f. frame_ok f \<and> HEADER_BYTES \<le> length t \<and> length t < length (frame_bytes f)
        \<and> t = take (length t) (frame_bytes f))"

lemma replayed_append: "replayed fs folded (xs @ ys) = replayed fs folded xs @ replayed fs folded ys"
  by (induction xs) auto

lemma highest_stamp_Cons [simp]: "highest_stamp h (f # fs) = highest_stamp (max h (f_stamp f)) fs"
  by (simp add: highest_stamp_def)

lemma highest_stamp_Nil [simp]: "highest_stamp h [] = h"
  by (simp add: highest_stamp_def)

lemma highest_stamp_append: "highest_stamp h (xs @ ys) = highest_stamp (highest_stamp h xs) ys"
  by (simp add: highest_stamp_def)

lemma recover_loop_zeros:
  assumes "list_all (\<lambda>b. b = 0) t"
  shows "recover_loop fs n folded t intact highest out = Inr (intact, highest, out)"
proof (cases "length t < 24")
  case True
  then show ?thesis by (subst recover_loop.simps) (simp add: HEADER_BYTES_def)
next
  case False
  have rep: "t = replicate (length t) 0" using assms by (simp add: list_all_iff replicate_length_same)
  have "le_nat (replicate k 0) = 0" for k by (induction k) auto
  then have "le_u32 (bytes_at 0 4 (take 24 t)) = 0"
    by (subst rep) (simp add: bytes_at_def le_u32_def min_def)
  moreover have "list_all (\<lambda>b. b = 0) (take 24 t)" "list_all (\<lambda>b. b = 0) (drop 24 t)"
    using assms by (auto simp: list_all_iff dest: in_set_takeD in_set_dropD)
  ultimately show ?thesis using False
    by (subst recover_loop.simps) (simp add: HEADER_BYTES_def Let_def)
qed

lemma recover_loop_torn:
  assumes "torn_tail t" and "file_len = intact + length t"
  shows "recover_loop fs file_len folded t intact highest out = Inr (intact, highest, out)"
proof -
  consider "length t < 24" | "list_all (\<lambda>b. b = 0) t"
    | f where "frame_ok f" "24 \<le> length t" "length t < length (frame_bytes f)"
        "t = take (length t) (frame_bytes f)"
    using assms(1) by (auto simp: torn_tail_def HEADER_BYTES_def)
  then show ?thesis
  proof cases
    case 1
    then show ?thesis by (subst recover_loop.simps) (simp add: HEADER_BYTES_def)
  next
    case 2
    then show ?thesis by (rule recover_loop_zeros)
  next
    case 3
    have t24: "take 24 t = take 24 (frame_bytes f)"
      using 3(2) by (subst 3(4)) (simp add: min_def)
    have "length (f_payload f) > length t - 24" using 3(2,3) by simp
    with t24 3(1,2) assms(2) show ?thesis
      by (subst recover_loop.simps)
        (simp add: HEADER_BYTES_def Let_def t24 unat_len frame_ok_def)
  qed
qed

lemma recover_loop_frames:
  assumes "list_all (decodes from_slice folded) fs"
    and "file_len = intact + length (concat (map frame_bytes fs) @ t)"
  shows "recover_loop from_slice file_len folded (concat (map frame_bytes fs) @ t) intact highest out =
    recover_loop from_slice file_len folded t (intact + length (concat (map frame_bytes fs)))
      (highest_stamp highest fs) (out @ replayed from_slice folded fs)"
  using assms
proof (induction fs arbitrary: intact highest out)
  case Nil
  then show ?case by simp
next
  case (Cons f fs)
  then have "frame_ok f" and d: "f_stamp f > folded \<Longrightarrow> from_slice (f_payload f) \<noteq> None"
    by (auto simp: decodes_def)
  then show ?case
    using Cons.IH [of "intact + length (frame_bytes f)"] Cons.prems
    by (auto simp: recover_loop_frame add.assoc del: length_frame_bytes)
qed

section \<open>Recovery reads back exactly the complete frames\<close>

text \<open>The frames that are whole in the first \<open>k\<close> bytes of a log's frame area.\<close>

fun complete :: "nat \<Rightarrow> frame list \<Rightarrow> frame list" where
  "complete k [] = []"
| "complete k (f # fs) =
     (if length (frame_bytes f) \<le> k then f # complete (k - length (frame_bytes f)) fs else [])"

lemma torn_Nil [simp]: "torn_tail []"
  by (simp add: torn_tail_def HEADER_BYTES_def)

lemma torn_take: "frame_ok f \<Longrightarrow> k < length (frame_bytes f) \<Longrightarrow> torn_tail (take k (frame_bytes f))"
  unfolding torn_tail_def by (cases "k < HEADER_BYTES") (auto simp: min_def intro!: exI [of _ f])

lemma take_frames:
  assumes "list_all frame_ok fs"
  shows "\<exists>t. torn_tail t \<and>
    take k (concat (map frame_bytes fs)) = concat (map frame_bytes (complete k fs)) @ t"
  using assms
proof (induction fs arbitrary: k)
  case Nil
  then show ?case by (auto intro!: exI [of _ "[]"])
next
  case (Cons f fs)
  show ?case
  proof (cases "length (frame_bytes f) \<le> k")
    case True
    with Cons.IH [of "k - length (frame_bytes f)"] Cons.prems show ?thesis by auto
  next
    case False
    with Cons.prems show ?thesis
      by (auto intro!: exI [of _ "take k (frame_bytes f)"] torn_take)
  qed
qed

lemma complete_decodes: "list_all P fs \<Longrightarrow> list_all P (complete k fs)"
  by (induction k fs rule: complete.induct) auto

lemma complete_all: "length (concat (map frame_bytes fs)) \<le> k \<Longrightarrow> complete k fs = fs"
  by (induction fs arbitrary: k) auto

lemma recover_frames_torn:
  assumes "list_all (decodes from_slice folded) fs" and "torn_tail t"
  shows "recover from_slice folded (Some (WAL_MAGIC @ concat (map frame_bytes fs) @ t)) =
    Inr (highest_stamp NONE fs, replayed from_slice folded fs,
         Some (WAL_MAGIC @ concat (map frame_bytes fs)))"
proof -
  let ?c = "concat (map frame_bytes fs)"
  let ?n = "8 + length (?c @ t)"
  have "recover_loop from_slice ?n folded (?c @ t) 8 NONE []
      = recover_loop from_slice ?n folded t (8 + length ?c) (highest_stamp NONE fs)
          ([] @ replayed from_slice folded fs)"
    by (rule recover_loop_frames) (use assms(1) in simp_all)
  also have "\<dots> = Inr (8 + length ?c, highest_stamp NONE fs, replayed from_slice folded fs)"
    by (subst recover_loop_torn) (use assms(2) in simp_all)
  finally show ?thesis by (simp add: recover_def Let_def add.assoc)
qed

lemma decodes_frame_ok: "list_all (decodes from_slice folded) fs \<Longrightarrow> list_all frame_ok fs"
  by (auto simp: list_all_iff decodes_def)

lemma recover_prefix:
  assumes "list_all (decodes from_slice folded) fs"
  shows "recover from_slice folded (Some (WAL_MAGIC @ take k (concat (map frame_bytes fs)))) =
    Inr (highest_stamp NONE (complete k fs), replayed from_slice folded (complete k fs),
         Some (WAL_MAGIC @ concat (map frame_bytes (complete k fs))))"
proof -
  obtain t where "torn_tail t"
    and "take k (concat (map frame_bytes fs)) = concat (map frame_bytes (complete k fs)) @ t"
    using take_frames [OF decodes_frame_ok [OF assms]] by blast
  then show ?thesis using recover_frames_torn complete_decodes [OF assms] by metis
qed

section \<open>What recovery accepts is a sequence of checksummed frames\<close>

lemma header_parts:
  assumes "length h = 24"
  shows "h = bytes_at 0 4 h @ bytes_at 4 4 h @ bytes_at 8 8 h @ bytes_at 16 8 h"
proof -
  have "take 4 (drop 4 h) @ drop 8 h = drop 4 h"
    using append_take_drop_id [of 4 "drop 4 h"] by simp
  moreover have "take 8 (drop 8 h) @ drop 16 h = drop 8 h"
    using append_take_drop_id [of 8 "drop 8 h"] by simp
  ultimately show ?thesis using assms by (simp add: bytes_at_def)
qed

lemma parsed_frame:
  assumes "24 \<le> length rest" and "len = unat (le_u32 (bytes_at 0 4 (take 24 rest)))"
    and "len \<le> length (drop 24 rest)"
    and "crc32 (take len (drop 24 rest)) = le_u32 (bytes_at 4 4 (take 24 rest))"
  shows "rest = frame_bytes \<lparr>f_stamp = FoldedThrough (le_u64 (bytes_at 8 8 (take 24 rest))) (le_u64 (bytes_at 16 8 (take 24 rest))),
      f_payload = take len (drop 24 rest)\<rparr> @ drop len (drop 24 rest)"
proof -
  let ?h = "take 24 rest"
  have h: "length ?h = 24" using assms(1) by simp
  have w: "u32_le (le_u32 (bytes_at i 4 ?h)) = bytes_at i 4 ?h" if "i + 4 \<le> 24" for i
    by (rule u32_le_le_u32) (use that h in simp)
  have q: "u64_le (le_u64 (bytes_at i 8 ?h)) = bytes_at i 8 ?h" if "i + 8 \<le> 24" for i
    by (rule u64_le_le_u64) (use that h in simp)
  have len: "length (take len (drop 24 rest)) = len" using assms(3) by simp
  have "rest = ?h @ take len (drop 24 rest) @ drop len (drop 24 rest)"
    by (simp only: append_take_drop_id)
  also have "?h = bytes_at 0 4 ?h @ bytes_at 4 4 ?h @ bytes_at 8 8 ?h @ bytes_at 16 8 ?h"
    by (rule header_parts) (rule h)
  finally have rest: "rest = (bytes_at 0 4 ?h @ bytes_at 4 4 ?h @ bytes_at 8 8 ?h @ bytes_at 16 8 ?h)
    @ take len (drop 24 rest) @ drop len (drop 24 rest)" .
  have lenw: "u32_le (of_nat len) = bytes_at 0 4 ?h" by (simp add: assms(2) w)
  show ?thesis
    unfolding frame_bytes_def frame.simps folded_through.sel len assms(4) lenw
    using rest by (simp only: w q append_assoc)
qed

text \<open>Every way the loop can succeed: it stops where it stands, or it consumed one whole frame.\<close>

lemma recover_loop_Inr_cases:
  assumes "recover_loop from_slice n folded rest intact highest out = Inr r"
    and "n = intact + length rest"
  obtains (stop) "r = (intact, highest, out)"
  | (frame) f rest' where "rest = frame_bytes f @ rest'" "decodes from_slice folded f"
      "recover_loop from_slice n folded rest' (intact + length (frame_bytes f)) (max highest (f_stamp f))
         (out @ replayed from_slice folded [f]) = Inr r"
proof -
  let ?len = "unat (le_u32 (bytes_at 0 4 (take 24 rest)))"
  let ?f = "\<lparr>f_stamp = FoldedThrough (le_u64 (bytes_at 8 8 (take 24 rest))) (le_u64 (bytes_at 16 8 (take 24 rest))),
      f_payload = take ?len (drop 24 rest)\<rparr>"
  consider "r = (intact, highest, out)"
    | "24 \<le> length rest" "?len \<noteq> 0" "?len \<le> MAX_RECORD_BYTES" "?len \<le> length (drop 24 rest)"
      "crc32 (take ?len (drop 24 rest)) = le_u32 (bytes_at 4 4 (take 24 rest))"
    using assms
    by (subst (asm) recover_loop.simps) (auto simp: HEADER_BYTES_def Let_def min_def split: if_splits)
  then show ?thesis
  proof cases
    case 1
    then show ?thesis by (rule stop)
  next
    case 2
    then have rest: "rest = frame_bytes ?f @ drop ?len (drop 24 rest)"
      by (intro parsed_frame) simp_all
    have ok: "frame_ok ?f" using 2 by (auto simp: frame_ok_def)
    let ?rest' = "drop ?len (drop 24 rest)"
    have n: "n = intact + length (frame_bytes ?f @ ?rest')" using assms(2) rest by metis
    have eq: "recover_loop from_slice n folded (frame_bytes ?f @ ?rest') intact highest out = Inr r"
      using assms(1) rest by metis
    show ?thesis
      using frame [of ?f ?rest'] eq rest ok
      unfolding recover_loop_frame [OF ok n]
      by (auto simp: decodes_def split: if_splits option.splits simp del: length_frame_bytes drop_drop)
  qed
qed

lemma recover_loop_sound:
  assumes "recover_loop from_slice n folded rest intact highest out = Inr (intact', highest', out')"
    and "n = intact + length rest"
  shows "\<exists>fs t. rest = concat (map frame_bytes fs) @ t \<and> list_all (decodes from_slice folded) fs
    \<and> intact' = intact + length (concat (map frame_bytes fs))
    \<and> highest' = highest_stamp highest fs \<and> out' = out @ replayed from_slice folded fs"
  using assms
proof (induction "length rest" arbitrary: rest intact highest out rule: less_induct)
  case less
  from less.prems show ?case
  proof (cases rule: recover_loop_Inr_cases)
    case stop
    then show ?thesis by (intro exI [of _ "[]"] exI [of _ rest]) simp
  next
    case (frame f rest')
    have "length rest' < length rest" using frame(1) by simp
    moreover have "n = intact + length (frame_bytes f) + length rest'" using less.prems(2) frame(1) by simp
    ultimately obtain fs t where "rest' = concat (map frame_bytes fs) @ t"
      "list_all (decodes from_slice folded) fs"
      "intact' = intact + length (frame_bytes f) + length (concat (map frame_bytes fs))"
      "highest' = highest_stamp (max highest (f_stamp f)) fs"
      "out' = (out @ replayed from_slice folded [f]) @ replayed from_slice folded fs"
      using less.hyps [OF _ frame(3)] by blast
    with frame(1,2) show ?thesis
      by (intro exI [of _ "f # fs"] exI [of _ t]) simp
  qed
qed

lemma recover_sound_aux:
  assumes "recover from_slice folded (Some contents) = Inr (highest, out, file')" and "contents \<noteq> []"
  shows "\<exists>fs. list_all (decodes from_slice folded) fs
    \<and> file' = Some (WAL_MAGIC @ concat (map frame_bytes fs))
    \<and> prefix (WAL_MAGIC @ concat (map frame_bytes fs)) contents
    \<and> highest = highest_stamp NONE fs \<and> out = replayed from_slice folded fs"
proof -
  have magic: "8 \<le> length contents" "take 8 contents = WAL_MAGIC"
    using assms by (auto simp: recover_def Let_def split: if_splits)
  then have contents: "contents = WAL_MAGIC @ drop 8 contents" by (metis append_take_drop_id)
  obtain intact where l: "recover_loop from_slice (length contents) folded (drop 8 contents) 8 NONE [] = Inr (intact, highest, out)"
    and file': "file' = Some (if intact < length contents then take intact contents else contents)"
    using assms magic by (auto simp: recover_def Let_def split: sum.splits)
  obtain fs t where d: "drop 8 contents = concat (map frame_bytes fs) @ t"
    "list_all (decodes from_slice folded) fs" "intact = 8 + length (concat (map frame_bytes fs))"
    "highest = highest_stamp NONE fs" "out = [] @ replayed from_slice folded fs"
    using recover_loop_sound [OF l] magic(1) by auto
  have c: "contents = (WAL_MAGIC @ concat (map frame_bytes fs)) @ t" using contents d(1) by simp
  have "(if intact < length contents then take intact contents else contents)
      = WAL_MAGIC @ concat (map frame_bytes fs)"
    by (subst (1 2 3) c) (simp add: d(3))
  with file' d c show ?thesis by (intro exI [of _ fs]) (auto simp: prefix_def)
qed

section \<open>Damage inside the log is refused\<close>

lemma recover_loop_checksum:
  assumes "frame_ok f" and "length p = length (f_payload f)" and "crc32 p \<noteq> crc32 (f_payload f)"
    and "file_len = intact + length (take 24 (frame_bytes f) @ p @ r)"
  shows "recover_loop from_slice file_len folded (take 24 (frame_bytes f) @ p @ r) intact highest out
    = Inl (Checksum intact)"
  using assms
  by (subst recover_loop.simps) (simp add: HEADER_BYTES_def Let_def unat_len frame_ok_def min_def)

section \<open>The pre-generation log\<close>

definition frame_bytes_v1 :: "bytes \<Rightarrow> bytes" where
  "frame_bytes_v1 p = u32_le (of_nat (length p)) @ u32_le (crc32 p) @ p"

lemma v1_header [simp]:
  "bytes_at 0 4 (take 8 (frame_bytes_v1 p)) = u32_le (of_nat (length p))"
  "bytes_at 4 4 (take 8 (frame_bytes_v1 p)) = u32_le (crc32 p)"
  "drop 8 (frame_bytes_v1 p) = p"
  "length (frame_bytes_v1 p) = 8 + length p"
  by (simp_all add: bytes_at_def frame_bytes_v1_def)

lemma recover_v1_loop_frame:
  assumes "p \<noteq> []" and "length p \<le> MAX_RECORD_BYTES" and "from_slice p = Some batch"
    and "file_len = intact + length (frame_bytes_v1 p @ r)"
  shows "recover_v1_loop from_slice file_len (frame_bytes_v1 p @ r) intact out
    = recover_v1_loop from_slice file_len r (intact + length (frame_bytes_v1 p)) (out @ batch)"
  using assms
  by (subst recover_v1_loop.simps) (simp add: V1_HEADER_BYTES_def Let_def unat_len add.assoc)

lemma recover_v1_loop_frames:
  assumes "list_all (\<lambda>p. p \<noteq> [] \<and> length p \<le> MAX_RECORD_BYTES \<and> from_slice p \<noteq> None) ps"
    and "length t < V1_HEADER_BYTES"
    and "file_len = intact + length (concat (map frame_bytes_v1 ps) @ t)"
  shows "recover_v1_loop from_slice file_len (concat (map frame_bytes_v1 ps) @ t) intact out
    = Inr (out @ concat (map (the \<circ> from_slice) ps))"
  using assms
proof (induction ps arbitrary: intact out)
  case Nil
  then show ?case by (subst recover_v1_loop.simps) (simp add: V1_HEADER_BYTES_def)
next
  case (Cons p ps)
  then obtain batch where "from_slice p = Some batch" by auto
  then show ?case
    using Cons.IH [of "intact + length (frame_bytes_v1 p)"] Cons.prems
    by (simp add: recover_v1_loop_frame add.assoc del: v1_header(4))
qed

section \<open>Properties\<close>

text \<open>C25: a log that crashed at any byte recovers. Whatever prefix of the frame area survived, replay
  hands over exactly the batches of the frames that are complete in it and lie after the fold point,
  in append order, reports the highest stamp among them, and leaves the file cut back to the last
  complete frame.\<close>

theorem recovery_after_a_crash_at_any_byte:
  assumes "list_all (decodes from_slice folded) fs"
  shows "recover from_slice folded (Some (WAL_MAGIC @ take k (concat (map frame_bytes fs)))) =
    Inr (highest_stamp NONE (complete k fs), replayed from_slice folded (complete k fs),
         Some (WAL_MAGIC @ concat (map frame_bytes (complete k fs))))"
  using assms by (rule recover_prefix)

definition wframe :: frame where
  "wframe = \<lparr>f_stamp = FoldedThrough 1 1, f_payload = [91, 93]\<rparr>"

theorem recovery_after_a_crash_at_any_byte_witness:
  "recover (\<lambda>_. Some [0 :: nat]) NONE (Some (WAL_MAGIC @ take 30 (concat (map frame_bytes [wframe, wframe]))))
    = Inr (FoldedThrough 1 1, [0], Some (WAL_MAGIC @ frame_bytes wframe))"
proof -
  have "list_all (decodes (\<lambda>_. Some [0 :: nat]) NONE) [wframe, wframe]"
    by (simp add: decodes_def frame_ok_def wframe_def MAX_RECORD_BYTES_def)
  from recovery_after_a_crash_at_any_byte [OF this, of 30] show ?thesis
    by (simp add: wframe_def NONE_def less_folded_through_def highest_stamp_def max_def
        less_eq_folded_through_def)
qed

text \<open>Recovery invents nothing. When it accepts a non-empty file, the file it leaves is the log
  magic followed by whole frames whose checksums hold, that file is a prefix of the file it found,
  and the spans handed over are the decoded batches of those of its frames that lie after the fold
  point.\<close>

theorem recovery_accepts_only_checksummed_frames:
  assumes "recover from_slice folded (Some contents) = Inr (highest, out, file')" and "contents \<noteq> []"
  shows "\<exists>fs. list_all (decodes from_slice folded) fs
    \<and> file' = Some (WAL_MAGIC @ concat (map frame_bytes fs))
    \<and> prefix (WAL_MAGIC @ concat (map frame_bytes fs)) contents
    \<and> highest = highest_stamp NONE fs \<and> out = replayed from_slice folded fs"
  using assms by (rule recover_sound_aux)

theorem recovery_accepts_only_checksummed_frames_witness:
  "\<exists>fs. list_all (decodes (\<lambda>_. Some [0 :: nat]) NONE) fs
    \<and> Some (WAL_MAGIC @ frame_bytes wframe) = Some (WAL_MAGIC @ concat (map frame_bytes fs))
    \<and> prefix (WAL_MAGIC @ concat (map frame_bytes fs)) (WAL_MAGIC @ frame_bytes wframe @ [1, 2])
    \<and> FoldedThrough 1 1 = highest_stamp NONE fs \<and> [0] = replayed (\<lambda>_. Some [0 :: nat]) NONE fs"
proof (rule recovery_accepts_only_checksummed_frames)
  have "list_all (decodes (\<lambda>_. Some [0 :: nat]) NONE) [wframe]"
    by (simp add: decodes_def frame_ok_def wframe_def MAX_RECORD_BYTES_def)
  moreover have "torn_tail [1, 2]" by (simp add: torn_tail_def HEADER_BYTES_def)
  ultimately show "recover (\<lambda>_. Some [0 :: nat]) NONE (Some (WAL_MAGIC @ frame_bytes wframe @ [1, 2]))
      = Inr (FoldedThrough 1 1, [0], Some (WAL_MAGIC @ frame_bytes wframe))"
    using recover_frames_torn [of "\<lambda>_. Some [0 :: nat]" NONE "[wframe]" "[1, 2]"]
    by (simp add: wframe_def NONE_def less_folded_through_def highest_stamp_def max_def
        less_eq_folded_through_def)
qed simp

text \<open>Recovery is idempotent. A second open of the file it left sees the same spans and the same
  highest stamp, and finds nothing more to cut off.\<close>

theorem recovery_is_idempotent:
  assumes "recover from_slice folded file = Inr (highest, out, file')"
  shows "recover from_slice folded file' = Inr (highest, out, file')"
proof (cases "file = None \<or> file = Some []")
  case True
  with assms show ?thesis by (auto simp: recover_def)
next
  case False
  then obtain contents where c: "file = Some contents" "contents \<noteq> []" by (cases "file") auto
  from recover_sound_aux [OF assms [unfolded c(1)] c(2)] obtain fs where
    "list_all (decodes from_slice folded) fs" "file' = Some (WAL_MAGIC @ concat (map frame_bytes fs))"
    "highest = highest_stamp NONE fs" "out = replayed from_slice folded fs" by auto
  with recover_frames_torn [of from_slice folded fs "[]"] show ?thesis by simp
qed

theorem recovery_is_idempotent_witness:
  "recover (\<lambda>_. Some [0 :: nat]) NONE (Some (WAL_MAGIC)) = Inr (NONE, [], Some WAL_MAGIC)"
  by (rule recovery_is_idempotent [of _ _ "Some (WAL_MAGIC @ [5])"])
    (simp add: recover_def Let_def recover_loop.simps [of _ _ _ "[5]"] HEADER_BYTES_def)

text \<open>C16: a complete frame whose payload was damaged within four consecutive bytes is never replayed
  and never mistaken for an interrupted append: the open fails at that frame's offset, whatever
  precedes and follows it.\<close>

theorem damage_in_a_complete_frame_is_refused:
  assumes "list_all (decodes from_slice folded) fs" and "frame_ok f"
    and "f_payload f = before @ original @ after"
    and "length damaged = length original" and "length original \<le> 4" and "damaged \<noteq> original"
  shows "recover from_slice folded
      (Some (WAL_MAGIC @ concat (map frame_bytes fs) @ take 24 (frame_bytes f)
             @ (before @ damaged @ after) @ rest))
    = Inl (Checksum (length (WAL_MAGIC @ concat (map frame_bytes fs))))"
proof -
  let ?p = "before @ damaged @ after"
  let ?c = "concat (map frame_bytes fs)"
  let ?t = "take 24 (frame_bytes f) @ ?p @ rest"
  let ?n = "8 + length (?c @ ?t)"
  have crc: "crc32 ?p \<noteq> crc32 (f_payload f)"
    unfolding assms(3) using assms(4-6) by (rule crc32_burst)
  have "recover_loop from_slice ?n folded (?c @ ?t) 8 NONE []
      = recover_loop from_slice ?n folded ?t (8 + length ?c) (highest_stamp NONE fs)
          ([] @ replayed from_slice folded fs)"
    by (rule recover_loop_frames) (use assms(1) in simp_all)
  also have "\<dots> = Inl (Checksum (8 + length ?c))"
    by (rule recover_loop_checksum) (use assms(2-4) crc in simp_all)
  finally show ?thesis by (simp add: recover_def Let_def add.assoc)
qed

theorem damage_in_a_complete_frame_is_refused_witness:
  "recover (\<lambda>_. Some [0 :: nat]) NONE
      (Some (WAL_MAGIC @ concat (map frame_bytes [wframe]) @ take 24 (frame_bytes wframe)
             @ ([91] @ [92] @ []) @ [1, 2, 3]))
    = Inl (Checksum (length (WAL_MAGIC @ concat (map frame_bytes [wframe]))))"
  by (rule damage_in_a_complete_frame_is_refused [where original = "[93]"])
    (simp_all add: decodes_def frame_ok_def wframe_def MAX_RECORD_BYTES_def)

text \<open>The fold point makes reclaiming the log housekeeping. Replaying a log that still holds the
  frames folded into the live generation gives the same spans as replaying the log from which they
  were removed.\<close>

theorem folded_frames_never_replay:
  assumes "list_all (decodes from_slice folded) fs"
  shows "map_sum id (\<lambda>(highest, out, file). out)
      (recover from_slice folded (Some (WAL_MAGIC @ concat (map frame_bytes fs))))
    = map_sum id (\<lambda>(highest, out, file). out)
      (recover from_slice folded
        (Some (WAL_MAGIC @ concat (map frame_bytes (filter (\<lambda>f. f_stamp f > folded) fs)))))"
proof -
  have "list_all (decodes from_slice folded) (filter (\<lambda>f. f_stamp f > folded) fs)"
    using assms by (auto simp: list_all_iff)
  moreover have "replayed from_slice folded (filter (\<lambda>f. f_stamp f > folded) fs) = replayed from_slice folded fs"
    by (induction fs) auto
  ultimately show ?thesis
    using recover_frames_torn [OF assms torn_Nil]
      recover_frames_torn [of from_slice folded "filter (\<lambda>f. f_stamp f > folded) fs" "[]"]
    by simp
qed

theorem folded_frames_never_replay_witness:
  "map_sum id (\<lambda>(highest, out, file). out)
      (recover (\<lambda>_. Some [0 :: nat]) (FoldedThrough 1 1) (Some (WAL_MAGIC @ concat (map frame_bytes [wframe]))))
    = map_sum id (\<lambda>(highest, out, file). out)
      (recover (\<lambda>_. Some [0 :: nat]) (FoldedThrough 1 1)
        (Some (WAL_MAGIC @ concat (map frame_bytes (filter (\<lambda>f. f_stamp f > FoldedThrough 1 1) [wframe])))))"
  by (rule folded_frames_never_replay)
    (simp add: decodes_def frame_ok_def wframe_def MAX_RECORD_BYTES_def)

end
