(* ===== verification/Wal_Commit.thy ===== *)
theory Wal_Commit
  imports Wal
begin

text \<open>
  \<open>src/src/wal.rs\<close>, the running log: \<open>WalState\<close> and the operations on it under its lock
  (\<open>open\<close>, \<open>append\<close>, \<open>position\<close>, \<open>reset\<close>, \<open>advance_epoch\<close>, \<open>rewrite\<close>), and group commit, whose
  fsync runs outside the lock. Each lock section of \<open>commit\<close> is one definition, so threads interleave
  between them; \<open>wal_step\<close> is that interleaving. The file system is described by what each call
  reports: a write or sync that fails is an argument of the operation.
\<close>

section \<open>The state under the lock\<close>

record wal_state =
  log_file :: bytes        \<comment> \<open>what the append handle's file holds\<close>
  written_lsn :: nat
  durable_lsn :: nat
  syncing :: bool
  log_bytes :: nat
  w_epoch :: u64
  w_sequence :: u64

text \<open>\<open>Wal::open\<close>: an empty or absent file gets the magic.\<close>

definition wal_open :: "bytes option \<Rightarrow> u64 \<Rightarrow> u64 \<Rightarrow> wal_state" where
  "wal_open existing e resume_after =
     (let contents = (case existing of None \<Rightarrow> [] | Some c \<Rightarrow> c);
          contents' = (if length contents = 0 then WAL_MAGIC else contents)
      in \<lparr>log_file = contents', written_lsn = 0, durable_lsn = 0, syncing = False,
          log_bytes = length contents', w_epoch = e, w_sequence = resume_after\<rparr>)"

text \<open>\<open>Wal::append\<close>. The last argument is how the write ends: \<open>None\<close> when \<open>write_all\<close> succeeds,
  \<open>Some k\<close> when it fails after \<open>k\<close> bytes have reached the file. The sequence number is spent either
  way.\<close>

definition append_frame :: "bytes \<Rightarrow> nat option \<Rightarrow> wal_state \<Rightarrow> (wal_error + nat) \<times> wal_state" where
  "append_frame frame write_ends s =
     (let s = s\<lparr>w_sequence := w_sequence s + 1\<rparr>;
          stamped = stamp frame (w_epoch s) (w_sequence s)
      in case write_ends of
           Some k \<Rightarrow> (Inl IoError, s\<lparr>log_file := log_file s @ take k stamped\<rparr>)
         | None \<Rightarrow>
             let s = s\<lparr>log_file := log_file s @ stamped, log_bytes := log_bytes s + length frame,
                       written_lsn := written_lsn s + 1\<rparr>
             in (Inr (written_lsn s), s))"

definition position :: "wal_state \<Rightarrow> folded_through" where
  "position s = FoldedThrough (w_epoch s) (w_sequence s)"

datatype reset_io = ResetOk | SetLenFails | ResetSyncFails

definition reset :: "reset_io \<Rightarrow> wal_state \<Rightarrow> (wal_error + unit) \<times> wal_state" where
  "reset io s =
     (case io of
        SetLenFails \<Rightarrow> (Inl IoError, s)
      | ResetSyncFails \<Rightarrow> (Inl IoError, s\<lparr>log_file := take (length WAL_MAGIC) (log_file s)\<rparr>)
      | ResetOk \<Rightarrow>
          (Inr (), s\<lparr>log_file := take (length WAL_MAGIC) (log_file s), log_bytes := length WAL_MAGIC,
                     durable_lsn := written_lsn s\<rparr>))"

definition advance_epoch :: "u64 \<Rightarrow> wal_state \<Rightarrow> wal_state" where
  "advance_epoch e s = s\<lparr>w_epoch := max (w_epoch s) e\<rparr>"

text \<open>\<open>Wal::rewrite\<close>: staged, renamed, then the directory synced. Past the rename the state follows the
  new file even when the directory sync is reported as failed.\<close>

datatype rewrite_io = RewriteOk | StageFails | RenameFails | DirSyncFails

definition rewrite ::
  "('span list \<Rightarrow> bytes option) \<Rightarrow> 'span list \<Rightarrow> u64 \<Rightarrow> rewrite_io \<Rightarrow> wal_state
    \<Rightarrow> (wal_error + unit) \<times> wal_state" where
  "rewrite to_vec spans e io s =
     (case (if spans = [] then Inr None else map_sum id Some (encode_batch to_vec spans)) of
        Inl err \<Rightarrow> (Inl err, s)
      | Inr frame \<Rightarrow>
          let s = s\<lparr>w_epoch := max (w_epoch s) e\<rparr>;
              s = (if frame = None then s else s\<lparr>w_sequence := w_sequence s + 1\<rparr>);
              contents = WAL_MAGIC @
                (case frame of None \<Rightarrow> [] | Some f \<Rightarrow> stamp f (w_epoch s) (w_sequence s))
          in case io of
               StageFails \<Rightarrow> (Inl IoError, s)
             | RenameFails \<Rightarrow> (Inl IoError, s)
             | _ \<Rightarrow>
                 (if io = DirSyncFails then Inl IoError else Inr (),
                  s\<lparr>log_file := contents,
                    log_bytes := length WAL_MAGIC + (case frame of None \<Rightarrow> 0 | Some f \<Rightarrow> length f),
                    durable_lsn := written_lsn s\<rparr>))"

definition size_bytes :: "wal_state \<Rightarrow> nat" where
  "size_bytes s = log_bytes s - length WAL_MAGIC"

text \<open>\<open>Wal::write_fresh\<close>: the contents the migration stages and renames onto the log.\<close>

definition write_fresh :: "('span list \<Rightarrow> bytes option) \<Rightarrow> 'span list \<Rightarrow> u64 \<Rightarrow> wal_error + bytes" where
  "write_fresh to_vec spans e =
     (if spans = [] then Inr WAL_MAGIC
      else case encode_batch to_vec spans of
             Inl err \<Rightarrow> Inl err
           | Inr frame \<Rightarrow> Inr (WAL_MAGIC @ stamp frame e 1))"

section \<open>Group commit, one definition per lock section\<close>

text \<open>What a committing thread does next: return, wait for the condition variable, run the sync for a
  target it holds, or return the error of a failed \<open>try_clone\<close>.\<close>

datatype commit_next = Acked | MustWait | SyncTo nat | CloneError

definition commit_begin :: "nat \<Rightarrow> bool \<Rightarrow> wal_state \<Rightarrow> commit_next \<times> wal_state" where
  "commit_begin lsn clone_ok s =
     (if durable_lsn s \<ge> lsn then (Acked, s)
      else if syncing s then (MustWait, s)
      else
        let s = s\<lparr>syncing := True\<rparr>; target = written_lsn s
        in if clone_ok then (SyncTo target, s) else (CloneError, s))"

text \<open>After the commit window, the second lock section takes the target and the handle again.\<close>

definition commit_window :: "bool \<Rightarrow> wal_state \<Rightarrow> commit_next \<times> wal_state" where
  "commit_window clone_ok s =
     (let target = written_lsn s in if clone_ok then (SyncTo target, s) else (CloneError, s))"

definition commit_end :: "nat \<Rightarrow> bool \<Rightarrow> wal_state \<Rightarrow> (wal_error + unit) \<times> wal_state" where
  "commit_end target sync_ok s =
     (let s = s\<lparr>syncing := False\<rparr>;
          s = (if sync_ok then s\<lparr>durable_lsn := max (durable_lsn s) target\<rparr> else s)
      in (if sync_ok then Inr () else Inl IoError, s))"

section \<open>The log and its committers\<close>

text \<open>
  The system state adds what the code does not store: which batch each frame of the current file
  carries (\<open>entries\<close>: LSN, spans, frame), the frames the file already held when it was opened
  (\<open>base\<close>), the highest LSN whose frame is on stable storage (\<open>disk\<close>), which inode is the log, the
  inode and target the syncing thread holds (\<open>inflight\<close>), and up to which LSN a seal or a rewrite has
  taken over (\<open>retired\<close>). Two doubts are kept as well: part of a frame is in the file, or its
  truncation was not synced (\<open>torn\<close>); and the name of the log may still lead to an earlier file
  (\<open>adrift\<close>).
\<close>

record 'span wal_sys =
  st :: wal_state
  base :: "frame list"
  entries :: "(nat \<times> 'span list \<times> frame) list"
  disk :: nat
  inode :: nat
  inflight :: "(nat \<times> nat) option"
  retired :: nat
  torn :: bool
  adrift :: bool

abbreviation last_frame :: "wal_state \<Rightarrow> bytes \<Rightarrow> frame" where
  "last_frame s payload \<equiv> \<lparr>f_stamp = position s, f_payload = payload\<rparr>"

inductive wal_step ::
  "('span list \<Rightarrow> bytes option) \<Rightarrow> 'span wal_sys \<Rightarrow> 'span wal_sys \<Rightarrow> bool" for to_vec where
  appending:
    "wal_step to_vec c (c\<lparr>st := s', entries := entries c @ [(lsn, spans, last_frame s' payload)]\<rparr>)"
    if "encode_batch to_vec spans = Inr fr" and "to_vec spans = Some payload"
      and "append_frame fr None (st c) = (Inr lsn, s')" and "w_sequence (st c) \<noteq> - 1"
| append_failing:
    "wal_step to_vec c (c\<lparr>st := s', torn := (torn c \<or> 0 < k)\<rparr>)"
    if "append_frame fr (Some k) (st c) = (Inl err, s')" and "w_sequence (st c) \<noteq> - 1"
| sync_starts:
    "wal_step to_vec c (c\<lparr>st := s', inflight := Some (inode c, target)\<rparr>)"
    if "commit_begin lsn True (st c) = (SyncTo target, s')"
| clone_fails:
    "wal_step to_vec c (c\<lparr>st := s'\<rparr>)"
    if "commit_begin lsn False (st c) = (CloneError, s')"
| window_closes:
    "wal_step to_vec c (c\<lparr>st := s', inflight := Some (inode c, target)\<rparr>)"
    if "inflight c = Some held" and "commit_window True (st c) = (SyncTo target, s')"
| window_clone_fails:
    "wal_step to_vec c (c\<lparr>st := s', inflight := None\<rparr>)"
    if "inflight c = Some held" and "commit_window False (st c) = (CloneError, s')"
| sync_ends:
    "wal_step to_vec c (c\<lparr>st := s', inflight := None,
        disk := (if sync_ok \<and> i = inode c then max (disk c) target else disk c)\<rparr>)"
    if "inflight c = Some (i, target)" and "commit_end target sync_ok (st c) = (r, s')"
| resets:
    "wal_step to_vec c (c\<lparr>st := s', base := [], entries := [], retired := written_lsn s', torn := False\<rparr>)"
    if "reset ResetOk (st c) = (Inr (), s')"
| reset_refused:
    "wal_step to_vec c (c\<lparr>st := s'\<rparr>)"
    if "reset SetLenFails (st c) = (Inl err, s')"
| reset_unsynced:
    "wal_step to_vec c (c\<lparr>st := s', base := [], entries := [], retired := written_lsn s', torn := True\<rparr>)"
    if "reset ResetSyncFails (st c) = (Inl err, s')"
| epoch_advances:
    "wal_step to_vec c (c\<lparr>st := advance_epoch e (st c)\<rparr>)"
| rewrite_to_nothing:
    "wal_step to_vec c (c\<lparr>st := s', base := [], entries := [], disk := written_lsn s', inode := Suc (inode c),
        retired := written_lsn s', torn := False, adrift := (io = DirSyncFails)\<rparr>)"
    if "rewrite to_vec [] e io (st c) = (res, s')" and "io = RewriteOk \<or> io = DirSyncFails"
| rewrite_to_survivors:
    "wal_step to_vec c (c\<lparr>st := s', base := [],
        entries := [(written_lsn s', spans, last_frame s' payload)],
        disk := written_lsn s', inode := Suc (inode c), retired := written_lsn s', torn := False,
        adrift := (io = DirSyncFails)\<rparr>)"
    if "spans \<noteq> []" and "encode_batch to_vec spans = Inr fr" and "to_vec spans = Some payload"
      and "rewrite to_vec spans e io (st c) = (res, s')" and "io = RewriteOk \<or> io = DirSyncFails"
      and "w_sequence (st c) \<noteq> - 1"
| rewrite_fails:
    "wal_step to_vec c (c\<lparr>st := s'\<rparr>)"
    if "rewrite to_vec spans e io (st c) = (Inl err, s')" and "io = StageFails \<or> io = RenameFails"
      and "w_sequence (st c) \<noteq> - 1"

inductive wal_reachable ::
  "('span list \<Rightarrow> bytes option) \<Rightarrow> 'span wal_sys \<Rightarrow> 'span wal_sys \<Rightarrow> bool" for to_vec c0 where
  start: "wal_reachable to_vec c0 c0"
| step: "wal_reachable to_vec c0 c \<Longrightarrow> wal_step to_vec c c' \<Longrightarrow> wal_reachable to_vec c0 c'"

text \<open>The system as \<open>Store::open\<close> starts it, on a log recovery left with the frames \<open>fs\<close>.\<close>

definition opened :: "frame list \<Rightarrow> u64 \<Rightarrow> u64 \<Rightarrow> 'span wal_sys" where
  "opened fs e resume_after =
     \<lparr>st = wal_open (Some (WAL_MAGIC @ concat (map frame_bytes fs))) e resume_after, base = fs,
      entries = [], disk = 0, inode = 0, inflight = None, retired = 0, torn = False, adrift = False\<rparr>"

section \<open>The invariant\<close>

definition entry_ok ::
  "('span list \<Rightarrow> bytes option) \<Rightarrow> folded_through \<Rightarrow> 'span wal_sys \<Rightarrow> nat \<times> 'span list \<times> frame \<Rightarrow> bool" where
  "entry_ok to_vec s0 c = (\<lambda>(lsn, spans, f).
     lsn \<le> written_lsn (st c) \<and> to_vec spans = Some (f_payload f) \<and>
     length (f_payload f) \<le> MAX_RECORD_BYTES \<and> s0 < f_stamp f)"

text \<open>The file holds the frames of the ledger, unless it is torn.\<close>

definition file_inv :: "'span wal_sys \<Rightarrow> bool" where
  "file_inv c \<longleftrightarrow>
     take (length WAL_MAGIC) (log_file (st c)) = WAL_MAGIC \<and>
     (\<not> torn c \<longrightarrow>
        log_file (st c) = WAL_MAGIC @ concat (map frame_bytes (base c @ map (snd \<circ> snd) (entries c))) \<and>
        log_bytes (st c) = length (log_file (st c)))"

definition ledger_inv ::
  "('span list \<Rightarrow> bytes option) \<Rightarrow> folded_through \<Rightarrow> 'span wal_sys \<Rightarrow> bool" where
  "ledger_inv to_vec s0 c \<longleftrightarrow>
     sorted_wrt (<) (map fst (entries c)) \<and>
     list_all (entry_ok to_vec s0 c) (entries c) \<and>
     (\<forall>x \<in> set (entries c). retired c < fst x \<or> fst x \<le> disk c) \<and>
     (\<forall>l. retired c < l \<and> l \<le> written_lsn (st c) \<longrightarrow> l \<in> fst ` set (entries c)) \<and>
     retired c \<le> written_lsn (st c) \<and> disk c \<le> written_lsn (st c) \<and>
     durable_lsn (st c) \<le> max (disk c) (retired c) \<and>
     (inflight c \<noteq> None \<longrightarrow> syncing (st c)) \<and>
     (\<forall>i t. inflight c = Some (i, t) \<longrightarrow>
        t \<le> written_lsn (st c) \<and> i \<le> inode c \<and> (i \<noteq> inode c \<longrightarrow> t \<le> retired c)) \<and>
     s0 \<le> position (st c)"

definition sys_inv ::
  "('span list \<Rightarrow> bytes option) \<Rightarrow> folded_through \<Rightarrow> 'span wal_sys \<Rightarrow> bool" where
  "sys_inv to_vec s0 c \<longleftrightarrow> file_inv c \<and> ledger_inv to_vec s0 c"

lemma opened_inv: "sys_inv to_vec (FoldedThrough e r) (opened fs e r)"
  by (simp add: sys_inv_def file_inv_def ledger_inv_def opened_def wal_open_def position_def Let_def WAL_MAGIC_def ascii_def) auto

lemma word_less_succ: "w \<noteq> - 1 \<Longrightarrow> w < w + (1 :: u64)"
  using unatSuc [of w] max_word_wrap [of w]
  by (metis add.commute lessI word_less_nat_alt)

lemma encode_batch_length:
  "encode_batch to_vec spans = Inr fr \<Longrightarrow> to_vec spans = Some payload \<Longrightarrow>
    length fr = 24 + length payload \<and> length payload \<le> MAX_RECORD_BYTES \<and>
    stamp fr e s = frame_bytes \<lparr>f_stamp = FoldedThrough e s, f_payload = payload\<rparr>"
  by (auto simp: encode_batch_def stamp_def frame_bytes_def split: if_splits)

lemma position_step:
  "w_sequence s \<noteq> - 1 \<Longrightarrow> s0 \<le> position s \<Longrightarrow>
    s0 < FoldedThrough (w_epoch s) (w_sequence s + 1)"
  using word_less_succ [of "w_sequence s"]
  by (auto simp: position_def less_folded_through_def less_eq_folded_through_def)

lemma append_inv:
  assumes inv: "sys_inv to_vec s0 c"
    and fr: "encode_batch to_vec spans = Inr fr" "to_vec spans = Some payload"
    and app: "append_frame fr None (st c) = (Inr lsn, s')" and seq: "w_sequence (st c) \<noteq> - 1"
  shows "sys_inv to_vec s0 (c\<lparr>st := s', entries := entries c @ [(lsn, spans, last_frame s' payload)]\<rparr>)"
proof -
  let ?s = "st c"
  let ?f = "\<lparr>f_stamp = FoldedThrough (w_epoch ?s) (w_sequence ?s + 1), f_payload = payload\<rparr>"
  note e = encode_batch_length [OF fr, of "w_epoch ?s" "w_sequence ?s + 1"]
  have lsn: "lsn = Suc (written_lsn ?s)" and s': "s' = ?s\<lparr>w_sequence := w_sequence ?s + 1,
      log_file := log_file ?s @ frame_bytes ?f, log_bytes := log_bytes ?s + (24 + length payload),
      written_lsn := Suc (written_lsn ?s)\<rparr>"
    using app e by (auto simp: append_frame_def Let_def)
  let ?c = "c\<lparr>st := s', entries := entries c @ [(lsn, spans, last_frame s' payload)]\<rparr>"
  have L: "ledger_inv to_vec s0 c" and F: "file_inv c" using inv by (simp_all add: sys_inv_def)
  have tags: "\<forall>x\<in>set (entries c). fst x < lsn"
    using L by (auto simp: ledger_inv_def entry_ok_def list_all_iff lsn)
  have new: "s0 < f_stamp ?f" using position_step [OF seq] L by (simp add: ledger_inv_def)
  have "file_inv ?c" using F by (auto simp: file_inv_def s' position_def)
  moreover have "ledger_inv to_vec s0 ?c"
    using L tags new e fr(2)
    by (auto simp: ledger_inv_def s' lsn position_def entry_ok_def list_all_iff sorted_wrt_append
        le_Suc_eq less_imp_le)
  ultimately show ?thesis by (simp add: sys_inv_def)
qed

lemma append_failing_inv:
  assumes "sys_inv to_vec s0 c" and "append_frame fr (Some k) (st c) = (Inl err, s')"
    and "w_sequence (st c) \<noteq> - 1"
  shows "sys_inv to_vec s0 (c\<lparr>st := s', torn := (torn c \<or> 0 < k)\<rparr>)"
proof -
  have "s' = st c\<lparr>w_sequence := w_sequence (st c) + 1,
      log_file := log_file (st c) @ take k (stamp fr (w_epoch (st c)) (w_sequence (st c) + 1))\<rparr>"
    using assms(2) by (auto simp: append_frame_def Let_def)
  moreover have "s0 < FoldedThrough (w_epoch (st c)) (w_sequence (st c) + 1)"
    using assms(1,3) position_step by (simp add: sys_inv_def ledger_inv_def)
  moreover have "length WAL_MAGIC \<le> length (log_file (st c))"
    using assms(1) arg_cong [of _ _ length] by (fastforce simp: sys_inv_def file_inv_def)
  ultimately show ?thesis using assms(1)
    by (auto simp: sys_inv_def file_inv_def ledger_inv_def entry_ok_def position_def)
qed

lemma commit_section_inv:
  assumes "sys_inv to_vec s0 c"
  shows "sys_inv to_vec s0 (c\<lparr>st := st c\<lparr>syncing := True\<rparr>\<rparr>)"
    and "sys_inv to_vec s0 (c\<lparr>st := st c\<lparr>syncing := True\<rparr>,
           inflight := Some (inode c, written_lsn (st c))\<rparr>)"
    and "sys_inv to_vec s0 (c\<lparr>inflight := None\<rparr>)"
  using assms by (auto simp: sys_inv_def file_inv_def ledger_inv_def entry_ok_def position_def)

lemma sync_ends_inv:
  assumes inv: "sys_inv to_vec s0 c" and held: "inflight c = Some (i, target)"
    and e: "commit_end target sync_ok (st c) = (r, s')"
  shows "sys_inv to_vec s0 (c\<lparr>st := s', inflight := None,
      disk := (if sync_ok \<and> i = inode c then max (disk c) target else disk c)\<rparr>)"
proof -
  have "s' = st c\<lparr>syncing := False, durable_lsn :=
      (if sync_ok then max (durable_lsn (st c)) target else durable_lsn (st c))\<rparr>"
    using e by (auto simp: commit_end_def Let_def)
  then show ?thesis using inv held
    by (auto simp: sys_inv_def file_inv_def ledger_inv_def entry_ok_def position_def)
qed

lemma resets_inv:
  assumes "sys_inv to_vec s0 c" and "reset io (st c) = (res, s')"
  shows "io = ResetOk \<Longrightarrow> sys_inv to_vec s0 (c\<lparr>st := s', base := [], entries := [], retired := written_lsn s', torn := False\<rparr>)"
    and "io = ResetSyncFails \<Longrightarrow> sys_inv to_vec s0 (c\<lparr>st := s', base := [], entries := [], retired := written_lsn s', torn := True\<rparr>)"
  using assms by (auto simp: sys_inv_def file_inv_def ledger_inv_def reset_def position_def)

lemma epoch_advances_inv:
  assumes "sys_inv to_vec s0 c"
  shows "sys_inv to_vec s0 (c\<lparr>st := advance_epoch e (st c)\<rparr>)"
proof -
  have "position (st c) \<le> position (advance_epoch e (st c))"
    by (auto simp: position_def advance_epoch_def less_eq_folded_through_def max_def)
  with assms show ?thesis
    by (auto simp: sys_inv_def file_inv_def ledger_inv_def entry_ok_def advance_epoch_def position_def)
qed

lemma rewrite_to_nothing_inv:
  assumes "sys_inv to_vec s0 c" and "rewrite to_vec [] e io (st c) = (res, s')" and "io = RewriteOk \<or> io = DirSyncFails"
  shows "sys_inv to_vec s0 (c\<lparr>st := s', base := [], entries := [], disk := written_lsn s',
      inode := Suc (inode c), retired := written_lsn s', torn := False, adrift := (io = DirSyncFails)\<rparr>)"
proof -
  have s': "s' = st c\<lparr>w_epoch := max (w_epoch (st c)) e, log_file := WAL_MAGIC,
      log_bytes := length WAL_MAGIC, durable_lsn := written_lsn (st c)\<rparr>"
    using assms(2,3) by (auto simp: rewrite_def Let_def)
  have "position (st c) \<le> FoldedThrough (max (w_epoch (st c)) e) (w_sequence (st c))"
    by (auto simp: position_def less_eq_folded_through_def max_def)
  with assms(1) show ?thesis
    by (auto simp: sys_inv_def file_inv_def ledger_inv_def s' position_def intro: order_trans)
qed

lemma rewrite_to_survivors_inv:
  assumes inv: "sys_inv to_vec s0 c" and sp: "spans \<noteq> []" "encode_batch to_vec spans = Inr fr" "to_vec spans = Some payload"
    and rw: "rewrite to_vec spans e io (st c) = (res, s')" "io = RewriteOk \<or> io = DirSyncFails" and seq: "w_sequence (st c) \<noteq> - 1"
  shows "sys_inv to_vec s0 (c\<lparr>st := s', base := [],
      entries := [(written_lsn s', spans, last_frame s' payload)], disk := written_lsn s',
      inode := Suc (inode c), retired := written_lsn s', torn := False, adrift := (io = DirSyncFails)\<rparr>)"
proof -
  let ?s = "st c"
  let ?e = "max (w_epoch ?s) e"
  note b = encode_batch_length [OF sp(2,3), of ?e "w_sequence ?s + 1"]
  have s': "s' = ?s\<lparr>w_epoch := ?e, w_sequence := w_sequence ?s + 1,
      log_file := WAL_MAGIC @ frame_bytes \<lparr>f_stamp = FoldedThrough ?e (w_sequence ?s + 1), f_payload = payload\<rparr>,
      log_bytes := length WAL_MAGIC + (24 + length payload), durable_lsn := written_lsn ?s\<rparr>"
    using rw sp(1,2) b by (auto simp: rewrite_def Let_def)
  have "position ?s < FoldedThrough ?e (w_sequence ?s + 1)"
    using word_less_succ [OF seq] by (auto simp: position_def less_folded_through_def max_def)
  moreover have "s0 \<le> position ?s" using inv by (simp add: sys_inv_def ledger_inv_def)
  ultimately have "s0 < FoldedThrough ?e (w_sequence ?s + 1)" by simp
  with inv b sp(3) show ?thesis
    by (auto simp: sys_inv_def file_inv_def ledger_inv_def s' position_def entry_ok_def)
qed

text \<open>A rewrite that fails before its rename has spent a stamp at most.\<close>

lemma rewrite_fails_state:
  assumes "rewrite to_vec spans e io s = (Inl err, s')" and "io = StageFails \<or> io = RenameFails" and "w_sequence s \<noteq> - 1"
  shows "s' = s\<lparr>w_epoch := w_epoch s', w_sequence := w_sequence s'\<rparr>" and "position s \<le> position s'"
proof -
  have le: "position s \<le> FoldedThrough (max (w_epoch s) e) (w_sequence s)"
    "position s \<le> FoldedThrough (max (w_epoch s) e) (w_sequence s + 1)"
    using word_less_succ [OF assms(3)] by (auto simp: position_def less_eq_folded_through_def max_def)
  from assms(1,2) le show "position s \<le> position s'"
    by (auto simp: rewrite_def Let_def position_def split: sum.splits if_splits)
  from assms(1,2) show "s' = s\<lparr>w_epoch := w_epoch s', w_sequence := w_sequence s'\<rparr>"
    by (auto simp: rewrite_def Let_def split: sum.splits if_splits)
qed

lemma rewrite_fails_inv:
  assumes inv: "sys_inv to_vec s0 c" and rw: "rewrite to_vec spans e io (st c) = (Inl err, s')" "io = StageFails \<or> io = RenameFails"
    "w_sequence (st c) \<noteq> - 1"
  shows "sys_inv to_vec s0 (c\<lparr>st := s'\<rparr>)"
proof -
  have same: "log_file s' = log_file (st c)" "log_bytes s' = log_bytes (st c)" "written_lsn s' = written_lsn (st c)"
    "durable_lsn s' = durable_lsn (st c)" "syncing s' = syncing (st c)"
    by (subst rewrite_fails_state(1) [OF rw], simp)+
  have "s0 \<le> position s'"
    using inv rewrite_fails_state(2) [OF rw] by (auto simp: sys_inv_def ledger_inv_def)
  with inv show ?thesis by (auto simp: sys_inv_def file_inv_def ledger_inv_def entry_ok_def same)
qed

lemma wal_step_inv: "wal_step to_vec c c' \<Longrightarrow> sys_inv to_vec s0 c \<Longrightarrow> sys_inv to_vec s0 c'"
proof (induction rule: wal_step.induct)
  case (sync_starts lsn c target s')
  then have "s' = st c\<lparr>syncing := True\<rparr>" "target = written_lsn (st c)"
    by (auto simp: commit_begin_def Let_def split: if_splits)
  with sync_starts show ?case using commit_section_inv(2) by simp
next
  case (clone_fails lsn c s')
  then have "s' = st c\<lparr>syncing := True\<rparr>" by (auto simp: commit_begin_def Let_def split: if_splits)
  with clone_fails show ?case using commit_section_inv(1) by simp
next
  case (window_closes c held target s')
  then have "s' = st c" "target = written_lsn (st c)" "syncing (st c)"
    by (auto simp: commit_window_def Let_def sys_inv_def ledger_inv_def)
  with window_closes show ?case by (auto simp: sys_inv_def file_inv_def ledger_inv_def entry_ok_def position_def)
next
  case (window_clone_fails c held s')
  then have "s' = st c" by (auto simp: commit_window_def Let_def)
  with window_clone_fails show ?case using commit_section_inv(3) [of to_vec s0 c] by simp
next
  case (reset_refused c err s')
  then have "s' = st c" by (simp add: reset_def)
  then show ?case using reset_refused.prems by simp
qed (blast intro: append_inv append_failing_inv sync_ends_inv resets_inv epoch_advances_inv rewrite_to_nothing_inv
    rewrite_to_survivors_inv rewrite_fails_inv)+

lemma reachable_inv:
  "wal_reachable to_vec c0 c \<Longrightarrow> sys_inv to_vec s0 c0 \<Longrightarrow> sys_inv to_vec s0 c"
  by (induction rule: wal_reachable.induct) (auto intro: wal_step_inv)

lemma reachable_base: "wal_reachable to_vec c0 c \<Longrightarrow> base c = [] \<or> base c = base c0"
proof (induction rule: wal_reachable.induct)
  case (step c c')
  from step(2) have "base c' = base c \<or> base c' = []" by (induction rule: wal_step.induct) auto
  with step.IH show ?case by auto
qed simp

section \<open>Crashes\<close>

text \<open>The entries of the current file whose frames are on stable storage, and the bytes they end at:
  what no crash may lose.\<close>

definition on_disk :: "'span wal_sys \<Rightarrow> (nat \<times> 'span list \<times> frame) list" where
  "on_disk c = takeWhile (\<lambda>x. fst x \<le> disk c) (entries c)"

definition stable_bytes :: "'span wal_sys \<Rightarrow> nat" where
  "stable_bytes c =
     8 + length (concat (map frame_bytes (base c @ map (snd \<circ> snd) (on_disk c))))"

definition json_batch :: "('span list \<Rightarrow> bytes option) \<Rightarrow> (bytes \<Rightarrow> 'span list option) \<Rightarrow> bool" where
  "json_batch to_vec from_slice \<longleftrightarrow>
     (\<forall>spans payload. to_vec spans = Some payload \<longrightarrow> payload \<noteq> [] \<and> from_slice payload = Some spans)"

lemma complete_append:
  "length (concat (map frame_bytes xs)) \<le> k \<Longrightarrow>
   complete k (xs @ ys) = xs @ complete (k - length (concat (map frame_bytes xs))) ys"
  by (induction xs arbitrary: k) auto

lemma complete_is_take: "\<exists>n. complete k fs = take n fs"
proof (induction fs arbitrary: k)
  case (Cons f fs)
  obtain n where "complete (k - length (frame_bytes f)) fs = take n fs" using Cons by blast
  then show ?case
    by (cases "length (frame_bytes f) \<le> k") (auto intro: exI [of _ "Suc n"] exI [of _ 0])
qed simp

lemma entries_decode:
  assumes "sys_inv to_vec s0 c" and "json_batch to_vec from_slice" and "folded \<le> s0"
    and "set es \<subseteq> set (entries c)"
  shows "list_all (decodes from_slice folded) (map (snd \<circ> snd) es)
    \<and> replayed from_slice folded (map (snd \<circ> snd) es) = concat (map (fst \<circ> snd) es)"
  using assms(4)
proof (induction es)
  case (Cons x es)
  obtain l spans f where x: "x = (l, spans, f)" by (cases x)
  with Cons.prems assms(1) have "entry_ok to_vec s0 c (l, spans, f)"
    unfolding sys_inv_def ledger_inv_def list_all_iff by auto
  then have "folded < f_stamp f" "frame_ok f" "from_slice (f_payload f) = Some spans"
    using assms(2,3) by (auto simp: entry_ok_def json_batch_def frame_ok_def)
  with Cons x show ?case by (simp add: decodes_def)
qed simp

lemma sorted_takeWhile:
  "sorted_wrt (<) (map fst xs) \<Longrightarrow> x \<in> set xs \<Longrightarrow> fst x \<le> (d :: nat) \<Longrightarrow>
    x \<in> set (takeWhile (\<lambda>x. fst x \<le> d) xs)"
  by (induction xs) fastforce+

lemma crash_recovers:
  assumes inv: "sys_inv to_vec s0 c" "\<not> torn c" and codec: "json_batch to_vec from_slice" and "folded \<le> s0"
    and b: "list_all (decodes from_slice folded) (base c)" and k: "stable_bytes c \<le> k"
  shows "\<exists>n highest file'. recover from_slice folded (Some (take k (log_file (st c)))) =
      Inr (highest, replayed from_slice folded (base c) @ concat (map (fst \<circ> snd) (take n (entries c))), file')
    \<and> set (on_disk c) \<subseteq> set (take n (entries c))"
proof -
  let ?fr = "map (snd \<circ> snd) :: (nat \<times> 'a list \<times> frame) list \<Rightarrow> frame list"
  let ?d = "on_disk c"
  obtain rest where es: "entries c = ?d @ rest"
    unfolding on_disk_def by (metis takeWhile_dropWhile_id)
  have k8: "8 \<le> k" and kd: "length (concat (map frame_bytes (base c @ ?fr ?d))) \<le> k - 8"
    using k by (auto simp: stable_bytes_def)
  have "log_file (st c) = WAL_MAGIC @ concat (map frame_bytes (base c @ ?fr (entries c)))"
    using inv by (simp add: sys_inv_def file_inv_def)
  then have img: "take k (log_file (st c)) =
      WAL_MAGIC @ take (k - 8) (concat (map frame_bytes (base c @ ?fr (entries c))))"
    using k8 by simp
  have all: "list_all (decodes from_slice folded) (base c @ ?fr (entries c))"
    using b entries_decode [OF inv(1) codec assms(4), of "entries c"] by simp
  have "base c @ ?fr (entries c) = (base c @ ?fr ?d) @ ?fr rest" by (subst es) simp
  then have "complete (k - 8) (base c @ ?fr (entries c)) = (base c @ ?fr ?d)
      @ complete (k - 8 - length (concat (map frame_bytes (base c @ ?fr ?d)))) (?fr rest)"
    using complete_append [OF kd] by metis
  moreover obtain m where "complete (k - 8 - length (concat (map frame_bytes (base c @ ?fr ?d)))) (?fr rest) = take m (?fr rest)"
    using complete_is_take by blast
  ultimately have cmp: "complete (k - 8) (base c @ ?fr (entries c)) = base c @ ?fr (take (length ?d + m) (entries c))"
    by (subst (2) es) (simp add: take_map)
  have "replayed from_slice folded (?fr (take (length ?d + m) (entries c)))
      = concat (map (fst \<circ> snd) (take (length ?d + m) (entries c)))"
    using entries_decode [OF inv(1) codec assms(4), of "take (length ?d + m) (entries c)"]
    by (simp add: set_take_subset)
  then have "recover from_slice folded (Some (take k (log_file (st c)))) =
      Inr (highest_stamp NONE (base c @ ?fr (take (length ?d + m) (entries c))),
        replayed from_slice folded (base c) @ concat (map (fst \<circ> snd) (take (length ?d + m) (entries c))),
        Some (WAL_MAGIC @ concat (map frame_bytes (base c @ ?fr (take (length ?d + m) (entries c))))))"
    unfolding img recover_prefix [OF all] cmp by (simp add: replayed_append)
  moreover have "set ?d \<subseteq> set (take (length ?d + m) (entries c))" by (subst es) simp
  ultimately show ?thesis by blast
qed

lemma durable_on_disk:
  assumes "sys_inv to_vec s0 c" and "x \<in> set (entries c)" and "fst x \<le> durable_lsn (st c)"
  shows "x \<in> set (on_disk c)"
  unfolding on_disk_def
  by (rule sorted_takeWhile) (use assms in \<open>fastforce simp: sys_inv_def ledger_inv_def\<close>)+

section \<open>Properties\<close>

text \<open>C3: an acknowledgement follows its fsync. In every interleaving of appends, group commits, resets, rewrites and epoch
  changes, each succeeding or failing at any of its calls, a crash that keeps what reached stable storage (and any longer
  prefix of the file) recovers, and replays, in append order and after what the log already held at open, every batch of
  the current file whose LSN \<open>commit\<close> may have acknowledged. A batch at or below \<open>durable_lsn\<close> that is no longer in the
  file was in it when a later reset emptied it or a later rewrite replaced it. Two states are left out: part of a frame,
  or an unsynced truncation, is in the file, which lasts to the next successful reset or the next rewrite; and the
  directory was not synced after the last rename, which lasts to the next successful rewrite.\<close>

theorem acknowledged_batches_survive_a_crash:
  assumes "wal_reachable to_vec (opened fs e r) c"
    and "json_batch to_vec from_slice" and "folded \<le> FoldedThrough e r"
    and "list_all (decodes from_slice folded) fs" and "stable_bytes c \<le> k"
    and "\<not> torn c" and "\<not> adrift c"
  shows "\<exists>n highest file'. recover from_slice folded (Some (take k (log_file (st c)))) =
      Inr (highest, replayed from_slice folded (base c) @ concat (map (fst \<circ> snd) (take n (entries c))), file')
    \<and> (\<forall>lsn. 0 < lsn \<and> lsn \<le> durable_lsn (st c) \<longrightarrow>
        lsn \<le> retired c \<or> (\<exists>spans f. (lsn, spans, f) \<in> set (take n (entries c))))"
proof -
  have inv: "sys_inv to_vec (FoldedThrough e r) c" using assms(1) opened_inv by (rule reachable_inv)
  have "base c = [] \<or> base c = fs" using reachable_base [OF assms(1)] by (simp add: opened_def)
  then have b: "list_all (decodes from_slice folded) (base c)" using assms(4) by auto
  from crash_recovers [OF inv assms(6,2,3) b assms(5)] obtain n highest file' where
    rec: "recover from_slice folded (Some (take k (log_file (st c)))) =
      Inr (highest, replayed from_slice folded (base c) @ concat (map (fst \<circ> snd) (take n (entries c))), file')"
    and d: "set (on_disk c) \<subseteq> set (take n (entries c))" by blast
  have "lsn \<le> retired c \<or> (\<exists>spans f. (lsn, spans, f) \<in> set (take n (entries c)))"
    if "lsn \<le> durable_lsn (st c)" for lsn
  proof (cases "lsn \<le> retired c")
    case False
    have "durable_lsn (st c) \<le> written_lsn (st c)" using inv by (auto simp: sys_inv_def ledger_inv_def)
    with False that have "retired c < lsn" "lsn \<le> written_lsn (st c)" by simp_all
    then have "lsn \<in> fst ` set (entries c)" using inv unfolding sys_inv_def ledger_inv_def by blast
    then obtain spans f where x: "(lsn, spans, f) \<in> set (entries c)" by auto
    with that have "(lsn, spans, f) \<in> set (on_disk c)" using durable_on_disk [OF inv] by simp
    with d show ?thesis by blast
  qed simp
  with rec show ?thesis by blast
qed

text \<open>A run of the system: one batch appended, one group commit around it.\<close>

definition w_to_vec :: "u8 list \<Rightarrow> bytes option" where
  "w_to_vec xs = (if length xs < 100 then Some (91 # xs @ [93]) else None)"

definition w_from_slice :: "bytes \<Rightarrow> u8 list option" where
  "w_from_slice p = Some (butlast (tl p))"

definition w_frame :: bytes where
  "w_frame = u32_le 3 @ u32_le (crc32 [91, 7, 93]) @ replicate 16 0 @ [91, 7, 93]"

definition w_sys1 :: "u8 wal_sys" where
  "w_sys1 = (let c = opened [] 1 0; s = snd (append_frame w_frame None (st c))
     in c\<lparr>st := s, entries := entries c @ [(1, [7], last_frame s [91, 7, 93])]\<rparr>)"

definition w_sys2 :: "u8 wal_sys" where
  "w_sys2 = w_sys1\<lparr>st := snd (commit_begin 1 True (st w_sys1)), inflight := Some (inode w_sys1, 1)\<rparr>"

definition w_sys3 :: "u8 wal_sys" where
  "w_sys3 = w_sys2\<lparr>st := snd (commit_end 1 True (st w_sys2)), inflight := None,
     disk := (if True \<and> 0 = inode w_sys2 then max (disk w_sys2) 1 else disk w_sys2)\<rparr>"

lemma w_encode: "encode_batch w_to_vec [7] = Inr w_frame"
  by (simp add: encode_batch_def w_to_vec_def w_frame_def MAX_RECORD_BYTES_def)

lemma w_reachable: "wal_reachable w_to_vec (opened [] 1 0) w_sys3"
proof -
  have "wal_step w_to_vec (opened [] 1 0) w_sys1"
    unfolding w_sys1_def Let_def
    by (rule wal_step.appending [OF w_encode])
      (simp_all add: w_to_vec_def append_frame_def opened_def wal_open_def Let_def)
  moreover have "wal_step w_to_vec w_sys1 w_sys2"
    unfolding w_sys2_def
    by (rule wal_step.sync_starts [of 1])
      (simp add: commit_begin_def w_sys1_def append_frame_def opened_def wal_open_def Let_def)
  moreover have "wal_step w_to_vec w_sys2 w_sys3"
    unfolding w_sys3_def
    by (rule wal_step.sync_ends [where r = "Inr ()"])
      (simp_all add: commit_end_def w_sys2_def w_sys1_def opened_def Let_def)
  ultimately show ?thesis by (blast intro: wal_reachable.intros)
qed

lemma w_json: "json_batch w_to_vec w_from_slice"
  by (auto simp: json_batch_def w_to_vec_def w_from_slice_def butlast_append split: if_splits)

theorem acknowledged_batches_survive_a_crash_witness:
  "durable_lsn (st w_sys3) = 1 \<and>
   (\<exists>n highest file'. recover w_from_slice NONE (Some (take 35 (log_file (st w_sys3)))) =
      Inr (highest, replayed w_from_slice NONE (base w_sys3) @ concat (map (fst \<circ> snd) (take n (entries w_sys3))), file')
    \<and> (\<forall>lsn. 0 < lsn \<and> lsn \<le> durable_lsn (st w_sys3) \<longrightarrow>
        lsn \<le> retired w_sys3 \<or> (\<exists>spans f. (lsn, spans, f) \<in> set (take n (entries w_sys3)))))"
proof
  show "durable_lsn (st w_sys3) = 1"
    by (simp add: w_sys3_def w_sys2_def w_sys1_def commit_end_def commit_begin_def append_frame_def
        opened_def wal_open_def Let_def)
  have "stable_bytes w_sys3 \<le> 35"
    by (simp add: stable_bytes_def on_disk_def w_sys3_def w_sys2_def w_sys1_def opened_def Let_def)
  then show "\<exists>n highest file'. recover w_from_slice NONE (Some (take 35 (log_file (st w_sys3)))) =
      Inr (highest, replayed w_from_slice NONE (base w_sys3) @ concat (map (fst \<circ> snd) (take n (entries w_sys3))), file')
    \<and> (\<forall>lsn. 0 < lsn \<and> lsn \<le> durable_lsn (st w_sys3) \<longrightarrow>
        lsn \<le> retired w_sys3 \<or> (\<exists>spans f. (lsn, spans, f) \<in> set (take n (entries w_sys3))))"
    by (intro acknowledged_batches_survive_a_crash [OF w_reachable w_json])
      (simp_all add: w_sys3_def w_sys2_def w_sys1_def opened_def Let_def)
qed

section \<open>Stamps\<close>

definition stamps_inv :: "'span wal_sys \<Rightarrow> bool" where
  "stamps_inv c \<longleftrightarrow> sorted_wrt (<) (map (f_stamp \<circ> snd \<circ> snd) (entries c)) \<and>
     (\<forall>(l, spans, f) \<in> set (entries c). f_stamp f \<le> position (st c))"

lemma append_position:
  assumes "append_frame fr w s = (r, s')" and "w_sequence s \<noteq> - 1"
  shows "position s < position s'"
proof -
  have "position s' = FoldedThrough (w_epoch s) (w_sequence s + 1)"
    using assms(1) by (auto simp: append_frame_def Let_def position_def split: option.splits)
  with position_step [OF assms(2)] show ?thesis by simp
qed

lemma stamps_step: "wal_step to_vec c c' \<Longrightarrow> stamps_inv c \<Longrightarrow> stamps_inv c'"
proof (induction rule: wal_step.induct)
  case (appending spans fr payload c lsn s')
  then have "position (st c) < position s'" by (intro append_position)
  with appending.prems show ?case
    by (fastforce simp: stamps_inv_def sorted_wrt_append)
next
  case (append_failing fr k c err s')
  then have "position (st c) < position s'" by (intro append_position)
  with append_failing.prems show ?case by (fastforce simp: stamps_inv_def)
next
  case (rewrite_fails spans e io c err s')
  then have "position (st c) \<le> position s'" by (intro rewrite_fails_state)
  with rewrite_fails.prems show ?case by (fastforce simp: stamps_inv_def)
next
  case (epoch_advances c e)
  have "position (st c) \<le> position (advance_epoch e (st c))"
    by (auto simp: position_def advance_epoch_def less_eq_folded_through_def max_def)
  with epoch_advances show ?case by (fastforce simp: stamps_inv_def)
qed (auto simp: stamps_inv_def position_def commit_begin_def commit_window_def commit_end_def
    reset_def Let_def split: if_splits)

lemma reachable_stamps: "wal_reachable to_vec (opened fs e r) c \<Longrightarrow> stamps_inv c"
proof (induction rule: wal_reachable.induct)
  case start
  show ?case by (simp add: stamps_inv_def opened_def)
next
  case (step c c')
  then show ?case by (blast intro: stamps_step)
qed

text \<open>Stamps only grow, across resets, rewrites and epoch changes. In every reachable state the
  stamps of the frames in the file increase and none lies beyond \<open>position\<close>, and a frame appended
  next is stamped strictly after \<open>position\<close>: a checkpoint that records \<open>position\<close> as its fold point
  excludes exactly what was appended before it.\<close>

theorem a_fold_point_separates_old_frames_from_new:
  assumes "wal_reachable to_vec (opened fs e r) c"
    and "append_frame fr write_ends (st c) = (res, s')" and "w_sequence (st c) \<noteq> - 1"
  shows "sorted_wrt (<) (map (f_stamp \<circ> snd \<circ> snd) (entries c))
    \<and> (\<forall>(lsn, spans, f) \<in> set (entries c). f_stamp f \<le> position (st c))
    \<and> position (st c) < position s'"
  using reachable_stamps [OF assms(1)] append_position [OF assms(2,3)] by (simp add: stamps_inv_def)

theorem a_fold_point_separates_old_frames_from_new_witness:
  "length (entries w_sys3) = 1
    \<and> list_all (\<lambda>(lsn, spans, f). f_stamp f \<le> position (st w_sys3)) (entries w_sys3)
    \<and> position (st w_sys3) < position (snd (append_frame w_frame None (st w_sys3)))"
proof -
  have seq: "w_sequence (st w_sys3) \<noteq> - 1"
    by (simp add: w_sys3_def w_sys2_def w_sys1_def commit_end_def commit_begin_def append_frame_def
        opened_def wal_open_def Let_def)
  have "append_frame w_frame None (st w_sys3) =
      (fst (append_frame w_frame None (st w_sys3)), snd (append_frame w_frame None (st w_sys3)))" by simp
  from a_fold_point_separates_old_frames_from_new [OF w_reachable this seq]
  have "list_all (\<lambda>(lsn, spans, f). f_stamp f \<le> position (st w_sys3)) (entries w_sys3)"
    and "position (st w_sys3) < position (snd (append_frame w_frame None (st w_sys3)))"
    by (auto simp: list_all_iff)
  moreover have "length (entries w_sys3) = 1"
    by (simp add: w_sys3_def w_sys2_def w_sys1_def opened_def Let_def)
  ultimately show ?thesis by simp
qed

section \<open>Two ways a log loses its guarantee\<close>

text \<open>After a failed \<open>try_clone\<close> the flag \<open>syncing\<close> stays set with no thread in flight.\<close>

definition stuck :: "nat \<Rightarrow> 'span wal_sys \<Rightarrow> bool" where
  "stuck durable c \<longleftrightarrow> syncing (st c) \<and> inflight c = None \<and> (durable_lsn (st c) = durable \<or> durable_lsn (st c) \<le> retired c)"

lemma retired_grows: "wal_step to_vec c c' \<Longrightarrow> ledger_inv to_vec s0 c \<Longrightarrow> retired c \<le> retired c'"
  by (induction rule: wal_step.induct) (auto simp: ledger_inv_def reset_def rewrite_def Let_def split: if_splits sum.splits)

lemma stuck_step: "wal_step to_vec c c' \<Longrightarrow> stuck d c \<Longrightarrow> sys_inv to_vec s0 c \<Longrightarrow> stuck d c'"
proof (induction rule: wal_step.induct)
  case (resets c s')
  then show ?case by (auto simp: stuck_def reset_def)
next
  case (reset_unsynced c err s')
  then have "durable_lsn s' \<le> written_lsn s'" by (auto simp: reset_def sys_inv_def ledger_inv_def)
  then show ?case using reset_unsynced by (auto simp: stuck_def reset_def)
next
  case (rewrite_fails spans e io c err s')
  have "syncing s' = syncing (st c)" "durable_lsn s' = durable_lsn (st c)"
    by (subst rewrite_fails_state(1) [OF rewrite_fails.hyps], simp)+
  then show ?case using rewrite_fails.prems by (simp add: stuck_def)
qed (auto simp: stuck_def append_frame_def commit_begin_def reset_def rewrite_def advance_epoch_def Let_def
      split: if_splits option.splits sum.splits)

lemma stuck_reachable: "wal_reachable to_vec c c' \<Longrightarrow> stuck d c \<Longrightarrow> sys_inv to_vec s0 c \<Longrightarrow> stuck d c' \<and> sys_inv to_vec s0 c'"
  by (induction rule: wal_reachable.induct) (blast intro: stuck_step wal_step_inv)+

text \<open>C30: one failed \<open>try_clone\<close> ends group commit. Once the descriptor clone of a committing thread has failed, in every
  state reachable afterwards no thread is syncing and none ever will be: every later commit either waits, or returns at
  once because its batch is at or below \<open>durable_lsn\<close>; and that number is the one of the failure until a reset or a
  rewrite of the log has gone past it.\<close>

theorem a_failed_clone_blocks_every_later_commit:
  assumes "wal_reachable to_vec (opened fs e r) c"
    and "commit_begin lsn False (st c) = (CloneError, s')"
    and "wal_reachable to_vec (c\<lparr>st := s'\<rparr>) c'"
  shows "commit_begin lsn' clone_ok (st c') = (if lsn' \<le> durable_lsn (st c') then Acked else MustWait, st c') \<and> inflight c' = None
    \<and> (durable_lsn (st c') = durable_lsn (st c) \<or> durable_lsn (st c') \<le> retired c')"
proof -
  have inv: "sys_inv to_vec (FoldedThrough e r) c" using assms(1) opened_inv by (rule reachable_inv)
  have s': "\<not> syncing (st c)" "s' = st c\<lparr>syncing := True\<rparr>"
    using assms(2) by (auto simp: commit_begin_def Let_def split: if_splits)
  have "stuck (durable_lsn (st c)) (c\<lparr>st := s'\<rparr>)"
    using inv s' unfolding stuck_def sys_inv_def ledger_inv_def by (cases "inflight c") simp_all
  moreover have "sys_inv to_vec (FoldedThrough e r) (c\<lparr>st := s'\<rparr>)" unfolding s'(2) by (rule commit_section_inv(1) [OF inv])
  ultimately have "stuck (durable_lsn (st c)) c'" using stuck_reachable [OF assms(3)] by blast
  then show ?thesis by (auto simp: stuck_def commit_begin_def)
qed

theorem a_failed_clone_blocks_every_later_commit_witness:
  "commit_begin 1 True (st (w_sys1\<lparr>st := (st w_sys1)\<lparr>syncing := True\<rparr>\<rparr>))
     = (MustWait, st (w_sys1\<lparr>st := (st w_sys1)\<lparr>syncing := True\<rparr>\<rparr>))
   \<and> inflight (w_sys1\<lparr>st := (st w_sys1)\<lparr>syncing := True\<rparr>\<rparr>) = None"
proof -
  have "wal_step w_to_vec (opened [] 1 0) w_sys1"
    unfolding w_sys1_def Let_def
    by (rule wal_step.appending [OF w_encode])
      (simp_all add: w_to_vec_def append_frame_def opened_def wal_open_def Let_def)
  then have "wal_reachable w_to_vec (opened [] 1 0) w_sys1" by (blast intro: wal_reachable.intros)
  moreover have "commit_begin 1 False (st w_sys1) = (CloneError, (st w_sys1)\<lparr>syncing := True\<rparr>)"
    by (simp add: commit_begin_def w_sys1_def append_frame_def opened_def wal_open_def Let_def)
  moreover have "\<not> 1 \<le> durable_lsn (st (w_sys1\<lparr>st := (st w_sys1)\<lparr>syncing := True\<rparr>\<rparr>))"
    by (simp add: w_sys1_def append_frame_def opened_def wal_open_def Let_def)
  ultimately show ?thesis
    using a_failed_clone_blocks_every_later_commit [OF _ _ wal_reachable.start, of w_to_vec "[]" 1 0 w_sys1 1 "(st w_sys1)\<lparr>syncing := True\<rparr>" 1 True]
    by (simp only: simp_thms if_False)
qed







end
