(* ===== verification/Varint.thy ===== *)
theory Varint
  imports Traza_Prelude
begin

text \<open>
  The byte-level codecs of the metadata sections of a segment (\<open>src/src/segment.rs\<close>): LEB128
  varints, delta-coded posting lists, the record-offset body, and the cursor reads they are built
  from. A cursor into a buffer is modelled by the bytes that remain behind it; where an error
  depends on the cursor itself the length of the whole buffer is passed too. \<open>usize\<close> is 64 bits
  wide, so the conversions of \<open>u64\<close> to \<open>usize\<close> cannot fail. Each codec is characterised exactly:
  what its decoder accepts is the set of encodings, with the value they encode.
\<close>

unbundle bit_operations_syntax

section \<open>Errors\<close>

text \<open>The errors of \<open>segment.rs\<close> a decoder can raise; the strings are the source's.\<close>

datatype seg_error =
    Corrupt string
  | CorruptSection string string
  | Unsupported string
  | UnsupportedVersion u16 u16
  | UnsupportedCodec u32
  | TooLarge string
  | Utf8

section \<open>Varints\<close>

lemma unat_drop_bit_7: "unat (drop_bit 7 v) = unat v div 128" for v :: u64
proof -
  have "unat (drop_bit 7 v) = drop_bit 7 (unat v)" by (rule unat_drop_bit_eq)
  also have "\<dots> = unat v div 128" by (simp add: drop_bit_eq_div)
  finally show ?thesis .
qed

lemma drop_bit_7_less: "drop_bit 7 v \<noteq> 0 \<Longrightarrow> unat (drop_bit 7 v) < unat v" for v :: u64
proof -
  assume "drop_bit 7 v \<noteq> 0"
  then have "unat (drop_bit 7 v) \<noteq> 0" by (simp only: unat_eq_0 not_False_eq_True)
  then have "unat v \<noteq> 0" unfolding unat_drop_bit_7 by (cases "unat v") simp_all
  then show ?thesis unfolding unat_drop_bit_7 by (intro div_less_dividend) simp_all
qed

function put_varint :: "u64 \<Rightarrow> bytes" where
  "put_varint value =
     (let byte = ucast (value AND 0x7f); value = drop_bit 7 value in
      if value = 0 then [byte] else (byte OR 0x80) # put_varint value)"
  by pat_completeness auto
termination
  by (relation "measure unat") (auto intro: drop_bit_7_less)

declare put_varint.simps [simp del]

fun take_varint_loop :: "u64 \<Rightarrow> nat \<Rightarrow> bytes \<Rightarrow> seg_error + (u64 \<times> bytes)" where
  "take_varint_loop value shift [] = Inl (Corrupt ''truncated varint'')"
| "take_varint_loop value shift (byte # rest) =
     (let bits = ucast (byte AND 0x7f) in
      if shift = 63 \<and> bits > 1 then Inl (Corrupt ''varint overflows 64 bits'')
      else if byte = 0 \<and> shift > 0 then Inl (Corrupt ''varint encoding is not canonical'')
      else
        let value = value OR push_bit shift bits in
        if byte AND 0x80 = 0 then Inr (value, rest)
        else if shift + 7 > 63 then Inl (Corrupt ''varint is longer than ten bytes'')
        else take_varint_loop value (shift + 7) rest)"

definition take_varint :: "bytes \<Rightarrow> seg_error + (u64 \<times> bytes)" where
  "take_varint data = take_varint_loop 0 0 data"

text \<open>The seven-bit groups of a value.\<close>

lemma mask_7f: "(0x7f :: 'a::len word) = mask 7"
  by (simp add: mask_eq_decr_exp)

lemma low_group: "(ucast ((ucast (v AND 0x7f) :: u8) AND 0x7f) :: u64) = v AND 0x7f" for v :: u64
  unfolding mask_7f by (rule bit_word_eqI) (auto simp: bit_simps dest: bit_imp_le_length)

lemma bit_80: "bit (0x80 :: 'a::len word) n \<longleftrightarrow> n = 7 \<and> n < LENGTH('a)"
proof -
  have "bit ((2 :: 'a word) ^ 7) n \<longleftrightarrow> n = 7 \<and> n < LENGTH('a)"
    unfolding bit_exp_iff by (auto simp: possible_bit_word)
  then show ?thesis by simp
qed

lemma low_group_cont: "(ucast (((ucast (v AND 0x7f) :: u8) OR 0x80) AND 0x7f) :: u64) = v AND 0x7f"
  for v :: u64
proof (rule bit_word_eqI)
  fix n assume "n < LENGTH(64)"
  have "\<not> bit (0x80 :: u8) n" if "n < 7" using that unfolding bit_80 by simp
  then show "bit (ucast (((ucast (v AND 0x7f) :: u8) OR 0x80) AND 0x7f) :: u64) n = bit (v AND 0x7f) n"
    unfolding mask_7f bit_unsigned_iff bit_and_iff bit_or_iff bit_mask_iff by auto
qed

lemma low_group_stop: "(ucast (v AND 0x7f) :: u8) AND 0x80 = 0" for v :: u64
proof (rule bit_word_eqI)
  fix n assume "n < LENGTH(8)"
  have "\<not> bit (0x80 :: u8) n" if "n < 7" using that unfolding bit_80 by simp
  then show "bit ((ucast (v AND 0x7f) :: u8) AND 0x80) n = bit (0 :: u8) n"
    unfolding mask_7f bit_unsigned_iff bit_and_iff bit_or_iff bit_mask_iff by auto
qed

lemma low_group_goes_on: "(b OR 0x80) AND 0x80 \<noteq> (0 :: u8)"
proof
  assume "(b OR 0x80) AND 0x80 = (0 :: u8)"
  then have "bit ((b OR 0x80) AND 0x80 :: u8) 7 = bit (0 :: u8) 7" by (rule arg_cong)
  then show False by (simp add: bit_and_iff bit_or_iff bit_80)
qed

lemma groups: "v = (v AND 0x7f) OR push_bit 7 (drop_bit 7 v)" for v :: u64
proof (rule bit_word_eqI)
  fix n
  show "bit v n = bit ((v AND 0x7f) OR push_bit 7 (drop_bit 7 v)) n" if "n < LENGTH(64)"
    unfolding mask_7f using that by (cases "n < 7") (auto simp: bit_simps dest: bit_imp_le_length)
qed

lemma put_varint_last: "drop_bit 7 v = 0 \<Longrightarrow> put_varint v = [ucast (v AND 0x7f)]"
  by (subst put_varint.simps) (simp only: Let_def simp_thms if_True)

lemma put_varint_more:
  "drop_bit 7 v \<noteq> 0 \<Longrightarrow> put_varint v = (ucast (v AND 0x7f) OR 0x80) # put_varint (drop_bit 7 v)"
  by (subst put_varint.simps) (simp only: Let_def if_False)

lemma drop_bit_7_0: "drop_bit 7 v = 0 \<Longrightarrow> v AND 0x7f = v" for v :: u64
  using groups [of v] by simp

lemma drop_bit_7_bound:
  fixes v :: u64
  assumes "drop_bit 7 v \<noteq> 0" and "unat v < 2 ^ (64 - shift)"
  shows "shift + 7 < 64 \<and> unat (drop_bit 7 v) < 2 ^ (64 - (shift + 7))"
proof -
  from assms(1) have "unat (drop_bit 7 v) \<noteq> 0" by (simp only: unat_eq_0 not_False_eq_True)
  then have "unat v div 128 \<noteq> 0" unfolding unat_drop_bit_7 .
  then have big: "2 ^ 7 \<le> unat v" by (cases "unat v < 128") simp_all
  then have "(2::nat) ^ 7 < 2 ^ (64 - shift)" using assms(2) by (rule le_less_trans)
  then have lt: "7 < 64 - shift" by (rule power_less_imp_less_exp [rotated]) simp
  then have "64 - shift = 7 + (64 - (shift + 7))" by arith
  then have "(2::nat) ^ (64 - shift) = 128 * 2 ^ (64 - (shift + 7))"
    by (simp only: power_add) simp
  with assms(2) lt show ?thesis
    unfolding unat_drop_bit_7 by (simp add: div_less_iff_less_mult less_mult_imp_div_less mult.commute)
qed

lemma take_varint_loop_put:
  "shift < 64 \<Longrightarrow> v \<noteq> 0 \<or> shift = 0 \<Longrightarrow> unat v < 2 ^ (64 - shift) \<Longrightarrow>
   take_varint_loop acc shift (put_varint v @ rest) = Inr (acc OR push_bit shift v, rest)"
proof (induction v arbitrary: acc shift rule: put_varint.induct)
  case (1 v)
  show ?case
  proof (cases "drop_bit 7 v = 0")
    case True
    let ?b = "ucast (v AND 0x7f) :: u8"
    have bits: "(ucast (?b AND 0x7f) :: u64) = v"
      using low_group [of v] unfolding drop_bit_7_0 [OF True] .
    have "?b \<noteq> 0 \<or> shift = 0" using bits "1.prems"(2) by auto
    moreover have "\<not> (shift = 63 \<and> v > 1)" using "1.prems"(3) by (auto simp: word_less_nat_alt)
    ultimately show ?thesis
      by (simp only: put_varint_last [OF True] append.simps take_varint_loop.simps Let_def bits low_group_stop)
        auto
  next
    case False
    let ?b = "(ucast (v AND 0x7f) :: u8) OR 0x80" and ?w = "drop_bit 7 v"
    have b: "?b \<noteq> 0" using low_group_goes_on [of "ucast (v AND 0x7f)"] by (metis and.left_neutral bit.conj_zero_left)
    from drop_bit_7_bound [OF False "1.prems"(3)] have s: "shift + 7 < 64" and w: "unat ?w < 2 ^ (64 - (shift + 7))"
      by simp_all
    have "take_varint_loop (acc OR push_bit shift (v AND 0x7f)) (shift + 7) (put_varint ?w @ rest) =
        Inr ((acc OR push_bit shift (v AND 0x7f)) OR push_bit (shift + 7) ?w, rest)"
      by (rule "1.IH" [OF refl refl]) (use False s w in simp_all)
    moreover have "push_bit shift (v AND 0x7f) OR push_bit (shift + 7) ?w = push_bit shift v"
      using groups [of v] by (metis push_bit_or push_bit_push_bit)
    ultimately show ?thesis
      using b s low_group_goes_on [of "ucast (v AND 0x7f)"]
      by (simp only: put_varint_more [OF False] append.simps take_varint_loop.simps Let_def low_group_cont)
        (simp add: or.assoc)
  qed
qed

lemma take_put_varint [codec_simps]: "take_varint (put_varint v @ rest) = Inr (v, rest)"
  unfolding take_varint_def using unat_u64_lt [of v] by (subst take_varint_loop_put) simp_all

lemma and_80: "byte AND 0x80 = 0 \<longleftrightarrow> \<not> bit byte 7" for byte :: u8
  using and_exp_eq_0_iff_not_bit [of byte 7] by simp

lemma group_stop: "byte AND 0x80 = 0 \<Longrightarrow> ucast (ucast (byte AND 0x7f) :: u64) = byte" for byte :: u8
  unfolding and_80
proof (rule bit_word_eqI)
  fix n assume *: "\<not> bit byte 7" "n < LENGTH(8)"
  then have "n \<noteq> 7 \<longrightarrow> n < 7" by auto
  with * show "bit (ucast (ucast (byte AND 0x7f) :: u64) :: u8) n = bit byte n"
    unfolding mask_7f bit_unsigned_iff bit_and_iff bit_mask_iff by (cases "n = 7") auto
qed

lemma group_more: "byte AND 0x80 \<noteq> 0 \<Longrightarrow> ucast (ucast (byte AND 0x7f) :: u64) OR 0x80 = byte" for byte :: u8
  unfolding and_80
proof (rule bit_word_eqI)
  fix n assume *: "\<not> \<not> bit byte 7" "n < LENGTH(8)"
  then have "n \<noteq> 7 \<longrightarrow> n < 7" by auto
  with * show "bit (ucast (ucast (byte AND 0x7f) :: u64) OR 0x80 :: u8) n = bit byte n"
    unfolding mask_7f bit_unsigned_iff bit_and_iff bit_or_iff bit_mask_iff bit_80 by (cases "n = 7") auto
qed

lemma group_bits: "(ucast (byte AND 0x7f) :: u64) AND 0x7f = ucast (byte AND 0x7f)"
    "drop_bit 7 (ucast (byte AND 0x7f) :: u64) = 0" for byte :: u8
  unfolding mask_7f
  by (rule bit_word_eqI, auto simp: bit_simps dest: bit_imp_le_length)+

lemma group_bits_lt: "unat (ucast (byte AND 0x7f) :: u64) < 128" for byte :: u8
proof -
  have "unat (ucast (byte AND 0x7f) :: u64) div 128 = unat (drop_bit 7 (ucast (byte AND 0x7f) :: u64))"
    by (rule unat_drop_bit_7 [symmetric])
  also have "\<dots> = 0" unfolding group_bits by simp
  finally show ?thesis by simp
qed

lemma bit_bound: "unat w < 2 ^ m \<Longrightarrow> bit w n \<Longrightarrow> n < m" for w :: u64
proof (rule ccontr)
  assume lt: "unat w < 2 ^ m" and b: "bit w n" and "\<not> n < m"
  then have "(2::nat) ^ m \<le> 2 ^ n" by (intro power_increasing) simp_all
  with lt have "unat w < 2 ^ n" by (rule less_le_trans)
  then have "unat w div 2 ^ n = 0" by (rule div_less)
  moreover have "bit (unat w) n" using b by (simp add: bit_unsigned_iff bit_imp_possible_bit)
  ultimately show False by (simp add: bit_iff_odd)
qed

lemma regroup:
  fixes b v :: u64
  assumes "b AND 0x7f = b" and "unat v < 2 ^ 57"
  shows "(b OR push_bit 7 v) AND 0x7f = b" and "drop_bit 7 (b OR push_bit 7 v) = v"
proof -
  have b: "bit b n \<Longrightarrow> n < 7" for n
    using assms(1) unfolding mask_7f by (metis bit_and_iff bit_mask_iff)
  show "(b OR push_bit 7 v) AND 0x7f = b"
    unfolding mask_7f by (rule bit_word_eqI) (use b in \<open>auto simp: bit_simps\<close>)
  show "drop_bit 7 (b OR push_bit 7 v) = v"
    by (rule bit_word_eqI) (use b bit_bound [OF assms(2)] in \<open>auto simp: bit_drop_bit_eq bit_or_iff bit_push_bit_iff possible_bit_word\<close>)
qed

lemma take_varint_loop_sound:
  "take_varint_loop acc shift data = Inr (w, rest) \<Longrightarrow> shift < 64 \<Longrightarrow> shift mod 7 = 0 \<Longrightarrow>
   \<exists>v. w = acc OR push_bit shift v \<and> (v \<noteq> 0 \<or> shift = 0) \<and> unat v < 2 ^ (64 - shift) \<and> data = put_varint v @ rest"
proof (induction acc shift data rule: take_varint_loop.induct)
  case (1 acc shift)
  then show ?case by simp
next
  case (2 acc shift byte data)
  let ?b = "ucast (byte AND 0x7f) :: u64"
  have ok: "\<not> (shift = 63 \<and> ?b > 1)" "\<not> (byte = 0 \<and> shift > 0)"
    using "2.prems"(1) by (auto simp: Let_def split: if_splits)
  show ?case
  proof (cases "byte AND 0x80 = 0")
    case True
    have byte: "ucast (?b AND 0x7f) = byte" unfolding group_bits using True by (rule group_stop)
    then have put: "put_varint ?b = [byte]" by (simp only: put_varint_last [OF group_bits(2)])
    have "byte = 0" if "?b = 0" using byte unfolding that by simp
    then have "?b \<noteq> 0 \<or> shift = 0" using ok(2) by blast
    moreover have "unat ?b < 2 ^ (64 - shift)"
    proof (cases "shift = 63")
      case True
      with ok(1) show ?thesis by (auto simp: word_less_nat_alt)
    next
      case False
      with "2.prems"(2,3) have "7 \<le> 64 - shift" by presburger
      then have "(2::nat) ^ 7 \<le> 2 ^ (64 - shift)" by (rule power_increasing) simp
      with group_bits_lt [of byte] show ?thesis by simp
    qed
    moreover have "w = acc OR push_bit shift ?b" and "rest = data"
      using "2.prems"(1) True ok by (auto simp: Let_def split: if_splits)
    ultimately show ?thesis using put by (intro exI [of _ ?b]) simp
  next
    case False
    have s: "shift + 7 < 64" and
      tl: "take_varint_loop (acc OR push_bit shift ?b) (shift + 7) data = Inr (w, rest)"
      using "2.prems"(1) False ok by (auto simp: Let_def split: if_splits)
    have "(shift + 7) mod 7 = 0" using "2.prems"(3) by simp
    with "2.IH" [OF refl ok refl False _ tl s] s obtain v where
      w: "w = (acc OR push_bit shift ?b) OR push_bit (shift + 7) v" and v: "v \<noteq> 0"
      and vlt: "unat v < 2 ^ (64 - (shift + 7))" and data: "data = put_varint v @ rest" by auto
    let ?v = "?b OR push_bit 7 v"
    have "(2::nat) ^ (64 - (shift + 7)) \<le> 2 ^ 57" by (rule power_increasing) simp_all
    with vlt have "unat v < 2 ^ 57" by (rule less_le_trans)
    from regroup [OF group_bits(1) this] have v7: "?v AND 0x7f = ?b" and vd: "drop_bit 7 ?v = v" .
    have "put_varint ?v = byte # put_varint v"
      using put_varint_more [of ?v] v group_more [OF False] unfolding v7 vd by simp
    moreover have "w = acc OR push_bit shift ?v"
      unfolding w push_bit_or push_bit_push_bit by (simp add: or.assoc)
    moreover have "?v \<noteq> 0" using v vd by (metis drop_bit_of_0)
    moreover have "unat ?v < 2 ^ (64 - shift)"
    proof -
      have "unat ?v div 128 = unat v" using vd unat_drop_bit_7 [of ?v] by simp
      then have "unat ?v < 128 * (unat v + 1)" by (metis dividend_less_div_times mult.commute mult_Suc_right Suc_eq_plus1 add.commute zero_less_numeral)
      also have "\<dots> \<le> 128 * 2 ^ (64 - (shift + 7))" using vlt by simp
      also have "\<dots> = 2 ^ (7 + (64 - (shift + 7)))" by (simp only: power_add) simp
      also have "7 + (64 - (shift + 7)) = 64 - shift" using s by arith
      finally show ?thesis .
    qed
    ultimately show ?thesis using data by (intro exI [of _ ?v]) simp
  qed
qed

text \<open>The decoder accepts exactly what the encoder writes.\<close>

lemma take_varint_iff: "take_varint data = Inr (v, rest) \<longleftrightarrow> data = put_varint v @ rest"
proof
  assume "take_varint data = Inr (v, rest)"
  from take_varint_loop_sound [OF this [unfolded take_varint_def]] show "data = put_varint v @ rest" by auto
qed (simp add: take_put_varint)

interpretation varint: prefix_codec put_varint take_varint "\<lambda>v. True"
  by unfold_locales (rule take_put_varint)

lemma put_varint_nonempty [simp]: "put_varint v \<noteq> []"
  by (subst put_varint.simps) (simp add: Let_def)

lemma put_varint_length: "unat v < 2 ^ (7 * n) \<Longrightarrow> 0 < n \<Longrightarrow> length (put_varint v) \<le> n"
proof (induction n arbitrary: v)
  case (Suc n)
  show ?case
  proof (cases "drop_bit 7 v = 0")
    case True
    then show ?thesis by (simp only: put_varint_last) simp
  next
    case False
    then have "unat v div 128 \<noteq> 0" unfolding unat_drop_bit_7 [symmetric] by (simp only: unat_eq_0 not_False_eq_True)
    then have "n \<noteq> 0" using Suc.prems(1) by (cases n) auto
    moreover have "unat (drop_bit 7 v) < 2 ^ (7 * n)"
      unfolding unat_drop_bit_7 using Suc.prems(1) by (simp add: power_add less_mult_imp_div_less mult.commute)
    ultimately show ?thesis using Suc.IH by (simp only: put_varint_more [OF False]) simp
  qed
qed simp

section \<open>Delta-coded offsets\<close>

text \<open>
  The loop that \<open>put_postings\<close> and \<open>encode_offsets_body\<close> share (the first offset absolute, then the
  gaps; \<open>-\<close> is the wrapping subtraction), and the loop their decoders share, with the messages each
  of them raises as arguments.
\<close>

fun put_gaps :: "u64 option \<Rightarrow> u64 list \<Rightarrow> bytes" where
  "put_gaps previous [] = []"
| "put_gaps previous (offset # offsets) =
     (case previous of None \<Rightarrow> put_varint offset | Some value \<Rightarrow> put_varint (offset - value))
       @ put_gaps (Some offset) offsets"

fun take_gaps :: "string \<Rightarrow> string \<Rightarrow> nat \<Rightarrow> u64 option \<Rightarrow> bytes \<Rightarrow> seg_error + (u64 list \<times> bytes)" where
  "take_gaps zero over 0 previous data = Inr ([], data)"
| "take_gaps zero over (Suc n) previous data =
     (case take_varint data of
        Inl e \<Rightarrow> Inl e
      | Inr (word, data) \<Rightarrow>
          (case (case previous of
                   None \<Rightarrow> Inr word
                 | Some value \<Rightarrow>
                     if word = 0 then Inl (Corrupt zero)
                     else (case checked_add value word of None \<Rightarrow> Inl (Corrupt over) | Some offset \<Rightarrow> Inr offset)) of
             Inl e \<Rightarrow> Inl e
           | Inr offset \<Rightarrow>
               (case take_gaps zero over n (Some offset) data of
                  Inl e \<Rightarrow> Inl e
                | Inr (offsets, rest) \<Rightarrow> Inr (offset # offsets, rest))))"

definition put_postings :: "u64 list \<Rightarrow> bytes" where
  "put_postings offsets = put_varint (of_nat (length offsets)) @ put_gaps None offsets"

definition take_postings :: "u64 \<Rightarrow> bytes \<Rightarrow> seg_error + (u64 list \<times> bytes)" where
  "take_postings record_count data =
     (case take_varint data of
        Inl e \<Rightarrow> Inl e
      | Inr (count, data) \<Rightarrow>
          if count > record_count then Inl (Corrupt ''index has too many postings'')
          else take_gaps ''posting deltas must be positive'' ''posting offset overflow'' (unat count) None data)"

definition encode_offsets_body :: "u64 list \<Rightarrow> bytes" where
  "encode_offsets_body offsets = put_gaps None offsets"

definition decode_offsets_body :: "bytes \<Rightarrow> u64 \<Rightarrow> seg_error + u64 list" where
  "decode_offsets_body data record_count =
     (case take_gaps ''record offsets are invalid or unordered'' ''record offset overflow''
             (unat record_count) None data of
        Inl e \<Rightarrow> Inl e
      | Inr (offsets, rest) \<Rightarrow>
          if rest \<noteq> [] then Inl (Corrupt ''record-offset index contains trailing bytes'') else Inr offsets)"

definition ascending :: "u64 option \<Rightarrow> u64 list \<Rightarrow> bool" where
  "ascending previous offsets \<longleftrightarrow>
     sorted_wrt (<) offsets \<and> (case previous of None \<Rightarrow> True | Some v \<Rightarrow> list_all (\<lambda>o'. v < o') offsets)"

lemma ascending_Nil [simp]: "ascending p []"
  by (simp add: ascending_def split: option.splits)

lemma ascending_Cons [simp]:
  "ascending p (x # xs) \<longleftrightarrow> (case p of None \<Rightarrow> True | Some v \<Rightarrow> v < x) \<and> ascending (Some x) xs"
  by (auto simp: ascending_def list_all_iff split: option.splits)

lemma checked_add_positive:
  "w \<noteq> 0 \<Longrightarrow> checked_add v w = Some x \<longleftrightarrow> v < x \<and> w = x - v" for v w x :: u64
proof
  assume w: "w \<noteq> 0" and "checked_add v w = Some x"
  then have "x = v + w" and "unat x = unat v + unat w" by (auto dest: checked_add_SomeD)
  moreover from w have "0 < unat w" by (simp add: unat_gt_0)
  ultimately show "v < x \<and> w = x - v" by (simp add: word_less_nat_alt)
qed (auto intro: checked_add_gap)

lemma take_gaps_iff:
  "take_gaps zero over n previous data = Inr (offsets, rest) \<longleftrightarrow>
     length offsets = n \<and> ascending previous offsets \<and> data = put_gaps previous offsets @ rest"
proof (induction n arbitrary: previous data offsets)
  case 0
  then show ?case by auto
next
  case (Suc n)
  show ?case
  proof (cases offsets)
    case Nil
    then show ?thesis by (auto split: sum.splits prod.splits)
  next
    case (Cons x xs)
    have gap: "(case previous of None \<Rightarrow> Inr word
                 | Some value \<Rightarrow>
                     if word = 0 then Inl (Corrupt zero)
                     else (case checked_add value word of None \<Rightarrow> Inl (Corrupt over) | Some offset \<Rightarrow> Inr offset)) = Inr x
        \<longleftrightarrow> (case previous of None \<Rightarrow> word = x | Some value \<Rightarrow> value < x \<and> word = x - value)" for word
      by (cases previous) (auto simp: checked_add_positive checked_add_gap split: option.splits)
    have "take_gaps zero over (Suc n) previous data = Inr (x # xs, rest) \<longleftrightarrow>
        (\<exists>word data'. take_varint data = Inr (word, data') \<and>
          (case previous of None \<Rightarrow> word = x | Some value \<Rightarrow> value < x \<and> word = x - value) \<and>
          take_gaps zero over n (Some x) data' = Inr (xs, rest))"
      unfolding gap [symmetric] by (auto split: sum.splits prod.splits)
    also have "\<dots> \<longleftrightarrow> length (x # xs) = Suc n \<and> ascending previous (x # xs)
        \<and> data = put_gaps previous (x # xs) @ rest"
      unfolding take_varint_iff Suc.IH by (cases previous) auto
    finally show ?thesis using Cons by simp
  qed
qed

lemma take_postings_iff:
  "take_postings record_count data = Inr (offsets, rest) \<longleftrightarrow>
     sorted_wrt (<) offsets \<and> length offsets \<le> unat record_count \<and> data = put_postings offsets @ rest"
  (is "?l \<longleftrightarrow> ?r")
proof
  assume ?l
  then obtain count data' where v: "take_varint data = Inr (count, data')" and c: "count \<le> record_count"
    and g: "length offsets = unat count" "ascending None offsets" "data' = put_gaps None offsets @ rest"
    by (auto simp: take_postings_def take_gaps_iff split: sum.splits prod.splits if_splits)
  from g(1) have "of_nat (length offsets) = count" by simp
  with v c g show ?r by (auto simp: take_varint_iff put_postings_def ascending_def word_le_nat_alt)
next
  assume r: ?r
  then have n: "length offsets < 2 ^ 64" using unat_u64_lt [of record_count] by linarith
  then have u: "unat (of_nat (length offsets) :: u64) = length offsets" by (simp add: unat_of_nat)
  with r have "\<not> of_nat (length offsets) > record_count" by (simp add: word_less_nat_alt)
  with r u show ?l
    by (simp add: take_postings_def put_postings_def take_put_varint take_gaps_iff ascending_def)
qed

interpretation posting: prefix_codec put_postings "take_postings rc"
    "\<lambda>offsets. sorted_wrt (<) offsets \<and> length offsets \<le> unat rc" for rc
  by unfold_locales (simp add: take_postings_iff)

lemma decode_offsets_body_iff:
  "decode_offsets_body data record_count = Inr offsets \<longleftrightarrow>
     length offsets = unat record_count \<and> sorted_wrt (<) offsets \<and> data = encode_offsets_body offsets"
proof
  assume "decode_offsets_body data record_count = Inr offsets"
  then show "length offsets = unat record_count \<and> sorted_wrt (<) offsets \<and> data = encode_offsets_body offsets"
    by (auto simp: decode_offsets_body_def encode_offsets_body_def ascending_def take_gaps_iff
        split: sum.splits prod.splits if_splits)
next
  assume "length offsets = unat record_count \<and> sorted_wrt (<) offsets \<and> data = encode_offsets_body offsets"
  then have "take_gaps zero over (unat record_count) None data = Inr (offsets, [])" for zero over
    by (simp add: take_gaps_iff ascending_def encode_offsets_body_def)
  then show "decode_offsets_body data record_count = Inr offsets" by (simp add: decode_offsets_body_def)
qed

lemma put_postings_nonempty [simp]: "put_postings offsets \<noteq> []"
  by (simp add: put_postings_def)

section \<open>Fields behind a cursor\<close>

text \<open>\<open>take\<close> with \<open>end = data.len() = buf_len\<close>; the cursor stands \<open>buf_len - length rest\<close> bytes in.\<close>

definition take_field :: "nat \<Rightarrow> u64 \<Rightarrow> bytes \<Rightarrow> seg_error + (bytes \<times> bytes)" where
  "take_field buf_len len rest =
     (let cursor = buf_len - length rest in
      if cursor + unat len > 2 ^ 64 - 1 then Inl (Corrupt ''field length overflow'')
      else if cursor + unat len > buf_len then Inl (Corrupt ''truncated variable-length field'')
      else Inr (take (unat len) rest, drop (unat len) rest))"

text \<open>A varint length and that many bytes of UTF-8, as keys and trace ids are stored.\<close>

definition put_str :: "bytes \<Rightarrow> bytes" where
  "put_str s = put_varint (of_nat (length s)) @ s"

definition take_str :: "nat \<Rightarrow> bytes \<Rightarrow> seg_error + (bytes \<times> bytes)" where
  "take_str buf_len data =
     (case take_varint data of
        Inl e \<Rightarrow> Inl e
      | Inr (len, data) \<Rightarrow>
          (case take_field buf_len len data of
             Inl e \<Rightarrow> Inl e
           | Inr (s, rest) \<Rightarrow> if utf8_valid s then Inr (s, rest) else Inl Utf8))"

text \<open>No Rust buffer is longer than \<open>isize::MAX\<close>.\<close>

abbreviation isize_max :: nat where
  "isize_max \<equiv> 2 ^ 63 - 1"

lemma take_field_iff:
  assumes "length rest \<le> buf_len" and "buf_len \<le> isize_max"
  shows "take_field buf_len len rest = Inr (s, rest') \<longleftrightarrow> length s = unat len \<and> rest = s @ rest'"
proof
  assume "take_field buf_len len rest = Inr (s, rest')"
  then have "unat len \<le> length rest" and "s = take (unat len) rest" and "rest' = drop (unat len) rest"
    using assms(1) by (auto simp: take_field_def Let_def split: if_splits)
  then show "length s = unat len \<and> rest = s @ rest'" by simp
next
  assume r: "length s = unat len \<and> rest = s @ rest'"
  with assms have "\<not> buf_len - length rest + unat len > buf_len" by simp
  moreover from this assms(2) have "\<not> buf_len - length rest + unat len > 2 ^ 64 - 1" by simp
  ultimately show "take_field buf_len len rest = Inr (s, rest')"
    using r by (auto simp: take_field_def Let_def)
qed

lemma take_str_iff:
  assumes "length data \<le> buf_len" and "buf_len \<le> isize_max"
  shows "take_str buf_len data = Inr (s, rest) \<longleftrightarrow> utf8_valid s \<and> data = put_str s @ rest"
proof
  assume "take_str buf_len data = Inr (s, rest)"
  then obtain len data' where v: "data = put_varint len @ data'"
    and f: "take_field buf_len len data' = Inr (s, rest)" and u: "utf8_valid s"
    by (auto simp: take_str_def take_varint_iff split: sum.splits prod.splits if_splits)
  from v assms(1) have "length data' \<le> buf_len" by simp
  with f assms(2) have "length s = unat len" and "data' = s @ rest" by (simp_all add: take_field_iff)
  then have "of_nat (length s) = len" by simp
  with u v \<open>data' = s @ rest\<close> show "utf8_valid s \<and> data = put_str s @ rest" by (simp add: put_str_def)
next
  assume r: "utf8_valid s \<and> data = put_str s @ rest"
  with assms have "length s < 2 ^ 64" by (simp add: put_str_def)
  then have "length s = unat (of_nat (length s) :: u64)" by (simp add: unat_of_nat)
  moreover from r assms(1) have "length (s @ rest) \<le> buf_len" by (simp add: put_str_def)
  ultimately have "take_field buf_len (of_nat (length s)) (s @ rest) = Inr (s, rest)"
    using assms(2) by (simp add: take_field_iff)
  with r show "take_str buf_len data = Inr (s, rest)" by (simp add: take_str_def put_str_def take_put_varint)
qed

section \<open>Properties\<close>

text \<open>The varint decoder accepts exactly the encoder's output. It returns a value and a rest
  precisely when the input is the encoding of that value followed by that rest: every value round-trips,
  and no value has a second, overlong or padded, encoding that is accepted.\<close>

theorem varints_are_canonical:
  "take_varint data = Inr (v, rest) \<longleftrightarrow> data = put_varint v @ rest"
  by (rule take_varint_iff)

text \<open>A posting list decodes exactly when it is the encoding of a strictly ascending list of at
  most \<open>record_count\<close> offsets. A zero gap, a gap that overflows and an inflated count are all refused,
  and honest bytes never are.\<close>

theorem postings_decode_exactly_the_ascending_lists:
  "take_postings record_count data = Inr (offsets, rest) \<longleftrightarrow>
     sorted_wrt (<) offsets \<and> length offsets \<le> unat record_count \<and> data = put_postings offsets @ rest"
  by (rule take_postings_iff)

end
