(* ===== verification/Segment_Index.thy ===== *)
theory Segment_Index
  imports Varint Crc
begin

text \<open>
  The metadata sections of a segment (\<open>src/src/segment.rs\<close>): the checksummed wrapper every section
  is stored in, and the bodies of the trace index and of the attribute index. A \<open>BTreeMap\<close> handed to
  an encoder is its association list in iteration order; a \<open>HashMap\<close> a decoder builds is a map. A
  \<open>Hash128\<close> is its sixteen bytes. The LZ4 block codec (\<open>lz4_flex\<close>, not under \<open>src/\<close>) is the
  parameter pair \<open>compress\<close> / \<open>decompress\<close>.
\<close>

section \<open>The section wrapper\<close>

datatype codec = Raw | Lz4

definition codec_id :: "codec \<Rightarrow> u32" where
  "codec_id c = (case c of Raw \<Rightarrow> 0 | Lz4 \<Rightarrow> 1)"

definition codec_from_id :: "u32 \<Rightarrow> seg_error + codec" where
  "codec_from_id found =
     (if found = 0 then Inr Raw else if found = 1 then Inr Lz4 else Inl (UnsupportedCodec found))"

definition SECTION_WRAPPER_LEN :: nat where
  "SECTION_WRAPPER_LEN = 16"

definition SECTION_LZ4_FLAG :: u32 where
  "SECTION_LZ4_FLAG = 1"

definition wrap_section :: "(bytes \<Rightarrow> bytes) \<Rightarrow> bytes \<Rightarrow> codec \<Rightarrow> bytes" where
  "wrap_section compress body codec =
     (let logical_len = (of_nat (length body) :: u64);
          (stored, flags) =
            (case codec of
               Lz4 \<Rightarrow> (let compressed = compress body in
                        if length compressed < length body then (compressed, SECTION_LZ4_FLAG) else (body, 0))
             | Raw \<Rightarrow> (body, 0));
          tail = u32_le flags @ u64_le logical_len @ stored
      in u32_le (crc32 tail) @ tail)"

definition unwrap_section ::
  "(bytes \<Rightarrow> nat \<Rightarrow> bytes option) \<Rightarrow> bytes \<Rightarrow> bool \<Rightarrow> string \<Rightarrow> seg_error + bytes" where
  "unwrap_section decompress raw compressible name =
     (if length raw < SECTION_WRAPPER_LEN then Inl (CorruptSection name ''shorter than its wrapper'')
      else if crc32 (drop 4 raw) \<noteq> le_u32 (bytes_at 0 4 raw) then Inl (CorruptSection name ''checksum mismatch'')
      else
        let flags = le_u32 (bytes_at 4 4 raw) in
        if flags AND NOT SECTION_LZ4_FLAG \<noteq> 0 then Inl (CorruptSection name ''unknown wrapper flag'')
        else
          let logical_len = unat (le_u64 (bytes_at 8 8 raw)); body = drop SECTION_WRAPPER_LEN raw in
          if flags AND SECTION_LZ4_FLAG = 0 then
            (if logical_len \<noteq> length body then Inl (CorruptSection name ''raw body length mismatch'')
             else Inr body)
          else if \<not> compressible then Inl (CorruptSection name ''this section must be stored raw'')
          else if logical_len > length body * 256 + 64
            then Inl (CorruptSection name ''declared length exceeds what lz4 can decode'')
          else
            (case decompress body logical_len of
               None \<Rightarrow> Inl (CorruptSection name ''body does not decompress'')
             | Some decoded \<Rightarrow>
                 if length decoded \<noteq> logical_len
                 then Inl (CorruptSection name ''body decodes to the wrong length'')
                 else Inr decoded))"

text \<open>What the code relies on of \<open>lz4_flex::block\<close>: decompressing a compressed block to its length gives
  the block back, a block expands at most 255 times plus a constant, and a compressed block is never
  empty (it holds at least one token byte).\<close>

definition lz4_block :: "(bytes \<Rightarrow> bytes) \<Rightarrow> (bytes \<Rightarrow> nat \<Rightarrow> bytes option) \<Rightarrow> bool" where
  "lz4_block compress decompress \<longleftrightarrow>
     (\<forall>b. decompress (compress b) (length b) = Some b \<and> length b \<le> 256 * length (compress b) + 64
        \<and> compress b \<noteq> [])"

lemma unwrap_stored:
  assumes "flags = 0 \<or> flags = SECTION_LZ4_FLAG"
  shows "unwrap_section decompress (u32_le (crc32 (u32_le flags @ u64_le len @ stored)) @ u32_le flags @ u64_le len @ stored)
      compressible name =
    (if flags = 0 then
       (if unat len \<noteq> length stored then Inl (CorruptSection name ''raw body length mismatch'') else Inr stored)
     else if \<not> compressible then Inl (CorruptSection name ''this section must be stored raw'')
     else if unat len > length stored * 256 + 64
       then Inl (CorruptSection name ''declared length exceeds what lz4 can decode'')
     else
       (case decompress stored (unat len) of
          None \<Rightarrow> Inl (CorruptSection name ''body does not decompress'')
        | Some decoded \<Rightarrow>
            if length decoded \<noteq> unat len then Inl (CorruptSection name ''body decodes to the wrong length'')
            else Inr decoded))"
  using assms
  by (auto simp: unwrap_section_def SECTION_WRAPPER_LEN_def SECTION_LZ4_FLAG_def bytes_at_def Let_def)

lemma unwrap_wrap:
  assumes "lz4_block compress decompress" and "length body \<le> isize_max" and "compressible \<or> codec = Raw"
  shows "unwrap_section decompress (wrap_section compress body codec) compressible name = Inr body"
proof -
  have len: "unat (of_nat (length body) :: u64) = length body"
    using assms(2) by (simp add: unat_of_nat)
  show ?thesis
  proof (cases "codec = Lz4 \<and> length (compress body) < length body")
    case True
    with assms(3) have "compressible" by auto
    moreover have "decompress (compress body) (length body) = Some body"
        and "length body \<le> length (compress body) * 256 + 64"
      using assms(1) by (simp_all add: lz4_block_def mult.commute)
    ultimately show ?thesis
      using True len unwrap_stored [of SECTION_LZ4_FLAG decompress "of_nat (length body)" "compress body" compressible name]
      by (simp add: wrap_section_def Let_def SECTION_LZ4_FLAG_def)
  next
    case False
    then show ?thesis
      using len unwrap_stored [of 0 decompress "of_nat (length body)" body compressible name]
      by (cases codec) (auto simp: wrap_section_def Let_def)
  qed
qed

section \<open>Tables of distinct entries\<close>

text \<open>
  A decoder that accepts exactly the encodings of valid values, on buffers of at most \<open>limit\<close> bytes.
  The tables of a section are read by such a decoder in a loop that refuses a repeated key.
\<close>

fun take_distinct ::
  "(bytes \<Rightarrow> seg_error + ('e \<times> bytes)) \<Rightarrow> ('e \<Rightarrow> 'k) \<Rightarrow> string \<Rightarrow> nat \<Rightarrow> 'k list \<Rightarrow> bytes
    \<Rightarrow> seg_error + ('e list \<times> bytes)" where
  "take_distinct dec key dup 0 seen data = Inr ([], data)"
| "take_distinct dec key dup (Suc n) seen data =
     (case dec data of
        Inl e \<Rightarrow> Inl e
      | Inr (entry, data) \<Rightarrow>
          if key entry \<in> set seen then Inl (Corrupt dup)
          else
            (case take_distinct dec key dup n (key entry # seen) data of
               Inl e \<Rightarrow> Inl e
             | Inr (entries, rest) \<Rightarrow> Inr (entry # entries, rest)))"

locale exact_codec =
  fixes enc :: "'a \<Rightarrow> bytes"
    and dec :: "bytes \<Rightarrow> seg_error + ('a \<times> bytes)"
    and valid :: "'a \<Rightarrow> bool"
    and limit :: nat
  assumes dec_iff: "length data \<le> limit \<Longrightarrow> dec data = Inr (x, rest) \<longleftrightarrow> valid x \<and> data = enc x @ rest"
    and enc_nonempty: "enc x \<noteq> []"
begin

lemma take_distinct_iff:
  "length data \<le> limit \<Longrightarrow>
   take_distinct dec key dup n seen data = Inr (xs, rest) \<longleftrightarrow>
     length xs = n \<and> list_all valid xs \<and> distinct (map key xs) \<and> set (map key xs) \<inter> set seen = {}
     \<and> data = concat (map enc xs) @ rest"
proof (induction n arbitrary: seen data xs)
  case 0
  then show ?case by auto
next
  case (Suc n)
  show ?case
  proof (cases xs)
    case Nil
    then show ?thesis by (auto split: sum.splits prod.splits)
  next
    case (Cons x ys)
    have "take_distinct dec key dup (Suc n) seen data = Inr (x # ys, rest) \<longleftrightarrow>
        (\<exists>d. dec data = Inr (x, d) \<and> key x \<notin> set seen
          \<and> take_distinct dec key dup n (key x # seen) d = Inr (ys, rest))"
      by (auto split: sum.splits prod.splits)
    also have "\<dots> \<longleftrightarrow> (\<exists>d. (valid x \<and> data = enc x @ d) \<and> key x \<notin> set seen \<and>
        (length ys = n \<and> list_all valid ys \<and> distinct (map key ys) \<and> set (map key ys) \<inter> set (key x # seen) = {}
          \<and> d = concat (map enc ys) @ rest))"
      unfolding dec_iff [OF Suc.prems]
    proof (intro ex_cong1 conj_cong refl)
      fix d assume "valid x \<and> data = enc x @ d"
      with Suc.prems have "length d \<le> limit" by simp
      then show "take_distinct dec key dup n (key x # seen) d = Inr (ys, rest) \<longleftrightarrow>
          length ys = n \<and> list_all valid ys \<and> distinct (map key ys) \<and> set (map key ys) \<inter> set (key x # seen) = {}
          \<and> d = concat (map enc ys) @ rest" by (rule Suc.IH)
    qed
    also have "\<dots> \<longleftrightarrow> length (x # ys) = Suc n \<and> list_all valid (x # ys) \<and> distinct (map key (x # ys))
        \<and> set (map key (x # ys)) \<inter> set seen = {} \<and> data = concat (map enc (x # ys)) @ rest"
      by auto
    finally show ?thesis using Cons by simp
  qed
qed

lemma length_table: "length xs \<le> length (concat (map enc xs))"
proof (induction xs)
  case (Cons x xs)
  have "0 < length (enc x)" using enc_nonempty by simp
  with Cons show ?case by (simp del: length_greater_0_conv)
qed simp

end

section \<open>The trace index\<close>

type_synonym postings = "u64 list"

definition postings_ok :: "u64 \<Rightarrow> postings \<Rightarrow> bool" where
  "postings_ok record_count offsets \<longleftrightarrow> sorted_wrt (<) offsets \<and> length offsets \<le> unat record_count"

definition put_trace_entry :: "bytes \<times> postings \<Rightarrow> bytes" where
  "put_trace_entry e = put_str (fst e) @ put_postings (snd e)"

definition take_trace_entry :: "nat \<Rightarrow> u64 \<Rightarrow> bytes \<Rightarrow> seg_error + ((bytes \<times> postings) \<times> bytes)" where
  "take_trace_entry buf_len record_count data =
     (case take_str buf_len data of
        Inl e \<Rightarrow> Inl e
      | Inr (trace_id, data) \<Rightarrow>
          (case take_postings record_count data of
             Inl e \<Rightarrow> Inl e
           | Inr (offsets, data) \<Rightarrow> Inr ((trace_id, offsets), data)))"

definition encode_trace_index :: "(bytes \<times> postings) list \<Rightarrow> bytes" where
  "encode_trace_index index = put_varint (of_nat (length index)) @ concat (map put_trace_entry index)"

definition decode_trace_index :: "bytes \<Rightarrow> u64 \<Rightarrow> seg_error + (bytes \<rightharpoonup> postings)" where
  "decode_trace_index data record_count =
     (case take_varint data of
        Inl e \<Rightarrow> Inl e
      | Inr (count, rest) \<Rightarrow>
          if unat count > length data then Inl (Corrupt ''trace index declares too many entries'')
          else
            (case take_distinct (take_trace_entry (length data) record_count) fst
                    ''index contains a duplicate key'' (unat count) [] rest of
               Inl e \<Rightarrow> Inl e
             | Inr (entries, rest) \<Rightarrow>
                 if rest \<noteq> [] then Inl (Corrupt ''index contains trailing bytes'') else Inr (map_of entries)))"

definition trace_entry_ok :: "u64 \<Rightarrow> bytes \<times> postings \<Rightarrow> bool" where
  "trace_entry_ok record_count e \<longleftrightarrow> utf8_valid (fst e) \<and> postings_ok record_count (snd e)"

definition trace_index_ok :: "u64 \<Rightarrow> (bytes \<times> postings) list \<Rightarrow> bool" where
  "trace_index_ok record_count index \<longleftrightarrow> distinct (map fst index) \<and> list_all (trace_entry_ok record_count) index"

lemma exact_trace_entry:
  assumes "buf_len \<le> isize_max"
  shows "exact_codec put_trace_entry (take_trace_entry buf_len rc) (trace_entry_ok rc) buf_len"
proof
  fix data :: bytes and x rest assume len: "length data \<le> buf_len"
  have "take_trace_entry buf_len rc data = Inr (x, rest) \<longleftrightarrow>
      (\<exists>d. take_str buf_len data = Inr (fst x, d) \<and> take_postings rc d = Inr (snd x, rest))"
    by (cases x) (auto simp: take_trace_entry_def split: sum.splits prod.splits)
  also have "\<dots> \<longleftrightarrow> trace_entry_ok rc x \<and> data = put_trace_entry x @ rest"
    unfolding take_str_iff [OF len assms] take_postings_iff
    by (auto simp: trace_entry_ok_def put_trace_entry_def postings_ok_def)
  finally show "take_trace_entry buf_len rc data = Inr (x, rest) \<longleftrightarrow>
      trace_entry_ok rc x \<and> data = put_trace_entry x @ rest" .
qed (simp add: put_trace_entry_def)

interpretation trace_entry: exact_codec put_trace_entry "take_trace_entry (min n isize_max) rc" "trace_entry_ok rc"
    "min n isize_max" for n rc
  by (rule exact_trace_entry) simp

lemma decode_trace_index_iff:
  assumes "length data \<le> isize_max"
  shows "decode_trace_index data record_count = Inr m \<longleftrightarrow>
    (\<exists>index. trace_index_ok record_count index \<and> data = encode_trace_index index \<and> m = map_of index)"
proof
  note entries = trace_entry.take_distinct_iff [of _ "length data", unfolded min_absorb1 [OF assms]]
  assume "decode_trace_index data record_count = Inr m"
  then obtain count rest es where v: "data = put_varint count @ rest"
    and t: "take_distinct (take_trace_entry (length data) record_count) fst
              ''index contains a duplicate key'' (unat count) [] rest = Inr (es, [])" and m: "m = map_of es"
    by (auto simp: decode_trace_index_def take_varint_iff split: sum.splits prod.splits if_splits)
  from v have "length rest \<le> length data" by simp
  with t have es: "length es = unat count" "trace_index_ok record_count es" "rest = concat (map put_trace_entry es)"
    by (simp_all add: entries trace_index_ok_def)
  from es(1) have "of_nat (length es) = count" by simp
  with v m es show "\<exists>index. trace_index_ok record_count index \<and> data = encode_trace_index index \<and> m = map_of index"
    by (auto simp: encode_trace_index_def)
next
  note entries = trace_entry.take_distinct_iff [of _ "length data", unfolded min_absorb1 [OF assms]]
  assume "\<exists>index. trace_index_ok record_count index \<and> data = encode_trace_index index \<and> m = map_of index"
  then obtain es where ok: "trace_index_ok record_count es" and data: "data = encode_trace_index es"
    and m: "m = map_of es" by blast
  have le: "length es \<le> length data"
    using data trace_entry.length_table [of es] by (simp add: encode_trace_index_def)
  with assms have u: "unat (of_nat (length es) :: u64) = length es" by (simp add: unat_of_nat)
  have "length (concat (map put_trace_entry es)) \<le> length data" using data by (simp add: encode_trace_index_def)
  with ok have "take_distinct (take_trace_entry (length data) record_count) fst ''index contains a duplicate key''
      (length es) [] (concat (map put_trace_entry es)) = Inr (es, [])"
    by (simp add: entries trace_index_ok_def)
  with data m le u show "decode_trace_index data record_count = Inr m"
    by (simp add: decode_trace_index_def take_put_varint encode_trace_index_def)
qed

section \<open>The attribute index\<close>

record attribute_index =
  ai_keys :: "bytes list"
  ai_key_ids :: "bytes \<rightharpoonup> u32"
  ai_postings :: "u32 \<times> bytes \<rightharpoonup> postings"

definition take_digest :: "bytes \<Rightarrow> seg_error + (bytes \<times> bytes)" where
  "take_digest data =
     (if length data < 16 then Inl (Corrupt ''truncated attribute digest'')
      else Inr (take 16 data, drop 16 data))"

definition put_attribute_entry :: "(u32 \<times> bytes) \<times> postings \<Rightarrow> bytes" where
  "put_attribute_entry e = put_varint (ucast (fst (fst e))) @ snd (fst e) @ put_postings (snd e)"

definition take_attribute_entry ::
  "nat \<Rightarrow> u64 \<Rightarrow> bytes \<Rightarrow> seg_error + (((u32 \<times> bytes) \<times> postings) \<times> bytes)" where
  "take_attribute_entry key_count record_count data =
     (case take_varint data of
        Inl e \<Rightarrow> Inl e
      | Inr (word, data) \<Rightarrow>
          if unat word \<ge> 2 ^ 32 then Inl (Corrupt ''attribute entry names an unknown key'')
          else if unat (ucast word :: u32) \<ge> key_count then Inl (Corrupt ''attribute entry names an unknown key'')
          else
            (case take_digest data of
               Inl e \<Rightarrow> Inl e
             | Inr (digest, data) \<Rightarrow>
                 (case take_postings record_count data of
                    Inl e \<Rightarrow> Inl e
                  | Inr (offsets, data) \<Rightarrow> Inr (((ucast word, digest), offsets), data))))"

definition encode_attribute_index :: "bytes list \<Rightarrow> ((u32 \<times> bytes) \<times> postings) list \<Rightarrow> bytes" where
  "encode_attribute_index keys entries =
     put_varint (of_nat (length keys)) @ concat (map put_str keys)
       @ put_varint (of_nat (length entries)) @ concat (map put_attribute_entry entries)"

definition decode_attribute_index :: "bytes \<Rightarrow> u64 \<Rightarrow> seg_error + attribute_index" where
  "decode_attribute_index data record_count =
     (case take_varint data of
        Inl e \<Rightarrow> Inl e
      | Inr (key_count, rest) \<Rightarrow>
          if unat key_count > length data \<or> unat key_count > 2 ^ 32 - 1
          then Inl (Corrupt ''attribute key dictionary is too large'')
          else
            (case take_distinct (take_str (length data)) (\<lambda>k. k) ''attribute key dictionary has a duplicate''
                    (unat key_count) [] rest of
               Inl e \<Rightarrow> Inl e
             | Inr (keys, rest) \<Rightarrow>
                 (case take_varint rest of
                    Inl e \<Rightarrow> Inl e
                  | Inr (entry_count, rest) \<Rightarrow>
                      if unat entry_count > length data
                      then Inl (Corrupt ''attribute index declares too many entries'')
                      else
                        (case take_distinct (take_attribute_entry (length keys) record_count) fst
                                ''index contains a duplicate key'' (unat entry_count) [] rest of
                           Inl e \<Rightarrow> Inl e
                         | Inr (entries, rest) \<Rightarrow>
                             if rest \<noteq> [] then Inl (Corrupt ''index contains trailing bytes'')
                             else Inr \<lparr>ai_keys = keys,
                                       ai_key_ids = map_of (zip keys (map of_nat [0..<length keys])),
                                       ai_postings = map_of entries\<rparr>))))"

definition attribute_entry_ok :: "nat \<Rightarrow> u64 \<Rightarrow> (u32 \<times> bytes) \<times> postings \<Rightarrow> bool" where
  "attribute_entry_ok key_count record_count e \<longleftrightarrow>
     unat (fst (fst e)) < key_count \<and> length (snd (fst e)) = 16 \<and> postings_ok record_count (snd e)"

definition attribute_index_ok :: "u64 \<Rightarrow> bytes list \<Rightarrow> ((u32 \<times> bytes) \<times> postings) list \<Rightarrow> bool" where
  "attribute_index_ok record_count keys entries \<longleftrightarrow>
     length keys < 2 ^ 32 \<and> distinct keys \<and> list_all utf8_valid keys
     \<and> distinct (map fst entries) \<and> list_all (attribute_entry_ok (length keys) record_count) entries"

interpretation str: exact_codec put_str "take_str (min n isize_max)" utf8_valid "min n isize_max" for n
  by unfold_locales (simp_all add: take_str_iff put_str_def)

lemma take_digest_iff: "take_digest data = Inr (d, rest) \<longleftrightarrow> length d = 16 \<and> data = d @ rest"
  by (auto simp: take_digest_def)

lemma ucast_key: "unat w < 2 ^ 32 \<Longrightarrow> (ucast (ucast w :: u32) :: u64) = w" for w :: u64
  by (rule word_unat_eq_iff [THEN iffD2]) (simp add: unsigned_ucast_eq unsigned_take_bit_eq take_bit_nat_eq_self)

interpretation attribute_entry:
  exact_codec put_attribute_entry "take_attribute_entry key_count rc" "attribute_entry_ok key_count rc" n
    for key_count rc n
proof
  fix data :: bytes and x rest
  have small: "unat (ucast k :: u64) = unat k" "ucast (ucast k :: u64) = k" for k :: u32
    using unat_u32_lt [of k]
    by (simp_all add: word_unat_eq_iff unsigned_ucast_eq take_bit_nat_eq_self unsigned_take_bit_eq)
  have key: "unat w < 2 ^ 32 \<and> ucast w = k \<longleftrightarrow> w = ucast k" for w :: u64 and k :: u32
    using small [of k] unat_u32_lt [of k] ucast_key [of w] by auto
  have "take_attribute_entry key_count rc data = Inr (x, rest) \<longleftrightarrow>
      (\<exists>w d d'. take_varint data = Inr (w, d) \<and> (unat w < 2 ^ 32 \<and> ucast w = fst (fst x))
        \<and> unat (fst (fst x)) < key_count
        \<and> take_digest d = Inr (snd (fst x), d') \<and> take_postings rc d' = Inr (snd x, rest))"
    by (cases x) (auto simp: take_attribute_entry_def not_le split: sum.splits prod.splits if_splits)
  also have "\<dots> \<longleftrightarrow> attribute_entry_ok key_count rc x \<and> data = put_attribute_entry x @ rest"
    unfolding take_varint_iff take_digest_iff take_postings_iff key
    by (auto simp: attribute_entry_ok_def put_attribute_entry_def postings_ok_def)
  finally show "take_attribute_entry key_count rc data = Inr (x, rest) \<longleftrightarrow>
      attribute_entry_ok key_count rc x \<and> data = put_attribute_entry x @ rest" .
qed (simp add: put_attribute_entry_def)

lemma decode_attribute_index_iff:
  assumes "length data \<le> isize_max"
  shows "decode_attribute_index data record_count = Inr ai \<longleftrightarrow>
    (\<exists>keys entries. attribute_index_ok record_count keys entries \<and> data = encode_attribute_index keys entries
      \<and> ai = \<lparr>ai_keys = keys, ai_key_ids = map_of (zip keys (map of_nat [0..<length keys])),
              ai_postings = map_of entries\<rparr>)"
    (is "_ \<longleftrightarrow> ?r")
proof
  note strs = str.take_distinct_iff [of _ "length data", unfolded min_absorb1 [OF assms]]
  assume "decode_attribute_index data record_count = Inr ai"
  then obtain kc d1 keys d2 ec d3 entries where v: "data = put_varint kc @ d1"
    and kc: "unat kc < 2 ^ 32"
    and k: "take_distinct (take_str (length data)) (\<lambda>k. k) ''attribute key dictionary has a duplicate''
              (unat kc) [] d1 = Inr (keys, d2)"
    and w: "d2 = put_varint ec @ d3"
    and e: "take_distinct (take_attribute_entry (length keys) record_count) fst
              ''index contains a duplicate key'' (unat ec) [] d3 = Inr (entries, [])"
    and ai: "ai = \<lparr>ai_keys = keys, ai_key_ids = map_of (zip keys (map of_nat [0..<length keys])),
              ai_postings = map_of entries\<rparr>"
    by (auto simp: decode_attribute_index_def take_varint_iff split: sum.splits prod.splits if_splits)
  from v have "length d1 \<le> length data" by simp
  with k have keys: "length keys = unat kc" "list_all utf8_valid keys" "distinct keys"
      "d1 = concat (map put_str keys) @ d2"
    by (simp_all add: strs)
  from e have entries: "length entries = unat ec" "distinct (map fst entries)"
      "list_all (attribute_entry_ok (length keys) record_count) entries" "d3 = concat (map put_attribute_entry entries)"
    by (simp_all add: attribute_entry.take_distinct_iff [of _ "length d3"])
  have "of_nat (length keys) = kc" "of_nat (length entries) = ec" using keys(1) entries(1) by simp_all
  then have "data = encode_attribute_index keys entries"
    using v keys(4) w entries(4) by (simp add: encode_attribute_index_def)
  moreover have "attribute_index_ok record_count keys entries"
    using keys entries kc by (simp add: attribute_index_ok_def)
  ultimately show ?r using ai by blast
next
  note strs = str.take_distinct_iff [of _ "length data", unfolded min_absorb1 [OF assms]]
  assume ?r
  then obtain keys entries where ok: "attribute_index_ok record_count keys entries"
    and data: "data = encode_attribute_index keys entries"
    and ai: "ai = \<lparr>ai_keys = keys, ai_key_ids = map_of (zip keys (map of_nat [0..<length keys])),
              ai_postings = map_of entries\<rparr>" by blast
  let ?es = "put_varint (of_nat (length entries)) @ concat (map put_attribute_entry entries)"
  have le: "length keys \<le> length data" "length entries \<le> length data"
    using data str.length_table [of keys] attribute_entry.length_table [of entries]
    by (simp_all add: encode_attribute_index_def)
  with assms have u: "unat (of_nat (length keys) :: u64) = length keys"
      "unat (of_nat (length entries) :: u64) = length entries"
    by (simp_all add: unat_of_nat)
  have "length (concat (map put_str keys) @ ?es) \<le> length data"
    using data by (simp add: encode_attribute_index_def)
  with ok have k: "take_distinct (take_str (length data)) (\<lambda>k. k) ''attribute key dictionary has a duplicate''
      (length keys) [] (concat (map put_str keys) @ ?es) = Inr (keys, ?es)"
    by (simp add: strs attribute_index_ok_def)
  have e: "take_distinct (take_attribute_entry (length keys) record_count) fst
      ''index contains a duplicate key'' (length entries) [] (concat (map put_attribute_entry entries)) = Inr (entries, [])"
    using ok by (subst attribute_entry.take_distinct_iff [OF order_refl]) (simp add: attribute_index_ok_def)
  have "take_varint data = Inr (of_nat (length keys), concat (map put_str keys) @ ?es)"
    unfolding take_varint_iff data by (simp add: encode_attribute_index_def)
  moreover have "take_varint ?es = Inr (of_nat (length entries), concat (map put_attribute_entry entries))"
    by (simp add: take_varint_iff)
  moreover have "length keys < 2 ^ 32" using ok by (simp add: attribute_index_ok_def)
  ultimately show "decode_attribute_index data record_count = Inr ai"
    using le u k e ai by (simp add: decode_attribute_index_def)
qed

section \<open>Properties\<close>

text \<open>The trace index decodes exactly when its bytes are the encoding of a table with distinct
  UTF-8 trace ids and strictly ascending postings, and the decoded index is that table. The bound on
  the declared count, there to limit an allocation, never refuses an honest index.\<close>

theorem trace_index_decodes_exactly:
  assumes "length data \<le> isize_max"
  shows "decode_trace_index data record_count = Inr m \<longleftrightarrow>
    (\<exists>index. trace_index_ok record_count index \<and> data = encode_trace_index index \<and> m = map_of index)"
  using assms by (rule decode_trace_index_iff)

lemma put_varint_small: "unat v < 128 \<Longrightarrow> put_varint v = [ucast v]"
proof -
  assume "unat v < 128"
  then have "unat (drop_bit 7 v) = 0" unfolding unat_drop_bit_7 by simp
  then have d: "drop_bit 7 v = 0" by (simp only: unat_eq_0)
  with drop_bit_7_0 [OF d] show ?thesis by (simp only: put_varint_last)
qed

theorem trace_index_decodes_exactly_witness:
  "decode_trace_index [1, 2, 0x74, 0x31, 2, 0, 9] 3 = Inr [[0x74, 0x31] \<mapsto> [0, 9]]"
proof -
  have "encode_trace_index [([0x74, 0x31], [0, 9])] = [1, 2, 0x74, 0x31, 2, 0, 9]"
    by (simp add: encode_trace_index_def put_trace_entry_def put_str_def put_postings_def put_varint_small)
  moreover have "trace_index_ok 3 [([0x74, 0x31], [0, 9])]"
    by (simp add: trace_index_ok_def trace_entry_ok_def postings_ok_def)
  ultimately show ?thesis
    by (intro trace_index_decodes_exactly [THEN iffD2] exI [of _ "[([0x74, 0x31], [0, 9])]"]) simp_all
qed

text \<open>The attribute index decodes exactly when its bytes are the encoding of a dictionary of
  distinct UTF-8 keys and a table with one entry per key id and digest, whose ids name keys of the
  dictionary, and the decoded index is that dictionary, its inverse, and that table.\<close>

theorem attribute_index_decodes_exactly:
  assumes "length data \<le> isize_max"
  shows "decode_attribute_index data record_count = Inr ai \<longleftrightarrow>
    (\<exists>keys entries. attribute_index_ok record_count keys entries \<and> data = encode_attribute_index keys entries
      \<and> ai = \<lparr>ai_keys = keys, ai_key_ids = map_of (zip keys (map of_nat [0..<length keys])),
              ai_postings = map_of entries\<rparr>)"
  using assms by (rule decode_attribute_index_iff)

theorem attribute_index_decodes_exactly_witness:
  "decode_attribute_index ([1, 1, 0x6b, 1, 0] @ replicate 16 5 @ [1, 7]) 1 =
     Inr \<lparr>ai_keys = [[0x6b]], ai_key_ids = [[0x6b] \<mapsto> 0], ai_postings = [(0, replicate 16 5) \<mapsto> [7]]\<rparr>"
proof -
  have "encode_attribute_index [[0x6b]] [((0, replicate 16 5), [7])] = [1, 1, 0x6b, 1, 0] @ replicate 16 5 @ [1, 7]"
    by (simp add: encode_attribute_index_def put_attribute_entry_def put_str_def put_postings_def put_varint_small)
  moreover have "attribute_index_ok 1 [[0x6b]] [((0, replicate 16 5), [7])]"
    by (simp add: attribute_index_ok_def attribute_entry_ok_def postings_ok_def)
  ultimately show ?thesis
    by (intro attribute_index_decodes_exactly [THEN iffD2] exI [of _ "[[0x6b]]"]
        exI [of _ "[((0, replicate 16 5), [7])]"]) simp_all
qed

text \<open>A wrapped section unwraps to its body, whichever form the codec and the size of the
  compressed body selected, on the documented behaviour of the LZ4 block codec; a section that must
  stay raw only under the raw codec.\<close>

theorem wrapped_sections_unwrap:
  assumes "lz4_block compress decompress" and "length body \<le> isize_max" and "compressible \<or> codec = Raw"
  shows "unwrap_section decompress (wrap_section compress body codec) compressible name = Inr body"
  using assms by (rule unwrap_wrap)

definition rle_compress :: "bytes \<Rightarrow> bytes" where
  "rle_compress b = (if b = replicate 20 0 then [20] else 0 # b)"

definition rle_decompress :: "bytes \<Rightarrow> nat \<Rightarrow> bytes option" where
  "rle_decompress b n = (case b of [] \<Rightarrow> None | x # xs \<Rightarrow> if x = 20 \<and> xs = [] then Some (replicate 20 0) else Some xs)"

lemma rle_block: "lz4_block rle_compress rle_decompress"
  by (simp add: lz4_block_def rle_compress_def rle_decompress_def)

theorem wrapped_sections_unwrap_witness:
  "unwrap_section rle_decompress (wrap_section rle_compress (replicate 20 0) Lz4) True ''trace index'' = Inr (replicate 20 0)
   \<and> length (wrap_section rle_compress (replicate 20 0) Lz4) = 17"
proof
  show "unwrap_section rle_decompress (wrap_section rle_compress (replicate 20 0) Lz4) True ''trace index'' = Inr (replicate 20 0)"
    by (rule wrapped_sections_unwrap [OF rle_block]) simp_all
  show "length (wrap_section rle_compress (replicate 20 0) Lz4) = 17"
    by (simp add: wrap_section_def rle_compress_def Let_def)
qed

text \<open>Damage never shrinks an answer silently. A section that opens, altered within any four
  consecutive bytes behind its checksum word, is refused by name with a checksum mismatch before
  its flags, its length or its body is believed.\<close>

theorem damaged_sections_are_refused:
  assumes "unwrap_section decompress (word @ p @ original @ s) compressible name = Inr body"
    and "length word = 4" and "length damaged = length original" and "length original \<le> 4"
    and "damaged \<noteq> original"
  shows "unwrap_section decompress (word @ p @ damaged @ s) compressible name
      = Inl (CorruptSection name ''checksum mismatch'')"
proof -
  have len: "\<not> length (word @ p @ original @ s) < SECTION_WRAPPER_LEN"
    and crc: "crc32 (p @ original @ s) = le_u32 word"
    using assms(1,2) by (auto simp: unwrap_section_def split: if_splits)
  have "crc32 (p @ damaged @ s) \<noteq> crc32 (p @ original @ s)"
    using assms(3-5) by (rule crc32_burst)
  with len crc assms(2,3) show ?thesis by (simp add: unwrap_section_def)
qed

theorem damaged_sections_are_refused_witness:
  "unwrap_section rle_decompress (take 16 (wrap_section rle_compress [1, 2, 3] Raw) @ [1, 7, 3]) True ''trace index''
     = Inl (CorruptSection ''trace index'' ''checksum mismatch'')"
proof -
  let ?raw = "wrap_section rle_compress [1, 2, 3] Raw"
  let ?word = "take 4 ?raw" and ?p = "take 12 (drop 4 ?raw)"
  have raw: "?raw = ?word @ ?p @ [1, 2, 3] @ []" and t: "take 16 ?raw = ?word @ ?p"
    by (simp_all add: wrap_section_def Let_def)
  have "unwrap_section rle_decompress (?word @ ?p @ [1, 2, 3] @ []) True ''trace index'' = Inr [1, 2, 3]"
    unfolding raw [symmetric] by (rule unwrap_wrap [OF rle_block]) simp_all
  moreover have "length ?word = 4" by (simp add: wrap_section_def Let_def)
  ultimately have "unwrap_section rle_decompress (?word @ ?p @ [1, 7, 3] @ []) True ''trace index''
      = Inl (CorruptSection ''trace index'' ''checksum mismatch'')"
    by (rule damaged_sections_are_refused) simp_all
  then show ?thesis unfolding t by simp
qed

end
