(* ===== verification/Siphash.thy ===== *)
theory Siphash
  imports Traza_Prelude
begin

text \<open>
  \<open>src/src/hash.rs\<close>: the 128-bit digest of an attribute value, two SipHash-1-3 passes under fixed keys,
  and the length-prefixed buffer that binds a value to its key. A digest is its sixteen bytes.
\<close>

unbundle bit_operations_syntax

type_synonym sip_state = "u64 \<times> u64 \<times> u64 \<times> u64"

definition rotate_left :: "nat \<Rightarrow> u64 \<Rightarrow> u64" where
  "rotate_left n w = push_bit n w OR drop_bit (64 - n) w"

definition sip_round :: "sip_state \<Rightarrow> sip_state" where
  "sip_round v =
     (case v of (v0, v1, v2, v3) \<Rightarrow>
       let v0 = v0 + v1; v1 = rotate_left 13 v1; v1 = v1 XOR v0; v0 = rotate_left 32 v0;
           v2 = v2 + v3; v3 = rotate_left 16 v3; v3 = v3 XOR v2;
           v0 = v0 + v3; v3 = rotate_left 21 v3; v3 = v3 XOR v0;
           v2 = v2 + v1; v1 = rotate_left 17 v1; v1 = v1 XOR v2; v2 = rotate_left 32 v2
       in (v0, v1, v2, v3))"

definition sip_absorb :: "sip_state \<Rightarrow> u64 \<Rightarrow> sip_state" where
  "sip_absorb v word =
     (case v of (v0, v1, v2, v3) \<Rightarrow>
       case sip_round (v0, v1, v2, v3 XOR word) of (v0, v1, v2, v3) \<Rightarrow> (v0 XOR word, v1, v2, v3))"

text \<open>The final partial block: the remaining bytes, the low byte of the length on top.\<close>

definition sip_tail :: "nat \<Rightarrow> bytes \<Rightarrow> u64" where
  "sip_tail len remainder =
     fold (\<lambda>(index, byte) tail. tail OR push_bit (8 * index) (ucast byte))
       (zip [0..<length remainder] remainder) (push_bit 56 (of_nat len AND 0xff))"

definition siphash :: "bytes \<Rightarrow> u64 \<Rightarrow> u64 \<Rightarrow> u64" where
  "siphash bs k0 k1 =
     (let v = (k0 XOR 0x736f6d6570736575, k1 XOR 0x646f72616e646f6d,
               k0 XOR 0x6c7967656e657261, k1 XOR 0x7465646279746573);
          v = foldl (\<lambda>v chunk. sip_absorb v (le_u64 chunk)) v (chunks_exact 8 bs);
          v = sip_absorb v (sip_tail (length bs) (chunks_remainder 8 bs))
      in case v of (v0, v1, v2, v3) \<Rightarrow>
           case sip_round (sip_round (sip_round (v0, v1, v2 XOR 0xff, v3))) of (v0, v1, v2, v3) \<Rightarrow>
             v0 XOR v1 XOR v2 XOR v3)"

definition KEY_LOW :: "u64 \<times> u64" where
  "KEY_LOW = (0x243f6a8885a308d3, 0x9e3779b97f4a7c15)"

definition KEY_HIGH :: "u64 \<times> u64" where
  "KEY_HIGH = (0xb7e151628aed2a6b, 0x6a09e667f3bcc908)"

definition hash128 :: "bytes \<Rightarrow> bytes" where
  "hash128 bs = u64_le (siphash bs (fst KEY_LOW) (snd KEY_LOW)) @ u64_le (siphash bs (fst KEY_HIGH) (snd KEY_HIGH))"

definition attribute_buffer :: "bytes \<Rightarrow> bytes \<Rightarrow> bytes" where
  "attribute_buffer key value = u32_le (of_nat (length key)) @ key @ value"

definition hash_attribute :: "bytes \<Rightarrow> bytes \<Rightarrow> bytes" where
  "hash_attribute key value = hash128 (attribute_buffer key value)"

section \<open>Lemmas\<close>

lemma length_hash128 [simp]: "length (hash128 bs) = 16"
  by (simp add: hash128_def)

lemma length_hash_attribute [simp]: "length (hash_attribute k v) = 16"
  by (simp add: hash_attribute_def)

lemma attribute_buffer_inj:
  assumes "length k < 2 ^ 32" and "length k' < 2 ^ 32" and "attribute_buffer k v = attribute_buffer k' v'"
  shows "k = k' \<and> v = v'"
proof -
  from assms(3) have "u32_le (of_nat (length k)) = u32_le (of_nat (length k'))" and kv: "k @ v = k' @ v'"
    by (simp_all add: attribute_buffer_def)
  then have "(of_nat (length k) :: u32) = of_nat (length k')" by (metis le_u32_u32_le)
  then have "unat (of_nat (length k) :: u32) = unat (of_nat (length k') :: u32)" by (rule arg_cong)
  then have "length k = length k'" using assms(1,2) by (simp add: unat_of_nat)
  with kv show ?thesis by simp
qed

text \<open>The compression round is a bijection on states, so a pass loses no information before its end.\<close>

definition rotate_right :: "nat \<Rightarrow> u64 \<Rightarrow> u64" where
  "rotate_right n w = drop_bit n w OR push_bit (64 - n) w"

lemma rotate_right_left: "0 < n \<Longrightarrow> n < 64 \<Longrightarrow> rotate_right n (rotate_left n w) = w"
  unfolding rotate_left_def rotate_right_def
proof (rule bit_word_eqI)
  fix m assume n: "0 < n" "n < 64" and m: "m < LENGTH(64)"
  show "bit (drop_bit n (push_bit n w OR drop_bit (64 - n) w) OR push_bit (64 - n) (push_bit n w OR drop_bit (64 - n) w)) m = bit w m"
    using n m by (cases "m < 64 - n") (auto simp: bit_simps dest: bit_imp_le_length)
qed

lemma rotate_left_inj: "0 < n \<Longrightarrow> n < 64 \<Longrightarrow> rotate_left n x = rotate_left n y \<longleftrightarrow> x = y"
  by (metis rotate_right_left)

lemma xor_right_inj: "a XOR c = b XOR c \<longleftrightarrow> a = (b :: u64)"
proof
  assume "a XOR c = b XOR c"
  then have "(a XOR c) XOR c = (b XOR c) XOR c" by (rule arg_cong)
  then show "a = b" by (simp add: xor.assoc)
qed simp

lemma sip_round_inj: "sip_round x = sip_round y \<longleftrightarrow> x = y"
proof
  obtain a b c d where x: "x = (a, b, c, d)" by (cases x)
  obtain a' b' c' d' where y: "y = (a', b', c', d')" by (cases y)
  let ?r = "\<lambda>(a, b, c, d).
       let b1 = rotate_left 13 b XOR (a + b); a1 = rotate_left 32 (a + b);
           c1 = c + d; d1 = rotate_left 16 d XOR c1 in (a1, b1, c1, d1)"
  let ?s = "\<lambda>(a, b, c, d).
       let a1 = a + d; d1 = rotate_left 21 d XOR a1;
           c1 = c + b; b1 = rotate_left 17 b XOR c1 in (a1, b1, rotate_left 32 c1, d1)"
  have split: "sip_round v = ?s (?r v)" for v
    by (cases v) (simp add: sip_round_def Let_def)
  have r: "?r v = ?r w \<Longrightarrow> v = w" for v w
    by (cases v, cases w) (auto simp: Let_def rotate_left_inj xor_right_inj)
  have s: "?s v = ?s w \<Longrightarrow> v = w" for v w
    by (cases v, cases w) (auto simp: Let_def rotate_left_inj xor_right_inj)
  assume "sip_round x = sip_round y"
  then show "x = y" unfolding split by (blast dest: r s)
qed simp

section \<open>Properties\<close>

text \<open>The bytes hashed for an attribute determine both its key and its value. The length prefix
  leaves no way to move characters between them, so two different attributes share a digest only if
  the 128-bit hash itself collides.\<close>

theorem attribute_buffers_never_collide:
  assumes "length k < 2 ^ 32" and "length k' < 2 ^ 32"
    and "attribute_buffer k v = attribute_buffer k' v'"
  shows "k = k' \<and> v = v'"
  using assms by (rule attribute_buffer_inj)

theorem attribute_buffers_never_collide_witness:
  "attribute_buffer (ascii ''ab'') (ascii ''c'') \<noteq> attribute_buffer (ascii ''a'') (ascii ''bc'')"
proof
  assume "attribute_buffer (ascii ''ab'') (ascii ''c'') = attribute_buffer (ascii ''a'') (ascii ''bc'')"
  then have "ascii ''ab'' = ascii ''a'' \<and> ascii ''c'' = ascii ''bc''"
    by (intro attribute_buffers_never_collide) simp_all
  then show False by (simp add: ascii_def)
qed

text \<open>Evaluating the two passes on the empty input.\<close>

lemma le_bytes_numeral:
  "le_bytes (numeral k) v = of_nat (v mod 256) # le_bytes (pred_numeral k) (v div 256)"
  by (simp only: le_bytes.simps numeral_eq_Suc [of k])

lemma siphash_empty_low_rounds:
  "sip_round (0x575007edf5d06da6, 0xfa580bd8112e1378, 0x48460dedebc67ab2, 0xea521ddb063e1966)
     = (0x3641af153d0a9210, 0xa0acb48f8a3c93cb, 0xb696326d836b3dac, 0x889cc35af44f7a75)"
  "sip_round (0x3641af153d0a9210, 0xa0acb48f8a3c93cb, 0xb696326d836b3d53, 0x889cc35af44f7a75)
     = (0xc3af2762e4bda2f8, 0x5a7422d76f658969, 0xccf909967fb288ab, 0xf34e9e850e222ff8)"
  "sip_round (0xc3af2762e4bda2f8, 0x5a7422d76f658969, 0xccf909967fb288ab, 0xf34e9e850e222ff8)
     = (0xb2e5d29ac04f9627, 0x156c85ee7cbd8b21, 0x72e2bfd25ac14ff2, 0x75d19713bde44e73)"
  "sip_round (0xb2e5d29ac04f9627, 0x156c85ee7cbd8b21, 0x72e2bfd25ac14ff2, 0x75d19713bde44e73)
     = (0xbcb50c4b1f29443d, 0x6f9ef6d6a2c41395, 0xa50ea24a41a3ee04, 0xdcffd69669a6b0c0)"
  by (simp_all add: sip_round_def rotate_left_def)

lemma siphash_empty_low: "siphash [] (fst KEY_LOW) (snd KEY_LOW) = 0xaada8e4195e8096c"
  by (simp add: siphash_def chunks_exact_short chunks_remainder_short sip_tail_def sip_absorb_def
      siphash_empty_low_rounds KEY_LOW_def)

lemma siphash_empty_high_rounds:
  "sip_round (0xc48e3c07fa9e4f1e, 0xe6694069dd8a665, 0xdb983607e488580a, 0x1e6c82058ac8ac7b)
     = (0x10782849961eeaf7, 0xfd13a2b65495583c, 0xfc0b58d4fa78bbc2, 0x48c04d0acb31ead1)"
  "sip_round (0x10782849961eeaf7, 0xfd13a2b65495583c, 0xfc0b58d4fa78bb3d, 0x48c04d0acb31ead1)
     = (0xf475b2213d07b9cd, 0xbe72252abe7c7125, 0x75e829fbea8a64d, 0x29b05d5ce4c681e0)"
  "sip_round (0xf475b2213d07b9cd, 0xbe72252abe7c7125, 0x75e829fbea8a64d, 0x29b05d5ce4c681e0)
     = (0x67d6662cd576d8e8, 0x26598bc0237629ec, 0x190fc56927516081, 0x9237cce6db52af)"
  "sip_round (0x67d6662cd576d8e8, 0x26598bc0237629ec, 0x190fc56927516081, 0x9237cce6db52af)
     = (0x275a1ec1eab3a58e, 0x33fd891947c247e0, 0x4bfd394fd8f9f2b8, 0x5af18eb79ef6682d)"
  by (simp_all add: sip_round_def rotate_left_def)

lemma siphash_empty_high: "siphash [] (fst KEY_HIGH) (snd KEY_HIGH) = 0x5ab2020eb7e78fb"
  by (simp add: siphash_def chunks_exact_short chunks_remainder_short sip_tail_def sip_absorb_def
      siphash_empty_high_rounds KEY_HIGH_def)

text \<open>The digest of the empty input is the one the segment format pins.\<close>

theorem empty_digest_is_pinned:
  "hash128 [] = [0x6c, 0x09, 0xe8, 0x95, 0x41, 0x8e, 0xda, 0xaa, 0xfb, 0x78, 0x7e, 0xeb, 0x20, 0x20, 0xab, 0x05]"
  by (simp add: hash128_def siphash_empty_low siphash_empty_high u64_le_def le_bytes_numeral)

end
