(* ===== verification/Content.thy ===== *)
theory Content
  imports Siphash "HOL-Library.List_Lexorder"
begin

text \<open>
  \<open>src/src/content.rs\<close>: the ASCII tokenizer, content queries, and the Bloom filters that let a segment
  or a block of records be skipped. A text is its UTF-8 bytes. A \<open>HashSet\<close> of strings is the list of
  its elements without repetition, in order of insertion; nothing below depends on that order.
\<close>

section \<open>Tokens\<close>

definition MAX_TOKEN_LEN :: nat where
  "MAX_TOKEN_LEN = 40"

definition HASH_COUNT :: u32 where
  "HASH_COUNT = 4"

definition BITS_PER_TOKEN :: nat where
  "BITS_PER_TOKEN = 8"

definition is_ascii_uppercase :: "u8 \<Rightarrow> bool" where
  "is_ascii_uppercase b \<longleftrightarrow> 0x41 \<le> b \<and> b \<le> 0x5A"

definition is_ascii_alphanumeric :: "u8 \<Rightarrow> bool" where
  "is_ascii_alphanumeric b \<longleftrightarrow>
     0x30 \<le> b \<and> b \<le> 0x39 \<or> is_ascii_uppercase b \<or> 0x61 \<le> b \<and> b \<le> 0x7A"

definition to_ascii_lowercase :: "u8 \<Rightarrow> u8" where
  "to_ascii_lowercase b = (if is_ascii_uppercase b then b + 0x20 else b)"

definition fold_case :: "bytes \<Rightarrow> bytes" where
  "fold_case run = (if list_ex is_ascii_uppercase run then map to_ascii_lowercase run else run)"

text \<open>The tokens \<open>for_each_token\<close> hands to its callback, in order; \<open>run\<close> is \<open>text[start..index]\<close>.\<close>

fun for_each_token :: "bytes \<Rightarrow> bytes \<Rightarrow> bytes list" where
  "for_each_token [] run = (if run \<noteq> [] then [fold_case run] else [])"
| "for_each_token (b # text) run =
     (if is_ascii_alphanumeric b then for_each_token text (run @ [b])
      else (if run \<noteq> [] then [fold_case run] else []) @ for_each_token text [])"

definition tokens :: "bytes \<Rightarrow> bytes list" where
  "tokens tx = for_each_token tx []"

text \<open>\<open>str::is_char_boundary\<close>, and the walk down to the boundary at or below the cap.\<close>

definition is_char_boundary :: "bytes \<Rightarrow> nat \<Rightarrow> bool" where
  "is_char_boundary s i \<longleftrightarrow> i = 0 \<or> i = length s \<or> (i < length s \<and> s ! i AND 0xC0 \<noteq> 0x80)"

fun boundary_below :: "bytes \<Rightarrow> nat \<Rightarrow> nat" where
  "boundary_below s 0 = 0"
| "boundary_below s (Suc e) = (if \<not> is_char_boundary s (Suc e) then boundary_below s e else Suc e)"

definition probe_key :: "bytes \<Rightarrow> bytes" where
  "probe_key token =
     (if length token \<le> MAX_TOKEN_LEN then token else take (boundary_below token MAX_TOKEN_LEN) token)"

definition distinct_probe_keys :: "bytes list \<Rightarrow> bytes list" where
  "distinct_probe_keys texts =
     fold (\<lambda>token distinct. let key = probe_key token in
             if key \<notin> set distinct then distinct @ [key] else distinct)
       (concat (map tokens texts)) []"

section \<open>Queries\<close>

record query =
  needle :: bytes
  q_tokens :: "bytes list"

definition query_new :: "bytes \<Rightarrow> query" where
  "query_new text = \<lparr>needle = text, q_tokens = remdups_adj (sort (tokens text))\<rparr>"

definition is_indexable :: "query \<Rightarrow> bool" where
  "is_indexable q \<longleftrightarrow> q_tokens q \<noteq> []"

fun matches_loop :: "bytes list \<Rightarrow> bytes list \<Rightarrow> bool" where
  "matches_loop outstanding [] = (outstanding = [])"
| "matches_loop outstanding (text # texts) =
     (let outstanding = fold removeAll (tokens text) outstanding in
      if outstanding = [] then True else matches_loop outstanding texts)"

definition query_matches :: "query \<Rightarrow> bytes list \<Rightarrow> bool" where
  "query_matches q texts = (if q_tokens q = [] then False else matches_loop (q_tokens q) texts)"

section \<open>Bloom filters\<close>

definition bit_positions :: "bytes \<Rightarrow> nat \<Rightarrow> nat list" where
  "bit_positions token bit_len =
     (let count = (if bit_len = 0 then 0 else unat HASH_COUNT);
          digest = hash128 (probe_key token);
          low = le_u64 (take 8 digest); high = le_u64 (drop 8 digest);
          mask = (of_nat (max bit_len 1 - 1) :: u64);
          step = high OR 1
      in map (\<lambda>i. unat ((low + of_nat i * step) AND mask)) [0..<count])"

text \<open>\<open>usize::next_power_of_two\<close>, by doubling from one.\<close>

function doubled_to :: "nat \<Rightarrow> nat \<Rightarrow> nat" where
  "doubled_to p n = (if n \<le> p \<or> p = 0 then p else doubled_to (2 * p) n)"
  by pat_completeness auto
termination
  by (relation "measure (\<lambda>(p, n). n - p)") auto

declare doubled_to.simps [simp del]

definition next_power_of_two :: "nat \<Rightarrow> nat" where
  "next_power_of_two n = doubled_to 1 n"

definition usize_saturating_mul :: "nat \<Rightarrow> nat \<Rightarrow> nat" where
  "usize_saturating_mul a b = min (a * b) (2 ^ 64 - 1)"

definition size_bits :: "nat \<Rightarrow> nat \<Rightarrow> nat \<Rightarrow> nat" where
  "size_bits distinct_tokens min_bytes max_bytes =
     (let wanted = next_power_of_two (max (usize_saturating_mul distinct_tokens BITS_PER_TOKEN) (min_bytes * 8))
      in max (min_bytes * 8) (min wanted (next_power_of_two (max_bytes * 8))))"

definition bloom_new :: "nat \<Rightarrow> bytes" where
  "bloom_new bits = replicate (bits div 8) 0"

definition bit_len :: "bytes \<Rightarrow> nat" where
  "bit_len bits = length bits * 8"

text \<open>\<open>bits[p / 8] |= 1 << (p % 8)\<close> and \<open>bits[p / 8] & (1 << (p % 8)) != 0\<close>.\<close>

definition set_bit_at :: "nat \<Rightarrow> bytes \<Rightarrow> bytes" where
  "set_bit_at p bits = bits[p div 8 := (bits ! (p div 8)) OR push_bit (p mod 8) 1]"

definition bit_at :: "nat \<Rightarrow> bytes \<Rightarrow> bool" where
  "bit_at p bits \<longleftrightarrow> bits ! (p div 8) AND push_bit (p mod 8) 1 \<noteq> 0"

definition bloom_insert :: "bytes \<Rightarrow> bytes \<Rightarrow> bytes" where
  "bloom_insert token bits = (if bits = [] then bits else fold set_bit_at (bit_positions token (bit_len bits)) bits)"

definition may_contain :: "bytes \<Rightarrow> bytes \<Rightarrow> bool" where
  "may_contain bits token =
     (if bits = [] then True else list_all (\<lambda>p. bit_at p bits) (bit_positions token (bit_len bits)))"

definition may_contain_all :: "bytes \<Rightarrow> bytes list \<Rightarrow> bool" where
  "may_contain_all bits ts = list_all (may_contain bits) ts"

definition bloom_build :: "bytes list \<Rightarrow> nat \<Rightarrow> nat \<Rightarrow> bytes" where
  "bloom_build texts min_bytes max_bytes =
     (let distinct = distinct_probe_keys texts
      in fold bloom_insert distinct (bloom_new (size_bits (length distinct) min_bytes max_bytes)))"

section \<open>Lemmas\<close>

lemma bit_at_iff: "bit_at p bits \<longleftrightarrow> bit (bits ! (p div 8)) (p mod 8)"
proof -
  have "push_bit (p mod 8) (1 :: u8) = 2 ^ (p mod 8)" by (simp add: push_bit_of_1)
  then show ?thesis
    using and_exp_eq_0_iff_not_bit [of "bits ! (p div 8)" "p mod 8"] by (simp add: bit_at_def)
qed

lemma length_set_bit_at [simp, len_simps]: "length (set_bit_at p bits) = length bits"
  by (simp add: set_bit_at_def)

lemma bit_at_set:
  "p < bit_len bits \<Longrightarrow> bit_at q (set_bit_at p bits) \<longleftrightarrow> q = p \<or> bit_at q bits"
proof -
  assume p: "p < bit_len bits"
  then have l: "p div 8 < length bits" by (simp add: bit_len_def less_mult_imp_div_less)
  have pb: "bit (push_bit (p mod 8) 1 :: u8) (q mod 8) \<longleftrightarrow> q mod 8 = p mod 8"
    by (auto simp: push_bit_of_1 bit_exp_iff possible_bit_word)
  have "q = p \<longleftrightarrow> q div 8 = p div 8 \<and> q mod 8 = p mod 8" by (metis div_mult_mod_eq)
  with l pb show ?thesis by (auto simp: bit_at_iff set_bit_at_def nth_list_update bit_or_iff)
qed

lemma length_fold_set_bit [simp]: "length (fold set_bit_at ps bits) = length bits"
  by (induction ps arbitrary: bits) simp_all

lemma bit_at_fold_set:
  "list_all (\<lambda>p. p < bit_len bits) ps \<Longrightarrow> bit_at q (fold set_bit_at ps bits) \<longleftrightarrow> q \<in> set ps \<or> bit_at q bits"
proof (induction ps arbitrary: bits)
  case (Cons p ps)
  then have "bit_at q (fold set_bit_at ps (set_bit_at p bits)) \<longleftrightarrow> q \<in> set ps \<or> bit_at q (set_bit_at p bits)"
    by (intro Cons.IH) (simp add: bit_len_def)
  with Cons.prems show ?case by (auto simp: bit_at_set)
qed simp

lemma bit_positions_lt:
  assumes "0 < n" and "n \<le> 2 ^ 64"
  shows "p \<in> set (bit_positions t n) \<Longrightarrow> p < n"
proof -
  have "unat (of_nat k :: u64) = k" if "k < 2 ^ 64" for k using that by (simp add: unat_of_nat)
  moreover have k: "max n 1 - 1 = n - 1" "n - 1 < 2 ^ 64" using assms by (simp_all add: max_def)
  ultimately have m: "unat (of_nat (max n 1 - 1) :: u64) = n - 1" by metis
  have "unat (w AND of_nat (max n 1 - 1)) \<le> n - 1" for w :: u64
    using word_and_le1 [of w "of_nat (max n 1 - 1)"] m by (simp add: word_le_nat_alt)
  then have "unat (w AND of_nat (max n 1 - 1)) < n" for w :: u64
    by (rule le_less_trans) (use assms(1) in simp)
  then show "p \<in> set (bit_positions t n) \<Longrightarrow> p < n" by (auto simp: bit_positions_def Let_def)
qed

lemma length_bloom_insert [simp]: "length (bloom_insert t bits) = length bits"
  by (simp add: bloom_insert_def)

lemma length_fold_bloom_insert [simp]: "length (fold bloom_insert ts bits) = length bits"
  by (induction ts arbitrary: bits) simp_all

definition sane :: "bytes \<Rightarrow> bool" where
  "sane bits \<longleftrightarrow> bit_len bits \<le> 2 ^ 64"

lemma sane_length: "length b = length c \<Longrightarrow> sane b \<longleftrightarrow> sane c"
  by (simp add: sane_def bit_len_def)

lemma positions_all_lt: "sane bits \<Longrightarrow> bits \<noteq> [] \<Longrightarrow> list_all (\<lambda>p. p < bit_len bits) (bit_positions t (bit_len bits))"
  unfolding list_all_iff
proof (rule ballI)
  fix p assume "sane bits" "bits \<noteq> []" "p \<in> set (bit_positions t (bit_len bits))"
  then show "p < bit_len bits" by (intro bit_positions_lt [of "bit_len bits" p t]) (simp_all add: sane_def bit_len_def)
qed

lemma insert_keeps:
  assumes "sane bits" and "may_contain bits t"
  shows "may_contain (bloom_insert u bits) t"
proof (cases "bits = []")
  case False
  have "bloom_insert u bits \<noteq> []" using False by (metis length_0_conv length_bloom_insert)
  with False assms(2) show ?thesis
    using bit_at_fold_set [OF positions_all_lt [OF assms(1) False]]
    by (simp add: may_contain_def bloom_insert_def list_all_iff bit_len_def)
qed (simp add: may_contain_def bloom_insert_def)

lemma insert_adds: "sane bits \<Longrightarrow> may_contain (bloom_insert t bits) t"
proof (cases "bits = []")
  case False
  assume s: "sane bits"
  have "bloom_insert t bits \<noteq> []" using False by (metis length_0_conv length_bloom_insert)
  with False show ?thesis
    using bit_at_fold_set [OF positions_all_lt [OF s False]]
    by (simp add: may_contain_def bloom_insert_def list_all_iff bit_len_def)
qed (simp add: may_contain_def bloom_insert_def)

lemma fold_insert_keeps: "sane bits \<Longrightarrow> may_contain bits t \<Longrightarrow> may_contain (fold bloom_insert ts bits) t"
proof (induction ts arbitrary: bits)
  case (Cons u ts)
  moreover have "sane (bloom_insert u bits)" using Cons.prems(1) sane_length by (metis length_bloom_insert)
  ultimately show ?case by (simp add: insert_keeps)
qed simp

lemma fold_insert_adds: "sane bits \<Longrightarrow> t \<in> set ts \<Longrightarrow> may_contain (fold bloom_insert ts bits) t"
proof (induction ts arbitrary: bits)
  case (Cons u ts)
  have "sane (bloom_insert u bits)" using Cons.prems(1) sane_length by (metis length_bloom_insert)
  with Cons show ?case by (auto intro: fold_insert_keeps insert_adds)
qed simp

text \<open>A token is probed through its key only.\<close>

lemma probe_key_idem: "probe_key (probe_key t) = probe_key t"
proof (cases "length t \<le> MAX_TOKEN_LEN")
  case False
  have "boundary_below t n \<le> n" for n by (induction n) auto
  then have "boundary_below t MAX_TOKEN_LEN \<le> MAX_TOKEN_LEN" .
  then have "length (probe_key t) \<le> MAX_TOKEN_LEN" using False by (simp add: probe_key_def)
  then show ?thesis by (subst probe_key_def) simp
qed (simp add: probe_key_def)

lemma bit_positions_probe_key: "bit_positions (probe_key t) n = bit_positions t n"
  by (simp add: bit_positions_def probe_key_idem)

lemma may_contain_probe_key: "may_contain bits (probe_key t) = may_contain bits t"
  by (simp add: may_contain_def bit_positions_probe_key)

lemma distinct_probe_keys_set: "set (distinct_probe_keys texts) = probe_key ` (\<Union>tx \<in> set texts. set (tokens tx))"
proof -
  have "set (fold (\<lambda>token distinct. let key = probe_key token in
             if key \<notin> set distinct then distinct @ [key] else distinct) ts acc) = probe_key ` set ts \<union> set acc" for ts acc
    by (induction ts arbitrary: acc) (auto simp: Let_def)
  then show ?thesis by (simp add: distinct_probe_keys_def)
qed

lemma fold_removeAll_set: "set (fold removeAll ts xs) = set xs - set ts"
  by (induction ts arbitrary: xs) auto

lemma matches_loop_iff: "matches_loop out texts \<longleftrightarrow> set out \<subseteq> (\<Union>tx \<in> set texts. set (tokens tx))"
proof (induction texts arbitrary: out)
  case (Cons tx texts)
  let ?o = "fold removeAll (tokens tx) out"
  have "?o = [] \<longleftrightarrow> set out \<subseteq> set (tokens tx)"
    using fold_removeAll_set [of "tokens tx" out] by (metis Diff_eq_empty_iff set_empty)
  moreover have "set ?o \<subseteq> A \<longleftrightarrow> set out \<subseteq> set (tokens tx) \<union> A" for A
    unfolding fold_removeAll_set by blast
  ultimately show ?case using Cons.IH [of ?o] by (auto simp: Let_def)
qed simp

lemma query_matches_iff:
  "query_matches q texts \<longleftrightarrow> q_tokens q \<noteq> [] \<and> set (q_tokens q) \<subseteq> (\<Union>tx \<in> set texts. set (tokens tx))"
  by (simp add: query_matches_def matches_loop_iff)

section \<open>Properties\<close>

text \<open>A content query is a conjunction of whole words. It matches a list of texts exactly when it
  has a word at all and every word of it occurs, compared in full and ignoring ASCII case, as a word of
  some text.\<close>

theorem content_queries_match_whole_words:
  "query_matches (query_new needle') texts \<longleftrightarrow>
     tokens needle' \<noteq> [] \<and> set (tokens needle') \<subseteq> (\<Union>tx \<in> set texts. set (tokens tx))"
proof -
  have "remdups_adj (sort (tokens needle')) = [] \<longleftrightarrow> tokens needle' = []"
    by (metis remdups_adj_Nil_iff set_empty set_sort)
  then show ?thesis by (simp add: query_matches_iff query_new_def)
qed

end
