(* ===== verification/Content_Index.thy ===== *)
theory Content_Index
  imports Content Segment_Index "HOL-Library.Sublist"
begin

text \<open>
  The content index of a segment (\<open>src/src/segment.rs\<close>): one Bloom filter per block of 128 records,
  stored bit-sliced (a row per bit position, a bit per block), under a resident summary filter and a
  resident table of page checksums. The lemmas lead to the one property a filter must have: a record
  that matches a query is always among the candidates.

  Offsets and lengths are read as natural numbers, with the checks of the code against 64 bits.
\<close>

section \<open>Encoding\<close>

definition CONTENT_BLOCK_RECORDS :: nat where
  "CONTENT_BLOCK_RECORDS = 128"

definition CONTENT_BLOCK_MIN_BYTES :: nat where
  "CONTENT_BLOCK_MIN_BYTES = 64"

definition CONTENT_BLOCK_MAX_BYTES :: nat where
  "CONTENT_BLOCK_MAX_BYTES = 8 * 1024"

definition CONTENT_SUMMARY_MIN_BYTES :: nat where
  "CONTENT_SUMMARY_MIN_BYTES = 256"

definition CONTENT_SUMMARY_MAX_BYTES :: nat where
  "CONTENT_SUMMARY_MAX_BYTES = 32 * 1024"

definition CONTENT_PROLOGUE_LEN :: nat where
  "CONTENT_PROLOGUE_LEN = 32"

definition CONTENT_PAGE_BYTES :: nat where
  "CONTENT_PAGE_BYTES = 4096"

definition insert_new :: "'a \<Rightarrow> 'a list \<Rightarrow> 'a list" where
  "insert_new x xs = (if x \<notin> set xs then xs @ [x] else xs)"

text \<open>\<open>rows[position * row_bytes + block / 8] |= 1 << (block % 8)\<close>.\<close>

definition set_row_bit :: "nat \<Rightarrow> nat \<Rightarrow> nat \<Rightarrow> bytes \<Rightarrow> bytes" where
  "set_row_bit row_bytes block position rows =
     rows[position * row_bytes + block div 8 :=
            (rows ! (position * row_bytes + block div 8)) OR push_bit (block mod 8) 1]"

definition build_rows :: "nat \<Rightarrow> nat \<Rightarrow> bytes list list \<Rightarrow> bytes" where
  "build_rows block_bits row_bytes block_tokens =
     fold (\<lambda>(block, ts) rows.
             fold (\<lambda>token rows. fold (set_row_bit row_bytes block) (bit_positions token block_bits) rows) ts rows)
       (zip [0..<length block_tokens] block_tokens) (replicate (block_bits * row_bytes) 0)"

definition page_table :: "bytes \<Rightarrow> bytes" where
  "page_table rows = concat (map (\<lambda>page. u32_le (crc32 page)) (chunks CONTENT_PAGE_BYTES rows))"

text \<open>\<open>encode_content_index\<close> of the records whose texts are \<open>contents\<close>, in record order.\<close>

definition encode_content_index :: "bytes list list \<Rightarrow> bytes" where
  "encode_content_index contents =
     (let block_count = div_ceil (length contents) CONTENT_BLOCK_RECORDS;
          indexable = list_ex (\<lambda>c. c \<noteq> []) contents
      in if block_count = 0 \<or> \<not> indexable then
           u32_le 0 @ u32_le (of_nat CONTENT_BLOCK_RECORDS) @ u32_le 0 @ u32_le HASH_COUNT @ u64_le 0 @ u64_le 0
         else
           let block_tokens = map (\<lambda>chunk. distinct_probe_keys (concat chunk)) (chunks CONTENT_BLOCK_RECORDS contents);
               all_tokens = fold (\<lambda>ts all. fold insert_new ts all) block_tokens [];
               widest = foldr max (map length block_tokens) 0;
               block_bits = size_bits widest CONTENT_BLOCK_MIN_BYTES CONTENT_BLOCK_MAX_BYTES;
               row_bytes = div_ceil block_count 8;
               summary = fold bloom_insert all_tokens
                 (bloom_new (size_bits (length all_tokens) CONTENT_SUMMARY_MIN_BYTES CONTENT_SUMMARY_MAX_BYTES));
               rows = build_rows block_bits row_bytes block_tokens
           in u32_le 0 @ u32_le (of_nat CONTENT_BLOCK_RECORDS) @ u32_le (of_nat block_count) @ u32_le HASH_COUNT
                @ u64_le (of_nat (bit_len summary)) @ u64_le (of_nat block_bits)
                @ summary @ page_table rows @ rows)"

section \<open>Decoding\<close>

record content_index =
  block_records :: nat
  block_count :: nat
  block_bits :: nat
  row_bytes :: nat
  rows_offset :: nat
  rows_len :: nat
  page_crcs :: "u32 list"
  summary :: bytes

definition is_power_of_two :: "nat \<Rightarrow> bool" where
  "is_power_of_two n \<longleftrightarrow> n \<noteq> 0 \<and> next_power_of_two n = n"

definition decode_content_head :: "bytes \<Rightarrow> nat \<Rightarrow> nat \<Rightarrow> nat \<Rightarrow> seg_error + content_index option" where
  "decode_content_head data section_offset section_len record_count =
     (if length data < CONTENT_PROLOGUE_LEN then Inl (Corrupt ''content index is shorter than its prologue'')
      else
        let block_records = unat (le_u32 (bytes_at 4 4 data)); block_count = unat (le_u32 (bytes_at 8 4 data));
            hash_count = le_u32 (bytes_at 12 4 data);
            summary_bits = unat (le_u64 (bytes_at 16 8 data)); block_bits = unat (le_u64 (bytes_at 24 8 data))
        in if block_count = 0 then Inr None
           else if hash_count \<noteq> HASH_COUNT then Inl (Unsupported ''content index was built with a different hash count'')
           else if block_records = 0 then Inl (Corrupt ''content index has a zero block size'')
           else if block_count \<noteq> div_ceil record_count block_records
             then Inl (Corrupt ''content index block count does not match'')
           else if \<not> is_power_of_two summary_bits \<or> \<not> is_power_of_two block_bits
             then Inl (Corrupt ''content filter size is not a power of two'')
           else if summary_bits > CONTENT_SUMMARY_MAX_BYTES * 8 \<or> block_bits > CONTENT_BLOCK_MAX_BYTES * 8
             then Inl (Corrupt ''content filter size exceeds the encoder bound'')
           else
             let row_bytes = div_ceil block_count 8; summary_bytes = summary_bits div 8;
                 overflow = Corrupt ''content index length overflow''
             in and_then (ok_or (u64_checked_mul block_bits row_bytes) overflow) (\<lambda>rows_len.
                and_then (ok_or (u64_checked_mul (div_ceil rows_len CONTENT_PAGE_BYTES) 4) overflow) (\<lambda>table_len.
                and_then (ok_or (Option.bind (Option.bind (u64_checked_add rows_len table_len)
                              (\<lambda>tail. u64_checked_add tail summary_bytes))
                              (\<lambda>tail. u64_checked_add tail CONTENT_PROLOGUE_LEN)) overflow) (\<lambda>expected_len.
                  if section_len \<noteq> expected_len then Inl (Corrupt ''content index length does not match its header'')
                  else
                    let summary_start = CONTENT_PROLOGUE_LEN; summary_end = summary_start + summary_bytes;
                        table_end = summary_end + table_len
                    in if length data < table_end then Inl (Corrupt ''content index head is truncated'')
                       else Inr (Some
                         \<lparr>block_records = block_records, block_count = block_count, block_bits = block_bits,
                          row_bytes = row_bytes, rows_offset = section_offset + table_end, rows_len = rows_len,
                          page_crcs = map le_u32 (chunks_exact 4 (bytes_at summary_end (table_end - summary_end) data)),
                          summary = bytes_at summary_start (summary_end - summary_start) data\<rparr>)))))"

section \<open>Probing\<close>

text \<open>\<open>Backing::read_range\<close> over the bytes of the file.\<close>

definition read_range :: "bytes \<Rightarrow> nat \<Rightarrow> nat \<Rightarrow> seg_error + bytes" where
  "read_range backing start len =
     (if start + len > length backing then Inl (Corrupt ''range outside segment file'')
      else Inr (bytes_at start len backing))"

function read_pages ::
  "content_index \<Rightarrow> bytes \<Rightarrow> nat \<Rightarrow> nat \<Rightarrow> nat \<Rightarrow> bytes \<Rightarrow> seg_error + bytes" where
  "read_pages ci backing start end' page row =
     (if page * CONTENT_PAGE_BYTES < end' then
        let page_start = page * CONTENT_PAGE_BYTES;
            this_page = min CONTENT_PAGE_BYTES (rows_len ci - page_start)
        in and_then (ok_or (u64_checked_add (rows_offset ci) page_start) (Corrupt ''content page offset overflow'')) (\<lambda>absolute.
           and_then (read_range backing absolute this_page) (\<lambda>bs.
             if length (page_crcs ci) \<le> page then Inl (Corrupt ''content page checksum missing'')
             else if crc32 bs \<noteq> page_crcs ci ! page then Inl (Corrupt ''content matrix page checksum mismatch'')
             else
               let from' = max start page_start - page_start; to' = min end' (page_start + this_page) - page_start
               in read_pages ci backing start end' (page + 1) (row @ bytes_at from' (to' - from') bs)))
      else Inr row)"
  by pat_completeness auto
termination
  by (relation "measure (\<lambda>(ci, backing, start, end', page, row). end' - page * CONTENT_PAGE_BYTES)")
    (auto simp: CONTENT_PAGE_BYTES_def)

declare read_pages.simps [simp del]

definition read_row :: "content_index \<Rightarrow> bytes \<Rightarrow> nat \<Rightarrow> seg_error + bytes" where
  "read_row ci backing position =
     and_then (ok_or (u64_checked_mul position (row_bytes ci)) (Corrupt ''content row offset overflow'')) (\<lambda>start.
       case u64_checked_add start (row_bytes ci) of
         None \<Rightarrow> Inl (Corrupt ''content row outside the matrix'')
       | Some end' \<Rightarrow>
           if end' > rows_len ci then Inl (Corrupt ''content row outside the matrix'')
           else
             and_then (read_pages ci backing start end' (start div CONTENT_PAGE_BYTES) []) (\<lambda>row.
               if length row \<noteq> row_bytes ci then Inl (Corrupt ''content row assembly is short'') else Inr row))"

fun and_rows :: "content_index \<Rightarrow> bytes \<Rightarrow> nat list \<Rightarrow> bytes \<Rightarrow> seg_error + bytes" where
  "and_rows ci backing [] admitted = Inr admitted"
| "and_rows ci backing (position # positions) admitted =
     and_then (read_row ci backing position) (\<lambda>row.
       let admitted = map2 (\<lambda>target source. target AND source) admitted row in
       if list_all (\<lambda>b. b = 0) admitted then Inr admitted else and_rows ci backing positions admitted)"

definition candidate_blocks :: "content_index \<Rightarrow> query \<Rightarrow> bytes \<Rightarrow> seg_error + bytes" where
  "candidate_blocks ci q backing =
     and_rows ci backing (concat (map (\<lambda>token. bit_positions token (block_bits ci)) (q_tokens q)))
       (replicate (row_bytes ci) 0xff)"

definition may_contain_content :: "content_index option \<Rightarrow> query \<Rightarrow> bool" where
  "may_contain_content content q =
     (case content of
        Some index \<Rightarrow> if is_indexable q then may_contain_all (summary index) (q_tokens q) else True
      | None \<Rightarrow> True)"

text \<open>\<open>Segment::content_candidate_offsets\<close>; \<open>None\<close> means that every record is a candidate.\<close>

definition content_candidate_offsets ::
  "content_index option \<Rightarrow> bytes \<Rightarrow> u64 list \<Rightarrow> query \<Rightarrow> seg_error + u64 list option" where
  "content_candidate_offsets content backing record_offsets q =
     (case content of
        None \<Rightarrow> Inr None
      | Some index \<Rightarrow>
          if \<not> is_indexable q then Inr None
          else if \<not> may_contain_all (summary index) (q_tokens q) then Inr (Some [])
          else
            and_then (candidate_blocks index q backing) (\<lambda>admitted.
              Inr (Some (concat (map
                (\<lambda>block. let start = block * block_records index;
                             end' = min (start + block_records index) (length record_offsets)
                         in bytes_at start (end' - start) record_offsets)
                (filter (\<lambda>block. bit_at block admitted) [0..<block_count index]))))))"

section \<open>Filter sizes\<close>

lemma doubled_to_pow: "j \<le> k \<Longrightarrow> n \<le> 2 ^ k \<Longrightarrow> \<exists>m \<le> k. doubled_to (2 ^ j) n = 2 ^ m \<and> n \<le> 2 ^ m"
proof (induction "k - j" arbitrary: j)
  case 0
  then show ?case by (subst doubled_to.simps) auto
next
  case (Suc d)
  show ?case
  proof (cases "n \<le> 2 ^ j")
    case True
    with Suc.prems show ?thesis by (subst doubled_to.simps) auto
  next
    case False
    have "\<exists>m \<le> k. doubled_to (2 ^ Suc j) n = 2 ^ m \<and> n \<le> 2 ^ m" using Suc by (intro Suc.hyps) simp_all
    with False show ?thesis by (subst doubled_to.simps) simp
  qed
qed

lemma next_power_of_two_pow: "n \<le> 2 ^ k \<Longrightarrow> \<exists>m \<le> k. next_power_of_two n = 2 ^ m \<and> n \<le> 2 ^ m"
  using doubled_to_pow [of 0 k n] by (simp add: next_power_of_two_def)

lemma doubled_to_self: "j \<le> k \<Longrightarrow> doubled_to (2 ^ j) (2 ^ k) = 2 ^ k"
proof (induction "k - j" arbitrary: j)
  case 0
  then show ?case by (subst doubled_to.simps) simp
next
  case (Suc d)
  then have "doubled_to (2 ^ Suc j) (2 ^ k) = 2 ^ k" by (intro Suc.hyps) simp_all
  moreover have "\<not> (2::nat) ^ k \<le> 2 ^ j" using Suc by (simp add: power_increasing_iff)
  ultimately show ?case by (subst doubled_to.simps) simp
qed

lemma is_power_of_two_pow [simp]: "is_power_of_two (2 ^ k)"
  using doubled_to_self [of 0 k] by (simp add: is_power_of_two_def next_power_of_two_def)

text \<open>A filter size is a power of two between its bounds.\<close>

lemma size_bits_pow:
  assumes "a \<le> b"
  shows "\<exists>k. size_bits n (2 ^ a) (2 ^ b) = 2 ^ k \<and> a + 3 \<le> k \<and> k \<le> b + 3"
proof -
  let ?w = "max (usize_saturating_mul n BITS_PER_TOKEN) (2 ^ a * 8)"
  have eight: "(2::nat) ^ c * 8 = 2 ^ (c + 3)" for c by (simp add: power_add)
  have "?w \<le> 2 ^ max 64 (a + 3)"
  proof -
    have "usize_saturating_mul n BITS_PER_TOKEN \<le> 2 ^ 64" by (simp add: usize_saturating_mul_def)
    also have "\<dots> \<le> 2 ^ max 64 (a + 3)" by (rule power_increasing) simp_all
    finally have "usize_saturating_mul n BITS_PER_TOKEN \<le> 2 ^ max 64 (a + 3)" .
    moreover have "(2::nat) ^ (a + 3) \<le> 2 ^ max 64 (a + 3)" by (rule power_increasing) simp_all
    ultimately show ?thesis by (simp only: eight max.bounded_iff)
  qed
  from next_power_of_two_pow [OF this] obtain m where m: "next_power_of_two ?w = 2 ^ m" "?w \<le> 2 ^ m" by blast
  from m(2) have "(2::nat) ^ (a + 3) \<le> 2 ^ m" by (simp only: eight max.bounded_iff)
  then have am: "a + 3 \<le> m" by (simp only: power_increasing_iff one_less_numeral_iff semiring_norm)
  have b: "next_power_of_two (2 ^ b * 8) = 2 ^ (b + 3)"
    using doubled_to_self [of 0 "b + 3"] by (simp add: next_power_of_two_def eight)
  have "min (2 ^ m) (2 ^ (b + 3)) = (2::nat) ^ min m (b + 3)"
    by (simp add: min_def power_increasing_iff)
  moreover have "max (2 ^ (a + 3)) ((2::nat) ^ min m (b + 3)) = 2 ^ min m (b + 3)"
    using am assms by (simp add: max_def power_increasing_iff)
  ultimately have "size_bits n (2 ^ a) (2 ^ b) = 2 ^ min m (b + 3)"
    unfolding size_bits_def Let_def m(1) b by (simp only: eight)
  with am assms show ?thesis by (intro exI [of _ "min m (b + 3)"]) simp
qed

lemma block_size: "\<exists>k. size_bits n CONTENT_BLOCK_MIN_BYTES CONTENT_BLOCK_MAX_BYTES = 2 ^ k \<and> 9 \<le> k \<and> k \<le> 16"
  using size_bits_pow [of 6 13 n] by (simp add: CONTENT_BLOCK_MIN_BYTES_def CONTENT_BLOCK_MAX_BYTES_def)

lemma summary_size: "\<exists>k. size_bits n CONTENT_SUMMARY_MIN_BYTES CONTENT_SUMMARY_MAX_BYTES = 2 ^ k \<and> 11 \<le> k \<and> k \<le> 18"
  using size_bits_pow [of 8 15 n] by (simp add: CONTENT_SUMMARY_MIN_BYTES_def CONTENT_SUMMARY_MAX_BYTES_def)

section \<open>The bit-sliced rows\<close>

lemma fold_concat: "fold f (concat xss) = fold (fold f) xss"
  by (induction xss) simp_all

lemma fold_map_comp: "fold f (map g xs) = fold (\<lambda>x. f (g x)) xs"
  by (simp add: fold_map comp_def)

definition row_bit :: "nat \<Rightarrow> nat \<Rightarrow> nat \<Rightarrow> nat" where
  "row_bit rb block position = position * rb * 8 + block"

lemma set_row_bit: "set_row_bit rb block position = set_bit_at (row_bit rb block position)"
proof -
  have "row_bit rb block position div 8 = position * rb + block div 8"
    by (simp add: row_bit_def)
  moreover have "row_bit rb block position mod 8 = block mod 8"
    by (simp add: row_bit_def)
  ultimately show ?thesis by (intro ext) (simp add: set_row_bit_def set_bit_at_def)
qed

definition matrix_bits :: "nat \<Rightarrow> nat \<Rightarrow> bytes list list \<Rightarrow> nat list" where
  "matrix_bits bb rb block_tokens =
     concat (map (\<lambda>(block, ts). concat (map (\<lambda>t. map (row_bit rb block) (bit_positions t bb)) ts))
       (zip [0..<length block_tokens] block_tokens))"

lemma build_rows_bits:
  "build_rows bb rb block_tokens = fold set_bit_at (matrix_bits bb rb block_tokens) (replicate (bb * rb) 0)"
  unfolding build_rows_def matrix_bits_def fold_concat fold_map_comp set_row_bit
  by (simp add: fold_concat fold_map_comp split_def)

lemma length_build_rows [simp]: "length (build_rows bb rb bts) = bb * rb"
  by (simp add: build_rows_bits)

lemma matrix_bits_mem:
  "block < length bts \<Longrightarrow> t \<in> set (bts ! block) \<Longrightarrow> p \<in> set (bit_positions t bb) \<Longrightarrow>
    row_bit rb block p \<in> set (matrix_bits bb rb bts)"
  by (force simp: matrix_bits_def set_zip)

lemma row_bit_lt: "position < bb \<Longrightarrow> block < 8 * rb \<Longrightarrow> row_bit rb block position < bb * rb * 8"
proof -
  assume p: "position < bb" and b: "block < 8 * rb"
  have "row_bit rb block position < position * rb * 8 + rb * 8" using b by (simp add: row_bit_def)
  also have "\<dots> = (position + 1) * (rb * 8)" by (simp add: algebra_simps)
  also have "\<dots> \<le> bb * (rb * 8)" using p by (intro mult_le_mono1) simp
  finally show ?thesis by (simp add: algebra_simps)
qed

lemma rows_hold_tokens:
  assumes "0 < bb" and "bb \<le> 2 ^ 64" and "length bts \<le> 8 * rb"
    and "block < length bts" and "t \<in> set (bts ! block)" and "p \<in> set (bit_positions t bb)"
  shows "bit_at (row_bit rb block p) (build_rows bb rb bts)"
proof -
  have "list_all (\<lambda>q. q < bit_len (replicate (bb * rb) 0)) (matrix_bits bb rb bts)"
    using assms(3) bit_positions_lt [OF assms(1,2)]
    by (force simp: list_all_iff matrix_bits_def bit_len_def set_zip intro!: row_bit_lt)
  then show ?thesis
    unfolding build_rows_bits using matrix_bits_mem [OF assms(4-6)] by (simp add: bit_at_fold_set)
qed

section \<open>Reading a row back\<close>

lemma bytes_at_join: "a \<le> b \<Longrightarrow> b \<le> c \<Longrightarrow> bytes_at a (b - a) xs @ bytes_at b (c - b) xs = bytes_at a (c - a) xs"
proof -
  assume "a \<le> b" "b \<le> c"
  then have "c - a = (b - a) + (c - b)" "drop (b - a) (drop a xs) = drop b xs" by simp_all
  then show ?thesis unfolding bytes_at_def by (metis take_add)
qed

lemma bytes_at_bytes_at: "i + m \<le> n \<Longrightarrow> bytes_at i m (bytes_at j n xs) = bytes_at (j + i) m xs"
  by (simp add: bytes_at_def drop_take min_def add.commute)

lemma bytes_at_clip: "bytes_at i n xs = bytes_at i (min n (length xs - i)) xs"
  by (simp add: bytes_at_def min_def)

text \<open>A file that holds \<open>rows\<close> at \<open>rows_offset\<close>, with the checksums of its pages resident.\<close>

definition rows_in_file :: "content_index \<Rightarrow> bytes \<Rightarrow> bytes \<Rightarrow> bool" where
  "rows_in_file ci backing rows \<longleftrightarrow>
     rows_len ci = length rows \<and> length backing \<le> isize_max \<and>
     page_crcs ci = map crc32 (chunks CONTENT_PAGE_BYTES rows) \<and>
     (\<exists>pre post. backing = pre @ rows @ post \<and> rows_offset ci = length pre)"

lemma read_range_rows:
  assumes "rows_in_file ci backing rows" and "i + n \<le> length rows"
  shows "u64_checked_add (rows_offset ci) i = Some (rows_offset ci + i)"
    and "read_range backing (rows_offset ci + i) n = Inr (bytes_at i n rows)"
proof -
  from assms obtain pre post where "backing = pre @ rows @ post" "rows_offset ci = length pre"
    and l: "length backing \<le> isize_max" by (auto simp: rows_in_file_def)
  with assms(2) show "u64_checked_add (rows_offset ci) i = Some (rows_offset ci + i)"
    and "read_range backing (rows_offset ci + i) n = Inr (bytes_at i n rows)"
    by (auto simp: u64_checked_add_def read_range_def bytes_at_def)
qed

lemma read_pages_rows:
  assumes "rows_in_file ci backing rows" and "end' \<le> length rows" and "start \<le> end'"
  shows "start < (page + 1) * CONTENT_PAGE_BYTES \<Longrightarrow>
    read_pages ci backing start end' page row =
      Inr (row @ bytes_at (max start (page * CONTENT_PAGE_BYTES)) (end' - max start (page * CONTENT_PAGE_BYTES)) rows)"
  using assms
proof (induction ci backing start end' page row rule: read_pages.induct)
  case (1 ci backing start end' page row)
  let ?ps = "page * CONTENT_PAGE_BYTES" and ?n = "CONTENT_PAGE_BYTES"
  have n: "0 < ?n" by (simp add: CONTENT_PAGE_BYTES_def)
  show ?case
  proof (cases "?ps < end'")
    case False
    then show ?thesis by (subst read_pages.simps) (simp add: bytes_at_def)
  next
    case True
    let ?tp = "min ?n (length rows - ?ps)" and ?a = "max start ?ps"
    let ?b = "min end' (?ps + ?tp)"
    have rl: "rows_len ci = length rows" using "1.prems"(2) by (simp add: rows_in_file_def)
    have ps: "?ps < length rows" using True "1.prems"(3) by simp
    have fits: "?ps + ?tp \<le> length rows" using ps by simp
    have plen: "page < length (chunks ?n rows)"
    proof (rule ccontr)
      assume "\<not> page < length (chunks ?n rows)"
      then have "(length rows + ?n - 1) div ?n \<le> page" using n by (simp add: length_chunks_ceil)
      then have "length rows + ?n - 1 < (page + 1) * ?n" using n
        by (metis Suc_eq_plus1 div_less_iff_less_mult le_imp_less_Suc)
      with ps n show False by simp
    qed
    have "chunks ?n rows ! page = bytes_at ?ps ?n rows" using n plen by (rule chunks_nth)
    also have "\<dots> = bytes_at ?ps ?tp rows" by (rule bytes_at_clip)
    finally have "chunks ?n rows ! page = bytes_at ?ps ?tp rows" .
    then have crc: "page_crcs ci ! page = crc32 (bytes_at ?ps ?tp rows)" and pl: "\<not> length (page_crcs ci) \<le> page"
      using "1.prems"(2) plen by (simp_all add: rows_in_file_def)
    note rd = read_range_rows [OF "1.prems"(2) fits] and ad = read_range_rows(1) [OF "1.prems"(2) fits]
    have ab: "?a \<le> ?b" using "1.prems"(1,3,4) True ps by (auto simp: min_def)
    have piece: "bytes_at (?a - ?ps) (?b - ?a) (bytes_at ?ps ?tp rows) = bytes_at ?a (?b - ?a) rows"
      using ab by (subst bytes_at_bytes_at) (auto simp: max_def min_def)
    have "read_pages ci backing start end' page row =
        read_pages ci backing start end' (page + 1) (row @ bytes_at ?a (?b - ?a) rows)"
      using True pl by (subst read_pages.simps) (simp add: Let_def rl rd crc piece)
    also have "\<dots> = Inr ((row @ bytes_at ?a (?b - ?a) rows)
        @ bytes_at (max start ((page + 1) * ?n)) (end' - max start ((page + 1) * ?n)) rows)"
    proof -
      have "start < (page + 1 + 1) * ?n" using "1.prems"(1) by simp
      from "1.IH" [OF True refl refl, of "bytes_at ?ps ?tp rows", OF pl _ refl refl this "1.prems"(2-4)]
      show ?thesis by (simp add: rl piece crc)
    qed
    also have "\<dots> = Inr (row @ bytes_at ?a (end' - ?a) rows)"
    proof (cases "?ps + ?n \<le> end'")
      case True
      then have b: "?b = (page + 1) * ?n" and m: "max start ((page + 1) * ?n) = ?b"
        using "1.prems"(1,3) by (auto simp: min_def max_def)
      have "?b \<le> end'" by simp
      with ab show ?thesis unfolding m append.assoc by (subst bytes_at_join) simp_all
    next
      case False
      then have "?b = end'" "end' - max start ((page + 1) * ?n) = 0"
        using "1.prems"(3) by (auto simp: min_def max_def)
      then show ?thesis by (simp add: bytes_at_def)
    qed
    finally show ?thesis .
  qed
qed

lemma read_row_rows:
  assumes "rows_in_file ci backing rows" and "position * row_bytes ci + row_bytes ci \<le> length rows"
  shows "read_row ci backing position = Inr (bytes_at (position * row_bytes ci) (row_bytes ci) rows)"
proof -
  let ?s = "position * row_bytes ci"
  have len: "length rows < 2 ^ 63" and rl: "rows_len ci = length rows"
    using assms(1) by (auto simp: rows_in_file_def)
  have "?s < (?s div CONTENT_PAGE_BYTES + 1) * CONTENT_PAGE_BYTES"
    using dividend_less_div_times [of CONTENT_PAGE_BYTES ?s] by (simp add: CONTENT_PAGE_BYTES_def algebra_simps)
  from read_pages_rows [OF assms(1,2) le_add1 this, of "[]"]
  have "read_pages ci backing ?s (?s + row_bytes ci) (?s div CONTENT_PAGE_BYTES) [] =
      Inr (bytes_at ?s (row_bytes ci) rows)" by (simp add: max_absorb1)
  with assms(2) len rl show ?thesis
    by (simp add: read_row_def u64_checked_mul_def u64_checked_add_def)
qed

section \<open>What the encoder writes is what the open reads\<close>

definition content_blocks :: "bytes list list \<Rightarrow> bytes list list" where
  "content_blocks contents = map (\<lambda>chunk. distinct_probe_keys (concat chunk)) (chunks CONTENT_BLOCK_RECORDS contents)"

definition content_bits :: "bytes list list \<Rightarrow> nat" where
  "content_bits contents =
     size_bits (foldr max (map length (content_blocks contents)) 0) CONTENT_BLOCK_MIN_BYTES CONTENT_BLOCK_MAX_BYTES"

definition content_rows :: "bytes list list \<Rightarrow> bytes" where
  "content_rows contents =
     build_rows (content_bits contents) (div_ceil (div_ceil (length contents) CONTENT_BLOCK_RECORDS) 8)
       (content_blocks contents)"

definition content_tokens :: "bytes list list \<Rightarrow> bytes list" where
  "content_tokens contents = fold (\<lambda>ts all. fold insert_new ts all) (content_blocks contents) []"

definition content_summary :: "bytes list list \<Rightarrow> bytes" where
  "content_summary contents =
     fold bloom_insert (content_tokens contents)
       (bloom_new (size_bits (length (content_tokens contents)) CONTENT_SUMMARY_MIN_BYTES CONTENT_SUMMARY_MAX_BYTES))"

definition indexed :: "bytes list list \<Rightarrow> bool" where
  "indexed contents \<longleftrightarrow> contents \<noteq> [] \<and> list_ex (\<lambda>c. c \<noteq> []) contents"

lemma block_count_0: "div_ceil (length contents) CONTENT_BLOCK_RECORDS = 0 \<longleftrightarrow> contents = []"
proof -
  have "div_ceil (length contents) CONTENT_BLOCK_RECORDS = 0 \<longleftrightarrow> length contents + 128 - 1 < 128"
    by (simp add: div_ceil_def CONTENT_BLOCK_RECORDS_def div_eq_0_iff)
  also have "\<dots> \<longleftrightarrow> contents = []" by (cases contents) simp_all
  finally show ?thesis .
qed

lemma encode_indexed:
  "indexed contents \<Longrightarrow> encode_content_index contents =
     u32_le 0 @ u32_le (of_nat CONTENT_BLOCK_RECORDS)
       @ u32_le (of_nat (div_ceil (length contents) CONTENT_BLOCK_RECORDS)) @ u32_le HASH_COUNT
       @ u64_le (of_nat (bit_len (content_summary contents))) @ u64_le (of_nat (content_bits contents))
       @ content_summary contents @ page_table (content_rows contents) @ content_rows contents"
  by (simp add: indexed_def encode_content_index_def block_count_0 Let_def content_blocks_def content_bits_def
      content_rows_def content_tokens_def content_summary_def)

lemma encode_not_indexed:
  "\<not> indexed contents \<Longrightarrow> encode_content_index contents =
     u32_le 0 @ u32_le (of_nat CONTENT_BLOCK_RECORDS) @ u32_le 0 @ u32_le HASH_COUNT @ u64_le 0 @ u64_le 0"
  by (auto simp: indexed_def encode_content_index_def block_count_0 Let_def)

lemma length_page_table: "length (page_table rows) = 4 * length (chunks CONTENT_PAGE_BYTES rows)"
  by (simp add: page_table_def length_concat comp_def sum_list_triv)

lemma chunks_exact_words: "map le_u32 (chunks_exact 4 (concat (map (\<lambda>x. u32_le (f x)) xs))) = map f xs"
proof (induction xs)
  case Nil
  then show ?case by (simp add: chunks_exact_short)
next
  case (Cons x xs)
  then show ?case by (simp add: chunks_exact_append)
qed

lemma length_summary: "\<exists>k. bit_len (content_summary contents) = 2 ^ k \<and> 11 \<le> k \<and> k \<le> 18"
proof -
  obtain k where k: "size_bits (length (content_tokens contents)) CONTENT_SUMMARY_MIN_BYTES CONTENT_SUMMARY_MAX_BYTES
      = 2 ^ k" "11 \<le> k" "k \<le> 18" using summary_size by blast
  have "(2::nat) ^ k = 8 * 2 ^ (k - 3)" using k(2) power_add [of "2::nat" 3 "k - 3"] by simp
  with k show ?thesis by (intro exI [of _ k]) (simp add: content_summary_def bit_len_def bloom_new_def)
qed

lemma pow_2_bounds: "k \<le> 18 \<Longrightarrow> (2::nat) ^ k \<le> 262144" "k \<le> 16 \<Longrightarrow> (2::nat) ^ k \<le> 65536"
  using power_increasing [of k 18 "2::nat"] power_increasing [of k 16 "2::nat"] by simp_all

definition content_of :: "bytes list list \<Rightarrow> nat \<Rightarrow> content_index" where
  "content_of contents off =
     \<lparr>block_records = CONTENT_BLOCK_RECORDS, block_count = div_ceil (length contents) CONTENT_BLOCK_RECORDS,
      block_bits = content_bits contents, row_bytes = div_ceil (div_ceil (length contents) CONTENT_BLOCK_RECORDS) 8,
      rows_offset = off + (CONTENT_PROLOGUE_LEN + length (content_summary contents)
        + length (page_table (content_rows contents))),
      rows_len = length (content_rows contents),
      page_crcs = map crc32 (chunks CONTENT_PAGE_BYTES (content_rows contents)),
      summary = content_summary contents\<rparr>"

lemma decode_encode_indexed:
  assumes "indexed contents" and "length contents < 2 ^ 32"
  shows "decode_content_head (encode_content_index contents) off (length (encode_content_index contents)) (length contents)
     = Inr (Some (content_of contents off))"
proof -
  let ?bc = "div_ceil (length contents) CONTENT_BLOCK_RECORDS" and ?s = "content_summary contents"
  let ?bb = "content_bits contents" and ?rows = "content_rows contents"
  let ?pt = "page_table ?rows" and ?body = "encode_content_index contents"
  have bc: "?bc \<noteq> 0" using assms(1) by (simp only: block_count_0 indexed_def) simp
  have bc32: "?bc < 2 ^ 32" using assms(2) by (simp add: div_ceil_def CONTENT_BLOCK_RECORDS_def)
  obtain k where k: "bit_len ?s = 2 ^ k" "11 \<le> k" "k \<le> 18" using length_summary by blast
  obtain j where j: "?bb = 2 ^ j" "9 \<le> j" "j \<le> 16" using block_size unfolding content_bits_def by blast
  have kb: "(2::nat) ^ k \<le> 262144" and jb: "(2::nat) ^ j \<le> 65536" using pow_2_bounds k(3) j(3) by auto
  have s8: "2 ^ k div 8 = length ?s" using k(1) by (simp add: bit_len_def flip: k(1))
  have "length ?body = 32 + length ?s + length ?pt + length ?rows"
    by (simp add: encode_indexed [OF assms(1)])
  have parts: "bytes_at 4 4 ?body = u32_le (of_nat CONTENT_BLOCK_RECORDS)"
    "bytes_at 8 4 ?body = u32_le (of_nat ?bc)" "bytes_at 12 4 ?body = u32_le HASH_COUNT"
    "bytes_at 16 8 ?body = u64_le (of_nat (bit_len ?s))" "bytes_at 24 8 ?body = u64_le (of_nat ?bb)"
    "bytes_at 32 (length ?s) ?body = ?s" "bytes_at (32 + length ?s) (length ?pt) ?body = ?pt"
    unfolding encode_indexed [OF assms(1)] by (simp_all add: bytes_at_def)
  have u: "unat (of_nat CONTENT_BLOCK_RECORDS :: u32) = CONTENT_BLOCK_RECORDS" "unat (of_nat ?bc :: u32) = ?bc"
    using bc32 by (simp_all add: unat_of_nat CONTENT_BLOCK_RECORDS_def)
  have "2 ^ k < (2::nat) ^ 64" "2 ^ j < (2::nat) ^ 64" using kb jb by simp_all
  then have u2: "unat (of_nat (bit_len ?s) :: u64) = 2 ^ k" "unat (of_nat ?bb :: u64) = 2 ^ j"
    unfolding k(1) j(1) by (auto simp only: unat_of_nat_u64)
  have rows: "length ?rows = 2 ^ j * div_ceil ?bc 8" using j(1) by (simp add: content_rows_def)
  have "div_ceil ?bc 8 < 2 ^ 32" using bc32 by (simp add: div_ceil_def)
  then have "2 ^ j * div_ceil ?bc 8 \<le> 65536 * 2 ^ 32" using jb by (intro mult_mono) simp_all
  then have rl: "length ?rows \<le> 2 ^ 48" using rows by simp
  have pl: "length ?pt = div_ceil (length ?rows) CONTENT_PAGE_BYTES * 4"
    by (simp add: length_page_table length_chunks_ceil div_ceil_def CONTENT_PAGE_BYTES_def)
  then have pb: "length ?pt \<le> 2 ^ 50" using rl by (simp add: div_ceil_def CONTENT_PAGE_BYTES_def)
  have pages: "map le_u32 (chunks_exact 4 ?pt) = map crc32 (chunks CONTENT_PAGE_BYTES ?rows)"
    unfolding page_table_def by (rule chunks_exact_words)
  have mul: "u64_checked_mul (2 ^ j) (div_ceil ?bc 8) = Some (length ?rows)"
    using rows rl by (simp add: u64_checked_mul_def)
  have mul2: "u64_checked_mul (div_ceil (length ?rows) CONTENT_PAGE_BYTES) 4 = Some (length ?pt)"
    using pl pb by (simp add: u64_checked_mul_def)
  have ls: "length ?s \<le> 262144" using kb s8 by simp
  have sum: "Option.bind (Option.bind (u64_checked_add (length ?rows) (length ?pt))
       (\<lambda>tail. u64_checked_add tail (length ?s))) (\<lambda>tail. u64_checked_add tail CONTENT_PROLOGUE_LEN)
     = Some (length ?body)"
    using rl pb ls \<open>length ?body = _\<close> by (simp add: u64_checked_add_def CONTENT_PROLOGUE_LEN_def)
  have long: "\<not> length ?body < CONTENT_PROLOGUE_LEN" "\<not> length ?body < CONTENT_PROLOGUE_LEN + length ?s + length ?pt"
    using \<open>length ?body = _\<close> by (simp_all add: CONTENT_PROLOGUE_LEN_def)
  have caps: "\<not> 2 ^ k > CONTENT_SUMMARY_MAX_BYTES * 8" "\<not> 2 ^ j > CONTENT_BLOCK_MAX_BYTES * 8"
    using kb jb by (simp_all add: CONTENT_SUMMARY_MAX_BYTES_def CONTENT_BLOCK_MAX_BYTES_def)
  have p32: "CONTENT_PROLOGUE_LEN = 32" by (rule CONTENT_PROLOGUE_LEN_def)
  have br: "CONTENT_BLOCK_RECORDS \<noteq> 0" by (simp add: CONTENT_BLOCK_RECORDS_def)
  show ?thesis
    unfolding decode_content_head_def Let_def parts le_u32_u32_le le_u64_u64_le u u2 s8 mul mul2
    using long caps bc br sum
    by (simp add: mul mul2 s8 pages parts p32 content_of_def j(1))
qed

section \<open>Probing never misses\<close>

lemma bit_at_row:
  assumes "block < 8 * rb" and "p * rb + rb \<le> length rows"
  shows "bit_at block (bytes_at (p * rb) rb rows) \<longleftrightarrow> bit_at (row_bit rb block p) rows"
proof -
  have "block div 8 < rb" using assms(1) by (simp add: less_mult_imp_div_less mult.commute)
  then have "bytes_at (p * rb) rb rows ! (block div 8) = rows ! (p * rb + block div 8)"
    using assms(2) by (simp add: bytes_at_def)
  moreover have "row_bit rb block p div 8 = p * rb + block div 8" "row_bit rb block p mod 8 = block mod 8"
    by (simp_all add: row_bit_def)
  ultimately show ?thesis by (simp only: bit_at_iff)
qed

lemma bit_at_map2:
  assumes "block < 8 * length a" and "length r = length a"
  shows "bit_at block (map2 (\<lambda>target source. target AND source) a r) \<longleftrightarrow> bit_at block a \<and> bit_at block r"
proof -
  have "block div 8 < length a" using assms(1) by (simp add: less_mult_imp_div_less mult.commute)
  with assms(2) show ?thesis by (simp add: bit_at_iff bit_and_iff)
qed

lemma and_rows_keeps:
  assumes "rows_in_file ci backing rows" and "block < 8 * row_bytes ci"
  shows "length admitted = row_bytes ci \<Longrightarrow> bit_at block admitted \<Longrightarrow>
    list_all (\<lambda>p. p * row_bytes ci + row_bytes ci \<le> length rows \<and> bit_at (row_bit (row_bytes ci) block p) rows) ps \<Longrightarrow>
    \<exists>adm. and_rows ci backing ps admitted = Inr adm \<and> bit_at block adm"
proof (induction ps arbitrary: admitted)
  case (Cons p ps)
  let ?row = "bytes_at (p * row_bytes ci) (row_bytes ci) rows"
  let ?adm = "map2 (\<lambda>target source. target AND source) admitted ?row"
  from Cons.prems(3) have fits: "p * row_bytes ci + row_bytes ci \<le> length rows"
    and bit: "bit_at (row_bit (row_bytes ci) block p) rows" by simp_all
  have rd: "read_row ci backing p = Inr ?row" using assms(1) fits by (rule read_row_rows)
  have lr: "length ?row = row_bytes ci" using fits by simp
  have "bit_at block ?row" using bit_at_row [OF assms(2) fits] bit by simp
  then have adm: "bit_at block ?adm"
    using bit_at_map2 [of block admitted ?row] assms(2) Cons.prems(1,2) lr by simp
  show ?case
  proof (cases "list_all (\<lambda>b. b = 0) ?adm")
    case True
    with rd adm show ?thesis by (simp add: Let_def)
  next
    case False
    moreover have "\<exists>adm. and_rows ci backing ps ?adm = Inr adm \<and> bit_at block adm"
      using adm Cons.prems lr by (intro Cons.IH) simp_all
    ultimately show ?thesis using rd by (simp add: Let_def)
  qed
qed simp

lemma fold_insert_new_set: "set (fold insert_new xs acc) = set xs \<union> set acc"
  by (induction xs arbitrary: acc) (auto simp: insert_new_def)

lemma content_tokens_set: "set (content_tokens contents) = (\<Union>ts \<in> set (content_blocks contents). set ts)"
proof -
  have "set (fold (\<lambda>ts all. fold insert_new ts all) tss acc) = (\<Union>ts \<in> set tss. set ts) \<union> set acc" for tss acc
    by (induction tss arbitrary: acc) (auto simp: fold_insert_new_set)
  from this [of "content_blocks contents" "[]"] show ?thesis by (simp add: content_tokens_def)
qed

lemma nth_in_bytes_at:
  assumes "j \<le> i" and "i < j + n" and "i < length xs"
  shows "xs ! i \<in> set (bytes_at j n xs)"
proof -
  have "bytes_at j n xs ! (i - j) = xs ! i" using assms by (simp add: bytes_at_def)
  moreover have "i - j < length (bytes_at j n xs)" using assms by (simp add: bytes_at_def; arith)
  ultimately show ?thesis by (metis nth_mem)
qed

lemma block_of_record:
  assumes "i < length contents"
  shows "i div CONTENT_BLOCK_RECORDS < length (content_blocks contents)"
    and "t \<in> (\<Union>tx \<in> set (contents ! i). set (tokens tx)) \<Longrightarrow>
      probe_key t \<in> set (content_blocks contents ! (i div CONTENT_BLOCK_RECORDS))"
proof -
  let ?n = CONTENT_BLOCK_RECORDS
  have n: "0 < ?n" by (simp add: CONTENT_BLOCK_RECORDS_def)
  have "i div ?n < div_ceil (length contents) ?n"
    using assms by (simp add: div_ceil_def CONTENT_BLOCK_RECORDS_def)
  then show b: "i div ?n < length (content_blocks contents)"
    using n by (simp add: content_blocks_def length_chunks_ceil div_ceil_def)
  assume t: "t \<in> (\<Union>tx \<in> set (contents ! i). set (tokens tx))"
  have "i div ?n * ?n \<le> i" "i < i div ?n * ?n + ?n"
    using n dividend_less_div_times [of ?n i] by (simp_all add: algebra_simps)
  then have "contents ! i \<in> set (bytes_at (i div ?n * ?n) ?n contents)"
    using assms by (rule nth_in_bytes_at)
  moreover have "chunks ?n contents ! (i div ?n) = bytes_at (i div ?n * ?n) ?n contents"
    using n b by (intro chunks_nth) (simp_all add: content_blocks_def)
  ultimately show "probe_key t \<in> set (content_blocks contents ! (i div ?n))"
    using t b by (auto simp: content_blocks_def distinct_probe_keys_set)
qed

lemma bit_ff: "m < 8 \<Longrightarrow> bit (0xff :: u8) m"
proof -
  assume m: "m < 8"
  have "bit (mask 8 :: u8) m" unfolding bit_mask_iff using m by (simp add: possible_bit_word)
  then show ?thesis by (simp add: mask_eq_decr_exp)
qed

lemma rows_in_encoded:
  assumes ix: "indexed contents" and backing: "length (pre @ encode_content_index contents @ post) \<le> isize_max"
  shows "rows_in_file (content_of contents (length pre)) (pre @ encode_content_index contents @ post) (content_rows contents)"
  unfolding rows_in_file_def
proof (intro conjI exI)
  let ?rows = "content_rows contents"
  show "pre @ encode_content_index contents @ post
      = (pre @ take (CONTENT_PROLOGUE_LEN + length (content_summary contents) + length (page_table ?rows))
          (encode_content_index contents)) @ ?rows @ post"
    by (simp add: encode_indexed [OF ix] CONTENT_PROLOGUE_LEN_def)
  show "rows_offset (content_of contents (length pre)) = length (pre @ take (CONTENT_PROLOGUE_LEN
      + length (content_summary contents) + length (page_table ?rows)) (encode_content_index contents))"
    by (simp add: encode_indexed [OF ix] CONTENT_PROLOGUE_LEN_def content_of_def)
qed (use backing in \<open>simp_all add: content_of_def\<close>)

lemma block_bits_bounds: "0 < content_bits contents" "content_bits contents \<le> 2 ^ 64"
proof -
  obtain j where j: "content_bits contents = 2 ^ j" "9 \<le> j" "j \<le> 16"
    using block_size unfolding content_bits_def by blast
  have "(2::nat) ^ j \<le> 65536" by (rule pow_2_bounds) (rule j)
  then show "0 < content_bits contents" "content_bits contents \<le> 2 ^ 64" using j(1) by simp_all
qed

text \<open>The row of every probed bit lies in the matrix.\<close>

lemma probed_row_fits:
  assumes "ci = content_of contents off"
    and "p \<in> set (concat (map (\<lambda>token. bit_positions token (block_bits ci)) ts))"
  shows "p * row_bytes ci + row_bytes ci \<le> length (content_rows contents)"
proof -
  from assms obtain t where "p \<in> set (bit_positions (probe_key t) (content_bits contents))"
    by (auto simp: content_of_def bit_positions_probe_key)
  from bit_positions_lt [OF block_bits_bounds this] have "p + 1 \<le> content_bits contents" by simp
  then have "(p + 1) * row_bytes ci \<le> content_bits contents * row_bytes ci" by (rule mult_le_mono1)
  moreover have "length (content_rows contents) = content_bits contents * row_bytes ci"
    unfolding content_rows_def length_build_rows by (simp add: assms(1) content_of_def)
  ultimately have "(p + 1) * row_bytes ci \<le> length (content_rows contents)" by simp
  then show ?thesis by (simp add: add.commute)
qed

lemma and_rows_total:
  assumes "rows_in_file ci backing rows"
  shows "length admitted = row_bytes ci \<Longrightarrow> list_all (\<lambda>p. p * row_bytes ci + row_bytes ci \<le> length rows) ps \<Longrightarrow>
    \<exists>adm. and_rows ci backing ps admitted = Inr adm"
proof (induction ps arbitrary: admitted)
  case (Cons p ps)
  let ?row = "bytes_at (p * row_bytes ci) (row_bytes ci) rows"
  let ?adm = "map2 (\<lambda>target source. target AND source) admitted ?row"
  have "read_row ci backing p = Inr ?row" using assms Cons.prems(2) by (intro read_row_rows) simp_all
  moreover have "\<exists>adm. and_rows ci backing ps ?adm = Inr adm" using Cons.prems by (intro Cons.IH) simp_all
  ultimately show ?case by (simp add: Let_def)
qed simp

lemma summary_holds:
  assumes "i < length contents" and "query_matches q (contents ! i)"
  shows "may_contain_all (content_summary contents) (q_tokens q)"
  unfolding may_contain_all_def list_all_iff
proof
  note blk = block_of_record [OF assms(1)]
  fix t assume "t \<in> set (q_tokens q)"
  with assms(2) have "probe_key t \<in> set (content_blocks contents ! (i div CONTENT_BLOCK_RECORDS))"
    by (intro blk(2)) (auto simp: query_matches_iff)
  then have "probe_key t \<in> set (content_tokens contents)"
    unfolding content_tokens_set using nth_mem [OF blk(1)] by blast
  moreover obtain k where k: "bit_len (content_summary contents) = 2 ^ k" "k \<le> 18" using length_summary by blast
  have kb: "(2::nat) ^ k \<le> 262144" by (rule pow_2_bounds) (rule k)
  have "sane (bloom_new (size_bits (length (content_tokens contents))
      CONTENT_SUMMARY_MIN_BYTES CONTENT_SUMMARY_MAX_BYTES))"
    using k kb by (simp add: sane_def content_summary_def bit_len_def)
  ultimately have "may_contain (content_summary contents) (probe_key t)"
    unfolding content_summary_def by (intro fold_insert_adds)
  then show "may_contain (content_summary contents) t" by (simp add: may_contain_probe_key)
qed

text \<open>The rows of every token of the query admit the block of a matching record.\<close>

lemma block_admitted:
  assumes ix: "indexed contents" and backing: "length (pre @ encode_content_index contents @ post) \<le> isize_max"
    and i: "i < length contents" and m: "query_matches q (contents ! i)"
  shows "\<exists>adm. candidate_blocks (content_of contents (length pre)) q (pre @ encode_content_index contents @ post) = Inr adm
    \<and> bit_at (i div CONTENT_BLOCK_RECORDS) adm"
proof -
  let ?ci = "content_of contents (length pre)" and ?b = "i div CONTENT_BLOCK_RECORDS" and ?rows = "content_rows contents"
  let ?bc = "div_ceil (length contents) CONTENT_BLOCK_RECORDS"
  note blk = block_of_record [OF i]
  have rb: "row_bytes ?ci = div_ceil ?bc 8" "block_bits ?ci = content_bits contents" by (simp_all add: content_of_def)
  have "length (content_blocks contents) = ?bc"
    by (simp add: content_blocks_def length_chunks_ceil div_ceil_def CONTENT_BLOCK_RECORDS_def)
  then have le8: "length (content_blocks contents) \<le> 8 * div_ceil ?bc 8" by (simp add: div_ceil_def)
  have b8: "?b < 8 * row_bytes ?ci" using blk(1) le8 rb by simp
  let ?ps = "concat (map (\<lambda>token. bit_positions token (block_bits ?ci)) (q_tokens q))"
  have "bit_at (row_bit (row_bytes ?ci) ?b p) ?rows" if "p \<in> set ?ps" for p
  proof -
    from that obtain t where t: "t \<in> set (q_tokens q)" and p: "p \<in> set (bit_positions (probe_key t) (content_bits contents))"
      by (auto simp: rb bit_positions_probe_key)
    from m t have "probe_key t \<in> set (content_blocks contents ! ?b)" by (intro blk(2)) (auto simp: query_matches_iff)
    then show ?thesis
      unfolding rb content_rows_def using block_bits_bounds le8 blk(1) p by (intro rows_hold_tokens)
  qed
  then have "list_all (\<lambda>p. p * row_bytes ?ci + row_bytes ?ci \<le> length ?rows \<and> bit_at (row_bit (row_bytes ?ci) ?b p) ?rows) ?ps"
    using probed_row_fits [OF refl] by (simp add: list_all_iff)
  moreover have "bit_at ?b (replicate (row_bytes ?ci) 0xff)"
  proof -
    have "?b div 8 < row_bytes ?ci" using b8 by (simp add: less_mult_imp_div_less mult.commute)
    then have "replicate (row_bytes ?ci) 0xff ! (?b div 8) = (0xff :: u8)" by simp
    then show ?thesis unfolding bit_at_iff using bit_ff by simp
  qed
  ultimately show ?thesis
    unfolding candidate_blocks_def by (intro and_rows_keeps [OF rows_in_encoded [OF ix backing] b8]) simp_all
qed

lemma content_never_misses:
  assumes ix: "indexed contents" and backing: "length (pre @ encode_content_index contents @ post) \<le> isize_max"
    and offs: "length offsets = length contents"
    and i: "i < length contents" and m: "query_matches q (contents ! i)"
  shows "\<exists>cand. content_candidate_offsets (Some (content_of contents (length pre)))
      (pre @ encode_content_index contents @ post) offsets q = Inr (Some cand) \<and> offsets ! i \<in> set cand"
    and "may_contain_content (Some (content_of contents (length pre))) q"
proof -
  let ?ci = "content_of contents (length pre)" and ?b = "i div CONTENT_BLOCK_RECORDS"
  note blk = block_of_record [OF i]
  have idx: "is_indexable q" using m by (auto simp: query_matches_iff is_indexable_def)
  have sum: "may_contain_all (summary ?ci) (q_tokens q)" using summary_holds [OF i m] by (simp add: content_of_def)
  then show "may_contain_content (Some ?ci) q" by (simp add: may_contain_content_def)
  obtain adm where adm: "candidate_blocks ?ci q (pre @ encode_content_index contents @ post) = Inr adm" "bit_at ?b adm"
    using block_admitted [OF ix backing i m] by blast
  let ?piece = "\<lambda>block. let start = block * block_records ?ci; end' = min (start + block_records ?ci) (length offsets)
       in bytes_at start (end' - start) offsets"
  have br: "0 < CONTENT_BLOCK_RECORDS" by (simp add: CONTENT_BLOCK_RECORDS_def)
  have "?b * CONTENT_BLOCK_RECORDS \<le> i" "i < ?b * CONTENT_BLOCK_RECORDS + CONTENT_BLOCK_RECORDS"
    using br dividend_less_div_times [of CONTENT_BLOCK_RECORDS i] by (simp_all add: algebra_simps)
  then have "offsets ! i \<in> set (?piece ?b)"
    unfolding Let_def using i offs by (intro nth_in_bytes_at) (simp_all add: content_of_def)
  moreover have "?b \<in> set (filter (\<lambda>block. bit_at block adm) [0..<block_count ?ci])"
    using blk(1) adm(2) by (simp add: content_of_def content_blocks_def length_chunks_ceil div_ceil_def CONTENT_BLOCK_RECORDS_def)
  ultimately have "offsets ! i \<in> set (concat (map ?piece (filter (\<lambda>block. bit_at block adm) [0..<block_count ?ci])))"
    by auto
  with sum idx adm(1) show "\<exists>cand. content_candidate_offsets (Some ?ci) (pre @ encode_content_index contents @ post) offsets q
      = Inr (Some cand) \<and> offsets ! i \<in> set cand"
    by (simp add: content_candidate_offsets_def)
qed

text \<open>A search over a written index always succeeds, and its candidates are records in record order.\<close>

lemma concat_slices: "concat (map (\<lambda>b. bytes_at (b * n) n xs) [0..<m]) = take (m * n) xs"
proof (induction m)
  case (Suc m)
  then show ?case using take_add [of "m * n" n xs] by (simp add: bytes_at_def add.commute)
qed simp

lemma subseq_concat_filter: "subseq (concat (map f (filter P xs))) (concat (map f xs))"
proof (induction xs)
  case (Cons x xs)
  then show ?case by (simp add: list_emb_append_mono list_emb_append2)
qed simp

lemma content_search_answers:
  assumes ix: "indexed contents" and backing: "length (pre @ encode_content_index contents @ post) \<le> isize_max"
  shows "\<exists>found. content_candidate_offsets (Some (content_of contents (length pre)))
      (pre @ encode_content_index contents @ post) offsets q = Inr found
    \<and> (\<forall>cand. found = Some cand \<longrightarrow> subseq cand offsets)"
proof -
  let ?ci = "content_of contents (length pre)" and ?file = "pre @ encode_content_index contents @ post"
  have "\<exists>adm. candidate_blocks ?ci q ?file = Inr adm"
    unfolding candidate_blocks_def
    by (rule and_rows_total [OF rows_in_encoded [OF ix backing]]) (simp_all add: list_all_iff probed_row_fits [OF refl] del: set_concat)
  then obtain adm where adm: "candidate_blocks ?ci q ?file = Inr adm" by blast
  have piece: "bytes_at start (min (start + n) (length offsets) - start) offsets = bytes_at start n offsets" for start n
    by (simp add: bytes_at_def min_def)
  have "subseq (concat (map (\<lambda>b. bytes_at (b * block_records ?ci) (block_records ?ci) offsets)
      (filter (\<lambda>block. bit_at block adm) [0..<block_count ?ci]))) offsets"
    by (rule subseq_order.trans [OF subseq_concat_filter])
      (simp only: concat_slices, metis prefix_imp_subseq take_is_prefix)
  then show ?thesis
    using adm by (auto simp: content_candidate_offsets_def Let_def piece)
qed

lemma length_content_index:
  assumes "length contents < 2 ^ 32"
  shows "length (encode_content_index contents) < 2 ^ 52"
proof (cases "indexed contents")
  case True
  let ?bc = "div_ceil (length contents) CONTENT_BLOCK_RECORDS"
  obtain k where k: "bit_len (content_summary contents) = 2 ^ k" "k \<le> 18" using length_summary by blast
  obtain j where j: "content_bits contents = 2 ^ j" "9 \<le> j" "j \<le> 16"
    using block_size unfolding content_bits_def by blast
  have "(2::nat) ^ k \<le> 262144" and jb: "(2::nat) ^ j \<le> 65536" using pow_2_bounds k(2) j(3) by auto
  then have s: "length (content_summary contents) \<le> 262144" using k(1) by (simp add: bit_len_def)
  have "div_ceil ?bc 8 \<le> 2 ^ 32" using assms by (simp add: div_ceil_def CONTENT_BLOCK_RECORDS_def)
  then have "2 ^ j * div_ceil ?bc 8 \<le> 65536 * 2 ^ 32" using jb by (intro mult_mono) simp_all
  then have r: "length (content_rows contents) \<le> 2 ^ 48" using j(1) by (simp add: content_rows_def)
  have "length (page_table (content_rows contents)) = 4 * ((length (content_rows contents) + 4095) div 4096)"
    by (simp add: length_page_table length_chunks_ceil CONTENT_PAGE_BYTES_def)
  also have "\<dots> \<le> 2 ^ 50" using r by simp
  finally have "length (page_table (content_rows contents)) \<le> 2 ^ 50" .
  with s r show ?thesis by (simp add: encode_indexed [OF True])
qed (simp add: encode_not_indexed)

section \<open>Properties\<close>

text \<open>C28: content search never misses a record. If the texts of record \<open>i\<close> match a query, then the
  index written for the segment and read back from the file, wherever its section lies, admits the
  segment, and the offset of record \<open>i\<close> is among the candidates the bit-sliced filters select, with
  every page checksum verified on the way.\<close>

theorem content_search_never_misses:
  assumes "length contents < 2 ^ 32"
    and "length (pre @ encode_content_index contents @ post) \<le> isize_max"
    and "length offsets = length contents" and "i < length contents"
    and "query_matches q (contents ! i)"
  shows "\<exists>index cand.
      decode_content_head (encode_content_index contents) (length pre) (length (encode_content_index contents))
        (length contents) = Inr (Some index)
      \<and> may_contain_content (Some index) q
      \<and> content_candidate_offsets (Some index) (pre @ encode_content_index contents @ post) offsets q = Inr (Some cand)
      \<and> offsets ! i \<in> set cand"
proof -
  have "contents ! i \<noteq> []" using assms(5) by (auto simp: query_matches_iff)
  then have ix: "indexed contents" using assms(4) by (auto simp: indexed_def list_ex_iff)
  from decode_encode_indexed [OF ix assms(1)] content_never_misses [OF ix assms(2-5)]
  show ?thesis by blast
qed

definition w_contents :: "bytes list list" where
  "w_contents = [[ascii ''Refund, please''], [ascii ''ok'']]"

theorem content_search_never_misses_witness:
  "\<exists>index cand.
      decode_content_head (encode_content_index w_contents) (length [9 :: u8]) (length (encode_content_index w_contents))
        (length w_contents) = Inr (Some index)
      \<and> may_contain_content (Some index) (query_new (ascii ''please REFUND''))
      \<and> content_candidate_offsets (Some index) ([9] @ encode_content_index w_contents @ [])
          [40, 77] (query_new (ascii ''please REFUND'')) = Inr (Some cand)
      \<and> [40, 77] ! 0 \<in> set cand"
proof (rule content_search_never_misses)
  show "query_matches (query_new (ascii ''please REFUND'')) (w_contents ! 0)"
    by (simp add: w_contents_def query_matches_iff query_new_def tokens_def ascii_def fold_case_def
        is_ascii_alphanumeric_def is_ascii_uppercase_def to_ascii_lowercase_def)
  show "length ([9] @ encode_content_index w_contents @ []) \<le> isize_max"
    using length_content_index [of w_contents] by (simp add: w_contents_def)
qed (simp_all add: w_contents_def)

end
