(* ===== verification/Segment_Records.thy ===== *)
theory Segment_Records
  imports Content_Index
begin

text \<open>
  The records region of a segment (\<open>src/src/segment.rs\<close>): the encoding of one record, the carving of
  the region into compression blocks, the block directory, and reading one block and one record back.
  Offsets and lengths are read as natural numbers with the checks of the code; timestamps are \<open>u64\<close>.
\<close>

section \<open>Records\<close>

definition RECORD_FIXED_LEN :: nat where
  "RECORD_FIXED_LEN = 8 + 4 + 4 + 4 + 4"

definition ATTRIBUTE_PAIR_LEN :: nat where
  "ATTRIBUTE_PAIR_LEN = 4 + 16"

definition COMPRESSION_BLOCK_BYTES :: nat where
  "COMPRESSION_BLOCK_BYTES = 128 * 1024"

definition DIRECTORY_ENTRY_LEN :: nat where
  "DIRECTORY_ENTRY_LEN = 32"

definition STORED_RAW_FLAG :: u32 where
  "STORED_RAW_FLAG = 0x80000000"

text \<open>A record handed to the encoder. \<open>attributes\<close> is the \<open>BTreeMap\<close>, in key order.\<close>

record record_input =
  ri_timestamp :: u64
  ri_trace_id :: bytes
  ri_attributes :: "(bytes \<times> bytes) list"
  ri_payload :: bytes
  ri_content :: "bytes list"

record stored_record =
  r_timestamp :: u64
  r_trace_id :: bytes
  r_pairs :: "(u32 \<times> bytes) list"
  r_payload :: bytes

definition encode_record :: "record_input \<Rightarrow> (u32 \<times> bytes) list \<Rightarrow> seg_error + bytes" where
  "encode_record record pairs =
     (if length (ri_trace_id record) \<ge> 2 ^ 32 then Inl (TooLarge ''trace id'')
      else if length pairs \<ge> 2 ^ 32 then Inl (TooLarge ''attribute count'')
      else if length (ri_payload record) \<ge> 2 ^ 32 then Inl (TooLarge ''payload'')
      else Inr (u64_le (ri_timestamp record) @ u32_le (of_nat (length (ri_trace_id record)))
             @ u32_le (of_nat (length pairs)) @ u32_le (of_nat (length (ri_payload record))) @ u32_le 0
             @ ri_trace_id record @ concat (map (\<lambda>(i, digest). u32_le i @ digest) pairs) @ ri_payload record))"

text \<open>Reads behind a cursor: \<open>take\<close>, \<open>read_u32_bounded\<close>, \<open>read_u32\<close>, \<open>read_u64\<close>.\<close>

definition take_at :: "bytes \<Rightarrow> nat \<Rightarrow> nat \<Rightarrow> nat \<Rightarrow> seg_error + (bytes \<times> nat)" where
  "take_at bs cursor len end' =
     (case u64_checked_add cursor len of
        None \<Rightarrow> Inl (Corrupt ''field length overflow'')
      | Some next' \<Rightarrow>
          if next' > end' \<or> next' > length bs then Inl (Corrupt ''truncated variable-length field'')
          else Inr (bytes_at cursor len bs, next'))"

definition read_u32_bounded :: "bytes \<Rightarrow> nat \<Rightarrow> nat \<Rightarrow> seg_error + u32" where
  "read_u32_bounded bs offset end' =
     (case u64_checked_add offset 4 of
        None \<Rightarrow> Inl (Corrupt ''integer offset overflow'')
      | Some next' \<Rightarrow>
          if next' > end' then Inl (Corrupt ''truncated integer'')
          else if next' > length bs then Inl (Corrupt ''truncated integer'')
          else Inr (le_u32 (bytes_at offset 4 bs)))"

definition read_u32 :: "bytes \<Rightarrow> nat \<Rightarrow> seg_error + u32" where
  "read_u32 bs offset = read_u32_bounded bs offset (length bs)"

definition read_u64 :: "bytes \<Rightarrow> nat \<Rightarrow> seg_error + u64" where
  "read_u64 bs offset =
     (if offset + 8 > length bs then Inl (Corrupt ''truncated integer'') else Inr (le_u64 (bytes_at offset 8 bs)))"

fun decode_pairs :: "bytes \<Rightarrow> nat \<Rightarrow> nat \<Rightarrow> u32 option \<Rightarrow> nat \<Rightarrow> seg_error + ((u32 \<times> bytes) list \<times> nat)" where
  "decode_pairs bs region_end 0 previous cursor = Inr ([], cursor)"
| "decode_pairs bs region_end (Suc n) previous cursor =
     and_then (read_u32_bounded bs cursor region_end) (\<lambda>i.
     and_then (take_at bs (cursor + 4) 16 region_end) (\<lambda>(digest, cursor).
       if (case previous of None \<Rightarrow> False | Some p \<Rightarrow> p \<ge> i)
       then Inl (Corrupt ''record attribute pairs are unordered'')
       else
         and_then (decode_pairs bs region_end n (Some i) cursor) (\<lambda>(pairs, cursor).
           Inr ((i, digest) # pairs, cursor))))"

definition decode_record :: "bytes \<Rightarrow> nat \<Rightarrow> nat \<Rightarrow> seg_error + stored_record" where
  "decode_record bs start region_end =
     (case u64_checked_add start RECORD_FIXED_LEN of
        None \<Rightarrow> Inl (Corrupt ''truncated record header'')
      | Some fixed_end \<Rightarrow>
          if fixed_end > region_end then Inl (Corrupt ''truncated record header'')
          else
            and_then (read_u64 bs start) (\<lambda>timestamp.
            and_then (read_u32 bs (start + 8)) (\<lambda>trace_len.
            and_then (read_u32 bs (start + 12)) (\<lambda>attribute_count.
            and_then (read_u32 bs (start + 16)) (\<lambda>payload_len.
            and_then (take_at bs fixed_end (unat trace_len) region_end) (\<lambda>(trace_id, cursor).
              if \<not> utf8_valid trace_id then Inl Utf8
              else
                let fits = (case u64_checked_mul (unat attribute_count) ATTRIBUTE_PAIR_LEN of
                              None \<Rightarrow> False
                            | Some needed \<Rightarrow>
                                (case u64_checked_add cursor needed of None \<Rightarrow> False | Some e \<Rightarrow> e \<le> region_end))
                in if \<not> fits then Inl (Corrupt ''truncated record attribute pairs'')
                   else
                     and_then (decode_pairs bs region_end (unat attribute_count) None cursor) (\<lambda>(pairs, cursor).
                     and_then (take_at bs cursor (unat payload_len) region_end) (\<lambda>(payload, cursor).
                       Inr \<lparr>r_timestamp = timestamp, r_trace_id = trace_id, r_pairs = pairs, r_payload = payload\<rparr>))))))))"

text \<open>The standard library's searches in a sorted slice: \<open>binary_search\<close> returns a position of the
  element (the position, where elements are distinct), \<open>partition_point\<close> the length of the prefix
  that satisfies the predicate.\<close>

fun binary_search :: "'a list \<Rightarrow> 'a \<Rightarrow> nat option" where
  "binary_search [] x = None"
| "binary_search (y # ys) x = (if y = x then Some 0 else map_option Suc (binary_search ys x))"

definition partition_point :: "('a \<Rightarrow> bool) \<Rightarrow> 'a list \<Rightarrow> nat" where
  "partition_point P xs = length (takeWhile P xs)"

definition carries :: "stored_record \<Rightarrow> u32 \<Rightarrow> bytes \<Rightarrow> bool" where
  "carries record key_id digest =
     (case binary_search (map fst (r_pairs record)) key_id of
        None \<Rightarrow> False
      | Some position \<Rightarrow> snd (r_pairs record ! position) = digest)"

section \<open>A record decodes to what was encoded\<close>

definition pairs_ok :: "(u32 \<times> bytes) list \<Rightarrow> bool" where
  "pairs_ok pairs \<longleftrightarrow> sorted_wrt (<) (map fst pairs) \<and> list_all (\<lambda>p. length (snd p) = 16) pairs"

lemma bytes_at_skip: "bytes_at (length xs + i) n (xs @ ys) = bytes_at i n ys"
  by (simp add: bytes_at_def)

lemma read_u32_here: "length (pre @ u32_le w @ post) \<le> isize_max \<Longrightarrow>
    read_u32 (pre @ u32_le w @ post) (length pre) = Inr w"
  using bytes_at_skip [of pre 0 4 "u32_le w @ post"] by (simp add: read_u32_def read_u32_bounded_def u64_checked_add_def)

lemma read_u64_here: "read_u64 (pre @ u64_le w @ post) (length pre) = Inr w"
  using bytes_at_skip [of pre 0 8 "u64_le w @ post"] by (simp add: read_u64_def)

lemma take_at_here:
  "length (pre @ s @ post) \<le> isize_max \<Longrightarrow> length pre + length s \<le> end' \<Longrightarrow>
    take_at (pre @ s @ post) (length pre) (length s) end' = Inr (s, length pre + length s)"
  using bytes_at_skip [of pre 0 "length s" "s @ post"] by (simp add: take_at_def u64_checked_add_def)

lemma decode_pairs_here:
  "length (pre @ concat (map (\<lambda>(i, d). u32_le i @ d) pairs) @ post) \<le> isize_max \<Longrightarrow>
   length (pre @ concat (map (\<lambda>(i, d). u32_le i @ d) pairs)) \<le> region_end \<Longrightarrow>
   list_all (\<lambda>p. length (snd p) = 16) pairs \<Longrightarrow> sorted_wrt (<) (map fst pairs) \<Longrightarrow>
   (case previous of None \<Rightarrow> True | Some v \<Rightarrow> list_all (\<lambda>p. v < fst p) pairs) \<Longrightarrow>
   decode_pairs (pre @ concat (map (\<lambda>(i, d). u32_le i @ d) pairs) @ post) region_end (length pairs) previous (length pre)
     = Inr (pairs, length (pre @ concat (map (\<lambda>(i, d). u32_le i @ d) pairs)))"
proof (induction pairs arbitrary: pre previous)
  case (Cons p pairs)
  obtain i d where p: "p = (i, d)" by (cases p)
  let ?rest = "concat (map (\<lambda>(i, d). u32_le i @ d) pairs) @ post"
  let ?bs = "pre @ concat (map (\<lambda>(i, d). u32_le i @ d) (p # pairs)) @ post"
  have d: "length d = 16" using Cons.prems(3) p by simp
  have bs: "?bs = pre @ u32_le i @ d @ ?rest" "?bs = (pre @ u32_le i) @ d @ ?rest" "?bs = (pre @ u32_le i @ d) @ ?rest"
    using p by simp_all
  have "read_u32_bounded ?bs (length pre) region_end = Inr i"
    using bytes_at_skip [of pre 0 4 "u32_le i @ d @ ?rest"] Cons.prems(1,2) p
    by (simp add: bs(1) read_u32_bounded_def u64_checked_add_def)
  moreover have "take_at ?bs (length pre + 4) 16 region_end = Inr (d, length pre + 20)"
    using take_at_here [of "pre @ u32_le i" d ?rest region_end] Cons.prems(1,2) p d by simp
  moreover have "\<not> (case previous of None \<Rightarrow> False | Some q \<Rightarrow> q \<ge> i)"
    using Cons.prems(5) p by (auto split: option.splits)
  moreover have "decode_pairs ?bs region_end (length pairs) (Some i) (length pre + 20)
      = Inr (pairs, length (pre @ concat (map (\<lambda>(i, d). u32_le i @ d) (p # pairs))))"
  proof -
    have "list_all (\<lambda>q. i < fst q) pairs" using Cons.prems(4) p by (simp add: list_all_iff)
    then have "decode_pairs ((pre @ u32_le i @ d) @ ?rest) region_end (length pairs) (Some i) (length (pre @ u32_le i @ d))
      = Inr (pairs, length ((pre @ u32_le i @ d) @ concat (map (\<lambda>(i, d). u32_le i @ d) pairs)))"
      using Cons.prems p by (intro Cons.IH) simp_all
    then show ?thesis using d p by simp
  qed
  ultimately show ?case using p by simp
qed simp

lemma length_pairs:
  "list_all (\<lambda>p. length (snd p) = 16) pairs \<Longrightarrow> length (concat (map (\<lambda>(i, d). u32_le i @ d) pairs)) = 20 * length pairs"
  by (induction pairs) auto

lemma decode_encoded_record:
  assumes enc: "encode_record record pairs = Inr bs" and "pairs_ok pairs" and "utf8_valid (ri_trace_id record)"
    and len: "length (pre @ bs @ post) \<le> isize_max"
  shows "decode_record (pre @ bs @ post) (length pre) (length pre + length bs) =
    Inr \<lparr>r_timestamp = ri_timestamp record, r_trace_id = ri_trace_id record, r_pairs = pairs, r_payload = ri_payload record\<rparr>"
proof -
  let ?t = "ri_trace_id record" and ?y = "ri_payload record" and ?p = "concat (map (\<lambda>(i, d). u32_le i @ d) pairs)"
  from enc have lt: "length ?t < 2 ^ 32" "length pairs < 2 ^ 32" "length ?y < 2 ^ 32"
    and bs: "bs = u64_le (ri_timestamp record) @ u32_le (of_nat (length ?t)) @ u32_le (of_nat (length pairs))
      @ u32_le (of_nat (length ?y)) @ u32_le 0 @ ?t @ ?p @ ?y"
    by (auto simp: encode_record_def not_le split: if_splits)
  have lp: "length ?p = 20 * length pairs" using assms(2) by (simp add: pairs_ok_def length_pairs)
  note u = unat_of_nat_u32 [OF lt(1)] unat_of_nat_u32 [OF lt(2)] unat_of_nat_u32 [OF lt(3)]
  let ?bs = "pre @ bs @ post"
  let ?f = "pre @ u64_le (ri_timestamp record) @ u32_le (of_nat (length ?t)) @ u32_le (of_nat (length pairs))
      @ u32_le (of_nat (length ?y)) @ u32_le 0"
  have "read_u64 ?bs (length pre) = Inr (ri_timestamp record)"
    unfolding bs append.assoc by (rule read_u64_here)
  moreover have "read_u32 ?bs (length pre + 8) = Inr (of_nat (length ?t))"
    using read_u32_here [of "pre @ u64_le (ri_timestamp record)"] len unfolding bs by simp
  moreover have "read_u32 ?bs (length pre + 12) = Inr (of_nat (length pairs))"
    using read_u32_here [of "pre @ u64_le (ri_timestamp record) @ u32_le (of_nat (length ?t))"] len unfolding bs by simp
  moreover have "read_u32 ?bs (length pre + 16) = Inr (of_nat (length ?y))"
    using read_u32_here [of "pre @ u64_le (ri_timestamp record) @ u32_le (of_nat (length ?t)) @ u32_le (of_nat (length pairs))"]
      len unfolding bs by simp
  moreover have "take_at ?bs (length pre + 24) (length ?t) (length pre + length bs) = Inr (?t, length pre + 24 + length ?t)"
    using take_at_here [of ?f ?t "?p @ ?y @ post" "length pre + length bs"] len unfolding bs by simp
  moreover have "decode_pairs ?bs (length pre + length bs) (length pairs) None (length pre + 24 + length ?t)
      = Inr (pairs, length pre + 24 + length ?t + length ?p)"
    using decode_pairs_here [of "?f @ ?t" pairs "?y @ post" "length pre + length bs" None] len assms(2)
    unfolding bs pairs_ok_def by (simp add: add.assoc)
  moreover have "take_at ?bs (length pre + 24 + length ?t + length ?p) (length ?y) (length pre + length bs)
      = Inr (?y, length pre + length bs)"
    using take_at_here [of "?f @ ?t @ ?p" ?y post "length pre + length bs"] len unfolding bs by (simp add: add.assoc)
  moreover have "length bs = 24 + length ?t + length ?p + length ?y" unfolding bs by simp
  ultimately show ?thesis
    using len assms(3) lp
    by (simp add: decode_record_def u64_checked_add_def u64_checked_mul_def RECORD_FIXED_LEN_def ATTRIBUTE_PAIR_LEN_def
        u lt Let_def)
qed

section \<open>Blocks\<close>

record block_entry =
  logical_start :: nat
  stored_offset :: nat
  stored_len :: u32
  be_raw :: bool
  be_crc32 :: u32
  min_timestamp :: u64

definition stored_len_word :: "block_entry \<Rightarrow> u32" where
  "stored_len_word e = (if be_raw e then stored_len e OR STORED_RAW_FLAG else stored_len e)"

definition put_entry :: "block_entry \<Rightarrow> bytes" where
  "put_entry e = u64_le (of_nat (logical_start e)) @ u64_le (of_nat (stored_offset e)) @ u32_le (stored_len_word e)
     @ u32_le (be_crc32 e) @ u64_le (min_timestamp e)"

text \<open>\<open>carve_blocks\<close>: \<open>offsets\<close> are the record starts in \<open>record_region\<close>, \<open>timestamps\<close> the records'.\<close>

definition record_end :: "nat list \<Rightarrow> nat \<Rightarrow> nat \<Rightarrow> nat" where
  "record_end offsets region_len index = (if index + 1 < length offsets then offsets ! (index + 1) else region_len)"

function block_end :: "nat list \<Rightarrow> nat \<Rightarrow> nat \<Rightarrow> nat \<Rightarrow> nat" where
  "block_end offsets region_len start end' =
     (if end' < length offsets \<and> record_end offsets region_len end' - start \<le> COMPRESSION_BLOCK_BYTES
      then block_end offsets region_len start (end' + 1) else end')"
  by pat_completeness auto
termination
  by (relation "measure (\<lambda>(offsets, region_len, start, end'). length offsets - end')") auto

declare block_end.simps [simp del]

lemma block_end_ge: "end' \<le> block_end offsets region_len start end'"
  by (induction offsets region_len start end' rule: block_end.induct) (subst block_end.simps, auto)

definition store_block :: "(bytes \<Rightarrow> bytes) \<Rightarrow> codec \<Rightarrow> bytes \<Rightarrow> bytes \<times> bool" where
  "store_block compress codec raw_bytes =
     (case codec of
        Raw \<Rightarrow> (raw_bytes, True)
      | Lz4 \<Rightarrow> (let compressed = compress raw_bytes in
                if length compressed < length raw_bytes then (compressed, False) else (raw_bytes, True)))"

function carve_loop ::
  "(bytes \<Rightarrow> bytes) \<Rightarrow> codec \<Rightarrow> bytes \<Rightarrow> nat list \<Rightarrow> u64 list \<Rightarrow> nat \<Rightarrow> bytes \<Rightarrow> block_entry list
    \<Rightarrow> bytes \<times> block_entry list" where
  "carve_loop compress codec record_region offsets timestamps start stored_region directory =
     (if start < length offsets then
        let lstart = offsets ! start;
            end' = block_end offsets (length record_region) lstart (start + 1);
            raw_bytes = bytes_at lstart (record_end offsets (length record_region) (end' - 1) - lstart) record_region;
            (stored, raw) = store_block compress codec raw_bytes;
            entry = \<lparr>logical_start = lstart, stored_offset = length stored_region,
                     stored_len = of_nat (length stored), be_raw = raw, be_crc32 = crc32 stored,
                     min_timestamp = timestamps ! start\<rparr>
        in carve_loop compress codec record_region offsets timestamps end' (stored_region @ stored) (directory @ [entry])
      else (stored_region, directory))"
  by pat_completeness auto
termination
proof (relation "measure (\<lambda>(compress, codec, region, offsets, timestamps, start, stored, directory). length offsets - start)", simp)
  fix compress codec and region :: bytes and offsets :: "nat list" and timestamps start stored directory x xa xb y xc ya xd
  assume "start < length offsets" "x = offsets ! start"
    "xa = block_end offsets (length region) x (start + 1)"
  then have "start < xa" using block_end_ge [of "start + 1" offsets "length region" x] by simp
  with \<open>start < length offsets\<close>
  show "((compress, codec, region, offsets, timestamps, xa, stored @ xc, directory @ [xd]),
      (compress, codec, region, offsets, timestamps, start, stored, directory))
    \<in> measure (\<lambda>(compress, codec, region, offsets, timestamps, start, stored, directory). length offsets - start)"
    by simp
qed

declare carve_loop.simps [simp del]

definition carve_blocks ::
  "(bytes \<Rightarrow> bytes) \<Rightarrow> bytes \<Rightarrow> nat list \<Rightarrow> u64 list \<Rightarrow> codec \<Rightarrow> bytes \<times> bytes" where
  "carve_blocks compress record_region offsets timestamps codec =
     (let (stored_region, directory) = carve_loop compress codec record_region offsets timestamps 0 [] []
      in (stored_region, concat (map put_entry directory)))"

section \<open>The block directory\<close>

text \<open>The header words the directory is checked against: record count, stored and logical length.\<close>

fun decode_entries ::
  "nat \<Rightarrow> nat \<Rightarrow> bytes \<Rightarrow> nat \<Rightarrow> block_entry option \<Rightarrow> seg_error + (block_entry list \<times> nat)" where
  "decode_entries records_logical_len 0 data stored_total previous = Inr ([], stored_total)"
| "decode_entries records_logical_len (Suc n) data stored_total previous =
     (let word = le_u32 (bytes_at 16 4 data);
          entry = \<lparr>logical_start = unat (le_u64 (bytes_at 0 8 data)), stored_offset = unat (le_u64 (bytes_at 8 8 data)),
                   stored_len = word AND NOT STORED_RAW_FLAG, be_raw = (word AND STORED_RAW_FLAG \<noteq> 0),
                   be_crc32 = le_u32 (bytes_at 20 4 data), min_timestamp = le_u64 (bytes_at 24 8 data)\<rparr>
      in if stored_len entry = 0 then Inl (Corrupt ''block directory entry has zero length'')
         else if logical_start entry \<ge> records_logical_len then Inl (Corrupt ''block starts beyond the logical region'')
         else if stored_offset entry \<noteq> stored_total then Inl (Corrupt ''block directory stored offsets have gaps'')
         else
           and_then (ok_or (u64_checked_add stored_total (unat (stored_len entry))) (Corrupt ''block directory length overflow''))
             (\<lambda>stored_total.
               and_then (case previous of
                           Some p \<Rightarrow>
                             if logical_start entry \<le> logical_start p then Inl (Corrupt ''block logical starts are unordered'')
                             else if min_timestamp entry < min_timestamp p then Inl (Corrupt ''block min timestamps are unordered'')
                             else Inr ()
                         | None \<Rightarrow>
                             if logical_start entry \<noteq> 0 then Inl (Corrupt ''first block does not start at zero'') else Inr ())
                 (\<lambda>_. and_then (decode_entries records_logical_len n (drop DIRECTORY_ENTRY_LEN data) stored_total (Some entry))
                   (\<lambda>(entries, stored_total). Inr (entry # entries, stored_total)))))"

fun block_logical_end :: "nat \<Rightarrow> block_entry list \<Rightarrow> nat" where
  "block_logical_end records_logical_len [] = records_logical_len"
| "block_logical_end records_logical_len (next' # _) = logical_start next'"

fun raw_lengths_agree :: "nat \<Rightarrow> block_entry list \<Rightarrow> bool" where
  "raw_lengths_agree records_logical_len [] = True"
| "raw_lengths_agree records_logical_len (e # es) =
     (\<not> (be_raw e \<and> unat (stored_len e) \<noteq> block_logical_end records_logical_len es - logical_start e)
      \<and> raw_lengths_agree records_logical_len es)"

definition decode_directory :: "bytes \<Rightarrow> nat \<Rightarrow> nat \<Rightarrow> nat \<Rightarrow> seg_error + block_entry list" where
  "decode_directory data record_count records_len records_logical_len =
     (if length data mod DIRECTORY_ENTRY_LEN \<noteq> 0 then Inl (Corrupt ''block directory has a partial entry'')
      else
        let count = length data div DIRECTORY_ENTRY_LEN in
        if (count = 0) \<noteq> (record_count = 0) then Inl (Corrupt ''record region and directory disagree'')
        else
          and_then (decode_entries records_logical_len count data 0 None) (\<lambda>(entries, stored_total).
            if stored_total \<noteq> records_len then Inl (Corrupt ''block directory does not account for the stored region'')
            else if \<not> raw_lengths_agree records_logical_len entries then Inl (Corrupt ''raw block length mismatch'')
            else Inr entries))"

text \<open>\<open>block_start_ordinals\<close>: locating every block's start in the offset table, then the legality of
  every block's extent.\<close>

fun extents_legal :: "nat \<Rightarrow> nat \<Rightarrow> nat list \<Rightarrow> block_entry list \<Rightarrow> seg_error + unit" where
  "extents_legal records_logical_len record_count (ordinal # ordinals) (e # es) =
     (let extent = block_logical_end records_logical_len es - logical_start e;
          records_in_block = (case ordinals of [] \<Rightarrow> record_count | next' # _ \<Rightarrow> next') - ordinal;
          legal = (if records_in_block > 1 then extent \<le> COMPRESSION_BLOCK_BYTES else extent < 2 ^ 31)
      in if \<not> legal then Inl (Corrupt ''block logical extent exceeds the format bound'')
         else if \<not> be_raw e \<and> extent > unat (stored_len e) * 256 + 64
           then Inl (Corrupt ''block logical extent exceeds what lz4 can decode from its stored bytes'')
         else extents_legal records_logical_len record_count ordinals es)"
| "extents_legal records_logical_len record_count _ _ = Inr ()"

fun find_starts :: "nat list \<Rightarrow> block_entry list \<Rightarrow> seg_error + nat list" where
  "find_starts offsets [] = Inr []"
| "find_starts offsets (e # es) =
     and_then (ok_or (binary_search offsets (logical_start e)) (Corrupt ''block does not start at a record boundary''))
       (\<lambda>ordinal. and_then (find_starts offsets es) (\<lambda>ordinals. Inr (ordinal # ordinals)))"

definition block_start_ordinals :: "nat \<Rightarrow> nat list \<Rightarrow> block_entry list \<Rightarrow> seg_error + nat list" where
  "block_start_ordinals records_logical_len offsets directory =
     and_then (find_starts offsets directory) (\<lambda>ordinals.
     and_then (extents_legal records_logical_len (length offsets) ordinals directory) (\<lambda>_. Inr ordinals))"

text \<open>\<open>validate_header_timestamps\<close> on the declared range.\<close>

definition validate_header_timestamps :: "u64 \<times> u64 \<Rightarrow> block_entry list \<Rightarrow> seg_error + unit" where
  "validate_header_timestamps timestamps directory =
     (if directory = [] then
        (if timestamps \<noteq> (- 1, 0) then Inl (Corrupt ''empty segment declares a non-canonical timestamp range'') else Inr ())
      else if fst timestamps \<noteq> min_timestamp (hd directory)
        then Inl (Corrupt ''header min timestamp does not match the first block fence'')
      else if snd timestamps < min_timestamp (last directory)
        then Inl (Corrupt ''header max timestamp is below the last block fence'')
      else Inr ())"

text \<open>\<open>validate_record_offsets_lengths\<close>.\<close>

fun offsets_in_order :: "nat \<Rightarrow> nat option \<Rightarrow> nat list \<Rightarrow> bool" where
  "offsets_in_order records_logical_len previous [] = True"
| "offsets_in_order records_logical_len previous (offset # offsets) =
     (\<not> (offset \<ge> records_logical_len \<or> (case previous of None \<Rightarrow> False | Some v \<Rightarrow> offset \<le> v))
      \<and> offsets_in_order records_logical_len (Some offset) offsets)"

definition validate_record_offsets :: "nat \<Rightarrow> nat list \<Rightarrow> seg_error + unit" where
  "validate_record_offsets records_logical_len offsets =
     (if \<not> offsets_in_order records_logical_len None offsets then Inl (Corrupt ''record offsets are invalid or unordered'')
      else if offsets = [] \<and> records_logical_len \<noteq> 0 then Inl (Corrupt ''record region exists without records'')
      else Inr ())"

section \<open>Prefix sums\<close>

text \<open>The region is the concatenation of the records' encodings; record \<open>i\<close> starts at \<open>psum encs i\<close>.\<close>

definition psum :: "bytes list \<Rightarrow> nat \<Rightarrow> nat" where
  "psum encs i = length (concat (take i encs))"

definition starts :: "bytes list \<Rightarrow> nat list" where
  "starts encs = map (psum encs) [0..<length encs]"

lemma length_starts [simp]: "length (starts encs) = length encs"
  by (simp add: starts_def)

lemma starts_nth [simp]: "i < length encs \<Longrightarrow> starts encs ! i = psum encs i"
  by (simp add: starts_def)

lemma psum_0 [simp]: "psum encs 0 = 0"
  by (simp add: psum_def)

lemma psum_Suc: "i < length encs \<Longrightarrow> psum encs (Suc i) = psum encs i + length (encs ! i)"
  by (simp add: psum_def take_Suc_conv_app_nth)

lemma psum_all: "length encs \<le> i \<Longrightarrow> psum encs i = length (concat encs)"
  by (simp add: psum_def)

lemma psum_mono: "i \<le> j \<Longrightarrow> psum encs i \<le> psum encs j"
proof -
  assume "i \<le> j"
  then have "take j encs = take i encs @ take (j - i) (drop i encs)" by (metis le_add_diff_inverse take_add)
  then show ?thesis by (simp add: psum_def)
qed

lemma psum_strict: "list_all (\<lambda>e. e \<noteq> []) encs \<Longrightarrow> i < j \<Longrightarrow> j \<le> length encs \<Longrightarrow> psum encs i < psum encs j"
proof -
  assume ne: "list_all (\<lambda>e. e \<noteq> []) encs" and ij: "i < j" "j \<le> length encs"
  then have "encs ! i \<noteq> []" by (simp add: list_all_length)
  then have "psum encs i < psum encs (Suc i)" using ij by (simp add: psum_Suc)
  also have "\<dots> \<le> psum encs j" using ij by (intro psum_mono) simp
  finally show ?thesis .
qed

lemma psum_le_iff: "list_all (\<lambda>e. e \<noteq> []) encs \<Longrightarrow> i \<le> length encs \<Longrightarrow> j \<le> length encs \<Longrightarrow>
    psum encs i \<le> psum encs j \<longleftrightarrow> i \<le> j"
  using psum_mono [of i j encs] psum_strict [of encs j i] by (cases "i \<le> j") auto

lemma psum_less_iff: "list_all (\<lambda>e. e \<noteq> []) encs \<Longrightarrow> i \<le> length encs \<Longrightarrow> j \<le> length encs \<Longrightarrow>
    psum encs i < psum encs j \<longleftrightarrow> i < j"
  using psum_le_iff [of encs j i] by (auto simp: not_le [symmetric])

lemma starts_sorted: "list_all (\<lambda>e. e \<noteq> []) encs \<Longrightarrow> sorted_wrt (<) (starts encs)"
  by (auto simp: sorted_wrt_iff_nth_less psum_strict)

lemma record_end_starts: "i < length encs \<Longrightarrow> record_end (starts encs) (length (concat encs)) i = psum encs (Suc i)"
  by (simp add: record_end_def psum_all)

lemma region_slice:
  assumes "s \<le> e" and "e \<le> length encs"
  shows "bytes_at (psum encs s) (psum encs e - psum encs s) (concat encs) = concat (drop s (take e encs))"
proof -
  have 1: "take s (take e encs) = take s encs" using assms by (simp add: min_absorb1)
  have "concat encs = concat (take s encs) @ concat (drop s (take e encs)) @ concat (drop e encs)"
    by (metis 1 append.assoc append_take_drop_id concat_append)
  moreover have "psum encs e = psum encs s + length (concat (drop s (take e encs)))"
    unfolding psum_def by (metis 1 append_take_drop_id concat_append length_append)
  ultimately show ?thesis by (simp add: bytes_at_def psum_def)
qed

lemma binary_search_nth:
  assumes "sorted_wrt (<) (xs :: 'a::linorder list)" and "i < length xs"
  shows "binary_search xs (xs ! i) = Some i"
  using assms
proof (induction xs arbitrary: i)
  case (Cons x xs)
  show ?case
  proof (cases i)
    case (Suc j)
    with Cons.prems have "xs ! j \<in> set xs" by simp
    with Cons.prems(1) have "x < xs ! j" by simp
    then have "x \<noteq> xs ! j" by simp
    with Cons Suc show ?thesis by simp
  qed simp
qed simp

end
