(* ===== verification/Segment_Header.thy ===== *)
theory Segment_Header
  imports Segment_Records
begin

text \<open>
  The fixed header of a segment file (\<open>Header\<close> of \<open>src/src/segment.rs\<close>): parsing, and the validation of
  the section bounds against the length of the file. Offsets and lengths are read as natural numbers
  below \<open>2 ^ 64\<close>, with the checked arithmetic of the code.
\<close>

section \<open>The header\<close>

definition MAGIC :: bytes where
  "MAGIC = ascii ''TRAZASEG''"

definition VERSION :: u16 where
  "VERSION = 8"

definition HEADER_LEN :: nat where
  "HEADER_LEN = 132"

definition u16_le :: "u16 \<Rightarrow> bytes" where
  "u16_le w = le_bytes 2 (unat w)"

definition le_u16 :: "bytes \<Rightarrow> u16" where
  "le_u16 bs = of_nat (le_nat bs)"

lemma length_u16_le [simp, len_simps]: "length (u16_le w) = 2"
  by (simp add: u16_le_def)

lemma le_u16_u16_le [simp, codec_simps]: "le_u16 (u16_le w) = w"
proof -
  have "unat w < 2 ^ 16" using unat_lt [of w] by simp
  then show ?thesis by (simp add: le_u16_def u16_le_def le_nat_le_bytes)
qed

record header =
  h_version :: u16
  h_header_len :: u16
  h_codec :: codec
  record_count :: nat
  records_offset :: nat
  records_len :: nat
  offsets_offset :: nat
  offsets_len :: nat
  trace_index_offset :: nat
  trace_index_len :: nat
  attribute_index_offset :: nat
  attribute_index_len :: nat
  timestamps :: "u64 \<times> u64"
  content :: "nat \<times> nat"
  directory_offset :: nat
  directory_len :: nat
  records_logical_len :: nat

text \<open>The loop of \<open>validate_total\<close> over the sections, each an offset, a length and whether it is wrapped.\<close>

fun check_sections :: "nat \<Rightarrow> nat \<Rightarrow> (nat \<times> nat \<times> bool) list \<Rightarrow> seg_error + nat" where
  "check_sections file_len expected [] = Inr expected"
| "check_sections file_len expected ((offset, len, wrapped) # sections) =
     (if offset \<noteq> expected then Inl (Corrupt ''sections are not contiguous'')
      else if wrapped \<and> len < SECTION_WRAPPER_LEN then Inl (Corrupt ''section is shorter than its wrapper'')
      else
        and_then (ok_or (u64_checked_add offset len) (Corrupt ''section bounds overflow'')) (\<lambda>expected.
          if expected > file_len then Inl (Corrupt ''section exceeds file bounds'')
          else check_sections file_len expected sections))"

definition sections_of :: "header \<Rightarrow> (nat \<times> nat \<times> bool) list" where
  "sections_of h =
     [(records_offset h, records_len h, False),
      (directory_offset h, directory_len h, True),
      (offsets_offset h, offsets_len h, True),
      (trace_index_offset h, trace_index_len h, True),
      (attribute_index_offset h, attribute_index_len h, True),
      (fst (content h), snd (content h), True)]"

definition validate_total :: "header \<Rightarrow> nat \<Rightarrow> seg_error + unit" where
  "validate_total h file_len =
     and_then (check_sections file_len (unat (h_header_len h)) (sections_of h)) (\<lambda>expected.
       if expected \<noteq> file_len then Inl (Corrupt ''trailing or unaccounted segment bytes'')
       else if \<not> (case u64_checked_mul (record_count h) RECORD_FIXED_LEN of
                    None \<Rightarrow> False | Some min_bytes \<Rightarrow> min_bytes \<le> records_logical_len h)
         then Inl (Corrupt ''record count exceeds what the record region can hold'')
       else
         let empty = (record_count h = 0) in
         if (records_len h = 0) \<noteq> empty \<or> (records_logical_len h = 0) \<noteq> empty
         then Inl (Corrupt ''record region and directory disagree'')
         else Inr ())"

definition parse_with_total :: "bytes \<Rightarrow> nat \<Rightarrow> seg_error + header" where
  "parse_with_total bs tot =
     (if length bs < HEADER_LEN then Inl (Corrupt ''file is shorter than the header'')
      else if take 8 bs \<noteq> MAGIC then Inl (Unsupported ''not a Traza segment (bad magic)'')
      else
        let version = le_u16 (bytes_at 8 2 bs) in
        if version \<noteq> VERSION then Inl (UnsupportedVersion version VERSION)
        else
          let header_len = le_u16 (bytes_at 10 2 bs) in
          if unat header_len \<noteq> HEADER_LEN then Inl (Corrupt ''header length does not match the version'')
          else if crc32 (take (HEADER_LEN - 4) bs) \<noteq> le_u32 (bytes_at (HEADER_LEN - 4) 4 bs)
            then Inl (CorruptSection ''header'' ''checksum mismatch'')
          else
            let word = (\<lambda>offset. unat (le_u64 (bytes_at offset 8 bs))) in
            and_then (codec_from_id (le_u32 (bytes_at 12 4 bs))) (\<lambda>codec.
              let attribute_offset = word 72; content_offset = word 96 in
              if content_offset < attribute_offset then Inl (Corrupt ''attribute index offset beyond file'')
              else if tot < content_offset then Inl (Corrupt ''content index offset beyond file'')
              else
                let h = \<lparr>h_version = version, h_header_len = header_len, h_codec = codec,
                         record_count = word 16, records_offset = word 24, records_len = word 32,
                         offsets_offset = word 40, offsets_len = word 48,
                         trace_index_offset = word 56, trace_index_len = word 64,
                         attribute_index_offset = attribute_offset,
                         attribute_index_len = content_offset - attribute_offset,
                         timestamps = (le_u64 (bytes_at 80 8 bs), le_u64 (bytes_at 88 8 bs)),
                         content = (content_offset, tot - content_offset),
                         directory_offset = word 104, directory_len = word 112,
                         records_logical_len = word 120\<rparr>
                in and_then (validate_total h tot) (\<lambda>_. Inr h)))"

text \<open>The header \<open>encode_with_codec\<close> writes.\<close>

definition header_fields :: "header \<Rightarrow> bytes" where
  "header_fields h =
     MAGIC @ u16_le VERSION @ u16_le (of_nat HEADER_LEN) @ u32_le (codec_id (h_codec h))
       @ u64_le (of_nat (record_count h)) @ u64_le (of_nat (records_offset h)) @ u64_le (of_nat (records_len h))
       @ u64_le (of_nat (offsets_offset h)) @ u64_le (of_nat (offsets_len h))
       @ u64_le (of_nat (trace_index_offset h)) @ u64_le (of_nat (trace_index_len h))
       @ u64_le (of_nat (attribute_index_offset h))
       @ u64_le (fst (timestamps h)) @ u64_le (snd (timestamps h))
       @ u64_le (of_nat (fst (content h)))
       @ u64_le (of_nat (directory_offset h)) @ u64_le (of_nat (directory_len h))
       @ u64_le (of_nat (records_logical_len h))"

definition put_header :: "header \<Rightarrow> bytes" where
  "put_header h = header_fields h @ u32_le (crc32 (header_fields h))"

section \<open>What validation accepts\<close>

text \<open>The sections tile \<open>[start, file_len)\<close>: each begins where the one before ends, wrapped ones hold at
  least their wrapper, and the last ends with the file.\<close>

fun tiles :: "nat \<Rightarrow> nat \<Rightarrow> (nat \<times> nat \<times> bool) list \<Rightarrow> bool" where
  "tiles file_len start [] = (start = file_len)"
| "tiles file_len start ((offset, len, wrapped) # sections) =
     (offset = start \<and> (wrapped \<longrightarrow> SECTION_WRAPPER_LEN \<le> len) \<and> tiles file_len (start + len) sections)"

lemma tiles_le: "tiles file_len start sections \<Longrightarrow> start \<le> file_len"
  by (induction file_len start sections rule: tiles.induct) auto

lemma check_sections_iff:
  "file_len < 2 ^ 64 \<Longrightarrow>
    check_sections file_len expected sections = Inr file_len \<longleftrightarrow> tiles file_len expected sections"
proof (induction file_len expected sections rule: tiles.induct)
  case (2 file_len start offset len wrapped sections)
  show ?case
  proof
    assume "check_sections file_len start ((offset, len, wrapped) # sections) = Inr file_len"
    then show "tiles file_len start ((offset, len, wrapped) # sections)"
      using "2" by (auto simp: and_then_Inr ok_or_Inr u64_checked_add_def split: if_splits)
  next
    assume t: "tiles file_len start ((offset, len, wrapped) # sections)"
    then have le: "start + len \<le> file_len" using tiles_le [of file_len "start + len" sections] by simp
    then have "start + len < 2 ^ 64" using "2.prems" by (rule le_less_trans)
    with le t "2" show "check_sections file_len start ((offset, len, wrapped) # sections) = Inr file_len"
      by (auto simp: u64_checked_add_def)
  qed
qed simp

text \<open>Records and record bytes go together, and the declared count fits the region.\<close>

definition counts_ok :: "header \<Rightarrow> bool" where
  "counts_ok h \<longleftrightarrow>
     record_count h * RECORD_FIXED_LEN \<le> records_logical_len h
     \<and> ((records_len h = 0) = (record_count h = 0)) \<and> ((records_logical_len h = 0) = (record_count h = 0))"

lemma validate_total_iff:
  assumes "file_len < 2 ^ 64" and "records_logical_len h < 2 ^ 64"
  shows "validate_total h file_len = Inr () \<longleftrightarrow>
    tiles file_len (unat (h_header_len h)) (sections_of h) \<and> counts_ok h"
proof -
  have "(case u64_checked_mul (record_count h) RECORD_FIXED_LEN of
      None \<Rightarrow> False | Some min_bytes \<Rightarrow> min_bytes \<le> records_logical_len h)
    \<longleftrightarrow> record_count h * RECORD_FIXED_LEN \<le> records_logical_len h"
    using assms(2) by (auto simp: u64_checked_mul_def)
  then show ?thesis
    unfolding check_sections_iff [OF assms(1), symmetric]
    by (auto simp: validate_total_def and_then_Inr counts_ok_def Let_def)
qed

lemma word_lt: "unat (le_u64 bs) < 2 ^ 64"
  by (rule unat_u64_lt)

lemma parse_sound:
  assumes "parse_with_total bs tot = Inr h" and "tot < 2 ^ 64"
  shows "tiles tot HEADER_LEN (sections_of h) \<and> counts_ok h
    \<and> le_u32 (bytes_at (HEADER_LEN - 4) 4 bs) = crc32 (take (HEADER_LEN - 4) bs)"
proof -
  from assms(1) have v: "validate_total h tot = Inr ()" and l: "unat (h_header_len h) = HEADER_LEN"
    and r: "records_logical_len h < 2 ^ 64"
    and c: "le_u32 (bytes_at (HEADER_LEN - 4) 4 bs) = crc32 (take (HEADER_LEN - 4) bs)"
    using word_lt by (auto simp: parse_with_total_def Let_def and_then_Inr split: if_splits)
  from v have "tiles tot (unat (h_header_len h)) (sections_of h) \<and> counts_ok h"
    by (subst (asm) validate_total_iff) (use assms(2) r in simp_all)
  with l c show ?thesis by simp
qed

section \<open>What is written is read back\<close>

definition header_words_ok :: "header \<Rightarrow> bool" where
  "header_words_ok h \<longleftrightarrow>
     h_version h = VERSION \<and> h_header_len h = of_nat HEADER_LEN
     \<and> list_all (\<lambda>n. n < 2 ^ 64)
         [record_count h, records_offset h, records_len h, offsets_offset h, offsets_len h, trace_index_offset h,
          trace_index_len h, attribute_index_offset h, fst (content h), directory_offset h, directory_len h,
          records_logical_len h]"

lemma length_header_fields [simp, len_simps]: "length (header_fields h) = 128"
  by (simp add: header_fields_def MAGIC_def)

lemma length_put_header [simp, len_simps]: "length (put_header h) = HEADER_LEN"
  by (simp add: put_header_def HEADER_LEN_def)

lemma codec_id_from_id [simp]: "codec_from_id (codec_id c) = Inr c"
  by (cases c) (simp_all add: codec_id_def codec_from_id_def)

lemma parse_put:
  assumes "header_words_ok h" and "tot < 2 ^ 64"
    and t: "tiles tot HEADER_LEN (sections_of h)" and "counts_ok h"
  shows "parse_with_total (put_header h) tot = Inr h"
proof -
  let ?bs = "put_header h"
  have w: "record_count h < 2 ^ 64" "records_offset h < 2 ^ 64" "records_len h < 2 ^ 64" "offsets_offset h < 2 ^ 64"
    "offsets_len h < 2 ^ 64" "trace_index_offset h < 2 ^ 64" "trace_index_len h < 2 ^ 64"
    "attribute_index_offset h < 2 ^ 64" "fst (content h) < 2 ^ 64" "directory_offset h < 2 ^ 64"
    "directory_len h < 2 ^ 64" "records_logical_len h < 2 ^ 64"
    and v: "h_version h = VERSION" "h_header_len h = of_nat HEADER_LEN"
    using assms(1) by (simp_all add: header_words_ok_def)
  have f: "bytes_at 8 2 ?bs = u16_le VERSION" "bytes_at 10 2 ?bs = u16_le (of_nat HEADER_LEN)"
    "bytes_at 12 4 ?bs = u32_le (codec_id (h_codec h))"
    "bytes_at 16 8 ?bs = u64_le (of_nat (record_count h))" "bytes_at 24 8 ?bs = u64_le (of_nat (records_offset h))"
    "bytes_at 32 8 ?bs = u64_le (of_nat (records_len h))" "bytes_at 40 8 ?bs = u64_le (of_nat (offsets_offset h))"
    "bytes_at 48 8 ?bs = u64_le (of_nat (offsets_len h))" "bytes_at 56 8 ?bs = u64_le (of_nat (trace_index_offset h))"
    "bytes_at 64 8 ?bs = u64_le (of_nat (trace_index_len h))"
    "bytes_at 72 8 ?bs = u64_le (of_nat (attribute_index_offset h))"
    "bytes_at 80 8 ?bs = u64_le (fst (timestamps h))" "bytes_at 88 8 ?bs = u64_le (snd (timestamps h))"
    "bytes_at 96 8 ?bs = u64_le (of_nat (fst (content h)))" "bytes_at 104 8 ?bs = u64_le (of_nat (directory_offset h))"
    "bytes_at 112 8 ?bs = u64_le (of_nat (directory_len h))"
    "bytes_at 120 8 ?bs = u64_le (of_nat (records_logical_len h))"
    "bytes_at 128 4 ?bs = u32_le (crc32 (header_fields h))" "take 128 ?bs = header_fields h"
    unfolding put_header_def by (simp_all add: bytes_at_def header_fields_def MAGIC_def)
  have m: "take 8 ?bs = MAGIC" by (simp add: put_header_def header_fields_def MAGIC_def)
  have hl: "unat (of_nat HEADER_LEN :: u16) = HEADER_LEN" by (simp add: HEADER_LEN_def)
  have "tiles tot HEADER_LEN
      [(records_offset h, records_len h, False), (directory_offset h, directory_len h, True),
       (offsets_offset h, offsets_len h, True), (trace_index_offset h, trace_index_len h, True),
       (attribute_index_offset h, attribute_index_len h, True), (fst (content h), snd (content h), True)]"
    using t by (simp add: sections_of_def)
  then have ai: "fst (content h) = attribute_index_offset h + attribute_index_len h"
    and co: "tot = fst (content h) + snd (content h)" by simp_all
  have h: "\<lparr>h_version = VERSION, h_header_len = of_nat HEADER_LEN, h_codec = h_codec h,
      record_count = record_count h, records_offset = records_offset h, records_len = records_len h,
      offsets_offset = offsets_offset h, offsets_len = offsets_len h, trace_index_offset = trace_index_offset h,
      trace_index_len = trace_index_len h, attribute_index_offset = attribute_index_offset h,
      attribute_index_len = attribute_index_len h, timestamps = timestamps h, content = content h,
      directory_offset = directory_offset h, directory_len = directory_len h,
      records_logical_len = records_logical_len h\<rparr> = h" using v by simp
  have ai': "fst (content h) - attribute_index_offset h = attribute_index_len h" "\<not> fst (content h) < attribute_index_offset h"
    and co': "tot - fst (content h) = snd (content h)" "\<not> tot < fst (content h)" using ai co by simp_all
  have "validate_total h tot = Inr ()"
    using validate_total_iff [OF assms(2) w(12)] t assms(4) v hl by simp
  then show ?thesis
    unfolding parse_with_total_def Let_def
    by (simp add: f m hl le_u16_u16_le unat_of_nat_u64 [OF w(1)] unat_of_nat_u64 [OF w(2)] unat_of_nat_u64 [OF w(3)]
        unat_of_nat_u64 [OF w(4)] unat_of_nat_u64 [OF w(5)] unat_of_nat_u64 [OF w(6)] unat_of_nat_u64 [OF w(7)]
        unat_of_nat_u64 [OF w(8)] unat_of_nat_u64 [OF w(9)] unat_of_nat_u64 [OF w(10)] unat_of_nat_u64 [OF w(11)]
        unat_of_nat_u64 [OF w(12)] ai' co' h HEADER_LEN_def [THEN arg_cong, of "\<lambda>n. n - 4"])
qed

end
