(* ===== verification/Segment_Carve.thy ===== *)
theory Segment_Carve
  imports Segment_Records
begin

text \<open>
  What \<open>carve_blocks\<close> produces, for records whose encodings are \<open>encs\<close>: the region is cut into runs of
  whole records, every block stays inside the format's bounds, and the directory written for the blocks
  passes every check the open makes of it.
\<close>

section \<open>Cuts\<close>

text \<open>The runs \<open>[start, end)\<close> of record ordinals the loop of \<open>carve_blocks\<close> cuts.\<close>

function cuts :: "nat list \<Rightarrow> nat \<Rightarrow> nat \<Rightarrow> (nat \<times> nat) list" where
  "cuts offsets region_len start =
     (if start < length offsets
      then (let e = block_end offsets region_len (offsets ! start) (start + 1) in (start, e) # cuts offsets region_len e)
      else [])"
  by pat_completeness auto
termination
proof (relation "measure (\<lambda>(offsets, region_len, start). length offsets - start)", simp)
  fix offsets region_len start x
  assume "start < length offsets" "x = block_end offsets region_len (offsets ! start) (start + 1)"
  then show "((offsets, region_len, x), (offsets, region_len, start)) \<in> measure (\<lambda>(offsets, region_len, start). length offsets - start)"
    using block_end_ge [of "start + 1" offsets region_len "offsets ! start"] by simp
qed

declare cuts.simps [simp del]

definition block_bytes :: "bytes list \<Rightarrow> nat \<times> nat \<Rightarrow> bytes" where
  "block_bytes encs c = concat (drop (fst c) (take (snd c) encs))"

fun entries_of :: "(bytes \<Rightarrow> bytes) \<Rightarrow> codec \<Rightarrow> bytes list \<Rightarrow> u64 list \<Rightarrow> nat \<Rightarrow> (nat \<times> nat) list \<Rightarrow> block_entry list" where
  "entries_of compress codec encs tss off [] = []"
| "entries_of compress codec encs tss off (c # cs) =
     (let (stored, raw) = store_block compress codec (block_bytes encs c) in
      \<lparr>logical_start = psum encs (fst c), stored_offset = off, stored_len = of_nat (length stored), be_raw = raw,
       be_crc32 = crc32 stored, min_timestamp = tss ! fst c\<rparr>
        # entries_of compress codec encs tss (off + length stored) cs)"

definition stored_bytes :: "(bytes \<Rightarrow> bytes) \<Rightarrow> codec \<Rightarrow> bytes list \<Rightarrow> nat \<times> nat \<Rightarrow> bytes" where
  "stored_bytes compress codec encs c = fst (store_block compress codec (block_bytes encs c))"

fun chained :: "bytes list \<Rightarrow> nat \<Rightarrow> (nat \<times> nat) list \<Rightarrow> bool" where
  "chained encs start [] = (start = length encs)"
| "chained encs start (c # cs) =
     (fst c = start \<and> start < snd c \<and> snd c \<le> length encs
      \<and> (snd c = start + 1 \<or> psum encs (snd c) - psum encs start \<le> COMPRESSION_BLOCK_BYTES)
      \<and> chained encs (snd c) cs)"

lemma block_end_bounds:
  "end' \<le> length encs \<Longrightarrow> s < end' \<Longrightarrow> end' = s + 1 \<or> psum encs end' - psum encs s \<le> COMPRESSION_BLOCK_BYTES \<Longrightarrow>
   (let e = block_end (starts encs) (length (concat encs)) (psum encs s) end' in
      s < e \<and> e \<le> length encs \<and> (e = s + 1 \<or> psum encs e - psum encs s \<le> COMPRESSION_BLOCK_BYTES))"
proof (induction "length encs - end'" arbitrary: end')
  case 0
  then show ?case by (subst block_end.simps) (simp add: Let_def)
next
  case (Suc d)
  show ?case
  proof (cases "end' < length encs \<and> psum encs (Suc end') - psum encs s \<le> COMPRESSION_BLOCK_BYTES")
    case True
    then have step: "block_end (starts encs) (length (concat encs)) (psum encs s) end' =
        block_end (starts encs) (length (concat encs)) (psum encs s) (end' + 1)"
      by (subst block_end.simps) (simp add: record_end_starts)
    show ?thesis unfolding step using Suc True by (intro Suc.hyps) auto
  next
    case False
    then have "block_end (starts encs) (length (concat encs)) (psum encs s) end' = end'"
      using Suc.prems by (subst block_end.simps) (auto simp: record_end_starts)
    with Suc.prems show ?thesis by (simp add: Let_def)
  qed
qed

lemma cuts_chained: "s \<le> length encs \<Longrightarrow> chained encs s (cuts (starts encs) (length (concat encs)) s)"
proof (induction "length encs - s" arbitrary: s rule: less_induct)
  case less
  show ?case
  proof (cases "s < length encs")
    case True
    let ?e = "block_end (starts encs) (length (concat encs)) (psum encs s) (s + 1)"
    have e: "s < ?e" "?e \<le> length encs" "?e = s + 1 \<or> psum encs ?e - psum encs s \<le> COMPRESSION_BLOCK_BYTES"
      using block_end_bounds [of "s + 1" encs s] True by (simp_all add: Let_def)
    then have "chained encs ?e (cuts (starts encs) (length (concat encs)) ?e)" using True by (intro less) simp_all
    moreover have "cuts (starts encs) (length (concat encs)) s = (s, ?e) # cuts (starts encs) (length (concat encs)) ?e"
      using True by (subst cuts.simps) (simp add: Let_def)
    ultimately show ?thesis using e by simp
  next
    case False
    with less.prems show ?thesis by (subst cuts.simps) simp
  qed
qed

lemma carve_loop_cuts:
  "s \<le> length encs \<Longrightarrow>
   carve_loop compress codec (concat encs) (starts encs) tss s stored dir =
     (stored @ concat (map (stored_bytes compress codec encs) (cuts (starts encs) (length (concat encs)) s)),
      dir @ entries_of compress codec encs tss (length stored) (cuts (starts encs) (length (concat encs)) s))"
proof (induction "length encs - s" arbitrary: s stored dir rule: less_induct)
  case less
  show ?case
  proof (cases "s < length encs")
    case True
    let ?e = "block_end (starts encs) (length (concat encs)) (psum encs s) (s + 1)"
    let ?sb = "store_block compress codec (block_bytes encs (s, ?e))"
    have e: "s < ?e" "?e \<le> length encs"
      using block_end_bounds [of "s + 1" encs s] True by (simp_all add: Let_def)
    have cut: "cuts (starts encs) (length (concat encs)) s = (s, ?e) # cuts (starts encs) (length (concat encs)) ?e"
      using True by (subst cuts.simps) (simp add: Let_def)
    have "record_end (starts encs) (length (concat encs)) (?e - 1) = psum encs ?e"
      using e by (subst record_end_starts) simp_all
    then have raw: "bytes_at (psum encs s) (record_end (starts encs) (length (concat encs)) (?e - 1) - psum encs s) (concat encs)
        = block_bytes encs (s, ?e)"
      using e by (simp add: region_slice block_bytes_def)
    have "carve_loop compress codec (concat encs) (starts encs) tss s stored dir =
        carve_loop compress codec (concat encs) (starts encs) tss ?e (stored @ fst ?sb)
          (dir @ [\<lparr>logical_start = psum encs s, stored_offset = length stored, stored_len = of_nat (length (fst ?sb)),
                   be_raw = snd ?sb, be_crc32 = crc32 (fst ?sb), min_timestamp = tss ! s\<rparr>])"
      using True raw by (subst carve_loop.simps) (simp add: Let_def case_prod_beta)
    also have "\<dots> = (stored @ concat (map (stored_bytes compress codec encs) (cuts (starts encs) (length (concat encs)) s)),
      dir @ entries_of compress codec encs tss (length stored) (cuts (starts encs) (length (concat encs)) s))"
      using less.hyps [of ?e] e True by (simp add: cut stored_bytes_def case_prod_beta)
    finally show ?thesis .
  next
    case False
    then show ?thesis by (subst carve_loop.simps, subst (1 2) cuts.simps) simp
  qed
qed

section \<open>The directory of the blocks\<close>

text \<open>The encodings of records the encoder accepts: none empty, none of \<open>2 ^ 31\<close> bytes, the whole region
  in memory; and their timestamps ascend.\<close>

definition region_ok :: "bytes list \<Rightarrow> u64 list \<Rightarrow> bool" where
  "region_ok encs tss \<longleftrightarrow>
     list_all (\<lambda>e. e \<noteq> [] \<and> length e < 2 ^ 31) encs \<and> length (concat encs) \<le> isize_max
     \<and> length tss = length encs \<and> sorted_wrt (\<le>) tss"

lemma region_nonempty: "region_ok encs tss \<Longrightarrow> list_all (\<lambda>e. e \<noteq> []) encs"
  by (simp add: region_ok_def list_all_iff)

lemma length_block: "s \<le> e \<Longrightarrow> e \<le> length encs \<Longrightarrow> length (block_bytes encs (s, e)) = psum encs e - psum encs s"
proof -
  assume "s \<le> e" "e \<le> length encs"
  then have "take s (take e encs) = take s encs" by (simp add: min_absorb1)
  then have "psum encs e = psum encs s + length (block_bytes encs (s, e))"
    unfolding psum_def block_bytes_def by (metis append_take_drop_id concat_append fst_conv length_append snd_conv)
  then show ?thesis by simp
qed

lemma chained_extent:
  assumes "region_ok encs tss" and "chained encs s (c # cs)"
  shows "0 < psum encs (snd c) - psum encs s" and "psum encs (snd c) - psum encs s < 2 ^ 31"
    and "length (block_bytes encs c) = psum encs (snd c) - psum encs s"
proof -
  from assms(2) have c: "fst c = s" "s < snd c" "snd c \<le> length encs"
    "snd c = s + 1 \<or> psum encs (snd c) - psum encs s \<le> COMPRESSION_BLOCK_BYTES" by simp_all
  show "0 < psum encs (snd c) - psum encs s"
    using psum_strict [OF region_nonempty [OF assms(1)] c(2,3)] by simp
  show "length (block_bytes encs c) = psum encs (snd c) - psum encs s"
    using length_block [of s "snd c" encs] c by (cases c) simp
  show "psum encs (snd c) - psum encs s < 2 ^ 31"
  proof (cases "snd c = s + 1")
    case True
    then have "psum encs (snd c) - psum encs s = length (encs ! s)" using c by (simp add: psum_Suc)
    then show ?thesis using assms(1) c by (simp add: region_ok_def list_all_length)
  next
    case False
    with c(4) show ?thesis by (simp add: COMPRESSION_BLOCK_BYTES_def)
  qed
qed

lemma store_block_cases:
  assumes "lz4_block compress decompress" and "store_block compress codec b = (stored, raw)" and "b \<noteq> []"
  shows "stored \<noteq> []" and "length stored \<le> length b" and "raw \<Longrightarrow> stored = b"
    and "\<not> raw \<Longrightarrow> codec = Lz4 \<and> decompress stored (length b) = Some b \<and> length b \<le> length stored * 256 + 64"
  using assms by (auto simp: store_block_def lz4_block_def Let_def mult.commute split: codec.splits if_splits)

text \<open>The stored-length word.\<close>

lemma flag_bits:
  assumes "unat l < 2 ^ 31"
  shows "(l OR STORED_RAW_FLAG) AND NOT STORED_RAW_FLAG = l" and "(l OR STORED_RAW_FLAG) AND STORED_RAW_FLAG \<noteq> 0"
    and "l AND NOT STORED_RAW_FLAG = l" and "l AND STORED_RAW_FLAG = 0"
proof -
  have flag: "STORED_RAW_FLAG = 2 ^ 31" by (simp add: STORED_RAW_FLAG_def)
  have l31: "\<not> bit l 31"
  proof
    assume "bit l 31"
    then have "bit (unat l) 31" by (simp add: bit_unsigned_iff bit_imp_possible_bit)
    moreover have "unat l div 2 ^ 31 = 0" using assms by simp
    ultimately show False by (simp add: bit_iff_odd)
  qed
  have fb: "bit STORED_RAW_FLAG n \<longleftrightarrow> n = 31" for n
    unfolding flag bit_exp_iff by (auto simp: possible_bit_word)
  show "(l OR STORED_RAW_FLAG) AND NOT STORED_RAW_FLAG = l"
    by (rule bit_word_eqI) (use l31 in \<open>auto simp: bit_and_iff bit_or_iff bit_not_iff fb possible_bit_word\<close>)
  show "l AND NOT STORED_RAW_FLAG = l"
    by (rule bit_word_eqI) (use l31 in \<open>auto simp: bit_and_iff bit_or_iff bit_not_iff fb possible_bit_word\<close>)
  show "l AND STORED_RAW_FLAG = 0"
    by (rule bit_word_eqI) (use l31 in \<open>auto simp: bit_and_iff fb\<close>)
  have "bit ((l OR STORED_RAW_FLAG) AND STORED_RAW_FLAG) 31" by (simp add: bit_and_iff bit_or_iff fb)
  then show "(l OR STORED_RAW_FLAG) AND STORED_RAW_FLAG \<noteq> 0" by auto
qed

definition entry_ok :: "block_entry \<Rightarrow> bool" where
  "entry_ok e \<longleftrightarrow> logical_start e \<le> isize_max \<and> stored_offset e \<le> isize_max \<and> unat (stored_len e) < 2 ^ 31"

lemma parse_entry:
  assumes "entry_ok e"
  shows "unat (le_u64 (bytes_at 0 8 (put_entry e @ rest))) = logical_start e"
    and "unat (le_u64 (bytes_at 8 8 (put_entry e @ rest))) = stored_offset e"
    and "le_u32 (bytes_at 16 4 (put_entry e @ rest)) = stored_len_word e"
    and "le_u32 (bytes_at 20 4 (put_entry e @ rest)) = be_crc32 e"
    and "le_u64 (bytes_at 24 8 (put_entry e @ rest)) = min_timestamp e"
    and "stored_len_word e AND NOT STORED_RAW_FLAG = stored_len e"
    and "(stored_len_word e AND STORED_RAW_FLAG \<noteq> 0) = be_raw e"
    and "drop DIRECTORY_ENTRY_LEN (put_entry e @ rest) = rest"
proof -
  have l: "unat (stored_len e) < 2 ^ 31" and s: "logical_start e < 2 ^ 64" "stored_offset e < 2 ^ 64"
    using assms by (simp_all add: entry_ok_def)
  show "stored_len_word e AND NOT STORED_RAW_FLAG = stored_len e" "(stored_len_word e AND STORED_RAW_FLAG \<noteq> 0) = be_raw e"
    using flag_bits [OF l] by (simp_all add: stored_len_word_def)
  have "bytes_at 0 8 (put_entry e @ rest) = u64_le (of_nat (logical_start e))"
    "bytes_at 8 8 (put_entry e @ rest) = u64_le (of_nat (stored_offset e))"
    "bytes_at 16 4 (put_entry e @ rest) = u32_le (stored_len_word e)"
    "bytes_at 20 4 (put_entry e @ rest) = u32_le (be_crc32 e)"
    "bytes_at 24 8 (put_entry e @ rest) = u64_le (min_timestamp e)"
    by (simp_all add: bytes_at_def put_entry_def)
  then show "unat (le_u64 (bytes_at 0 8 (put_entry e @ rest))) = logical_start e"
    "unat (le_u64 (bytes_at 8 8 (put_entry e @ rest))) = stored_offset e"
    "le_u32 (bytes_at 16 4 (put_entry e @ rest)) = stored_len_word e"
    "le_u32 (bytes_at 20 4 (put_entry e @ rest)) = be_crc32 e"
    "le_u64 (bytes_at 24 8 (put_entry e @ rest)) = min_timestamp e"
    using s by (simp_all add: unat_of_nat_u64)
qed (simp add: put_entry_def DIRECTORY_ENTRY_LEN_def)

lemma length_put_entry [simp, len_simps]: "length (put_entry e) = 32"
  by (simp add: put_entry_def)

lemma decode_entries_put:
  assumes "entry_ok e" and "stored_len e \<noteq> 0" and "logical_start e < rll" and "stored_offset e = tot"
    and "tot + unat (stored_len e) \<le> isize_max"
    and "case prev of None \<Rightarrow> logical_start e = 0
         | Some p \<Rightarrow> logical_start p < logical_start e \<and> min_timestamp p \<le> min_timestamp e"
    and "decode_entries rll n rest (tot + unat (stored_len e)) (Some e) = Inr (es, tot')"
  shows "decode_entries rll (Suc n) (put_entry e @ rest) tot prev = Inr (e # es, tot')"
proof -
  have entry: "\<lparr>logical_start = logical_start e, stored_offset = stored_offset e, stored_len = stored_len e,
      be_raw = be_raw e, be_crc32 = be_crc32 e, min_timestamp = min_timestamp e\<rparr> = e" by simp
  have "u64_checked_add tot (unat (stored_len e)) = Some (tot + unat (stored_len e))"
    using assms(5) by (simp add: u64_checked_add_def)
  then show ?thesis
    unfolding decode_entries.simps Let_def parse_entry [OF assms(1)] entry
    using assms(2-4,6,7) by (auto split: option.splits)
qed

lemma decode_entries_blocks:
  assumes lz: "lz4_block compress decompress" and ok: "region_ok encs tss"
  shows "chained encs s cs \<Longrightarrow>
    off + length (concat (map (stored_bytes compress codec encs) cs)) \<le> isize_max \<Longrightarrow>
    (case prev of None \<Rightarrow> s = 0
     | Some p \<Rightarrow> logical_start p < psum encs s \<and> (s < length encs \<longrightarrow> min_timestamp p \<le> tss ! s)) \<Longrightarrow>
    decode_entries (length (concat encs)) (length cs) (concat (map put_entry (entries_of compress codec encs tss off cs)))
        off prev
      = Inr (entries_of compress codec encs tss off cs,
             off + length (concat (map (stored_bytes compress codec encs) cs)))"
proof (induction cs arbitrary: s off prev)
  case (Cons c cs)
  let ?b = "block_bytes encs c"
  obtain stored raw where sb: "store_block compress codec ?b = (stored, raw)" by (cases "store_block compress codec ?b")
  have c: "fst c = s" "s < snd c" "snd c \<le> length encs" using Cons.prems(1) by simp_all
  note ext = chained_extent [OF ok Cons.prems(1)]
  have ne: "?b \<noteq> []" using ext by auto
  note st = store_block_cases [OF lz sb ne]
  have len: "length stored < 2 ^ 31" using st(2) ext by simp
  then have slen: "unat (of_nat (length stored) :: u32) = length stored" by (intro unat_of_nat_u32) simp
  have sbytes: "stored_bytes compress codec encs c = stored" by (simp add: stored_bytes_def sb)
  have total: "psum encs s < length (concat encs)"
    using psum_strict [OF region_nonempty [OF ok], of s "length encs"] c by (simp add: psum_all)
  have mem: "length (concat encs) \<le> isize_max" using ok by (simp add: region_ok_def)
  let ?e = "\<lparr>logical_start = psum encs (fst c), stored_offset = off, stored_len = of_nat (length stored), be_raw = raw,
       be_crc32 = crc32 stored, min_timestamp = tss ! fst c\<rparr>"
  have "entry_ok ?e" using c total mem Cons.prems(2) len slen by (simp add: entry_ok_def)
  moreover have "stored_len ?e \<noteq> 0" using st(1) slen by (metis block_entry.select_convs(3) length_0_conv unat_0)
  moreover have "decode_entries (length (concat encs)) (length cs)
      (concat (map put_entry (entries_of compress codec encs tss (off + length stored) cs))) (off + length stored) (Some ?e)
    = Inr (entries_of compress codec encs tss (off + length stored) cs,
        off + length stored + length (concat (map (stored_bytes compress codec encs) cs)))"
  proof (rule Cons.IH [of "snd c"])
    show "chained encs (snd c) cs" using Cons.prems(1) by simp
    have "psum encs s < psum encs (snd c)" using psum_strict [OF region_nonempty [OF ok]] c by simp
    moreover have "tss ! s \<le> tss ! snd c" if "snd c < length encs"
      using ok c that by (auto simp: region_ok_def sorted_wrt_iff_nth_less)
    ultimately show "case Some ?e of None \<Rightarrow> snd c = 0
      | Some p \<Rightarrow> logical_start p < psum encs (snd c) \<and> (snd c < length encs \<longrightarrow> min_timestamp p \<le> tss ! snd c)"
      using c by simp
  qed (use Cons.prems(2) sbytes in simp)
  ultimately have "decode_entries (length (concat encs)) (Suc (length cs))
      (put_entry ?e @ concat (map put_entry (entries_of compress codec encs tss (off + length stored) cs))) off prev
    = Inr (?e # entries_of compress codec encs tss (off + length stored) cs,
        off + length stored + length (concat (map (stored_bytes compress codec encs) cs)))"
    using c total slen Cons.prems(2,3) sbytes
    by (intro decode_entries_put) (auto split: option.splits)
  then show ?case using sb sbytes by (simp add: Let_def add.assoc)
qed simp

lemma length_entries_of [simp]: "length (entries_of compress codec encs tss off cs) = length cs"
  by (induction cs arbitrary: off) (simp_all add: case_prod_beta Let_def)

lemma block_logical_end_entries:
  "chained encs s cs \<Longrightarrow>
    block_logical_end (length (concat encs)) (entries_of compress codec encs tss off cs) = psum encs s"
  by (cases cs) (auto simp: case_prod_beta Let_def psum_all)

lemma raw_lengths_blocks:
  assumes lz: "lz4_block compress decompress" and ok: "region_ok encs tss"
  shows "chained encs s cs \<Longrightarrow> raw_lengths_agree (length (concat encs)) (entries_of compress codec encs tss off cs)"
proof (induction cs arbitrary: s off)
  case (Cons c cs)
  let ?b = "block_bytes encs c"
  obtain stored raw where sb: "store_block compress codec ?b = (stored, raw)" by (cases "store_block compress codec ?b")
  note ext = chained_extent [OF ok Cons.prems]
  have ne: "?b \<noteq> []" using ext by auto
  note st = store_block_cases [OF lz sb ne]
  have "unat (of_nat (length stored) :: u32) = length stored"
    using st(2) ext by (intro unat_of_nat_u32) simp
  moreover have "chained encs (snd c) cs" "fst c = s" using Cons.prems by simp_all
  ultimately show ?case
    using Cons.IH [of "snd c"] st(3) ext(3) sb block_logical_end_entries [of encs "snd c" cs]
    by (simp add: Let_def)
qed simp

lemma find_starts_blocks:
  assumes ok: "region_ok encs tss"
  shows "chained encs s cs \<Longrightarrow> find_starts (starts encs) (entries_of compress codec encs tss off cs) = Inr (map fst cs)"
proof (induction cs arbitrary: s off)
  case (Cons c cs)
  have c: "fst c = s" "s < length encs" using Cons.prems by simp_all
  then have "binary_search (starts encs) (psum encs (fst c)) = Some (fst c)"
    using binary_search_nth [OF starts_sorted [OF region_nonempty [OF ok]], of s] by simp
  moreover have "chained encs (snd c) cs" using Cons.prems by simp
  ultimately show ?case using Cons.IH [of "snd c"] by (simp add: Let_def case_prod_beta)
qed simp

lemma extents_blocks:
  assumes lz: "lz4_block compress decompress" and ok: "region_ok encs tss"
  shows "chained encs s cs \<Longrightarrow>
    extents_legal (length (concat encs)) (length encs) (map fst cs) (entries_of compress codec encs tss off cs) = Inr ()"
proof (induction cs arbitrary: s off)
  case (Cons c cs)
  let ?b = "block_bytes encs c"
  obtain stored raw where sb: "store_block compress codec ?b = (stored, raw)" by (cases "store_block compress codec ?b")
  note ext = chained_extent [OF ok Cons.prems]
  have ne: "?b \<noteq> []" using ext by auto
  note st = store_block_cases [OF lz sb ne]
  have slen: "unat (of_nat (length stored) :: u32) = length stored"
    using st(2) ext by (intro unat_of_nat_u32) simp
  have ch: "chained encs (snd c) cs" and c: "fst c = s" "s < snd c"
    "snd c = s + 1 \<or> psum encs (snd c) - psum encs s \<le> COMPRESSION_BLOCK_BYTES" using Cons.prems by simp_all
  have nx: "(case map fst cs of [] \<Rightarrow> length encs | n # _ \<Rightarrow> n) = snd c"
    using ch by (cases cs) simp_all
  have "block_logical_end (length (concat encs)) (entries_of compress codec encs tss (off + length stored) cs) = psum encs (snd c)"
    using ch by (rule block_logical_end_entries)
  then show ?case
    using Cons.IH [OF ch] nx c ext st(4) slen sb by (auto simp: Let_def not_less)
qed simp

end
