(* ===== verification/Segment_File.thy ===== *)
theory Segment_File
  imports Segment_Header Segment_Carve "HOL-Library.Product_Lexorder"
begin

text \<open>
  A whole segment (\<open>src/src/segment.rs\<close>): \<open>encode_with_codec\<close>, the lazy open \<open>open_backing\<close>, and the reads
  and queries of an open segment. The backing is the bytes of the file, which never change once the
  segment is published. The decoded-block cache and the walk memo only repeat results of
  \<open>decoded_block\<close>, a function of those bytes, so they are not part of the state.
\<close>

section \<open>Encoding\<close>

text \<open>\<open>BTreeMap::entry(k).or_default().push(v)\<close> on the map's list of entries in key order.\<close>

fun bt_push :: "'k::linorder \<Rightarrow> 'v \<Rightarrow> ('k \<times> 'v list) list \<Rightarrow> ('k \<times> 'v list) list" where
  "bt_push k v [] = [(k, [v])]"
| "bt_push k v ((k', vs) # m) =
     (if k = k' then (k', vs @ [v]) # m
      else if k < k' then (k, [v]) # (k', vs) # m
      else (k', vs) # bt_push k v m)"

definition attribute_keys :: "record_input list \<Rightarrow> bytes list" where
  "attribute_keys records = remdups_adj (sort (concat (map (\<lambda>r. map fst (ri_attributes r)) records)))"

definition key_id_of :: "bytes list \<Rightarrow> bytes \<Rightarrow> u32" where
  "key_id_of keys key = of_nat (the (binary_search keys key))"

definition record_pairs :: "bytes list \<Rightarrow> record_input \<Rightarrow> (u32 \<times> bytes) list" where
  "record_pairs keys r = map (\<lambda>(key, value). (key_id_of keys key, hash_attribute key value)) (ri_attributes r)"

type_synonym trace_entries = "(bytes \<times> postings) list"
type_synonym attribute_entries = "((u32 \<times> bytes) \<times> postings) list"

fun encode_records ::
  "bytes list \<Rightarrow> record_input list \<Rightarrow> bytes \<Rightarrow> u64 list \<Rightarrow> trace_entries \<Rightarrow> attribute_entries
    \<Rightarrow> seg_error + (bytes \<times> u64 list \<times> trace_entries \<times> attribute_entries)" where
  "encode_records keys [] region offsets trace_index attribute_index =
     Inr (region, offsets, trace_index, attribute_index)"
| "encode_records keys (r # records) region offsets trace_index attribute_index =
     (let offset = (of_nat (length region) :: u64); pairs = record_pairs keys r in
      and_then (encode_record r pairs) (\<lambda>bs.
        if length bs \<ge> 2 ^ 31 then Inl (TooLarge ''record encoding'')
        else encode_records keys records (region @ bs) (offsets @ [offset])
               (bt_push (ri_trace_id r) offset trace_index)
               (fold (\<lambda>pair. bt_push pair offset) pairs attribute_index)))"

definition timestamp_range :: "record_input list \<Rightarrow> u64 \<times> u64" where
  "timestamp_range records =
     fold (\<lambda>r (lo, hi). (min lo (ri_timestamp r), max hi (ri_timestamp r))) records (- 1, 0)"

text \<open>The buffers \<open>encode_with_codec\<close> builds before it lays the file out: the records in timestamp order,
  the key dictionary, the record region with its offsets, the stored blocks, and the bodies of the
  sections.\<close>

record parts =
  p_records :: "record_input list"
  p_keys :: "bytes list"
  p_region :: bytes
  p_offsets :: "u64 list"
  p_stored :: bytes
  p_directory :: bytes
  p_trace :: trace_entries
  p_attributes :: attribute_entries
  p_content :: bytes

definition build_parts ::
  "(bytes \<Rightarrow> bytes) \<Rightarrow> record_input list \<Rightarrow> bool \<Rightarrow> codec \<Rightarrow> seg_error + parts" where
  "build_parts compress records content_index codec =
     (let records = sort_key ri_timestamp records; keys = attribute_keys records in
      and_then (encode_records keys records [] [] [] []) (\<lambda>(record_region, offsets, trace_index, attribute_index).
        let (stored_region, directory_body) =
              carve_blocks compress record_region (map unat offsets) (map ri_timestamp records) codec
        in Inr \<lparr>p_records = records, p_keys = keys, p_region = record_region, p_offsets = offsets,
                 p_stored = stored_region, p_directory = directory_body, p_trace = trace_index,
                 p_attributes = attribute_index,
                 p_content = (if content_index then encode_content_index (map ri_content records)
                              else encode_content_index [])\<rparr>))"

definition header_of :: "(bytes \<Rightarrow> bytes) \<Rightarrow> codec \<Rightarrow> parts \<Rightarrow> header" where
  "header_of compress codec p =
     (let directory_region = wrap_section compress (p_directory p) codec;
          offset_region = wrap_section compress (encode_offsets_body (p_offsets p)) codec;
          trace_region = wrap_section compress (encode_trace_index (p_trace p)) codec;
          attribute_region = wrap_section compress (encode_attribute_index (p_keys p) (p_attributes p)) codec;
          content_region = wrap_section compress (p_content p) Raw;
          directory_offset = HEADER_LEN + length (p_stored p);
          offsets_offset = directory_offset + length directory_region;
          trace_index_offset = offsets_offset + length offset_region;
          attribute_index_offset = trace_index_offset + length trace_region;
          content_index_offset = attribute_index_offset + length attribute_region
      in \<lparr>h_version = VERSION, h_header_len = of_nat HEADER_LEN, h_codec = codec,
          record_count = length (p_records p), records_offset = HEADER_LEN, records_len = length (p_stored p),
          offsets_offset = offsets_offset, offsets_len = length offset_region,
          trace_index_offset = trace_index_offset, trace_index_len = length trace_region,
          attribute_index_offset = attribute_index_offset, attribute_index_len = length attribute_region,
          timestamps = timestamp_range (p_records p), content = (content_index_offset, length content_region),
          directory_offset = directory_offset, directory_len = length directory_region,
          records_logical_len = length (p_region p)\<rparr>)"

definition assemble :: "(bytes \<Rightarrow> bytes) \<Rightarrow> codec \<Rightarrow> parts \<Rightarrow> bytes" where
  "assemble compress codec p =
     put_header (header_of compress codec p) @ p_stored p @ wrap_section compress (p_directory p) codec
       @ wrap_section compress (encode_offsets_body (p_offsets p)) codec
       @ wrap_section compress (encode_trace_index (p_trace p)) codec
       @ wrap_section compress (encode_attribute_index (p_keys p) (p_attributes p)) codec
       @ wrap_section compress (p_content p) Raw"

definition encode_with_codec ::
  "(bytes \<Rightarrow> bytes) \<Rightarrow> record_input list \<Rightarrow> bool \<Rightarrow> codec \<Rightarrow> seg_error + bytes" where
  "encode_with_codec compress records content_index codec =
     and_then (build_parts compress records content_index codec) (\<lambda>p. Inr (assemble compress codec p))"

section \<open>An open segment\<close>

record segment =
  s_backing :: bytes
  s_header :: header
  s_record_offsets :: "u64 list"
  s_directory :: "block_entry list"
  s_block_start_ordinals :: "nat list"
  s_trace_index :: "bytes \<rightharpoonup> postings"
  s_attribute_index :: attribute_index
  s_content :: "content_index option"

abbreviation logical_offsets :: "segment \<Rightarrow> nat list" where
  "logical_offsets s \<equiv> map unat (s_record_offsets s)"

definition block_containing :: "segment \<Rightarrow> nat \<Rightarrow> seg_error + nat" where
  "block_containing s logical =
     (let n = partition_point (\<lambda>e. logical_start e \<le> logical) (s_directory s) in
      if n = 0 then Inl (Corrupt ''offset precedes the first block'') else Inr (n - 1))"

definition block_end_of :: "segment \<Rightarrow> nat \<Rightarrow> nat" where
  "block_end_of s block = block_logical_end (records_logical_len (s_header s)) (drop (block + 1) (s_directory s))"

definition decoded_block :: "(bytes \<Rightarrow> nat \<Rightarrow> bytes option) \<Rightarrow> segment \<Rightarrow> nat \<Rightarrow> seg_error + bytes" where
  "decoded_block decompress s block =
     (if length (s_directory s) \<le> block then Inl (Corrupt ''block index out of range'')
      else
        let entry = s_directory s ! block in
        and_then (ok_or (u64_checked_add (records_offset (s_header s)) (stored_offset entry)) (Corrupt ''block offset overflow''))
          (\<lambda>absolute.
            and_then (read_range (s_backing s) absolute (unat (stored_len entry))) (\<lambda>stored.
              if crc32 stored \<noteq> be_crc32 entry then Inl (Corrupt ''block crc32 mismatch'')
              else
                let logical_len = block_end_of s block - logical_start entry in
                and_then (if be_raw entry then Inr stored
                          else case h_codec (s_header s) of
                                 Raw \<Rightarrow> Inr stored
                               | Lz4 \<Rightarrow> ok_or (decompress stored logical_len) (Corrupt ''block does not decompress''))
                  (\<lambda>decoded.
                    if length decoded \<noteq> logical_len then Inl (Corrupt ''block decodes to the wrong length'')
                    else
                      and_then (read_u64 decoded 0) (\<lambda>first.
                        if first \<noteq> min_timestamp entry
                        then Inl (Corrupt ''block min timestamp does not match its first record'')
                        else Inr decoded)))))"

definition check_timestamp :: "segment \<Rightarrow> u64 \<Rightarrow> seg_error + unit" where
  "check_timestamp s timestamp =
     (if timestamp < fst (timestamps (s_header s)) \<or> timestamp > snd (timestamps (s_header s))
      then Inl (Corrupt ''record timestamp is outside the header range'') else Inr ())"

definition timestamp_at :: "(bytes \<Rightarrow> nat \<Rightarrow> bytes option) \<Rightarrow> segment \<Rightarrow> nat \<Rightarrow> seg_error + u64" where
  "timestamp_at decompress s offset =
     (if offset \<ge> records_logical_len (s_header s) then Inl (Corrupt ''record offset is outside record region'')
      else
        and_then (block_containing s offset) (\<lambda>block.
        and_then (ok_or (u64_checked_add offset 8) (Corrupt ''record offset overflow'')) (\<lambda>e.
          if e > block_end_of s block then Inl (Corrupt ''record timestamp crosses block bounds'')
          else
            and_then (decoded_block decompress s block) (\<lambda>bs.
            and_then (read_u64 bs (offset - logical_start (s_directory s ! block))) (\<lambda>timestamp.
            and_then (check_timestamp s timestamp) (\<lambda>_. Inr timestamp))))))"

definition decode_at :: "(bytes \<Rightarrow> nat \<Rightarrow> bytes option) \<Rightarrow> segment \<Rightarrow> nat \<Rightarrow> seg_error + stored_record" where
  "decode_at decompress s offset =
     (if offset \<ge> records_logical_len (s_header s) then Inl (Corrupt ''record offset is outside record region'')
      else
        case binary_search (logical_offsets s) offset of
          None \<Rightarrow> Inl (Corrupt ''offset is not a record boundary'')
        | Some position \<Rightarrow>
            let after = (if position + 1 < length (s_record_offsets s)
                         then logical_offsets s ! (position + 1) else records_logical_len (s_header s))
            in if after < offset then Inl (Corrupt ''record length underflow'')
               else
                 let record_len = after - offset in
                 and_then (block_containing s offset) (\<lambda>block.
                 and_then (ok_or (u64_checked_add offset record_len) (Corrupt ''record length overflow'')) (\<lambda>e.
                   if e > block_end_of s block then Inl (Corrupt ''record spans compression blocks'')
                   else
                     and_then (decoded_block decompress s block) (\<lambda>bs.
                       let start = offset - logical_start (s_directory s ! block) in
                       and_then (decode_record bs start (start + record_len)) (\<lambda>record.
                       and_then (check_timestamp s (r_timestamp record)) (\<lambda>_. Inr record))))))"

section \<open>Opening\<close>

definition read_section :: "bytes \<Rightarrow> nat \<Rightarrow> nat \<Rightarrow> seg_error + bytes" where
  "read_section backing offset len =
     (if offset + len > length backing then Inl (Corrupt ''index section outside file'')
      else read_range backing offset len)"

definition open_backing :: "(bytes \<Rightarrow> nat \<Rightarrow> bytes option) \<Rightarrow> bytes \<Rightarrow> seg_error + segment" where
  "open_backing decompress backing =
     (let tot = length backing in
      if tot < HEADER_LEN then Inl (Corrupt ''file is shorter than the header'')
      else
        and_then (read_range backing 0 HEADER_LEN) (\<lambda>head.
        and_then (parse_with_total head tot) (\<lambda>h.
        and_then (read_section backing (offsets_offset h) (offsets_len h)) (\<lambda>offsets_bytes.
        and_then (unwrap_section decompress offsets_bytes True ''record-offset index'') (\<lambda>offsets_body.
        and_then (decode_offsets_body offsets_body (of_nat (record_count h))) (\<lambda>record_offsets.
        and_then (validate_record_offsets (records_logical_len h) (map unat record_offsets)) (\<lambda>_.
        and_then (read_section backing (directory_offset h) (directory_len h)) (\<lambda>directory_bytes.
        and_then (unwrap_section decompress directory_bytes True ''block directory'') (\<lambda>directory_body.
        and_then (decode_directory directory_body (record_count h) (records_len h) (records_logical_len h)) (\<lambda>directory.
        and_then (validate_header_timestamps (timestamps h) directory) (\<lambda>_.
        and_then (block_start_ordinals (records_logical_len h) (map unat record_offsets) directory) (\<lambda>ordinals.
        and_then (read_section backing (trace_index_offset h) (trace_index_len h)) (\<lambda>trace_bytes.
        and_then (unwrap_section decompress trace_bytes True ''trace index'') (\<lambda>trace_body.
        and_then (decode_trace_index trace_body (of_nat (record_count h))) (\<lambda>trace_index.
        and_then (read_section backing (attribute_index_offset h) (attribute_index_len h)) (\<lambda>attribute_bytes.
        and_then (unwrap_section decompress attribute_bytes True ''attribute index'') (\<lambda>attribute_body.
        and_then (decode_attribute_index attribute_body (of_nat (record_count h))) (\<lambda>attribute_index.
        and_then (read_section backing (fst (content h)) (snd (content h))) (\<lambda>content_bytes.
        and_then (unwrap_section decompress content_bytes False ''content index'') (\<lambda>content_body.
        and_then (decode_content_head content_body (fst (content h) + SECTION_WRAPPER_LEN) (length content_body)
                    (record_count h)) (\<lambda>content.
          let s = \<lparr>s_backing = backing, s_header = h, s_record_offsets = record_offsets, s_directory = directory,
                   s_block_start_ordinals = ordinals, s_trace_index = trace_index,
                   s_attribute_index = attribute_index, s_content = content\<rparr>
          in if record_offsets = [] then Inr s
             else
               and_then (decoded_block decompress s 0) (\<lambda>_.
               and_then (timestamp_at decompress s (unat (last record_offsets))) (\<lambda>last_timestamp.
                 if last_timestamp \<noteq> snd (timestamps h)
                 then Inl (Corrupt ''header max timestamp does not match the last record'')
                 else Inr s)))))))))))))))))))))))"

section \<open>Queries\<close>

fun decode_all :: "(bytes \<Rightarrow> nat \<Rightarrow> bytes option) \<Rightarrow> segment \<Rightarrow> u64 list \<Rightarrow> seg_error + stored_record list" where
  "decode_all decompress s [] = Inr []"
| "decode_all decompress s (offset # offsets) =
     and_then (decode_at decompress s (unat offset)) (\<lambda>record.
     and_then (decode_all decompress s offsets) (\<lambda>records. Inr (record # records)))"

definition query_trace :: "(bytes \<Rightarrow> nat \<Rightarrow> bytes option) \<Rightarrow> segment \<Rightarrow> bytes \<Rightarrow> seg_error + stored_record list" where
  "query_trace decompress s trace_id =
     and_then (case s_trace_index s trace_id of None \<Rightarrow> Inr [] | Some offsets \<Rightarrow> decode_all decompress s offsets)
       (\<lambda>records. Inr (sort_key r_timestamp records))"

definition key_id :: "segment \<Rightarrow> bytes \<Rightarrow> u32 option" where
  "key_id s key = ai_key_ids (s_attribute_index s) key"

definition candidates :: "segment \<Rightarrow> bytes \<Rightarrow> bytes \<Rightarrow> u64 list" where
  "candidates s key value =
     (case key_id s key of
        None \<Rightarrow> []
      | Some i \<Rightarrow>
          (case ai_postings (s_attribute_index s) (i, hash_attribute key value) of None \<Rightarrow> [] | Some offsets \<Rightarrow> offsets))"

definition query_attribute ::
  "(bytes \<Rightarrow> nat \<Rightarrow> bytes option) \<Rightarrow> segment \<Rightarrow> bytes \<Rightarrow> bytes \<Rightarrow> seg_error + stored_record list" where
  "query_attribute decompress s key value =
     (case key_id s key of
        None \<Rightarrow> Inr []
      | Some i \<Rightarrow>
          and_then (decode_all decompress s (candidates s key value)) (\<lambda>records.
            Inr (sort_key r_timestamp (filter (\<lambda>r. carries r i (hash_attribute key value)) records))))"

text \<open>The per-record search of \<open>ordinal_range_for_window\<close> inside one block.\<close>

function search_block :: "(bytes \<Rightarrow> nat \<Rightarrow> bytes option) \<Rightarrow> segment \<Rightarrow> u64 \<Rightarrow> nat \<Rightarrow> nat \<Rightarrow> seg_error + nat" where
  "search_block decompress s bound low high =
     (if low < high then
        let mid = low + (high - low) div 2 in
        and_then (timestamp_at decompress s (logical_offsets s ! mid)) (\<lambda>timestamp.
          if timestamp < bound then search_block decompress s bound (mid + 1) high
          else search_block decompress s bound low mid)
      else Inr low)"
  by pat_completeness auto
termination
  by (relation "measure (\<lambda>(d, s, bound, low, high). high - low)") auto

declare search_block.simps [simp del]

definition first_at_or_after :: "(bytes \<Rightarrow> nat \<Rightarrow> bytes option) \<Rightarrow> segment \<Rightarrow> u64 \<Rightarrow> seg_error + nat" where
  "first_at_or_after decompress s bound =
     (let count = length (s_record_offsets s);
          next' = partition_point (\<lambda>e. min_timestamp e < bound) (s_directory s);
          disagree = Corrupt ''block min timestamps disagree with the records''
      in and_then (if next' = 0 then Inr 0
                   else
                     let candidate = next' - 1;
                         high = (if candidate + 1 < length (s_block_start_ordinals s)
                                 then s_block_start_ordinals s ! (candidate + 1) else count)
                     in search_block decompress s bound (s_block_start_ordinals s ! candidate) high)
           (\<lambda>low.
             and_then (if low < count then
                         and_then (timestamp_at decompress s (logical_offsets s ! low)) (\<lambda>t.
                           if t < bound then Inl disagree else Inr ())
                       else Inr ()) (\<lambda>_.
             and_then (if low > 0 then
                         and_then (timestamp_at decompress s (logical_offsets s ! (low - 1))) (\<lambda>t.
                           if t \<ge> bound then Inl disagree else Inr ())
                       else Inr ()) (\<lambda>_. Inr low))))"

definition ordinal_range_for_window ::
  "(bytes \<Rightarrow> nat \<Rightarrow> bytes option) \<Rightarrow> segment \<Rightarrow> u64 option \<Rightarrow> u64 option \<Rightarrow> seg_error + (nat \<times> nat)" where
  "ordinal_range_for_window decompress s since until' =
     and_then (case since of Some bound \<Rightarrow> first_at_or_after decompress s bound | None \<Rightarrow> Inr 0) (\<lambda>start.
     and_then (case until' of
                 Some bound \<Rightarrow>
                   (case checked_add bound 1 of
                      Some exclusive \<Rightarrow> first_at_or_after decompress s exclusive
                    | None \<Rightarrow> Inr (length (s_record_offsets s)))
               | None \<Rightarrow> Inr (length (s_record_offsets s))) (\<lambda>e.
       Inr (start, max e start)))"

definition query_time_range ::
  "(bytes \<Rightarrow> nat \<Rightarrow> bytes option) \<Rightarrow> segment \<Rightarrow> u64 \<Rightarrow> u64 \<Rightarrow> seg_error + stored_record list" where
  "query_time_range decompress s start e =
     (if start > e then Inr []
      else
        and_then (ordinal_range_for_window decompress s (Some start) (Some e)) (\<lambda>(a, b).
          decode_all decompress s (bytes_at a (b - a) (s_record_offsets s))))"

definition may_contain_timestamps :: "segment \<Rightarrow> u64 option \<Rightarrow> u64 option \<Rightarrow> bool" where
  "may_contain_timestamps s since until' =
     (let lo = fst (timestamps (s_header s)); hi = snd (timestamps (s_header s)) in
      if lo > hi then False
      else if (case since of Some t \<Rightarrow> hi < t | None \<Rightarrow> False) then False
      else if (case until' of Some t \<Rightarrow> lo > t | None \<Rightarrow> False) then False
      else True)"

end
