(* ===== verification/Segment_Build.thy ===== *)
theory Segment_Build
  imports Segment_File
begin

text \<open>
  What the encoder's loop accumulates: the encodings of the records in timestamp order, their offsets,
  and the posting lists of the trace and attribute indexes. The maps are characterised by lookup: the
  postings of a key are the offsets of the records that carry it, in record order.
\<close>

section \<open>Pushing postings\<close>

lemma bt_push_keys: "fst ` set (bt_push k v m) = insert k (fst ` set m)"
  by (induction k v m rule: bt_push.induct) auto

lemma bt_push_sorted: "sorted_wrt (<) (map fst m) \<Longrightarrow> sorted_wrt (<) (map fst (bt_push k v m))"
proof (induction k v m rule: bt_push.induct)
  case (2 k v k' vs m)
  show ?case
  proof (cases "k = k' \<or> k < k'")
    case True
    with "2.prems" show ?thesis by auto
  next
    case False
    then have "k' < k" by auto
    moreover have "\<forall>x \<in> fst ` set (bt_push k v m). k' < x"
      using "2.prems" \<open>k' < k\<close> by (auto simp: bt_push_keys)
    ultimately show ?thesis using 2 False by auto
  qed
qed simp

lemma bt_push_lookup:
  "sorted_wrt (<) (map fst m) \<Longrightarrow>
    map_of (bt_push k v m) = (map_of m)(k \<mapsto> (case map_of m k of None \<Rightarrow> [] | Some vs \<Rightarrow> vs) @ [v])"
proof (induction k v m rule: bt_push.induct)
  case (2 k v k' vs m)
  show ?case
  proof (cases "k < k'")
    case True
    then have "k \<notin> fst ` set ((k', vs) # m)" using "2.prems" by auto
    then have "map_of ((k', vs) # m) k = None" by (simp only: map_of_eq_None_iff not_False_eq_True)
    with True show ?thesis by auto
  next
    case False
    with 2 show ?thesis by (auto simp: fun_upd_twist)
  qed
qed simp

definition push_all :: "('k::linorder \<times> 'v) list \<Rightarrow> ('k \<times> 'v list) list \<Rightarrow> ('k \<times> 'v list) list" where
  "push_all kvs m = fold (\<lambda>(k, v). bt_push k v) kvs m"

definition postings_of :: "'k \<Rightarrow> ('k \<times> 'v) list \<Rightarrow> 'v list" where
  "postings_of k kvs = map snd (filter (\<lambda>kv. fst kv = k) kvs)"

lemma push_all_sorted: "sorted_wrt (<) (map fst m) \<Longrightarrow> sorted_wrt (<) (map fst (push_all kvs m))"
  unfolding push_all_def by (induction kvs arbitrary: m) (auto simp: bt_push_sorted)

lemma push_all_lookup:
  "sorted_wrt (<) (map fst m) \<Longrightarrow>
    map_of (push_all kvs m) k =
      (if postings_of k kvs = [] then map_of m k
       else Some ((case map_of m k of None \<Rightarrow> [] | Some vs \<Rightarrow> vs) @ postings_of k kvs))"
proof (induction kvs arbitrary: m)
  case Nil
  then show ?case by (simp add: push_all_def postings_of_def)
next
  case (Cons kv kvs)
  have "push_all (kv # kvs) m = push_all kvs (bt_push (fst kv) (snd kv) m)"
    by (simp add: push_all_def case_prod_beta)
  with Cons.IH [OF bt_push_sorted [OF Cons.prems]] show ?case
    by (auto simp: bt_push_lookup [OF Cons.prems] postings_of_def)
qed

lemma push_all_append: "push_all (xs @ ys) m = push_all ys (push_all xs m)"
  by (simp add: push_all_def)

lemma strict_distinct: "sorted_wrt (<) (xs :: 'a::linorder list) \<Longrightarrow> distinct xs"
  by (induction xs) auto

section \<open>The loop of the encoder\<close>

definition offs :: "nat \<Rightarrow> bytes list \<Rightarrow> u64 list" where
  "offs base encs = map (\<lambda>i. of_nat (base + psum encs i)) [0..<length encs]"

lemma length_offs [simp]: "length (offs base encs) = length encs"
  by (simp add: offs_def)

lemma psum_Cons: "psum (e # encs) (Suc i) = length e + psum encs i"
  by (simp add: psum_def)

lemma offs_Nil [simp]: "offs base [] = []"
  by (simp add: offs_def)

lemma offs_Cons [simp]: "offs base (e # encs) = of_nat base # offs (base + length e) encs"
proof -
  have "[0..<Suc (length encs)] = 0 # map Suc [0..<length encs]" by (metis map_Suc_upt upt_conv_Cons zero_less_Suc)
  then show ?thesis by (simp add: offs_def psum_Cons comp_def add.assoc)
qed

definition trace_pushes :: "record_input list \<Rightarrow> u64 list \<Rightarrow> (bytes \<times> u64) list" where
  "trace_pushes rs os = zip (map ri_trace_id rs) os"

definition pair_pushes :: "bytes list \<Rightarrow> record_input list \<Rightarrow> u64 list \<Rightarrow> ((u32 \<times> bytes) \<times> u64) list" where
  "pair_pushes keys rs os = concat (map (\<lambda>(r, off). map (\<lambda>p. (p, off)) (record_pairs keys r)) (zip rs os))"

definition encoded :: "bytes list \<Rightarrow> record_input list \<Rightarrow> bytes list \<Rightarrow> bool" where
  "encoded keys rs encs \<longleftrightarrow>
     list_all2 (\<lambda>r e. encode_record r (record_pairs keys r) = Inr e \<and> length e < 2 ^ 31) rs encs"

lemma fold_bt_push: "fold (\<lambda>pair. bt_push pair off) ps m = push_all (map (\<lambda>p. (p, off)) ps) m"
  by (induction ps arbitrary: m) (simp_all add: push_all_def)

lemma encode_records_sound:
  "encode_records keys rs region os ti ai = Inr (region', os', ti', ai') \<Longrightarrow>
    \<exists>encs. encoded keys rs encs \<and> region' = region @ concat encs \<and> os' = os @ offs (length region) encs
      \<and> ti' = push_all (trace_pushes rs (offs (length region) encs)) ti
      \<and> ai' = push_all (pair_pushes keys rs (offs (length region) encs)) ai"
proof (induction keys rs region os ti ai rule: encode_records.induct)
  case (1 keys region os ti ai)
  then show ?case
    by (auto simp: encoded_def trace_pushes_def pair_pushes_def push_all_def intro!: exI [of _ "[]"])
next
  case (2 keys r rs region os ti ai)
  let ?off = "of_nat (length region) :: u64" and ?ps = "record_pairs keys r"
  from "2.prems" obtain e where e: "encode_record r ?ps = Inr e" "length e < 2 ^ 31"
    and rest: "encode_records keys rs (region @ e) (os @ [?off]) (bt_push (ri_trace_id r) ?off ti)
        (fold (\<lambda>pair. bt_push pair ?off) ?ps ai) = Inr (region', os', ti', ai')"
    by (auto simp: and_then_Inr Let_def not_le split: if_splits)
  from "2.IH" [OF refl refl _ rest] e(2) obtain encs where encs: "encoded keys rs encs" "region' = (region @ e) @ concat encs"
    "os' = (os @ [?off]) @ offs (length (region @ e)) encs"
    "ti' = push_all (trace_pushes rs (offs (length (region @ e)) encs)) (bt_push (ri_trace_id r) ?off ti)"
    "ai' = push_all (pair_pushes keys rs (offs (length (region @ e)) encs)) (fold (\<lambda>pair. bt_push pair ?off) ?ps ai)"
    by auto
  have "encoded keys (r # rs) (e # encs)" using e encs(1) by (simp add: encoded_def)
  moreover have "trace_pushes (r # rs) (offs (length region) (e # encs))
      = (ri_trace_id r, ?off) # trace_pushes rs (offs (length (region @ e)) encs)"
    by (simp add: trace_pushes_def)
  moreover have "pair_pushes keys (r # rs) (offs (length region) (e # encs))
      = map (\<lambda>p. (p, ?off)) ?ps @ pair_pushes keys rs (offs (length (region @ e)) encs)"
    by (simp add: pair_pushes_def)
  ultimately show ?case
    using encs(2-5)
    by (intro exI [of _ "e # encs"]) (simp add: push_all_append fold_bt_push, simp add: push_all_def)
qed

section \<open>Well-formed input\<close>

text \<open>Strings are UTF-8, and the attributes are a \<open>BTreeMap\<close>: strictly ascending keys.\<close>

definition input_ok :: "record_input list \<Rightarrow> bool" where
  "input_ok rs \<longleftrightarrow>
     list_all (\<lambda>r. utf8_valid (ri_trace_id r) \<and> sorted_wrt (<) (map fst (ri_attributes r))
       \<and> list_all (\<lambda>a. utf8_valid (fst a)) (ri_attributes r)) rs"

lemma remdups_adj_strict: "sorted xs \<Longrightarrow> sorted_wrt (<) (remdups_adj xs)" for xs :: "'a::linorder list"
proof (induction xs rule: remdups_adj.induct)
  case (3 x y xs)
  then have IH: "sorted_wrt (<) (remdups_adj (y # xs))" by (cases "x = y") simp_all
  show ?case
  proof (cases "x = y")
    case False
    then have "\<forall>z \<in> set (y # xs). x < z" using "3.prems" by auto
    with False IH show ?thesis by simp
  qed (use IH in simp)
qed simp_all

lemma attribute_keys_sorted: "sorted_wrt (<) (attribute_keys rs)"
  unfolding attribute_keys_def by (rule remdups_adj_strict) simp

lemma attribute_keys_set: "set (attribute_keys rs) = (\<Union>r \<in> set rs. fst ` set (ri_attributes r))"
  by (auto simp: attribute_keys_def)

lemma key_id_nth:
  assumes "sorted_wrt (<) keys" and "i < length keys"
  shows "key_id_of keys (keys ! i) = of_nat i"
  using binary_search_nth [OF assms] by (simp add: key_id_of_def)

lemma key_id_less:
  assumes "sorted_wrt (<) keys" and "length keys < 2 ^ 32" and "a \<in> set keys" and "b \<in> set keys"
  shows "key_id_of keys a < key_id_of keys b \<longleftrightarrow> a < b"
proof -
  from assms(3,4) obtain i j where i: "i < length keys" "a = keys ! i" and j: "j < length keys" "b = keys ! j"
    by (auto simp: in_set_conv_nth)
  have "keys ! i < keys ! j \<longleftrightarrow> i < j"
    using assms(1) i(1) j(1) by (metis linorder_neqE not_less_iff_gr_or_eq sorted_wrt_iff_nth_less)
  moreover have "(of_nat i :: u32) < of_nat j \<longleftrightarrow> i < j"
    using unat_of_nat_u32 [of i] unat_of_nat_u32 [of j] i(1) j(1) assms(2) by (simp add: word_less_nat_alt)
  ultimately show ?thesis using key_id_nth [OF assms(1)] i j by simp
qed

lemma key_id_lt:
  assumes "sorted_wrt (<) keys" and "length keys < 2 ^ 32" and "a \<in> set keys"
  shows "unat (key_id_of keys a) < length keys" and "keys ! unat (key_id_of keys a) = a"
proof -
  from assms(3) obtain i where i: "i < length keys" "a = keys ! i" by (auto simp: in_set_conv_nth)
  then have "unat (key_id_of keys a) = i"
    using key_id_nth [OF assms(1), of i] unat_of_nat_u32 [of i] assms(2) by simp
  with i show "unat (key_id_of keys a) < length keys" "keys ! unat (key_id_of keys a) = a" by simp_all
qed

lemma record_pairs_ok:
  assumes "sorted_wrt (<) keys" and "length keys < 2 ^ 32" and "fst ` set (ri_attributes r) \<subseteq> set keys"
    and "sorted_wrt (<) (map fst (ri_attributes r))"
  shows "pairs_ok (record_pairs keys r)"
proof -
  have sub: "a \<in> set keys" if "(a, b) \<in> set (ri_attributes r)" for a b using assms(3) that by force
  have "map fst (record_pairs keys r) = map (key_id_of keys) (map fst (ri_attributes r))"
    by (simp add: record_pairs_def comp_def case_prod_beta)
  moreover have "sorted_wrt (<) (map (key_id_of keys) (map fst (ri_attributes r)))"
    using assms(4) unfolding sorted_wrt_map
    by (rule sorted_wrt_mono_rel [rotated]) (use sub key_id_less [OF assms(1,2)] in auto)
  moreover have "list_all (\<lambda>p. length (snd p) = 16) (record_pairs keys r)"
    by (auto simp: record_pairs_def list_all_iff)
  ultimately show ?thesis by (simp add: pairs_ok_def)
qed

section \<open>The postings of the indexes\<close>

text \<open>The offsets of the records that satisfy a predicate, in record order.\<close>

definition offsets_where :: "(record_input \<Rightarrow> bool) \<Rightarrow> record_input list \<Rightarrow> u64 list \<Rightarrow> u64 list" where
  "offsets_where P rs os = map snd (filter (\<lambda>(r, off). P r) (zip rs os))"

lemma offsets_where_sorted:
  assumes "sorted_wrt (<) os"
  shows "sorted_wrt (<) (offsets_where P rs os)"
proof -
  have "sorted_wrt (<) (map snd (zip rs os))"
    using assms by (simp add: map_snd_zip_take sorted_wrt_take)
  then show ?thesis by (simp add: offsets_where_def sorted_wrt_map sorted_wrt_filter)
qed

lemma offsets_where_length: "length (offsets_where P rs os) \<le> length rs"
  unfolding offsets_where_def by (metis length_filter_le length_map length_zip min.bounded_iff)

lemma offsets_where_empty: "length os = length rs \<Longrightarrow> offsets_where P rs os = [] \<longleftrightarrow> \<not> list_ex P rs"
proof (induction rs arbitrary: os)
  case (Cons r rs)
  then obtain o' os' where "os = o' # os'" by (cases os) auto
  with Cons show ?case by (auto simp: offsets_where_def)
qed (simp add: offsets_where_def)

lemma trace_postings: "postings_of t (trace_pushes rs os) = offsets_where (\<lambda>r. ri_trace_id r = t) rs os"
proof (induction rs arbitrary: os)
  case (Cons r rs)
  then show ?case by (cases os) (auto simp: postings_of_def trace_pushes_def offsets_where_def)
qed (simp add: postings_of_def trace_pushes_def offsets_where_def)

lemma postings_of_pairs:
  "distinct ps \<Longrightarrow> postings_of p (map (\<lambda>q. (q, off)) ps) = (if p \<in> set ps then [off] else [])"
  by (induction ps) (auto simp: postings_of_def)

lemma pair_postings:
  "list_all (\<lambda>r. distinct (record_pairs keys r)) rs \<Longrightarrow>
    postings_of p (pair_pushes keys rs os) = offsets_where (\<lambda>r. p \<in> set (record_pairs keys r)) rs os"
proof (induction rs arbitrary: os)
  case (Cons r rs)
  show ?case
  proof (cases os)
    case (Cons o' os')
    have "postings_of p (pair_pushes keys (r # rs) (o' # os'))
        = postings_of p (map (\<lambda>q. (q, o')) (record_pairs keys r)) @ postings_of p (pair_pushes keys rs os')"
      by (simp add: pair_pushes_def postings_of_def)
    with Cons.IH [of os'] Cons.prems Cons show ?thesis by (simp add: postings_of_pairs offsets_where_def)
  qed (simp add: postings_of_def pair_pushes_def offsets_where_def)
qed (simp add: postings_of_def pair_pushes_def offsets_where_def)

lemma pairs_ok_distinct: "pairs_ok ps \<Longrightarrow> distinct ps"
  unfolding pairs_ok_def using strict_distinct distinct_map by blast

lemma push_all_distinct: "distinct (map fst (push_all kvs []))"
  by (rule strict_distinct) (rule push_all_sorted, simp)

lemma push_all_mem:
  "(k, vs) \<in> set (push_all kvs []) \<Longrightarrow> vs = postings_of k kvs \<and> vs \<noteq> []"
proof -
  assume "(k, vs) \<in> set (push_all kvs [])"
  then have "map_of (push_all kvs []) k = Some vs" using push_all_distinct by (rule map_of_is_SomeI [rotated])
  then show ?thesis using push_all_lookup [of "[]" kvs k] by (auto split: if_splits)
qed

lemma push_all_map: "map_of (push_all kvs []) k = (if postings_of k kvs = [] then None else Some (postings_of k kvs))"
  using push_all_lookup [of "[]" kvs k] by simp

lemma postings_of_mem: "postings_of k kvs \<noteq> [] \<Longrightarrow> k \<in> fst ` set kvs"
  by (auto simp: postings_of_def filter_empty_conv)

end
