(* ===== verification/Segment_Open.thy ===== *)
theory Segment_Open
  imports Segment_Build
begin

text \<open>
  Reading what was written: every block of an encoded segment decodes to the records it was cut from,
  every offset of the table decodes to its record, and the lazy open accepts the file and rebuilds the
  indexes.
\<close>

section \<open>A segment that represents a list of records\<close>

text \<open>The directory and the stored blocks are those of the cuts \<open>cs\<close> of the encodings \<open>encs\<close>.\<close>

definition represents ::
  "(bytes \<Rightarrow> bytes) \<Rightarrow> codec \<Rightarrow> bytes list \<Rightarrow> u64 list \<Rightarrow> (nat \<times> nat) list \<Rightarrow> segment \<Rightarrow> bool" where
  "represents compress codec encs tss cs s \<longleftrightarrow>
     s_record_offsets s = offs 0 encs \<and> s_directory s = entries_of compress codec encs tss 0 cs
     \<and> s_block_start_ordinals s = map fst cs \<and> h_codec (s_header s) = codec
     \<and> records_logical_len (s_header s) = length (concat encs)
     \<and> chained encs 0 cs \<and> region_ok encs tss
     \<and> list_all (\<lambda>t. fst (timestamps (s_header s)) \<le> t \<and> t \<le> snd (timestamps (s_header s))) tss
     \<and> list_all2 (\<lambda>e t. take 8 e = u64_le t) encs tss
     \<and> length (s_backing s) \<le> isize_max
     \<and> (\<exists>pre post. s_backing s = pre @ concat (map (stored_bytes compress codec encs) cs) @ post
          \<and> records_offset (s_header s) = length pre)"

lemma psum_le: "psum encs i \<le> length (concat encs)"
  using psum_mono [of i "max i (length encs)" encs] by (simp add: psum_all)

lemma unat_offs:
  assumes "base + length (concat encs) \<le> isize_max"
  shows "map unat (offs base encs) = map (\<lambda>i. base + psum encs i) [0..<length encs]"
proof -
  have "base + psum encs i < 2 ^ 64" for i
    using psum_le [of encs i] assms by simp
  then show ?thesis by (simp add: offs_def unat_of_nat_u64 del: of_nat_add)
qed

lemma represents_offsets: "represents compress codec encs tss cs s \<Longrightarrow> logical_offsets s = starts encs"
  using unat_offs [of 0 encs] by (simp add: represents_def region_ok_def starts_def)

section \<open>Cuts and entries by position\<close>

lemma chained_drop: "chained encs s cs \<Longrightarrow> k < length cs \<Longrightarrow> chained encs (fst (cs ! k)) (drop k cs)"
proof (induction cs arbitrary: s k)
  case (Cons c cs)
  then show ?case by (cases k) auto
qed simp

lemma chained_next: "chained encs s cs \<Longrightarrow> k < length cs \<Longrightarrow> chained encs (snd (cs ! k)) (drop (Suc k) cs)"
  using chained_drop [of encs s cs k] by (simp add: Cons_nth_drop_Suc [symmetric])

lemma entries_drop:
  "drop k (entries_of compress codec encs tss off cs) =
    entries_of compress codec encs tss (off + length (concat (map (stored_bytes compress codec encs) (take k cs)))) (drop k cs)"
proof (induction cs arbitrary: off k)
  case (Cons c cs)
  then show ?case
    by (cases k) (simp_all add: Let_def case_prod_beta stored_bytes_def add.assoc)
qed simp

lemma entry_nth:
  assumes "k < length cs"
  shows "entries_of compress codec encs tss off cs ! k =
    (let (stored, raw) = store_block compress codec (block_bytes encs (cs ! k)) in
      \<lparr>logical_start = psum encs (fst (cs ! k)),
       stored_offset = off + length (concat (map (stored_bytes compress codec encs) (take k cs))),
       stored_len = of_nat (length stored), be_raw = raw, be_crc32 = crc32 stored, min_timestamp = tss ! fst (cs ! k)\<rparr>)"
proof -
  have "entries_of compress codec encs tss off cs ! k = hd (drop k (entries_of compress codec encs tss off cs))"
    using assms by (simp add: hd_drop_conv_nth)
  moreover have "drop k cs = cs ! k # drop (Suc k) cs" using assms by (simp add: Cons_nth_drop_Suc)
  ultimately show ?thesis by (simp add: entries_drop case_prod_beta)
qed

lemma containing_block:
  assumes ne: "list_all (\<lambda>e. e \<noteq> []) encs"
  shows "chained encs s cs \<Longrightarrow> s \<le> i \<Longrightarrow> i < length encs \<Longrightarrow>
    \<exists>k < length cs. fst (cs ! k) \<le> i \<and> i < snd (cs ! k)
      \<and> partition_point (\<lambda>e. logical_start e \<le> psum encs i) (entries_of compress codec encs tss off cs) = k + 1"
proof (induction cs arbitrary: s off)
  case (Cons c cs)
  then have c: "fst c = s" "s < snd c" "snd c \<le> length encs" "chained encs (snd c) cs" by simp_all
  have first: "psum encs (fst c) \<le> psum encs i" using Cons.prems(2) c(1) by (simp add: psum_mono)
  show ?case
  proof (cases "i < snd c")
    case True
    have "takeWhile (\<lambda>e. logical_start e \<le> psum encs i) (entries_of compress codec encs tss off' cs) = []" for off'
    proof (cases cs)
      case (Cons d ds)
      then have "psum encs i < psum encs (fst d)"
        using c True Cons.prems(3) by (auto intro!: psum_strict [OF ne])
      then show ?thesis using Cons by (simp add: Let_def case_prod_beta)
    qed simp
    with True first Cons.prems(2) c(1) show ?thesis
      by (intro exI [of _ 0]) (simp add: partition_point_def Let_def case_prod_beta)
  next
    case False
    then obtain k where "k < length cs" "fst (cs ! k) \<le> i" "i < snd (cs ! k)"
      "partition_point (\<lambda>e. logical_start e \<le> psum encs i)
         (entries_of compress codec encs tss (off + length (fst (store_block compress codec (block_bytes encs c)))) cs) = k + 1"
      using Cons.IH [OF c(4) _ Cons.prems(3)] by force
    with first show ?thesis
      by (intro exI [of _ "Suc k"]) (simp add: partition_point_def Let_def case_prod_beta)
  qed
qed simp

section \<open>Reading blocks and records\<close>

lemma decoded_block_represents:
  assumes lz: "lz4_block compress decompress" and r: "represents compress codec encs tss cs s" and k: "k < length cs"
  shows "decoded_block decompress s k = Inr (block_bytes encs (cs ! k))"
    and "block_end_of s k = psum encs (snd (cs ! k))"
proof -
  let ?c = "cs ! k" and ?b = "block_bytes encs (cs ! k)"
  have ch: "chained encs 0 cs" and ok: "region_ok encs tss" using r by (simp_all add: represents_def)
  have dropk: "drop k cs = ?c # drop (Suc k) cs" using k by (simp add: Cons_nth_drop_Suc)
  have chk: "chained encs (fst ?c) (?c # drop (Suc k) cs)" using chained_drop [OF ch k] dropk by simp
  note ext = chained_extent [OF ok chk]
  obtain stored raw where sb: "store_block compress codec ?b = (stored, raw)" by (cases "store_block compress codec ?b")
  have ne: "?b \<noteq> []" using ext by auto
  note st = store_block_cases [OF lz sb ne]
  have slen: "unat (of_nat (length stored) :: u32) = length stored"
    using st(2) ext by (intro unat_of_nat_u32) simp
  let ?off = "length (concat (map (stored_bytes compress codec encs) (take k cs)))"
  have dir: "s_directory s = entries_of compress codec encs tss 0 cs" using r by (simp add: represents_def)
  have entry: "s_directory s ! k = \<lparr>logical_start = psum encs (fst ?c), stored_offset = ?off,
      stored_len = of_nat (length stored), be_raw = raw, be_crc32 = crc32 stored, min_timestamp = tss ! fst ?c\<rparr>"
    unfolding dir entry_nth [OF k] using sb by simp
  have lend: "block_end_of s k = psum encs (snd ?c)"
    using block_logical_end_entries [OF chained_next [OF ch k]] r
    by (simp add: block_end_of_def dir entries_drop represents_def)
  then show "block_end_of s k = psum encs (snd ?c)" .
  from r obtain pre post where bk: "s_backing s = pre @ concat (map (stored_bytes compress codec encs) cs) @ post"
    and ro: "records_offset (s_header s) = length pre" and mem: "length (s_backing s) \<le> isize_max"
    by (auto simp: represents_def)
  have "cs = take k cs @ ?c # drop (Suc k) cs" using k by (rule id_take_nth_drop)
  then have "concat (map (stored_bytes compress codec encs) cs) =
      concat (map (stored_bytes compress codec encs) (take k cs)) @ stored
        @ concat (map (stored_bytes compress codec encs) (drop (Suc k) cs))"
    by (metis concat.simps(2) concat_append fst_conv list.simps(9) map_append sb stored_bytes_def)
  then have bk': "s_backing s = (pre @ concat (map (stored_bytes compress codec encs) (take k cs))) @ stored
        @ concat (map (stored_bytes compress codec encs) (drop (Suc k) cs)) @ post"
    using bk by simp
  have rd: "read_range (s_backing s) (length pre + ?off) (length stored) = Inr stored"
    unfolding bk' by (simp add: read_range_def bytes_at_def)
  have add: "u64_checked_add (length pre) ?off = Some (length pre + ?off)"
    using mem unfolding bk' by (simp add: u64_checked_add_def)
  have logical: "psum encs (snd ?c) - psum encs (fst ?c) = length ?b" using ext(3) by simp
  have first: "read_u64 ?b 0 = Inr (tss ! fst ?c)"
  proof -
    have c: "fst ?c < snd ?c" "snd ?c \<le> length encs" using chk by simp_all
    then have "drop (fst ?c) (take (snd ?c) encs) = encs ! fst ?c # drop (Suc (fst ?c)) (take (snd ?c) encs)"
      by (metis Cons_nth_drop_Suc length_take min.absorb2 nth_take)
    then have b: "?b = encs ! fst ?c @ concat (drop (Suc (fst ?c)) (take (snd ?c) encs))"
      by (simp add: block_bytes_def)
    have t: "take 8 (encs ! fst ?c) = u64_le (tss ! fst ?c)"
      using r c by (auto simp: represents_def list_all2_conv_all_nth)
    then have "8 \<le> length (encs ! fst ?c)" by (metis length_take length_u64_le min.cobounded1)
    then have "take 8 ?b = u64_le (tss ! fst ?c)" "8 \<le> length ?b" using b t by simp_all
    then show ?thesis by (simp add: read_u64_def bytes_at_def)
  qed
  have codec: "h_codec (s_header s) = codec" using r by (simp add: represents_def)
  have dec: "(if raw then Inr stored
      else case h_codec (s_header s) of
             Raw \<Rightarrow> Inr stored
           | Lz4 \<Rightarrow> ok_or (decompress stored (length ?b)) (Corrupt ''block does not decompress'')) = Inr ?b"
    using st(3,4) codec by (cases raw) simp_all
  have kl: "\<not> length (s_directory s) \<le> k" using k by (simp add: dir)
  show "decoded_block decompress s k = Inr ?b"
    using kl rd dec first logical
    by (simp add: decoded_block_def Let_def entry ro add slen lend)
qed

lemma block_split:
  assumes "fst c \<le> i" and "i < snd c" and "snd c \<le> length encs"
  shows "block_bytes encs c = concat (drop (fst c) (take i encs)) @ encs ! i @ concat (drop (Suc i) (take (snd c) encs))"
    and "length (concat (drop (fst c) (take i encs))) = psum encs i - psum encs (fst c)"
proof -
  have "take (snd c) encs = take i encs @ encs ! i # drop (Suc i) (take (snd c) encs)"
    using id_take_nth_drop [of i "take (snd c) encs"] assms by (simp add: min_absorb1)
  from arg_cong [OF this, of "drop (fst c)"]
  have "drop (fst c) (take (snd c) encs) = drop (fst c) (take i encs) @ encs ! i # drop (Suc i) (take (snd c) encs)"
    using assms by simp
  then show "block_bytes encs c = concat (drop (fst c) (take i encs)) @ encs ! i @ concat (drop (Suc i) (take (snd c) encs))"
    by (simp add: block_bytes_def)
  show "length (concat (drop (fst c) (take i encs))) = psum encs i - psum encs (fst c)"
    using length_block [of "fst c" i encs] assms by (simp add: block_bytes_def)
qed

lemma represents_block_of:
  assumes r: "represents compress codec encs tss cs s" and i: "i < length encs"
  shows "\<exists>k < length cs. block_containing s (psum encs i) = Inr k \<and> fst (cs ! k) \<le> i \<and> i < snd (cs ! k)
    \<and> snd (cs ! k) \<le> length encs \<and> logical_start (s_directory s ! k) = psum encs (fst (cs ! k))"
proof -
  have ch: "chained encs 0 cs" and ok: "region_ok encs tss"
    and dir: "s_directory s = entries_of compress codec encs tss 0 cs" using r by (simp_all add: represents_def)
  from containing_block [OF region_nonempty [OF ok] ch _ i] obtain k where k: "k < length cs"
    "fst (cs ! k) \<le> i" "i < snd (cs ! k)"
    "partition_point (\<lambda>e. logical_start e \<le> psum encs i) (entries_of compress codec encs tss 0 cs) = k + 1" by blast
  have "chained encs (fst (cs ! k)) (drop k cs)" using ch k(1) by (rule chained_drop)
  then have "snd (cs ! k) \<le> length encs" using k(1) by (simp add: Cons_nth_drop_Suc [symmetric])
  with k show ?thesis
    by (intro exI [of _ k]) (simp add: block_containing_def dir entry_nth case_prod_beta Let_def)
qed

lemma timestamp_at_represents:
  assumes lz: "lz4_block compress decompress" and r: "represents compress codec encs tss cs s" and i: "i < length encs"
  shows "timestamp_at decompress s (psum encs i) = Inr (tss ! i)"
proof -
  from represents_block_of [OF r i] obtain k where k: "k < length cs" "block_containing s (psum encs i) = Inr k"
    "fst (cs ! k) \<le> i" "i < snd (cs ! k)" "snd (cs ! k) \<le> length encs"
    "logical_start (s_directory s ! k) = psum encs (fst (cs ! k))" by blast
  note blk = decoded_block_represents [OF lz r k(1)]
  have ok: "region_ok encs tss" and rll: "records_logical_len (s_header s) = length (concat encs)"
    using r by (simp_all add: represents_def)
  have in_range: "\<not> psum encs i \<ge> length (concat encs)"
    using psum_strict [OF region_nonempty [OF ok], of i "length encs"] i by (simp add: psum_all)
  have t8: "take 8 (encs ! i) = u64_le (tss ! i)" and ti: "i < length tss"
    using r i by (auto simp: represents_def list_all2_conv_all_nth)
  then have e8: "8 \<le> length (encs ! i)" by (metis length_take length_u64_le min.cobounded1)
  have "psum encs i + 8 \<le> psum encs (Suc i)" using e8 i by (simp add: psum_Suc)
  also have "\<dots> \<le> psum encs (snd (cs ! k))" using k(4) by (intro psum_mono) simp
  finally have fits: "\<not> psum encs i + 8 > block_end_of s k" using blk(2) by simp
  have mem: "psum encs i + 8 < 2 ^ 64"
    using psum_le [of encs i] ok by (simp add: region_ok_def)
  note sp = block_split [OF k(3-5)]
  have "read_u64 (block_bytes encs (cs ! k)) (psum encs i - psum encs (fst (cs ! k))) = Inr (tss ! i)"
  proof -
    obtain rest where "encs ! i = u64_le (tss ! i) @ rest" using t8 by (metis append_take_drop_id)
    then have "block_bytes encs (cs ! k) = concat (drop (fst (cs ! k)) (take i encs)) @ u64_le (tss ! i)
        @ rest @ concat (drop (Suc i) (take (snd (cs ! k)) encs))" using sp(1) by simp
    then show ?thesis using read_u64_here sp(2) by metis
  qed
  moreover have "check_timestamp s (tss ! i) = Inr ()"
    using r ti by (auto simp: represents_def check_timestamp_def list_all_length)
  ultimately show ?thesis
    using in_range fits k(2,6) blk(1) mem
    by (simp add: timestamp_at_def rll u64_checked_add_def)
qed

definition stored_of :: "bytes list \<Rightarrow> record_input \<Rightarrow> stored_record" where
  "stored_of keys r =
     \<lparr>r_timestamp = ri_timestamp r, r_trace_id = ri_trace_id r, r_pairs = record_pairs keys r,
      r_payload = ri_payload r\<rparr>"

text \<open>The records behind the encodings.\<close>

definition holds :: "bytes list \<Rightarrow> record_input list \<Rightarrow> bytes list \<Rightarrow> bool" where
  "holds keys rs encs \<longleftrightarrow>
     encoded keys rs encs \<and> list_all (\<lambda>r. pairs_ok (record_pairs keys r) \<and> utf8_valid (ri_trace_id r)) rs"

lemma holdsD:
  assumes "holds keys rs encs" and "i < length encs"
  shows "i < length rs" and "encode_record (rs ! i) (record_pairs keys (rs ! i)) = Inr (encs ! i)"
    and "pairs_ok (record_pairs keys (rs ! i))" and "utf8_valid (ri_trace_id (rs ! i))"
  using assms by (auto simp: holds_def encoded_def list_all2_conv_all_nth list_all_length)

lemma decode_at_represents:
  assumes lz: "lz4_block compress decompress"
    and r: "represents compress codec encs (map ri_timestamp rs) cs s" and h: "holds keys rs encs" and i: "i < length encs"
  shows "decode_at decompress s (psum encs i) = Inr (stored_of keys (rs ! i))"
proof -
  from represents_block_of [OF r i] obtain k where k: "k < length cs" "block_containing s (psum encs i) = Inr k"
    "fst (cs ! k) \<le> i" "i < snd (cs ! k)" "snd (cs ! k) \<le> length encs"
    "logical_start (s_directory s ! k) = psum encs (fst (cs ! k))" by blast
  note blk = decoded_block_represents [OF lz r k(1)]
  have ok: "region_ok encs (map ri_timestamp rs)" and rll: "records_logical_len (s_header s) = length (concat encs)"
    and so: "s_record_offsets s = offs 0 encs"
    using r by (simp_all add: represents_def)
  note ne = region_nonempty [OF ok]
  have in_range: "\<not> psum encs i \<ge> length (concat encs)"
    using psum_strict [OF ne, of i "length encs"] i by (simp add: psum_all)
  have pos: "binary_search (logical_offsets s) (psum encs i) = Some i"
    using binary_search_nth [OF starts_sorted [OF ne], of i] i by (simp add: represents_offsets [OF r])
  have after: "(if i + 1 < length (s_record_offsets s) then logical_offsets s ! (i + 1)
      else length (concat encs)) = psum encs (Suc i)"
    by (simp only: represents_offsets [OF r]) (use i in \<open>simp add: rll so psum_all\<close>)
  have suc: "psum encs (Suc i) = psum encs i + length (encs ! i)" using i by (rule psum_Suc)
  have "psum encs (Suc i) \<le> psum encs (snd (cs ! k))" using k(4) by (intro psum_mono) simp
  then have fits: "\<not> psum encs (Suc i) > block_end_of s k" using blk(2) by simp
  have mem: "psum encs (Suc i) < 2 ^ 64"
    using psum_le [of encs "Suc i"] ok by (simp add: region_ok_def)
  note sp = block_split [OF k(3-5)] and hd = holdsD [OF h i]
  have "length (block_bytes encs (cs ! k)) = psum encs (snd (cs ! k)) - psum encs (fst (cs ! k))"
    using length_block [of "fst (cs ! k)" "snd (cs ! k)" encs] k by simp
  then have bm: "length (block_bytes encs (cs ! k)) \<le> isize_max"
    using psum_le [of encs "snd (cs ! k)"] ok by (auto simp: region_ok_def)
  have "decode_record (block_bytes encs (cs ! k)) (psum encs i - psum encs (fst (cs ! k)))
      (psum encs i - psum encs (fst (cs ! k)) + length (encs ! i)) = Inr (stored_of keys (rs ! i))"
    using decode_encoded_record [OF hd(2-4), of "concat (drop (fst (cs ! k)) (take i encs))"
        "concat (drop (Suc i) (take (snd (cs ! k)) encs))"] bm sp by (simp add: stored_of_def)
  moreover have "check_timestamp s (ri_timestamp (rs ! i)) = Inr ()"
    using r hd(1) by (auto simp: represents_def check_timestamp_def list_all_length)
  ultimately show ?thesis
    unfolding decode_at_def Let_def rll
    by (simp only: in_range pos after if_False option.case)
      (use fits k(2,6) blk(1) mem in \<open>simp add: suc u64_checked_add_def stored_of_def\<close>)
qed

end
