(* ===== verification/Segment_Sound.thy ===== *)
theory Segment_Sound
  imports Segment_Open
begin

text \<open>
  The segment as a whole: a file \<open>encode_with_codec\<close> produced opens, and an open segment answers every
  read and query from the records it was built from.
\<close>

section \<open>What was built\<close>

definition buffers :: "parts \<Rightarrow> bytes list" where
  "buffers p =
     [p_region p, p_stored p, p_directory p, encode_offsets_body (p_offsets p), encode_trace_index (p_trace p),
      encode_attribute_index (p_keys p) (p_attributes p), p_content p]"

text \<open>The encoder ran on well-formed records, within the widths of the format's counts, and no buffer it
  built was longer than a Rust vector can be.\<close>

definition well_built ::
  "(bytes \<Rightarrow> bytes) \<Rightarrow> record_input list \<Rightarrow> bool \<Rightarrow> codec \<Rightarrow> parts \<Rightarrow> bool" where
  "well_built compress records content_index codec p \<longleftrightarrow>
     build_parts compress records content_index codec = Inr p \<and> input_ok records
     \<and> length records < 2 ^ 32 \<and> length (p_keys p) < 2 ^ 32
     \<and> list_all (\<lambda>b. length b \<le> isize_max) (buffers p) \<and> length (assemble compress codec p) \<le> isize_max"

lemma input_ok_sort: "input_ok rs \<Longrightarrow> input_ok (sort_key f rs)"
  by (simp add: input_ok_def list_all_iff)

definition cuts_of :: "bytes list \<Rightarrow> (nat \<times> nat) list" where
  "cuts_of encs = cuts (starts encs) (length (concat encs)) 0"

lemma encode_record_shape:
  "encode_record r ps = Inr e \<Longrightarrow> take 8 e = u64_le (ri_timestamp r) \<and> RECORD_FIXED_LEN \<le> length e"
  by (drule sym) (auto simp: encode_record_def RECORD_FIXED_LEN_def dest!: sym split: if_splits)

lemma built_facts:
  assumes "well_built compress records ci codec p" and rs: "rs = sort_key ri_timestamp records"
  obtains encs where
    "p_records p = rs" "p_keys p = attribute_keys rs" "holds (p_keys p) rs encs" "p_region p = concat encs"
    "p_offsets p = offs 0 encs" "map unat (p_offsets p) = starts encs" "region_ok encs (map ri_timestamp rs)"
    "p_stored p = concat (map (stored_bytes compress codec encs) (cuts_of encs))"
    "p_directory p = concat (map put_entry (entries_of compress codec encs (map ri_timestamp rs) 0 (cuts_of encs)))"
    "p_trace p = push_all (trace_pushes rs (p_offsets p)) []"
    "p_attributes p = push_all (pair_pushes (p_keys p) rs (p_offsets p)) []"
    "p_content p = encode_content_index (if ci then map ri_content rs else [])"
    "length encs = length rs" "length rs < 2 ^ 32" "chained encs 0 (cuts_of encs)"
    "list_all2 (\<lambda>e t. take 8 e = u64_le t) encs (map ri_timestamp rs)"
    "length rs * RECORD_FIXED_LEN \<le> length (concat encs)"
proof -
  let ?keys = "attribute_keys rs"
  from assms(1) have b: "build_parts compress records ci codec = Inr p" and ok: "input_ok rs"
    and n: "length rs < 2 ^ 32" and k32: "length (p_keys p) < 2 ^ 32"
    and mem: "length (p_region p) \<le> isize_max"
    by (auto simp: well_built_def rs input_ok_sort buffers_def)
  from b obtain region os ti ai where loop: "encode_records ?keys rs [] [] [] [] = Inr (region, os, ti, ai)"
    and p0: "(case carve_blocks compress region (map unat os) (map ri_timestamp rs) codec of
        (st, dir) \<Rightarrow> Inr \<lparr>p_records = rs, p_keys = ?keys, p_region = region, p_offsets = os, p_stored = st,
          p_directory = dir, p_trace = ti, p_attributes = ai,
          p_content = (if ci then encode_content_index (map ri_content rs) else encode_content_index [])\<rparr>)
      = (Inr p :: seg_error + parts)"
    unfolding build_parts_def Let_def and_then_Inr rs by auto
  obtain st dir where c0: "carve_blocks compress region (map unat os) (map ri_timestamp rs) codec = (st, dir)"
    by (cases "carve_blocks compress region (map unat os) (map ri_timestamp rs) codec")
  from p0 have "p = \<lparr>p_records = rs, p_keys = ?keys, p_region = region, p_offsets = os, p_stored = st,
      p_directory = dir, p_trace = ti, p_attributes = ai,
      p_content = (if ci then encode_content_index (map ri_content rs) else encode_content_index [])\<rparr>"
    unfolding c0 by simp
  then have p: "p_records p = rs" "p_keys p = ?keys" "p_region p = region" "p_offsets p = os" "p_trace p = ti"
      "p_attributes p = ai" "p_content p = encode_content_index (if ci then map ri_content rs else [])"
      "(p_stored p, p_directory p) = carve_blocks compress region (map unat os) (map ri_timestamp rs) codec"
    unfolding c0 by simp_all
  from encode_records_sound [OF loop] obtain encs where e: "encoded ?keys rs encs" "region = concat encs"
    "os = offs 0 encs" "ti = push_all (trace_pushes rs os) []" "ai = push_all (pair_pushes ?keys rs os) []" by auto
  have mem': "length (concat encs) \<le> isize_max" using mem p(3) e(2) by simp
  have starts: "map unat os = starts encs" using unat_offs [of 0 encs] mem' e(3) by (simp add: starts_def)
  have len: "length encs = length rs" using e(1) by (simp add: encoded_def list_all2_lengthD)
  have each: "encode_record (rs ! i) (record_pairs ?keys (rs ! i)) = Inr (encs ! i)" "length (encs ! i) < 2 ^ 31"
    if "i < length rs" for i
    using e(1) that by (auto simp: encoded_def list_all2_conv_all_nth)
  have shape: "take 8 (encs ! i) = u64_le (ri_timestamp (rs ! i)) \<and> RECORD_FIXED_LEN \<le> length (encs ! i)" if "i < length rs" for i
    using each(1) [OF that] by (rule encode_record_shape)
  have ne: "list_all (\<lambda>e. e \<noteq> [] \<and> length e < 2 ^ 31) encs"
    unfolding list_all_length using shape each(2) len by (fastforce simp: RECORD_FIXED_LEN_def)
  have region: "region_ok encs (map ri_timestamp rs)"
    using ne mem' len by (simp add: region_ok_def rs)
  have "pairs_ok (record_pairs ?keys r)" "utf8_valid (ri_trace_id r)" if "r \<in> set rs" for r
  proof -
    have "sorted_wrt (<) (map fst (ri_attributes r))" "utf8_valid (ri_trace_id r)"
      using ok that by (simp_all add: input_ok_def list_all_iff)
    moreover have "fst ` set (ri_attributes r) \<subseteq> set ?keys" using that by (auto simp only: attribute_keys_set)
    ultimately show "pairs_ok (record_pairs ?keys r)" "utf8_valid (ri_trace_id r)"
      using record_pairs_ok [OF attribute_keys_sorted] k32 p(2) by simp_all
  qed
  then have h: "holds ?keys rs encs" using e(1) by (simp add: holds_def list_all_iff)
  have c: "carve_blocks compress region (map unat os) (map ri_timestamp rs) codec
      = (concat (map (stored_bytes compress codec encs) (cuts_of encs)),
         concat (map put_entry (entries_of compress codec encs (map ri_timestamp rs) 0 (cuts_of encs))))"
    unfolding starts e(2) by (simp add: carve_blocks_def carve_loop_cuts cuts_of_def)
  have "length rs * RECORD_FIXED_LEN \<le> length (concat encs)"
  proof -
    have "list_all (\<lambda>e. RECORD_FIXED_LEN \<le> length e) encs" unfolding list_all_length using shape len by simp
    then have "length encs * RECORD_FIXED_LEN \<le> length (concat encs)" by (induction encs) auto
    then show ?thesis by (simp add: len)
  qed
  moreover have "list_all2 (\<lambda>e t. take 8 e = u64_le t) encs (map ri_timestamp rs)"
    unfolding list_all2_conv_all_nth using shape len by simp
  moreover have "chained encs 0 (cuts_of encs)" unfolding cuts_of_def by (rule cuts_chained) simp
  ultimately show thesis
    using that [of encs] p e h region c len n starts by auto
qed

lemma fold_min_max_sorted:
  "sorted (map ri_timestamp rs) \<Longrightarrow> rs \<noteq> [] \<Longrightarrow>
    fold (\<lambda>r (lo, hi). (min lo (ri_timestamp r), max hi (ri_timestamp r))) rs (lo, hi)
      = (min lo (ri_timestamp (hd rs)), max hi (ri_timestamp (last rs)))"
proof (induction rs arbitrary: lo hi)
  case (Cons r rs)
  show ?case
  proof (cases "rs = []")
    case False
    have "fold (\<lambda>r (lo, hi). (min lo (ri_timestamp r), max hi (ri_timestamp r))) rs (min lo (ri_timestamp r), max hi (ri_timestamp r))
      = (min (min lo (ri_timestamp r)) (ri_timestamp (hd rs)), max (max hi (ri_timestamp r)) (ri_timestamp (last rs)))"
      using Cons.prems False by (intro Cons.IH) simp_all
    moreover have "ri_timestamp r \<le> ri_timestamp (hd rs)" "ri_timestamp r \<le> ri_timestamp (last rs)"
      using Cons.prems False by (auto simp: last_in_set)
    ultimately show ?thesis using False by (simp add: min.absorb1 max.absorb2 min.assoc max.assoc)
  qed simp
qed simp

lemma timestamp_range_sorted:
  "sorted (map ri_timestamp rs) \<Longrightarrow> rs \<noteq> [] \<Longrightarrow>
    timestamp_range rs = (ri_timestamp (hd rs), ri_timestamp (last rs))"
  unfolding timestamp_range_def by (simp add: fold_min_max_sorted)

lemma read_section_here:
  "read_section (pre @ x @ post) (length pre) (length x) = Inr x"
  by (simp add: read_section_def read_range_def bytes_at_def)

lemma length_wrap_section: "SECTION_WRAPPER_LEN \<le> length (wrap_section compress body codec)"
  by (simp add: wrap_section_def SECTION_WRAPPER_LEN_def Let_def case_prod_beta)

lemma offsets_in_order_starts:
  assumes "region_ok encs tss"
  shows "validate_record_offsets (length (concat encs)) (starts encs) = Inr ()"
proof -
  have step: "sorted_wrt (<) (case prev of None \<Rightarrow> xs | Some v \<Rightarrow> v # xs) \<Longrightarrow> list_all (\<lambda>x. x < rll) xs \<Longrightarrow>
      offsets_in_order rll prev xs" for rll prev and xs :: "nat list"
    by (induction xs arbitrary: prev) (auto split: option.splits)
  have "list_all (\<lambda>x. x < length (concat encs)) (starts encs)"
    using psum_strict [OF region_nonempty [OF assms], of _ "length encs"]
    by (auto simp: starts_def list_all_iff psum_all)
  then have "offsets_in_order (length (concat encs)) None (starts encs)"
    using starts_sorted [OF region_nonempty [OF assms]] by (intro step) simp_all
  moreover have "starts encs = [] \<Longrightarrow> concat encs = []" by (metis concat.simps(1) length_0_conv length_starts)
  ultimately show ?thesis by (auto simp: validate_record_offsets_def)
qed

lemma decode_not_indexed:
  "\<not> indexed contents \<Longrightarrow> decode_content_head (encode_content_index contents) off len n = Inr None"
  by (simp add: encode_not_indexed decode_content_head_def CONTENT_PROLOGUE_LEN_def bytes_at_def Let_def)

section \<open>The layout\<close>

lemma stored_empty_iff:
  assumes "lz4_block compress decompress" and "region_ok encs tss" and "chained encs s cs"
  shows "concat (map (stored_bytes compress codec encs) cs) = [] \<longleftrightarrow> cs = []"
proof (cases cs)
  case (Cons c cs')
  have "block_bytes encs c \<noteq> []" using chained_extent [of encs tss s c cs'] assms(2,3) Cons by auto
  moreover obtain st raw where "store_block compress codec (block_bytes encs c) = (st, raw)"
    by (cases "store_block compress codec (block_bytes encs c)")
  ultimately show ?thesis using store_block_cases [OF assms(1)] Cons by (simp add: stored_bytes_def)
qed simp

lemma chained_empty_iff: "chained encs 0 cs \<Longrightarrow> cs = [] \<longleftrightarrow> encs = []"
  by (cases cs) auto

lemma length_assemble:
  "length (assemble compress codec p) =
    fst (content (header_of compress codec p)) + snd (content (header_of compress codec p))"
  by (simp add: assemble_def header_of_def Let_def)

lemma header_tiles: "tiles (length (assemble compress codec p)) HEADER_LEN (sections_of (header_of compress codec p))"
  by (simp add: sections_of_def header_of_def assemble_def Let_def length_wrap_section)

lemma header_fits:
  assumes "length (assemble compress codec p) \<le> isize_max" and "length (p_records p) < 2 ^ 32"
    and "length (p_region p) \<le> isize_max"
  shows "header_words_ok (header_of compress codec p)"
  using assms by (simp add: header_words_ok_def header_of_def assemble_def Let_def)

lemma sections_read:
  fixes compress codec p
  defines "file \<equiv> assemble compress codec p" and "h \<equiv> header_of compress codec p"
  shows "read_section file (directory_offset h) (directory_len h) = Inr (wrap_section compress (p_directory p) codec)"
    and "read_section file (offsets_offset h) (offsets_len h)
      = Inr (wrap_section compress (encode_offsets_body (p_offsets p)) codec)"
    and "read_section file (trace_index_offset h) (trace_index_len h)
      = Inr (wrap_section compress (encode_trace_index (p_trace p)) codec)"
    and "read_section file (attribute_index_offset h) (attribute_index_len h)
      = Inr (wrap_section compress (encode_attribute_index (p_keys p) (p_attributes p)) codec)"
    and "read_section file (fst (content h)) (snd (content h)) = Inr (wrap_section compress (p_content p) Raw)"
    and "read_range file 0 HEADER_LEN = Inr (put_header h)"
proof -
  let ?hd = "put_header h" and ?d = "wrap_section compress (p_directory p) codec"
  let ?o = "wrap_section compress (encode_offsets_body (p_offsets p)) codec"
  let ?t = "wrap_section compress (encode_trace_index (p_trace p)) codec"
  let ?a = "wrap_section compress (encode_attribute_index (p_keys p) (p_attributes p)) codec"
  let ?c = "wrap_section compress (p_content p) Raw"
  have f: "file = (?hd @ p_stored p) @ ?d @ (?o @ ?t @ ?a @ ?c)"
    "file = (?hd @ p_stored p @ ?d) @ ?o @ (?t @ ?a @ ?c)"
    "file = (?hd @ p_stored p @ ?d @ ?o) @ ?t @ (?a @ ?c)"
    "file = (?hd @ p_stored p @ ?d @ ?o @ ?t) @ ?a @ ?c"
    "file = (?hd @ p_stored p @ ?d @ ?o @ ?t @ ?a) @ ?c @ []"
    "file = [] @ ?hd @ (p_stored p @ ?d @ ?o @ ?t @ ?a @ ?c)"
    by (simp_all add: file_def h_def assemble_def)
  have w: "directory_offset h = length (?hd @ p_stored p)" "directory_len h = length ?d"
    "offsets_offset h = length (?hd @ p_stored p @ ?d)" "offsets_len h = length ?o"
    "trace_index_offset h = length (?hd @ p_stored p @ ?d @ ?o)" "trace_index_len h = length ?t"
    "attribute_index_offset h = length (?hd @ p_stored p @ ?d @ ?o @ ?t)" "attribute_index_len h = length ?a"
    "fst (content h) = length (?hd @ p_stored p @ ?d @ ?o @ ?t @ ?a)" "snd (content h) = length ?c"
    by (simp_all add: h_def header_of_def Let_def)
  show "read_section file (directory_offset h) (directory_len h) = Inr ?d" by (subst w, subst w, subst f(1)) (rule read_section_here)
  show "read_section file (offsets_offset h) (offsets_len h) = Inr ?o" by (subst w, subst w, subst f(2)) (rule read_section_here)
  show "read_section file (trace_index_offset h) (trace_index_len h) = Inr ?t"
    by (subst w, subst w, subst f(3)) (rule read_section_here)
  show "read_section file (attribute_index_offset h) (attribute_index_len h) = Inr ?a"
    by (subst w, subst w, subst f(4)) (rule read_section_here)
  show "read_section file (fst (content h)) (snd (content h)) = Inr ?c" by (subst w, subst w, subst f(5)) (rule read_section_here)
  have "read_section file (length ([] :: bytes)) (length ?hd) = Inr ?hd" by (subst f(6)) (rule read_section_here)
  then show "read_range file 0 HEADER_LEN = Inr ?hd" by (simp add: read_section_def split: if_splits)
qed

section \<open>The indexes\<close>

lemma offs_sorted:
  assumes "list_all (\<lambda>e. e \<noteq> []) encs" and "map unat (offs 0 encs) = starts encs"
  shows "sorted_wrt (<) (offs 0 encs)"
proof -
  have "sorted_wrt (<) (map unat (offs 0 encs))" unfolding assms(2) by (rule starts_sorted [OF assms(1)])
  then show ?thesis unfolding sorted_wrt_map by (rule sorted_wrt_mono_rel [rotated]) (simp add: word_less_nat_alt)
qed

lemma trace_built:
  assumes "input_ok rs" and "sorted_wrt (<) os" and "length os = length rs" and "length rs < 2 ^ 32"
  shows "trace_index_ok (of_nat (length rs)) (push_all (trace_pushes rs os) [])"
proof -
  have n: "unat (of_nat (length rs) :: u64) = length rs" using assms(4) by (intro unat_of_nat_u64) simp
  have "trace_entry_ok (of_nat (length rs)) e" if "e \<in> set (push_all (trace_pushes rs os) [])" for e
  proof -
    obtain t vs where e: "e = (t, vs)" by (cases e)
    then have vs: "vs = postings_of t (trace_pushes rs os)" "vs \<noteq> []" using push_all_mem that by metis+
    then have "t \<in> fst ` set (trace_pushes rs os)" using postings_of_mem by metis
    then have "t \<in> ri_trace_id ` set rs" by (auto simp: trace_pushes_def dest!: set_zip_leftD)
    then have "utf8_valid t" using assms(1) by (auto simp: input_ok_def list_all_iff)
    moreover have "postings_ok (of_nat (length rs)) vs"
      unfolding vs(1) trace_postings postings_ok_def n using offsets_where_sorted [OF assms(2)] offsets_where_length by blast
    ultimately show ?thesis by (simp add: e trace_entry_ok_def)
  qed
  then show ?thesis by (simp add: trace_index_ok_def push_all_distinct list_all_iff)
qed

lemma pair_pushes_keys: "p \<in> fst ` set (pair_pushes keys rs os) \<Longrightarrow> \<exists>r \<in> set rs. p \<in> set (record_pairs keys r)"
  by (auto simp: pair_pushes_def dest!: set_zip_leftD)

lemma attributes_built:
  assumes ok: "input_ok rs" and "sorted_wrt (<) os" and "length os = length rs" and "length rs < 2 ^ 32"
    and keys: "keys = attribute_keys rs" "length keys < 2 ^ 32"
    and pairs: "list_all (\<lambda>r. pairs_ok (record_pairs keys r)) rs"
  shows "attribute_index_ok (of_nat (length rs)) keys (push_all (pair_pushes keys rs os) [])"
proof -
  have n: "unat (of_nat (length rs) :: u64) = length rs" using assms(4) by (intro unat_of_nat_u64) simp
  have dist: "list_all (\<lambda>r. distinct (record_pairs keys r)) rs" using pairs by (auto simp: list_all_iff pairs_ok_distinct)
  have "attribute_entry_ok (length keys) (of_nat (length rs)) e" if "e \<in> set (push_all (pair_pushes keys rs os) [])" for e
  proof -
    obtain pr vs where e: "e = (pr, vs)" by (cases e)
    then have vs: "vs = postings_of pr (pair_pushes keys rs os)" "vs \<noteq> []" using push_all_mem that by metis+
    then have "pr \<in> fst ` set (pair_pushes keys rs os)" using postings_of_mem by metis
    then obtain r where r: "r \<in> set rs" "pr \<in> set (record_pairs keys r)" using pair_pushes_keys by metis
    from r(2) obtain k v where kv: "(k, v) \<in> set (ri_attributes r)" "pr = (key_id_of keys k, hash_attribute k v)"
      by (auto simp: record_pairs_def)
    then have "k \<in> set keys" using r(1) by (force simp: keys(1) attribute_keys_set)
    then have "unat (fst pr) < length keys"
      using key_id_lt(1) [of keys k] keys attribute_keys_sorted [of rs] kv(2) by simp
    moreover have "length (snd pr) = 16" using pairs r by (auto simp: list_all_iff pairs_ok_def)
    moreover have "postings_ok (of_nat (length rs)) vs"
      unfolding vs(1) pair_postings [OF dist] postings_ok_def n
      using offsets_where_sorted [OF assms(2)] offsets_where_length by blast
    ultimately show ?thesis by (simp add: e attribute_entry_ok_def)
  qed
  moreover have "distinct keys" unfolding keys(1) by (rule strict_distinct) (rule attribute_keys_sorted)
  moreover have "list_all utf8_valid keys"
    using ok by (auto simp: keys(1) attribute_keys_set list_all_iff input_ok_def)
  ultimately show ?thesis using keys(2) by (simp add: attribute_index_ok_def push_all_distinct list_all_iff)
qed

section \<open>Opening what was built\<close>

lemma directory_built:
  assumes lz: "lz4_block compress decompress" and ok: "region_ok encs tss" and ch: "chained encs 0 cs"
    and mem: "length (concat (map (stored_bytes compress codec encs) cs)) \<le> isize_max"
  shows "decode_directory (concat (map put_entry (entries_of compress codec encs tss 0 cs))) (length encs)
      (length (concat (map (stored_bytes compress codec encs) cs))) (length (concat encs))
    = Inr (entries_of compress codec encs tss 0 cs)"
proof -
  let ?dir = "entries_of compress codec encs tss 0 cs"
  have len: "length (concat (map put_entry ?dir)) = length cs * DIRECTORY_ENTRY_LEN"
    by (simp add: length_concat comp_def sum_list_triv DIRECTORY_ENTRY_LEN_def)
  have "decode_entries (length (concat encs)) (length cs) (concat (map put_entry ?dir)) 0 None
      = Inr (?dir, length (concat (map (stored_bytes compress codec encs) cs)))"
    using decode_entries_blocks [OF lz ok ch, of 0 codec None] mem by simp
  moreover have "raw_lengths_agree (length (concat encs)) ?dir" by (rule raw_lengths_blocks [OF lz ok ch])
  ultimately show ?thesis
    using chained_empty_iff [OF ch] by (simp add: decode_directory_def len DIRECTORY_ENTRY_LEN_def)
qed

lemma ordinals_built:
  assumes "lz4_block compress decompress" and "region_ok encs tss" and "chained encs 0 cs"
  shows "block_start_ordinals (length (concat encs)) (starts encs) (entries_of compress codec encs tss 0 cs)
    = Inr (map fst cs)"
  using find_starts_blocks [OF assms(2,3)] extents_blocks [OF assms]
  by (simp add: block_start_ordinals_def)

lemma header_range_built:
  assumes ok: "region_ok encs (map ri_timestamp rs)" and ch: "chained encs 0 cs"
  shows "validate_header_timestamps (timestamp_range rs) (entries_of compress codec encs (map ri_timestamp rs) 0 cs) = Inr ()"
proof (cases cs)
  case Nil
  then have "rs = []" using ch ok by (simp add: region_ok_def)
  then show ?thesis using Nil by (simp add: validate_header_timestamps_def timestamp_range_def)
next
  case (Cons c cs')
  let ?dir = "entries_of compress codec encs (map ri_timestamp rs) 0 cs"
  have len: "length rs = length encs" and sorted: "sorted (map ri_timestamp rs)" using ok by (simp_all add: region_ok_def)
  have ne: "rs \<noteq> []" using ch Cons len by auto
  have "fst c = 0" using ch Cons by simp
  then have first: "min_timestamp (hd ?dir) = ri_timestamp (hd rs)"
    using ne Cons by (simp add: Let_def case_prod_beta hd_conv_nth)
  let ?k = "length cs - 1"
  have k: "?k < length cs" using Cons by simp
  have dne: "?dir \<noteq> []" using k by (metis length_entries_of list.size(3) not_less_zero)
  then have "min_timestamp (last ?dir) = map ri_timestamp rs ! fst (cs ! ?k)"
    using entry_nth [OF k, of compress codec encs "map ri_timestamp rs" 0]
    by (simp add: last_conv_nth Let_def case_prod_beta)
  moreover have "fst (cs ! ?k) < length rs"
    using chained_drop [OF ch k] len k by (simp add: Cons_nth_drop_Suc [symmetric])
  ultimately have "min_timestamp (last ?dir) \<le> ri_timestamp (last rs)"
    using sorted ne by (simp add: last_conv_nth sorted_iff_nth_mono)
  with first dne show ?thesis
    by (simp add: validate_header_timestamps_def timestamp_range_sorted [OF sorted ne] not_less)
qed

definition contents_of :: "bool \<Rightarrow> record_input list \<Rightarrow> bytes list list" where
  "contents_of content_index rs = (if content_index then map ri_content rs else [])"

lemma content_built:
  assumes "length rs < 2 ^ 32"
  shows "decode_content_head (encode_content_index (contents_of ci rs)) off
      (length (encode_content_index (contents_of ci rs))) (length rs)
    = Inr (if indexed (contents_of ci rs) then Some (content_of (contents_of ci rs) off) else None)"
proof (cases "indexed (contents_of ci rs)")
  case True
  then have "length (contents_of ci rs) = length rs" by (auto simp: contents_of_def indexed_def split: if_splits)
  then show ?thesis using decode_encode_indexed [OF True, of off] assms True by simp
qed (simp add: decode_not_indexed)

definition opened ::
  "(bytes \<Rightarrow> bytes) \<Rightarrow> bool \<Rightarrow> codec \<Rightarrow> parts \<Rightarrow> bytes list \<Rightarrow> segment" where
  "opened compress ci codec p encs =
     (let rs = p_records p; h = header_of compress codec p in
      \<lparr>s_backing = assemble compress codec p, s_header = h, s_record_offsets = p_offsets p,
       s_directory = entries_of compress codec encs (map ri_timestamp rs) 0 (cuts_of encs),
       s_block_start_ordinals = map fst (cuts_of encs), s_trace_index = map_of (p_trace p),
       s_attribute_index = \<lparr>ai_keys = p_keys p, ai_key_ids = map_of (zip (p_keys p) (map of_nat [0..<length (p_keys p)])),
                            ai_postings = map_of (p_attributes p)\<rparr>,
       s_content = (if indexed (contents_of ci rs)
                    then Some (content_of (contents_of ci rs) (fst (content h) + SECTION_WRAPPER_LEN)) else None)\<rparr>)"

lemma represents_opened:
  assumes "well_built compress records ci codec p" and rs: "rs = p_records p"
    and facts: "p_records p = sort_key ri_timestamp records" "p_region p = concat encs" "p_offsets p = offs 0 encs"
      "region_ok encs (map ri_timestamp rs)" "chained encs 0 (cuts_of encs)"
      "p_stored p = concat (map (stored_bytes compress codec encs) (cuts_of encs))"
      "list_all2 (\<lambda>e t. take 8 e = u64_le t) encs (map ri_timestamp rs)"
  shows "represents compress codec encs (map ri_timestamp rs) (cuts_of encs) (opened compress ci codec p encs)"
proof -
  have sorted: "sorted (map ri_timestamp rs)" using facts(4) by (simp add: region_ok_def)
  have "list_all (\<lambda>t. fst (timestamp_range rs) \<le> t \<and> t \<le> snd (timestamp_range rs)) (map ri_timestamp rs)"
  proof (cases "rs = []")
    case False
    then show ?thesis
      unfolding timestamp_range_sorted [OF sorted False] list_all_length using sorted
      by (auto simp: hd_conv_nth last_conv_nth sorted_iff_nth_mono)
  qed simp
  moreover have "assemble compress codec p = put_header (header_of compress codec p)
      @ concat (map (stored_bytes compress codec encs) (cuts_of encs))
      @ wrap_section compress (p_directory p) codec
      @ wrap_section compress (encode_offsets_body (p_offsets p)) codec
      @ wrap_section compress (encode_trace_index (p_trace p)) codec
      @ wrap_section compress (encode_attribute_index (p_keys p) (p_attributes p)) codec
      @ wrap_section compress (p_content p) Raw"
    by (simp add: assemble_def facts(6))
  then have "\<exists>pre post. assemble compress codec p = pre @ concat (map (stored_bytes compress codec encs) (cuts_of encs)) @ post
      \<and> HEADER_LEN = length pre"
    by (intro exI conjI) (assumption, simp)
  moreover have "length (assemble compress codec p) \<le> isize_max" using assms(1) by (simp add: well_built_def)
  ultimately show ?thesis
    using facts rs by (simp add: represents_def opened_def header_of_def Let_def)
qed

lemma open_built:
  assumes lz: "lz4_block compress decompress" and wb: "well_built compress records ci codec p"
    and rs: "rs = sort_key ri_timestamp records"
  obtains encs where
    "open_backing decompress (assemble compress codec p) = Inr (opened compress ci codec p encs)"
    "represents compress codec encs (map ri_timestamp rs) (cuts_of encs) (opened compress ci codec p encs)"
    "holds (attribute_keys rs) rs encs" "length encs = length rs" "p_offsets p = offs 0 encs" "p_records p = rs"
    "p_keys p = attribute_keys rs" "p_trace p = push_all (trace_pushes rs (offs 0 encs)) []"
    "p_attributes p = push_all (pair_pushes (attribute_keys rs) rs (offs 0 encs)) []"
proof -
  from built_facts [OF wb rs] obtain encs where f:
    "p_records p = rs" "p_keys p = attribute_keys rs" "holds (p_keys p) rs encs" "p_region p = concat encs"
    "p_offsets p = offs 0 encs" "map unat (p_offsets p) = starts encs" "region_ok encs (map ri_timestamp rs)"
    "p_stored p = concat (map (stored_bytes compress codec encs) (cuts_of encs))"
    "p_directory p = concat (map put_entry (entries_of compress codec encs (map ri_timestamp rs) 0 (cuts_of encs)))"
    "p_trace p = push_all (trace_pushes rs (p_offsets p)) []"
    "p_attributes p = push_all (pair_pushes (p_keys p) rs (p_offsets p)) []"
    "p_content p = encode_content_index (if ci then map ri_content rs else [])"
    "length encs = length rs" "length rs < 2 ^ 32" "chained encs 0 (cuts_of encs)"
    "list_all2 (\<lambda>e t. take 8 e = u64_le t) encs (map ri_timestamp rs)"
    "length rs * RECORD_FIXED_LEN \<le> length (concat encs)" by metis
  let ?file = "assemble compress codec p" and ?h = "header_of compress codec p"
  let ?s = "opened compress ci codec p encs" and ?dir = "entries_of compress codec encs (map ri_timestamp rs) 0 (cuts_of encs)"
  from wb have mem: "list_all (\<lambda>b. length b \<le> isize_max) (buffers p)" "length ?file \<le> isize_max"
    and ok: "input_ok rs" and k32: "length (p_keys p) < 2 ^ 32"
    by (simp_all add: well_built_def rs input_ok_sort)
  have m: "length (p_region p) \<le> isize_max" "length (p_stored p) \<le> isize_max" "length (p_directory p) \<le> isize_max"
    "length (encode_offsets_body (p_offsets p)) \<le> isize_max" "length (encode_trace_index (p_trace p)) \<le> isize_max"
    "length (encode_attribute_index (p_keys p) (p_attributes p)) \<le> isize_max" "length (p_content p) \<le> isize_max"
    using mem(1) by (simp_all add: buffers_def)
  have h: "record_count ?h = length rs" "records_len ?h = length (p_stored p)" "records_logical_len ?h = length (concat encs)"
    "timestamps ?h = timestamp_range rs" "h_codec ?h = codec"
    by (simp_all add: header_of_def Let_def f)
  have e0: "concat encs = [] \<longleftrightarrow> rs = []"
    using region_nonempty [OF f(7)] f(13) by (cases encs) auto
  have c0: "cuts_of encs = [] \<longleftrightarrow> rs = []" using chained_empty_iff [OF f(15)] f(13) by auto
  have counts: "counts_ok ?h"
    unfolding counts_ok_def h using f(17) e0 c0 stored_empty_iff [OF lz f(7,15), of codec] by (simp add: f(8))
  have hlen: "HEADER_LEN \<le> length ?file" by (simp add: assemble_def)
  have parse: "parse_with_total (put_header ?h) (length ?file) = Inr ?h"
    using header_fits [OF mem(2) _ m(1)] f(1,14) mem(2) counts by (intro parse_put header_tiles) simp_all
  have n64: "unat (of_nat (length rs) :: u64) = length rs" using f(14) by (intro unat_of_nat_u64) simp
  have os: "sorted_wrt (<) (p_offsets p)" "length (p_offsets p) = length rs"
    using offs_sorted [OF region_nonempty [OF f(7)]] f(5,6,13) by simp_all
  have d_off: "decode_offsets_body (encode_offsets_body (p_offsets p)) (of_nat (length rs)) = Inr (p_offsets p)"
    unfolding decode_offsets_body_iff using os n64 by simp
  have d_rec: "validate_record_offsets (length (concat encs)) (map unat (p_offsets p)) = Inr ()"
    unfolding f(6) by (rule offsets_in_order_starts [OF f(7)])
  have d_dir: "decode_directory (p_directory p) (length rs) (length (p_stored p)) (length (concat encs)) = Inr ?dir"
    using directory_built [OF lz f(7,15), of codec] m(2) f(8,9,13) by simp
  have d_ts: "validate_header_timestamps (timestamp_range rs) ?dir = Inr ()" by (rule header_range_built [OF f(7,15)])
  have d_ord: "block_start_ordinals (length (concat encs)) (map unat (p_offsets p)) ?dir = Inr (map fst (cuts_of encs))"
    unfolding f(6) by (rule ordinals_built [OF lz f(7,15)])
  have d_tr: "decode_trace_index (encode_trace_index (p_trace p)) (of_nat (length rs)) = Inr (map_of (p_trace p))"
    using decode_trace_index_iff [OF m(5)] trace_built [OF ok os f(14)] f(10) by auto
  have pairs: "list_all (\<lambda>r. pairs_ok (record_pairs (p_keys p) r)) rs"
    using f(3) by (auto simp: holds_def list_all_iff)
  have d_at: "decode_attribute_index (encode_attribute_index (p_keys p) (p_attributes p)) (of_nat (length rs))
      = Inr (s_attribute_index ?s)"
    using decode_attribute_index_iff [OF m(6)] attributes_built [OF ok os f(14) f(2) k32 pairs] f(11)
    by (auto simp: opened_def Let_def)
  have pc: "p_content p = encode_content_index (contents_of ci rs)" by (simp add: f(12) contents_of_def)
  have d_co: "decode_content_head (p_content p) (fst (content ?h) + SECTION_WRAPPER_LEN) (length (p_content p)) (length rs)
      = Inr (s_content ?s)"
    unfolding pc content_built [OF f(14)] by (simp add: opened_def Let_def f(1))
  have rep: "represents compress codec encs (map ri_timestamp rs) (cuts_of encs) ?s"
    using represents_opened [OF wb refl, unfolded f(1), of encs] f rs by metis
  have s: "\<lparr>s_backing = ?file, s_header = ?h, s_record_offsets = p_offsets p, s_directory = ?dir,
      s_block_start_ordinals = map fst (cuts_of encs), s_trace_index = map_of (p_trace p),
      s_attribute_index = s_attribute_index ?s, s_content = s_content ?s\<rparr> = ?s"
    by (simp add: opened_def Let_def f(1))
  have last: "and_then (decoded_block decompress ?s 0) (\<lambda>_.
      and_then (timestamp_at decompress ?s (unat (last (p_offsets p)))) (\<lambda>t.
        if t \<noteq> snd (timestamps ?h) then Inl (Corrupt ''header max timestamp does not match the last record'') else Inr ?s))
    = Inr ?s" if "p_offsets p \<noteq> []"
  proof -
    have ne: "rs \<noteq> []" "encs \<noteq> []" using that os(2) f(13) by auto
    then have "0 < length (cuts_of encs)" using c0 by simp
    then have b: "decoded_block decompress ?s 0 = Inr (block_bytes encs (cuts_of encs ! 0))"
      using decoded_block_represents(1) [OF lz rep] by simp
    have "unat (last (p_offsets p)) = last (starts encs)" using that f(6) by (metis last_map)
    also have "\<dots> = psum encs (length encs - 1)" using ne by (simp add: starts_def last_map)
    finally have l: "unat (last (p_offsets p)) = psum encs (length encs - 1)" .
    have "timestamp_at decompress ?s (unat (last (p_offsets p))) = Inr (map ri_timestamp rs ! (length encs - 1))"
      unfolding l by (rule timestamp_at_represents [OF lz rep]) (use ne in simp)
    moreover have "sorted (map ri_timestamp rs)" using f(7) by (simp add: region_ok_def)
    then have "map ri_timestamp rs ! (length encs - 1) = snd (timestamps ?h)"
      using ne f(13) by (simp add: h timestamp_range_sorted last_conv_nth)
    ultimately show ?thesis using b by simp
  qed
  note uw = unwrap_wrap [OF lz m(3)] unwrap_wrap [OF lz m(4)] unwrap_wrap [OF lz m(5)] unwrap_wrap [OF lz m(6)]
    unwrap_wrap [OF lz m(7), of False Raw]
  have last': "(if p_offsets p = [] then Inr ?s else
      and_then (decoded_block decompress ?s 0) (\<lambda>_.
      and_then (timestamp_at decompress ?s (unat (last (p_offsets p)))) (\<lambda>t.
        if t \<noteq> snd (timestamp_range rs) then Inl (Corrupt ''header max timestamp does not match the last record'') else Inr ?s)))
    = Inr ?s"
    using last h(4) by simp
  have "open_backing decompress ?file = Inr ?s"
    unfolding open_backing_def Let_def
    using hlen
    by (simp add: sections_read parse h uw d_off d_rec d_dir d_ts d_ord d_tr d_at d_co split del: if_split)
      (simp only: s h(4) last')
  with rep that f os show thesis by metis
qed

end
