(* ===== verification/Segment_Queries.thy ===== *)
theory Segment_Queries
  imports Segment_Sound
begin

text \<open>
  The queries of an open segment, against the records it was built from: reads by offset, trace queries,
  attribute queries, time windows and content search.
\<close>

section \<open>Reading by ordinal\<close>

text \<open>The segment \<open>s\<close> holds the records \<open>rs\<close>, in that order, under the key dictionary \<open>keys\<close>.\<close>

definition serves ::
  "(bytes \<Rightarrow> bytes) \<Rightarrow> codec \<Rightarrow> bytes list \<Rightarrow> record_input list \<Rightarrow> bytes list \<Rightarrow> segment \<Rightarrow> bool" where
  "serves compress codec keys rs encs s \<longleftrightarrow>
     represents compress codec encs (map ri_timestamp rs) (cuts_of encs) s \<and> holds keys rs encs \<and> length encs = length rs"

lemma serves_offsets:
  "serves compress codec keys rs encs s \<Longrightarrow> s_record_offsets s = map (\<lambda>i. of_nat (psum encs i)) [0..<length rs]"
  by (simp add: serves_def represents_def offs_def)

lemma serves_sorted: "serves compress codec keys rs encs s \<Longrightarrow> sorted (map ri_timestamp rs)"
  by (simp add: serves_def represents_def region_ok_def)

lemma unat_psum:
  assumes "serves compress codec keys rs encs s"
  shows "unat (of_nat (psum encs i) :: u64) = psum encs i"
  using psum_le [of encs i] assms by (intro unat_of_nat_u64) (simp add: serves_def represents_def region_ok_def)

lemma decode_all_ordinals:
  assumes lz: "lz4_block compress decompress" and s: "serves compress codec keys rs encs s"
  shows "list_all (\<lambda>i. i < length rs) is \<Longrightarrow>
    decode_all decompress s (map (\<lambda>i. of_nat (psum encs i)) is) = Inr (map (\<lambda>i. stored_of keys (rs ! i)) is)"
proof (induction "is")
  case (Cons i "is")
  have "decode_at decompress s (psum encs i) = Inr (stored_of keys (rs ! i))"
    using s Cons.prems by (intro decode_at_represents [OF lz, of codec _ _ "cuts_of encs"]) (simp_all add: serves_def)
  with Cons show ?case by (simp add: unat_psum [OF s])
qed simp

lemma filter_by_ordinal: "map (\<lambda>i. f (xs ! i)) (filter (\<lambda>i. P (xs ! i)) [0..<length xs]) = map f (filter P xs)"
proof -
  have "map f (filter P (map ((!) xs) [0..<length xs])) = map (\<lambda>i. f (xs ! i)) (filter (\<lambda>i. P (xs ! i)) [0..<length xs])"
    by (simp only: filter_map map_map comp_def)
  then show ?thesis by (simp only: map_nth)
qed

lemma offsets_where_ordinals:
  "length encs = length rs \<Longrightarrow>
    offsets_where P rs (offs 0 encs) = map (\<lambda>i. of_nat (psum encs i)) (filter (\<lambda>i. P (rs ! i)) [0..<length rs])"
proof -
  assume len: "length encs = length rs"
  have "zip rs (offs 0 encs) = map (\<lambda>i. (rs ! i, of_nat (psum encs i))) [0..<length rs]"
    by (rule nth_equalityI) (simp_all add: len offs_def)
  then show ?thesis by (simp add: offsets_where_def filter_map comp_def)
qed

lemma decode_where:
  assumes lz: "lz4_block compress decompress" and s: "serves compress codec keys rs encs s"
  shows "decode_all decompress s (offsets_where P rs (offs 0 encs)) = Inr (map (stored_of keys) (filter P rs))"
proof -
  have "length encs = length rs" using s by (simp add: serves_def)
  then have "decode_all decompress s (offsets_where P rs (offs 0 encs))
      = Inr (map (\<lambda>i. stored_of keys (rs ! i)) (filter (\<lambda>i. P (rs ! i)) [0..<length rs]))"
    unfolding offsets_where_ordinals [OF \<open>length encs = length rs\<close>] using decode_all_ordinals [OF lz s] by (simp add: list_all_iff)
  then show ?thesis by (simp only: filter_by_ordinal)
qed

lemma decode_slice:
  assumes lz: "lz4_block compress decompress" and s: "serves compress codec keys rs encs s"
  shows "decode_all decompress s (bytes_at a n (s_record_offsets s)) = Inr (map (stored_of keys) (take n (drop a rs)))"
proof -
  have "bytes_at a n (s_record_offsets s) = map (\<lambda>i. of_nat (psum encs i)) (take n (drop a [0..<length rs]))"
    by (simp add: serves_offsets [OF s] bytes_at_def take_map drop_map)
  moreover have "list_all (\<lambda>i. i < length rs) (take n (drop a [0..<length rs]))"
    by (auto simp: list_all_iff dest!: in_set_takeD in_set_dropD)
  ultimately have "decode_all decompress s (bytes_at a n (s_record_offsets s))
      = Inr (map (\<lambda>i. stored_of keys (rs ! i)) (take n (drop a [0..<length rs])))"
    using decode_all_ordinals [OF lz s] by simp
  moreover have "map (\<lambda>i. stored_of keys (rs ! i)) (take n (drop a [0..<length rs]))
      = map (stored_of keys) (take n (drop a (map ((!) rs) [0..<length rs])))"
    by (simp add: take_map drop_map)
  ultimately show ?thesis by (simp only: map_nth)
qed

lemma sorted_stored:
  assumes "sorted (map ri_timestamp rs)"
  shows "sort_key r_timestamp (map (stored_of keys) (filter P rs)) = map (stored_of keys) (filter P rs)"
proof (rule sort_key_id_if_sorted)
  show "sorted (map r_timestamp (map (stored_of keys) (filter P rs)))"
    using sorted_filter [OF assms, of P] by (simp add: comp_def stored_of_def)
qed

section \<open>Time windows\<close>

text \<open>\<open>x\<close> splits the timestamps at \<open>bound\<close>: below it all are smaller, from it on none is.\<close>

definition splits :: "u64 list \<Rightarrow> u64 \<Rightarrow> nat \<Rightarrow> bool" where
  "splits tss bound x \<longleftrightarrow>
     x \<le> length tss \<and> (\<forall>i < x. tss ! i < bound) \<and> (\<forall>i. x \<le> i \<longrightarrow> i < length tss \<longrightarrow> bound \<le> tss ! i)"

lemma timestamp_at_ordinal:
  assumes lz: "lz4_block compress decompress" and s: "serves compress codec keys rs encs s" and "i < length rs"
  shows "timestamp_at decompress s (logical_offsets s ! i) = Inr (ri_timestamp (rs ! i))"
proof -
  have "logical_offsets s ! i = psum encs i"
    using assms(3) by (simp add: serves_offsets [OF s] unat_psum [OF s] del: upt_Suc)
  moreover have "timestamp_at decompress s (psum encs i) = Inr (map ri_timestamp rs ! i)"
    using s assms(3) by (intro timestamp_at_represents [OF lz, of codec _ _ "cuts_of encs"]) (simp_all add: serves_def)
  ultimately show ?thesis using assms(3) by simp
qed

lemma timestamps_mono:
  assumes "serves compress codec keys rs encs s" and "i \<le> j" and "j < length rs"
  shows "ri_timestamp (rs ! i) \<le> ri_timestamp (rs ! j)"
  using sorted_nth_mono [OF serves_sorted [OF assms(1)] assms(2)] assms(2,3) by simp

lemma search_block_splits:
  assumes lz: "lz4_block compress decompress" and s: "serves compress codec keys rs encs s"
  shows "low \<le> high \<Longrightarrow> high \<le> length rs \<Longrightarrow> (\<forall>i < low. ri_timestamp (rs ! i) < bound) \<Longrightarrow>
    (\<forall>i. high \<le> i \<longrightarrow> i < length rs \<longrightarrow> bound \<le> ri_timestamp (rs ! i)) \<Longrightarrow>
    \<exists>x. search_block decompress s bound low high = Inr x \<and> splits (map ri_timestamp rs) bound x"
proof (induction "high - low" arbitrary: low high rule: less_induct)
  case less
  show ?case
  proof (cases "low < high")
    case False
    with less.prems show ?thesis by (subst search_block.simps) (auto simp: splits_def)
  next
    case True
    obtain mid where m: "mid = low + (high - low) div 2" by blast
    then have mid: "low \<le> mid" "mid < high" "mid < length rs" using True less.prems(2) by auto
    note t = timestamp_at_ordinal [OF lz s mid(3)]
    show ?thesis
    proof (cases "ri_timestamp (rs ! mid) < bound")
      case lt: True
      have "ri_timestamp (rs ! i) < bound" if "i < mid + 1" for i
        using timestamps_mono [OF s, of i mid] that mid(3) lt by simp
      then have "\<exists>x. search_block decompress s bound (mid + 1) high = Inr x \<and> splits (map ri_timestamp rs) bound x"
        using less.prems mid by (intro less.hyps) simp_all
      then show ?thesis using True t lt by (subst search_block.simps) (simp add: Let_def m)
    next
      case ge: False
      have "bound \<le> ri_timestamp (rs ! i)" if "mid \<le> i" "i < length rs" for i
        using timestamps_mono [OF s that] ge by simp
      then have "\<exists>x. search_block decompress s bound low mid = Inr x \<and> splits (map ri_timestamp rs) bound x"
        using less.prems mid by (intro less.hyps) simp_all
      then show ?thesis using True t ge by (subst search_block.simps) (simp add: Let_def m)
    qed
  qed
qed

lemma partition_point_le: "partition_point P xs \<le> length xs"
  unfolding partition_point_def by (rule length_takeWhile_le)

lemma partition_point_below: "i < partition_point P xs \<Longrightarrow> P (xs ! i)"
  unfolding partition_point_def by (metis nth_mem set_takeWhileD takeWhile_nth)

lemma partition_point_at: "partition_point P xs < length xs \<Longrightarrow> \<not> P (xs ! partition_point P xs)"
  unfolding partition_point_def by (rule nth_length_takeWhile)

lemma serves_chained:
  assumes "serves compress codec keys rs encs s"
  shows "chained encs 0 (cuts_of encs)" and "length encs = length rs"
    and "k < length (cuts_of encs) \<Longrightarrow> chained encs (fst (cuts_of encs ! k)) (drop k (cuts_of encs))"
  using assms chained_drop [of encs 0 "cuts_of encs" k] by (simp_all add: serves_def represents_def)

lemma ordinals_of_blocks:
  assumes s: "serves compress codec keys rs encs s" and k: "k < length (cuts_of encs)"
  shows "s_block_start_ordinals s ! k = fst (cuts_of encs ! k)" and "length (s_block_start_ordinals s) = length (cuts_of encs)"
    and "fst (cuts_of encs ! k) < length rs"
    and "min_timestamp (s_directory s ! k) = ri_timestamp (rs ! fst (cuts_of encs ! k))"
proof -
  have r: "represents compress codec encs (map ri_timestamp rs) (cuts_of encs) s" "length encs = length rs"
    using s by (simp_all add: serves_def)
  show "s_block_start_ordinals s ! k = fst (cuts_of encs ! k)" "length (s_block_start_ordinals s) = length (cuts_of encs)"
    using r k by (simp_all add: represents_def)
  have "chained encs (fst (cuts_of encs ! k)) (drop k (cuts_of encs))"
    using serves_chained(3) [OF s k] .
  then show len: "fst (cuts_of encs ! k) < length rs" using k r(2) by (simp add: Cons_nth_drop_Suc [symmetric])
  have "s_directory s = entries_of compress codec encs (map ri_timestamp rs) 0 (cuts_of encs)"
    using r by (simp add: represents_def)
  then show "min_timestamp (s_directory s ! k) = ri_timestamp (rs ! fst (cuts_of encs ! k))"
    using entry_nth [OF k, of compress codec encs "map ri_timestamp rs" 0] len by (simp add: case_prod_beta Let_def)
qed

lemma first_at_or_after_splits:
  assumes lz: "lz4_block compress decompress" and s: "serves compress codec keys rs encs s"
  shows "\<exists>x. first_at_or_after decompress s bound = Inr x \<and> splits (map ri_timestamp rs) bound x"
proof -
  let ?dir = "s_directory s" and ?cs = "cuts_of encs" and ?n = "length rs"
  define nx where "nx = partition_point (\<lambda>e. min_timestamp e < bound) ?dir"
  have count: "length (s_record_offsets s) = ?n" using serves_offsets [OF s] by simp
  have r: "represents compress codec encs (map ri_timestamp rs) ?cs s" "length encs = ?n"
    using s by (simp_all add: serves_def)
  have ldir: "length ?dir = length ?cs" using r by (simp add: represents_def)
  have above: "bound \<le> ri_timestamp (rs ! i)" if "nx < length ?cs" "fst (?cs ! nx) \<le> i" "i < ?n" for i
  proof -
    have "\<not> min_timestamp (?dir ! nx) < bound"
      using partition_point_at [of "\<lambda>e. min_timestamp e < bound" ?dir] that(1) ldir by (simp add: nx_def)
    then show ?thesis
      using ordinals_of_blocks(4) [OF s that(1)] timestamps_mono [OF s that(2,3)] by simp
  qed
  define search where "search = (if nx = 0 then Inr 0 else
      let candidate = nx - 1;
          high = (if candidate + 1 < length (s_block_start_ordinals s) then s_block_start_ordinals s ! (candidate + 1)
                  else length (s_record_offsets s))
      in search_block decompress s bound (s_block_start_ordinals s ! candidate) high)"
  have "\<exists>x. search = Inr x \<and> splits (map ri_timestamp rs) bound x"
  proof (cases "nx = 0")
    case True
    have "bound \<le> ri_timestamp (rs ! i)" if "i < ?n" for i
    proof -
      have "?cs \<noteq> []" using chained_empty_iff [OF serves_chained(1) [OF s]] r(2) that by auto
      then have "0 < length ?cs" by simp
      moreover have "fst (?cs ! 0) = 0" using serves_chained(1) [OF s] \<open>?cs \<noteq> []\<close> by (cases ?cs) simp_all
      ultimately show ?thesis using above [of i] True that by simp
    qed
    then show ?thesis using True by (simp add: search_def splits_def)
  next
    case False
    define c where "c = nx - 1"
    have c: "c < length ?cs" "nx = c + 1"
      using False partition_point_le [of "\<lambda>e. min_timestamp e < bound" ?dir] ldir by (simp_all add: c_def nx_def)
    have "min_timestamp (?dir ! c) < bound"
      using partition_point_below [of c "\<lambda>e. min_timestamp e < bound" ?dir] c(2) by (simp add: nx_def)
    then have first: "ri_timestamp (rs ! fst (?cs ! c)) < bound" using ordinals_of_blocks(4) [OF s c(1)] by simp
    define high where "high = (if nx < length ?cs then fst (?cs ! nx) else ?n)"
    have chain: "chained encs (fst (?cs ! c)) (drop c ?cs)" using serves_chained(3) [OF s c(1)] .
    then have next_start: "nx < length ?cs \<Longrightarrow> fst (?cs ! c) < fst (?cs ! nx)"
      using c by (simp add: Cons_nth_drop_Suc [symmetric])
    have hi: "fst (?cs ! c) \<le> high" "high \<le> ?n"
      using next_start ordinals_of_blocks(3) [OF s c(1)] ordinals_of_blocks(3) [OF s, of nx] by (auto simp: high_def)
    have "search = search_block decompress s bound (fst (?cs ! c)) high"
      using False c ordinals_of_blocks(1,2) [OF s c(1)] ordinals_of_blocks(1) [OF s, of nx]
      by (simp add: search_def high_def count Let_def)
    moreover have "ri_timestamp (rs ! i) < bound" if "i < fst (?cs ! c)" for i
      using timestamps_mono [OF s, of i "fst (?cs ! c)"] that first ordinals_of_blocks(3) [OF s c(1)] by simp
    moreover have "bound \<le> ri_timestamp (rs ! i)" if "high \<le> i" "i < ?n" for i
      using above [of i] that by (auto simp: high_def split: if_splits)
    ultimately show ?thesis using search_block_splits [OF lz s hi] by simp
  qed
  then obtain x where x: "search = Inr x" "splits (map ri_timestamp rs) bound x" by blast
  have "first_at_or_after decompress s bound = Inr x"
  proof -
    have "x < ?n \<Longrightarrow> \<not> ri_timestamp (rs ! x) < bound" using x(2) by (auto simp: splits_def)
    moreover have "x > 0 \<Longrightarrow> \<not> bound \<le> ri_timestamp (rs ! (x - 1))"
      using x(2) by (auto simp: splits_def dest!: spec [of _ "x - 1"])
    moreover have "x \<le> ?n" using x(2) by (simp add: splits_def)
    ultimately show ?thesis
      using x(1) timestamp_at_ordinal [OF lz s, of x] timestamp_at_ordinal [OF lz s, of "x - 1"]
      unfolding first_at_or_after_def Let_def nx_def [symmetric] count search_def
      by (auto simp: Let_def)
  qed
  with x(2) show ?thesis by blast
qed

lemma window_slice:
  assumes "sorted (map ri_timestamp rs)" and "splits (map ri_timestamp rs) lo a"
    and "b = length rs \<and> (\<forall>r \<in> set rs. ri_timestamp r \<le> hi) \<or> splits (map ri_timestamp rs) (hi + 1) b \<and> hi < hi + 1"
  shows "take (max b a - a) (drop a rs) = filter (\<lambda>r. lo \<le> ri_timestamp r \<and> ri_timestamp r \<le> hi) rs"
proof -
  let ?P = "\<lambda>r. lo \<le> ri_timestamp r \<and> ri_timestamp r \<le> hi"
  have inc: "(t < hi + 1) = (t \<le> hi)" if "hi < hi + 1" for t :: u64
    using that by uint_arith
  have b: "b \<le> length rs" "\<And>i. i < b \<Longrightarrow> ri_timestamp (rs ! i) \<le> hi" "\<And>i. b \<le> i \<Longrightarrow> i < length rs \<Longrightarrow> hi < ri_timestamp (rs ! i)"
    using assms(3) inc by (auto simp: splits_def not_le [symmetric])
  have a: "a \<le> length rs" "\<And>i. i < a \<Longrightarrow> ri_timestamp (rs ! i) < lo" "\<And>i. a \<le> i \<Longrightarrow> i < length rs \<Longrightarrow> lo \<le> ri_timestamp (rs ! i)"
    using assms(2) by (auto simp: splits_def)
  have "\<not> ?P r" if "r \<in> set (take a rs)" for r
    using a that by (auto simp: in_set_conv_nth not_le)
  then have "filter ?P (take a rs) = []" by (simp add: filter_empty_conv)
  moreover have "?P r" if "r \<in> set (take (max b a - a) (drop a rs))" for r
  proof -
    from that obtain i where "i < max b a - a" "r = rs ! (a + i)" "a + i < length rs"
      unfolding in_set_conv_nth by (fastforce simp: less_diff_conv add.commute)
    then show ?thesis using a(3) [of "a + i"] b(2) [of "a + i"] by (simp add: less_max_iff_disj)
  qed
  then have "filter ?P (take (max b a - a) (drop a rs)) = take (max b a - a) (drop a rs)" by (simp add: filter_id_conv)
  moreover have "\<not> ?P r" if "r \<in> set (drop (max b a) rs)" for r
  proof -
    from that obtain i where i: "i < length (drop (max b a) rs)" "drop (max b a) rs ! i = r"
      unfolding in_set_conv_nth by blast
    have "max b a + i < length rs" using i(1) unfolding length_drop by linarith
    moreover have "r = rs ! (max b a + i)" using i(2) nth_drop [of "max b a" rs i] a(1) b(1) by simp
    ultimately show ?thesis using b(3) [OF trans_le_add1 [OF max.cobounded1]] by (simp add: not_le)
  qed
  then have "filter ?P (drop (max b a) rs) = []" by (simp add: filter_empty_conv)
  moreover have "drop (max b a) rs = drop (max b a - a) (drop a rs)" by simp
  then have "take a rs @ take (max b a - a) (drop a rs) @ drop (max b a) rs = rs"
    by (simp only: append_take_drop_id)
  then have "filter ?P rs = filter ?P (take a rs) @ filter ?P (take (max b a - a) (drop a rs)) @ filter ?P (drop (max b a) rs)"
    by (simp only: filter_append [symmetric])
  ultimately show ?thesis by simp
qed

section \<open>What an opened segment serves\<close>

lemma opened_serves:
  assumes lz: "lz4_block compress decompress" and wb: "well_built compress records ci codec p"
    and op: "open_backing decompress (assemble compress codec p) = Inr s"
  obtains encs where
    "serves compress codec (p_keys p) (p_records p) encs s" "p_records p = sort_key ri_timestamp records"
    "p_keys p = attribute_keys (p_records p)" "s = opened compress ci codec p encs" "p_offsets p = offs 0 encs"
    "p_trace p = push_all (trace_pushes (p_records p) (offs 0 encs)) []"
    "p_attributes p = push_all (pair_pushes (p_keys p) (p_records p) (offs 0 encs)) []"
proof -
  from open_built [OF lz wb refl] obtain encs where o:
    "open_backing decompress (assemble compress codec p) = Inr (opened compress ci codec p encs)"
    "represents compress codec encs (map ri_timestamp (sort_key ri_timestamp records)) (cuts_of encs) (opened compress ci codec p encs)"
    "holds (attribute_keys (sort_key ri_timestamp records)) (sort_key ri_timestamp records) encs"
    "length encs = length (sort_key ri_timestamp records)" "p_offsets p = offs 0 encs"
    "p_records p = sort_key ri_timestamp records" "p_keys p = attribute_keys (sort_key ri_timestamp records)"
    "p_trace p = push_all (trace_pushes (sort_key ri_timestamp records) (offs 0 encs)) []"
    "p_attributes p = push_all (pair_pushes (attribute_keys (sort_key ri_timestamp records)) (sort_key ri_timestamp records) (offs 0 encs)) []"
    by metis
  from o(1) op have s: "s = opened compress ci codec p encs" by simp
  show thesis
    by (rule that [of encs]) (use o s in \<open>simp_all only: serves_def\<close>)
qed

lemma built_pairs:
  assumes "serves compress codec keys rs encs s"
  shows "list_all (\<lambda>r. pairs_ok (record_pairs keys r)) rs"
  using assms by (auto simp: serves_def holds_def list_all_iff)

lemma query_trace_serves:
  assumes lz: "lz4_block compress decompress" and s: "serves compress codec keys rs encs s"
    and ix: "s_trace_index s = map_of (push_all (trace_pushes rs (offs 0 encs)) [])"
  shows "query_trace decompress s t = Inr (map (stored_of keys) (filter (\<lambda>r. ri_trace_id r = t) rs))"
proof -
  let ?os = "offsets_where (\<lambda>r. ri_trace_id r = t) rs (offs 0 encs)"
  have "s_trace_index s t = (if ?os = [] then None else Some ?os)"
    by (simp add: ix push_all_map trace_postings)
  then have "query_trace decompress s t
      = and_then (decode_all decompress s ?os) (\<lambda>records. Inr (sort_key r_timestamp records))"
    by (simp add: query_trace_def)
  then show ?thesis by (simp add: decode_where [OF lz s] sorted_stored [OF serves_sorted [OF s]])
qed

lemma key_ids_map:
  assumes "sorted_wrt (<) keys"
  shows "map_of (zip keys (map of_nat [0..<length keys])) k = (if k \<in> set keys then Some (key_id_of keys k) else None)"
proof (cases "k \<in> set keys")
  case True
  then obtain i where i: "i < length keys" "k = keys ! i" by (auto simp: in_set_conv_nth)
  then have "map_of (zip keys (map of_nat [0..<length keys])) k = Some (of_nat i)"
    using strict_distinct [OF assms] by (simp add: map_of_zip_nth)
  then show ?thesis using True i key_id_nth [OF assms i(1)] by simp
qed simp

lemma record_pairs_mem:
  assumes "sorted_wrt (<) keys" and "length keys < 2 ^ 32" and "k \<in> set keys" and "fst ` set (ri_attributes r) \<subseteq> set keys"
  shows "(key_id_of keys k, d) \<in> set (record_pairs keys r) \<longleftrightarrow> (\<exists>v. (k, v) \<in> set (ri_attributes r) \<and> hash_attribute k v = d)"
proof -
  have "a = k" if "(a, b) \<in> set (ri_attributes r)" "key_id_of keys a = key_id_of keys k" for a b
  proof -
    have "a \<in> set keys" using assms(4) that(1) by force
    then show ?thesis using key_id_lt(2) [OF assms(1,2)] assms(3) that(2) by metis
  qed
  then show ?thesis by (force simp: record_pairs_def)
qed

lemma binary_search_None: "x \<notin> set xs \<Longrightarrow> binary_search xs x = None"
  by (induction xs) auto

lemma carries_iff:
  assumes "pairs_ok (record_pairs keys r)"
  shows "carries (stored_of keys r) i d \<longleftrightarrow> (i, d) \<in> set (record_pairs keys r)"
proof -
  have sorted: "sorted_wrt (<) (map fst (record_pairs keys r))" using assms by (simp add: pairs_ok_def)
  show ?thesis
  proof (cases "i \<in> fst ` set (record_pairs keys r)")
    case True
    then obtain n where n: "n < length (record_pairs keys r)" "fst (record_pairs keys r ! n) = i"
      by (auto simp: in_set_conv_nth image_iff) 
    then have b: "binary_search (map fst (record_pairs keys r)) i = Some n"
      using binary_search_nth [OF sorted, of n] by simp
    have "(i, d) \<in> set (record_pairs keys r) \<longleftrightarrow> snd (record_pairs keys r ! n) = d"
    proof -
      have "distinct (map fst (record_pairs keys r))" using sorted by (rule strict_distinct)
      then show ?thesis using n by (metis eq_key_imp_eq_value nth_mem prod.collapse)
    qed
    then show ?thesis using b by (simp add: carries_def stored_of_def)
  next
    case False
    then have "(i, d) \<notin> set (record_pairs keys r)" by force
    moreover have "binary_search (map fst (record_pairs keys r)) i = None"
      using False by (simp add: binary_search_None)
    ultimately show ?thesis by (simp add: carries_def stored_of_def)
  qed
qed

lemma candidates_serves:
  assumes s: "serves compress codec keys rs encs s"
    and keys: "keys = attribute_keys rs" "length keys < 2 ^ 32"
    and ids: "ai_key_ids (s_attribute_index s) = map_of (zip keys (map of_nat [0..<length keys]))"
    and ix: "ai_postings (s_attribute_index s) = map_of (push_all (pair_pushes keys rs (offs 0 encs)) [])"
  shows "candidates s k v =
    (if k \<in> set keys then offsets_where (\<lambda>r. (key_id_of keys k, hash_attribute k v) \<in> set (record_pairs keys r)) rs (offs 0 encs)
     else [])"
proof -
  have sorted: "sorted_wrt (<) keys" by (simp add: keys(1) attribute_keys_sorted)
  have dist: "list_all (\<lambda>r. distinct (record_pairs keys r)) rs"
    using built_pairs [OF s] by (auto simp: list_all_iff pairs_ok_distinct)
  show ?thesis
    by (simp add: candidates_def key_id_def ids key_ids_map [OF sorted] ix push_all_map pair_postings [OF dist])
qed

lemma query_attribute_serves:
  assumes lz: "lz4_block compress decompress" and s: "serves compress codec keys rs encs s"
    and keys: "keys = attribute_keys rs" "length keys < 2 ^ 32"
    and ids: "ai_key_ids (s_attribute_index s) = map_of (zip keys (map of_nat [0..<length keys]))"
    and ix: "ai_postings (s_attribute_index s) = map_of (push_all (pair_pushes keys rs (offs 0 encs)) [])"
  shows "query_attribute decompress s k v =
    Inr (map (stored_of keys) (filter (\<lambda>r. \<exists>w. (k, w) \<in> set (ri_attributes r) \<and> hash_attribute k w = hash_attribute k v) rs))"
proof -
  let ?P = "\<lambda>r. \<exists>w. (k, w) \<in> set (ri_attributes r) \<and> hash_attribute k w = hash_attribute k v"
  have sorted: "sorted_wrt (<) keys" by (simp add: keys(1) attribute_keys_sorted)
  have sub: "r \<in> set rs \<Longrightarrow> fst ` set (ri_attributes r) \<subseteq> set keys" for r by (auto simp: keys(1) attribute_keys_set)
  have id: "key_id s k = (if k \<in> set keys then Some (key_id_of keys k) else None)"
    by (simp add: key_id_def ids key_ids_map [OF sorted])
  show ?thesis
  proof (cases "k \<in> set keys")
    case False
    then have "filter ?P rs = []" using sub by (force simp: filter_empty_conv)
    then show ?thesis using False id by (simp add: query_attribute_def)
  next
    case True
    let ?i = "key_id_of keys k" and ?d = "hash_attribute k v"
    let ?Q = "\<lambda>r. (?i, ?d) \<in> set (record_pairs keys r)"
    have PQ: "?Q r \<longleftrightarrow> ?P r" if "r \<in> set rs" for r using record_pairs_mem [OF sorted keys(2) True sub [OF that]] .
    have q: "query_attribute decompress s k v
        = Inr (sort_key r_timestamp (filter (\<lambda>r. carries r ?i ?d) (map (stored_of keys) (filter ?Q rs))))"
      using True by (simp add: query_attribute_def id candidates_serves [OF s keys ids ix] decode_where [OF lz s])
    have "filter (\<lambda>r. carries r ?i ?d) (map (stored_of keys) (filter ?Q rs)) = map (stored_of keys) (filter ?Q rs)"
      unfolding filter_id_conv using built_pairs [OF s] carries_iff by (auto simp: list_all_iff)
    moreover have "filter ?Q rs = filter ?P rs" using PQ by (intro filter_cong) simp_all
    ultimately show ?thesis using q sorted_stored [OF serves_sorted [OF s], of keys ?P] by simp
  qed
qed

lemma query_time_range_serves:
  assumes lz: "lz4_block compress decompress" and s: "serves compress codec keys rs encs s"
  shows "query_time_range decompress s lo hi =
    Inr (map (stored_of keys) (filter (\<lambda>r. lo \<le> ri_timestamp r \<and> ri_timestamp r \<le> hi) rs))"
proof (cases "lo > hi")
  case True
  then have "filter (\<lambda>r. lo \<le> ri_timestamp r \<and> ri_timestamp r \<le> hi) rs = []" by (auto simp: filter_empty_conv)
  with True show ?thesis by (simp add: query_time_range_def)
next
  case False
  obtain a where a: "first_at_or_after decompress s lo = Inr a" "splits (map ri_timestamp rs) lo a"
    using first_at_or_after_splits [OF lz s] by blast
  have n: "length (s_record_offsets s) = length rs" using serves_offsets [OF s] by simp
  obtain b where b: "(case checked_add hi 1 of Some exclusive \<Rightarrow> first_at_or_after decompress s exclusive
        | None \<Rightarrow> Inr (length rs)) = Inr b"
    "b = length rs \<and> (\<forall>r \<in> set rs. ri_timestamp r \<le> hi) \<or> splits (map ri_timestamp rs) (hi + 1) b \<and> hi < hi + 1"
  proof (cases "checked_add hi (1 :: u64)")
    case None
    then have "unat hi = 2 ^ 64 - 1" using unat_lt [of hi] by (simp add: checked_add_def split: if_splits)
    then have "t \<le> hi" for t :: u64 using unat_lt [of t] by (simp add: word_le_nat_alt)
    then show ?thesis using that [of "length rs"] None by simp
  next
    case (Some e)
    then have e: "e = hi + 1" "unat e = unat hi + 1" using checked_add_SomeD by fastforce+
    then have "hi < hi + 1" by (simp add: word_less_nat_alt)
    moreover obtain b where "first_at_or_after decompress s (hi + 1) = Inr b" "splits (map ri_timestamp rs) (hi + 1) b"
      using first_at_or_after_splits [OF lz s] by blast
    ultimately show ?thesis using that [of b] Some e(1) by simp
  qed
  have "query_time_range decompress s lo hi = Inr (map (stored_of keys) (take (max b a - a) (drop a rs)))"
    unfolding query_time_range_def ordinal_range_for_window_def option.case n b(1)
    using False a(1) by (simp add: decode_slice [OF lz s])
  then show ?thesis using window_slice [OF serves_sorted [OF s] a(2) b(2)] by simp
qed

section \<open>Content\<close>

lemma opened_content:
  assumes wb: "well_built compress records ci codec p" and o: "s = opened compress ci codec p encs"
  obtains pre where "s_backing s = pre @ encode_content_index (contents_of ci (p_records p)) @ []"
    and "length (s_backing s) \<le> isize_max"
    and "s_content s = (if indexed (contents_of ci (p_records p))
        then Some (content_of (contents_of ci (p_records p)) (length pre)) else None)"
proof
  let ?contents = "contents_of ci (p_records p)" and ?h = "header_of compress codec p"
  define pre where "pre = put_header ?h @ p_stored p @ wrap_section compress (p_directory p) codec
      @ wrap_section compress (encode_offsets_body (p_offsets p)) codec
      @ wrap_section compress (encode_trace_index (p_trace p)) codec
      @ wrap_section compress (encode_attribute_index (p_keys p) (p_attributes p)) codec
      @ take SECTION_WRAPPER_LEN (wrap_section compress (p_content p) Raw)"
  from built_facts [OF wb refl] have pc: "p_content p = encode_content_index ?contents" by (metis contents_of_def)
  have raw: "wrap_section compress (p_content p) Raw
      = take SECTION_WRAPPER_LEN (wrap_section compress (p_content p) Raw) @ p_content p"
    by (simp add: wrap_section_def SECTION_WRAPPER_LEN_def Let_def)
  then show "s_backing s = pre @ encode_content_index ?contents @ []"
    unfolding pre_def pc [symmetric] by (simp add: o opened_def Let_def assemble_def)
  show "length (s_backing s) \<le> isize_max" using wb by (simp add: o opened_def Let_def well_built_def)
  have "length pre = fst (content ?h) + SECTION_WRAPPER_LEN"
    using length_wrap_section [of compress "p_content p" Raw]
    by (simp add: pre_def header_of_def Let_def min_absorb2)
  then show "s_content s = (if indexed ?contents then Some (content_of ?contents (length pre)) else None)"
    by (simp add: o opened_def Let_def)
qed

lemma opened_content_complete:
  assumes wb: "well_built compress records ci codec p" and o: "s = opened compress ci codec p encs"
    and n: "length (s_record_offsets s) = length (p_records p)"
    and i: "i < length (p_records p)" and m: "query_matches q (ri_content (p_records p ! i))"
  shows "may_contain_content (s_content s) q"
    and "\<exists>found. content_candidate_offsets (s_content s) (s_backing s) (s_record_offsets s) q = Inr found
      \<and> (\<forall>cand. found = Some cand \<longrightarrow> s_record_offsets s ! i \<in> set cand)"
    and "ci \<Longrightarrow> \<exists>cand. content_candidate_offsets (s_content s) (s_backing s) (s_record_offsets s) q = Inr (Some cand)
      \<and> s_record_offsets s ! i \<in> set cand"
proof -
  let ?contents = "contents_of ci (p_records p)"
  obtain pre where b: "s_backing s = pre @ encode_content_index ?contents @ []" "length (s_backing s) \<le> isize_max"
    "s_content s = (if indexed ?contents then Some (content_of ?contents (length pre)) else None)"
    using opened_content [OF wb o] by metis
  have ix: "indexed ?contents" if ci
  proof -
    have "?contents ! i \<noteq> []" "i < length ?contents" using that i m by (auto simp: contents_of_def query_matches_iff)
    then show ?thesis by (auto simp: indexed_def list_ex_iff)
  qed
  have off: "\<not> ci \<Longrightarrow> \<not> indexed ?contents" by (simp add: contents_of_def indexed_def)
  have never: "may_contain_content (s_content s) q \<and> (\<exists>cand. content_candidate_offsets (s_content s) (s_backing s) (s_record_offsets s) q
      = Inr (Some cand) \<and> s_record_offsets s ! i \<in> set cand)" if ci
    using content_never_misses [OF ix [OF that], of pre "[]" "s_record_offsets s" i q] that b n i m ix [OF that]
    by (simp add: contents_of_def)
  show "may_contain_content (s_content s) q"
    using never off b(3) by (cases ci) (auto simp: may_contain_content_def)
  show "\<exists>found. content_candidate_offsets (s_content s) (s_backing s) (s_record_offsets s) q = Inr found
      \<and> (\<forall>cand. found = Some cand \<longrightarrow> s_record_offsets s ! i \<in> set cand)"
    using never off b(3) by (cases ci) (auto simp: content_candidate_offsets_def)
  show "ci \<Longrightarrow> \<exists>cand. content_candidate_offsets (s_content s) (s_backing s) (s_record_offsets s) q = Inr (Some cand)
      \<and> s_record_offsets s ! i \<in> set cand"
    using never by blast
qed

lemma opened_content_answers:
  assumes wb: "well_built compress records ci codec p" and o: "s = opened compress ci codec p encs"
  shows "\<exists>found. content_candidate_offsets (s_content s) (s_backing s) (s_record_offsets s) q = Inr found
    \<and> (\<forall>cand. found = Some cand \<longrightarrow> subseq cand (s_record_offsets s))"
proof -
  let ?contents = "contents_of ci (p_records p)"
  obtain pre where b: "s_backing s = pre @ encode_content_index ?contents @ []" "length (s_backing s) \<le> isize_max"
    "s_content s = (if indexed ?contents then Some (content_of ?contents (length pre)) else None)"
    using opened_content [OF wb o] by metis
  show ?thesis
  proof (cases "indexed ?contents")
    case True
    from content_search_answers [OF True, of pre "[]" "s_record_offsets s" q] b show ?thesis by (simp add: True)
  next
    case False
    then show ?thesis using b by (simp add: content_candidate_offsets_def)
  qed
qed

end
