(* ===== verification/Segment_Properties.thy ===== *)
theory Segment_Properties
  imports Segment_Queries
begin

text \<open>
  The properties of the segment file as a whole: what the encoder writes opens and answers every read
  and query exactly, and what the open accepts is safe to read.
\<close>

section \<open>A concrete segment\<close>

definition w_records :: "record_input list" where
  "w_records =
     [\<lparr>ri_timestamp = 7, ri_trace_id = ascii ''b'', ri_attributes = [(ascii ''k'', ascii ''v'')], ri_payload = [1, 2, 3],
       ri_content = [ascii ''Refund, please'']\<rparr>,
      \<lparr>ri_timestamp = 5, ri_trace_id = ascii ''a'', ri_attributes = [], ri_payload = [4], ri_content = []\<rparr>]"

definition w_encs :: "bytes list" where
  "w_encs = map (\<lambda>r. case encode_record r (record_pairs [ascii ''k''] r) of Inr e \<Rightarrow> e | Inl _ \<Rightarrow> []) (rev w_records)"

lemma w_sorted: "sort_key ri_timestamp w_records = rev w_records"
  by (simp add: w_records_def)

lemma w_keys: "attribute_keys (rev w_records) = [ascii ''k'']"
  by (simp add: w_records_def attribute_keys_def ascii_def)

definition w_parts :: parts where
  "w_parts = (let carved = carve_blocks rle_compress (concat w_encs) [0, 26] [5, 7] Raw in
    \<lparr>p_records = rev w_records, p_keys = [ascii ''k''], p_region = concat w_encs, p_offsets = [0, 26], p_stored = fst carved,
     p_directory = snd carved, p_trace = [(ascii ''a'', [0]), (ascii ''b'', [26])],
     p_attributes = [((0, hash_attribute (ascii ''k'') (ascii ''v'')), [26])],
     p_content = encode_content_index (map ri_content (rev w_records))\<rparr>)"

lemma w_build: "build_parts rle_compress w_records True Raw = Inr w_parts"
  unfolding build_parts_def w_sorted w_keys Let_def w_parts_def w_encs_def
  by (simp add: w_records_def ascii_def record_pairs_def key_id_of_def encode_record_def Let_def case_prod_beta)

lemma w_lens: "map length w_encs = [26, 48]"
  by (simp add: w_encs_def w_records_def ascii_def record_pairs_def encode_record_def)

lemma w_region: "length (concat w_encs) = 74"
  unfolding length_concat w_lens by simp

lemma w_cuts: "cuts [0, 26] 74 0 = [(0, 2)]"
  by (simp add: cuts.simps block_end.simps record_end_def COMPRESSION_BLOCK_BYTES_def)

lemma w_starts: "starts w_encs = [0, 26]"
proof -
  obtain a b where "w_encs = [a, b]" "length a = 26"
    using w_lens by (auto simp: map_eq_Cons_conv)
  moreover have "starts [a, b] = [0, length a]" for a b :: bytes
    by (simp add: starts_def psum_def)
  ultimately show ?thesis by metis
qed

lemma w_stored: "p_stored w_parts = concat w_encs" "length (p_directory w_parts) = 32"
proof -
  have "length w_encs = 2" using w_lens by (metis length_Cons length_map list.size(3) numeral_2_eq_2)
  then have c: "carve_loop rle_compress Raw (concat w_encs) [0, 26] [5, 7] 0 [] []
      = (concat w_encs, entries_of rle_compress Raw w_encs [5, 7] 0 [(0, 2)])"
    using carve_loop_cuts [of 0 w_encs rle_compress Raw "[5, 7]" "[]" "[]"]
    by (simp add: w_starts w_region w_cuts stored_bytes_def store_block_def block_bytes_def)
  then show "p_stored w_parts = concat w_encs" "length (p_directory w_parts) = 32"
    by (simp_all add: w_parts_def carve_blocks_def Let_def case_prod_beta)
qed

lemma w_well_built: "well_built rle_compress w_records True Raw w_parts"
proof -
  have c: "length (p_content w_parts) < 2 ^ 52"
    using length_content_index [of "map ri_content (rev w_records)"] by (simp add: w_parts_def w_records_def Let_def)
  have i: "length (encode_offsets_body (p_offsets w_parts)) \<le> 100" "length (encode_trace_index (p_trace w_parts)) \<le> 100"
    "length (encode_attribute_index (p_keys w_parts) (p_attributes w_parts)) \<le> 100"
    by (simp_all add: w_parts_def Let_def encode_offsets_body_def encode_trace_index_def encode_attribute_index_def
        put_trace_entry_def put_attribute_entry_def put_postings_def put_str_def ascii_def
        put_varint.simps)
  have r: "length (p_region w_parts) = 74" by (simp add: w_parts_def w_region Let_def)
  have "length (assemble rle_compress Raw w_parts) \<le> isize_max"
    using i c r w_stored by (simp add: assemble_def wrap_section_def HEADER_LEN_def w_region Let_def)
  moreover have "input_ok w_records" by (simp add: w_records_def input_ok_def ascii_def)
  ultimately show ?thesis
    using w_build i c r w_stored w_region
    by (simp add: well_built_def buffers_def) (simp add: w_records_def w_parts_def Let_def)
qed

section \<open>What the encoder writes is what a reader gets\<close>

text \<open>C23: a segment reads back as it was written. Whatever the records, the codec and the content
  flag, the encoder's file opens, and reading every offset of its table returns every record, complete
  and in stable timestamp order.\<close>

theorem a_written_segment_reads_back:
  assumes "lz4_block compress decompress" and "well_built compress records content_index codec p"
  shows "\<exists>file s. encode_with_codec compress records content_index codec = Inr file
    \<and> open_backing decompress file = Inr s
    \<and> decode_all decompress s (s_record_offsets s)
        = Inr (map (stored_of (p_keys p)) (sort_key ri_timestamp records))"
proof -
  let ?file = "assemble compress codec p"
  from open_built [OF assms refl] obtain s where s: "open_backing decompress ?file = Inr s" by metis
  from opened_serves [OF assms s] obtain encs where
    v: "serves compress codec (p_keys p) (p_records p) encs s" "p_records p = sort_key ri_timestamp records" by metis
  have "decode_all decompress s (s_record_offsets s) = Inr (map (stored_of (p_keys p)) (p_records p))"
    using decode_slice [OF assms(1) v(1), of 0 "length (p_records p)"] serves_offsets [OF v(1)]
    by (simp add: bytes_at_def)
  moreover have "encode_with_codec compress records content_index codec = Inr ?file"
    using assms(2) by (simp add: encode_with_codec_def well_built_def)
  ultimately show ?thesis using s v(2) by metis
qed

theorem a_written_segment_reads_back_witness:
  "\<exists>file s. encode_with_codec rle_compress w_records True Raw = Inr file
    \<and> open_backing rle_decompress file = Inr s
    \<and> decode_all rle_decompress s (s_record_offsets s)
        = Inr (map (stored_of (p_keys w_parts)) (sort_key ri_timestamp w_records))"
  by (rule a_written_segment_reads_back [OF rle_block w_well_built])

text \<open>A trace query on an opened segment returns exactly the records of that trace, in stable
  timestamp order.\<close>

theorem trace_queries_are_exact:
  assumes "lz4_block compress decompress" and "well_built compress records content_index codec p"
    and "open_backing decompress (assemble compress codec p) = Inr s"
  shows "query_trace decompress s trace_id =
    Inr (map (stored_of (p_keys p)) (filter (\<lambda>r. ri_trace_id r = trace_id) (sort_key ri_timestamp records)))"
proof -
  from opened_serves [OF assms] obtain encs where o:
    "serves compress codec (p_keys p) (p_records p) encs s" "p_records p = sort_key ri_timestamp records"
    "s = opened compress content_index codec p encs" "p_offsets p = offs 0 encs"
    "p_trace p = push_all (trace_pushes (p_records p) (offs 0 encs)) []" by metis
  have "s_trace_index s = map_of (push_all (trace_pushes (p_records p) (offs 0 encs)) [])"
    by (simp add: o(3) opened_def Let_def o(5))
  from query_trace_serves [OF assms(1) o(1) this] o(2) show ?thesis by simp
qed

lemma w_opens: "\<exists>s. open_backing rle_decompress (assemble rle_compress Raw w_parts) = Inr s"
  using open_built [OF rle_block w_well_built refl] by metis

definition w_segment :: segment where
  "w_segment = (case open_backing rle_decompress (assemble rle_compress Raw w_parts) of Inr s \<Rightarrow> s | Inl _ \<Rightarrow> undefined)"

lemma w_segment: "open_backing rle_decompress (assemble rle_compress Raw w_parts) = Inr w_segment"
  using w_opens by (auto simp: w_segment_def)

theorem trace_queries_are_exact_witness:
  "query_trace rle_decompress w_segment (ascii ''b'') = Inr [stored_of [ascii ''k''] (hd w_records)]"
  by (subst trace_queries_are_exact [OF rle_block w_well_built w_segment])
    (simp add: w_sorted, simp add: w_records_def w_parts_def ascii_def Let_def)

text \<open>An attribute query on an opened segment returns exactly the records holding the key with a
  value of the same digest: every record that carries the pair is there, and only a collision of two
  128-bit digests can add one.\<close>

theorem attribute_queries_are_exact:
  assumes "lz4_block compress decompress" and "well_built compress records content_index codec p"
    and "open_backing decompress (assemble compress codec p) = Inr s"
  shows "query_attribute decompress s key value =
    Inr (map (stored_of (p_keys p))
      (filter (\<lambda>r. \<exists>v. (key, v) \<in> set (ri_attributes r) \<and> hash_attribute key v = hash_attribute key value)
        (sort_key ri_timestamp records)))"
proof -
  from opened_serves [OF assms] obtain encs where o:
    "serves compress codec (p_keys p) (p_records p) encs s" "p_records p = sort_key ri_timestamp records"
    "p_keys p = attribute_keys (p_records p)" "s = opened compress content_index codec p encs"
    "p_attributes p = push_all (pair_pushes (p_keys p) (p_records p) (offs 0 encs)) []" by metis
  have "ai_key_ids (s_attribute_index s) = map_of (zip (p_keys p) (map of_nat [0..<length (p_keys p)]))"
    and "ai_postings (s_attribute_index s) = map_of (push_all (pair_pushes (p_keys p) (p_records p) (offs 0 encs)) [])"
    by (simp_all add: o(4) opened_def Let_def o(5))
  moreover have "length (p_keys p) < 2 ^ 32" using assms(2) by (simp add: well_built_def)
  ultimately show ?thesis using query_attribute_serves [OF assms(1) o(1) o(3)] o(2) by simp
qed

theorem attribute_queries_are_exact_witness:
  "query_attribute rle_decompress w_segment (ascii ''k'') (ascii ''v'') = Inr [stored_of [ascii ''k''] (hd w_records)]"
  by (subst attribute_queries_are_exact [OF rle_block w_well_built w_segment])
    (simp add: w_sorted, simp add: w_records_def w_parts_def ascii_def Let_def)

text \<open>C11: a time-window query on an opened segment returns exactly the records inside the inclusive
  window, in timestamp order, with both ends at the limits of 64 bits included.\<close>

theorem time_queries_are_exact:
  assumes "lz4_block compress decompress" and "well_built compress records content_index codec p"
    and "open_backing decompress (assemble compress codec p) = Inr s"
  shows "query_time_range decompress s start end' =
    Inr (map (stored_of (p_keys p))
      (filter (\<lambda>r. start \<le> ri_timestamp r \<and> ri_timestamp r \<le> end') (sort_key ri_timestamp records)))"
proof -
  from opened_serves [OF assms] obtain encs where o:
    "serves compress codec (p_keys p) (p_records p) encs s" "p_records p = sort_key ri_timestamp records" by metis
  from query_time_range_serves [OF assms(1) o(1)] o(2) show ?thesis by simp
qed

theorem time_queries_are_exact_witness:
  "query_time_range rle_decompress w_segment 6 (- 1) = Inr [stored_of [ascii ''k''] (hd w_records)]"
  by (subst time_queries_are_exact [OF rle_block w_well_built w_segment])
    (simp add: w_sorted, simp add: w_records_def w_parts_def ascii_def Let_def)

text \<open>No window pruning loses a record. When the header's range rules a window out, no record of the
  segment lies in it.\<close>

theorem pruned_segments_hold_nothing_in_the_window:
  assumes "lz4_block compress decompress" and "well_built compress records content_index codec p"
    and "open_backing decompress (assemble compress codec p) = Inr s"
    and "\<not> may_contain_timestamps s since until'" and "r \<in> set records"
  shows "(\<exists>t. since = Some t \<and> ri_timestamp r < t) \<or> (\<exists>t. until' = Some t \<and> t < ri_timestamp r)"
proof -
  from opened_serves [OF assms(1-3)] obtain encs where o:
    "serves compress codec (p_keys p) (p_records p) encs s" "p_records p = sort_key ri_timestamp records" by metis
  then have "list_all (\<lambda>t. fst (timestamps (s_header s)) \<le> t \<and> t \<le> snd (timestamps (s_header s))) (map ri_timestamp (p_records p))"
    by (simp add: serves_def represents_def)
  then have "fst (timestamps (s_header s)) \<le> ri_timestamp r" "ri_timestamp r \<le> snd (timestamps (s_header s))"
    using assms(5) o(2) by (simp_all add: list_all_iff)
  then show ?thesis
    using assms(4) by (auto simp: may_contain_timestamps_def Let_def split: option.splits if_splits)
qed

lemma w_range: "timestamps (s_header w_segment) = (5, 7)"
proof -
  from opened_serves [OF rle_block w_well_built w_segment] obtain encs
    where "w_segment = opened rle_compress True Raw w_parts encs" by metis
  moreover have "timestamps (s_header (opened rle_compress True Raw w_parts encs)) = timestamp_range (p_records w_parts)"
    by (simp add: opened_def header_of_def Let_def)
  ultimately have "timestamps (s_header w_segment) = timestamp_range (p_records w_parts)" by metis
  also have "p_records w_parts = rev w_records" by (simp add: w_parts_def Let_def)
  also have "timestamp_range (rev w_records) = (5, 7)" by (simp add: timestamp_range_def w_records_def)
  finally show ?thesis .
qed

theorem pruned_segments_hold_nothing_in_the_window_witness:
  "(\<exists>t. Some (8 :: u64) = Some t \<and> ri_timestamp (hd w_records) < t)
    \<or> (\<exists>t. (None :: u64 option) = Some t \<and> t < ri_timestamp (hd w_records))"
  by (rule pruned_segments_hold_nothing_in_the_window [OF rle_block w_well_built w_segment])
    (simp_all add: may_contain_timestamps_def w_range Let_def, simp add: w_records_def)

text \<open>C24: content search over an opened segment never misses. If the texts of record \<open>i\<close> match a query,
  the segment is not pruned, and the search of the file's own bit matrix succeeds and returns the offset
  of record \<open>i\<close> among its candidates.\<close>

theorem opened_segments_find_every_match:
  assumes "lz4_block compress decompress" and "well_built compress records True codec p"
    and "open_backing decompress (assemble compress codec p) = Inr s"
    and "i < length records" and "query_matches q (ri_content (sort_key ri_timestamp records ! i))"
  shows "may_contain_content (s_content s) q
    \<and> (\<exists>cand. content_candidate_offsets (s_content s) (s_backing s) (s_record_offsets s) q = Inr (Some cand)
          \<and> s_record_offsets s ! i \<in> set cand)"
proof -
  from opened_serves [OF assms(1-3)] obtain encs where o:
    "serves compress codec (p_keys p) (p_records p) encs s" "p_records p = sort_key ri_timestamp records"
    "s = opened compress True codec p encs" by metis
  have n: "length (s_record_offsets s) = length (p_records p)" using serves_offsets [OF o(1)] by simp
  have "i < length (p_records p)" "query_matches q (ri_content (p_records p ! i))"
    using assms(4,5) o(2) by simp_all
  from opened_content_complete(1,3) [OF assms(2) o(3) n this] show ?thesis by simp
qed

theorem opened_segments_find_every_match_witness:
  "may_contain_content (s_content w_segment) (query_new (ascii ''REFUND''))
    \<and> (\<exists>cand. content_candidate_offsets (s_content w_segment) (s_backing w_segment) (s_record_offsets w_segment)
            (query_new (ascii ''REFUND'')) = Inr (Some cand)
          \<and> s_record_offsets w_segment ! 1 \<in> set cand)"
proof (rule opened_segments_find_every_match [OF rle_block w_well_built w_segment])
  show "query_matches (query_new (ascii ''REFUND'')) (ri_content (sort_key ri_timestamp w_records ! 1))"
    by (simp add: w_sorted w_records_def query_matches_iff query_new_def tokens_def ascii_def fold_case_def
        is_ascii_alphanumeric_def is_ascii_uppercase_def to_ascii_lowercase_def)
qed (simp add: w_records_def)

section \<open>What the open accepts\<close>

text \<open>C15: an accepted header tiles the file. Its sections follow one another from the end of the header
  to the last byte, with no gap, overlap or arithmetic overflow, every wrapped section holds at least
  its wrapper, the record count fits the record region, and the header's checksum matches its bytes.\<close>

theorem an_accepted_header_tiles_the_file:
  assumes "parse_with_total bs tot = Inr h" and "tot < 2 ^ 64"
  shows "tiles tot HEADER_LEN (sections_of h) \<and> counts_ok h
    \<and> le_u32 (bytes_at (HEADER_LEN - 4) 4 bs) = crc32 (take (HEADER_LEN - 4) bs)"
  using assms by (rule parse_sound)

lemma w_header: "parse_with_total (put_header (header_of rle_compress Raw w_parts)) (length (assemble rle_compress Raw w_parts))
    = Inr (header_of rle_compress Raw w_parts)"
proof (rule parse_put)
  have m: "length (assemble rle_compress Raw w_parts) \<le> isize_max" using w_well_built by (simp add: well_built_def)
  show "length (assemble rle_compress Raw w_parts) < 2 ^ 64" using m by simp
  show "header_words_ok (header_of rle_compress Raw w_parts)"
    using m by (rule header_fits) (simp_all add: w_parts_def w_region Let_def, simp add: w_records_def)
  show "counts_ok (header_of rle_compress Raw w_parts)"
    unfolding counts_ok_def header_of_def Let_def
    by (simp add: w_stored w_region RECORD_FIXED_LEN_def) (simp add: w_parts_def w_region w_records_def Let_def flip: length_0_conv)
qed (rule header_tiles)

theorem an_accepted_header_tiles_the_file_witness:
  "tiles (length (assemble rle_compress Raw w_parts)) HEADER_LEN (sections_of (header_of rle_compress Raw w_parts))
    \<and> counts_ok (header_of rle_compress Raw w_parts)
    \<and> le_u32 (bytes_at (HEADER_LEN - 4) 4 (put_header (header_of rle_compress Raw w_parts)))
        = crc32 (take (HEADER_LEN - 4) (put_header (header_of rle_compress Raw w_parts)))"
  by (rule an_accepted_header_tiles_the_file [OF w_header]) (use w_well_built in \<open>simp add: well_built_def\<close>)

lemma decode_entries_sound:
  "decode_entries rll n data tot prev = Inr (es, tot') \<Longrightarrow>
    tot \<le> tot' \<and> list_all (\<lambda>e. stored_offset e + unat (stored_len e) \<le> tot' \<and> logical_start e < rll) es"
proof (induction n arbitrary: data tot prev es tot')
  case (Suc n)
  from Suc.prems obtain e es' where es: "es = e # es'"
    and c: "logical_start e < rll" "stored_offset e = tot"
    and rest: "decode_entries rll n (drop DIRECTORY_ENTRY_LEN data) (tot + unat (stored_len e)) (Some e) = Inr (es', tot')"
    by (auto simp: Let_def and_then_Inr ok_or_Inr u64_checked_add_def not_le split: if_splits)
  from Suc.IH [OF rest] c es show ?case by auto
qed simp

lemma find_starts_length: "find_starts offsets es = Inr ordinals \<Longrightarrow> length ordinals = length es"
  by (induction es arbitrary: ordinals) (auto simp: and_then_Inr)

text \<open>The logical bytes block \<open>k\<close> of a directory decodes to.\<close>

definition block_extent :: "nat \<Rightarrow> block_entry list \<Rightarrow> nat \<Rightarrow> nat" where
  "block_extent rll directory k =
     block_logical_end rll (drop (k + 1) directory) - logical_start (directory ! k)"

lemma extents_legal_sound:
  "extents_legal rll n ordinals es = Inr () \<Longrightarrow> length ordinals = length es \<Longrightarrow> k < length es \<Longrightarrow>
    block_extent rll es k < 2 ^ 31 \<and> (be_raw (es ! k) \<or> block_extent rll es k \<le> unat (stored_len (es ! k)) * 256 + 64)"
proof (induction rll n ordinals es arbitrary: k rule: extents_legal.induct)
  case (1 rll n ordinal ordinals e es)
  show ?case
  proof (cases k)
    case 0
    then show ?thesis
      using "1.prems" by (auto simp: Let_def block_extent_def COMPRESSION_BLOCK_BYTES_def not_less split: if_splits)
  next
    case (Suc j)
    have "extents_legal rll n ordinals es = Inr ()" using "1.prems"(1) by (auto simp: Let_def split: if_splits)
    then show ?thesis using "1.IH" [of _ _ _ j] "1.prems" Suc by (auto simp: Let_def block_extent_def split: if_splits)
  qed
qed simp_all

text \<open>A hostile directory cannot over-read or over-allocate. Every block of an accepted segment is
  stored inside the file, decodes to fewer than \<open>2 ^ 31\<close> bytes, and, unless it is raw, to no more than
  lz4 can expand its stored bytes to.\<close>

theorem accepted_blocks_are_bounded:
  assumes "open_backing decompress backing = Inr s" and "length backing \<le> isize_max" and "k < length (s_directory s)"
  shows "records_offset (s_header s) + stored_offset (s_directory s ! k) + unat (stored_len (s_directory s ! k))
        \<le> length (s_backing s)
    \<and> block_end_of s k - logical_start (s_directory s ! k) < 2 ^ 31
    \<and> (be_raw (s_directory s ! k)
       \<or> block_end_of s k - logical_start (s_directory s ! k) \<le> unat (stored_len (s_directory s ! k)) * 256 + 64)"
proof -
  let ?h = "s_header s" and ?dir = "s_directory s"
  from assms(1) obtain head body where b: "s_backing s = backing" "parse_with_total head (length backing) = Inr ?h"
    "decode_directory body (record_count ?h) (records_len ?h) (records_logical_len ?h) = Inr ?dir"
    "block_start_ordinals (records_logical_len ?h) (logical_offsets s) ?dir = Inr (s_block_start_ordinals s)"
    by (auto simp: open_backing_def Let_def and_then_Inr split: if_splits)
  have "tiles (length backing) HEADER_LEN (sections_of ?h)" using parse_sound [OF b(2)] assms(2) by simp
  then have fits: "records_offset ?h + records_len ?h \<le> length backing"
    using tiles_le [of "length backing" "records_offset ?h + records_len ?h"] by (auto simp: sections_of_def)
  from b(3) obtain n where "decode_entries (records_logical_len ?h) n body 0 None = Inr (?dir, records_len ?h)"
    by (auto simp: decode_directory_def Let_def and_then_Inr split: if_splits)
  from decode_entries_sound [OF this] have "stored_offset (?dir ! k) + unat (stored_len (?dir ! k)) \<le> records_len ?h"
    using assms(3) by (simp add: list_all_length)
  moreover from b(4) have "length (s_block_start_ordinals s) = length ?dir"
    "extents_legal (records_logical_len ?h) (length (s_record_offsets s)) (s_block_start_ordinals s) ?dir = Inr ()"
    by (auto simp: block_start_ordinals_def and_then_Inr find_starts_length)
  then have "block_extent (records_logical_len ?h) ?dir k < 2 ^ 31
      \<and> (be_raw (?dir ! k) \<or> block_extent (records_logical_len ?h) ?dir k \<le> unat (stored_len (?dir ! k)) * 256 + 64)"
    using extents_legal_sound assms(3) by metis
  ultimately show ?thesis using fits b(1) by (simp add: block_extent_def block_end_of_def)
qed

theorem accepted_blocks_are_bounded_witness:
  "records_offset (s_header w_segment) + stored_offset (s_directory w_segment ! 0)
        + unat (stored_len (s_directory w_segment ! 0)) \<le> length (s_backing w_segment)
    \<and> block_end_of w_segment 0 - logical_start (s_directory w_segment ! 0) < 2 ^ 31
    \<and> (be_raw (s_directory w_segment ! 0)
       \<or> block_end_of w_segment 0 - logical_start (s_directory w_segment ! 0)
          \<le> unat (stored_len (s_directory w_segment ! 0)) * 256 + 64)"
proof (rule accepted_blocks_are_bounded [OF w_segment])
  show "length (assemble rle_compress Raw w_parts) \<le> isize_max" using w_well_built by (simp add: well_built_def)
  from opened_serves [OF rle_block w_well_built w_segment] obtain encs where
    s: "serves rle_compress Raw (p_keys w_parts) (p_records w_parts) encs w_segment" by metis
  have "p_records w_parts \<noteq> []" by (simp add: w_parts_def w_records_def Let_def)
  then have "cuts_of encs \<noteq> []" using chained_empty_iff [OF serves_chained(1) [OF s]] serves_chained(2) [OF s] by auto
  then show "0 < length (s_directory w_segment)" using s by (simp add: serves_def represents_def)
qed

end
