(* ===== verification/Block_Cache.thy ===== *)
theory Block_Cache
  imports Segment_Properties "HOL-Library.Multiset"
begin

text \<open>
  The decoded-block cache of an open segment and the per-walk memo over it (\<open>BlockCache\<close>, \<open>BlockWalk\<close> and
  \<open>decode_at_walked\<close> in \<open>src/src/segment.rs\<close>), and the readers that interleave over them. The cache is
  shared by every reader of the segment, which takes its lock for the lookup and again for the insertion; a memo
  belongs to one walk.
\<close>

section \<open>The cache\<close>

definition BLOCK_CACHE_SLOTS :: nat where
  "BLOCK_CACHE_SLOTS = 4"

type_synonym block_cache = "(nat \<times> bytes) list"
type_synonym walk_memo = "(nat \<times> bytes) option"

definition cache_new :: block_cache where
  "cache_new = []"

fun slot_position :: "('a \<Rightarrow> bool) \<Rightarrow> 'a list \<Rightarrow> nat option" where
  "slot_position P [] = None"
| "slot_position P (x # xs) = (if P x then Some 0 else map_option Suc (slot_position P xs))"

definition cache_get :: "nat \<Rightarrow> block_cache \<Rightarrow> bytes option \<times> block_cache" where
  "cache_get block slots =
     (case slot_position (\<lambda>(held, _). held = block) slots of
        None \<Rightarrow> (None, slots)
      | Some p \<Rightarrow> (Some (snd (slots ! p)), slots ! p # take p slots @ drop (p + 1) slots))"

definition cache_insert :: "nat \<Rightarrow> bytes \<Rightarrow> block_cache \<Rightarrow> block_cache" where
  "cache_insert block bs slots =
     take BLOCK_CACHE_SLOTS ((block, bs) # filter (\<lambda>(held, _). held \<noteq> block) slots)"

definition cache_clear :: "block_cache \<Rightarrow> block_cache" where
  "cache_clear slots = []"

definition cache_resident :: "block_cache \<Rightarrow> nat" where
  "cache_resident slots = sum_list (map (\<lambda>(_, bs). length bs) slots)"

lemma slot_position_Some: "slot_position P xs = Some p \<Longrightarrow> p < length xs \<and> P (xs ! p)"
  by (induction xs arbitrary: p) (auto split: if_splits)

lemma slot_position_None: "slot_position P xs = None \<longleftrightarrow> \<not> list_ex P xs"
  by (induction xs) auto

text \<open>What a client of a bounded cache relies on: a hit returns something the cache holds, and no operation
  makes it hold a pair it was not given.\<close>

locale bounded_cache =
  fixes get :: "'k \<Rightarrow> 'c \<Rightarrow> 'v option \<times> 'c" and put :: "'k \<Rightarrow> 'v \<Rightarrow> 'c \<Rightarrow> 'c" and entries :: "'c \<Rightarrow> ('k \<times> 'v) set"
    and room :: "'c \<Rightarrow> bool"
  assumes hit: "get k c = (Some v, c') \<Longrightarrow> (k, v) \<in> entries c"
    and get_keeps: "get k c = (r, c') \<Longrightarrow> entries c' \<subseteq> entries c"
    and put_adds: "entries (put k v c) \<subseteq> insert (k, v) (entries c)"
    and get_room: "get k c = (r, c') \<Longrightarrow> room c \<Longrightarrow> room c'"
    and put_room: "room (put k v c)"
begin

text \<open>The pairs held are results of the function \<open>f\<close> the cache stands in front of.\<close>

definition coherent :: "('k \<Rightarrow> 'e + 'v) \<Rightarrow> 'c \<Rightarrow> bool" where
  "coherent f c \<longleftrightarrow> room c \<and> (\<forall>(k, v) \<in> entries c. f k = Inr v)"

lemma coherent_hit: "coherent f c \<Longrightarrow> get k c = (Some v, c') \<Longrightarrow> f k = Inr v"
  using hit by (fastforce simp: coherent_def)

lemma coherent_get: "coherent f c \<Longrightarrow> get k c = (r, c') \<Longrightarrow> coherent f c'"
  using get_keeps get_room by (fastforce simp: coherent_def)

lemma coherent_put: "coherent f c \<Longrightarrow> f k = Inr v \<Longrightarrow> coherent f (put k v c)"
  using put_adds put_room by (fastforce simp: coherent_def)

end

lemma cache_get_moves: "cache_get k c = (r, c') \<Longrightarrow> set c' = set c \<and> length c' = length c"
proof -
  assume g: "cache_get k c = (r, c')"
  show ?thesis
  proof (cases "slot_position (\<lambda>(held, _). held = k) c")
    case (Some p)
    then have p: "p < length c" using slot_position_Some by fastforce
    have c': "c' = c ! p # take p c @ drop (p + 1) c" using g Some by (simp add: cache_get_def)
    have "mset c = mset (take p c @ c ! p # drop (Suc p) c)" using p by (simp only: id_take_nth_drop [symmetric])
    then have "mset c' = mset c" by (simp add: c')
    then show ?thesis by (metis mset_eq_setD size_mset)
  qed (use g in \<open>simp add: cache_get_def\<close>)
qed

interpretation bc: bounded_cache cache_get cache_insert set "\<lambda>c. length c \<le> BLOCK_CACHE_SLOTS"
proof
  fix k c c' v
  assume "cache_get k c = (Some v, c' :: block_cache)"
  then obtain p where p: "slot_position (\<lambda>(held, _). held = k) c = Some p" "v = snd (c ! p)"
    by (auto simp: cache_get_def split: option.splits)
  have "p < length c" "fst (c ! p) = k" using slot_position_Some [OF p(1)] by (simp_all add: case_prod_beta)
  then show "(k, v) \<in> set c" using p(2) nth_mem [of p c] by (cases "c ! p") simp
next
  fix k v c
  show "set (cache_insert k v c) \<subseteq> insert (k, v) (set c)"
    using set_take_subset [of BLOCK_CACHE_SLOTS "(k, v) # filter (\<lambda>(held, _). held \<noteq> k) c"]
    by (auto simp: cache_insert_def)
qed (auto dest: cache_get_moves simp: cache_insert_def)

section \<open>Reads through the cache\<close>

definition cached_block ::
  "(bytes \<Rightarrow> nat \<Rightarrow> bytes option) \<Rightarrow> segment \<Rightarrow> nat \<Rightarrow> block_cache \<Rightarrow> (seg_error + bytes) \<times> block_cache" where
  "cached_block decompress s block cache =
     (case cache_get block cache of
        (Some bs, cache) \<Rightarrow> (Inr bs, cache)
      | (None, cache) \<Rightarrow>
          (case decoded_block decompress s block of
             Inl e \<Rightarrow> (Inl e, cache)
           | Inr decoded \<Rightarrow> (Inr decoded, cache_insert block decoded cache)))"

definition decoded_block_walked ::
  "(bytes \<Rightarrow> nat \<Rightarrow> bytes option) \<Rightarrow> segment \<Rightarrow> walk_memo \<Rightarrow> nat \<Rightarrow> block_cache
    \<Rightarrow> (seg_error + bytes) \<times> walk_memo \<times> block_cache" where
  "decoded_block_walked decompress s held block cache =
     (case held of
        Some (held_block, bs) \<Rightarrow>
          if held_block = block then (Inr bs, held, cache)
          else (case cached_block decompress s block cache of
                  (Inl e, cache) \<Rightarrow> (Inl e, held, cache)
                | (Inr bs, cache) \<Rightarrow> (Inr bs, Some (block, bs), cache))
      | None \<Rightarrow>
          (case cached_block decompress s block cache of
             (Inl e, cache) \<Rightarrow> (Inl e, held, cache)
           | (Inr bs, cache) \<Rightarrow> (Inr bs, Some (block, bs), cache)))"

text \<open>The block a record lies in and its length, and the record in the decoded bytes of its block.\<close>

definition located :: "segment \<Rightarrow> nat \<Rightarrow> seg_error + (nat \<times> nat)" where
  "located s offset =
     (if offset \<ge> records_logical_len (s_header s) then Inl (Corrupt ''record offset is outside record region'')
      else
        case binary_search (logical_offsets s) offset of
          None \<Rightarrow> Inl (Corrupt ''offset is not a record boundary'')
        | Some position \<Rightarrow>
            let after = (if position + 1 < length (s_record_offsets s)
                         then logical_offsets s ! (position + 1) else records_logical_len (s_header s))
            in if after < offset then Inl (Corrupt ''record length underflow'')
               else
                 let record_len = after - offset in
                 and_then (block_containing s offset) (\<lambda>block.
                 and_then (ok_or (u64_checked_add offset record_len) (Corrupt ''record length overflow'')) (\<lambda>e.
                   if e > block_end_of s block then Inl (Corrupt ''record spans compression blocks'')
                   else Inr (block, record_len))))"

definition record_in_block :: "segment \<Rightarrow> nat \<Rightarrow> nat \<Rightarrow> nat \<Rightarrow> bytes \<Rightarrow> seg_error + stored_record" where
  "record_in_block s offset block record_len bs =
     (let start = offset - logical_start (s_directory s ! block) in
      and_then (decode_record bs start (start + record_len)) (\<lambda>record.
      and_then (check_timestamp s (r_timestamp record)) (\<lambda>_. Inr record)))"

definition decode_at_walked ::
  "(bytes \<Rightarrow> nat \<Rightarrow> bytes option) \<Rightarrow> segment \<Rightarrow> walk_memo \<Rightarrow> nat \<Rightarrow> block_cache
    \<Rightarrow> (seg_error + stored_record) \<times> walk_memo \<times> block_cache" where
  "decode_at_walked decompress s held offset cache =
     (case located s offset of
        Inl e \<Rightarrow> (Inl e, held, cache)
      | Inr (block, record_len) \<Rightarrow>
          (case decoded_block_walked decompress s held block cache of
             (Inl e, held, cache) \<Rightarrow> (Inl e, held, cache)
           | (Inr bs, held, cache) \<Rightarrow> (record_in_block s offset block record_len bs, held, cache)))"

lemma decode_at_located:
  "decode_at decompress s offset =
     and_then (located s offset) (\<lambda>(block, record_len).
       and_then (decoded_block decompress s block) (record_in_block s offset block record_len))"
proof (cases "block_containing s offset")
  case (Inr block)
  have ok: "ok_or x e = (case x of None \<Rightarrow> Inl e | Some v \<Rightarrow> Inr v)" for x :: "nat option" and e :: seg_error by (cases x) simp_all
  show ?thesis
    by (simp add: decode_at_def located_def record_in_block_def [abs_def] Let_def Inr ok split: option.split)
qed (simp add: decode_at_def located_def Let_def split: option.split)

text \<open>The shared state of one segment: its cache, and the memo of every walk in progress.\<close>

definition memo_ok :: "(bytes \<Rightarrow> nat \<Rightarrow> bytes option) \<Rightarrow> segment \<Rightarrow> walk_memo \<Rightarrow> bool" where
  "memo_ok decompress s held = (case held of None \<Rightarrow> True | Some (b, bs) \<Rightarrow> decoded_block decompress s b = Inr bs)"

abbreviation cache_ok :: "(bytes \<Rightarrow> nat \<Rightarrow> bytes option) \<Rightarrow> segment \<Rightarrow> block_cache \<Rightarrow> bool" where
  "cache_ok decompress s \<equiv> bc.coherent (decoded_block decompress s)"

lemma cached_block_refines:
  assumes "cache_ok decompress s cache"
  shows "\<exists>cache'. cached_block decompress s block cache = (decoded_block decompress s block, cache') \<and> cache_ok decompress s cache'"
proof (cases "cache_get block cache")
  case (Pair hit cache1)
  have ok: "cache_ok decompress s cache1" using bc.coherent_get [OF assms Pair] .
  show ?thesis
  proof (cases hit)
    case (Some bs)
    then show ?thesis using bc.coherent_hit [OF assms] Pair ok by (simp add: cached_block_def)
  next
    case None
    then show ?thesis
      using Pair ok bc.coherent_put [OF ok] by (auto simp: cached_block_def split: sum.splits)
  qed
qed

lemma decoded_block_walked_refines:
  assumes "cache_ok decompress s cache" and "memo_ok decompress s held"
  shows "\<exists>held' cache'. decoded_block_walked decompress s held block cache = (decoded_block decompress s block, held', cache')
    \<and> memo_ok decompress s held' \<and> cache_ok decompress s cache'"
proof -
  from cached_block_refines [OF assms(1), of block] obtain cache' where
    c: "cached_block decompress s block cache = (decoded_block decompress s block, cache')" "cache_ok decompress s cache'" by blast
  show ?thesis
    using assms c unfolding decoded_block_walked_def memo_ok_def
    by (cases "decoded_block decompress s block") (auto split: option.splits prod.splits)
qed

lemma decode_at_walked_refines:
  assumes "cache_ok decompress s cache" and "memo_ok decompress s held"
  shows "\<exists>held' cache'. decode_at_walked decompress s held offset cache = (decode_at decompress s offset, held', cache')
    \<and> memo_ok decompress s held' \<and> cache_ok decompress s cache'"
proof (cases "located s offset")
  case (Inr found)
  obtain block record_len where found: "found = (block, record_len)" by (cases found)
  from decoded_block_walked_refines [OF assms, of block] obtain held' cache' where
    w: "decoded_block_walked decompress s held block cache = (decoded_block decompress s block, held', cache')"
    "memo_ok decompress s held'" "cache_ok decompress s cache'" by blast
  show ?thesis
    using w by (cases "decoded_block decompress s block") (simp_all add: decode_at_walked_def decode_at_located Inr found)
qed (use assms in \<open>simp add: decode_at_walked_def decode_at_located\<close>)

section \<open>Interleaved readers\<close>

text \<open>The readers of one segment share its cache under its lock, which a read takes twice: to look its block up, and,
  after a miss, to insert what it decoded outside the lock. So a read is two steps, with the steps of the other walks
  in between: \<open>Look\<close> finds the block and asks the memo, then the cache; \<open>Load\<close> decodes and inserts the block if
  neither had it, and returns the record. \<open>Read\<close> is a read that nothing runs beside, \<open>Start\<close> begins a walk, and
  \<open>Clear\<close> drops every cached block.\<close>

datatype read_op = Start nat | Look nat nat | Load nat | Read nat nat | Clear

text \<open>What a read holds between its two steps: the error that ends it, its block, or the miss.\<close>

datatype under_way = Refused seg_error | Held nat nat nat bytes | Missed nat nat nat

record read_state =
  rs_cache :: block_cache
  rs_memo :: "nat \<Rightarrow> walk_memo"
  rs_under_way :: "nat \<Rightarrow> under_way option"

definition look :: "segment \<Rightarrow> nat \<Rightarrow> nat \<Rightarrow> read_state \<Rightarrow> read_state" where
  "look s w offset st =
     (let goes = (\<lambda>u st. st\<lparr>rs_under_way := (rs_under_way st)(w \<mapsto> u)\<rparr>);
          ask = (\<lambda>block record_len.
            case cache_get block (rs_cache st) of
              (Some bs, cache) \<Rightarrow>
                goes (Held offset block record_len bs) (st\<lparr>rs_cache := cache, rs_memo := (rs_memo st)(w \<mapsto> (block, bs))\<rparr>)
            | (None, cache) \<Rightarrow> goes (Missed offset block record_len) (st\<lparr>rs_cache := cache\<rparr>))
      in case located s offset of
           Inl e \<Rightarrow> goes (Refused e) st
         | Inr (block, record_len) \<Rightarrow>
             (case rs_memo st w of
                Some (held_block, bs) \<Rightarrow>
                  if held_block = block then goes (Held offset block record_len bs) st else ask block record_len
              | None \<Rightarrow> ask block record_len))"

definition load ::
  "(bytes \<Rightarrow> nat \<Rightarrow> bytes option) \<Rightarrow> segment \<Rightarrow> nat \<Rightarrow> read_state \<Rightarrow> (seg_error + stored_record) option \<times> read_state" where
  "load decompress s w st =
     (let ended = st\<lparr>rs_under_way := (rs_under_way st)(w := None)\<rparr> in
      case rs_under_way st w of
        None \<Rightarrow> (None, st)
      | Some (Refused e) \<Rightarrow> (Some (Inl e), ended)
      | Some (Held offset block record_len bs) \<Rightarrow> (Some (record_in_block s offset block record_len bs), ended)
      | Some (Missed offset block record_len) \<Rightarrow>
          (case decoded_block decompress s block of
             Inl e \<Rightarrow> (Some (Inl e), ended)
           | Inr bs \<Rightarrow>
               (Some (record_in_block s offset block record_len bs),
                ended\<lparr>rs_cache := cache_insert block bs (rs_cache st), rs_memo := (rs_memo st)(w \<mapsto> (block, bs))\<rparr>)))"

fun read_step ::
  "(bytes \<Rightarrow> nat \<Rightarrow> bytes option) \<Rightarrow> segment \<Rightarrow> read_op \<Rightarrow> read_state \<Rightarrow> (seg_error + stored_record) option \<times> read_state" where
  "read_step decompress s (Start w) st =
     (None, st\<lparr>rs_memo := (rs_memo st)(w := None), rs_under_way := (rs_under_way st)(w := None)\<rparr>)"
| "read_step decompress s (Look w offset) st = (None, look s w offset st)"
| "read_step decompress s (Load w) st = load decompress s w st"
| "read_step decompress s (Read w offset) st =
     (let (r, held, cache) = decode_at_walked decompress s (rs_memo st w) offset (rs_cache st)
      in (Some r, st\<lparr>rs_cache := cache, rs_memo := (rs_memo st)(w := held), rs_under_way := (rs_under_way st)(w := None)\<rparr>))"
| "read_step decompress s Clear st = (None, st\<lparr>rs_cache := cache_clear (rs_cache st)\<rparr>)"

text \<open>The two steps of a read, one right after the other, are the read.\<close>

lemma look_then_load: "load decompress s w (look s w offset st) = read_step decompress s (Read w offset) st"
  by (cases st) (auto simp: look_def load_def decode_at_walked_def decoded_block_walked_def cached_block_def Let_def fun_upd_idem
      split: sum.splits option.splits prod.splits)

fun run_reads ::
  "(bytes \<Rightarrow> nat \<Rightarrow> bytes option) \<Rightarrow> segment \<Rightarrow> read_op list \<Rightarrow> read_state
    \<Rightarrow> (seg_error + stored_record) option list \<times> read_state" where
  "run_reads decompress s [] st = ([], st)"
| "run_reads decompress s (op # ops) st =
     (let (r, st) = read_step decompress s op st; (rs, st) = run_reads decompress s ops st in (r # rs, st))"

text \<open>The reader without a cache: a read returns the record of the file at the offset its walk asked for.\<close>

fun asks :: "read_op \<Rightarrow> (nat \<Rightarrow> nat option) \<Rightarrow> nat \<Rightarrow> nat option" where
  "asks (Start w) asked = asked(w := None)"
| "asks (Look w offset) asked = asked(w \<mapsto> offset)"
| "asks (Load w) asked = asked(w := None)"
| "asks (Read w offset) asked = asked(w := None)"
| "asks Clear asked = asked"

fun plain_read ::
  "(bytes \<Rightarrow> nat \<Rightarrow> bytes option) \<Rightarrow> segment \<Rightarrow> (nat \<Rightarrow> nat option) \<Rightarrow> read_op \<Rightarrow> (seg_error + stored_record) option" where
  "plain_read decompress s asked (Read w offset) = Some (decode_at decompress s offset)"
| "plain_read decompress s asked (Load w) = map_option (decode_at decompress s) (asked w)"
| "plain_read decompress s asked _ = None"

fun plain_reads ::
  "(bytes \<Rightarrow> nat \<Rightarrow> bytes option) \<Rightarrow> segment \<Rightarrow> (nat \<Rightarrow> nat option) \<Rightarrow> read_op list \<Rightarrow> (seg_error + stored_record) option list" where
  "plain_reads decompress s asked [] = []"
| "plain_reads decompress s asked (op # ops) = plain_read decompress s asked op # plain_reads decompress s (asks op asked) ops"

text \<open>A read under way returns what reading its offset from the file returns.\<close>

definition under_way_ok :: "(bytes \<Rightarrow> nat \<Rightarrow> bytes option) \<Rightarrow> segment \<Rightarrow> nat option \<Rightarrow> under_way option \<Rightarrow> bool" where
  "under_way_ok decompress s asked u =
     (case u of
        None \<Rightarrow> asked = None
      | Some (Refused e) \<Rightarrow> (\<exists>offset. asked = Some offset \<and> located s offset = Inl e)
      | Some (Held offset block record_len bs) \<Rightarrow>
          asked = Some offset \<and> located s offset = Inr (block, record_len) \<and> decoded_block decompress s block = Inr bs
      | Some (Missed offset block record_len) \<Rightarrow> asked = Some offset \<and> located s offset = Inr (block, record_len))"

definition read_state_ok :: "(bytes \<Rightarrow> nat \<Rightarrow> bytes option) \<Rightarrow> segment \<Rightarrow> (nat \<Rightarrow> nat option) \<Rightarrow> read_state \<Rightarrow> bool" where
  "read_state_ok decompress s asked st \<longleftrightarrow> cache_ok decompress s (rs_cache st)
     \<and> (\<forall>w. memo_ok decompress s (rs_memo st w)) \<and> (\<forall>w. under_way_ok decompress s (asked w) (rs_under_way st w))"

lemma look_keeps:
  assumes "read_state_ok decompress s asked st"
  shows "read_state_ok decompress s (asked(w \<mapsto> offset)) (look s w offset st)"
proof (cases "located s offset")
  case (Inr found)
  obtain block record_len where found: "found = (block, record_len)" by (cases found)
  obtain looked cache where g: "cache_get block (rs_cache st) = (looked, cache)" by (cases "cache_get block (rs_cache st)")
  have c: "cache_ok decompress s (rs_cache st)" and memo: "memo_ok decompress s (rs_memo st w)"
    using assms by (simp_all add: read_state_ok_def)
  have "cache_ok decompress s cache" using bc.coherent_get [OF c g] .
  moreover have "decoded_block decompress s block = Inr bs" if "looked = Some bs" for bs
    using bc.coherent_hit [OF c] g that by simp
  ultimately show ?thesis
    using assms memo unfolding look_def Inr found Let_def sum.case prod.case g
    by (cases looked) (auto simp: read_state_ok_def under_way_ok_def memo_ok_def Inr found split: option.splits)
qed (use assms in \<open>simp add: look_def read_state_ok_def under_way_ok_def\<close>)

lemma load_refines:
  assumes "read_state_ok decompress s asked st"
  shows "\<exists>st'. load decompress s w st = (map_option (decode_at decompress s) (asked w), st')
    \<and> read_state_ok decompress s (asked(w := None)) st'"
proof -
  have c: "cache_ok decompress s (rs_cache st)" and u: "under_way_ok decompress s (asked w) (rs_under_way st w)"
    using assms by (simp_all add: read_state_ok_def)
  show ?thesis
  proof (cases "rs_under_way st w")
    case None
    then show ?thesis using assms u by (auto simp: load_def under_way_ok_def read_state_ok_def)
  next
    case (Some way)
    note [simp] = Some load_def under_way_ok_def read_state_ok_def decode_at_located memo_ok_def
    show ?thesis
    proof (cases way)
      case (Missed offset block record_len)
      then show ?thesis
        using assms u bc.coherent_put [OF c, of block] by (cases "decoded_block decompress s block") auto
    qed (use assms u in auto)
  qed
qed

lemma read_step_refines:
  assumes "read_state_ok decompress s asked st"
  shows "\<exists>st'. read_step decompress s op st = (plain_read decompress s asked op, st') \<and> read_state_ok decompress s (asks op asked) st'"
proof (cases op)
  case (Read w offset)
  from assms decode_at_walked_refines [of decompress s "rs_cache st" "rs_memo st w" offset]
  show ?thesis by (auto simp: Read read_state_ok_def under_way_ok_def)
next
  case (Look w offset)
  then show ?thesis using look_keeps [OF assms] by simp
next
  case (Load w)
  then show ?thesis using load_refines [OF assms] by simp
qed (use assms in \<open>auto simp: read_state_ok_def memo_ok_def under_way_ok_def cache_clear_def bc.coherent_def\<close>)

lemma run_reads_refines:
  "read_state_ok decompress s asked st \<Longrightarrow>
    \<exists>st' asked'. run_reads decompress s ops st = (plain_reads decompress s asked ops, st') \<and> read_state_ok decompress s asked' st'"
proof (induction ops arbitrary: st asked)
  case (Cons op ops)
  from read_step_refines [OF Cons.prems, of op] obtain st1 where
    "read_step decompress s op st = (plain_read decompress s asked op, st1)" "read_state_ok decompress s (asks op asked) st1" by blast
  with Cons.IH [of "asks op asked" st1] show ?case by auto
qed auto

definition fresh_reads :: read_state where
  "fresh_reads = \<lparr>rs_cache = cache_new, rs_memo = (\<lambda>_. None), rs_under_way = (\<lambda>_. None)\<rparr>"

lemma fresh_reads_ok: "read_state_ok decompress s (\<lambda>_. None) fresh_reads"
  by (simp add: read_state_ok_def fresh_reads_def cache_new_def memo_ok_def under_way_ok_def bc.coherent_def)

text \<open>C26: the block cache and the walk memos are invisible. However many walks interleave their reads over
  one segment, the steps of one between the lookup and the insertion of another, with the cache evicting and being
  cleared at any moment, every read returns what reading that record from the file alone returns, errors included,
  and the cache never holds more than its slots.\<close>

theorem cached_reads_refine_plain_reads:
  "fst (run_reads decompress s ops fresh_reads) = plain_reads decompress s (\<lambda>_. None) ops
    \<and> length (rs_cache (snd (run_reads decompress s ops fresh_reads))) \<le> BLOCK_CACHE_SLOTS"
  using run_reads_refines [OF fresh_reads_ok, of decompress s ops]
  by (auto simp: read_state_ok_def bc.coherent_def)

end
