(* ===== verification/Segment_Eager.thy ===== *)
theory Segment_Eager
  imports Block_Cache
begin

text \<open>
  The eager open, \<open>Segment::from_bytes\<close> (\<open>src/src/segment.rs\<close>): every record is decoded, through the cache
  and the memo, before the segment is returned.
\<close>

section \<open>The eager open\<close>

definition section_bytes :: "bytes \<Rightarrow> nat \<Rightarrow> nat \<Rightarrow> seg_error + bytes" where
  "section_bytes bs offset len =
     and_then (ok_or (u64_checked_add offset len) (Corrupt ''section bounds overflow'')) (\<lambda>e.
       if e > length bs then Inl (Corrupt ''section exceeds file bounds'') else Inr (bytes_at offset len bs))"

definition observe :: "u64 \<Rightarrow> (u64 \<times> u64) option \<Rightarrow> (u64 \<times> u64) option" where
  "observe t observed = Some (case observed of Some (lo, hi) \<Rightarrow> (min lo t, max hi t) | None \<Rightarrow> (t, t))"

fun eager_loop ::
  "(bytes \<Rightarrow> nat \<Rightarrow> bytes option) \<Rightarrow> segment \<Rightarrow> u64 list \<Rightarrow> walk_memo \<Rightarrow> block_cache \<Rightarrow> (u64 \<times> u64) option
    \<Rightarrow> seg_error + (u64 \<times> u64) option" where
  "eager_loop decompress s [] held cache observed = Inr observed"
| "eager_loop decompress s (offset # offsets) held cache observed =
     (case decode_at_walked decompress s held (unat offset) cache of
        (Inl e, held, cache) \<Rightarrow> Inl e
      | (Inr record, held, cache) \<Rightarrow>
          eager_loop decompress s offsets held cache (observe (r_timestamp record) observed))"

definition from_bytes :: "(bytes \<Rightarrow> nat \<Rightarrow> bytes option) \<Rightarrow> bytes \<Rightarrow> seg_error + segment" where
  "from_bytes decompress bs =
     and_then (parse_with_total bs (length bs)) (\<lambda>h.
     and_then (section_bytes bs (offsets_offset h) (offsets_len h)) (\<lambda>offsets_bytes.
     and_then (unwrap_section decompress offsets_bytes True ''record-offset index'') (\<lambda>offsets_body.
     and_then (decode_offsets_body offsets_body (of_nat (record_count h))) (\<lambda>record_offsets.
     and_then (validate_record_offsets (records_logical_len h) (map unat record_offsets)) (\<lambda>_.
     and_then (section_bytes bs (directory_offset h) (directory_len h)) (\<lambda>directory_bytes.
     and_then (unwrap_section decompress directory_bytes True ''block directory'') (\<lambda>directory_body.
     and_then (decode_directory directory_body (record_count h) (records_len h) (records_logical_len h)) (\<lambda>directory.
     and_then (validate_header_timestamps (timestamps h) directory) (\<lambda>_.
     and_then (block_start_ordinals (records_logical_len h) (map unat record_offsets) directory) (\<lambda>ordinals.
     and_then (section_bytes bs (trace_index_offset h) (trace_index_len h)) (\<lambda>trace_bytes.
     and_then (unwrap_section decompress trace_bytes True ''trace index'') (\<lambda>trace_body.
     and_then (decode_trace_index trace_body (of_nat (record_count h))) (\<lambda>trace_index.
     and_then (section_bytes bs (attribute_index_offset h) (attribute_index_len h)) (\<lambda>attribute_bytes.
     and_then (unwrap_section decompress attribute_bytes True ''attribute index'') (\<lambda>attribute_body.
     and_then (decode_attribute_index attribute_body (of_nat (record_count h))) (\<lambda>attribute_index.
     and_then (section_bytes bs (fst (content h)) (snd (content h))) (\<lambda>content_bytes.
     and_then (unwrap_section decompress content_bytes False ''content index'') (\<lambda>content_body.
     and_then (decode_content_head content_body (fst (content h) + SECTION_WRAPPER_LEN) (length content_body)
                 (record_count h)) (\<lambda>content.
       let s = \<lparr>s_backing = bs, s_header = h, s_record_offsets = record_offsets, s_directory = directory,
                s_block_start_ordinals = ordinals, s_trace_index = trace_index,
                s_attribute_index = attribute_index, s_content = content\<rparr>
       in and_then (eager_loop decompress s record_offsets None cache_new None) (\<lambda>observed.
            case observed of
              None \<Rightarrow> Inr s
            | Some extent \<Rightarrow>
                if extent \<noteq> timestamps h then Inl (Corrupt ''header timestamp range does not match the records'')
                else Inr s))))))))))))))))))))"

section \<open>What the loop sees\<close>

lemma eager_loop_decodes:
  "cache_ok decompress s cache \<Longrightarrow> memo_ok decompress s held \<Longrightarrow>
    eager_loop decompress s offsets held cache observed
      = and_then (decode_all decompress s offsets) (\<lambda>records. Inr (fold (observe \<circ> r_timestamp) records observed))"
proof (induction offsets arbitrary: held cache observed)
  case (Cons offset offsets)
  from decode_at_walked_refines [OF Cons.prems, of "unat offset"] obtain held' cache' where
    w: "decode_at_walked decompress s held (unat offset) cache = (decode_at decompress s (unat offset), held', cache')"
    "memo_ok decompress s held'" "cache_ok decompress s cache'" by blast
  show ?case
    using w Cons.IH [OF w(3,2)]
    by (cases "decode_at decompress s (unat offset)"; cases "decode_all decompress s offsets") (simp_all add: comp_def)
qed simp

lemma observe_fold: "fold (observe \<circ> f) xs (Some lh) = Some (fold (\<lambda>x (lo, hi). (min lo (f x), max hi (f x))) xs lh)"
  by (induction xs arbitrary: lh) (auto simp: observe_def split: prod.splits)

lemma observed_range:
  "rs \<noteq> [] \<Longrightarrow> fold (observe \<circ> r_timestamp) (map (stored_of keys) rs) None = Some (timestamp_range rs)"
proof -
  assume "rs \<noteq> []"
  then obtain r rs' where rs: "rs = r # rs'" by (cases rs) auto
  have "min (- 1) t = t" "max 0 t = t" for t :: u64
    by (rule min.absorb2, rule word_order.extremum) simp
  then show ?thesis
    using observe_fold [of r_timestamp "map (stored_of keys) rs'"]
    by (simp add: rs timestamp_range_def observe_def fold_map comp_def stored_of_def)
qed

section \<open>The two opens agree on what the encoder writes\<close>

lemma bytes_at_append: "i + n \<le> length xs \<Longrightarrow> bytes_at i n (xs @ ys) = bytes_at i n xs"
  by (simp add: bytes_at_def)

lemma parse_with_rest:
  assumes "length bs = HEADER_LEN"
  shows "parse_with_total (bs @ rest) tot = parse_with_total bs tot"
proof -
  have "i + n \<le> 132 \<Longrightarrow> bytes_at i n (bs @ rest) = bytes_at i n bs" for i n
    using assms by (intro bytes_at_append) (simp add: HEADER_LEN_def)
  moreover have "take 8 (bs @ rest) = take 8 bs" "take 128 (bs @ rest) = take 128 bs"
    using assms by (simp_all add: HEADER_LEN_def)
  ultimately show ?thesis
    using assms by (simp add: parse_with_total_def HEADER_LEN_def Let_def cong: if_cong)
qed

lemma section_reads:
  "length bs \<le> isize_max \<Longrightarrow> read_section bs offset len = Inr x \<Longrightarrow> section_bytes bs offset len = Inr x"
  by (auto simp: section_bytes_def read_section_def read_range_def u64_checked_add_def split: if_splits)

text \<open>The eager open accepts exactly readable segments. When it returns a segment, every record of its
  offset table decodes, and the header's timestamp range is exactly the range of the records.\<close>

theorem eager_open_reads_every_record:
  assumes "from_bytes decompress bs = Inr s"
  shows "\<exists>records. decode_all decompress s (s_record_offsets s) = Inr records
    \<and> (records = [] \<or> fold (observe \<circ> r_timestamp) records None = Some (timestamps (s_header s)))"
proof -
  from assms obtain observed where
    l: "eager_loop decompress s (s_record_offsets s) None cache_new None = Inr observed"
    and o: "\<forall>e. observed = Some e \<longrightarrow> e = timestamps (s_header s)"
    by (auto simp: from_bytes_def Let_def and_then_Inr split: option.splits if_splits; fastforce)
  have ok: "cache_ok decompress s cache_new" "memo_ok decompress s None"
    by (simp_all add: bc.coherent_def cache_new_def memo_ok_def)
  from l obtain records where r: "decode_all decompress s (s_record_offsets s) = Inr records"
    "observed = fold (observe \<circ> r_timestamp) records None"
    by (auto simp: eager_loop_decodes [OF ok] and_then_Inr)
  have "records = [] \<or> observed \<noteq> None"
    by (cases records) (simp_all add: r(2) observe_def observe_fold)
  with o r show ?thesis by auto
qed

lemma eager_open_of_lazy:
  assumes op: "open_backing decompress bs = Inr s" and mem: "length bs \<le> isize_max"
    and all: "decode_all decompress s (s_record_offsets s) = Inr records"
    and rng: "records = [] \<or> fold (observe \<circ> r_timestamp) records None = Some (timestamps (s_header s))"
  shows "from_bytes decompress bs = Inr s"
proof -
  let ?h = "s_header s"
  from op obtain head where len: "HEADER_LEN \<le> length bs" and rr: "read_range bs 0 HEADER_LEN = Inr head"
    and p: "parse_with_total head (length bs) = Inr ?h"
    by (auto simp: open_backing_def Let_def and_then_Inr not_less split: if_splits)
  have "head = take HEADER_LEN bs" using rr by (auto simp: read_range_def bytes_at_def split: if_splits)
  then have p': "parse_with_total bs (length bs) = Inr ?h"
    using parse_with_rest [of head "drop HEADER_LEN bs" "length bs"] len p by simp
  have "eager_loop decompress s (s_record_offsets s) None cache_new None = Inr (fold (observe \<circ> r_timestamp) records None)"
    by (subst eager_loop_decodes) (simp_all add: bc.coherent_def cache_new_def memo_ok_def all)
  then have loop: "and_then (eager_loop decompress s (s_record_offsets s) None cache_new None) (\<lambda>observed.
      case observed of None \<Rightarrow> Inr s
      | Some extent \<Rightarrow> if extent \<noteq> timestamps ?h then Inl (Corrupt ''header timestamp range does not match the records'') else Inr s)
    = Inr s"
    using rng by auto
  from op have s: "\<lparr>s_backing = bs, s_header = ?h, s_record_offsets = s_record_offsets s, s_directory = s_directory s,
      s_block_start_ordinals = s_block_start_ordinals s, s_trace_index = s_trace_index s,
      s_attribute_index = s_attribute_index s, s_content = s_content s\<rparr> = s"
    by (auto simp: open_backing_def Let_def and_then_Inr split: if_splits)
  from op p obtain ob o1 db d1 tb t1 ab a1 cb c1 where steps:
    "read_section bs (offsets_offset ?h) (offsets_len ?h) = Inr ob"
    "unwrap_section decompress ob True ''record-offset index'' = Inr o1"
    "decode_offsets_body o1 (of_nat (record_count ?h)) = Inr (s_record_offsets s)"
    "validate_record_offsets (records_logical_len ?h) (map unat (s_record_offsets s)) = Inr ()"
    "read_section bs (directory_offset ?h) (directory_len ?h) = Inr db"
    "unwrap_section decompress db True ''block directory'' = Inr d1"
    "decode_directory d1 (record_count ?h) (records_len ?h) (records_logical_len ?h) = Inr (s_directory s)"
    "validate_header_timestamps (timestamps ?h) (s_directory s) = Inr ()"
    "block_start_ordinals (records_logical_len ?h) (map unat (s_record_offsets s)) (s_directory s) = Inr (s_block_start_ordinals s)"
    "read_section bs (trace_index_offset ?h) (trace_index_len ?h) = Inr tb"
    "unwrap_section decompress tb True ''trace index'' = Inr t1"
    "decode_trace_index t1 (of_nat (record_count ?h)) = Inr (s_trace_index s)"
    "read_section bs (attribute_index_offset ?h) (attribute_index_len ?h) = Inr ab"
    "unwrap_section decompress ab True ''attribute index'' = Inr a1"
    "decode_attribute_index a1 (of_nat (record_count ?h)) = Inr (s_attribute_index s)"
    "read_section bs (fst (content ?h)) (snd (content ?h)) = Inr cb"
    "unwrap_section decompress cb False ''content index'' = Inr c1"
    "decode_content_head c1 (fst (content ?h) + SECTION_WRAPPER_LEN) (length c1) (record_count ?h) = Inr (s_content s)"
    by (auto simp: open_backing_def Let_def and_then_Inr split: if_splits)
  note r = section_reads [OF mem steps(1)] section_reads [OF mem steps(5)] section_reads [OF mem steps(10)]
    section_reads [OF mem steps(13)] section_reads [OF mem steps(16)]
  show ?thesis
    unfolding from_bytes_def Let_def by (simp add: p' steps r) (simp only: s loop)
qed

text \<open>C27: the two opens agree on every segment the encoder writes: the eager one, which decodes every
  record, and the lazy one, which grounds its checks in the first and the last, return the same
  segment.\<close>

theorem both_opens_agree:
  assumes "lz4_block compress decompress" and "well_built compress records content_index codec p"
  shows "\<exists>s. open_backing decompress (assemble compress codec p) = Inr s
    \<and> from_bytes decompress (assemble compress codec p) = Inr s"
proof -
  from open_built [OF assms refl] obtain s where s: "open_backing decompress (assemble compress codec p) = Inr s" by metis
  from opened_serves [OF assms s] obtain encs where v: "serves compress codec (p_keys p) (p_records p) encs s"
    "s = opened compress content_index codec p encs" by metis
  have "decode_all decompress s (s_record_offsets s) = Inr (map (stored_of (p_keys p)) (p_records p))"
    using decode_slice [OF assms(1) v(1), of 0 "length (p_records p)"] serves_offsets [OF v(1)]
    by (simp add: bytes_at_def)
  moreover have "timestamps (s_header s) = timestamp_range (p_records p)"
    unfolding v(2) by (simp add: opened_def header_of_def Let_def)
  moreover have "length (assemble compress codec p) \<le> isize_max" using assms(2) by (simp add: well_built_def)
  ultimately have "from_bytes decompress (assemble compress codec p) = Inr s"
    using eager_open_of_lazy [OF s] observed_range [of "p_records p" "p_keys p"] by (cases "p_records p = []") simp_all
  with s show ?thesis by blast
qed

theorem both_opens_agree_witness:
  "\<exists>s. open_backing rle_decompress (assemble rle_compress Raw w_parts) = Inr s
    \<and> from_bytes rle_decompress (assemble rle_compress Raw w_parts) = Inr s"
  by (rule both_opens_agree [OF rle_block w_well_built])

lemma w_eager: "from_bytes rle_decompress (assemble rle_compress Raw w_parts) = Inr w_segment"
proof -
  from opened_serves [OF rle_block w_well_built w_segment] obtain encs where
    v: "serves rle_compress Raw (p_keys w_parts) (p_records w_parts) encs w_segment"
    "w_segment = opened rle_compress True Raw w_parts encs" by metis
  have "decode_all rle_decompress w_segment (s_record_offsets w_segment) = Inr (map (stored_of (p_keys w_parts)) (p_records w_parts))"
    using decode_slice [OF rle_block v(1), of 0 "length (p_records w_parts)"] serves_offsets [OF v(1)]
    by (simp add: bytes_at_def)
  moreover have "p_records w_parts = rev w_records" "timestamp_range (rev w_records) = (5, 7)" "rev w_records \<noteq> []"
    by (simp_all add: w_parts_def Let_def timestamp_range_def w_records_def)
  moreover have "length (assemble rle_compress Raw w_parts) \<le> isize_max" using w_well_built by (simp add: well_built_def)
  ultimately show ?thesis
    using eager_open_of_lazy [OF w_segment] observed_range [of "p_records w_parts" "p_keys w_parts"] w_range by simp
qed

theorem eager_open_reads_every_record_witness:
  "\<exists>records. decode_all rle_decompress w_segment (s_record_offsets w_segment) = Inr records
    \<and> (records = [] \<or> fold (observe \<circ> r_timestamp) records None = Some (timestamps (s_header w_segment)))"
  by (rule eager_open_reads_every_record [OF w_eager])

end
