(* ===== verification/Span.thy ===== *)
theory Span
  imports Content Varint "HOL-Library.Product_Lexorder" "HOL-Library.Multiset"
begin

text \<open>
  Spans (\<open>src/src/lib.rs\<close>): the data model, the primary key, validation at the engine boundary, the
  stable span order, and what it means for a span to match a filter. Strings are their UTF-8 bytes. A
  JSON object is its list of entries in key order (\<open>serde_json::Map\<close> without \<open>preserve_order\<close> is a B-tree).
\<close>

section \<open>JSON values\<close>

text \<open>A \<open>serde_json::Number\<close> is an unsigned, a negative or a floating-point number; the last is kept as its
  64 bits. How a number is printed, read as \<open>f64\<close> and compared belongs to that library and to \<open>core\<close>:
  a record of functions the definitions take as an argument.\<close>

datatype number = PosInt u64 | NegInt u64 | Float u64

type_synonym f64 = u64

datatype json = JNull | JBool bool | JNumber number | JString bytes | JArray "json list" | JObject "(bytes \<times> json) list"

type_synonym json_map = "(bytes \<times> json) list"

record number_lib =
  number_text :: "number \<Rightarrow> bytes"
  number_f64 :: "number \<Rightarrow> f64 option"
  parse_f64 :: "bytes \<Rightarrow> f64 option"
  f64_ge :: "f64 \<Rightarrow> f64 \<Rightarrow> bool"

section \<open>Spans\<close>

record event =
  event_name :: bytes
  timestamp_ns :: u64
  event_attributes :: json_map

record link =
  link_trace_id :: bytes
  link_span_id :: bytes
  link_attributes :: json_map

record span =
  trace_id :: bytes
  span_id :: bytes
  tenant :: bytes
  parent_span_id :: "bytes option"
  name :: bytes
  start_time_ns :: u64
  end_time_ns :: u64
  status :: bytes
  service :: bytes
  attributes :: json_map
  events :: "event list"
  links :: "link list"
  extra :: json_map

text \<open>The primary key.\<close>

type_synonym span_key = "bytes \<times> bytes \<times> bytes"

definition key_of :: "span \<Rightarrow> span_key" where
  "key_of s = (tenant s, trace_id s, span_id s)"

definition payload_maps :: "span \<Rightarrow> json_map list" where
  "payload_maps s = attributes s # map event_attributes (events s) @ map link_attributes (links s)"

section \<open>Validation\<close>

definition MAX_LINKS :: nat where
  "MAX_LINKS = 256"

definition is_ascii_lowercase :: "u8 \<Rightarrow> bool" where
  "is_ascii_lowercase b \<longleftrightarrow> 97 \<le> b \<and> b \<le> 122"

definition is_ascii_digit :: "u8 \<Rightarrow> bool" where
  "is_ascii_digit b \<longleftrightarrow> 48 \<le> b \<and> b \<le> 57"

definition valid_tenant :: "bytes \<Rightarrow> bool" where
  "valid_tenant t =
     (case t of
        [] \<Rightarrow> False
      | first # rest \<Rightarrow>
          if \<not> (is_ascii_lowercase first \<or> is_ascii_digit first) then False
          else if length t > 64 then False
          else list_all (\<lambda>b. is_ascii_lowercase b \<or> is_ascii_digit b \<or> b \<in> {46, 95, 45}) rest)"

datatype store_error = InvalidSpan string | Io_error | Json_error | Segment_error seg_error | QueryTooBroad nat
  | DeadlineExceeded

definition validate_span :: "span \<Rightarrow> store_error + unit" where
  "validate_span s =
     (if trace_id s = [] then Inl (InvalidSpan ''trace_id is empty'')
      else if span_id s = [] then Inl (InvalidSpan ''span_id is empty'')
      else if tenant s \<noteq> [] \<and> \<not> valid_tenant (tenant s)
        then Inl (InvalidSpan ''tenant must be lowercase [a-z0-9][a-z0-9._-], at most 64 bytes'')
      else if length (links s) > MAX_LINKS then Inl (InvalidSpan ''too many links'')
      else Inr ())"

section \<open>The stable order\<close>

text \<open>\<open>compare_spans\<close> compares start, end, tenant, trace and span id in turn: the lexicographic order of
  this tuple.\<close>

type_synonym order_key = "u64 \<times> u64 \<times> bytes \<times> bytes \<times> bytes"

definition order_key :: "span \<Rightarrow> order_key" where
  "order_key s = (start_time_ns s, end_time_ns s, tenant s, trace_id s, span_id s)"

definition compare_spans_lt :: "span \<Rightarrow> span \<Rightarrow> bool" where
  "compare_spans_lt l r \<longleftrightarrow> order_key l < order_key r"

definition sort_spans :: "span list \<Rightarrow> span list" where
  "sort_spans spans = sort_key order_key spans"

datatype span_sort = DurationDesc | DurationAsc | StartDesc | StartAsc

definition span_sort_parse :: "bytes \<Rightarrow> span_sort option" where
  "span_sort_parse n =
     (if n = ascii ''duration_desc'' \<or> n = ascii ''-duration'' then Some DurationDesc
      else if n = ascii ''duration_asc'' \<or> n = ascii ''duration'' then Some DurationAsc
      else if n = ascii ''start_desc'' \<or> n = ascii ''-start'' then Some StartDesc
      else if n = ascii ''start_asc'' \<or> n = ascii ''start'' then Some StartAsc
      else None)"

definition duration :: "span \<Rightarrow> u64" where
  "duration s = saturating_sub (end_time_ns s) (start_time_ns s)"

text \<open>The descending orders compare the operands swapped; as a key, the complement of the word.\<close>

definition sort_rank :: "span_sort \<Rightarrow> span \<Rightarrow> u64" where
  "sort_rank order s =
     (case order of
        DurationDesc \<Rightarrow> NOT (duration s)
      | DurationAsc \<Rightarrow> duration s
      | StartDesc \<Rightarrow> NOT (start_time_ns s)
      | StartAsc \<Rightarrow> start_time_ns s)"

definition order_spans :: "span_sort option \<Rightarrow> span list \<Rightarrow> span list" where
  "order_spans order spans =
     (case order of None \<Rightarrow> sort_spans spans | Some k \<Rightarrow> sort_key (\<lambda>s. (sort_rank k s, order_key s)) spans)"

section \<open>The text of a span\<close>

definition PAYLOAD_KEY :: bytes where
  "PAYLOAD_KEY = ascii ''$payload''"

text \<open>\<open>content_strs\<close>: every string of the attributes and of the events, except under a \<open>$payload\<close> key.\<close>

fun collect_text :: "json \<Rightarrow> bytes list" where
  "collect_text (JString text) = [text]"
| "collect_text (JArray items) = concat (map collect_text items)"
| "collect_text (JObject m) = concat (map (\<lambda>(k, v). if k = PAYLOAD_KEY then [] else collect_text v) m)"
| "collect_text _ = []"

definition content_strs :: "span \<Rightarrow> bytes list" where
  "content_strs s =
     concat (map (collect_text \<circ> snd) (attributes s))
       @ concat (map (\<lambda>e. event_name e # concat (map (collect_text \<circ> snd) (event_attributes e))) (events s))"

section \<open>Filters\<close>

record span_filter =
  f_service :: "bytes option"
  f_name :: "bytes option"
  f_attributes :: "(bytes \<times> json) list"
  f_status :: "bytes option"
  f_excluded_statuses :: "bytes list"
  f_min_duration_ns :: "u64 option"
  f_max_duration_ns :: "u64 option"
  f_min_attributes :: "(bytes \<times> f64) list"
  f_max_attributes :: "(bytes \<times> f64) list"
  f_excluded_attributes :: "(bytes \<times> json) list"
  f_content :: "bytes option"
  f_sort :: "span_sort option"
  f_since_ns :: "u64 option"
  f_until_ns :: "u64 option"
  f_session :: "bytes option"
  f_tenant :: "bytes option"
  f_limit :: "nat option"

definition default_filter :: span_filter where
  "default_filter =
     \<lparr>f_service = None, f_name = None, f_attributes = [], f_status = None, f_excluded_statuses = [],
      f_min_duration_ns = None, f_max_duration_ns = None, f_min_attributes = [], f_max_attributes = [],
      f_excluded_attributes = [], f_content = None, f_sort = None, f_since_ns = None, f_until_ns = None,
      f_session = None, f_tenant = None, f_limit = None\<rparr>"

definition scalar_text :: "number_lib \<Rightarrow> json \<Rightarrow> bytes option" where
  "scalar_text lib v =
     (case v of
        JString text \<Rightarrow> Some text
      | JNumber n \<Rightarrow> Some (number_text lib n)
      | JBool b \<Rightarrow> Some (ascii (if b then ''true'' else ''false''))
      | _ \<Rightarrow> None)"

definition numeric_attribute :: "number_lib \<Rightarrow> span \<Rightarrow> bytes \<Rightarrow> f64 option" where
  "numeric_attribute lib s key =
     (case map_of (attributes s) key of
        Some (JNumber n) \<Rightarrow> number_f64 lib n
      | Some (JString text) \<Rightarrow> parse_f64 lib text
      | _ \<Rightarrow> None)"

definition attribute_equals :: "number_lib \<Rightarrow> span \<Rightarrow> bytes \<Rightarrow> json \<Rightarrow> bool" where
  "attribute_equals lib s key v =
     (case map_of (attributes s) key of
        None \<Rightarrow> False
      | Some stored \<Rightarrow>
          if stored = v then True
          else (case (scalar_text lib stored, scalar_text lib v) of
                  (Some a, Some b) \<Rightarrow> a = b
                | _ \<Rightarrow> False))"

abbreviation fails :: "'a option \<Rightarrow> ('a \<Rightarrow> bool) \<Rightarrow> bool" where
  "fails condition violated \<equiv> (case condition of None \<Rightarrow> False | Some c \<Rightarrow> violated c)"

definition span_matches_without_content :: "number_lib \<Rightarrow> span \<Rightarrow> span_filter \<Rightarrow> bool" where
  "span_matches_without_content lib s f =
     (if fails (f_tenant f) (\<lambda>t. tenant s \<noteq> t) then False
      else if fails (f_service f) (\<lambda>v. service s \<noteq> v) then False
      else if fails (f_name f) (\<lambda>v. name s \<noteq> v) then False
      else if fails (f_status f) (\<lambda>v. status s \<noteq> v) then False
      else if status s \<in> set (f_excluded_statuses f) then False
      else if fails (f_min_duration_ns f) (\<lambda>minimum. duration s < minimum) then False
      else if fails (f_since_ns f) (\<lambda>since. start_time_ns s < since) then False
      else if fails (f_until_ns f) (\<lambda>until. start_time_ns s > until) then False
      else if fails (f_max_duration_ns f) (\<lambda>maximum. duration s > maximum) then False
      else if \<not> list_all (\<lambda>(key, bound). case numeric_attribute lib s key of
                              None \<Rightarrow> False | Some v \<Rightarrow> f64_ge lib v bound) (f_min_attributes f) then False
      else if \<not> list_all (\<lambda>(key, bound). case numeric_attribute lib s key of
                              None \<Rightarrow> False | Some v \<Rightarrow> f64_ge lib bound v) (f_max_attributes f) then False
      else if list_ex (\<lambda>(key, v). map_of (attributes s) key = Some v) (f_excluded_attributes f) then False
      else list_all (\<lambda>(key, v). attribute_equals lib s key v) (f_attributes f))"

definition span_matches :: "number_lib \<Rightarrow> span \<Rightarrow> span_filter \<Rightarrow> query option \<Rightarrow> bool" where
  "span_matches lib s f content =
     (case content of
        Some q \<Rightarrow> if \<not> query_matches q (content_strs s) then False else span_matches_without_content lib s f
      | None \<Rightarrow> span_matches_without_content lib s f)"

section \<open>Cursors\<close>

record span_cursor =
  c_start_time_ns :: u64
  c_end_time_ns :: u64
  c_tenant :: bytes
  c_trace_id :: bytes
  c_span_id :: bytes

definition cursor_of :: "span \<Rightarrow> span_cursor" where
  "cursor_of s =
     \<lparr>c_start_time_ns = start_time_ns s, c_end_time_ns = end_time_ns s, c_tenant = tenant s,
      c_trace_id = trace_id s, c_span_id = span_id s\<rparr>"

definition span_after_cursor :: "span \<Rightarrow> span_cursor \<Rightarrow> bool" where
  "span_after_cursor s c \<longleftrightarrow>
     (c_start_time_ns c, c_end_time_ns c, c_tenant c, c_trace_id c, c_span_id c) < order_key s"

lemma span_after_cursor_of: "span_after_cursor s (cursor_of t) \<longleftrightarrow> compare_spans_lt t s"
  by (simp add: span_after_cursor_def cursor_of_def compare_spans_lt_def order_key_def)

text \<open>Spans with the same order key have the same primary key.\<close>

lemma order_key_determines_key: "order_key s = order_key t \<Longrightarrow> key_of s = key_of t"
  by (simp add: order_key_def key_of_def)

lemma sort_spans_set [simp]: "set (sort_spans xs) = set xs"
  by (simp add: sort_spans_def)

lemma sort_spans_distinct [simp]: "distinct (map key_of (sort_spans xs)) = distinct (map key_of xs)"
proof -
  have "mset (map key_of (sort_spans xs)) = mset (map key_of xs)" by (simp only: mset_map sort_spans_def mset_sort)
  then show ?thesis by (metis mset_eq_imp_distinct_iff)
qed

end
