(* ===== verification/Write_Buffer.thy ===== *)
theory Write_Buffer
  imports Span
begin

text \<open>
  The in-memory write buffer (\<open>WriteBuffer\<close> of \<open>src/src/lib.rs\<close>): spans by primary key, the last upsert of
  a key winning. The spans sit behind \<open>Arc\<close>s, and a seal decides what to evict by comparing their
  addresses, so an entry is the address of its allocation together with the span.
\<close>

section \<open>State and operations\<close>

type_synonym handle = "nat \<times> span"

record write_buffer =
  wb_spans :: "handle list"
  wb_index :: "span_key \<rightharpoonup> nat"
  wb_upserts :: nat
  wb_oldest_at :: "nat option"

definition wb_default :: write_buffer where
  "wb_default = \<lparr>wb_spans = [], wb_index = Map.empty, wb_upserts = 0, wb_oldest_at = None\<rparr>"

text \<open>\<open>reindex\<close>: the loop over \<open>spans.iter().enumerate()\<close>, on the keys of the spans.\<close>

abbreviation keys_of :: "handle list \<Rightarrow> span_key list" where
  "keys_of hs \<equiv> map (\<lambda>h. key_of (snd h)) hs"

fun index_from :: "nat \<Rightarrow> 'k list \<Rightarrow> ('k \<rightharpoonup> nat) \<Rightarrow> ('k \<rightharpoonup> nat)" where
  "index_from position [] index = index"
| "index_from position (k # ks) index = index_from (position + 1) ks (index(k \<mapsto> position))"

definition reindex :: "write_buffer \<Rightarrow> write_buffer" where
  "reindex wb = wb\<lparr>wb_index := index_from 0 (keys_of (wb_spans wb)) Map.empty\<rparr>"

text \<open>\<open>upsert\<close>; the address is that of the fresh allocation, the clock the time of the call.\<close>

definition upsert :: "nat \<Rightarrow> nat \<Rightarrow> span \<Rightarrow> write_buffer \<Rightarrow> write_buffer" where
  "upsert now addr s wb =
     (let key = key_of s;
          wb = wb\<lparr>wb_upserts := wb_upserts wb + 1\<rparr>;
          wb = (if wb_spans wb = [] then wb\<lparr>wb_oldest_at := Some now\<rparr> else wb)
      in case wb_index wb key of
           Some position \<Rightarrow> wb\<lparr>wb_spans := (wb_spans wb)[position := (addr, s)]\<rparr>
         | None \<Rightarrow> wb\<lparr>wb_index := (wb_index wb)(key \<mapsto> length (wb_spans wb)),
                       wb_spans := wb_spans wb @ [(addr, s)]\<rparr>)"

definition wb_len :: "write_buffer \<Rightarrow> nat" where
  "wb_len wb = length (wb_spans wb)"

definition wb_is_empty :: "write_buffer \<Rightarrow> bool" where
  "wb_is_empty wb \<longleftrightarrow> wb_spans wb = []"

definition wb_contains_key :: "write_buffer \<Rightarrow> span_key \<Rightarrow> bool" where
  "wb_contains_key wb key \<longleftrightarrow> wb_index wb key \<noteq> None"

definition wb_restore :: "nat \<Rightarrow> handle list \<Rightarrow> write_buffer \<Rightarrow> write_buffer" where
  "wb_restore now spans wb =
     (let wb = reindex (wb\<lparr>wb_spans := spans\<rparr>)
      in wb\<lparr>wb_oldest_at := (if wb_spans wb \<noteq> [] then Some now else None)\<rparr>)"

definition wb_retain :: "(span \<Rightarrow> bool) \<Rightarrow> write_buffer \<Rightarrow> write_buffer" where
  "wb_retain keep wb =
     (let wb = reindex (wb\<lparr>wb_spans := filter (\<lambda>h. keep (snd h)) (wb_spans wb)\<rparr>)
      in if wb_spans wb = [] then wb\<lparr>wb_oldest_at := None\<rparr> else wb)"

definition evict_sealed :: "nat \<Rightarrow> nat set \<Rightarrow> write_buffer \<Rightarrow> write_buffer" where
  "evict_sealed now sealed wb =
     (let wb = reindex (wb\<lparr>wb_spans := filter (\<lambda>h. fst h \<notin> sealed) (wb_spans wb)\<rparr>)
      in wb\<lparr>wb_oldest_at := (if wb_spans wb \<noteq> [] then Some now else None)\<rparr>)"

section \<open>The invariant\<close>

text \<open>An index of a list of distinct keys holds exactly their positions.\<close>

definition indexes :: "('k \<rightharpoonup> nat) \<Rightarrow> 'k list \<Rightarrow> bool" where
  "indexes m ks \<longleftrightarrow> (\<forall>k i. m k = Some i \<longleftrightarrow> i < length ks \<and> ks ! i = k)"

lemma index_from_Some:
  "distinct ks \<Longrightarrow> dom m \<inter> set ks = {} \<Longrightarrow>
    index_from n ks m k = Some i \<longleftrightarrow> m k = Some i \<or> (n \<le> i \<and> i - n < length ks \<and> ks ! (i - n) = k)"
proof (induction ks arbitrary: n m)
  case (Cons a ks)
  have "index_from (n + 1) ks (m(a \<mapsto> n)) k = Some i
      \<longleftrightarrow> (m(a \<mapsto> n)) k = Some i \<or> (n + 1 \<le> i \<and> i - (n + 1) < length ks \<and> ks ! (i - (n + 1)) = k)"
  proof (rule Cons.IH)
    show "distinct ks" using Cons.prems(1) by simp
    show "dom (m(a \<mapsto> n)) \<inter> set ks = {}" using Cons.prems by auto
  qed
  moreover have "m a = None" using Cons.prems(2) by auto
  moreover have "n \<le> i \<and> i - n < length (a # ks) \<and> (a # ks) ! (i - n) = k
      \<longleftrightarrow> (i = n \<and> a = k) \<or> (n + 1 \<le> i \<and> i - (n + 1) < length ks \<and> ks ! (i - (n + 1)) = k)"
  proof (cases "i - n")
    case 0
    then show ?thesis by auto
  next
    case (Suc j)
    then have "i - (n + 1) = j" "n + 1 \<le> i" "i \<noteq> n" by auto
    then show ?thesis using Suc by auto
  qed
  ultimately show ?case by (auto split: if_splits)
qed simp

lemma indexes_from: "distinct ks \<Longrightarrow> indexes (index_from 0 ks Map.empty) ks"
  by (simp add: indexes_def index_from_Some)

lemma indexes_None: "indexes m ks \<Longrightarrow> m k = None \<longleftrightarrow> k \<notin> set ks"
  unfolding indexes_def in_set_conv_nth by (metis not_None_eq)

lemma indexes_empty [simp]: "indexes (\<lambda>k. None) []"
  by (simp add: indexes_def)

lemma indexes_Some: "indexes m ks \<Longrightarrow> m k = Some i \<Longrightarrow> i < length ks \<and> ks ! i = k"
  unfolding indexes_def by blast

lemma indexes_append: "indexes m ks \<Longrightarrow> k \<notin> set ks \<Longrightarrow> indexes (m(k \<mapsto> length ks)) (ks @ [k])"
  unfolding indexes_def by (auto simp: nth_append less_Suc_eq in_set_conv_nth)

text \<open>Keys and addresses are distinct, the index holds exactly the positions, and the age is set exactly
  when there is something to age.\<close>

definition wb_ok :: "write_buffer \<Rightarrow> bool" where
  "wb_ok wb \<longleftrightarrow>
     distinct (keys_of (wb_spans wb)) \<and> distinct (map fst (wb_spans wb))
     \<and> indexes (wb_index wb) (keys_of (wb_spans wb))
     \<and> (wb_oldest_at wb = None \<longleftrightarrow> wb_spans wb = [])"

lemma reindex_indexes: "distinct (keys_of (wb_spans wb)) \<Longrightarrow> indexes (wb_index (reindex wb)) (keys_of (wb_spans wb))"
  by (simp add: reindex_def indexes_from)

lemma reindex_fields [simp]:
  "wb_spans (reindex wb) = wb_spans wb" "wb_upserts (reindex wb) = wb_upserts wb" "wb_oldest_at (reindex wb) = wb_oldest_at wb"
  by (simp_all add: reindex_def)

text \<open>The last value of each key in a sequence of writes.\<close>

definition latest_by :: "('v \<Rightarrow> 'k) \<Rightarrow> 'v list \<Rightarrow> 'k \<rightharpoonup> 'v" where
  "latest_by key vs = map_of (rev (map (\<lambda>v. (key v, v)) vs))"

lemma latest_by_append [simp]: "latest_by key (xs @ ys) = latest_by key xs ++ latest_by key ys"
  by (simp add: latest_by_def)

lemma latest_by_simps [simp]:
  "latest_by key [] = Map.empty" "m ++ latest_by key (v # vs) = m(key v \<mapsto> v) ++ latest_by key vs"
  by (simp_all add: latest_by_def)

lemma latest_by_None: "latest_by key vs k = None \<longleftrightarrow> k \<notin> key ` set vs"
  by (force simp: latest_by_def map_of_eq_None_iff image_iff)

lemma dom_latest_by: "dom (latest_by key vs) = key ` set vs"
proof -
  have "k \<in> dom (latest_by key vs) \<longleftrightarrow> k \<in> key ` set vs" for k using latest_by_None [of key vs k] by (simp only: domIff not_not)
  then show ?thesis by blast
qed

lemma latest_by_key: "latest_by key vs k = Some v \<Longrightarrow> v \<in> set vs \<and> key v = k"
  by (auto simp: latest_by_def dest!: map_of_SomeD)

lemma latest_by_distinct:
  assumes "distinct (map key vs)"
  shows "latest_by key vs k = Some v \<longleftrightarrow> v \<in> set vs \<and> key v = k"
proof -
  have "distinct (map fst (rev (map (\<lambda>v. (key v, v)) vs)))" using assms by (simp add: comp_def rev_map [symmetric])
  then have "latest_by key vs k = Some v \<longleftrightarrow> (k, v) \<in> set (rev (map (\<lambda>v. (key v, v)) vs))"
    unfolding latest_by_def by (rule map_of_eq_Some_iff)
  then show ?thesis by auto
qed

text \<open>What the buffer holds under a key.\<close>

definition wb_map :: "write_buffer \<Rightarrow> span_key \<rightharpoonup> span" where
  "wb_map wb = latest_by key_of (map snd (wb_spans wb))"

lemma wb_map_Some: "wb_ok wb \<Longrightarrow> wb_map wb k = Some s \<longleftrightarrow> s \<in> snd ` set (wb_spans wb) \<and> key_of s = k"
  unfolding wb_map_def by (subst latest_by_distinct) (simp_all add: wb_ok_def comp_def)

lemma wb_index_None: "wb_ok wb \<Longrightarrow> wb_index wb k = None \<longleftrightarrow> k \<notin> set (keys_of (wb_spans wb))"
  by (rule indexes_None) (simp add: wb_ok_def)

lemma wb_contains_key_iff: "wb_ok wb \<Longrightarrow> wb_contains_key wb k \<longleftrightarrow> wb_map wb k \<noteq> None"
  by (simp add: wb_contains_key_def wb_index_None wb_map_def latest_by_None image_image)

section \<open>Operations preserve it, and refine a map\<close>

lemma default_ok: "wb_ok wb_default" and default_map [simp]: "wb_map wb_default = Map.empty"
  by (simp_all add: wb_ok_def wb_default_def wb_map_def indexes_def)

lemma filtered_ok:
  assumes "distinct (keys_of hs)" and "distinct (map fst hs)"
  shows "distinct (keys_of (filter P hs))" and "distinct (map fst (filter P hs))"
  using assms by (simp_all add: distinct_map_filter)

lemma option_eqI: "(\<And>x. a = Some x \<longleftrightarrow> b = Some x) \<Longrightarrow> a = b"
  by (cases a; cases b) auto

lemma distinct_map_at: "distinct (map f xs) \<Longrightarrow> p < length xs \<Longrightarrow> x \<in> set xs \<Longrightarrow> f x = f (xs ! p) \<longleftrightarrow> x = xs ! p"
  unfolding distinct_map by (blast dest: inj_onD nth_mem)

lemma upsert_cases:
  assumes ok: "wb_ok wb"
  obtains (replace) p where "wb_index wb (key_of s) = Some p" "p < length (wb_spans wb)" "keys_of (wb_spans wb) ! p = key_of s"
      "upsert now addr s wb = wb\<lparr>wb_spans := (wb_spans wb)[p := (addr, s)], wb_upserts := wb_upserts wb + 1\<rparr>"
    | (add) "key_of s \<notin> set (keys_of (wb_spans wb))"
      "upsert now addr s wb = wb\<lparr>wb_spans := wb_spans wb @ [(addr, s)], wb_index := (wb_index wb)(key_of s \<mapsto> length (wb_spans wb)),
         wb_upserts := wb_upserts wb + 1, wb_oldest_at := (if wb_spans wb = [] then Some now else wb_oldest_at wb)\<rparr>"
proof (cases "wb_index wb (key_of s)")
  case (Some p)
  have "indexes (wb_index wb) (keys_of (wb_spans wb))" using ok by (simp add: wb_ok_def)
  from indexes_Some [OF this Some] have p: "p < length (wb_spans wb)" "keys_of (wb_spans wb) ! p = key_of s"
    by (simp_all only: length_map)
  moreover from p(1) have "wb_spans wb \<noteq> []" by auto
  moreover have "upsert now addr s wb = wb\<lparr>wb_spans := (wb_spans wb)[p := (addr, s)], wb_upserts := wb_upserts wb + 1\<rparr>"
    using Some \<open>wb_spans wb \<noteq> []\<close> by (simp add: upsert_def)
  ultimately show thesis using Some by (intro replace)
next
  case None
  show thesis
  proof (rule add)
    show "key_of s \<notin> set (keys_of (wb_spans wb))" using None unfolding wb_index_None [OF ok] .
  qed (simp add: upsert_def None)
qed

lemma upsert_set:
  assumes ok: "wb_ok wb"
  shows "set (wb_spans (upsert now addr s wb)) = insert (addr, s) {h \<in> set (wb_spans wb). key_of (snd h) \<noteq> key_of s}"
proof (cases rule: upsert_cases [OF ok, of s now addr, case_names replace add])
  case (replace p)
  have d: "distinct (keys_of (wb_spans wb))" "distinct (wb_spans wb)" using ok by (auto simp: wb_ok_def distinct_map)
  have "set (wb_spans (upsert now addr s wb)) = insert (addr, s) (set (wb_spans wb) - {wb_spans wb ! p})"
    using replace(2) d(2) by (simp add: replace(4) set_update_distinct)
  moreover have "key_of (snd h) = key_of s \<longleftrightarrow> h = wb_spans wb ! p" if "h \<in> set (wb_spans wb)" for h
    using distinct_map_at [OF d(1) replace(2) that] replace(2,3) by simp
  ultimately show ?thesis by auto
next
  case add
  have "key_of (snd h) \<noteq> key_of s" if "h \<in> set (wb_spans wb)" for h
    using add(1) imageI [OF that, of "\<lambda>h. key_of (snd h)"] by (auto simp only: set_map)
  then have "{h \<in> set (wb_spans wb). key_of (snd h) \<noteq> key_of s} = set (wb_spans wb)" by blast
  then show ?thesis unfolding add(2) by simp
qed

lemma upsert_ok:
  assumes ok: "wb_ok wb" and fresh: "addr \<notin> fst ` set (wb_spans wb)"
  shows "wb_ok (upsert now addr s wb)"
proof (cases rule: upsert_cases [OF ok, of s now addr, case_names replace add])
  case (replace p)
  have "keys_of ((wb_spans wb)[p := (addr, s)]) = keys_of (wb_spans wb)"
    using replace(2,3) by (simp add: map_update list_update_same_conv)
  moreover have "distinct (map fst ((wb_spans wb)[p := (addr, s)]))"
    using ok fresh replace(2) by (simp add: wb_ok_def map_update distinct_list_update)
  ultimately show ?thesis using ok by (simp add: wb_ok_def replace(4))
next
  case add
  have "indexes ((wb_index wb)(key_of s \<mapsto> length (wb_spans wb))) (keys_of (wb_spans wb) @ [key_of s])"
    using indexes_append [OF _ add(1), of "wb_index wb"] ok by (simp add: wb_ok_def)
  then show ?thesis using ok fresh add(1) by (auto simp add: wb_ok_def add(2))
qed

lemma filtered_map:
  assumes "wb_ok wb" and "wb_ok wb'" and "wb_spans wb' = filter P (wb_spans wb)"
  shows "wb_map wb' k = Some s \<longleftrightarrow> (\<exists>a. (a, s) \<in> set (wb_spans wb) \<and> P (a, s)) \<and> key_of s = k"
  unfolding wb_map_Some [OF assms(2)] assms(3) by force

lemma evict_ok: "wb_ok wb \<Longrightarrow> wb_ok (evict_sealed now sealed wb)"
  by (auto simp: evict_sealed_def wb_ok_def Let_def reindex_def intro: indexes_from filtered_ok)

lemma retain_ok: "wb_ok wb \<Longrightarrow> wb_ok (wb_retain keep wb)"
  by (auto simp: wb_retain_def wb_ok_def Let_def reindex_def intro: indexes_from filtered_ok)

lemma restore_ok: "distinct (keys_of hs) \<Longrightarrow> distinct (map fst hs) \<Longrightarrow> wb_ok (wb_restore now hs wb)"
  by (auto simp: wb_restore_def wb_ok_def Let_def reindex_def intro: indexes_from)

lemma upsert_map:
  assumes ok: "wb_ok wb" and fresh: "addr \<notin> fst ` set (wb_spans wb)"
  shows "wb_map (upsert now addr s wb) = (wb_map wb)(key_of s \<mapsto> s)"
proof
  fix k
  have "wb_map (upsert now addr s wb) k = Some x \<longleftrightarrow> ((wb_map wb)(key_of s \<mapsto> s)) k = Some x" for x
    unfolding wb_map_Some [OF upsert_ok [OF ok fresh]] upsert_set [OF ok] using wb_map_Some [OF ok, of k x] by auto
  then show "wb_map (upsert now addr s wb) k = ((wb_map wb)(key_of s \<mapsto> s)) k" by (rule option_eqI)
qed

section \<open>Last write wins\<close>

text \<open>What a buffer promises: a view from keys to values that a put updates at one key, wherever it is admitted.\<close>

definition puts :: "('a \<Rightarrow> 'v \<Rightarrow> 'st \<Rightarrow> 'st) \<Rightarrow> ('a \<times> 'v) list \<Rightarrow> 'st \<Rightarrow> 'st" where
  "puts put us st = fold (\<lambda>(a, v). put a v) us st"

fun all_admitted :: "('a \<Rightarrow> 'st \<Rightarrow> bool) \<Rightarrow> ('a \<Rightarrow> 'v \<Rightarrow> 'st \<Rightarrow> 'st) \<Rightarrow> ('a \<times> 'v) list \<Rightarrow> 'st \<Rightarrow> bool" where
  "all_admitted admits put [] st = True"
| "all_admitted admits put ((a, v) # us) st \<longleftrightarrow> admits a st \<and> all_admitted admits put us (put a v st)"

locale last_write_wins =
  fixes ok :: "'st \<Rightarrow> bool" and view :: "'st \<Rightarrow> 'k \<rightharpoonup> 'v" and key :: "'v \<Rightarrow> 'k"
    and put :: "'a \<Rightarrow> 'v \<Rightarrow> 'st \<Rightarrow> 'st" and admits :: "'a \<Rightarrow> 'st \<Rightarrow> bool"
  assumes put_ok: "ok st \<Longrightarrow> admits a st \<Longrightarrow> ok (put a v st)"
    and put_view: "ok st \<Longrightarrow> admits a st \<Longrightarrow> view (put a v st) = (view st)(key v \<mapsto> v)"
begin

lemma puts_ok: "ok st \<Longrightarrow> all_admitted admits put us st \<Longrightarrow> ok (puts put us st)"
  by (induction us arbitrary: st) (auto simp: puts_def put_ok)

lemma puts_view: "ok st \<Longrightarrow> all_admitted admits put us st \<Longrightarrow> view (puts put us st) = view st ++ latest_by key (map snd us)"
proof (induction us arbitrary: st)
  case (Cons u us)
  obtain a v where u: "u = (a, v)" by (cases u)
  have "view (puts put us (put a v st)) = view (put a v st) ++ latest_by key (map snd us)"
    using Cons.prems by (intro Cons.IH) (simp_all add: u put_ok)
  then show ?case using Cons.prems by (simp add: puts_def u put_view)
qed (simp add: puts_def)

end

text \<open>Upserts, each under the clock and the address of its call. An address is free when no handle holds it:
  neither one in the buffer nor one of the handles \<open>sealed\<close> a seal has drained.\<close>

type_synonym upsert_call = "(nat \<times> nat) \<times> span"

definition upsert_call :: "nat \<times> nat \<Rightarrow> span \<Rightarrow> write_buffer \<Rightarrow> write_buffer" where
  "upsert_call at s wb = upsert (fst at) (snd at) s wb"

definition free_address :: "nat set \<Rightarrow> nat \<times> nat \<Rightarrow> write_buffer \<Rightarrow> bool" where
  "free_address held at wb \<longleftrightarrow> snd at \<notin> fst ` set (wb_spans wb) \<and> snd at \<notin> held"

text \<open>What would be left were the buffer evicted now.\<close>

definition unsealed_map :: "nat set \<Rightarrow> write_buffer \<Rightarrow> span_key \<rightharpoonup> span" where
  "unsealed_map held wb = wb_map (evict_sealed 0 held wb)"

lemma unsealed_map_Some:
  "wb_ok wb \<Longrightarrow> unsealed_map held wb k = Some s \<longleftrightarrow> (\<exists>a. (a, s) \<in> set (wb_spans wb) \<and> a \<notin> held) \<and> key_of s = k"
  unfolding unsealed_map_def by (subst filtered_map [OF _ evict_ok]) (auto simp: evict_sealed_def Let_def)

lemma wb_map_evict: "wb_map (evict_sealed now held wb) = unsealed_map held wb"
  by (simp add: unsealed_map_def evict_sealed_def wb_map_def Let_def)

lemma unsealed_upsert:
  assumes ok: "wb_ok wb" and "free_address held at wb"
  shows "unsealed_map held (upsert_call at s wb) = (unsealed_map held wb)(key_of s \<mapsto> s)"
proof
  fix k
  have free: "snd at \<notin> fst ` set (wb_spans wb)" "snd at \<notin> held" using assms(2) by (simp_all add: free_address_def)
  have "unsealed_map held (upsert_call at s wb) k = Some x \<longleftrightarrow> ((unsealed_map held wb)(key_of s \<mapsto> s)) k = Some x" for x
    unfolding upsert_call_def unsealed_map_Some [OF upsert_ok [OF ok free(1)]] upsert_set [OF ok]
    using unsealed_map_Some [OF ok, of held k x] free(2) by auto
  then show "unsealed_map held (upsert_call at s wb) k = ((unsealed_map held wb)(key_of s \<mapsto> s)) k" by (rule option_eqI)
qed

interpretation buffer: last_write_wins wb_ok wb_map key_of upsert_call "free_address held" for held
  by unfold_locales (simp_all add: upsert_call_def free_address_def upsert_ok upsert_map)

interpretation unsealed: last_write_wins wb_ok "unsealed_map held" key_of upsert_call "free_address held" for held
  by unfold_locales (simp_all add: unsealed_upsert buffer.put_ok)

text \<open>C18: a seal drains the buffer's handles, writes them with no lock held, and then evicts exactly what it
  drained. However many upserts ran meanwhile, re-ingests of drained keys included, and wherever their
  allocations landed among the addresses not in use: before the eviction the buffer held the old contents
  overwritten by the upserts in order, and after it the upserts alone, the last one of each key.\<close>

theorem a_seal_evicts_exactly_what_it_drained:
  assumes "wb_ok wb" and "held = fst ` set (wb_spans wb)"
    and "all_admitted (free_address held) upsert_call us wb" and "wb' = puts upsert_call us wb"
  shows "wb_ok (evict_sealed now held wb')
    \<and> wb_map wb' = wb_map wb ++ latest_by key_of (map snd us)
    \<and> wb_map (evict_sealed now held wb') = latest_by key_of (map snd us)"
proof (intro conjI)
  show "wb_ok (evict_sealed now held wb')" using assms by (simp add: evict_ok buffer.puts_ok)
  show "wb_map wb' = wb_map wb ++ latest_by key_of (map snd us)" using assms by (simp add: buffer.puts_view)
  have "unsealed_map held wb k = None" for k
    using unsealed_map_Some [OF assms(1), of held k] assms(2) by (cases "unsealed_map held wb k") force+
  then have "unsealed_map held wb = Map.empty" by (rule ext)
  then show "wb_map (evict_sealed now held wb') = latest_by key_of (map snd us)"
    using assms(1,3,4) unsealed.puts_view by (simp add: wb_map_evict)
qed

text \<open>A span drained, one re-ingested under its key and one of a new key while the seal wrote.\<close>

definition w_span :: "nat \<Rightarrow> nat \<Rightarrow> span" where
  "w_span i version =
     \<lparr>trace_id = [1], span_id = [of_nat i], tenant = [], parent_span_id = None, name = [], start_time_ns = of_nat version,
      end_time_ns = of_nat version, status = [], service = [], attributes = [], events = [], links = [], extra = []\<rparr>"

theorem a_seal_evicts_exactly_what_it_drained_witness:
  "let wb' = puts upsert_call [((1, 101), w_span 7 2), ((2, 102), w_span 8 1)] (upsert 0 100 (w_span 7 1) wb_default)
   in wb_map (evict_sealed 3 {100} wb') = [key_of (w_span 7 0) \<mapsto> w_span 7 2, key_of (w_span 8 0) \<mapsto> w_span 8 1]"
proof -
  let ?us = "[((1, 101), w_span 7 2), ((2, 102), w_span 8 1)] :: upsert_call list" and ?wb = "upsert 0 100 (w_span 7 1) wb_default"
  have a: "wb_ok ?wb" by (rule upsert_ok [OF default_ok]) (simp add: wb_default_def)
  have b: "{100} = fst ` set (wb_spans ?wb)" by (simp add: upsert_def wb_default_def)
  have c: "all_admitted (free_address {100}) upsert_call ?us ?wb"
    by (simp add: free_address_def upsert_call_def upsert_def wb_default_def w_span_def key_of_def)
  have "wb_map (evict_sealed 3 {100} (puts upsert_call ?us ?wb)) = latest_by key_of (map snd ?us)"
    by (rule conjunct2 [OF conjunct2 [OF a_seal_evicts_exactly_what_it_drained [OF a b c refl]]])
  also have "\<dots> = [key_of (w_span 7 0) \<mapsto> w_span 7 2, key_of (w_span 8 0) \<mapsto> w_span 8 1]"
    by (rule ext) (simp add: latest_by_def key_of_def w_span_def)
  finally show ?thesis by simp
qed

end
