(* ===== verification/Compaction.thy ===== *)
theory Compaction
  imports Write_Buffer
begin

text \<open>
  Size-tiered compaction (\<open>src/src/lib.rs\<close>): the tier of a segment, the run at the tail worth merging, its
  split into output groups, the revalidation of a pinned run, and what a merge writes for one group.
\<close>

section \<open>Live segments\<close>

text \<open>A live segment: the address of its \<open>Arc\<close>, the number in its file name, the length of its file and
  the spans it holds.\<close>

record seg_handle =
  sg_addr :: nat
  sg_id :: nat
  sg_bytes :: u64
  sg_spans :: "span list"

record compaction_config =
  fanout :: nat
  base_bytes :: u64
  max_segment_bytes :: u64

definition default_compaction :: compaction_config where
  "default_compaction = \<lparr>fanout = 4, base_bytes = 8 * 1024 * 1024, max_segment_bytes = 256 * 1024 * 1024\<rparr>"

definition saturating_mul :: "'a::len word \<Rightarrow> 'a word \<Rightarrow> 'a word" where
  "saturating_mul a b = (if unat a * unat b < 2 ^ LENGTH('a) then a * b else - 1)"

section \<open>Tiers\<close>

function size_tier_loop :: "u64 \<Rightarrow> u64 \<Rightarrow> u64 \<Rightarrow> nat \<Rightarrow> nat" where
  "size_tier_loop bytes factor limit tier =
     (if bytes \<ge> limit \<and> tier < 32 then size_tier_loop bytes factor (saturating_mul limit factor) (tier + 1)
      else tier)"
  by pat_completeness auto
termination
  by (relation "measure (\<lambda>(bytes, factor, limit, tier). 32 - tier)") auto

declare size_tier_loop.simps [simp del]

definition size_tier :: "u64 \<Rightarrow> compaction_config \<Rightarrow> nat" where
  "size_tier bytes settings = size_tier_loop bytes (of_nat (max (fanout settings) 2)) (max (base_bytes settings) 1) 0"

text \<open>The limit after some rounds, and the tier by the limits it passed.\<close>

fun tier_limit :: "u64 \<Rightarrow> u64 \<Rightarrow> nat \<Rightarrow> u64" where
  "tier_limit factor limit 0 = limit"
| "tier_limit factor limit (Suc n) = tier_limit factor (saturating_mul limit factor) n"

lemma size_tier_loop_spec:
  "tier \<le> 32 \<Longrightarrow>
    (\<exists>n. size_tier_loop bytes factor limit tier = tier + n \<and> tier + n \<le> 32
       \<and> (\<forall>i < n. tier_limit factor limit i \<le> bytes) \<and> (tier + n < 32 \<longrightarrow> bytes < tier_limit factor limit n))"
proof (induction bytes factor limit tier rule: size_tier_loop.induct)
  case (1 bytes factor limit tier)
  show ?case
  proof (cases "bytes \<ge> limit \<and> tier < 32")
    case True
    then obtain n where n: "size_tier_loop bytes factor (saturating_mul limit factor) (tier + 1) = tier + 1 + n"
      "tier + 1 + n \<le> 32" "\<forall>i < n. tier_limit factor (saturating_mul limit factor) i \<le> bytes"
      "tier + 1 + n < 32 \<longrightarrow> bytes < tier_limit factor (saturating_mul limit factor) n"
      using 1 by auto
    have "\<forall>i < Suc n. tier_limit factor limit i \<le> bytes"
    proof (intro allI impI)
      fix i assume "i < Suc n"
      then show "tier_limit factor limit i \<le> bytes" using n(3) True by (cases i) auto
    qed
    then show ?thesis using n True by (intro exI [of _ "Suc n"]) (simp add: size_tier_loop.simps [of bytes factor limit])
  next
    case False
    then show ?thesis using "1.prems" by (intro exI [of _ 0]) (auto simp: size_tier_loop.simps [of bytes factor limit])
  qed
qed

lemma size_tier_le: "size_tier bytes settings \<le> 32"
  using size_tier_loop_spec [of 0] by (auto simp: size_tier_def)

lemma size_tier_mono:
  assumes "a \<le> b"
  shows "size_tier a settings \<le> size_tier b settings"
proof -
  let ?f = "of_nat (max (fanout settings) 2) :: u64" and ?l = "max (base_bytes settings) 1"
  obtain m where m: "size_tier a settings = m" "\<forall>i < m. tier_limit ?f ?l i \<le> a" "m \<le> 32"
    using size_tier_loop_spec [of 0 a ?f ?l] by (auto simp: size_tier_def)
  obtain n where n: "size_tier b settings = n" "n < 32 \<longrightarrow> b < tier_limit ?f ?l n" "n \<le> 32"
    using size_tier_loop_spec [of 0 b ?f ?l] by (auto simp: size_tier_def)
  have "m \<le> n"
  proof (rule ccontr)
    assume "\<not> m \<le> n"
    then have "tier_limit ?f ?l n \<le> a" "b < tier_limit ?f ?l n" using m n by auto
    with assms show False by (meson order.strict_trans1 order_less_irrefl order_less_le_trans)
  qed
  then show ?thesis by (simp add: m(1) n(1))
qed

section \<open>Groups of a run\<close>

fun merge_chunks_loop :: "compaction_config \<Rightarrow> u64 list \<Rightarrow> nat \<Rightarrow> u64 \<Rightarrow> nat list" where
  "merge_chunks_loop settings [] current tally = (if current > 0 then [current] else [])"
| "merge_chunks_loop settings (b # bs) current tally =
     (let projected = saturating_add tally b in
      if current > 0 \<and> max_segment_bytes settings > 0 \<and> projected > max_segment_bytes settings
      then current # merge_chunks_loop settings bs 1 b
      else merge_chunks_loop settings bs (current + 1) projected)"

definition merge_chunks :: "seg_handle list \<Rightarrow> compaction_config \<Rightarrow> nat list" where
  "merge_chunks run settings = merge_chunks_loop settings (map sg_bytes run) 0 0"

text \<open>The groups the merge takes in turn, \<open>inputs[consumed .. consumed + size]\<close>.\<close>

fun groups :: "nat list \<Rightarrow> 'a list \<Rightarrow> 'a list list" where
  "groups [] xs = []"
| "groups (n # ns) xs = take n xs # groups ns (drop n xs)"

lemma length_groups [simp]: "length (groups ns xs) = length ns"
  by (induction ns arbitrary: xs) auto

lemma concat_groups: "sum_list ns = length xs \<Longrightarrow> concat (groups ns xs) = xs"
proof (induction ns arbitrary: xs)
  case (Cons n ns)
  then have "n \<le> length xs" "sum_list ns = length (drop n xs)" by auto
  then show ?case using Cons.IH [of "drop n xs"] by simp
qed simp

lemma groups_map: "groups ns (map f xs) = map (map f) (groups ns xs)"
  by (induction ns arbitrary: xs) (simp_all add: take_map drop_map)

text \<open>The bytes of a group, saturating as the code adds them up.\<close>

definition group_bytes :: "u64 list \<Rightarrow> u64" where
  "group_bytes bs = foldl saturating_add 0 bs"

lemma group_bytes_eq: "unat (foldl saturating_add (a :: u64) bs) = min (unat a + sum_list (map unat bs)) (2 ^ 64 - 1)"
proof (induction bs arbitrary: a)
  case Nil
  then show ?case using unat_u64_lt [of a] by simp
next
  case (Cons b bs)
  have "unat (saturating_add a b) = min (unat a + unat b) (2 ^ 64 - 1)"
    by (auto simp: saturating_add_def unat_add_lt unsigned_minus_1_eq_mask mask_eq_exp_minus_1)
  then show ?case by (simp add: Cons.IH)
qed

definition fits :: "compaction_config \<Rightarrow> u64 list \<Rightarrow> bool" where
  "fits settings g \<longleftrightarrow> length g = 1 \<or> max_segment_bytes settings = 0 \<or> group_bytes g \<le> max_segment_bytes settings"

lemma merge_chunks_loop_ok:
  assumes "tally = group_bytes taken" and "length taken = current" and "current = 0 \<or> fits settings taken"
  shows "sum_list (merge_chunks_loop settings bs current tally) = current + length bs
    \<and> 0 \<notin> set (merge_chunks_loop settings bs current tally)
    \<and> (\<forall>g \<in> set (groups (merge_chunks_loop settings bs current tally) (taken @ bs)). fits settings g)"
  using assms
proof (induction bs arbitrary: current tally taken)
  case Nil
  then show ?case by auto
next
  case (Cons b bs)
  let ?projected = "saturating_add tally b"
  show ?case
  proof (cases "current > 0 \<and> max_segment_bytes settings > 0 \<and> ?projected > max_segment_bytes settings")
    case True
    have "sum_list (merge_chunks_loop settings bs 1 b) = 1 + length bs
        \<and> 0 \<notin> set (merge_chunks_loop settings bs 1 b)
        \<and> (\<forall>g \<in> set (groups (merge_chunks_loop settings bs 1 b) ([b] @ bs)). fits settings g)"
      by (rule Cons.IH) (auto simp: group_bytes_def fits_def saturating_add_def unat_lt [of b, simplified])
    then show ?thesis using True Cons.prems by simp
  next
    case False
    have "sum_list (merge_chunks_loop settings bs (current + 1) ?projected) = (current + 1) + length bs
        \<and> 0 \<notin> set (merge_chunks_loop settings bs (current + 1) ?projected)
        \<and> (\<forall>g \<in> set (groups (merge_chunks_loop settings bs (current + 1) ?projected) ((taken @ [b]) @ bs)). fits settings g)"
    proof (rule Cons.IH)
      show "?projected = group_bytes (taken @ [b])" using Cons.prems(1) by (simp add: group_bytes_def)
      show "length (taken @ [b]) = current + 1" using Cons.prems(2) by simp
      show "current + 1 = 0 \<or> fits settings (taken @ [b])"
        using False Cons.prems by (auto simp: fits_def group_bytes_def word_gt_0 not_less)
    qed
    then show ?thesis using False by (auto simp: Let_def)
  qed
qed

lemmas merge_chunks_ok = merge_chunks_loop_ok [of 0 "[]" 0, unfolded group_bytes_def, simplified, folded group_bytes_def]

lemma sum_merge_chunks: "sum_list (merge_chunks run settings) = length run"
  using merge_chunks_ok [of settings "map sg_bytes run"] by (simp add: merge_chunks_def)

lemma merge_chunks_pos: "0 \<notin> set (merge_chunks run settings)"
  using merge_chunks_ok [of settings "map sg_bytes run"] by (simp add: merge_chunks_def)

lemma length_merge_chunks: "length (merge_chunks run settings) \<le> length run"
proof -
  have "length ns \<le> sum_list ns" if "0 \<notin> set ns" for ns :: "nat list"
    using that by (induction ns) auto
  from this [OF merge_chunks_pos] show ?thesis by (simp add: sum_merge_chunks)
qed

text \<open>No output of a merge exceeds the size cap, unless it rewrites a single segment. The groups partition
  the run in order, none is empty, and each one's files together, added up as the code does (saturating),
  are at most the cap, where there is one.\<close>

theorem merge_outputs_respect_the_cap:
  "concat (groups (merge_chunks run settings) run) = run
    \<and> 0 \<notin> set (merge_chunks run settings)
    \<and> list_all (\<lambda>g. length g = 1 \<or> max_segment_bytes settings = 0
          \<or> min (sum_list (map (unat \<circ> sg_bytes) g)) (2 ^ 64 - 1) \<le> unat (max_segment_bytes settings))
        (groups (merge_chunks run settings) run)"
proof (intro conjI)
  show "concat (groups (merge_chunks run settings) run) = run" by (simp add: concat_groups sum_merge_chunks)
  show "0 \<notin> set (merge_chunks run settings)" by (rule merge_chunks_pos)
  have "fits settings (map sg_bytes g)" if "g \<in> set (groups (merge_chunks run settings) run)" for g
    using merge_chunks_ok [of settings "map sg_bytes run"] that by (simp add: merge_chunks_def groups_map)
  then show "list_all (\<lambda>g. length g = 1 \<or> max_segment_bytes settings = 0
          \<or> min (sum_list (map (unat \<circ> sg_bytes) g)) (2 ^ 64 - 1) \<le> unat (max_segment_bytes settings))
        (groups (merge_chunks run settings) run)"
    using group_bytes_eq [of 0] by (fastforce simp: list_all_iff fits_def group_bytes_def word_le_nat_alt)
qed

section \<open>The run at the tail\<close>

text \<open>The loop over the segments, newest first: the run, the segments counted and the anchor tier.\<close>

fun tail_scan :: "compaction_config \<Rightarrow> u64 list \<Rightarrow> nat \<Rightarrow> nat \<Rightarrow> nat \<Rightarrow> nat \<times> nat" where
  "tail_scan settings [] tier run counted = (run, counted)"
| "tail_scan settings (b # bs) tier run counted =
     (let segment_tier = size_tier b settings in
      if segment_tier > tier then
        if counted \<ge> fanout settings then (run, counted)
        else tail_scan settings bs segment_tier (run + 1) 1
      else tail_scan settings bs tier (run + 1) (if segment_tier = tier then counted + 1 else counted))"

definition tail_run_to_merge :: "seg_handle list \<Rightarrow> compaction_config \<Rightarrow> nat option" where
  "tail_run_to_merge segments settings =
     (if length segments < fanout settings then None
      else if segments = [] then None
      else
        let (run, counted) = tail_scan settings (map sg_bytes (rev segments)) (size_tier (sg_bytes (last segments)) settings) 0 0 in
        if counted < fanout settings then None
        else if length (merge_chunks (drop (length segments - run) segments) settings) \<ge> run then None
        else Some run)"

text \<open>Having looked at \<open>seen\<close>: the run is all of it, no tier in it is above the anchor's, and the counted are
  those at the anchor.\<close>

definition scanned :: "compaction_config \<Rightarrow> u64 list \<Rightarrow> nat \<Rightarrow> nat \<Rightarrow> bool" where
  "scanned settings seen tier counted \<longleftrightarrow>
     (\<forall>b \<in> set seen. size_tier b settings \<le> tier)
     \<and> counted = length (filter (\<lambda>b. size_tier b settings = tier) seen)"

lemma tail_scan_spec:
  assumes "scanned settings seen tier counted"
  shows "\<exists>more anchor. tail_scan settings bs tier (length seen) counted = (length (seen @ more), length (filter (\<lambda>b. size_tier b settings = anchor) (seen @ more)))
    \<and> (\<exists>rest. bs = more @ rest
        \<and> (rest \<noteq> [] \<longrightarrow> fanout settings \<le> length (filter (\<lambda>b. size_tier b settings = anchor) (seen @ more)) \<and> anchor < size_tier (rest ! 0) settings))
    \<and> (\<forall>b \<in> set (seen @ more). size_tier b settings \<le> anchor)"
  using assms
proof (induction bs arbitrary: seen tier counted)
  case Nil
  then show ?case by (intro exI [of _ "[]"] exI [of _ tier]) (simp add: scanned_def)
next
  case (Cons b bs)
  let ?t = "size_tier b settings"
  have step: ?case if IH: "scanned settings (seen @ [b]) tier' counted'"
    and eq: "tail_scan settings (b # bs) tier (length seen) counted = tail_scan settings bs tier' (length (seen @ [b])) counted'" for tier' counted'
  proof -
    from Cons.IH [OF IH] obtain more anchor rest where
      m: "tail_scan settings bs tier' (length (seen @ [b])) counted' = (length ((seen @ [b]) @ more), length (filter (\<lambda>b. size_tier b settings = anchor) ((seen @ [b]) @ more)))"
      "bs = more @ rest"
      "rest \<noteq> [] \<longrightarrow> fanout settings \<le> length (filter (\<lambda>b. size_tier b settings = anchor) ((seen @ [b]) @ more)) \<and> anchor < size_tier (rest ! 0) settings"
      "\<forall>b \<in> set ((seen @ [b]) @ more). size_tier b settings \<le> anchor" by blast
    show ?thesis unfolding eq
      by (intro exI [of _ "b # more"] exI [of _ anchor] conjI exI [of _ rest]) (use m in \<open>simp_all\<close>)
  qed
  show ?case
  proof (cases "?t > tier")
    case True
    show ?thesis
    proof (cases "counted \<ge> fanout settings")
      case stop: True
      then show ?thesis using True Cons.prems
        by (intro exI [of _ "[]"] exI [of _ tier] conjI exI [of _ "b # bs"]) (simp_all add: scanned_def)
    next
      case False
      have "filter (\<lambda>b'. size_tier b' settings = ?t) seen = []"
        using Cons.prems True by (auto simp: scanned_def filter_empty_conv)
      then have "scanned settings (seen @ [b]) ?t 1" using Cons.prems True by (auto simp: scanned_def)
      then show ?thesis by (rule step) (use True False in simp)
    qed
  next
    case False
    then have "scanned settings (seen @ [b]) tier (if ?t = tier then counted + 1 else counted)"
      using Cons.prems by (auto simp: scanned_def)
    then show ?thesis by (rule step) (use False in simp)
  qed
qed

lemma tail_run_SomeD:
  assumes "tail_run_to_merge segments settings = Some run"
  shows "run \<le> length segments" "fanout settings \<le> run"
    "length (merge_chunks (drop (length segments - run) segments) settings) < run"
    "\<exists>anchor. fanout settings \<le> length (filter (\<lambda>s. size_tier (sg_bytes s) settings = anchor) (drop (length segments - run) segments))
       \<and> (\<forall>s \<in> set (drop (length segments - run) segments). size_tier (sg_bytes s) settings \<le> anchor)
       \<and> (run < length segments \<longrightarrow> anchor < size_tier (sg_bytes (segments ! (length segments - run - 1))) settings)"
proof -
  let ?bs = "map sg_bytes (rev segments)" and ?tail = "drop (length segments - run) segments"
  have ne: "segments \<noteq> []" using assms by (auto simp: tail_run_to_merge_def split: if_splits)
  have "scanned settings [] (size_tier (sg_bytes (last segments)) settings) 0" by (simp add: scanned_def)
  from tail_scan_spec [OF this, of ?bs, unfolded list.size append_Nil] obtain more anchor rest where
    m: "tail_scan settings ?bs (size_tier (sg_bytes (last segments)) settings) 0 0 = (length more, length (filter (\<lambda>b. size_tier b settings = anchor) more))"
    "?bs = more @ rest"
    "rest \<noteq> [] \<longrightarrow> fanout settings \<le> length (filter (\<lambda>b. size_tier b settings = anchor) more) \<and> anchor < size_tier (rest ! 0) settings"
    "\<forall>b \<in> set more. size_tier b settings \<le> anchor" by blast
  have run: "run = length more" and counted: "fanout settings \<le> length (filter (\<lambda>b. size_tier b settings = anchor) more)"
    and fewer: "length (merge_chunks ?tail settings) < run"
    using assms ne m(1) by (auto simp: tail_run_to_merge_def Let_def split: if_splits)
  have len: "length segments = length more + length rest" using arg_cong [OF m(2), of length] by simp
  have more: "more = map sg_bytes (rev ?tail)"
    using arg_cong [OF m(2), of "take run"] run len by (simp add: take_map rev_drop)
  show "run \<le> length segments" using run len by simp
  show "fanout settings \<le> run" using counted run by (meson length_filter_le order_trans)
  show "length (merge_chunks ?tail settings) < run" by (rule fewer)
  have cnt: "length (filter (\<lambda>b. size_tier b settings = anchor) more) = length (filter (\<lambda>s. size_tier (sg_bytes s) settings = anchor) ?tail)"
    unfolding more by (simp add: filter_map comp_def rev_filter [symmetric])
  show "\<exists>anchor. fanout settings \<le> length (filter (\<lambda>s. size_tier (sg_bytes s) settings = anchor) ?tail)
       \<and> (\<forall>s \<in> set ?tail. size_tier (sg_bytes s) settings \<le> anchor)
       \<and> (run < length segments \<longrightarrow> anchor < size_tier (sg_bytes (segments ! (length segments - run - 1))) settings)"
  proof (intro exI [of _ anchor] conjI impI)
    show "fanout settings \<le> length (filter (\<lambda>s. size_tier (sg_bytes s) settings = anchor) ?tail)" using counted cnt by simp
    show "\<forall>s \<in> set ?tail. size_tier (sg_bytes s) settings \<le> anchor" using m(4) unfolding more by simp
    assume less: "run < length segments"
    then have "rest ! 0 = ?bs ! run" "rest \<noteq> []" using m(2) run len by (simp_all add: nth_append)
    moreover have "?bs ! run = sg_bytes (segments ! (length segments - run - 1))" using less by (simp add: rev_nth)
    ultimately show "anchor < size_tier (sg_bytes (segments ! (length segments - run - 1))) settings" using m(3) by simp
  qed
qed

text \<open>C19: a run is chosen only where merging it pays, and only against the tail. It has at least \<open>fanout\<close>
  segments of one tier and none of a larger one, the segment in front of it is larger than all of them, and
  its merge leaves strictly fewer segments than it consumes.\<close>

theorem a_chosen_run_is_worth_merging:
  assumes "tail_run_to_merge segments settings = Some run"
  shows "\<exists>rest tail anchor. segments = rest @ tail \<and> length tail = run
    \<and> fanout settings \<le> length (filter (\<lambda>s. size_tier (sg_bytes s) settings = anchor) tail)
    \<and> list_all (\<lambda>s. size_tier (sg_bytes s) settings \<le> anchor) tail
    \<and> (rest = [] \<or> anchor < size_tier (sg_bytes (last rest)) settings)
    \<and> length (merge_chunks tail settings) < length tail"
proof -
  let ?n = "length segments - run" and ?tail = "drop (length segments - run) segments"
  note run = tail_run_SomeD [OF assms]
  obtain anchor where a: "fanout settings \<le> length (filter (\<lambda>s. size_tier (sg_bytes s) settings = anchor) ?tail)"
    "\<forall>s \<in> set ?tail. size_tier (sg_bytes s) settings \<le> anchor"
    "run < length segments \<longrightarrow> anchor < size_tier (sg_bytes (segments ! (?n - 1))) settings" using run(4) by blast
  have "take ?n segments = [] \<or> anchor < size_tier (sg_bytes (last (take ?n segments))) settings"
  proof (cases "run < length segments")
    case True
    then have ne: "take ?n segments \<noteq> []" by auto
    have "last (take ?n segments) = segments ! (?n - 1)" using True by (simp add: last_conv_nth [OF ne])
    then show ?thesis using a(3) True by simp
  next
    case False
    then show ?thesis by simp
  qed
  then show ?thesis using a(1,2) run(1,3)
    by (intro exI [of _ "take ?n segments"] exI [of _ ?tail] exI [of _ anchor] conjI) (simp_all add: list_all_iff)
qed

text \<open>Four segments of the bottom tier behind one of a higher tier.\<close>

definition w_seg :: "nat \<Rightarrow> u64 \<Rightarrow> seg_handle" where
  "w_seg i b = \<lparr>sg_addr = i, sg_id = i, sg_bytes = b, sg_spans = []\<rparr>"

definition w_settings :: compaction_config where
  "w_settings = \<lparr>fanout = 2, base_bytes = 8, max_segment_bytes = 20\<rparr>"

lemma w_tiers: "size_tier 6 w_settings = 0" "size_tier 7 w_settings = 0" "size_tier 100 w_settings = 4"
  by (simp_all add: size_tier_def w_settings_def size_tier_loop.simps saturating_mul_def)

lemma w_chunks: "merge_chunks [w_seg 2 6, w_seg 3 7, w_seg 4 6, w_seg 5 7] w_settings = [3, 1]"
  by (simp add: merge_chunks_def w_seg_def w_settings_def saturating_add_def)

theorem a_chosen_run_is_worth_merging_witness:
  "\<exists>rest tail anchor. map (w_seg 0) [100] @ [w_seg 2 6, w_seg 3 7, w_seg 4 6, w_seg 5 7] = rest @ tail \<and> length tail = 4
    \<and> fanout w_settings \<le> length (filter (\<lambda>s. size_tier (sg_bytes s) w_settings = anchor) tail)
    \<and> list_all (\<lambda>s. size_tier (sg_bytes s) w_settings \<le> anchor) tail
    \<and> (rest = [] \<or> anchor < size_tier (sg_bytes (last rest)) w_settings)
    \<and> length (merge_chunks tail w_settings) < length tail"
proof -
  have "fanout w_settings = 2" by (simp add: w_settings_def)
  then have "tail_run_to_merge (map (w_seg 0) [100] @ [w_seg 2 6, w_seg 3 7, w_seg 4 6, w_seg 5 7]) w_settings = Some 4"
    using w_chunks by (simp add: tail_run_to_merge_def w_seg_def w_tiers)
  then show ?thesis by (rule a_chosen_run_is_worth_merging)
qed

section \<open>Revalidation\<close>

definition run_position :: "seg_handle list \<Rightarrow> seg_handle list \<Rightarrow> nat option" where
  "run_position segments run =
     (if run = [] \<or> length segments < length run then None
      else find (\<lambda>start. list_all2 (\<lambda>held pinned. sg_addr held = sg_addr pinned) (take (length run) (drop start segments)) run)
             [0 ..< length segments - length run + 1])"

lemma find_first: "P n \<Longrightarrow> (\<And>i. i < n \<Longrightarrow> \<not> P i) \<Longrightarrow> n < m \<Longrightarrow> find P [0..<m] = Some n"
proof -
  assume a: "P n" "\<And>i. i < n \<Longrightarrow> \<not> P i" "n < m"
  then have "[0..<m] = [0..<n] @ n # [Suc n..<m]"
    by (metis append_Cons append_Nil less_imp_add_positive nat_less_le upt_add_eq_append upt_conv_Cons zero_le)
  moreover have "find P [0..<n] = None" using a(2) by (simp add: find_None_iff)
  ultimately show ?thesis using a(1) by (simp add: find_append)
qed

lemma run_position_found:
  assumes "distinct (map sg_addr (pre @ run @ post))" and "run \<noteq> []"
  shows "run_position (pre @ run @ post) run = Some (length pre)"
proof -
  let ?segs = "pre @ run @ post"
  have "find (\<lambda>start. list_all2 (\<lambda>held pinned. sg_addr held = sg_addr pinned) (take (length run) (drop start ?segs)) run)
             [0 ..< length ?segs - length run + 1] = Some (length pre)"
  proof (rule find_first)
    show "list_all2 (\<lambda>held pinned. sg_addr held = sg_addr pinned) (take (length run) (drop (length pre) ?segs)) run"
      by (simp add: list_all2_same)
    show "length pre < length ?segs - length run + 1" by simp
    fix i assume i: "i < length pre"
    show "\<not> list_all2 (\<lambda>held pinned. sg_addr held = sg_addr pinned) (take (length run) (drop i ?segs)) run"
    proof
      assume l: "list_all2 (\<lambda>held pinned. sg_addr held = sg_addr pinned) (take (length run) (drop i ?segs)) run"
      have "sg_addr (take (length run) (drop i ?segs) ! 0) = sg_addr (run ! 0)"
        using list_all2_nthD2 [OF l, of 0] assms(2) by simp
      moreover have "take (length run) (drop i ?segs) ! 0 = ?segs ! i" 
        using i assms(2) nth_drop [of i ?segs 0] by (simp del: drop_append append_assoc)
      moreover have "run ! 0 = ?segs ! length pre" using assms(2) by (simp add: nth_append)
      ultimately have "map sg_addr ?segs ! i = map sg_addr ?segs ! length pre"
        using nth_map [of i ?segs sg_addr] nth_map [of "length pre" ?segs sg_addr] i assms(2) by (simp del: map_append)
      then have "i = length pre" using assms i by (subst (asm) nth_eq_iff_index_eq) auto
      then show False using i by simp
    qed
  qed
  then show ?thesis using assms(2) by (simp add: run_position_def)
qed

section \<open>Merging a group\<close>

fun merge_loop :: "span list \<Rightarrow> (span_key \<rightharpoonup> span) \<Rightarrow> span_key list \<Rightarrow> (span_key \<rightharpoonup> span) \<times> span_key list" where
  "merge_loop [] latest order = (latest, order)"
| "merge_loop (s # ss) latest order =
     (let key = key_of s
      in merge_loop ss (latest(key \<mapsto> s)) (if latest key = None then order @ [key] else order))"

fun take_latest :: "('k \<rightharpoonup> 'v) \<Rightarrow> 'k list \<Rightarrow> 'v list" where
  "take_latest latest [] = []"
| "take_latest latest (k # ks) =
     (case latest k of None \<Rightarrow> take_latest latest ks | Some v \<Rightarrow> v # take_latest (latest(k := None)) ks)"

definition merge_group :: "seg_handle list \<Rightarrow> span list" where
  "merge_group g =
     (let (latest, order) = merge_loop (concat (map sg_spans g)) Map.empty []
      in sort_spans (take_latest latest order))"

lemma merge_loop_spec:
  assumes "merge_loop ss latest order = (latest', order')" and "distinct order" and "set order = dom latest"
  shows "latest' = latest ++ latest_by key_of ss \<and> distinct order' \<and> set order' = dom latest'"
  using assms
proof (induction ss arbitrary: latest order)
  case (Cons s ss)
  let ?latest = "latest(key_of s \<mapsto> s)" and ?order = "if latest (key_of s) = None then order @ [key_of s] else order"
  have "latest' = ?latest ++ latest_by key_of ss \<and> distinct order' \<and> set order' = dom latest'"
  proof (rule Cons.IH)
    show "merge_loop ss ?latest ?order = (latest', order')" using Cons.prems(1) by (simp add: Let_def)
    show "distinct ?order" "set ?order = dom ?latest" using Cons.prems(2,3) by auto
  qed
  then show ?case unfolding latest_by_simps(2) .
qed simp

lemma take_latest_distinct: "distinct ks \<Longrightarrow> set ks \<subseteq> dom m \<Longrightarrow> take_latest m ks = map (\<lambda>k. the (m k)) ks"
proof (induction ks arbitrary: m)
  case (Cons k ks)
  then have "take_latest (m(k := None)) ks = map (\<lambda>x. the ((m(k := None)) x)) ks" by (intro Cons.IH) auto
  also have "\<dots> = map (\<lambda>x. the (m x)) ks" using Cons.prems(1) by (intro map_cong) auto
  finally show ?case using Cons.prems(2) by auto
qed simp

lemma merge_group_spec:
  fixes g :: "seg_handle list"
  shows "distinct (map key_of (merge_group g))" and "latest_by key_of (merge_group g) = latest_by key_of (concat (map sg_spans g))"
proof -
  obtain latest order where l: "merge_loop (concat (map sg_spans g)) Map.empty [] = (latest, order)" by fastforce
  have spec: "latest = latest_by key_of (concat (map sg_spans g))" "distinct order" "set order = dom latest"
    using merge_loop_spec [OF l] by auto
  let ?m = "map (\<lambda>k. the (latest k)) order"
  have m: "merge_group g = sort_spans ?m"
    unfolding merge_group_def l using take_latest_distinct [of order latest] spec(2,3) by simp
  have key: "key_of (the (latest k)) = k" if "k \<in> set order" for k
    using that spec(1,3) latest_by_key [of key_of] by (auto simp: dom_def)
  have keys: "map key_of ?m = order" using key by (simp add: map_idI)
  then have d: "distinct (map key_of ?m)" using spec(2) by simp
  then show d': "distinct (map key_of (merge_group g))" unfolding m by simp
  have "latest_by key_of (merge_group g) k = latest k" for k
  proof (rule option_eqI)
    fix s
    have "latest_by key_of (merge_group g) k = Some s \<longleftrightarrow> s \<in> set ?m \<and> key_of s = k"
      unfolding latest_by_distinct [OF d'] unfolding m by simp
    also have "\<dots> \<longleftrightarrow> latest k = Some s"
    proof
      assume "s \<in> set ?m \<and> key_of s = k"
      then obtain k' where "k' \<in> set order" "s = the (latest k')" "key_of s = k" by auto
      then show "latest k = Some s" using key [of k'] spec(3) by (auto simp: dom_def)
    next
      assume "latest k = Some s"
      moreover from this have "k \<in> set order" unfolding spec(3) by (rule domI)
      ultimately show "s \<in> set ?m \<and> key_of s = k" using key [of k] by force
    qed
    finally show "latest_by key_of (merge_group g) k = Some s \<longleftrightarrow> latest k = Some s" .
  qed
  then show "latest_by key_of (merge_group g) = latest_by key_of (concat (map sg_spans g))" unfolding spec(1) [symmetric] by (rule ext)
qed

section \<open>A compaction tick\<close>

text \<open>One pass of the loop of \<open>compact_segments\<close>, on the live list and the id counter: a run is chosen whose
  oldest input predates the tick, its outputs take its place under fresh ids, and whatever seals finished
  meanwhile stand behind them.\<close>

inductive merge_pass :: "compaction_config \<Rightarrow> nat \<Rightarrow> seg_handle list \<times> nat \<Rightarrow> seg_handle list \<times> nat \<Rightarrow> bool" for settings watermark where
  merge_pass: "tail_run_to_merge live settings = Some run
    \<Longrightarrow> sg_id (live ! (length live - run)) < watermark
    \<Longrightarrow> map sg_id outputs = [first_id ..< first_id + length (merge_chunks (drop (length live - run) live) settings)]
    \<Longrightarrow> list_all (\<lambda>s. first_id \<le> sg_id s) sealed \<Longrightarrow> first_id \<le> first_id'
    \<Longrightarrow> merge_pass settings watermark (live, first_id) (take (length live - run) live @ outputs @ sealed, first_id')"

inductive_cases merge_passE: "merge_pass settings watermark st st'"

definition backlog :: "nat \<Rightarrow> seg_handle list \<Rightarrow> nat" where
  "backlog watermark live = length (filter (\<lambda>s. sg_id s < watermark) live)"

lemma merge_pass_backlog:
  assumes "merge_pass settings watermark (live, first_id) (live', first_id')" and "watermark \<le> first_id"
  shows "backlog watermark live' < backlog watermark live \<and> watermark \<le> first_id'"
  using assms(1)
proof (cases rule: merge_pass.cases)
  case (merge_pass run outputs sealed)
  have run: "run \<le> length live" "0 < run" using tail_run_SomeD [OF merge_pass(2)] by auto
  let ?n = "length live - run"
  have "drop ?n live = live ! ?n # drop (Suc ?n) live" using run by (intro Cons_nth_drop_Suc [symmetric]) simp
  then have "0 < backlog watermark (drop ?n live)" using merge_pass(3) by (simp add: backlog_def)
  moreover have "backlog watermark live = backlog watermark (take ?n live) + backlog watermark (drop ?n live)"
    unfolding backlog_def by (metis append_take_drop_id filter_append length_append)
  moreover have "filter (\<lambda>s. sg_id s < watermark) sealed = []" using merge_pass(5) assms(2) by (auto simp: filter_empty_conv list_all_iff)
  moreover have "filter (\<lambda>s. sg_id s < watermark) outputs = []"
  proof -
    have "first_id \<le> sg_id s" if "s \<in> set outputs" for s
      using arg_cong [OF merge_pass(4), of set] that by auto
    then show ?thesis using assms(2) by (fastforce simp: filter_empty_conv)
  qed
  ultimately show ?thesis using assms(2) merge_pass(1,6) by (simp add: backlog_def)
qed

text \<open>C29: a compaction tick ends, however fast seals keep landing while it runs. A tick can make at most as
  many passes as there were segments below its watermark when it began: every pass takes at least one of them
  away and brings none.\<close>

theorem a_compaction_tick_ends:
  assumes "(merge_pass settings watermark ^^ n) (live, first_id) st" and "watermark \<le> first_id"
  shows "n \<le> backlog watermark live"
  using assms
proof (induction n arbitrary: live first_id)
  case (Suc n)
  then obtain live' first_id' where pass: "merge_pass settings watermark (live, first_id) (live', first_id')"
    and rest: "(merge_pass settings watermark ^^ n) (live', first_id') st"
    by (metis relpowp_Suc_D2 surj_pair)
  note less = merge_pass_backlog [OF pass Suc.prems(2)]
  then have "n \<le> backlog watermark live'" using rest by (intro Suc.IH) auto
  then show ?case using less by simp
qed simp

theorem a_compaction_tick_ends_witness:
  "merge_pass w_settings 6 ([w_seg 2 6, w_seg 3 7, w_seg 4 6, w_seg 5 7], 6) ([w_seg 6 19, w_seg 7 7, w_seg 8 6], 9)
    \<and> 1 \<le> backlog 6 [w_seg 2 6, w_seg 3 7, w_seg 4 6, w_seg 5 7]"
proof
  let ?live = "[w_seg 2 6, w_seg 3 7, w_seg 4 6, w_seg 5 7]"
  have "fanout w_settings = 2" by (simp add: w_settings_def)
  then have run: "tail_run_to_merge ?live w_settings = Some 4"
    using w_chunks by (simp add: tail_run_to_merge_def w_seg_def w_tiers)
  have "merge_pass w_settings 6 (?live, 6) (take (length ?live - 4) ?live @ [w_seg 6 19, w_seg 7 7] @ [w_seg 8 6], 9)"
    by (rule merge_pass [OF run]) (simp_all add: w_chunks, simp_all add: w_seg_def upt_rec w_settings_def)
  then show pass: "merge_pass w_settings 6 (?live, 6) ([w_seg 6 19, w_seg 7 7, w_seg 8 6], 9)" by simp
  then have "(merge_pass w_settings 6 ^^ 1) (?live, 6) ([w_seg 6 19, w_seg 7 7, w_seg 8 6], 9)" by (simp only: relpowp_1)
  then show "1 \<le> backlog 6 ?live" by (rule a_compaction_tick_ends) simp
qed

end
