(* ===== verification/Store_State.thy ===== *)
theory Store_State
  imports Compaction
begin

text \<open>
  The span store as a state (\<open>Store\<close> of \<open>src/src/lib.rs\<close>): the write buffer and its log, the live segments,
  the segment files and merge journals of the directory, the seal and the merge in flight, and the
  operations the engine performs on it, each one critical section or one file-system call of the code.
  Segment files are named by their number. Locks are not state: a seal holds its permit exactly while
  \<open>sealing\<close> is some job, a merge the maintenance lock exactly while \<open>merging\<close> is.
\<close>

section \<open>When to seal\<close>

datatype durability = Buffered | Wal | Flushed

definition durability_parse :: "bytes \<Rightarrow> durability option" where
  "durability_parse n =
     (if n = ascii ''buffered'' then Some Buffered
      else if n = ascii ''wal'' then Some Wal
      else if n = ascii ''flushed'' then Some Flushed
      else None)"

definition durability_as_str :: "durability \<Rightarrow> bytes" where
  "durability_as_str d = (case d of Buffered \<Rightarrow> ascii ''buffered'' | Wal \<Rightarrow> ascii ''wal'' | Flushed \<Rightarrow> ascii ''flushed'')"

record flush_config =
  fc_durability :: durability
  flush_spans :: nat
  flush_wal_bytes :: "u64 option"
  max_buffer_age :: "nat option"

text \<open>\<open>log_size\<close> is the size of the log, \<open>None\<close> without one; \<open>now\<close> the clock.\<close>

definition should_flush :: "flush_config \<Rightarrow> nat \<Rightarrow> u64 option \<Rightarrow> write_buffer \<Rightarrow> bool" where
  "should_flush c now log_size w =
     (if fc_durability c = Flushed then \<not> wb_is_empty w
      else if flush_spans c > 0 \<and> (wb_len w \<ge> flush_spans c \<or> wb_upserts w \<ge> flush_spans c) then True
      else if (case (max_buffer_age c, wb_oldest_at w) of (Some limit, Some oldest) \<Rightarrow> now - oldest \<ge> limit | _ \<Rightarrow> False) then True
      else (case (flush_wal_bytes c, log_size) of
              (Some limit, Some held) \<Rightarrow> limit > 0 \<and> held \<ge> limit
            | _ \<Rightarrow> False))"

definition usize_saturating_mul :: "nat \<Rightarrow> nat \<Rightarrow> nat" where
  "usize_saturating_mul a b = min (a * b) (2 ^ 64 - 1)"

definition seal_must_not_be_skipped :: "flush_config \<Rightarrow> write_buffer \<Rightarrow> bool" where
  "seal_must_not_be_skipped c w \<longleftrightarrow> flush_spans c > 0 \<and> wb_len w \<ge> usize_saturating_mul (flush_spans c) 4"

definition log_needs_reclaiming :: "flush_config \<Rightarrow> u64 \<Rightarrow> bool" where
  "log_needs_reclaiming c held = (case flush_wal_bytes c of Some limit \<Rightarrow> limit > 0 \<and> held \<ge> limit | None \<Rightarrow> False)"

section \<open>The state\<close>

text \<open>A segment file of the directory: its number, its length and its spans.\<close>

type_synonym seg_entry = "nat \<times> u64 \<times> span list"

abbreviation entry_spans :: "seg_entry \<Rightarrow> span list" where
  "entry_spans e \<equiv> snd (snd e)"

definition entry_of :: "seg_handle \<Rightarrow> seg_entry" where
  "entry_of s = (sg_id s, sg_bytes s, sg_spans s)"

record merge_journal =
  j_inputs :: "nat list"
  j_outputs :: "nat list"

datatype seal_phase = SealWriting | SealWritten seg_handle | SealPublished

record seal_job =
  d_spans :: "handle list"
  d_upserts :: nat
  d_id :: nat
  d_phase :: seal_phase

datatype merge_phase = Merging | Deleting nat | Aborting nat

record merge_job =
  m_inputs :: "seg_handle list"
  m_chunks :: "nat list"
  m_first :: nat
  m_outputs :: "seg_handle list"
  m_phase :: merge_phase

record store =
  writer :: write_buffer
  segments :: "seg_handle list"
  next_segment :: nat
  disk :: "seg_entry list"
  unsynced :: "seg_entry list"
  journals :: "merge_journal list"
  log :: "span list"
  sealing :: "seal_job option"
  merging :: "merge_job option"

definition empty_store :: store where
  "empty_store =
     \<lparr>writer = wb_default, segments = [], next_segment = 0, disk = [], unsynced = [], journals = [], log = [],
      sealing = None, merging = None\<rparr>"

text \<open>What a reader finds under a key: the buffered version, or the newest segment's.\<close>

definition segments_view :: "seg_handle list \<Rightarrow> span_key \<rightharpoonup> span" where
  "segments_view segs = latest_by key_of (concat (map sg_spans segs))"

definition visible :: "store \<Rightarrow> span_key \<rightharpoonup> span" where
  "visible st = segments_view (segments st) ++ wb_map (writer st)"

section \<open>Files\<close>

definition exists_file :: "nat \<Rightarrow> seg_entry list \<Rightarrow> bool" where
  "exists_file n d \<longleftrightarrow> n \<in> fst ` set d"

text \<open>\<open>unlink_segment\<close>: a file already gone is no error.\<close>

definition unlink_file :: "nat \<Rightarrow> seg_entry list \<Rightarrow> seg_entry list" where
  "unlink_file n d = filter (\<lambda>e. fst e \<noteq> n) d"

text \<open>\<open>write_segment\<close> ends in one of three ways: before the rename, after it (the directory sync, the length
  or the reopen failed, and the file stays), or with the open segment.\<close>

datatype write_outcome = NotWritten | LeftBehind | Written

definition write_segment :: "write_outcome \<Rightarrow> nat \<Rightarrow> u64 \<Rightarrow> nat \<Rightarrow> span list \<Rightarrow> seg_entry list \<Rightarrow> seg_entry list \<times> seg_handle option" where
  "write_segment outcome addr len n spans d =
     (if exists_file n d then (d, None)
      else case outcome of
             NotWritten \<Rightarrow> (d, None)
           | LeftBehind \<Rightarrow> ((n, len, spans) # d, None)
           | Written \<Rightarrow> ((n, len, spans) # d, Some \<lparr>sg_addr = addr, sg_id = n, sg_bytes = len, sg_spans = spans\<rparr>))"

section \<open>Admission\<close>

text \<open>The writer-lock section of \<open>admit\<close>: the batch joins the log and is upserted, one fresh allocation per
  span. The log is durable here: how an append becomes durable is the subject of the log's own theories.\<close>

definition admit :: "nat \<Rightarrow> nat list \<Rightarrow> span list \<Rightarrow> store \<Rightarrow> store" where
  "admit now addrs spans st =
     st\<lparr>log := log st @ spans,
        writer := puts upsert_call (zip (map (Pair now) addrs) spans) (writer st)\<rparr>"

section \<open>Sealing\<close>

definition seal_drain :: "store \<Rightarrow> store option" where
  "seal_drain st =
     (if sealing st \<noteq> None \<or> wb_is_empty (writer st) then None
      else Some (st\<lparr>next_segment := next_segment st + 1,
                    sealing := Some \<lparr>d_spans = wb_spans (writer st), d_upserts = wb_upserts (writer st),
                                     d_id = next_segment st, d_phase = SealWriting\<rparr>\<rparr>))"

definition seal_write :: "write_outcome \<Rightarrow> nat \<Rightarrow> u64 \<Rightarrow> store \<Rightarrow> store option" where
  "seal_write outcome addr len st =
     (case sealing st of
        None \<Rightarrow> None
      | Some j \<Rightarrow>
          (if d_phase j \<noteq> SealWriting then None
           else
             let (d, sealed) = write_segment outcome addr len (d_id j) (sort_spans (map snd (d_spans j))) (disk st)
             in case sealed of
                  None \<Rightarrow> Some (st\<lparr>disk := d, sealing := None\<rparr>)
                | Some s \<Rightarrow> Some (st\<lparr>disk := d, sealing := Some (j\<lparr>d_phase := SealWritten s\<rparr>)\<rparr>)))"

definition seal_publish :: "store \<Rightarrow> store option" where
  "seal_publish st =
     (case sealing st of
        None \<Rightarrow> None
      | Some j \<Rightarrow>
          (case d_phase j of
             SealWritten s \<Rightarrow> Some (st\<lparr>segments := sort_key sg_id (segments st @ [s]), sealing := Some (j\<lparr>d_phase := SealPublished\<rparr>)\<rparr>)
           | _ \<Rightarrow> None))"

text \<open>\<open>reconcile_after_publish\<close>: \<open>reclaim\<close> is the answer of \<open>log_needs_reclaiming\<close>, \<open>log_ok\<close> whether the reset or
  rewrite of the log succeeds. An error leaves log and buffer as they were.\<close>

definition survivors :: "nat set \<Rightarrow> write_buffer \<Rightarrow> span list" where
  "survivors sealed w = map snd (filter (\<lambda>h. fst h \<notin> sealed) (wb_spans w))"

definition reconcile_after_publish :: "nat \<Rightarrow> bool \<Rightarrow> bool \<Rightarrow> store \<Rightarrow> store option" where
  "reconcile_after_publish now reclaim log_ok st =
     (case sealing st of
        None \<Rightarrow> None
      | Some j \<Rightarrow>
          (if d_phase j \<noteq> SealPublished then None
           else
             let sealed = fst ` set (d_spans j);
                 rest = survivors sealed (writer st);
                 touches = (rest = [] \<or> reclaim)
             in if touches \<and> \<not> log_ok then Some (st\<lparr>sealing := None\<rparr>)
                else
                  let w = evict_sealed now sealed (writer st)
                  in Some (st\<lparr>log := (if rest = [] then [] else if reclaim then rest else log st),
                             writer := w\<lparr>wb_upserts := wb_upserts w - d_upserts j\<rparr>,
                             sealing := None\<rparr>)))"

section \<open>Merging\<close>

text \<open>The pin: under the seal permit, so with no seal in flight. The journal is durable before any output is
  written; a journal that could not be made durable ends the merge, and its file may stay.\<close>

definition journal_of :: "merge_job \<Rightarrow> merge_journal" where
  "journal_of m = \<lparr>j_inputs = map sg_id (m_inputs m), j_outputs = [m_first m ..< m_first m + length (m_chunks m)]\<rparr>"

definition merge_pin :: "compaction_config \<Rightarrow> nat \<Rightarrow> (seg_handle list \<Rightarrow> nat option) \<Rightarrow> write_outcome \<Rightarrow> store \<Rightarrow> store option" where
  "merge_pin settings watermark select journal_write st =
     (if sealing st \<noteq> None \<or> merging st \<noteq> None then None
      else
        case select (segments st) of
          None \<Rightarrow> None
        | Some run \<Rightarrow>
            let inputs = drop (length (segments st) - run) (segments st)
            in if sg_id (inputs ! 0) \<ge> watermark then None
               else
                 let chunks = merge_chunks inputs settings;
                     m = \<lparr>m_inputs = inputs, m_chunks = chunks, m_first = next_segment st, m_outputs = [], m_phase = Merging\<rparr>;
                     st = st\<lparr>next_segment := next_segment st + length chunks\<rparr>
                 in case journal_write of
                      NotWritten \<Rightarrow> Some st
                    | LeftBehind \<Rightarrow> Some (st\<lparr>journals := journals st @ [journal_of m]\<rparr>)
                    | Written \<Rightarrow> Some (st\<lparr>journals := journals st @ [journal_of m], merging := Some m\<rparr>))"

definition merge_write :: "write_outcome \<Rightarrow> nat \<Rightarrow> u64 \<Rightarrow> store \<Rightarrow> store option" where
  "merge_write outcome addr len st =
     (case merging st of
        None \<Rightarrow> None
      | Some m \<Rightarrow>
          let offset = length (m_outputs m)
          in if m_phase m \<noteq> Merging \<or> offset = length (m_chunks m) then None
             else
               let g = groups (m_chunks m) (m_inputs m) ! offset;
                   (d, sealed) = write_segment outcome addr len (m_first m + offset) (merge_group g) (disk st)
               in case sealed of
                    None \<Rightarrow> Some (st\<lparr>disk := d, merging := Some (m\<lparr>m_phase := Aborting 0\<rparr>)\<rparr>)
                  | Some s \<Rightarrow> Some (st\<lparr>disk := d, merging := Some (m\<lparr>m_outputs := m_outputs m @ [s]\<rparr>)\<rparr>))"

definition merge_publish :: "store \<Rightarrow> store option" where
  "merge_publish st =
     (case merging st of
        None \<Rightarrow> None
      | Some m \<Rightarrow>
          if m_phase m \<noteq> Merging \<or> length (m_outputs m) \<noteq> length (m_chunks m) then None
          else
            case run_position (segments st) (m_inputs m) of
              None \<Rightarrow> Some (st\<lparr>merging := Some (m\<lparr>m_phase := Aborting 0\<rparr>)\<rparr>)
            | Some start \<Rightarrow>
                Some (st\<lparr>segments := sort_key sg_id (take start (segments st) @ m_outputs m @ drop (start + length (m_inputs m)) (segments st)),
                         merging := Some (m\<lparr>m_phase := Deleting 0\<rparr>)\<rparr>))"

definition unlink_step :: "nat \<Rightarrow> store \<Rightarrow> store" where
  "unlink_step n st = st\<lparr>disk := unlink_file n (disk st), unsynced := unsynced st @ filter (\<lambda>e. fst e = n) (disk st)\<rparr>"

text \<open>One \<open>unlink_segment\<close> of the two loops: the inputs after a publication, the outputs after a failure. An
  unlink that fails ends the merge with its journal in place.\<close>

definition merge_unlink :: "bool \<Rightarrow> store \<Rightarrow> store option" where
  "merge_unlink unlink_ok st =
     (case merging st of
        None \<Rightarrow> None
      | Some m \<Rightarrow>
          (case m_phase m of
             Merging \<Rightarrow> None
           | Deleting n \<Rightarrow>
               if n = length (m_inputs m) then None
               else if \<not> unlink_ok then Some (st\<lparr>merging := None\<rparr>)
               else Some ((unlink_step (sg_id (m_inputs m ! n)) st)\<lparr>merging := Some (m\<lparr>m_phase := Deleting (n + 1)\<rparr>)\<rparr>)
           | Aborting n \<Rightarrow>
               if n = length (m_chunks m) then None
               else if \<not> unlink_ok then Some (st\<lparr>merging := None\<rparr>)
               else Some ((unlink_step (m_first m + n) st)\<lparr>merging := Some (m\<lparr>m_phase := Aborting (n + 1)\<rparr>)\<rparr>)))"

text \<open>A journal is named for its first output.\<close>

definition journal_order :: "merge_journal \<Rightarrow> nat" where
  "journal_order j = (case j_outputs j of [] \<Rightarrow> 0 | n # _ \<Rightarrow> n)"

text \<open>The directory sync behind the last unlink, then the removal of the journal (which may fail) and its sync.
  Nothing else writes between the two, so a crash that brings the journal back is a crash before this step.\<close>

definition merge_finish :: "bool \<Rightarrow> store \<Rightarrow> store option" where
  "merge_finish remove_ok st =
     (case merging st of
        None \<Rightarrow> None
      | Some m \<Rightarrow>
          if m_phase m = Deleting (length (m_inputs m)) \<or> m_phase m = Aborting (length (m_chunks m))
          then Some (st\<lparr>unsynced := [],
                        journals := (if remove_ok then filter (\<lambda>j. journal_order j \<noteq> m_first m) (journals st) else journals st),
                        merging := None\<rparr>)
          else None)"

section \<open>Opening\<close>

definition recover_merge :: "merge_journal \<Rightarrow> seg_entry list \<Rightarrow> seg_entry list" where
  "recover_merge j d =
     (if j_outputs j = [] then d
      else
        let committed = list_all (\<lambda>n. exists_file n d) (j_outputs j);
            untouched = list_all (\<lambda>n. exists_file n d) (j_inputs j)
        in if committed \<or> \<not> untouched then fold unlink_file (j_inputs j) d
           else fold unlink_file (j_outputs j) d)"

definition recover_supersede_markers :: "merge_journal list \<Rightarrow> seg_entry list \<Rightarrow> seg_entry list" where
  "recover_supersede_markers js d = fold recover_merge (sort_key journal_order js) d"

text \<open>\<open>load_segments\<close> opens every segment file, in path order; each gets a fresh allocation.\<close>

definition load_segments :: "seg_entry list \<Rightarrow> seg_handle list" where
  "load_segments d =
     map (\<lambda>(a, e). \<lparr>sg_addr = a, sg_id = fst e, sg_bytes = fst (snd e), sg_spans = entry_spans e\<rparr>) (enumerate 0 (sort_key fst d))"

definition open_store :: "nat \<Rightarrow> seg_entry list \<Rightarrow> merge_journal list \<Rightarrow> span list \<Rightarrow> store" where
  "open_store now d js l =
     (let d = recover_supersede_markers js d;
          segs = load_segments d;
          buffer = puts upsert_call (map (\<lambda>(a, s). ((now, a), s)) (enumerate 0 l)) wb_default
      in \<lparr>writer = buffer, segments = segs,
          next_segment = (if segs = [] then 0 else Max (sg_id ` set segs) + 1),
          disk = d, unsynced = [], journals = [], log = l, sealing = None, merging = None\<rparr>)"

text \<open>A crash keeps the files and the log; an unlink the directory was not synced after may be undone.\<close>

definition crash_and_open :: "nat \<Rightarrow> seg_entry list \<Rightarrow> store \<Rightarrow> store" where
  "crash_and_open now restored st = open_store now (disk st @ restored) (journals st) (log st)"

end
