(* ===== verification/Store_View.thy ===== *)
theory Store_View
  imports Store_State
begin

text \<open>
  What a store shows depends only on the newest holder of each key: the lemmas that let files nobody needs
  come and go without changing it.
\<close>

section \<open>The newest holder\<close>

lemma latest_concat_Some:
  fixes num :: "'e \<Rightarrow> nat"
  assumes "sorted_wrt (<) (map num l)"
  shows "latest_by key (concat (map held l)) k = Some v
    \<longleftrightarrow> (\<exists>e \<in> set l. latest_by key (held e) k = Some v \<and> (\<forall>e' \<in> set l. num e < num e' \<longrightarrow> latest_by key (held e') k = None))"
  using assms
proof (induction l rule: rev_induct)
  case (snoc e l)
  have less: "num a < num e" if "a \<in> set l" for a using snoc.prems that by (auto simp: sorted_wrt_append)
  have IH: "latest_by key (concat (map held l)) k = Some v
    \<longleftrightarrow> (\<exists>e \<in> set l. latest_by key (held e) k = Some v \<and> (\<forall>e' \<in> set l. num e < num e' \<longrightarrow> latest_by key (held e') k = None))"
    using snoc by (simp add: sorted_wrt_append)
  show ?case
  proof (cases "latest_by key (held e) k")
    case None
    then have "latest_by key (concat (map held (l @ [e]))) k = latest_by key (concat (map held l)) k"
      by (simp add: map_add_dom_app_simps(3) domIff)
    then show ?thesis using IH None less by auto
  next
    case (Some w)
    then have "latest_by key (concat (map held (l @ [e]))) k = Some w" by simp
    moreover have "\<not> num e < num a" if "a \<in> set l" for a using less [OF that] by (meson less_asym)
    ultimately show ?thesis using Some less by fastforce
  qed
qed simp

text \<open>A list with some more holders, each of whose keys has a later holder or is in \<open>K\<close>: outside \<open>K\<close> nothing
  changes.\<close>

lemma latest_concat_covered:
  fixes num :: "'e \<Rightarrow> nat"
  assumes big: "sorted_wrt (<) (map num d)" and small: "sorted_wrt (<) (map num l)" and sub: "set l \<subseteq> set d"
    and cover: "\<And>e v. e \<in> set d \<Longrightarrow> e \<notin> set l \<Longrightarrow> v \<in> set (held e)
        \<Longrightarrow> key v \<in> K \<or> (\<exists>e' \<in> set l. num e < num e' \<and> key v \<in> key ` set (held e'))"
    and k: "k \<notin> K"
  shows "latest_by key (concat (map held d)) k = latest_by key (concat (map held l)) k"
proof (rule option_eqI)
  fix v
  have later: "\<exists>e' \<in> set l. num e < num e' \<and> latest_by key (held e') k \<noteq> None"
    if e: "e \<in> set d" "e \<notin> set l" "latest_by key (held e) k \<noteq> None" for e
  proof -
    obtain x where x: "x \<in> set (held e)" "key x = k" using e(3) unfolding latest_by_None by auto
    then obtain e' where "e' \<in> set l" "num e < num e'" "k \<in> key ` set (held e')" using cover [OF e(1,2) x(1)] k by auto
    then show ?thesis unfolding latest_by_None by blast
  qed
  show "latest_by key (concat (map held d)) k = Some v \<longleftrightarrow> latest_by key (concat (map held l)) k = Some v"
    unfolding latest_concat_Some [OF big] latest_concat_Some [OF small]
  proof (intro iffI; elim bexE conjE)
    fix e assume e: "e \<in> set d" "latest_by key (held e) k = Some v" "\<forall>e' \<in> set d. num e < num e' \<longrightarrow> latest_by key (held e') k = None"
    have "e \<in> set l" using later [OF e(1)] e(2,3) sub by force
    then show "\<exists>e \<in> set l. latest_by key (held e) k = Some v \<and> (\<forall>e' \<in> set l. num e < num e' \<longrightarrow> latest_by key (held e') k = None)"
      using e sub by blast
  next
    fix e assume e: "e \<in> set l" "latest_by key (held e) k = Some v" "\<forall>e' \<in> set l. num e < num e' \<longrightarrow> latest_by key (held e') k = None"
    have "latest_by key (held e') k = None" if "e' \<in> set d" "num e < num e'" for e'
    proof (rule ccontr)
      assume some: "latest_by key (held e') k \<noteq> None"
      with that(2) have "e' \<notin> set l" using bspec [OF e(3), of e'] by argo
      from later [OF that(1) this some] obtain e'' where e'': "e'' \<in> set l" "num e' < num e''" "latest_by key (held e'') k \<noteq> None" by blast
      moreover have "num e < num e''" using that(2) \<open>num e' < num e''\<close> by simp
      ultimately show False using bspec [OF e(3) e''(1)] e''(3) by argo
    qed
    then show "\<exists>e \<in> set d. latest_by key (held e) k = Some v \<and> (\<forall>e' \<in> set d. num e < num e' \<longrightarrow> latest_by key (held e') k = None)"
      using e sub by blast
  qed
qed

section \<open>Views of directories\<close>

definition entries_view :: "seg_entry list \<Rightarrow> span_key \<rightharpoonup> span" where
  "entries_view d = latest_by key_of (concat (map entry_spans (sort_key fst d)))"

lemma sorted_ids: "distinct (map f d) \<Longrightarrow> sorted_wrt (<) (map f (sort_key f d))"
  for f :: "'a \<Rightarrow> 'b::linorder"
  by (simp add: strict_sorted_iff distinct_map)

lemma segments_view_load: "segments_view (load_segments d) = entries_view d"
proof -
  have "map sg_spans (load_segments d) = map entry_spans (map snd (enumerate 0 (sort_key fst d)))"
    unfolding load_segments_def map_map by (rule map_cong) (auto simp: comp_def)
  then show ?thesis by (simp add: segments_view_def entries_view_def)
qed

lemma sg_ids_load: "map sg_id (load_segments d) = map fst (sort_key fst d)"
proof -
  have "map sg_id (load_segments d) = map fst (map snd (enumerate 0 (sort_key fst d)))"
    unfolding load_segments_def map_map by (rule map_cong) (auto simp: comp_def)
  then show ?thesis by simp
qed

lemma entry_of_load: "map entry_of (load_segments d) = sort_key fst d"
proof -
  have "map entry_of (load_segments d) = map snd (enumerate 0 (sort_key fst d))"
    unfolding load_segments_def map_map by (rule map_cong) (auto simp: comp_def entry_of_def)
  then show ?thesis by simp
qed

lemma sg_addrs_load: "map sg_addr (load_segments d) = [0 ..< length d]"
proof -
  have "map sg_addr (load_segments d) = map fst (enumerate 0 (sort_key fst d))"
    unfolding load_segments_def map_map by (rule map_cong) (auto simp: comp_def)
  then show ?thesis by simp
qed

lemma fst_entry_of [simp]: "fst (entry_of s) = sg_id s" "entry_spans (entry_of s) = sg_spans s"
  by (simp_all add: entry_of_def)

text \<open>A file whose every key has a newer live holder, or is among \<open>K\<close>.\<close>

definition covered :: "seg_handle list \<Rightarrow> span_key set \<Rightarrow> seg_entry \<Rightarrow> bool" where
  "covered live K e \<longleftrightarrow>
     (\<forall>x \<in> set (entry_spans e). key_of x \<in> K \<or> (\<exists>s \<in> set live. fst e < sg_id s \<and> key_of x \<in> key_of ` set (sg_spans s)))"

lemma entries_view_covered:
  assumes d: "distinct (map fst d)" and live: "sorted_wrt (<) (map sg_id live)" "entry_of ` set live \<subseteq> set d"
    and cover: "\<And>e. e \<in> set d \<Longrightarrow> e \<notin> entry_of ` set live \<Longrightarrow> covered live K e" and K: "K \<subseteq> dom m"
  shows "entries_view d ++ m = segments_view live ++ m"
proof
  fix k
  show "(entries_view d ++ m) k = (segments_view live ++ m) k"
  proof (cases "k \<in> dom m")
    case False
    have "latest_by key_of (concat (map entry_spans (sort_key fst d))) k = latest_by key_of (concat (map entry_spans (map entry_of live))) k"
    proof (rule latest_concat_covered [where num = fst and K = K])
      show "sorted_wrt (<) (map fst (sort_key fst d))" by (rule sorted_ids [OF d])
      show "sorted_wrt (<) (map fst (map entry_of live))" using live(1) by (simp add: comp_def)
      show "set (map entry_of live) \<subseteq> set (sort_key fst d)" using live(2) by simp
      show "k \<notin> K" using K False by blast
    next
      fix e v assume "e \<in> set (sort_key fst d)" "e \<notin> set (map entry_of live)" and v: "v \<in> set (entry_spans e)"
      then have "covered live K e" by (intro cover) simp_all
      then have "key_of v \<in> K \<or> (\<exists>s \<in> set live. fst e < sg_id s \<and> key_of v \<in> key_of ` set (sg_spans s))"
        using v unfolding covered_def by blast
      then show "key_of v \<in> K \<or> (\<exists>e' \<in> set (map entry_of live). fst e < fst e' \<and> key_of v \<in> key_of ` set (entry_spans e'))"
        by simp
    qed
    then have "entries_view d k = segments_view live k" by (simp add: entries_view_def segments_view_def comp_def)
    then show ?thesis by (simp add: map_add_def split: option.split)
  next
    case True
    then show ?thesis by (auto simp: map_add_def)
  qed
qed

lemma covered_mono: "covered live K e \<Longrightarrow> set live \<subseteq> set live' \<Longrightarrow> K \<subseteq> K' \<Longrightarrow> covered live' K' e"
  unfolding covered_def by blast

section \<open>Groups keep the view\<close>

lemma latest_by_concat: "latest_by key (concat xss) = foldl (++) Map.empty (map (latest_by key) xss)"
  by (induction xss rule: rev_induct) simp_all

lemma concat_map_concat: "concat (map (\<lambda>g. concat (map f g)) gs) = concat (map f (concat gs))"
  by (induction gs) simp_all

lemma outputs_view:
  assumes "sum_list sizes = length inputs" and "map sg_spans outputs = map merge_group (groups sizes inputs)"
  shows "segments_view outputs = segments_view inputs"
proof -
  have "map (latest_by key_of) (map sg_spans outputs) = map (latest_by key_of) (map (\<lambda>g. concat (map sg_spans g)) (groups sizes inputs))"
    unfolding assms(2) by (simp add: merge_group_spec(2) comp_def)
  then have "segments_view outputs = latest_by key_of (concat (map (\<lambda>g. concat (map sg_spans g)) (groups sizes inputs)))"
    unfolding segments_view_def by (simp only: latest_by_concat)
  also have "\<dots> = latest_by key_of (concat (map sg_spans (concat (groups sizes inputs))))" by (simp only: concat_map_concat)
  finally show ?thesis by (simp add: segments_view_def concat_groups [OF assms(1)])
qed

lemma segments_view_append: "segments_view (a @ b) = segments_view a ++ segments_view b"
  by (simp add: segments_view_def)

lemma dom_segments_view: "dom (segments_view segs) = (\<Union>s \<in> set segs. key_of ` set (sg_spans s))"
  unfolding segments_view_def dom_latest_by by auto

text \<open>Every key of an input is a key of some output.\<close>

lemma outputs_cover:
  fixes outputs :: "seg_handle list"
  assumes "sum_list sizes = length inputs" and "map sg_spans outputs = map merge_group (groups sizes inputs)"
    and "s \<in> set inputs" and "x \<in> set (sg_spans s)"
  shows "\<exists>t \<in> set outputs. key_of x \<in> key_of ` set (sg_spans t)"
proof -
  have "key_of x \<in> dom (segments_view inputs)" unfolding dom_segments_view using assms(3,4) by blast
  then have "key_of x \<in> dom (segments_view outputs)" using outputs_view [OF assms(1,2)] by simp
  then show ?thesis unfolding dom_segments_view by blast
qed

lemma covered_replace:
  assumes cov: "covered (pre @ inputs @ post) K e"
    and out: "sum_list sizes = length inputs" "map sg_spans outputs = map merge_group (groups sizes inputs)"
    and ids: "\<And>s t. s \<in> set inputs \<Longrightarrow> t \<in> set outputs \<Longrightarrow> sg_id s < sg_id t"
  shows "covered (pre @ outputs @ post) K e"
  unfolding covered_def
proof
  fix x assume x: "x \<in> set (entry_spans e)"
  from cov x consider "key_of x \<in> K"
    | s where "s \<in> set (pre @ post)" "fst e < sg_id s" "key_of x \<in> key_of ` set (sg_spans s)"
    | s where "s \<in> set inputs" "fst e < sg_id s" "key_of x \<in> key_of ` set (sg_spans s)"
    unfolding covered_def by (metis UnE Un_iff set_append)
  then show "key_of x \<in> K \<or> (\<exists>s \<in> set (pre @ outputs @ post). fst e < sg_id s \<and> key_of x \<in> key_of ` set (sg_spans s))"
  proof cases
    case (3 s)
    then obtain y where y: "y \<in> set (sg_spans s)" "key_of y = key_of x" by auto
    obtain t where t: "t \<in> set outputs" "key_of y \<in> key_of ` set (sg_spans t)" using outputs_cover [OF out 3(1) y(1)] by blast
    have "fst e < sg_id t" using ids [OF 3(1) t(1)] 3(2) by simp
    then show ?thesis using t y(2) by auto
  qed auto
qed

end
