(* ===== verification/Store_Machine.thy ===== *)
theory Store_Machine
  imports Store_View
begin

text \<open>
  The store as a machine: admissions, the steps of a seal and of a merge, and crashes, in any interleaving
  the locks allow, and what every reader sees in every reachable state.
\<close>

section \<open>Steps\<close>

definition held_addresses :: "store \<Rightarrow> nat set" where
  "held_addresses st = (case sealing st of None \<Rightarrow> {} | Some j \<Rightarrow> fst ` set (d_spans j))"

text \<open>The segments opened and not yet published.\<close>

definition sealed_handle :: "store \<Rightarrow> seg_handle list" where
  "sealed_handle st = (case sealing st of Some j \<Rightarrow> (case d_phase j of SealWritten s \<Rightarrow> [s] | _ \<Rightarrow> []) | None \<Rightarrow> [])"

definition merged_handles :: "store \<Rightarrow> seg_handle list" where
  "merged_handles st = (case merging st of Some m \<Rightarrow> (case m_phase m of Merging \<Rightarrow> m_outputs m | _ \<Rightarrow> []) | None \<Rightarrow> [])"

definition handles :: "store \<Rightarrow> seg_handle list" where
  "handles st = segments st @ sealed_handle st @ merged_handles st"

abbreviation free_segment :: "nat \<Rightarrow> store \<Rightarrow> bool" where
  "free_segment addr st \<equiv> addr \<notin> sg_addr ` set (handles st)"

definition chooses_run :: "(seg_handle list \<Rightarrow> nat option) \<Rightarrow> bool" where
  "chooses_run select \<longleftrightarrow> (\<forall>segs run. select segs = Some run \<longrightarrow> 0 < run \<and> run \<le> length segs)"

text \<open>The second argument: the spans the step admits. Writes of segments may fail on either side of the
  rename, log reclaims may fail, and a journal may fail to be written at all. Left out are the failures that leave a journal
  without its merge: one made durable but reported as failed, a failed unlink, a failed removal.\<close>

inductive store_step :: "store \<Rightarrow> span list \<Rightarrow> store \<Rightarrow> bool" where
  admit_step: "length addrs = length spans
    \<Longrightarrow> all_admitted (free_address (held_addresses st)) upsert_call (zip (map (Pair now) addrs) spans) (writer st)
    \<Longrightarrow> store_step st spans (admit now addrs spans st)"
| drain_step: "seal_drain st = Some st' \<Longrightarrow> store_step st [] st'"
| seal_write_step: "free_segment addr st \<Longrightarrow> seal_write outcome addr len st = Some st' \<Longrightarrow> store_step st [] st'"
| seal_publish_step: "seal_publish st = Some st' \<Longrightarrow> store_step st [] st'"
| reconcile_step: "reconcile_after_publish now reclaim log_ok st = Some st' \<Longrightarrow> store_step st [] st'"
| pin_step: "chooses_run select \<Longrightarrow> journal_write \<noteq> LeftBehind \<Longrightarrow> merge_pin settings watermark select journal_write st = Some st'
    \<Longrightarrow> store_step st [] st'"
| merge_write_step: "free_segment addr st \<Longrightarrow> merge_write outcome addr len st = Some st' \<Longrightarrow> store_step st [] st'"
| merge_publish_step: "merge_publish st = Some st' \<Longrightarrow> store_step st [] st'"
| merge_unlink_step: "merge_unlink True st = Some st' \<Longrightarrow> store_step st [] st'"
| merge_finish_step: "merge_finish True st = Some st' \<Longrightarrow> store_step st [] st'"
| crash_step: "set restored \<subseteq> set (unsynced st) \<Longrightarrow> distinct (map fst restored) \<Longrightarrow> store_step st [] (crash_and_open now restored st)"

section \<open>The invariant\<close>

definition drained_map :: "seal_job \<Rightarrow> span_key \<rightharpoonup> span" where
  "drained_map j = latest_by key_of (map snd (d_spans j))"

definition sealed_content :: "seal_job \<Rightarrow> seg_handle \<Rightarrow> bool" where
  "sealed_content j s \<longleftrightarrow> sg_id s = d_id j \<and> sg_spans s = sort_spans (map snd (d_spans j))"

definition seal_inv :: "store \<Rightarrow> seal_job \<Rightarrow> bool" where
  "seal_inv st j \<longleftrightarrow>
     next_segment st = d_id j + 1
     \<and> distinct (keys_of (d_spans j))
     \<and> wb_map (writer st) = drained_map j ++ unsealed_map (fst ` set (d_spans j)) (writer st)
     \<and> (case d_phase j of
          SealWriting \<Rightarrow> \<forall>e \<in> set (disk st). fst e < d_id j
        | SealWritten s \<Rightarrow> sealed_content j s \<and> entry_of s \<in> set (disk st) \<and> (\<forall>t \<in> set (segments st). sg_id t < d_id j)
        | SealPublished \<Rightarrow> \<exists>base s. segments st = base @ [s] \<and> sealed_content j s)"

definition output_ids :: "merge_job \<Rightarrow> nat set" where
  "output_ids m = {m_first m ..< m_first m + length (m_chunks m)}"

definition correct_output :: "merge_job \<Rightarrow> seg_entry \<Rightarrow> bool" where
  "correct_output m e \<longleftrightarrow>
     (fst e \<in> output_ids m \<longrightarrow> entry_spans e = merge_group (groups (m_chunks m) (m_inputs m) ! (fst e - m_first m)))"

definition split_at_run :: "merge_job \<Rightarrow> seg_handle list \<Rightarrow> bool" where
  "split_at_run m live \<longleftrightarrow>
     (\<exists>pre post. live = pre @ m_inputs m @ post \<and> (\<forall>s \<in> set post. m_first m + length (m_chunks m) \<le> sg_id s))"

text \<open>The first id a merge pinned before now cannot have claimed.\<close>

definition id_bound :: "store \<Rightarrow> nat" where
  "id_bound st = (case sealing st of None \<Rightarrow> next_segment st | Some j \<Rightarrow> d_id j)"

definition merge_inv :: "store \<Rightarrow> merge_job \<Rightarrow> bool" where
  "merge_inv st m \<longleftrightarrow>
     m_inputs m \<noteq> [] \<and> sum_list (m_chunks m) = length (m_inputs m) \<and> m_chunks m \<noteq> []
     \<and> m_first m + length (m_chunks m) \<le> id_bound st
     \<and> (\<forall>s \<in> set (m_inputs m). sg_id s < m_first m)
     \<and> journals st = [journal_of m]
     \<and> map sg_id (m_outputs m) = [m_first m ..< m_first m + length (m_outputs m)]
     \<and> length (m_outputs m) \<le> length (m_chunks m)
     \<and> map sg_spans (m_outputs m) = map merge_group (take (length (m_outputs m)) (groups (m_chunks m) (m_inputs m)))
     \<and> (case m_phase m of
          Merging \<Rightarrow>
            split_at_run m (segments st) \<and> unsynced st = [] \<and> entry_of ` set (m_outputs m) \<subseteq> set (disk st)
            \<and> (\<forall>e \<in> set (disk st). fst e \<notin> {m_first m + length (m_outputs m) ..< m_first m + length (m_chunks m)})
        | Deleting n \<Rightarrow>
            length (m_outputs m) = length (m_chunks m) \<and> n \<le> length (m_inputs m) \<and> set (m_outputs m) \<subseteq> set (segments st)
            \<and> sg_id ` set (m_inputs m) \<inter> sg_id ` set (segments st) = {}
            \<and> (\<forall>e \<in> set (unsynced st). fst e \<in> sg_id ` set (m_inputs m) \<and> fst e \<notin> fst ` set (disk st)
                  \<and> covered (segments st) (dom (wb_map (writer st))) e)
        | Aborting n \<Rightarrow>
            n \<le> length (m_chunks m) \<and> split_at_run m (segments st)
            \<and> (\<forall>e \<in> set (disk st) \<union> set (unsynced st). correct_output m e)
            \<and> (\<forall>e \<in> set (unsynced st). fst e \<in> output_ids m \<and> fst e \<notin> fst ` set (disk st))
            \<and> (\<forall>e \<in> set (disk st). fst e \<notin> {m_first m ..< m_first m + n}))"

definition pending_outputs :: "store \<Rightarrow> nat set" where
  "pending_outputs st =
     (case merging st of None \<Rightarrow> {} | Some m \<Rightarrow> (case m_phase m of Deleting n \<Rightarrow> {} | _ \<Rightarrow> output_ids m))"

definition log_agrees :: "store \<Rightarrow> bool" where
  "log_agrees st \<longleftrightarrow>
     wb_map (writer st) \<subseteq>\<^sub>m latest_by key_of (log st)
     \<and> visible st = segments_view (segments st) ++ latest_by key_of (log st)"

definition store_inv :: "store \<Rightarrow> bool" where
  "store_inv st \<longleftrightarrow>
     wb_ok (writer st) \<and> log_agrees st
     \<and> sorted_wrt (<) (map sg_id (segments st)) \<and> distinct (map sg_addr (handles st))
     \<and> distinct (map fst (disk st)) \<and> (\<forall>e \<in> set (disk st). fst e < next_segment st)
     \<and> entry_of ` set (segments st) \<subseteq> set (disk st)
     \<and> (\<forall>e \<in> set (disk st). e \<in> entry_of ` set (segments st) \<or> fst e \<in> pending_outputs st
           \<or> covered (segments st) (dom (wb_map (writer st))) e)
     \<and> (\<forall>j. sealing st = Some j \<longrightarrow> seal_inv st j)
     \<and> (case merging st of None \<Rightarrow> journals st = [] \<and> unsynced st = [] | Some m \<Rightarrow> merge_inv st m)"

lemma store_invD:
  assumes "store_inv st"
  shows "wb_ok (writer st)" "log_agrees st" "sorted_wrt (<) (map sg_id (segments st))" "distinct (map sg_addr (handles st))"
    "distinct (map fst (disk st))" "\<And>e. e \<in> set (disk st) \<Longrightarrow> fst e < next_segment st"
    "entry_of ` set (segments st) \<subseteq> set (disk st)"
    "\<And>e. e \<in> set (disk st) \<Longrightarrow> e \<in> entry_of ` set (segments st) \<or> fst e \<in> pending_outputs st
           \<or> covered (segments st) (dom (wb_map (writer st))) e"
    "\<And>j. sealing st = Some j \<Longrightarrow> seal_inv st j"
    "merging st = None \<Longrightarrow> journals st = [] \<and> unsynced st = []"
    "\<And>m. merging st = Some m \<Longrightarrow> merge_inv st m"
  using assms by (auto simp: store_inv_def)

lemma store_invI:
  assumes "wb_ok (writer st)" "log_agrees st" "sorted_wrt (<) (map sg_id (segments st))" "distinct (map sg_addr (handles st))"
    "distinct (map fst (disk st))" "\<And>e. e \<in> set (disk st) \<Longrightarrow> fst e < next_segment st"
    "entry_of ` set (segments st) \<subseteq> set (disk st)"
    "\<And>e. e \<in> set (disk st) \<Longrightarrow> e \<notin> entry_of ` set (segments st) \<Longrightarrow> fst e \<notin> pending_outputs st
       \<Longrightarrow> covered (segments st) (dom (wb_map (writer st))) e"
    "\<And>j. sealing st = Some j \<Longrightarrow> seal_inv st j"
    "merging st = None \<Longrightarrow> journals st = [] \<and> unsynced st = []"
    "\<And>m. merging st = Some m \<Longrightarrow> merge_inv st m"
  shows "store_inv st"
proof -
  have "e \<in> entry_of ` set (segments st) \<or> fst e \<in> pending_outputs st \<or> covered (segments st) (dom (wb_map (writer st))) e"
    if "e \<in> set (disk st)" for e using assms(8) [OF that] by blast
  moreover have "case merging st of None \<Rightarrow> journals st = [] \<and> unsynced st = [] | Some m \<Rightarrow> merge_inv st m"
    using assms(10,11) by (cases "merging st") simp_all
  ultimately show ?thesis using assms(1-7,9) unfolding store_inv_def by blast
qed

lemma live_ids_less: "store_inv st \<Longrightarrow> s \<in> set (segments st) \<Longrightarrow> sg_id s < next_segment st"
  using store_invD(6) [of st "entry_of s"] store_invD(7) [of st] by auto

text \<open>The empty store.\<close>

lemma empty_store_inv: "store_inv empty_store" and visible_empty [simp]: "visible empty_store = Map.empty"
  by (simp_all add: store_inv_def empty_store_def log_agrees_def visible_def default_ok handles_def sealed_handle_def
      merged_handles_def segments_view_def)

text \<open>A step that leaves what everyone sees and both readings of it alone.\<close>

definition keeps :: "store \<Rightarrow> span list \<Rightarrow> store \<Rightarrow> bool" where
  "keeps st spans st' \<longleftrightarrow> store_inv st' \<and> visible st' = visible st ++ latest_by key_of spans"

lemma keeps_Nil: "keeps st [] st' \<longleftrightarrow> store_inv st' \<and> visible st' = visible st"
  by (simp add: keeps_def)

section \<open>Admission\<close>

lemma map_add_le: "m \<subseteq>\<^sub>m m' \<Longrightarrow> m ++ n \<subseteq>\<^sub>m m' ++ n"
  by (auto simp: map_le_def map_add_def dom_def split: option.splits)

lemma admit_keeps:
  assumes inv: "store_inv st" and len: "length addrs = length spans"
    and free: "all_admitted (free_address (held_addresses st)) upsert_call (zip (map (Pair now) addrs) spans) (writer st)"
  shows "keeps st spans (admit now addrs spans st)"
proof -
  let ?us = "zip (map (Pair now) addrs) spans" and ?st = "admit now addrs spans st" and ?M = "latest_by key_of spans"
  have snd: "map snd ?us = spans" using len by simp
  note I = store_invD [OF inv]
  have wb: "wb_ok (writer ?st)" unfolding admit_def by (simp add: buffer.puts_ok [OF I(1) free])
  have map: "wb_map (writer ?st) = wb_map (writer st) ++ ?M"
    using buffer.puts_view [OF I(1) free] unfolding admit_def snd by simp
  have un: "unsealed_map (held_addresses st) (writer ?st) = unsealed_map (held_addresses st) (writer st) ++ ?M"
    using unsealed.puts_view [OF I(1) free] unfolding admit_def snd by simp
  have same [simp]: "segments ?st = segments st" "disk ?st = disk st" "next_segment ?st = next_segment st" "sealing ?st = sealing st"
      "merging ?st = merging st" "journals ?st = journals st" "unsynced ?st = unsynced st" "log ?st = log st @ spans"
    by (simp_all add: admit_def)
  have [simp]: "id_bound ?st = id_bound st" by (simp add: id_bound_def split: option.split)
  have vis: "visible ?st = visible st ++ ?M" by (simp add: visible_def map)
  have agrees: "log_agrees ?st"
    using I(2) by (simp add: log_agrees_def vis map map_add_le)
  have seal: "seal_inv ?st j" if "sealing st = Some j" for j
    using I(9) [OF that] un that by (simp add: seal_inv_def map held_addresses_def cong: seal_phase.case_cong)
  have cov: "covered (segments st) (dom (wb_map (writer ?st))) e" if "covered (segments st) (dom (wb_map (writer st))) e" for e
    using that by (rule covered_mono) (auto simp: map)
  have merge: "merge_inv ?st m" if "merging st = Some m" for m
    using I(11) [OF that] cov by (auto simp: merge_inv_def split: merge_phase.splits)
  have [simp]: "handles ?st = handles st" "pending_outputs ?st = pending_outputs st"
    by (simp_all add: handles_def sealed_handle_def merged_handles_def pending_outputs_def)
  have "store_inv ?st"
  proof (rule store_invI)
    fix e assume "e \<in> set (disk ?st)" "e \<notin> entry_of ` set (segments ?st)" "fst e \<notin> pending_outputs ?st"
    then show "covered (segments ?st) (dom (wb_map (writer ?st))) e" using I(8) [of e] cov by auto
  qed (use I wb agrees seal merge in \<open>simp_all\<close>)
  then show ?thesis using vis by (simp add: keeps_def)
qed

section \<open>Sealing\<close>

lemma latest_by_set_eq:
  assumes "distinct (map key xs)" and "distinct (map key ys)" and "set xs = set ys"
  shows "latest_by key xs = latest_by key ys"
proof
  fix k
  show "latest_by key xs k = latest_by key ys k"
    by (rule option_eqI) (simp add: latest_by_distinct assms)
qed

lemma sealed_view:
  assumes "distinct (keys_of (d_spans j))" and "sealed_content j s"
  shows "latest_by key_of (sg_spans s) = drained_map j"
  unfolding drained_map_def using assms by (intro latest_by_set_eq) (simp_all add: sealed_content_def comp_def)

lemma map_add_twice: "m ++ (m ++ n) = m ++ n"
  by (rule ext) (simp add: map_add_def split: option.split)

lemma drained_in_buffer:
  assumes "seal_inv st j"
  shows "drained_map j ++ wb_map (writer st) = wb_map (writer st)" "dom (drained_map j) \<subseteq> dom (wb_map (writer st))"
proof -
  have w: "wb_map (writer st) = drained_map j ++ unsealed_map (fst ` set (d_spans j)) (writer st)"
    using assms by (simp add: seal_inv_def)
  show "drained_map j ++ wb_map (writer st) = wb_map (writer st)" using w map_add_twice by metis
  show "dom (drained_map j) \<subseteq> dom (wb_map (writer st))" by (subst w) auto
qed

lemma drained_covered: "seal_inv st j \<Longrightarrow> set (entry_spans e) = snd ` set (d_spans j) \<Longrightarrow> covered live (dom (wb_map (writer st))) e"
  using drained_in_buffer(2) [of st j] by (auto simp: covered_def drained_map_def dom_latest_by image_image)

lemma unsealed_all: "wb_ok w \<Longrightarrow> unsealed_map (fst ` set (wb_spans w)) w = Map.empty"
proof
  fix k
  assume "wb_ok w"
  then show "unsealed_map (fst ` set (wb_spans w)) w k = None"
    using unsealed_map_Some [of w "fst ` set (wb_spans w)" k] by (cases "unsealed_map (fst ` set (wb_spans w)) w k") force+
qed

lemma drain_keeps:
  assumes inv: "store_inv st" and step: "seal_drain st = Some st'"
  shows "keeps st [] st'"
proof -
  let ?j = "\<lparr>d_spans = wb_spans (writer st), d_upserts = wb_upserts (writer st), d_id = next_segment st, d_phase = SealWriting\<rparr>"
  note I = store_invD [OF inv]
  have st': "st' = st\<lparr>next_segment := next_segment st + 1, sealing := Some ?j\<rparr>" and none: "sealing st = None"
    using step by (auto simp: seal_drain_def split: if_splits)
  have [simp]: "handles st' = handles st" "pending_outputs st' = pending_outputs st" "id_bound st' = id_bound st"
    using none by (simp_all add: st' handles_def sealed_handle_def merged_handles_def pending_outputs_def id_bound_def)
  have [simp]: "segments st' = segments st" "disk st' = disk st" "writer st' = writer st" "log st' = log st" "merging st' = merging st"
      "journals st' = journals st" "unsynced st' = unsynced st"
    by (simp_all add: st')
  have vis: "visible st' = visible st" by (simp add: visible_def)
  have "store_inv st'"
  proof (rule store_invI)
    fix j assume "sealing st' = Some j"
    then have j: "j = ?j" by (simp add: st')
    show "seal_inv st' j"
      unfolding seal_inv_def j using I(1) I(6) by (auto simp: st' wb_ok_def drained_map_def unsealed_all wb_map_def)
  next
    fix m assume "merging st' = Some m"
    then show "merge_inv st' m" using I(11) [of m] by (simp add: merge_inv_def cong: merge_phase.case_cong)
  next
    fix e assume "e \<in> set (disk st')"
    then show "fst e < next_segment st'" using I(6) [of e] by (simp add: st')
  next
    fix e assume "e \<in> set (disk st')" "e \<notin> entry_of ` set (segments st')" "fst e \<notin> pending_outputs st'"
    then show "covered (segments st') (dom (wb_map (writer st'))) e" using I(8) [of e] by auto
  qed (use I vis in \<open>simp_all add: log_agrees_def\<close>)
  then show ?thesis using vis by (simp add: keeps_Nil)
qed

lemma write_segment_cases:
  assumes "write_segment outcome addr len n spans d = (d', sealed)" and "\<not> exists_file n d"
  obtains "d' = d" "sealed = None"
    | "d' = (n, len, spans) # d" "sealed = None"
    | "d' = (n, len, spans) # d" "sealed = Some \<lparr>sg_addr = addr, sg_id = n, sg_bytes = len, sg_spans = spans\<rparr>"
  using assms by (cases outcome) (auto simp: write_segment_def)

text \<open>A file of a fresh number joins the directory; nothing else of the invariant moves.\<close>

lemma merge_inv_new_file:
  assumes m: "merge_inv st m" and e: "disk st' = e # disk st" "fst e \<notin> output_ids m" "\<forall>u \<in> set (unsynced st). fst u \<noteq> fst e"
    and same: "segments st' = segments st" "writer st' = writer st" "journals st' = journals st" "unsynced st' = unsynced st"
      "id_bound st \<le> id_bound st'"
  shows "merge_inv st' m"
proof -
  have "m_first m + length (m_chunks m) \<le> id_bound st'" using m same(5) by (simp add: merge_inv_def)
  then show ?thesis
    using m e(2,3) unfolding merge_inv_def same(1-4) e(1)
    by (auto simp: output_ids_def correct_output_def split: merge_phase.splits)
qed

lemma seal_write_keeps:
  assumes inv: "store_inv st" and free: "free_segment addr st" and step: "seal_write outcome addr len st = Some st'"
  shows "keeps st [] st'"
proof -
  note I = store_invD [OF inv]
  obtain j where j: "sealing st = Some j" "d_phase j = SealWriting"
    using step by (auto simp: seal_write_def split: option.splits if_splits)
  let ?spans = "sort_spans (map snd (d_spans j))"
  let ?e = "(d_id j, len, ?spans)" and ?s = "\<lparr>sg_addr = addr, sg_id = d_id j, sg_bytes = len, sg_spans = ?spans\<rparr>"
  note S = I(9) [OF j(1), unfolded seal_inv_def j(2), simplified]
  have fresh: "\<not> exists_file (d_id j) (disk st)" using S by (auto simp: exists_file_def)
  obtain d' sealed where w: "write_segment outcome addr len (d_id j) ?spans (disk st) = (d', sealed)" by fastforce
  have cov: "covered (segments st) (dom (wb_map (writer st))) ?e"
    by (rule drained_covered [OF I(9) [OF j(1)]]) simp
  have st': "st' = (case sealed of None \<Rightarrow> st\<lparr>disk := d', sealing := None\<rparr>
      | Some s \<Rightarrow> st\<lparr>disk := d', sealing := Some (j\<lparr>d_phase := SealWritten s\<rparr>)\<rparr>)"
    using step j w by (simp add: seal_write_def split: option.splits)
  have bound: "id_bound st \<le> id_bound st'" using j(1) S by (simp add: st' id_bound_def split: option.splits)
  have [simp]: "segments st' = segments st" "writer st' = writer st" "log st' = log st" "merging st' = merging st"
      "journals st' = journals st" "unsynced st' = unsynced st" "next_segment st' = next_segment st" "disk st' = d'"
    by (simp_all add: st' split: option.split)
  have [simp]: "pending_outputs st' = pending_outputs st" "merged_handles st' = merged_handles st"
    by (simp_all add: pending_outputs_def merged_handles_def)
  have vis: "visible st' = visible st" by (simp add: visible_def)
  have live: "sg_id s < d_id j" if "s \<in> set (segments st)" for s using I(7) that S by force
  have "sealed_handle st' = (case sealed of None \<Rightarrow> [] | Some s \<Rightarrow> [s])" by (simp add: st' sealed_handle_def split: option.split)
  moreover have "sealed = None \<or> sealed = Some ?s" using w by (auto simp: write_segment_def split: if_splits write_outcome.splits)
  moreover have "sealed_handle st = []" using j by (simp add: sealed_handle_def)
  ultimately have handles: "distinct (map sg_addr (handles st'))"
    using I(4) free by (auto simp: handles_def)
  have merge: "merge_inv st' m" if m: "merging st = Some m" for m
  proof (cases "d' = disk st")
    case True
    have "m_first m + length (m_chunks m) \<le> id_bound st'" using bound I(11) [OF m] by (simp add: merge_inv_def)
    then show ?thesis using I(11) [OF m] True by (simp add: merge_inv_def cong: merge_phase.case_cong)
  next
    case False
    have "m_first m + length (m_chunks m) \<le> d_id j" using I(11) [OF m] j(1) by (simp add: merge_inv_def id_bound_def)
    then have "d_id j \<notin> output_ids m" "\<forall>s \<in> set (m_inputs m). sg_id s < d_id j"
      using I(11) [OF m] by (auto simp: output_ids_def merge_inv_def)
    moreover have "\<forall>u \<in> set (unsynced st). fst u \<noteq> d_id j"
      using I(11) [OF m] calculation by (fastforce simp: merge_inv_def split: merge_phase.splits)
    ultimately show ?thesis
      using I(11) [OF m] bound False w by (intro merge_inv_new_file [of st m st' ?e]) (auto simp: write_segment_def split: if_splits write_outcome.splits)
  qed
  have "store_inv st'"
    using w fresh
  proof (cases rule: write_segment_cases)
    case 1
    show ?thesis
    proof (rule store_invI)
      fix e assume "e \<in> set (disk st')" "e \<notin> entry_of ` set (segments st')" "fst e \<notin> pending_outputs st'"
      then show "covered (segments st') (dom (wb_map (writer st'))) e" using I(8) [of e] 1 by auto
    qed (use I vis merge handles 1 in \<open>simp_all add: log_agrees_def st'\<close>)
  next
    case 2
    show ?thesis
    proof (rule store_invI)
      fix e assume "e \<in> set (disk st')" "e \<notin> entry_of ` set (segments st')" "fst e \<notin> pending_outputs st'"
      then show "covered (segments st') (dom (wb_map (writer st'))) e" using I(8) [of e] 2 cov by auto
    next
      fix e assume "e \<in> set (disk st')"
      then show "fst e < next_segment st'" using I(6) [of e] 2 S by auto
    next
      show "distinct (map fst (disk st'))" using I(5) 2 fresh by (simp add: exists_file_def)
    qed (use I vis merge handles 2 in \<open>auto simp: log_agrees_def st'\<close>)
  next
    case 3
    show ?thesis
    proof (rule store_invI)
      fix e assume "e \<in> set (disk st')" "e \<notin> entry_of ` set (segments st')" "fst e \<notin> pending_outputs st'"
      then show "covered (segments st') (dom (wb_map (writer st'))) e" using I(8) [of e] 3 cov by auto
    next
      fix e assume "e \<in> set (disk st')"
      then show "fst e < next_segment st'" using I(6) [of e] 3 S by auto
    next
      show "distinct (map fst (disk st'))" using I(5) 3 fresh by (simp add: exists_file_def)
    next
      fix j' assume "sealing st' = Some j'"
      then have j': "j' = j\<lparr>d_phase := SealWritten ?s\<rparr>" using 3 by (simp add: st')
      show "seal_inv st' j'"
        unfolding seal_inv_def j' using S 3 live
        by (auto simp: sealed_content_def entry_of_def drained_map_def)
    qed (use I vis merge handles 3 in \<open>auto simp: log_agrees_def st'\<close>)
  qed
  then show ?thesis using vis by (simp add: keeps_Nil)
qed

lemma sort_ids_id: "sorted_wrt (<) (map sg_id segs) \<Longrightarrow> sort_key sg_id segs = segs"
  by (rule sort_key_id_if_sorted) (simp add: strict_sorted_iff)

lemma split_at_run_snoc:
  "split_at_run m live \<Longrightarrow> m_first m + length (m_chunks m) \<le> sg_id s \<Longrightarrow> split_at_run m (live @ [s])"
  unfolding split_at_run_def by force

lemma merge_inv_publish:
  assumes m: "merge_inv st m" and live: "segments st' = segments st @ [s]" "id_bound st \<le> sg_id s"
    and same: "disk st' = disk st" "writer st' = writer st" "journals st' = journals st" "unsynced st' = unsynced st"
      "id_bound st' = id_bound st"
  shows "merge_inv st' m"
proof -
  have le: "m_first m + length (m_chunks m) \<le> sg_id s" using m live(2) by (simp add: merge_inv_def)
  have "covered (segments st') (dom (wb_map (writer st))) e" if "covered (segments st) (dom (wb_map (writer st))) e" for e
    using that by (rule covered_mono) (auto simp: live)
  moreover have "sg_id s \<notin> sg_id ` set (m_inputs m)" using m le by (fastforce simp: merge_inv_def)
  ultimately show ?thesis
    using m split_at_run_snoc [OF _ le] unfolding merge_inv_def same live(1)
    by (auto split: merge_phase.splits)
qed

lemma seal_publish_keeps:
  assumes inv: "store_inv st" and step: "seal_publish st = Some st'"
  shows "keeps st [] st'"
proof -
  note I = store_invD [OF inv]
  obtain j s where j: "sealing st = Some j" "d_phase j = SealWritten s"
    using step by (auto simp: seal_publish_def split: option.splits seal_phase.splits)
  note S = I(9) [OF j(1), unfolded seal_inv_def j(2), simplified]
  have s: "sealed_content j s" "entry_of s \<in> set (disk st)" and less: "\<And>t. t \<in> set (segments st) \<Longrightarrow> sg_id t < d_id j" using S by auto
  have id: "sg_id s = d_id j" using s(1) by (simp add: sealed_content_def)
  have sorted: "sorted_wrt (<) (map sg_id (segments st @ [s]))" using I(3) less id by (auto simp: sorted_wrt_append)
  have st': "st' = st\<lparr>segments := segments st @ [s], sealing := Some (j\<lparr>d_phase := SealPublished\<rparr>)\<rparr>"
    using step j by (simp add: seal_publish_def sort_ids_id [OF sorted])
  have [simp]: "segments st' = segments st @ [s]" "writer st' = writer st" "log st' = log st" "merging st' = merging st"
      "journals st' = journals st" "unsynced st' = unsynced st" "next_segment st' = next_segment st" "disk st' = disk st"
    by (simp_all add: st')
  have [simp]: "pending_outputs st' = pending_outputs st" "merged_handles st' = merged_handles st"
    by (simp_all add: pending_outputs_def merged_handles_def)
  have "sealed_handle st = [s]" "sealed_handle st' = []" using j by (simp_all add: sealed_handle_def st')
  then have "handles st' = handles st" by (simp add: handles_def)
  then have handles: "distinct (map sg_addr (handles st'))" using I(4) by simp
  have bound: "id_bound st' = id_bound st" "id_bound st = sg_id s" using j id by (simp_all add: id_bound_def st')
  have view: "latest_by key_of (sg_spans s) = drained_map j" using S s(1) by (intro sealed_view) simp_all
  have drained: "drained_map j ++ wb_map (writer st) = wb_map (writer st)" by (rule drained_in_buffer [OF I(9) [OF j(1)]])
  have vis: "visible st' = visible st"
    using drained by (simp add: visible_def segments_view_append) (simp add: segments_view_def view flip: map_add_assoc)
  have le: "wb_map (writer st) \<subseteq>\<^sub>m latest_by key_of (log st)" and vl: "visible st = segments_view (segments st) ++ latest_by key_of (log st)"
    using I(2) by (simp_all add: log_agrees_def)
  have "drained_map j ++ latest_by key_of (log st) = latest_by key_of (log st)"
  proof
    fix k
    have "dom (drained_map j) \<subseteq> dom (latest_by key_of (log st))"
      using drained_in_buffer(2) [OF I(9) [OF j(1)]] map_le_implies_dom_le [OF le] by blast
    then show "(drained_map j ++ latest_by key_of (log st)) k = latest_by key_of (log st) k"
      by (auto simp: map_add_def dom_def split: option.splits)
  qed
  then have agrees: "log_agrees st'"
    using le vl by (simp add: log_agrees_def vis segments_view_append) (simp add: segments_view_def view flip: map_add_assoc)
  have "store_inv st'"
  proof (rule store_invI)
    fix e assume "e \<in> set (disk st')" "e \<notin> entry_of ` set (segments st')" "fst e \<notin> pending_outputs st'"
    then have "covered (segments st) (dom (wb_map (writer st))) e" using I(8) [of e] by auto
    then show "covered (segments st') (dom (wb_map (writer st'))) e" by (rule covered_mono) auto
  next
    fix j' assume "sealing st' = Some j'"
    then have "j' = j\<lparr>d_phase := SealPublished\<rparr>" by (simp add: st')
    then show "seal_inv st' j'" using S s(1) by (auto simp: seal_inv_def sealed_content_def drained_map_def)
  next
    fix m assume "merging st' = Some m"
    then show "merge_inv st' m" using I(11) [of m] bound by (intro merge_inv_publish [of st m st' s]) simp_all
  qed (use I agrees sorted handles s(2) in \<open>simp_all\<close>)
  then show ?thesis using vis by (simp add: keeps_Nil)
qed

text \<open>Evicting what is published: a key the buffer no longer covers is covered by the published segment.\<close>

lemma covered_evicted:
  assumes cov: "covered live (dom (D ++ U)) e" and s: "s \<in> set live" "fst e < sg_id s" "dom D \<subseteq> key_of ` set (sg_spans s)"
  shows "covered live (dom U) e"
  unfolding covered_def
proof
  fix x assume x: "x \<in> set (entry_spans e)"
  from cov x consider "key_of x \<in> dom U" | "key_of x \<in> dom D" | t where "t \<in> set live" "fst e < sg_id t" "key_of x \<in> key_of ` set (sg_spans t)"
    unfolding covered_def dom_map_add by blast
  then show "key_of x \<in> dom U \<or> (\<exists>s \<in> set live. fst e < sg_id s \<and> key_of x \<in> key_of ` set (sg_spans s))"
    using s by cases blast+
qed

lemma reconcile_keeps:
  assumes inv: "store_inv st" and step: "reconcile_after_publish now reclaim log_ok st = Some st'"
  shows "keeps st [] st'"
proof -
  note I = store_invD [OF inv]
  obtain j where j: "sealing st = Some j" "d_phase j = SealPublished"
    using step by (auto simp: reconcile_after_publish_def split: option.splits if_splits)
  note S = I(9) [OF j(1), unfolded seal_inv_def j(2), simplified]
  obtain base s where live: "segments st = base @ [s]" "sealed_content j s" using S by auto
  let ?sealed = "fst ` set (d_spans j)" let ?rest = "survivors ?sealed (writer st)"
  let ?U = "unsealed_map ?sealed (writer st)" and ?L = "latest_by key_of (log st)" and ?D = "drained_map j"
  let ?w = "evict_sealed now ?sealed (writer st)"
  have view: "latest_by key_of (sg_spans s) = ?D" using S live(2) by (intro sealed_view) simp_all
  have wb: "wb_map (writer st) = ?D ++ ?U" using S by simp
  have id: "sg_id s = d_id j" "next_segment st = sg_id s + 1" using live(2) S by (simp_all add: sealed_content_def)
  have le: "wb_map (writer st) \<subseteq>\<^sub>m ?L" and vl: "visible st = segments_view (segments st) ++ ?L" using I(2) by (simp_all add: log_agrees_def)
  have pend: "pending_outputs st \<inter> {sg_id s} = {}"
    using I(11) j(1) id by (auto simp: pending_outputs_def merge_inv_def id_bound_def output_ids_def split: option.splits merge_phase.splits)
  have low: "fst e < sg_id s" if "e \<in> set (disk st)" "e \<notin> entry_of ` set (segments st)" for e
  proof -
    have "fst e \<le> sg_id s" using I(6) [OF that(1)] id by simp
    moreover have "fst e \<noteq> fst (entry_of s)"
    proof
      assume eq: "fst e = fst (entry_of s)"
      have "entry_of s \<in> set (disk st)" using I(7) live(1) by auto
      then have "e = entry_of s" using that(1) eq I(5) by (auto simp: distinct_map inj_on_def)
      then show False using that(2) live(1) by simp
    qed
    ultimately show ?thesis by simp
  qed
  have bound: "id_bound st \<le> id_bound (st\<lparr>sealing := None\<rparr>)" using j id live(2) by (simp add: id_bound_def sealed_content_def)
  have dom_D: "dom ?D = key_of ` set (sg_spans s)" unfolding view [symmetric] by (rule dom_latest_by)
  have cov: "covered (segments st) (dom ?U) e" if "covered (segments st) (dom (wb_map (writer st))) e" "fst e < sg_id s" for e
    using that live(1) dom_D unfolding wb by (intro covered_evicted [of _ ?D ?U e s]) auto
  show ?thesis
  proof (cases "(?rest = [] \<or> reclaim) \<and> \<not> log_ok")
    case True
    then have st': "st' = st\<lparr>sealing := None\<rparr>" using step j by (simp add: reconcile_after_publish_def)
    have [simp]: "segments st' = segments st" "disk st' = disk st" "writer st' = writer st" "log st' = log st" "merging st' = merging st"
        "journals st' = journals st" "unsynced st' = unsynced st" "next_segment st' = next_segment st" "sealing st' = None"
      by (simp_all add: st')
    have bound': "id_bound st \<le> id_bound st'" using bound by (simp add: st')
    have vis: "visible st' = visible st" by (simp add: visible_def)
    have [simp]: "pending_outputs st' = pending_outputs st" "handles st' = handles st"
      using j by (simp_all add: st' pending_outputs_def handles_def sealed_handle_def merged_handles_def)
    have "store_inv st'"
    proof (rule store_invI)
      fix e assume "e \<in> set (disk st')" "e \<notin> entry_of ` set (segments st')" "fst e \<notin> pending_outputs st'"
      then show "covered (segments st') (dom (wb_map (writer st'))) e" using I(8) [of e] by auto
    next
      fix m assume "merging st' = Some m"
      then show "merge_inv st' m" using I(11) [of m] bound' by (simp add: merge_inv_def cong: merge_phase.case_cong)
    qed (use I vis in \<open>simp_all add: log_agrees_def\<close>)
    then show ?thesis using vis by (simp add: keeps_Nil)
  next
    case False
    let ?log = "if ?rest = [] then [] else if reclaim then ?rest else log st"
    have st': "st' = st\<lparr>log := ?log, writer := ?w\<lparr>wb_upserts := wb_upserts ?w - d_upserts j\<rparr>, sealing := None\<rparr>"
      using step j False by (simp add: reconcile_after_publish_def Let_def)
    have [simp]: "segments st' = segments st" "disk st' = disk st" "merging st' = merging st" "journals st' = journals st"
        "unsynced st' = unsynced st" "next_segment st' = next_segment st" "sealing st' = None"
      by (simp_all add: st')
    have bound': "id_bound st \<le> id_bound st'" using bound by (simp add: id_bound_def)
    have map': "wb_map (writer st') = ?U" using wb_map_evict [of now ?sealed "writer st"] by (simp add: st' wb_map_def)
    have ok': "wb_ok (writer st')" using evict_ok [OF I(1)] by (simp add: st' wb_ok_def)
    have rest: "latest_by key_of ?rest = ?U"
      by (simp add: survivors_def unsealed_map_def wb_map_def evict_sealed_def Let_def)
    have vis: "visible st' = visible st"
      by (simp add: visible_def map' wb) (simp add: st' live(1) segments_view_def view map_add_twice del: map_add_assoc flip: map_add_assoc)
    have U_le: "?U \<subseteq>\<^sub>m ?L" using le unfolding wb by (meson map_le_trans map_le_map_add)
    have "latest_by key_of (log st') = (if ?rest = [] \<or> reclaim then ?U else ?L)"
      using rest by (auto simp: st')
    then have agrees: "log_agrees st'"
      using U_le vl vis by (auto simp: log_agrees_def map' visible_def)
    have [simp]: "pending_outputs st' = pending_outputs st" "handles st' = handles st"
      using j by (simp_all add: st' pending_outputs_def handles_def sealed_handle_def merged_handles_def)
    have "store_inv st'"
    proof (rule store_invI)
      fix e assume e: "e \<in> set (disk st')" "e \<notin> entry_of ` set (segments st')" "fst e \<notin> pending_outputs st'"
      then have "covered (segments st) (dom (wb_map (writer st))) e" "fst e < sg_id s" using I(8) [of e] low by auto
      then have "covered (segments st) (dom (wb_map (writer st'))) e" unfolding map' by (rule cov)
      then show "covered (segments st') (dom (wb_map (writer st'))) e" by simp
    next
      fix m assume "merging st' = Some m"
      then have m: "merge_inv st m" using I(11) [of m] by simp
      then have "m_first m + length (m_chunks m) \<le> sg_id s" using j id by (simp add: merge_inv_def id_bound_def)
      moreover have "covered (segments st) (dom ?U) e" if "e \<in> set (unsynced st)" "m_phase m = Deleting n" for e n
        using m that calculation by (intro cov) (force simp: merge_inv_def)+
      ultimately show "merge_inv st' m"
        using m bound' unfolding merge_inv_def map' by (auto split: merge_phase.splits)
    qed (use I agrees ok' in \<open>simp_all\<close>)
    then show ?thesis using vis by (simp add: keeps_Nil)
  qed
qed

end
