(* ===== verification/Store_Safety.thy ===== *)
theory Store_Safety
  imports Store_Machine
begin

text \<open>
  The merge, the crash and the theorem over all of them: no step of the engine's own housekeeping changes
  what a reader sees, and a crash at any point loses nothing admitted.
\<close>

section \<open>Merging\<close>

lemma pin_keeps:
  assumes inv: "store_inv st" and select: "chooses_run select" and jw: "journal_write \<noteq> LeftBehind"
    and step: "merge_pin settings watermark select journal_write st = Some st'"
  shows "keeps st [] st'"
proof -
  note I = store_invD [OF inv]
  obtain run where none: "sealing st = None" "merging st = None" and run: "select (segments st) = Some run"
    using step by (auto simp: merge_pin_def split: if_splits option.splits)
  have len: "0 < run" "run \<le> length (segments st)" using select run unfolding chooses_run_def by blast+
  let ?inputs = "drop (length (segments st) - run) (segments st)" and ?pre = "take (length (segments st) - run) (segments st)"
  let ?chunks = "merge_chunks ?inputs settings"
  let ?m = "\<lparr>m_inputs = ?inputs, m_chunks = ?chunks, m_first = next_segment st, m_outputs = [], m_phase = Merging\<rparr>"
  have st': "st' = (if journal_write = Written
      then st\<lparr>next_segment := next_segment st + length ?chunks, journals := journals st @ [journal_of ?m], merging := Some ?m\<rparr>
      else st\<lparr>next_segment := next_segment st + length ?chunks\<rparr>)"
    using step none run jw by (cases journal_write) (auto simp: merge_pin_def Let_def split: if_splits)
  have [simp]: "segments st' = segments st" "disk st' = disk st" "writer st' = writer st" "log st' = log st" "unsynced st' = unsynced st"
      "next_segment st' = next_segment st + length ?chunks" "sealing st' = None"
    using none by (simp_all add: st')
  have [simp]: "handles st' = handles st"
    using none by (simp add: st' handles_def sealed_handle_def merged_handles_def)
  have pend: "pending_outputs st = {}" using none by (simp add: pending_outputs_def)
  have vis: "visible st' = visible st" by (simp add: visible_def)
  have ne: "?inputs \<noteq> []" using len by simp
  have "?chunks \<noteq> []" using sum_merge_chunks [of ?inputs settings] len by auto
  moreover have "split_at_run ?m (segments st)"
    unfolding split_at_run_def by (intro exI [of _ ?pre] exI [of _ "[]"]) simp
  moreover have "sg_id s < next_segment st" if "s \<in> set ?inputs" for s using live_ids_less [OF inv] that by (meson in_set_dropD)
  moreover have "fst e < next_segment st" if "e \<in> set (disk st)" for e by (rule I(6) [OF that])
  ultimately have merge: "merge_inv st' ?m" if "journal_write = Written"
    using ne that I(10) none by (fastforce simp: merge_inv_def sum_merge_chunks id_bound_def st')
  have "store_inv st'"
  proof (rule store_invI)
    fix e assume "e \<in> set (disk st')" "e \<notin> entry_of ` set (segments st')" "fst e \<notin> pending_outputs st'"
    then show "covered (segments st') (dom (wb_map (writer st'))) e" using I(8) [of e] pend by auto
  next
    fix e assume "e \<in> set (disk st')"
    then show "fst e < next_segment st'" using I(6) [of e] by simp
  next
    fix m assume "merging st' = Some m"
    then show "merge_inv st' m" using merge none by (auto simp: st' split: if_splits)
  next
    assume "merging st' = None"
    then show "journals st' = [] \<and> unsynced st' = []" using I(10) none by (auto simp: st' split: if_splits)
  qed (use I vis in \<open>simp_all add: log_agrees_def\<close>)
  then show ?thesis using vis by (simp add: keeps_Nil)
qed

text \<open>What holds of the run and the outputs in every phase.\<close>

lemma merge_invD:
  assumes "merge_inv st m"
  shows "m_inputs m \<noteq> []" "sum_list (m_chunks m) = length (m_inputs m)" "m_chunks m \<noteq> []"
    "m_first m + length (m_chunks m) \<le> id_bound st" "\<And>s. s \<in> set (m_inputs m) \<Longrightarrow> sg_id s < m_first m"
    "journals st = [journal_of m]" "map sg_id (m_outputs m) = [m_first m ..< m_first m + length (m_outputs m)]"
    "length (m_outputs m) \<le> length (m_chunks m)"
    "map sg_spans (m_outputs m) = map merge_group (take (length (m_outputs m)) (groups (m_chunks m) (m_inputs m)))"
  using assms by (auto simp: merge_inv_def)

lemma id_bound_le: "store_inv st \<Longrightarrow> id_bound st \<le> next_segment st"
  using store_invD(9) [of st] by (auto simp: id_bound_def seal_inv_def split: option.splits)

lemma output_nth:
  assumes "merge_inv st m" and "i < length (m_outputs m)"
  shows "sg_id (m_outputs m ! i) = m_first m + i" "sg_spans (m_outputs m ! i) = merge_group (groups (m_chunks m) (m_inputs m) ! i)"
proof -
  show "sg_id (m_outputs m ! i) = m_first m + i"
    using arg_cong [OF merge_invD(7) [OF assms(1)], of "\<lambda>l. l ! i"] assms(2) by simp
  show "sg_spans (m_outputs m ! i) = merge_group (groups (m_chunks m) (m_inputs m) ! i)"
    using arg_cong [OF merge_invD(9) [OF assms(1)], of "\<lambda>l. l ! i"] assms(2) merge_invD(8) [OF assms(1)] by simp
qed

lemma output_ids_of: "merge_inv st m \<Longrightarrow> s \<in> set (m_outputs m) \<Longrightarrow> sg_id s \<in> output_ids m"
  using output_nth(1) [of st m] merge_invD(8) [of st m] by (auto simp: in_set_conv_nth output_ids_def)

text \<open>The files of the outputs written so far are the outputs.\<close>

lemma written_outputs_correct:
  assumes inv: "store_inv st" and m: "merging st = Some m" "m_phase m = Merging" and e: "e \<in> set (disk st)"
  shows "correct_output m e"
  unfolding correct_output_def
proof
  assume range: "fst e \<in> output_ids m"
  note I = store_invD [OF inv]
  note M = I(11) [OF m(1)]
  obtain i where i: "fst e = m_first m + i" "i < length (m_chunks m)" using range by (auto simp: output_ids_def le_iff_add)
  have "i < length (m_outputs m)"
    using M e i m(2) unfolding merge_inv_def by (auto simp: not_less)
  then have "entry_of (m_outputs m ! i) \<in> set (disk st)" using M m(2) unfolding merge_inv_def by auto
  moreover have "fst (entry_of (m_outputs m ! i)) = fst e" using output_nth(1) [OF M \<open>i < length (m_outputs m)\<close>] i by simp
  ultimately have "entry_of (m_outputs m ! i) = e" using e I(5) by (auto simp: distinct_map inj_on_def)
  then show "entry_spans e = merge_group (groups (m_chunks m) (m_inputs m) ! (fst e - m_first m))"
    using output_nth(2) [OF M \<open>i < length (m_outputs m)\<close>] i by auto
qed

lemma merge_write_keeps:
  assumes inv: "store_inv st" and free: "free_segment addr st" and step: "merge_write outcome addr len st = Some st'"
  shows "keeps st [] st'"
proof -
  note I = store_invD [OF inv]
  obtain m where m: "merging st = Some m" "m_phase m = Merging" "length (m_outputs m) \<noteq> length (m_chunks m)"
    using step by (auto simp: merge_write_def Let_def split: option.splits if_splits)
  note M = I(11) [OF m(1)] and MD = merge_invD [OF I(11) [OF m(1)]]
  let ?i = "length (m_outputs m)"
  let ?n = "m_first m + ?i" and ?spans = "merge_group (groups (m_chunks m) (m_inputs m) ! ?i)"
  let ?e = "(?n, len, ?spans)" and ?s = "\<lparr>sg_addr = addr, sg_id = ?n, sg_bytes = len, sg_spans = ?spans\<rparr>"
  have i: "?i < length (m_chunks m)" using MD(8) m(3) by simp
  have phase: "split_at_run m (segments st)" "unsynced st = []" "entry_of ` set (m_outputs m) \<subseteq> set (disk st)"
    "\<forall>e \<in> set (disk st). fst e \<notin> {?n ..< m_first m + length (m_chunks m)}" using M m(2) by (auto simp: merge_inv_def)
  have fresh: "\<not> exists_file ?n (disk st)" using phase(4) i by (auto simp: exists_file_def)
  obtain d' sealed where w: "write_segment outcome addr len ?n ?spans (disk st) = (d', sealed)" by fastforce
  have st': "st' = (case sealed of None \<Rightarrow> st\<lparr>disk := d', merging := Some (m\<lparr>m_phase := Aborting 0\<rparr>)\<rparr>
      | Some s \<Rightarrow> st\<lparr>disk := d', merging := Some (m\<lparr>m_outputs := m_outputs m @ [s]\<rparr>)\<rparr>)"
    using step m w by (simp add: merge_write_def Let_def split: option.splits)
  have [simp]: "segments st' = segments st" "writer st' = writer st" "log st' = log st" "sealing st' = sealing st"
      "journals st' = journals st" "unsynced st' = []" "next_segment st' = next_segment st" "disk st' = d'"
    using phase(2) by (simp_all add: st' split: option.split)
  have [simp]: "id_bound st' = id_bound st" "sealed_handle st' = sealed_handle st" by (simp_all add: id_bound_def sealed_handle_def split: option.split)
  have pend: "pending_outputs st' = output_ids m" "pending_outputs st = output_ids m"
    using m by (auto simp: pending_outputs_def st' output_ids_def split: option.split)
  have vis: "visible st' = visible st" by (simp add: visible_def)
  have agrees: "log_agrees st'" using I(2) vis by (simp add: log_agrees_def)
  have bound: "?n < id_bound st" "id_bound st \<le> next_segment st" using MD(4) i id_bound_le [OF inv] by auto
  have sealed: "sealed = None \<or> sealed = Some ?s" using w by (auto simp: write_segment_def split: if_splits write_outcome.splits)
  then have hs: "merged_handles st' = (if sealed = None then [] else m_outputs m @ [?s])" "merged_handles st = m_outputs m"
    using m by (auto simp: merged_handles_def st')
  then have handles: "distinct (map sg_addr (handles st'))" using I(4) free by (auto simp: handles_def)
  have disk: "d' = disk st \<or> d' = ?e # disk st" using w fresh by (auto simp: write_segment_def split: write_outcome.splits)
  have seal: "seal_inv st' j" if j: "sealing st = Some j" for j
  proof -
    have "?n < d_id j" using bound(1) j by (simp add: id_bound_def)
    then show ?thesis using I(9) [OF j] disk unfolding seal_inv_def by (auto split: seal_phase.splits)
  qed
  have correct: "correct_output m e" if "e \<in> set d'" for e
  proof -
    have "correct_output m ?e" by (simp add: correct_output_def)
    then show ?thesis using that disk written_outputs_correct [OF inv m(1,2), of e] by auto
  qed
  have merge: "merge_inv st' m'" if m': "merging st' = Some m'" for m'
  proof (cases sealed)
    case None
    then have "m' = m\<lparr>m_phase := Aborting 0\<rparr>" using m' by (simp add: st')
    then show ?thesis
      using M phase(1) correct unfolding merge_inv_def
      by (auto simp: correct_output_def output_ids_def split_at_run_def journal_of_def)
  next
    case (Some s)
    then have s: "s = ?s" "d' = ?e # disk st" using w sealed fresh by (auto simp: write_segment_def split: write_outcome.splits)
    have m'_eq: "m' = m\<lparr>m_outputs := m_outputs m @ [?s]\<rparr>" using m' Some s by (simp add: st')
    have "take (Suc ?i) (groups (m_chunks m) (m_inputs m)) = take ?i (groups (m_chunks m) (m_inputs m)) @ [groups (m_chunks m) (m_inputs m) ! ?i]"
      using i by (simp add: take_Suc_conv_app_nth)
    then show ?thesis
      using M phase i s(2) m(2) unfolding merge_inv_def m'_eq
      by (auto simp: split_at_run_def journal_of_def entry_of_def)
  qed
  have "store_inv st'"
  proof (rule store_invI)
    fix e assume e: "e \<in> set (disk st')" "e \<notin> entry_of ` set (segments st')" "fst e \<notin> pending_outputs st'"
    have "?n \<in> output_ids m" using i by (simp add: output_ids_def)
    then show "covered (segments st') (dom (wb_map (writer st'))) e" using I(8) [of e] e disk pend by auto
  next
    fix e assume "e \<in> set (disk st')"
    then show "fst e < next_segment st'" using I(6) [of e] disk bound by auto
  next
    show "distinct (map fst (disk st'))" using I(5) disk fresh by (auto simp: exists_file_def)
  next
    assume "merging st' = None"
    then show "journals st' = [] \<and> unsynced st' = []" by (simp add: st' split: option.splits)
  qed (use I agrees handles seal merge disk in \<open>auto\<close>)
  then show ?thesis using vis by (simp add: keeps_Nil)
qed

lemma run_ids_below:
  assumes "sorted_wrt (<) (map sg_id (pre @ inputs @ post))" and "inputs \<noteq> []" and "\<And>s. s \<in> set inputs \<Longrightarrow> sg_id s < n" and "s \<in> set pre"
  shows "sg_id s < n"
proof -
  obtain i where i: "i \<in> set inputs" using assms(2) by (meson list.set_sel(1))
  then have "sg_id s < sg_id i" using assms(1,4) by (auto simp: sorted_wrt_append)
  then show ?thesis using assms(3) [OF i] by simp
qed

lemma replaced_run_sorted:
  assumes sorted: "sorted_wrt (<) (map sg_id (pre @ inputs @ post))" and ne: "inputs \<noteq> []" and low: "\<And>s. s \<in> set inputs \<Longrightarrow> sg_id s < n"
    and outs: "map sg_id outputs = [n ..< n + c]" and post: "\<forall>s \<in> set post. n + c \<le> sg_id s"
  shows "sorted_wrt (<) (map sg_id (pre @ outputs @ post))"
proof -
  have "sorted_wrt (<) (map sg_id outputs)" unfolding outs by (simp add: sorted_wrt_upt)
  moreover have "sg_id s \<in> {n ..< n + c}" if "s \<in> set outputs" for s
    using arg_cong [OF outs, of set] that by auto
  moreover have "sg_id s < n" if "s \<in> set pre" for s by (rule run_ids_below [OF sorted ne low that])
  moreover have "sorted_wrt (<) (map sg_id pre)" "sorted_wrt (<) (map sg_id post)" "\<forall>s \<in> set pre. \<forall>t \<in> set post. sg_id s < sg_id t"
    using sorted by (auto simp: sorted_wrt_append)
  ultimately show ?thesis using post by (fastforce simp: sorted_wrt_append)
qed

text \<open>The run is still where it was pinned: only seals have published since, and they stand behind it.\<close>

lemma split_ids:
  assumes inv: "store_inv st" and m: "merging st = Some m" and eq: "segments st = pre @ m_inputs m @ post"
    and post: "\<forall>s \<in> set post. m_first m + length (m_chunks m) \<le> sg_id s"
    and s: "s \<in> set (segments st)"
  shows "sg_id s \<notin> output_ids m"
proof -
  note M = merge_invD [OF store_invD(11) [OF inv m]]
  have "sg_id s < m_first m" if "s \<in> set pre"
    using store_invD(3) [OF inv] M(1,5) that unfolding eq by (rule run_ids_below)
  moreover have "sg_id s < m_first m" if "s \<in> set (m_inputs m)" using that by (rule M(5))
  moreover have "m_first m + length (m_chunks m) \<le> sg_id s" if "s \<in> set post" using that post by blast
  ultimately show ?thesis using s unfolding eq by (auto simp: output_ids_def)
qed

lemma merge_publish_keeps:
  assumes inv: "store_inv st" and step: "merge_publish st = Some st'"
  shows "keeps st [] st'"
proof -
  note I = store_invD [OF inv]
  obtain m where m: "merging st = Some m" "m_phase m = Merging" and all: "length (m_outputs m) = length (m_chunks m)"
    using step by (auto simp: merge_publish_def split: option.splits if_splits)
  note M = I(11) [OF m(1)]
  note MD = merge_invD [OF M]
  obtain pre post where split: "segments st = pre @ m_inputs m @ post" and post: "\<forall>s \<in> set post. m_first m + length (m_chunks m) \<le> sg_id s"
    using M m(2) by (auto simp: merge_inv_def split_at_run_def)
  have unsynced: "unsynced st = []" and files: "entry_of ` set (m_outputs m) \<subseteq> set (disk st)" using M m(2) by (simp_all add: merge_inv_def)
  have "distinct (map sg_addr (pre @ m_inputs m @ post))" using I(4) by (auto simp: handles_def split)
  then have pos: "run_position (segments st) (m_inputs m) = Some (length pre)" unfolding split by (rule run_position_found) (rule MD(1))
  let ?segs = "pre @ m_outputs m @ post"
  have outs: "map sg_spans (m_outputs m) = map merge_group (groups (m_chunks m) (m_inputs m))" using MD(9) all by simp
  have out_id: "sg_id s \<in> output_ids m" if "s \<in> set (m_outputs m)" for s using output_ids_of [OF M that] .
  have in_less: "sg_id s < sg_id t" if "s \<in> set (m_inputs m)" "t \<in> set (m_outputs m)" for s t
    using MD(5) [OF that(1)] out_id [OF that(2)] by (auto simp: output_ids_def)
  have not_range: "sg_id s \<notin> output_ids m" if "s \<in> set (segments st)" for s using split_ids [OF inv m(1) split post that] .
  have sorted: "sorted_wrt (<) (map sg_id ?segs)"
    by (rule replaced_run_sorted [OF I(3) [unfolded split] MD(1,5) MD(7) [unfolded all] post])
  have st': "st' = st\<lparr>segments := ?segs, merging := Some (m\<lparr>m_phase := Deleting 0\<rparr>)\<rparr>"
    using step m all pos sort_ids_id [OF sorted] by (simp add: merge_publish_def split)
  have [simp]: "segments st' = ?segs" "writer st' = writer st" "log st' = log st" "sealing st' = sealing st" "disk st' = disk st"
      "journals st' = journals st" "unsynced st' = []" "next_segment st' = next_segment st"
    using unsynced by (simp_all add: st')
  have [simp]: "id_bound st' = id_bound st" "sealed_handle st' = sealed_handle st" "pending_outputs st' = {}"
    by (simp_all add: id_bound_def sealed_handle_def pending_outputs_def st' split: option.split)
  have view: "segments_view ?segs = segments_view (segments st)"
    by (simp add: split segments_view_append outputs_view [OF MD(2) outs])
  have vis: "visible st' = visible st" by (simp add: visible_def view)
  have agrees: "log_agrees st'" using I(2) vis view by (simp add: log_agrees_def)
  have "merged_handles st' = []" "merged_handles st = m_outputs m" using m by (simp_all add: merged_handles_def st')
  then have handles: "distinct (map sg_addr (handles st'))" using I(4) by (auto simp: handles_def split)
  have cov: "covered ?segs (dom (wb_map (writer st))) e" if "covered (segments st) (dom (wb_map (writer st))) e" for e
    using that unfolding split by (rule covered_replace [OF _ MD(2) outs in_less])
  have input_cov: "covered ?segs K (entry_of s)" if s: "s \<in> set (m_inputs m)" for s K
    unfolding covered_def
  proof
    fix x assume "x \<in> set (entry_spans (entry_of s))"
    then obtain t where "t \<in> set (m_outputs m)" "key_of x \<in> key_of ` set (sg_spans t)"
      using outputs_cover [OF MD(2) outs s, of x] by auto
    then show "key_of x \<in> K \<or> (\<exists>s' \<in> set ?segs. fst (entry_of s) < sg_id s' \<and> key_of x \<in> key_of ` set (sg_spans s'))"
      using in_less [OF s] by (auto simp: image_iff)
  qed
  have seal: "seal_inv st' j" if j: "sealing st = Some j" for j
  proof -
    have bound: "m_first m + length (m_chunks m) \<le> d_id j" using MD(4) j by (simp add: id_bound_def)
    then have less: "sg_id s < d_id j" if "s \<in> set (m_outputs m)" for s using out_id [OF that] by (auto simp: output_ids_def)
    have "\<exists>base s. ?segs = base @ [s] \<and> sealed_content j s" if "segments st = base @ [s]" "sealed_content j s" for base s
    proof (cases post rule: rev_cases)
      case Nil
      then have "s \<in> set (m_inputs m)" using that(1) MD(1) unfolding split
        by (metis append_Nil2 last_appendR last_in_set last_snoc)
      then have "sg_id s < m_first m" by (rule MD(5))
      then show ?thesis using that(2) bound by (simp add: sealed_content_def)
    next
      case (snoc post' t)
      then have "t = s" using that(1) unfolding split by simp
      then show ?thesis using that(2) snoc by (intro exI [of _ "pre @ m_outputs m @ post'"] exI [of _ s]) simp
    qed
    then show ?thesis using I(9) [OF j] less unfolding seal_inv_def
      by (auto split: seal_phase.splits simp: split)
  qed
  have "store_inv st'"
  proof (rule store_invI)
    fix e assume e: "e \<in> set (disk st')" "e \<notin> entry_of ` set (segments st')" "fst e \<notin> pending_outputs st'"
    show "covered (segments st') (dom (wb_map (writer st'))) e"
    proof (cases "fst e \<in> output_ids m")
      case True
      then have "fst e \<in> sg_id ` set (m_outputs m)"
        using arg_cong [OF MD(7), of set] all by (simp add: output_ids_def)
      then obtain o' where o': "o' \<in> set (m_outputs m)" "sg_id o' = fst e" by auto
      then have "entry_of o' = e" using files e(1) I(5) by (auto simp: distinct_map inj_on_def)
      then show ?thesis using e(2) o'(1) by auto
    next
      case False
      show ?thesis
      proof (cases "e \<in> entry_of ` set (segments st)")
        case True
        then have "e \<in> entry_of ` set (m_inputs m)" using e(2) by (auto simp: split)
        then show ?thesis using input_cov by auto
      next
        case no: False
        have "pending_outputs st = output_ids m" using m by (simp add: pending_outputs_def)
        then show ?thesis using I(8) [of e] e(1) no False cov by auto
      qed
    qed
  next
    fix m' assume "merging st' = Some m'"
    then have m': "m' = m\<lparr>m_phase := Deleting 0\<rparr>" by (simp add: st')
    have "sg_id ` set (m_inputs m) \<inter> sg_id ` set ?segs = {}"
    proof -
      have "distinct (map sg_id (pre @ m_inputs m @ post))" using I(3) unfolding split by (simp only: strict_sorted_iff)
      then have "sg_id ` set (m_inputs m) \<inter> sg_id ` (set pre \<union> set post) = {}" by (auto simp: Int_commute)
      moreover have "sg_id ` set (m_inputs m) \<inter> sg_id ` set (m_outputs m) = {}" using in_less by fastforce
      ultimately show ?thesis by auto
    qed
    then show "merge_inv st' m'" using M all unfolding merge_inv_def m' by (auto simp: journal_of_def)
  next
    show "entry_of ` set (segments st') \<subseteq> set (disk st')" using I(7) files by (auto simp: split)
  qed (use I agrees handles sorted seal in \<open>auto simp: st'\<close>)
  then show ?thesis using vis by (simp add: keeps_Nil)
qed

lemma id_bound_update [simp]:
  "id_bound (st\<lparr>disk := d\<rparr>) = id_bound st" "id_bound (st\<lparr>unsynced := u\<rparr>) = id_bound st" "id_bound (st\<lparr>merging := m\<rparr>) = id_bound st"
  by (simp_all add: id_bound_def split: option.split)

lemma phase_update [simp]:
  "output_ids (m\<lparr>m_phase := p\<rparr>) = output_ids m" "correct_output (m\<lparr>m_phase := p\<rparr>) e = correct_output m e"
  "split_at_run (m\<lparr>m_phase := p\<rparr>) l = split_at_run m l" "journal_of (m\<lparr>m_phase := p\<rparr>) = journal_of m"
  by (simp_all add: output_ids_def correct_output_def split_at_run_def journal_of_def)

lemma unlink_set: "set (unlink_file n d) = {e \<in> set d. fst e \<noteq> n}"
  by (auto simp: unlink_file_def)

lemma distinct_unlink: "distinct (map fst d) \<Longrightarrow> distinct (map fst (unlink_file n d))"
  unfolding unlink_file_def by (rule distinct_map_filter)

text \<open>A file that is not live leaves the directory.\<close>

lemma unlink_keeps_store:
  assumes inv: "store_inv st" and m: "merging st = Some m" and n: "n \<notin> sg_id ` set (segments st)"
    and seal: "n < id_bound st"
    and st': "st' = (unlink_step n st)\<lparr>merging := Some m'\<rparr>"
    and merge: "merge_inv st' m'"
    and phase: "merged_handles st' = []" "merged_handles st = []"
      "\<And>e. e \<in> set (disk st') \<Longrightarrow> fst e \<in> pending_outputs st \<Longrightarrow> fst e \<in> pending_outputs st'"
  shows "keeps st [] st'"
proof -
  note I = store_invD [OF inv]
  have [simp]: "segments st' = segments st" "writer st' = writer st" "log st' = log st" "sealing st' = sealing st"
      "journals st' = journals st" "next_segment st' = next_segment st" "merging st' = Some m'"
    by (simp_all add: st' unlink_step_def)
  have disk: "set (disk st') = {e \<in> set (disk st). fst e \<noteq> n}" "distinct (map fst (disk st'))"
    using distinct_unlink [OF I(5)] by (simp_all add: st' unlink_step_def unlink_set)
  have [simp]: "handles st' = handles st" using phase by (simp add: handles_def sealed_handle_def)
  have vis: "visible st' = visible st" by (simp add: visible_def)
  have agrees: "log_agrees st'" using I(2) vis by (simp add: log_agrees_def)
  have "seal_inv st' j" if j: "sealing st = Some j" for j
    using I(9) [OF j] seal j disk(1) unfolding seal_inv_def
    by (auto simp: id_bound_def sealed_content_def split: seal_phase.splits)
  note seal' = this
  have "store_inv st'"
  proof (rule store_invI)
    fix e assume e: "e \<in> set (disk st')" "e \<notin> entry_of ` set (segments st')" "fst e \<notin> pending_outputs st'"
    then show "covered (segments st') (dom (wb_map (writer st'))) e" using I(8) [of e] disk(1) phase(3) [OF e(1)] by auto
  next
    fix e assume "e \<in> set (disk st')"
    then show "fst e < next_segment st'" using I(6) [of e] disk(1) by simp
  next
    show "entry_of ` set (segments st') \<subseteq> set (disk st')" using I(7) n disk(1) by fastforce
  next
    fix m'' assume "merging st' = Some m''"
    then show "merge_inv st' m''" using merge by simp
  qed (use I agrees seal' disk in \<open>simp_all\<close>)
  then show ?thesis using vis by (simp add: keeps_Nil)
qed

lemma merge_unlink_keeps:
  assumes inv: "store_inv st" and step: "merge_unlink True st = Some st'"
  shows "keeps st [] st'"
proof -
  note I = store_invD [OF inv]
  obtain m where m: "merging st = Some m" using step by (auto simp: merge_unlink_def split: option.splits)
  note M = I(11) [OF m]
  note MD = merge_invD [OF M]
  show ?thesis
  proof (cases "m_phase m")
    case Merging
    then show ?thesis using step m by (simp add: merge_unlink_def)
  next
    case (Deleting k)
    then have k: "k < length (m_inputs m)"
      and st': "st' = (unlink_step (sg_id (m_inputs m ! k)) st)\<lparr>merging := Some (m\<lparr>m_phase := Deleting (k + 1)\<rparr>)\<rparr>"
      using step m M by (auto simp: merge_unlink_def merge_inv_def split: if_splits)
    let ?s = "m_inputs m ! k" and ?m' = "m\<lparr>m_phase := Deleting (k + 1)\<rparr>"
    have s: "?s \<in> set (m_inputs m)" using k by simp
    have n: "sg_id ?s \<notin> sg_id ` set (segments st)" using M s Deleting by (auto simp: merge_inv_def)
    have low: "sg_id ?s < id_bound st" using MD(4) MD(5) [OF s] by simp
    have cov: "covered (segments st) (dom (wb_map (writer st))) e" if "e \<in> set (disk st)" "fst e = sg_id ?s" for e
    proof -
      have "sg_id x \<noteq> sg_id ?s" if "x \<in> set (segments st)" for x using n that by (metis imageI)
      then have "e \<notin> entry_of ` set (segments st)" using that(2) by auto
      moreover have "pending_outputs st = {}" using m Deleting by (simp add: pending_outputs_def)
      ultimately show ?thesis using I(8) [OF that(1)] by simp
    qed
    show ?thesis
    proof (rule unlink_keeps_store [OF inv m n low st'])
      show "merge_inv st' ?m'"
        using M Deleting k cov s unfolding merge_inv_def
        by (auto simp: st' unlink_step_def unlink_set journal_of_def)
      show "merged_handles st' = []" "merged_handles st = []" using m Deleting by (simp_all add: st' merged_handles_def)
      fix e assume "fst e \<in> pending_outputs st"
      then show "fst e \<in> pending_outputs st'" using m Deleting by (simp add: pending_outputs_def)
    qed
  next
    case (Aborting k)
    then have k: "k < length (m_chunks m)"
      and st': "st' = (unlink_step (m_first m + k) st)\<lparr>merging := Some (m\<lparr>m_phase := Aborting (k + 1)\<rparr>)\<rparr>"
      using step m M by (auto simp: merge_unlink_def merge_inv_def split: if_splits)
    let ?m' = "m\<lparr>m_phase := Aborting (k + 1)\<rparr>" and ?n = "m_first m + k"
    obtain pre post where split: "segments st = pre @ m_inputs m @ post" and post: "\<forall>s \<in> set post. m_first m + length (m_chunks m) \<le> sg_id s"
      using M Aborting by (auto simp: merge_inv_def split_at_run_def)
    have range: "?n \<in> output_ids m" using k by (simp add: output_ids_def)
    have n: "?n \<notin> sg_id ` set (segments st)" using split_ids [OF inv m split post] range by auto
    have low: "?n < id_bound st" using MD(4) k by simp
    show ?thesis
    proof (rule unlink_keeps_store [OF inv m n low st'])
      have "\<forall>e \<in> set (disk st'). fst e \<notin> {m_first m ..< m_first m + (k + 1)}"
        using M Aborting by (auto simp: merge_inv_def st' unlink_step_def unlink_set less_Suc_eq)
      then show "merge_inv st' ?m'"
        using M Aborting k range unfolding merge_inv_def
        by (auto simp: st' unlink_step_def unlink_set)
      show "merged_handles st' = []" "merged_handles st = []" using m Aborting by (simp_all add: st' merged_handles_def)
      fix e assume "fst e \<in> pending_outputs st"
      then show "fst e \<in> pending_outputs st'" using m Aborting by (simp add: pending_outputs_def st')
    qed
  qed
qed

lemma merge_finish_keeps:
  assumes inv: "store_inv st" and step: "merge_finish True st = Some st'"
  shows "keeps st [] st'"
proof -
  note I = store_invD [OF inv]
  obtain m where m: "merging st = Some m" and phase: "m_phase m = Deleting (length (m_inputs m)) \<or> m_phase m = Aborting (length (m_chunks m))"
    using step by (auto simp: merge_finish_def split: option.splits if_splits)
  note M = I(11) [OF m]
  note MD = merge_invD [OF M]
  have "m_first m + length (m_chunks m) > m_first m" using MD(3) by simp
  then have "journal_order (journal_of m) = m_first m" by (simp add: journal_order_def journal_of_def upt_rec)
  then have st': "st' = st\<lparr>unsynced := [], journals := [], merging := None\<rparr>"
    using step m phase MD(6) by (auto simp: merge_finish_def)
  have [simp]: "segments st' = segments st" "writer st' = writer st" "log st' = log st" "sealing st' = sealing st"
      "next_segment st' = next_segment st" "disk st' = disk st"
    by (simp_all add: st')
  have "merged_handles st' = []" "merged_handles st = []" using m phase by (auto simp: st' merged_handles_def)
  then have [simp]: "handles st' = handles st" by (simp add: handles_def sealed_handle_def)
  have vis: "visible st' = visible st" by (simp add: visible_def)
  have agrees: "log_agrees st'" using I(2) vis by (simp add: log_agrees_def)
  have none: "fst e \<notin> pending_outputs st" if "e \<in> set (disk st)" for e
    using M m phase that by (auto simp: merge_inv_def pending_outputs_def output_ids_def)
  have "store_inv st'"
  proof (rule store_invI)
    fix e assume "e \<in> set (disk st')" "e \<notin> entry_of ` set (segments st')"
    then show "covered (segments st') (dom (wb_map (writer st'))) e" using I(8) [of e] none by auto
  next
    fix j assume "sealing st' = Some j"
    then show "seal_inv st' j" using I(9) [of j] by (simp add: seal_inv_def cong: seal_phase.case_cong)
  next
    show "journals st' = [] \<and> unsynced st' = []" by (simp add: st')
  next
    fix m' assume "merging st' = Some m'"
    then show "merge_inv st' m'" by (simp add: st')
  qed (use I agrees in \<open>simp_all\<close>)
  then show ?thesis using vis by (simp add: keeps_Nil)
qed

section \<open>Crashes\<close>

lemma fold_unlink: "fold unlink_file ns d = filter (\<lambda>e. fst e \<notin> set ns) d"
proof (induction ns arbitrary: d)
  case (Cons n ns)
  then show ?case by (auto simp: unlink_file_def intro: filter_cong)
qed (simp add: filter_True)

text \<open>The buffer a replay rebuilds.\<close>

lemma replay_ok:
  fixes l :: "span list" and now :: nat
  defines "us \<equiv> map (\<lambda>(a, s). ((now, a), s)) (enumerate 0 l)"
  shows "wb_ok (puts upsert_call us wb_default)" "wb_map (puts upsert_call us wb_default) = latest_by key_of l"
proof -
  have "wb_ok wb \<and> (\<forall>a \<in> fst ` set (wb_spans wb). a < n)
      \<Longrightarrow> all_admitted (free_address {}) upsert_call (map (\<lambda>(a, s). ((now, a), s)) (enumerate n l)) wb" for wb n
  proof (induction l arbitrary: wb n)
    case (Cons s l)
    have free: "free_address {} (now, n) wb" using Cons.prems by (auto simp: free_address_def)
    have "wb_ok (upsert_call (now, n) s wb)" using Cons.prems free by (intro buffer.put_ok) auto
    moreover have "\<forall>a \<in> fst ` set (wb_spans (upsert_call (now, n) s wb)). a < Suc n"
      using Cons.prems upsert_set [of wb now n s] by (auto simp: upsert_call_def less_Suc_eq)
    ultimately show ?case using free Cons.IH by simp
  qed simp
  then have free: "all_admitted (free_address {}) upsert_call us wb_default"
    unfolding us_def using default_ok by (simp add: wb_default_def)
  show "wb_ok (puts upsert_call us wb_default)" by (rule buffer.puts_ok [OF default_ok free])
  have "map snd us = l" unfolding us_def by (simp add: comp_def case_prod_beta)
  then show "wb_map (puts upsert_call us wb_default) = latest_by key_of l"
    using buffer.puts_view [OF default_ok free] by simp
qed

text \<open>Opening a directory in which every file is live or covered.\<close>

lemma open_ok:
  assumes d: "distinct (map fst d)" and rec: "recover_supersede_markers js d0 = d"
    and live: "sorted_wrt (<) (map sg_id live)" "entry_of ` set live \<subseteq> set d"
    and cover: "\<And>e. e \<in> set d \<Longrightarrow> e \<notin> entry_of ` set live \<Longrightarrow> covered live (dom (latest_by key_of l)) e"
  shows "store_inv (open_store now d0 js l)" "visible (open_store now d0 js l) = segments_view live ++ latest_by key_of l"
proof -
  let ?st = "open_store now d0 js l"
  have [simp]: "segments ?st = load_segments d" "disk ?st = d" "log ?st = l" "sealing ?st = None" "merging ?st = None"
      "journals ?st = []" "unsynced ?st = []"
    "writer ?st = puts upsert_call (map (\<lambda>(a, s). ((now, a), s)) (enumerate 0 l)) wb_default"
    by (simp_all add: open_store_def rec Let_def)
  have vis: "visible ?st = entries_view d ++ latest_by key_of l"
    by (simp add: visible_def segments_view_load replay_ok)
  then show "visible ?st = segments_view live ++ latest_by key_of l"
    using entries_view_covered [OF d live cover, of "latest_by key_of l"] by simp
  have ids: "sg_id ` set (load_segments d) = fst ` set d"
    using arg_cong [OF sg_ids_load [of d], of set] by simp
  have entries: "entry_of ` set (load_segments d) = set d"
    using arg_cong [OF entry_of_load [of d], of set] by simp
  show "store_inv ?st"
  proof (rule store_invI)
    show "wb_ok (writer ?st)" by (simp add: replay_ok)
    show "log_agrees ?st" by (simp add: log_agrees_def vis segments_view_load replay_ok)
    show "sorted_wrt (<) (map sg_id (segments ?st))" using sorted_ids [OF d] by (simp add: sg_ids_load)
    show "distinct (map sg_addr (handles ?st))"
      by (simp add: handles_def sealed_handle_def merged_handles_def sg_addrs_load)
    show "distinct (map fst (disk ?st))" using d by simp
    show "entry_of ` set (segments ?st) \<subseteq> set (disk ?st)" by (simp add: entries)
    fix e assume e: "e \<in> set (disk ?st)"
    then have "fst e \<in> sg_id ` set (load_segments d)" unfolding ids by simp
    then have "fst e \<le> Max (sg_id ` set (load_segments d))" by (intro Max_ge) simp_all
    moreover have "load_segments d \<noteq> []" using \<open>fst e \<in> sg_id ` set (load_segments d)\<close> by auto
    ultimately show "fst e < next_segment ?st" by (simp add: open_store_def rec Let_def)
  next
    fix e assume "e \<in> set (disk ?st)" "e \<notin> entry_of ` set (segments ?st)"
    then show "covered (segments ?st) (dom (wb_map (writer ?st))) e" by (simp add: entries)
  qed simp_all
qed

text \<open>A merge's journal decides between its inputs and its outputs; either way nothing visible changes.\<close>

lemma recover_one: "recover_supersede_markers [j] d = recover_merge j d"
  by (simp add: recover_supersede_markers_def)

lemma recover_merge_alt:
  assumes "m_chunks m \<noteq> []"
  shows "recover_merge (journal_of m) d =
    (if output_ids m \<subseteq> fst ` set d \<or> \<not> sg_id ` set (m_inputs m) \<subseteq> fst ` set d
     then filter (\<lambda>e. fst e \<notin> sg_id ` set (m_inputs m)) d else filter (\<lambda>e. fst e \<notin> output_ids m) d)"
proof -
  have "m_first m < m_first m + length (m_chunks m)" using assms by simp
  then show ?thesis
    by (auto simp: recover_merge_def journal_of_def fold_unlink output_ids_def exists_file_def list_all_iff subset_iff image_iff)
qed

text \<open>What a crash may find: the files, and any of the unlinked ones the directory was not synced after.\<close>

definition crashes_with :: "store \<Rightarrow> seg_entry list \<Rightarrow> bool" where
  "crashes_with st restored \<longleftrightarrow> store_inv st \<and> set restored \<subseteq> set (unsynced st) \<and> distinct (map fst restored)"

lemma crash_opens:
  assumes inv: "store_inv st"
    and d: "distinct (map fst d)" "recover_supersede_markers (journals st) (disk st @ restored) = d"
    and live: "sorted_wrt (<) (map sg_id live)" "entry_of ` set live \<subseteq> set d"
      "\<And>e. e \<in> set d \<Longrightarrow> e \<notin> entry_of ` set live \<Longrightarrow> covered live (dom (wb_map (writer st))) e"
      "segments_view live = segments_view (segments st)"
  shows "keeps st [] (crash_and_open now restored st)"
proof -
  let ?L = "latest_by key_of (log st)"
  have vl: "visible st = segments_view (segments st) ++ ?L" and le: "wb_map (writer st) \<subseteq>\<^sub>m ?L"
    using store_invD(2) [OF inv] by (simp_all add: log_agrees_def)
  have "covered live (dom ?L) e" if "e \<in> set d" "e \<notin> entry_of ` set live" for e
    using live(3) [OF that] map_le_implies_dom_le [OF le] by (rule covered_mono [OF _ order_refl])
  from open_ok [OF d live(1,2) this] vl live(4) show ?thesis by (simp add: keeps_Nil crash_and_open_def)
qed

lemma crash_files:
  assumes c: "crashes_with st restored" and m: "merging st = Some m"
  shows "distinct (map fst (disk st @ restored))"
    "recover_supersede_markers (journals st) (disk st @ restored) =
      (if output_ids m \<subseteq> fst ` set (disk st @ restored) \<or> \<not> sg_id ` set (m_inputs m) \<subseteq> fst ` set (disk st @ restored)
       then filter (\<lambda>e. fst e \<notin> sg_id ` set (m_inputs m)) (disk st @ restored)
       else filter (\<lambda>e. fst e \<notin> output_ids m) (disk st @ restored))"
proof -
  have I: "store_inv st" "set restored \<subseteq> set (unsynced st)" "distinct (map fst restored)" using c by (simp_all add: crashes_with_def)
  note M = store_invD(11) [OF I(1) m]
  have unsynced: "fst e \<notin> fst ` set (disk st)" if "e \<in> set (unsynced st)" for e
    using M that by (auto simp: merge_inv_def split: merge_phase.splits)
  have "fst ` set (disk st) \<inter> fst ` set restored = {}"
  proof (rule ccontr)
    assume "fst ` set (disk st) \<inter> fst ` set restored \<noteq> {}"
    then obtain x where x: "x \<in> fst ` set (disk st)" "x \<in> fst ` set restored" by blast
    from x(2) obtain e where "e \<in> set restored" "x = fst e" by (rule imageE)
    with x(1) show False using unsynced [of e] I(2) by auto
  qed
  then show "distinct (map fst (disk st @ restored))" using store_invD(5) [OF I(1)] I(3) by simp
  show "recover_supersede_markers (journals st) (disk st @ restored) =
      (if output_ids m \<subseteq> fst ` set (disk st @ restored) \<or> \<not> sg_id ` set (m_inputs m) \<subseteq> fst ` set (disk st @ restored)
       then filter (\<lambda>e. fst e \<notin> sg_id ` set (m_inputs m)) (disk st @ restored)
       else filter (\<lambda>e. fst e \<notin> output_ids m) (disk st @ restored))"
    unfolding merge_invD(6) [OF M] recover_one by (rule recover_merge_alt [OF merge_invD(3) [OF M]])
qed

lemma live_entries_kept:
  assumes "store_inv st" and "\<And>s. s \<in> set (segments st) \<Longrightarrow> sg_id s \<notin> ids"
  shows "entry_of ` set (segments st) \<subseteq> set (filter (\<lambda>e. fst e \<notin> ids) (disk st @ restored))"
proof
  fix e assume "e \<in> entry_of ` set (segments st)"
  then obtain s where s: "s \<in> set (segments st)" "e = entry_of s" by (elim imageE)
  then show "e \<in> set (filter (\<lambda>e. fst e \<notin> ids) (disk st @ restored))"
    using assms(2) [OF s(1)] store_invD(7) [OF assms(1)] by (simp add: image_subset_iff)
qed

text \<open>After the publication: the outputs are all there, so the inputs go.\<close>

lemma crash_deleting:
  assumes c: "crashes_with st restored" and m: "merging st = Some m" and n: "m_phase m = Deleting n"
  shows "keeps st [] (crash_and_open now restored st)"
proof -
  have inv: "store_inv st" and sub: "set restored \<subseteq> set (unsynced st)" using c by (simp_all add: crashes_with_def)
  note I = store_invD [OF inv]
  note M = I(11) [OF m]
  have outs: "set (m_outputs m) \<subseteq> set (segments st)" "length (m_outputs m) = length (m_chunks m)"
    and disj: "sg_id ` set (m_inputs m) \<inter> sg_id ` set (segments st) = {}"
    and un: "\<forall>e \<in> set (unsynced st). fst e \<in> sg_id ` set (m_inputs m)"
    using M n by (simp_all add: merge_inv_def)
  have "output_ids m = sg_id ` set (m_outputs m)"
    using arg_cong [OF merge_invD(7) [OF M], of set] outs(2) by (simp add: output_ids_def)
  also have "\<dots> \<subseteq> fst ` set (disk st @ restored)" using outs(1) I(7) by (force simp: image_iff)
  finally have rec: "recover_supersede_markers (journals st) (disk st @ restored)
      = filter (\<lambda>e. fst e \<notin> sg_id ` set (m_inputs m)) (disk st @ restored)" using crash_files(2) [OF c m] by simp
  have pend: "pending_outputs st = {}" using m n by (simp add: pending_outputs_def)
  show ?thesis
  proof (rule crash_opens [OF inv _ rec I(3) live_entries_kept [OF inv]])
    show "distinct (map fst (filter (\<lambda>e. fst e \<notin> sg_id ` set (m_inputs m)) (disk st @ restored)))"
      by (rule distinct_map_filter [OF crash_files(1) [OF c m]])
    show "sg_id s \<notin> sg_id ` set (m_inputs m)" if "s \<in> set (segments st)" for s using that disj by blast
    fix e assume e: "e \<in> set (filter (\<lambda>e. fst e \<notin> sg_id ` set (m_inputs m)) (disk st @ restored))" "e \<notin> entry_of ` set (segments st)"
    then have "e \<in> set (disk st)" using un sub by auto
    then show "covered (segments st) (dom (wb_map (writer st))) e" using I(8) [of e] e(2) pend by auto
  qed simp
qed

text \<open>Before it: what the directory holds of the outputs is right, and all of the inputs is there.\<close>

lemma unpublished_files:
  assumes c: "crashes_with st restored" and m: "merging st = Some m" and phase: "\<nexists>n. m_phase m = Deleting n"
  shows "\<And>e. e \<in> set (disk st @ restored) \<Longrightarrow> correct_output m e"
    "sg_id ` set (m_inputs m) \<subseteq> fst ` set (disk st @ restored)"
    "\<And>e. e \<in> set (disk st @ restored) \<Longrightarrow> fst e \<notin> output_ids m \<Longrightarrow> e \<notin> entry_of ` set (segments st)
      \<Longrightarrow> covered (segments st) (dom (wb_map (writer st))) e"
    "split_at_run m (segments st)"
proof -
  have inv: "store_inv st" and sub: "set restored \<subseteq> set (unsynced st)" using c by (simp_all add: crashes_with_def)
  note I = store_invD [OF inv]
  note M = I(11) [OF m]
  show split: "split_at_run m (segments st)" using M phase by (auto simp: merge_inv_def split: merge_phase.splits)
  have un: "fst e \<in> output_ids m" "correct_output m e" if "e \<in> set (unsynced st)" for e
    using M that phase by (auto simp: merge_inv_def split: merge_phase.splits)
  show "correct_output m e" if "e \<in> set (disk st @ restored)" for e
  proof (cases "m_phase m = Merging")
    case True
    then show ?thesis using written_outputs_correct [OF inv m True, of e] that un(2) [of e] sub by auto
  next
    case no: False
    then obtain n where "m_phase m = Aborting n" using phase by (cases "m_phase m") auto
    then have "\<forall>e \<in> set (disk st) \<union> set (unsynced st). correct_output m e" using M by (simp add: merge_inv_def)
    then show ?thesis using that sub by auto
  qed
  show "sg_id ` set (m_inputs m) \<subseteq> fst ` set (disk st @ restored)"
  proof
    fix n assume "n \<in> sg_id ` set (m_inputs m)"
    then obtain s where "s \<in> set (m_inputs m)" "n = sg_id s" by auto
    then have "entry_of s \<in> set (disk st @ restored)" "n = fst (entry_of s)" using I(7) split by (auto simp: split_at_run_def)
    then show "n \<in> fst ` set (disk st @ restored)" by blast
  qed
  have pend: "pending_outputs st = output_ids m" using m phase by (auto simp: pending_outputs_def split: merge_phase.splits)
  show "covered (segments st) (dom (wb_map (writer st))) e"
    if "e \<in> set (disk st @ restored)" "fst e \<notin> output_ids m" "e \<notin> entry_of ` set (segments st)" for e
    using that I(8) [of e] pend un(1) [of e] sub by auto
qed

text \<open>Some output missing: the outputs go and the inputs stay.\<close>

lemma crash_rolled_back:
  assumes c: "crashes_with st restored" and m: "merging st = Some m" and phase: "\<nexists>n. m_phase m = Deleting n"
    and missing: "\<not> output_ids m \<subseteq> fst ` set (disk st @ restored)"
  shows "keeps st [] (crash_and_open now restored st)"
proof -
  have inv: "store_inv st" using c by (simp add: crashes_with_def)
  note U = unpublished_files [OF c m phase]
  obtain pre post where split: "segments st = pre @ m_inputs m @ post" and post: "\<forall>s \<in> set post. m_first m + length (m_chunks m) \<le> sg_id s"
    using U(4) by (auto simp: split_at_run_def)
  have rec: "recover_supersede_markers (journals st) (disk st @ restored) = filter (\<lambda>e. fst e \<notin> output_ids m) (disk st @ restored)"
    using crash_files(2) [OF c m] missing U(2) by simp
  show ?thesis
  proof (rule crash_opens [OF inv _ rec store_invD(3) [OF inv] live_entries_kept [OF inv]])
    show "distinct (map fst (filter (\<lambda>e. fst e \<notin> output_ids m) (disk st @ restored)))"
      by (rule distinct_map_filter [OF crash_files(1) [OF c m]])
    show "sg_id s \<notin> output_ids m" if "s \<in> set (segments st)" for s by (rule split_ids [OF inv m split post that])
    fix e assume "e \<in> set (filter (\<lambda>e. fst e \<notin> output_ids m) (disk st @ restored))" "e \<notin> entry_of ` set (segments st)"
    then show "covered (segments st) (dom (wb_map (writer st))) e" by (intro U(3)) auto
  qed simp
qed

text \<open>All outputs there: they stand for the inputs, published or not.\<close>

lemma outputs_on_disk:
  assumes "output_ids m \<subseteq> fst ` set d" and "\<And>e. e \<in> set d \<Longrightarrow> correct_output m e"
  obtains outs where "map sg_id outs = [m_first m ..< m_first m + length (m_chunks m)]"
    "map sg_spans outs = map merge_group (groups (m_chunks m) (m_inputs m))" "entry_of ` set outs \<subseteq> set d"
    "sg_id ` set outs = output_ids m"
proof -
  have "\<exists>e. e \<in> set d \<and> fst e = m_first m + i" if "i < length (m_chunks m)" for i
  proof -
    have "m_first m + i \<in> output_ids m" using that by (simp add: output_ids_def)
    then have "m_first m + i \<in> fst ` set d" using assms(1) by (rule rev_subsetD)
    then show ?thesis by (metis imageE)
  qed
  then obtain f where f: "\<And>i. i < length (m_chunks m) \<Longrightarrow> f i \<in> set d \<and> fst (f i) = m_first m + i" by metis
  let ?h = "\<lambda>i. \<lparr>sg_addr = 0, sg_id = fst (f i), sg_bytes = fst (snd (f i)), sg_spans = entry_spans (f i)\<rparr>"
  let ?outs = "map ?h [0 ..< length (m_chunks m)]"
  have ids: "map sg_id ?outs = [m_first m ..< m_first m + length (m_chunks m)]"
    by (rule nth_equalityI) (simp_all add: f)
  moreover have "map sg_spans ?outs = map merge_group (groups (m_chunks m) (m_inputs m))"
  proof (rule nth_equalityI)
    fix i assume "i < length (map sg_spans ?outs)"
    then have i: "i < length (m_chunks m)" by simp
    then have "fst (f i) \<in> output_ids m" using f by (simp add: output_ids_def)
    then have "entry_spans (f i) = merge_group (groups (m_chunks m) (m_inputs m) ! i)"
      using assms(2) [of "f i"] f [OF i] by (simp add: correct_output_def)
    then show "map sg_spans ?outs ! i = map merge_group (groups (m_chunks m) (m_inputs m)) ! i" using i by simp
  qed simp
  moreover have "entry_of (?h i) = f i" for i by (simp add: entry_of_def)
  then have "entry_of ` set ?outs = f ` {0 ..< length (m_chunks m)}" by (simp only: set_map set_upt image_image)
  then have "entry_of ` set ?outs \<subseteq> set d" using f by auto
  moreover have "sg_id ` set ?outs = output_ids m" using arg_cong [OF ids, of set] by (simp only: set_map output_ids_def set_upt)
  ultimately show thesis by (rule that)
qed

lemma crash_committed:
  assumes c: "crashes_with st restored" and m: "merging st = Some m" and phase: "\<nexists>n. m_phase m = Deleting n"
    and all: "output_ids m \<subseteq> fst ` set (disk st @ restored)"
  shows "keeps st [] (crash_and_open now restored st)"
proof -
  let ?all = "disk st @ restored" let ?kept = "filter (\<lambda>e. fst e \<notin> sg_id ` set (m_inputs m)) ?all"
  have inv: "store_inv st" using c by (simp add: crashes_with_def)
  note I = store_invD [OF inv]
  note MD = merge_invD [OF I(11) [OF m]] and U = unpublished_files [OF c m phase]
  obtain pre post where split: "segments st = pre @ m_inputs m @ post" and post: "\<forall>s \<in> set post. m_first m + length (m_chunks m) \<le> sg_id s"
    using U(4) by (auto simp: split_at_run_def)
  obtain outs where ids: "map sg_id outs = [m_first m ..< m_first m + length (m_chunks m)]"
    and spans: "map sg_spans outs = map merge_group (groups (m_chunks m) (m_inputs m))"
    and files: "entry_of ` set outs \<subseteq> set ?all" "sg_id ` set outs = output_ids m"
    using outputs_on_disk [OF all U(1)] by blast
  have rec: "recover_supersede_markers (journals st) ?all = ?kept" using crash_files(2) [OF c m] all by simp
  let ?live = "pre @ outs @ post"
  have in_out: "sg_id s < sg_id t" if "s \<in> set (m_inputs m)" "t \<in> set outs" for s t
  proof -
    have "sg_id t \<in> output_ids m" using that(2) files(2) by blast
    then show ?thesis using MD(5) [OF that(1)] by (simp add: output_ids_def)
  qed
  have kept: "sg_id s \<notin> sg_id ` set (m_inputs m)" if "s \<in> set ?live" for s
  proof -
    have "distinct (map sg_id (pre @ m_inputs m @ post))" using I(3) unfolding split by (simp only: strict_sorted_iff)
    then have "sg_id s \<notin> sg_id ` set (m_inputs m)" if "s \<in> set pre \<union> set post" using that by auto
    then show ?thesis using that in_out by fastforce
  qed
  have live_all: "entry_of s \<in> set ?all" if "s \<in> set ?live" for s using that files(1) I(7) by (auto simp: split)
  show ?thesis
  proof (rule crash_opens [OF inv _ rec])
    show "distinct (map fst ?kept)" by (rule distinct_map_filter [OF crash_files(1) [OF c m]])
    show "sorted_wrt (<) (map sg_id ?live)" by (rule replaced_run_sorted [OF I(3) [unfolded split] MD(1,5) ids post])
    show "segments_view ?live = segments_view (segments st)"
      unfolding split segments_view_append outputs_view [OF MD(2) spans] ..
    show "entry_of ` set ?live \<subseteq> set ?kept"
    proof
      fix e assume "e \<in> entry_of ` set ?live"
      then obtain s where s: "s \<in> set ?live" "e = entry_of s" by (elim imageE)
      then show "e \<in> set ?kept" using live_all [OF s(1)] kept [OF s(1)] by simp
    qed
    fix e assume e: "e \<in> set ?kept" "e \<notin> entry_of ` set ?live"
    have "fst e \<notin> output_ids m"
    proof
      assume "fst e \<in> output_ids m"
      then have "fst e \<in> sg_id ` set outs" unfolding files(2) .
      then obtain t where t: "t \<in> set outs" "fst e = sg_id t" by (elim imageE)
      have "inj_on fst (set ?all)" using crash_files(1) [OF c m] unfolding distinct_map by blast
      then have "entry_of t = e" by (rule inj_onD) (use t(2) e(1) live_all [of t] t(1) in auto)
      then show False using e(2) t(1) by auto
    qed
    moreover have "e \<notin> entry_of ` set (segments st)" using e by (auto simp: split)
    ultimately have "covered (segments st) (dom (wb_map (writer st))) e" using e(1) by (intro U(3)) auto
    then show "covered ?live (dom (wb_map (writer st))) e"
      unfolding split by (rule covered_replace [OF _ MD(2) spans in_out])
  qed
qed

lemma crash_keeps:
  assumes inv: "store_inv st" and sub: "set restored \<subseteq> set (unsynced st)" and dist: "distinct (map fst restored)"
  shows "keeps st [] (crash_and_open now restored st)"
proof -
  have c: "crashes_with st restored" using assms by (simp add: crashes_with_def)
  note I = store_invD [OF inv]
  show ?thesis
  proof (cases "merging st")
    case None
    then have none: "restored = []" "journals st = []" "pending_outputs st = {}" using I(10) sub by (auto simp: pending_outputs_def)
    show ?thesis
    proof (rule crash_opens [OF inv I(5) _ I(3,7)])
      show "recover_supersede_markers (journals st) (disk st @ restored) = disk st" by (simp add: none recover_supersede_markers_def)
      show "covered (segments st) (dom (wb_map (writer st))) e" if "e \<in> set (disk st)" "e \<notin> entry_of ` set (segments st)" for e
        using I(8) [OF that(1)] that(2) none(3) by auto
    qed simp
  next
    case (Some m)
    then show ?thesis
      using crash_deleting [OF c Some] crash_committed [OF c Some] crash_rolled_back [OF c Some] by blast
  qed
qed

section \<open>Every run\<close>

lemma store_step_keeps:
  assumes "store_step st spans st'" and "store_inv st"
  shows "keeps st spans st'"
  using assms
  by cases (simp_all add: admit_keeps drain_keeps seal_write_keeps seal_publish_keeps reconcile_keeps pin_keeps merge_write_keeps
      merge_publish_keeps merge_unlink_keeps merge_finish_keeps crash_keeps)

inductive reaches :: "span list \<Rightarrow> store \<Rightarrow> bool" where
  start: "reaches [] empty_store"
| more: "reaches admitted st \<Longrightarrow> store_step st spans st' \<Longrightarrow> reaches (admitted @ spans) st'"

lemma reaches_inv: "reaches admitted st \<Longrightarrow> store_inv st \<and> visible st = latest_by key_of admitted"
proof (induction rule: reaches.induct)
  case (more admitted st spans st')
  then have "keeps st spans st'" by (intro store_step_keeps) simp_all
  then show ?case using more.IH by (simp add: keeps_def)
qed (simp add: empty_store_inv)

text \<open>C1: what a reader finds under a key is the last version admitted, in every state the machine can reach:
  between any two steps of a seal and of a merge running beside it, however admissions interleave with them,
  when segment writes fail before or after their rename and log reclaims fail, and after any number of
  crashes, each reopening whatever files and journal it left, with or without the unlinks the directory was
  not yet synced after. Three things the machine does not do. It has no failure that leaves a journal without its merge: a
  journal made durable but reported as failed, a failed unlink, or a failed removal of the journal, after which a later opening may
  delete a live segment. A batch it admits is in the log for good: the time between an append and its fsync is the log's own
  subject. And it neither expires nor erases.\<close>

theorem readers_see_the_last_version_admitted:
  assumes "reaches admitted st"
  shows "visible st = latest_by key_of admitted"
  using reaches_inv [OF assms] by simp

text \<open>One span sealed, re-admitted while its segment is published, sealed again; the two segments pinned for a
  merge; and a crash then.\<close>

lemma internal: "reaches admitted st \<Longrightarrow> store_step st [] st' \<Longrightarrow> reaches admitted st'"
  using more [of admitted st "[]" st'] by simp

definition w_admitted :: store where
  "w_admitted = admit 0 [100] [w_span 7 1] empty_store"

definition w_drained :: store where
  "w_drained = the (seal_drain w_admitted)"

definition w_sealed :: store where
  "w_sealed = the (seal_publish (the (seal_write Written 200 64 w_drained)))"

definition w_again :: store where
  "w_again = the (seal_drain (the (reconcile_after_publish 2 False True (admit 1 [101] [w_span 7 2] w_sealed))))"

definition w_twice :: store where
  "w_twice = the (reconcile_after_publish 3 False True (the (seal_publish (the (seal_write Written 201 64 w_again)))))"

definition w_select :: "seg_handle list \<Rightarrow> nat option" where
  "w_select segs = (if length segs = 2 then Some 2 else None)"

definition w_pinned :: store where
  "w_pinned = the (merge_pin w_settings 2 w_select Written w_twice)"

lemmas w_defs = w_admitted_def w_drained_def w_sealed_def w_again_def w_twice_def
lemmas w_eval = w_defs w_span_def key_of_def admit_def puts_def upsert_call_def upsert_def empty_store_def wb_default_def
  seal_drain_def seal_write_def seal_publish_def write_segment_def exists_file_def wb_is_empty_def sort_spans_def
  reconcile_after_publish_def survivors_def evict_sealed_def reindex_def

lemma w_admitted_reached: "reaches [w_span 7 1] w_admitted"
proof -
  have "store_step empty_store [w_span 7 1] w_admitted"
    unfolding w_admitted_def by (rule admit_step) (simp_all add: held_addresses_def free_address_def empty_store_def wb_default_def)
  from more [OF start this] show ?thesis by simp
qed

lemma w_drained_reached: "reaches [w_span 7 1] w_drained"
  by (rule internal [OF w_admitted_reached drain_step]) (simp add: w_eval)

lemma w_sealed_reached: "reaches [w_span 7 1] w_sealed"
proof -
  have "reaches [w_span 7 1] (the (seal_write Written 200 64 w_drained))"
    by (rule internal [OF w_drained_reached seal_write_step [of 200 _ Written 64]])
      (simp_all add: w_eval handles_def sealed_handle_def merged_handles_def)
  then show ?thesis by (rule internal [OF _ seal_publish_step]) (simp add: w_eval)
qed

lemma w_again_reached: "reaches [w_span 7 1, w_span 7 2] w_again"
proof -
  have "store_step w_sealed [w_span 7 2] (admit 1 [101] [w_span 7 2] w_sealed)"
    by (rule admit_step) (simp_all add: held_addresses_def free_address_def w_eval)
  from more [OF w_sealed_reached this]
  have "reaches [w_span 7 1, w_span 7 2] (admit 1 [101] [w_span 7 2] w_sealed)" by simp
  then have "reaches [w_span 7 1, w_span 7 2] (the (reconcile_after_publish 2 False True (admit 1 [101] [w_span 7 2] w_sealed)))"
    by (rule internal [OF _ reconcile_step [of 2 False True]]) (simp add: w_eval)
  then show ?thesis unfolding w_again_def by (rule internal [OF _ drain_step]) (simp add: w_eval)
qed

lemma w_twice_state:
  "length (segments w_twice) = 2" "sealing w_twice = None" "merging w_twice = None" "\<not> 2 \<le> sg_id (segments w_twice ! 0)"
  by (simp_all add: w_eval)

lemma w_pinned_reached: "reaches [w_span 7 1, w_span 7 2] w_pinned"
proof -
  have "reaches [w_span 7 1, w_span 7 2] (the (seal_write Written 201 64 w_again))"
    by (rule internal [OF w_again_reached seal_write_step [of 201 _ Written 64]])
      (simp_all add: w_eval handles_def sealed_handle_def merged_handles_def)
  then have "reaches [w_span 7 1, w_span 7 2] (the (seal_publish (the (seal_write Written 201 64 w_again))))"
    by (rule internal [OF _ seal_publish_step]) (simp add: w_eval)
  then have "reaches [w_span 7 1, w_span 7 2] w_twice"
    unfolding w_twice_def by (rule internal [OF _ reconcile_step [of 3 False True]]) (simp add: w_eval)
  then show ?thesis
    unfolding w_pinned_def
    by (rule internal [OF _ pin_step [of w_select Written w_settings 2]])
      (simp_all add: chooses_run_def w_select_def merge_pin_def Let_def w_twice_state)
qed

lemma w_crashed_reached: "reaches [w_span 7 1, w_span 7 2] (crash_and_open 4 [] w_pinned)"
  by (rule internal [OF w_pinned_reached crash_step]) simp_all

theorem readers_see_the_last_version_admitted_witness:
  "visible (crash_and_open 4 [] w_pinned) = latest_by key_of [w_span 7 1, w_span 7 2]"
  by (rule readers_see_the_last_version_admitted [OF w_crashed_reached])

text \<open>The branches a race would need are dead. A seal never meets a file of its own number, a merge never
  meets one of its next output's, and the run a merge pinned is always still there when it publishes, however
  many seals have published meanwhile.\<close>

theorem no_collision_and_no_stale_run:
  assumes "reaches admitted st"
  shows "(case sealing st of Some j \<Rightarrow> d_phase j = SealWriting \<longrightarrow> \<not> exists_file (d_id j) (disk st) | None \<Rightarrow> True)
    \<and> (case merging st of
         Some m \<Rightarrow> m_phase m = Merging \<longrightarrow>
           run_position (segments st) (m_inputs m) \<noteq> None
           \<and> (length (m_outputs m) < length (m_chunks m) \<longrightarrow> \<not> exists_file (m_first m + length (m_outputs m)) (disk st))
       | None \<Rightarrow> True)"
proof -
  have inv: "store_inv st" using reaches_inv [OF assms] by simp
  note I = store_invD [OF inv]
  have "\<not> exists_file (d_id j) (disk st)" if "sealing st = Some j" "d_phase j = SealWriting" for j
    using I(9) [OF that(1)] that(2) by (auto simp: seal_inv_def exists_file_def)
  moreover have "run_position (segments st) (m_inputs m) \<noteq> None"
    if m: "merging st = Some m" "m_phase m = Merging" for m
  proof -
    obtain pre post where split: "segments st = pre @ m_inputs m @ post"
      using I(11) [OF m(1)] m(2) by (auto simp: merge_inv_def split_at_run_def)
    have "distinct (map sg_addr (pre @ m_inputs m @ post))" using I(4) by (auto simp: handles_def split)
    then show ?thesis unfolding split using merge_invD(1) [OF I(11) [OF m(1)]] by (simp add: run_position_found)
  qed
  moreover have "\<not> exists_file (m_first m + length (m_outputs m)) (disk st)"
    if "merging st = Some m" "m_phase m = Merging" "length (m_outputs m) < length (m_chunks m)" for m
    using I(11) [OF that(1)] that(2,3) by (auto simp: merge_inv_def exists_file_def)
  ultimately show ?thesis by (simp split: option.split)
qed

theorem no_collision_and_no_stale_run_witness:
  "(\<exists>m. merging w_pinned = Some m \<and> m_phase m = Merging \<and> run_position (segments w_pinned) (m_inputs m) \<noteq> None
      \<and> \<not> exists_file (m_first m + length (m_outputs m)) (disk w_pinned))"
proof -
  have "merge_chunks (segments w_twice) w_settings \<noteq> []"
    using sum_merge_chunks [of "segments w_twice" w_settings] w_twice_state(1) by auto
  then obtain m where m: "merging w_pinned = Some m" "m_phase m = Merging" "length (m_outputs m) < length (m_chunks m)"
    using w_twice_state by (simp add: w_pinned_def merge_pin_def w_select_def Let_def)
  then show ?thesis using no_collision_and_no_stale_run [OF w_pinned_reached] by simp
qed

end
