(* ===== verification/Expiry.thy ===== *)
theory Expiry
  imports Store_Safety "HOL-Library.Sublist"
begin

text \<open>
  Retention (\<open>ExpiryCutoffs\<close> and \<open>expire_by_policy_locked\<close> of \<open>src/src/lib.rs\<close>): each tenant's cutoff, the
  bounds that let a segment be skipped or retired unread, and the deletion itself, in buffer, log, files and
  live list. What a rollup says of a segment's end times is an argument of the definitions.
\<close>

section \<open>The policy\<close>

text \<open>\<open>tenants\<close> lists the overrides; an override \<open>None\<close> exempts its tenant.\<close>

record expiry_cutoffs =
  ec_default :: "u64 option"
  ec_tenants :: "(bytes \<times> u64 option) list"

definition single_cutoff :: "u64 \<Rightarrow> expiry_cutoffs" where
  "single_cutoff c = \<lparr>ec_default = Some c, ec_tenants = []\<rparr>"

definition ttl_cutoff :: "u64 \<Rightarrow> u64 \<Rightarrow> u64 option" where
  "ttl_cutoff now ttl_seconds =
     (if ttl_seconds > 0 then Some (saturating_sub now (saturating_mul ttl_seconds 1000000000)) else None)"

definition cutoffs_from_config :: "u64 option \<Rightarrow> (bytes \<times> u64) list \<Rightarrow> u64 \<Rightarrow> expiry_cutoffs option" where
  "cutoffs_from_config ttl tenant_ttls now =
     (let base = (case ttl of None \<Rightarrow> None | Some t \<Rightarrow> ttl_cutoff now t);
          tenants = map (\<lambda>(t, ttl). (t, ttl_cutoff now ttl)) tenant_ttls
      in if base = None \<and> list_all (\<lambda>(t, c). c = None) tenants then None
         else Some \<lparr>ec_default = base, ec_tenants = tenants\<rparr>)"

definition cutoff_for :: "expiry_cutoffs \<Rightarrow> bytes \<Rightarrow> u64 option" where
  "cutoff_for c t = (case map_of (ec_tenants c) t of Some exempt_or_cutoff \<Rightarrow> exempt_or_cutoff | None \<Rightarrow> ec_default c)"

definition configured :: "expiry_cutoffs \<Rightarrow> u64 list" where
  "configured c = List.map_filter snd (ec_tenants c) @ (case ec_default c of None \<Rightarrow> [] | Some d \<Rightarrow> [d])"

definition latest_cutoff :: "expiry_cutoffs \<Rightarrow> u64" where
  "latest_cutoff c = (case configured c of [] \<Rightarrow> 0 | x # xs \<Rightarrow> fold max xs x)"

definition retire_bound :: "expiry_cutoffs \<Rightarrow> u64 option" where
  "retire_bound c =
     (case ec_default c of
        None \<Rightarrow> None
      | Some d \<Rightarrow>
          if list_ex (\<lambda>(t, cutoff). cutoff = None) (ec_tenants c) then None
          else Some (fold min (List.map_filter snd (ec_tenants c)) d))"

definition earliest_cutoff :: "expiry_cutoffs \<Rightarrow> u64" where
  "earliest_cutoff c = (case configured c of [] \<Rightarrow> 0 | x # xs \<Rightarrow> fold min xs x)"

definition expired_span :: "expiry_cutoffs \<Rightarrow> span \<Rightarrow> bool" where
  "expired_span c s = (case cutoff_for c (tenant s) of None \<Rightarrow> False | Some cutoff \<Rightarrow> end_time_ns s < cutoff)"

lemma fold_max_ge: "x \<in> set (a # xs) \<Longrightarrow> x \<le> fold max xs a"
  for a :: "'a::linorder"
  by (metis List.finite_set Max.set_eq_fold Max_ge)

lemma fold_min_le: "x \<in> set (a # xs) \<Longrightarrow> fold min xs a \<le> x"
  for a :: "'a::linorder"
  by (metis List.finite_set Min.set_eq_fold Min_le)

lemma cutoff_for_cases:
  "cutoff_for c t = ec_default c \<or> (\<exists>t'. (t', cutoff_for c t) \<in> set (ec_tenants c))"
  unfolding cutoff_for_def by (auto split: option.splits dest: map_of_SomeD)

lemma cutoff_for_configured: "cutoff_for c t = Some x \<Longrightarrow> x \<in> set (configured c)"
  using cutoff_for_cases [of c t] by (force simp: configured_def map_filter_def)

lemma latest_cutoff_sound: "expired_span c s \<Longrightarrow> end_time_ns s < latest_cutoff c"
proof -
  assume "expired_span c s"
  then obtain x where x: "cutoff_for c (tenant s) = Some x" "end_time_ns s < x" by (auto simp: expired_span_def split: option.splits)
  then obtain y ys where ys: "configured c = y # ys" using cutoff_for_configured [OF x(1)] by (cases "configured c") auto
  have "x \<le> fold max ys y" using cutoff_for_configured [OF x(1)] unfolding ys by (rule fold_max_ge)
  then show ?thesis using x(2) ys by (simp add: latest_cutoff_def)
qed

lemma retire_bound_sound:
  assumes "retire_bound c = Some r" and "end_time_ns s < r"
  shows "expired_span c s"
proof -
  obtain d where d: "ec_default c = Some d" "r = fold min (List.map_filter snd (ec_tenants c)) d"
    and ex: "\<not> list_ex (\<lambda>(t, cutoff). cutoff = None) (ec_tenants c)"
    using assms(1) by (auto simp: retire_bound_def split: option.splits if_splits)
  have none: "cutoff \<noteq> None" if "(t, cutoff) \<in> set (ec_tenants c)" for t cutoff
    using ex that by (auto simp: list_ex_iff)
  obtain x where x: "cutoff_for c (tenant s) = Some x" "x \<in> set (d # List.map_filter snd (ec_tenants c))"
    using cutoff_for_cases [of c "tenant s"]
  proof
    assume "cutoff_for c (tenant s) = ec_default c"
    then show thesis using d by (intro that [of d]) simp_all
  next
    assume "\<exists>t'. (t', cutoff_for c (tenant s)) \<in> set (ec_tenants c)"
    then obtain t' where t': "(t', cutoff_for c (tenant s)) \<in> set (ec_tenants c)" ..
    then obtain x where "cutoff_for c (tenant s) = Some x" using none by blast
    then show thesis using t' by (intro that [of x]) (force simp: map_filter_def)+
  qed
  have "r \<le> x" unfolding d(2) by (rule fold_min_le [OF x(2)])
  then show ?thesis using assms(2) x(1) by (simp add: expired_span_def)
qed

section \<open>The deletion\<close>

text \<open>How the calls end: the log rewrite, the rewrite of a segment file by number, its unlink (with the directory
  sync behind it).\<close>

record expiry_io =
  log_rewrite_ok :: bool
  rewrite_outcome :: "nat \<Rightarrow> write_outcome"
  unlink_ok :: "nat \<Rightarrow> bool"

definition expire_buffer :: "expiry_cutoffs \<Rightarrow> bool \<Rightarrow> store \<Rightarrow> store \<times> nat option" where
  "expire_buffer c rewrite_ok st =
     (let expired = length (filter (\<lambda>h. expired_span c (snd h)) (wb_spans (writer st)))
      in if expired > 0 then
           if \<not> rewrite_ok then (st, None)
           else (st\<lparr>log := filter (\<lambda>s. \<not> expired_span c s) (map snd (wb_spans (writer st))),
                    writer := wb_retain (\<lambda>s. \<not> expired_span c s) (writer st)\<rparr>, Some expired)
         else (st, Some expired))"

text \<open>The live list, at the position whose \<open>Arc\<close> is the pinned one.\<close>

fun replace_held :: "nat \<Rightarrow> seg_handle option \<Rightarrow> seg_handle list \<Rightarrow> seg_handle list" where
  "replace_held addr new [] = []"
| "replace_held addr new (h # hs) =
     (if sg_addr h = addr then (case new of None \<Rightarrow> hs | Some h' \<Rightarrow> h' # hs) else h # replace_held addr new hs)"

definition retire_expired_segment :: "seg_handle \<Rightarrow> store \<Rightarrow> store" where
  "retire_expired_segment seg st =
     st\<lparr>disk := unlink_file (sg_id seg) (disk st), segments := replace_held (sg_addr seg) None (segments st)\<rparr>"

definition replace_file :: "seg_entry \<Rightarrow> seg_entry list \<Rightarrow> seg_entry list" where
  "replace_file e d = map (\<lambda>e'. if fst e' = fst e then e else e') d"

definition rewrite_expired_segment :: "seg_handle \<Rightarrow> seg_handle \<Rightarrow> store \<Rightarrow> store" where
  "rewrite_expired_segment seg new st =
     st\<lparr>disk := replace_file (entry_of new) (disk st), segments := replace_held (sg_addr seg) (Some new) (segments st)\<rparr>"

text \<open>The loop over the pinned segments. \<open>bounds\<close> is what the rollup says of a segment, \<open>fresh\<close> the address and
  length of the segment a rewrite opens.\<close>

fun expire_segments :: "expiry_cutoffs \<Rightarrow> (seg_handle \<Rightarrow> (u64 \<times> u64) option) \<Rightarrow> (seg_handle \<Rightarrow> nat \<times> u64) \<Rightarrow> expiry_io
    \<Rightarrow> seg_handle list \<Rightarrow> store \<Rightarrow> nat \<Rightarrow> store \<times> nat option" where
  "expire_segments c bounds fresh io [] st removed = (st, Some removed)"
| "expire_segments c bounds fresh io (seg # segs) st removed =
     (if (case bounds seg of Some (min_end, max_end) \<Rightarrow> min_end \<ge> latest_cutoff c | None \<Rightarrow> False)
      then expire_segments c bounds fresh io segs st removed
      else if (case (retire_bound c, bounds seg) of (Some bound, Some (min_end, max_end)) \<Rightarrow> max_end < bound | _ \<Rightarrow> False)
              \<and> sg_spans seg \<noteq> []
      then if unlink_ok io (sg_id seg)
           then expire_segments c bounds fresh io segs (retire_expired_segment seg st) (removed + length (sg_spans seg))
           else (st, None)
      else
        let kept = filter (\<lambda>s. \<not> expired_span c s) (sg_spans seg);
            removed' = removed + (length (sg_spans seg) - length kept)
        in if length kept = length (sg_spans seg) then expire_segments c bounds fresh io segs st removed
           else if kept = [] then
             if unlink_ok io (sg_id seg) then expire_segments c bounds fresh io segs (retire_expired_segment seg st) removed'
             else (st, None)
           else
             let new = \<lparr>sg_addr = fst (fresh seg), sg_id = sg_id seg, sg_bytes = snd (fresh seg), sg_spans = sort_spans kept\<rparr>
             in case rewrite_outcome io (sg_id seg) of
                  NotWritten \<Rightarrow> (st, None)
                | LeftBehind \<Rightarrow> (st\<lparr>disk := replace_file (entry_of new) (disk st)\<rparr>, None)
                | Written \<Rightarrow> expire_segments c bounds fresh io segs (rewrite_expired_segment seg new st) removed')"

definition expire_by_policy :: "expiry_cutoffs \<Rightarrow> (seg_handle \<Rightarrow> (u64 \<times> u64) option) \<Rightarrow> (seg_handle \<Rightarrow> nat \<times> u64) \<Rightarrow> expiry_io
    \<Rightarrow> store \<Rightarrow> store \<times> nat option" where
  "expire_by_policy c bounds fresh io st =
     (case expire_buffer c (log_rewrite_ok io) st of
        (st, None) \<Rightarrow> (st, None)
      | (st, Some removed) \<Rightarrow> expire_segments c bounds fresh io (segments st) st removed)"

section \<open>What it removes\<close>

text \<open>A rollup read for a segment bounds its end times.\<close>

definition sound_bounds :: "(seg_handle \<Rightarrow> (u64 \<times> u64) option) \<Rightarrow> seg_handle list \<Rightarrow> bool" where
  "sound_bounds bounds segs \<longleftrightarrow>
     (\<forall>seg \<in> set segs. case bounds seg of None \<Rightarrow> True
        | Some (min_end, max_end) \<Rightarrow> \<forall>s \<in> set (sg_spans seg). min_end \<le> end_time_ns s \<and> end_time_ns s \<le> max_end)"

text \<open>Every stored version with the segment it is in.\<close>

definition stored :: "seg_handle list \<Rightarrow> (nat \<times> span) multiset" where
  "stored segs = mset (concat (map (\<lambda>h. map (Pair (sg_id h)) (sg_spans h)) segs))"

lemma stored_simps [simp]:
  "stored [] = {#}" "stored (h # hs) = image_mset (Pair (sg_id h)) (mset (sg_spans h)) + stored hs" "stored (as @ bs) = stored as + stored bs"
  by (simp_all add: stored_def)

abbreviation unexpired :: "expiry_cutoffs \<Rightarrow> (nat \<times> span) multiset \<Rightarrow> (nat \<times> span) multiset" where
  "unexpired c M \<equiv> filter_mset (\<lambda>(i, s). \<not> expired_span c s) M"

lemma replace_held_at:
  "sg_addr h \<notin> sg_addr ` set as \<Longrightarrow> replace_held (sg_addr h) new (as @ h # bs) = as @ (case new of None \<Rightarrow> [] | Some h' \<Rightarrow> [h']) @ bs"
  by (induction as) (auto split: option.split)

lemma unexpired_image: "unexpired c (image_mset (Pair i) M) = image_mset (Pair i) (filter_mset (\<lambda>s. \<not> expired_span c s) M)"
  by (induction M) auto

text \<open>One segment, whichever way it is decided.\<close>

lemma expire_segments_exact:
  assumes "expire_segments c bounds fresh io segs st removed = (st', Some removed')"
    and "segments st = kept @ segs" and "sound_bounds bounds segs" and "distinct (map sg_addr segs)"
    and "sg_addr ` set kept \<inter> sg_addr ` set segs = {}" and "\<And>seg h. seg \<in> set segs \<Longrightarrow> h \<in> set segs \<Longrightarrow> fst (fresh seg) \<noteq> sg_addr h"
  shows "\<exists>kept'. segments st' = kept @ kept' \<and> stored kept' = unexpired c (stored segs)
    \<and> removed' = removed + (size (stored segs) - size (stored kept')) \<and> subseq (map sg_id kept') (map sg_id segs)
    \<and> writer st' = writer st \<and> log st' = log st"
  using assms
proof (induction segs arbitrary: st removed kept)
  case (Cons seg segs)
  let ?expired = "\<lambda>s. expired_span c s"
  let ?left = "filter (\<lambda>s. \<not> ?expired s) (sg_spans seg)"
  have sound: "sound_bounds bounds segs" using Cons.prems(3) by (simp add: sound_bounds_def)
  have addr: "sg_addr seg \<notin> sg_addr ` set kept" "distinct (map sg_addr segs)" "sg_addr seg \<notin> sg_addr ` set segs"
    using Cons.prems(4,5) by auto
  have go: ?case
    if run: "expire_segments c bounds fresh io segs st1 removed1 = (st', Some removed')"
      and st1: "segments st1 = (kept @ mid) @ segs" "writer st1 = writer st" "log st1 = log st"
      and mid: "stored mid = image_mset (Pair (sg_id seg)) (mset ?left)" "sg_addr ` set mid \<inter> sg_addr ` set segs = {}"
        "subseq (map sg_id mid) [sg_id seg]"
      and removed1: "removed1 = removed + (length (sg_spans seg) - length ?left)" for st1 removed1 mid
  proof -
    have "sg_addr ` set (kept @ mid) \<inter> sg_addr ` set segs = {}" using Cons.prems(5) mid(2) by auto
    from Cons.IH [OF run st1(1) sound addr(2) this Cons.prems(6)] obtain more where more:
      "segments st' = (kept @ mid) @ more" "stored more = unexpired c (stored segs)"
      "removed' = removed1 + (size (stored segs) - size (stored more))" "subseq (map sg_id more) (map sg_id segs)"
      "writer st' = writer st1" "log st' = log st1" by auto
    have le: "length ?left \<le> length (sg_spans seg)" "size (stored more) \<le> size (stored segs)"
      unfolding more(2) by (simp_all add: size_filter_mset_lesseq)
    have "subseq (map sg_id mid @ map sg_id more) ([sg_id seg] @ map sg_id segs)" using mid(3) more(4) by (rule list_emb_append_mono)
    moreover have sz: "size (filter_mset (\<lambda>s. \<not> ?expired s) (mset (sg_spans seg))) = length ?left"
      by (metis mset_filter size_mset)
    have "removed' = removed + (size (stored (seg # segs)) - size (stored (mid @ more)))"
    proof -
      have "size (stored (seg # segs)) = length (sg_spans seg) + size (stored segs)" by simp
      moreover have "size (stored (mid @ more)) = length ?left + size (stored more)" using mid(1) sz by simp
      ultimately show ?thesis using more(3) removed1 le by linarith
    qed
    ultimately show ?thesis
      using more(1,2,5,6) st1 mid(1)
      by (intro exI [of _ "mid @ more"]) (simp add: unexpired_image)
  qed
  have keep_all: ?case if "expire_segments c bounds fresh io segs st removed = (st', Some removed')" "?left = sg_spans seg"
    using go [OF that(1), of "[seg]"] that(2) Cons.prems(2) addr(3) by simp
  have retire: ?case
    if "expire_segments c bounds fresh io segs (retire_expired_segment seg st) (removed + (length (sg_spans seg) - length ?left)) = (st', Some removed')" "?left = []"
    using go [OF that(1), of "[]"] that(2) Cons.prems(2) addr(1)
    by (simp add: retire_expired_segment_def replace_held_at)
  let ?A = "case bounds seg of Some (min_end, max_end) \<Rightarrow> min_end \<ge> latest_cutoff c | None \<Rightarrow> False"
  let ?B = "(case (retire_bound c, bounds seg) of (Some bound, Some (min_end, max_end)) \<Rightarrow> max_end < bound | _ \<Rightarrow> False) \<and> sg_spans seg \<noteq> []"
  have ends: "min_end \<le> end_time_ns s \<and> end_time_ns s \<le> max_end" if "bounds seg = Some (min_end, max_end)" "s \<in> set (sg_spans seg)" for s min_end max_end
    using Cons.prems(3) that by (auto simp: sound_bounds_def)
  note run = Cons.prems(1) [unfolded expire_segments.simps Let_def]
  show ?case
  proof (cases ?A)
    case True
    then obtain min_end max_end where bd: "bounds seg = Some (min_end, max_end)" "min_end \<ge> latest_cutoff c" by (auto split: option.splits)
    have "\<not> ?expired s" if "s \<in> set (sg_spans seg)" for s
      using latest_cutoff_sound [of c s] bd(2) ends [OF bd(1) that] by force
    then have "?left = sg_spans seg" by (simp add: filter_id_conv)
    then show ?thesis by (rule keep_all [OF run [unfolded if_P [OF True]]])
  next
    case A: False
    note run = run [unfolded if_not_P [OF A]]
    show ?thesis
    proof (cases ?B)
      case True
      then obtain r min_end max_end where bd: "retire_bound c = Some r" "bounds seg = Some (min_end, max_end)" "max_end < r"
        by (auto split: option.splits)
      have "?expired s" if "s \<in> set (sg_spans seg)" for s
        using retire_bound_sound [OF bd(1), of s] bd(3) ends [OF bd(2) that] by force
      then have left: "?left = []" by (simp add: filter_empty_conv)
      then show ?thesis using run [unfolded if_P [OF True]] by (intro retire) (simp_all split: if_splits)
    next
      case B: False
      note run = run [unfolded if_not_P [OF B]]
      show ?thesis
      proof (cases "length ?left = length (sg_spans seg)")
        case True
        then have "?left = sg_spans seg" by (metis filter_id_conv length_filter_less less_irrefl)
        then show ?thesis by (rule keep_all [OF run [unfolded if_P [OF True]]])
      next
        case len: False
        note run = run [unfolded if_not_P [OF len]]
        show ?thesis
        proof (cases "?left = []")
          case True
          then show ?thesis using run [unfolded if_P [OF True]] by (intro retire) (simp_all split: if_splits)
        next
          case False
          let ?new = "\<lparr>sg_addr = fst (fresh seg), sg_id = sg_id seg, sg_bytes = snd (fresh seg), sg_spans = sort_spans ?left\<rparr>"
          have some: "expire_segments c bounds fresh io segs (rewrite_expired_segment seg ?new st)
              (removed + (length (sg_spans seg) - length ?left)) = (st', Some removed')"
            using run [unfolded if_not_P [OF False]] by (cases "rewrite_outcome io (sg_id seg)") simp_all
          have "fst (fresh seg) \<notin> sg_addr ` set segs" using Cons.prems(6) [of seg] by auto
          then show ?thesis
            using go [OF some, of "[?new]"] Cons.prems(2) addr(1)
            by (simp add: rewrite_expired_segment_def replace_held_at sort_spans_def)
        qed
      qed
    qed
  qed
qed simp

lemma expire_buffer_exact:
  assumes "expire_buffer c rewrite_ok st = (st', Some removed)"
  shows "map snd (wb_spans (writer st')) = filter (\<lambda>s. \<not> expired_span c s) (map snd (wb_spans (writer st)))"
    "removed = length (wb_spans (writer st)) - length (wb_spans (writer st'))" "segments st' = segments st"
proof -
  let ?hs = "wb_spans (writer st)" and ?e = "\<lambda>h. expired_span c (snd h)"
  have sum: "length (filter ?e ?hs) + length (filter (\<lambda>h. \<not> ?e h) ?hs) = length ?hs" by (rule sum_length_filter_compl)
  have "removed = length (filter ?e ?hs)" and spans: "wb_spans (writer st') = filter (\<lambda>h. \<not> ?e h) ?hs"
    and segs: "segments st' = segments st"
    using assms by (auto simp: expire_buffer_def wb_retain_def Let_def filter_empty_conv filter_id_conv split: if_splits)
  then show "map snd (wb_spans (writer st')) = filter (\<lambda>s. \<not> expired_span c s) (map snd ?hs)"
    "removed = length ?hs - length (wb_spans (writer st'))" "segments st' = segments st"
    using sum by (simp_all add: filter_map comp_def)
qed

text \<open>C4: a deletion that reports success removed exactly what its policy expires. In every live segment, in
  place and in order, and in the buffer, each version whose tenant's cutoff lies past its end is gone and
  every other version is kept, though segments were skipped or retired unread on the word of their rollups,
  and the count returned is the number of versions removed.\<close>

theorem expiry_removes_exactly_the_expired:
  assumes "expire_by_policy c bounds fresh io st = (st', Some removed)"
    and "sound_bounds bounds (segments st)" and "distinct (map sg_addr (segments st))"
    and "list_all (\<lambda>seg. fst (fresh seg) \<notin> sg_addr ` set (segments st)) (segments st)"
  shows "stored (segments st') = unexpired c (stored (segments st))
    \<and> map snd (wb_spans (writer st')) = filter (\<lambda>s. \<not> expired_span c s) (map snd (wb_spans (writer st)))
    \<and> removed = (length (wb_spans (writer st)) - length (wb_spans (writer st')))
        + (size (stored (segments st)) - size (stored (segments st')))
    \<and> subseq (map sg_id (segments st')) (map sg_id (segments st))"
proof -
  obtain st1 removed1 where b: "expire_buffer c (log_rewrite_ok io) st = (st1, Some removed1)"
    and s: "expire_segments c bounds fresh io (segments st1) st1 removed1 = (st', Some removed)"
    using assms(1) by (auto simp: expire_by_policy_def split: prod.splits option.splits)
  note B = expire_buffer_exact [OF b]
  have "fst (fresh seg) \<noteq> sg_addr h" if "seg \<in> set (segments st1)" "h \<in> set (segments st1)" for seg h
    using assms(4) that unfolding B(3) by (auto simp: list_all_iff)
  from expire_segments_exact [OF s, of "[]"] this obtain kept' where
    "segments st' = kept'" "stored kept' = unexpired c (stored (segments st1))"
    "removed = removed1 + (size (stored (segments st1)) - size (stored kept'))" "subseq (map sg_id kept') (map sg_id (segments st1))"
    "writer st' = writer st1"
    using assms(2,3) B(3) by auto
  then show ?thesis using B by auto
qed

text \<open>Two tenants on different windows share a segment; a third is exempt.\<close>

definition w_ended :: "u8 \<Rightarrow> bytes \<Rightarrow> u64 \<Rightarrow> span" where
  "w_ended i t e = w_span 0 0\<lparr>span_id := [i], tenant := t, end_time_ns := e\<rparr>"

definition w_policy :: expiry_cutoffs where
  "w_policy = \<lparr>ec_default = Some 50, ec_tenants = [([97], Some 10), ([98], None)]\<rparr>"

definition w_mixed :: seg_handle where
  "w_mixed = \<lparr>sg_addr = 1, sg_id = 0, sg_bytes = 9, sg_spans = [w_ended 1 [97] 20, w_ended 2 [98] 20, w_ended 3 [] 20]\<rparr>"

definition w_retention :: store where
  "w_retention = empty_store\<lparr>segments := [w_mixed], disk := [entry_of w_mixed], next_segment := 1\<rparr>"

definition w_io :: expiry_io where
  "w_io = \<lparr>log_rewrite_ok = True, rewrite_outcome = (\<lambda>n. Written), unlink_ok = (\<lambda>n. True)\<rparr>"

theorem expiry_removes_exactly_the_expired_witness:
  "stored (segments (fst (expire_by_policy w_policy (\<lambda>h. Some (20, 20)) (\<lambda>h. (7, 6)) w_io w_retention)))
     = {#(0, w_ended 1 [97] 20), (0, w_ended 2 [98] 20)#}"
proof -
  have neq: "latest_cutoff w_policy = 50" "retire_bound w_policy = None"
    by (simp_all add: latest_cutoff_def retire_bound_def w_policy_def configured_def map_filter_def)
  have ex: "expired_span w_policy (w_ended 1 [97] 20) = False" "expired_span w_policy (w_ended 2 [98] 20) = False"
    "expired_span w_policy (w_ended 3 [] 20) = True"
    by (simp_all add: expired_span_def cutoff_for_def w_policy_def w_ended_def w_span_def)
  have "\<exists>st' removed. expire_by_policy w_policy (\<lambda>h. Some (20, 20)) (\<lambda>h. (7, 6)) w_io w_retention = (st', Some removed)"
    by (simp add: expire_by_policy_def expire_buffer_def w_retention_def empty_store_def wb_default_def neq w_mixed_def w_io_def ex)
  then obtain st' removed where e: "expire_by_policy w_policy (\<lambda>h. Some (20, 20)) (\<lambda>h. (7, 6)) w_io w_retention = (st', Some removed)"
    by blast
  have segs: "segments w_retention = [w_mixed]" by (simp add: w_retention_def)
  have "stored (segments st') = unexpired w_policy (stored (segments w_retention))"
    by (rule conjunct1 [OF expiry_removes_exactly_the_expired [OF e]])
      (simp_all add: segs sound_bounds_def w_mixed_def w_ended_def)
  then show ?thesis by (simp add: e segs w_mixed_def ex)
qed

end
