(* ===== verification/Store_Limits.thy ===== *)
theory Store_Limits
  imports Expiry
begin

text \<open>
  Three histories the guarantees of the store do not survive: what the side conditions of the machine keep
  out, and what a deletion does to a key with more than one stored version. Each is run on the definitions.
\<close>

section \<open>A journal left by a merge that never was\<close>

text \<open>A merge of segments 0 and 1 whose journal write reports an error leaves the journal behind and goes no
  further; segment 2 was to be its output. Segment 3 is sealed, segments 1 and 3 are merged into 4 and
  unlinked. On reopening, the first journal finds its output missing and one of its inputs gone, concludes
  that its merge had committed, and deletes the other input, which is live.\<close>

definition w_leaf :: "nat \<Rightarrow> seg_handle" where
  "w_leaf i = \<lparr>sg_addr = i, sg_id = i, sg_bytes = 6, sg_spans = [w_span i 0]\<rparr>"

definition w_two_segments :: store where
  "w_two_segments = empty_store\<lparr>segments := [w_leaf 0, w_leaf 1], disk := [entry_of (w_leaf 0), entry_of (w_leaf 1)], next_segment := 2\<rparr>"

definition w_torn :: store where
  "w_torn = the (merge_pin w_settings 9 (\<lambda>segs. Some 2) LeftBehind w_two_segments)"

definition w_third :: store where
  "w_third = the (reconcile_after_publish 0 False True (the (seal_publish (the (seal_write Written 3 6
      (the (seal_drain (admit 0 [100] [w_span 3 0] w_torn))))))))"

definition w_merged :: store where
  "w_merged = the (merge_publish (the (merge_write Written 4 9 (the (merge_pin w_settings 9 (\<lambda>segs. Some 2) Written w_third)))))"

definition w_after :: store where
  "w_after = the (merge_finish True (the (merge_unlink True (the (merge_unlink True w_merged)))))"

lemma w_leaf_chunks:
  "merge_chunks [w_leaf 0, w_leaf 1] w_settings = [2]"
  "merge_chunks [w_leaf 1, \<lparr>sg_addr = 3, sg_id = 3, sg_bytes = 6, sg_spans = [w_span 3 0]\<rparr>] w_settings = [2]"
  by (simp_all add: merge_chunks_def w_leaf_def w_settings_def saturating_add_def)

lemma w_torn_eq:
  "w_torn = w_two_segments\<lparr>next_segment := 3, journals := [\<lparr>j_inputs = [0, 1], j_outputs = [2]\<rparr>]\<rparr>"
  using w_leaf_chunks(1)
  by (simp add: w_torn_def merge_pin_def Let_def w_two_segments_def empty_store_def journal_of_def) (simp add: w_leaf_def)

lemma w_third_eq:
  "w_third = \<lparr>writer = wb_default, segments = [w_leaf 0, w_leaf 1, w_leaf 3], next_segment = 4,
     disk = [entry_of (w_leaf 3), entry_of (w_leaf 0), entry_of (w_leaf 1)], unsynced = [],
     journals = [\<lparr>j_inputs = [0, 1], j_outputs = [2]\<rparr>], log = [], sealing = None, merging = None\<rparr>"
  unfolding w_third_def w_torn_eq w_two_segments_def w_leaf_def entry_of_def
  by (simp add: w_eval)

lemma w_merged_eq:
  "w_merged = \<lparr>writer = wb_default, segments = [w_leaf 0, \<lparr>sg_addr = 4, sg_id = 4, sg_bytes = 9, sg_spans = merge_group [w_leaf 1, w_leaf 3]\<rparr>],
     next_segment = 5,
     disk = [(4, 9, merge_group [w_leaf 1, w_leaf 3]), entry_of (w_leaf 3), entry_of (w_leaf 0), entry_of (w_leaf 1)], unsynced = [],
     journals = [\<lparr>j_inputs = [0, 1], j_outputs = [2]\<rparr>, \<lparr>j_inputs = [1, 3], j_outputs = [4]\<rparr>], log = [], sealing = None,
     merging = Some \<lparr>m_inputs = [w_leaf 1, w_leaf 3], m_chunks = [2], m_first = 4,
       m_outputs = [\<lparr>sg_addr = 4, sg_id = 4, sg_bytes = 9, sg_spans = merge_group [w_leaf 1, w_leaf 3]\<rparr>], m_phase = Deleting 0\<rparr>\<rparr>"
proof -
  have chunks: "merge_chunks [w_leaf 1, w_leaf 3] w_settings = [2]" using w_leaf_chunks(2) by (simp add: w_leaf_def)
  have pos: "run_position [w_leaf 0, w_leaf 1, w_leaf 3] [w_leaf 1, w_leaf 3] = Some 1"
    by (simp add: run_position_def w_leaf_def)
  have ids: "sg_id (w_leaf i) = i" for i by (simp add: w_leaf_def)
  show ?thesis
    using chunks pos
    by (simp add: w_merged_def w_third_eq merge_pin_def merge_write_def merge_publish_def write_segment_def exists_file_def journal_of_def
        entry_of_def ids Let_def)
qed

lemma w_after_eq:
  "w_after = \<lparr>writer = wb_default, segments = [w_leaf 0, \<lparr>sg_addr = 4, sg_id = 4, sg_bytes = 9, sg_spans = merge_group [w_leaf 1, w_leaf 3]\<rparr>],
     next_segment = 5, disk = [(4, 9, merge_group [w_leaf 1, w_leaf 3]), entry_of (w_leaf 0)], unsynced = [],
     journals = [\<lparr>j_inputs = [0, 1], j_outputs = [2]\<rparr>], log = [], sealing = None, merging = None\<rparr>"
  by (simp add: w_after_def w_merged_eq merge_unlink_def merge_finish_def unlink_step_def unlink_file_def journal_order_def
      entry_of_def w_leaf_def)

text \<open>C32: a merge journal whose merge never ran stays on disk; a later merge consumes one of its inputs. The next open takes
  the missing input for proof that the merge committed and unlinks the other input: a span readers saw is lost.\<close>

theorem a_leftover_journal_deletes_a_live_segment:
  "visible w_after (key_of (w_span 0 0)) = Some (w_span 0 0)
    \<and> visible (crash_and_open 0 [] w_after) (key_of (w_span 0 0)) = None"
proof
  have gone: "latest_by key_of (merge_group [w_leaf 1, w_leaf 3]) (key_of (w_span 0 0)) = None"
    unfolding merge_group_spec(2) latest_by_None by (simp add: w_leaf_def w_span_def key_of_def)
  have "visible w_after = latest_by key_of (w_span 0 0 # merge_group [w_leaf 1, w_leaf 3])"
    by (simp add: w_after_eq visible_def segments_view_def wb_map_def wb_default_def w_leaf_def)
  then show "visible w_after (key_of (w_span 0 0)) = Some (w_span 0 0)"
    using gone latest_by_append [of key_of "[w_span 0 0]" "merge_group [w_leaf 1, w_leaf 3]"]
    by (simp add: map_add_def latest_by_def)
  have "recover_supersede_markers (journals w_after) (disk w_after) = [(4, 9, merge_group [w_leaf 1, w_leaf 3])]"
    by (simp add: w_after_eq recover_supersede_markers_def recover_merge_def exists_file_def entry_of_def w_leaf_def unlink_file_def)
  then have "segments_view (segments (crash_and_open 0 [] w_after)) = latest_by key_of (merge_group [w_leaf 1, w_leaf 3])"
    by (simp add: crash_and_open_def open_store_def Let_def segments_view_load entries_view_def)
  moreover have "wb_map (writer (crash_and_open 0 [] w_after)) = Map.empty"
    by (simp add: crash_and_open_def open_store_def Let_def w_after_eq puts_def)
  ultimately show "visible (crash_and_open 0 [] w_after) (key_of (w_span 0 0)) = None"
    using gone by (simp add: visible_def)
qed

section \<open>A deletion that does not reach the log\<close>

text \<open>A span is sealed while another is admitted, so the log keeps both frames. The first then expires: the
  buffer holds nothing expired, the log is not rewritten, and the reopened store has the span back.\<close>

definition w_old :: span where "w_old = w_span 1 10"
definition w_new :: span where "w_new = w_span 2 100"

definition w_log_kept :: store where
  "w_log_kept = the (reconcile_after_publish 0 False True (the (seal_publish (the (seal_write Written 3 6
      (admit 0 [101] [w_new] (the (seal_drain (admit 0 [100] [w_old] empty_store)))))))))"

definition w_expired :: "store \<times> nat option" where
  "w_expired = expire_by_policy (single_cutoff 50) (\<lambda>h. None) (\<lambda>h. (9, 9)) w_io w_log_kept"

lemma w_log_kept_eq:
  "w_log_kept = \<lparr>writer = \<lparr>wb_spans = [(101, w_new)], wb_index = [key_of w_new \<mapsto> 0], wb_upserts = 1, wb_oldest_at = Some 0\<rparr>,
     segments = [\<lparr>sg_addr = 3, sg_id = 0, sg_bytes = 6, sg_spans = [w_old]\<rparr>], next_segment = 1, disk = [(0, 6, [w_old])], unsynced = [],
     journals = [], log = [w_old, w_new], sealing = None, merging = None\<rparr>"
  unfolding w_log_kept_def w_old_def w_new_def by (simp add: w_eval)

lemma retire_bound_single: "retire_bound (single_cutoff c) = Some c"
  by (simp add: retire_bound_def single_cutoff_def map_filter_def)

lemma w_expired_eq:
  "w_expired = (w_log_kept\<lparr>segments := [], disk := []\<rparr>, Some 1)"
proof -
  have e: "expired_span (single_cutoff 50) w_old" "\<not> expired_span (single_cutoff 50) w_new"
    by (simp_all add: expired_span_def cutoff_for_def single_cutoff_def w_old_def w_new_def w_span_def)
  show ?thesis
    by (simp add: w_expired_def w_log_kept_eq expire_by_policy_def expire_buffer_def e Let_def w_io_def retire_bound_single
        retire_expired_segment_def unlink_file_def)
qed

text \<open>C33: a span that expired from its segment is still in the log, which the expiry did not rewrite. The next open
  replays it, and readers find the span the policy had deleted.\<close>

theorem an_expired_span_returns_from_the_log:
  "snd w_expired = Some 1
    \<and> visible (fst w_expired) (key_of w_old) = None
    \<and> visible (crash_and_open 0 [] (fst w_expired)) (key_of w_old) = Some w_old"
proof (intro conjI)
  have ne: "key_of w_new \<noteq> key_of w_old" by (simp add: w_old_def w_new_def w_span_def key_of_def)
  show "snd w_expired = Some 1" by (simp add: w_expired_eq)
  show "visible (fst w_expired) (key_of w_old) = None"
    using ne by (simp add: w_expired_eq w_log_kept_eq visible_def segments_view_def wb_map_def latest_by_def map_add_def)
  have "segments_view (segments (crash_and_open 0 [] (fst w_expired))) = Map.empty"
    by (simp add: w_expired_eq w_log_kept_eq crash_and_open_def open_store_def Let_def segments_view_load entries_view_def
        recover_supersede_markers_def)
  moreover have "wb_map (writer (crash_and_open 0 [] (fst w_expired))) = latest_by key_of [w_old, w_new]"
    using replay_ok(2) [of 0 "[w_old, w_new]"]
    by (simp add: w_expired_eq w_log_kept_eq crash_and_open_def open_store_def Let_def)
  ultimately show "visible (crash_and_open 0 [] (fst w_expired)) (key_of w_old) = Some w_old"
    using ne by (simp add: visible_def latest_by_def map_add_def)
qed

section \<open>A deletion that uncovers a superseded version\<close>

text \<open>A span re-admitted with an earlier end: the newer version expires, the older one does not, and it is what
  readers find afterwards.\<close>

definition w_superseded :: store where
  "w_superseded = admit 0 [101] [w_span 7 10] (the (reconcile_after_publish 0 False True (the (seal_publish (the (seal_write Written 3 6
      (the (seal_drain (admit 0 [100] [w_span 7 100] empty_store)))))))))"

lemma w_superseded_eq:
  "w_superseded = \<lparr>writer = \<lparr>wb_spans = [(101, w_span 7 10)], wb_index = [key_of (w_span 7 10) \<mapsto> 0], wb_upserts = 1, wb_oldest_at = Some 0\<rparr>,
     segments = [\<lparr>sg_addr = 3, sg_id = 0, sg_bytes = 6, sg_spans = [w_span 7 100]\<rparr>], next_segment = 1, disk = [(0, 6, [w_span 7 100])],
     unsynced = [], journals = [], log = [w_span 7 10], sealing = None, merging = None\<rparr>"
  unfolding w_superseded_def by (simp add: w_eval)

theorem expiry_uncovers_a_superseded_version:
  "visible w_superseded (key_of (w_span 7 0)) = Some (w_span 7 10)
    \<and> visible (fst (expire_by_policy (single_cutoff 50) (\<lambda>h. None) (\<lambda>h. (9, 9)) w_io w_superseded)) (key_of (w_span 7 0)) = Some (w_span 7 100)"
proof
  have key: "key_of (w_span 7 i) = key_of (w_span 7 0)" for i by (simp add: w_span_def key_of_def)
  show "visible w_superseded (key_of (w_span 7 0)) = Some (w_span 7 10)"
    by (simp add: w_superseded_eq visible_def segments_view_def wb_map_def latest_by_def map_add_def key [of 10])
  have e: "expired_span (single_cutoff 50) (w_span 7 10)" "\<not> expired_span (single_cutoff 50) (w_span 7 100)"
    by (simp_all add: expired_span_def cutoff_for_def single_cutoff_def w_span_def)
  show "visible (fst (expire_by_policy (single_cutoff 50) (\<lambda>h. None) (\<lambda>h. (9, 9)) w_io w_superseded)) (key_of (w_span 7 0)) = Some (w_span 7 100)"
    by (simp add: w_superseded_eq expire_by_policy_def expire_buffer_def e Let_def w_io_def retire_bound_single wb_retain_def reindex_def
        visible_def segments_view_def wb_map_def latest_by_def map_add_def key [of 100])
qed

end
