(* ===== verification/Semconv.thy ===== *)
theory Semconv
  imports Span
begin

text \<open>
  The semantic conventions of model calls (\<open>src/src/semconv.rs\<close>): the attribute keys the engine recognizes, in
  their order of precedence, and the facts one span's attributes yield. \<open>core\<close>'s reading of a float from text
  and \<open>serde_json\<close>'s reading of a number as a float belong to \<open>number_lib\<close>; everything else is written out.
\<close>

section \<open>Text and floats\<close>

text \<open>\<open>str::trim\<close>: the UTF-8 forms of the characters with the property \<open>White_Space\<close>.\<close>

definition white_spaces :: "bytes list" where
  "white_spaces =
     map (\<lambda>b. [b]) [9, 10, 11, 12, 13, 32] @ [[0xC2, 0x85], [0xC2, 0xA0], [0xE1, 0x9A, 0x80]]
     @ map (\<lambda>b. [0xE2, 0x80, b]) ([0x80, 0x81, 0x82, 0x83, 0x84, 0x85, 0x86, 0x87, 0x88, 0x89, 0x8A] @ [0xA8, 0xA9, 0xAF])
     @ [[0xE2, 0x81, 0x9F], [0xE3, 0x80, 0x80]]"

fun strip_first :: "bytes list \<Rightarrow> bytes \<Rightarrow> bytes option" where
  "strip_first [] xs = None"
| "strip_first (w # ws) xs = (if w \<noteq> [] \<and> take (length w) xs = w then Some (drop (length w) xs) else strip_first ws xs)"

lemma strip_first_shorter: "strip_first ws xs = Some ys \<Longrightarrow> length ys < length xs"
proof (induction ws)
  case (Cons w ws)
  show ?case
  proof (cases "w \<noteq> [] \<and> take (length w) xs = w")
    case True
    then have "length w \<le> length xs" by (metis length_take min.cobounded1)
    then show ?thesis using Cons.prems True by (cases w) auto
  qed (use Cons in auto)
qed simp

function strip_all :: "bytes list \<Rightarrow> bytes \<Rightarrow> bytes" where
  "strip_all ws xs = (case strip_first ws xs of None \<Rightarrow> xs | Some ys \<Rightarrow> strip_all ws ys)"
  by pat_completeness auto
termination
  by (relation "measure (\<lambda>(ws, xs). length xs)") (auto dest: strip_first_shorter)

declare strip_all.simps [simp del]

definition trim :: "bytes \<Rightarrow> bytes" where
  "trim text = rev (strip_all (map rev white_spaces) (rev (strip_all white_spaces text)))"

text \<open>\<open>str::parse::<u64>\<close>: digits after at most one plus sign, refused on overflow.\<close>

fun digits_value :: "bytes \<Rightarrow> nat \<Rightarrow> nat option" where
  "digits_value [] n = Some n"
| "digits_value (b # bs) n =
     (if 48 \<le> b \<and> b \<le> 57
      then (let m = 10 * n + unat (b - 48) in if m < 2 ^ 64 then digits_value bs m else None)
      else None)"

definition parse_u64 :: "bytes \<Rightarrow> u64 option" where
  "parse_u64 text =
     (let digits = (if text \<noteq> [] \<and> hd text = 43 then tl text else text)
      in if digits = [] then None else map_option of_nat (digits_value digits 0))"

text \<open>An \<open>f64\<close> by its bits: \<open>is_finite\<close>, and \<open>value.max(0.0) as u64\<close>, which truncates and saturates.\<close>

definition f64_exponent :: "f64 \<Rightarrow> nat" where
  "f64_exponent v = unat (drop_bit 52 v AND 0x7FF)"

definition f64_is_finite :: "f64 \<Rightarrow> bool" where
  "f64_is_finite v \<longleftrightarrow> f64_exponent v \<noteq> 0x7FF"

definition f64_to_u64 :: "f64 \<Rightarrow> u64" where
  "f64_to_u64 v =
     (let frac = unat (v AND 0xFFFFFFFFFFFFF); e = f64_exponent v; m = 2 ^ 52 + frac in
      if bit v 63 then 0
      else if e = 0x7FF then (if frac = 0 then - 1 else 0)
      else if e = 0 then 0
      else of_nat (if e \<ge> 1075 then min (m * 2 ^ (e - 1075)) (2 ^ 64 - 1) else m div 2 ^ (1075 - e)))"

section \<open>Reading an attribute\<close>

definition attr_str :: "number_lib \<Rightarrow> json_map \<Rightarrow> bytes \<Rightarrow> bytes option" where
  "attr_str lib attrs key =
     (case map_of attrs key of
        Some (JString text) \<Rightarrow> if text \<noteq> [] then Some text else None
      | Some (JNumber n) \<Rightarrow> Some (number_text lib n)
      | _ \<Rightarrow> None)"

definition attr_u64 :: "number_lib \<Rightarrow> json_map \<Rightarrow> bytes \<Rightarrow> u64 option" where
  "attr_u64 lib attrs key =
     (case map_of attrs key of
        Some (JNumber (PosInt n)) \<Rightarrow> Some n
      | Some (JNumber n) \<Rightarrow> map_option f64_to_u64 (number_f64 lib n)
      | Some (JString text) \<Rightarrow> parse_u64 (trim text)
      | _ \<Rightarrow> None)"

definition attr_f64 :: "number_lib \<Rightarrow> json_map \<Rightarrow> bytes \<Rightarrow> f64 option" where
  "attr_f64 lib attrs key =
     (let value = (case map_of attrs key of
                     Some (JNumber n) \<Rightarrow> number_f64 lib n
                   | Some (JString text) \<Rightarrow> parse_f64 lib (trim text)
                   | _ \<Rightarrow> None)
      in case value of Some v \<Rightarrow> if f64_is_finite v then Some v else None | None \<Rightarrow> None)"

text \<open>\<open>keys.iter().find_map(..)\<close>\<close>

fun find_map :: "('a \<Rightarrow> 'b option) \<Rightarrow> 'a list \<Rightarrow> 'b option" where
  "find_map f [] = None"
| "find_map f (x # xs) = (case f x of Some y \<Rightarrow> Some y | None \<Rightarrow> find_map f xs)"

definition first_str :: "number_lib \<Rightarrow> json_map \<Rightarrow> bytes list \<Rightarrow> bytes option" where
  "first_str lib attrs keys = find_map (attr_str lib attrs) keys"

definition first_u64 :: "number_lib \<Rightarrow> json_map \<Rightarrow> bytes list \<Rightarrow> u64 option" where
  "first_u64 lib attrs keys = find_map (attr_u64 lib attrs) keys"

definition first_f64 :: "number_lib \<Rightarrow> json_map \<Rightarrow> bytes list \<Rightarrow> f64 option" where
  "first_f64 lib attrs keys = find_map (attr_f64 lib attrs) keys"

section \<open>The keys\<close>

definition MODEL_KEYS :: "bytes list" where
  "MODEL_KEYS = map ascii [''gen_ai.response.model'', ''gen_ai.request.model'', ''llm.model'']"

definition PROVIDER_KEYS :: "bytes list" where
  "PROVIDER_KEYS = map ascii [''gen_ai.provider.name'', ''gen_ai.system'']"

definition PROMPT_KEYS :: "bytes list" where
  "PROMPT_KEYS = map ascii [''gen_ai.usage.input_tokens'', ''gen_ai.usage.prompt_tokens'', ''llm.prompt_tokens'']"

definition COMPLETION_KEYS :: "bytes list" where
  "COMPLETION_KEYS = map ascii [''gen_ai.usage.output_tokens'', ''gen_ai.usage.completion_tokens'', ''llm.completion_tokens'']"

definition TOTAL_KEYS :: "bytes list" where
  "TOTAL_KEYS = map ascii [''llm.usage.total_tokens'', ''gen_ai.usage.total_tokens'', ''llm.total_tokens'']"

definition COST_KEYS :: "bytes list" where
  "COST_KEYS = map ascii [''llm.cost_usd'', ''gen_ai.usage.cost'']"

definition CACHE_READ_KEYS :: "bytes list" where
  "CACHE_READ_KEYS = map ascii [''gen_ai.usage.cache_read.input_tokens'', ''gen_ai.usage.cache_read_input_tokens'']"

definition CACHE_CREATION_KEYS :: "bytes list" where
  "CACHE_CREATION_KEYS = map ascii [''gen_ai.usage.cache_creation.input_tokens'', ''gen_ai.usage.cache_creation_input_tokens'']"

definition SESSION_KEYS :: "bytes list" where
  "SESSION_KEYS = map ascii [''session.id'', ''gen_ai.conversation.id'',
     ''traceloop.association.properties.session_id'', ''traceloop.association.properties.chat_id'']"

definition OUTCOME_KEYS :: "bytes list" where
  "OUTCOME_KEYS = map ascii [''session.outcome'', ''traceloop.association.properties.outcome'']"

definition GOAL_KEYS :: "bytes list" where
  "GOAL_KEYS = map ascii [''session.goal'', ''traceloop.association.properties.goal'']"

section \<open>Facts\<close>

record llm_facts =
  lf_is_llm :: bool
  lf_model :: "bytes option"
  lf_provider :: "bytes option"
  lf_session :: "bytes option"
  lf_session_key :: "bytes option"
  lf_prompt_tokens :: "u64 option"
  lf_completion_tokens :: "u64 option"
  lf_total_tokens :: "u64 option"
  lf_cost_usd :: "f64 option"
  lf_cost_derived :: bool
  lf_cache_read_tokens :: "u64 option"
  lf_cache_creation_tokens :: "u64 option"

definition facts :: "number_lib \<Rightarrow> json_map \<Rightarrow> llm_facts" where
  "facts lib attrs =
     (let model = first_str lib attrs MODEL_KEYS;
          provider = first_str lib attrs PROVIDER_KEYS;
          prompt_tokens = first_u64 lib attrs PROMPT_KEYS;
          completion_tokens = first_u64 lib attrs COMPLETION_KEYS;
          total_tokens = first_u64 lib attrs TOTAL_KEYS;
          found = find_map (\<lambda>key. map_option (\<lambda>v. (v, key)) (attr_str lib attrs key)) SESSION_KEYS
      in \<lparr>lf_is_llm = (model \<noteq> None \<or> provider \<noteq> None \<or> prompt_tokens \<noteq> None \<or> completion_tokens \<noteq> None
            \<or> total_tokens \<noteq> None \<or> map_of attrs (ascii ''gen_ai.operation.name'') \<noteq> None
            \<or> map_of attrs (ascii ''llm.request.type'') \<noteq> None
            \<or> attr_str lib attrs (ascii ''traceloop.span.kind'') = Some (ascii ''llm'')),
          lf_model = model, lf_provider = provider,
          lf_session = map_option fst found, lf_session_key = map_option snd found,
          lf_prompt_tokens = prompt_tokens, lf_completion_tokens = completion_tokens, lf_total_tokens = total_tokens,
          lf_cost_usd = first_f64 lib attrs COST_KEYS, lf_cost_derived = False,
          lf_cache_read_tokens = first_u64 lib attrs CACHE_READ_KEYS,
          lf_cache_creation_tokens = first_u64 lib attrs CACHE_CREATION_KEYS\<rparr>)"

definition span_outcome :: "number_lib \<Rightarrow> json_map \<Rightarrow> bytes option" where
  "span_outcome lib attrs = first_str lib attrs OUTCOME_KEYS"

definition span_goal :: "number_lib \<Rightarrow> json_map \<Rightarrow> bytes option" where
  "span_goal lib attrs = first_str lib attrs GOAL_KEYS"

definition u64_saturating_add :: "u64 \<Rightarrow> u64 \<Rightarrow> u64" where
  "u64_saturating_add a b = (if unat a + unat b < 2 ^ 64 then a + b else - 1)"

definition or_zero :: "u64 option \<Rightarrow> u64" where
  "or_zero x = (case x of Some n \<Rightarrow> n | None \<Rightarrow> 0)"

definition facts_total :: "llm_facts \<Rightarrow> u64" where
  "facts_total f =
     (case lf_total_tokens f of
        Some n \<Rightarrow> n
      | None \<Rightarrow> u64_saturating_add (or_zero (lf_prompt_tokens f)) (or_zero (lf_completion_tokens f)))"

definition cached_tokens :: "llm_facts \<Rightarrow> u64" where
  "cached_tokens f = u64_saturating_add (or_zero (lf_cache_read_tokens f)) (or_zero (lf_cache_creation_tokens f))"

definition context_tokens :: "llm_facts \<Rightarrow> u64 option" where
  "context_tokens f =
     (let cached = cached_tokens f in
      case lf_prompt_tokens f of
        None \<Rightarrow> None
      | Some prompt \<Rightarrow>
          if cached = 0 then Some prompt
          else if lf_provider f \<in> {Some (ascii ''anthropic''), Some (ascii ''aws.bedrock''), Some (ascii ''gcp.vertex_ai'')}
               then Some (u64_saturating_add prompt cached)
          else if lf_provider f \<in> {Some (ascii ''openai''), Some (ascii ''azure.ai.openai'')} then Some prompt
          else None)"

definition context_is_ambiguous :: "llm_facts \<Rightarrow> bool" where
  "context_is_ambiguous f \<longleftrightarrow> lf_prompt_tokens f \<noteq> None \<and> cached_tokens f > 0 \<and> context_tokens f = None"

section \<open>What the facts say\<close>

lemma find_map_Some: "find_map f xs = Some y \<longleftrightarrow> (\<exists>us x vs. xs = us @ x # vs \<and> f x = Some y \<and> (\<forall>u \<in> set us. f u = None))"
proof (induction xs)
  case (Cons a xs)
  show ?case
  proof (cases "f a")
    case None
    have "(\<exists>us x vs. a # xs = us @ x # vs \<and> f x = Some y \<and> (\<forall>u \<in> set us. f u = None))
        \<longleftrightarrow> (\<exists>us x vs. xs = us @ x # vs \<and> f x = Some y \<and> (\<forall>u \<in> set us. f u = None))" (is "?l \<longleftrightarrow> ?r")
    proof
      assume ?l
      then obtain us x vs where d: "a # xs = us @ x # vs" "f x = Some y" "\<forall>u \<in> set us. f u = None" by blast
      then show ?r using None by (cases us) auto
    next
      assume ?r
      then obtain us x vs where "xs = us @ x # vs" "f x = Some y" "\<forall>u \<in> set us. f u = None" by blast
      then show ?l using None by (intro exI [of _ "a # us"] exI [of _ x] exI [of _ vs]) simp
    qed
    then show ?thesis using Cons.IH None by simp
  next
    case (Some z)
    show ?thesis (is "?l \<longleftrightarrow> ?r")
    proof
      assume ?l
      then show ?r using Some by (intro exI [of _ "[]"] exI [of _ a] exI [of _ xs]) simp
    next
      assume ?r
      then obtain us x vs where d: "a # xs = us @ x # vs" "f x = Some y" "\<forall>u \<in> set us. f u = None" by blast
      then show ?l using Some by (cases us) auto
    qed
  qed
qed simp

lemma find_map_None: "find_map f xs = None \<longleftrightarrow> (\<forall>x \<in> set xs. f x = None)"
  by (induction xs) (auto split: option.splits)

text \<open>The session is the text of the first recognized key that has one, and the key reported is that key.\<close>

lemma session_precedence:
  "lf_session (facts lib attrs) = Some v \<longleftrightarrow>
    (\<exists>us key vs. SESSION_KEYS = us @ key # vs \<and> attr_str lib attrs key = Some v
      \<and> (\<forall>u \<in> set us. attr_str lib attrs u = None))"
  unfolding facts_def Let_def by (force simp: find_map_Some)

lemma find_map_holds: "find_map f xs = Some y \<Longrightarrow> \<exists>x \<in> set xs. f x = Some y"
  by (induction xs) (auto split: option.splits)

lemma session_key_agrees:
  assumes "lf_session_key (facts lib attrs) = Some key"
  shows "lf_session (facts lib attrs) = attr_str lib attrs key" and "key \<in> set SESSION_KEYS"
proof -
  from assms obtain v where f: "find_map (\<lambda>key. map_option (\<lambda>v. (v, key)) (attr_str lib attrs key)) SESSION_KEYS = Some (v, key)"
    by (auto simp: facts_def Let_def)
  from find_map_holds [OF this] have "key \<in> set SESSION_KEYS" "attr_str lib attrs key = Some v" by auto
  with f show "lf_session (facts lib attrs) = attr_str lib attrs key" "key \<in> set SESSION_KEYS"
    by (simp_all add: facts_def Let_def)
qed

lemma session_first_str: "lf_session (facts lib attrs) = first_str lib attrs SESSION_KEYS"
proof -
  have "map_option fst (find_map (\<lambda>key. map_option (\<lambda>v. (v, key)) (f key)) keys) = find_map f keys" for f :: "bytes \<Rightarrow> bytes option" and keys
    by (induction keys) (auto split: option.split)
  then show ?thesis by (simp add: facts_def Let_def first_str_def)
qed

text \<open>Sums saturate; the context never counts below the prompt, and an unknown provider with cache counters is the
  only prompt without one.\<close>

lemma saturating_add_ge: "a \<le> u64_saturating_add a b" "b \<le> u64_saturating_add a b"
proof -
  have "unat (a + b) = unat a + unat b" if "unat a + unat b < 2 ^ 64"
    using that unat_add_lem [of a b] by simp
  then show "a \<le> u64_saturating_add a b" "b \<le> u64_saturating_add a b"
    unfolding u64_saturating_add_def by (cases "unat a + unat b < 2 ^ 64"; simp add: word_le_nat_alt [of _ "a + b"])+
qed

lemma context_covers_the_prompt: "context_tokens f = Some n \<Longrightarrow> (\<exists>p. lf_prompt_tokens f = Some p \<and> p \<le> n)"
  by (auto simp: context_tokens_def Let_def saturating_add_ge split: option.splits if_splits)

lemma ambiguous_iff:
  "context_is_ambiguous f \<longleftrightarrow> lf_prompt_tokens f \<noteq> None \<and> context_tokens f = None"
  by (auto simp: context_is_ambiguous_def context_tokens_def Let_def word_neq_0_conv split: option.splits if_splits)

lemma f64_to_u64_zero: "f64_to_u64 0 = 0"
  by (simp add: f64_to_u64_def f64_exponent_def)

end
