(* ===== verification/Query_Task.thy ===== *)
theory Query_Task
  imports Span
begin

text \<open>
  The budget of a request (\<open>Deadline\<close> of \<open>src/src/lib.rs\<close>) and what a query reports of its own work
  (\<open>QueryCost\<close>). The query functions thread both through \<open>?\<close>: a task takes them, and returns a value with
  what is left of them, or an error. The clock is seen at the checks alone, and it never runs backwards, so a
  deadline is the number of checks that still pass; without a configured budget every check passes.
\<close>

record run =
  budget :: "nat option"
  segments_examined :: u32
  segments_pruned :: u32

type_synonym 'a task = "run \<Rightarrow> store_error + 'a \<times> run"

definition fresh_run :: "nat option \<Rightarrow> run" where
  "fresh_run deadline = \<lparr>budget = deadline, segments_examined = 0, segments_pruned = 0\<rparr>"

definition give :: "'a \<Rightarrow> 'a task" where
  "give x r = Inr (x, r)"

definition next_do :: "'a task \<Rightarrow> ('a \<Rightarrow> 'b task) \<Rightarrow> 'b task" where
  "next_do m f r = (case m r of Inl e \<Rightarrow> Inl e | Inr (x, r') \<Rightarrow> f x r')"

definition lift_io :: "store_error + 'a \<Rightarrow> 'a task" where
  "lift_io m r = (case m of Inl e \<Rightarrow> Inl e | Inr x \<Rightarrow> Inr (x, r))"

definition DEADLINE_CHECK_INTERVAL :: nat where
  "DEADLINE_CHECK_INTERVAL = 4096"

definition check :: "unit task" where
  "check r =
     (case budget r of
        None \<Rightarrow> Inr ((), r)
      | Some 0 \<Rightarrow> Inl DeadlineExceeded
      | Some (Suc left) \<Rightarrow> Inr ((), r\<lparr>budget := Some left\<rparr>))"

text \<open>The cadence of the per-record loops: a check every \<open>DEADLINE_CHECK_INTERVAL\<close> records; the value is the
  counter after this record.\<close>

definition check_every :: "nat \<Rightarrow> nat task" where
  "check_every since_check =
     (if since_check + 1 \<ge> DEADLINE_CHECK_INTERVAL then next_do check (\<lambda>_. give 0) else give (since_check + 1))"

definition examine_segment :: "unit task" where
  "examine_segment r = Inr ((), r\<lparr>segments_examined := segments_examined r + 1\<rparr>)"

definition prune_segment :: "unit task" where
  "prune_segment r = Inr ((), r\<lparr>segments_pruned := segments_pruned r + 1\<rparr>)"

lemma next_do_cong [fundef_cong]:
  "m r = m' r \<Longrightarrow> (\<And>x r'. m' r = Inr (x, r') \<Longrightarrow> f x r' = f' x r') \<Longrightarrow> next_do m f r = next_do m' f' r"
  by (auto simp: next_do_def split: sum.split)

section \<open>What a task answers\<close>

text \<open>\<open>settles m x\<close>: whatever its budget, the task ends with \<open>x\<close> or is refused for the deadline; without a
  deadline it ends with \<open>x\<close>.\<close>

definition settles :: "'a task \<Rightarrow> store_error + 'a \<Rightarrow> bool" where
  "settles m x \<longleftrightarrow>
     (\<forall>r. budget r \<noteq> None \<and> m r = Inl DeadlineExceeded
        \<or> (case x of Inl e \<Rightarrow> m r = Inl e
           | Inr a \<Rightarrow> \<exists>r'. m r = Inr (a, r') \<and> (budget r = None \<longrightarrow> budget r' = None)))"

abbreviation answers :: "'a task \<Rightarrow> 'a \<Rightarrow> bool" where
  "answers m a \<equiv> settles m (Inr a)"

named_theorems settling

lemma settlesE:
  assumes "settles m x"
  obtains "budget r \<noteq> None" "m r = Inl DeadlineExceeded"
  | e where "x = Inl e" "m r = Inl e"
  | a r' where "x = Inr a" "m r = Inr (a, r')" "budget r = None \<Longrightarrow> budget r' = None"
proof (cases "budget r \<noteq> None \<and> m r = Inl DeadlineExceeded")
  case False
  with assms have s: "case x of Inl e \<Rightarrow> m r = Inl e | Inr a \<Rightarrow> \<exists>r'. m r = Inr (a, r') \<and> (budget r = None \<longrightarrow> budget r' = None)"
    unfolding settles_def by blast
  then show ?thesis using that(2,3) by (cases x) auto
qed (use that(1) in blast)

lemma settlesI:
  assumes "\<And>r. budget r \<noteq> None \<and> m r = Inl DeadlineExceeded
      \<or> (\<exists>e. x = Inl e \<and> m r = Inl e) \<or> (\<exists>a r'. x = Inr a \<and> m r = Inr (a, r') \<and> (budget r = None \<longrightarrow> budget r' = None))"
  shows "settles m x"
  unfolding settles_def using assms by (fastforce split: sum.split)

lemma give_settles [settling]: "answers (give a) a"
  by (rule settlesI) (simp add: give_def)

lemma lift_settles: "settles (lift_io x) x"
  by (rule settlesI) (cases x; simp add: lift_io_def)

lemma lift_answers [settling]: "x = Inr a \<Longrightarrow> answers (lift_io x) a"
  using lift_settles [of x] by simp

lemma check_settles [settling]: "answers check ()"
  by (rule settlesI) (auto simp: check_def split: option.split nat.split)

lemma next_settles:
  assumes "answers m a" and "settles (f a) x"
  shows "settles (next_do m f) x"
proof (rule settlesI)
  fix r
  show "budget r \<noteq> None \<and> next_do m f r = Inl DeadlineExceeded
      \<or> (\<exists>e. x = Inl e \<and> next_do m f r = Inl e)
      \<or> (\<exists>b r'. x = Inr b \<and> next_do m f r = Inr (b, r') \<and> (budget r = None \<longrightarrow> budget r' = None))"
  proof (cases rule: settlesE [OF assms(1), of r])
    case 3
    then have m: "next_do m f r = f a r'" if "m r = Inr (a, r')" for r' using that by (simp add: next_do_def)
    from 3 obtain r' where r': "m r = Inr (a, r')" "budget r = None \<longrightarrow> budget r' = None" by auto
    show ?thesis by (cases rule: settlesE [OF assms(2), of r']) (use m [OF r'(1)] r'(2) in auto)
  qed (auto simp: next_do_def)
qed

lemma next_error:
  assumes "settles m (Inl e)"
  shows "settles (next_do m f) (Inl e)"
proof (rule settlesI)
  fix r
  show "budget r \<noteq> None \<and> next_do m f r = Inl DeadlineExceeded
      \<or> (\<exists>e'. Inl e = Inl e' \<and> next_do m f r = Inl e')
      \<or> (\<exists>b r'. Inl e = Inr b \<and> next_do m f r = Inr (b, r') \<and> (budget r = None \<longrightarrow> budget r' = None))"
    by (cases rule: settlesE [OF assms, of r]) (auto simp: next_do_def)
qed

lemma examine_settles [settling]: "answers examine_segment ()"
  and prune_settles [settling]: "answers prune_segment ()"
  by (rule settlesI; simp add: examine_segment_def prune_segment_def)+

text \<open>The counter of \<open>check_every\<close> is no part of an answer.\<close>

lemma every_settles:
  assumes "\<And>n. settles (f n) x"
  shows "settles (next_do (check_every n) f) x"
proof (cases "n + 1 \<ge> DEADLINE_CHECK_INTERVAL")
  case True
  then have "check_every n = next_do check (\<lambda>_. give 0)" by (simp add: check_every_def)
  then show ?thesis by (metis assms next_settles check_settles give_settles)
next
  case False
  then have "check_every n = give (n + 1)" by (simp add: check_every_def)
  then show ?thesis by (metis assms next_settles give_settles)
qed

lemma settles_unbudgeted:
  assumes "settles m x" and "budget r = None"
  shows "(case m r of Inl e \<Rightarrow> Inl e | Inr (a, r') \<Rightarrow> Inr a) = x"
  by (cases rule: settlesE [OF assms(1), of r]) (use assms(2) in simp_all)

lemma settles_budgeted:
  assumes "settles m x"
  shows "m r = Inl DeadlineExceeded \<or> map_sum id fst (m r) = x"
  by (cases rule: settlesE [OF assms, of r]) simp_all

end
