(* ===== verification/Span_Record.thy ===== *)
theory Span_Record
  imports Segment_Properties Query_Task
begin

text \<open>
  Spans as segment records (\<open>src/src/lib.rs\<close>: \<open>span_to_record\<close>, \<open>record_to_span\<close>, the reserved index keys),
  and the reads a query makes of one segment as an interface. \<open>serde_json\<close> and \<open>core\<close>'s numbers are a record
  of functions.
\<close>

record store_lib =
  numbers :: number_lib
  to_vec :: "span \<Rightarrow> bytes option"
  from_slice :: "bytes \<Rightarrow> span option"
  json_text :: "json \<Rightarrow> bytes"
  json_parse :: "bytes \<Rightarrow> json option"

section \<open>The record of a span\<close>

definition IDX_SERVICE :: bytes where "IDX_SERVICE = 0 # ascii ''service''"
definition IDX_NAME :: bytes where "IDX_NAME = 0 # ascii ''name''"
definition IDX_TENANT :: bytes where "IDX_TENANT = 0 # ascii ''tenant''"

definition reserved :: "bytes \<Rightarrow> bool" where
  "reserved key = (case key of [] \<Rightarrow> False | b # _ \<Rightarrow> b = 0)"

definition canonical_value :: "store_lib \<Rightarrow> json \<Rightarrow> bytes" where
  "canonical_value lib v = json_text lib v"

text \<open>\<open>BTreeMap::insert\<close> on the list of entries in key order.\<close>

fun bt_insert :: "'k::linorder \<Rightarrow> 'v \<Rightarrow> ('k \<times> 'v) list \<Rightarrow> ('k \<times> 'v) list" where
  "bt_insert k v [] = [(k, v)]"
| "bt_insert k v ((k', v') # m) =
     (if k = k' then (k, v) # m else if k < k' then (k, v) # (k', v') # m else (k', v') # bt_insert k v m)"

definition user_attributes :: "store_lib \<Rightarrow> json_map \<Rightarrow> (bytes \<times> bytes) list" where
  "user_attributes lib kvs =
     fold (\<lambda>(key, v) m. if reserved key then m else bt_insert key (canonical_value lib v) m) kvs []"

definition index_attributes :: "store_lib \<Rightarrow> span \<Rightarrow> (bytes \<times> bytes) list" where
  "index_attributes lib s =
     (let m = bt_insert IDX_NAME (name s) (bt_insert IDX_SERVICE (service s) (user_attributes lib (attributes s)))
      in if tenant s \<noteq> [] then bt_insert IDX_TENANT (tenant s) m else m)"

definition span_to_record :: "store_lib \<Rightarrow> span \<Rightarrow> store_error + record_input" where
  "span_to_record lib s =
     (case to_vec lib s of
        None \<Rightarrow> Inl Json_error
      | Some payload \<Rightarrow>
          Inr \<lparr>ri_timestamp = start_time_ns s, ri_trace_id = trace_id s, ri_attributes = index_attributes lib s,
               ri_payload = payload, ri_content = content_strs s\<rparr>)"

definition record_to_span :: "store_lib \<Rightarrow> stored_record \<Rightarrow> store_error + span" where
  "record_to_span lib r = (case from_slice lib (r_payload r) of None \<Rightarrow> Inl Json_error | Some s \<Rightarrow> Inr s)"

text \<open>\<open>records.iter().map(record_to_span).collect()\<close>\<close>

fun records_to_spans :: "store_lib \<Rightarrow> stored_record list \<Rightarrow> store_error + span list" where
  "records_to_spans lib [] = Inr []"
| "records_to_spans lib (r # rs) =
     and_then (record_to_span lib r) (\<lambda>s. and_then (records_to_spans lib rs) (\<lambda>ss. Inr (s # ss)))"

section \<open>The maps built\<close>

lemma bt_insert_keys: "set (map fst (bt_insert k v m)) = insert k (set (map fst m))"
  by (induction k v m rule: bt_insert.induct) auto

lemma bt_insert_sorted: "sorted_wrt (<) (map fst m) \<Longrightarrow> sorted_wrt (<) (map fst (bt_insert k v m))"
proof (induction k v m rule: bt_insert.induct)
  case (2 k v k' v' m)
  then show ?case using bt_insert_keys [of k v m] by (force simp: not_less le_less)
qed simp

lemma map_of_bt_insert: "map_of (bt_insert k v m) = (map_of m)(k \<mapsto> v)"
  by (induction k v m rule: bt_insert.induct) (auto simp: fun_eq_iff)

lemma sorted_map_of: "sorted_wrt (<) (map fst m) \<Longrightarrow> (k, v) \<in> set m \<longleftrightarrow> map_of m k = Some v" for k :: "'k::linorder"
  by (simp add: strict_distinct)

lemma user_attributes_sorted: "sorted_wrt (<) (map fst (user_attributes lib kvs))"
proof -
  have "sorted_wrt (<) (map fst m) \<Longrightarrow> sorted_wrt (<) (map fst (fold
      (\<lambda>(key, v) m. if reserved key then m else bt_insert key (canonical_value lib v) m) kvs m))" for m
    by (induction kvs arbitrary: m) (auto simp: bt_insert_sorted)
  then show ?thesis by (simp add: user_attributes_def)
qed

lemma index_attributes_sorted: "sorted_wrt (<) (map fst (index_attributes lib s))"
  by (simp add: index_attributes_def Let_def bt_insert_sorted user_attributes_sorted)

lemma user_attributes_map_of:
  assumes "distinct (map fst kvs)"
  shows "map_of (user_attributes lib kvs) k
    = (if reserved k then None else map_option (canonical_value lib) (map_of kvs k))"
proof -
  let ?step = "\<lambda>(key, v) m. if reserved key then m else bt_insert key (canonical_value lib v) m"
  have "distinct (map fst kvs) \<Longrightarrow> map_of (fold ?step kvs m) k =
      (if reserved k then map_of m k else case map_of kvs k of None \<Rightarrow> map_of m k | Some v \<Rightarrow> Some (canonical_value lib v))" for m
  proof (induction kvs arbitrary: m)
    case (Cons a kvs)
    obtain key v where a: "a = (key, v)" by (cases a)
    have "map_of kvs key = None" using Cons.prems a by (simp add: map_of_eq_None_iff)
    then show ?case using Cons.IH [of "?step a m"] Cons.prems a by (auto simp: map_of_bt_insert split: option.split)
  qed simp
  from this [OF assms, of "[]"] show ?thesis by (auto simp: user_attributes_def split: option.split)
qed

lemma reserved_keys: "reserved IDX_SERVICE" "reserved IDX_NAME" "reserved IDX_TENANT" "IDX_SERVICE \<noteq> IDX_NAME"
  "IDX_SERVICE \<noteq> IDX_TENANT" "IDX_NAME \<noteq> IDX_TENANT"
  by (simp_all add: reserved_def IDX_SERVICE_def IDX_NAME_def IDX_TENANT_def ascii_def)

lemma indexed_fields:
  "(IDX_SERVICE, service s) \<in> set (index_attributes lib s)"
  "(IDX_NAME, name s) \<in> set (index_attributes lib s)"
  "tenant s \<noteq> [] \<Longrightarrow> (IDX_TENANT, tenant s) \<in> set (index_attributes lib s)"
  unfolding sorted_map_of [OF index_attributes_sorted]
  using reserved_keys by (auto simp: index_attributes_def Let_def map_of_bt_insert)

lemma indexed_attribute:
  assumes "distinct (map fst (attributes s))" and "map_of (attributes s) k = Some v" and "\<not> reserved k"
  shows "(k, canonical_value lib v) \<in> set (index_attributes lib s)"
proof -
  have "k \<noteq> IDX_SERVICE" "k \<noteq> IDX_NAME" "k \<noteq> IDX_TENANT" using assms(3) reserved_keys(1-3) by auto
  then show ?thesis
    unfolding sorted_map_of [OF index_attributes_sorted]
    using assms by (simp add: index_attributes_def Let_def map_of_bt_insert user_attributes_map_of)
qed

section \<open>The reads of a segment\<close>

text \<open>What a query asks of an open segment: the methods of \<open>segment::Segment\<close> it calls.\<close>

record 'seg reader =
  rd_offsets :: "'seg \<Rightarrow> u64 list"
  rd_record_at :: "'seg \<Rightarrow> u64 \<Rightarrow> store_error + stored_record"
  rd_query_trace :: "'seg \<Rightarrow> bytes \<Rightarrow> store_error + stored_record list"
  rd_candidates :: "'seg \<Rightarrow> bytes \<Rightarrow> bytes \<Rightarrow> u64 list"
  rd_carries :: "'seg \<Rightarrow> stored_record \<Rightarrow> bytes \<Rightarrow> bytes \<Rightarrow> bool"
  rd_may_contain_timestamps :: "'seg \<Rightarrow> u64 option \<Rightarrow> u64 option \<Rightarrow> bool"
  rd_may_contain_content :: "'seg \<Rightarrow> query \<Rightarrow> bool"
  rd_content_candidates :: "'seg \<Rightarrow> query \<Rightarrow> store_error + u64 list option"

text \<open>The offsets of the records of \<open>ss\<close> at which \<open>P\<close> holds.\<close>

definition admits_all :: "'seg reader \<Rightarrow> 'seg \<Rightarrow> span list \<Rightarrow> (span \<Rightarrow> bool) \<Rightarrow> u64 list \<Rightarrow> bool" where
  "admits_all rd g ss P cand \<longleftrightarrow>
     sorted_wrt (<) cand \<and> set cand \<subseteq> set (rd_offsets rd g) \<and> (\<forall>i < length ss. P (ss ! i) \<longrightarrow> rd_offsets rd g ! i \<in> set cand)"

locale segment_reads =
  fixes rd :: "'seg reader" and lib :: store_lib and holds :: "'seg \<Rightarrow> span list \<Rightarrow> bool"
  assumes all_offsets: "holds g ss \<Longrightarrow> length (rd_offsets rd g) = length ss \<and> sorted_wrt (<) (rd_offsets rd g)"
    and record_read: "holds g ss \<Longrightarrow> i < length ss \<Longrightarrow>
      \<exists>r. rd_record_at rd g (rd_offsets rd g ! i) = Inr r \<and> record_to_span lib r = Inr (ss ! i)
        \<and> (\<forall>(key, v) \<in> set (index_attributes lib (ss ! i)). rd_carries rd g r key v)"
    and trace_read: "holds g ss \<Longrightarrow>
      \<exists>rs. rd_query_trace rd g t = Inr rs \<and> records_to_spans lib rs = Inr (filter (\<lambda>s. trace_id s = t) ss)"
    and candidates_complete: "holds g ss \<Longrightarrow>
      admits_all rd g ss (\<lambda>s. (key, v) \<in> set (index_attributes lib s)) (rd_candidates rd g key v)"
    and window_sound: "holds g ss \<Longrightarrow> \<not> rd_may_contain_timestamps rd g since until' \<Longrightarrow> s \<in> set ss \<Longrightarrow>
      (\<exists>t. since = Some t \<and> start_time_ns s < t) \<or> (\<exists>t. until' = Some t \<and> t < start_time_ns s)"
    and content_sound: "holds g ss \<Longrightarrow> \<not> rd_may_contain_content rd g q \<Longrightarrow> s \<in> set ss \<Longrightarrow> \<not> query_matches q (content_strs s)"
    and content_complete: "holds g ss \<Longrightarrow>
      \<exists>found. rd_content_candidates rd g q = Inr found
        \<and> (\<forall>cand. found = Some cand \<longrightarrow> admits_all rd g ss (\<lambda>s. query_matches q (content_strs s)) cand)"
    and stored_keys: "holds g ss \<Longrightarrow> s \<in> set ss \<Longrightarrow> distinct (map fst (attributes s))"

end
