(* ===== verification/Pricing.thy ===== *)
theory Pricing
  imports Semconv Span_Record
begin

text \<open>
  The rate table that prices a call nobody metered (\<open>src/src/pricing.rs\<close>), and the facts it completes
  (\<open>LlmFacts::priced\<close> of \<open>src/src/semconv.rs\<close>). The arithmetic of \<open>f64\<close> is the processor's: a record of
  functions.
\<close>

record f64_lib = number_lib +
  f64_of_u64 :: "u64 \<Rightarrow> f64"
  f64_add :: "f64 \<Rightarrow> f64 \<Rightarrow> f64"
  f64_mul :: "f64 \<Rightarrow> f64 \<Rightarrow> f64"
  f64_div :: "f64 \<Rightarrow> f64 \<Rightarrow> f64"

section \<open>The table\<close>

record rate =
  input_per_mtok :: f64
  output_per_mtok :: f64

text \<open>\<open>1_000_000.0\<close>, by its bits.\<close>

definition PER_MTOK :: f64 where
  "PER_MTOK = 0x412E848000000000"

definition rate_cost :: "f64_lib \<Rightarrow> rate \<Rightarrow> u64 \<Rightarrow> u64 \<Rightarrow> f64" where
  "rate_cost lib r prompt_tokens completion_tokens =
     f64_add lib (f64_mul lib (f64_div lib (f64_of_u64 lib prompt_tokens) PER_MTOK) (input_per_mtok r))
                 (f64_mul lib (f64_div lib (f64_of_u64 lib completion_tokens) PER_MTOK) (output_per_mtok r))"

record pricing =
  exact :: "(bytes \<times> rate) list"
  prefix_rates :: "(bytes \<times> rate) list"

definition pricing_is_empty :: "pricing \<Rightarrow> bool" where
  "pricing_is_empty p \<longleftrightarrow> exact p = [] \<and> prefix_rates p = []"

datatype pricing_error =
    Not_json
  | Models_not_an_object
  | Missing_models
  | Entry_not_an_object bytes
  | Field_missing bytes bytes
  | Field_not_a_number bytes bytes
  | Field_not_a_price bytes bytes

text \<open>\<open>number < 0.0\<close>, for a finite number.\<close>

definition f64_negative :: "f64 \<Rightarrow> bool" where
  "f64_negative v \<longleftrightarrow> bit v 63 \<and> v \<noteq> 0x8000000000000000"

definition rate_field :: "number_lib \<Rightarrow> json option \<Rightarrow> bytes \<Rightarrow> bytes \<Rightarrow> pricing_error + f64" where
  "rate_field lib v model field =
     (case v of
        None \<Rightarrow> Inl (Field_missing model field)
      | Some v \<Rightarrow>
          (case (case v of JNumber n \<Rightarrow> number_f64 lib n | _ \<Rightarrow> None) of
             None \<Rightarrow> Inl (Field_not_a_number model field)
           | Some number \<Rightarrow>
               if \<not> f64_is_finite number \<or> f64_negative number then Inl (Field_not_a_price model field)
               else Inr number))"

definition parse_rate :: "number_lib \<Rightarrow> bytes \<Rightarrow> json \<Rightarrow> pricing_error + rate" where
  "parse_rate lib model entry =
     (case entry of
        JObject members \<Rightarrow>
          and_then (rate_field lib (map_of members (ascii ''input_per_mtok'')) model (ascii ''input_per_mtok'')) (\<lambda>i.
          and_then (rate_field lib (map_of members (ascii ''output_per_mtok'')) model (ascii ''output_per_mtok'')) (\<lambda>out.
            Inr \<lparr>input_per_mtok = i, output_per_mtok = out\<rparr>))
      | _ \<Rightarrow> Inl (Entry_not_an_object model))"

fun parse_models :: "number_lib \<Rightarrow> json_map \<Rightarrow> pricing \<Rightarrow> pricing_error + pricing" where
  "parse_models lib [] p = Inr p"
| "parse_models lib ((model, entry) # models) p =
     and_then (parse_rate lib model entry) (\<lambda>r.
       parse_models lib models
         (if model \<noteq> [] \<and> last model = 42 then p\<lparr>prefix_rates := prefix_rates p @ [(butlast model, r)]\<rparr>
          else p\<lparr>exact := bt_insert model r (exact p)\<rparr>))"

definition pricing_parse :: "store_lib \<Rightarrow> bytes \<Rightarrow> pricing_error + pricing" where
  "pricing_parse lib source =
     (case json_parse lib source of
        None \<Rightarrow> Inl Not_json
      | Some root \<Rightarrow>
          (case (case root of JObject members \<Rightarrow> map_of members (ascii ''models'') | _ \<Rightarrow> None) of
             Some (JObject models) \<Rightarrow>
               and_then (parse_models (numbers lib) models \<lparr>exact = [], prefix_rates = []\<rparr>) (\<lambda>p.
                 Inr (p\<lparr>prefix_rates := sort_key (\<lambda>x. (- int (length (fst x)), fst x)) (prefix_rates p)\<rparr>))
           | Some _ \<Rightarrow> Inl Models_not_an_object
           | None \<Rightarrow> Inl Missing_models))"

definition pricing_rate :: "pricing \<Rightarrow> bytes \<Rightarrow> rate option" where
  "pricing_rate p model =
     (case map_of (exact p) model of
        Some r \<Rightarrow> Some r
      | None \<Rightarrow> map_option snd (find (\<lambda>x. prefix (fst x) model) (prefix_rates p)))"

definition pricing_cost :: "f64_lib \<Rightarrow> pricing \<Rightarrow> bytes \<Rightarrow> u64 option \<Rightarrow> u64 option \<Rightarrow> f64 option" where
  "pricing_cost lib p model prompt_tokens completion_tokens =
     (case (prompt_tokens, completion_tokens) of
        (Some prompt, Some completion) \<Rightarrow>
          (case pricing_rate p model of
             None \<Rightarrow> None
           | Some r \<Rightarrow> (let cost = rate_cost lib r prompt completion in if f64_is_finite cost then Some cost else None))
      | _ \<Rightarrow> None)"

text \<open>\<open>fingerprint\<close>: FNV-1a over the names and the bits of the rates.\<close>

definition eat :: "bytes \<Rightarrow> u64 \<Rightarrow> u64" where
  "eat bs hash = fold (\<lambda>b h. (h XOR ucast b) * 0x100000001b3) bs hash"

definition eat_entry :: "bytes \<times> rate \<Rightarrow> u64 \<Rightarrow> u64" where
  "eat_entry x hash = eat (u64_le (output_per_mtok (snd x))) (eat (u64_le (input_per_mtok (snd x))) (eat (fst x) hash))"

definition fingerprint :: "pricing \<Rightarrow> u64" where
  "fingerprint p =
     (if pricing_is_empty p then 0
      else fold eat_entry (prefix_rates p) (eat [0] (fold eat_entry (exact p) 0xcbf29ce484222325)))"

section \<open>Completing the facts\<close>

definition priced :: "f64_lib \<Rightarrow> pricing \<Rightarrow> llm_facts \<Rightarrow> llm_facts" where
  "priced lib p f =
     (if lf_cost_usd f \<noteq> None \<or> pricing_is_empty p then f
      else case lf_model f of
             None \<Rightarrow> f
           | Some model \<Rightarrow>
               (case pricing_cost lib p model (lf_prompt_tokens f) (lf_completion_tokens f) of
                  None \<Rightarrow> f
                | Some cost \<Rightarrow> f\<lparr>lf_cost_usd := Some cost, lf_cost_derived := True\<rparr>))"

section \<open>What the table answers\<close>

text \<open>A metered cost stands; a cost is derived exactly when the table priced a call without one; every other fact is
  untouched.\<close>

lemma metered_cost_stands: "lf_cost_usd f \<noteq> None \<Longrightarrow> priced lib p f = f"
  by (simp add: priced_def)

lemma derived_iff:
  assumes "\<not> lf_cost_derived f"
  shows "lf_cost_derived (priced lib p f) \<longleftrightarrow>
    lf_cost_usd f = None \<and> (\<exists>model cost. lf_model f = Some model
      \<and> pricing_cost lib p model (lf_prompt_tokens f) (lf_completion_tokens f) = Some cost \<and> lf_cost_usd (priced lib p f) = Some cost)"
proof -
  have "pricing_cost lib p model a b = None" if "pricing_is_empty p" for model a b
    using that by (simp add: pricing_is_empty_def pricing_cost_def pricing_rate_def split: option.split)
  then show ?thesis using assms by (auto simp: priced_def split: option.splits)
qed

lemma priced_session: "lf_session (priced lib p f) = lf_session f"
  by (simp add: priced_def split: option.split)

text \<open>The longest prefix wins, whatever order the file listed the patterns in.\<close>

lemma prefixes_longest_first:
  assumes "pricing_parse lib source = Inr p"
  shows "sorted_wrt (\<lambda>x y. length (fst y) \<le> length (fst x)) (prefix_rates p)"
proof -
  have "sorted (map (\<lambda>x. (- int (length (fst x)), fst x)) (prefix_rates p))"
    using assms by (auto simp: pricing_parse_def and_then_Inr split: option.splits json.splits)
  then show ?thesis unfolding sorted_map by (rule sorted_wrt_mono_rel [rotated]) auto
qed

lemma first_pattern:
  "find P xs = Some x \<Longrightarrow> sorted_wrt R xs \<Longrightarrow> y \<in> set xs \<Longrightarrow> P y \<Longrightarrow> y = x \<or> R x y"
  by (induction xs) (auto split: if_splits)

lemma the_longest_prefix_wins:
  assumes "pricing_parse lib source = Inr p" and "map_of (exact p) model = None" and "pricing_rate p model = Some r"
  shows "\<exists>pattern. (pattern, r) \<in> set (prefix_rates p) \<and> prefix pattern model
    \<and> (\<forall>x \<in> set (prefix_rates p). prefix (fst x) model \<longrightarrow> length (fst x) \<le> length pattern)"
proof -
  from assms(2,3) obtain x where x: "find (\<lambda>x. prefix (fst x) model) (prefix_rates p) = Some x" "snd x = r"
    by (auto simp: pricing_rate_def)
  have m: "x \<in> set (prefix_rates p)" "prefix (fst x) model" using x(1) by (auto simp: find_Some_iff)
  have "length (fst y) \<le> length (fst x)" if "y \<in> set (prefix_rates p)" "prefix (fst y) model" for y
    using first_pattern [OF x(1) prefixes_longest_first [OF assms(1)] that] by auto
  then show ?thesis using m x(2) by (intro exI [of _ "fst x"]) auto
qed

text \<open>The digest of an empty table is 0, that of two different tables may be the same byte stream: names are not
  delimited from the rates around them.\<close>

lemma fingerprint_empty: "fingerprint \<lparr>exact = [], prefix_rates = []\<rparr> = 0"
  by (simp add: fingerprint_def pricing_is_empty_def)

lemma eat_append: "eat (xs @ ys) h = eat ys (eat xs h)"
  by (simp add: eat_def)

lemma le_bytes_zero: "le_bytes n 0 = replicate n 0"
  by (induction n) simp_all

lemma eat_free: "eat_entry (model, \<lparr>input_per_mtok = 0, output_per_mtok = 0\<rparr>) h = eat (model @ replicate 16 0) h"
proof -
  have "u64_le 0 = replicate 8 0" by (simp add: u64_le_def le_bytes_zero)
  moreover have "replicate 16 0 = replicate 8 0 @ replicate 8 (0 :: u8)" unfolding replicate_add [symmetric] by simp
  ultimately show ?thesis by (simp only: eat_entry_def eat_append fst_conv snd_conv rate.simps)
qed

lemma different_tables_of_one_fingerprint:
  defines "free \<equiv> \<lparr>input_per_mtok = 0, output_per_mtok = 0\<rparr>"
  shows "fingerprint \<lparr>exact = [([97], free), ([98], free)], prefix_rates = []\<rparr>
    = fingerprint \<lparr>exact = [([97] @ replicate 16 0 @ [98], free)], prefix_rates = []\<rparr>"
  by (simp add: free_def fingerprint_def pricing_is_empty_def eat_free flip: eat_append)

end
