(* ===== verification/Segment_Reads.thy ===== *)
theory Segment_Reads
  imports Span_Record
begin

text \<open>
  The interface of \<open>Span_Record\<close> on the segment file of the model: the methods of \<open>segment::Segment\<close> as a
  reader, and the proof that a file encoded from spans and opened again keeps every law a query relies on.
\<close>

section \<open>The reader of a local segment\<close>

text \<open>\<open>segment_error\<close>\<close>

definition segment_result :: "seg_error + 'a \<Rightarrow> store_error + 'a" where
  "segment_result m = (case m of Inl e \<Rightarrow> Inl (Segment_error e) | Inr x \<Rightarrow> Inr x)"

definition record_carries_attribute :: "segment \<Rightarrow> stored_record \<Rightarrow> bytes \<Rightarrow> bytes \<Rightarrow> bool" where
  "record_carries_attribute s record key value =
     (case key_id s key of None \<Rightarrow> False | Some i \<Rightarrow> carries record i (hash_attribute key value))"

definition local_reader :: "(bytes \<Rightarrow> nat \<Rightarrow> bytes option) \<Rightarrow> segment reader" where
  "local_reader decompress =
     \<lparr>rd_offsets = s_record_offsets,
      rd_record_at = (\<lambda>s offset. segment_result (decode_at decompress s (unat offset))),
      rd_query_trace = (\<lambda>s t. segment_result (query_trace decompress s t)),
      rd_candidates = candidates,
      rd_carries = record_carries_attribute,
      rd_may_contain_timestamps = may_contain_timestamps,
      rd_may_contain_content = (\<lambda>s q. may_contain_content (s_content s) q),
      rd_content_candidates =
        (\<lambda>s q. segment_result (content_candidate_offsets (s_content s) (s_backing s) (s_record_offsets s) q))\<rparr>"

section \<open>A segment of spans\<close>

text \<open>\<open>serde_json\<close> writes the span and reads it back, and a map holds a key once.\<close>

definition storable :: "store_lib \<Rightarrow> span \<Rightarrow> bool" where
  "storable lib s \<longleftrightarrow>
     distinct (map fst (attributes s)) \<and> (\<exists>bs. to_vec lib s = Some bs \<and> from_slice lib bs = Some s)"

definition stores_spans ::
  "store_lib \<Rightarrow> (bytes \<Rightarrow> bytes) \<Rightarrow> (bytes \<Rightarrow> nat \<Rightarrow> bytes option) \<Rightarrow> segment \<Rightarrow> span list \<Rightarrow> bool" where
  "stores_spans lib compress decompress s spans \<longleftrightarrow>
     lz4_block compress decompress \<and> list_all (storable lib) spans \<and> sorted (map start_time_ns spans)
     \<and> (\<exists>records content_index codec p.
          map (span_to_record lib) spans = map Inr records \<and> well_built compress records content_index codec p
          \<and> open_backing decompress (assemble compress codec p) = Inr s)"

lemma record_fields:
  assumes "span_to_record lib s = Inr r"
  shows "ri_timestamp r = start_time_ns s" "ri_trace_id r = trace_id s" "ri_attributes r = index_attributes lib s"
    "ri_content r = content_strs s" "to_vec lib s = Some (ri_payload r)"
  using assms by (auto simp: span_to_record_def split: option.splits)

lemma record_back:
  assumes "span_to_record lib s = Inr r" and "storable lib s"
  shows "record_to_span lib (stored_of keys r) = Inr s"
  using assms record_fields(5) [OF assms(1)] by (auto simp: storable_def record_to_span_def stored_of_def)

lemma records_back:
  assumes "map (span_to_record lib) spans = map Inr rs" and "list_all (storable lib) spans"
  shows "records_to_spans lib (map (stored_of keys) rs) = Inr spans"
  using assms
proof (induction spans arbitrary: rs)
  case (Cons s spans)
  then obtain r rs' where rs: "rs = r # rs'" "span_to_record lib s = Inr r" "map (span_to_record lib) spans = map Inr rs'"
    by (cases rs) auto
  then show ?case using Cons record_back [OF rs(2), of keys] by simp
qed simp

lemma filtered_records:
  assumes "map (span_to_record lib) spans = map Inr rs"
  shows "map (span_to_record lib) (filter (\<lambda>s. trace_id s = t) spans) = map Inr (filter (\<lambda>r. ri_trace_id r = t) rs)"
  using assms
proof (induction spans arbitrary: rs)
  case (Cons s spans)
  then obtain r rs' where rs: "rs = r # rs'" "span_to_record lib s = Inr r" "map (span_to_record lib) spans = map Inr rs'"
    by (cases rs) auto
  then show ?case using Cons.IH [OF rs(3)] record_fields(2) [OF rs(2)] by simp
qed simp

text \<open>What the open of such a file gives, in the terms of \<open>Segment_Queries\<close>.\<close>

definition stored_as ::
  "store_lib \<Rightarrow> (bytes \<Rightarrow> bytes) \<Rightarrow> (bytes \<Rightarrow> nat \<Rightarrow> bytes option) \<Rightarrow> segment \<Rightarrow> span list \<Rightarrow> record_input list \<Rightarrow> bool
    \<Rightarrow> codec \<Rightarrow> parts \<Rightarrow> bytes list \<Rightarrow> bool" where
  "stored_as lib compress decompress s spans records ci codec p encs \<longleftrightarrow>
     lz4_block compress decompress \<and> map (span_to_record lib) spans = map Inr records \<and> p_records p = records
     \<and> well_built compress records ci codec p \<and> s = opened compress ci codec p encs \<and> p_keys p = attribute_keys records
     \<and> serves compress codec (p_keys p) records encs s \<and> s_record_offsets s = offs 0 encs \<and> length records = length spans
     \<and> s_trace_index s = map_of (push_all (trace_pushes records (offs 0 encs)) [])
     \<and> (\<forall>k v. candidates s k v = (if k \<in> set (p_keys p)
         then offsets_where (\<lambda>r. (key_id_of (p_keys p) k, hash_attribute k v) \<in> set (record_pairs (p_keys p) r)) records (offs 0 encs)
         else []))
     \<and> (\<forall>k. key_id s k = (if k \<in> set (p_keys p) then Some (key_id_of (p_keys p) k) else None))"

lemma stores_spansE:
  assumes "stores_spans lib compress decompress s spans"
  obtains records ci codec p encs where "stored_as lib compress decompress s spans records ci codec p encs"
proof -
  from assms obtain records ci codec p where
    lz: "lz4_block compress decompress" and sorted: "sorted (map start_time_ns spans)"
    and rs: "map (span_to_record lib) spans = map Inr records" and wb: "well_built compress records ci codec p"
    and op: "open_backing decompress (assemble compress codec p) = Inr s"
    unfolding stores_spans_def by blast
  have len: "length records = length spans" using arg_cong [OF rs, of length] by simp
  have "ri_timestamp (records ! i) = start_time_ns (spans ! i)" if "i < length spans" for i
    using record_fields(1) [of lib "spans ! i" "records ! i"] arg_cong [OF rs, of "\<lambda>xs. xs ! i"] that len by simp
  then have "map ri_timestamp records = map start_time_ns spans" using len by (simp add: list_eq_iff_nth_eq)
  then have sk: "sort_key ri_timestamp records = records" using sorted by (simp add: sort_key_id_if_sorted)
  from opened_serves [OF lz wb op] obtain encs where o:
    "serves compress codec (p_keys p) (p_records p) encs s" "p_records p = sort_key ri_timestamp records"
    "p_keys p = attribute_keys (p_records p)" "s = opened compress ci codec p encs" "p_offsets p = offs 0 encs"
    "p_trace p = push_all (trace_pushes (p_records p) (offs 0 encs)) []"
    "p_attributes p = push_all (pair_pushes (p_keys p) (p_records p) (offs 0 encs)) []" by metis
  have ids: "ai_key_ids (s_attribute_index s) = map_of (zip (p_keys p) (map of_nat [0..<length (p_keys p)]))"
    and ix: "ai_postings (s_attribute_index s) = map_of (push_all (pair_pushes (p_keys p) (p_records p) (offs 0 encs)) [])"
    and tr: "s_trace_index s = map_of (push_all (trace_pushes (p_records p) (offs 0 encs)) [])"
    and off: "s_record_offsets s = offs 0 encs"
    by (simp_all add: o(4) opened_def Let_def o(5-7))
  have k32: "length (p_keys p) < 2 ^ 32" using wb by (simp add: well_built_def)
  note cand = candidates_serves [OF o(1,3) k32 ids ix]
  have id: "key_id s k = (if k \<in> set (p_keys p) then Some (key_id_of (p_keys p) k) else None)" for k
    using key_ids_map [of "p_keys p" k] attribute_keys_sorted [of "p_records p"] by (simp add: key_id_def ids flip: o(3))
  show thesis
    by (rule that [of records ci codec p encs]) (use lz rs wb o(4) off len tr cand id o(1,3) o(2) sk in \<open>simp add: stored_as_def\<close>)
qed

lemma record_of_span:
  assumes "map (span_to_record lib) spans = map Inr records" and "i < length spans"
  shows "span_to_record lib (spans ! i) = Inr (records ! i)"
proof -
  have "length records = length spans" using arg_cong [OF assms(1), of length] by simp
  then show ?thesis using arg_cong [OF assms(1), of "\<lambda>xs. xs ! i"] assms(2) by simp
qed

section \<open>The laws of the interface\<close>

lemma serves_offs:
  assumes "serves compress codec keys rs encs s"
  shows "sorted_wrt (<) (offs 0 encs)" and "length (offs 0 encs) = length rs"
proof -
  have r: "represents compress codec encs (map ri_timestamp rs) (cuts_of encs) s" "length encs = length rs"
    using assms by (simp_all add: serves_def)
  then show "length (offs 0 encs) = length rs" by simp
  have "region_ok encs (map ri_timestamp rs)" "map unat (offs 0 encs) = starts encs"
    using r(1) represents_offsets [OF r(1)] by (simp_all add: represents_def)
  then show "sorted_wrt (<) (offs 0 encs)" by (intro offs_sorted) (rule region_nonempty)
qed

lemma offsets_where_mem:
  assumes "length os = length rs" and "i < length rs" and "P (rs ! i)"
  shows "os ! i \<in> set (offsets_where P rs os)"
proof -
  have "(rs ! i, os ! i) \<in> set (zip rs os)" using assms(1,2) by (auto simp: in_set_zip)
  then show ?thesis using assms(3) by (force simp: offsets_where_def)
qed

lemma offsets_where_subset: "set (offsets_where P rs os) \<subseteq> set os"
  by (auto simp: offsets_where_def dest: set_zip_rightD)

lemma attribute_keys_mem: "r \<in> set rs \<Longrightarrow> (k, v) \<in> set (ri_attributes r) \<Longrightarrow> k \<in> set (attribute_keys rs)"
  by (force simp: attribute_keys_set)

lemma carried_pair:
  assumes "length (attribute_keys rs) < 2 ^ 32" and "r \<in> set rs" and "(k, v) \<in> set (ri_attributes r)"
  shows "(key_id_of (attribute_keys rs) k, hash_attribute k v) \<in> set (record_pairs (attribute_keys rs) r)"
  using assms(3) by (subst record_pairs_mem [OF attribute_keys_sorted assms(1) attribute_keys_mem [OF assms(2,3)]])
    (use assms(2) in \<open>auto simp: attribute_keys_set\<close>)

lemma local_record_read:
  assumes "stores_spans lib compress decompress s spans" and "i < length spans"
  shows "\<exists>r. rd_record_at (local_reader decompress) s (rd_offsets (local_reader decompress) s ! i) = Inr r
    \<and> record_to_span lib r = Inr (spans ! i)
    \<and> (\<forall>(key, v) \<in> set (index_attributes lib (spans ! i)). rd_carries (local_reader decompress) s r key v)"
proof -
  from stores_spansE [OF assms(1)] obtain records ci codec p encs where
    st: "stored_as lib compress decompress s spans records ci codec p encs" .
  then have
    o: "lz4_block compress decompress"
      "map (span_to_record lib) spans = map Inr records"
      "p_keys p = attribute_keys records"
      "well_built compress records ci codec p"
      "serves compress codec (p_keys p) records encs s"
      "s_record_offsets s = offs 0 encs"
      "length records = length spans"
      "\<forall>k. key_id s k = (if k \<in> set (p_keys p) then Some (key_id_of (p_keys p) k) else None)"
    unfolding stored_as_def by - (elim conjE, assumption)+
  let ?r = "stored_of (p_keys p) (records ! i)"
  have i: "i < length records" using assms(2) o(7) by simp
  note rec = record_of_span [OF o(2) assms(2)]
  have off: "s_record_offsets s ! i = of_nat (psum encs i)" using i by (simp add: serves_offsets [OF o(5)])
  have "decode_all decompress s [of_nat (psum encs i)] = Inr [?r]"
    using decode_all_ordinals [OF o(1,5), of "[i]"] i by simp
  then have "decode_at decompress s (unat (s_record_offsets s ! i)) = Inr ?r"
    unfolding off by (auto simp: and_then_Inr)
  moreover have "record_to_span lib ?r = Inr (spans ! i)"
    using record_back [OF rec] assms by (simp add: stores_spans_def list_all_length)
  moreover have "record_carries_attribute s ?r key v" if "(key, v) \<in> set (index_attributes lib (spans ! i))" for key v
  proof -
    have mem: "records ! i \<in> set records" "(key, v) \<in> set (ri_attributes (records ! i))"
      using i that record_fields(3) [OF rec] by simp_all
    have "length (attribute_keys records) < 2 ^ 32" using o(3,4) by (simp add: well_built_def)
    from carried_pair [OF this mem] have "(key_id_of (p_keys p) key, hash_attribute key v) \<in> set (record_pairs (p_keys p) (records ! i))"
      by (simp add: o(3))
    moreover have "pairs_ok (record_pairs (p_keys p) (records ! i))" using built_pairs [OF o(5)] i by (simp add: list_all_length)
    ultimately show ?thesis
      using attribute_keys_mem [OF mem] by (simp add: record_carries_attribute_def o(8) o(3) carries_iff)
  qed
  ultimately show ?thesis by (auto simp: local_reader_def segment_result_def)
qed

lemma local_trace_read:
  assumes "stores_spans lib compress decompress s spans"
  shows "\<exists>rs. rd_query_trace (local_reader decompress) s t = Inr rs
    \<and> records_to_spans lib rs = Inr (filter (\<lambda>s. trace_id s = t) spans)"
proof -
  from stores_spansE [OF assms] obtain records ci codec p encs where
    st: "stored_as lib compress decompress s spans records ci codec p encs" .
  then have
    o: "lz4_block compress decompress"
      "map (span_to_record lib) spans = map Inr records"
      "serves compress codec (p_keys p) records encs s"
      "s_trace_index s = map_of (push_all (trace_pushes records (offs 0 encs)) [])"
    unfolding stored_as_def by - (elim conjE, assumption)+
  have "list_all (storable lib) (filter (\<lambda>s. trace_id s = t) spans)"
    using assms by (auto simp: stores_spans_def list_all_iff)
  from records_back [OF filtered_records [OF o(2)] this]
  have "records_to_spans lib (map (stored_of (p_keys p)) (filter (\<lambda>r. ri_trace_id r = t) records))
      = Inr (filter (\<lambda>s. trace_id s = t) spans)" by simp
  then show ?thesis
    using query_trace_serves [OF o(1,3,4), of t] by (auto simp: local_reader_def segment_result_def)
qed

lemma local_candidates:
  assumes "stores_spans lib compress decompress s spans"
  shows "admits_all (local_reader decompress) s spans (\<lambda>s. (key, v) \<in> set (index_attributes lib s))
    (rd_candidates (local_reader decompress) s key v)"
proof -
  from stores_spansE [OF assms] obtain records ci codec p encs where
    st: "stored_as lib compress decompress s spans records ci codec p encs" .
  then have
    o: "map (span_to_record lib) spans = map Inr records"
      "p_keys p = attribute_keys records"
      "well_built compress records ci codec p"
      "serves compress codec (p_keys p) records encs s"
      "s_record_offsets s = offs 0 encs"
      "length records = length spans"
      "\<forall>k v. candidates s k v = (if k \<in> set (p_keys p)
        then offsets_where (\<lambda>r. (key_id_of (p_keys p) k, hash_attribute k v) \<in> set (record_pairs (p_keys p) r)) records (offs 0 encs)
        else [])"
    unfolding stored_as_def by - (elim conjE, assumption)+
  have k32: "length (attribute_keys records) < 2 ^ 32" using o(2,3) by (simp add: well_built_def)
  have "offs 0 encs ! i \<in> set (candidates s key v)"
    if i: "i < length spans" and mem: "(key, v) \<in> set (index_attributes lib (spans ! i))" for i
  proof -
    have r: "records ! i \<in> set records" "(key, v) \<in> set (ri_attributes (records ! i))" "i < length records"
      using i mem o(6) record_fields(3) [OF record_of_span [OF o(1) i]] by simp_all
    have "key \<in> set (p_keys p)" using attribute_keys_mem [OF r(1,2)] o(2) by simp
    then show ?thesis
      using carried_pair [OF k32 r(1,2)] serves_offs(2) [OF o(4)] r(3) by (simp add: o(7) o(2) offsets_where_mem)
  qed
  then show ?thesis
    using offsets_where_sorted [OF serves_offs(1) [OF o(4)]] offsets_where_subset
    by (auto simp: admits_all_def local_reader_def o(5,7))
qed

lemma local_window:
  assumes "stores_spans lib compress decompress s spans" and "\<not> may_contain_timestamps s since until'" and "x \<in> set spans"
  shows "(\<exists>t. since = Some t \<and> start_time_ns x < t) \<or> (\<exists>t. until' = Some t \<and> t < start_time_ns x)"
proof -
  from stores_spansE [OF assms(1)] obtain records ci codec p encs where
    st: "stored_as lib compress decompress s spans records ci codec p encs" .
  then have
    o: "map (span_to_record lib) spans = map Inr records"
      "serves compress codec (p_keys p) records encs s"
      "length records = length spans"
    unfolding stored_as_def by - (elim conjE, assumption)+
  obtain i where i: "i < length spans" "spans ! i = x" using assms(3) by (auto simp: in_set_conv_nth)
  have "ri_timestamp (records ! i) = start_time_ns x" using record_fields(1) [OF record_of_span [OF o(1) i(1)]] i(2) by simp
  then have "start_time_ns x \<in> set (map ri_timestamp records)" using i(1) o(3) by (metis length_map nth_map nth_mem)
  then have "fst (timestamps (s_header s)) \<le> start_time_ns x" "start_time_ns x \<le> snd (timestamps (s_header s))"
    using o(2) unfolding serves_def represents_def list_all_iff by blast+
  then show ?thesis
    using assms(2) by (auto simp: may_contain_timestamps_def Let_def split: option.splits if_splits)
qed

lemma subseq_sorted: "subseq xs ys \<Longrightarrow> sorted_wrt (<) ys \<Longrightarrow> sorted_wrt (<) xs" for xs :: "u64 list"
proof (induction rule: list_emb.induct)
  case (list_emb_Cons2 x y xs ys)
  then show ?case by (auto dest: list_emb_set)
qed simp_all

lemma local_content:
  assumes "stores_spans lib compress decompress s spans"
  shows "\<not> may_contain_content (s_content s) q \<Longrightarrow> x \<in> set spans \<Longrightarrow> \<not> query_matches q (content_strs x)"
    and "\<exists>found. rd_content_candidates (local_reader decompress) s q = Inr found
        \<and> (\<forall>cand. found = Some cand \<longrightarrow> admits_all (local_reader decompress) s spans (\<lambda>s. query_matches q (content_strs s)) cand)"
proof -
  from stores_spansE [OF assms] obtain records ci codec p encs where
    st: "stored_as lib compress decompress s spans records ci codec p encs" .
  then have
    o: "map (span_to_record lib) spans = map Inr records"
      "p_records p = records"
      "well_built compress records ci codec p"
      "s = opened compress ci codec p encs"
      "serves compress codec (p_keys p) records encs s"
      "s_record_offsets s = offs 0 encs"
      "length records = length spans"
    unfolding stored_as_def by - (elim conjE, assumption)+
  have n: "length (s_record_offsets s) = length (p_records p)" using serves_offs(2) [OF o(5)] o(2,6) by simp
  note complete = opened_content_complete [OF o(3,4) n]
  have words: "ri_content (p_records p ! i) = content_strs (spans ! i)" "i < length (p_records p)" if "i < length spans" for i
    using record_fields(4) [OF record_of_span [OF o(1) that]] o(2,7) that by simp_all
  show "\<not> query_matches q (content_strs x)" if "\<not> may_contain_content (s_content s) q" "x \<in> set spans"
    using that complete(1) words by (metis in_set_conv_nth)
  obtain found where found: "content_candidate_offsets (s_content s) (s_backing s) (s_record_offsets s) q = Inr found"
    "\<And>cand. found = Some cand \<Longrightarrow> subseq cand (s_record_offsets s)"
    using opened_content_answers [OF o(3,4)] by blast
  have "s_record_offsets s ! i \<in> set cand"
    if "found = Some cand" "i < length spans" "query_matches q (content_strs (spans ! i))" for i cand
    using complete(2) [of i q] words [OF that(2)] that found(1) by auto
  moreover have "sorted_wrt (<) cand \<and> set cand \<subseteq> set (s_record_offsets s)" if "found = Some cand" for cand
    using subseq_sorted [OF found(2) [OF that]] serves_offs(1) [OF o(5)] found(2) [OF that]
    by (auto simp: o(6) dest: list_emb_set)
  ultimately show "\<exists>found. rd_content_candidates (local_reader decompress) s q = Inr found
        \<and> (\<forall>cand. found = Some cand \<longrightarrow> admits_all (local_reader decompress) s spans (\<lambda>s. query_matches q (content_strs s)) cand)"
    using found(1) by (auto simp: local_reader_def segment_result_def admits_all_def)
qed

interpretation local_segments: segment_reads "local_reader decompress" lib "stores_spans lib compress decompress"
  for decompress lib compress
proof
  fix g ss assume st: "stores_spans lib compress decompress g ss"
  from stores_spansE [OF st] obtain records ci codec p encs where "stored_as lib compress decompress g ss records ci codec p encs" .
  then have "serves compress codec (p_keys p) records encs g" "s_record_offsets g = offs 0 encs" "length records = length ss"
    unfolding stored_as_def by - (elim conjE, assumption)+
  then show "length (rd_offsets (local_reader decompress) g) = length ss \<and> sorted_wrt (<) (rd_offsets (local_reader decompress) g)"
    using serves_offs by (simp add: local_reader_def)
  show "s \<in> set ss \<Longrightarrow> distinct (map fst (attributes s))" for s using st by (auto simp: stores_spans_def list_all_iff storable_def)
  show "(\<exists>t. since = Some t \<and> start_time_ns s < t) \<or> (\<exists>t. until' = Some t \<and> t < start_time_ns s)"
    if "\<not> rd_may_contain_timestamps (local_reader decompress) g since until'" "s \<in> set ss" for since until' s
    using local_window [OF st _ that(2)] that(1) by (simp add: local_reader_def)
  show "\<not> query_matches q (content_strs s)"
    if "\<not> rd_may_contain_content (local_reader decompress) g q" "s \<in> set ss" for q s
    using local_content(1) [OF st _ that(2)] that(1) by (simp add: local_reader_def)
qed (fact local_record_read local_trace_read local_candidates local_content(2))+

end
