(* ===== verification/Store_Reads.thy ===== *)
theory Store_Reads
  imports Segment_Reads Write_Buffer
begin

text \<open>
  The reads a query of the store is made of (\<open>src/src/lib.rs\<close>): the encodings an attribute value may be
  indexed under, the probe that narrows a segment, the search for a cursor's position, and the test whether a
  newer segment supersedes a span, with its prefilter of key hashes. Everything is over the reader of a
  segment; the lemmas are those of the interface \<open>segment_reads\<close>.
\<close>

section \<open>Attribute encodings\<close>

definition push_encoding :: "store_lib \<Rightarrow> json \<Rightarrow> bytes list \<Rightarrow> bytes list" where
  "push_encoding lib candidate encodings =
     (let canonical = canonical_value lib candidate
      in if canonical \<in> set encodings then encodings else encodings @ [canonical])"

text \<open>The number the text reads as, if printing it gives the text back.\<close>

definition push_number :: "store_lib \<Rightarrow> bytes \<Rightarrow> bytes list \<Rightarrow> bytes list" where
  "push_number lib tx encodings =
     (case json_parse lib tx of
        Some (JNumber n) \<Rightarrow>
          if number_text (numbers lib) n = tx then push_encoding lib (JNumber n) encodings else encodings
      | _ \<Rightarrow> encodings)"

definition push_bool :: "store_lib \<Rightarrow> bytes \<Rightarrow> bytes list \<Rightarrow> bytes list" where
  "push_bool lib tx encodings =
     (if tx = ascii ''true'' then push_encoding lib (JBool True) encodings
      else if tx = ascii ''false'' then push_encoding lib (JBool False) encodings
      else encodings)"

definition attribute_encodings :: "store_lib \<Rightarrow> json \<Rightarrow> bytes list" where
  "attribute_encodings lib v =
     (let encodings = [canonical_value lib v] in
      case scalar_text (numbers lib) v of
        None \<Rightarrow> encodings
      | Some tx \<Rightarrow> push_bool lib tx (push_number lib tx (push_encoding lib (JString tx) encodings)))"

definition attribute_candidates :: "'seg reader \<Rightarrow> store_lib \<Rightarrow> 'seg \<Rightarrow> bytes \<Rightarrow> json \<Rightarrow> u64 list" where
  "attribute_candidates rd lib g key v =
     (case attribute_encodings lib v of
        [encoding] \<Rightarrow> rd_candidates rd g key encoding
      | encodings \<Rightarrow> remdups_adj (sort (concat (map (rd_candidates rd g key) encodings))))"

text \<open>A number is printed as its text, and its text reads back as a number of the same text. The second is
  asked of the numbers at hand only: \<open>serde_json\<close> promises it for integers, and for a float only with its
  feature \<open>float_roundtrip\<close>.\<close>

definition prints_numbers :: "store_lib \<Rightarrow> bool" where
  "prints_numbers lib \<longleftrightarrow> (\<forall>n. json_text lib (JNumber n) = number_text (numbers lib) n)"

definition reads_back :: "store_lib \<Rightarrow> number \<Rightarrow> bool" where
  "reads_back lib n =
     (case json_parse lib (number_text (numbers lib) n) of
        Some (JNumber m) \<Rightarrow> number_text (numbers lib) m = number_text (numbers lib) n
      | _ \<Rightarrow> False)"

definition searchable :: "store_lib \<Rightarrow> span \<Rightarrow> bool" where
  "searchable lib s \<longleftrightarrow> list_all (\<lambda>(k, v). case v of JNumber n \<Rightarrow> reads_back lib n | _ \<Rightarrow> True) (attributes s)"

lemma push_encoding_set: "set (push_encoding lib v es) = insert (canonical_value lib v) (set es)"
  by (auto simp: push_encoding_def Let_def)

lemma push_number_keeps: "c \<in> set es \<Longrightarrow> c \<in> set (push_number lib tx es)"
  by (simp add: push_number_def push_encoding_set split: option.split json.split)

lemma push_bool_keeps: "c \<in> set es \<Longrightarrow> c \<in> set (push_bool lib tx es)"
  by (simp add: push_bool_def push_encoding_set)

lemma encodings_of_value: "canonical_value lib v \<in> set (attribute_encodings lib v)"
  by (simp add: attribute_encodings_def Let_def push_encoding_set push_number_keeps push_bool_keeps split: option.split)

lemma encodings_of_string: "scalar_text (numbers lib) v = Some tx \<Longrightarrow> canonical_value lib (JString tx) \<in> set (attribute_encodings lib v)"
  by (simp add: attribute_encodings_def Let_def push_encoding_set push_number_keeps push_bool_keeps)

lemma encodings_of_number:
  assumes "scalar_text (numbers lib) v = Some (number_text (numbers lib) n)" and "prints_numbers lib" and "reads_back lib n"
  shows "canonical_value lib (JNumber n) \<in> set (attribute_encodings lib v)"
proof -
  obtain m where "json_parse lib (number_text (numbers lib) n) = Some (JNumber m)"
    "number_text (numbers lib) m = number_text (numbers lib) n"
    using assms(3) by (auto simp: reads_back_def split: option.splits json.splits)
  then have "canonical_value lib (JNumber n) \<in> set (push_number lib (number_text (numbers lib) n) es)" for es
    using assms(2) by (simp add: push_number_def push_encoding_set canonical_value_def prints_numbers_def)
  then show ?thesis using assms(1) by (simp add: attribute_encodings_def Let_def push_bool_keeps)
qed

lemma encodings_of_bool:
  assumes "scalar_text (numbers lib) v = Some (ascii (if b then ''true'' else ''false''))"
  shows "canonical_value lib (JBool b) \<in> set (attribute_encodings lib v)"
proof -
  have "ascii ''false'' \<noteq> ascii ''true''" by (simp add: ascii_def)
  then show ?thesis
    using assms by (cases b) (simp_all add: attribute_encodings_def Let_def push_bool_def push_encoding_set)
qed

text \<open>The encodings of a value cover every value equal to it across types.\<close>

lemma encodings_cover:
  assumes "attribute_equals (numbers lib) s key v" and "prints_numbers lib" and "searchable lib s"
  obtains held where "map_of (attributes s) key = Some held" "canonical_value lib held \<in> set (attribute_encodings lib v)"
proof -
  obtain held where h: "map_of (attributes s) key = Some held"
    using assms(1) by (auto simp: attribute_equals_def split: option.splits)
  have "canonical_value lib held \<in> set (attribute_encodings lib v)"
  proof (cases "held = v")
    case True
    then show ?thesis using encodings_of_value by simp
  next
    case False
    then obtain tx where t: "scalar_text (numbers lib) held = Some tx" "scalar_text (numbers lib) v = Some tx"
      using assms(1) h by (auto simp: attribute_equals_def split: option.splits)
    have "(key, held) \<in> set (attributes s)" using h by (rule map_of_SomeD)
    then have "case held of JNumber n \<Rightarrow> reads_back lib n | _ \<Rightarrow> True"
      using assms(3) unfolding searchable_def list_all_iff by blast
    then show ?thesis
      using t encodings_of_string encodings_of_number assms(2) encodings_of_bool
      by (cases held) (auto simp: scalar_text_def split: if_splits)
  qed
  with h show thesis by (rule that)
qed

section \<open>The probe\<close>

text \<open>\<open>consider\<close>: the shortest list seen so far, the first of equals.\<close>

definition narrower :: "u64 list \<Rightarrow> u64 list option \<Rightarrow> u64 list option" where
  "narrower offsets best =
     (case best of None \<Rightarrow> Some offsets | Some current \<Rightarrow> if length offsets < length current then Some offsets else best)"

definition probes :: "'seg reader \<Rightarrow> store_lib \<Rightarrow> 'seg \<Rightarrow> span_filter \<Rightarrow> u64 list list" where
  "probes rd lib g f =
     (case f_service f of None \<Rightarrow> [] | Some v \<Rightarrow> [rd_candidates rd g IDX_SERVICE v])
     @ (case f_name f of None \<Rightarrow> [] | Some v \<Rightarrow> [rd_candidates rd g IDX_NAME v])
     @ (case f_tenant f of None \<Rightarrow> [] | Some t \<Rightarrow> if t = [] then [] else [rd_candidates rd g IDX_TENANT t])
     @ map (\<lambda>(key, v). attribute_candidates rd lib g key v) (filter (\<lambda>(key, v). \<not> reserved key) (f_attributes f))"

definition select_probe ::
  "'seg reader \<Rightarrow> store_lib \<Rightarrow> 'seg \<Rightarrow> span_filter \<Rightarrow> query option \<Rightarrow> store_error + u64 list" where
  "select_probe rd lib g f cq =
     (let best = fold narrower (probes rd lib g f) None in
      and_then (case cq of None \<Rightarrow> Inr None | Some q \<Rightarrow> rd_content_candidates rd g q) (\<lambda>found.
        let best = (case found of None \<Rightarrow> best | Some offsets \<Rightarrow> narrower offsets best)
        in Inr (case best of None \<Rightarrow> rd_offsets rd g | Some offsets \<Rightarrow> offsets)))"

lemma fold_narrower:
  "(case fold narrower xss best of None \<Rightarrow> best = None \<and> xss = [] | Some xs \<Rightarrow> xs \<in> set xss \<or> best = Some xs)"
proof (induction xss arbitrary: best)
  case (Cons xs xss)
  have "narrower xs best \<noteq> None" "narrower xs best = Some xs \<or> narrower xs best = best"
    by (auto simp: narrower_def split: option.split)
  then show ?case using Cons.IH [of "narrower xs best"] by (auto split: option.splits)
qed (auto split: option.split)

lemma admits_all_mono: "admits_all rd g ss P cand \<Longrightarrow> (\<And>s. s \<in> set ss \<Longrightarrow> Q s \<Longrightarrow> P s) \<Longrightarrow> admits_all rd g ss Q cand"
  by (auto simp: admits_all_def)

text \<open>A filter's match satisfies every indexed condition of the filter.\<close>

lemma span_matches_iff:
  "span_matches lib s f cq \<longleftrightarrow>
     (case cq of None \<Rightarrow> True | Some q \<Rightarrow> query_matches q (content_strs s))
     \<and> \<not> fails (f_tenant f) (\<lambda>t. tenant s \<noteq> t) \<and> \<not> fails (f_service f) (\<lambda>v. service s \<noteq> v)
     \<and> \<not> fails (f_name f) (\<lambda>v. name s \<noteq> v) \<and> \<not> fails (f_since_ns f) (\<lambda>since. start_time_ns s < since)
     \<and> \<not> fails (f_until_ns f) (\<lambda>until. start_time_ns s > until)
     \<and> list_all (\<lambda>(key, v). attribute_equals lib s key v) (f_attributes f)
     \<and> \<not> fails (f_status f) (\<lambda>v. status s \<noteq> v) \<and> status s \<notin> set (f_excluded_statuses f)
     \<and> \<not> fails (f_min_duration_ns f) (\<lambda>minimum. duration s < minimum)
     \<and> \<not> fails (f_max_duration_ns f) (\<lambda>maximum. duration s > maximum)
     \<and> list_all (\<lambda>(key, bound). case numeric_attribute lib s key of
                   None \<Rightarrow> False | Some v \<Rightarrow> f64_ge lib v bound) (f_min_attributes f)
     \<and> list_all (\<lambda>(key, bound). case numeric_attribute lib s key of
                   None \<Rightarrow> False | Some v \<Rightarrow> f64_ge lib bound v) (f_max_attributes f)
     \<and> \<not> list_ex (\<lambda>(key, v). map_of (attributes s) key = Some v) (f_excluded_attributes f)"
proof -
  have m: "span_matches lib s f cq \<longleftrightarrow>
      (case cq of None \<Rightarrow> True | Some q \<Rightarrow> query_matches q (content_strs s)) \<and> span_matches_without_content lib s f"
    by (cases cq) (simp_all add: span_matches_def)
  show ?thesis
    unfolding m span_matches_without_content_def if_bool_eq_conj by (rule iffI; elim conjE; intro conjI; simp)
qed

lemma matchesD:
  assumes "span_matches lib s f cq"
  shows "f_service f = Some v \<Longrightarrow> service s = v" and "f_name f = Some v \<Longrightarrow> name s = v"
    and "f_tenant f = Some v \<Longrightarrow> tenant s = v" and "cq = Some q \<Longrightarrow> query_matches q (content_strs s)"
    and "f_since_ns f = Some t \<Longrightarrow> t \<le> start_time_ns s" and "f_until_ns f = Some t \<Longrightarrow> start_time_ns s \<le> t"
    and "(key, w) \<in> set (f_attributes f) \<Longrightarrow> attribute_equals lib s key w"
  using assms unfolding span_matches_iff by (simp_all add: not_less) (auto simp: list_all_iff)

text \<open>Every probe keeps every match of the filter.\<close>

context segment_reads
begin

lemma admitted_offsets: "admits_all rd g ss P cand \<Longrightarrow> sorted_wrt (<) cand" "admits_all rd g ss P cand \<Longrightarrow> set cand \<subseteq> set (rd_offsets rd g)"
  by (simp_all add: admits_all_def)

lemma field_probe:
  assumes "holds g ss" and "\<And>s. s \<in> set ss \<Longrightarrow> P s \<Longrightarrow> (key, v) \<in> set (index_attributes lib s)"
  shows "admits_all rd g ss P (rd_candidates rd g key v)"
  by (rule admits_all_mono [OF candidates_complete [OF assms(1)] assms(2)])

lemma attribute_probe:
  assumes h: "holds g ss" and "list_all (searchable lib) ss" and "prints_numbers lib" and "\<not> reserved key"
  shows "admits_all rd g ss (\<lambda>s. attribute_equals (numbers lib) s key v) (attribute_candidates rd lib g key v)"
proof -
  let ?P = "\<lambda>s. attribute_equals (numbers lib) s key v" and ?es = "attribute_encodings lib v"
  have cover: "\<exists>e \<in> set ?es. (key, e) \<in> set (index_attributes lib s)" if "s \<in> set ss" "?P s" for s
  proof -
    have "searchable lib s" using assms(2) that(1) by (simp add: list_all_iff)
    from encodings_cover [OF that(2) assms(3) this] obtain held where
      "map_of (attributes s) key = Some held" "canonical_value lib held \<in> set ?es" by blast
    then show ?thesis using indexed_attribute [OF stored_keys [OF h that(1)]] assms(4) by blast
  qed
  show ?thesis
  proof (cases "\<exists>e. ?es = [e]")
    case True
    then obtain e where e: "?es = [e]" by blast
    have "admits_all rd g ss ?P (rd_candidates rd g key e)" using cover e by (intro field_probe [OF h]) simp
    then show ?thesis by (simp add: attribute_candidates_def e)
  next
    case False
    then have c: "attribute_candidates rd lib g key v = remdups_adj (sort (concat (map (rd_candidates rd g key) ?es)))"
      by (auto simp: attribute_candidates_def split: list.split)
    note each = candidates_complete [OF h, of key]
    have "set (attribute_candidates rd lib g key v) \<subseteq> set (rd_offsets rd g)"
      using admitted_offsets(2) [OF each] by (auto simp: c)
    moreover have "rd_offsets rd g ! i \<in> set (attribute_candidates rd lib g key v)" if "i < length ss" "?P (ss ! i)" for i
      using cover [of "ss ! i"] that each by (auto simp: c admits_all_def)
    ultimately show ?thesis using remdups_adj_strict [OF sorted_sort] by (simp add: admits_all_def c)
  qed
qed

lemma probe_admits:
  assumes h: "holds g ss" and "list_all (searchable lib) ss" and "prints_numbers lib" and "xs \<in> set (probes rd lib g f)"
  shows "admits_all rd g ss (\<lambda>s. span_matches (numbers lib) s f cq) xs"
proof -
  let ?P = "\<lambda>s. span_matches (numbers lib) s f cq"
  note D = matchesD [of "numbers lib" _ f cq]
  have "(\<exists>v. f_service f = Some v \<and> xs = rd_candidates rd g IDX_SERVICE v)
      \<or> (\<exists>v. f_name f = Some v \<and> xs = rd_candidates rd g IDX_NAME v)
      \<or> (\<exists>t. f_tenant f = Some t \<and> t \<noteq> [] \<and> xs = rd_candidates rd g IDX_TENANT t)
      \<or> (\<exists>key v. (key, v) \<in> set (f_attributes f) \<and> \<not> reserved key \<and> xs = attribute_candidates rd lib g key v)"
    using assms(4) by (cases "f_service f"; cases "f_name f"; cases "f_tenant f"; auto simp: probes_def split: if_splits)
  then show ?thesis
  proof (elim disjE exE conjE)
    show ?thesis if "f_service f = Some v" "xs = rd_candidates rd g IDX_SERVICE v" for v
      unfolding that(2) using D(1) that(1) indexed_fields(1) by (intro field_probe [OF h]) blast
    show ?thesis if "f_name f = Some v" "xs = rd_candidates rd g IDX_NAME v" for v
      unfolding that(2) using D(2) that(1) indexed_fields(2) by (intro field_probe [OF h]) blast
    show ?thesis if "f_tenant f = Some t" "t \<noteq> []" "xs = rd_candidates rd g IDX_TENANT t" for t
      unfolding that(3) using D(3) that(1,2) indexed_fields(3) by (intro field_probe [OF h]) blast
    show ?thesis if "(key, v) \<in> set (f_attributes f)" "\<not> reserved key" "xs = attribute_candidates rd lib g key v" for key v
      unfolding that(3) using D(7) that(1) by (intro admits_all_mono [OF attribute_probe [OF assms(1-3) that(2)]]) blast
  qed
qed

lemma offsets_admit: "holds g ss \<Longrightarrow> admits_all rd g ss P (rd_offsets rd g)"
  using all_offsets [of g ss] by (auto simp: admits_all_def)

lemma select_probe_admits:
  assumes h: "holds g ss" and "list_all (searchable lib) ss" and "prints_numbers lib"
  obtains offsets where "select_probe rd lib g f cq = Inr offsets"
    "admits_all rd g ss (\<lambda>s. span_matches (numbers lib) s f cq) offsets"
proof -
  let ?P = "\<lambda>s. span_matches (numbers lib) s f cq" and ?ps = "probes rd lib g f"
  have best: "case fold narrower ?ps None of None \<Rightarrow> True | Some xs \<Rightarrow> admits_all rd g ss ?P xs"
    using fold_narrower [where xss = ?ps and best = None] probe_admits [OF assms] by (auto split: option.splits)
  obtain found where found: "(case cq of None \<Rightarrow> Inr None | Some q \<Rightarrow> rd_content_candidates rd g q) = Inr found"
    "\<And>cand. found = Some cand \<Longrightarrow> admits_all rd g ss ?P cand"
  proof (cases cq)
    case (Some q)
    obtain found where "rd_content_candidates rd g q = Inr found"
      "\<And>cand. found = Some cand \<Longrightarrow> admits_all rd g ss (\<lambda>s. query_matches q (content_strs s)) cand"
      using content_complete [OF h, of q] by blast
    then show ?thesis using Some matchesD(4) [of "numbers lib" _ f cq q] by (intro that [of found]) (auto elim: admits_all_mono)
  qed (use that in auto)
  let ?best = "case found of None \<Rightarrow> fold narrower ?ps None | Some offsets \<Rightarrow> narrower offsets (fold narrower ?ps None)"
  have "case ?best of None \<Rightarrow> True | Some xs \<Rightarrow> admits_all rd g ss ?P xs"
    using best found(2) by (auto simp: narrower_def split: option.splits)
  moreover have "select_probe rd lib g f cq = Inr (case ?best of None \<Rightarrow> rd_offsets rd g | Some offsets \<Rightarrow> offsets)"
    by (simp add: select_probe_def found(1) Let_def)
  ultimately show thesis using that offsets_admit [OF h] by (cases ?best) auto
qed

end

end
