(* ===== verification/Supersede.thy ===== *)
theory Supersede
  imports Store_Reads
begin

text \<open>
  The spans behind a list of offsets, the position of a cursor in such a list (\<open>first_offset_after\<close>), and
  last-write-wins over segments (\<open>Segment::contains_key\<close>, \<open>key_hashes\<close>, \<open>may_hold_key\<close>, \<open>superseded_by_newer\<close> of
  \<open>src/src/lib.rs\<close>, \<open>key_hash\<close> of \<open>src/src/analytics.rs\<close>).
\<close>

section \<open>The spans behind offsets\<close>

definition span_at :: "'seg reader \<Rightarrow> store_lib \<Rightarrow> 'seg \<Rightarrow> u64 \<Rightarrow> store_error + span" where
  "span_at rd lib g offset = and_then (rd_record_at rd g offset) (record_to_span lib)"

definition reads_as :: "'seg reader \<Rightarrow> store_lib \<Rightarrow> 'seg \<Rightarrow> u64 list \<Rightarrow> span list \<Rightarrow> bool" where
  "reads_as rd lib g offsets spans \<longleftrightarrow> list_all2 (\<lambda>offset s. span_at rd lib g offset = Inr s) offsets spans"

lemma sorted_subset_subseq:
  "sorted_wrt (<) xs \<Longrightarrow> sorted_wrt (<) ys \<Longrightarrow> set xs \<subseteq> set ys \<Longrightarrow> subseq xs ys" for xs :: "'a::linorder list"
proof (induction ys arbitrary: xs)
  case (Cons y ys)
  show ?case
  proof (cases "y \<in> set xs")
    case True
    then obtain x xs' where xs: "xs = x # xs'" by (cases xs) auto
    have "x = y" using True Cons.prems xs by (auto dest: less_trans)
    then have "set xs' \<subseteq> set ys" using Cons.prems xs by auto
    with Cons.IH [of xs'] Cons.prems xs \<open>x = y\<close> show ?thesis by simp
  next
    case False
    with Cons.IH [of xs] Cons.prems show ?thesis by auto
  qed
qed simp

lemma subseq_list_all2:
  "subseq xs ys \<Longrightarrow> list_all2 R ys zs \<Longrightarrow> \<exists>ws. subseq ws zs \<and> list_all2 R xs ws"
proof (induction arbitrary: zs rule: list_emb.induct)
  case (list_emb_Nil ys)
  show ?case by (intro exI [of _ "[]"]) simp
next
  case (list_emb_Cons xs ys y)
  then obtain z zs' where "zs = z # zs'" "list_all2 R ys zs'" by (auto simp: list_all2_Cons1)
  then show ?case using list_emb_Cons.IH by (auto intro: list_emb.list_emb_Cons)
next
  case (list_emb_Cons2 x y xs ys)
  then obtain z zs' where z: "zs = z # zs'" "R y z" "list_all2 R ys zs'" by (auto simp: list_all2_Cons1)
  then obtain ws where "subseq ws zs'" "list_all2 R xs ws" using list_emb_Cons2.IH by blast
  then show ?case using z list_emb_Cons2.hyps by (intro exI [of _ "z # ws"]) simp
qed

context segment_reads
begin

lemma span_read: "holds g ss \<Longrightarrow> i < length ss \<Longrightarrow> span_at rd lib g (rd_offsets rd g ! i) = Inr (ss ! i)"
  using record_read [of g ss i] by (auto simp: span_at_def)

lemma all_read: "holds g ss \<Longrightarrow> reads_as rd lib g (rd_offsets rd g) ss"
  using all_offsets [of g ss] span_read [of g ss] by (auto simp: reads_as_def list_all2_conv_all_nth)

text \<open>Admitted offsets read as a part of the segment, in its order, that keeps every match.\<close>

lemma admitted_reads:
  assumes h: "holds g ss" and "distinct ss" and a: "admits_all rd g ss P cand"
  obtains sel where "reads_as rd lib g cand sel" "subseq sel ss" "\<And>s. s \<in> set ss \<Longrightarrow> P s \<Longrightarrow> s \<in> set sel"
proof -
  have "subseq cand (rd_offsets rd g)"
    using a all_offsets [OF h] by (intro sorted_subset_subseq) (auto simp: admits_all_def)
  then obtain sel where sel: "subseq sel ss" "reads_as rd lib g cand sel"
    using subseq_list_all2 all_read [OF h] unfolding reads_as_def by blast
  have "s \<in> set sel" if s: "s \<in> set ss" "P s" for s
  proof -
    obtain i where i: "i < length ss" "ss ! i = s" using s(1) by (auto simp: in_set_conv_nth)
    then have "rd_offsets rd g ! i \<in> set cand" using a s(2) by (auto simp: admits_all_def)
    then obtain j where "j < length cand" "cand ! j = rd_offsets rd g ! i" by (auto simp: in_set_conv_nth)
    then have "span_at rd lib g (rd_offsets rd g ! i) = Inr (sel ! j)" "j < length sel"
      using sel(2) by (auto simp: reads_as_def list_all2_conv_all_nth)
    then show ?thesis using span_read [OF h i(1)] i(2) by auto
  qed
  with sel show thesis by (intro that)
qed

end

section \<open>The position of a cursor\<close>

function first_offset_after ::
  "'seg reader \<Rightarrow> store_lib \<Rightarrow> 'seg \<Rightarrow> u64 list \<Rightarrow> span_cursor \<Rightarrow> nat \<Rightarrow> nat \<Rightarrow> store_error + nat" where
  "first_offset_after rd lib g offsets cursor low high =
     (if low < high then
        let middle = low + (high - low) div 2 in
        and_then (span_at rd lib g (offsets ! middle)) (\<lambda>s.
          if span_after_cursor s cursor then first_offset_after rd lib g offsets cursor low middle
          else first_offset_after rd lib g offsets cursor (middle + 1) high)
      else Inr low)"
  by pat_completeness auto
termination
  by (relation "measure (\<lambda>(rd, lib, g, offsets, cursor, low, high). high - low)") auto

declare first_offset_after.simps [simp del]

abbreviation in_order :: "span list \<Rightarrow> bool" where
  "in_order ss \<equiv> sorted_wrt compare_spans_lt ss"

lemma in_order_keys: "in_order ss \<longleftrightarrow> sorted_wrt (<) (map order_key ss)"
  by (simp add: sorted_wrt_map compare_spans_lt_def [abs_def])

lemma in_order_distinct: "in_order ss \<Longrightarrow> distinct ss"
  unfolding in_order_keys by (metis distinct_map strict_distinct)

lemma in_order_subseq: "subseq xs ys \<Longrightarrow> in_order ys \<Longrightarrow> in_order xs"
proof (induction rule: list_emb.induct)
  case (list_emb_Cons2 x y xs ys)
  then show ?case by (auto dest: list_emb_set)
qed simp_all

lemma first_offset_after_splits:
  assumes reads: "reads_as rd lib g offsets ss" and "in_order ss"
  shows "low \<le> high \<Longrightarrow> high \<le> length ss \<Longrightarrow> (\<forall>i < low. \<not> span_after_cursor (ss ! i) c) \<Longrightarrow>
    (\<forall>i. high \<le> i \<longrightarrow> i < length ss \<longrightarrow> span_after_cursor (ss ! i) c) \<Longrightarrow>
    \<exists>x \<le> length ss. first_offset_after rd lib g offsets c low high = Inr x
      \<and> (\<forall>i < x. \<not> span_after_cursor (ss ! i) c) \<and> (\<forall>i. x \<le> i \<longrightarrow> i < length ss \<longrightarrow> span_after_cursor (ss ! i) c)"
proof (induction "high - low" arbitrary: low high rule: less_induct)
  case less
  have mono: "span_after_cursor (ss ! i) c \<Longrightarrow> i \<le> j \<Longrightarrow> j < length ss \<Longrightarrow> span_after_cursor (ss ! j) c" for i j
    using assms(2) by (cases "i = j")
      (auto simp: span_after_cursor_def compare_spans_lt_def sorted_wrt_iff_nth_less intro: less_trans)
  show ?case
  proof (cases "low < high")
    case False
    with less.prems show ?thesis by (subst first_offset_after.simps) auto
  next
    case True
    define m where "m = low + (high - low) div 2"
    have m: "low \<le> m" "m < high" "m < length ss" using True less.prems(2) by (auto simp: m_def)
    have at: "span_at rd lib g (offsets ! m) = Inr (ss ! m)"
      using reads m(3) by (auto simp: reads_as_def list_all2_conv_all_nth)
    show ?thesis
    proof (cases "span_after_cursor (ss ! m) c")
      case after: True
      have "\<exists>x \<le> length ss. first_offset_after rd lib g offsets c low m = Inr x
          \<and> (\<forall>i < x. \<not> span_after_cursor (ss ! i) c) \<and> (\<forall>i. x \<le> i \<longrightarrow> i < length ss \<longrightarrow> span_after_cursor (ss ! i) c)"
        using less.prems m mono [OF after] by (intro less.hyps) auto
      then show ?thesis using True at after by (subst first_offset_after.simps) (simp add: Let_def m_def)
    next
      case before: False
      have "\<exists>x \<le> length ss. first_offset_after rd lib g offsets c (m + 1) high = Inr x
          \<and> (\<forall>i < x. \<not> span_after_cursor (ss ! i) c) \<and> (\<forall>i. x \<le> i \<longrightarrow> i < length ss \<longrightarrow> span_after_cursor (ss ! i) c)"
        using less.prems m mono [of _ m] before by (intro less.hyps) (auto simp: less_Suc_eq_le)
      then show ?thesis using True at before by (subst first_offset_after.simps) (simp add: Let_def m_def)
    qed
  qed
qed

text \<open>What is left of the list after the position is what is left of the spans after the cursor.\<close>

lemma first_offset_after_drops:
  assumes reads: "reads_as rd lib g offsets ss" and "in_order ss"
  obtains x where "first_offset_after rd lib g offsets c 0 (length offsets) = Inr x"
    "drop x ss = filter (\<lambda>s. span_after_cursor s c) ss" "reads_as rd lib g (drop x offsets) (drop x ss)" "x \<le> length offsets"
proof -
  have len: "length offsets = length ss" using reads by (simp add: reads_as_def list_all2_lengthD)
  from first_offset_after_splits [OF assms, of 0 "length ss" c] obtain x where
    x: "x \<le> length ss" "first_offset_after rd lib g offsets c 0 (length ss) = Inr x"
    "\<forall>i < x. \<not> span_after_cursor (ss ! i) c" "\<forall>i. x \<le> i \<longrightarrow> i < length ss \<longrightarrow> span_after_cursor (ss ! i) c" by auto
  have "filter (\<lambda>s. span_after_cursor s c) (take x ss) = []"
    using x(1,3) by (auto simp: filter_empty_conv in_set_conv_nth)
  moreover have "filter (\<lambda>s. span_after_cursor s c) (drop x ss) = drop x ss"
    using x(1,4) by (auto simp: filter_id_conv in_set_conv_nth)
  ultimately have "filter (\<lambda>s. span_after_cursor s c) ss = drop x ss"
    by (metis append_Nil append_take_drop_id filter_append)
  then show thesis
    using that [of x] x(1,2) len list_all2_dropI [of _ offsets ss x] reads by (simp add: reads_as_def)
qed

section \<open>Which segments hold a key\<close>

text \<open>A segment of the store: the open file, the key hashes of its rollup sidecar when one matches this
  generation of the file, and whether its path names a local file at all.\<close>

record 'seg store_segment =
  os_seg :: 'seg
  os_rollup :: "u64 list option"
  os_local_sidecars :: bool

definition trace_spans :: "'seg reader \<Rightarrow> store_lib \<Rightarrow> 'seg \<Rightarrow> bytes \<Rightarrow> store_error + span list" where
  "trace_spans rd lib g t = and_then (rd_query_trace rd g t) (records_to_spans lib)"

definition contains_key :: "'seg reader \<Rightarrow> store_lib \<Rightarrow> 'seg \<Rightarrow> span_key \<Rightarrow> store_error + bool" where
  "contains_key rd lib g k =
     (case k of (ten, tr, sp) \<Rightarrow>
        and_then (trace_spans rd lib g tr) (\<lambda>spans. Inr (list_ex (\<lambda>s. span_id s = sp \<and> tenant s = ten) spans)))"

definition key_hash :: "span_key \<Rightarrow> u64" where
  "key_hash k =
     (case k of (ten, tr, sp) \<Rightarrow>
        fold (\<lambda>b h. (h XOR ucast b) * 0x100000001b3) (ten @ [0] @ tr @ [0] @ sp) 0xcbf29ce484222325)"

fun spans_parsed_budgeted :: "'seg reader \<Rightarrow> store_lib \<Rightarrow> 'seg \<Rightarrow> u64 list \<Rightarrow> nat \<Rightarrow> span list \<Rightarrow> span list task" where
  "spans_parsed_budgeted rd lib g [] since_check spans = next_do check (\<lambda>_. give spans)"
| "spans_parsed_budgeted rd lib g (offset # offsets) since_check spans =
     next_do (check_every since_check) (\<lambda>since_check.
     next_do (lift_io (span_at rd lib g offset)) (\<lambda>s.
       spans_parsed_budgeted rd lib g offsets since_check (spans @ [s])))"

definition key_hashes :: "'seg reader \<Rightarrow> store_lib \<Rightarrow> 'seg store_segment \<Rightarrow> u64 list task" where
  "key_hashes rd lib seg =
     (case if os_local_sidecars seg then os_rollup seg else None of
        Some hashes \<Rightarrow> give hashes
      | None \<Rightarrow>
          next_do (spans_parsed_budgeted rd lib (os_seg seg) (rd_offsets rd (os_seg seg)) 0 []) (\<lambda>spans.
            give (map (\<lambda>s. key_hash (key_of s)) spans)))"

definition may_hold_key :: "'seg reader \<Rightarrow> store_lib \<Rightarrow> 'seg store_segment \<Rightarrow> u64 \<Rightarrow> bool task" where
  "may_hold_key rd lib seg hash =
     (if \<not> os_local_sidecars seg then give True
      else next_do (key_hashes rd lib seg) (\<lambda>hashes. give (hash \<in> set hashes)))"

text \<open>The loop over the segments after the candidate's own.\<close>

fun superseded_by_newer :: "'seg reader \<Rightarrow> store_lib \<Rightarrow> 'seg store_segment list \<Rightarrow> span \<Rightarrow> bool task" where
  "superseded_by_newer rd lib [] s = give False"
| "superseded_by_newer rd lib (newer # rest) s =
     next_do check (\<lambda>_.
     next_do (may_hold_key rd lib newer (key_hash (key_of s))) (\<lambda>may.
       if \<not> may then superseded_by_newer rd lib rest s
       else
         next_do (lift_io (contains_key rd lib (os_seg newer) (key_of s))) (\<lambda>found.
           if found then give True else superseded_by_newer rd lib rest s)))"

text \<open>The segment serves the spans, and a sidecar that matches it hashes every one of them.\<close>

definition segment_ok :: "('seg \<Rightarrow> span list \<Rightarrow> bool) \<Rightarrow> 'seg store_segment \<Rightarrow> span list \<Rightarrow> bool" where
  "segment_ok has seg ss \<longleftrightarrow>
     has (os_seg seg) ss \<and> (\<forall>hashes. os_rollup seg = Some hashes \<longrightarrow> (\<lambda>s. key_hash (key_of s)) ` set ss \<subseteq> set hashes)"

context segment_reads
begin

lemma trace_spans_answers: "holds g ss \<Longrightarrow> trace_spans rd lib g t = Inr (filter (\<lambda>s. trace_id s = t) ss)"
  using trace_read [of g ss t] by (auto simp: trace_spans_def)

lemma contains_key_answers: "holds g ss \<Longrightarrow> contains_key rd lib g k = Inr (k \<in> key_of ` set ss)"
  by (cases k) (auto simp: contains_key_def trace_spans_answers list_ex_iff key_of_def)

lemma parsed_answers:
  "reads_as rd lib g offsets ss \<Longrightarrow> answers (spans_parsed_budgeted rd lib g offsets n acc) (acc @ ss)"
proof (induction offsets arbitrary: ss n acc)
  case Nil
  then have "ss = []" by (simp add: reads_as_def)
  then show ?case by (auto intro!: next_settles settling)
next
  case (Cons offset offsets)
  then obtain s ss' where ss: "ss = s # ss'" "span_at rd lib g offset = Inr s" "reads_as rd lib g offsets ss'"
    by (auto simp: reads_as_def list_all2_Cons1)
  have "answers (spans_parsed_budgeted rd lib g offsets m (acc @ [s])) ((acc @ [s]) @ ss')" for m using Cons.IH [OF ss(3)] .
  then show ?case by (auto simp: ss(1) intro!: every_settles next_settles [OF lift_answers [OF ss(2)]])
qed

lemma may_hold_key_answers:
  assumes "segment_ok holds seg ss"
  obtains may where "answers (may_hold_key rd lib seg (key_hash k)) may" "\<not> may \<Longrightarrow> k \<notin> key_of ` set ss"
proof (cases "os_local_sidecars seg")
  case True
  obtain hashes where h: "answers (key_hashes rd lib seg) hashes" "(\<lambda>s. key_hash (key_of s)) ` set ss \<subseteq> set hashes"
  proof (cases "os_rollup seg")
    case None
    have "holds (os_seg seg) ss" using assms by (simp add: segment_ok_def)
    from parsed_answers [OF all_read [OF this], of 0 "[]"]
    have "answers (key_hashes rd lib seg) (map (\<lambda>s. key_hash (key_of s)) ss)"
      by (auto simp: key_hashes_def True None intro: next_settles settling)
    then show ?thesis by (rule that) simp
  next
    case (Some hashes)
    then show ?thesis using assms True by (intro that [of hashes]) (auto simp: key_hashes_def segment_ok_def intro: settling)
  qed
  then have "answers (may_hold_key rd lib seg (key_hash k)) (key_hash k \<in> set hashes)"
    by (auto simp: may_hold_key_def True intro: next_settles settling)
  then show thesis by (rule that) (use h(2) in auto)
next
  case False
  then show thesis by (intro that [of True]) (auto simp: may_hold_key_def intro: settling)
qed

text \<open>The prefilter changes nothing: the answer is whether a newer segment holds the key.\<close>

lemma superseded_answers:
  "list_all2 (segment_ok holds) segs sss \<Longrightarrow>
    answers (superseded_by_newer rd lib segs s) (key_of s \<in> key_of ` set (concat sss))"
proof (induction segs sss rule: list_all2_induct)
  case Nil
  show ?case by (auto intro: settling)
next
  case (Cons seg segs ss sss)
  obtain may where m: "answers (may_hold_key rd lib seg (key_hash (key_of s))) may"
    "\<not> may \<Longrightarrow> key_of s \<notin> key_of ` set ss" using may_hold_key_answers [OF Cons.hyps(1)] by blast
  have found: "contains_key rd lib (os_seg seg) (key_of s) = Inr (key_of s \<in> key_of ` set ss)"
    using Cons.hyps(1) by (intro contains_key_answers) (simp add: segment_ok_def)
  have "answers (if \<not> may then superseded_by_newer rd lib segs s
      else next_do (lift_io (contains_key rd lib (os_seg seg) (key_of s))) (\<lambda>found.
        if found then give True else superseded_by_newer rd lib segs s))
    (key_of s \<in> key_of ` set (concat (ss # sss)))"
    using m(2) Cons.IH by (auto simp: image_Un intro!: next_settles [OF lift_answers [OF found]] settling)
  then show ?case by (auto intro!: next_settles [OF check_settles] next_settles [OF m(1)])
qed

end

end
