(* ===== verification/Query_View.thy ===== *)
theory Query_View
  imports Supersede "HOL-Library.AList"
begin

text \<open>
  The queries of the store over one write buffer and one list of segments (\<open>src/src/lib.rs\<close>):
  \<open>query_view_costed\<close> with its three paths, \<open>query_view\<close> and \<open>fold_view\<close>. The erasure mask, here \<open>erased\<close>, is the predicate of the spans it covers. The process-wide metrics
  counters only count, and the memo of a block walk only repeats a read (\<open>Block_Cache\<close>), so neither is here.
\<close>

section \<open>What a query keeps\<close>

definition visible_to :: "(span \<Rightarrow> bool) option \<Rightarrow> span \<Rightarrow> bool" where
  "visible_to erased s = (case erased of None \<Rightarrow> True | Some covers \<Rightarrow> \<not> covers s)"

definition after :: "span_cursor option \<Rightarrow> span \<Rightarrow> bool" where
  "after cursor s = (case cursor of None \<Rightarrow> True | Some c \<Rightarrow> span_after_cursor s c)"

definition content_query :: "span_filter \<Rightarrow> query option" where
  "content_query f = map_option query_new (f_content f)"

definition keeps_span ::
  "store_lib \<Rightarrow> span_filter \<Rightarrow> query option \<Rightarrow> span_cursor option \<Rightarrow> (span \<Rightarrow> bool) option \<Rightarrow> span \<Rightarrow> bool" where
  "keeps_span lib f cq cursor erased s \<longleftrightarrow>
     visible_to erased s \<and> span_matches (numbers lib) s f cq \<and> after cursor s"

text \<open>A segment whose header or content summary rules every match out.\<close>

definition prunes :: "'seg reader \<Rightarrow> 'seg \<Rightarrow> span_filter \<Rightarrow> query option \<Rightarrow> bool" where
  "prunes rd g f cq \<longleftrightarrow>
     \<not> rd_may_contain_timestamps rd g (f_since_ns f) (f_until_ns f)
     \<or> (case cq of None \<Rightarrow> False | Some q \<Rightarrow> \<not> rd_may_contain_content rd g q)"

text \<open>The sweep of the buffer, in its order.\<close>

fun sweep_buffer :: "(span \<Rightarrow> bool) \<Rightarrow> span list \<Rightarrow> nat \<Rightarrow> span list \<Rightarrow> span list task" where
  "sweep_buffer keep [] since_check result = give result"
| "sweep_buffer keep (s # ss) since_check result =
     next_do (check_every since_check) (\<lambda>since_check.
       sweep_buffer keep ss since_check (if keep s then result @ [s] else result))"

section \<open>The limited path\<close>

datatype 'seg source = Parsed "span list" | Lazy "u64 list" 'seg nat

text \<open>A source, its position and its decoded head; \<open>sources\<close> and \<open>heads\<close> of the code side by side.\<close>

type_synonym 'seg stream = "'seg source \<times> nat \<times> span option"

fun lazy_sources ::
  "'seg reader \<Rightarrow> store_lib \<Rightarrow> span_filter \<Rightarrow> query option \<Rightarrow> span_cursor option \<Rightarrow> nat \<Rightarrow> 'seg store_segment list
    \<Rightarrow> ('seg source \<times> nat) list task" where
  "lazy_sources rd lib f cq cursor segment_position [] = give []"
| "lazy_sources rd lib f cq cursor segment_position (segment # segments) =
     (let g = os_seg segment in
      next_do check (\<lambda>_. next_do examine_segment (\<lambda>_.
        if prunes rd g f cq
        then next_do prune_segment (\<lambda>_. lazy_sources rd lib f cq cursor (segment_position + 1) segments)
        else
          next_do (lift_io (select_probe rd lib g f cq)) (\<lambda>offsets.
          next_do (lift_io (case cursor of
                              Some c \<Rightarrow> first_offset_after rd lib g offsets c 0 (length offsets)
                            | None \<Rightarrow> Inr 0)) (\<lambda>position.
          next_do (lazy_sources rd lib f cq cursor (segment_position + 1) segments) (\<lambda>sources.
            give ((Lazy offsets g segment_position, position) # sources)))))))"

definition advance :: "'seg reader \<Rightarrow> store_lib \<Rightarrow> 'seg source \<Rightarrow> nat \<Rightarrow> store_error + 'seg stream" where
  "advance rd lib src pos =
     (case src of
        Parsed spans \<Rightarrow> Inr (if pos < length spans then (src, pos + 1, Some (spans ! pos)) else (src, pos, None))
      | Lazy offsets g segment_position \<Rightarrow>
          if pos < length offsets then and_then (span_at rd lib g (offsets ! pos)) (\<lambda>s. Inr (src, pos + 1, Some s))
          else Inr (src, pos, None))"

fun first_heads :: "'seg reader \<Rightarrow> store_lib \<Rightarrow> ('seg source \<times> nat) list \<Rightarrow> store_error + 'seg stream list" where
  "first_heads rd lib [] = Inr []"
| "first_heads rd lib ((src, pos) # sources) =
     and_then (advance rd lib src pos) (\<lambda>stream.
     and_then (first_heads rd lib sources) (\<lambda>streams. Inr (stream # streams)))"

fun best_head :: "'seg stream list \<Rightarrow> nat \<Rightarrow> (nat \<times> span) option \<Rightarrow> (nat \<times> span) option" where
  "best_head [] i best = best"
| "best_head ((src, pos, None) # streams) i best = best_head streams (i + 1) best"
| "best_head ((src, pos, Some h) # streams) i best =
     best_head streams (i + 1)
       (case best of None \<Rightarrow> Some (i, h) | Some (_, current) \<Rightarrow> if compare_spans_lt h current then Some (i, h) else best)"

text \<open>Whether the selected head, taken from the source of this index, is a result.\<close>

definition emits ::
  "'seg reader \<Rightarrow> store_lib \<Rightarrow> write_buffer \<Rightarrow> 'seg store_segment list \<Rightarrow> span_filter \<Rightarrow> query option \<Rightarrow> span_cursor option
    \<Rightarrow> (span \<Rightarrow> bool) option \<Rightarrow> nat \<Rightarrow> 'seg source \<Rightarrow> span_key set \<Rightarrow> span \<Rightarrow> bool task" where
  "emits rd lib w segments f cq cursor erased index src emitted s =
     (if \<not> visible_to erased s then give False
      else if index \<noteq> 0 \<and> (\<not> span_matches (numbers lib) s f cq \<or> \<not> after cursor s) then give False
      else if key_of s \<in> emitted then give False
      else case src of
             Parsed _ \<Rightarrow> give True
           | Lazy _ _ segment_position \<Rightarrow>
               if wb_contains_key w (key_of s) then give False
               else next_do (superseded_by_newer rd lib (drop (segment_position + 1) segments) s) (\<lambda>superseded.
                 give (\<not> superseded)))"

text \<open>One round of the merge; \<open>None\<close> ends it.\<close>

definition merge_step ::
  "'seg reader \<Rightarrow> store_lib \<Rightarrow> write_buffer \<Rightarrow> 'seg store_segment list \<Rightarrow> span_filter \<Rightarrow> query option \<Rightarrow> span_cursor option
    \<Rightarrow> (span \<Rightarrow> bool) option \<Rightarrow> nat \<Rightarrow> 'seg stream list \<Rightarrow> span_key set \<Rightarrow> span list
    \<Rightarrow> ('seg stream list \<times> span_key set \<times> span list) option task" where
  "merge_step rd lib w segments f cq cursor erased limit streams emitted result =
     (if length result \<ge> limit then give None
      else
        next_do check (\<lambda>_.
        case best_head streams 0 None of
          None \<Rightarrow> give None
        | Some (index, s) \<Rightarrow>
            let (src, pos, head) = streams ! index in
            next_do (lift_io (advance rd lib src pos)) (\<lambda>stream.
            next_do (emits rd lib w segments f cq cursor erased index src emitted s) (\<lambda>emit.
              give (Some (streams[index := stream],
                          if emit then insert (key_of s) emitted else emitted,
                          if emit then result @ [s] else result))))))"

fun stream_left :: "'seg stream \<Rightarrow> nat" where
  "stream_left (src, pos, head) =
     (case src of Parsed spans \<Rightarrow> length spans | Lazy offsets _ _ \<Rightarrow> length offsets) - pos + (if head = None then 0 else 1)"

lemma best_head_mem:
  "best_head streams i best = Some (index, s) \<Longrightarrow>
    best = Some (index, s) \<or> (\<exists>j src pos. index = i + j \<and> j < length streams \<and> streams ! j = (src, pos, Some s))"
proof (induction streams i best rule: best_head.induct)
  case (2 src pos streams i best)
  then show ?case by (auto simp: less_Suc_eq_0_disj)
next
  case (3 src pos h streams i best)
  let ?best = "case best of None \<Rightarrow> Some (i, h) | Some (_, current) \<Rightarrow> if compare_spans_lt h current then Some (i, h) else best"
  from 3 have "?best = Some (index, s)
      \<or> (\<exists>j src pos. index = i + 1 + j \<and> j < length streams \<and> streams ! j = (src, pos, Some s))" by simp
  then show ?case by (auto simp: less_Suc_eq_0_disj split: option.splits if_splits)
qed simp

lemma advance_left:
  "advance rd lib src pos = Inr stream \<Longrightarrow> stream_left stream < stream_left (src, pos, Some s)"
  by (auto simp: advance_def and_then_Inr split: source.splits if_splits)

lemma step_shrinks:
  assumes "merge_step rd lib w segments f cq cursor erased limit streams emitted result r = Inr (Some (streams', rest), r')"
  shows "sum_list (map stream_left streams') < sum_list (map stream_left streams)"
proof -
  from assms obtain index s src pos head stream where
    best: "best_head streams 0 None = Some (index, s)" and at: "streams ! index = (src, pos, head)"
    and adv: "advance rd lib src pos = Inr stream" and new: "streams' = streams[index := stream]"
    by (auto simp: merge_step_def next_do_def give_def lift_io_def split: if_splits sum.splits option.splits prod.splits)
  from best_head_mem [OF best] at have i: "index < length streams" "head = Some s" by auto
  have "stream_left stream < stream_left (streams ! index)" using advance_left [OF adv] at i(2) by simp
  moreover have "sum_list (map stream_left streams) = sum_list (map stream_left (take index streams))
      + stream_left (streams ! index) + sum_list (map stream_left (drop (Suc index) streams))"
    using i(1) by (subst id_take_nth_drop [OF i(1)]) simp
  moreover have "sum_list (map stream_left streams') = sum_list (map stream_left (take index streams))
      + stream_left stream + sum_list (map stream_left (drop (Suc index) streams))"
    using i(1) by (simp add: new upd_conv_take_nth_drop)
  ultimately show ?thesis by simp
qed

function merge_heads ::
  "'seg reader \<Rightarrow> store_lib \<Rightarrow> write_buffer \<Rightarrow> 'seg store_segment list \<Rightarrow> span_filter \<Rightarrow> query option \<Rightarrow> span_cursor option
    \<Rightarrow> (span \<Rightarrow> bool) option \<Rightarrow> nat \<Rightarrow> 'seg stream list \<Rightarrow> span_key set \<Rightarrow> span list \<Rightarrow> span list task" where
  "merge_heads rd lib w segments f cq cursor erased limit streams emitted result r =
     (case merge_step rd lib w segments f cq cursor erased limit streams emitted result r of
        Inl e \<Rightarrow> Inl e
      | Inr (None, r) \<Rightarrow> Inr (result, r)
      | Inr (Some (streams, emitted, result), r) \<Rightarrow>
          merge_heads rd lib w segments f cq cursor erased limit streams emitted result r)"
  by pat_completeness auto
termination
  by (relation "measure (\<lambda>(rd, lib, w, segments, f, cq, cursor, erased, limit, streams, emitted, result, r).
      sum_list (map stream_left streams))") (use step_shrinks in fastforce)+

declare merge_heads.simps [simp del]

definition query_limited ::
  "'seg reader \<Rightarrow> store_lib \<Rightarrow> write_buffer \<Rightarrow> 'seg store_segment list \<Rightarrow> span_filter \<Rightarrow> query option \<Rightarrow> span_cursor option
    \<Rightarrow> (span \<Rightarrow> bool) option \<Rightarrow> nat \<Rightarrow> span list task" where
  "query_limited rd lib w segments f cq cursor erased limit =
     (if limit = 0 then give []
      else
        next_do (sweep_buffer (keeps_span lib f cq cursor erased) (map snd (wb_spans w)) 0 []) (\<lambda>buffered.
        next_do (lazy_sources rd lib f cq cursor 0 segments) (\<lambda>sources.
        next_do (lift_io (first_heads rd lib ((Parsed (sort_spans buffered), 0) # sources))) (\<lambda>streams.
        next_do (merge_heads rd lib w segments f cq cursor erased limit streams {} []) (\<lambda>result.
        next_do check (\<lambda>_. give result))))))"

section \<open>The unlimited path\<close>

fun scan_offsets ::
  "'seg reader \<Rightarrow> store_lib \<Rightarrow> write_buffer \<Rightarrow> 'seg store_segment list \<Rightarrow> (span \<Rightarrow> bool) \<Rightarrow> 'seg \<Rightarrow> u64 list \<Rightarrow> nat
    \<Rightarrow> span list \<Rightarrow> (span list \<times> nat) task" where
  "scan_offsets rd lib w newer keep g [] since_check result = give (result, since_check)"
| "scan_offsets rd lib w newer keep g (offset # offsets) since_check result =
     next_do (check_every since_check) (\<lambda>since_check.
     next_do (lift_io (span_at rd lib g offset)) (\<lambda>s.
       if \<not> keep s then scan_offsets rd lib w newer keep g offsets since_check result
       else if wb_contains_key w (key_of s) then scan_offsets rd lib w newer keep g offsets since_check result
       else
         next_do (superseded_by_newer rd lib newer s) (\<lambda>superseded.
           scan_offsets rd lib w newer keep g offsets since_check (if superseded then result else result @ [s]))))"

fun scan_segments ::
  "'seg reader \<Rightarrow> store_lib \<Rightarrow> write_buffer \<Rightarrow> span_filter \<Rightarrow> query option \<Rightarrow> (span \<Rightarrow> bool) \<Rightarrow> 'seg store_segment list
    \<Rightarrow> nat \<Rightarrow> span list \<Rightarrow> (span list \<times> nat) task" where
  "scan_segments rd lib w f cq keep [] since_check result = give (result, since_check)"
| "scan_segments rd lib w f cq keep (segment # newer) since_check result =
     (let g = os_seg segment in
      next_do check (\<lambda>_. next_do examine_segment (\<lambda>_.
        if prunes rd g f cq
        then next_do prune_segment (\<lambda>_. scan_segments rd lib w f cq keep newer since_check result)
        else
          next_do (lift_io (select_probe rd lib g f cq)) (\<lambda>offsets.
          next_do (scan_offsets rd lib w newer keep g offsets since_check result) (\<lambda>(result, since_check).
            scan_segments rd lib w f cq keep newer since_check result)))))"

definition query_unlimited ::
  "'seg reader \<Rightarrow> store_lib \<Rightarrow> write_buffer \<Rightarrow> 'seg store_segment list \<Rightarrow> span_filter \<Rightarrow> query option \<Rightarrow> span_cursor option
    \<Rightarrow> (span \<Rightarrow> bool) option \<Rightarrow> span list task" where
  "query_unlimited rd lib w segments f cq cursor erased =
     (let keep = keeps_span lib f cq cursor erased in
      next_do (scan_segments rd lib w f cq keep segments 0 []) (\<lambda>(result, since_check).
      next_do (sweep_buffer keep (map snd (wb_spans w)) since_check result) (\<lambda>result.
      next_do check (\<lambda>_. give (sort_spans result)))))"

section \<open>Queries and folds\<close>

definition query_unsorted ::
  "'seg reader \<Rightarrow> store_lib \<Rightarrow> write_buffer \<Rightarrow> 'seg store_segment list \<Rightarrow> span_filter \<Rightarrow> span_cursor option
    \<Rightarrow> (span \<Rightarrow> bool) option \<Rightarrow> span list task" where
  "query_unsorted rd lib w segments f cursor erased =
     (case f_limit f of
        Some limit \<Rightarrow> query_limited rd lib w segments f (content_query f) cursor erased limit
      | None \<Rightarrow> query_unlimited rd lib w segments f (content_query f) cursor erased)"

definition SORT_CANDIDATE_LIMIT :: nat where
  "SORT_CANDIDATE_LIMIT = 200000"

definition query_view_costed ::
  "'seg reader \<Rightarrow> store_lib \<Rightarrow> write_buffer \<Rightarrow> 'seg store_segment list \<Rightarrow> span_filter \<Rightarrow> span_cursor option
    \<Rightarrow> (span \<Rightarrow> bool) option \<Rightarrow> span list task" where
  "query_view_costed rd lib w segments f cursor erased =
     (case f_sort f of
        Some order \<Rightarrow>
          next_do (query_unsorted rd lib w segments (f\<lparr>f_limit := None, f_sort := None\<rparr>) cursor erased) (\<lambda>spans.
            if length spans > SORT_CANDIDATE_LIMIT then lift_io (Inl (QueryTooBroad (length spans)))
            else
              let spans = order_spans (Some order) spans
              in give (case f_limit f of Some limit \<Rightarrow> take limit spans | None \<Rightarrow> spans))
      | None \<Rightarrow> query_unsorted rd lib w segments f cursor erased)"

text \<open>\<open>query_view\<close>: a request of its own, with its budget; what it cost is dropped.\<close>

definition query_view ::
  "'seg reader \<Rightarrow> store_lib \<Rightarrow> write_buffer \<Rightarrow> 'seg store_segment list \<Rightarrow> span_filter \<Rightarrow> span_cursor option
    \<Rightarrow> (span \<Rightarrow> bool) option \<Rightarrow> nat option \<Rightarrow> store_error + span list" where
  "query_view rd lib w segments f cursor erased deadline =
     map_sum id fst (query_view_costed rd lib w segments f cursor erased (fresh_run deadline))"

text \<open>The spans \<open>fold_view\<close> hands to its visitor, in order.\<close>

definition fold_view ::
  "'seg reader \<Rightarrow> store_lib \<Rightarrow> write_buffer \<Rightarrow> 'seg store_segment list \<Rightarrow> span_filter \<Rightarrow> (span \<Rightarrow> bool) option
    \<Rightarrow> span list task" where
  "fold_view rd lib w segments f erased =
     (let cq = content_query f; keep = keeps_span lib f cq None erased in
      next_do (scan_segments rd lib w f cq keep segments 0 []) (\<lambda>(visited, since_check).
      next_do (sweep_buffer keep (map snd (wb_spans w)) since_check visited) (\<lambda>visited.
      next_do check (\<lambda>_. give visited))))"

end
