(* ===== verification/Query_Exact.thy ===== *)
theory Query_Exact
  imports Query_View
begin

text \<open>
  The queries are exact: over segments in stable order, each holding a key once, and a consistent buffer, every
  path of \<open>query_view_costed\<close> returns the matches among the newest versions, in stable order and cut to the
  limit, and a fold visits each of them once. A budget can only refuse the query.
\<close>

section \<open>The newest versions\<close>

definition lists_exactly :: "(span_key \<rightharpoonup> span) \<Rightarrow> (span \<Rightarrow> bool) \<Rightarrow> span list \<Rightarrow> bool" where
  "lists_exactly view P xs \<longleftrightarrow> in_order xs \<and> set xs = {s \<in> ran view. P s}"

lemma in_order_unique:
  assumes "in_order xs" and "in_order ys" and "set xs = set ys"
  shows "xs = ys"
proof -
  have "map order_key xs = map order_key ys"
    using assms by (intro strict_sorted_equal) (simp_all add: in_order_keys)
  moreover have "inj_on order_key (set xs)"
    using assms(1) by (metis in_order_keys distinct_map strict_distinct)
  ultimately show ?thesis using assms(3) by (metis inj_on_map_eq_map Un_absorb)
qed

lemma lists_exactly_unique: "lists_exactly view P xs \<Longrightarrow> lists_exactly view P ys \<Longrightarrow> xs = ys"
  unfolding lists_exactly_def by (metis in_order_unique)

text \<open>The part of older segments that no newer one and not the buffer supersedes.\<close>

fun live_spans :: "(span \<Rightarrow> bool) \<Rightarrow> span_key set \<Rightarrow> span list list \<Rightarrow> span list" where
  "live_spans P K [] = []"
| "live_spans P K (ss # newer) =
     filter (\<lambda>s. P s \<and> key_of s \<notin> K \<and> key_of s \<notin> key_of ` set (concat newer)) ss @ live_spans P K newer"

definition keyed_once :: "span list list \<Rightarrow> bool" where
  "keyed_once sss \<longleftrightarrow> list_all (\<lambda>ss. distinct (map key_of ss)) sss"

lemma live_spans_mem:
  "keyed_once sss \<Longrightarrow>
    s \<in> set (live_spans P K sss) \<longleftrightarrow> P s \<and> key_of s \<notin> K \<and> latest_by key_of (concat sss) (key_of s) = Some s"
proof (induction sss)
  case (Cons ss newer)
  have d: "distinct (map key_of ss)" and k: "keyed_once newer" using Cons.prems by (simp_all add: keyed_once_def)
  have "latest_by key_of ss (key_of s) = Some s \<longleftrightarrow> s \<in> set ss" using latest_by_distinct [OF d] by simp
  then have "latest_by key_of (concat (ss # newer)) (key_of s) = Some s \<longleftrightarrow>
      latest_by key_of (concat newer) (key_of s) = Some s \<or> key_of s \<notin> key_of ` set (concat newer) \<and> s \<in> set ss"
    by (simp only: concat.simps latest_by_append map_add_Some_iff latest_by_None conj_commute)
  moreover have "s \<in> set (live_spans P K (ss # newer)) \<longleftrightarrow>
      s \<in> set ss \<and> P s \<and> key_of s \<notin> K \<and> key_of s \<notin> key_of ` set (concat newer)
      \<or> P s \<and> key_of s \<notin> K \<and> latest_by key_of (concat newer) (key_of s) = Some s"
    by (simp only: live_spans.simps set_append Un_iff set_filter mem_Collect_eq Cons.IH [OF k])
  ultimately show ?case by blast
qed simp

lemma live_spans_keys:
  "keyed_once sss \<Longrightarrow> distinct (map key_of (live_spans P K sss))"
proof (induction sss)
  case (Cons ss newer)
  have d: "distinct (map key_of ss)" and k: "keyed_once newer" using Cons.prems by (simp_all add: keyed_once_def)
  define N where "N = key_of ` set (concat newer)"
  have "key_of s \<in> N" if "s \<in> set (live_spans P K newer)" for s
  proof -
    have "latest_by key_of (concat newer) (key_of s) = Some s" using that by (simp only: live_spans_mem [OF k])
    from conjunct1 [OF latest_by_key [OF this]] show ?thesis unfolding N_def by (rule imageI)
  qed
  then have sub: "key_of ` set (live_spans P K newer) \<subseteq> N" by (rule image_subsetI)
  have "key_of s \<in> - N" if "s \<in> set (filter (\<lambda>s. P s \<and> key_of s \<notin> K \<and> key_of s \<notin> N) ss)" for s using that by simp
  then have "key_of ` set (filter (\<lambda>s. P s \<and> key_of s \<notin> K \<and> key_of s \<notin> N) ss) \<subseteq> - N" by (rule image_subsetI)
  with sub have "set (map key_of (filter (\<lambda>s. P s \<and> key_of s \<notin> K \<and> key_of s \<notin> N) ss))
      \<inter> set (map key_of (live_spans P K newer)) = {}" unfolding set_map by blast
  then show ?case
    using Cons.IH [OF k] distinct_map_filter [OF d] by (simp only: live_spans.simps map_append distinct_append flip: N_def)
qed simp

lemma sort_spans_in_order: "distinct (map key_of xs) \<Longrightarrow> in_order (sort_spans xs)"
proof -
  assume d: "distinct (map key_of xs)"
  have "distinct (map order_key xs)"
    unfolding distinct_map
  proof
    show "distinct xs" using d by (simp add: distinct_map)
    show "inj_on order_key (set xs)"
      using d order_key_determines_key unfolding distinct_map inj_on_def by blast
  qed
  then have "distinct (map order_key (sort_spans xs))"
    using mset_eq_imp_distinct_iff [of "map order_key (sort_spans xs)" "map order_key xs"] by (simp add: sort_spans_def)
  then show ?thesis by (simp add: in_order_keys strict_sorted_iff sort_spans_def)
qed

text \<open>What the buffer holds, as a map.\<close>

lemma buffer_mem: "wb_ok w \<Longrightarrow> s \<in> snd ` set (wb_spans w) \<longleftrightarrow> wb_map w (key_of s) = Some s"
  by (simp add: wb_map_Some)

lemma ran_keyed:
  assumes "\<And>k s. m k = Some s \<Longrightarrow> key_of s = k"
  shows "s \<in> ran m \<longleftrightarrow> m (key_of s) = Some s"
  unfolding ran_def mem_Collect_eq using assms by metis

lemma view_mem:
  assumes "wb_ok w" and keyed: "\<And>k s. segs k = Some s \<Longrightarrow> key_of s = k"
  shows "s \<in> ran (segs ++ wb_map w) \<longleftrightarrow> wb_map w (key_of s) = Some s \<or> wb_map w (key_of s) = None \<and> segs (key_of s) = Some s"
proof -
  have "key_of s = k" if "(segs ++ wb_map w) k = Some s" for k s
    using that keyed wb_map_Some [OF assms(1)] unfolding map_add_Some_iff by blast
  from ran_keyed [where m = "segs ++ wb_map w", OF this] show ?thesis by (simp only: map_add_Some_iff)
qed

lemma answer_keys:
  assumes w: "wb_ok w" and k: "keyed_once sss"
  shows "distinct (map key_of (live_spans P (dom (wb_map w)) sss @ filter P (map snd (wb_spans w))))"
proof -
  have b: "distinct (map key_of (filter P (map snd (wb_spans w))))"
    using w by (intro distinct_map_filter) (simp add: wb_ok_def comp_def)
  have "wb_map w (key_of s) = None" if "s \<in> set (live_spans P (dom (wb_map w)) sss)" for s
    using that k by (auto simp: live_spans_mem)
  moreover have "wb_map w (key_of s) = Some s" if "s \<in> set (filter P (map snd (wb_spans w)))" for s
    using that buffer_mem [OF w, of s] by auto
  ultimately have "key_of ` set (live_spans P (dom (wb_map w)) sss) \<inter> key_of ` set (filter P (map snd (wb_spans w))) = {}"
    by fastforce
  then show ?thesis using live_spans_keys [OF k] b by simp
qed

lemma answer_lists:
  assumes w: "wb_ok w" and k: "keyed_once sss"
  shows "lists_exactly (latest_by key_of (concat sss) ++ wb_map w) P
    (sort_spans (live_spans P (dom (wb_map w)) sss @ filter P (map snd (wb_spans w))))"
proof -
  let ?xs = "live_spans P (dom (wb_map w)) sss @ filter P (map snd (wb_spans w))"
  have "s \<in> set ?xs \<longleftrightarrow> s \<in> ran (latest_by key_of (concat sss) ++ wb_map w) \<and> P s" for s
    using k buffer_mem [OF w, of s]
    by (subst view_mem [OF w]) (auto simp: live_spans_mem dest: latest_by_key)
  then show ?thesis using sort_spans_in_order [OF answer_keys [OF w k]] by (auto simp: lists_exactly_def)
qed

section \<open>The unlimited path and the fold\<close>

text \<open>A store at rest, as a query sees it: the buffer, the segments and the spans each of them holds.\<close>

definition view_ok ::
  "store_lib \<Rightarrow> ('seg \<Rightarrow> span list \<Rightarrow> bool) \<Rightarrow> write_buffer \<Rightarrow> 'seg store_segment list \<Rightarrow> span list list \<Rightarrow> bool" where
  "view_ok lib has w segments sss \<longleftrightarrow>
     wb_ok w \<and> list_all2 (segment_ok has) segments sss \<and> keyed_once sss \<and> list_all in_order sss
     \<and> list_all (list_all (searchable lib)) sss \<and> prints_numbers lib"

lemma view_okD:
  assumes "view_ok lib has w segments sss"
  shows "wb_ok w" "list_all2 (segment_ok has) segments sss" "keyed_once sss" "list_all in_order sss"
    "list_all (list_all (searchable lib)) sss" "prints_numbers lib"
  using assms by (simp_all add: view_ok_def)

lemma check_every_answers: obtains n' where "answers (check_every n) n'"
proof (cases "n + 1 \<ge> DEADLINE_CHECK_INTERVAL")
  case True
  then have "check_every n = next_do check (\<lambda>_. give 0)" by (simp add: check_every_def)
  then have "answers (check_every n) 0" using next_settles [OF check_settles give_settles] by simp
  then show thesis by (rule that)
next
  case False
  then have "answers (check_every n) (n + 1)" by (simp add: check_every_def give_settles)
  then show thesis by (rule that)
qed

lemma sweep_answers: "answers (sweep_buffer keep ss n acc) (acc @ filter keep ss)"
proof (induction ss arbitrary: n acc)
  case (Cons s ss)
  have "answers (sweep_buffer keep ss m (if keep s then acc @ [s] else acc)) (acc @ filter keep (s # ss))" for m
    using Cons.IH [of m "if keep s then acc @ [s] else acc"] by (cases "keep s") simp_all
  then have "answers (next_do (check_every n) (\<lambda>n. sweep_buffer keep ss n (if keep s then acc @ [s] else acc)))
      (acc @ filter keep (s # ss))" by (rule every_settles)
  then show ?case by (simp only: sweep_buffer.simps)
qed (simp add: give_settles)

lemma filter_selected:
  "subseq sel ss \<Longrightarrow> distinct ss \<Longrightarrow> (\<And>s. s \<in> set ss \<Longrightarrow> Q s \<Longrightarrow> s \<in> set sel) \<Longrightarrow> filter Q sel = filter Q ss"
proof (induction rule: list_emb.induct)
  case (list_emb_Cons xs ys y)
  have "set xs \<subseteq> set ys" using list_emb_set [OF list_emb_Cons.hyps] by auto
  then have "\<not> Q y" using list_emb_Cons.prems(1) list_emb_Cons.prems(2) [of y] by auto
  moreover have "filter Q xs = filter Q ys" using list_emb_Cons.prems by (intro list_emb_Cons.IH) auto
  ultimately show ?case by simp
next
  case (list_emb_Cons2 x y xs ys)
  have "filter Q xs = filter Q ys" using list_emb_Cons2.prems list_emb_Cons2.hyps by (intro list_emb_Cons2.IH) auto
  then show ?case using list_emb_Cons2.hyps by simp
next
  case (list_emb_Nil ys)
  then have "filter Q ys = []" by (auto simp: filter_empty_conv)
  then show ?case by simp
qed

lemma live_spans_keep: "live_spans P K (ss # newer) = filter (\<lambda>s. P s \<and> key_of s \<notin> K \<and> key_of s \<notin> key_of ` set (concat newer)) ss
    @ live_spans P K newer"
  by simp

context segment_reads
begin

lemma pruned_no_match:
  assumes "holds g ss" and "prunes rd g f cq" and "s \<in> set ss"
  shows "\<not> span_matches lib' s f cq"
proof
  assume m: "span_matches lib' s f cq"
  show False
  proof (cases "rd_may_contain_timestamps rd g (f_since_ns f) (f_until_ns f)")
    case False
    from window_sound [OF assms(1) False assms(3)] matchesD(5,6) [OF m] show False by (auto simp: not_le [symmetric])
  next
    case True
    then obtain q where "cq = Some q" "\<not> rd_may_contain_content rd g q"
      using assms(2) by (auto simp: prunes_def split: option.splits)
    then show False using content_sound [OF assms(1) _ assms(3)] matchesD(4) [OF m] by blast
  qed
qed

lemma scan_offsets_answers:
  assumes w: "wb_ok w" and newer: "list_all2 (segment_ok holds) newer sss"
  shows "reads_as rd lib g offsets sel \<Longrightarrow> \<exists>n'. answers (scan_offsets rd lib w newer keep g offsets n acc)
    (acc @ filter (\<lambda>s. keep s \<and> key_of s \<notin> dom (wb_map w) \<and> key_of s \<notin> key_of ` set (concat sss)) sel, n')"
proof (induction offsets arbitrary: sel n acc)
  case Nil
  then have "sel = []" by (simp add: reads_as_def)
  then show ?case using give_settles [of "(acc, n)"] by auto
next
  case (Cons offset offsets)
  let ?Q = "\<lambda>s. keep s \<and> key_of s \<notin> dom (wb_map w) \<and> key_of s \<notin> key_of ` set (concat sss)"
  obtain s sel' where sel: "sel = s # sel'" "span_at rd lib g offset = Inr s" "reads_as rd lib g offsets sel'"
    using Cons.prems by (auto simp: reads_as_def list_all2_Cons1)
  obtain m where m: "answers (check_every n) m" by (rule check_every_answers)
  have acc: "(if ?Q s then acc @ [s] else acc) @ filter ?Q sel' = acc @ filter ?Q sel" by (simp add: sel(1))
  from Cons.IH [OF sel(3), of m "if ?Q s then acc @ [s] else acc"] obtain n' where
    n': "answers (scan_offsets rd lib w newer keep g offsets m (if ?Q s then acc @ [s] else acc)) (acc @ filter ?Q sel, n')"
    unfolding acc by blast
  have "answers (if \<not> keep s then scan_offsets rd lib w newer keep g offsets m acc
      else if wb_contains_key w (key_of s) then scan_offsets rd lib w newer keep g offsets m acc
      else next_do (superseded_by_newer rd lib newer s) (\<lambda>superseded.
        scan_offsets rd lib w newer keep g offsets m (if superseded then acc else acc @ [s]))) (acc @ filter ?Q sel, n')"
  proof (cases "keep s \<and> key_of s \<notin> dom (wb_map w)")
    case True
    then have "\<not> wb_contains_key w (key_of s)" using wb_contains_key_iff [OF w] by (simp add: domIff)
    moreover have "answers (scan_offsets rd lib w newer keep g offsets m
        (if key_of s \<in> key_of ` set (concat sss) then acc else acc @ [s])) (acc @ filter ?Q sel, n')"
      using n' True by (cases "key_of s \<in> key_of ` set (concat sss)") simp_all
    ultimately show ?thesis using True next_settles [OF superseded_answers [OF newer]] by simp
  next
    case False
    then have "\<not> keep s \<or> wb_contains_key w (key_of s)" using wb_contains_key_iff [OF w] by (auto simp: domIff)
    moreover have "answers (scan_offsets rd lib w newer keep g offsets m acc) (acc @ filter ?Q sel, n')"
      using n' False by (simp split: if_splits)
    ultimately show ?thesis by auto
  qed
  then show ?case
    by (intro exI [of _ n']) (simp add: next_settles [OF m] next_settles [OF lift_answers [OF sel(2)]])
qed

lemma scan_segments_answers:
  assumes w: "wb_ok w" and keep: "\<And>s. keep s \<Longrightarrow> span_matches (numbers lib) s f cq" and p: "prints_numbers lib"
  shows "list_all2 (segment_ok holds) segments sss \<Longrightarrow> list_all in_order sss \<Longrightarrow> list_all (list_all (searchable lib)) sss \<Longrightarrow>
    \<exists>n'. answers (scan_segments rd lib w f cq keep segments n acc) (acc @ live_spans keep (dom (wb_map w)) sss, n')"
proof (induction segments sss arbitrary: n acc rule: list_all2_induct)
  case Nil
  show ?case using give_settles [of "(acc, n)"] by auto
next
  case (Cons seg newer ss sss)
  let ?g = "os_seg seg" and ?Q = "\<lambda>s. keep s \<and> key_of s \<notin> dom (wb_map w) \<and> key_of s \<notin> key_of ` set (concat sss)"
  have h: "holds ?g ss" and ok: "in_order ss" "list_all (searchable lib) ss"
    using Cons.hyps(1) Cons.prems by (simp_all add: segment_ok_def)
  show ?case
  proof (cases "prunes rd ?g f cq")
    case True
    have "filter ?Q ss = []" using pruned_no_match [OF h True] keep by (auto simp: filter_empty_conv)
    moreover obtain n' where "answers (scan_segments rd lib w f cq keep newer n acc) (acc @ live_spans keep (dom (wb_map w)) sss, n')"
      using Cons.IH [of n acc] Cons.prems by auto
    ultimately have "answers (scan_segments rd lib w f cq keep (seg # newer) n acc) (acc @ live_spans keep (dom (wb_map w)) (ss # sss), n')"
      unfolding live_spans_keep by (simp add: Let_def True next_settles [OF check_settles] next_settles [OF examine_settles]
          next_settles [OF prune_settles])
    then show ?thesis by blast
  next
    case False
    obtain offsets where o: "select_probe rd lib ?g f cq = Inr offsets"
      "admits_all rd ?g ss (\<lambda>s. span_matches (numbers lib) s f cq) offsets"
      using select_probe_admits [OF h ok(2) p] .
    obtain sel where sel: "reads_as rd lib ?g offsets sel" "subseq sel ss"
      "\<And>s. s \<in> set ss \<Longrightarrow> span_matches (numbers lib) s f cq \<Longrightarrow> s \<in> set sel"
      using admitted_reads [OF h in_order_distinct [OF ok(1)] o(2)] by blast
    have f: "filter ?Q sel = filter ?Q ss"
      using keep sel(3) by (intro filter_selected [OF sel(2) in_order_distinct [OF ok(1)]]) blast
    obtain m where m: "answers (scan_offsets rd lib w newer keep ?g offsets n acc) (acc @ filter ?Q ss, m)"
      using scan_offsets_answers [OF w Cons.hyps(2) sel(1), of keep n acc] unfolding f by blast
    obtain n' where n': "answers (scan_segments rd lib w f cq keep newer m (acc @ filter ?Q ss))
        (acc @ live_spans keep (dom (wb_map w)) (ss # sss), n')"
      using Cons.IH [of m "acc @ filter ?Q ss"] Cons.prems unfolding live_spans_keep by auto
    have "answers (next_do (scan_offsets rd lib w newer keep ?g offsets n acc) (\<lambda>(result, since_check).
        scan_segments rd lib w f cq keep newer since_check result)) (acc @ live_spans keep (dom (wb_map w)) (ss # sss), n')"
      by (rule next_settles [OF m]) (simp only: prod.case n')
    then have "answers (scan_segments rd lib w f cq keep (seg # newer) n acc) (acc @ live_spans keep (dom (wb_map w)) (ss # sss), n')"
      by (simp add: Let_def False next_settles [OF check_settles] next_settles [OF examine_settles]
          next_settles [OF lift_answers [OF o(1)]] del: live_spans.simps)
    then show ?thesis by blast
  qed
qed

lemma unlimited_answers:
  assumes ok: "view_ok lib holds w segments sss"
  shows "answers (query_unlimited rd lib w segments f cq cursor erased)
    (sort_spans (live_spans (keeps_span lib f cq cursor erased) (dom (wb_map w)) sss
      @ filter (keeps_span lib f cq cursor erased) (map snd (wb_spans w))))"
proof -
  let ?keep = "keeps_span lib f cq cursor erased"
  note D = view_okD [OF ok]
  obtain n' where n': "answers (scan_segments rd lib w f cq ?keep segments 0 []) ([] @ live_spans ?keep (dom (wb_map w)) sss, n')"
    using scan_segments_answers [OF D(1) _ D(6,2,4,5), of ?keep f cq 0 "[]"] by (auto simp: keeps_span_def)
  show ?thesis
    unfolding query_unlimited_def Let_def
    by (rule next_settles [OF n']) (simp add: next_settles [OF sweep_answers] next_settles [OF check_settles] give_settles)
qed

lemma fold_answers:
  assumes ok: "view_ok lib holds w segments sss"
  shows "answers (fold_view rd lib w segments f erased)
    (live_spans (keeps_span lib f (content_query f) None erased) (dom (wb_map w)) sss
      @ filter (keeps_span lib f (content_query f) None erased) (map snd (wb_spans w)))"
proof -
  let ?keep = "keeps_span lib f (content_query f) None erased"
  note D = view_okD [OF ok]
  obtain n' where n': "answers (scan_segments rd lib w f (content_query f) ?keep segments 0 [])
      ([] @ live_spans ?keep (dom (wb_map w)) sss, n')"
    using scan_segments_answers [OF D(1) _ D(6,2,4,5), of ?keep f "content_query f" 0 "[]"] by (auto simp: keeps_span_def)
  show ?thesis
    unfolding fold_view_def Let_def
    by (rule next_settles [OF n']) (simp add: next_settles [OF sweep_answers] next_settles [OF check_settles] give_settles)
qed

end

end
