(* ===== verification/Query_Merge.thy ===== *)
theory Query_Merge
  imports Query_Exact
begin

text \<open>
  The limited path of \<open>query_view_costed\<close> against the unlimited one: the merge of the buffered matches with one
  stream per segment emits, in order, exactly the spans the unlimited path lists, and stops at the limit.
\<close>

section \<open>What a stream still holds\<close>

text \<open>The tag of a stream: the position of its segment, or none for the buffer.\<close>

fun pending :: "'seg reader \<Rightarrow> store_lib \<Rightarrow> 'seg source \<Rightarrow> nat \<Rightarrow> nat option \<times> span list \<Rightarrow> bool" where
  "pending rd lib (Parsed spans) pos (tag, xs) \<longleftrightarrow> tag = None \<and> pos \<le> length spans \<and> xs = drop pos spans"
| "pending rd lib (Lazy offsets g p) pos (tag, xs) \<longleftrightarrow>
     tag = Some p \<and> pos \<le> length offsets \<and> reads_as rd lib g (drop pos offsets) xs"

fun stream_has :: "'seg reader \<Rightarrow> store_lib \<Rightarrow> 'seg stream \<Rightarrow> nat option \<times> span list \<Rightarrow> bool" where
  "stream_has rd lib (src, pos, None) (tag, xs) \<longleftrightarrow> xs = []"
| "stream_has rd lib (src, pos, Some h) (tag, xs) \<longleftrightarrow> (\<exists>ys. xs = h # ys \<and> pending rd lib src pos (tag, ys))"

lemma advance_pending:
  assumes "pending rd lib src pos (tag, xs)"
  obtains stream where "advance rd lib src pos = Inr stream" "stream_has rd lib stream (tag, xs)"
proof (cases src)
  case (Parsed spans)
  then show thesis
    using assms that by (cases "pos < length spans") (auto simp: advance_def Cons_nth_drop_Suc [symmetric])
next
  case (Lazy offsets g p)
  show thesis
  proof (cases "pos < length offsets")
    case True
    then have "drop pos offsets = offsets ! pos # drop (pos + 1) offsets" by (simp add: Cons_nth_drop_Suc)
    with assms Lazy obtain s ys where s: "xs = s # ys" "span_at rd lib g (offsets ! pos) = Inr s"
      "reads_as rd lib g (drop (pos + 1) offsets) ys" "tag = Some p"
      by (auto simp: reads_as_def list_all2_Cons1)
    then show thesis using that True Lazy by (simp add: advance_def)
  next
    case False
    then show thesis using assms Lazy that by (simp add: advance_def reads_as_def)
  qed
qed

lemma best_head_min:
  "best_head streams i best = Some (index, s) \<Longrightarrow>
    (\<forall>j h. best = Some (j, h) \<longrightarrow> order_key s \<le> order_key h)
    \<and> (\<forall>src pos h. (src, pos, Some h) \<in> set streams \<longrightarrow> order_key s \<le> order_key h)"
proof (induction streams i best rule: best_head.induct)
  case (3 src pos h streams i best)
  let ?best = "case best of None \<Rightarrow> Some (i, h) | Some (_, current) \<Rightarrow> if compare_spans_lt h current then Some (i, h) else best"
  from 3 have IH: "\<forall>j h'. ?best = Some (j, h') \<longrightarrow> order_key s \<le> order_key h'"
    "\<forall>src pos h'. (src, pos, Some h') \<in> set streams \<longrightarrow> order_key s \<le> order_key h'" by simp_all
  have "order_key s \<le> order_key h \<and> (\<forall>j h'. best = Some (j, h') \<longrightarrow> order_key s \<le> order_key h')"
  proof (cases best)
    case None
    then show ?thesis using IH(1) by simp
  next
    case (Some b)
    obtain j c where b: "b = (j, c)" by (cases b)
    show ?thesis
    proof (cases "compare_spans_lt h c")
      case True
      then have "order_key s \<le> order_key h" using IH(1) Some b by simp
      moreover have "order_key h < order_key c" using True by (simp add: compare_spans_lt_def)
      ultimately show ?thesis using Some b by simp
    next
      case False
      then have "order_key s \<le> order_key c" using IH(1) Some b by simp
      moreover have "order_key c \<le> order_key h" using False by (simp add: compare_spans_lt_def not_less)
      ultimately show ?thesis using Some b order_trans by auto
    qed
  qed
  then show ?case using IH(2) by auto
qed auto

lemma best_head_none: "best_head streams i best = None \<Longrightarrow> best = None \<and> (\<forall>stream \<in> set streams. snd (snd stream) = None)"
proof (induction streams i best rule: best_head.induct)
  case (3 src pos h streams i best)
  then show ?case by (cases best) (auto split: if_splits)
qed auto

lemma stream_nth:
  "list_all2 (stream_has rd lib) streams pend \<Longrightarrow> i < length pend \<Longrightarrow> stream_has rd lib (streams ! i) (pend ! i)"
  by (rule list_all2_nthD2)

text \<open>The selected head is the least of all that is pending.\<close>

lemma selected_least:
  assumes s: "list_all2 (stream_has rd lib) streams pend" and o: "\<And>j. j < length pend \<Longrightarrow> in_order (snd (pend ! j))"
    and best: "best_head streams 0 None = Some (index, s)"
  obtains src pos ys tag where "index < length pend" "streams ! index = (src, pos, Some s)" "pend ! index = (tag, s # ys)"
    "pending rd lib src pos (tag, ys)" "\<And>j x. j < length pend \<Longrightarrow> x \<in> set (snd (pend ! j)) \<Longrightarrow> order_key s \<le> order_key x"
proof -
  have len: "length streams = length pend" using s by (rule list_all2_lengthD)
  from best_head_mem [OF best] obtain src pos where at: "index < length streams" "streams ! index = (src, pos, Some s)" by auto
  obtain tag xs where p: "pend ! index = (tag, xs)" by (cases "pend ! index")
  from stream_nth [OF s, of index] at p len obtain ys where ys: "xs = s # ys" "pending rd lib src pos (tag, ys)" by auto
  have least: "order_key s \<le> order_key x" if j: "j < length pend" and x: "x \<in> set (snd (pend ! j))" for j x
  proof -
    obtain tag' zs where z: "pend ! j = (tag', zs)" by (cases "pend ! j")
    obtain src' pos' head where st: "streams ! j = (src', pos', head)" by (metis prod_cases3)
    show ?thesis
    proof (cases head)
      case None
      then show ?thesis using stream_nth [OF s j] z st x by simp
    next
      case (Some h)
      then obtain ys' where ys': "zs = h # ys'" using stream_nth [OF s j] z st by auto
      have "(src', pos', Some h) \<in> set streams" using nth_mem [of j streams] j len st Some by simp
      then have "order_key s \<le> order_key h" using best_head_min [OF best] by blast
      moreover have "order_key h \<le> order_key x"
        using o [OF j] x unfolding z ys' by (auto simp: compare_spans_lt_def)
      ultimately show ?thesis by (rule order_trans)
    qed
  qed
  show thesis by (rule that [of src pos tag ys]) (use at len p ys least in auto)
qed


section \<open>What the merge emits\<close>

text \<open>A span is wanted from the stream of this tag when the query keeps it and no newer version hides it.\<close>

definition wants :: "(span \<Rightarrow> bool) \<Rightarrow> span_key set \<Rightarrow> span list list \<Rightarrow> nat option \<Rightarrow> span \<Rightarrow> bool" where
  "wants keep K sss tag s \<longleftrightarrow>
     keep s \<and> (case tag of None \<Rightarrow> True
       | Some p \<Rightarrow> key_of s \<notin> K \<and> key_of s \<notin> key_of ` set (concat (drop (p + 1) sss)))"

definition wanted :: "(span \<Rightarrow> bool) \<Rightarrow> span_key set \<Rightarrow> span list list \<Rightarrow> (nat option \<times> span list) list \<Rightarrow> span set" where
  "wanted keep K sss pend = {s. \<exists>j < length pend. s \<in> set (snd (pend ! j)) \<and> wants keep K sss (fst (pend ! j)) s}"

text \<open>The buffer is the first stream and holds matches alone; no span is wanted from two streams.\<close>

definition lined_up :: "(span \<Rightarrow> bool) \<Rightarrow> span_key set \<Rightarrow> span list list \<Rightarrow> (nat option \<times> span list) list \<Rightarrow> bool" where
  "lined_up keep K sss pend \<longleftrightarrow>
     (\<forall>j < length pend. in_order (snd (pend ! j)) \<and> (fst (pend ! j) = None \<longleftrightarrow> j = 0)
        \<and> (fst (pend ! j) = None \<longrightarrow> (\<forall>s \<in> set (snd (pend ! j)). keep s)))
     \<and> (\<forall>j < length pend. \<forall>k < length pend. \<forall>s. s \<in> set (snd (pend ! j)) \<longrightarrow> s \<in> set (snd (pend ! k))
          \<longrightarrow> wants keep K sss (fst (pend ! j)) s \<longrightarrow> wants keep K sss (fst (pend ! k)) s \<longrightarrow> j = k)"

lemma lined_upD:
  assumes "lined_up keep K sss pend" and "j < length pend"
  shows "in_order (snd (pend ! j))" "fst (pend ! j) = None \<longleftrightarrow> j = 0"
    "fst (pend ! j) = None \<Longrightarrow> s \<in> set (snd (pend ! j)) \<Longrightarrow> keep s"
    "k < length pend \<Longrightarrow> s \<in> set (snd (pend ! j)) \<Longrightarrow> s \<in> set (snd (pend ! k)) \<Longrightarrow> wants keep K sss (fst (pend ! j)) s
      \<Longrightarrow> wants keep K sss (fst (pend ! k)) s \<Longrightarrow> j = k"
proof -
  note D = assms(1) [unfolded lined_up_def]
  note D1 = D [THEN conjunct1, rule_format, OF assms(2)]
  show "in_order (snd (pend ! j))" by (rule D1 [THEN conjunct1])
  show "fst (pend ! j) = None \<longleftrightarrow> j = 0" by (rule D1 [THEN conjunct2, THEN conjunct1])
  show "keep s" if "fst (pend ! j) = None" "s \<in> set (snd (pend ! j))"
    using D1 [THEN conjunct2, THEN conjunct2] that by blast
  show "j = k" if "k < length pend" "s \<in> set (snd (pend ! j))" "s \<in> set (snd (pend ! k))"
    "wants keep K sss (fst (pend ! j)) s" "wants keep K sss (fst (pend ! k)) s"
    by (rule D [THEN conjunct2, rule_format, OF assms(2) that(1)]) (rule that)+
qed

lemma wantedI: "j < length pend \<Longrightarrow> s \<in> set (snd (pend ! j)) \<Longrightarrow> wants keep K sss (fst (pend ! j)) s \<Longrightarrow> s \<in> wanted keep K sss pend"
  unfolding wanted_def by blast

text \<open>Taking the head of one stream leaves the others, and what was wanted but for that head.\<close>

lemma popped:
  assumes l: "lined_up keep K sss pend" and i: "i < length pend" and p: "pend ! i = (tag, s # ys)"
  defines "pend' \<equiv> pend[i := (tag, ys)]"
  shows "lined_up keep K sss pend'"
    and "wanted keep K sss pend' = wanted keep K sss pend - (if wants keep K sss tag s then {s} else {})"
proof -
  have tags: "fst (pend' ! j) = fst (pend ! j)" if "j < length pend" for j
    using that p by (cases "j = i") (simp_all add: pend'_def)
  have sub: "x \<in> set (snd (pend ! j))" if "j < length pend" "x \<in> set (snd (pend' ! j))" for x j
    using that p by (cases "j = i") (simp_all add: pend'_def)
  have len: "length pend' = length pend" by (simp add: pend'_def)
  have o: "in_order (snd (pend' ! j))" if "j < length pend" for j
    using lined_upD(1) [OF l that] that p by (cases "j = i") (simp_all add: pend'_def)
  show "lined_up keep K sss pend'"
    unfolding lined_up_def len
  proof (intro conjI allI impI ballI)
    fix j assume j: "j < length pend"
    show "in_order (snd (pend' ! j))" by (rule o [OF j])
    show "fst (pend' ! j) = None \<longleftrightarrow> j = 0" using lined_upD(2) [OF l j] tags [OF j] by simp
    show "keep x" if "fst (pend' ! j) = None" "x \<in> set (snd (pend' ! j))" for x
      using lined_upD(3) [OF l j, of x] that tags [OF j] sub [OF j] by simp
    show "j = k" if "k < length pend" "x \<in> set (snd (pend' ! j))" "x \<in> set (snd (pend' ! k))"
      "wants keep K sss (fst (pend' ! j)) x" "wants keep K sss (fst (pend' ! k)) x" for k x
      using lined_upD(4) [OF l j that(1), of x] that tags [OF j] tags [OF that(1)] sub [OF j] sub [OF that(1)] by simp
  qed
  have notin: "s \<notin> set ys" using in_order_distinct [OF lined_upD(1) [OF l i]] p by simp
  show "wanted keep K sss pend' = wanted keep K sss pend - (if wants keep K sss tag s then {s} else {})"
  proof (intro set_eqI iffI)
    fix x assume "x \<in> wanted keep K sss pend'"
    then obtain j where j: "j < length pend" "x \<in> set (snd (pend' ! j))" "wants keep K sss (fst (pend ! j)) x"
      unfolding wanted_def len using tags by auto
    have "x \<noteq> s" if w: "wants keep K sss tag s"
    proof
      assume x: "x = s"
      have "j = i" using lined_upD(4) [OF l j(1) i, of s] sub [OF j(1,2)] j(3) p w x by simp
      then show False using j(2) i x notin by (simp add: pend'_def)
    qed
    then show "x \<in> wanted keep K sss pend - (if wants keep K sss tag s then {s} else {})"
      using wantedI [OF j(1) sub [OF j(1,2)] j(3)] by simp
  next
    fix x assume x: "x \<in> wanted keep K sss pend - (if wants keep K sss tag s then {s} else {})"
    then obtain j where j: "j < length pend" "x \<in> set (snd (pend ! j))" "wants keep K sss (fst (pend ! j)) x"
      unfolding wanted_def by auto
    have "x \<in> set (snd (pend' ! j))"
    proof (cases "j = i")
      case True
      then have "x \<noteq> s" using x j(3) p by auto
      then show ?thesis using j p True by (simp add: pend'_def)
    qed (use j in \<open>simp add: pend'_def\<close>)
    then show "x \<in> wanted keep K sss pend'" using j tags [OF j(1)] by (intro wantedI [of j]) (simp_all add: len)
  qed
qed

context segment_reads
begin

text \<open>The tests on a selected head.\<close>

lemma emits_answers:
  assumes w: "wb_ok w" and segs: "list_all2 (segment_ok holds) segments sss"
    and p: "pending rd lib src pos (tag, ys)" and zero: "tag = None \<longleftrightarrow> index = 0"
    and keep: "tag = None \<Longrightarrow> keeps_span lib f cq cursor erased s"
  shows "answers (emits rd lib w segments f cq cursor erased index src emitted s)
    (wants (keeps_span lib f cq cursor erased) (dom (wb_map w)) sss tag s \<and> key_of s \<notin> emitted)"
proof (cases src)
  case (Parsed spans)
  then have "tag = None" using p by simp
  then show ?thesis using keep zero
    by (auto simp: emits_def Parsed wants_def keeps_span_def intro: settling)
next
  case (Lazy offsets g q)
  then have t: "tag = Some q" "index \<noteq> 0" using p zero by auto
  have newer: "list_all2 (segment_ok holds) (drop (q + 1) segments) (drop (q + 1) sss)" by (rule list_all2_dropI [OF segs])
  have b: "wb_contains_key w (key_of s) \<longleftrightarrow> key_of s \<in> dom (wb_map w)" using wb_contains_key_iff [OF w] by (simp add: domIff)
  let ?X = "key_of s \<in> key_of ` set (concat (drop (q + 1) sss))"
  show ?thesis
  proof (cases "keeps_span lib f cq cursor erased s \<and> key_of s \<notin> emitted \<and> key_of s \<notin> dom (wb_map w)")
    case True
    have "answers (next_do (superseded_by_newer rd lib (drop (q + 1) segments) s) (\<lambda>superseded. give (\<not> superseded))) (\<not> ?X)"
      by (rule next_settles [OF superseded_answers [OF newer] give_settles])
    moreover have "emits rd lib w segments f cq cursor erased index src emitted s
        = next_do (superseded_by_newer rd lib (drop (q + 1) segments) s) (\<lambda>superseded. give (\<not> superseded))"
      using True b t(2) by (simp add: emits_def Lazy keeps_span_def)
    moreover have "(wants (keeps_span lib f cq cursor erased) (dom (wb_map w)) sss tag s \<and> key_of s \<notin> emitted) = (\<not> ?X)"
      using True by (simp add: wants_def t(1))
    ultimately show ?thesis by simp
  next
    case False
    then have "emits rd lib w segments f cq cursor erased index src emitted s = give False"
      using b t(2) by (auto simp: emits_def Lazy keeps_span_def)
    moreover have "(wants (keeps_span lib f cq cursor erased) (dom (wb_map w)) sss tag s \<and> key_of s \<notin> emitted) = False"
      using False by (auto simp: wants_def t(1))
    ultimately show ?thesis by (simp only: give_settles)
  qed
qed


lemma merge_answers:
  assumes w: "wb_ok w" and segs: "list_all2 (segment_ok holds) segments sss" and keep_def: "keep = keeps_span lib f cq cursor erased"
  shows "list_all2 (stream_has rd lib) streams pend \<Longrightarrow> lined_up keep (dom (wb_map w)) sss pend \<Longrightarrow> in_order R \<Longrightarrow>
    distinct (map key_of R) \<Longrightarrow> set R = wanted keep (dom (wb_map w)) sss pend \<Longrightarrow> key_of ` set R \<inter> emitted = {} \<Longrightarrow>
    length result \<le> limit \<Longrightarrow>
    answers (merge_heads rd lib w segments f cq cursor erased limit streams emitted result) (take limit (result @ R))"
proof (induction "sum_list (map stream_left streams)" arbitrary: streams pend R emitted result rule: less_induct)
  case less
  let ?step = "merge_step rd lib w segments f cq cursor erased limit streams emitted result"
  and ?merge = "merge_heads rd lib w segments f cq cursor erased limit"
  have stop: ?case if "answers ?step None" "take limit (result @ R) = result"
  proof (rule settlesI)
    fix r
    show "budget r \<noteq> None \<and> ?merge streams emitted result r = Inl DeadlineExceeded
      \<or> (\<exists>e. Inr (take limit (result @ R)) = Inl e \<and> ?merge streams emitted result r = Inl e)
      \<or> (\<exists>a r'. Inr (take limit (result @ R)) = Inr a \<and> ?merge streams emitted result r = Inr (a, r') \<and> (budget r = None \<longrightarrow> budget r' = None))"
      by (cases rule: settlesE [OF that(1), of r]) (use that(2) in \<open>simp_all add: merge_heads.simps\<close>)
  qed
  have go: ?case if st: "answers ?step (Some (streams', emitted', result'))"
    and IH: "(\<exists>r r'. ?step r = Inr (Some (streams', emitted', result'), r')) \<Longrightarrow>
      answers (?merge streams' emitted' result') (take limit (result @ R))" for streams' emitted' result'
  proof (rule settlesI)
    fix r
    show "budget r \<noteq> None \<and> ?merge streams emitted result r = Inl DeadlineExceeded
      \<or> (\<exists>e. Inr (take limit (result @ R)) = Inl e \<and> ?merge streams emitted result r = Inl e)
      \<or> (\<exists>a r'. Inr (take limit (result @ R)) = Inr a \<and> ?merge streams emitted result r = Inr (a, r') \<and> (budget r = None \<longrightarrow> budget r' = None))"
    proof (cases rule: settlesE [OF st, of r])
      case (3 a r')
      then have s: "?step r = Inr (Some (streams', emitted', result'), r')" by simp
      then have m: "?merge streams emitted result r = ?merge streams' emitted' result' r'" by (simp add: merge_heads.simps)
      have "answers (?merge streams' emitted' result') (take limit (result @ R))" using IH s by blast
      then show ?thesis
        by (cases rule: settlesE [of _ _ r']; cases "budget r") (use m 3(3) in auto)
    qed (simp_all add: merge_heads.simps)
  qed
  show ?case
  proof (cases "length result < limit")
    case False
    then have "?step = give None" by (simp add: merge_step_def)
    then show ?thesis using stop less.prems(7) False give_settles [of None] by simp
  next
    case room: True
    show ?thesis
    proof (cases "best_head streams 0 None")
      case None
      have "snd (pend ! j) = []" if j: "j < length pend" for j
      proof -
        have "j < length streams" using j list_all2_lengthD [OF less.prems(1)] by simp
        then obtain src pos where "streams ! j = (src, pos, None)" using best_head_none [OF None] by (metis nth_mem prod.collapse)
        then show ?thesis using stream_nth [OF less.prems(1) j] by (cases "pend ! j") simp
      qed
      then have "set R = {}" unfolding less.prems(5) wanted_def by auto
      moreover have "answers ?step None"
        using room None by (simp add: merge_step_def) (rule next_settles [OF check_settles give_settles])
      ultimately show ?thesis using stop less.prems(7) by simp
    next
      case (Some b)
      obtain index s where b: "b = (index, s)" by (cases b)
      note best = Some [unfolded b]
      note o = lined_upD(1) [OF less.prems(2)]
      obtain src pos ys tag where
        i: "index < length pend" and st: "streams ! index = (src, pos, Some s)" and p: "pend ! index = (tag, s # ys)"
        and pe: "pending rd lib src pos (tag, ys)"
        and least: "\<And>j x. j < length pend \<Longrightarrow> x \<in> set (snd (pend ! j)) \<Longrightarrow> order_key s \<le> order_key x"
        by (rule selected_least [OF less.prems(1) o best]) (assumption, (rule that; assumption))
      obtain stream where a: "advance rd lib src pos = Inr stream" "stream_has rd lib stream (tag, ys)"
        using advance_pending [OF pe] .
      let ?w = "wants keep (dom (wb_map w)) sss tag s" and ?pend = "pend[index := (tag, ys)]"
      have inR: "s \<in> set R" if ?w
        unfolding less.prems(5) by (rule wantedI [OF i]) (simp_all only: p fst_conv snd_conv list.set_intros that)
      have fresh: "key_of s \<notin> emitted" if ?w
      proof
        assume "key_of s \<in> emitted"
        with imageI [OF inR [OF that], of key_of] have "key_of s \<in> key_of ` set R \<inter> emitted" by (rule IntI)
        then show False by (simp only: less.prems(6) empty_iff)
      qed
      have e: "answers (emits rd lib w segments f cq cursor erased index src emitted s) ?w"
      proof -
        have k: "tag = None \<Longrightarrow> keeps_span lib f cq cursor erased s" using lined_upD(3) [OF less.prems(2) i, of s] p by (simp add: keep_def)
        have z: "tag = None \<longleftrightarrow> index = 0" using lined_upD(2) [OF less.prems(2) i] p by simp
        have "(?w \<and> key_of s \<notin> emitted) = ?w" by (rule iffI) (erule conjunct1, rule conjI, assumption, rule fresh)
        then show ?thesis using emits_answers [OF w segs pe z k, of emitted] by (simp add: keep_def)
      qed
      let ?streams = "streams[index := stream]" and ?emitted = "if ?w then insert (key_of s) emitted else emitted"
        and ?result = "if ?w then result @ [s] else result"
      have step: "answers ?step (Some (?streams, ?emitted, ?result))"
        using room unfolding merge_step_def
        by (simp only: best not_le [symmetric] if_False option.case prod.case st Let_def)
          (intro next_settles [OF check_settles] next_settles [OF lift_answers [OF a(1)]] next_settles [OF e] give_settles)
      let ?R = "if ?w then tl R else R"
      have hd: "R = s # tl R" if wt: ?w
      proof -
        obtain h t where R: "R = h # t" using inR [OF wt] by (cases R) auto
        have "h \<in> wanted keep (dom (wb_map w)) sss pend" unfolding less.prems(5) [symmetric] by (simp add: R)
        then have le: "order_key s \<le> order_key h" unfolding wanted_def using least by blast
        have "h = s"
        proof (rule ccontr)
          assume "h \<noteq> s"
          then have "order_key h < order_key s" using inR [OF wt] R less.prems(3) by (auto simp: compare_spans_lt_def)
          then show False using le by simp
        qed
        then show ?thesis using R by simp
      qed
      note pop = popped [OF less.prems(2) i p]
      have R: "in_order ?R" "distinct (map key_of ?R)" "set ?R = wanted keep (dom (wb_map w)) sss ?pend" "key_of ` set ?R \<inter> ?emitted = {}"
      proof -
        show "in_order ?R" using less.prems(3) hd by (cases ?w; cases R) simp_all
        show "distinct (map key_of ?R)" using less.prems(4) hd by (cases ?w; cases R) simp_all
        show "set ?R = wanted keep (dom (wb_map w)) sss ?pend"
        proof (cases ?w)
          case True
          have "s \<notin> set (tl R)" using in_order_distinct [OF less.prems(3)] hd [OF True] by (metis distinct.simps(2))
          moreover have "set R = insert s (set (tl R))" using hd [OF True] by (metis list.simps(15))
          ultimately show ?thesis using True pop(2) less.prems(5) by auto
        next
          case False
          then show ?thesis using pop(2) less.prems(5) by simp
        qed
        show "key_of ` set ?R \<inter> ?emitted = {}"
        proof (cases ?w)
          case True
          have "key_of s \<notin> key_of ` set (tl R)" "set (tl R) \<subseteq> set R"
            using less.prems(4) hd [OF True] by (metis distinct.simps(2) list.simps(9) set_map, metis set_subset_Cons)
          then show ?thesis using True less.prems(6) by auto
        qed (use less.prems(6) in simp)
      qed
      have out: "take limit (?result @ ?R) = take limit (result @ R)"
      proof (cases ?w)
        case True
        have "(result @ [s]) @ tl R = result @ R" by (subst (2) hd [OF True]) simp
        then show ?thesis using True by simp
      qed simp
      have has: "list_all2 (stream_has rd lib) ?streams ?pend" using less.prems(1) a(2) by (rule list_all2_update_cong)
      have len: "length ?result \<le> limit" using room by simp
      show ?thesis
      proof (rule go [OF step])
        assume "\<exists>r r'. ?step r = Inr (Some (?streams, ?emitted, ?result), r')"
        then have "sum_list (map stream_left ?streams) < sum_list (map stream_left streams)" using step_shrinks by blast
        from less.hyps [OF this has pop(1) R len] show "answers (?merge ?streams ?emitted ?result) (take limit (result @ R))"
          unfolding out .
      qed
    qed
  qed
qed


end

section \<open>The sources of a limited query\<close>

lemma wanted_Cons: "wanted keep K sss (x # pend) = {s \<in> set (snd x). wants keep K sss (fst x) s} \<union> wanted keep K sss pend"
proof -
  have mem: "s \<in> wanted keep K sss pend \<longleftrightarrow> (\<exists>x \<in> set pend. s \<in> set (snd x) \<and> wants keep K sss (fst x) s)" for pend s
    unfolding wanted_def mem_Collect_eq
  proof
    assume "\<exists>j < length pend. s \<in> set (snd (pend ! j)) \<and> wants keep K sss (fst (pend ! j)) s"
    then obtain j where "j < length pend" "s \<in> set (snd (pend ! j)) \<and> wants keep K sss (fst (pend ! j)) s" by blast
    then show "\<exists>x \<in> set pend. s \<in> set (snd x) \<and> wants keep K sss (fst x) s" using nth_mem by (intro bexI)
  next
    assume "\<exists>x \<in> set pend. s \<in> set (snd x) \<and> wants keep K sss (fst x) s"
    then obtain x where x: "x \<in> set pend" "s \<in> set (snd x) \<and> wants keep K sss (fst x) s" by blast
    obtain j where "j < length pend" "pend ! j = x" using x(1) unfolding in_set_conv_nth by blast
    then show "\<exists>j < length pend. s \<in> set (snd (pend ! j)) \<and> wants keep K sss (fst (pend ! j)) s" using x(2) by (intro exI [of _ j]) simp
  qed
  show ?thesis by (rule set_eqI) (simp add: mem)
qed

definition pends :: "'seg reader \<Rightarrow> store_lib \<Rightarrow> ('seg source \<times> nat) list \<Rightarrow> (nat option \<times> span list) list \<Rightarrow> bool" where
  "pends rd lib sources pend \<longleftrightarrow> list_all2 (\<lambda>x y. pending rd lib (fst x) (snd x) y) sources pend"

text \<open>Each stream is a part of its segment, in order, and the segments are those from this position on.\<close>

definition part_of :: "span list list \<Rightarrow> nat \<Rightarrow> nat option \<times> span list \<Rightarrow> bool" where
  "part_of sss n x \<longleftrightarrow> (\<exists>p \<ge> n. p < length sss \<and> fst x = Some p \<and> in_order (snd x) \<and> set (snd x) \<subseteq> set (sss ! p))"

lemma part_of_mono: "part_of sss (n + 1) x \<Longrightarrow> part_of sss n x"
  unfolding part_of_def by (elim exE conjE, intro exI conjI, rule order_trans [of _ "n + 1"]) simp_all

context segment_reads
begin

lemma source_answers:
  assumes h: "holds g ss" and o: "in_order ss" and se: "list_all (searchable lib) ss" and num: "prints_numbers lib"
  obtains offsets x xs where "select_probe rd lib g f cq = Inr offsets"
    "(case cursor of Some c \<Rightarrow> first_offset_after rd lib g offsets c 0 (length offsets) | None \<Rightarrow> Inr 0) = Inr x"
    "pending rd lib (Lazy offsets g n) x (Some n, xs)" "in_order xs" "set xs \<subseteq> set ss"
    "\<And>s. s \<in> set ss \<Longrightarrow> keeps_span lib f cq cursor erased s \<Longrightarrow> s \<in> set xs"
proof -
  obtain offsets where off: "select_probe rd lib g f cq = Inr offsets"
    "admits_all rd g ss (\<lambda>s. span_matches (numbers lib) s f cq) offsets"
    using select_probe_admits [OF h se num] .
  obtain sel where sel: "reads_as rd lib g offsets sel" "subseq sel ss"
    "\<And>s. s \<in> set ss \<Longrightarrow> span_matches (numbers lib) s f cq \<Longrightarrow> s \<in> set sel"
    using admitted_reads [OF h in_order_distinct [OF o] off(2)] by blast
  have so: "in_order sel" by (rule in_order_subseq [OF sel(2) o])
  have sub: "set sel \<subseteq> set ss" using list_emb_set [OF sel(2)] by blast
  obtain x where x: "(case cursor of Some c \<Rightarrow> first_offset_after rd lib g offsets c 0 (length offsets) | None \<Rightarrow> Inr 0) = Inr x"
    "drop x sel = filter (after cursor) sel" "reads_as rd lib g (drop x offsets) (drop x sel)" "x \<le> length offsets"
  proof (cases cursor)
    case None
    then show thesis using that [of 0] sel(1) by (simp add: after_def [abs_def])
  next
    case (Some c)
    obtain y where y: "first_offset_after rd lib g offsets c 0 (length offsets) = Inr y"
      "drop y sel = filter (\<lambda>s. span_after_cursor s c) sel" "reads_as rd lib g (drop y offsets) (drop y sel)" "y \<le> length offsets"
      using first_offset_after_drops [OF sel(1) so] by blast
    then show thesis using that [of y] Some by (simp add: after_def [abs_def])
  qed
  show thesis
  proof (rule that [OF off(1) x(1)])
    show "pending rd lib (Lazy offsets g n) x (Some n, filter (after cursor) sel)" using x by simp
    show "in_order (filter (after cursor) sel)" by (rule sorted_wrt_filter [OF so])
    show "set (filter (after cursor) sel) \<subseteq> set ss" using sub by auto
    show "s \<in> set (filter (after cursor) sel)" if "s \<in> set ss" "keeps_span lib f cq cursor erased s" for s
      using sel(3) [OF that(1)] that(2) by (simp add: keeps_span_def)
  qed
qed

lemma sources_answers:
  assumes all: "list_all2 (segment_ok holds) all_segs all_sss" "list_all in_order all_sss"
      "list_all (list_all (searchable lib)) all_sss" and num: "prints_numbers lib"
  shows "segs = drop n all_segs \<Longrightarrow> n \<le> length all_segs \<Longrightarrow>
    \<exists>sources pend. answers (lazy_sources rd lib f cq cursor n segs) sources
      \<and> pends rd lib sources pend \<and> list_all (part_of all_sss n) pend \<and> distinct (map fst pend)
      \<and> wanted (keeps_span lib f cq cursor erased) K all_sss pend
        = set (live_spans (keeps_span lib f cq cursor erased) K (drop n all_sss))"
proof (induction segs arbitrary: n)
  case Nil
  have len: "length all_segs = length all_sss" using all(1) by (rule list_all2_lengthD)
  have "drop n all_sss = []" using Nil len by simp
  then show ?case by (intro exI [of _ "[]"]) (simp add: give_settles pends_def wanted_def)
next
  case (Cons seg segs)
  let ?keep = "keeps_span lib f cq cursor erased" and ?g = "os_seg seg"
  have len: "length all_segs = length all_sss" using all(1) by (rule list_all2_lengthD)
  have n: "n < length all_segs" using Cons.prems by (metis drop_all not_le list.distinct(1))
  have segs: "segs = drop (n + 1) all_segs" "seg = all_segs ! n"
    using Cons.prems(1) n by (simp_all add: Cons_nth_drop_Suc [symmetric])
  define ss where "ss = all_sss ! n"
  have sss: "drop n all_sss = ss # drop (n + 1) all_sss" using n len by (simp add: ss_def Cons_nth_drop_Suc)
  have h: "holds ?g ss" and o: "in_order ss" and se: "list_all (searchable lib) ss"
    using list_all2_nthD [OF all(1) n] all(2,3) n len by (simp_all add: ss_def segs(2) segment_ok_def list_all_length)
  have "n + 1 \<le> length all_segs" using n by simp
  from Cons.IH [OF segs(1) this] obtain sources pend where
    src: "answers (lazy_sources rd lib f cq cursor (n + 1) segs) sources"
    and pe: "pends rd lib sources pend" and tags: "list_all (part_of all_sss (n + 1)) pend" and d: "distinct (map fst pend)"
    and li: "wanted ?keep K all_sss pend = set (live_spans ?keep K (drop (n + 1) all_sss))" by blast
  have tags': "list_all (part_of all_sss n) pend" using tags part_of_mono by (auto simp: list_all_iff)
  have live: "set (live_spans ?keep K (drop n all_sss))
      = {s \<in> set ss. wants ?keep K all_sss (Some n) s} \<union> set (live_spans ?keep K (drop (n + 1) all_sss))"
    unfolding sss by (auto simp: wants_def)
  show ?case
  proof (cases "prunes rd ?g f cq")
    case True
    have "{s \<in> set ss. wants ?keep K all_sss (Some n) s} = {}"
      using pruned_no_match [OF h True] by (auto simp: wants_def keeps_span_def)
    moreover have "answers (lazy_sources rd lib f cq cursor n (seg # segs)) sources"
      using src by (simp add: Let_def True next_settles [OF check_settles] next_settles [OF examine_settles]
          next_settles [OF prune_settles])
    moreover have "wanted ?keep K all_sss pend = set (live_spans ?keep K (drop n all_sss))"
      using calculation(1) by (simp only: live li Un_empty_left)
    ultimately show ?thesis using pe tags' d by blast
  next
    case False
    obtain offsets x xs where off: "select_probe rd lib ?g f cq = Inr offsets"
      and x: "(case cursor of Some c \<Rightarrow> first_offset_after rd lib ?g offsets c 0 (length offsets) | None \<Rightarrow> Inr 0) = Inr x"
      and xs: "pending rd lib (Lazy offsets ?g n) x (Some n, xs)" "in_order xs" "set xs \<subseteq> set ss"
        "\<And>s. s \<in> set ss \<Longrightarrow> ?keep s \<Longrightarrow> s \<in> set xs"
      using source_answers [OF h o se num] by blast
    have mine: "{s \<in> set xs. wants ?keep K all_sss (Some n) s} = {s \<in> set ss. wants ?keep K all_sss (Some n) s}"
      using xs(3,4) by (auto simp: wants_def)
    have "answers (lazy_sources rd lib f cq cursor n (seg # segs)) ((Lazy offsets ?g n, x) # sources)"
      using src by (simp add: Let_def False next_settles [OF check_settles] next_settles [OF examine_settles]
          next_settles [OF lift_answers [OF off]] next_settles [OF lift_answers [OF x]]
          next_settles [OF src [unfolded Suc_eq_plus1 [symmetric]]] give_settles)
    moreover have "pends rd lib ((Lazy offsets ?g n, x) # sources) ((Some n, xs) # pend)"
      using pe xs(1) by (simp add: pends_def)
    moreover have "part_of all_sss n (Some n, xs)" using n len xs(2,3) by (auto simp: part_of_def ss_def)
    moreover have "Some n \<notin> fst ` set pend"
    proof
      assume "Some n \<in> fst ` set pend"
      then obtain y where "y \<in> set pend" "fst y = Some n" by (metis imageE)
      then show False using tags by (auto simp: list_all_iff part_of_def)
    qed
    moreover have "wanted ?keep K all_sss ((Some n, xs) # pend) = set (live_spans ?keep K (drop n all_sss))"
      by (simp only: wanted_Cons fst_conv snd_conv mine li live)
    ultimately show ?thesis
      using tags' d by (intro exI [of _ "(Lazy offsets ?g n, x) # sources"] exI [of _ "(Some n, xs) # pend"]) simp
  qed
qed

lemma heads_answer:
  "pends rd lib sources pend \<Longrightarrow>
    \<exists>streams. first_heads rd lib sources = Inr streams \<and> list_all2 (stream_has rd lib) streams pend"
proof (induction sources arbitrary: pend)
  case (Cons x sources)
  obtain src pos where x: "x = (src, pos)" by (cases x)
  obtain y pend' where y: "pend = y # pend'" "pending rd lib src pos y" "pends rd lib sources pend'"
    using Cons.prems x by (auto simp: pends_def list_all2_Cons1)
  obtain tag xs where t: "y = (tag, xs)" by (cases y)
  obtain stream where a: "advance rd lib src pos = Inr stream" "stream_has rd lib stream (tag, xs)"
    using advance_pending y(2) t by metis
  obtain streams where "first_heads rd lib sources = Inr streams" "list_all2 (stream_has rd lib) streams pend'"
    using Cons.IH [OF y(3)] by blast
  then show ?case using x y(1) t a by simp
qed (simp add: pends_def)


end

text \<open>All the streams of a limited query, the buffer's matches first, and what is wanted from them.\<close>

definition answer_list :: "(span \<Rightarrow> bool) \<Rightarrow> write_buffer \<Rightarrow> span list list \<Rightarrow> span list" where
  "answer_list keep w sss = sort_spans (live_spans keep (dom (wb_map w)) sss @ filter keep (map snd (wb_spans w)))"

context segment_reads
begin

lemma limited_answers:
  assumes ok: "view_ok lib holds w segments sss" and keep_def: "keep = keeps_span lib f cq cursor erased"
  shows "answers (query_limited rd lib w segments f cq cursor erased limit) (take limit (answer_list keep w sss))"
proof (cases "limit = 0")
  case True
  then show ?thesis by (simp add: query_limited_def give_settles)
next
  case False
  note D = view_okD [OF ok]
  define K where "K = dom (wb_map w)"
  define buffered where "buffered = filter keep (map snd (wb_spans w))"
  have bd: "distinct (map key_of buffered)"
    unfolding buffered_def using D(1) by (intro distinct_map_filter) (simp add: wb_ok_def comp_def)
  have bK: "key_of s \<in> K" if "s \<in> set buffered" for s
  proof -
    have "s \<in> snd ` set (wb_spans w)" using that by (simp add: buffered_def)
    then show ?thesis unfolding buffer_mem [OF D(1)] by (simp add: K_def domIff)
  qed
  from sources_answers [OF D(2,4,5,6), of segments 0 f cq cursor erased K] obtain sources pend where
    src: "answers (lazy_sources rd lib f cq cursor 0 segments) sources" and pe: "pends rd lib sources pend"
    and part: "list_all (part_of sss 0) pend" and d: "distinct (map fst pend)"
    and li: "wanted keep K sss pend = set (live_spans keep K sss)" by (auto simp: keep_def)
  let ?sources = "(Parsed (sort_spans buffered), 0) # sources" and ?pend = "(None, sort_spans buffered) # pend"
  have sm: "set (sort_spans xs) = set xs" for xs by (simp add: sort_spans_def)
  have pe': "pends rd lib ?sources ?pend" using pe by (simp add: pends_def)
  obtain streams where st: "first_heads rd lib ?sources = Inr streams" "list_all2 (stream_has rd lib) streams ?pend"
    using heads_answer [OF pe'] by blast
  let ?G = "answer_list keep w sss"
  have G: "in_order ?G" "distinct (map key_of ?G)" "set ?G = wanted keep K sss ?pend"
  proof -
    have dist: "distinct (map key_of (live_spans keep K sss @ buffered))"
    proof -
      have "key_of s \<notin> K" if "s \<in> set (live_spans keep K sss)" for s using live_spans_mem [OF D(3)] that by blast
      then have "key_of ` set (live_spans keep K sss) \<inter> key_of ` set buffered = {}" using bK by fastforce
      then show ?thesis using live_spans_keys [OF D(3)] bd by simp
    qed
    then show "in_order ?G" unfolding answer_list_def K_def buffered_def by (rule sort_spans_in_order)
    show "distinct (map key_of ?G)"
      using dist mset_eq_imp_distinct_iff [of "map key_of ?G" "map key_of (live_spans keep K sss @ buffered)"]
      by (simp add: answer_list_def sort_spans_def K_def buffered_def)
    have "{s \<in> set buffered. wants keep K sss None s} = set buffered" by (auto simp: wants_def buffered_def)
    then show "set ?G = wanted keep K sss ?pend"
      by (simp only: wanted_Cons fst_conv snd_conv sm li answer_list_def K_def [symmetric] buffered_def [symmetric] set_append Un_commute)
  qed
  have lined: "lined_up keep K sss ?pend"
    unfolding lined_up_def
  proof (intro conjI allI impI ballI)
    fix j assume j: "j < length ?pend"
    have tl: "part_of sss 0 (?pend ! j)" if "j \<noteq> 0"
      using part j that by (cases j) (simp_all add: list_all_length)
    show "in_order (snd (?pend ! j))"
      using sort_spans_in_order [OF bd] tl by (cases "j = 0") (simp_all add: part_of_def, blast)
    show "fst (?pend ! j) = None \<longleftrightarrow> j = 0" using tl by (cases "j = 0") (auto simp: part_of_def)
    show "keep s" if "fst (?pend ! j) = None" "s \<in> set (snd (?pend ! j))" for s
      using that tl by (cases "j = 0") (auto simp: part_of_def sm buffered_def)
    fix k s assume k: "k < length ?pend" and s: "s \<in> set (snd (?pend ! j))" "s \<in> set (snd (?pend ! k))"
      and wj: "wants keep K sss (fst (?pend ! j)) s" and wk: "wants keep K sss (fst (?pend ! k)) s"
    have tk: "part_of sss 0 (?pend ! k)" if "k \<noteq> 0"
      using part k that by (cases k) (simp_all add: list_all_length)
    have zero: "i = 0" if z: "part_of sss 0 (?pend ! i) \<or> i = 0" "wants keep K sss (fst (?pend ! i)) s" "key_of s \<in> K" for i
    proof (rule ccontr)
      assume "i \<noteq> 0"
      then obtain p where "fst (?pend ! i) = Some p" using z(1) unfolding part_of_def by blast
      then show False using z(2,3) by (simp add: wants_def)
    qed
    have inK: "key_of s \<in> K" if "j = 0 \<or> k = 0"
    proof -
      have "s \<in> set buffered" using that s by (elim disjE) (simp_all add: sm)
      then show ?thesis by (rule bK)
    qed
    show "j = k"
    proof (cases "j = 0 \<or> k = 0")
      case True
      then show ?thesis using zero [OF _ wj inK] zero [OF _ wk inK] tl tk by blast
    next
      case nz: False
      obtain p q where p: "fst (?pend ! j) = Some p" "s \<in> set (sss ! p)" "p < length sss"
        and q: "fst (?pend ! k) = Some q" "s \<in> set (sss ! q)" "q < length sss"
        using tl tk nz s by (auto simp: part_of_def)
      have later: "x = y \<or> y < x" if "wants keep K sss (Some x) s" "s \<in> set (sss ! y)" "y < length sss" for x y
      proof (rule ccontr)
        assume "\<not> (x = y \<or> y < x)"
        then have "sss ! y \<in> set (drop (x + 1) sss)" using that(3) by (auto simp: in_set_conv_nth intro!: exI [of _ "y - (x + 1)"])
        then have "s \<in> set (concat (drop (x + 1) sss))" using that(2) by auto
        then have "key_of s \<in> key_of ` set (concat (drop (x + 1) sss))" by (rule imageI)
        then show False using that(1) by (simp add: wants_def)
      qed
      have "p = q" using later [of p q] later [of q p] wj wk p q by auto
      then have "map fst ?pend ! j = map fst ?pend ! k" using p(1) q(1) by (simp only: nth_map [OF j] nth_map [OF k])
      moreover have "distinct (map fst ?pend)"
      proof -
        have "None \<notin> fst ` set pend" using part by (auto simp: list_all_iff part_of_def)
        then show ?thesis using d by simp
      qed
      ultimately show ?thesis using j k nth_eq_iff_index_eq [of "map fst ?pend" j k] by simp
    qed
  qed
  have merge: "answers (merge_heads rd lib w segments f cq cursor erased limit streams {} []) (take limit ?G)"
    using merge_answers [OF D(1,2) keep_def st(2) lined [unfolded K_def] G(1,2) G(3) [unfolded K_def],
        of "{}" "[]" limit] by simp
  have sweep: "answers (sweep_buffer keep (map snd (wb_spans w)) 0 []) buffered"
    using sweep_answers [of keep "map snd (wb_spans w)" 0 "[]"] by (simp add: buffered_def)
  show ?thesis
    using False unfolding query_limited_def
    by (simp only: if_False keep_def [symmetric])
      (intro next_settles [OF sweep] next_settles [OF src] next_settles [OF lift_answers [OF st(1)]] next_settles [OF merge]
        next_settles [OF check_settles] give_settles)
qed


end

text \<open>The whole of \<open>query_view_costed\<close>, in terms of the one list every path works from.\<close>

definition cut_to :: "nat option \<Rightarrow> 'a list \<Rightarrow> 'a list" where
  "cut_to limit xs = (case limit of None \<Rightarrow> xs | Some n \<Rightarrow> take n xs)"

definition query_result :: "span_filter \<Rightarrow> span list \<Rightarrow> store_error + span list" where
  "query_result f xs =
     (case f_sort f of
        None \<Rightarrow> Inr (cut_to (f_limit f) xs)
      | Some order \<Rightarrow>
          if length xs > SORT_CANDIDATE_LIMIT then Inl (QueryTooBroad (length xs))
          else Inr (cut_to (f_limit f) (order_spans (Some order) xs)))"

lemma keeps_span_unsorted: "keeps_span lib (f\<lparr>f_limit := l, f_sort := o'\<rparr>) cq = keeps_span lib f cq"
  by (simp add: fun_eq_iff keeps_span_def span_matches_iff)

context segment_reads
begin

lemma unsorted_answers:
  assumes ok: "view_ok lib holds w segments sss"
  shows "answers (query_unsorted rd lib w segments f cursor erased)
    (cut_to (f_limit f) (answer_list (keeps_span lib f (content_query f) cursor erased) w sss))"
  using limited_answers [OF ok refl] unlimited_answers [OF ok]
  by (simp add: query_unsorted_def cut_to_def answer_list_def split: option.split)

theorem costed_settles:
  assumes ok: "view_ok lib holds w segments sss"
  shows "settles (query_view_costed rd lib w segments f cursor erased)
    (query_result f (answer_list (keeps_span lib f (content_query f) cursor erased) w sss))"
proof (cases "f_sort f")
  case None
  then show ?thesis using unsorted_answers [OF ok, of f cursor erased] by (simp add: query_view_costed_def query_result_def)
next
  case (Some order)
  let ?G = "answer_list (keeps_span lib f (content_query f) cursor erased) w sss"
  have q: "answers (query_unsorted rd lib w segments (f\<lparr>f_limit := None, f_sort := None\<rparr>) cursor erased) ?G"
    using unsorted_answers [OF ok, of "f\<lparr>f_limit := None, f_sort := None\<rparr>" cursor erased]
    by (simp add: keeps_span_unsorted cut_to_def content_query_def)
  show ?thesis
    unfolding query_view_costed_def query_result_def Some option.case
    by (rule next_settles [OF q]) (simp add: lift_settles give_settles cut_to_def Let_def split: option.split)
qed

lemma answer_list_exact:
  assumes ok: "view_ok lib holds w segments sss"
  shows "lists_exactly (latest_by key_of (concat sss) ++ wb_map w) keep (answer_list keep w sss)"
  unfolding answer_list_def using answer_lists [OF view_okD(1) [OF ok] view_okD(3) [OF ok]] .

end

end
