(* ===== verification/Store_Queries.thy ===== *)
theory Store_Queries
  imports Query_Merge Store_Safety
begin

text \<open>
  Queries over the stores an engine reaches: every segment a seal or a merge writes holds admitted spans in stable
  order, each key once, so that the queries of \<open>Query_View\<close> answer exactly from the last versions admitted.
\<close>

section \<open>What the segments of a reachable store hold\<close>

definition kept :: "span list \<Rightarrow> span list \<Rightarrow> bool" where
  "kept admitted ss \<longleftrightarrow> in_order ss \<and> distinct (map key_of ss) \<and> set ss \<subseteq> set admitted"

definition files_kept :: "span list \<Rightarrow> store \<Rightarrow> bool" where
  "files_kept admitted st \<longleftrightarrow>
     (\<forall>e \<in> set (disk st) \<union> set (unsynced st). kept admitted (entry_spans e))
     \<and> (\<forall>s \<in> set (segments st) \<union> set (sealed_handle st). kept admitted (sg_spans s))
     \<and> (\<forall>m. merging st = Some m \<longrightarrow> (\<forall>s \<in> set (m_inputs m) \<union> set (m_outputs m). kept admitted (sg_spans s)))
     \<and> (\<forall>j. sealing st = Some j \<longrightarrow> distinct (keys_of (d_spans j)) \<and> snd ` set (d_spans j) \<subseteq> set admitted)"

lemma files_keptD:
  assumes "files_kept admitted st"
  shows "e \<in> set (disk st) \<Longrightarrow> kept admitted (entry_spans e)" "e \<in> set (unsynced st) \<Longrightarrow> kept admitted (entry_spans e)"
    "s \<in> set (segments st) \<Longrightarrow> kept admitted (sg_spans s)" "s \<in> set (sealed_handle st) \<Longrightarrow> kept admitted (sg_spans s)"
    "merging st = Some m \<Longrightarrow> s \<in> set (m_inputs m) \<Longrightarrow> kept admitted (sg_spans s)"
    "merging st = Some m \<Longrightarrow> s \<in> set (m_outputs m) \<Longrightarrow> kept admitted (sg_spans s)"
    "sealing st = Some j \<Longrightarrow> distinct (keys_of (d_spans j))" "sealing st = Some j \<Longrightarrow> h \<in> set (d_spans j) \<Longrightarrow> snd h \<in> set admitted"
  using assms unfolding files_kept_def by blast+

lemma files_keptI:
  assumes "\<And>e. e \<in> set (disk st) \<Longrightarrow> kept admitted (entry_spans e)" "\<And>e. e \<in> set (unsynced st) \<Longrightarrow> kept admitted (entry_spans e)"
    "\<And>s. s \<in> set (segments st) \<Longrightarrow> kept admitted (sg_spans s)" "\<And>s. s \<in> set (sealed_handle st) \<Longrightarrow> kept admitted (sg_spans s)"
    "\<And>m s. merging st = Some m \<Longrightarrow> s \<in> set (m_inputs m) \<Longrightarrow> kept admitted (sg_spans s)"
    "\<And>m s. merging st = Some m \<Longrightarrow> s \<in> set (m_outputs m) \<Longrightarrow> kept admitted (sg_spans s)"
    "\<And>j. sealing st = Some j \<Longrightarrow> distinct (keys_of (d_spans j))"
    "\<And>j h. sealing st = Some j \<Longrightarrow> h \<in> set (d_spans j) \<Longrightarrow> snd h \<in> set admitted"
  shows "files_kept admitted st"
  unfolding files_kept_def using assms by blast

lemma kept_mono: "kept admitted ss \<Longrightarrow> set admitted \<subseteq> set admitted' \<Longrightarrow> kept admitted' ss"
  unfolding kept_def by blast

lemma files_kept_mono:
  assumes "files_kept admitted st" and "set admitted \<subseteq> set admitted'"
  shows "files_kept admitted' st"
  by (rule files_keptI) (use files_keptD [OF assms(1)] kept_mono [OF _ assms(2)] assms(2) in blast)+

lemma kept_sorted: "distinct (map key_of xs) \<Longrightarrow> set xs \<subseteq> set admitted \<Longrightarrow> kept admitted (sort_spans xs)"
proof -
  assume d: "distinct (map key_of xs)" and sub: "set xs \<subseteq> set admitted"
  have "distinct (map key_of (sort_spans xs))"
    using d mset_eq_imp_distinct_iff [of "map key_of (sort_spans xs)" "map key_of xs"] by (simp add: sort_spans_def)
  then show ?thesis using sub sort_spans_in_order [OF d] by (simp add: kept_def sort_spans_def)
qed

lemma latest_by_mem: "latest_by key vs k = Some v \<Longrightarrow> v \<in> set vs"
  unfolding latest_by_def by (auto dest: map_of_SomeD)

lemma kept_merge_group:
  assumes "\<And>s. s \<in> set g \<Longrightarrow> kept admitted (sg_spans s)"
  shows "kept admitted (merge_group g)"
proof -
  note spec = merge_group_spec [of g]
  obtain latest order where "merge_loop (concat (map sg_spans g)) Map.empty [] = (latest, order)" by fastforce
  then obtain xs where xs: "merge_group g = sort_spans xs" by (auto simp: merge_group_def)
  have d: "distinct (map key_of xs)"
    using spec(1) mset_eq_imp_distinct_iff [of "map key_of (sort_spans xs)" "map key_of xs"] by (simp add: sort_spans_def xs)
  have "s \<in> set admitted" if "s \<in> set xs" for s
  proof -
    have "s \<in> set (merge_group g)" using that by (simp add: xs sort_spans_def)
    then have "latest_by key_of (merge_group g) (key_of s) = Some s" by (subst latest_by_distinct [OF spec(1)]) simp
    then have "s \<in> set (concat (map sg_spans g))" unfolding spec(2) by (rule latest_by_mem)
    then show ?thesis using assms unfolding kept_def by auto
  qed
  then show ?thesis unfolding xs using d by (intro kept_sorted) auto
qed

lemma buffered_admitted:
  assumes "store_inv st" and "visible st = latest_by key_of admitted" and "h \<in> set (wb_spans (writer st))"
  shows "snd h \<in> set admitted"
proof -
  have "wb_map (writer st) (key_of (snd h)) = Some (snd h)"
    using wb_map_Some [OF store_invD(1) [OF assms(1)]] assms(3) by blast
  then have "latest_by key_of admitted (key_of (snd h)) = Some (snd h)"
    unfolding assms(2) [symmetric] visible_def by (simp add: map_add_def)
  then show ?thesis by (rule latest_by_mem)
qed

lemma written_kept:
  assumes "write_segment outcome addr len n ss d = (d', sealed)" and "kept admitted ss"
    and "\<forall>e \<in> set d. kept admitted (entry_spans e)"
  shows "e \<in> set d' \<Longrightarrow> kept admitted (entry_spans e)" "sealed = Some s \<Longrightarrow> kept admitted (sg_spans s)"
proof -
  have "d' = d \<and> sealed = None \<or> (\<exists>s'. d' = (n, len, ss) # d \<and> (sealed = None \<or> sealed = Some s' \<and> sg_spans s' = ss))"
    using assms(1) by (auto simp: write_segment_def split: if_splits write_outcome.splits)
  then show "e \<in> set d' \<Longrightarrow> kept admitted (entry_spans e)" "sealed = Some s \<Longrightarrow> kept admitted (sg_spans s)"
    using assms(2,3) by auto
qed

lemma unlink_subset: "set (fold unlink_file ns d) \<subseteq> set d"
  by (auto simp: fold_unlink)

lemma recover_subset: "set (recover_supersede_markers js d) \<subseteq> set d"
proof -
  have one: "set (recover_merge j d) \<subseteq> set d" for j d
    using unlink_subset by (auto simp: recover_merge_def Let_def)
  have "set (fold recover_merge js d) \<subseteq> set d" for js
  proof (induction js arbitrary: d)
    case (Cons j js)
    from Cons.IH [of "recover_merge j d"] one [of j d] show ?case by simp
  qed simp
  then show ?thesis by (simp add: recover_supersede_markers_def)
qed

lemma crash_kept:
  assumes "files_kept admitted st" and "set restored \<subseteq> set (unsynced st)"
  shows "files_kept admitted (crash_and_open now restored st)"
proof -
  let ?d = "recover_supersede_markers (journals st) (disk st @ restored)"
  have d: "kept admitted (entry_spans e)" if "e \<in> set ?d" for e
  proof -
    have "e \<in> set (disk st) \<or> e \<in> set (unsynced st)" using that recover_subset assms(2) by fastforce
    then show ?thesis using files_keptD(1,2) [OF assms(1)] by blast
  qed
  have segs: "kept admitted (sg_spans s)" if s: "s \<in> set (load_segments ?d)" for s
  proof -
    obtain x where x: "x \<in> set (enumerate 0 (sort_key fst ?d))" "sg_spans s = entry_spans (snd x)"
      using s unfolding load_segments_def set_map image_iff case_prod_beta by (elim bexE) simp
    have "snd x \<in> snd ` set (enumerate 0 (sort_key fst ?d))" using x(1) by (rule imageI)
    then have "snd x \<in> set ?d" by (simp flip: set_map)
    then show ?thesis using d x(2) by simp
  qed
  show ?thesis
    by (rule files_keptI) (use d segs in \<open>simp_all add: crash_and_open_def open_store_def Let_def sealed_handle_def\<close>)
qed


lemma step_kept:
  assumes step: "store_step st spans st'" and k: "files_kept admitted st"
    and inv: "store_inv st" "visible st = latest_by key_of admitted"
  shows "files_kept (admitted @ spans) st'"
proof -
  have on_disk: "\<forall>e \<in> set (disk st). kept admitted (entry_spans e)" using files_keptD(1) [OF k] by blast
  show ?thesis
  using step
proof cases
  case (admit_step addrs now)
  have "files_kept admitted st'"
    by (rule files_keptI) (use files_keptD [OF k] admit_step(1) in \<open>auto simp: admit_def sealed_handle_def\<close>)
  then show ?thesis by (rule files_kept_mono) simp
next
  case drain_step
  then have st': "st' = st\<lparr>next_segment := next_segment st + 1,
      sealing := Some \<lparr>d_spans = wb_spans (writer st), d_upserts = wb_upserts (writer st), d_id = next_segment st, d_phase = SealWriting\<rparr>\<rparr>"
    by (auto simp: seal_drain_def split: if_splits)
  have "distinct (keys_of (wb_spans (writer st)))" using store_invD(1) [OF inv(1)] by (simp add: wb_ok_def)
  then have "files_kept admitted st'"
    by (intro files_keptI) (use files_keptD [OF k] buffered_admitted [OF inv] in \<open>auto simp: st' sealed_handle_def\<close>)
  then show ?thesis using drain_step(1) by simp
next
  case (seal_write_step addr outcome len)
  from seal_write_step(3) obtain j where j: "sealing st = Some j" "d_phase j = SealWriting" by (auto simp: seal_write_def split: option.splits if_splits)
  obtain d sealed where w: "write_segment outcome addr len (d_id j) (sort_spans (map snd (d_spans j))) (disk st) = (d, sealed)" by fastforce
  have "kept admitted (sort_spans (map snd (d_spans j)))"
    using files_keptD(7,8) [OF k j(1)] by (intro kept_sorted) (auto simp: comp_def)
  note W = written_kept [OF w this on_disk]
  have "files_kept admitted st'"
  proof (cases sealed)
    case None
    then have "st' = st\<lparr>disk := d, sealing := None\<rparr>" using seal_write_step(3) j w by (simp add: seal_write_def)
    then show ?thesis by (intro files_keptI) (use files_keptD [OF k] W(1) in \<open>auto simp: sealed_handle_def\<close>)
  next
    case (Some s)
    then have "st' = st\<lparr>disk := d, sealing := Some (j\<lparr>d_phase := SealWritten s\<rparr>)\<rparr>" using seal_write_step(3) j w by (simp add: seal_write_def)
    then show ?thesis using W(2) [OF Some] by (intro files_keptI) (use files_keptD [OF k] W(1) j in \<open>auto simp: sealed_handle_def\<close>)
  qed
  then show ?thesis using seal_write_step(1) by simp
next
  case seal_publish_step
  then obtain j s where j: "sealing st = Some j" "d_phase j = SealWritten s"
    and st': "st' = st\<lparr>segments := sort_key sg_id (segments st @ [s]), sealing := Some (j\<lparr>d_phase := SealPublished\<rparr>)\<rparr>"
    by (auto simp: seal_publish_def split: option.splits seal_phase.splits)
  have "s \<in> set (sealed_handle st)" using j by (simp add: sealed_handle_def)
  note s = files_keptD(4) [OF k this]
  have "files_kept admitted st'"
    using s by (intro files_keptI) (use files_keptD [OF k] j in \<open>auto simp: st' sealed_handle_def\<close>)
  then show ?thesis using seal_publish_step(1) by simp
next
  case (reconcile_step now reclaim log_ok)
  then have same: "disk st' = disk st" "unsynced st' = unsynced st" "segments st' = segments st" "merging st' = merging st"
      "sealing st' = None"
    by (auto simp: reconcile_after_publish_def Let_def split: option.splits if_splits)
  have "files_kept admitted st'"
    by (intro files_keptI) (use files_keptD [OF k] in \<open>auto simp: same sealed_handle_def\<close>)
  then show ?thesis using reconcile_step(1) by simp
next
  case (pin_step select journal_write settings watermark)
  from pin_step(4) have no: "sealing st = None" "merging st = None" by (auto simp: merge_pin_def split: if_splits)
  have same: "disk st' = disk st" "unsynced st' = unsynced st" "segments st' = segments st" "sealing st' = None"
    using pin_step(4) no by (auto simp: merge_pin_def Let_def split: option.splits if_splits write_outcome.splits)
  have m: "m_inputs x = drop (length (segments st) - the (select (segments st))) (segments st) \<and> m_outputs x = []"
    if "merging st' = Some x" for x
    using pin_step(4) no that
    by (auto simp: merge_pin_def Let_def split: option.splits if_splits write_outcome.splits)
  have "files_kept admitted st'"
  proof (rule files_keptI)
    fix x s assume x: "merging st' = Some x"
    show "kept admitted (sg_spans s)" if "s \<in> set (m_inputs x)"
      by (rule files_keptD(3) [OF k], rule subsetD [OF set_drop_subset]) (use m [OF x] that in simp)
    show "kept admitted (sg_spans s)" if "s \<in> set (m_outputs x)" using m [OF x] that by simp
  qed (use files_keptD [OF k] in \<open>auto simp: same sealed_handle_def\<close>)
  then show ?thesis using pin_step(1) by simp
next
  case (merge_write_step addr outcome len)
  from merge_write_step(3) obtain m where m: "merging st = Some m" "m_phase m = Merging" "length (m_outputs m) \<noteq> length (m_chunks m)"
    by (auto simp: merge_write_def Let_def split: option.splits if_splits)
  let ?g = "groups (m_chunks m) (m_inputs m) ! length (m_outputs m)"
  obtain d sealed where w: "write_segment outcome addr len (m_first m + length (m_outputs m)) (merge_group ?g) (disk st) = (d, sealed)" by fastforce
  have "set ?g \<subseteq> set (m_inputs m)"
  proof -
    have I: "length (m_outputs m) \<le> length (m_chunks m)" "sum_list (m_chunks m) = length (m_inputs m)"
      using store_invD(11) [OF inv(1) m(1)] by (simp_all add: merge_inv_def)
    then have "?g \<in> set (groups (m_chunks m) (m_inputs m))" using m(3) by (intro nth_mem) (simp add: length_groups)
    then have "set ?g \<subseteq> set (concat (groups (m_chunks m) (m_inputs m)))" by auto
    then show ?thesis using I(2) by (simp add: concat_groups)
  qed
  then have "kept admitted (merge_group ?g)" using files_keptD(5) [OF k m(1)] by (intro kept_merge_group) blast
  note W = written_kept [OF w this on_disk]
  have "files_kept admitted st'"
  proof (cases sealed)
    case None
    then have "st' = st\<lparr>disk := d, merging := Some (m\<lparr>m_phase := Aborting 0\<rparr>)\<rparr>"
      using merge_write_step(3) m w by (simp add: merge_write_def Let_def)
    then show ?thesis by (intro files_keptI) (use files_keptD [OF k] W(1) m in \<open>auto simp: sealed_handle_def\<close>)
  next
    case (Some s)
    then have "st' = st\<lparr>disk := d, merging := Some (m\<lparr>m_outputs := m_outputs m @ [s]\<rparr>)\<rparr>"
      using merge_write_step(3) m w by (simp add: merge_write_def Let_def)
    then show ?thesis using W(2) [OF Some]
      by (intro files_keptI) (use files_keptD [OF k] W(1) m in \<open>auto simp: sealed_handle_def\<close>)
  qed
  then show ?thesis using merge_write_step(1) by simp
next
  case merge_publish_step
  then obtain m where m: "merging st = Some m" by (auto simp: merge_publish_def split: option.splits)
  have "files_kept admitted st'"
  proof (cases "run_position (segments st) (m_inputs m)")
    case None
    then have "st' = st\<lparr>merging := Some (m\<lparr>m_phase := Aborting 0\<rparr>)\<rparr>"
      using merge_publish_step(2) m by (auto simp: merge_publish_def split: if_splits)
    then show ?thesis by (intro files_keptI) (use files_keptD [OF k] m in \<open>auto simp: sealed_handle_def\<close>)
  next
    case (Some start)
    then have st': "st' = st\<lparr>segments := sort_key sg_id (take start (segments st) @ m_outputs m @ drop (start + length (m_inputs m)) (segments st)),
        merging := Some (m\<lparr>m_phase := Deleting 0\<rparr>)\<rparr>"
      using merge_publish_step(2) m by (auto simp: merge_publish_def split: if_splits)
    have "kept admitted (sg_spans s)" if "s \<in> set (segments st')" for s
      using that files_keptD(3) [OF k, of s] files_keptD(6) [OF k m, of s] by (auto simp: st' dest: in_set_takeD in_set_dropD)
    then show ?thesis by (intro files_keptI) (use files_keptD [OF k] m in \<open>auto simp: st' sealed_handle_def\<close>)
  qed
  then show ?thesis using merge_publish_step(1) by simp
next
  case merge_unlink_step
  then obtain m n p where m: "merging st = Some m" and st': "st' = (unlink_step n st)\<lparr>merging := Some (m\<lparr>m_phase := p\<rparr>)\<rparr>"
    by (auto simp: merge_unlink_def split: option.splits merge_phase.splits if_splits)
  have "files_kept admitted st'"
    by (intro files_keptI) (use files_keptD [OF k] m in \<open>auto simp: st' unlink_step_def unlink_set sealed_handle_def\<close>)
  then show ?thesis using merge_unlink_step(1) by simp
next
  case merge_finish_step
  then obtain js where st': "st' = st\<lparr>unsynced := [], journals := js, merging := None\<rparr>"
    by (auto simp: merge_finish_def split: option.splits if_splits)
  have "files_kept admitted st'"
    by (intro files_keptI) (use files_keptD [OF k] in \<open>auto simp: st' sealed_handle_def\<close>)
  then show ?thesis using merge_finish_step(1) by simp
next
  case (crash_step restored now)
  then show ?thesis using crash_kept [OF k crash_step(3)] by simp
qed
qed

lemma reaches_kept: "reaches admitted st \<Longrightarrow> files_kept admitted st"
proof (induction rule: reaches.induct)
  case start
  show ?case by (rule files_keptI) (simp_all add: empty_store_def sealed_handle_def)
next
  case (more admitted st spans st')
  then show ?case using step_kept [OF more.hyps(2) more.IH] reaches_inv [OF more.hyps(1)] by simp
qed

end
