(* ===== verification/Query_Properties.thy ===== *)
theory Query_Properties
  imports Store_Queries
begin

text \<open>
  The properties of queries over a store: exact answers from the last versions admitted, whatever the path taken,
  and a concrete store of one local segment and one buffered span at which they are applied.
\<close>

section \<open>What a query sees of a reachable store\<close>

text \<open>The open segments serve the spans the store's segments hold; a sidecar that matches hashes every key.\<close>

definition serves_store ::
  "store_lib \<Rightarrow> (bytes \<Rightarrow> bytes) \<Rightarrow> (bytes \<Rightarrow> nat \<Rightarrow> bytes option) \<Rightarrow> segment store_segment list \<Rightarrow> store \<Rightarrow> bool" where
  "serves_store lib compress decompress segs st \<longleftrightarrow>
     list_all2 (\<lambda>seg s. segment_ok (stores_spans lib compress decompress) seg (sg_spans s)) segs (segments st)"

definition all_searchable :: "store_lib \<Rightarrow> span list \<Rightarrow> bool" where
  "all_searchable lib admitted \<longleftrightarrow> list_all (searchable lib) admitted \<and> prints_numbers lib"

lemma reachable_view:
  assumes r: "reaches admitted st" and "serves_store lib compress decompress segs st" and "all_searchable lib admitted"
  shows "view_ok lib (stores_spans lib compress decompress) (writer st) segs (map sg_spans (segments st))"
    and "latest_by key_of (concat (map sg_spans (segments st))) ++ wb_map (writer st) = latest_by key_of admitted"
proof -
  have kept: "kept admitted (sg_spans s)" if "s \<in> set (segments st)" for s using files_keptD(3) [OF reaches_kept [OF r] that] .
  have "wb_ok (writer st)" using reaches_inv [OF r] store_invD(1) by blast
  moreover have "keyed_once (map sg_spans (segments st))" using kept by (auto simp: keyed_once_def list_all_iff kept_def)
  moreover have "list_all in_order (map sg_spans (segments st))" using kept by (auto simp: list_all_iff kept_def)
  moreover have "list_all (list_all (searchable lib)) (map sg_spans (segments st))"
    using kept assms(3) by (force simp: list_all_iff kept_def all_searchable_def)
  ultimately show "view_ok lib (stores_spans lib compress decompress) (writer st) segs (map sg_spans (segments st))"
    using assms(2,3) by (simp add: view_ok_def serves_store_def all_searchable_def list_all2_map2)
  show "latest_by key_of (concat (map sg_spans (segments st))) ++ wb_map (writer st) = latest_by key_of admitted"
    using reaches_inv [OF r] by (simp add: visible_def segments_view_def)
qed

lemma view_settles:
  assumes "settles (query_view_costed rd lib w segs f cursor erased) x"
  shows "query_view rd lib w segs f cursor erased None = x"
    and "query_view rd lib w segs f cursor erased (Some n) \<in> {x, Inl DeadlineExceeded}"
proof -
  let ?m = "query_view_costed rd lib w segs f cursor erased"
  show "query_view rd lib w segs f cursor erased None = x"
    using settles_unbudgeted [OF assms, of "fresh_run None"]
    by (cases "?m (fresh_run None)") (auto simp: query_view_def fresh_run_def)
  show "query_view rd lib w segs f cursor erased (Some n) \<in> {x, Inl DeadlineExceeded}"
    using settles_budgeted [OF assms, of "fresh_run (Some n)"] by (auto simp: query_view_def)
qed

section \<open>A concrete store\<close>

definition w_stored_span :: span where
  "w_stored_span = w_span 7 1"

definition w_numbers :: number_lib where
  "w_numbers = \<lparr>number_text = (\<lambda>n. []), number_f64 = (\<lambda>n. None), parse_f64 = (\<lambda>t. None), f64_ge = (\<lambda>a b. False)\<rparr>"

definition w_lib :: store_lib where
  "w_lib = \<lparr>numbers = w_numbers, to_vec = (\<lambda>s. if s = w_stored_span then Some [1] else None),
            from_slice = (\<lambda>bs. if bs = [1] then Some w_stored_span else None), json_text = (\<lambda>v. []), json_parse = (\<lambda>t. None)\<rparr>"

definition w_record :: record_input where
  "w_record = \<lparr>ri_timestamp = 1, ri_trace_id = [1], ri_attributes = [(IDX_NAME, []), (IDX_SERVICE, [])], ri_payload = [1],
               ri_content = content_strs w_stored_span\<rparr>"

lemma w_record_of: "span_to_record w_lib w_stored_span = Inr w_record"
  by (simp add: span_to_record_def w_lib_def w_record_def w_stored_span_def w_span_def index_attributes_def user_attributes_def
      Let_def IDX_NAME_def IDX_SERVICE_def ascii_def)

definition w_enc :: bytes where
  "w_enc = (case encode_record w_record (record_pairs [IDX_NAME, IDX_SERVICE] w_record) of Inr e \<Rightarrow> e | Inl _ \<Rightarrow> [])"

lemma w_key_ids: "key_id_of [IDX_NAME, IDX_SERVICE] IDX_NAME = 0" "key_id_of [IDX_NAME, IDX_SERVICE] IDX_SERVICE = 1"
  by (simp_all add: key_id_of_def IDX_NAME_def IDX_SERVICE_def ascii_def)

lemma w_record_keys: "attribute_keys [w_record] = [IDX_NAME, IDX_SERVICE]"
  by (simp add: attribute_keys_def w_record_def IDX_NAME_def IDX_SERVICE_def ascii_def)

lemma w_pairs: "record_pairs [IDX_NAME, IDX_SERVICE] w_record = [(0, hash_attribute IDX_NAME []), (1, hash_attribute IDX_SERVICE [])]"
  by (simp add: record_pairs_def w_record_def w_key_ids)

lemma w_encoded: "encode_record w_record (record_pairs [IDX_NAME, IDX_SERVICE] w_record) = Inr w_enc" "length w_enc = 66"
  unfolding w_enc_def w_pairs by (simp_all add: encode_record_def w_record_def)

definition w_span_parts :: parts where
  "w_span_parts = (let carved = carve_blocks rle_compress w_enc [0] [1] Raw in
    \<lparr>p_records = [w_record], p_keys = [IDX_NAME, IDX_SERVICE], p_region = w_enc, p_offsets = [0], p_stored = fst carved,
     p_directory = snd carved, p_trace = [([1], [0])],
     p_attributes = [((0, hash_attribute IDX_NAME []), [0]), ((1, hash_attribute IDX_SERVICE []), [0])],
     p_content = encode_content_index []\<rparr>)"

lemma w_span_build: "build_parts rle_compress [w_record] False Raw = Inr w_span_parts"
proof -
  have "encode_records [IDX_NAME, IDX_SERVICE] [w_record] [] [] [] []
      = Inr (w_enc, [0], [([1], [0])], [((0, hash_attribute IDX_NAME []), [0]), ((1, hash_attribute IDX_SERVICE []), [0])])"
    using w_encoded by (simp add: Let_def w_pairs) (simp add: w_record_def)
  then show ?thesis
    by (simp add: build_parts_def w_record_keys w_span_parts_def Let_def case_prod_beta) (simp add: w_record_def)
qed

lemma w_span_stored: "p_stored w_span_parts = w_enc" "length (p_directory w_span_parts) = 32"
proof -
  have c: "cuts [0] 66 0 = [(0, 1)]"
    by (simp add: cuts.simps block_end.simps record_end_def COMPRESSION_BLOCK_BYTES_def)
  have s: "starts [w_enc] = [0]" by (simp add: starts_def psum_def)
  have "carve_loop rle_compress Raw (concat [w_enc]) [0] [1] 0 [] []
      = (concat [w_enc], entries_of rle_compress Raw [w_enc] [1] 0 [(0, 1)])"
    using carve_loop_cuts [of 0 "[w_enc]" rle_compress Raw "[1]" "[]" "[]"]
    by (simp add: s w_encoded(2) c stored_bytes_def store_block_def block_bytes_def)
  then show "p_stored w_span_parts = w_enc" "length (p_directory w_span_parts) = 32"
    by (simp_all add: w_span_parts_def carve_blocks_def Let_def case_prod_beta)
qed

lemma w_span_well_built: "well_built rle_compress [w_record] False Raw w_span_parts"
proof -
  have c: "length (p_content w_span_parts) < 2 ^ 52"
    using length_content_index [of "[]"] by (simp add: w_span_parts_def Let_def)
  have i: "length (encode_offsets_body (p_offsets w_span_parts)) \<le> 100" "length (encode_trace_index (p_trace w_span_parts)) \<le> 100"
    "length (encode_attribute_index (p_keys w_span_parts) (p_attributes w_span_parts)) \<le> 200"
    by (simp_all add: w_span_parts_def Let_def encode_offsets_body_def encode_trace_index_def encode_attribute_index_def
        put_trace_entry_def put_attribute_entry_def put_postings_def put_str_def ascii_def IDX_NAME_def IDX_SERVICE_def
        put_varint.simps)
  have r: "length (p_region w_span_parts) = 66" by (simp add: w_span_parts_def w_encoded Let_def)
  have "length (assemble rle_compress Raw w_span_parts) \<le> isize_max"
    using i c r w_span_stored by (simp add: assemble_def wrap_section_def HEADER_LEN_def w_encoded Let_def)
  moreover have "input_ok [w_record]" by (simp add: w_record_def input_ok_def ascii_def IDX_NAME_def IDX_SERVICE_def)
  ultimately show ?thesis
    using w_span_build i c r w_span_stored w_encoded
    by (simp add: well_built_def buffers_def) (simp add: w_span_parts_def Let_def)
qed

lemma w_span_segment: "\<exists>g. stores_spans w_lib rle_compress rle_decompress g [w_stored_span]"
proof -
  obtain g where "open_backing rle_decompress (assemble rle_compress Raw w_span_parts) = Inr g"
    using open_built [OF rle_block w_span_well_built refl] by metis
  moreover have "map (span_to_record w_lib) [w_stored_span] = map Inr [w_record]" by (simp add: w_record_of)
  moreover have "storable w_lib w_stored_span" by (simp add: storable_def w_lib_def w_stored_span_def w_span_def)
  ultimately show ?thesis
    unfolding stores_spans_def using rle_block w_span_well_built by fastforce
qed


lemma w_numbers_searchable: "all_searchable w_lib [w_span 7 1, w_span 7 2]"
  by (simp add: all_searchable_def searchable_def w_span_def prints_numbers_def w_lib_def w_numbers_def)

text \<open>The span sealed, and then admitted again in a newer version.\<close>

definition w_updated :: store where
  "w_updated = admit 1 [101] [w_span 7 2] w_sealed"

lemma w_updated_reached: "reaches [w_span 7 1, w_span 7 2] w_updated"
proof -
  have "store_step w_sealed [w_span 7 2] w_updated"
    unfolding w_updated_def by (rule admit_step) (simp_all add: held_addresses_def free_address_def w_eval)
  from more [OF w_sealed_reached this] show ?thesis by simp
qed

definition w_open :: "segment \<Rightarrow> segment store_segment list" where
  "w_open g = [\<lparr>os_seg = g, os_rollup = None, os_local_sidecars = True\<rparr>]"

lemma w_updated_served:
  "stores_spans w_lib rle_compress rle_decompress g [w_stored_span] \<Longrightarrow>
    serves_store w_lib rle_compress rle_decompress (w_open g) w_updated"
  by (simp add: serves_store_def w_open_def segment_ok_def) (simp add: w_updated_def w_stored_span_def w_eval)

section \<open>Queries are exact\<close>

text \<open>C2: a query answers exactly. Over any store the engine can reach, whose open segments serve their files, and
  whatever the filter, the cursor and the erasure mask, there is one list: the last versions admitted that match,
  each once, in stable order; and every path of the query (the lazy merge with a limit, the scan without one, the
  sorted re-run) returns it, cut to the limit or ranked, though the probes read only parts of the segments. The
  JSON library is taken to read back the spans and the numbers it writes (\<open>storable\<close>, \<open>searchable\<close>). A deadline
  can refuse the request and changes nothing else.\<close>

theorem queries_are_exact:
  assumes "reaches admitted st" and "serves_store lib compress decompress segs st" and "all_searchable lib admitted"
  shows "\<exists>xs. lists_exactly (latest_by key_of admitted) (keeps_span lib f (content_query f) cursor erased) xs
    \<and> query_view (local_reader decompress) lib (writer st) segs f cursor erased None = query_result f xs
    \<and> query_view (local_reader decompress) lib (writer st) segs f cursor erased (Some n) \<in> {query_result f xs, Inl DeadlineExceeded}"
proof -
  note view = reachable_view [OF assms]
  let ?xs = "answer_list (keeps_span lib f (content_query f) cursor erased) (writer st) (map sg_spans (segments st))"
  have "lists_exactly (latest_by key_of admitted) (keeps_span lib f (content_query f) cursor erased) ?xs"
    using local_segments.answer_list_exact [OF view(1)] unfolding view(2) .
  with view_settles [OF local_segments.costed_settles [OF view(1)]] show ?thesis by blast
qed

lemma w_answer:
  assumes "lists_exactly (latest_by key_of [w_span 7 1, w_span 7 2]) (keeps_span w_lib default_filter (content_query default_filter) None None) xs"
  shows "xs = [w_span 7 2]"
proof (rule lists_exactly_unique [OF assms])
  have k: "key_of (w_span 7 v) = ([], [1], [7])" for v by (simp add: key_of_def w_span_def)
  have "ran (latest_by key_of [w_span 7 1, w_span 7 2]) = {w_span 7 2}"
    by (auto simp: latest_by_def k ran_def split: if_splits)
  then show "lists_exactly (latest_by key_of [w_span 7 1, w_span 7 2])
      (keeps_span w_lib default_filter (content_query default_filter) None None) [w_span 7 2]"
    by (simp add: lists_exactly_def keeps_span_def visible_to_def after_def content_query_def default_filter_def span_matches_iff)
qed

theorem queries_are_exact_witness:
  "\<exists>g. stores_spans w_lib rle_compress rle_decompress g [w_stored_span]
    \<and> query_view (local_reader rle_decompress) w_lib (writer w_updated) (w_open g) default_filter None None None = Inr [w_span 7 2]"
proof -
  obtain g where g: "stores_spans w_lib rle_compress rle_decompress g [w_stored_span]" using w_span_segment by blast
  from queries_are_exact [OF w_updated_reached w_updated_served [OF g] w_numbers_searchable, of default_filter None None 0] obtain xs where
    xs: "lists_exactly (latest_by key_of [w_span 7 1, w_span 7 2]) (keeps_span w_lib default_filter (content_query default_filter) None None) xs"
    "query_view (local_reader rle_decompress) w_lib (writer w_updated) (w_open g) default_filter None None None = query_result default_filter xs"
    by blast
  have "query_result default_filter xs = Inr [w_span 7 2]"
    using w_answer [OF xs(1)] by (simp add: query_result_def default_filter_def cut_to_def)
  then show ?thesis using g xs(2) by auto
qed

text \<open>A fold hands its visitor each match once, in its last version, and nothing else.\<close>

theorem folds_visit_each_match_once:
  assumes "reaches admitted st" and "serves_store lib compress decompress segs st" and "all_searchable lib admitted"
  shows "\<exists>visited. map_sum id fst (fold_view (local_reader decompress) lib (writer st) segs f erased (fresh_run None)) = Inr visited
    \<and> distinct (map key_of visited)
    \<and> set visited = {s \<in> ran (latest_by key_of admitted). keeps_span lib f (content_query f) None erased s}"
proof -
  note view = reachable_view [OF assms]
  let ?keep = "keeps_span lib f (content_query f) None erased" and ?sss = "map sg_spans (segments st)"
  let ?xs = "live_spans ?keep (dom (wb_map (writer st))) ?sss @ filter ?keep (map snd (wb_spans (writer st)))"
  have fold: "answers (fold_view (local_reader decompress) lib (writer st) segs f erased) ?xs" by (rule local_segments.fold_answers [OF view(1)])
  have exact: "lists_exactly (latest_by key_of admitted) ?keep (sort_spans ?xs)"
    using local_segments.answer_list_exact [OF view(1)] unfolding view(2) answer_list_def .
  have "map_sum id fst (fold_view (local_reader decompress) lib (writer st) segs f erased (fresh_run None)) = Inr ?xs"
    by (cases rule: settlesE [OF fold, of "fresh_run None"]) (simp_all add: fresh_run_def)
  moreover have "distinct (map key_of ?xs)" by (rule answer_keys [OF view_okD(1,3) [OF view(1)]])
  moreover have "set ?xs = {s \<in> ran (latest_by key_of admitted). ?keep s}"
    using exact by (simp add: lists_exactly_def sort_spans_def)
  ultimately show ?thesis by blast
qed

theorem folds_visit_each_match_once_witness:
  "\<exists>g. stores_spans w_lib rle_compress rle_decompress g [w_stored_span]
    \<and> (\<exists>visited. map_sum id fst (fold_view (local_reader rle_decompress) w_lib (writer w_updated) (w_open g) default_filter None (fresh_run None))
          = Inr visited
        \<and> distinct (map key_of visited)
        \<and> set visited = {s \<in> ran (latest_by key_of [w_span 7 1, w_span 7 2]). keeps_span w_lib default_filter (content_query default_filter) None None s})"
proof -
  obtain g where g: "stores_spans w_lib rle_compress rle_decompress g [w_stored_span]" using w_span_segment by blast
  from g folds_visit_each_match_once [OF w_updated_reached w_updated_served [OF g] w_numbers_searchable, of default_filter None]
  show ?thesis by blast
qed

end
