(* ===== verification/Lookups.thy ===== *)
theory Lookups
  imports Query_Merge Semconv
begin

text \<open>
  The lookups beside the filter queries (\<open>src/src/lib.rs\<close>, \<open>src/src/analytics.rs\<close>): one trace
  (\<open>trace_spans_in\<close>), the union of attribute values a session is resolved by (\<open>attribute_union_view\<close>), and the
  session itself (\<open>session_values\<close>, \<open>narrow_to_session\<close>, \<open>resolve_session_spans_in\<close>, \<open>narrow_session_spans\<close>).
  The \<open>HashMap\<close> of a trace lookup is an association list: its values are sorted before they leave.
\<close>

section \<open>One trace\<close>

type_synonym trace_map = "((bytes \<times> bytes) \<times> span) list"

definition in_scope :: "bytes option \<Rightarrow> span \<Rightarrow> bool" where
  "in_scope scope s = (case scope of None \<Rightarrow> True | Some t \<Rightarrow> tenant s = t)"

fun keep_latest :: "(span \<Rightarrow> bool) \<Rightarrow> span list \<Rightarrow> nat \<Rightarrow> trace_map \<Rightarrow> (trace_map \<times> nat) task" where
  "keep_latest keep [] since_check latest = give (latest, since_check)"
| "keep_latest keep (s # ss) since_check latest =
     next_do (check_every since_check) (\<lambda>since_check.
       keep_latest keep ss since_check (if keep s then AList.update (tenant s, span_id s) s latest else latest))"

fun trace_segments ::
  "'seg reader \<Rightarrow> store_lib \<Rightarrow> (span \<Rightarrow> bool) \<Rightarrow> bytes \<Rightarrow> 'seg store_segment list \<Rightarrow> nat \<Rightarrow> trace_map \<Rightarrow> (trace_map \<times> nat) task" where
  "trace_segments rd lib keep t [] since_check latest = give (latest, since_check)"
| "trace_segments rd lib keep t (segment # segments) since_check latest =
     next_do check (\<lambda>_.
     next_do (lift_io (trace_spans rd lib (os_seg segment) t)) (\<lambda>spans.
     next_do (keep_latest keep spans since_check latest) (\<lambda>(latest, since_check).
       trace_segments rd lib keep t segments since_check latest)))"

definition trace_spans_in ::
  "'seg reader \<Rightarrow> store_lib \<Rightarrow> write_buffer \<Rightarrow> 'seg store_segment list \<Rightarrow> (span \<Rightarrow> bool) option \<Rightarrow> bytes option \<Rightarrow> bytes
    \<Rightarrow> span list task" where
  "trace_spans_in rd lib w segments erased scope t =
     next_do (trace_segments rd lib (in_scope scope) t segments 0 []) (\<lambda>(latest, since_check).
     next_do (keep_latest (\<lambda>s. trace_id s = t \<and> in_scope scope s) (map snd (wb_spans w)) since_check latest) (\<lambda>(latest, since_check).
     let result = sort_spans (filter (visible_to erased) (map snd latest)) in
     next_do check (\<lambda>_. give result)))"

section \<open>The union of attribute values\<close>

definition carries_any :: "bytes list \<Rightarrow> json list \<Rightarrow> span \<Rightarrow> bool" where
  "carries_any keys values s \<longleftrightarrow>
     list_ex (\<lambda>key. case map_of (attributes s) key of None \<Rightarrow> False | Some held \<Rightarrow> held \<in> set values) keys"

text \<open>The sweep of the buffer: the matches and the keys they claim.\<close>

fun union_buffer :: "(span \<Rightarrow> bool) \<Rightarrow> span list \<Rightarrow> nat \<Rightarrow> span_key set \<Rightarrow> span list \<Rightarrow> (span_key set \<times> span list \<times> nat) task" where
  "union_buffer keep [] since_check claimed result = give (claimed, result, since_check)"
| "union_buffer keep (s # ss) since_check claimed result =
     next_do (check_every since_check) (\<lambda>since_check.
       if keep s then union_buffer keep ss since_check (insert (key_of s) claimed) (result @ [s])
       else union_buffer keep ss since_check claimed result)"

definition union_offsets :: "'seg reader \<Rightarrow> store_lib \<Rightarrow> 'seg \<Rightarrow> bytes list \<Rightarrow> json list \<Rightarrow> u64 list" where
  "union_offsets rd lib g keys values =
     remdups_adj (sort (concat (map (\<lambda>key. concat (map (attribute_candidates rd lib g key) values)) keys)))"

fun union_records ::
  "'seg reader \<Rightarrow> store_lib \<Rightarrow> (span \<Rightarrow> bool) \<Rightarrow> bytes list \<Rightarrow> bytes list \<Rightarrow> 'seg \<Rightarrow> u64 list \<Rightarrow> nat \<Rightarrow> span_key set \<Rightarrow> span list
    \<Rightarrow> (span_key set \<times> span list \<times> nat) task" where
  "union_records rd lib keep keys encodings g [] since_check claimed result = give (claimed, result, since_check)"
| "union_records rd lib keep keys encodings g (offset # offsets) since_check claimed result =
     next_do (check_every since_check) (\<lambda>since_check.
     next_do (lift_io (rd_record_at rd g offset)) (\<lambda>record.
       if \<not> list_ex (\<lambda>key. list_ex (rd_carries rd g record key) encodings) keys
       then union_records rd lib keep keys encodings g offsets since_check claimed result
       else
         next_do (lift_io (record_to_span lib record)) (\<lambda>s.
           if \<not> keep s \<or> key_of s \<in> claimed then union_records rd lib keep keys encodings g offsets since_check claimed result
           else union_records rd lib keep keys encodings g offsets since_check (insert (key_of s) claimed) (result @ [s]))))"

text \<open>The segments come newest first.\<close>

fun union_segments ::
  "'seg reader \<Rightarrow> store_lib \<Rightarrow> (span \<Rightarrow> bool) \<Rightarrow> bytes list \<Rightarrow> json list \<Rightarrow> 'seg store_segment list \<Rightarrow> nat \<Rightarrow> span_key set
    \<Rightarrow> span list \<Rightarrow> span list task" where
  "union_segments rd lib keep keys values [] since_check claimed result = give result"
| "union_segments rd lib keep keys values (segment # older) since_check claimed result =
     next_do check (\<lambda>_.
     next_do (union_records rd lib keep keys (concat (map (attribute_encodings lib) values)) (os_seg segment)
                (union_offsets rd lib (os_seg segment) keys values) since_check claimed result) (\<lambda>(claimed, result, since_check).
       union_segments rd lib keep keys values older since_check claimed result))"

definition attribute_union_view ::
  "'seg reader \<Rightarrow> store_lib \<Rightarrow> write_buffer \<Rightarrow> 'seg store_segment list \<Rightarrow> bytes list \<Rightarrow> json list \<Rightarrow> (span \<Rightarrow> bool) option
    \<Rightarrow> span list task" where
  "attribute_union_view rd lib w segments keys values erased =
     (let keep = (\<lambda>s. visible_to erased s \<and> carries_any keys values s) in
      next_do (union_buffer keep (map snd (wb_spans w)) 0 {} []) (\<lambda>(claimed, result, since_check).
      next_do (union_segments rd lib keep keys values (rev segments) since_check
                 (claimed \<union> {k. wb_index w k \<noteq> None}) result) (\<lambda>result.
      let result = sort_spans result in
      next_do check (\<lambda>_. give result))))"

section \<open>Sessions\<close>

text \<open>\<open>str::parse::<i64>\<close>, as the number \<open>Value::from\<close> makes of it; a negative number is its two's complement.\<close>

definition parse_i64 :: "bytes \<Rightarrow> number option" where
  "parse_i64 t =
     (if t \<noteq> [] \<and> hd t = 45 then
        (case (if tl t = [] then None else digits_value (tl t) 0) of
           Some n \<Rightarrow> if n > 2 ^ 63 then None else if n = 0 then Some (PosInt 0) else Some (NegInt (- of_nat n))
         | None \<Rightarrow> None)
      else
        (case parse_u64 t of Some n \<Rightarrow> if unat n < 2 ^ 63 then Some (PosInt n) else None | None \<Rightarrow> None))"

definition session_values :: "number_lib \<Rightarrow> bytes \<Rightarrow> json list" where
  "session_values lib session_id =
     JString session_id #
     (case parse_u64 session_id of
        Some n \<Rightarrow> [JNumber (PosInt n)]
      | None \<Rightarrow>
          (case parse_i64 session_id of
             Some n \<Rightarrow> [JNumber n]
           | None \<Rightarrow>
               (case parse_f64 lib session_id of
                  Some v \<Rightarrow> if f64_is_finite v then [JNumber (Float v)] else []
                | None \<Rightarrow> [])))"

definition narrow_to_session :: "number_lib \<Rightarrow> span list \<Rightarrow> bytes option \<Rightarrow> bytes \<Rightarrow> span list" where
  "narrow_to_session lib found scope session_id =
     filter (\<lambda>s. lf_session (facts lib (attributes s)) = Some session_id) (filter (in_scope scope) found)"

definition resolve_session_spans_in ::
  "'seg reader \<Rightarrow> store_lib \<Rightarrow> write_buffer \<Rightarrow> 'seg store_segment list \<Rightarrow> bytes option \<Rightarrow> bytes \<Rightarrow> (span \<Rightarrow> bool) option
    \<Rightarrow> span list task" where
  "resolve_session_spans_in rd lib w segments scope session_id erased =
     next_do (attribute_union_view rd lib w segments SESSION_KEYS (session_values (numbers lib) session_id) erased) (\<lambda>found.
       give (narrow_to_session (numbers lib) found scope session_id))"

definition narrow_session_spans :: "number_lib \<Rightarrow> span list \<Rightarrow> span_filter \<Rightarrow> span_cursor option \<Rightarrow> span list" where
  "narrow_session_spans lib spans f cursor =
     (let kept = order_spans (f_sort f) (filter (\<lambda>s. span_matches lib s f (content_query f) \<and> after cursor s) spans)
      in case f_limit f of Some limit \<Rightarrow> take limit kept | None \<Rightarrow> kept)"

text \<open>\<open>Store::query_after\<close>, on the buffer and segments its locks hold still.\<close>

definition query_after ::
  "'seg reader \<Rightarrow> store_lib \<Rightarrow> write_buffer \<Rightarrow> 'seg store_segment list \<Rightarrow> span_filter \<Rightarrow> span_cursor option
    \<Rightarrow> (span \<Rightarrow> bool) option \<Rightarrow> nat option \<Rightarrow> store_error + span list" where
  "query_after rd lib w segments f cursor erased deadline =
     (case f_session f of
        Some session_id \<Rightarrow>
          and_then (map_sum id fst (resolve_session_spans_in rd lib w segments (f_tenant f) session_id erased (fresh_run deadline)))
            (\<lambda>spans. Inr (narrow_session_spans (numbers lib) spans f cursor))
      | None \<Rightarrow> query_view rd lib w segments f cursor erased deadline)"

section \<open>A trace lookup is exact\<close>

text \<open>The map after a sweep: for every key the last kept span, each key once.\<close>

definition latest_of :: "trace_map \<Rightarrow> span list \<Rightarrow> bool" where
  "latest_of latest ss \<longleftrightarrow> distinct (map fst latest) \<and> map_of latest = latest_by (\<lambda>s. (tenant s, span_id s)) ss"

lemma latest_by_snoc: "latest_by key (ss @ [s]) = (latest_by key ss)(key s \<mapsto> s)"
  by simp

lemma latest_of_update: "latest_of latest ss \<Longrightarrow> latest_of (AList.update (tenant s, span_id s) s latest) (ss @ [s])"
  by (simp add: latest_of_def distinct_update update_conv' latest_by_snoc)

lemma keep_latest_answers:
  "latest_of latest ss \<Longrightarrow> \<exists>latest' n'. answers (keep_latest keep xs n latest) (latest', n') \<and> latest_of latest' (ss @ filter keep xs)"
proof (induction xs arbitrary: n latest ss)
  case Nil
  then show ?case using give_settles [of "(latest, n)"] by auto
next
  case (Cons s xs)
  obtain m where m: "answers (check_every n) m" by (rule check_every_answers)
  have "latest_of (if keep s then AList.update (tenant s, span_id s) s latest else latest) (ss @ (if keep s then [s] else []))"
    using latest_of_update Cons.prems by simp
  from Cons.IH [OF this, of m] obtain latest' n' where
    "answers (keep_latest keep xs m (if keep s then AList.update (tenant s, span_id s) s latest else latest)) (latest', n')"
    "latest_of latest' ((ss @ (if keep s then [s] else [])) @ filter keep xs)" by blast
  then show ?case
    by (intro exI [of _ latest'] exI [of _ n']) (cases "keep s"; simp add: next_settles [OF m])
qed

context segment_reads
begin

lemma trace_segments_answer:
  "list_all2 (segment_ok holds) segments sss \<Longrightarrow> latest_of latest ss \<Longrightarrow>
    \<exists>latest' n'. answers (trace_segments rd lib keep t segments n latest) (latest', n')
      \<and> latest_of latest' (ss @ filter keep (filter (\<lambda>s. trace_id s = t) (concat sss)))"
proof (induction segments sss arbitrary: n latest ss rule: list_all2_induct)
  case Nil
  then show ?case using give_settles [of "(latest, n)"] by auto
next
  case (Cons seg segs spans sss)
  have "holds (os_seg seg) spans" using Cons.hyps(1) by (simp add: segment_ok_def)
  note tr = lift_answers [OF trace_spans_answers [OF this, of t]]
  obtain latest1 m where m: "answers (keep_latest keep (filter (\<lambda>s. trace_id s = t) spans) n latest) (latest1, m)"
    "latest_of latest1 (ss @ filter keep (filter (\<lambda>s. trace_id s = t) spans))"
    using keep_latest_answers [OF Cons.prems] by blast
  obtain latest' n' where r: "answers (trace_segments rd lib keep t segs m latest1) (latest', n')"
    "latest_of latest' ((ss @ filter keep (filter (\<lambda>s. trace_id s = t) spans)) @ filter keep (filter (\<lambda>s. trace_id s = t) (concat sss)))"
    using Cons.IH [OF m(2)] by blast
  have "answers (trace_segments rd lib keep t (seg # segs) n latest) (latest', n')"
    unfolding trace_segments.simps
    by (intro next_settles [OF check_settles] next_settles [OF tr] next_settles [OF m(1)]) (simp add: r(1))
  then show ?case using r(2) by (intro exI [of _ latest'] exI [of _ n']) simp
qed

lemma trace_lookup_answers:
  assumes ok: "view_ok lib holds w segments sss"
  obtains ys where "answers (trace_spans_in rd lib w segments erased scope t) ys"
    "lists_exactly (latest_by key_of (concat sss) ++ wb_map w) (\<lambda>s. (trace_id s = t \<and> in_scope scope s) \<and> visible_to erased s) ys"
proof -
  note D = view_okD [OF ok]
  let ?in = "\<lambda>s. trace_id s = t \<and> in_scope scope s" and ?k = "\<lambda>s. (tenant s, span_id s)"
  let ?all = "concat sss @ map snd (wb_spans w)"
  have nil: "latest_of [] []" by (simp add: latest_of_def)
  obtain l1 n1 where s1: "answers (trace_segments rd lib (in_scope scope) t segments 0 []) (l1, n1)"
    "latest_of l1 (filter (in_scope scope) (filter (\<lambda>s. trace_id s = t) (concat sss)))"
    using trace_segments_answer [OF D(2) nil, of "in_scope scope" t 0] unfolding append_Nil by blast
  obtain l2 n2 where s2: "answers (keep_latest ?in (map snd (wb_spans w)) n1 l1) (l2, n2)"
    "latest_of l2 (filter (in_scope scope) (filter (\<lambda>s. trace_id s = t) (concat sss)) @ filter ?in (map snd (wb_spans w)))"
    using keep_latest_answers [OF s1(2)] by blast
  have l2: "distinct (map fst l2)" "map_of l2 = latest_by ?k (filter ?in ?all)"
    using s2(2) by (simp_all add: latest_of_def conj_commute)
  have view: "latest_by key_of (concat sss) ++ wb_map w = latest_by key_of ?all" by (simp add: wb_map_def)
  have key: "latest_by ?k (filter ?in ss) (?k s) = Some s \<longleftrightarrow> latest_by key_of ss (key_of s) = Some s" if "?in s" for ss s
  proof (induction ss rule: rev_induct)
    case (snoc x ss)
    show ?case
    proof (cases "key_of x = key_of s")
      case True
      then have "?in x" "?k x = ?k s" using that by (auto simp: key_of_def in_scope_def split: option.splits)
      then show ?thesis using True by (simp add: latest_by_snoc)
    next
      case False
      then have "\<not> (?in x \<and> ?k x = ?k s)" using that by (auto simp: key_of_def)
      then show ?thesis using False snoc.IH by (cases "?in x") (auto simp: latest_by_snoc)
    qed
  qed (simp add: latest_by_def)
  let ?ys = "sort_spans (filter (visible_to erased) (map snd l2))"
  have entry: "(k, s) \<in> set l2 \<longleftrightarrow> latest_by ?k (filter ?in ?all) k = Some s" for k s
  proof -
    have "(k, s) \<in> set l2 \<longleftrightarrow> map_of l2 k = Some s" using l2(1) by simp
    then show ?thesis unfolding l2(2) latest_by_def .
  qed
  have keyed: "k = ?k s \<and> ?in s" if "(k, s) \<in> set l2" for k s
    using latest_by_key [of ?k "filter ?in ?all" k s] that unfolding entry by auto
  have mem: "s \<in> set (map snd l2) \<longleftrightarrow> ?in s \<and> latest_by key_of ?all (key_of s) = Some s" for s
  proof
    assume "s \<in> set (map snd l2)"
    then obtain k where k: "(k, s) \<in> set l2" by auto
    then show "?in s \<and> latest_by key_of ?all (key_of s) = Some s" using keyed [OF k] key [of s ?all] entry by auto
  next
    assume a: "?in s \<and> latest_by key_of ?all (key_of s) = Some s"
    then have "(?k s, s) \<in> set l2" unfolding entry using key [of s ?all] by simp
    then have "snd (?k s, s) \<in> snd ` set l2" by (rule imageI)
    then show "s \<in> set (map snd l2)" by simp
  qed
  have "distinct (map key_of (map snd l2))"
  proof -
    have "map fst l2 = map ?k (map snd l2)" using keyed by (auto intro!: map_cong)
    with l2(1) have d: "distinct (map ?k (map snd l2))" by (simp only:)
    have "inj_on key_of (set (map snd l2))"
    proof (rule inj_onI)
      fix x y assume "x \<in> set (map snd l2)" "y \<in> set (map snd l2)" "key_of x = key_of y"
      moreover from this have "?k x = ?k y" by (simp add: key_of_def)
      ultimately show "x = y" using d unfolding distinct_map inj_on_def by blast
    qed
    moreover have "distinct (map snd l2)" by (rule conjunct1 [OF iffD1 [OF distinct_map d]])
    ultimately show ?thesis by (simp only: distinct_map)
  qed
  then have o: "in_order ?ys" by (intro sort_spans_in_order distinct_map_filter)
  have ran: "s \<in> ran (latest_by key_of ?all) \<longleftrightarrow> latest_by key_of ?all (key_of s) = Some s" for s
    by (rule ran_keyed, drule latest_by_key, erule conjunct2)
  have set: "set ?ys = {s \<in> ran (latest_by key_of ?all). (trace_id s = t \<and> in_scope scope s) \<and> visible_to erased s}"
  proof (rule set_eqI)
    fix s
    have "s \<in> set ?ys \<longleftrightarrow> s \<in> set (map snd l2) \<and> visible_to erased s" by (simp add: sort_spans_def)
    then show "s \<in> set ?ys \<longleftrightarrow> s \<in> {s \<in> ran (latest_by key_of ?all). (trace_id s = t \<and> in_scope scope s) \<and> visible_to erased s}"
      unfolding mem ran mem_Collect_eq by metis
  qed
  have exact: "lists_exactly (latest_by key_of (concat sss) ++ wb_map w) (\<lambda>s. (trace_id s = t \<and> in_scope scope s) \<and> visible_to erased s) ?ys"
    unfolding lists_exactly_def view by (intro conjI o set)
  have "answers (trace_spans_in rd lib w segments erased scope t) ?ys"
    unfolding trace_spans_in_def
    by (intro next_settles [OF s1(1)], simp only: prod.case, intro next_settles [OF s2(1)])
      (simp add: Let_def next_settles [OF check_settles] give_settles)
  then show thesis using exact by (rule that)
qed


end

section \<open>The union answers the newest version that matches\<close>

lemma union_buffer_answers:
  "\<exists>n'. answers (union_buffer keep ss n claimed result) (claimed \<union> key_of ` set (filter keep ss), result @ filter keep ss, n')"
proof (induction ss arbitrary: n claimed result)
  case Nil
  show ?case using give_settles [of "(claimed, result, n)"] by auto
next
  case (Cons s ss)
  obtain m where m: "answers (check_every n) m" by (rule check_every_answers)
  show ?case
  proof (cases "keep s")
    case True
    obtain n' where "answers (union_buffer keep ss m (insert (key_of s) claimed) (result @ [s]))
        (insert (key_of s) claimed \<union> key_of ` set (filter keep ss), (result @ [s]) @ filter keep ss, n')" using Cons.IH by blast
    then show ?thesis by (intro exI [of _ n']) (simp add: next_settles [OF m] True)
  next
    case False
    obtain n' where "answers (union_buffer keep ss m claimed result) (claimed \<union> key_of ` set (filter keep ss), result @ filter keep ss, n')"
      using Cons.IH by blast
    then show ?thesis by (intro exI [of _ n']) (simp add: next_settles [OF m] False)
  qed
qed

text \<open>What a segment adds: its matches under keys nobody claimed.\<close>

fun newest_matching :: "(span \<Rightarrow> bool) \<Rightarrow> span_key set \<Rightarrow> span list list \<Rightarrow> span list" where
  "newest_matching keep claimed [] = []"
| "newest_matching keep claimed (ss # older) =
     filter (\<lambda>s. keep s \<and> key_of s \<notin> claimed) ss
     @ newest_matching keep (claimed \<union> key_of ` set (filter (\<lambda>s. keep s \<and> key_of s \<notin> claimed) ss)) older"

lemma carries_anyD: "carries_any keys values s \<Longrightarrow> \<exists>key \<in> set keys. \<exists>held \<in> set values. map_of (attributes s) key = Some held"
  by (auto simp: carries_any_def list_ex_iff split: option.splits)

context segment_reads
begin

lemma union_offsets_admit:
  assumes h: "holds g ss" and se: "list_all (searchable lib) ss" and num: "prints_numbers lib" and "\<forall>key \<in> set keys. \<not> reserved key"
  shows "admits_all rd g ss (carries_any keys values) (union_offsets rd lib g keys values)"
proof -
  have probe: "admits_all rd g ss (\<lambda>s. attribute_equals (numbers lib) s key v) (attribute_candidates rd lib g key v)" if "key \<in> set keys" for key v
    by (rule attribute_probe [OF h se num bspec [OF assms(4) that]])
  have mem: "x \<in> set (union_offsets rd lib g keys values) \<longleftrightarrow> (\<exists>key \<in> set keys. \<exists>v \<in> set values. x \<in> set (attribute_candidates rd lib g key v))" for x
    by (auto simp: union_offsets_def)
  have "set (union_offsets rd lib g keys values) \<subseteq> set (rd_offsets rd g)"
  proof
    fix x assume "x \<in> set (union_offsets rd lib g keys values)"
    then obtain key v where "key \<in> set keys" "x \<in> set (attribute_candidates rd lib g key v)" unfolding mem by blast
    then show "x \<in> set (rd_offsets rd g)" using admitted_offsets(2) [OF probe] by blast
  qed
  moreover have "rd_offsets rd g ! i \<in> set (union_offsets rd lib g keys values)" if i: "i < length ss" "carries_any keys values (ss ! i)" for i
  proof -
    from carries_anyD [OF i(2)] obtain key v where kv: "key \<in> set keys" "v \<in> set values" "map_of (attributes (ss ! i)) key = Some v" by blast
    then have "attribute_equals (numbers lib) (ss ! i) key v" by (simp add: attribute_equals_def)
    then have "rd_offsets rd g ! i \<in> set (attribute_candidates rd lib g key v)" using probe [OF kv(1), of v] i(1) unfolding admits_all_def by blast
    then show ?thesis unfolding mem using kv by blast
  qed
  moreover have "sorted_wrt (<) (union_offsets rd lib g keys values)" unfolding union_offsets_def by (rule remdups_adj_strict) simp
  ultimately show ?thesis by (simp add: admits_all_def)
qed

text \<open>A record read at an offset of the segment is a span of it, and carries the digests of its attributes.\<close>

lemma record_of_offset:
  assumes h: "holds g ss" and "offset \<in> set (rd_offsets rd g)"
  obtains r s where "rd_record_at rd g offset = Inr r" "record_to_span lib r = Inr s" "s \<in> set ss"
    "\<And>key v. (key, v) \<in> set (index_attributes lib s) \<Longrightarrow> rd_carries rd g r key v"
proof -
  obtain i where i: "i < length ss" "rd_offsets rd g ! i = offset"
    using assms(2) all_offsets [OF h] by (metis in_set_conv_nth)
  obtain r where r: "rd_record_at rd g offset = Inr r" "record_to_span lib r = Inr (ss ! i)"
    "\<forall>(key, v) \<in> set (index_attributes lib (ss ! i)). rd_carries rd g r key v"
    using record_read [OF h i(1)] i(2) by blast
  show thesis by (rule that [OF r(1,2)]) (use r(3) i(1) in auto)
qed

lemma union_records_answer:
  assumes h: "holds g ss" and keep: "\<forall>s. keep s \<longrightarrow> carries_any keys values s" and res: "\<forall>key \<in> set keys. \<not> reserved key"
  shows "reads_as rd lib g offsets sel \<Longrightarrow> set offsets \<subseteq> set (rd_offsets rd g) \<Longrightarrow> distinct (map key_of sel) \<Longrightarrow>
    \<exists>n'. answers (union_records rd lib keep keys (concat (map (attribute_encodings lib) values)) g offsets n claimed result)
      (claimed \<union> key_of ` set (filter (\<lambda>s. keep s \<and> key_of s \<notin> claimed) sel), result @ filter (\<lambda>s. keep s \<and> key_of s \<notin> claimed) sel, n')"
proof (induction offsets arbitrary: sel n claimed result)
  case Nil
  then have "sel = []" by (simp add: reads_as_def)
  then show ?case using give_settles [of "(claimed, result, n)"] by auto
next
  case (Cons offset offsets)
  let ?es = "concat (map (attribute_encodings lib) values)"
  obtain s sel' where sel: "sel = s # sel'" "span_at rd lib g offset = Inr s" "reads_as rd lib g offsets sel'"
    using Cons.prems(1) by (auto simp: reads_as_def list_all2_Cons1)
  have sub: "set offsets \<subseteq> set (rd_offsets rd g)" and d: "distinct (map key_of sel')" and fresh: "key_of s \<notin> key_of ` set sel'"
    using Cons.prems(2,3) sel(1) by auto
  obtain m where m: "answers (check_every n) m" by (rule check_every_answers)
  have "offset \<in> set (rd_offsets rd g)" using Cons.prems(2) by simp
  from record_of_offset [OF h this] obtain r s' where r: "rd_record_at rd g offset = Inr r" "record_to_span lib r = Inr s'" "s' \<in> set ss"
    and car: "\<forall>key v. (key, v) \<in> set (index_attributes lib s') \<longrightarrow> rd_carries rd g r key v" by blast
  have s': "s' = s" using sel(2) r(1,2) by (simp add: span_at_def)
  let ?take = "keep s \<and> key_of s \<notin> claimed"
  let ?claimed = "if ?take then insert (key_of s) claimed else claimed" and ?result = "if ?take then result @ [s] else result"
  have same: "filter (\<lambda>x. keep x \<and> key_of x \<notin> ?claimed) sel' = filter (\<lambda>x. keep x \<and> key_of x \<notin> claimed) sel'"
  proof (intro filter_cong refl)
    fix x assume "x \<in> set sel'"
    then have "key_of x \<in> key_of ` set sel'" by (rule imageI)
    then have "key_of x \<noteq> key_of s" using fresh by metis
    then show "(keep x \<and> key_of x \<notin> ?claimed) = (keep x \<and> key_of x \<notin> claimed)" by simp
  qed
  obtain n' where IH: "answers (union_records rd lib keep keys ?es g offsets m ?claimed ?result)
      (?claimed \<union> key_of ` set (filter (\<lambda>x. keep x \<and> key_of x \<notin> claimed) sel'), ?result @ filter (\<lambda>x. keep x \<and> key_of x \<notin> claimed) sel', n')"
    using Cons.IH [OF sel(3) sub d, of m ?claimed ?result] unfolding same by blast
  have goal: "(?claimed \<union> key_of ` set (filter (\<lambda>x. keep x \<and> key_of x \<notin> claimed) sel'), ?result @ filter (\<lambda>x. keep x \<and> key_of x \<notin> claimed) sel', n')
      = (claimed \<union> key_of ` set (filter (\<lambda>s. keep s \<and> key_of s \<notin> claimed) sel), result @ filter (\<lambda>s. keep s \<and> key_of s \<notin> claimed) sel, n')"
    by (cases "keep s"; cases "key_of s \<in> claimed") (simp_all add: sel(1))
  have prefilter: "list_ex (\<lambda>key. list_ex (rd_carries rd g r key) ?es) keys" if z: "keep s"
  proof -
    obtain key held where kv: "key \<in> set keys" "held \<in> set values" "map_of (attributes s) key = Some held"
      using carries_anyD [of keys "values" s] keep z by blast
    have "distinct (map fst (attributes s))" using stored_keys [OF h] r(3) s' by blast
    from indexed_attribute [OF this kv(3) bspec [OF res kv(1)]] have "rd_carries rd g r key (canonical_value lib held)"
      using car s' by blast
    moreover have "canonical_value lib held \<in> set ?es" using encodings_of_value kv(2) by auto
    ultimately show ?thesis using kv(1) by (auto simp: list_ex_iff)
  qed
  have "answers (if \<not> list_ex (\<lambda>key. list_ex (rd_carries rd g r key) ?es) keys
      then union_records rd lib keep keys ?es g offsets m claimed result
      else next_do (lift_io (record_to_span lib r)) (\<lambda>s.
        if \<not> keep s \<or> key_of s \<in> claimed then union_records rd lib keep keys ?es g offsets m claimed result
        else union_records rd lib keep keys ?es g offsets m (insert (key_of s) claimed) (result @ [s])))
    (claimed \<union> key_of ` set (filter (\<lambda>s. keep s \<and> key_of s \<notin> claimed) sel), result @ filter (\<lambda>s. keep s \<and> key_of s \<notin> claimed) sel, n')"
  proof (cases ?take)
    case True
    then show ?thesis using prefilter IH unfolding goal by (simp add: next_settles [OF lift_answers [OF r(2) [unfolded s']]])
  next
    case False
    then have "answers (union_records rd lib keep keys ?es g offsets m claimed result)
        (claimed \<union> key_of ` set (filter (\<lambda>s. keep s \<and> key_of s \<notin> claimed) sel), result @ filter (\<lambda>s. keep s \<and> key_of s \<notin> claimed) sel, n')"
      using IH unfolding goal by (simp only: if_False)
    then show ?thesis using False by (auto intro: next_settles [OF lift_answers [OF r(2) [unfolded s']]])
  qed
  then show ?case
    by (intro exI [of _ n']) (simp add: next_settles [OF m] next_settles [OF lift_answers [OF r(1)]])
qed

lemma subseq_keyed:
  assumes "subseq xs ys" and "distinct (map f ys)"
  shows "distinct (map f xs)"
  using assms
proof (induction rule: list_emb.induct)
  case (list_emb_Cons2 x y xs ys)
  have "set xs \<subseteq> set ys" using list_emb_set [OF list_emb_Cons2.hyps(2)] by auto
  then have "f ` set xs \<subseteq> f ` set ys" by (rule image_mono)
  then show ?case using list_emb_Cons2 by auto
qed simp_all

lemma union_segments_answer:
  assumes keep: "\<forall>s. keep s \<longrightarrow> carries_any keys values s" and res: "\<forall>key \<in> set keys. \<not> reserved key" and num: "prints_numbers lib"
  shows "list_all2 (segment_ok holds) segs sss \<Longrightarrow> list_all in_order sss \<Longrightarrow> list_all (list_all (searchable lib)) sss \<Longrightarrow> keyed_once sss \<Longrightarrow>
    answers (union_segments rd lib keep keys values segs n claimed result) (result @ newest_matching keep claimed sss)"
proof (induction segs sss arbitrary: n claimed result rule: list_all2_induct)
  case Nil
  show ?case by (simp add: give_settles)
next
  case (Cons seg segs ss sss)
  let ?g = "os_seg seg" and ?Q = "\<lambda>s. keep s \<and> key_of s \<notin> claimed"
  have h: "holds ?g ss" and o: "in_order ss" and se: "list_all (searchable lib) ss" and d: "distinct (map key_of ss)"
    using Cons.hyps(1) Cons.prems by (simp_all add: segment_ok_def keyed_once_def)
  have adm: "admits_all rd ?g ss (carries_any keys values) (union_offsets rd lib ?g keys values)"
    by (rule union_offsets_admit [OF h se num res])
  obtain sel where sel: "reads_as rd lib ?g (union_offsets rd lib ?g keys values) sel" "subseq sel ss"
    "\<And>s. s \<in> set ss \<Longrightarrow> carries_any keys values s \<Longrightarrow> s \<in> set sel"
    using admitted_reads [OF h in_order_distinct [OF o] adm] by blast
  have f: "filter ?Q sel = filter ?Q ss"
    using keep sel(3) by (intro filter_selected [OF sel(2) in_order_distinct [OF o]]) blast
  have ds: "distinct (map key_of sel)" by (rule subseq_keyed [OF sel(2) d])
  obtain m where m: "answers (union_records rd lib keep keys (concat (map (attribute_encodings lib) values)) ?g
      (union_offsets rd lib ?g keys values) n claimed result) (claimed \<union> key_of ` set (filter ?Q ss), result @ filter ?Q ss, m)"
    using union_records_answer [OF h keep res sel(1) admitted_offsets(2) [OF adm] ds, of n claimed result] unfolding f by blast
  have IH: "answers (union_segments rd lib keep keys values segs m (claimed \<union> key_of ` set (filter ?Q ss)) (result @ filter ?Q ss))
      ((result @ filter ?Q ss) @ newest_matching keep (claimed \<union> key_of ` set (filter ?Q ss)) sss)"
    by (rule Cons.IH) (use Cons.prems in \<open>simp_all add: keyed_once_def\<close>)
  show ?case
    unfolding union_segments.simps
    by (intro next_settles [OF check_settles] next_settles [OF m]) (use IH in simp)
qed

text \<open>The whole union: the buffer's matches, and of every key the buffer does not hold the newest version that
  matches, which need not be its newest version.\<close>

lemma union_answers:
  assumes ok: "view_ok lib holds w segments sss" and res: "\<forall>key \<in> set keys. \<not> reserved key"
    and keep_def: "keep = (\<lambda>s. visible_to erased s \<and> carries_any keys values s)"
  shows "answers (attribute_union_view rd lib w segments keys values erased)
    (sort_spans (filter keep (map snd (wb_spans w)) @ newest_matching keep (dom (wb_map w)) (rev sss)))"
proof -
  note D = view_okD [OF ok]
  obtain n where b: "answers (union_buffer keep (map snd (wb_spans w)) 0 {} [])
      ({} \<union> key_of ` set (filter keep (map snd (wb_spans w))), [] @ filter keep (map snd (wb_spans w)), n)"
    using union_buffer_answers by blast
  have dom: "{k. wb_index w k \<noteq> None} = dom (wb_map w)"
    using wb_contains_key_iff [OF D(1)] by (auto simp: wb_contains_key_def domIff)
  have "key_of ` set (filter keep (map snd (wb_spans w))) \<subseteq> dom (wb_map w)"
  proof (rule image_subsetI)
    fix s assume "s \<in> set (filter keep (map snd (wb_spans w)))"
    then have "s \<in> snd ` set (wb_spans w)" by simp
    then show "key_of s \<in> dom (wb_map w)" unfolding buffer_mem [OF D(1)] by (simp add: domIff)
  qed
  then have claimed: "{} \<union> key_of ` set (filter keep (map snd (wb_spans w))) \<union> {k. wb_index w k \<noteq> None} = dom (wb_map w)"
    unfolding dom by auto
  have segs: "answers (union_segments rd lib keep keys values (rev segments) n (dom (wb_map w)) ([] @ filter keep (map snd (wb_spans w))))
      (([] @ filter keep (map snd (wb_spans w))) @ newest_matching keep (dom (wb_map w)) (rev sss))"
    using D(2,3,4,5) by (intro union_segments_answer [OF _ res D(6)]) (simp_all add: keep_def keyed_once_def)
  show ?thesis
    unfolding attribute_union_view_def Let_def keep_def [symmetric]
    by (intro next_settles [OF b], simp only: prod.case claimed, intro next_settles [OF segs] next_settles [OF check_settles])
      (simp add: give_settles)
qed

end

end
