(* ===== verification/Lookup_Properties.thy ===== *)
theory Lookup_Properties
  imports Query_Properties Lookups
begin

text \<open>
  What the lookups of \<open>src/src/lib.rs\<close> answer over a store the engine can reach.
\<close>

section \<open>Trace lookups over a store\<close>

text \<open>C34: the trace lookup answers exactly. Over any store the engine can reach it returns the last version admitted
  of every span of the trace, of the tenant asked for or of all, each once and in stable order, without what a
  pending erasure covers.\<close>

theorem trace_lookups_are_exact:
  assumes "reaches admitted st" and "serves_store lib compress decompress segs st" and "all_searchable lib admitted"
  shows "\<exists>ys. lists_exactly (latest_by key_of admitted) (\<lambda>s. (trace_id s = t \<and> in_scope scope s) \<and> visible_to erased s) ys
    \<and> map_sum id fst (trace_spans_in (local_reader decompress) lib (writer st) segs erased scope t (fresh_run None)) = Inr ys"
proof -
  note view = reachable_view [OF assms]
  obtain ys where ys: "answers (trace_spans_in (local_reader decompress) lib (writer st) segs erased scope t) ys"
    "lists_exactly (latest_by key_of admitted) (\<lambda>s. (trace_id s = t \<and> in_scope scope s) \<and> visible_to erased s) ys"
    using local_segments.trace_lookup_answers [OF view(1)] unfolding view(2) by blast
  have "map_sum id fst (trace_spans_in (local_reader decompress) lib (writer st) segs erased scope t (fresh_run None)) = Inr ys"
    by (cases rule: settlesE [OF ys(1), of "fresh_run None"]) (simp_all add: fresh_run_def)
  then show ?thesis using ys(2) by blast
qed

theorem trace_lookups_are_exact_witness:
  "\<exists>g. stores_spans w_lib rle_compress rle_decompress g [w_stored_span]
    \<and> map_sum id fst (trace_spans_in (local_reader rle_decompress) w_lib (writer w_updated) (w_open g) None None [1] (fresh_run None))
      = Inr [w_span 7 2]"
proof -
  obtain g where g: "stores_spans w_lib rle_compress rle_decompress g [w_stored_span]" using w_span_segment by blast
  from trace_lookups_are_exact [OF w_updated_reached w_updated_served [OF g] w_numbers_searchable, of "[1]" None None] obtain ys where
    ys: "lists_exactly (latest_by key_of [w_span 7 1, w_span 7 2]) (\<lambda>s. (trace_id s = [1] \<and> in_scope None s) \<and> visible_to None s) ys"
    "map_sum id fst (trace_spans_in (local_reader rle_decompress) w_lib (writer w_updated) (w_open g) None None [1] (fresh_run None)) = Inr ys"
    by blast
  have "ys = [w_span 7 2]"
    by (rule lists_exactly_unique [OF ys(1)])
      (auto simp: lists_exactly_def latest_by_def key_of_def w_span_def in_scope_def visible_to_def)
  then show ?thesis using g ys(2) by auto
qed

end
