(* ===== verification/Paging.thy ===== *)
theory Paging
  imports Lookup_Properties
begin

text \<open>
  Reading a store page by page: the snapshot a multi-page read pins (\<open>Store::snapshot\<close>, \<open>SnapshotView\<close> of
  \<open>src/src/lib.rs\<close>), the export that pages it and the page with its cursor that \<open>GET /v1/spans\<close> answers
  (\<open>stream_export\<close> and the route of \<open>src/src/bin/traza-server.rs\<close>).
\<close>

section \<open>Snapshots\<close>

record 'seg snapshot_view =
  sv_buffer :: write_buffer
  sv_segments :: "'seg store_segment list"
  sv_erased :: "(span \<Rightarrow> bool) option"

definition snapshot :: "nat \<Rightarrow> write_buffer \<Rightarrow> 'seg store_segment list \<Rightarrow> (span \<Rightarrow> bool) option \<Rightarrow> 'seg snapshot_view" where
  "snapshot now w segs erased = \<lparr>sv_buffer = wb_restore now (wb_spans w) wb_default, sv_segments = segs, sv_erased = erased\<rparr>"

text \<open>\<open>query_after\<close> of a view; no budget, whatever the configuration says.\<close>

definition view_query_after ::
  "'seg reader \<Rightarrow> store_lib \<Rightarrow> 'seg snapshot_view \<Rightarrow> span_filter \<Rightarrow> span_cursor option \<Rightarrow> store_error + span list" where
  "view_query_after rd lib v f cursor =
     (case f_session f of
        Some session_id \<Rightarrow>
          and_then (map_sum id fst
              (resolve_session_spans_in rd lib (sv_buffer v) (sv_segments v) (f_tenant f) session_id (sv_erased v) (fresh_run None)))
            (\<lambda>spans. Inr (narrow_session_spans (numbers lib) spans f cursor))
      | None \<Rightarrow> query_view rd lib (sv_buffer v) (sv_segments v) f cursor (sv_erased v) None)"

section \<open>The export\<close>

definition EXPORT_PAGE :: nat where
  "EXPORT_PAGE = 4096"

text \<open>The rows of one page: the cursor, the count and the body after them, and whether every row serialized.\<close>

fun write_rows ::
  "(span \<Rightarrow> bytes option) \<Rightarrow> span list \<Rightarrow> span_cursor option \<Rightarrow> nat \<Rightarrow> bytes list \<Rightarrow> span_cursor option \<times> nat \<times> bytes list \<times> bool" where
  "write_rows serialize [] cursor emitted body = (cursor, emitted, body, True)"
| "write_rows serialize (s # page) cursor emitted body =
     (case serialize s of
        None \<Rightarrow> (cursor, emitted, body, False)
      | Some line \<Rightarrow> write_rows serialize page (Some (cursor_of s)) (emitted + 1) (body @ [line @ [10]]))"

text \<open>The loop of \<open>stream_export\<close>, over the query of its view: the lines written and the two trailers. The
  socket takes every write here.\<close>

partial_function (option) export_pages ::
  "(nat \<Rightarrow> span_cursor option \<Rightarrow> store_error + span list) \<Rightarrow> (span \<Rightarrow> bytes option) \<Rightarrow> nat option
    \<Rightarrow> span_cursor option \<Rightarrow> nat \<Rightarrow> bytes list \<Rightarrow> (bytes list \<times> bool \<times> nat) option" where
  "export_pages query serialize user_limit cursor emitted body =
     (let remaining = (case user_limit of None \<Rightarrow> EXPORT_PAGE | Some limit \<Rightarrow> limit - emitted) in
      if remaining = 0 then Some (body, True, emitted)
      else
        let page_size = min remaining EXPORT_PAGE in
        case query page_size cursor of
          Inl _ \<Rightarrow> Some (body, False, emitted)
        | Inr page \<Rightarrow>
            (let (cursor, emitted, body, ok) = write_rows serialize page cursor emitted body in
             if \<not> ok then Some (body, False, emitted)
             else if length page < page_size \<or> (case user_limit of None \<Rightarrow> False | Some limit \<Rightarrow> emitted \<ge> limit)
                  then Some (body, True, emitted)
             else export_pages query serialize user_limit cursor emitted body))"

definition stream_export ::
  "'seg reader \<Rightarrow> store_lib \<Rightarrow> 'seg snapshot_view \<Rightarrow> span_filter \<Rightarrow> nat option \<Rightarrow> (bytes list \<times> bool \<times> nat) option" where
  "stream_export rd lib v f user_limit =
     export_pages (\<lambda>page_size cursor. view_query_after rd lib v (f\<lparr>f_limit := Some page_size\<rparr>) cursor) (to_vec lib) user_limit None 0 []"

text \<open>\<open>GET /v1/spans\<close>: a page, and the cursor it offers when it came back full.\<close>

definition next_cursor :: "nat option \<Rightarrow> span list \<Rightarrow> span_cursor option" where
  "next_cursor limit spans =
     (case limit of
        None \<Rightarrow> None
      | Some n \<Rightarrow> if length spans \<ge> n then (if spans = [] then None else Some (cursor_of (last spans))) else None)"

section \<open>Pages of a list\<close>

text \<open>A query that pages one list: the answer to every cursor of the list is what follows it, cut to the page.\<close>

definition pages_of :: "(nat \<Rightarrow> span_cursor option \<Rightarrow> store_error + span list) \<Rightarrow> span list \<Rightarrow> bool" where
  "pages_of query xs \<longleftrightarrow> (\<forall>n cursor. query n cursor = Inr (take n (filter (after cursor) xs)))"

lemma after_drops:
  assumes "in_order xs" and "i < length xs"
  shows "filter (after (Some (cursor_of (xs ! i)))) xs = drop (i + 1) xs"
proof -
  have lt: "order_key (xs ! j) < order_key (xs ! k)" if "j < k" "k < length xs" for j k
    using assms(1) that unfolding sorted_wrt_iff_nth_less compare_spans_lt_def by blast
  have "filter (after (Some (cursor_of (xs ! i)))) (take (i + 1) xs) = []"
  proof -
    have "\<not> order_key (xs ! i) < order_key (xs ! j)" if "j < i + 1" for j
      using lt [of j i] that assms(2) by (cases "j = i") auto
    then show ?thesis
      by (auto simp: filter_empty_conv after_def span_after_cursor_of compare_spans_lt_def in_set_conv_nth)
  qed
  moreover have "filter (after (Some (cursor_of (xs ! i)))) (drop (i + 1) xs) = drop (i + 1) xs"
    using lt by (auto simp: filter_id_conv after_def span_after_cursor_of compare_spans_lt_def in_set_conv_nth)
  ultimately show ?thesis by (metis append_Nil append_take_drop_id filter_append)
qed

lemma write_rows_ok:
  "\<forall>s \<in> set page. serialize s \<noteq> None \<Longrightarrow>
    write_rows serialize page cursor emitted body =
      ((if page = [] then cursor else Some (cursor_of (last page))), emitted + length page,
       body @ map (\<lambda>s. the (serialize s) @ [10]) page, True)"
  by (induction page arbitrary: cursor emitted body) auto

text \<open>The rest of an export from a cursor in the list, with the limit it still has.\<close>

lemma export_rest:
  assumes "pages_of query xs" and o: "in_order xs" and ser: "\<forall>s \<in> set xs. serialize s \<noteq> None"
  shows "n \<le> length xs \<Longrightarrow> (case user_limit of None \<Rightarrow> True | Some limit \<Rightarrow> n \<le> limit) \<Longrightarrow>
    cursor = (if n = 0 then None else Some (cursor_of (xs ! (n - 1)))) \<Longrightarrow>
    export_pages query serialize user_limit cursor n (map (\<lambda>s. the (serialize s) @ [10]) (take n xs))
      = Some (map (\<lambda>s. the (serialize s) @ [10]) (cut_to user_limit xs), True, length (cut_to user_limit xs))"
proof (induction "length xs - n" arbitrary: n cursor rule: less_induct)
  case less
  let ?line = "\<lambda>s. the (serialize s) @ [10]"
  define remaining where "remaining = (case user_limit of None \<Rightarrow> EXPORT_PAGE | Some limit \<Rightarrow> limit - n)"
  define size where "size = min remaining EXPORT_PAGE"
  have rest: "filter (after cursor) xs = drop n xs"
  proof (cases "n = 0")
    case True
    then show ?thesis using less.prems(3) by (simp add: after_def [abs_def])
  next
    case False
    then show ?thesis using less.prems after_drops [OF o, of "n - 1"] by simp
  qed
  define page where "page = take size (drop n xs)"
  have q: "query size cursor = Inr page" using assms(1) rest by (simp add: pages_of_def page_def)
  have body: "map ?line (take n xs) @ map ?line page = map ?line (take (n + size) xs)" by (simp add: take_add page_def)
  show ?case
  proof (cases "remaining = 0")
    case True
    then obtain limit where "user_limit = Some limit" "limit = n"
      using less.prems(2) by (auto simp: remaining_def EXPORT_PAGE_def split: option.splits)
    then show ?thesis using True less.prems(1)
      by (subst export_pages.simps) (simp add: Let_def cut_to_def min_def)
  next
    case False
    have pos: "0 < size" using False by (simp add: size_def EXPORT_PAGE_def)
    have "\<forall>s \<in> set page. serialize s \<noteq> None" using ser by (auto simp: page_def dest: in_set_takeD in_set_dropD)
    note rows = write_rows_ok [OF this, of cursor n "map ?line (take n xs)"]
    have step: "export_pages query serialize user_limit cursor n (map ?line (take n xs)) =
        (if length page < size \<or> (case user_limit of None \<Rightarrow> False | Some limit \<Rightarrow> n + length page \<ge> limit)
         then Some (map ?line (take (n + size) xs), True, n + length page)
         else export_pages query serialize user_limit (if page = [] then cursor else Some (cursor_of (last page)))
                (n + length page) (map ?line (take (n + size) xs)))"
      using False q rows unfolding body
      by (subst export_pages.simps) (simp add: Let_def remaining_def [symmetric] size_def [symmetric])
    have within: "n + size \<le> limit" if "user_limit = Some limit" for limit
      using that less.prems(2) False by (simp add: size_def remaining_def)
    show ?thesis
    proof (cases "length page < size \<or> (case user_limit of None \<Rightarrow> False | Some limit \<Rightarrow> n + length page \<ge> limit)")
      case True
      have "take (n + size) xs = cut_to user_limit xs \<and> n + length page = length (cut_to user_limit xs)"
      proof (cases "length xs < n + size")
        case short: True
        then have "cut_to user_limit xs = xs"
          using within by (cases user_limit) (auto simp: cut_to_def)
        then show ?thesis using short less.prems(1) by (simp add: page_def)
      next
        case False
        then have "length page = size" using less.prems(1) by (simp add: page_def)
        then obtain limit where "user_limit = Some limit" "n + size \<ge> limit" using True by (auto split: option.splits)
        then show ?thesis using within [of limit] False \<open>length page = size\<close> by (simp add: cut_to_def)
      qed
      then show ?thesis using step True by simp
    next
      case more: False
      have "length page \<le> size" by (simp add: page_def)
      then have len: "length page = size" using more by simp
      then have ne: "page \<noteq> []" using pos by auto
      have last: "last page = xs ! (n + size - 1)"
        using len pos ne by (subst last_conv_nth) (simp_all add: page_def add.commute)
      have "export_pages query serialize user_limit (Some (cursor_of (last page))) (n + size) (map ?line (take (n + size) xs))
          = Some (map ?line (cut_to user_limit xs), True, length (cut_to user_limit xs))"
        using len pos last within by (intro less.hyps) (auto simp: page_def split: option.split)
      then show ?thesis using step more len ne by simp
    qed
  qed
qed

section \<open>The pages of a snapshot\<close>

lemma snapshot_view_ok:
  assumes "view_ok lib has w segs sss"
  shows "view_ok lib has (sv_buffer (snapshot now w segs erased)) segs sss"
    and "wb_map (sv_buffer (snapshot now w segs erased)) = wb_map w"
proof -
  have spans: "wb_spans (sv_buffer (snapshot now w segs erased)) = wb_spans w"
    by (simp add: snapshot_def wb_restore_def reindex_def Let_def)
  have "wb_ok w" using assms by (simp add: view_ok_def)
  then have "wb_ok (sv_buffer (snapshot now w segs erased))"
    unfolding snapshot_def snapshot_view.simps by (intro restore_ok) (simp_all add: wb_ok_def)
  then show "view_ok lib has (sv_buffer (snapshot now w segs erased)) segs sss" using assms by (simp add: view_ok_def)
  show "wb_map (sv_buffer (snapshot now w segs erased)) = wb_map w" by (simp add: wb_map_def spans)
qed

lemma keeps_span_after: "keeps_span lib f cq cursor erased s \<longleftrightarrow> keeps_span lib f cq None erased s \<and> after cursor s"
  by (auto simp: keeps_span_def after_def)

lemma lists_exactly_after:
  "lists_exactly view (keeps_span lib f cq None erased) xs \<Longrightarrow>
    lists_exactly view (keeps_span lib f cq cursor erased) (filter (after cursor) xs)"
  unfolding lists_exactly_def keeps_span_after [of lib f cq cursor erased] by (auto simp: sorted_wrt_filter)

text \<open>Every query over a view answers from the list its filter names.\<close>

lemma view_answers:
  assumes ok: "view_ok lib (stores_spans lib compress decompress) w segs sss"
    and "latest_by key_of (concat sss) ++ wb_map w = m"
    and xs: "lists_exactly m (keeps_span lib f (content_query f) None erased) xs"
  shows "query_view (local_reader decompress) lib w segs (f\<lparr>f_limit := limit\<rparr>) cursor erased None
    = query_result (f\<lparr>f_limit := limit\<rparr>) (filter (after cursor) xs)"
proof -
  let ?f = "f\<lparr>f_limit := limit\<rparr>"
  have same: "keeps_span lib ?f (content_query ?f) = keeps_span lib f (content_query f)"
    using keeps_span_unsorted [where f = f and l = limit and o' = "f_sort f"] by (simp add: content_query_def)
  have "lists_exactly m (keeps_span lib ?f (content_query ?f) cursor erased)
      (answer_list (keeps_span lib ?f (content_query ?f) cursor erased) w sss)"
    using local_segments.answer_list_exact [OF ok] unfolding assms(2) .
  with lists_exactly_after [OF xs, of cursor]
  have "answer_list (keeps_span lib ?f (content_query ?f) cursor erased) w sss = filter (after cursor) xs"
    unfolding same by (rule lists_exactly_unique [rotated])
  then show ?thesis using view_settles(1) [OF local_segments.costed_settles [OF ok]] by simp
qed

lemma exact_list:
  assumes "view_ok lib (stores_spans lib compress decompress) w segs sss"
  obtains xs where "lists_exactly (latest_by key_of (concat sss) ++ wb_map w) (keeps_span lib f (content_query f) None erased) xs"
  using local_segments.answer_list_exact [OF assms] by blast

text \<open>C14: an export without a sort order and without a session filter is the dataset. Paging a snapshot of a store the
  engine can reach, in pages of 4,096 rows after the cursor of the last row sent, writes every last version admitted that
  matches the filter exactly once, in stable order and cut to the caller's limit, stops, and reports that it is complete
  with the number of rows it wrote, whatever the length of the dataset. (With a sort order rows are lost from the second
  page on, the last section shows how; a session is resolved by another path.)\<close>

theorem an_export_is_the_dataset:
  assumes "reaches admitted st" and "serves_store lib compress decompress segs st" and "all_searchable lib admitted"
    and "f_session f = None" and "f_sort f = None" and "list_all (\<lambda>s. to_vec lib s \<noteq> None) admitted"
  shows "\<exists>xs. lists_exactly (latest_by key_of admitted) (keeps_span lib f (content_query f) None erased) xs
    \<and> stream_export (local_reader decompress) lib (snapshot now (writer st) segs erased) f user_limit
        = Some (map (\<lambda>s. the (to_vec lib s) @ [10]) (cut_to user_limit xs), True, length (cut_to user_limit xs))"
proof -
  let ?v = "snapshot now (writer st) segs erased"
  note view = reachable_view [OF assms(1-3)]
  note ok = snapshot_view_ok(1) [OF view(1), of now erased]
  have m: "latest_by key_of (concat (map sg_spans (segments st))) ++ wb_map (sv_buffer ?v) = latest_by key_of admitted"
    unfolding snapshot_view_ok(2) [OF view(1)] by (rule view(2))
  obtain xs where xs: "lists_exactly (latest_by key_of admitted) (keeps_span lib f (content_query f) None erased) xs"
    using exact_list [OF ok] unfolding m by blast
  have "pages_of (\<lambda>page_size cursor. view_query_after (local_reader decompress) lib ?v (f\<lparr>f_limit := Some page_size\<rparr>) cursor) xs"
    using view_answers [OF ok m xs] assms(4,5)
    by (simp add: pages_of_def view_query_after_def snapshot_def query_result_def cut_to_def)
  moreover have "in_order xs" using xs by (simp add: lists_exactly_def)
  moreover have "\<forall>s \<in> set xs. to_vec lib s \<noteq> None"
    using xs assms(6) latest_by_key by (force simp: lists_exactly_def list_all_iff ran_def)
  ultimately have "export_pages (\<lambda>page_size cursor. view_query_after (local_reader decompress) lib ?v (f\<lparr>f_limit := Some page_size\<rparr>) cursor)
      (to_vec lib) user_limit None 0 (map (\<lambda>s. the (to_vec lib s) @ [10]) (take 0 xs))
      = Some (map (\<lambda>s. the (to_vec lib s) @ [10]) (cut_to user_limit xs), True, length (cut_to user_limit xs))"
    by (rule export_rest) (simp_all split: option.split)
  then show ?thesis using xs unfolding stream_export_def by auto
qed

lemma w_sealed_served:
  "stores_spans w_lib rle_compress rle_decompress g [w_stored_span] \<Longrightarrow>
    serves_store w_lib rle_compress rle_decompress (w_open g) w_sealed"
  by (simp add: serves_store_def w_open_def segment_ok_def) (simp add: w_stored_span_def w_eval)

lemma w_one_searchable: "all_searchable w_lib [w_span 7 1]"
  using w_numbers_searchable by (simp add: all_searchable_def)

lemma w_one_answer:
  assumes "lists_exactly (latest_by key_of [w_span 7 1]) (keeps_span w_lib default_filter (content_query default_filter) None None) xs"
  shows "xs = [w_span 7 1]"
  by (rule lists_exactly_unique [OF assms])
    (simp add: lists_exactly_def keeps_span_def visible_to_def after_def content_query_def default_filter_def span_matches_iff latest_by_def)

theorem an_export_is_the_dataset_witness:
  "\<exists>g. stores_spans w_lib rle_compress rle_decompress g [w_stored_span]
    \<and> stream_export (local_reader rle_decompress) w_lib (snapshot 1 (writer w_sealed) (w_open g) None) default_filter None
        = Some ([[1, 10]], True, 1)"
proof -
  obtain g where g: "stores_spans w_lib rle_compress rle_decompress g [w_stored_span]" using w_span_segment by blast
  have f: "f_session default_filter = None" "f_sort default_filter = None" by (simp_all add: default_filter_def)
  have v: "to_vec w_lib (w_span 7 1) = Some [1]" by (simp add: w_lib_def w_stored_span_def)
  then have t: "list_all (\<lambda>s. to_vec w_lib s \<noteq> None) [w_span 7 1]" by simp
  from an_export_is_the_dataset [OF w_sealed_reached w_sealed_served [OF g] w_one_searchable f t, of None 1 None] obtain xs where
    xs: "lists_exactly (latest_by key_of [w_span 7 1]) (keeps_span w_lib default_filter (content_query default_filter) None None) xs"
    "stream_export (local_reader rle_decompress) w_lib (snapshot 1 (writer w_sealed) (w_open g) None) default_filter None
      = Some (map (\<lambda>s. the (to_vec w_lib s) @ [10]) (cut_to None xs), True, length (cut_to None xs))" by blast
  have "xs = [w_span 7 1]" by (rule w_one_answer [OF xs(1)])
  then show ?thesis using g xs(2) v by (auto simp: cut_to_def)
qed

section \<open>Pages of a sorted query\<close>

lemma complement_le:
  fixes a b :: u64
  assumes "NOT a \<le> NOT b"
  shows "b \<le> a"
proof -
  have "unat (NOT x) = unat (- 1 :: u64) - unat x" for x :: u64
  proof -
    have "NOT x = - 1 - x" by (simp add: not_eq_complement)
    then show ?thesis by (simp only: unat_sub word_n1_ge)
  qed
  then show ?thesis using assms unsigned_less [of a, where 'a = nat] unsigned_less [of b, where 'a = nat] unfolding word_le_nat_alt
    by (simp add: unsigned_minus_1_eq_mask mask_eq_exp_minus_1)
qed

lemma sorted_rest:
  assumes "inj_on start_time_ns (set xs)" and "page = take n (order_spans (Some StartDesc) xs)" and "page \<noteq> []"
    and "s \<in> set xs" and "compare_spans_lt (last page) s"
  shows "s \<in> set page"
proof (rule ccontr)
  let ?ys = "order_spans (Some StartDesc) xs"
  have set: "set ?ys = set xs" by (simp add: order_spans_def)
  assume "s \<notin> set page"
  moreover have "s \<in> set (take n ?ys) \<union> set (drop n ?ys)"
    using assms(4) set by (simp only: append_take_drop_id flip: set_append)
  ultimately have s: "s \<in> set (drop n ?ys)" using assms(2) by blast
  have l: "last page \<in> set (take n ?ys)" using assms(2,3) last_in_set by blast
  have "sorted (map (\<lambda>s. (sort_rank StartDesc s, order_key s)) (take n ?ys @ drop n ?ys))" by (simp add: order_spans_def)
  then have "(sort_rank StartDesc (last page), order_key (last page)) \<le> (sort_rank StartDesc s, order_key s)"
    using s l unfolding map_append sorted_append by auto
  then have "sort_rank StartDesc (last page) \<le> sort_rank StartDesc s" by (auto simp: less_eq_prod_simp)
  then have "start_time_ns s \<le> start_time_ns (last page)" unfolding sort_rank_def span_sort.case by (rule complement_le)
  moreover have "start_time_ns (last page) \<le> start_time_ns s" using assms(5) by (auto simp: compare_spans_lt_def order_key_def)
  ultimately have "start_time_ns s = start_time_ns (last page)" by simp
  moreover have "last page \<in> set xs" using l set in_set_takeD by metis
  ultimately have "s = last page" using assms(1,4) by (meson inj_onD)
  then show False using l s \<open>s \<notin> set page\<close> assms(3) by auto
qed

text \<open>C35: paging a newest-first query with the cursor its answer offers loses matches. Over a store whose matches all
  start at different times, and without a session filter, the page after a full first page lists nothing the first page
  left out: the cursor is a place in the stable order, oldest first, and only what follows the last row in that order is
  still asked for.\<close>

theorem sorted_pages_lose_matches:
  assumes "reaches admitted st" and "serves_store lib compress decompress segs st" and "all_searchable lib admitted"
    and "f_session f = None" and "f_sort f = Some StartDesc" and "f_limit f = Some n"
    and "inj_on start_time_ns {s \<in> ran (latest_by key_of admitted). keeps_span lib f (content_query f) None erased s}"
    and "query_after (local_reader decompress) lib (writer st) segs f None erased None = Inr page"
    and "next_cursor (f_limit f) page = Some c"
    and "query_after (local_reader decompress) lib (writer st) segs f (Some c) erased None = Inr rest"
  shows "set rest \<subseteq> set page"
proof
  note view = reachable_view [OF assms(1-3)]
  obtain xs where xs: "lists_exactly (latest_by key_of admitted) (keeps_span lib f (content_query f) None erased) xs"
    using exact_list [OF view(1)] unfolding view(2) by blast
  have f: "f\<lparr>f_limit := Some n\<rparr> = f" using assms(6) by simp
  note q = view_answers [OF view(1,2) xs, of "Some n", unfolded f]
  have page: "page = take n (order_spans (Some StartDesc) xs)"
    using q [of None] assms(4-6,8) by (auto simp: query_after_def query_result_def cut_to_def after_def split: if_splits)
  have rest: "rest = take n (order_spans (Some StartDesc) (filter (after (Some c)) xs))"
    using q [of "Some c"] assms(4-6,10) by (auto simp: query_after_def query_result_def cut_to_def split: if_splits)
  have c: "page \<noteq> []" "c = cursor_of (last page)" using assms(9) by (auto simp: next_cursor_def split: option.splits if_splits)
  have inj: "inj_on start_time_ns (set xs)" using assms(7) xs by (auto simp: lists_exactly_def intro: inj_on_subset)
  fix s assume "s \<in> set rest"
  then have "s \<in> set (filter (after (Some c)) xs)" using rest by (auto simp: order_spans_def dest: in_set_takeD)
  then have "s \<in> set xs" "compare_spans_lt (last page) s" using c(2) by (auto simp: after_def span_after_cursor_of)
  then show "s \<in> set page" by (rule sorted_rest [OF inj page c(1)])
qed

definition w_two :: store where
  "w_two = admit 1 [100, 101] [w_span 7 1, w_span 8 2] empty_store"

lemma w_numbers_searchable': "all_searchable w_lib [w_span 7 1, w_span 8 2]"
  by (simp add: all_searchable_def searchable_def w_span_def prints_numbers_def w_lib_def w_numbers_def)

lemma w_two_reached: "reaches [w_span 7 1, w_span 8 2] w_two"
proof -
  have "store_step empty_store [w_span 7 1, w_span 8 2] w_two"
    unfolding w_two_def by (rule admit_step) (simp_all add: held_addresses_def free_address_def w_eval)
  from more [OF start this] show ?thesis by simp
qed

definition w_newest :: span_filter where
  "w_newest = default_filter\<lparr>f_sort := Some StartDesc, f_limit := Some 1\<rparr>"

lemma w_two_answers:
  "query_after (local_reader rle_decompress) w_lib (writer w_two) [] w_newest None None None = Inr [w_span 8 2]"
  "query_after (local_reader rle_decompress) w_lib (writer w_two) [] w_newest (Some (cursor_of (w_span 8 2))) None None = Inr []"
proof -
  have ok: "view_ok w_lib (stores_spans w_lib rle_compress rle_decompress) (writer w_two) [] []"
    using reaches_inv [OF w_two_reached] store_invD(1) w_numbers_searchable
    by (auto simp: view_ok_def keyed_once_def all_searchable_def)
  have ans: "answer_list (keeps_span w_lib w_newest None cursor None) (writer w_two) []
      = (case cursor of None \<Rightarrow> [w_span 7 1, w_span 8 2] | Some c \<Rightarrow> filter (after cursor) [w_span 7 1, w_span 8 2])" for cursor
    by (simp add: answer_list_def keeps_span_def visible_to_def after_def w_newest_def default_filter_def span_matches_iff
        w_two_def w_eval order_key_def split: option.split)
  have f: "content_query w_newest = None" "f_session w_newest = None" "f_sort w_newest = Some StartDesc" "f_limit w_newest = Some 1"
    by (simp_all add: w_newest_def default_filter_def content_query_def)
  have "after (Some (cursor_of (w_span 8 2))) (w_span 7 1) = False" "after (Some (cursor_of (w_span 8 2))) (w_span 8 2) = False"
    by (simp_all add: after_def span_after_cursor_of compare_spans_lt_def order_key_def w_span_def)
  then have first: "query_result w_newest [w_span 7 1, w_span 8 2] = Inr [w_span 8 2]"
    and second: "query_result w_newest (filter (after (Some (cursor_of (w_span 8 2)))) [w_span 7 1, w_span 8 2]) = Inr []"
    by (simp_all add: query_result_def f cut_to_def SORT_CANDIDATE_LIMIT_def order_spans_def sort_rank_def order_key_def w_span_def)
  note q = view_settles(1) [OF local_segments.costed_settles [OF ok], of w_newest _ None]
  show "query_after (local_reader rle_decompress) w_lib (writer w_two) [] w_newest None None None = Inr [w_span 8 2]"
    using q [of None] first unfolding f ans by (simp add: query_after_def f)
  show "query_after (local_reader rle_decompress) w_lib (writer w_two) [] w_newest (Some (cursor_of (w_span 8 2))) None None = Inr []"
    using q [of "Some (cursor_of (w_span 8 2))"] second unfolding f ans by (simp add: query_after_def f)
qed

lemma w_two_last: "latest_by key_of [w_span 7 1, w_span 8 2] = [key_of (w_span 7 1) \<mapsto> w_span 7 1, key_of (w_span 8 2) \<mapsto> w_span 8 2]"
  by (simp add: latest_by_def fun_upd_twist key_of_def w_span_def)

theorem sorted_pages_lose_matches_witness:
  "query_after (local_reader rle_decompress) w_lib (writer w_two) [] w_newest None None None = Inr [w_span 8 2]
    \<and> next_cursor (f_limit w_newest) [w_span 8 2] = Some (cursor_of (w_span 8 2))
    \<and> (\<exists>rest. query_after (local_reader rle_decompress) w_lib (writer w_two) [] w_newest (Some (cursor_of (w_span 8 2))) None None = Inr rest
        \<and> set rest \<subseteq> set [w_span 8 2])
    \<and> w_span 7 1 \<in> ran (latest_by key_of [w_span 7 1, w_span 8 2]) \<and> w_span 7 1 \<notin> set [w_span 8 2]
    \<and> keeps_span w_lib w_newest None None None (w_span 7 1)"
proof -
  have served: "serves_store w_lib rle_compress rle_decompress [] w_two" by (simp add: serves_store_def w_two_def w_eval)
  have f: "f_session w_newest = None" "f_sort w_newest = Some StartDesc" "f_limit w_newest = Some 1"
    by (simp_all add: w_newest_def default_filter_def)
  have ne: "key_of (w_span 7 1) \<noteq> key_of (w_span 8 2)" by (simp add: key_of_def w_span_def)
  then have ran: "ran (latest_by key_of [w_span 7 1, w_span 8 2]) = {w_span 7 1, w_span 8 2}"
    unfolding w_two_last by (simp only: insert_commute [of "w_span 7 1"]) (subst ran_map_upd, simp, simp)
  have starts: "inj_on start_time_ns {s \<in> ran (latest_by key_of [w_span 7 1, w_span 8 2]). keeps_span w_lib w_newest (content_query w_newest) None None s}"
    unfolding ran by (auto simp: inj_on_def w_span_def)
  have next_page: "next_cursor (f_limit w_newest) [w_span 8 2] = Some (cursor_of (w_span 8 2))"
    by (simp add: next_cursor_def f)
  have "keeps_span w_lib w_newest None None None (w_span 7 1)" "w_span 7 1 \<notin> set [w_span 8 2]"
    by (simp_all add: keeps_span_def visible_to_def after_def w_newest_def default_filter_def span_matches_iff w_span_def)
  moreover have "set [] \<subseteq> set [w_span 8 2]"
    by (rule sorted_pages_lose_matches [OF w_two_reached served w_numbers_searchable' f starts w_two_answers(1) next_page w_two_answers(2)])
  ultimately show ?thesis using w_two_answers next_page ran by blast
qed

end
