(* ===== verification/Tail.thy ===== *)
theory Tail
  imports Semconv Write_Buffer
begin

text \<open>
  The live tail (\<open>src/src/tail.rs\<close>): a bounded ring of the spans last admitted, read by subscribers from their
  positions. An entry carries the bytes it was charged when it was pushed; \<open>approximate_bytes\<close> reads the
  capacities of a span's allocations, which are no part of a span here, so the charge is the parameter \<open>cost\<close>.
  Every operation holds the ring's lock throughout; \<open>wait\<close> gives it up once, and the ring may then have changed.
\<close>

section \<open>The ring\<close>

record tail_cursor =
  tc_epoch :: u64
  tc_seq :: u64

datatype tail_read = Batch "span list" tail_cursor | Gap "u64 option"

record veil =
  vl_keys :: "span_key set"
  vl_tenants :: "bytes set"
  vl_below :: u64

record tail_ring =
  tr_epoch :: u64
  tr_first_seq :: u64
  tr_entries :: "(span \<times> nat) list"
  tr_capacity :: nat
  tr_byte_budget :: nat
  tr_resident_bytes :: nat
  tr_veils :: "veil list"

definition usize_saturating_add :: "nat \<Rightarrow> nat \<Rightarrow> nat" where
  "usize_saturating_add a b = min (a + b) (2 ^ 64 - 1)"

definition ring_new :: "u64 \<Rightarrow> nat \<Rightarrow> nat \<Rightarrow> tail_ring" where
  "ring_new process_epoch capacity byte_budget =
     \<lparr>tr_epoch = process_epoch, tr_first_seq = 0, tr_entries = [], tr_capacity = max capacity 1,
      tr_byte_budget = max byte_budget 1, tr_resident_bytes = 0, tr_veils = []\<rparr>"

definition next_seq :: "tail_ring \<Rightarrow> u64" where
  "next_seq r = u64_saturating_add (tr_first_seq r) (of_nat (length (tr_entries r)))"

definition ring_veil :: "span_key set \<Rightarrow> bytes set \<Rightarrow> tail_ring \<Rightarrow> tail_ring" where
  "ring_veil keys tenants r =
     (if (keys = {} \<and> tenants = {}) \<or> tr_entries r = [] then r
      else r\<lparr>tr_veils := tr_veils r @ [\<lparr>vl_keys = keys, vl_tenants = tenants, vl_below = next_seq r\<rparr>]\<rparr>)"

definition veiled :: "tail_ring \<Rightarrow> u64 \<Rightarrow> span \<Rightarrow> bool" where
  "veiled r seq s =
     (if tr_veils r = [] then False
      else list_ex (\<lambda>v. seq < vl_below v \<and> (key_of s \<in> vl_keys v \<or> tenant s \<in> vl_tenants v)) (tr_veils r))"

definition prune_veils :: "tail_ring \<Rightarrow> tail_ring" where
  "prune_veils r = r\<lparr>tr_veils := filter (\<lambda>v. vl_below v > tr_first_seq r) (tr_veils r)\<rparr>"

function evict_oldest :: "tail_ring \<Rightarrow> tail_ring" where
  "evict_oldest r =
     (if length (tr_entries r) > 1 \<and> (length (tr_entries r) > tr_capacity r \<or> tr_resident_bytes r > tr_byte_budget r)
      then evict_oldest (r\<lparr>tr_entries := tl (tr_entries r),
                           tr_resident_bytes := tr_resident_bytes r - snd (hd (tr_entries r)),
                           tr_first_seq := u64_saturating_add (tr_first_seq r) 1\<rparr>)
      else r)"
  by pat_completeness auto
termination
  by (relation "measure (\<lambda>r. length (tr_entries r))") auto

declare evict_oldest.simps [simp del]

definition push :: "(span \<Rightarrow> nat) \<Rightarrow> span \<Rightarrow> tail_ring \<Rightarrow> tail_ring" where
  "push cost s r =
     prune_veils (evict_oldest
       (r\<lparr>tr_resident_bytes := usize_saturating_add (tr_resident_bytes r) (cost s),
          tr_entries := tr_entries r @ [(s, cost s)]\<rparr>))"

definition publish :: "(span \<Rightarrow> nat) \<Rightarrow> span list \<Rightarrow> tail_ring \<Rightarrow> tail_ring" where
  "publish cost = fold (push cost)"

definition ring_head :: "tail_ring \<Rightarrow> tail_cursor" where
  "ring_head r = \<lparr>tc_epoch = tr_epoch r, tc_seq = next_seq r\<rparr>"

definition ring_floor :: "tail_ring \<Rightarrow> tail_cursor" where
  "ring_floor r = \<lparr>tc_epoch = tr_epoch r, tc_seq = tr_first_seq r\<rparr>"

text \<open>The loop of \<open>read\<close> over the entries from its start: the spans taken and how many entries were consumed.\<close>

fun read_entries ::
  "tail_ring \<Rightarrow> nat \<Rightarrow> (span \<Rightarrow> bool) \<Rightarrow> nat \<Rightarrow> (span \<times> nat) list \<Rightarrow> span list \<Rightarrow> nat \<Rightarrow> span list \<times> nat" where
  "read_entries r limit keep index [] spans consumed = (spans, consumed)"
| "read_entries r limit keep index ((s, b) # entries) spans consumed =
     (if length spans = limit then (spans, consumed)
      else
        let consumed = consumed + 1 in
        if veiled r (u64_saturating_add (tr_first_seq r) (of_nat index)) s
        then read_entries r limit keep (index + 1) entries spans consumed
        else read_entries r limit keep (index + 1) entries (if keep s then spans @ [s] else spans) consumed)"

definition ring_read :: "tail_ring \<Rightarrow> tail_cursor option \<Rightarrow> nat \<Rightarrow> nat \<Rightarrow> (span \<Rightarrow> bool) \<Rightarrow> tail_read" where
  "ring_read r cursor backfill limit keep =
     (let from = (\<lambda>start.
        let (spans, consumed) = read_entries r limit keep start (drop start (tr_entries r)) [] 0
        in Batch spans \<lparr>tc_epoch = tr_epoch r, tc_seq = u64_saturating_add (tr_first_seq r) (of_nat (start + consumed))\<rparr>)
      in case cursor of
           None \<Rightarrow> from (length (tr_entries r) - backfill)
         | Some c \<Rightarrow>
             if tc_epoch c \<noteq> tr_epoch r \<or> tc_seq c < tr_first_seq r \<or> tc_seq c > next_seq r
             then Gap (if tc_epoch c = tr_epoch r then Some (saturating_sub (tr_first_seq r) (tc_seq c)) else None)
             else from (unat (tc_seq c - tr_first_seq r)))"

definition matching_keys :: "tail_ring \<Rightarrow> (span \<Rightarrow> bool) \<Rightarrow> span_key list" where
  "matching_keys r covered =
     map (\<lambda>(i, s, b). key_of s)
       (filter (\<lambda>(i, s, b). \<not> veiled r (u64_saturating_add (tr_first_seq r) (of_nat i)) s \<and> covered s)
         (enumerate 0 (tr_entries r)))"

text \<open>\<open>TailChannel::wait\<close>: the second ring is the one the lock guards when the signal or the timeout ends the wait.\<close>

definition advanced :: "tail_read \<Rightarrow> tail_cursor option \<Rightarrow> bool" where
  "advanced r from =
     (case (r, from) of
        (Batch _ cursor, Some c) \<Rightarrow> tc_seq cursor \<noteq> tc_seq c
      | _ \<Rightarrow> True)"

definition tail_wait ::
  "tail_ring \<Rightarrow> tail_ring \<Rightarrow> tail_cursor option \<Rightarrow> nat \<Rightarrow> nat \<Rightarrow> (span \<Rightarrow> bool) \<Rightarrow> tail_read" where
  "tail_wait ring ring' cursor backfill limit keep =
     (case ring_read ring cursor backfill limit keep of
        Gap missed \<Rightarrow> Gap missed
      | Batch spans resume \<Rightarrow>
          if advanced (Batch spans resume) cursor then Batch spans resume
          else ring_read ring' (Some resume) 0 limit keep)"

section \<open>The log of admissions\<close>

text \<open>The log the ring is a window on: every span published, in order, and of every erasure what it covers and
  how long the log was.\<close>

type_synonym erasures = "(span_key set \<times> bytes set \<times> nat) list"

definition erased_at :: "erasures \<Rightarrow> span list \<Rightarrow> nat \<Rightarrow> bool" where
  "erased_at es log i \<longleftrightarrow>
     list_ex (\<lambda>(keys, tenants, n). i < n \<and> (key_of (log ! i) \<in> keys \<or> tenant (log ! i) \<in> tenants)) es"

text \<open>A ring of this process and what it has admitted; the sequence numbers have not run out.\<close>

inductive tails :: "(span \<Rightarrow> nat) \<Rightarrow> u64 \<Rightarrow> nat \<Rightarrow> nat \<Rightarrow> span list \<Rightarrow> erasures \<Rightarrow> tail_ring \<Rightarrow> bool"
  for cost epoch capacity byte_budget where
  opened: "tails cost epoch capacity byte_budget [] [] (ring_new epoch capacity byte_budget)"
| published: "tails cost epoch capacity byte_budget log es r \<Longrightarrow>
    tails cost epoch capacity byte_budget (log @ spans) es (publish cost spans r)"
| veiled_by: "tails cost epoch capacity byte_budget log es r \<Longrightarrow>
    tails cost epoch capacity byte_budget log (es @ [(keys, tenants, length log)]) (ring_veil keys tenants r)"

definition fits_u64 :: "(span \<Rightarrow> nat) \<Rightarrow> span list \<Rightarrow> bool" where
  "fits_u64 cost log \<longleftrightarrow> length log < 2 ^ 64 \<and> sum_list (map cost log) < 2 ^ 64"

definition window :: "(span \<Rightarrow> nat) \<Rightarrow> span list \<Rightarrow> tail_ring \<Rightarrow> bool" where
  "window cost log r \<longleftrightarrow>
     unat (tr_first_seq r) \<le> length log
     \<and> tr_entries r = map (\<lambda>s. (s, cost s)) (drop (unat (tr_first_seq r)) log)
     \<and> tr_resident_bytes r = sum_list (map snd (tr_entries r))"

definition bounded :: "tail_ring \<Rightarrow> bool" where
  "bounded r \<longleftrightarrow>
     length (tr_entries r) \<le> 1
     \<or> length (tr_entries r) \<le> tr_capacity r \<and> tr_resident_bytes r \<le> tr_byte_budget r"

definition covers_the_erased :: "erasures \<Rightarrow> span list \<Rightarrow> tail_ring \<Rightarrow> bool" where
  "covers_the_erased es log r \<longleftrightarrow>
     (\<forall>i. unat (tr_first_seq r) \<le> i \<and> i < length log \<longrightarrow> veiled r (of_nat i) (log ! i) = erased_at es log i)"

definition tail_inv :: "(span \<Rightarrow> nat) \<Rightarrow> span list \<Rightarrow> erasures \<Rightarrow> tail_ring \<Rightarrow> bool" where
  "tail_inv cost log es r \<longleftrightarrow>
     window cost log r \<and> bounded r \<and> covers_the_erased es log r
     \<and> (\<forall>v \<in> set (tr_veils r). unat (vl_below v) \<le> length log) \<and> (\<forall>(_, _, n) \<in> set es. n \<le> length log)"

lemma tail_invD:
  assumes "tail_inv cost log es r"
  shows "window cost log r" "bounded r" "covers_the_erased es log r"
    "\<forall>v \<in> set (tr_veils r). unat (vl_below v) \<le> length log" "\<forall>(_, _, n) \<in> set es. n \<le> length log"
  using assms unfolding tail_inv_def by - (elim conjE, assumption)+

lemma fits_prefix: "fits_u64 cost (log @ spans) \<Longrightarrow> fits_u64 cost log"
  by (simp add: fits_u64_def)

lemma veiled_iff: "veiled r seq s \<longleftrightarrow> (\<exists>v \<in> set (tr_veils r). seq < vl_below v \<and> (key_of s \<in> vl_keys v \<or> tenant s \<in> vl_tenants v))"
  by (auto simp: veiled_def list_ex_iff)

lemma erased_at_iff: "erased_at es log i \<longleftrightarrow> (\<exists>(keys, tenants, n) \<in> set es. i < n \<and> (key_of (log ! i) \<in> keys \<or> tenant (log ! i) \<in> tenants))"
  by (auto simp: erased_at_def list_ex_iff)

lemma saturating_add_exact: "unat a + n < 2 ^ 64 \<Longrightarrow> unat (u64_saturating_add a (of_nat n)) = unat a + n"
  by (simp add: u64_saturating_add_def unat_of_nat_u64 unat_word_ariths)

lemma next_seq_window:
  assumes "window cost log r" and "length log < 2 ^ 64"
  shows "unat (next_seq r) = length log"
proof -
  have "length (tr_entries r) = length log - unat (tr_first_seq r)" and "unat (tr_first_seq r) \<le> length log"
    using assms(1) by (simp_all add: window_def)
  then show ?thesis using saturating_add_exact [of "tr_first_seq r" "length (tr_entries r)"] assms(2) by (simp add: next_seq_def)
qed

section \<open>Eviction\<close>

lemma evict_window:
  assumes "length log < 2 ^ 64" and "window cost log r"
  shows "window cost log (evict_oldest r) \<and> bounded (evict_oldest r) \<and> tr_first_seq r \<le> tr_first_seq (evict_oldest r)
    \<and> tr_veils (evict_oldest r) = tr_veils r \<and> tr_capacity (evict_oldest r) = tr_capacity r
    \<and> tr_byte_budget (evict_oldest r) = tr_byte_budget r \<and> tr_epoch (evict_oldest r) = tr_epoch r"
  using assms(2)
proof (induction r rule: evict_oldest.induct)
  case (1 r)
  let ?over = "length (tr_entries r) > 1 \<and> (length (tr_entries r) > tr_capacity r \<or> tr_resident_bytes r > tr_byte_budget r)"
  let ?r = "r\<lparr>tr_entries := tl (tr_entries r), tr_resident_bytes := tr_resident_bytes r - snd (hd (tr_entries r)),
    tr_first_seq := u64_saturating_add (tr_first_seq r) 1\<rparr>"
  show ?case
  proof (cases ?over)
    case False
    then have "bounded r" by (auto simp: bounded_def)
    moreover have "evict_oldest r = r" by (subst evict_oldest.simps) (simp only: False if_False)
    ultimately show ?thesis using 1(2) by simp
  next
    case True
    then have "sum_list (map snd (tr_entries r)) = snd (hd (tr_entries r)) + sum_list (map snd (tl (tr_entries r)))"
      by (cases "tr_entries r") simp_all
    then have r: "tr_resident_bytes r - snd (hd (tr_entries r)) = sum_list (map snd (tl (tr_entries r)))"
      using 1(2) by (simp add: window_def)
    have lt: "unat (tr_first_seq r) < length log" using 1(2) True by (auto simp: window_def)
    then have f: "unat (u64_saturating_add (tr_first_seq r) 1) = unat (tr_first_seq r) + 1"
      using assms(1) saturating_add_exact [of "tr_first_seq r" 1] by simp
    have "tl (tr_entries r) = map (\<lambda>s. (s, cost s)) (drop (unat (tr_first_seq r) + 1) log)"
      using 1(2) by (simp add: window_def drop_Suc tl_drop flip: map_tl)
    then have w: "window cost log ?r" using lt r by (simp add: window_def f)
    have le: "tr_first_seq r \<le> tr_first_seq ?r" by (simp add: word_le_nat_alt f)
    have e: "evict_oldest r = evict_oldest ?r" using True by (subst evict_oldest.simps) simp
    define t where "t = evict_oldest ?r"
    have IH: "window cost log t \<and> bounded t \<and> tr_first_seq ?r \<le> tr_first_seq t \<and> tr_veils t = tr_veils r
        \<and> tr_capacity t = tr_capacity r \<and> tr_byte_budget t = tr_byte_budget r \<and> tr_epoch t = tr_epoch r"
      using 1(1) [OF True w] unfolding t_def [symmetric] by simp
    then have "tr_first_seq r \<le> tr_first_seq t" using le by (blast intro: order_trans)
    then show ?thesis using IH unfolding e t_def [symmetric] by blast
  qed
qed

lemma ex_filtered: "(\<And>v. A v \<Longrightarrow> P v) \<Longrightarrow> (\<exists>v \<in> set (filter P vs). A v \<and> B v) \<longleftrightarrow> (\<exists>v \<in> set vs. A v \<and> B v)"
  by auto

lemma covers_grows:
  assumes "covers_the_erased es log r" and w: "window cost log r" and "\<forall>v \<in> set (tr_veils r). unat (vl_below v) \<le> length log"
    and "\<forall>(_, _, n) \<in> set es. n \<le> length log" and len: "length log + 1 < 2 ^ 64"
    and v: "tr_veils r' = filter (\<lambda>v. vl_below v > tr_first_seq r') (tr_veils r)" and first: "tr_first_seq r \<le> tr_first_seq r'"
  shows "covers_the_erased es (log @ [s]) r'"
  unfolding covers_the_erased_def
proof (intro allI impI)
  fix i
  assume i: "unat (tr_first_seq r') \<le> i \<and> i < length (log @ [s])"
  then have n: "unat (of_nat i :: u64) = i" using len by (simp add: unat_of_nat_u64)
  have "tr_first_seq r' \<le> of_nat i" using i by (simp add: word_le_nat_alt n)
  then have "of_nat i < vl_below v \<Longrightarrow> vl_below v > tr_first_seq r'" for v by (rule le_less_trans)
  then have drop: "veiled r' (of_nat i) ((log @ [s]) ! i) = veiled r (of_nat i) ((log @ [s]) ! i)"
    unfolding veiled_iff v by (rule ex_filtered)
  show "veiled r' (of_nat i) ((log @ [s]) ! i) = erased_at es (log @ [s]) i"
  proof (cases "i < length log")
    case True
    then have "erased_at es (log @ [s]) i = erased_at es log i" by (simp add: erased_at_iff nth_append)
    moreover have "unat (tr_first_seq r) \<le> i" using first i by (simp add: word_le_nat_alt)
    ultimately show ?thesis using assms(1) True unfolding drop covers_the_erased_def by (simp add: nth_append)
  next
    case False
    then have last: "i = length log" using i by simp
    have "\<not> of_nat i < vl_below v" if "v \<in> set (tr_veils r)" for v
      using bspec [OF assms(3) that] n unfolding word_less_nat_alt last by simp
    then have "\<not> veiled r (of_nat i) ((log @ [s]) ! i)" unfolding veiled_iff by blast
    moreover have "\<not> erased_at es (log @ [s]) i"
      unfolding erased_at_def list_ex_iff using assms(4) last by (force simp del: split_paired_Ex)
    ultimately show ?thesis unfolding drop by blast
  qed
qed

lemma push_inv:
  assumes inv: "tail_inv cost log es r" and fits: "fits_u64 cost (log @ [s])"
  shows "tail_inv cost (log @ [s]) es (push cost s r) \<and> tr_first_seq r \<le> tr_first_seq (push cost s r)"
proof -
  note I = tail_invD [OF inv]
  have len: "length log + 1 < 2 ^ 64" and sum: "sum_list (map cost log) + cost s < 2 ^ 64" using fits by (simp_all add: fits_u64_def)
  let ?r = "r\<lparr>tr_resident_bytes := usize_saturating_add (tr_resident_bytes r) (cost s), tr_entries := tr_entries r @ [(s, cost s)]\<rparr>"
  have "sum_list (map cost (drop (unat (tr_first_seq r)) log)) \<le> sum_list (map cost log)"
    by (metis append_take_drop_id le_add2 map_append sum_list_append)
  then have w: "window cost (log @ [s]) ?r"
    using I(1) sum by (simp add: window_def usize_saturating_add_def comp_def)
  have "length (log @ [s]) < 2 ^ 64" using len by simp
  note E = evict_window [OF this w]
  define t where "t = evict_oldest ?r"
  have p: "push cost s r = prune_veils t" by (simp add: push_def t_def)
  have T: "window cost (log @ [s]) t" "bounded t" "tr_first_seq r \<le> tr_first_seq t" "tr_veils t = tr_veils r"
    using E unfolding t_def [symmetric] by simp_all
  have c: "covers_the_erased es (log @ [s]) (push cost s r)"
    by (rule covers_grows [OF I(3) I(1) I(4,5) len]) (simp_all add: p prune_veils_def T)
  have "window cost (log @ [s]) (push cost s r)" "bounded (push cost s r)"
    using T by (simp_all add: p prune_veils_def window_def bounded_def)
  moreover have "\<forall>v \<in> set (tr_veils (push cost s r)). unat (vl_below v) \<le> length (log @ [s])"
    using I(4) T by (auto simp: p prune_veils_def)
  moreover have "\<forall>(_, _, n) \<in> set es. n \<le> length (log @ [s])" using I(5) by auto
  moreover have "tr_first_seq r \<le> tr_first_seq (push cost s r)" using T(3) by (simp add: p prune_veils_def)
  ultimately show ?thesis using c unfolding tail_inv_def by blast
qed

lemma publish_inv:
  "tail_inv cost log es r \<Longrightarrow> fits_u64 cost (log @ spans) \<Longrightarrow>
    tail_inv cost (log @ spans) es (publish cost spans r) \<and> tr_first_seq r \<le> tr_first_seq (publish cost spans r)"
proof (induction spans arbitrary: log r)
  case (Cons s spans)
  have "fits_u64 cost (log @ [s])" using Cons.prems(2) fits_prefix [of cost "log @ [s]" spans] by simp
  note push = push_inv [OF Cons.prems(1) this]
  have "fits_u64 cost ((log @ [s]) @ spans)" using Cons.prems(2) by simp
  from Cons.IH [OF conjunct1 [OF push] this] push show ?case by (auto simp: publish_def intro: order_trans)
qed (simp add: publish_def)

lemma veil_inv:
  assumes inv: "tail_inv cost log es r" and fits: "fits_u64 cost log"
  shows "tail_inv cost log (es @ [(keys, tenants, length log)]) (ring_veil keys tenants r)"
proof -
  note I = tail_invD [OF inv]
  have len: "length log < 2 ^ 64" using fits by (simp add: fits_u64_def)
  have f: "tr_first_seq (ring_veil keys tenants r) = tr_first_seq r" by (simp add: ring_veil_def)
  have "covers_the_erased (es @ [(keys, tenants, length log)]) log (ring_veil keys tenants r)"
    unfolding covers_the_erased_def
  proof (intro allI impI)
    fix i
    assume i: "unat (tr_first_seq (ring_veil keys tenants r)) \<le> i \<and> i < length log"
    then have n: "of_nat i < next_seq r" using len by (simp add: word_less_nat_alt unat_of_nat_u64 next_seq_window [OF I(1) len])
    have old: "veiled r (of_nat i) (log ! i) = erased_at es log i" using I(3) i f by (simp add: covers_the_erased_def)
    have "tr_entries r \<noteq> []" using I(1) i f by (simp add: window_def)
    then have "veiled (ring_veil keys tenants r) (of_nat i) (log ! i)
        \<longleftrightarrow> veiled r (of_nat i) (log ! i) \<or> key_of (log ! i) \<in> keys \<or> tenant (log ! i) \<in> tenants"
      using n by (auto simp: ring_veil_def veiled_iff)
    then show "veiled (ring_veil keys tenants r) (of_nat i) (log ! i) = erased_at (es @ [(keys, tenants, length log)]) log i"
      using i unfolding old by (auto simp: erased_at_def)
  qed
  moreover have "\<forall>v \<in> set (tr_veils (ring_veil keys tenants r)). unat (vl_below v) \<le> length log"
    using I(4) next_seq_window [OF I(1) len] by (auto simp: ring_veil_def)
  ultimately show ?thesis using I unfolding tail_inv_def by (auto simp: window_def bounded_def ring_veil_def)
qed

lemma tails_inv: "tails cost epoch capacity byte_budget log es r \<Longrightarrow> fits_u64 cost log \<Longrightarrow> tail_inv cost log es r"
proof (induction rule: tails.induct)
  case opened
  show ?case by (simp add: tail_inv_def window_def bounded_def covers_the_erased_def ring_new_def)
next
  case (published log es r spans)
  then show ?case using publish_inv fits_prefix by blast
next
  case (veiled_by log es r keys tenants)
  then show ?case using veil_inv by blast
qed

section \<open>Reading\<close>

definition delivered :: "(span \<Rightarrow> bool) \<Rightarrow> erasures \<Rightarrow> span list \<Rightarrow> nat \<Rightarrow> nat \<Rightarrow> span list" where
  "delivered keep es log p q = map ((!) log) (filter (\<lambda>i. keep (log ! i) \<and> \<not> erased_at es log i) [p..<q])"

lemma delivered_same [simp]: "delivered keep es log p p = []"
  by (simp add: delivered_def)

lemma delivered_Suc:
  "p \<le> q \<Longrightarrow> delivered keep es log p (Suc q) = delivered keep es log p q @ (if keep (log ! q) \<and> \<not> erased_at es log q then [log ! q] else [])"
  by (simp add: delivered_def)

lemma read_entries_log:
  assumes inv: "tail_inv cost log es r" and len: "length log < 2 ^ 64"
  shows "unat (tr_first_seq r) + index + length entries = length log \<Longrightarrow> entries = drop index (tr_entries r) \<Longrightarrow> p \<le> unat (tr_first_seq r) + index \<Longrightarrow>
    spans = delivered keep es log p (unat (tr_first_seq r) + index) \<Longrightarrow> length spans \<le> limit \<Longrightarrow> consumed = unat (tr_first_seq r) + index - p \<Longrightarrow>
    \<exists>q. read_entries r limit keep index entries spans consumed = (delivered keep es log p q, q - p) \<and> p \<le> q \<and> q \<le> length log
      \<and> length (delivered keep es log p q) \<le> limit \<and> (length (delivered keep es log p q) = limit \<or> q = length log)"
proof (induction entries arbitrary: index spans consumed)
  case Nil
  then show ?case by (intro exI [of _ "length log"]) auto
next
  case (Cons e entries)
  let ?f = "unat (tr_first_seq r)"
  let ?i = "?f + index"
  note I = tail_invD [OF inv]
  have idx: "index < length (tr_entries r)" and lt: "?i < length log" using Cons.prems(1,2) by (auto dest: arg_cong [of _ _ length])
  have "e = tr_entries r ! index" using Cons.prems(2) idx by (metis Cons_nth_drop_Suc list.inject)
  then have e: "e = (log ! ?i, cost (log ! ?i))" using I(1) idx lt by (simp add: window_def)
  have entries: "entries = drop (index + 1) (tr_entries r)" using Cons.prems(2) by (metis add.commute drop_Suc list.sel(3) plus_1_eq_Suc tl_drop)
  have seq: "u64_saturating_add (tr_first_seq r) (of_nat index) = of_nat ?i"
    using saturating_add_exact [of "tr_first_seq r" index] lt len by (metis unat_of_nat_u64 less_trans word_unat_eq_iff)
  have "veiled r (of_nat ?i) (log ! ?i) = erased_at es log ?i"
    by (rule I(3) [unfolded covers_the_erased_def, rule_format]) (use lt in simp)
  then have veil: "veiled r (u64_saturating_add (tr_first_seq r) (of_nat index)) (log ! ?i) = erased_at es log ?i" unfolding seq .
  show ?case
  proof (cases "length spans = limit")
    case True
    then show ?thesis using Cons.prems(3-6) lt unfolding e by (intro exI [of _ ?i]) auto
  next
    case False
    let ?spans = "delivered keep es log p (?f + (index + 1))"
    have sp: "?spans = spans @ (if keep (log ! ?i) \<and> \<not> erased_at es log ?i then [log ! ?i] else [])"
      using delivered_Suc [OF Cons.prems(3)] Cons.prems(4) by simp
    have step: "read_entries r limit keep index (e # entries) spans consumed = read_entries r limit keep (index + 1) entries ?spans (consumed + 1)"
      unfolding e sp using False by (simp add: veil)
    show ?thesis unfolding step
      by (rule Cons.IH) (use Cons.prems entries sp False in \<open>simp_all\<close>)
  qed
qed

text \<open>The positions of the log a reader from a cursor is at.\<close>

definition usable :: "tail_ring \<Rightarrow> span list \<Rightarrow> tail_cursor \<Rightarrow> bool" where
  "usable r log c \<longleftrightarrow> tc_epoch c = tr_epoch r \<and> unat (tr_first_seq r) \<le> unat (tc_seq c) \<and> unat (tc_seq c) \<le> length log"

lemma read_from:
  assumes inv: "tail_inv cost log es r" and len: "length log < 2 ^ 64" and start: "start \<le> length (tr_entries r)"
  obtains q where
    "(let (spans, consumed) = read_entries r limit keep start (drop start (tr_entries r)) [] 0
      in Batch spans \<lparr>tc_epoch = tr_epoch r, tc_seq = u64_saturating_add (tr_first_seq r) (of_nat (start + consumed))\<rparr>)
     = Batch (delivered keep es log (unat (tr_first_seq r) + start) q) \<lparr>tc_epoch = tr_epoch r, tc_seq = of_nat q\<rparr>"
    "unat (tr_first_seq r) + start \<le> q" "q \<le> length log"
    "length (delivered keep es log (unat (tr_first_seq r) + start) q) \<le> limit"
    "length (delivered keep es log (unat (tr_first_seq r) + start) q) = limit \<or> q = length log"
proof -
  let ?p = "unat (tr_first_seq r) + start"
  have e: "length (tr_entries r) = length log - unat (tr_first_seq r)" "unat (tr_first_seq r) \<le> length log"
    using tail_invD(1) [OF inv] by (simp_all add: window_def)
  have "unat (tr_first_seq r) + start + length (drop start (tr_entries r)) = length log" using e start by simp
  from read_entries_log [OF inv len this refl, where p = ?p and keep = keep and spans = "[]" and limit = limit and consumed = 0] obtain q where
    q: "read_entries r limit keep start (drop start (tr_entries r)) [] 0 = (delivered keep es log ?p q, q - ?p)"
    "?p \<le> q" "q \<le> length log" "length (delivered keep es log ?p q) \<le> limit" "length (delivered keep es log ?p q) = limit \<or> q = length log"
    by auto
  have "unat (u64_saturating_add (tr_first_seq r) (of_nat (start + (q - ?p)))) = q"
    using saturating_add_exact [of "tr_first_seq r" "start + (q - ?p)"] q(2,3) len by simp
  then have "u64_saturating_add (tr_first_seq r) (of_nat (start + (q - ?p))) = of_nat q"
    by (metis of_nat_unat ucast_id)
  then show thesis using q by (intro that [of q]) simp_all
qed

text \<open>C8: the tail is a window on the log of admissions. Whatever was published and erased, a read from a cursor
  answers a gap exactly when the position is of another process, already evicted or never reached, with the number
  of admissions lost; otherwise it delivers, in admission order, every span between the cursor and the next one that
  the subscriber wants and that no erasure since its admission covers, at most the limit, stopping early only when
  the limit is reached.\<close>

theorem the_tail_reads_the_log:
  assumes t: "tails cost epoch capacity byte_budget log es r" and fits: "fits_u64 cost log"
  shows "(usable r log c \<longrightarrow> (\<exists>q. ring_read r (Some c) backfill limit keep
            = Batch (delivered keep es log (unat (tc_seq c)) q) \<lparr>tc_epoch = tr_epoch r, tc_seq = of_nat q\<rparr>
          \<and> unat (tc_seq c) \<le> q \<and> q \<le> length log
          \<and> length (delivered keep es log (unat (tc_seq c)) q) \<le> limit
          \<and> (length (delivered keep es log (unat (tc_seq c)) q) = limit \<or> q = length log)))
    \<and> (\<not> usable r log c \<longrightarrow> ring_read r (Some c) backfill limit keep
          = Gap (if tc_epoch c = tr_epoch r then Some (of_nat (unat (tr_first_seq r) - unat (tc_seq c))) else None))"
proof -
  have inv: "tail_inv cost log es r" by (rule tails_inv [OF t fits])
  have len: "length log < 2 ^ 64" using fits by (simp add: fits_u64_def)
  note w = tail_invD(1) [OF inv]
  have u: "usable r log c \<longleftrightarrow> \<not> (tc_epoch c \<noteq> tr_epoch r \<or> tc_seq c < tr_first_seq r \<or> tc_seq c > next_seq r)"
    using next_seq_window [OF w len] by (auto simp: usable_def word_less_nat_alt)
  have g: "saturating_sub (tr_first_seq r) (tc_seq c) = of_nat (unat (tr_first_seq r) - unat (tc_seq c))"
    by (cases "tc_seq c \<le> tr_first_seq r") (simp_all add: saturating_sub_def word_le_nat_alt of_nat_diff)
  have "\<exists>q. ring_read r (Some c) backfill limit keep
            = Batch (delivered keep es log (unat (tc_seq c)) q) \<lparr>tc_epoch = tr_epoch r, tc_seq = of_nat q\<rparr>
          \<and> unat (tc_seq c) \<le> q \<and> q \<le> length log
          \<and> length (delivered keep es log (unat (tc_seq c)) q) \<le> limit
          \<and> (length (delivered keep es log (unat (tc_seq c)) q) = limit \<or> q = length log)" if us: "usable r log c"
  proof -
    have d: "unat (tc_seq c - tr_first_seq r) = unat (tc_seq c) - unat (tr_first_seq r)"
      using us by (simp add: usable_def unat_sub word_le_nat_alt)
    have s: "unat (tc_seq c - tr_first_seq r) \<le> length (tr_entries r)"
      using us w unfolding d by (auto simp: usable_def window_def)
    have p: "unat (tr_first_seq r) + unat (tc_seq c - tr_first_seq r) = unat (tc_seq c)" using us unfolding d by (simp add: usable_def)
    show ?thesis
      using read_from [OF inv len s, of limit keep] u us unfolding p by (auto simp: ring_read_def Let_def)
  qed
  moreover have "ring_read r (Some c) backfill limit keep
      = Gap (if tc_epoch c = tr_epoch r then Some (of_nat (unat (tr_first_seq r) - unat (tc_seq c))) else None)" if "\<not> usable r log c"
    using that unfolding u ring_read_def Let_def option.case g by (simp only: not_not if_True)
  ultimately show ?thesis by blast
qed

section \<open>A subscriber\<close>

text \<open>What happens to the ring between two moments: admissions and erasures.\<close>

inductive grows :: "(span \<Rightarrow> nat) \<Rightarrow> span list \<Rightarrow> erasures \<Rightarrow> tail_ring \<Rightarrow> span list \<Rightarrow> erasures \<Rightarrow> tail_ring \<Rightarrow> bool"
  for cost log es r where
  unchanged: "grows cost log es r log es r"
| admits: "grows cost log es r log' es' r' \<Longrightarrow> grows cost log es r (log' @ spans) es' (publish cost spans r')"
| erases: "grows cost log es r log' es' r' \<Longrightarrow>
    grows cost log es r log' (es' @ [(keys, tenants, length log')]) (ring_veil keys tenants r')"

lemma grows_tails:
  "grows cost log es r log' es' r' \<Longrightarrow> tails cost epoch capacity byte_budget log es r \<Longrightarrow>
    tails cost epoch capacity byte_budget log' es' r'"
  by (induction rule: grows.induct) (auto intro: tails.intros)

lemma grows_more: "grows cost log es r log' es' r' \<Longrightarrow> \<exists>spans more. log' = log @ spans \<and> es' = es @ more"
  by (induction rule: grows.induct) auto

lemma grows_epoch: "grows cost log es r log' es' r' \<Longrightarrow> fits_u64 cost log' \<Longrightarrow> fits_u64 cost log"
  using grows_more [of cost log es r log' es' r'] by (auto intro: fits_prefix)

text \<open>The filter of one read: what the subscriber wants, and what no erasure pending at that moment masks.\<close>

definition unmasked :: "(span \<Rightarrow> bool) \<Rightarrow> (span \<Rightarrow> bool) \<Rightarrow> span \<Rightarrow> bool" where
  "unmasked want masked s \<longleftrightarrow> want s \<and> \<not> masked s"

definition masked_at :: "(span \<Rightarrow> bool) \<Rightarrow> span list \<Rightarrow> nat \<Rightarrow> nat \<Rightarrow> nat set" where
  "masked_at masked log p q = {i. p \<le> i \<and> i < q \<and> masked (log ! i)}"

text \<open>The position a stream opens at, with so much history.\<close>

definition opens_at :: "tail_ring \<Rightarrow> nat \<Rightarrow> nat" where
  "opens_at r backfill = unat (tr_first_seq r) + (length (tr_entries r) - backfill)"

text \<open>A subscriber opens the stream and from then on waits from the cursor it was last given, while the store admits
  and erases, also during a wait; after a gap it opens the stream again, as \<open>GET /v1/tail\<close> does. The arguments: the
  log, the erasures and the ring now; the position it first opened at, its cursor and what it has been given; the
  positions it lost to gaps, and those masked when it passed them.\<close>

inductive follows ::
  "(span \<Rightarrow> nat) \<Rightarrow> u64 \<Rightarrow> nat \<Rightarrow> nat \<Rightarrow> (span \<Rightarrow> bool) \<Rightarrow> span list \<Rightarrow> erasures \<Rightarrow> tail_ring \<Rightarrow> nat \<Rightarrow> tail_cursor \<Rightarrow> span list
    \<Rightarrow> nat set \<Rightarrow> nat set \<Rightarrow> bool"
  for cost epoch capacity byte_budget want where
  opens: "tails cost epoch capacity byte_budget log es r
    \<Longrightarrow> tail_wait r r' None backfill limit (unmasked want masked) = Batch spans c
    \<Longrightarrow> follows cost epoch capacity byte_budget want log es r (opens_at r backfill) c spans {}
          (masked_at masked log (opens_at r backfill) (unat (tc_seq c)))"
| meanwhile: "follows cost epoch capacity byte_budget want log es r start c out lost hidden
    \<Longrightarrow> grows cost log es r log' es' r'
    \<Longrightarrow> follows cost epoch capacity byte_budget want log' es' r' start c out lost hidden"
| waits: "follows cost epoch capacity byte_budget want log es r start c out lost hidden
    \<Longrightarrow> grows cost log es r log' es' r'
    \<Longrightarrow> tail_wait r r' (Some c) backfill limit (unmasked want masked) = Batch spans c'
    \<Longrightarrow> follows cost epoch capacity byte_budget want log' es' r' start c' (out @ spans) lost
          (hidden \<union> masked_at masked log' (unat (tc_seq c)) (unat (tc_seq c')))"
| reopens: "follows cost epoch capacity byte_budget want log es r start c out lost hidden
    \<Longrightarrow> grows cost log es r log' es' r'
    \<Longrightarrow> tail_wait r r' (Some c) backfill limit (unmasked want masked) = Gap missed
    \<Longrightarrow> grows cost log' es' r' log2 es2 r2
    \<Longrightarrow> tail_wait r2 r3 None backfill2 limit (unmasked want masked2) = Batch spans c'
    \<Longrightarrow> follows cost epoch capacity byte_budget want log2 es2 r2 start c' (out @ spans)
          (lost \<union> {unat (tc_seq c) ..< opens_at r2 backfill2})
          (hidden \<union> masked_at masked2 log2 (opens_at r2 backfill2) (unat (tc_seq c')))"

lemma follows_tails:
  "follows cost epoch capacity byte_budget want log es r start c out lost hidden \<Longrightarrow> tails cost epoch capacity byte_budget log es r"
  by (induction rule: follows.induct) (auto intro: grows_tails)

text \<open>What has been given of the positions up to \<open>stop\<close>.\<close>

definition given ::
  "(span \<Rightarrow> bool) \<Rightarrow> nat \<Rightarrow> nat \<Rightarrow> span list \<Rightarrow> erasures \<Rightarrow> nat set \<Rightarrow> nat set \<Rightarrow> nat list \<Rightarrow> bool" where
  "given want start stop log es lost hidden ps \<longleftrightarrow>
     start \<le> stop \<and> stop \<le> length log \<and> sorted_wrt (<) ps \<and> lost \<subseteq> {start ..< stop}
     \<and> set ps \<subseteq> {i. start \<le> i \<and> i < stop \<and> want (log ! i)} - lost
     \<and> {i. start \<le> i \<and> i < stop \<and> want (log ! i) \<and> \<not> erased_at es log i} - lost - hidden \<subseteq> set ps"

definition passed :: "(span \<Rightarrow> bool) \<Rightarrow> erasures \<Rightarrow> span list \<Rightarrow> nat \<Rightarrow> nat \<Rightarrow> nat list" where
  "passed keep es log p q = filter (\<lambda>i. keep (log ! i) \<and> \<not> erased_at es log i) [p..<q]"

lemma delivered_passed: "delivered keep es log p q = map ((!) log) (passed keep es log p q)"
  by (simp add: delivered_def passed_def)

lemma set_passed: "set (passed keep es log p q) = {i. p \<le> i \<and> i < q \<and> keep (log ! i) \<and> \<not> erased_at es log i}"
  by (auto simp: passed_def)

lemma sorted_passed: "sorted_wrt (<) (passed keep es log p q)"
  by (simp add: passed_def sorted_wrt_filter)

text \<open>The next positions, after those a gap lost.\<close>

lemma given_more:
  assumes "given want start p log es lost hidden ps" and "p \<le> p'" "p' \<le> q" "q \<le> length log"
  shows "given want start q log es (lost \<union> {p ..< p'}) (hidden \<union> masked_at masked log p' q) (ps @ passed (unmasked want masked) es log p' q)"
  using assms by (auto simp: given_def set_passed sorted_wrt_append sorted_passed unmasked_def masked_at_def)

lemma given_nothing: "p \<le> length log \<Longrightarrow> given want p p log es {} {} []"
  by (simp add: given_def)

lemma given_grows:
  assumes "given want start stop log es lost hidden ps" and "grows cost log es r log' es' r'"
  shows "given want start stop log' es' lost hidden ps \<and> map ((!) log') ps = map ((!) log) ps"
proof -
  obtain spans more where more: "log' = log @ spans" "es' = es @ more" using grows_more [OF assms(2)] by blast
  have stop: "stop \<le> length log" "set ps \<subseteq> {..<stop}" using assms(1) by (auto simp: given_def)
  have same: "log' ! i = log ! i" "erased_at es log i \<Longrightarrow> erased_at es' log' i" if "i < stop" for i
    using that stop(1) by (auto simp: more nth_append erased_at_iff)
  have "{i. start \<le> i \<and> i < stop \<and> want (log' ! i)} = {i. start \<le> i \<and> i < stop \<and> want (log ! i)}"
    "{i. start \<le> i \<and> i < stop \<and> want (log' ! i) \<and> \<not> erased_at es' log' i}
      \<subseteq> {i. start \<le> i \<and> i < stop \<and> want (log ! i) \<and> \<not> erased_at es log i}"
    using same by auto
  then have "given want start stop log' es' lost hidden ps"
    using assms(1) unfolding given_def by (auto simp: more(1))
  moreover have "map ((!) log') ps = map ((!) log) ps" using same(1) stop(2) by auto
  ultimately show ?thesis ..
qed

text \<open>What a read and an opening give.\<close>

lemma read_advances:
  assumes "tails cost epoch capacity byte_budget log es r" and "fits_u64 cost log" and "ring_read r (Some c) backfill limit keep = Batch spans c'"
  obtains "spans = delivered keep es log (unat (tc_seq c)) (unat (tc_seq c'))" "unat (tc_seq c) \<le> unat (tc_seq c')" "unat (tc_seq c') \<le> length log"
    "tc_epoch c' = tc_epoch c"
proof -
  have inv: "tail_inv cost log es r" by (rule tails_inv [OF assms(1,2)])
  have len: "length log < 2 ^ 64" using assms(2) by (simp add: fits_u64_def)
  note w = tail_invD(1) [OF inv]
  have us: "\<not> (tc_epoch c \<noteq> tr_epoch r \<or> tc_seq c < tr_first_seq r \<or> tc_seq c > next_seq r)"
    using assms(3) by (auto simp: ring_read_def Let_def split: if_splits)
  then have le: "tr_first_seq r \<le> tc_seq c" "unat (tc_seq c) \<le> length log" "tc_epoch c = tr_epoch r"
    using next_seq_window [OF w len] by (auto simp: word_less_nat_alt word_le_nat_alt)
  then have d: "unat (tc_seq c - tr_first_seq r) = unat (tc_seq c) - unat (tr_first_seq r)" by (simp add: unat_sub)
  have s: "unat (tc_seq c - tr_first_seq r) \<le> length (tr_entries r)" using le w unfolding d by (auto simp: window_def)
  have p: "unat (tr_first_seq r) + unat (tc_seq c - tr_first_seq r) = unat (tc_seq c)" using le(1) unfolding d by (simp add: word_le_nat_alt)
  obtain q where q: "ring_read r (Some c) backfill limit keep = Batch (delivered keep es log (unat (tc_seq c)) q) \<lparr>tc_epoch = tr_epoch r, tc_seq = of_nat q\<rparr>"
    "unat (tc_seq c) \<le> q" "q \<le> length log"
    using read_from [OF inv len s, of limit keep] us unfolding p by (auto simp: ring_read_def Let_def)
  have "unat (tc_seq c') = q" using assms(3) q(1,3) len by (auto simp: unat_of_nat_u64)
  moreover have "c' = \<lparr>tc_epoch = tr_epoch r, tc_seq = of_nat q\<rparr>" "spans = delivered keep es log (unat (tc_seq c)) q" using assms(3) q(1) by simp_all
  ultimately show thesis using q(2,3) le(3) by (intro that) simp_all
qed

lemma gap_evicted:
  assumes "tails cost epoch capacity byte_budget log es r" and "fits_u64 cost log" and "ring_read r (Some c) backfill limit keep = Gap missed"
    and "tc_epoch c = tr_epoch r" and "unat (tc_seq c) \<le> length log"
  shows "unat (tc_seq c) < unat (tr_first_seq r)"
proof -
  have inv: "tail_inv cost log es r" by (rule tails_inv [OF assms(1,2)])
  have len: "length log < 2 ^ 64" using assms(2) by (simp add: fits_u64_def)
  have "\<not> tc_seq c > next_seq r" using next_seq_window [OF tail_invD(1) [OF inv] len] assms(5) by (simp add: word_less_nat_alt)
  then show ?thesis
    using assms(3,4) by (auto simp: ring_read_def Let_def word_less_nat_alt split: if_splits prod.splits)
qed

lemma open_reads:
  assumes "tails cost epoch capacity byte_budget log es r" and "fits_u64 cost log" and "tail_wait r r' None backfill limit keep = Batch spans c"
  shows "spans = delivered keep es log (opens_at r backfill) (unat (tc_seq c)) \<and> opens_at r backfill \<le> unat (tc_seq c)
    \<and> unat (tc_seq c) \<le> length log \<and> tc_epoch c = tr_epoch r \<and> unat (tr_first_seq r) \<le> opens_at r backfill"
proof -
  have inv: "tail_inv cost log es r" by (rule tails_inv [OF assms(1,2)])
  have len: "length log < 2 ^ 64" using assms(2) by (simp add: fits_u64_def)
  have "length (tr_entries r) - backfill \<le> length (tr_entries r)" by simp
  from read_from [OF inv len this, of limit keep] obtain q where
    q: "ring_read r None backfill limit keep = Batch (delivered keep es log (opens_at r backfill) q) \<lparr>tc_epoch = tr_epoch r, tc_seq = of_nat q\<rparr>"
    "opens_at r backfill \<le> q" "q \<le> length log"
    unfolding opens_at_def by (auto simp: ring_read_def Let_def)
  have "Batch spans c = Batch (delivered keep es log (opens_at r backfill) q) \<lparr>tc_epoch = tr_epoch r, tc_seq = of_nat q\<rparr>"
    using assms(3) by (simp add: tail_wait_def q(1) advanced_def)
  then show ?thesis using q(2,3) len by (simp add: unat_of_nat_u64 opens_at_def)
qed

lemma tails_epoch:
  assumes "tails cost epoch capacity byte_budget log es r"
  shows "tr_epoch r = epoch"
proof -
  have e: "tr_epoch (evict_oldest r) = tr_epoch r" for r
  proof (induction r rule: evict_oldest.induct)
    case (1 r)
    then show ?case by (subst evict_oldest.simps) simp
  qed
  then have p: "tr_epoch (publish cost spans r) = tr_epoch r" for spans r
    by (induction spans arbitrary: r) (simp_all add: publish_def push_def prune_veils_def)
  show ?thesis using assms by (induction rule: tails.induct) (simp_all add: ring_new_def ring_veil_def p)
qed

text \<open>A wait answers from one of its two reads, at the position it was asked for.\<close>

lemma wait_reads:
  assumes t: "tails cost epoch capacity byte_budget log es r" and g: "grows cost log es r log' es' r'" and fits: "fits_u64 cost log'"
    and run: "tail_wait r r' (Some c) backfill limit keep = Batch spans c'" and v: "given want start (unat (tc_seq c)) log es lost hidden ps"
    and keep: "keep = unmasked want masked"
  shows "\<exists>qs. given want start (unat (tc_seq c')) log' es' lost (hidden \<union> masked_at masked log' (unat (tc_seq c)) (unat (tc_seq c'))) (ps @ qs)
    \<and> spans = map ((!) log') qs \<and> tc_epoch c' = tc_epoch c"
proof -
  note fits0 = grows_epoch [OF g fits]
  have hid: "masked_at masked log (unat (tc_seq c)) q = masked_at masked log' (unat (tc_seq c)) q" if "q \<le> length log" for q
    using grows_more [OF g] that by (auto simp: masked_at_def nth_append)
  obtain first resume where one: "ring_read r (Some c) backfill limit keep = Batch first resume"
    using run by (auto simp: tail_wait_def split: tail_read.splits)
  show ?thesis
  proof (cases "tc_seq resume = tc_seq c")
    case False
    then have eq: "spans = first" "c' = resume" using run one by (auto simp: tail_wait_def advanced_def)
    obtain r: "first = delivered keep es log (unat (tc_seq c)) (unat (tc_seq resume))" "unat (tc_seq c) \<le> unat (tc_seq resume)"
      "unat (tc_seq resume) \<le> length log" "tc_epoch resume = tc_epoch c"
      using read_advances [OF t fits0 one] by blast
    from given_grows [OF given_more [OF v order.refl r(2,3), of masked] g] show ?thesis
      unfolding eq hid [OF r(3)] using r(1,4) by (auto simp: delivered_passed keep)
  next
    case True
    obtain r: "tc_epoch resume = tc_epoch c" using read_advances [OF t fits0 one] by blast
    then have "resume = c" using True by simp
    then have two: "ring_read r' (Some c) 0 limit keep = Batch spans c'" using run one True by (simp add: tail_wait_def advanced_def)
    obtain s: "spans = delivered keep es' log' (unat (tc_seq c)) (unat (tc_seq c'))" "unat (tc_seq c) \<le> unat (tc_seq c')"
      "unat (tc_seq c') \<le> length log'" "tc_epoch c' = tc_epoch c"
      using read_advances [OF grows_tails [OF g t] fits two] by blast
    from given_more [OF conjunct1 [OF given_grows [OF v g]] order.refl s(2,3), of masked] show ?thesis
      using s(1,4) by (auto simp: delivered_passed keep)
  qed
qed

lemma wait_gaps:
  assumes t: "tails cost epoch capacity byte_budget log es r" and g: "grows cost log es r log' es' r'" and fits: "fits_u64 cost log'"
    and run: "tail_wait r r' (Some c) backfill limit keep = Gap missed" and c: "tc_epoch c = epoch" "unat (tc_seq c) \<le> length log"
  shows "\<exists>s. (s = r \<or> s = r') \<and> unat (tc_seq c) < unat (tr_first_seq s)"
proof -
  note t' = grows_tails [OF g t] and fits0 = grows_epoch [OF g fits]
  have len: "unat (tc_seq c) \<le> length log'" using c(2) grows_more [OF g] by auto
  show ?thesis
  proof (cases "ring_read r (Some c) backfill limit keep")
    case (Gap n)
    have "tc_epoch c = tr_epoch r" using c(1) tails_epoch [OF t] by simp
    from gap_evicted [OF t fits0 Gap this c(2)] show ?thesis by blast
  next
    case (Batch first resume)
    obtain r: "tc_epoch resume = tc_epoch c" using read_advances [OF t fits0 Batch] by blast
    have seq: "tc_seq resume = tc_seq c" using run Batch by (auto simp: tail_wait_def advanced_def split: if_splits)
    then have "resume = c" using r by simp
    then have "ring_read r' (Some c) 0 limit keep = Gap missed" using run Batch seq by (simp add: tail_wait_def advanced_def)
    moreover have "tc_epoch c = tr_epoch r'" using c(1) tails_epoch [OF t'] by simp
    ultimately show ?thesis using gap_evicted [OF t' fits _ _ len] by blast
  qed
qed

lemma first_seq_grows:
  assumes "grows cost log es r log' es' r'" and "tails cost epoch capacity byte_budget log es r" and "fits_u64 cost log'"
  shows "tr_first_seq r \<le> tr_first_seq r'"
  using assms(1,3)
proof (induction rule: grows.induct)
  case (admits log' es' r' spans)
  have fits: "fits_u64 cost log'" by (rule fits_prefix [OF admits.prems])
  have "tail_inv cost log' es' r'" by (rule tails_inv [OF grows_tails [OF admits.hyps assms(2)] fits])
  from publish_inv [OF this admits.prems] admits.IH [OF fits] show ?case by (auto intro: order_trans)
next
  case (erases log' es' r' keys tenants)
  then show ?case by (simp add: ring_veil_def)
qed simp

lemma follows_given:
  "follows cost epoch capacity byte_budget want log es r start c out lost hidden \<Longrightarrow> fits_u64 cost log \<Longrightarrow>
    tc_epoch c = epoch \<and> (\<exists>ps. given want start (unat (tc_seq c)) log es lost hidden ps \<and> out = map ((!) log) ps)"
proof (induction rule: follows.induct)
  case (opens log es r r' backfill limit masked spans c)
  note o = open_reads [OF opens(1,3,2)]
  then have "opens_at r backfill \<le> unat (tc_seq c)" "unat (tc_seq c) \<le> length log" by simp_all
  from given_more [OF given_nothing order.refl this] this have
    "given want (opens_at r backfill) (unat (tc_seq c)) log es {} (masked_at masked log (opens_at r backfill) (unat (tc_seq c)))
      (passed (unmasked want masked) es log (opens_at r backfill) (unat (tc_seq c)))" by simp
  then show ?case using o tails_epoch [OF opens(1)] by (auto simp: delivered_passed)
next
  case (meanwhile log es r start c out lost hidden log' es' r')
  from meanwhile.IH [OF grows_epoch [OF meanwhile.hyps(2) meanwhile.prems]] obtain ps where
    ps: "tc_epoch c = epoch" "given want start (unat (tc_seq c)) log es lost hidden ps" "out = map ((!) log) ps" by blast
  then show ?case using given_grows [OF ps(2) meanwhile.hyps(2)] by metis
next
  case (waits log es r start c out lost hidden log' es' r' backfill limit masked spans c')
  from waits.IH [OF grows_epoch [OF waits.hyps(2) waits.prems]] obtain ps where
    ps: "tc_epoch c = epoch" "given want start (unat (tc_seq c)) log es lost hidden ps" "out = map ((!) log) ps" by blast
  from wait_reads [OF follows_tails [OF waits.hyps(1)] waits.hyps(2) waits.prems waits.hyps(3) ps(2) refl] obtain qs where
    qs: "given want start (unat (tc_seq c')) log' es' lost (hidden \<union> masked_at masked log' (unat (tc_seq c)) (unat (tc_seq c'))) (ps @ qs)"
    "spans = map ((!) log') qs" "tc_epoch c' = tc_epoch c" by blast
  have "out = map ((!) log') ps" using given_grows [OF ps(2) waits.hyps(2)] ps(3) by simp
  then have "out @ spans = map ((!) log') (ps @ qs)" using qs(2) by simp
  then show ?case using qs(1,3) ps(1) by metis
next
  case (reopens log es r start c out lost hidden log' es' r' backfill limit masked missed log2 es2 r2 r3 backfill2 masked2 spans c')
  note fits2 = reopens.prems
  note fits1 = grows_epoch [OF reopens.hyps(4) fits2]
  from reopens.IH [OF grows_epoch [OF reopens.hyps(2) fits1]] obtain ps where
    ps: "tc_epoch c = epoch" "given want start (unat (tc_seq c)) log es lost hidden ps" "out = map ((!) log) ps" by blast
  note t0 = follows_tails [OF reopens.hyps(1)]
  note t1 = grows_tails [OF reopens.hyps(2) t0]
  note t2 = grows_tails [OF reopens.hyps(4) t1]
  have "unat (tc_seq c) \<le> length log" using ps(2) by (simp add: given_def)
  from wait_gaps [OF t0 reopens.hyps(2) fits1 reopens.hyps(3) ps(1) this]
  have "unat (tc_seq c) < unat (tr_first_seq r2)"
    using first_seq_grows [OF reopens.hyps(2) t0 fits1] first_seq_grows [OF reopens.hyps(4) t1 fits2]
    by (auto simp: word_le_nat_alt)
  moreover note o = open_reads [OF t2 fits2 reopens.hyps(5)]
  ultimately have p: "unat (tc_seq c) \<le> opens_at r2 backfill2" "opens_at r2 backfill2 \<le> unat (tc_seq c')" "unat (tc_seq c') \<le> length log2"
    by simp_all
  note g1 = given_grows [OF ps(2) reopens.hyps(2)]
  note g2 = given_grows [OF conjunct1 [OF g1] reopens.hyps(4)]
  have "out @ spans = map ((!) log2) (ps @ passed (unmasked want masked2) es2 log2 (opens_at r2 backfill2) (unat (tc_seq c')))"
    using ps(3) g1 g2 o by (simp add: delivered_passed)
  moreover have "tc_epoch c' = epoch" using o tails_epoch [OF t2] by simp
  ultimately show ?case using given_more [OF conjunct1 [OF g2] p, of masked2] by blast
qed

text \<open>C7: a subscriber is given every admission once. However its waits interleave with admissions, evictions and
  erasures, what it has been given since it first opened the stream is, in admission order, spans it wants, none twice,
  and none is left out but those an erasure covered, those a pending erasure masked when the subscriber passed them,
  and those between its cursor at a gap it was told of and the place it opened the stream again at.\<close>

theorem a_subscriber_is_given_every_admission_once:
  assumes "follows cost epoch capacity byte_budget want log es r start c out lost hidden" and "fits_u64 cost log"
  shows "\<exists>ps. out = map ((!) log) ps \<and> sorted_wrt (<) ps
    \<and> set ps \<subseteq> {i. start \<le> i \<and> i < unat (tc_seq c) \<and> want (log ! i)} - lost
    \<and> {i. start \<le> i \<and> i < unat (tc_seq c) \<and> want (log ! i) \<and> \<not> erased_at es log i} - lost - hidden \<subseteq> set ps
    \<and> unat (tc_seq c) \<le> length log"
  using follows_given [OF assms] unfolding given_def by blast

section \<open>Bounds\<close>

lemma evict_nonempty: "tr_entries r \<noteq> [] \<Longrightarrow> tr_entries (evict_oldest r) \<noteq> []"
proof (induction r rule: evict_oldest.induct)
  case (1 r)
  show ?case
  proof (cases "length (tr_entries r) > 1 \<and> (length (tr_entries r) > tr_capacity r \<or> tr_resident_bytes r > tr_byte_budget r)")
    case True
    then have "tl (tr_entries r) \<noteq> []" by (cases "tr_entries r") auto
    then show ?thesis using 1(1) [OF True] True by (subst evict_oldest.simps) simp
  next
    case False
    then show ?thesis using 1(2) by (subst evict_oldest.simps) (simp only: False if_False not_False_eq_True)
  qed
qed

lemma evict_limits: "tr_capacity (evict_oldest r) = tr_capacity r \<and> tr_byte_budget (evict_oldest r) = tr_byte_budget r"
proof (induction r rule: evict_oldest.induct)
  case (1 r)
  then show ?case by (subst (1 2) evict_oldest.simps) simp
qed

lemma push_limits: "tr_capacity (push cost s r) = tr_capacity r \<and> tr_byte_budget (push cost s r) = tr_byte_budget r \<and> tr_entries (push cost s r) \<noteq> []"
  by (simp add: push_def prune_veils_def evict_limits evict_nonempty)

lemma publish_limits:
  "tr_capacity (publish cost spans r) = tr_capacity r \<and> tr_byte_budget (publish cost spans r) = tr_byte_budget r
    \<and> (spans \<noteq> [] \<or> tr_entries r \<noteq> [] \<longrightarrow> tr_entries (publish cost spans r) \<noteq> [])"
  by (induction spans arbitrary: r) (simp_all add: publish_def push_limits)

lemma tails_limits:
  "tails cost epoch capacity byte_budget log es r \<Longrightarrow>
    tr_capacity r = max capacity 1 \<and> tr_byte_budget r = max byte_budget 1 \<and> (log \<noteq> [] \<longrightarrow> tr_entries r \<noteq> [])"
  by (induction rule: tails.induct) (auto simp: ring_new_def publish_limits ring_veil_def)

text \<open>C36: the ring is bounded, and the newest admission stays. It holds the last admissions, no more of them than
  its capacity; the bytes it counts are the sum of what its entries were charged, and no more than its budget unless
  it holds one span alone; and once anything was admitted the last admission is always there.\<close>

theorem the_tail_ring_is_bounded:
  assumes t: "tails cost epoch capacity byte_budget log es r" and fits: "fits_u64 cost log"
  shows "map fst (tr_entries r) = drop (unat (tr_first_seq r)) log
    \<and> length (tr_entries r) \<le> max capacity 1
    \<and> tr_resident_bytes r = sum_list (map cost (map fst (tr_entries r)))
    \<and> (length (tr_entries r) \<le> 1 \<or> tr_resident_bytes r \<le> max byte_budget 1)
    \<and> (log = [] \<or> last (map fst (tr_entries r)) = last log)"
proof -
  note I = tail_invD [OF tails_inv [OF t fits]] and L = tails_limits [OF t]
  have e: "map fst (tr_entries r) = drop (unat (tr_first_seq r)) log" "tr_resident_bytes r = sum_list (map cost (map fst (tr_entries r)))"
    using I(1) by (simp_all add: window_def comp_def)
  moreover have "length (tr_entries r) \<le> max capacity 1" using I(2) L by (auto simp: bounded_def)
  moreover have "length (tr_entries r) \<le> 1 \<or> tr_resident_bytes r \<le> max byte_budget 1"
    using I(2) L by (auto simp: bounded_def)
  moreover have "last (map fst (tr_entries r)) = last log" if "log \<noteq> []"
  proof -
    have "drop (unat (tr_first_seq r)) log \<noteq> []" using L that e(1) by (metis Nil_is_map_conv)
    then show ?thesis unfolding e(1) by simp
  qed
  ultimately show ?thesis by blast
qed

section \<open>A concrete tail\<close>

definition w_cost :: "span \<Rightarrow> nat" where
  "w_cost s = 5"

definition w_ring :: tail_ring where
  "w_ring = publish w_cost [w_span 7 1] (ring_new 9 2 12)"

definition w_turned :: tail_ring where
  "w_turned = ring_veil {key_of (w_span 8 2)} {} (publish w_cost [w_span 8 2, w_span 9 3] w_ring)"

lemmas w_tail = w_turned_def w_ring_def ring_new_def publish_def push_def prune_veils_def evict_oldest.simps w_cost_def
  usize_saturating_add_def u64_saturating_add_def ring_veil_def next_seq_def

lemma w_turned_eq:
  "w_turned = \<lparr>tr_epoch = 9, tr_first_seq = 1, tr_entries = [(w_span 8 2, 5), (w_span 9 3, 5)], tr_capacity = 2, tr_byte_budget = 12,
    tr_resident_bytes = 10, tr_veils = [\<lparr>vl_keys = {key_of (w_span 8 2)}, vl_tenants = {}, vl_below = 3\<rparr>]\<rparr>"
  by (simp add: w_tail)

lemma w_turned_tails: "tails w_cost 9 2 12 [w_span 7 1, w_span 8 2, w_span 9 3] [({key_of (w_span 8 2)}, {}, 3)] w_turned"
proof -
  have "tails w_cost 9 2 12 ([] @ [w_span 7 1]) [] w_ring" unfolding w_ring_def by (intro published opened)
  from published [OF this, of "[w_span 8 2, w_span 9 3]"] have
    "tails w_cost 9 2 12 [w_span 7 1, w_span 8 2, w_span 9 3] [] (publish w_cost [w_span 8 2, w_span 9 3] w_ring)" by simp
  from veiled_by [OF this, of "{key_of (w_span 8 2)}" "{}"] show ?thesis unfolding w_turned_def by (simp add: numeral_3_eq_3)
qed

lemma w_fits: "fits_u64 w_cost [w_span 7 1, w_span 8 2, w_span 9 3]"
  by (simp add: fits_u64_def w_cost_def)

lemma w_ring_eq: "w_ring = \<lparr>tr_epoch = 9, tr_first_seq = 0, tr_entries = [(w_span 7 1, 5)], tr_capacity = 2, tr_byte_budget = 12,
    tr_resident_bytes = 5, tr_veils = []\<rparr>"
  by (simp add: w_tail)

lemma w_reads:
  "ring_read w_ring None 5 5 (\<lambda>s. True) = Batch [w_span 7 1] \<lparr>tc_epoch = 9, tc_seq = 1\<rparr>"
  "ring_read w_turned (Some \<lparr>tc_epoch = 9, tc_seq = 1\<rparr>) 0 5 (\<lambda>s. True) = Batch [w_span 9 3] \<lparr>tc_epoch = 9, tc_seq = 3\<rparr>"
  by (simp_all add: w_ring_eq w_turned_eq ring_read_def veiled_def next_seq_def u64_saturating_add_def key_of_def w_span_def)

lemma w_grows: "grows w_cost [w_span 7 1] [] w_ring [w_span 7 1, w_span 8 2, w_span 9 3] [({key_of (w_span 8 2)}, {}, 3)] w_turned"
proof -
  have "grows w_cost [w_span 7 1] [] w_ring ([w_span 7 1] @ [w_span 8 2, w_span 9 3]) [] (publish w_cost [w_span 8 2, w_span 9 3] w_ring)"
    by (intro admits unchanged)
  from erases [OF this, of "{key_of (w_span 8 2)}" "{}"] show ?thesis unfolding w_turned_def by (simp add: numeral_3_eq_3)
qed

text \<open>A wait that finds nothing is answered from the ring after two admissions and an erasure; the next one meets a gap.\<close>

definition w_far :: tail_ring where
  "w_far = publish w_cost [w_span 1 1, w_span 2 2, w_span 3 3] w_turned"

lemma w_far_eq: "w_far = \<lparr>tr_epoch = 9, tr_first_seq = 4, tr_entries = [(w_span 2 2, 5), (w_span 3 3, 5)], tr_capacity = 2, tr_byte_budget = 12,
    tr_resident_bytes = 10, tr_veils = []\<rparr>"
  by (simp add: w_far_def w_turned_eq) (simp add: w_tail)

lemma w_waits:
  "tail_wait w_ring w_ring None 5 5 (unmasked (\<lambda>s. True) (\<lambda>s. False)) = Batch [w_span 7 1] \<lparr>tc_epoch = 9, tc_seq = 1\<rparr>"
  "tail_wait w_ring w_turned (Some \<lparr>tc_epoch = 9, tc_seq = 1\<rparr>) 5 5 (unmasked (\<lambda>s. True) (\<lambda>s. False))
    = Batch [w_span 9 3] \<lparr>tc_epoch = 9, tc_seq = 3\<rparr>"
  "tail_wait w_far w_far (Some \<lparr>tc_epoch = 9, tc_seq = 3\<rparr>) 5 5 (unmasked (\<lambda>s. True) (\<lambda>s. False)) = Gap (Some 1)"
  "tail_wait w_far w_far None 5 5 (unmasked (\<lambda>s. True) (\<lambda>s. False)) = Batch [w_span 2 2, w_span 3 3] \<lparr>tc_epoch = 9, tc_seq = 6\<rparr>"
  by (simp_all add: tail_wait_def w_ring_eq w_turned_eq w_far_eq ring_read_def veiled_def next_seq_def u64_saturating_add_def key_of_def w_span_def
      advanced_def unmasked_def saturating_sub_def)

lemma w_follows:
  "follows w_cost 9 2 12 (\<lambda>s. True) [w_span 7 1, w_span 8 2, w_span 9 3, w_span 1 1, w_span 2 2, w_span 3 3] [({key_of (w_span 8 2)}, {}, 3)] w_far
    0 \<lparr>tc_epoch = 9, tc_seq = 6\<rparr> [w_span 7 1, w_span 9 3, w_span 2 2, w_span 3 3] {3} {}"
proof -
  have "tails w_cost 9 2 12 [w_span 7 1] [] w_ring" using published [OF opened, of w_cost 9 2 12 "[w_span 7 1]"] by (simp add: w_ring_def)
  from opens [OF this w_waits(1)] have "follows w_cost 9 2 12 (\<lambda>s. True) [w_span 7 1] [] w_ring 0 \<lparr>tc_epoch = 9, tc_seq = 1\<rparr> [w_span 7 1] {} {}"
    by (simp add: w_ring_eq opens_at_def masked_at_def)
  from waits [OF this w_grows w_waits(2)] have
    "follows w_cost 9 2 12 (\<lambda>s. True) [w_span 7 1, w_span 8 2, w_span 9 3] [({key_of (w_span 8 2)}, {}, 3)] w_turned
      0 \<lparr>tc_epoch = 9, tc_seq = 3\<rparr> [w_span 7 1, w_span 9 3] {} {}" by (simp add: masked_at_def)
  from meanwhile [OF this admits [OF unchanged], of "[w_span 1 1, w_span 2 2, w_span 3 3]"] have
    "follows w_cost 9 2 12 (\<lambda>s. True) [w_span 7 1, w_span 8 2, w_span 9 3, w_span 1 1, w_span 2 2, w_span 3 3] [({key_of (w_span 8 2)}, {}, 3)] w_far
      0 \<lparr>tc_epoch = 9, tc_seq = 3\<rparr> [w_span 7 1, w_span 9 3] {} {}" by (simp add: w_far_def)
  from reopens [OF this unchanged w_waits(3) unchanged w_waits(4)] show ?thesis
    by (simp add: w_far_eq opens_at_def masked_at_def atLeastLessThan_nat_numeral)
qed

theorem the_tail_reads_the_log_witness:
  "usable w_turned [w_span 7 1, w_span 8 2, w_span 9 3] \<lparr>tc_epoch = 9, tc_seq = 1\<rparr>
    \<and> (\<exists>q. ring_read w_turned (Some \<lparr>tc_epoch = 9, tc_seq = 1\<rparr>) 0 5 (\<lambda>s. True)
        = Batch (delivered (\<lambda>s. True) [({key_of (w_span 8 2)}, {}, 3)] [w_span 7 1, w_span 8 2, w_span 9 3] 1 q) \<lparr>tc_epoch = 9, tc_seq = of_nat q\<rparr>)
    \<and> ring_read w_turned (Some \<lparr>tc_epoch = 9, tc_seq = 0\<rparr>) 0 5 (\<lambda>s. True) = Gap (Some 1)"
proof -
  have u: "usable w_turned [w_span 7 1, w_span 8 2, w_span 9 3] \<lparr>tc_epoch = 9, tc_seq = 1\<rparr>"
    "\<not> usable w_turned [w_span 7 1, w_span 8 2, w_span 9 3] \<lparr>tc_epoch = 9, tc_seq = 0\<rparr>"
    by (simp_all add: usable_def w_turned_eq)
  note t = the_tail_reads_the_log [OF w_turned_tails w_fits, where backfill = 0 and limit = 5 and keep = "\<lambda>s. True"]
  show ?thesis
    using t [of "\<lparr>tc_epoch = 9, tc_seq = 1\<rparr>"] t [of "\<lparr>tc_epoch = 9, tc_seq = 0\<rparr>"] u by (auto simp: w_turned_eq)
qed

theorem a_subscriber_is_given_every_admission_once_witness:
  "\<exists>ps. [w_span 7 1, w_span 9 3, w_span 2 2, w_span 3 3]
      = map ((!) [w_span 7 1, w_span 8 2, w_span 9 3, w_span 1 1, w_span 2 2, w_span 3 3]) ps \<and> sorted_wrt (<) ps \<and> 3 \<notin> set ps"
proof -
  have "fits_u64 w_cost [w_span 7 1, w_span 8 2, w_span 9 3, w_span 1 1, w_span 2 2, w_span 3 3]" by (simp add: fits_u64_def w_cost_def)
  from a_subscriber_is_given_every_admission_once [OF w_follows this] show ?thesis by (elim exE conjE) (intro exI conjI; auto)
qed

theorem the_tail_ring_is_bounded_witness:
  "length (tr_entries w_turned) \<le> 2 \<and> map fst (tr_entries w_turned) = [w_span 8 2, w_span 9 3]
    \<and> tr_resident_bytes w_turned = sum_list (map w_cost [w_span 8 2, w_span 9 3])"
  using the_tail_ring_is_bounded [OF w_turned_tails w_fits] by (simp add: w_turned_eq)

end
