(* ===== verification/Sha256.thy ===== *)
theory Sha256
  imports Traza_Prelude
begin

text \<open>
  The engine's own SHA-256 (\<open>src/src/payload.rs\<close>): the constants, the compression of a block, the hasher that
  takes a message in pieces of any length, and its digest in hexadecimal. It is related to a direct reading of the
  standard: the message padded as a whole, the schedule by its recurrence.
\<close>

unbundle bit_operations_syntax

section \<open>Compression\<close>

definition SHA_K :: "u32 list" where
  "SHA_K =
     [0x428A2F98, 0x71374491, 0xB5C0FBCF, 0xE9B5DBA5, 0x3956C25B, 0x59F111F1, 0x923F82A4, 0xAB1C5ED5,
      0xD807AA98, 0x12835B01, 0x243185BE, 0x550C7DC3, 0x72BE5D74, 0x80DEB1FE, 0x9BDC06A7, 0xC19BF174,
      0xE49B69C1, 0xEFBE4786, 0x0FC19DC6, 0x240CA1CC, 0x2DE92C6F, 0x4A7484AA, 0x5CB0A9DC, 0x76F988DA,
      0x983E5152, 0xA831C66D, 0xB00327C8, 0xBF597FC7, 0xC6E00BF3, 0xD5A79147, 0x06CA6351, 0x14292967,
      0x27B70A85, 0x2E1B2138, 0x4D2C6DFC, 0x53380D13, 0x650A7354, 0x766A0ABB, 0x81C2C92E, 0x92722C85,
      0xA2BFE8A1, 0xA81A664B, 0xC24B8B70, 0xC76C51A3, 0xD192E819, 0xD6990624, 0xF40E3585, 0x106AA070,
      0x19A4C116, 0x1E376C08, 0x2748774C, 0x34B0BCB5, 0x391C0CB3, 0x4ED8AA4A, 0x5B9CCA4F, 0x682E6FF3,
      0x748F82EE, 0x78A5636F, 0x84C87814, 0x8CC70208, 0x90BEFFFA, 0xA4506CEB, 0xBEF9A3F7, 0xC67178F2]"

definition sha_initial :: "u32 list" where
  "sha_initial = [0x6A09E667, 0xBB67AE85, 0x3C6EF372, 0xA54FF53A, 0x510E527F, 0x9B05688C, 0x1F83D9AB, 0x5BE0CD19]"

definition be_u32 :: "bytes \<Rightarrow> u32" where
  "be_u32 bs = le_u32 (rev bs)"

definition small_sigma0 :: "u32 \<Rightarrow> u32" where
  "small_sigma0 w = word_rotr 7 w XOR word_rotr 18 w XOR drop_bit 3 w"

definition small_sigma1 :: "u32 \<Rightarrow> u32" where
  "small_sigma1 w = word_rotr 17 w XOR word_rotr 19 w XOR drop_bit 10 w"

text \<open>The array of 64 words: the block's sixteen, then one word at a time from the words before it.\<close>

definition schedule_word :: "u32 list \<Rightarrow> nat \<Rightarrow> u32 list" where
  "schedule_word schedule i =
     (let s0 = small_sigma0 (schedule ! (i - 15)); s1 = small_sigma1 (schedule ! (i - 2))
      in schedule[i := schedule ! (i - 16) + s0 + schedule ! (i - 7) + s1])"

definition schedule_of :: "bytes \<Rightarrow> u32 list" where
  "schedule_of block =
     foldl schedule_word (map (\<lambda>i. be_u32 (bytes_at (4 * i) 4 block)) [0..<16] @ replicate 48 0) [16..<64]"

definition sha_round :: "u32 list \<Rightarrow> u32 list \<Rightarrow> nat \<Rightarrow> u32 list" where
  "sha_round schedule st i =
     (case st of
        [a, b, c, d, e, f, g, h] \<Rightarrow>
          let s1 = word_rotr 6 e XOR word_rotr 11 e XOR word_rotr 25 e;
              ch = (e AND f) XOR (NOT e AND g);
              temp1 = h + s1 + ch + SHA_K ! i + schedule ! i;
              s0 = word_rotr 2 a XOR word_rotr 13 a XOR word_rotr 22 a;
              maj = (a AND b) XOR (a AND c) XOR (b AND c);
              temp2 = s0 + maj
          in [temp1 + temp2, a, b, c, d + temp1, e, f, g]
      | _ \<Rightarrow> st)"

definition sha_compress :: "u32 list \<Rightarrow> bytes \<Rightarrow> u32 list" where
  "sha_compress st block = map2 (+) st (foldl (sha_round (schedule_of block)) st [0..<64])"

section \<open>The hasher\<close>

record hasher =
  sh_state :: "u32 list"
  sh_pending :: bytes
  sh_pending_len :: nat
  sh_length :: u64

definition sha_new :: hasher where
  "sha_new = \<lparr>sh_state = sha_initial, sh_pending = replicate 64 0, sh_pending_len = 0, sh_length = 0\<rparr>"

text \<open>\<open>copy_from_slice\<close> into the array at an offset.\<close>

definition copy_at :: "nat \<Rightarrow> bytes \<Rightarrow> bytes \<Rightarrow> bytes" where
  "copy_at i bs array = take i array @ bs @ drop (i + length bs) array"

definition sha_blocks :: "bytes \<Rightarrow> hasher \<Rightarrow> hasher" where
  "sha_blocks bs s =
     (let rest = chunks_remainder 64 bs in
      s\<lparr>sh_state := foldl sha_compress (sh_state s) (chunks_exact 64 bs), sh_pending := copy_at 0 rest (sh_pending s),
        sh_pending_len := length rest\<rparr>)"

definition sha_update :: "bytes \<Rightarrow> hasher \<Rightarrow> hasher" where
  "sha_update bs s =
     (let s = s\<lparr>sh_length := sh_length s + of_nat (length bs)\<rparr> in
      if sh_pending_len s > 0 then
        let taken = min (64 - sh_pending_len s) (length bs);
            s = s\<lparr>sh_pending := copy_at (sh_pending_len s) (take taken bs) (sh_pending s),
                  sh_pending_len := sh_pending_len s + taken\<rparr>;
            bs = drop taken bs
        in if sh_pending_len s = 64
           then sha_blocks bs (s\<lparr>sh_state := sha_compress (sh_state s) (sh_pending s), sh_pending_len := 0\<rparr>)
           else s
      else sha_blocks bs s)"

function pad_zeros :: "bytes \<Rightarrow> bytes" where
  "pad_zeros tail = (if length tail mod 64 = 56 then tail else pad_zeros (tail @ [0]))"
  by pat_completeness auto
termination
proof (relation "measure (\<lambda>tail. (120 - length tail mod 64) mod 64)")
  fix tail :: bytes
  assume "length tail mod 64 \<noteq> 56"
  moreover have "length (tail @ [0]) mod 64 = (if length tail mod 64 = 63 then 0 else length tail mod 64 + 1)"
    by (simp add: mod_Suc)
  moreover have "length tail mod 64 < 64" by simp
  moreover have "(120 - m) mod 64 = (if m \<le> 56 then 56 - m else 120 - m)" if "m < 64" for m :: nat
    using that by (simp add: mod_if)
  ultimately show "(tail @ [0], tail) \<in> measure (\<lambda>tail. (120 - length tail mod 64) mod 64)" by (auto split: if_splits)
qed simp

declare pad_zeros.simps [simp del]

definition hex_digit :: "nat \<Rightarrow> 8 word" where
  "hex_digit n = (if n < 10 then of_nat (48 + n) else of_nat (87 + n))"

definition hex_word :: "u32 \<Rightarrow> bytes" where
  "hex_word w = map (\<lambda>i. hex_digit (unat (drop_bit (28 - 4 * i) w AND 0xF))) [0..<8]"

definition sha_finalize_hex :: "hasher \<Rightarrow> bytes" where
  "sha_finalize_hex s =
     (let bit_length = sh_length s * 8;
          tail = pad_zeros (take (sh_pending_len s) (sh_pending s) @ [0x80]) @ rev (u64_le bit_length)
      in concat (map hex_word (foldl sha_compress (sh_state s) (chunks_exact 64 tail))))"

definition sha256_hex :: "bytes \<Rightarrow> bytes" where
  "sha256_hex bs = sha_finalize_hex (sha_update bs sha_new)"

text \<open>\<open>sha256_file\<close> and \<open>sha256_prefix\<close>: the reads of a file, whatever lengths the system returns them in.\<close>

definition sha256_reads :: "bytes list \<Rightarrow> bytes" where
  "sha256_reads reads = sha_finalize_hex (fold sha_update reads sha_new)"

section \<open>The standard\<close>

text \<open>The schedule by its recurrence, and the padded message.\<close>

function sha_W :: "bytes \<Rightarrow> nat \<Rightarrow> u32" where
  "sha_W block t =
     (if t < 16 then be_u32 (bytes_at (4 * t) 4 block)
      else small_sigma1 (sha_W block (t - 2)) + sha_W block (t - 7) + small_sigma0 (sha_W block (t - 15)) + sha_W block (t - 16))"
  by pat_completeness auto
termination
  by (relation "measure (\<lambda>(block, t). t)") auto

declare sha_W.simps [simp del]

definition sha_compression :: "u32 list \<Rightarrow> bytes \<Rightarrow> u32 list" where
  "sha_compression st block = map2 (+) st (foldl (sha_round (map (sha_W block) [0..<64])) st [0..<64])"

definition sha_padded :: "bytes \<Rightarrow> bytes" where
  "sha_padded m = m @ [0x80] @ replicate ((119 - length m mod 64) mod 64) 0 @ rev (u64_le (of_nat (8 * length m)))"

definition sha256_standard :: "bytes \<Rightarrow> bytes" where
  "sha256_standard m = concat (map hex_word (foldl sha_compression sha_initial (chunks_exact 64 (sha_padded m))))"

section \<open>The schedule is the recurrence\<close>

lemma schedule_prefix:
  "n \<le> 48 \<Longrightarrow> foldl schedule_word (map (\<lambda>i. be_u32 (bytes_at (4 * i) 4 block)) [0..<16] @ replicate 48 0) [16..<16 + n]
    = map (sha_W block) [0..<16 + n] @ replicate (48 - n) 0"
proof (induction n)
  case 0
  have "map (\<lambda>i. be_u32 (bytes_at (4 * i) 4 block)) [0..<16] = map (sha_W block) [0..<16]"
    by (rule map_cong) (simp_all add: sha_W.simps)
  then show ?case by simp
next
  case (Suc n)
  let ?S = "map (sha_W block) [0..<16 + n] @ replicate (48 - n) 0"
  have at: "?S ! j = sha_W block j" if "j < 16 + n" for j
    using that by (simp add: nth_append nth_map_upt)
  have "replicate (48 - n) (0 :: u32) = 0 # replicate (48 - Suc n) 0"
    using Suc.prems by (metis Suc_diff_le diff_Suc_Suc replicate_Suc)
  then have upd: "?S[16 + n := w] = map (sha_W block) [0..<16 + n] @ w # replicate (48 - Suc n) 0" for w
    by (simp add: list_update_append)
  have w: "sha_W block (16 + n) = small_sigma1 (sha_W block (14 + n)) + sha_W block (9 + n) + small_sigma0 (sha_W block (1 + n)) + sha_W block n"
    by (subst sha_W.simps) (simp add: numeral_eq_Suc)
  have "schedule_word ?S (16 + n) = map (sha_W block) [0..<16 + n] @ sha_W block (16 + n) # replicate (48 - Suc n) 0"
    unfolding schedule_word_def Let_def upd w
    using at [of n] at [of "1 + n"] at [of "9 + n"] at [of "14 + n"] by (simp add: algebra_simps)
  moreover have "[16..<16 + Suc n] = [16..<16 + n] @ [16 + n]" unfolding add_Suc_right by (rule upt_Suc_append) simp
  moreover have "map (sha_W block) [0..<16 + Suc n] = map (sha_W block) [0..<16 + n] @ [sha_W block (16 + n)]"
    unfolding add_Suc_right by (subst upt_Suc_append) simp_all
  moreover have "foldl schedule_word (map (\<lambda>i. be_u32 (bytes_at (4 * i) 4 block)) [0..<16] @ replicate 48 0) [16..<16 + n] = ?S"
    using Suc by simp
  ultimately show ?case by (simp only: foldl_append foldl.simps append_assoc append_Cons append_Nil)
qed

lemma schedule_is_W: "schedule_of block = map (sha_W block) [0..<64]"
  using schedule_prefix [of 48 block] by (simp add: schedule_of_def)

lemma compress_standard: "sha_compress st block = sha_compression st block"
  by (simp add: sha_compress_def sha_compression_def schedule_is_W)

section \<open>Pieces make no difference\<close>

lemma pad_zeros_replicate: "pad_zeros bs = bs @ replicate ((120 - length bs mod 64) mod 64) 0"
proof (induction bs rule: pad_zeros.induct)
  case (1 bs)
  show ?case
  proof (cases "length bs mod 64 = 56")
    case True
    then show ?thesis by (simp add: pad_zeros.simps [of bs])
  next
    case False
    have "length (bs @ [0]) mod 64 = (if length bs mod 64 = 63 then 0 else length bs mod 64 + 1)" by (simp add: mod_Suc)
    moreover have "length bs mod 64 < 64" by simp
    moreover have "(120 - m) mod 64 = (if m \<le> 56 then 56 - m else 120 - m)" if "m < 64" for m :: nat
      using that by (simp add: mod_if)
    ultimately have n: "(120 - length bs mod 64) mod 64 = Suc ((120 - length (bs @ [0]) mod 64) mod 64)"
      using False by (auto split: if_splits)
    have "pad_zeros bs = pad_zeros (bs @ [0])" using False by (subst pad_zeros.simps) simp
    then show ?thesis using 1 [OF False] by (simp only: n replicate_Suc append_assoc append_Cons append_Nil)
  qed
qed

lemma remainder_length: "length (chunks_remainder 64 m) = length m mod 64"
  by (simp add: chunks_remainder_def)

text \<open>What the hasher holds after the messages so far: the whole blocks absorbed, the rest pending.\<close>

definition absorbed :: "bytes \<Rightarrow> hasher \<Rightarrow> bool" where
  "absorbed m s \<longleftrightarrow>
     sh_state s = foldl sha_compress sha_initial (chunks_exact 64 m) \<and> length (sh_pending s) = 64
     \<and> sh_pending_len s = length m mod 64 \<and> take (sh_pending_len s) (sh_pending s) = chunks_remainder 64 m
     \<and> sh_length s = of_nat (length m)"

lemma absorbedD:
  assumes "absorbed m s"
  shows "sh_state s = foldl sha_compress sha_initial (chunks_exact 64 m)" "length (sh_pending s) = 64"
    "sh_pending_len s = length (chunks_remainder 64 m)" "take (sh_pending_len s) (sh_pending s) = chunks_remainder 64 m"
    "sh_length s = of_nat (length m)"
  using assms [unfolded absorbed_def] by (elim conjE, simp only: remainder_length)+

lemma sha_new_absorbed: "absorbed [] sha_new"
  by (simp add: absorbed_def sha_new_def chunks_exact_short chunks_remainder_short)

lemma copied: "i + length bs \<le> length array \<Longrightarrow> take (i + length bs) (copy_at i bs array) = take i array @ bs"
  by (simp add: copy_at_def)

lemma length_copy_at: "i + length bs \<le> length array \<Longrightarrow> length (copy_at i bs array) = length array"
  by (simp add: copy_at_def)

text \<open>Appending to a message: the rest of it and what is appended make the new blocks.\<close>

lemma chunks_append:
  fixes m :: "'a list"
  shows "chunks_exact 64 (m @ bs) = chunks_exact 64 m @ chunks_exact 64 (chunks_remainder 64 m @ bs)"
    and "chunks_remainder 64 (m @ bs) = chunks_remainder 64 (chunks_remainder 64 m @ bs)"
proof (induction m rule: chunk_induct [of 64])
  case (2 m)
  {
    case 1
    then show ?case using 2 by (simp add: chunks_exact_short chunks_remainder_short)
  next
    case 2
    then show ?case using \<open>length m < 64\<close> by (simp add: chunks_exact_short chunks_remainder_short)
  }
next
  case (3 c m)
  {
    case 1
    then show ?case using 3 by (simp add: chunks_exact_append chunks_remainder_append)
  next
    case 2
    then show ?case using 3 by (simp add: chunks_exact_append chunks_remainder_append)
  }
qed simp

lemma blocks_absorbed:
  assumes "sh_state s = foldl sha_compress sha_initial (chunks_exact 64 m)" and "chunks_remainder 64 m = []" and "length (sh_pending s) = 64"
    and "sh_length s = of_nat (length (m @ bs))"
  shows "absorbed (m @ bs) (sha_blocks bs s)"
proof -
  have c: "chunks_exact 64 (m @ bs) = chunks_exact 64 m @ chunks_exact 64 bs" "chunks_remainder 64 (m @ bs) = chunks_remainder 64 bs"
    using chunks_append [of m bs] assms(2) by simp_all
  have r: "length (chunks_remainder 64 bs) \<le> 64" by (simp add: remainder_length less_imp_le)
  have "length (m @ bs) mod 64 = length (chunks_remainder 64 bs)" using c(2) remainder_length by metis
  then show ?thesis
    using assms c r copied [of 0 "chunks_remainder 64 bs" "sh_pending s"]
    by (simp add: absorbed_def sha_blocks_def Let_def length_copy_at)
qed

lemma update_absorbed:
  assumes "absorbed m s"
  shows "absorbed (m @ bs) (sha_update bs s)"
proof -
  note A = absorbedD [OF assms]
  define s1 where "s1 = s\<lparr>sh_length := sh_length s + of_nat (length bs)\<rparr>"
  have s1: "sh_state s1 = sh_state s" "sh_pending s1 = sh_pending s" "sh_pending_len s1 = sh_pending_len s" "sh_length s1 = of_nat (length (m @ bs))"
    using A(5) by (simp_all add: s1_def)
  show ?thesis
  proof (cases "sh_pending_len s > 0")
    case False
    then have "chunks_remainder 64 m = []" using A(3) by simp
    then have "absorbed (m @ bs) (sha_blocks bs s1)" by (intro blocks_absorbed) (use A s1 in simp_all)
    then show ?thesis using False by (simp add: sha_update_def Let_def s1_def)
  next
    case True
    let ?n = "sh_pending_len s" and ?rem = "chunks_remainder 64 m"
    let ?taken = "min (64 - ?n) (length bs)"
    have n: "?n < 64" "length ?rem = ?n" using A(3) by (simp_all add: remainder_length)
    define s2 where "s2 = s1\<lparr>sh_pending := copy_at ?n (take ?taken bs) (sh_pending s), sh_pending_len := ?n + ?taken\<rparr>"
    have p: "length (sh_pending s2) = 64" "take (?n + ?taken) (sh_pending s2) = ?rem @ take ?taken bs"
      using copied [of ?n "take ?taken bs" "sh_pending s"] length_copy_at [of ?n "take ?taken bs" "sh_pending s"] A(2) n(1)
      by (simp_all add: s2_def A(4))
    have u: "sha_update bs s = (if ?n + ?taken = 64 then sha_blocks (drop ?taken bs) (s2\<lparr>sh_state := sha_compress (sh_state s2) (sh_pending s2), sh_pending_len := 0\<rparr>) else s2)"
      using True by (simp add: sha_update_def Let_def s1_def s2_def)
    show ?thesis
    proof (cases "?n + ?taken = 64")
      case full: True
      let ?m = "m @ take ?taken bs"
      have block: "sh_pending s2 = ?rem @ take ?taken bs" using p full by simp
      have len: "length (?rem @ take ?taken bs) = 64" using p(1) block by simp
      have "chunks_exact 64 (?rem @ take ?taken bs) = [?rem @ take ?taken bs]" "chunks_remainder 64 (?rem @ take ?taken bs) = []"
        using chunks_exact_append [OF _ len, of "[]"] chunks_remainder_append [OF _ len, of "[]"]
        by (simp_all add: chunks_exact_short chunks_remainder_short)
      then have m: "chunks_exact 64 ?m = chunks_exact 64 m @ [sh_pending s2]" "chunks_remainder 64 ?m = []"
        using chunks_append [of m "take ?taken bs"] block by simp_all
      have "absorbed (?m @ drop ?taken bs) (sha_blocks (drop ?taken bs) (s2\<lparr>sh_state := sha_compress (sh_state s2) (sh_pending s2), sh_pending_len := 0\<rparr>))"
        by (rule blocks_absorbed) (use A m p s1 in \<open>simp_all add: s2_def\<close>)
      then show ?thesis using full u by simp
    next
      case False
      then have t: "?taken = length bs" "?n + length bs < 64" using n by auto
      have short: "chunks_exact 64 (?rem @ bs) = []" "chunks_remainder 64 (?rem @ bs) = ?rem @ bs"
        using t n by (simp_all add: chunks_exact_short chunks_remainder_short)
      have len: "length (m @ bs) mod 64 = ?n + length bs" using remainder_length [of "m @ bs"] chunks_append(2) [of m bs] short(2) n(2) by simp
      have "sh_state s2 = foldl sha_compress sha_initial (chunks_exact 64 (m @ bs))" using A s1(1) chunks_append(1) [of m bs] short(1) by (simp add: s2_def)
      moreover have "sh_pending_len s2 = ?n + length bs" "sh_length s2 = of_nat (length (m @ bs))" using t(1) s1(4) by (simp_all add: s2_def)
      moreover have "take (?n + length bs) (sh_pending s2) = chunks_remainder 64 (m @ bs)"
        using p(2) chunks_append(2) [of m bs] short(2) unfolding t(1) by simp
      ultimately have "absorbed (m @ bs) s2" using p(1) len unfolding absorbed_def by simp
      then show ?thesis unfolding u using False by (simp only: if_False)
    qed
  qed
qed

lemma updates_absorbed: "absorbed m s \<Longrightarrow> absorbed (m @ concat reads) (fold sha_update reads s)"
proof (induction reads arbitrary: m s)
  case (Cons bs reads)
  show ?case using Cons.IH [OF update_absorbed [OF Cons.prems], of bs] by simp
qed simp

lemma finalize_absorbed:
  assumes "absorbed m s"
  shows "sha_finalize_hex s = sha256_standard m"
proof -
  note A = absorbedD [OF assms]
  let ?rem = "chunks_remainder 64 m"
  let ?tail = "?rem @ [0x80] @ replicate ((119 - length m mod 64) mod 64) 0 @ rev (u64_le (of_nat (8 * length m)))"
  have "length (?rem @ [0x80]) mod 64 = (if length m mod 64 = 63 then 0 else length m mod 64 + 1)"
    by (simp add: remainder_length mod_Suc)
  then have z: "(120 - length (?rem @ [0x80]) mod 64) mod 64 = (119 - length m mod 64) mod 64"
    by (cases "length m mod 64 = 63") (simp_all del: length_append)
  have l: "sh_length s * 8 = of_nat (8 * length m)" using A by simp
  have tail: "pad_zeros (take (sh_pending_len s) (sh_pending s) @ [0x80]) @ rev (u64_le (sh_length s * 8)) = ?tail"
    unfolding l pad_zeros_replicate z [symmetric] using A by simp
  have "sha_padded m = m @ drop (length ?rem) ?tail" by (simp add: sha_padded_def)
  then have "chunks_exact 64 (sha_padded m) = chunks_exact 64 m @ chunks_exact 64 ?tail"
    using chunks_append(1) [of m] by simp
  moreover have "sha_compression = sha_compress" by (simp add: fun_eq_iff compress_standard)
  ultimately show ?thesis unfolding sha_finalize_hex_def Let_def tail sha256_standard_def by (simp only: foldl_append A(1))
qed

text \<open>C10: the hasher computes SHA-256. However a message is cut into pieces, empty ones included, the digest of the
  pieces is that of the whole message by the standard: padded once, its schedule by the recurrence.\<close>

theorem pieces_hash_as_the_whole:
  "sha256_reads reads = sha256_standard (concat reads) \<and> sha256_hex (concat reads) = sha256_standard (concat reads)"
  using finalize_absorbed [OF updates_absorbed [OF sha_new_absorbed, of reads]]
    finalize_absorbed [OF update_absorbed [OF sha_new_absorbed, of "concat reads"]]
  by (simp add: sha256_reads_def sha256_hex_def)

lemma length_sha256: "length (sha256_standard m) = 64"
proof -
  have "length (foldl sha_compression st bs) = length st" if "length st = 8" for st bs
    using that
  proof (induction bs arbitrary: st)
    case (Cons b bs)
    have "length (foldl (sha_round w) st js) = length st" for w st js
      by (induction js arbitrary: st) (auto simp: sha_round_def Let_def split: list.split)
    then have "length (sha_compression st b) = length st" by (simp add: sha_compression_def)
    then show ?case using Cons by simp
  qed simp
  then have "length (foldl sha_compression sha_initial bs) = 8" for bs by (simp add: sha_initial_def)
  then show ?thesis by (simp add: sha256_standard_def length_concat hex_word_def comp_def sum_list_triv)
qed

end
