(* ===== verification/Payload.thy ===== *)
theory Payload
  imports Sha256 Segment_Index Write_Buffer
begin

text \<open>
  Payload offloading (\<open>src/src/payload.rs\<close>): the framed blob files, the content-addressed directory they live
  in, the replacement of long attribute values by references, and the sweep of files no live span refers to.
  The directory is the map of its files' relative paths to their bytes and modification times; the registry of
  touched references maps a reference to the time of its last touch.
\<close>

section \<open>Blob files\<close>

definition BLOB_MAGIC :: bytes where
  "BLOB_MAGIC = ascii ''TRZBLOB1''"

definition BLOB_HEADER_LEN :: nat where
  "BLOB_HEADER_LEN = 24"

definition encode_blob :: "(bytes \<Rightarrow> bytes) \<Rightarrow> bytes \<Rightarrow> bytes" where
  "encode_blob compress content_bytes =
     (let compressed = compress content_bytes;
          (codec, body) = (if length compressed < length content_bytes then (1 :: u32, compressed) else (0, content_bytes))
      in BLOB_MAGIC @ u32_le codec @ u64_le (of_nat (length content_bytes)) @ u32_le (crc32 body) @ body)"

datatype payload_error = Blob_corrupt string | Blob_codec u32 | Payload_io

definition decode_blob :: "(bytes \<Rightarrow> nat \<Rightarrow> bytes option) \<Rightarrow> bytes \<Rightarrow> payload_error + bytes" where
  "decode_blob decompress bs =
     (if length bs < BLOB_HEADER_LEN then Inl (Blob_corrupt ''shorter than the blob header'')
      else if take 8 bs \<noteq> BLOB_MAGIC then Inl (Blob_corrupt ''bad blob magic'')
      else
        let codec = le_u32 (bytes_at 8 4 bs); uncompressed = unat (le_u64 (bytes_at 12 8 bs));
            declared_crc = le_u32 (bytes_at 20 4 bs); body = drop BLOB_HEADER_LEN bs in
        if crc32 body \<noteq> declared_crc then Inl (Blob_corrupt ''body crc32 mismatch'')
        else
          and_then
            (if codec = 0 then Inr body
             else if codec = 1 then
               if uncompressed > length body * 256 + 64
               then Inl (Blob_corrupt ''uncompressed length exceeds what lz4 can decode from the body'')
               else case decompress body uncompressed of
                      None \<Rightarrow> Inl (Blob_corrupt ''body does not decompress'')
                    | Some decoded \<Rightarrow> Inr decoded
             else Inl (Blob_codec codec))
            (\<lambda>decoded. if length decoded \<noteq> uncompressed then Inl (Blob_corrupt ''body decodes to the wrong length'')
                       else Inr decoded))"

section \<open>The directory\<close>

record payload_store =
  ps_files :: "bytes \<rightharpoonup> bytes \<times> nat"
  ps_touched :: "bytes \<rightharpoonup> nat"

definition payload_path :: "bytes \<Rightarrow> bytes" where
  "payload_path hash = (if length hash \<ge> 2 then take 2 hash else ascii ''00'') @ [47] @ hash @ ascii ''.bin''"

definition reference_of :: "bytes \<Rightarrow> bytes" where
  "reference_of hash = ascii ''sha256/'' @ hash"

text \<open>\<open>chars().take(n)\<close>: the bytes before the character after the last one taken.\<close>

fun take_chars :: "nat \<Rightarrow> bytes \<Rightarrow> bytes" where
  "take_chars n [] = []"
| "take_chars n (b # bs) =
     (if b AND 0xC0 = 0x80 then b # take_chars n bs
      else case n of 0 \<Rightarrow> [] | Suc m \<Rightarrow> b # take_chars m bs)"

definition PREVIEW_CHARS :: nat where
  "PREVIEW_CHARS = 256"

definition reference_object :: "bytes \<Rightarrow> bytes \<Rightarrow> json" where
  "reference_object hash text_bytes =
     JObject [(PAYLOAD_KEY, JString (reference_of hash)), (ascii ''bytes'', JNumber (PosInt (of_nat (length text_bytes)))),
              (ascii ''preview'', JString (take_chars PREVIEW_CHARS text_bytes))]"

definition redacted_object :: "bytes \<Rightarrow> bytes \<Rightarrow> json" where
  "redacted_object hash text_bytes =
     JObject [(PAYLOAD_KEY, JString (reference_of hash)), (ascii ''bytes'', JNumber (PosInt (of_nat (length text_bytes)))),
              (ascii ''erased'', JBool True)]"

text \<open>\<open>store_payload\<close>; \<open>writes\<close> says whether the creation, the write, the sync and the rename succeed.\<close>

definition touch :: "nat \<Rightarrow> bytes \<Rightarrow> payload_store \<Rightarrow> payload_store" where
  "touch now reference d = d\<lparr>ps_touched := (ps_touched d)(reference \<mapsto> now)\<rparr>"

definition write_blob :: "(bytes \<Rightarrow> bytes) \<Rightarrow> nat \<Rightarrow> bytes \<Rightarrow> payload_store \<Rightarrow> payload_store" where
  "write_blob compress now text_bytes d =
     d\<lparr>ps_files := (ps_files d)(payload_path (sha256_hex text_bytes) \<mapsto> (encode_blob compress text_bytes, now))\<rparr>"

definition store_payload ::
  "(bytes \<Rightarrow> bytes) \<Rightarrow> nat \<Rightarrow> bool \<Rightarrow> bytes \<Rightarrow> payload_store \<Rightarrow> (payload_error + json) \<times> payload_store" where
  "store_payload compress now writes text_bytes d =
     (let hash = sha256_hex text_bytes;
          d = touch now (reference_of hash) d
      in if ps_files d (payload_path hash) \<noteq> None then (Inr (reference_object hash text_bytes), d)
         else if writes then (Inr (reference_object hash text_bytes), write_blob compress now text_bytes d)
         else (Inl Payload_io, d))"

definition is_hex_digit :: "u8 \<Rightarrow> bool" where
  "is_hex_digit b \<longleftrightarrow> 48 \<le> b \<and> b \<le> 57 \<or> 97 \<le> b \<and> b \<le> 102 \<or> 65 \<le> b \<and> b \<le> 70"

definition load_payload :: "(bytes \<Rightarrow> nat \<Rightarrow> bytes option) \<Rightarrow> payload_store \<Rightarrow> bytes \<Rightarrow> payload_error + bytes option" where
  "load_payload decompress d reference =
     (if take 7 reference \<noteq> ascii ''sha256/'' then Inr None
      else
        let hash = drop 7 reference in
        if length hash \<noteq> 64 \<or> \<not> list_all is_hex_digit hash then Inr None
        else case ps_files d (payload_path hash) of
               None \<Rightarrow> Inr None
             | Some (bs, modified) \<Rightarrow> and_then (decode_blob decompress bs) (\<lambda>decoded. Inr (Some decoded)))"

section \<open>Offloading\<close>

fun offload_map ::
  "(bytes \<Rightarrow> bytes) \<Rightarrow> nat \<Rightarrow> bool \<Rightarrow> nat \<Rightarrow> bytes set option \<Rightarrow> json_map \<Rightarrow> payload_store \<Rightarrow> (payload_error + json_map) \<times> payload_store" where
  "offload_map compress now writes threshold masked [] d = (Inr [], d)"
| "offload_map compress now writes threshold masked ((key, v) # attrs) d =
     (let keep = (\<lambda>v d. case offload_map compress now writes threshold masked attrs d of
                          (Inr rest, d) \<Rightarrow> (Inr ((key, v) # rest), d)
                        | (Inl e, d) \<Rightarrow> (Inl e, d))
      in case v of
           JString text_bytes \<Rightarrow>
             if length text_bytes > threshold then
               if (case masked of None \<Rightarrow> False | Some hidden \<Rightarrow> reference_of (sha256_hex text_bytes) \<in> hidden)
               then keep (redacted_object (sha256_hex text_bytes) text_bytes) d
               else case store_payload compress now writes text_bytes d of
                      (Inl e, d) \<Rightarrow> (Inl e, d)
                    | (Inr object, d) \<Rightarrow> keep object d
             else keep v d
         | _ \<Rightarrow> keep v d)"

text \<open>\<open>payload_maps_mut\<close> (\<open>lib.rs\<close>): the span with its attribute maps rewritten, in the order \<open>payload_maps\<close> lists them.\<close>

definition with_payload_maps :: "json_map list \<Rightarrow> span \<Rightarrow> span" where
  "with_payload_maps maps s =
     s\<lparr>attributes := hd maps,
       events := map (\<lambda>(e, attrs). e\<lparr>event_attributes := attrs\<rparr>) (zip (events s) (take (length (events s)) (tl maps))),
       links := map (\<lambda>(l, attrs). l\<lparr>link_attributes := attrs\<rparr>) (zip (links s) (drop (length (events s)) (tl maps)))\<rparr>"

fun offload_maps ::
  "(bytes \<Rightarrow> bytes) \<Rightarrow> nat \<Rightarrow> bool \<Rightarrow> nat \<Rightarrow> bytes set option \<Rightarrow> json_map list \<Rightarrow> payload_store \<Rightarrow> (payload_error + json_map list) \<times> payload_store" where
  "offload_maps compress now writes threshold masked [] d = (Inr [], d)"
| "offload_maps compress now writes threshold masked (attrs # maps) d =
     (case offload_map compress now writes threshold masked attrs d of
        (Inl e, d) \<Rightarrow> (Inl e, d)
      | (Inr attrs, d) \<Rightarrow>
          (case offload_maps compress now writes threshold masked maps d of
             (Inl e, d) \<Rightarrow> (Inl e, d)
           | (Inr maps, d) \<Rightarrow> (Inr (attrs # maps), d)))"

definition offload_span ::
  "(bytes \<Rightarrow> bytes) \<Rightarrow> nat \<Rightarrow> bool \<Rightarrow> nat \<Rightarrow> bytes set option \<Rightarrow> span \<Rightarrow> payload_store \<Rightarrow> (payload_error + span) \<times> payload_store" where
  "offload_span compress now writes threshold masked s d =
     (case offload_maps compress now writes threshold masked (payload_maps s) d of
        (Inl e, d) \<Rightarrow> (Inl e, d)
      | (Inr maps, d) \<Rightarrow> (Inr (with_payload_maps maps s), d))"

section \<open>The sweep\<close>

definition TOUCH_IMMUNITY :: nat where
  "TOUCH_IMMUNITY = 600 * 10 ^ 9"

definition prune_touch_registry :: "nat \<Rightarrow> payload_store \<Rightarrow> payload_store" where
  "prune_touch_registry now d =
     d\<lparr>ps_touched := (\<lambda>r. case ps_touched d r of
                             Some at \<Rightarrow> if now - at < TOUCH_IMMUNITY then Some at else None
                           | None \<Rightarrow> None)\<rparr>"

definition file_stem :: "bytes \<Rightarrow> bytes" where
  "file_stem path =
     (let file = rev (takeWhile (\<lambda>b. b \<noteq> 47) (rev path)) in
      if 46 \<in> set (tl file) then rev (tl (dropWhile (\<lambda>b. b \<noteq> 46) (rev file))) else file)"

text \<open>One entry of the directory walk: the last check and the removal are under the registry's lock.\<close>

definition sweep_entry :: "nat \<Rightarrow> bytes set \<Rightarrow> bytes \<Rightarrow> payload_store \<Rightarrow> payload_store" where
  "sweep_entry cutoff live path d =
     (case ps_files d path of
        None \<Rightarrow> d
      | Some (bs, modified) \<Rightarrow>
          let reference = reference_of (file_stem path) in
          if modified < cutoff \<and> reference \<notin> live
          then if ps_touched d reference = None then d\<lparr>ps_files := (ps_files d)(path := None)\<rparr> else d
          else d)"

definition sweep_expired :: "nat \<Rightarrow> nat \<Rightarrow> bytes set \<Rightarrow> bytes list \<Rightarrow> payload_store \<Rightarrow> payload_store" where
  "sweep_expired now cutoff live entries d = fold (sweep_entry cutoff live) entries (prune_touch_registry now d)"

section \<open>Blobs round trip\<close>

lemma length_BLOB_MAGIC [simp]: "length BLOB_MAGIC = 8"
  by (simp add: BLOB_MAGIC_def)

lemma decode_framed:
  "decode_blob decompress (BLOB_MAGIC @ u32_le codec @ u64_le n @ u32_le crc @ body)
    = (if crc32 body \<noteq> crc then Inl (Blob_corrupt ''body crc32 mismatch'')
       else and_then
            (if codec = 0 then Inr body
             else if codec = 1 then
               if unat n > length body * 256 + 64
               then Inl (Blob_corrupt ''uncompressed length exceeds what lz4 can decode from the body'')
               else case decompress body (unat n) of
                      None \<Rightarrow> Inl (Blob_corrupt ''body does not decompress'')
                    | Some decoded \<Rightarrow> Inr decoded
             else Inl (Blob_codec codec))
            (\<lambda>decoded. if length decoded \<noteq> unat n then Inl (Blob_corrupt ''body decodes to the wrong length'')
                       else Inr decoded))"
proof -
  let ?bs = "BLOB_MAGIC @ u32_le codec @ u64_le n @ u32_le crc @ body"
  have d: "drop 8 ?bs = u32_le codec @ u64_le n @ u32_le crc @ body"
    "drop 12 ?bs = u64_le n @ u32_le crc @ body" "drop 20 ?bs = u32_le crc @ body" "drop 24 ?bs = body"
    by simp_all
  have "bytes_at 8 4 ?bs = u32_le codec" "bytes_at 12 8 ?bs = u64_le n" "bytes_at 20 4 ?bs = u32_le crc"
    unfolding bytes_at_def d by simp_all
  then show ?thesis unfolding decode_blob_def by (simp add: Let_def BLOB_HEADER_LEN_def)
qed

text \<open>A blob file decodes to the bytes it was written for, compressed or not.\<close>

theorem blobs_round_trip:
  assumes "lz4_block compress decompress" and "length bs < 2 ^ 64"
  shows "decode_blob decompress (encode_blob compress bs) = Inr bs"
proof -
  have n: "unat (of_nat (length bs) :: u64) = length bs" using assms(2) by (simp add: unat_of_nat_u64)
  have "decompress (compress bs) (length bs) = Some bs" "\<not> length (compress bs) * 256 + 64 < length bs"
    using assms(1) unfolding lz4_block_def by (simp_all add: not_less mult.commute)
  then show ?thesis by (simp add: encode_blob_def Let_def decode_framed n)
qed

theorem blobs_round_trip_witness:
  "decode_blob rle_decompress (encode_blob rle_compress (replicate 20 0)) = Inr (replicate 20 0)"
  by (rule blobs_round_trip [OF rle_block]) simp

text \<open>A blob damaged within four consecutive bytes of its body is refused, whatever its codec.\<close>

theorem damaged_blobs_are_refused:
  assumes "encode_blob compress bs = header @ p @ original @ s" and "length header = BLOB_HEADER_LEN"
    and "length damaged = length original" and "length original \<le> 4" and "damaged \<noteq> original"
  shows "decode_blob decompress (header @ p @ damaged @ s) = Inl (Blob_corrupt ''body crc32 mismatch'')"
proof -
  obtain codec body where e: "encode_blob compress bs = (BLOB_MAGIC @ u32_le codec @ u64_le (of_nat (length bs)) @ u32_le (crc32 body)) @ body"
    by (cases "length (compress bs) < length bs") (auto simp: encode_blob_def Let_def)
  have h: "header = BLOB_MAGIC @ u32_le codec @ u64_le (of_nat (length bs)) @ u32_le (crc32 body)" and b: "body = p @ original @ s"
  proof -
    have "length (BLOB_MAGIC @ u32_le codec @ u64_le (of_nat (length bs)) @ u32_le (crc32 body)) = length header"
      using assms(2) by (simp add: BLOB_HEADER_LEN_def)
    from append_eq_append_conv [OF disjI1 [OF this]] show
      "header = BLOB_MAGIC @ u32_le codec @ u64_le (of_nat (length bs)) @ u32_le (crc32 body)" "body = p @ original @ s"
      using assms(1) unfolding e by blast+
  qed
  have "crc32 (p @ damaged @ s) \<noteq> crc32 body" unfolding b using assms(3-5) by (intro crc32_burst) simp_all
  then show ?thesis unfolding h by (simp add: decode_framed)
qed

lemma w_blob: "encode_blob rle_compress [1, 2, 3]
    = (BLOB_MAGIC @ u32_le 0 @ u64_le 3 @ u32_le (crc32 [1, 2, 3])) @ [1] @ [2] @ [3]"
proof -
  have "[1, 2, 3] \<noteq> (replicate 20 0 :: bytes)" by (auto dest: arg_cong [of _ _ length])
  then show ?thesis by (simp add: encode_blob_def rle_compress_def Let_def)
qed

theorem damaged_blobs_are_refused_witness:
  "decode_blob rle_decompress ((BLOB_MAGIC @ u32_le 0 @ u64_le 3 @ u32_le (crc32 [1, 2, 3])) @ [1] @ [7] @ [3])
    = Inl (Blob_corrupt ''body crc32 mismatch'')"
  by (rule damaged_blobs_are_refused [OF w_blob]) (simp_all add: BLOB_HEADER_LEN_def)

section \<open>References\<close>

lemma hex_digit_ok: "n < 16 \<Longrightarrow> is_hex_digit (hex_digit n)"
proof -
  have "list_all (\<lambda>n. is_hex_digit (hex_digit n)) [0..<16]" by (simp add: hex_digit_def is_hex_digit_def upt_rec)
  then show "n < 16 \<Longrightarrow> is_hex_digit (hex_digit n)" by (simp add: list_all_iff)
qed

lemma hex_word_ok: "list_all is_hex_digit (hex_word w)"
proof -
  have "unat (v AND 0xF) < 16" for v :: u32
  proof -
    have "v AND 0xF \<le> 0xF" by (rule word_and_le1)
    then show ?thesis by (simp add: word_le_nat_alt)
  qed
  then show ?thesis by (simp add: hex_word_def list_all_iff hex_digit_ok)
qed

lemma sha256_hex_ok: "length (sha256_hex m) = 64" "list_all is_hex_digit (sha256_hex m)"
proof -
  have "sha256_hex m = sha256_standard m"
    using finalize_absorbed [OF update_absorbed [OF sha_new_absorbed, of m]] by (simp add: sha256_hex_def)
  then show "length (sha256_hex m) = 64" by (simp add: length_sha256)
  show "list_all is_hex_digit (sha256_hex m)"
    using hex_word_ok by (auto simp: sha256_hex_def sha_finalize_hex_def Let_def list_all_iff)
qed

lemma hash_plain: "47 \<notin> set (sha256_hex m)" "46 \<notin> set (sha256_hex m)" "sha256_hex m \<noteq> []"
proof -
  have "\<forall>b \<in> set (sha256_hex m). is_hex_digit b" using sha256_hex_ok(2) by (simp add: list_all_iff)
  then show "47 \<notin> set (sha256_hex m)" "46 \<notin> set (sha256_hex m)" by (auto simp: is_hex_digit_def)
  show "sha256_hex m \<noteq> []" using sha256_hex_ok(1) [of m] by auto
qed

lemma takeWhile_before: "x \<notin> set xs \<Longrightarrow> takeWhile (\<lambda>b. b \<noteq> x) (xs @ x # ys) = xs"
  by (induction xs) auto

lemma file_stem_path:
  assumes "47 \<notin> set h" and "h \<noteq> []"
  shows "file_stem (payload_path h) = h"
proof -
  have "takeWhile (\<lambda>b. b \<noteq> 47) (rev (payload_path h)) = rev (h @ ascii ''.bin'')"
  proof -
    have "47 \<notin> set (rev (h @ ascii ''.bin''))" using assms(1) by (simp add: ascii_def)
    from takeWhile_before [OF this] show ?thesis by (simp add: payload_path_def)
  qed
  moreover have "46 \<in> set (tl (h @ ascii ''.bin''))" using assms(2) by (simp add: ascii_def)
  moreover have "dropWhile (\<lambda>b. b \<noteq> 46) (rev (h @ ascii ''.bin'')) = 46 # rev h" by (simp add: ascii_def)
  ultimately show ?thesis by (simp add: file_stem_def Let_def)
qed

lemma payload_path_inj:
  assumes "payload_path (sha256_hex a) = payload_path (sha256_hex b)"
  shows "sha256_hex a = sha256_hex b"
  using arg_cong [OF assms, of file_stem] by (simp add: file_stem_path hash_plain)

lemma load_reference:
  "load_payload decompress d (reference_of (sha256_hex m)) =
     (case ps_files d (payload_path (sha256_hex m)) of
        None \<Rightarrow> Inr None
      | Some (bs, modified) \<Rightarrow> and_then (decode_blob decompress bs) (\<lambda>decoded. Inr (Some decoded)))"
proof -
  have "take 7 (reference_of (sha256_hex m)) = ascii ''sha256/''" "drop 7 (reference_of (sha256_hex m)) = sha256_hex m"
    by (simp_all add: reference_of_def ascii_def)
  then show ?thesis using sha256_hex_ok [of m] by (simp add: load_payload_def Let_def)
qed

section \<open>What was offloaded loads\<close>

text \<open>Of these texts, a file at a text's path holds that text.\<close>

definition addressed :: "(bytes \<Rightarrow> bytes) \<Rightarrow> bytes set \<Rightarrow> payload_store \<Rightarrow> bool" where
  "addressed compress texts d \<longleftrightarrow>
     (\<forall>m \<in> texts. \<forall>bs modified. ps_files d (payload_path (sha256_hex m)) = Some (bs, modified) \<longrightarrow> bs = encode_blob compress m)"

definition present :: "payload_store \<Rightarrow> bytes \<Rightarrow> bool" where
  "present d m \<longleftrightarrow> ps_files d (payload_path (sha256_hex m)) \<noteq> None"

lemma present_loads:
  assumes "lz4_block compress decompress" and "length m < 2 ^ 64" and "addressed compress texts d" and "m \<in> texts" and "present d m"
  shows "load_payload decompress d (reference_of (sha256_hex m)) = Inr (Some m)"
proof -
  obtain bs modified where f: "ps_files d (payload_path (sha256_hex m)) = Some (bs, modified)" using assms(5) by (auto simp: present_def)
  then have "bs = encode_blob compress m" using assms(3,4) unfolding addressed_def by blast
  moreover have "decode_blob decompress (encode_blob compress m) = Inr m"
  proof -
    have n: "unat (of_nat (length m) :: u64) = length m" using assms(2) by (simp add: unat_of_nat_u64)
    have "decompress (compress m) (length m) = Some m" "\<not> length (compress m) * 256 + 64 < length m"
      using assms(1) unfolding lz4_block_def by (simp_all add: not_less mult.commute)
    then show ?thesis by (simp add: encode_blob_def Let_def decode_framed n)
  qed
  ultimately show ?thesis by (simp add: load_reference f)
qed

lemma store_payload_files:
  "ps_files (snd (store_payload compress now writes m d)) =
     (if \<not> present d m \<and> writes then (ps_files d)(payload_path (sha256_hex m) \<mapsto> (encode_blob compress m, now)) else ps_files d)"
  by (simp add: store_payload_def Let_def touch_def write_blob_def present_def)

lemma store_payload_value:
  "store_payload compress now writes m d = (Inr v, d') \<Longrightarrow> v = reference_object (sha256_hex m) m \<and> present d' m"
  by (auto simp: store_payload_def Let_def touch_def write_blob_def present_def split: if_splits)

lemma store_payload_addressed:
  assumes "addressed compress texts d" and "inj_on sha256_hex texts" and "m \<in> texts"
  shows "addressed compress texts (snd (store_payload compress now writes m d))"
  unfolding addressed_def
proof (intro ballI allI impI)
  fix c bs modified
  assume c: "c \<in> texts" and f: "ps_files (snd (store_payload compress now writes m d)) (payload_path (sha256_hex c)) = Some (bs, modified)"
  show "bs = encode_blob compress c"
  proof (cases "c = m")
    case True
    then show ?thesis using f assms(1,3) unfolding store_payload_files addressed_def by (auto split: if_splits)
  next
    case False
    then have "payload_path (sha256_hex c) \<noteq> payload_path (sha256_hex m)"
      using payload_path_inj c assms(2,3) by (blast dest: inj_onD)
    then have "ps_files d (payload_path (sha256_hex c)) = Some (bs, modified)" using f unfolding store_payload_files by (simp split: if_splits)
    then show ?thesis using assms(1) c unfolding addressed_def by blast
  qed
qed

lemma store_payload_present: "present d m \<Longrightarrow> present (snd (store_payload compress now writes m' d)) m"
  by (simp add: present_def store_payload_files)

text \<open>What becomes of one attribute.\<close>

definition offloaded ::
  "nat \<Rightarrow> bytes set option \<Rightarrow> (bytes \<Rightarrow> nat \<Rightarrow> bytes option) \<Rightarrow> payload_store \<Rightarrow> bytes \<times> json \<Rightarrow> bytes \<times> json \<Rightarrow> bool" where
  "offloaded threshold masked decompress d before after_it \<longleftrightarrow>
     fst after_it = fst before
     \<and> (case snd before of
          JString m \<Rightarrow>
            if length m > threshold then
              (let hidden = (case masked of None \<Rightarrow> False | Some hs \<Rightarrow> reference_of (sha256_hex m) \<in> hs) in
               if hidden then snd after_it = redacted_object (sha256_hex m) m
               else snd after_it = reference_object (sha256_hex m) m
                    \<and> load_payload decompress d (reference_of (sha256_hex m)) = Inr (Some m))
            else snd after_it = snd before
        | _ \<Rightarrow> snd after_it = snd before)"

definition long_texts :: "nat \<Rightarrow> json_map \<Rightarrow> bytes set" where
  "long_texts threshold attrs = {m. JString m \<in> snd ` set attrs \<and> length m > threshold}"

definition hides :: "bytes set option \<Rightarrow> bytes \<Rightarrow> bool" where
  "hides masked m = (case masked of None \<Rightarrow> False | Some hs \<Rightarrow> reference_of (sha256_hex m) \<in> hs)"

lemma offload_step:
  assumes "offload_map compress now writes threshold masked ((key, v) # attrs) d = (Inr attrs', d')"
  obtains v' d1 rest where "attrs' = (key, v') # rest" "offload_map compress now writes threshold masked attrs d1 = (Inr rest, d')"
    "v' = v \<and> d1 = d \<and> (\<forall>m. v = JString m \<longrightarrow> \<not> length m > threshold)
     \<or> (\<exists>m. v = JString m \<and> length m > threshold \<and> hides masked m \<and> v' = redacted_object (sha256_hex m) m \<and> d1 = d)
     \<or> (\<exists>m. v = JString m \<and> length m > threshold \<and> \<not> hides masked m \<and> store_payload compress now writes m d = (Inr v', d1))"
proof -
  have kept: "\<exists>rest. offload_map compress now writes threshold masked attrs d1 = (Inr rest, d') \<and> attrs' = (key, w) # rest"
    if "(case offload_map compress now writes threshold masked attrs d1 of (Inr rest, d) \<Rightarrow> (Inr ((key, w) # rest), d) | (Inl e, d) \<Rightarrow> (Inl e, d)) = (Inr attrs', d')"
    for w d1 using that by (auto split: prod.splits sum.splits)
  show thesis
  proof (cases "\<exists>m. v = JString m \<and> length m > threshold")
    case False
    then have "(case offload_map compress now writes threshold masked attrs d of (Inr rest, d) \<Rightarrow> (Inr ((key, v) # rest), d) | (Inl e, d) \<Rightarrow> (Inl e, d)) = (Inr attrs', d')"
      using assms by (cases v) auto
    from kept [OF this] show thesis using that False by blast
  next
    case True
    then obtain m where m: "v = JString m" "length m > threshold" by blast
    show thesis
    proof (cases "hides masked m")
      case True
      then have "(case offload_map compress now writes threshold masked attrs d of (Inr rest, d) \<Rightarrow> (Inr ((key, redacted_object (sha256_hex m) m) # rest), d) | (Inl e, d) \<Rightarrow> (Inl e, d)) = (Inr attrs', d')"
        using assms m by (simp add: hides_def Let_def)
      from kept [OF this] show thesis using that m True by blast
    next
      case False
      obtain r d1 where sp: "store_payload compress now writes m d = (r, d1)" by (cases "store_payload compress now writes m d")
      then obtain w where w: "r = Inr w" using assms m False by (cases r) (simp_all add: hides_def Let_def)
      have "(case offload_map compress now writes threshold masked attrs d1 of (Inr rest, d) \<Rightarrow> (Inr ((key, w) # rest), d) | (Inl e, d) \<Rightarrow> (Inl e, d)) = (Inr attrs', d')"
        using assms m False sp unfolding w by (simp add: hides_def Let_def)
      from kept [OF this] show thesis using that m False sp unfolding w by blast
    qed
  qed
qed

lemma offloads:
  assumes lz4: "lz4_block compress decompress" and inj: "inj_on sha256_hex texts" and short: "\<forall>m \<in> texts. length m < 2 ^ 64"
  shows "offload_map compress now writes threshold masked attrs d = (Inr attrs', d') \<Longrightarrow> addressed compress texts d \<Longrightarrow>
    long_texts threshold attrs \<subseteq> texts \<Longrightarrow>
    addressed compress texts d' \<and> (\<forall>m. present d m \<longrightarrow> present d' m) \<and> list_all2 (offloaded threshold masked decompress d') attrs attrs'"
proof (induction attrs arbitrary: attrs' d)
  case (Cons kv attrs)
  obtain key v where kv: "kv = (key, v)" by (cases kv)
  obtain v' d1 rest where step: "attrs' = (key, v') # rest" "offload_map compress now writes threshold masked attrs d1 = (Inr rest, d')"
    "v' = v \<and> d1 = d \<and> (\<forall>m. v = JString m \<longrightarrow> \<not> length m > threshold)
     \<or> (\<exists>m. v = JString m \<and> length m > threshold \<and> hides masked m \<and> v' = redacted_object (sha256_hex m) m \<and> d1 = d)
     \<or> (\<exists>m. v = JString m \<and> length m > threshold \<and> \<not> hides masked m \<and> store_payload compress now writes m d = (Inr v', d1))"
    by (rule offload_step [OF Cons.prems(1) [unfolded kv]]) (rule that; assumption)
  have long: "m \<in> texts" if "v = JString m" "length m > threshold" for m
    using that Cons.prems(3) by (force simp: long_texts_def kv)
  have d1: "addressed compress texts d1 \<and> (\<forall>m. present d m \<longrightarrow> present d1 m)"
    using step(3) Cons.prems(2) store_payload_addressed [OF Cons.prems(2) inj] store_payload_present long by (metis snd_conv)
  have "long_texts threshold attrs \<subseteq> texts" using Cons.prems(3) by (auto simp: long_texts_def)
  from Cons.IH [OF step(2) conjunct1 [OF d1] this] have IH: "addressed compress texts d'" "\<forall>m. present d1 m \<longrightarrow> present d' m"
    "list_all2 (offloaded threshold masked decompress d') attrs rest" by blast+
  have "load_payload decompress d' (reference_of (sha256_hex m)) = Inr (Some m) \<and> v' = reference_object (sha256_hex m) m"
    if "v = JString m" "length m > threshold" "store_payload compress now writes m d = (Inr v', d1)" for m
    using present_loads [OF lz4 _ IH(1) long [OF that(1,2)]] store_payload_value [OF that(3)] IH(2) short long [OF that(1,2)] by blast
  then have "offloaded threshold masked decompress d' (key, v) (key, v')"
    using step(3) unfolding offloaded_def hides_def by (cases v) (auto simp: Let_def)
  then show ?case using IH d1 step(1) by (simp add: kv)
qed simp

text \<open>The texts of a span that are long enough to be offloaded.\<close>

definition span_texts :: "nat \<Rightarrow> span \<Rightarrow> bytes set" where
  "span_texts threshold s = (\<Union>attrs \<in> set (payload_maps s). long_texts threshold attrs)"

lemma loads_present: "load_payload decompress d (reference_of (sha256_hex m)) = Inr (Some m') \<Longrightarrow> present d m"
  by (simp add: load_reference present_def split: option.splits)

lemma offloaded_later:
  assumes "offloaded threshold masked decompress d before after_it"
    and "\<And>m. snd before = JString m \<Longrightarrow> length m > threshold \<Longrightarrow>
      load_payload decompress d (reference_of (sha256_hex m)) = Inr (Some m) \<Longrightarrow>
      load_payload decompress d' (reference_of (sha256_hex m)) = Inr (Some m)"
  shows "offloaded threshold masked decompress d' before after_it"
  using assms unfolding offloaded_def by (auto simp: Let_def split: json.splits if_splits)

lemma offloads_maps:
  assumes lz4: "lz4_block compress decompress" and inj: "inj_on sha256_hex texts" and short: "\<forall>m \<in> texts. length m < 2 ^ 64"
  shows "offload_maps compress now writes threshold masked maps d = (Inr maps', d') \<Longrightarrow> addressed compress texts d \<Longrightarrow>
    (\<forall>attrs \<in> set maps. long_texts threshold attrs \<subseteq> texts) \<Longrightarrow>
    addressed compress texts d' \<and> (\<forall>m. present d m \<longrightarrow> present d' m)
    \<and> list_all2 (\<lambda>attrs attrs'. list_all2 (offloaded threshold masked decompress d') attrs attrs') maps maps'"
proof (induction maps arbitrary: maps' d)
  case (Cons attrs maps)
  obtain attrs' d1 where first: "offload_map compress now writes threshold masked attrs d = (Inr attrs', d1)"
    using Cons.prems(1) by (cases "offload_map compress now writes threshold masked attrs d"; cases "fst (offload_map compress now writes threshold masked attrs d)") auto
  then obtain rest where rest: "offload_maps compress now writes threshold masked maps d1 = (Inr rest, d')" "maps' = attrs' # rest"
    using Cons.prems(1) by (auto split: prod.splits sum.splits)
  have one: "addressed compress texts d1" "\<forall>m. present d m \<longrightarrow> present d1 m"
    "list_all2 (offloaded threshold masked decompress d1) attrs attrs'"
    using offloads [OF lz4 inj short first Cons.prems(2)] Cons.prems(3) by auto
  have more: "addressed compress texts d'" "\<forall>m. present d1 m \<longrightarrow> present d' m"
    "list_all2 (\<lambda>attrs attrs'. list_all2 (offloaded threshold masked decompress d') attrs attrs') maps rest"
    using Cons.IH [OF rest(1) one(1)] Cons.prems(3) by auto
  have long: "m \<in> texts" if "(key, JString m) \<in> set attrs" "length m > threshold" for key m
    using that Cons.prems(3) by (force simp: long_texts_def)
  have kept: "offloaded threshold masked decompress d' before after_it"
    if "offloaded threshold masked decompress d1 before after_it" "before \<in> set attrs" for before after_it
  proof (rule offloaded_later [OF that(1)])
    fix m assume m: "snd before = JString m" "length m > threshold"
      "load_payload decompress d1 (reference_of (sha256_hex m)) = Inr (Some m)"
    have "m \<in> texts" using m that(2) long [of "fst before" m] by (metis prod.collapse)
    then show "load_payload decompress d' (reference_of (sha256_hex m)) = Inr (Some m)"
      using present_loads [OF lz4 _ more(1)] loads_present [OF m(3)] more(2) short by blast
  qed
  have "list_all2 (offloaded threshold masked decompress d') attrs attrs'"
    by (rule list.rel_mono_strong [OF one(3)]) (blast intro: kept)
  then show ?case using one more rest(2) by auto
qed simp

lemma payload_maps_rewritten:
  assumes "length maps = length (payload_maps s)"
  shows "payload_maps (with_payload_maps maps s) = maps"
proof (cases maps)
  case (Cons attrs rest)
  have n: "length rest = length (events s) + length (links s)" using assms Cons by (simp add: payload_maps_def)
  have "map (event_attributes \<circ> (\<lambda>(e, a). e\<lparr>event_attributes := a\<rparr>)) (zip (events s) (take (length (events s)) rest)) = take (length (events s)) rest"
    "map (link_attributes \<circ> (\<lambda>(l, a). l\<lparr>link_attributes := a\<rparr>)) (zip (links s) (drop (length (events s)) rest)) = drop (length (events s)) rest"
    using n by (auto intro!: nth_equalityI)
  then show ?thesis by (simp add: payload_maps_def with_payload_maps_def Cons)
qed (use assms in \<open>simp add: payload_maps_def\<close>)

lemma payload_maps_restored:
  assumes "length maps = length (payload_maps s)"
  shows "with_payload_maps (payload_maps s) (with_payload_maps maps s) = s"
proof (cases maps)
  case (Cons attrs rest)
  have n: "length rest = length (events s) + length (links s)" using assms Cons by (simp add: payload_maps_def)
  have "map (\<lambda>(e, a). e\<lparr>event_attributes := a\<rparr>) (zip (map (\<lambda>(e, a). e\<lparr>event_attributes := a\<rparr>) (zip (events s) (take (length (events s)) rest))) (map event_attributes (events s))) = events s"
    "map (\<lambda>(l, a). l\<lparr>link_attributes := a\<rparr>) (zip (map (\<lambda>(l, a). l\<lparr>link_attributes := a\<rparr>) (zip (links s) (drop (length (events s)) rest))) (map link_attributes (links s))) = links s"
    using n by (auto intro!: nth_equalityI)
  then show ?thesis using n by (simp add: payload_maps_def with_payload_maps_def Cons)
qed (use assms in \<open>simp add: payload_maps_def\<close>)

definition offloaded_span ::
  "nat \<Rightarrow> bytes set option \<Rightarrow> (bytes \<Rightarrow> nat \<Rightarrow> bytes option) \<Rightarrow> payload_store \<Rightarrow> span \<Rightarrow> span \<Rightarrow> bool" where
  "offloaded_span threshold masked decompress d s s' \<longleftrightarrow>
     list_all2 (list_all2 (offloaded threshold masked decompress d)) (payload_maps s) (payload_maps s')
     \<and> with_payload_maps (payload_maps s) s' = s"

text \<open>C37: offloading loses nothing. A span that was offloaded differs from the span admitted in its attribute maps
  alone (its own, its events' and its links'), and every map has the same keys in the same order; a value is changed
  exactly when it is a string longer than the threshold, and then it is the redacted marker where a pending erasure
  hides it, and otherwise a reference under which the directory loads the very bytes it replaced.\<close>

theorem offloaded_text_loads_back:
  assumes "offload_span compress now writes threshold masked s d = (Inr s', d')"
    and "lz4_block compress decompress" and "addressed compress (span_texts threshold s) d"
    and "inj_on sha256_hex (span_texts threshold s)" and "\<forall>m \<in> span_texts threshold s. length m < 2 ^ 64"
  shows "offloaded_span threshold masked decompress d' s s'"
proof -
  obtain maps where maps: "offload_maps compress now writes threshold masked (payload_maps s) d = (Inr maps, d')"
    "s' = with_payload_maps maps s"
    using assms(1) unfolding offload_span_def by (auto split: prod.splits sum.splits)
  have rel: "list_all2 (list_all2 (offloaded threshold masked decompress d')) (payload_maps s) maps"
    using offloads_maps [OF assms(2,4,5) maps(1) assms(3)] by (auto simp: span_texts_def)
  then have "length maps = length (payload_maps s)" by (simp add: list_all2_lengthD)
  then show ?thesis using rel maps(2) payload_maps_rewritten payload_maps_restored by (simp add: offloaded_span_def)
qed

theorem offloaded_text_loads_back_witness:
  "offloaded_span 3 None rle_decompress
      (snd (offload_span rle_compress 7 True 3 None ((w_span 7 1)\<lparr>attributes := [([107], JString [104, 101, 108, 108, 111])]\<rparr>)
         \<lparr>ps_files = Map.empty, ps_touched = Map.empty\<rparr>))
    ((w_span 7 1)\<lparr>attributes := [([107], JString [104, 101, 108, 108, 111])]\<rparr>)
    ((w_span 7 1)\<lparr>attributes := [([107], reference_object (sha256_hex [104, 101, 108, 108, 111]) [104, 101, 108, 108, 111])]\<rparr>)"
proof -
  let ?d = "\<lparr>ps_files = Map.empty, ps_touched = Map.empty\<rparr>" and ?s = "(w_span 7 1)\<lparr>attributes := [([107], JString [104, 101, 108, 108, 111])]\<rparr>"
  have run: "offload_span rle_compress 7 True 3 None ?s ?d
      = (Inr ((w_span 7 1)\<lparr>attributes := [([107], reference_object (sha256_hex [104, 101, 108, 108, 111]) [104, 101, 108, 108, 111])]\<rparr>),
         snd (offload_span rle_compress 7 True 3 None ?s ?d))"
    by (simp add: offload_span_def with_payload_maps_def payload_maps_def w_span_def store_payload_def Let_def touch_def)
  have long: "span_texts 3 ?s = {[104, 101, 108, 108, 111]}" by (auto simp: span_texts_def payload_maps_def w_span_def long_texts_def)
  show ?thesis
    by (rule offloaded_text_loads_back [OF run rle_block]) (simp_all only: long, simp_all add: addressed_def)
qed

end
