(* ===== verification/Payload_Sweep.thy ===== *)
theory Payload_Sweep
  imports Payload
begin

text \<open>
  The race between ingest and the payload sweep (\<open>store_payload\<close>, \<open>prune_touch_registry\<close> and \<open>sweep_expired\<close> of
  \<open>src/src/payload.rs\<close>, \<open>live_payload_refs\<close> and \<open>expire\<close> around them). An ingest touches a reference, finds or
  writes its file and commits the span that carries it; the sweep reads the live references, prunes the registry
  and removes old files one by one. Every step holds the lock the code holds for it; any steps may come between.
  A batch may also carry a reference the client supplies (an export ingested again): \<open>ingest_batch\<close> admits it
  as it stands and touches nothing. \<open>commit_ns\<close> bounds the time from a touch to its commit and \<open>walk_ns\<close> the time from the sweep's first read of the
  live references to its prune: the registry's immunity is a time, so it protects only what stays within it.
\<close>

record sweep_world =
  sw_store :: payload_store
  sw_now :: nat
  sw_live :: "bytes set"
  sw_adopted :: "bytes set"
  sw_flights :: "(bytes \<times> nat \<times> bool) set"
  sw_sweep :: "(bytes set \<times> nat \<times> bool) option"

definition ref_of :: "bytes \<Rightarrow> bytes" where
  "ref_of m = reference_of (sha256_hex m)"

text \<open>A flight is the text, when it was touched, and whether its file was found or written. A dataset version that
  names a payload goes the same way: its reference is touched, its file found, and its record written. Of the references
  a client supplies, those admitted while no sweep is between its first read and its last removal, with the file in
  place, count as live with the rest; any other is only adopted.\<close>

inductive sweep_step :: "(bytes \<Rightarrow> bytes) \<Rightarrow> nat \<Rightarrow> nat \<Rightarrow> sweep_world \<Rightarrow> sweep_world \<Rightarrow> bool"
  for compress commit_ns walk_ns where
  touches: "sweep_step compress commit_ns walk_ns w
    (w\<lparr>sw_store := touch (sw_now w) (ref_of m) (sw_store w), sw_flights := insert (m, sw_now w, False) (sw_flights w)\<rparr>)"
| finds: "(m, at, False) \<in> sw_flights w \<Longrightarrow> present (sw_store w) m \<Longrightarrow> sweep_step compress commit_ns walk_ns w
    (w\<lparr>sw_flights := insert (m, at, True) (sw_flights w - {(m, at, False)})\<rparr>)"
| writes: "(m, at, False) \<in> sw_flights w \<Longrightarrow> sweep_step compress commit_ns walk_ns w
    (w\<lparr>sw_store := write_blob compress (sw_now w) m (sw_store w), sw_flights := insert (m, at, True) (sw_flights w - {(m, at, False)})\<rparr>)"
| commits: "(m, at, True) \<in> sw_flights w \<Longrightarrow> sw_now w - at \<le> commit_ns \<Longrightarrow> sweep_step compress commit_ns walk_ns w
    (w\<lparr>sw_live := insert m (sw_live w), sw_flights := sw_flights w - {(m, at, True)}\<rparr>)"
| supplies: "sw_sweep w = None \<Longrightarrow> present (sw_store w) m \<Longrightarrow> sweep_step compress commit_ns walk_ns w
    (w\<lparr>sw_live := insert m (sw_live w)\<rparr>)"
| adopts: "sweep_step compress commit_ns walk_ns w (w\<lparr>sw_adopted := insert m (sw_adopted w)\<rparr>)"
| forgets: "sweep_step compress commit_ns walk_ns w (w\<lparr>sw_adopted := sw_adopted w - {m}\<rparr>)"
| fails: "sweep_step compress commit_ns walk_ns w (w\<lparr>sw_flights := sw_flights w - {f}\<rparr>)"
| dies: "sweep_step compress commit_ns walk_ns w (w\<lparr>sw_live := sw_live w - {m}\<rparr>)"
| early_prune: "sw_sweep w = None \<Longrightarrow> sweep_step compress commit_ns walk_ns w
    (w\<lparr>sw_store := prune_touch_registry (sw_now w) (sw_store w)\<rparr>)"
| snapshots: "sw_sweep w = None \<Longrightarrow> sweep_step compress commit_ns walk_ns w
    (w\<lparr>sw_sweep := Some (ref_of ` (sw_live w \<union> sw_adopted w), sw_now w, False)\<rparr>)"
| prunes: "sw_sweep w = Some (live, begun, False) \<Longrightarrow> sw_now w - begun \<le> walk_ns \<Longrightarrow> sweep_step compress commit_ns walk_ns w
    (w\<lparr>sw_store := prune_touch_registry (sw_now w) (sw_store w), sw_sweep := Some (live, begun, True)\<rparr>)"
| sweeps: "sw_sweep w = Some (live, begun, True) \<Longrightarrow> sweep_step compress commit_ns walk_ns w
    (w\<lparr>sw_store := sweep_entry cutoff live path (sw_store w)\<rparr>)"
| finishes: "sw_sweep w = Some (live, begun, True) \<Longrightarrow> sweep_step compress commit_ns walk_ns w (w\<lparr>sw_sweep := None\<rparr>)"
| ticks: "sweep_step compress commit_ns walk_ns w (w\<lparr>sw_now := sw_now w + 1\<rparr>)"

inductive sweep_reaches :: "(bytes \<Rightarrow> bytes) \<Rightarrow> nat \<Rightarrow> nat \<Rightarrow> sweep_world \<Rightarrow> bool" for compress commit_ns walk_ns where
  empty: "sweep_reaches compress commit_ns walk_ns
    \<lparr>sw_store = \<lparr>ps_files = Map.empty, ps_touched = Map.empty\<rparr>, sw_now = now, sw_live = {}, sw_adopted = {}, sw_flights = {}, sw_sweep = None\<rparr>"
| stepped: "sweep_reaches compress commit_ns walk_ns w \<Longrightarrow> sweep_step compress commit_ns walk_ns w w' \<Longrightarrow>
    sweep_reaches compress commit_ns walk_ns w'"

section \<open>The invariant\<close>

text \<open>A reference the running sweep leaves alone: read as live, or touched late enough to be in the registry still
  when the sweep looks it up.\<close>

definition shielded :: "nat \<Rightarrow> bytes set \<times> nat \<times> bool \<Rightarrow> payload_store \<Rightarrow> bytes \<Rightarrow> bool" where
  "shielded commit_ns sweep d m =
     (case sweep of (live, begun, pruned) \<Rightarrow>
        ref_of m \<in> live
        \<or> (\<exists>at. ps_touched d (ref_of m) = Some at \<and> (pruned \<or> begun \<le> at + commit_ns)))"

definition flight_ok :: "nat \<Rightarrow> nat \<Rightarrow> payload_store \<Rightarrow> bytes \<times> nat \<times> bool \<Rightarrow> bool" where
  "flight_ok commit_ns now d f =
     (case f of (m, at, ensured) \<Rightarrow>
        at \<le> now
        \<and> (now - at \<le> commit_ns \<longrightarrow> (ensured \<longrightarrow> present d m) \<and> (\<exists>t \<ge> at. ps_touched d (ref_of m) = Some t)))"

definition running_ok :: "nat \<Rightarrow> nat \<Rightarrow> payload_store \<Rightarrow> bytes set \<Rightarrow> (bytes set \<times> nat \<times> bool) option \<Rightarrow> bool" where
  "running_ok commit_ns now d live sweep \<longleftrightarrow>
     (case sweep of None \<Rightarrow> True | Some s \<Rightarrow> fst (snd s) \<le> now \<and> (\<forall>m \<in> live. shielded commit_ns s d m))"

definition sweep_inv :: "nat \<Rightarrow> sweep_world \<Rightarrow> bool" where
  "sweep_inv commit_ns w \<longleftrightarrow>
     (\<forall>m \<in> sw_live w. present (sw_store w) m)
     \<and> (\<forall>f \<in> sw_flights w. flight_ok commit_ns (sw_now w) (sw_store w) f)
     \<and> running_ok commit_ns (sw_now w) (sw_store w) (sw_live w) (sw_sweep w)"

lemma present_touch [simp]: "present (touch now r d) m = present d m"
  by (simp add: present_def touch_def)

lemma touched_touch: "ps_touched (touch now r d) r' = (if r' = r then Some now else ps_touched d r')"
  by (simp add: touch_def)

lemma present_prune [simp]: "present (prune_touch_registry now d) m = present d m"
  by (simp add: present_def prune_touch_registry_def)

lemma present_write: "present (write_blob compress now m' d) m \<longleftrightarrow> m = m' \<or> present d m \<or> sha256_hex m = sha256_hex m'"
  using payload_path_inj by (auto simp: present_def write_blob_def)

lemma touched_write [simp]: "ps_touched (write_blob compress now m d) = ps_touched d"
  by (simp add: write_blob_def)

lemma touched_sweep [simp]: "ps_touched (sweep_entry cutoff live path d) = ps_touched d"
  by (simp add: sweep_entry_def Let_def split: option.split)

text \<open>What the sweep would remove it does not remove when it is live or touched.\<close>

lemma sweep_spares:
  assumes "present d m" and "ref_of m \<in> live \<or> ps_touched d (ref_of m) \<noteq> None"
  shows "present (sweep_entry cutoff live path d) m"
proof (cases "path = payload_path (sha256_hex m)")
  case True
  have "reference_of (file_stem path) = ref_of m" unfolding True ref_of_def by (simp add: file_stem_path hash_plain)
  then show ?thesis using assms unfolding sweep_entry_def Let_def by (auto split: option.split)
next
  case False
  then show ?thesis using assms(1) by (auto simp: present_def sweep_entry_def Let_def split: option.split)
qed

lemma touched_prune:
  "ps_touched d r = Some at \<Longrightarrow> now - at < TOUCH_IMMUNITY \<Longrightarrow> ps_touched (prune_touch_registry now d) r = Some at"
  by (simp add: prune_touch_registry_def)

lemma shielded_touch: "begun \<le> now \<Longrightarrow> shielded commit_ns (live, begun, pruned) d m \<Longrightarrow> shielded commit_ns (live, begun, pruned) (touch now r d) m"
  by (auto simp: shielded_def touch_def)

lemma flight_touch: "flight_ok commit_ns now d f \<Longrightarrow> flight_ok commit_ns now (touch now r d) f"
  by (auto simp: flight_ok_def touched_touch split: prod.splits)

lemma flight_new: "flight_ok commit_ns now (touch now (ref_of m) d) (m, now, False)"
  by (simp add: flight_ok_def touched_touch)

lemma flight_found: "flight_ok commit_ns now d (m, at, False) \<Longrightarrow> present d m \<Longrightarrow> flight_ok commit_ns now d (m, at, True)"
  by (auto simp: flight_ok_def)

lemma flight_write: "flight_ok commit_ns now d f \<Longrightarrow> flight_ok commit_ns now (write_blob compress at m d) f"
  by (auto simp: flight_ok_def present_write split: prod.splits)

lemma flight_wrote: "flight_ok commit_ns now d (m, at, False) \<Longrightarrow> flight_ok commit_ns now (write_blob compress t m d) (m, at, True)"
  by (auto simp: flight_ok_def present_write)

lemma flight_tick: "flight_ok commit_ns now d f \<Longrightarrow> flight_ok commit_ns (now + 1) d f"
  by (auto simp: flight_ok_def split: prod.splits)

lemma flight_pruned:
  assumes "commit_ns < TOUCH_IMMUNITY" and f: "flight_ok commit_ns now d f"
  shows "flight_ok commit_ns now (prune_touch_registry now d) f"
proof -
  obtain m at ensured where m: "f = (m, at, ensured)" by (cases f)
  have "\<exists>t \<ge> at. ps_touched (prune_touch_registry now d) (ref_of m) = Some t" if z: "now - at \<le> commit_ns"
  proof -
    obtain t where t: "t \<ge> at" "ps_touched d (ref_of m) = Some t" using f z by (auto simp: flight_ok_def m)
    then have "now - t < TOUCH_IMMUNITY" using assms(1) z by linarith
    then show ?thesis using t touched_prune by blast
  qed
  then show ?thesis using f by (auto simp: flight_ok_def m)
qed

lemma flight_swept: "flight_ok commit_ns now d f \<Longrightarrow> flight_ok commit_ns now (sweep_entry cutoff live path d) f"
  using sweep_spares by (auto simp: flight_ok_def split: prod.splits)

lemma running_touch: "running_ok commit_ns now d live s \<Longrightarrow> running_ok commit_ns now (touch now r d) live s"
proof (cases s)
  case (Some t)
  obtain l begun pruned where t: "t = (l, begun, pruned)" by (cases t)
  assume "running_ok commit_ns now d live s"
  then have "begun \<le> now" "\<forall>m \<in> live. shielded commit_ns (l, begun, pruned) d m" by (simp_all add: running_ok_def Some t)
  then have "\<forall>m \<in> live. shielded commit_ns (l, begun, pruned) (touch now r d) m" by (blast intro: shielded_touch)
  then show ?thesis using \<open>begun \<le> now\<close> by (simp add: running_ok_def Some t)
qed (simp add: running_ok_def)

lemma running_touched: "ps_touched d' = ps_touched d \<Longrightarrow> running_ok commit_ns now d' live s = running_ok commit_ns now d live s"
  by (simp add: running_ok_def shielded_def split: option.split)

lemma running_commit:
  assumes "running_ok commit_ns now d live s" and "flight_ok commit_ns now d (m, at, True)" and "now - at \<le> commit_ns"
  shows "running_ok commit_ns now d (insert m live) s"
proof (cases s)
  case (Some r)
  obtain l begun pruned where r: "r = (l, begun, pruned)" by (cases r)
  obtain t where t: "t \<ge> at" "ps_touched d (ref_of m) = Some t" using assms(2,3) by (auto simp: flight_ok_def)
  have "begun \<le> t + commit_ns" using assms(1,3) t(1) by (auto simp: running_ok_def Some r)
  then show ?thesis using assms(1) t(2) by (auto simp: running_ok_def Some r shielded_def)
qed (simp add: running_ok_def)

lemma running_prune:
  assumes "running_ok commit_ns now d live (Some (l, begun, False))" and "now - begun \<le> walk_ns" and "commit_ns + walk_ns < TOUCH_IMMUNITY"
  shows "running_ok commit_ns now (prune_touch_registry now d) live (Some (l, begun, True))"
proof -
  have "shielded commit_ns (l, begun, True) (prune_touch_registry now d) m" if z: "m \<in> live" for m
  proof (cases "ref_of m \<in> l")
    case False
    then obtain at where at: "ps_touched d (ref_of m) = Some at" "begun \<le> at + commit_ns"
      using assms(1) z by (auto simp: running_ok_def shielded_def)
    have "now - at < TOUCH_IMMUNITY" using at(2) assms(2,3) by linarith
    from touched_prune [OF at(1) this] show ?thesis by (auto simp: shielded_def)
  qed (simp add: shielded_def)
  then show ?thesis using assms(1) by (simp add: running_ok_def)
qed

lemma running_fewer: "running_ok commit_ns now d live s \<Longrightarrow> running_ok commit_ns now d (live - {m}) s"
  by (auto simp: running_ok_def split: option.splits)

lemma running_tick: "running_ok commit_ns now d live s \<Longrightarrow> running_ok commit_ns (now + 1) d live s"
  by (auto simp: running_ok_def split: option.splits)

lemma running_begins: "running_ok commit_ns now d live (Some (ref_of ` (live \<union> adopted), now, False))"
  by (simp add: running_ok_def shielded_def)

lemma live_swept:
  assumes "running_ok commit_ns now d live (Some (l, begun, True))" and "m \<in> live" and "present d m"
  shows "present (sweep_entry cutoff l path d) m"
  using assms by (intro sweep_spares) (auto simp: running_ok_def shielded_def)

lemma sweep_step_keeps:
  assumes step: "sweep_step compress commit_ns walk_ns w w'" and bound: "commit_ns + walk_ns < TOUCH_IMMUNITY"
    and inv: "sweep_inv commit_ns w"
  shows "sweep_inv commit_ns w'"
proof -
  have L: "\<forall>m \<in> sw_live w. present (sw_store w) m" and F: "\<forall>f \<in> sw_flights w. flight_ok commit_ns (sw_now w) (sw_store w) f"
    and R: "running_ok commit_ns (sw_now w) (sw_store w) (sw_live w) (sw_sweep w)"
    using inv by (simp_all add: sweep_inv_def)
  have short: "commit_ns < TOUCH_IMMUNITY" using bound by simp
  from step show ?thesis
  proof cases
    case (touches m)
    have "\<forall>f \<in> insert (m, sw_now w, False) (sw_flights w). flight_ok commit_ns (sw_now w) (touch (sw_now w) (ref_of m) (sw_store w)) f"
      using F by (blast intro: flight_touch flight_new)
    then show ?thesis unfolding touches sweep_inv_def using L running_touch [OF R] by simp
  next
    case (finds m at)
    have "\<forall>f \<in> insert (m, at, True) (sw_flights w - {(m, at, False)}). flight_ok commit_ns (sw_now w) (sw_store w) f"
      using F finds(2,3) by (blast intro: flight_found)
    then show ?thesis unfolding finds(1) sweep_inv_def using L R by simp
  next
    case (writes m at)
    have "\<forall>f \<in> insert (m, at, True) (sw_flights w - {(m, at, False)}).
        flight_ok commit_ns (sw_now w) (write_blob compress (sw_now w) m (sw_store w)) f"
      using F writes(2) by (blast intro: flight_write flight_wrote)
    then show ?thesis unfolding writes(1) sweep_inv_def using L R by (simp add: present_write running_touched [OF touched_write])
  next
    case (commits m at)
    have f: "flight_ok commit_ns (sw_now w) (sw_store w) (m, at, True)" using F commits(2) by blast
    then have "present (sw_store w) m" using commits(3) by (simp add: flight_ok_def)
    then show ?thesis unfolding commits(1) using L F running_commit [OF R f commits(3)] by (simp add: sweep_inv_def)
  next
    case (supplies m)
    then show ?thesis using L F by (simp add: sweep_inv_def running_ok_def)
  next
    case adopts
    then show ?thesis using L F R by (simp add: sweep_inv_def)
  next
    case forgets
    then show ?thesis using L F R by (simp add: sweep_inv_def)
  next
    case fails
    then show ?thesis using L F R by (simp add: sweep_inv_def)
  next
    case dies
    then show ?thesis using L F running_fewer [OF R] by (simp add: sweep_inv_def)
  next
    case early_prune
    then show ?thesis using L F flight_pruned [OF short] by (simp add: sweep_inv_def running_ok_def)
  next
    case snapshots
    then show ?thesis using L F running_begins by (simp add: sweep_inv_def)
  next
    case (prunes live begun)
    then show ?thesis using L F flight_pruned [OF short] running_prune [OF R [unfolded prunes(2)] prunes(3) bound] by (simp add: sweep_inv_def)
  next
    case (sweeps live begun cutoff path)
    have "\<forall>m \<in> sw_live w. present (sweep_entry cutoff live path (sw_store w)) m"
      using L live_swept [OF R [unfolded sweeps(2)]] by blast
    then show ?thesis unfolding sweeps(1) using F flight_swept R by (simp add: sweep_inv_def running_touched [OF touched_sweep])
  next
    case finishes
    then show ?thesis using L F by (simp add: sweep_inv_def running_ok_def)
  next
    case ticks
    then show ?thesis using L F R flight_tick running_tick by (simp add: sweep_inv_def)
  qed
qed

lemma sweep_reaches_inv:
  "sweep_reaches compress commit_ns walk_ns w \<Longrightarrow> commit_ns + walk_ns < TOUCH_IMMUNITY \<Longrightarrow> sweep_inv commit_ns w"
proof (induction rule: sweep_reaches.induct)
  case (empty now)
  show ?case by (simp add: sweep_inv_def running_ok_def)
next
  case (stepped w w')
  then show ?case using sweep_step_keeps by blast
qed

text \<open>C9: no sweep removes a payload the store offloaded for a live span. However ingests and sweeps interleave, and
  however old the file is, the file of every live reference is there that the store offloaded itself, touched for a
  dataset version, or took from a client while the file was in place and no sweep was running; as long as an ingest
  commits and a sweep reads the live references within the ten minutes a touch protects. A reference taken from a client
  while a sweep runs is not among them: the next theorem loses its payload.\<close>

theorem no_sweep_removes_a_live_payload:
  assumes "sweep_reaches compress commit_ns walk_ns w" and "commit_ns + walk_ns < TOUCH_IMMUNITY" and "m \<in> sw_live w"
  shows "ps_files (sw_store w) (payload_path (sha256_hex m)) \<noteq> None"
  using sweep_reaches_inv [OF assms(1,2)] assms(3) by (simp add: sweep_inv_def present_def)

text \<open>A span committed while a sweep runs, which has not read its reference as live.\<close>

definition w_begun :: sweep_world where
  "w_begun = \<lparr>sw_store = touch 0 (ref_of [1]) \<lparr>ps_files = Map.empty, ps_touched = Map.empty\<rparr>, sw_now = 0, sw_live = {}, sw_adopted = {},
    sw_flights = {([1], 0, False)}, sw_sweep = Some ({}, 0, False)\<rparr>"

definition w_committed :: sweep_world where
  "w_committed = w_begun\<lparr>sw_store := write_blob rle_compress 0 [1] (sw_store w_begun), sw_flights := {}, sw_live := {[1]}\<rparr>"

definition w_swept :: sweep_world where
  "w_swept = w_committed\<lparr>sw_store := sweep_entry 10 {} (payload_path (sha256_hex [1])) (prune_touch_registry 0 (sw_store w_committed)),
    sw_sweep := Some ({}, 0, True)\<rparr>"

lemma w_committed_reached: "sweep_reaches rle_compress 5 5 w_committed"
proof -
  have a: "sweep_reaches rle_compress 5 5 \<lparr>sw_store = \<lparr>ps_files = Map.empty, ps_touched = Map.empty\<rparr>, sw_now = 0, sw_live = {}, sw_adopted = {}, sw_flights = {}, sw_sweep = None\<rparr>"
    by (rule empty)
  have b: "sweep_reaches rle_compress 5 5 w_begun"
    using stepped [OF stepped [OF a snapshots] touches, of "[1]"] by (simp add: w_begun_def)
  have c: "sweep_reaches rle_compress 5 5 (w_begun\<lparr>sw_store := write_blob rle_compress 0 [1] (sw_store w_begun), sw_flights := {([1], 0, True)}\<rparr>)"
    using stepped [OF b writes [of "[1]" 0]] by (simp add: w_begun_def)
  show ?thesis using stepped [OF c commits [of "[1]" 0]] by (simp add: w_begun_def w_committed_def)
qed

lemma w_swept_reached: "sweep_reaches rle_compress 5 5 w_swept"
proof -
  have a: "sweep_reaches rle_compress 5 5 (w_committed\<lparr>sw_store := prune_touch_registry 0 (sw_store w_committed), sw_sweep := Some ({}, 0, True)\<rparr>)"
    using stepped [OF w_committed_reached prunes [of _ "{}" 0]] by (simp add: w_committed_def w_begun_def)
  show ?thesis
    using stepped [OF a sweeps [of _ "{}" 0 rle_compress 5 5 10 "payload_path (sha256_hex [1])"]] by (simp add: w_swept_def w_committed_def w_begun_def)
qed

theorem no_sweep_removes_a_live_payload_witness:
  "ps_files (sw_store w_swept) (payload_path (sha256_hex [1])) \<noteq> None \<and> sw_sweep w_swept = Some ({}, 0, True)"
proof
  show "ps_files (sw_store w_swept) (payload_path (sha256_hex [1])) \<noteq> None"
    by (rule no_sweep_removes_a_live_payload [OF w_swept_reached]) (simp_all add: TOUCH_IMMUNITY_def w_swept_def w_committed_def)
  show "sw_sweep w_swept = Some ({}, 0, True)" by (simp add: w_swept_def)
qed

section \<open>A reference the client supplies\<close>

lemma ticks_on: "sweep_reaches compress commit_ns walk_ns w \<Longrightarrow> sweep_reaches compress commit_ns walk_ns (w\<lparr>sw_now := sw_now w + n\<rparr>)"
proof (induction n)
  case (Suc n)
  then show ?case using stepped [OF Suc.IH [OF Suc.prems] ticks] by simp
qed simp

text \<open>A text is offloaded and its span dies. Ten minutes later a sweep reads the live references; then a client sends
  the reference again, while its file is still there, and the batch is admitted; then the sweep removes the file. The
  admitted span is left with a reference to nothing, though every step stayed within the bounds.\<close>

theorem an_adopted_reference_can_lose_its_payload:
  "\<exists>w w'. sweep_reaches compress 0 0 w \<and> present (sw_store w) m
    \<and> sweep_reaches compress 0 0 w' \<and> m \<in> sw_adopted w' \<and> \<not> present (sw_store w') m"
proof -
  let ?w0 = "\<lparr>sw_store = \<lparr>ps_files = Map.empty, ps_touched = Map.empty\<rparr>, sw_now = 0, sw_live = {}, sw_adopted = {}, sw_flights = {}, sw_sweep = None\<rparr>"
  let ?d = "write_blob compress 0 m (touch 0 (ref_of m) (sw_store ?w0))"
  let ?path = "payload_path (sha256_hex m)"
  have a: "sweep_reaches compress 0 0 (?w0\<lparr>sw_store := touch 0 (ref_of m) (sw_store ?w0), sw_flights := {(m, 0, False)}\<rparr>)"
    using stepped [OF empty [where now = 0] touches [where m = m]] by simp
  have b: "sweep_reaches compress 0 0 (?w0\<lparr>sw_store := ?d, sw_flights := {(m, 0, True)}\<rparr>)"
    using stepped [OF a writes [of m 0]] by simp
  have c: "sweep_reaches compress 0 0 (?w0\<lparr>sw_store := ?d, sw_flights := {}\<rparr>)"
    using stepped [OF b fails, of "(m, 0, True)"] by simp
  have d: "sweep_reaches compress 0 0 (?w0\<lparr>sw_store := ?d, sw_now := TOUCH_IMMUNITY\<rparr>)"
    using ticks_on [OF c, of TOUCH_IMMUNITY] by simp
  have e: "sweep_reaches compress 0 0 (?w0\<lparr>sw_store := ?d, sw_now := TOUCH_IMMUNITY, sw_sweep := Some ({}, TOUCH_IMMUNITY, False)\<rparr>)"
    using stepped [OF d snapshots] by simp
  have f: "sweep_reaches compress 0 0 (?w0\<lparr>sw_store := ?d, sw_now := TOUCH_IMMUNITY, sw_adopted := {m}, sw_sweep := Some ({}, TOUCH_IMMUNITY, False)\<rparr>)"
    using stepped [OF e adopts, of m] by simp
  let ?p = "prune_touch_registry TOUCH_IMMUNITY ?d"
  have g: "sweep_reaches compress 0 0 (?w0\<lparr>sw_store := ?p, sw_now := TOUCH_IMMUNITY, sw_adopted := {m}, sw_sweep := Some ({}, TOUCH_IMMUNITY, True)\<rparr>)"
    using stepped [OF f prunes] by simp
  have h: "sweep_reaches compress 0 0 (?w0\<lparr>sw_store := sweep_entry 1 {} ?path ?p, sw_now := TOUCH_IMMUNITY, sw_adopted := {m}, sw_sweep := Some ({}, TOUCH_IMMUNITY, True)\<rparr>)"
    using stepped [OF g sweeps [where cutoff = 1 and path = ?path]] by simp
  have "\<not> present (sweep_entry 1 {} ?path ?p) m"
    by (simp add: present_def sweep_entry_def Let_def prune_touch_registry_def write_blob_def touch_def ref_of_def hash_plain)
  moreover have "present ?d m" by (simp add: present_def write_blob_def)
  ultimately have "present (sw_store (?w0\<lparr>sw_store := ?d, sw_now := TOUCH_IMMUNITY, sw_sweep := Some ({}, TOUCH_IMMUNITY, False)\<rparr>)) m"
    and "\<not> present (sw_store (?w0\<lparr>sw_store := sweep_entry 1 {} ?path ?p, sw_now := TOUCH_IMMUNITY, sw_adopted := {m}, sw_sweep := Some ({}, TOUCH_IMMUNITY, True)\<rparr>)) m"
    and "m \<in> sw_adopted (?w0\<lparr>sw_store := sweep_entry 1 {} ?path ?p, sw_now := TOUCH_IMMUNITY, sw_adopted := {m}, sw_sweep := Some ({}, TOUCH_IMMUNITY, True)\<rparr>)"
    by simp_all
  then show ?thesis using e h by blast
qed

end
