(* ===== verification/Civil_Day.thy ===== *)
theory Civil_Day
  imports Semconv
begin

text \<open>
  The calendar day a span is counted under (\<open>day_bucket\<close> of \<open>src/src/analytics.rs\<close>), against the calendar itself,
  and the decimal text of a number (\<open>format!\<close> and \<open>to_string\<close>) against the parser of \<open>Semconv\<close>.
\<close>

section \<open>Decimal text\<close>

fun decimal :: "nat \<Rightarrow> bytes" where
  "decimal n = (if n < 10 then [of_nat (48 + n)] else decimal (n div 10) @ [of_nat (48 + n mod 10)])"

declare decimal.simps [simp del]

definition padded :: "nat \<Rightarrow> nat \<Rightarrow> bytes" where
  "padded width n = replicate (width - length (decimal n)) 48 @ decimal n"

lemma digits_value_append: "digits_value (bs @ cs) n = (case digits_value bs n of None \<Rightarrow> None | Some m \<Rightarrow> digits_value cs m)"
  by (induction bs n rule: digits_value.induct) (simp_all add: Let_def)

lemma digit_byte:
  assumes "d < 10"
  shows "(48 :: u8) \<le> of_nat (48 + d)" "of_nat (48 + d) \<le> (57 :: u8)" "unat (of_nat (48 + d) - 48 :: u8) = d"
proof -
  have "d \<in> set [0..<10]" using assms by simp
  then show "(48 :: u8) \<le> of_nat (48 + d)" "of_nat (48 + d) \<le> (57 :: u8)" "unat (of_nat (48 + d) - 48 :: u8) = d"
    by (auto simp: upt_rec)
qed

lemma digits_value_decimal: "m < 2 ^ 64 \<Longrightarrow> digits_value (decimal m) 0 = Some m"
proof (induction m rule: decimal.induct)
  case (1 n)
  show ?case
  proof (cases "n < 10")
    case True
    then show ?thesis using digit_byte [of n] by (subst decimal.simps) (simp add: Let_def)
  next
    case False
    then have "digits_value (decimal (n div 10)) 0 = Some (n div 10)" using 1 by simp
    moreover have "10 * (n div 10) + n mod 10 = n" by simp
    ultimately show ?thesis using False 1(2) digit_byte [of "n mod 10"]
      by (subst decimal.simps) (simp add: digits_value_append Let_def)
  qed
qed

lemma decimal_nonempty [simp]: "decimal n \<noteq> []"
  by (subst decimal.simps) simp

lemma decimal_digits: "b \<in> set (decimal n) \<Longrightarrow> 48 \<le> b \<and> b \<le> 57"
proof (induction n rule: decimal.induct)
  case (1 n)
  then show ?case using digit_byte [of n] digit_byte [of "n mod 10"] by (subst (asm) (2) decimal.simps) (auto split: if_splits)
qed

lemma parse_decimal: "m < 2 ^ 64 \<Longrightarrow> parse_u64 (decimal m) = Some (of_nat m)"
proof -
  assume m: "m < 2 ^ 64"
  have "hd (decimal m) \<noteq> 43"
    using decimal_digits [of "hd (decimal m)" m] by (auto simp: word_le_nat_alt)
  then show ?thesis using digits_value_decimal [OF m] by (simp add: parse_u64_def)
qed

lemma length_decimal: "n < 10 ^ k \<Longrightarrow> k > 0 \<Longrightarrow> length (decimal n) \<le> k"
proof (induction n arbitrary: k rule: decimal.induct)
  case (1 n)
  show ?case
  proof (cases "n < 10")
    case False
    then have "k > 1" using "1.prems" by (cases k) (auto simp: less_Suc_eq_0_disj split: if_splits intro: gr0I)
    then have "n div 10 < 10 ^ (k - 1)" "k - 1 > 0" using "1.prems"
      by (simp_all add: less_mult_imp_div_less power_eq_if mult.commute)
    from "1.IH" [OF False this] show ?thesis using False \<open>k > 1\<close> by (subst decimal.simps) simp
  qed (use "1.prems" in \<open>subst decimal.simps, simp\<close>)
qed

lemma length_padded: "n < 10 ^ k \<Longrightarrow> k > 0 \<Longrightarrow> length (padded k n) = k"
  using length_decimal [of n k] by (simp add: padded_def)

section \<open>Days\<close>

text \<open>The date of a day counted from 1970: year, month, day.\<close>

definition civil_of_days :: "int \<Rightarrow> int \<times> int \<times> int" where
  "civil_of_days days =
     (let z = days + 719468;
          era = z div 146097;
          doe = z mod 146097;
          yoe = (doe - doe div 1460 + doe div 36524 - doe div 146096) div 365;
          year = yoe + era * 400;
          doy = doe - (365 * yoe + yoe div 4 - yoe div 100);
          mp = (5 * doy + 2) div 153;
          day = doy - (153 * mp + 2) div 5 + 1;
          month = (if mp < 10 then mp + 3 else mp - 9);
          year = (if month \<le> 2 then year + 1 else year)
      in (year, month, day))"

definition day_bucket :: "u64 \<Rightarrow> bytes" where
  "day_bucket start_ns =
     (case civil_of_days (int (unat start_ns div 1000000000 div 86400)) of
        (year, month, day) \<Rightarrow> padded 4 (nat year) @ [45] @ padded 2 (nat month) @ [45] @ padded 2 (nat day))"

section \<open>The calendar\<close>

definition leap :: "int \<Rightarrow> bool" where
  "leap y \<longleftrightarrow> 4 dvd y \<and> (\<not> 100 dvd y \<or> 400 dvd y)"

definition month_length :: "int \<Rightarrow> int \<Rightarrow> int" where
  "month_length y m = (if m = 2 then (if leap y then 29 else 28) else if m \<in> {4, 6, 9, 11} then 30 else 31)"

definition next_date :: "int \<times> int \<times> int \<Rightarrow> int \<times> int \<times> int" where
  "next_date d =
     (case d of (y, m, n) \<Rightarrow>
        if n < month_length y m then (y, m, n + 1) else if m < 12 then (y, m + 1, 1) else (y + 1, 1, 1))"

text \<open>A year of the 400-year cycle runs from March to February; its place in the cycle and its days.\<close>

definition year_start :: "int \<Rightarrow> int" where
  "year_start y = 365 * y + y div 4 - y div 100"

definition year_days :: "int \<Rightarrow> int" where
  "year_days y = (if leap (y + 1) then 366 else 365)"

definition placed :: "int \<Rightarrow> int \<Rightarrow> int \<Rightarrow> bool" where
  "placed doe y doy \<longleftrightarrow> 0 \<le> y \<and> y < 400 \<and> 0 \<le> doy \<and> doy < year_days y \<and> doe = year_start y + doy"

lemma div_between: "b * k \<le> n \<Longrightarrow> n < b * k + b \<Longrightarrow> n div b = k" for n :: int
  by (rule int_div_pos_eq [where r = "n - b * k"]) simp_all

lemma div_next: "0 < n \<Longrightarrow> (y + 1) div n = y div n + (if n dvd y + 1 then 1 else 0)" for n :: int
proof (cases "n dvd y + 1")
  case True
  assume n: "0 < n"
  from True obtain k where k: "y + 1 = n * k" by blast
  then have "y div n = k - 1" using n by (intro div_between) (simp_all add: right_diff_distrib)
  moreover have "(y + 1) div n = k" using n by (simp add: k)
  ultimately show ?thesis using True by simp
next
  case False
  assume n: "0 < n"
  have y: "n * (y div n) + y mod n = y" by simp
  have "y mod n \<noteq> n - 1"
  proof
    assume "y mod n = n - 1"
    then have "y + 1 = n * (y div n) + n" using y by linarith
    then have "y + 1 = n * (y div n + 1)" by (simp add: distrib_left)
    then show False using False by (metis dvd_triv_left)
  qed
  then have "y mod n + 1 < n" "0 \<le> y mod n" using pos_mod_bound [OF n, of y] pos_mod_sign [OF n, of y] by linarith+
  then have "(y + 1) div n = y div n" using y by (intro div_between) linarith+
  then show ?thesis using False by simp
qed

lemma year_after: "0 \<le> y \<Longrightarrow> y < 399 \<Longrightarrow> year_start (y + 1) = year_start y + year_days y"
proof -
  assume y: "0 \<le> y" "y < 399"
  have "(y + 1) div 4 = y div 4 + (if 4 dvd y + 1 then 1 else 0)" by (rule div_next) simp
  moreover have "(y + 1) div 100 = y div 100 + (if 100 dvd y + 1 then 1 else 0)" by (rule div_next) simp
  moreover have "\<not> 400 dvd y + 1" using y by presburger
  moreover have "100 dvd y + 1 \<longrightarrow> 4 dvd y + 1" using dvd_trans [of 4 100 "y + 1"] by simp
  ultimately show ?thesis by (auto simp: year_start_def year_days_def leap_def)
qed

text \<open>A year of the cycle by its century, its place among the fours of the century, and its place in its four.\<close>

lemma cycle_year:
  assumes "0 \<le> y" and "y < 400"
  obtains c q i where "y = 100 * c + 4 * q + i" "0 \<le> c" "c \<le> 3" "0 \<le> q" "q \<le> 24" "0 \<le> i" "i \<le> 3"
    "year_start y = 36524 * c + 1461 * q + 365 * i" "leap (y + 1) \<longrightarrow> i = 3 \<and> (q = 24 \<longrightarrow> c = 3)"
proof -
  define w where "w = y mod 100"
  define c where "c = y div 100"
  define q where "q = w div 4"
  define i where "i = w mod 4"
  have "y = 100 * c + w" "w = 4 * q + i" by (simp_all add: c_def w_def q_def i_def)
  then have y: "y = 100 * c + 4 * q + i" by simp
  have w: "0 \<le> w" "w < 100" by (simp_all add: w_def)
  have "c \<le> 399 div 100" unfolding c_def using assms by (intro zdiv_mono1) simp_all
  moreover have "q \<le> 99 div 4" unfolding q_def using w by (intro zdiv_mono1) simp_all
  moreover have "0 \<le> i" "i < 4" by (simp_all add: i_def)
  moreover have "0 \<le> c" "0 \<le> q" using assms w by (simp_all add: c_def q_def pos_imp_zdiv_nonneg_iff)
  ultimately have b: "0 \<le> c" "c \<le> 3" "0 \<le> q" "q \<le> 24" "0 \<le> i" "i \<le> 3" by simp_all
  have "y div 4 = 25 * c + q" "y div 100 = c" using b unfolding y by (intro div_between; simp)+
  then have s: "year_start y = 36524 * c + 1461 * q + 365 * i" by (simp add: year_start_def y)
  have "i = 3" if "4 dvd y + 1" using that b unfolding y by presburger
  moreover have "100 dvd y + 1" if "q = 24" "i = 3" using that unfolding y by presburger
  moreover have "c = 3" if "400 dvd y + 1"
    using zdvd_imp_le [OF that] assms b y by simp
  ultimately have "leap (y + 1) \<longrightarrow> i = 3 \<and> (q = 24 \<longrightarrow> c = 3)" unfolding leap_def by blast
  with y b s show thesis by (rule that)
qed

lemma year_last: "year_start 399 + year_days 399 = 146097"
  by (simp add: year_start_def year_days_def leap_def)

lemma placed_next:
  assumes "placed doe y doy"
  obtains (same) "doy + 1 < year_days y" "placed (doe + 1) y (doy + 1)"
  | (turn) "doy + 1 = year_days y" "y < 399" "placed (doe + 1) (y + 1) 0"
  | (cycle) "doy + 1 = year_days y" "y = 399" "doe + 1 = 146097"
proof (cases "doy + 1 < year_days y")
  case True
  with assms show thesis by (intro same) (simp_all add: placed_def)
next
  case False
  then have e: "doy + 1 = year_days y" using assms by (simp add: placed_def)
  show thesis
  proof (cases "y < 399")
    case True
    have "year_days (y + 1) > 0" by (simp add: year_days_def)
    then show thesis using e True assms year_after [of y] by (intro turn) (simp_all add: placed_def)
  next
    case False
    then have "y = 399" using assms by (simp add: placed_def)
    then show thesis using e assms year_last by (intro cycle) (simp_all add: placed_def)
  qed
qed

lemma placed_exists:
  assumes "0 \<le> doe" and "doe < 146097"
  obtains y doy where "placed doe y doy"
proof -
  have "\<exists>y doy. doe < 146097 \<longrightarrow> placed doe y doy"
    using assms(1)
  proof (induction doe rule: int_ge_induct)
    case base
    have "placed 0 0 0" by (simp add: placed_def year_start_def year_days_def)
    then show ?case by blast
  next
    case (step i)
    then obtain y doy where p: "i < 146097 \<longrightarrow> placed i y doy" by blast
    show ?case
    proof (cases "i + 1 < 146097")
      case True
      then have "placed i y doy" using p by simp
      then show ?thesis using True by (cases rule: placed_next) auto
    qed auto
  qed
  then show thesis using assms(2) that by blast
qed

text \<open>The year of the cycle is computed rightly: the divisions count the leap days passed, up to the day at issue.\<close>

lemma year_of_placed:
  assumes "placed doe y doy"
  shows "(doe - doe div 1460 + doe div 36524 - doe div 146096) div 365 = y"
proof -
  have d: "0 \<le> doy" "doy \<le> 365" "doy = 365 \<Longrightarrow> leap (y + 1)"
    using assms by (simp_all add: placed_def year_days_def split: if_splits)
  have "0 \<le> y" "y < 400" using assms by (simp_all add: placed_def)
  then obtain c q i where y: "y = 100 * c + 4 * q + i" and b: "0 \<le> c" "c \<le> 3" "0 \<le> q" "q \<le> 24" "0 \<le> i" "i \<le> 3"
    and s: "year_start y = 36524 * c + 1461 * q + 365 * i" and leaped: "leap (y + 1) \<longrightarrow> i = 3 \<and> (q = 24 \<longrightarrow> c = 3)"
    by (rule cycle_year)
  have doe: "doe = 36524 * c + 1461 * q + 365 * i + doy" using assms s by (simp add: placed_def)
  define v where "v = 24 * c + q + 365 * i + doy"
  define u where "u = 1461 * q + 365 * i + doy"
  have e1: "doe div 1460 = 25 * c + q + (if v \<ge> 1460 then 1 else 0)"
    using b d(1,2) unfolding doe v_def by (intro div_between) (simp_all split: if_splits)
  have e2: "doe div 36524 = c + (if u \<ge> 36524 then 1 else 0)"
    using b d(1,2) unfolding doe u_def by (intro div_between) (simp_all split: if_splits)
  have e3: "doe div 146096 = (if u \<ge> 36524 \<and> c = 3 then 1 else 0)"
    using b d(1,2) unfolding doe u_def by (intro div_between) (auto split: if_splits)
  define r where "r = doy - (if v \<ge> 1460 then 1 else 0) + (if u \<ge> 36524 then 1 else 0) - (if u \<ge> 36524 \<and> c = 3 then 1 else 0)"
  have "0 \<le> r \<and> r < 365"
  proof (cases "doy = 365")
    case True
    then have i: "i = 3" "q = 24 \<longrightarrow> c = 3" using leaped d(3) by blast+
    have "v \<ge> 1460" using i(1) True b unfolding v_def by simp
    moreover have "u \<ge> 36524 \<longrightarrow> q = 24" using i(1) True b unfolding u_def by simp
    ultimately show ?thesis using True i(2) by (auto simp: r_def)
  next
    case False
    then have "\<not> u \<ge> 36524" "v \<ge> 1460 \<longrightarrow> doy \<ge> 1" using b d(1,2) unfolding u_def v_def by simp_all
    then show ?thesis using False d(1,2) by (auto simp: r_def)
  qed
  moreover have "doe - doe div 1460 + doe div 36524 - doe div 146096 = 365 * y + r"
    unfolding e1 e2 e3 r_def unfolding doe y by simp
  ultimately show ?thesis by (intro div_between) simp_all
qed

definition month_day :: "int \<Rightarrow> int \<times> int" where
  "month_day doy = (let mp = (5 * doy + 2) div 153 in (if mp < 10 then mp + 3 else mp - 9, doy - (153 * mp + 2) div 5 + 1))"

text \<open>The months of a year from March, each with the day before its first.\<close>

lemma month_day_table:
  assumes "0 \<le> doy" and "doy \<le> 365"
  shows "month_day doy =
    (if doy < 31 then (3, doy + 1) else if doy < 61 then (4, doy - 30) else if doy < 92 then (5, doy - 60)
     else if doy < 122 then (6, doy - 91) else if doy < 153 then (7, doy - 121) else if doy < 184 then (8, doy - 152)
     else if doy < 214 then (9, doy - 183) else if doy < 245 then (10, doy - 213) else if doy < 275 then (11, doy - 244)
     else if doy < 306 then (12, doy - 274) else if doy < 337 then (1, doy - 305) else (2, doy - 336))"
proof -
  have "(5 * doy + 2) div 153 = (if doy < 31 then 0 else if doy < 61 then 1 else if doy < 92 then 2 else if doy < 122 then 3
      else if doy < 153 then 4 else if doy < 184 then 5 else if doy < 214 then 6 else if doy < 245 then 7
      else if doy < 275 then 8 else if doy < 306 then 9 else if doy < 337 then 10 else 11)"
    using assms by (intro div_between) (simp_all split: if_splits)
  then show ?thesis unfolding month_day_def Let_def by simp
qed

lemma civil_placed:
  assumes "placed doe y doy"
  shows "civil_of_days (146097 * era + doe - 719468) =
    (let (m, d) = month_day doy in (400 * era + y + (if m \<le> 2 then 1 else 0), m, d))"
proof -
  have "0 \<le> doe" "doe < 146097"
  proof -
    have y: "0 \<le> y" "y < 400" using assms by (simp_all add: placed_def)
    then obtain c q i where "0 \<le> c" "c \<le> 3" "0 \<le> q" "q \<le> 24" "0 \<le> i" "i \<le> 3" "year_start y = 36524 * c + 1461 * q + 365 * i"
      by (rule cycle_year)
    moreover have "doy \<le> 365" "0 \<le> doy" "doe = year_start y + doy"
      using assms by (simp_all add: placed_def year_days_def split: if_splits)
    ultimately show "0 \<le> doe" "doe < 146097" by linarith+
  qed
  then have e: "(146097 * era + doe) div 146097 = era" "(146097 * era + doe) mod 146097 = doe" by simp_all
  have doy: "doe - (365 * y + y div 4 - y div 100) = doy" using assms by (simp add: placed_def year_start_def)
  show ?thesis
    unfolding civil_of_days_def Let_def month_day_def diff_add_cancel e year_of_placed [OF assms] doy by simp
qed

lemma leap_cycle [simp]: "leap (400 * e + y) = leap y"
proof -
  have "4 dvd 400 * e" "100 dvd 400 * e" by simp_all
  then show ?thesis by (simp add: leap_def dvd_add_right_iff)
qed

text \<open>The day after, inside a year from March.\<close>

lemma next_in_year:
  assumes "0 \<le> doy" and "doy + 1 < year_days y"
  shows "next_date (let (m, d) = month_day doy in (400 * e + y + (if m \<le> 2 then 1 else 0), m, d))
    = (let (m, d) = month_day (doy + 1) in (400 * e + y + (if m \<le> 2 then 1 else 0), m, d))"
proof -
  have n: "doy + 1 \<le> 365" "doy + 1 = 365 \<Longrightarrow> leap (y + 1)" using assms(2) by (simp_all add: year_days_def split: if_splits)
  have l: "leap (400 * e + y + 1) = leap (y + 1)" using leap_cycle [of e "y + 1"] by (simp add: add.assoc)
  show ?thesis
    using assms(1) n by (auto simp: month_day_table next_date_def month_length_def l)
qed

lemma next_over_year:
  assumes "0 \<le> doy" and "doy + 1 = year_days y"
  shows "next_date (let (m, d) = month_day doy in (400 * e + y + (if m \<le> 2 then 1 else 0), m, d)) = (400 * e + y + 1, 3, 1)"
proof -
  have l: "leap (400 * e + y + 1) = leap (y + 1)" using leap_cycle [of e "y + 1"] by (simp add: add.assoc)
  show ?thesis
    using assms by (auto simp: month_day_table next_date_def month_length_def l year_days_def split: if_splits)
qed

lemma next_day: "civil_of_days (days + 1) = next_date (civil_of_days days)"
proof -
  define era where "era = (days + 719468) div 146097"
  define doe where "doe = (days + 719468) mod 146097"
  have split: "days = 146097 * era + doe - 719468" unfolding era_def doe_def by simp
  have "0 \<le> doe" "doe < 146097" by (simp_all add: doe_def)
  then obtain y doy where p: "placed doe y doy" by (rule placed_exists)
  have doy: "0 \<le> doy" using p by (simp add: placed_def)
  have now: "civil_of_days days = (let (m, d) = month_day doy in (400 * era + y + (if m \<le> 2 then 1 else 0), m, d))"
    unfolding split by (rule civil_placed [OF p])
  have first: "month_day 0 = (3, 1)" by (simp add: month_day_table)
  from p show ?thesis
  proof (cases rule: placed_next)
    case same
    have "days + 1 = 146097 * era + (doe + 1) - 719468" by (simp add: split)
    then have "civil_of_days (days + 1) = civil_of_days (146097 * era + (doe + 1) - 719468)" by (rule arg_cong)
    then show ?thesis unfolding now unfolding civil_placed [OF same(2), of era] using next_in_year [OF doy same(1)] by simp
  next
    case turn
    have "days + 1 = 146097 * era + (doe + 1) - 719468" by (simp add: split)
    then have "civil_of_days (days + 1) = civil_of_days (146097 * era + (doe + 1) - 719468)" by (rule arg_cong)
    then show ?thesis unfolding now unfolding civil_placed [OF turn(3), of era] using next_over_year [OF doy turn(1)] first by simp
  next
    case cycle
    have "placed 0 0 0" by (simp add: placed_def year_start_def year_days_def)
    moreover have "days + 1 = 146097 * (era + 1) + 0 - 719468" using cycle(3) by (simp add: split)
    ultimately have "civil_of_days (days + 1) = (400 * (era + 1), 3, 1)"
      by (simp only: civil_placed first) simp
    then show ?thesis unfolding now using next_over_year [OF doy cycle(1)] cycle(2) by simp
  qed
qed

text \<open>The day zero, and what the text of a bucket is.\<close>

lemma first_day: "civil_of_days 0 = (1970, 1, 1)"
  by code_simp

definition valid_date :: "int \<times> int \<times> int \<Rightarrow> bool" where
  "valid_date d = (case d of (y, m, n) \<Rightarrow> 1970 \<le> y \<and> 1 \<le> m \<and> m \<le> 12 \<and> 1 \<le> n \<and> n \<le> month_length y m)"

lemma month_length_pos: "28 \<le> month_length y m" "month_length y m \<le> 31"
  by (simp_all add: month_length_def)

lemma next_date_valid:
  assumes "valid_date d"
  shows "valid_date (next_date d)"
proof -
  obtain y m n where d: "d = (y, m, n)" by (cases d)
  have v: "1970 \<le> y" "1 \<le> m" "m \<le> 12" "1 \<le> n" using assms by (simp_all add: d valid_date_def)
  have one: "1 \<le> month_length y m" for y m using month_length_pos(1) [of y m] by linarith
  show ?thesis
  proof (cases "n < month_length y m")
    case True
    then show ?thesis using v by (simp add: d valid_date_def next_date_def)
  next
    case False
    then show ?thesis using v one by (simp add: d valid_date_def next_date_def)
  qed
qed

lemma civil_is_iterated: "civil_of_days (int n) = (next_date ^^ n) (1970, 1, 1)"
proof (induction n)
  case (Suc n)
  have "civil_of_days (int (Suc n)) = civil_of_days (int n + 1)" by (simp add: add.commute)
  then show ?case using next_day [of "int n"] Suc.IH by simp
qed (simp add: first_day)

lemma civil_valid: "valid_date (civil_of_days (int n))"
  unfolding civil_is_iterated
proof (induction n)
  case 0
  show ?case by (simp add: valid_date_def month_length_def)
qed (simp add: next_date_valid)

text \<open>No year gets past 2554 in 64 bits of nanoseconds: a year has at least 365 days.\<close>

lemma year_grows: "365 * (fst (civil_of_days (int n)) - 1970) \<le> int n"
proof -
  define era where "era = (int n + 719468) div 146097"
  define doe where "doe = (int n + 719468) mod 146097"
  have split: "int n = 146097 * era + doe - 719468" unfolding era_def doe_def by simp
  have "0 \<le> doe" "doe < 146097" by (simp_all add: doe_def)
  then obtain y doy where p: "placed doe y doy" by (rule placed_exists)
  then have y: "0 \<le> y" "y < 400" "0 \<le> doy" "doy \<le> 365" "doe = year_start y + doy"
    by (simp_all add: placed_def year_days_def split: if_splits)
  obtain c q i where cqi: "y = 100 * c + 4 * q + i" "0 \<le> c" "c \<le> 3" "0 \<le> q" "q \<le> 24" "0 \<le> i" "i \<le> 3"
    "year_start y = 36524 * c + 1461 * q + 365 * i"
    by (rule cycle_year [OF y(1,2)])
  have era: "era \<ge> 4" unfolding era_def using zdiv_mono1 [of 719468 "int n + 719468" 146097] by simp
  obtain m d where md: "month_day doy = (m, d)" by (cases "month_day doy")
  have "civil_of_days (int n) = (400 * era + y + (if m \<le> 2 then 1 else 0), m, d)"
    unfolding split civil_placed [OF p] md by simp
  moreover have "m \<le> 2 \<longrightarrow> 306 \<le> doy" using md y(3,4) by (simp add: month_day_table split: if_splits)
  moreover have "783 \<le> q + (24 * c + (97 * era + 306))" "418 \<le> q + (24 * c + 97 * era)"
  proof -
    have n: "719468 \<le> 146097 * era + doe" using split by linarith
    have "c = 3 \<and> 17 \<le> q" if "era = 4"
    proof -
      have "135080 \<le> 36524 * c + 1461 * q + 365 * i + doy" using n that y(5) cqi(8) by simp
      moreover have "\<not> c \<le> 2" using calculation cqi(5,7) y(4) by linarith
      ultimately show ?thesis using cqi(3,7) y(4) by linarith
    qed
    then show "783 \<le> q + (24 * c + (97 * era + 306))" "418 \<le> q + (24 * c + 97 * era)"
      using era cqi(2,4) by (cases "era = 4"; simp)+
  qed
  ultimately show ?thesis using cqi y(3-5) unfolding split by (auto split: if_splits)
qed

text \<open>C38: a span is counted under the calendar day of its start. The days since 1970 give, one after another, the
  dates of the Gregorian calendar from the first of January 1970, and the text of the bucket is always that date,
  as four, two and two digits with dashes between: a key of ten bytes whatever the time stamp.\<close>

theorem buckets_are_calendar_days:
  "\<exists>y m d. (next_date ^^ (unat t div 1000000000 div 86400)) (1970, 1, 1) = (y, m, d) \<and> valid_date (y, m, d)
    \<and> y < 2555 \<and> day_bucket t = padded 4 (nat y) @ [45] @ padded 2 (nat m) @ [45] @ padded 2 (nat d) \<and> length (day_bucket t) = 10"
proof -
  let ?n = "unat t div 1000000000 div 86400"
  obtain y m d where date: "civil_of_days (int ?n) = (y, m, d)" by (cases "civil_of_days (int ?n)")
  have v: "valid_date (y, m, d)" using civil_valid [of ?n] date by simp
  have "?n \<le> (2 ^ 64 - 1) div 1000000000 div 86400" using unat_lt [of t] by (intro div_le_mono) simp
  then have y: "y < 2555" using year_grows [of ?n] date by simp
  have bucket: "day_bucket t = padded 4 (nat y) @ [45] @ padded 2 (nat m) @ [45] @ padded 2 (nat d)"
    using date by (simp add: day_bucket_def zdiv_int)
  moreover have "d \<le> 31" using v month_length_pos(2) [of y m] unfolding valid_date_def prod.case by linarith
  moreover have "m \<le> 12" "nat y < 10000" using v y by (simp_all add: valid_date_def)
  ultimately have "length (day_bucket t) = 10" by (simp add: length_padded nat_less_iff)
  with date v y bucket show ?thesis by (metis civil_is_iterated)
qed

end
