(* ===== verification/Rollup.thy ===== *)
theory Rollup
  imports Civil_Day Pricing Supersede
begin

text \<open>
  The counters of a segment's rollup (\<open>Counters\<close>, \<open>SessionCounters\<close> and \<open>SegmentRollup\<close> of
  \<open>src/src/analytics.rs\<close>, \<open>payload_refs_of\<close> of \<open>src/src/erasure.rs\<close>) and what they count. A \<open>usize\<close> has 64 bits. A
  hash map is a partial map and a hash set a set: no result depends on their order, except the sums of \<open>f64\<close>
  costs, which are folded in the order the code folds them.
\<close>

section \<open>Counters\<close>

record counters =
  c_spans :: u64
  c_llm_calls :: u64
  c_prompt_tokens :: u64
  c_completion_tokens :: u64
  c_total_tokens :: u64
  c_cost_usd :: f64
  c_cost_derived_usd :: f64
  c_metered_calls :: u64
  c_derived_calls :: u64
  c_unpriced_calls :: u64
  c_errors :: u64
  c_llm_duration_ns :: u64

definition counters_default :: counters where
  "counters_default =
     \<lparr>c_spans = 0, c_llm_calls = 0, c_prompt_tokens = 0, c_completion_tokens = 0, c_total_tokens = 0, c_cost_usd = 0,
      c_cost_derived_usd = 0, c_metered_calls = 0, c_derived_calls = 0, c_unpriced_calls = 0, c_errors = 0,
      c_llm_duration_ns = 0\<rparr>"

text \<open>\<open>f64::MIN\<close> and \<open>f64::MAX\<close> by their bits.\<close>

definition finite_saturating_add :: "f64_lib \<Rightarrow> f64 \<Rightarrow> f64 \<Rightarrow> f64" where
  "finite_saturating_add lib left right =
     (let total = f64_add lib left right
      in if f64_is_finite total then total else if bit total 63 then 0xFFEFFFFFFFFFFFFF else 0x7FEFFFFFFFFFFFFF)"

definition count_cost :: "f64_lib \<Rightarrow> llm_facts \<Rightarrow> counters \<Rightarrow> counters" where
  "count_cost lib f c =
     (case lf_cost_usd f of
        Some cost \<Rightarrow>
          if lf_cost_derived f
          then c\<lparr>c_cost_derived_usd := finite_saturating_add lib (c_cost_derived_usd c) cost,
                 c_derived_calls := u64_saturating_add (c_derived_calls c) 1\<rparr>
          else c\<lparr>c_metered_calls := u64_saturating_add (c_metered_calls c) 1\<rparr>
      | None \<Rightarrow> if lf_is_llm f then c\<lparr>c_unpriced_calls := u64_saturating_add (c_unpriced_calls c) 1\<rparr> else c)"

definition counters_absorb :: "f64_lib \<Rightarrow> span \<Rightarrow> llm_facts \<Rightarrow> counters \<Rightarrow> counters" where
  "counters_absorb lib s f c =
     (let c = c\<lparr>c_spans := u64_saturating_add (c_spans c) 1\<rparr>;
          c = (if status s = ascii ''error'' then c\<lparr>c_errors := u64_saturating_add (c_errors c) 1\<rparr> else c);
          c = (if lf_is_llm f
               then c\<lparr>c_llm_calls := u64_saturating_add (c_llm_calls c) 1,
                      c_llm_duration_ns := u64_saturating_add (c_llm_duration_ns c) (saturating_sub (end_time_ns s) (start_time_ns s))\<rparr>
               else c);
          c = c\<lparr>c_prompt_tokens := u64_saturating_add (c_prompt_tokens c) (or_zero (lf_prompt_tokens f)),
                c_completion_tokens := u64_saturating_add (c_completion_tokens c) (or_zero (lf_completion_tokens f)),
                c_total_tokens := u64_saturating_add (c_total_tokens c) (facts_total f),
                c_cost_usd := finite_saturating_add lib (c_cost_usd c) (or_zero (lf_cost_usd f))\<rparr>
      in count_cost lib f c)"

definition counters_merge :: "f64_lib \<Rightarrow> counters \<Rightarrow> counters \<Rightarrow> counters" where
  "counters_merge lib c other =
     \<lparr>c_spans = u64_saturating_add (c_spans c) (c_spans other),
      c_llm_calls = u64_saturating_add (c_llm_calls c) (c_llm_calls other),
      c_prompt_tokens = u64_saturating_add (c_prompt_tokens c) (c_prompt_tokens other),
      c_completion_tokens = u64_saturating_add (c_completion_tokens c) (c_completion_tokens other),
      c_total_tokens = u64_saturating_add (c_total_tokens c) (c_total_tokens other),
      c_cost_usd = finite_saturating_add lib (c_cost_usd c) (c_cost_usd other),
      c_cost_derived_usd = finite_saturating_add lib (c_cost_derived_usd c) (c_cost_derived_usd other),
      c_metered_calls = u64_saturating_add (c_metered_calls c) (c_metered_calls other),
      c_derived_calls = u64_saturating_add (c_derived_calls c) (c_derived_calls other),
      c_unpriced_calls = u64_saturating_add (c_unpriced_calls c) (c_unpriced_calls other),
      c_errors = u64_saturating_add (c_errors c) (c_errors other),
      c_llm_duration_ns = u64_saturating_add (c_llm_duration_ns c) (c_llm_duration_ns other)\<rparr>"

section \<open>Sessions\<close>

record session_counters =
  sc_counters :: counters
  sc_first_start_ns :: u64
  sc_last_end_ns :: u64
  sc_traces :: "bytes set"
  sc_session_key :: "bytes option"

definition session_default :: session_counters where
  "session_default =
     \<lparr>sc_counters = counters_default, sc_first_start_ns = 0, sc_last_end_ns = 0, sc_traces = {}, sc_session_key = None\<rparr>"

definition key_rank :: "bytes \<Rightarrow> nat" where
  "key_rank key = (if key \<in> set SESSION_KEYS then length (takeWhile (\<lambda>known. known \<noteq> key) SESSION_KEYS) else 2 ^ 64 - 1)"

fun prefer_key :: "bytes option \<Rightarrow> bytes option \<Rightarrow> bytes option" where
  "prefer_key None other = other"
| "prefer_key (Some key) None = Some key"
| "prefer_key (Some key) (Some candidate) = (if key_rank candidate < key_rank key then Some candidate else Some key)"

definition session_absorb :: "f64_lib \<Rightarrow> span \<Rightarrow> llm_facts \<Rightarrow> session_counters \<Rightarrow> session_counters" where
  "session_absorb lib s f sc =
     sc\<lparr>sc_first_start_ns := (if c_spans (sc_counters sc) = 0 \<or> start_time_ns s < sc_first_start_ns sc then start_time_ns s
                             else sc_first_start_ns sc),
        sc_last_end_ns := (if end_time_ns s > sc_last_end_ns sc then end_time_ns s else sc_last_end_ns sc),
        sc_traces := insert (trace_id s) (sc_traces sc),
        sc_session_key := prefer_key (sc_session_key sc) (lf_session_key f),
        sc_counters := counters_absorb lib s f (sc_counters sc)\<rparr>"

definition session_merge :: "f64_lib \<Rightarrow> session_counters \<Rightarrow> session_counters \<Rightarrow> session_counters" where
  "session_merge lib sc other =
     sc\<lparr>sc_first_start_ns := (if c_spans (sc_counters sc) = 0 \<or> sc_first_start_ns other < sc_first_start_ns sc
                             then sc_first_start_ns other else sc_first_start_ns sc),
        sc_last_end_ns := (if sc_last_end_ns other > sc_last_end_ns sc then sc_last_end_ns other else sc_last_end_ns sc),
        sc_traces := sc_traces sc \<union> sc_traces other,
        sc_session_key := prefer_key (sc_session_key sc) (sc_session_key other),
        sc_counters := counters_merge lib (sc_counters sc) (sc_counters other)\<rparr>"

definition SESSION_ATTRIBUTE :: bytes where
  "SESSION_ATTRIBUTE = ascii ''session.id''"

definition session_attribute :: "session_counters \<Rightarrow> bytes" where
  "session_attribute sc = (case sc_session_key sc of Some key \<Rightarrow> key | None \<Rightarrow> SESSION_ATTRIBUTE)"

section \<open>The rollup\<close>

record rollup_bounds =
  rb_min_start_ns :: u64
  rb_max_start_ns :: u64
  rb_min_end_ns :: u64
  rb_max_end_ns :: u64

record segment_rollup =
  ro_bounds :: rollup_bounds
  ro_by_model :: "bytes \<rightharpoonup> counters"
  ro_by_provider :: "bytes \<rightharpoonup> counters"
  ro_by_service :: "bytes \<rightharpoonup> counters"
  ro_by_day :: "bytes \<rightharpoonup> counters"
  ro_by_session_key :: "bytes \<times> bytes \<rightharpoonup> counters"
  ro_sessions :: "bytes \<times> bytes \<rightharpoonup> session_counters"
  ro_key_hashes :: "u64 set"
  ro_payload_refs :: "bytes set"

definition rollup_empty :: "rollup_bounds \<Rightarrow> segment_rollup" where
  "rollup_empty b =
     \<lparr>ro_bounds = b, ro_by_model = Map.empty, ro_by_provider = Map.empty, ro_by_service = Map.empty, ro_by_day = Map.empty,
      ro_by_session_key = Map.empty, ro_sessions = Map.empty, ro_key_hashes = {}, ro_payload_refs = {}\<rparr>"

text \<open>\<open>payload_refs_of\<close>: a redaction marker is no reference.\<close>

definition carried_ref :: "json \<Rightarrow> bytes option" where
  "carried_ref v =
     (case v of
        JObject entries \<Rightarrow>
          if map_of entries (ascii ''erased'') = Some (JBool True) then None
          else (case map_of entries PAYLOAD_KEY of Some (JString reference) \<Rightarrow> Some reference | _ \<Rightarrow> None)
      | _ \<Rightarrow> None)"

definition payload_refs_of :: "span \<Rightarrow> bytes set" where
  "payload_refs_of s = set (List.map_filter (carried_ref \<circ> snd) (concat (payload_maps s)))"

text \<open>\<open>entry(k).or_default()\<close>, updated.\<close>

definition entry :: "'k option \<Rightarrow> 'v \<Rightarrow> ('v \<Rightarrow> 'v) \<Rightarrow> ('k \<rightharpoonup> 'v) \<Rightarrow> ('k \<rightharpoonup> 'v)" where
  "entry key dflt f m =
     (case key of None \<Rightarrow> m | Some k \<Rightarrow> m(k \<mapsto> f (case m k of None \<Rightarrow> dflt | Some v \<Rightarrow> v)))"

definition span_facts :: "f64_lib \<Rightarrow> pricing \<Rightarrow> span \<Rightarrow> llm_facts" where
  "span_facts lib p s = priced lib p (facts (number_lib.truncate lib) (attributes s))"

text \<open>The session a span is counted under: its tenant and the session its facts name.\<close>

definition session_of :: "f64_lib \<Rightarrow> pricing \<Rightarrow> span \<Rightarrow> (bytes \<times> bytes) option" where
  "session_of lib p s = map_option (Pair (tenant s)) (lf_session (span_facts lib p s))"

definition bounds_absorb :: "span \<Rightarrow> rollup_bounds \<Rightarrow> rollup_bounds" where
  "bounds_absorb s b =
     \<lparr>rb_min_start_ns = min (rb_min_start_ns b) (start_time_ns s), rb_max_start_ns = max (rb_max_start_ns b) (start_time_ns s),
      rb_min_end_ns = min (rb_min_end_ns b) (end_time_ns s), rb_max_end_ns = max (rb_max_end_ns b) (end_time_ns s)\<rparr>"

definition rollup_absorb :: "f64_lib \<Rightarrow> pricing \<Rightarrow> span \<Rightarrow> segment_rollup \<Rightarrow> segment_rollup" where
  "rollup_absorb lib p s r =
     (let f = span_facts lib p s; absorb = counters_absorb lib s f; session = session_of lib p s
      in \<lparr>ro_bounds = bounds_absorb s (ro_bounds r),
          ro_by_model = entry (lf_model f) counters_default absorb (ro_by_model r),
          ro_by_provider = entry (lf_provider f) counters_default absorb (ro_by_provider r),
          ro_by_service = entry (Some (service s)) counters_default absorb (ro_by_service r),
          ro_by_day = entry (Some (day_bucket (start_time_ns s))) counters_default absorb (ro_by_day r),
          ro_by_session_key = entry session counters_default absorb (ro_by_session_key r),
          ro_sessions = entry session session_default (session_absorb lib s f) (ro_sessions r),
          ro_key_hashes = insert (key_hash (key_of s)) (ro_key_hashes r),
          ro_payload_refs = ro_payload_refs r \<union> payload_refs_of s\<rparr>)"

definition rollup_build :: "f64_lib \<Rightarrow> pricing \<Rightarrow> span list \<Rightarrow> segment_rollup" where
  "rollup_build lib p spans =
     (let r = fold (rollup_absorb lib p) spans
                (rollup_empty \<lparr>rb_min_start_ns = - 1, rb_max_start_ns = 0, rb_min_end_ns = - 1, rb_max_end_ns = 0\<rparr>);
          b = ro_bounds r
      in r\<lparr>ro_bounds := b\<lparr>rb_min_start_ns := (if rb_min_start_ns b = - 1 then 0 else rb_min_start_ns b),
                            rb_min_end_ns := (if rb_min_end_ns b = - 1 then 0 else rb_min_end_ns b)\<rparr>\<rparr>)"

end
