(* ===== verification/Rollup_Counts.thy ===== *)
theory Rollup_Counts
  imports Rollup
begin

text \<open>
  What the counters count: a counter that saturates is the saturated sum of its spans' weights, in whatever order
  spans were absorbed and counters merged, so a rollup is a function of the multiset of its spans, up to the
  rounding of \<open>f64\<close> sums.
\<close>

section \<open>Saturated sums\<close>

definition saturated :: "nat \<Rightarrow> u64" where
  "saturated n = of_nat (min n (2 ^ 64 - 1))"

lemma unat_saturated: "unat (saturated n) = min n (2 ^ 64 - 1)"
  unfolding saturated_def by (rule unat_of_nat_u64) simp

lemma saturated_unat [simp]: "saturated (unat w) = w" for w :: u64
  using unat_u64_lt [of w] by (simp add: word_unat_eq_iff unat_saturated)

lemma saturated_add: "u64_saturating_add (saturated a) (saturated b) = saturated (a + b)"
proof (cases "unat (saturated a) + unat (saturated b) < 2 ^ 64")
  case True
  then have "min a (2 ^ 64 - 1) + min b (2 ^ 64 - 1) < (2 ^ 64 :: nat)" by (simp only: unat_saturated)
  then have "unat (saturated a + saturated b) = min a (2 ^ 64 - 1) + min b (2 ^ 64 - 1)"
    using True by (simp add: unat_add_lt unat_saturated)
  moreover have "\<dots> = min (a + b) (2 ^ 64 - 1)" using \<open>min a (2 ^ 64 - 1) + min b (2 ^ 64 - 1) < 2 ^ 64\<close> by (simp add: min_def split: if_splits)
  ultimately show ?thesis using True by (simp add: word_unat_eq_iff u64_saturating_add_def unat_saturated)
next
  case False
  then have "a + b \<ge> 2 ^ 64 - 1" by (simp add: unat_saturated min_def split: if_splits)
  then have "saturated (a + b) = - 1" by (simp add: saturated_def min_absorb2)
  then show ?thesis using False by (simp add: u64_saturating_add_def)
qed

lemma saturated_add_word: "u64_saturating_add (saturated a) w = saturated (a + unat w)"
  using saturated_add [of a "unat w"] by simp

lemma saturated_small [simp]: "saturated 0 = 0" "saturated (Suc 0) = 1"
  by (simp_all add: saturated_def)

section \<open>What a counter weighs\<close>

text \<open>Every counter but the two sums of costs, with the weight a span has in it.\<close>

definition flag :: "bool \<Rightarrow> nat" where
  "flag b = (if b then 1 else 0)"

definition span_measures :: "f64_lib \<Rightarrow> pricing \<Rightarrow> ((counters \<Rightarrow> u64) \<times> (span \<Rightarrow> nat)) list" where
  "span_measures lib p =
     (let f = span_facts lib p
      in [(c_spans, \<lambda>s. 1),
          (c_llm_calls, \<lambda>s. flag (lf_is_llm (f s))),
          (c_prompt_tokens, \<lambda>s. unat (or_zero (lf_prompt_tokens (f s)))),
          (c_completion_tokens, \<lambda>s. unat (or_zero (lf_completion_tokens (f s)))),
          (c_total_tokens, \<lambda>s. unat (facts_total (f s))),
          (c_metered_calls, \<lambda>s. flag (lf_cost_usd (f s) \<noteq> None \<and> \<not> lf_cost_derived (f s))),
          (c_derived_calls, \<lambda>s. flag (lf_cost_usd (f s) \<noteq> None \<and> lf_cost_derived (f s))),
          (c_unpriced_calls, \<lambda>s. flag (lf_is_llm (f s) \<and> lf_cost_usd (f s) = None)),
          (c_errors, \<lambda>s. flag (status s = ascii ''error'')),
          (c_llm_duration_ns, \<lambda>s. if lf_is_llm (f s) then unat (saturating_sub (end_time_ns s) (start_time_ns s)) else 0)])"

definition tallies :: "f64_lib \<Rightarrow> pricing \<Rightarrow> counters \<Rightarrow> span multiset \<Rightarrow> bool" where
  "tallies lib p c ss \<longleftrightarrow> list_all (\<lambda>(field, weight). field c = saturated (\<Sum>s\<in>#ss. weight s)) (span_measures lib p)"

lemma tallies_default: "tallies lib p counters_default {#}"
  by (simp add: tallies_def span_measures_def Let_def counters_default_def)

lemma absorb_weighs:
  assumes "(field, weight) \<in> set (span_measures lib p)"
  shows "field (counters_absorb lib s (span_facts lib p s) c) = u64_saturating_add (field c) (saturated (weight s))"
proof -
  have zero: "u64_saturating_add w 0 = w" for w using saturated_add_word [of "unat w" 0] by simp
  show ?thesis
    using assms unfolding span_measures_def Let_def
    by (auto simp: counters_absorb_def count_cost_def Let_def flag_def zero split: option.split)
qed

lemma tallies_absorb: "tallies lib p c ss \<Longrightarrow> tallies lib p (counters_absorb lib s (span_facts lib p s) c) (add_mset s ss)"
  unfolding tallies_def list_all_iff
  by (fastforce simp: absorb_weighs saturated_add add.commute)

lemma merge_weighs:
  assumes "(field, weight) \<in> set (span_measures lib p)"
  shows "field (counters_merge lib c d) = u64_saturating_add (field c) (field d)"
  using assms unfolding span_measures_def Let_def by (auto simp: counters_merge_def)

lemma tallies_merge: "tallies lib p c xs \<Longrightarrow> tallies lib p d ys \<Longrightarrow> tallies lib p (counters_merge lib c d) (xs + ys)"
  unfolding tallies_def list_all_iff
  by (fastforce simp: merge_weighs saturated_add [symmetric])

lemma tallies_spans: "tallies lib p c ss \<Longrightarrow> c_spans c = 0 \<longleftrightarrow> ss = {#}"
proof -
  assume "tallies lib p c ss"
  then have "c_spans c = saturated (size ss)" by (simp add: tallies_def span_measures_def Let_def)
  moreover have "saturated (size ss) = 0 \<longleftrightarrow> size ss = 0"
  proof
    assume "saturated (size ss) = 0"
    then have "min (size ss) (2 ^ 64 - 1) = 0" using unat_saturated [of "size ss"] by simp
    then show "size ss = 0" by (simp add: min_def split: if_splits)
  qed simp
  ultimately show ?thesis by simp
qed

section \<open>What a session's counters say\<close>

definition option_rank :: "bytes option \<Rightarrow> nat" where
  "option_rank key = (case key of None \<Rightarrow> 2 ^ 64 | Some k \<Rightarrow> key_rank k)"

definition preferred :: "bytes option \<Rightarrow> bytes option set \<Rightarrow> bool" where
  "preferred key keys \<longleftrightarrow> key \<in> keys \<and> (\<forall>other \<in> keys. option_rank key \<le> option_rank other)"

lemma key_rank_lt: "key_rank k < 2 ^ 64"
proof -
  have "length (takeWhile (\<lambda>known. known \<noteq> k) SESSION_KEYS) \<le> length SESSION_KEYS" by (rule length_takeWhile_le)
  moreover have "length SESSION_KEYS < 2 ^ 64" by (simp add: SESSION_KEYS_def)
  ultimately show ?thesis by (simp add: key_rank_def)
qed

lemma key_rank_known [simp]: "\<not> 18446744073709551616 \<le> key_rank k" "key_rank k < 18446744073709551616"
  using key_rank_lt [of k] by simp_all

lemma prefer_key_cases: "prefer_key a b = (if option_rank b < option_rank a then b else a)"
  by (cases "(a, b)" rule: prefer_key.cases) (auto simp: option_rank_def not_less split: option.splits intro: less_imp_le)

lemma preferred_union: "preferred a A \<Longrightarrow> preferred b B \<Longrightarrow> preferred (prefer_key a b) (A \<union> B)"
  unfolding prefer_key_cases preferred_def by (auto intro: order_trans less_imp_le)

lemma preferred_one [simp]: "preferred a {a}"
  by (simp add: preferred_def)

definition session_key_of :: "f64_lib \<Rightarrow> pricing \<Rightarrow> span \<Rightarrow> bytes option" where
  "session_key_of lib p s = lf_session_key (span_facts lib p s)"

text \<open>The extent, the traces and the key of a session are those of its spans.\<close>

definition session_tallies :: "f64_lib \<Rightarrow> pricing \<Rightarrow> session_counters \<Rightarrow> span multiset \<Rightarrow> bool" where
  "session_tallies lib p sc ss \<longleftrightarrow>
     tallies lib p (sc_counters sc) ss
     \<and> (if ss = {#} then sc = session_default
        else sc_first_start_ns sc = Min (start_time_ns ` set_mset ss) \<and> sc_last_end_ns sc = Max (end_time_ns ` set_mset ss)
             \<and> sc_traces sc = trace_id ` set_mset ss \<and> preferred (sc_session_key sc) (session_key_of lib p ` set_mset ss))"

lemma session_tallies_default: "session_tallies lib p session_default {#}"
  by (simp add: session_tallies_def session_default_def tallies_default)

lemma max_if: "(if b > a then b else a) = max a b" for a b :: "'a::linorder"
  by (auto simp: max_def not_less)

lemma min_if: "(if b < a then b else a) = min a b" for a b :: "'a::linorder"
  by (auto simp: min_def not_less)

lemma session_tallies_merge:
  assumes "session_tallies lib p sc xs" and "session_tallies lib p other ys" and "ys \<noteq> {#}"
  shows "session_tallies lib p (session_merge lib sc other) (xs + ys)"
proof -
  have t: "tallies lib p (counters_merge lib (sc_counters sc) (sc_counters other)) (xs + ys)"
    using assms(1,2) by (simp add: session_tallies_def tallies_merge)
  have empty: "c_spans (sc_counters sc) = 0 \<longleftrightarrow> xs = {#}"
    using assms(1) tallies_spans unfolding session_tallies_def by blast
  have o: "sc_first_start_ns other = Min (start_time_ns ` set_mset ys)" "sc_last_end_ns other = Max (end_time_ns ` set_mset ys)"
    "sc_traces other = trace_id ` set_mset ys" "preferred (sc_session_key other) (session_key_of lib p ` set_mset ys)"
    using assms(2,3) by (simp_all add: session_tallies_def)
  show ?thesis
  proof (cases "xs = {#}")
    case True
    then have "sc = session_default" using assms(1) by (simp add: session_tallies_def)
    then show ?thesis
      using t o assms(3) True unfolding session_tallies_def
      by (simp add: session_merge_def session_default_def counters_default_def word_gt_0)
  next
    case False
    then have x: "sc_first_start_ns sc = Min (start_time_ns ` set_mset xs)" "sc_last_end_ns sc = Max (end_time_ns ` set_mset xs)"
      "sc_traces sc = trace_id ` set_mset xs" "preferred (sc_session_key sc) (session_key_of lib p ` set_mset xs)"
      using assms(1) by (simp_all add: session_tallies_def)
    have ne: "set_mset xs \<noteq> {}" "set_mset ys \<noteq> {}" using False assms(3) by simp_all
    let ?m = "session_merge lib sc other"
    have "sc_first_start_ns ?m = min (sc_first_start_ns sc) (sc_first_start_ns other)"
      "sc_last_end_ns ?m = max (sc_last_end_ns sc) (sc_last_end_ns other)"
      "sc_traces ?m = sc_traces sc \<union> sc_traces other" "sc_session_key ?m = prefer_key (sc_session_key sc) (sc_session_key other)"
      "sc_counters ?m = counters_merge lib (sc_counters sc) (sc_counters other)"
      using empty False by (simp_all add: session_merge_def max_if min_if)
    then show ?thesis
      using t x(1-3) o(1-3) False ne preferred_union [OF x(4) o(4)] unfolding session_tallies_def
      by (simp add: image_Un Min_Un Max_Un)
  qed
qed

lemma session_tallies_absorb:
  assumes "session_tallies lib p sc ss"
  shows "session_tallies lib p (session_absorb lib s (span_facts lib p s) sc) (add_mset s ss)"
proof -
  have t: "tallies lib p (counters_absorb lib s (span_facts lib p s) (sc_counters sc)) (add_mset s ss)"
    using assms by (simp add: session_tallies_def tallies_absorb)
  let ?a = "session_absorb lib s (span_facts lib p s) sc"
  have empty: "c_spans (sc_counters sc) = 0 \<longleftrightarrow> ss = {#}"
    using assms tallies_spans unfolding session_tallies_def by blast
  show ?thesis
  proof (cases "ss = {#}")
    case True
    then have "sc = session_default" using assms by (simp add: session_tallies_def)
    then show ?thesis
      using t True unfolding session_tallies_def
      by (simp add: session_absorb_def session_default_def counters_default_def word_gt_0 session_key_of_def)
  next
    case False
    then have x: "sc_first_start_ns sc = Min (start_time_ns ` set_mset ss)" "sc_last_end_ns sc = Max (end_time_ns ` set_mset ss)"
      "sc_traces sc = trace_id ` set_mset ss" "preferred (sc_session_key sc) (session_key_of lib p ` set_mset ss)"
      using assms by (simp_all add: session_tallies_def)
    have "preferred (prefer_key (sc_session_key sc) (session_key_of lib p s)) (session_key_of lib p ` set_mset ss \<union> {session_key_of lib p s})"
      by (rule preferred_union [OF x(4)]) simp
    moreover have "sc_first_start_ns ?a = min (start_time_ns s) (sc_first_start_ns sc)"
      "sc_last_end_ns ?a = max (end_time_ns s) (sc_last_end_ns sc)"
      "sc_traces ?a = insert (trace_id s) (sc_traces sc)"
      "sc_session_key ?a = prefer_key (sc_session_key sc) (session_key_of lib p s)"
      "sc_counters ?a = counters_absorb lib s (span_facts lib p s) (sc_counters sc)"
      using empty False
      by (simp_all add: session_absorb_def max_if min_if session_key_of_def min.commute max.commute)
    ultimately show ?thesis
      using t x(1-3) False unfolding session_tallies_def by simp
  qed
qed

section \<open>Maps of counters\<close>

text \<open>A map that counts, under each key, the spans of that key; a key without spans is not in it.\<close>

definition gathers :: "('c \<Rightarrow> span multiset \<Rightarrow> bool) \<Rightarrow> (span \<Rightarrow> 'k option) \<Rightarrow> span multiset \<Rightarrow> ('k \<rightharpoonup> 'c) \<Rightarrow> bool" where
  "gathers counts key ss m \<longleftrightarrow>
     (\<forall>k. let part = filter_mset (\<lambda>s. key s = Some k) ss in
        case m k of None \<Rightarrow> part = {#} | Some c \<Rightarrow> part \<noteq> {#} \<and> counts c part)"

lemma gathers_empty: "gathers counts key {#} Map.empty"
  by (simp add: gathers_def)

lemma gathers_held:
  assumes "gathers counts key ss m" and "counts dflt {#}"
  shows "counts (case m k of None \<Rightarrow> dflt | Some v \<Rightarrow> v) (filter_mset (\<lambda>s. key s = Some k) ss)"
proof -
  define part where "part = filter_mset (\<lambda>s. key s = Some k) ss"
  have "case m k of None \<Rightarrow> part = {#} | Some c \<Rightarrow> part \<noteq> {#} \<and> counts c part"
    using assms(1) unfolding gathers_def part_def Let_def by (rule spec)
  then show ?thesis using assms(2) unfolding part_def [symmetric] by (cases "m k") auto
qed

lemma gathers_entry:
  assumes "gathers counts key ss m" and "counts dflt {#}" and "\<And>c part. counts c part \<Longrightarrow> counts (f c) (add_mset s part)"
  shows "gathers counts key (add_mset s ss) (entry (key s) dflt f m)"
proof (cases "key s")
  case None
  then show ?thesis using assms(1) by (simp add: gathers_def entry_def)
next
  case (Some k)
  have "counts (f (case m k of None \<Rightarrow> dflt | Some v \<Rightarrow> v)) (add_mset s (filter_mset (\<lambda>s. key s = Some k) ss))"
    by (rule assms(3), rule gathers_held [OF assms(1,2)])
  then show ?thesis using assms(1) Some by (simp add: gathers_def entry_def Let_def)
qed

text \<open>\<open>entry(k).or_default().merge(c)\<close> for every entry of another map; each key is there once.\<close>

definition merge_entries :: "('c \<Rightarrow> 'c \<Rightarrow> 'c) \<Rightarrow> 'c \<Rightarrow> ('k \<rightharpoonup> 'c) \<Rightarrow> ('k \<rightharpoonup> 'c) \<Rightarrow> ('k \<rightharpoonup> 'c)" where
  "merge_entries merge dflt m other =
     (\<lambda>k. case other k of None \<Rightarrow> m k | Some c \<Rightarrow> Some (merge (case m k of None \<Rightarrow> dflt | Some v \<Rightarrow> v) c))"

lemma gathers_merge:
  assumes gx: "gathers counts key xs m" and gy: "gathers counts key ys other" and d: "counts dflt {#}"
    and merge: "\<And>c d xs ys. counts c xs \<Longrightarrow> counts d ys \<Longrightarrow> ys \<noteq> {#} \<Longrightarrow> counts (merge c d) (xs + ys)"
  shows "gathers counts key (xs + ys) (merge_entries merge dflt m other)"
  unfolding gathers_def Let_def
proof
  fix k
  define x y where "x = filter_mset (\<lambda>s. key s = Some k) xs" and "y = filter_mset (\<lambda>s. key s = Some k) ys"
  have cx: "case m k of None \<Rightarrow> x = {#} | Some c \<Rightarrow> x \<noteq> {#} \<and> counts c x"
    using gx unfolding gathers_def x_def Let_def by (rule spec)
  have cy: "case other k of None \<Rightarrow> y = {#} | Some c \<Rightarrow> y \<noteq> {#} \<and> counts c y"
    using gy unfolding gathers_def y_def Let_def by (rule spec)
  have held: "counts (case m k of None \<Rightarrow> dflt | Some v \<Rightarrow> v) x" unfolding x_def by (rule gathers_held [OF gx d])
  have xy: "filter_mset (\<lambda>s. key s = Some k) (xs + ys) = x + y" by (simp add: x_def y_def)
  show "case merge_entries merge dflt m other k of None \<Rightarrow> filter_mset (\<lambda>s. key s = Some k) (xs + ys) = {#}
      | Some c \<Rightarrow> filter_mset (\<lambda>s. key s = Some k) (xs + ys) \<noteq> {#} \<and> counts c (filter_mset (\<lambda>s. key s = Some k) (xs + ys))"
    unfolding xy
  proof (cases "other k")
    case None
    then show "case merge_entries merge dflt m other k of None \<Rightarrow> x + y = {#} | Some c \<Rightarrow> x + y \<noteq> {#} \<and> counts c (x + y)"
      using cx cy by (cases "m k") (simp_all add: merge_entries_def)
  next
    case (Some c)
    then show "case merge_entries merge dflt m other k of None \<Rightarrow> x + y = {#} | Some c \<Rightarrow> x + y \<noteq> {#} \<and> counts c (x + y)"
      using cy merge [OF held, of c y] by (simp add: merge_entries_def)
  qed
qed

section \<open>What a rollup counts\<close>

definition rollup_counts :: "f64_lib \<Rightarrow> pricing \<Rightarrow> segment_rollup \<Rightarrow> span multiset \<Rightarrow> bool" where
  "rollup_counts lib p r ss \<longleftrightarrow>
     gathers (tallies lib p) (\<lambda>s. lf_model (span_facts lib p s)) ss (ro_by_model r)
     \<and> gathers (tallies lib p) (\<lambda>s. lf_provider (span_facts lib p s)) ss (ro_by_provider r)
     \<and> gathers (tallies lib p) (\<lambda>s. Some (service s)) ss (ro_by_service r)
     \<and> gathers (tallies lib p) (\<lambda>s. Some (day_bucket (start_time_ns s))) ss (ro_by_day r)
     \<and> gathers (tallies lib p) (session_of lib p) ss (ro_by_session_key r)
     \<and> gathers (session_tallies lib p) (session_of lib p) ss (ro_sessions r)
     \<and> ro_key_hashes r = (\<lambda>s. key_hash (key_of s)) ` set_mset ss
     \<and> ro_payload_refs r = (\<Union>s \<in> set_mset ss. payload_refs_of s)
     \<and> (\<forall>s \<in># ss. rb_min_start_ns (ro_bounds r) \<le> start_time_ns s \<and> start_time_ns s \<le> rb_max_start_ns (ro_bounds r)
          \<and> rb_min_end_ns (ro_bounds r) \<le> end_time_ns s \<and> end_time_ns s \<le> rb_max_end_ns (ro_bounds r))"

lemma rollup_counts_empty: "rollup_counts lib p (rollup_empty b) {#}"
  by (simp add: rollup_counts_def rollup_empty_def gathers_empty)

lemma rollup_counts_absorb:
  assumes "rollup_counts lib p r ss"
  shows "rollup_counts lib p (rollup_absorb lib p s r) (add_mset s ss)"
proof -
  have t: "gathers (tallies lib p) key (add_mset s ss) (entry (key s) counters_default (counters_absorb lib s (span_facts lib p s)) m)"
    if "gathers (tallies lib p) key ss m" for key :: "span \<Rightarrow> 'k option" and m
    by (rule gathers_entry [OF that]) (simp_all add: tallies_default tallies_absorb)
  have ts: "gathers (session_tallies lib p) key (add_mset s ss) (entry (key s) session_default (session_absorb lib s (span_facts lib p s)) m)"
    if "gathers (session_tallies lib p) key ss m" for key :: "span \<Rightarrow> 'k option" and m
    by (rule gathers_entry [OF that]) (simp_all add: session_tallies_default session_tallies_absorb)
  show ?thesis
    using assms unfolding rollup_counts_def rollup_absorb_def Let_def
    by (auto simp: bounds_absorb_def min.coboundedI1 max.coboundedI1 intro: t ts)
qed

lemma rollup_counts_fold: "rollup_counts lib p r ss \<Longrightarrow> rollup_counts lib p (fold (rollup_absorb lib p) xs r) (ss + mset xs)"
proof (induction xs arbitrary: r ss)
  case (Cons s xs)
  from Cons.IH [OF rollup_counts_absorb [OF Cons.prems]] show ?case by simp
qed simp

lemma rollup_counts_build: "rollup_counts lib p (rollup_build lib p xs) (mset xs)"
proof -
  let ?r = "fold (rollup_absorb lib p) xs
    (rollup_empty \<lparr>rb_min_start_ns = - 1, rb_max_start_ns = 0, rb_min_end_ns = - 1, rb_max_end_ns = 0\<rparr>)"
  have "rollup_counts lib p ?r (mset xs)" using rollup_counts_fold [OF rollup_counts_empty, of lib p xs] by simp
  then show ?thesis by (simp add: rollup_counts_def rollup_build_def Let_def)
qed

end
