(* ===== verification/Fold_Analytics.thy ===== *)
theory Fold_Analytics
  imports Rollup_Counts Lookups Query_Exact
begin

text \<open>
  The fold every aggregate is computed by (\<open>Store::fold_analytics\<close> of \<open>src/src/analytics.rs\<close>, with
  \<open>spans_parsed_in_window\<close> of \<open>src/src/lib.rs\<close> and \<open>segment_rollup\<close>): the rollup of the buffer, then the segments
  from the newest to the oldest, each by its stored rollup where that is the answer and span by span where it is not.
  A segment comes with the rollup the cache or its sidecar holds for this generation of the file, if any; the cache
  itself, which only repeats a read, is not here. The visitor of the code folds the rollups it is handed: here they
  are listed.
\<close>

section \<open>The window\<close>

definition in_window :: "u64 option \<Rightarrow> u64 option \<Rightarrow> u64 \<Rightarrow> bool" where
  "in_window since until' t \<longleftrightarrow>
     (case since of None \<Rightarrow> True | Some bound \<Rightarrow> t \<ge> bound) \<and> (case until' of None \<Rightarrow> True | Some bound \<Rightarrow> t \<le> bound)"

type_synonym 'seg ordinals = "'seg \<Rightarrow> u64 option \<Rightarrow> u64 option \<Rightarrow> store_error + (nat \<times> nat)"

fun read_spans :: "'seg reader \<Rightarrow> store_lib \<Rightarrow> 'seg \<Rightarrow> u64 list \<Rightarrow> store_error + span list" where
  "read_spans rd lib g [] = Inr []"
| "read_spans rd lib g (offset # offsets) =
     and_then (span_at rd lib g offset) (\<lambda>s. and_then (read_spans rd lib g offsets) (\<lambda>spans. Inr (s # spans)))"

definition spans_parsed_in_window ::
  "'seg reader \<Rightarrow> store_lib \<Rightarrow> 'seg ordinals \<Rightarrow> 'seg \<Rightarrow> u64 option \<Rightarrow> u64 option \<Rightarrow> store_error + span list" where
  "spans_parsed_in_window rd lib ordinals g since until' =
     and_then (ordinals g since until') (\<lambda>(a, b). read_spans rd lib g (bytes_at a (b - a) (rd_offsets rd g)))"

text \<open>A reader that also finds the ordinals of a window.\<close>

locale windowed_reads = segment_reads rd lib holds
  for rd :: "'seg reader" and lib :: store_lib and holds :: "'seg \<Rightarrow> span list \<Rightarrow> bool" +
  fixes ordinals :: "'seg ordinals"
  assumes window_ordinals: "holds g ss \<Longrightarrow>
    \<exists>a b. ordinals g since until' = Inr (a, b)
      \<and> bytes_at a (b - a) ss = filter (\<lambda>s. in_window since until' (start_time_ns s)) ss"
begin

lemma spans_read: "reads_as rd lib g offsets ss \<Longrightarrow> read_spans rd lib g offsets = Inr ss"
proof (induction offsets arbitrary: ss)
  case (Cons offset offsets)
  then show ?case by (auto simp: reads_as_def list_all2_Cons1)
qed (simp add: reads_as_def)

lemma window_read:
  assumes "holds g ss"
  shows "spans_parsed_in_window rd lib ordinals g since until' = Inr (filter (\<lambda>s. in_window since until' (start_time_ns s)) ss)"
proof -
  obtain a b where w: "ordinals g since until' = Inr (a, b)"
    "bytes_at a (b - a) ss = filter (\<lambda>s. in_window since until' (start_time_ns s)) ss"
    using window_ordinals [OF assms] by blast
  have "reads_as rd lib g (bytes_at a (b - a) (rd_offsets rd g)) (bytes_at a (b - a) ss)"
    using all_read [OF assms] by (simp add: reads_as_def bytes_at_def list_all2_takeI list_all2_dropI)
  from spans_read [OF this] show ?thesis by (simp add: spans_parsed_in_window_def w)
qed

end

section \<open>The window of a segment file\<close>

definition window_low :: "u64 option \<Rightarrow> u64" where
  "window_low since = (case since of None \<Rightarrow> 0 | Some t \<Rightarrow> t)"

definition window_high :: "u64 option \<Rightarrow> u64" where
  "window_high until' = (case until' of None \<Rightarrow> - 1 | Some t \<Rightarrow> t)"

lemma in_window_range: "in_window since until' t \<longleftrightarrow> window_low since \<le> t \<and> t \<le> window_high until'"
  by (auto simp: in_window_def window_low_def window_high_def split: option.split)

lemma slice_is_filter:
  assumes "\<And>i. i < length xs \<Longrightarrow> P (xs ! i) \<longleftrightarrow> a \<le> i \<and> i < c" and "a \<le> c"
  shows "bytes_at a (c - a) xs = filter P xs"
proof -
  have "filter P (take a xs) = []" using assms by (auto simp: filter_empty_conv in_set_conv_nth)
  moreover have "filter P (take (c - a) (drop a xs)) = take (c - a) (drop a xs)"
    using assms by (auto simp: filter_id_conv in_set_conv_nth)
  moreover have "filter P (drop (c - a) (drop a xs)) = []"
    using assms by (auto simp: filter_empty_conv in_set_conv_nth)
  moreover have "filter P xs = filter P (take a xs) @ filter P (take (c - a) (drop a xs)) @ filter P (drop (c - a) (drop a xs))"
    by (simp only: filter_append [symmetric] append_take_drop_id)
  ultimately show ?thesis by (simp add: bytes_at_def)
qed

lemma ordinal_range_serves:
  assumes lz: "lz4_block compress decompress" and s: "serves compress codec keys rs encs s"
  shows "\<exists>a c. ordinal_range_for_window decompress s since until' = Inr (a, c) \<and> a \<le> c
    \<and> (\<forall>i < length rs. in_window since until' (ri_timestamp (rs ! i)) \<longleftrightarrow> a \<le> i \<and> i < c)"
proof -
  have n: "length (s_record_offsets s) = length rs" using serves_offsets [OF s] by simp
  obtain a where a: "(case since of Some bound \<Rightarrow> first_at_or_after decompress s bound | None \<Rightarrow> Inr 0) = Inr a"
    "splits (map ri_timestamp rs) (window_low since) a"
  proof (cases since)
    case None
    then show ?thesis by (intro that [of 0]) (simp_all add: window_low_def splits_def)
  next
    case (Some t)
    then show ?thesis using that first_at_or_after_splits [OF lz s, of t] by (auto simp: window_low_def)
  qed
  let ?hi = "window_high until'"
  obtain b where b: "(case until' of
        Some bound \<Rightarrow> (case checked_add bound 1 of Some exclusive \<Rightarrow> first_at_or_after decompress s exclusive | None \<Rightarrow> Inr (length rs))
      | None \<Rightarrow> Inr (length rs)) = Inr b"
    "b = length rs \<and> (\<forall>r \<in> set rs. ri_timestamp r \<le> ?hi) \<or> splits (map ri_timestamp rs) (?hi + 1) b \<and> ?hi < ?hi + 1"
  proof (cases until')
    case None
    then show ?thesis by (intro that [of "length rs"]) (simp_all add: window_high_def)
  next
    case (Some t)
    show ?thesis
    proof (cases "checked_add t (1 :: u64)")
      case None
      then have "unat t = 2 ^ 64 - 1" using unat_lt [of t] by (simp add: checked_add_def split: if_splits)
      then have "x \<le> t" for x :: u64 using unat_lt [of x] by (simp add: word_le_nat_alt)
      then show ?thesis using that [of "length rs"] None Some by (simp add: window_high_def)
    next
      case (Some e)
      then have e: "e = t + 1" "unat e = unat t + 1" using checked_add_SomeD by fastforce+
      then have "t < t + 1" by (simp add: word_less_nat_alt)
      moreover obtain b where "first_at_or_after decompress s (t + 1) = Inr b" "splits (map ri_timestamp rs) (t + 1) b"
        using first_at_or_after_splits [OF lz s] by blast
      ultimately show ?thesis using that [of b] Some e(1) \<open>until' = Some t\<close> by (simp add: window_high_def)
    qed
  qed
  have "ordinal_range_for_window decompress s since until' = Inr (a, max b a)"
    unfolding ordinal_range_for_window_def n a(1) b(1) by simp
  moreover have "in_window since until' (ri_timestamp (rs ! i)) \<longleftrightarrow> a \<le> i \<and> i < max b a" if "i < length rs" for i
  proof -
    have "(t < ?hi + 1) = (t \<le> ?hi)" if "?hi < ?hi + 1" for t :: u64 using that by uint_arith
    then have "ri_timestamp (rs ! i) \<le> ?hi \<longleftrightarrow> i < b" using b(2) that by (auto simp: splits_def not_le [symmetric])
    moreover have "window_low since \<le> ri_timestamp (rs ! i) \<longleftrightarrow> a \<le> i" using a(2) that by (auto simp: splits_def not_le [symmetric])
    ultimately show ?thesis by (auto simp: in_window_range)
  qed
  ultimately show ?thesis by (intro exI [of _ a] exI [of _ "max b a"]) simp
qed

definition local_ordinals :: "(bytes \<Rightarrow> nat \<Rightarrow> bytes option) \<Rightarrow> segment ordinals" where
  "local_ordinals decompress g since until' = segment_result (ordinal_range_for_window decompress g since until')"

interpretation local_windows: windowed_reads "local_reader decompress" lib "stores_spans lib compress decompress" "local_ordinals decompress"
  for decompress lib compress
proof unfold_locales
  fix g ss since until' assume st: "stores_spans lib compress decompress g ss"
  from stores_spansE [OF st] obtain records ci codec p encs where "stored_as lib compress decompress g ss records ci codec p encs" .
  then have o: "lz4_block compress decompress" "map (span_to_record lib) ss = map Inr records"
    "serves compress codec (p_keys p) records encs g" "length records = length ss"
    unfolding stored_as_def by - (elim conjE, assumption)+
  obtain a c where w: "ordinal_range_for_window decompress g since until' = Inr (a, c)" "a \<le> c"
    "\<forall>i < length records. in_window since until' (ri_timestamp (records ! i)) \<longleftrightarrow> a \<le> i \<and> i < c"
    using ordinal_range_serves [OF o(1,3)] by blast
  have "ri_timestamp (records ! i) = start_time_ns (ss ! i)" if "i < length ss" for i
    using record_fields(1) [OF record_of_span [OF o(2) that]] .
  then have "bytes_at a (c - a) ss = filter (\<lambda>s. in_window since until' (start_time_ns s)) ss"
    using w(2,3) o(4) by (intro slice_is_filter) auto
  then show "\<exists>a b. local_ordinals decompress g since until' = Inr (a, b)
      \<and> bytes_at a (b - a) ss = filter (\<lambda>s. in_window since until' (start_time_ns s)) ss"
    using w(1) by (simp add: local_ordinals_def segment_result_def)
qed

section \<open>The fold\<close>

record fold_state =
  fo_hashes :: "u64 set"
  fo_decoded :: nat
  fo_noted :: bool
  fo_visited :: "segment_rollup list"

text \<open>\<open>segment_rollup\<close>: what the cache or the sidecar holds, else built from the segment.\<close>

definition segment_rollup_of ::
  "'seg reader \<Rightarrow> store_lib \<Rightarrow> f64_lib \<Rightarrow> pricing \<Rightarrow> 'seg store_segment \<Rightarrow> segment_rollup option \<Rightarrow> segment_rollup task" where
  "segment_rollup_of rd lib fl p seg found =
     (case found of
        Some r \<Rightarrow> give r
      | None \<Rightarrow>
          next_do (spans_parsed_budgeted rd lib (os_seg seg) (rd_offsets rd (os_seg seg)) 0 []) (\<lambda>spans.
            give (rollup_build fl p spans)))"

text \<open>The exact path over the spans of the window, with the counter of decoded records; \<open>keep\<close> is the mask and the tenant.\<close>

fun survivors ::
  "'seg reader \<Rightarrow> store_lib \<Rightarrow> (span \<Rightarrow> bool) \<Rightarrow> span_key set \<Rightarrow> 'seg store_segment list \<Rightarrow> span list \<Rightarrow> nat \<Rightarrow> span list
    \<Rightarrow> (span list \<times> nat) task" where
  "survivors rd lib keep buffer_keys newer [] decoded live = give (live, decoded)"
| "survivors rd lib keep buffer_keys newer (s # spans) decoded live =
     next_do (check_every decoded) (\<lambda>decoded.
       if \<not> keep s then survivors rd lib keep buffer_keys newer spans decoded live
       else if key_of s \<in> buffer_keys then survivors rd lib keep buffer_keys newer spans decoded live
       else
         next_do (superseded_by_newer rd lib newer s) (\<lambda>superseded.
           survivors rd lib keep buffer_keys newer spans decoded (if superseded then live else live @ [s])))"

definition window_overlaps :: "u64 option \<Rightarrow> u64 option \<Rightarrow> rollup_bounds \<Rightarrow> bool" where
  "window_overlaps since until' b \<longleftrightarrow>
     (case since of None \<Rightarrow> True | Some bound \<Rightarrow> rb_max_start_ns b \<ge> bound)
     \<and> (case until' of None \<Rightarrow> True | Some bound \<Rightarrow> rb_min_start_ns b \<le> bound)"

definition fold_segment ::
  "'seg reader \<Rightarrow> store_lib \<Rightarrow> 'seg ordinals \<Rightarrow> f64_lib \<Rightarrow> pricing \<Rightarrow> u64 option \<Rightarrow> u64 option \<Rightarrow> (span \<Rightarrow> bool) option
    \<Rightarrow> bytes option \<Rightarrow> span_key set \<Rightarrow> 'seg store_segment list \<Rightarrow> 'seg store_segment \<Rightarrow> segment_rollup option \<Rightarrow> fold_state
    \<Rightarrow> fold_state task" where
  "fold_segment rd lib ordinals fl p since until' erased scope buffer_keys newer seg found st =
     next_do check (\<lambda>_. next_do examine_segment (\<lambda>_.
     next_do (segment_rollup_of rd lib fl p seg found) (\<lambda>rollup.
       let b = ro_bounds rollup;
           hashes = fo_hashes st \<union> ro_key_hashes rollup;
           fully_inside = (in_window since until' (rb_min_start_ns b) \<and> in_window since until' (rb_max_start_ns b));
           by_segment = (\<exists>h \<in> ro_key_hashes rollup. h \<in> fo_hashes st);
           by_buffer = (\<exists>h \<in> ro_key_hashes rollup. h \<in> (\<lambda>k. key_hash k) ` buffer_keys)
       in if \<not> window_overlaps since until' b then give (st\<lparr>fo_hashes := hashes\<rparr>)
          else if fully_inside \<and> \<not> (by_buffer \<or> by_segment) \<and> erased = None \<and> scope = None
          then give (st\<lparr>fo_hashes := hashes, fo_visited := fo_visited st @ [rollup]\<rparr>)
          else
            next_do (lift_io (spans_parsed_in_window rd lib ordinals (os_seg seg) since until')) (\<lambda>spans.
            next_do (survivors rd lib (\<lambda>s. visible_to erased s \<and> in_scope scope s) buffer_keys newer spans (fo_decoded st) [])
              (\<lambda>(live, decoded).
                give \<lparr>fo_hashes = hashes, fo_decoded = decoded, fo_noted = (fo_noted st \<or> by_segment),
                      fo_visited = fo_visited st @ (if live = [] then [] else [rollup_build fl p live])\<rparr>)))))"

text \<open>The segments are listed from the oldest to the newest and visited the other way round.\<close>

fun fold_segments ::
  "'seg reader \<Rightarrow> store_lib \<Rightarrow> 'seg ordinals \<Rightarrow> f64_lib \<Rightarrow> pricing \<Rightarrow> u64 option \<Rightarrow> u64 option \<Rightarrow> (span \<Rightarrow> bool) option
    \<Rightarrow> bytes option \<Rightarrow> span_key set \<Rightarrow> ('seg store_segment \<times> segment_rollup option) list \<Rightarrow> fold_state \<Rightarrow> fold_state task" where
  "fold_segments rd lib ordinals fl p since until' erased scope buffer_keys [] st = give st"
| "fold_segments rd lib ordinals fl p since until' erased scope buffer_keys ((seg, found) # newer) st =
     next_do (fold_segments rd lib ordinals fl p since until' erased scope buffer_keys newer st) (\<lambda>st.
       fold_segment rd lib ordinals fl p since until' erased scope buffer_keys (map fst newer) seg found st)"

definition folds_span :: "u64 option \<Rightarrow> u64 option \<Rightarrow> (span \<Rightarrow> bool) option \<Rightarrow> bytes option \<Rightarrow> span \<Rightarrow> bool" where
  "folds_span since until' erased scope s \<longleftrightarrow>
     in_window since until' (start_time_ns s) \<and> visible_to erased s \<and> in_scope scope s"

text \<open>The rollups visited, and whether a segment was found shadowed by a newer one (\<open>note_shadowing\<close>).\<close>

definition fold_analytics ::
  "'seg reader \<Rightarrow> store_lib \<Rightarrow> 'seg ordinals \<Rightarrow> f64_lib \<Rightarrow> pricing \<Rightarrow> write_buffer
    \<Rightarrow> ('seg store_segment \<times> segment_rollup option) list \<Rightarrow> u64 option \<Rightarrow> u64 option \<Rightarrow> (span \<Rightarrow> bool) option \<Rightarrow> bytes option
    \<Rightarrow> (segment_rollup list \<times> bool) task" where
  "fold_analytics rd lib ordinals fl p w segments since until' erased scope =
     (let buffer = map snd (wb_spans w) in
      next_do (sweep_buffer (folds_span since until' erased scope) buffer 0 []) (\<lambda>buffered.
      next_do (fold_segments rd lib ordinals fl p since until' erased scope (key_of ` set buffer) segments
                 \<lparr>fo_hashes = {}, fo_decoded = 0, fo_noted = False,
                  fo_visited = (if buffered = [] then [] else [rollup_build fl p buffered])\<rparr>) (\<lambda>st.
      next_do check (\<lambda>_. give (fo_visited st, fo_noted st)))))"

section \<open>The fold visits each last version once\<close>

text \<open>A stored rollup was built from the spans of its segment, in some order.\<close>

definition rollup_ok :: "f64_lib \<Rightarrow> pricing \<Rightarrow> segment_rollup option \<Rightarrow> span list \<Rightarrow> bool" where
  "rollup_ok fl p found ss \<longleftrightarrow> (\<forall>r. found = Some r \<longrightarrow> (\<exists>ys. mset ys = mset ss \<and> r = rollup_build fl p ys))"

lemma build_bounds:
  assumes "s \<in> set ys"
  shows "rb_min_start_ns (ro_bounds (rollup_build fl p ys)) \<le> start_time_ns s"
    and "start_time_ns s \<le> rb_max_start_ns (ro_bounds (rollup_build fl p ys))"
  using rollup_counts_build [of fl p ys] assms unfolding rollup_counts_def by auto

lemma build_hashes: "ro_key_hashes (rollup_build fl p ys) = (\<lambda>s. key_hash (key_of s)) ` set ys"
  using rollup_counts_build [of fl p ys] unfolding rollup_counts_def by auto

lemma mset_singles: "mset (concat (if xs = [] then [] else [xs])) = mset xs"
  by simp

lemma buffer_keys: "wb_ok w \<Longrightarrow> key_of ` set (map snd (wb_spans w)) = dom (wb_map w)"
proof (intro set_eqI iffI)
  fix k
  assume w: "wb_ok w"
  show "k \<in> dom (wb_map w)" if "k \<in> key_of ` set (map snd (wb_spans w))"
    using that buffer_mem [OF w] by auto
  show "k \<in> key_of ` set (map snd (wb_spans w))" if "k \<in> dom (wb_map w)"
    using that wb_map_Some [OF w, of k] by (force simp: dom_def)
qed

context windowed_reads
begin

lemma rollup_of_answers:
  assumes "segment_ok holds seg ss" and "rollup_ok fl p found ss"
  obtains ys where "mset ys = mset ss" "answers (segment_rollup_of rd lib fl p seg found) (rollup_build fl p ys)"
proof (cases found)
  case None
  have "holds (os_seg seg) ss" using assms(1) by (simp add: segment_ok_def)
  from parsed_answers [OF all_read [OF this], of 0 "[]"]
  have "answers (segment_rollup_of rd lib fl p seg found) (rollup_build fl p ss)"
    by (auto simp: segment_rollup_of_def None intro: next_settles settling)
  then show thesis by (intro that [of ss]) simp_all
next
  case (Some r)
  then obtain ys where "mset ys = mset ss" "r = rollup_build fl p ys" using assms(2) unfolding rollup_ok_def by blast
  then show thesis by (intro that [of ys]) (simp_all add: segment_rollup_of_def Some give_settles)
qed

lemma survivors_answers:
  assumes newer: "list_all2 (segment_ok holds) newer sss"
  shows "\<exists>d. answers (survivors rd lib keep K newer spans n acc)
    (acc @ filter (\<lambda>s. keep s \<and> key_of s \<notin> K \<and> key_of s \<notin> key_of ` set (concat sss)) spans, d)"
proof (induction spans arbitrary: n acc)
  case Nil
  show ?case using give_settles [of "(acc, n)"] by auto
next
  case (Cons s spans)
  let ?Q = "\<lambda>s. keep s \<and> key_of s \<notin> K \<and> key_of s \<notin> key_of ` set (concat sss)"
  obtain m where m: "answers (check_every n) m" by (rule check_every_answers)
  define R where "R = acc @ filter ?Q (s # spans)"
  have acc: "(if ?Q s then acc @ [s] else acc) @ filter ?Q spans = R" by (simp add: R_def)
  from Cons.IH [of m "if ?Q s then acc @ [s] else acc"] obtain d where
    d: "answers (survivors rd lib keep K newer spans m (if ?Q s then acc @ [s] else acc)) (R, d)"
    unfolding acc by blast
  have "answers (if \<not> keep s then survivors rd lib keep K newer spans m acc
      else if key_of s \<in> K then survivors rd lib keep K newer spans m acc
      else next_do (superseded_by_newer rd lib newer s) (\<lambda>superseded.
        survivors rd lib keep K newer spans m (if superseded then acc else acc @ [s]))) (R, d)"
  proof (cases "keep s \<and> key_of s \<notin> K")
    case True
    have "answers (survivors rd lib keep K newer spans m
        (if key_of s \<in> key_of ` set (concat sss) then acc else acc @ [s])) (R, d)"
      using d True by (cases "key_of s \<in> key_of ` set (concat sss)") simp_all
    then have "answers (next_do (superseded_by_newer rd lib newer s) (\<lambda>superseded.
        survivors rd lib keep K newer spans m (if superseded then acc else acc @ [s]))) (R, d)"
      by (rule next_settles [OF superseded_answers [OF newer]])
    then show ?thesis using True by simp
  next
    case False
    then have "answers (survivors rd lib keep K newer spans m acc) (R, d)"
      using d by (simp split: if_splits)
    then show ?thesis using False by auto
  qed
  then show ?case unfolding survivors.simps R_def [symmetric]
    by (intro exI [of _ d]) (rule next_settles [OF m])
qed

lemma fold_segment_answers:
  assumes seg: "segment_ok holds seg ss" "rollup_ok fl p found ss" and newer: "list_all2 (segment_ok holds) newer sss"
    and hashes: "fo_hashes st = (\<lambda>s. key_hash (key_of s)) ` set (concat sss)"
  shows "\<exists>st' gs. answers (fold_segment rd lib ordinals fl p since until' erased scope K newer seg found st) st'
    \<and> fo_hashes st' = (\<lambda>s. key_hash (key_of s)) ` set (concat (ss # sss))
    \<and> fo_visited st' = fo_visited st @ map (rollup_build fl p) gs
    \<and> mset (concat gs) = mset (filter (\<lambda>s. folds_span since until' erased scope s \<and> key_of s \<notin> K
        \<and> key_of s \<notin> key_of ` set (concat sss)) ss)"
proof -
  let ?h = "\<lambda>s. key_hash (key_of s)"
  let ?Q = "\<lambda>s. folds_span since until' erased scope s \<and> key_of s \<notin> K \<and> key_of s \<notin> key_of ` set (concat sss)"
  obtain ys where ys: "mset ys = mset ss" "answers (segment_rollup_of rd lib fl p seg found) (rollup_build fl p ys)"
    by (rule rollup_of_answers [OF seg])
  let ?r = "rollup_build fl p ys"
  have set: "set ys = set ss" using ys(1) by (rule mset_eq_setD)
  have hs: "ro_key_hashes ?r = ?h ` set ss" by (simp add: build_hashes set)
  have lo: "rb_min_start_ns (ro_bounds ?r) \<le> start_time_ns s" and hi: "start_time_ns s \<le> rb_max_start_ns (ro_bounds ?r)"
    if "s \<in> set ss" for s using build_bounds [of s ys fl p] that set by auto
  define by_segment where "by_segment = (\<exists>h \<in> ro_key_hashes ?r. h \<in> fo_hashes st)"
  define by_buffer where "by_buffer = (\<exists>h \<in> ro_key_hashes ?r. h \<in> (\<lambda>k. key_hash k) ` K)"
  define inside where "inside = (in_window since until' (rb_min_start_ns (ro_bounds ?r)) \<and> in_window since until' (rb_max_start_ns (ro_bounds ?r)))"
  let ?rest = "if \<not> window_overlaps since until' (ro_bounds ?r) then give (st\<lparr>fo_hashes := fo_hashes st \<union> ro_key_hashes ?r\<rparr>)
      else if inside \<and> \<not> (by_buffer \<or> by_segment) \<and> erased = None \<and> scope = None
      then give (st\<lparr>fo_hashes := fo_hashes st \<union> ro_key_hashes ?r, fo_visited := fo_visited st @ [?r]\<rparr>)
      else next_do (lift_io (spans_parsed_in_window rd lib ordinals (os_seg seg) since until')) (\<lambda>spans.
        next_do (survivors rd lib (\<lambda>s. visible_to erased s \<and> in_scope scope s) K newer spans (fo_decoded st) [])
          (\<lambda>(live, decoded).
            give \<lparr>fo_hashes = fo_hashes st \<union> ro_key_hashes ?r, fo_decoded = decoded, fo_noted = (fo_noted st \<or> by_segment),
                  fo_visited = fo_visited st @ (if live = [] then [] else [rollup_build fl p live])\<rparr>))"
  have unfolded: "answers (fold_segment rd lib ordinals fl p since until' erased scope K newer seg found st) x" if "answers ?rest x" for x
    unfolding fold_segment_def
    by (intro next_settles [OF check_settles] next_settles [OF examine_settles] next_settles [OF ys(2)])
      (use that in \<open>simp only: Let_def by_segment_def by_buffer_def inside_def\<close>)
  have hashes': "fo_hashes st \<union> ro_key_hashes ?r = ?h ` set (concat (ss # sss))" by (auto simp: hashes hs)
  show ?thesis
  proof (cases "window_overlaps since until' (ro_bounds ?r)")
    case False
    have "\<not> in_window since until' (start_time_ns s)" if "s \<in> set ss" for s
      using False lo [OF that] hi [OF that] by (auto simp: window_overlaps_def in_window_def split: option.splits)
    then have "filter ?Q ss = []" by (auto simp: filter_empty_conv folds_span_def)
    moreover have "answers ?rest (st\<lparr>fo_hashes := fo_hashes st \<union> ro_key_hashes ?r\<rparr>)" using False by (simp add: give_settles)
    ultimately show ?thesis using unfolded hashes'
      by (intro exI [of _ "st\<lparr>fo_hashes := fo_hashes st \<union> ro_key_hashes ?r\<rparr>"] exI [of _ "[]"]) simp
  next
    case over: True
    show ?thesis
    proof (cases "inside \<and> \<not> (by_buffer \<or> by_segment) \<and> erased = None \<and> scope = None")
      case fast: True
      have "?Q s" if "s \<in> set ss" for s
      proof -
        have "in_window since until' (start_time_ns s)"
          using fast lo [OF that] hi [OF that] by (auto simp: inside_def in_window_range)
        moreover have "key_of s \<notin> K" using fast that by (auto simp: by_buffer_def hs)
        moreover have "key_of s \<notin> key_of ` set (concat sss)" using fast that by (force simp: by_segment_def hs hashes)
        ultimately show ?thesis using fast by (simp add: folds_span_def visible_to_def in_scope_def)
      qed
      then have "filter ?Q ss = ss" by (simp add: filter_id_conv)
      moreover have "answers ?rest (st\<lparr>fo_hashes := fo_hashes st \<union> ro_key_hashes ?r, fo_visited := fo_visited st @ [?r]\<rparr>)"
        using over fast by (simp add: give_settles)
      ultimately show ?thesis using unfolded hashes' ys(1)
        by (intro exI [of _ "st\<lparr>fo_hashes := fo_hashes st \<union> ro_key_hashes ?r, fo_visited := fo_visited st @ [?r]\<rparr>"] exI [of _ "[ys]"]) simp
    next
      case exact: False
      have h: "holds (os_seg seg) ss" using seg(1) by (simp add: segment_ok_def)
      let ?ws = "filter (\<lambda>s. in_window since until' (start_time_ns s)) ss"
      obtain d where d: "answers (survivors rd lib (\<lambda>s. visible_to erased s \<and> in_scope scope s) K newer ?ws (fo_decoded st) [])
          (filter (\<lambda>s. (visible_to erased s \<and> in_scope scope s) \<and> key_of s \<notin> K \<and> key_of s \<notin> key_of ` set (concat sss)) ?ws, d)"
        using survivors_answers [OF newer, of "\<lambda>s. visible_to erased s \<and> in_scope scope s" K ?ws "fo_decoded st" "[]"] by auto
      have live: "filter (\<lambda>s. (visible_to erased s \<and> in_scope scope s) \<and> key_of s \<notin> K \<and> key_of s \<notin> key_of ` set (concat sss)) ?ws = filter ?Q ss"
        by (auto simp: folds_span_def intro!: filter_cong)
      let ?gs = "if filter ?Q ss = [] then [] else [filter ?Q ss]"
      let ?st = "\<lparr>fo_hashes = fo_hashes st \<union> ro_key_hashes ?r, fo_decoded = d, fo_noted = (fo_noted st \<or> by_segment),
          fo_visited = fo_visited st @ map (rollup_build fl p) ?gs\<rparr>"
      have "answers (next_do (lift_io (spans_parsed_in_window rd lib ordinals (os_seg seg) since until')) (\<lambda>spans.
        next_do (survivors rd lib (\<lambda>s. visible_to erased s \<and> in_scope scope s) K newer spans (fo_decoded st) [])
          (\<lambda>(live, decoded).
            give \<lparr>fo_hashes = fo_hashes st \<union> ro_key_hashes ?r, fo_decoded = decoded, fo_noted = (fo_noted st \<or> by_segment),
                  fo_visited = fo_visited st @ (if live = [] then [] else [rollup_build fl p live])\<rparr>))) ?st"
        by (rule next_settles [OF lift_answers [OF window_read [OF h]]], rule next_settles [OF d [unfolded live]])
          (auto simp: give_settles)
      then have "answers ?rest ?st"
        by (subst if_not_P, use over in simp, subst if_not_P [OF exact])
      then have "answers (fold_segment rd lib ordinals fl p since until' erased scope K newer seg found st) ?st" by (rule unfolded)
      moreover have "fo_hashes ?st = ?h ` set (concat (ss # sss))" unfolding hashes' [symmetric] by simp
      moreover have "fo_visited ?st = fo_visited st @ map (rollup_build fl p) ?gs" by simp
      moreover have "mset (concat ?gs) = mset (filter ?Q ss)" by (rule mset_singles)
      ultimately show ?thesis by blast
    qed
  qed
qed

lemma fold_segments_answers:
  assumes "fo_hashes st = {}"
  shows "list_all2 (\<lambda>(seg, found) ss. segment_ok holds seg ss \<and> rollup_ok fl p found ss) segs sss \<Longrightarrow>
    \<exists>st' gs. answers (fold_segments rd lib ordinals fl p since until' erased scope K segs st) st'
      \<and> fo_hashes st' = (\<lambda>s. key_hash (key_of s)) ` set (concat sss)
      \<and> fo_visited st' = fo_visited st @ map (rollup_build fl p) gs
      \<and> mset (concat gs) = mset (live_spans (folds_span since until' erased scope) K sss)"
proof (induction segs sss rule: list_all2_induct)
  case Nil
  have "answers (fold_segments rd lib ordinals fl p since until' erased scope K [] st) st" by (simp add: give_settles)
  then show ?case using assms by (intro exI [of _ st] exI [of _ "[]"]) simp
next
  case (Cons sf segs ss sss)
  obtain seg found where sf: "sf = (seg, found)" by (cases sf)
  obtain st1 gs1 where first: "answers (fold_segments rd lib ordinals fl p since until' erased scope K segs st) st1"
    "fo_hashes st1 = (\<lambda>s. key_hash (key_of s)) ` set (concat sss)"
    "fo_visited st1 = fo_visited st @ map (rollup_build fl p) gs1"
    "mset (concat gs1) = mset (live_spans (folds_span since until' erased scope) K sss)"
    using Cons.IH by blast
  have newer: "list_all2 (segment_ok holds) (map fst segs) sss"
    using Cons.hyps(2) by (auto simp: list_all2_map1 elim: list_all2_mono)
  have seg: "segment_ok holds seg ss" "rollup_ok fl p found ss" using Cons.hyps(1) by (simp_all add: sf)
  obtain st2 gs2 where second: "answers (fold_segment rd lib ordinals fl p since until' erased scope K (map fst segs) seg found st1) st2"
    "fo_hashes st2 = (\<lambda>s. key_hash (key_of s)) ` set (concat (ss # sss))"
    "fo_visited st2 = fo_visited st1 @ map (rollup_build fl p) gs2"
    "mset (concat gs2) = mset (filter (\<lambda>s. folds_span since until' erased scope s \<and> key_of s \<notin> K
        \<and> key_of s \<notin> key_of ` set (concat sss)) ss)"
    using fold_segment_answers [OF seg newer first(2)] by blast
  have "answers (fold_segments rd lib ordinals fl p since until' erased scope K (sf # segs) st) st2"
    unfolding sf fold_segments.simps by (rule next_settles [OF first(1)]) (rule second(1))
  then show ?case using second first(3,4)
    by (intro exI [of _ st2] exI [of _ "gs1 @ gs2"]) (simp add: add.commute)
qed

lemma fold_analytics_answers:
  assumes w: "wb_ok w" and segs: "list_all2 (\<lambda>(seg, found) ss. segment_ok holds seg ss \<and> rollup_ok fl p found ss) segs sss"
  obtains gs noted where "answers (fold_analytics rd lib ordinals fl p w segs since until' erased scope) (map (rollup_build fl p) gs, noted)"
    "mset (concat gs) = mset (live_spans (folds_span since until' erased scope) (dom (wb_map w)) sss
      @ filter (folds_span since until' erased scope) (map snd (wb_spans w)))"
proof -
  let ?P = "folds_span since until' erased scope"
  let ?buffer = "map snd (wb_spans w)"
  let ?buffered = "filter ?P ?buffer"
  let ?st = "\<lparr>fo_hashes = {}, fo_decoded = 0, fo_noted = False,
      fo_visited = (if ?buffered = [] then [] else [rollup_build fl p ?buffered])\<rparr>"
  have K: "key_of ` set ?buffer = dom (wb_map w)"
    by (rule buffer_keys [OF w])
  have sweep: "answers (sweep_buffer ?P ?buffer 0 []) ?buffered" using sweep_answers [of ?P ?buffer 0 "[]"] by simp
  obtain st gs where st: "answers (fold_segments rd lib ordinals fl p since until' erased scope (key_of ` set ?buffer) segs ?st) st"
    "fo_visited st = fo_visited ?st @ map (rollup_build fl p) gs" "mset (concat gs) = mset (live_spans ?P (dom (wb_map w)) sss)"
    using fold_segments_answers [OF _ segs, of ?st since until' erased scope "key_of ` set ?buffer"] unfolding K by auto
  let ?gs = "(if ?buffered = [] then [] else [?buffered]) @ gs"
  have "answers (fold_analytics rd lib ordinals fl p w segs since until' erased scope) (fo_visited st, fo_noted st)"
    unfolding fold_analytics_def Let_def
    by (intro next_settles [OF sweep] next_settles [OF st(1)] next_settles [OF check_settles] give_settles)
  moreover have "fo_visited st = map (rollup_build fl p) ?gs" using st(2) by simp
  moreover have "mset (concat ?gs) = mset (live_spans ?P (dom (wb_map w)) sss @ ?buffered)"
    using st(3) mset_singles [of ?buffered] by (simp only: concat_append mset_append add.commute)
  ultimately show thesis using that [of ?gs "fo_noted st"] by simp
qed

end

end
