(* ===== verification/Rollup_File.thy ===== *)
theory Rollup_File
  imports Fold_Analytics
begin

text \<open>
  The sidecar of a segment (\<open>src/src/rollup_file.rs\<close>): a rollup as bytes, bound to the segment and the pricing it was
  folded under, with a checksum of its prologue and one of the whole.
\<close>

section \<open>Writing and reading fields\<close>

text \<open>\<open>Cursor\<close>: what is left to read, or nothing trustworthy.\<close>

type_synonym 'a pull = "bytes \<Rightarrow> ('a \<times> bytes) option"

definition yields :: "'a \<Rightarrow> 'a pull" where
  "yields x bs = Some (x, bs)"

definition pull_then :: "'a pull \<Rightarrow> ('a \<Rightarrow> 'b pull) \<Rightarrow> 'b pull" where
  "pull_then m f bs = (case m bs of None \<Rightarrow> None | Some (x, rest) \<Rightarrow> f x rest)"

definition pull_only_if :: "bool \<Rightarrow> 'a pull \<Rightarrow> 'a pull" where
  "pull_only_if b m bs = (if b then m bs else None)"

definition pull_bytes :: "nat \<Rightarrow> bytes pull" where
  "pull_bytes n bs = (if n \<le> length bs then Some (take n bs, drop n bs) else None)"

definition pull_u16 :: "u16 pull" where
  "pull_u16 = pull_then (pull_bytes 2) (\<lambda>bs. yields (le_u16 bs))"

definition pull_u32 :: "u32 pull" where
  "pull_u32 = pull_then (pull_bytes 4) (\<lambda>bs. yields (le_u32 bs))"

definition pull_u64 :: "u64 pull" where
  "pull_u64 = pull_then (pull_bytes 8) (\<lambda>bs. yields (le_u64 bs))"

definition pull_text :: "bytes pull" where
  "pull_text = pull_then pull_u32 (\<lambda>len. pull_then (pull_bytes (unat len)) (\<lambda>text. pull_only_if (utf8_valid text) (yields text)))"

definition put_text :: "bytes \<Rightarrow> bytes" where
  "put_text text = u32_le (of_nat (length text)) @ text"

fun pull_times :: "nat \<Rightarrow> 'a pull \<Rightarrow> 'a list pull" where
  "pull_times 0 m = yields []"
| "pull_times (Suc n) m = pull_then m (\<lambda>x. pull_then (pull_times n m) (\<lambda>xs. yields (x # xs)))"

definition pull_pair :: "'a pull \<Rightarrow> 'b pull \<Rightarrow> ('a \<times> 'b) pull" where
  "pull_pair m n = pull_then m (\<lambda>a. pull_then n (\<lambda>b. yields (a, b)))"

section \<open>Counters and maps\<close>

definition put_counters :: "counters \<Rightarrow> bytes" where
  "put_counters c =
     u64_le (c_spans c) @ u64_le (c_llm_calls c) @ u64_le (c_prompt_tokens c) @ u64_le (c_completion_tokens c)
     @ u64_le (c_total_tokens c) @ u64_le (c_cost_usd c) @ u64_le (c_cost_derived_usd c) @ u64_le (c_metered_calls c)
     @ u64_le (c_derived_calls c) @ u64_le (c_unpriced_calls c) @ u64_le (c_errors c) @ u64_le (c_llm_duration_ns c)"

definition pull_counters :: "counters pull" where
  "pull_counters =
     pull_then pull_u64 (\<lambda>spans. pull_then pull_u64 (\<lambda>calls. pull_then pull_u64 (\<lambda>prompt. pull_then pull_u64 (\<lambda>completion.
     pull_then pull_u64 (\<lambda>total. pull_then pull_u64 (\<lambda>cost. pull_then pull_u64 (\<lambda>derived. pull_then pull_u64 (\<lambda>metered.
     pull_then pull_u64 (\<lambda>derived_calls. pull_then pull_u64 (\<lambda>unpriced. pull_then pull_u64 (\<lambda>errors. pull_then pull_u64 (\<lambda>duration.
       yields \<lparr>c_spans = spans, c_llm_calls = calls, c_prompt_tokens = prompt, c_completion_tokens = completion,
               c_total_tokens = total, c_cost_usd = cost, c_cost_derived_usd = derived, c_metered_calls = metered,
               c_derived_calls = derived_calls, c_unpriced_calls = unpriced, c_errors = errors,
               c_llm_duration_ns = duration\<rparr>))))))))))))"

text \<open>The entries of a map by ascending key, after their number; and the map they are inserted in one by one.\<close>

definition put_map :: "('k::linorder \<Rightarrow> bytes) \<Rightarrow> ('v \<Rightarrow> bytes) \<Rightarrow> ('k \<rightharpoonup> 'v) \<Rightarrow> bytes" where
  "put_map put_key put_value m =
     (let keys = sorted_list_of_set (dom m)
      in u32_le (of_nat (length keys)) @ concat (map (\<lambda>k. put_key k @ put_value (the (m k))) keys))"

definition insert_all :: "('k \<times> 'v) list \<Rightarrow> ('k \<rightharpoonup> 'v)" where
  "insert_all entries = foldl (\<lambda>m (k, v). m(k \<mapsto> v)) Map.empty entries"

definition pull_map :: "'k pull \<Rightarrow> 'v pull \<Rightarrow> ('k \<rightharpoonup> 'v) pull" where
  "pull_map pull_key pull_value =
     pull_then pull_u32 (\<lambda>n. pull_then (pull_times (unat n) (pull_pair pull_key pull_value)) (\<lambda>entries. yields (insert_all entries)))"

definition put_counter_map :: "(bytes \<rightharpoonup> counters) \<Rightarrow> bytes" where
  "put_counter_map = put_map put_text put_counters"

definition pull_counter_map :: "(bytes \<rightharpoonup> counters) pull" where
  "pull_counter_map = pull_map pull_text pull_counters"

text \<open>A tenant and a session are two strings, never one joined key.\<close>

definition put_pair :: "bytes \<times> bytes \<Rightarrow> bytes" where
  "put_pair k = put_text (fst k) @ put_text (snd k)"

definition session_key_id :: "bytes option \<Rightarrow> u32" where
  "session_key_id key =
     (case key of
        Some k \<Rightarrow> if k \<in> set SESSION_KEYS then of_nat (length (takeWhile (\<lambda>known. known \<noteq> k) SESSION_KEYS)) else - 1
      | None \<Rightarrow> - 1)"

definition session_key_name :: "u32 \<Rightarrow> bytes option option" where
  "session_key_name n =
     (if n = - 1 then Some None
      else if unat n < length SESSION_KEYS then Some (Some (SESSION_KEYS ! unat n)) else None)"

definition put_session :: "session_counters \<Rightarrow> bytes" where
  "put_session e =
     (let traces = sorted_list_of_set (sc_traces e)
      in put_counters (sc_counters e) @ u64_le (sc_first_start_ns e) @ u64_le (sc_last_end_ns e)
         @ u32_le (of_nat (length traces)) @ concat (map put_text traces) @ u32_le (session_key_id (sc_session_key e)))"

definition pull_session :: "session_counters pull" where
  "pull_session =
     pull_then pull_counters (\<lambda>c. pull_then pull_u64 (\<lambda>first. pull_then pull_u64 (\<lambda>last_end.
     pull_then pull_u32 (\<lambda>n. pull_then (pull_times (unat n) pull_text) (\<lambda>traces. pull_then pull_u32 (\<lambda>key.
       case session_key_name key of
         None \<Rightarrow> (\<lambda>rest. None)
       | Some held \<Rightarrow> yields \<lparr>sc_counters = c, sc_first_start_ns = first, sc_last_end_ns = last_end,
                             sc_traces = set traces, sc_session_key = held\<rparr>))))))"

section \<open>The file\<close>

definition ROLLUP_MAGIC :: bytes where
  "ROLLUP_MAGIC = ascii ''TRAZAROL''"

definition ROLLUP_FORMAT_VERSION :: u16 where
  "ROLLUP_FORMAT_VERSION = 5"

definition SCHEMA_VERSION :: u32 where
  "SCHEMA_VERSION = 4"

definition PROLOGUE_LEN :: nat where
  "PROLOGUE_LEN = 80"

definition PROLOGUE_CHECKSUM_AT :: nat where
  "PROLOGUE_CHECKSUM_AT = 72"

record binding =
  bi_segment_bytes :: u64
  bi_record_count :: u64
  bi_min_start_ns :: u64
  bi_max_start_ns :: u64
  bi_pricing_fingerprint :: u64

definition fnv1a :: "bytes \<Rightarrow> u64" where
  "fnv1a bs = eat bs 0xcbf29ce484222325"

definition put_prologue :: "binding \<Rightarrow> rollup_bounds \<Rightarrow> bytes" where
  "put_prologue b bounds =
     ROLLUP_MAGIC @ u16_le ROLLUP_FORMAT_VERSION @ u16_le 0 @ u32_le SCHEMA_VERSION
     @ u64_le (bi_segment_bytes b) @ u64_le (bi_record_count b) @ u64_le (bi_min_start_ns b) @ u64_le (bi_max_start_ns b)
     @ u64_le (bi_pricing_fingerprint b) @ u64_le (rb_min_end_ns bounds) @ u64_le (rb_max_end_ns bounds)"

definition put_sections :: "segment_rollup \<Rightarrow> bytes" where
  "put_sections r =
     (let hashes = sorted_list_of_set (ro_key_hashes r); refs = sorted_list_of_set (ro_payload_refs r)
      in put_counter_map (ro_by_model r) @ put_counter_map (ro_by_provider r) @ put_counter_map (ro_by_service r)
         @ put_counter_map (ro_by_day r) @ put_map put_pair put_counters (ro_by_session_key r)
         @ put_map put_pair put_session (ro_sessions r)
         @ u64_le (of_nat (length hashes)) @ concat (map u64_le hashes)
         @ u32_le (of_nat (length refs)) @ concat (map put_text refs))"

definition encode_rollup :: "binding \<Rightarrow> segment_rollup \<Rightarrow> bytes" where
  "encode_rollup b r =
     (let prologue = put_prologue b (ro_bounds r);
          body = prologue @ u64_le (fnv1a prologue) @ put_sections r
      in body @ u64_le (fnv1a body))"

text \<open>The prologue up to its checksum, as both readers take it: the binding and the bounds it gives.\<close>

definition pull_binding :: "binding pull" where
  "pull_binding =
     pull_then (pull_bytes (length ROLLUP_MAGIC)) (\<lambda>magic. pull_only_if (magic = ROLLUP_MAGIC) (
     pull_then pull_u16 (\<lambda>version. pull_only_if (version = ROLLUP_FORMAT_VERSION) (
     pull_then pull_u16 (\<lambda>reserved.
     pull_then pull_u32 (\<lambda>schema. pull_only_if (schema = SCHEMA_VERSION) (
     pull_then pull_u64 (\<lambda>segment_bytes. pull_then pull_u64 (\<lambda>record_count. pull_then pull_u64 (\<lambda>min_start.
     pull_then pull_u64 (\<lambda>max_start. pull_then pull_u64 (\<lambda>fingerprint.
       yields \<lparr>bi_segment_bytes = segment_bytes, bi_record_count = record_count, bi_min_start_ns = min_start,
               bi_max_start_ns = max_start, bi_pricing_fingerprint = fingerprint\<rparr>))))))))))))"

definition pull_bounds :: "binding \<Rightarrow> rollup_bounds pull" where
  "pull_bounds b =
     pull_then pull_u64 (\<lambda>min_end. pull_then pull_u64 (\<lambda>max_end.
       yields \<lparr>rb_min_start_ns = bi_min_start_ns b, rb_max_start_ns = bi_max_start_ns b, rb_min_end_ns = min_end, rb_max_end_ns = max_end\<rparr>))"

definition pull_sections :: "rollup_bounds \<Rightarrow> segment_rollup pull" where
  "pull_sections bounds =
     pull_then pull_counter_map (\<lambda>model. pull_then pull_counter_map (\<lambda>provider. pull_then pull_counter_map (\<lambda>service.
     pull_then pull_counter_map (\<lambda>day. pull_then (pull_map (pull_pair pull_text pull_text) pull_counters) (\<lambda>by_session.
     pull_then (pull_map (pull_pair pull_text pull_text) pull_session) (\<lambda>sessions.
     pull_then pull_u64 (\<lambda>n. pull_then (pull_times (unat n) pull_u64) (\<lambda>hashes.
     pull_then pull_u32 (\<lambda>refs_n. pull_then (pull_times (unat refs_n) pull_text) (\<lambda>refs.
       yields ((rollup_empty bounds)\<lparr>ro_by_model := model, ro_by_provider := provider, ro_by_service := service,
         ro_by_day := day, ro_by_session_key := by_session, ro_sessions := sessions, ro_key_hashes := set hashes,
         ro_payload_refs := set refs\<rparr>)))))))))))"

definition decode_rollup :: "bytes \<Rightarrow> binding \<Rightarrow> segment_rollup option" where
  "decode_rollup bs expected =
     (if length bs < length ROLLUP_MAGIC + 8 then None
      else
        let body = take (length bs - 8) bs; trailer = drop (length bs - 8) bs
        in if fnv1a body \<noteq> le_u64 trailer then None
           else
             map_option fst
               (pull_then pull_binding (\<lambda>found. pull_only_if (found = expected) (
                pull_then (pull_bounds found) (\<lambda>bounds.
                pull_then pull_u64 (\<lambda>checksum. pull_only_if (checksum = fnv1a (take PROLOGUE_CHECKSUM_AT body)) (
                pull_then (pull_sections bounds) (\<lambda>r rest. if rest = [] then Some (r, rest) else None)))))) body))"

definition sidecar_bounds :: "bytes \<Rightarrow> binding \<Rightarrow> rollup_bounds option" where
  "sidecar_bounds file expected =
     (if length file < PROLOGUE_LEN then None
      else
        let head = take PROLOGUE_LEN file
        in map_option fst
             (pull_then pull_binding (\<lambda>found. pull_then (pull_bounds found) (\<lambda>bounds.
              pull_then pull_u64 (\<lambda>checksum. pull_only_if (checksum = fnv1a (take PROLOGUE_CHECKSUM_AT head)) (
              pull_only_if (found = expected) (yields bounds))))) head))"

text \<open>\<open>load\<close> and \<open>store\<close> over the sidecar's bytes, when there are any. A write is refused when the segment is no
  longer the one described, leaves the old file when it fails, and else renames the whole new file into place.\<close>

definition load_rollup :: "bytes option \<Rightarrow> binding \<Rightarrow> segment_rollup option" where
  "load_rollup sidecar expected = (case sidecar of None \<Rightarrow> None | Some bs \<Rightarrow> decode_rollup bs expected)"

definition store_rollup :: "u64 option \<Rightarrow> bool \<Rightarrow> binding \<Rightarrow> segment_rollup \<Rightarrow> bytes option \<Rightarrow> bytes option" where
  "store_rollup segment_len written b r sidecar =
     (if segment_len = Some (bi_segment_bytes b) \<and> written then Some (encode_rollup b r) else sidecar)"

section \<open>A field reads back\<close>

locale field =
  fixes put :: "'a \<Rightarrow> bytes"
    and pull :: "'a pull"
    and fits :: "'a \<Rightarrow> bool"
  assumes reads: "fits x \<Longrightarrow> pull (put x @ rest) = Some (x, rest)"
begin

lemma times_read: "list_all fits xs \<Longrightarrow> pull_times (length xs) pull (concat (map put xs) @ rest) = Some (xs, rest)"
  by (induction xs) (simp_all add: pull_then_def yields_def reads)

lemma then_reads: "fits x \<Longrightarrow> pull_then pull f (put x @ rest) = f x rest"
  by (simp add: pull_then_def reads)

end

lemma pull_bytes_append [simp]: "length xs = n \<Longrightarrow> pull_then (pull_bytes n) f (xs @ rest) = f xs rest"
  by (simp add: pull_then_def pull_bytes_def)

lemma pull_words: "pull_u16 (u16_le v @ rest) = Some (v, rest)" "pull_u32 (u32_le w @ rest) = Some (w, rest)"
  "pull_u64 (u64_le x @ rest) = Some (x, rest)"
  by (simp_all add: pull_u16_def pull_u32_def pull_u64_def yields_def)

interpretation w16: field u16_le pull_u16 "\<lambda>_. True"
  by unfold_locales (rule pull_words)

interpretation w32: field u32_le pull_u32 "\<lambda>_. True"
  by unfold_locales (rule pull_words)

interpretation w64: field u64_le pull_u64 "\<lambda>_. True"
  by unfold_locales (rule pull_words)

lemmas then_words = w16.then_reads [OF TrueI] w32.then_reads [OF TrueI] w64.then_reads [OF TrueI]

definition text_fits :: "bytes \<Rightarrow> bool" where
  "text_fits text \<longleftrightarrow> length text < 2 ^ 32 \<and> utf8_valid text"

interpretation texts: field put_text pull_text text_fits
proof unfold_locales
  fix x :: bytes and rest :: bytes
  assume "text_fits x"
  then have "unat (of_nat (length x) :: u32) = length x" "utf8_valid x" by (simp_all add: text_fits_def unat_of_nat)
  then show "pull_text (put_text x @ rest) = Some (x, rest)"
    by (simp add: pull_text_def put_text_def then_words pull_only_if_def yields_def)
qed

interpretation counter_block: field put_counters pull_counters "\<lambda>_. True"
  by unfold_locales (simp add: put_counters_def pull_counters_def then_words yields_def)

interpretation key_pair: field put_pair "pull_pair pull_text pull_text" "\<lambda>k. text_fits (fst k) \<and> text_fits (snd k)"
  by unfold_locales (simp add: put_pair_def pull_pair_def texts.then_reads yields_def)

lemma position_of:
  assumes "k \<in> set xs"
  shows "length (takeWhile (\<lambda>x. x \<noteq> k) xs) < length xs" and "xs ! length (takeWhile (\<lambda>x. x \<noteq> k) xs) = k"
  using assms by (induction xs) auto

lemma session_key_reads:
  assumes "\<forall>k. key = Some k \<longrightarrow> k \<in> set SESSION_KEYS"
  shows "session_key_name (session_key_id key) = Some key"
proof (cases key)
  case (Some k)
  then have k: "k \<in> set SESSION_KEYS" using assms by simp
  note lt = position_of(1) [OF k] and at = position_of(2) [OF k]
  have len: "length SESSION_KEYS = 4" by (simp add: SESSION_KEYS_def)
  have "unat (of_nat (length (takeWhile (\<lambda>known. known \<noteq> k) SESSION_KEYS)) :: u32) = length (takeWhile (\<lambda>known. known \<noteq> k) SESSION_KEYS)"
    using lt len by (simp add: unat_of_nat)
  moreover have "unat (- 1 :: u32) \<noteq> length (takeWhile (\<lambda>known. known \<noteq> k) SESSION_KEYS)"
    using lt len by (simp add: unsigned_minus_1_eq_mask mask_eq_exp_minus_1)
  ultimately show ?thesis using k lt at Some by (auto simp: session_key_id_def session_key_name_def)
qed (simp add: session_key_id_def session_key_name_def)

section \<open>Maps read back\<close>

lemma insert_all_of: "insert_all entries = map_of (rev entries)"
proof -
  have "foldl (\<lambda>m (k, v). m(k \<mapsto> v)) m entries = m ++ map_of (rev entries)" for m :: "'a \<rightharpoonup> 'b"
    by (induction entries arbitrary: m) (auto simp: map_add_def fun_eq_iff split: option.splits)
  then show ?thesis by (simp add: insert_all_def)
qed

lemma insert_all_entries: "set keys = dom m \<Longrightarrow> insert_all (map (\<lambda>k. (k, the (m k))) keys) = m"
  by (auto simp: insert_all_of rev_map map_of_map_restrict restrict_map_def fun_eq_iff domIff)

lemma field_pairs:
  assumes "field put_a pull_a fits_a" and "field put_b pull_b fits_b"
  shows "field (\<lambda>x. put_a (fst x) @ put_b (snd x)) (pull_pair pull_a pull_b) (\<lambda>x. fits_a (fst x) \<and> fits_b (snd x))"
  by unfold_locales (simp add: pull_pair_def field.then_reads [OF assms(1)] field.then_reads [OF assms(2)] yields_def)

definition map_fits :: "('k \<Rightarrow> bool) \<Rightarrow> ('v \<Rightarrow> bool) \<Rightarrow> ('k \<rightharpoonup> 'v) \<Rightarrow> bool" where
  "map_fits key_fits value_fits m \<longleftrightarrow>
     finite (dom m) \<and> card (dom m) < 2 ^ 32 \<and> (\<forall>k v. m k = Some v \<longrightarrow> key_fits k \<and> value_fits v)"

lemma field_map:
  assumes "field put_key pull_key key_fits" and "field put_value pull_value value_fits"
  shows "field (put_map put_key put_value) (pull_map pull_key pull_value) (map_fits key_fits value_fits)"
proof
  fix m :: "'a \<rightharpoonup> 'b" and rest
  assume m: "map_fits key_fits value_fits m"
  let ?keys = "sorted_list_of_set (dom m)" and ?entry = "\<lambda>k. (k, the (m k))"
  have keys: "set ?keys = dom m" "length ?keys < 2 ^ 32" using m by (simp_all add: map_fits_def)
  have "list_all (\<lambda>x. key_fits (fst x) \<and> value_fits (snd x)) (map ?entry ?keys)"
    using m keys(1) by (auto simp: list_all_iff map_fits_def)
  from field.times_read [OF field_pairs [OF assms] this, of rest]
  have "pull_times (length ?keys) (pull_pair pull_key pull_value) (concat (map (\<lambda>k. put_key k @ put_value (the (m k))) ?keys) @ rest)
      = Some (map ?entry ?keys, rest)"
    by (simp add: comp_def)
  moreover have "unat (of_nat (length ?keys) :: u32) = length ?keys" using keys(2) by (simp add: unat_of_nat)
  ultimately show "pull_map pull_key pull_value (put_map put_key put_value m @ rest) = Some (m, rest)"
    by (simp add: pull_map_def put_map_def Let_def then_words del: sorted_list_of_set.length_sorted_key_list_of_set)
      (simp add: pull_then_def yields_def insert_all_entries [OF keys(1)])
qed

interpretation counter_maps: field put_counter_map pull_counter_map "map_fits text_fits (\<lambda>_. True)"
  unfolding put_counter_map_def pull_counter_map_def
  by (rule field_map) (rule texts.field_axioms counter_block.field_axioms)+

definition session_fits :: "session_counters \<Rightarrow> bool" where
  "session_fits e \<longleftrightarrow>
     finite (sc_traces e) \<and> card (sc_traces e) < 2 ^ 32 \<and> (\<forall>t \<in> sc_traces e. text_fits t)
     \<and> (\<forall>k. sc_session_key e = Some k \<longrightarrow> k \<in> set SESSION_KEYS)"

interpretation session_block: field put_session pull_session session_fits
proof
  fix e :: session_counters and rest :: bytes
  assume e: "session_fits e"
  let ?traces = "sorted_list_of_set (sc_traces e)"
  have traces: "set ?traces = sc_traces e" "unat (of_nat (length ?traces) :: u32) = length ?traces" "list_all text_fits ?traces"
    using e by (simp_all add: session_fits_def unat_of_nat list_all_iff)
  have key: "session_key_name (session_key_id (sc_session_key e)) = Some (sc_session_key e)"
    using e by (intro session_key_reads) (simp add: session_fits_def)
  have times: "pull_then (pull_times (length ?traces) pull_text) f (concat (map put_text ?traces) @ tail) = f ?traces tail" for f tail
    by (simp only: pull_then_def texts.times_read [OF traces(3)]) simp
  show "pull_session (put_session e @ rest) = Some (e, rest)"
    unfolding pull_session_def put_session_def Let_def
    by (simp only: append_assoc counter_block.then_reads [OF TrueI] then_words traces(2) times key option.case traces(1) yields_def)
      simp
qed

interpretation session_counter_maps: field "put_map put_pair put_counters" "pull_map (pull_pair pull_text pull_text) pull_counters"
  "map_fits (\<lambda>k. text_fits (fst k) \<and> text_fits (snd k)) (\<lambda>_. True)"
  by (rule field_map) (rule key_pair.field_axioms counter_block.field_axioms)+

interpretation session_maps: field "put_map put_pair put_session" "pull_map (pull_pair pull_text pull_text) pull_session"
  "map_fits (\<lambda>k. text_fits (fst k) \<and> text_fits (snd k)) session_fits"
  by (rule field_map) (rule key_pair.field_axioms session_block.field_axioms)+

section \<open>The file reads back\<close>

lemma binding_read:
  "pull_then pull_binding f (put_prologue b bounds @ rest)
    = f b (u64_le (rb_min_end_ns bounds) @ u64_le (rb_max_end_ns bounds) @ rest)"
proof -
  have "pull_binding (put_prologue b bounds @ rest) = Some (b, u64_le (rb_min_end_ns bounds) @ u64_le (rb_max_end_ns bounds) @ rest)"
    unfolding pull_binding_def put_prologue_def
    by (simp add: then_words pull_only_if_def yields_def)
  then show ?thesis by (simp add: pull_then_def)
qed

lemma bounds_read:
  assumes "rb_min_start_ns bounds = bi_min_start_ns b" and "rb_max_start_ns bounds = bi_max_start_ns b"
  shows "pull_then (pull_bounds b) f (u64_le (rb_min_end_ns bounds) @ u64_le (rb_max_end_ns bounds) @ rest) = f bounds rest"
proof -
  have "pull_bounds b (u64_le (rb_min_end_ns bounds) @ u64_le (rb_max_end_ns bounds) @ rest) = Some (bounds, rest)"
    by (simp only: pull_bounds_def then_words yields_def) (simp add: assms [symmetric])
  then show ?thesis by (simp add: pull_then_def)
qed

text \<open>What fits the widths of the format, and the bounds the binding repeats.\<close>

definition rollup_fits :: "segment_rollup \<Rightarrow> bool" where
  "rollup_fits r \<longleftrightarrow>
     map_fits text_fits (\<lambda>_. True) (ro_by_model r) \<and> map_fits text_fits (\<lambda>_. True) (ro_by_provider r)
     \<and> map_fits text_fits (\<lambda>_. True) (ro_by_service r) \<and> map_fits text_fits (\<lambda>_. True) (ro_by_day r)
     \<and> map_fits (\<lambda>k. text_fits (fst k) \<and> text_fits (snd k)) (\<lambda>_. True) (ro_by_session_key r)
     \<and> map_fits (\<lambda>k. text_fits (fst k) \<and> text_fits (snd k)) session_fits (ro_sessions r)
     \<and> finite (ro_key_hashes r)
     \<and> finite (ro_payload_refs r) \<and> card (ro_payload_refs r) < 2 ^ 32 \<and> (\<forall>t \<in> ro_payload_refs r. text_fits t)"

definition describes :: "binding \<Rightarrow> segment_rollup \<Rightarrow> bool" where
  "describes b r \<longleftrightarrow> rb_min_start_ns (ro_bounds r) = bi_min_start_ns b \<and> rb_max_start_ns (ro_bounds r) = bi_max_start_ns b"

lemma rollup_sections_read:
  assumes "rollup_fits r" and "card (ro_key_hashes r) < 2 ^ 64"
  shows "pull_sections (ro_bounds r) (put_sections r @ rest) = Some (r, rest)"
proof -
  let ?hashes = "sorted_list_of_set (ro_key_hashes r)" and ?refs = "sorted_list_of_set (ro_payload_refs r)"
  have maps: "map_fits text_fits (\<lambda>_. True) (ro_by_model r)" "map_fits text_fits (\<lambda>_. True) (ro_by_provider r)"
    "map_fits text_fits (\<lambda>_. True) (ro_by_service r)" "map_fits text_fits (\<lambda>_. True) (ro_by_day r)"
    "map_fits (\<lambda>k. text_fits (fst k) \<and> text_fits (snd k)) (\<lambda>_. True) (ro_by_session_key r)"
    "map_fits (\<lambda>k. text_fits (fst k) \<and> text_fits (snd k)) session_fits (ro_sessions r)"
    using assms(1) by (simp_all only: rollup_fits_def)
  have hashes: "set ?hashes = ro_key_hashes r" "unat (of_nat (length ?hashes) :: u64) = length ?hashes" "list_all (\<lambda>_. True) ?hashes"
    using assms by (simp_all add: rollup_fits_def unat_of_nat list_all_iff)
  have refs: "set ?refs = ro_payload_refs r" "unat (of_nat (length ?refs) :: u32) = length ?refs" "list_all text_fits ?refs"
    using assms(1) by (simp_all add: rollup_fits_def unat_of_nat list_all_iff)
  have hashes_read: "pull_then (pull_times (length ?hashes) pull_u64) f (concat (map u64_le ?hashes) @ tail) = f ?hashes tail" for f tail
    by (simp only: pull_then_def w64.times_read [OF hashes(3)]) simp
  have refs_read: "pull_then (pull_times (length ?refs) pull_text) f (concat (map put_text ?refs) @ tail) = f ?refs tail" for f tail
    by (simp only: pull_then_def texts.times_read [OF refs(3)]) simp
  show ?thesis
    unfolding pull_sections_def put_sections_def Let_def
    by (simp only: append_assoc counter_maps.then_reads [OF maps(1)] counter_maps.then_reads [OF maps(2)]
        counter_maps.then_reads [OF maps(3)] counter_maps.then_reads [OF maps(4)] session_counter_maps.then_reads [OF maps(5)]
        session_maps.then_reads [OF maps(6)] then_words hashes(1,2) hashes_read refs(1,2) refs_read yields_def)
      (simp add: rollup_empty_def)
qed

lemma length_prologue: "length (put_prologue b bounds) = PROLOGUE_CHECKSUM_AT"
  by (simp add: put_prologue_def PROLOGUE_CHECKSUM_AT_def ROLLUP_MAGIC_def ascii_def)

lemma magic_length: "length ROLLUP_MAGIC = 8"
  by (simp add: ROLLUP_MAGIC_def ascii_def)

lemma decode_encode:
  assumes "rollup_fits r" and "card (ro_key_hashes r) < 2 ^ 64" and "describes b r"
  shows "decode_rollup (encode_rollup b r) expected = (if expected = b then Some r else None)"
proof -
  let ?prologue = "put_prologue b (ro_bounds r)"
  define body where "body = ?prologue @ u64_le (fnv1a ?prologue) @ put_sections r"
  have e: "encode_rollup b r = body @ u64_le (fnv1a body)" by (simp add: encode_rollup_def body_def Let_def)
  have t: "take PROLOGUE_CHECKSUM_AT body = ?prologue" by (simp add: body_def length_prologue)
  have long: "\<not> length (body @ u64_le (fnv1a body)) < length ROLLUP_MAGIC + 8"
    by (simp add: body_def length_prologue PROLOGUE_CHECKSUM_AT_def magic_length)
  have sections: "pull_then (pull_sections (ro_bounds r)) f (put_sections r) = f r []" for f :: "segment_rollup \<Rightarrow> segment_rollup pull"
    using rollup_sections_read [OF assms(1,2), of "[]"] by (simp add: pull_then_def)
  have bounds: "rb_min_start_ns (ro_bounds r) = bi_min_start_ns b" "rb_max_start_ns (ro_bounds r) = bi_max_start_ns b"
    using assms(3) by (simp_all add: describes_def)
  have "pull_then pull_binding f body = f b (u64_le (rb_min_end_ns (ro_bounds r)) @ u64_le (rb_max_end_ns (ro_bounds r))
      @ u64_le (fnv1a ?prologue) @ put_sections r)" for f :: "binding \<Rightarrow> segment_rollup pull"
    unfolding body_def by (rule binding_read)
  then show ?thesis
    using long unfolding e decode_rollup_def Let_def
    by (simp add: t pull_only_if_def) (simp add: bounds_read [OF bounds] then_words sections pull_only_if_def)
qed

lemma bounds_encode:
  assumes "describes b r"
  shows "sidecar_bounds (encode_rollup b r) expected = (if expected = b then Some (ro_bounds r) else None)"
proof -
  let ?prologue = "put_prologue b (ro_bounds r)"
  have h: "take PROLOGUE_LEN (encode_rollup b r) = ?prologue @ u64_le (fnv1a ?prologue)"
    by (simp add: encode_rollup_def Let_def length_prologue PROLOGUE_LEN_def PROLOGUE_CHECKSUM_AT_def)
  have long: "\<not> length (encode_rollup b r) < PROLOGUE_LEN"
    by (simp add: encode_rollup_def Let_def length_prologue PROLOGUE_LEN_def PROLOGUE_CHECKSUM_AT_def)
  have bounds: "rb_min_start_ns (ro_bounds r) = bi_min_start_ns b" "rb_max_start_ns (ro_bounds r) = bi_max_start_ns b"
    using assms by (simp_all add: describes_def)
  show ?thesis
    using long unfolding sidecar_bounds_def h Let_def
    by (simp add: binding_read bounds_read [OF bounds] length_prologue) (simp add: pull_u64_def pull_then_def pull_bytes_def pull_only_if_def yields_def)
qed

section \<open>One damaged byte\<close>

text \<open>A step of FNV-1a is injective in the byte and in the hash: the prime is odd.\<close>

lemma prime_cancels: "x * 0x100000001b3 = y * 0x100000001b3 \<longleftrightarrow> x = y" for x y :: u64
proof
  assume "x * 0x100000001b3 = y * 0x100000001b3"
  then have "x * (0x100000001b3 * 0xce965057aff6957b) = y * (0x100000001b3 * 0xce965057aff6957b)"
    by (simp only: mult.assoc [symmetric])
  moreover have "(0x100000001b3 * 0xce965057aff6957b :: u64) = 1" by simp
  ultimately show "x = y" by (simp only: mult_1_right)
qed simp

lemma xor_cancels: "a XOR u = a XOR v \<longleftrightarrow> u = v" "u XOR a = v XOR a \<longleftrightarrow> u = v" for a u v :: u64
proof -
  show *: "a XOR u = a XOR v \<longleftrightarrow> u = v" for a u v :: u64
  proof
    assume "a XOR u = a XOR v"
    then have "a XOR (a XOR u) = a XOR (a XOR v)" by (rule arg_cong)
    then show "u = v" by (simp only: xor.assoc [symmetric] xor_self_eq xor.left_neutral)
  qed simp
  show "u XOR a = v XOR a \<longleftrightarrow> u = v" unfolding xor.commute [of _ a] by (rule *)
qed

lemma eat_cons: "eat (b # bs) h = eat bs ((h XOR ucast b) * 0x100000001b3)"
  by (simp add: eat_def)

lemma eat_injective: "eat bs h = eat bs k \<longleftrightarrow> h = k"
proof (induction bs arbitrary: h k)
  case (Cons b bs)
  show ?case unfolding eat_cons Cons.IH prime_cancels xor_cancels ..
qed (simp add: eat_def)

lemma eat_update:
  assumes "i < length bs" and "x \<noteq> bs ! i"
  shows "eat (bs[i := x]) h \<noteq> eat bs h"
proof -
  have bytes: "(ucast u :: u64) = ucast v \<longleftrightarrow> u = v" for u v :: u8
  proof
    assume "(ucast u :: u64) = ucast v"
    then have "unat (ucast u :: u64) = unat (ucast v :: u64)" by simp
    then have "take_bit 64 (unat u) = take_bit 64 (unat v)" by (simp add: unsigned_ucast_eq take_bit_word_eq_self unsigned_take_bit_eq)
    moreover have "unat w < 2 ^ 64" for w :: u8 by (rule order.strict_trans2 [OF unat_lt]) simp
    ultimately show "u = v" by (simp add: word_unat_eq_iff take_bit_nat_eq_self)
  qed simp
  have "bs[i := x] = take i bs @ x # drop (Suc i) bs" "bs = take i bs @ bs ! i # drop (Suc i) bs"
    using assms(1) by (simp_all add: upd_conv_take_nth_drop id_take_nth_drop)
  then have "eat (bs[i := x]) h = eat (x # drop (Suc i) bs) (eat (take i bs) h)"
    "eat bs h = eat (bs ! i # drop (Suc i) bs) (eat (take i bs) h)"
    by (metis eat_append)+
  then show ?thesis using assms(2) by (simp add: eat_cons eat_injective prime_cancels xor_cancels bytes)
qed

lemma damaged_checksum:
  assumes ok: "fnv1a (take (length bs - 8) bs) = le_u64 (drop (length bs - 8) bs)" and n: "8 \<le> length bs"
    and i: "i < length bs" and x: "x \<noteq> bs ! i"
  shows "fnv1a (take (length bs - 8) (bs[i := x])) \<noteq> le_u64 (drop (length bs - 8) (bs[i := x]))"
proof (cases "i < length bs - 8")
  case True
  then have "take (length bs - 8) (bs[i := x]) = (take (length bs - 8) bs)[i := x]" "drop (length bs - 8) (bs[i := x]) = drop (length bs - 8) bs"
    by (simp_all add: take_update_swap)
  moreover have "fnv1a ((take (length bs - 8) bs)[i := x]) \<noteq> fnv1a (take (length bs - 8) bs)"
    unfolding fnv1a_def using True x by (intro eat_update) simp_all
  ultimately show ?thesis using ok by simp
next
  case False
  then have "take (length bs - 8) (bs[i := x]) = take (length bs - 8) bs" by simp
  moreover have "le_u64 (drop (length bs - 8) (bs[i := x])) \<noteq> le_u64 (drop (length bs - 8) bs)"
  proof
    assume "le_u64 (drop (length bs - 8) (bs[i := x])) = le_u64 (drop (length bs - 8) bs)"
    then have "drop (length bs - 8) (bs[i := x]) = drop (length bs - 8) bs"
      using n by (metis u64_le_le_u64 length_drop length_list_update diff_diff_cancel)
    then have "bs[i := x] ! i = bs ! i" using False i n
      by (metis (no_types) add_diff_inverse_nat le_add_diff_inverse linorder_not_less nth_drop length_list_update diff_le_self)
    then show False using i x by simp
  qed
  ultimately show ?thesis using ok by simp
qed

lemma damaged_decode:
  assumes "decode_rollup bs expected = Some r" and "i < length bs" and "x \<noteq> bs ! i"
  shows "decode_rollup (bs[i := x]) expected' = None"
proof -
  have n: "8 \<le> length bs" and ok: "fnv1a (take (length bs - 8) bs) = le_u64 (drop (length bs - 8) bs)"
    using assms(1) by (auto simp: decode_rollup_def Let_def magic_length split: if_splits)
  show ?thesis using damaged_checksum [OF ok n assms(2,3)] by (simp add: decode_rollup_def Let_def)
qed

section \<open>The two readers agree\<close>

text \<open>A reader of so many bytes, whatever follows them.\<close>

definition consumes :: "nat \<Rightarrow> 'a pull \<Rightarrow> bool" where
  "consumes n m \<longleftrightarrow> (\<forall>bs x rest. m bs = Some (x, rest) \<longrightarrow> n \<le> length bs \<and> rest = drop n bs \<and> (\<forall>t. m (take n bs @ t) = Some (x, t)))"

lemma consumesD:
  assumes "consumes n m" and "m bs = Some (x, rest)"
  shows "n \<le> length bs" and "rest = drop n bs" and "m (take n bs @ t) = Some (x, t)"
  using assms unfolding consumes_def by blast+

lemma consumes_then:
  assumes m: "consumes a m" and f: "\<And>x. consumes b (f x)"
  shows "consumes (a + b) (pull_then m f)"
  unfolding consumes_def
proof (intro allI impI)
  fix bs y rest
  assume "pull_then m f bs = Some (y, rest)"
  then obtain x mid where x: "m bs = Some (x, mid)" "f x mid = Some (y, rest)"
    by (auto simp: pull_then_def split: option.splits)
  note first = consumesD [OF m x(1)] and second = consumesD [OF f x(2)]
  have "a + b \<le> length bs" "rest = drop (a + b) bs"
    using first(1,2) second(1,2) by (simp_all add: add.commute)
  moreover have "take (a + b) bs @ t = take a bs @ (take b mid @ t)" for t
    using first(2) by (simp add: take_add)
  then have "pull_then m f (take (a + b) bs @ t) = Some (y, t)" for t
    using first(3) second(3) by (simp add: pull_then_def)
  ultimately show "a + b \<le> length bs \<and> rest = drop (a + b) bs \<and> (\<forall>t. pull_then m f (take (a + b) bs @ t) = Some (y, t))" by blast
qed

lemma consumes_yields: "consumes 0 (yields x)"
  by (simp add: consumes_def yields_def)

lemma consumes_only_if: "consumes n m \<Longrightarrow> consumes n (pull_only_if b m)"
  unfolding consumes_def pull_only_if_def by auto

lemma consumes_bytes: "consumes n (pull_bytes n)"
  by (auto simp: consumes_def pull_bytes_def split: if_splits)

lemma consumes_words: "consumes 2 pull_u16" "consumes 4 pull_u32" "consumes 8 pull_u64"
  unfolding pull_u16_def pull_u32_def pull_u64_def
  using consumes_then [OF consumes_bytes consumes_yields] by (metis add.right_neutral)+

lemma consumes_binding: "consumes 56 pull_binding"
proof -
  have "consumes (length ROLLUP_MAGIC + (2 + (2 + (4 + (8 + (8 + (8 + (8 + (8 + 0))))))))) pull_binding"
    unfolding pull_binding_def
    by (intro consumes_then consumes_only_if consumes_bytes consumes_words consumes_yields)
  then show ?thesis by (simp add: magic_length)
qed

lemma consumes_bounds: "consumes 16 (pull_bounds b)"
proof -
  have "consumes (8 + (8 + 0)) (pull_bounds b)"
    unfolding pull_bounds_def by (intro consumes_then consumes_words consumes_yields)
  then show ?thesis by simp
qed

text \<open>The short read sees the prologue alone, which has a checksum of its own.\<close>

lemma bounds_checksum:
  assumes "sidecar_bounds bs expected = Some bounds"
  shows "PROLOGUE_LEN \<le> length bs"
    and "fnv1a (take PROLOGUE_CHECKSUM_AT (take PROLOGUE_LEN bs)) = le_u64 (drop PROLOGUE_CHECKSUM_AT (take PROLOGUE_LEN bs))"
proof -
  let ?h = "take PROLOGUE_LEN bs"
  show long: "PROLOGUE_LEN \<le> length bs" using assms by (auto simp: sidecar_bounds_def split: if_splits)
  obtain b mid bo mid2 rest where
    b: "pull_binding ?h = Some (b, mid)" and bo: "pull_bounds b mid = Some (bo, mid2)"
    and c: "pull_u64 mid2 = Some (fnv1a (take PROLOGUE_CHECKSUM_AT ?h), rest)"
    using assms by (auto simp: sidecar_bounds_def Let_def pull_then_def pull_only_if_def split: if_splits option.splits)
  have "mid2 = drop PROLOGUE_CHECKSUM_AT ?h"
    using consumesD(2) [OF consumes_binding b] consumesD(2) [OF consumes_bounds bo] by (simp add: PROLOGUE_CHECKSUM_AT_def)
  moreover have "length (drop PROLOGUE_CHECKSUM_AT ?h) = 8" using long by (simp add: PROLOGUE_LEN_def PROLOGUE_CHECKSUM_AT_def)
  ultimately show "fnv1a (take PROLOGUE_CHECKSUM_AT ?h) = le_u64 (drop PROLOGUE_CHECKSUM_AT ?h)"
    using c by (simp add: pull_u64_def pull_then_def pull_bytes_def yields_def)
qed

lemma damaged_bounds:
  assumes "sidecar_bounds bs expected = Some bounds" and "i < length bs" and "x \<noteq> bs ! i"
  shows "sidecar_bounds (bs[i := x]) other = (if i < PROLOGUE_LEN then None else sidecar_bounds bs other)"
proof (cases "i < PROLOGUE_LEN")
  case True
  let ?h = "take PROLOGUE_LEN bs"
  note ok = bounds_checksum [OF assms(1)]
  have len: "length ?h - 8 = PROLOGUE_CHECKSUM_AT" "8 \<le> length ?h" "i < length ?h" "x \<noteq> ?h ! i"
    using ok(1) True assms(3) by (simp_all add: PROLOGUE_LEN_def PROLOGUE_CHECKSUM_AT_def)
  have "fnv1a (take PROLOGUE_CHECKSUM_AT (?h[i := x])) \<noteq> le_u64 (drop PROLOGUE_CHECKSUM_AT (?h[i := x]))"
    using damaged_checksum [of ?h i x] ok(2) len by simp
  moreover have "?h[i := x] = take PROLOGUE_LEN (bs[i := x])" by (simp add: take_update_swap)
  ultimately show ?thesis using True bounds_checksum(2) [of "bs[i := x]" other] by (cases "sidecar_bounds (bs[i := x]) other") auto
next
  case False
  then show ?thesis by (simp add: sidecar_bounds_def)
qed

lemma sections_bounds: "pull_sections bounds bs = Some (r, rest) \<Longrightarrow> ro_bounds r = bounds"
  by (auto simp: pull_sections_def pull_then_def yields_def rollup_empty_def split: option.splits)

lemma decode_bounds:
  assumes "decode_rollup bs expected = Some r"
  shows "sidecar_bounds bs expected = Some (ro_bounds r)"
proof -
  define body where "body = take (length bs - 8) bs"
  from assms obtain bounds mid1 mid2 mid3 rest where
    b: "pull_binding body = Some (expected, mid1)" and bo: "pull_bounds expected mid1 = Some (bounds, mid2)"
    and c: "pull_u64 mid2 = Some (fnv1a (take PROLOGUE_CHECKSUM_AT body), mid3)" and r: "pull_sections bounds mid3 = Some (r, rest)"
    by (auto simp: decode_rollup_def Let_def body_def [symmetric] pull_then_def pull_only_if_def split: if_splits option.splits)
  note d = consumesD [OF consumes_binding b] consumesD [OF consumes_bounds bo] consumesD [OF consumes_words(3) c]
  have "80 \<le> length body" using d(1,2,4,5,7) by simp
  then have long: "80 \<le> length bs" "take 80 body = take 80 bs" by (simp_all add: body_def)
  have head: "take 80 bs = take 56 body @ take 16 mid1 @ take 8 mid2"
  proof -
    have "mid2 = drop 72 body" using d(2,5) by simp
    then show ?thesis
      using take_add [of 72 8 body] take_add [of 56 16 body] d(2) unfolding long(2) [symmetric] by simp
  qed
  have "pull_u64 (take 8 mid2) = Some (fnv1a (take PROLOGUE_CHECKSUM_AT body), [])" using d(9) [of "[]"] by simp
  moreover have "take PROLOGUE_CHECKSUM_AT (take 80 bs) = take PROLOGUE_CHECKSUM_AT body"
    unfolding long(2) [symmetric] by (simp add: PROLOGUE_CHECKSUM_AT_def)
  ultimately show ?thesis
    using long(1) d(3) [of "take 16 mid1 @ take 8 mid2"] d(6) [of "take 8 mid2"] sections_bounds [OF r]
    by (simp add: sidecar_bounds_def Let_def PROLOGUE_LEN_def head [symmetric] pull_then_def pull_only_if_def yields_def)
qed

section \<open>What a sidecar gives\<close>

text \<open>What the fold over the segments asks of a stored rollup.\<close>

lemma loaded_rollup_ok:
  assumes "mset ys = mset ss" and "rollup_fits (rollup_build fl p ys)" and "card (ro_key_hashes (rollup_build fl p ys)) < 2 ^ 64"
    and "describes b (rollup_build fl p ys)"
  shows "rollup_ok fl p (load_rollup (Some (encode_rollup b (rollup_build fl p ys))) expected) ss"
  using assms(1) by (auto simp: rollup_ok_def load_rollup_def decode_encode [OF assms(2-4)] split: if_splits)

text \<open>C39: a stored rollup reads back, and only under its binding. The bytes written for a rollup that fits the format
  give that rollup again to a reader who expects the binding they were written under, the length, record count and
  time range of the segment and the fingerprint of the pricing, and nothing to a reader who expects any other; and the
  short read of the prologue gives the same bounds, or nothing, in the same cases.\<close>

theorem sidecars_read_back:
  assumes "rollup_fits r" and "card (ro_key_hashes r) < 2 ^ 64" and "describes b r"
  shows "load_rollup (store_rollup (Some (bi_segment_bytes b)) True b r sidecar) expected = (if expected = b then Some r else None)
    \<and> sidecar_bounds (encode_rollup b r) expected = (if expected = b then Some (ro_bounds r) else None)"
  using decode_encode [OF assms] bounds_encode [OF assms(3)] by (simp_all add: load_rollup_def store_rollup_def)

definition w_rollup :: segment_rollup where
  "w_rollup =
     (rollup_empty \<lparr>rb_min_start_ns = 1, rb_max_start_ns = 2, rb_min_end_ns = 3, rb_max_end_ns = 4\<rparr>)
       \<lparr>ro_by_service := [[97] \<mapsto> counters_default\<lparr>c_spans := 7\<rparr>],
        ro_sessions := [([], [115]) \<mapsto> session_default\<lparr>sc_traces := {[116]}, sc_session_key := Some SESSION_ATTRIBUTE\<rparr>],
        ro_key_hashes := {5}\<rparr>"

definition w_binding :: binding where
  "w_binding = \<lparr>bi_segment_bytes = 10, bi_record_count = 1, bi_min_start_ns = 1, bi_max_start_ns = 2, bi_pricing_fingerprint = 0\<rparr>"

lemma w_rollup_fits: "rollup_fits w_rollup" "card (ro_key_hashes w_rollup) < 2 ^ 64" "describes w_binding w_rollup"
  by (auto simp: rollup_fits_def map_fits_def text_fits_def session_fits_def describes_def w_rollup_def w_binding_def rollup_empty_def
      session_default_def SESSION_KEYS_def SESSION_ATTRIBUTE_def split: if_splits)

theorem sidecars_read_back_witness:
  "load_rollup (store_rollup (Some 10) True w_binding w_rollup None) w_binding = Some w_rollup
    \<and> load_rollup (store_rollup (Some 10) True w_binding w_rollup None) (w_binding\<lparr>bi_pricing_fingerprint := 1\<rparr>) = None
    \<and> sidecar_bounds (encode_rollup w_binding w_rollup) w_binding = Some (ro_bounds w_rollup)"
  using sidecars_read_back [OF w_rollup_fits, of None w_binding]
    sidecars_read_back [OF w_rollup_fits, of None "w_binding\<lparr>bi_pricing_fingerprint := 1\<rparr>"]
  by (simp add: w_binding_def)

text \<open>C40: a damaged sidecar is refused. Of any bytes a rollup is read from, the short read of the prologue gives the
  bounds of that rollup. Once any one byte of them has changed, the whole read is refused, whatever it expects; so is the
  short read when the byte is one of the 80 it looks at, and else it answers as before.\<close>

theorem damaged_sidecars_are_refused:
  assumes "decode_rollup bs expected = Some r"
  shows "sidecar_bounds bs expected = Some (ro_bounds r)
    \<and> (i < length bs \<and> x \<noteq> bs ! i \<longrightarrow> decode_rollup (bs[i := x]) other = None
        \<and> sidecar_bounds (bs[i := x]) other = (if i < PROLOGUE_LEN then None else sidecar_bounds bs other))"
  using decode_bounds [OF assms] damaged_decode [OF assms] damaged_bounds by blast

theorem damaged_sidecars_are_refused_witness:
  "decode_rollup ((encode_rollup w_binding w_rollup)[90 := encode_rollup w_binding w_rollup ! 90 + 1]) w_binding = None
    \<and> sidecar_bounds ((encode_rollup w_binding w_rollup)[30 := encode_rollup w_binding w_rollup ! 30 + 1]) w_binding = None"
proof -
  have "decode_rollup (encode_rollup w_binding w_rollup) w_binding = Some w_rollup"
    by (simp add: decode_encode [OF w_rollup_fits])
  moreover have "90 < length (encode_rollup w_binding w_rollup)"
    by (simp add: encode_rollup_def Let_def length_prologue PROLOGUE_CHECKSUM_AT_def put_sections_def put_counter_map_def put_map_def)
  ultimately show ?thesis
    using damaged_sidecars_are_refused [of "encode_rollup w_binding w_rollup" w_binding w_rollup 90 "encode_rollup w_binding w_rollup ! 90 + 1" w_binding]
      damaged_sidecars_are_refused [of "encode_rollup w_binding w_rollup" w_binding w_rollup 30 "encode_rollup w_binding w_rollup ! 30 + 1" w_binding]
    by (simp add: PROLOGUE_LEN_def)
qed

end
