(* ===== verification/Aggregates.thy ===== *)
theory Aggregates
  imports Fold_Analytics Query_Properties
begin

text \<open>
  The aggregates over the fold (\<open>llm_aggregate_in\<close>, \<open>sessions_in\<close> and \<open>session_in\<close> of \<open>src/src/analytics.rs\<close>). A row
  carries the counters of its group as one record. The rows are collected from a hash map, whose order the code
  leaves open, and then sorted: here they are collected by ascending key.
\<close>

section \<open>Orders on \<open>f64\<close>\<close>

text \<open>\<open>total_cmp\<close>, and \<open>partial_cmp\<close> on numbers, as an order of words: a negative number is turned round, and zero has
  one sign for \<open>partial_cmp\<close>. A sum of costs is never a NaN (\<open>summed_costs_are_finite\<close>).\<close>

definition f64_total_key :: "f64 \<Rightarrow> u64" where
  "f64_total_key v = (if bit v 63 then - v - 1 else v + 0x8000000000000000)"

definition f64_partial_key :: "f64 \<Rightarrow> u64" where
  "f64_partial_key v = f64_total_key (if v = 0x8000000000000000 then 0 else v)"

text \<open>Descending order of a word.\<close>

definition downwards :: "u64 \<Rightarrow> u64" where
  "downwards w = - w - 1"

lemma downwards_le [simp]: "downwards a \<le> downwards b \<longleftrightarrow> b \<le> a"
proof -
  have "unat (- w - 1) = unat (- 1 :: u64) - unat w" for w :: u64
    unfolding minus_diff_commute [of w 1] by (rule unat_sub [OF word_n1_ge])
  then show ?thesis using unat_u64_lt [of a] unat_u64_lt [of b]
    by (auto simp: downwards_def word_le_nat_alt unsigned_minus_1_eq_mask mask_eq_exp_minus_1)
qed

lemma summed_costs_are_finite: "f64_is_finite (finite_saturating_add fl a b)"
  by (simp add: finite_saturating_add_def Let_def) (simp add: f64_is_finite_def f64_exponent_def)

section \<open>Aggregation by group\<close>

datatype llm_group_by = Model | Provider | Service | Session | Day

definition llm_group_by_parse :: "bytes \<Rightarrow> llm_group_by option" where
  "llm_group_by_parse n =
     (if n = ascii ''model'' then Some Model else if n = ascii ''provider'' then Some Provider
      else if n = ascii ''service'' then Some Service else if n = ascii ''session'' then Some Session
      else if n = ascii ''day'' then Some Day else None)"

record llm_aggregate_row =
  ar_key :: bytes
  ar_counters :: counters

definition unscoped :: "(bytes \<rightharpoonup> 'c) \<Rightarrow> (bytes \<times> bytes \<rightharpoonup> 'c)" where
  "unscoped m = (\<lambda>(t, key). if t = [] then m key else None)"

definition scoped :: "bytes option \<Rightarrow> (bytes \<times> bytes \<rightharpoonup> 'c) \<Rightarrow> (bytes \<times> bytes \<rightharpoonup> 'c)" where
  "scoped scope m = (\<lambda>key. case scope of Some t \<Rightarrow> if fst key \<noteq> t then None else m key | None \<Rightarrow> m key)"

definition rollup_groups :: "llm_group_by \<Rightarrow> bytes option \<Rightarrow> segment_rollup \<Rightarrow> (bytes \<times> bytes \<rightharpoonup> counters)" where
  "rollup_groups by scope r =
     (case by of
        Session \<Rightarrow> scoped scope (ro_by_session_key r)
      | Model \<Rightarrow> unscoped (ro_by_model r)
      | Provider \<Rightarrow> unscoped (ro_by_provider r)
      | Service \<Rightarrow> unscoped (ro_by_service r)
      | Day \<Rightarrow> unscoped (ro_by_day r))"

definition merged_groups :: "f64_lib \<Rightarrow> llm_group_by \<Rightarrow> bytes option \<Rightarrow> segment_rollup list \<Rightarrow> (bytes \<times> bytes \<rightharpoonup> counters)" where
  "merged_groups fl by scope visited =
     foldl (\<lambda>m r. merge_entries (counters_merge fl) counters_default m (rollup_groups by scope r)) Map.empty visited"

definition row_rank :: "llm_aggregate_row \<Rightarrow> u64 \<times> u64 \<times> bytes" where
  "row_rank row =
     (downwards (f64_total_key (c_cost_usd (ar_counters row))), downwards (c_total_tokens (ar_counters row)), ar_key row)"

definition aggregate_rows :: "(bytes \<times> bytes \<rightharpoonup> counters) \<Rightarrow> llm_aggregate_row list" where
  "aggregate_rows m =
     sort_key row_rank
       (map (\<lambda>(t, key). \<lparr>ar_key = (if t = [] then key else t @ [47] @ key), ar_counters = the (m (t, key))\<rparr>)
            (sorted_list_of_set (dom m)))"

definition llm_aggregate_in ::
  "'seg reader \<Rightarrow> store_lib \<Rightarrow> 'seg ordinals \<Rightarrow> f64_lib \<Rightarrow> pricing \<Rightarrow> write_buffer
    \<Rightarrow> ('seg store_segment \<times> segment_rollup option) list \<Rightarrow> (span \<Rightarrow> bool) option \<Rightarrow> bytes option \<Rightarrow> llm_group_by
    \<Rightarrow> u64 option \<Rightarrow> u64 option \<Rightarrow> llm_aggregate_row list task" where
  "llm_aggregate_in rd lib ordinals fl p w segs erased scope by since until' =
     (let fold_scope = (case by of Session \<Rightarrow> None | _ \<Rightarrow> scope) in
      next_do (fold_analytics rd lib ordinals fl p w segs since until' erased fold_scope) (\<lambda>(visited, noted).
        give (aggregate_rows (merged_groups fl by scope visited))))"

section \<open>Sessions\<close>

datatype session_order = Recent | Cost | Errors | Tokens

definition session_order_parse :: "bytes \<Rightarrow> session_order option" where
  "session_order_parse n =
     (if n = ascii ''recent'' then Some Recent else if n = ascii ''cost'' then Some Cost
      else if n = ascii ''errors'' then Some Errors else if n = ascii ''tokens'' then Some Tokens else None)"

definition session_order_as_str :: "session_order \<Rightarrow> bytes" where
  "session_order_as_str order =
     (case order of Recent \<Rightarrow> ascii ''recent'' | Cost \<Rightarrow> ascii ''cost'' | Errors \<Rightarrow> ascii ''errors'' | Tokens \<Rightarrow> ascii ''tokens'')"

lemma session_orders_round_trip: "session_order_parse (session_order_as_str order) = Some order"
  by (cases order) (simp_all add: session_order_parse_def session_order_as_str_def ascii_def)

record session_summary =
  su_session_id :: bytes
  su_tenant :: bytes
  su_session_attribute :: bytes
  su_first_start_ns :: u64
  su_last_end_ns :: u64
  su_trace_count :: nat
  su_counters :: counters

definition summary_of :: "bytes \<Rightarrow> bytes \<Rightarrow> session_counters \<Rightarrow> session_summary" where
  "summary_of t session_id e =
     \<lparr>su_session_id = session_id, su_tenant = t, su_session_attribute = session_attribute e,
      su_first_start_ns = sc_first_start_ns e, su_last_end_ns = sc_last_end_ns e, su_trace_count = card (sc_traces e),
      su_counters = sc_counters e\<rparr>"

definition merged_sessions :: "f64_lib \<Rightarrow> bytes option \<Rightarrow> segment_rollup list \<Rightarrow> (bytes \<times> bytes \<rightharpoonup> session_counters)" where
  "merged_sessions fl scope visited =
     foldl (\<lambda>m r. merge_entries (session_merge fl) session_default m (scoped scope (ro_sessions r))) Map.empty visited"

definition summary_rank :: "session_order \<Rightarrow> session_summary \<Rightarrow> u64 \<times> bytes \<times> bytes" where
  "summary_rank order s =
     (downwards (case order of
        Recent \<Rightarrow> su_last_end_ns s
      | Cost \<Rightarrow> f64_partial_key (c_cost_usd (su_counters s))
      | Errors \<Rightarrow> c_errors (su_counters s)
      | Tokens \<Rightarrow> c_total_tokens (su_counters s)), su_tenant s, su_session_id s)"

definition session_rows :: "session_order \<Rightarrow> nat \<Rightarrow> (bytes \<times> bytes \<rightharpoonup> session_counters) \<Rightarrow> session_summary list" where
  "session_rows order limit m =
     take limit (sort_key (summary_rank order)
       (map (\<lambda>(t, session_id). summary_of t session_id (the (m (t, session_id)))) (sorted_list_of_set (dom m))))"

definition sessions_in ::
  "'seg reader \<Rightarrow> store_lib \<Rightarrow> 'seg ordinals \<Rightarrow> f64_lib \<Rightarrow> pricing \<Rightarrow> write_buffer
    \<Rightarrow> ('seg store_segment \<times> segment_rollup option) list \<Rightarrow> (span \<Rightarrow> bool) option \<Rightarrow> bytes option \<Rightarrow> u64 option \<Rightarrow> u64 option
    \<Rightarrow> nat \<Rightarrow> session_order \<Rightarrow> session_summary list task" where
  "sessions_in rd lib ordinals fl p w segs erased scope since until' limit order =
     next_do (fold_analytics rd lib ordinals fl p w segs since until' erased None) (\<lambda>(visited, noted).
       give (session_rows order limit (merged_sessions fl scope visited)))"

text \<open>\<open>session_in\<close>: one session from the spans it resolves to, with its traces by their first activity.\<close>

record session_trace =
  st_trace_id :: bytes
  st_root_name :: bytes
  st_first_start_ns :: u64
  st_last_end_ns :: u64
  st_counters :: counters

definition reported_tenant :: "bytes option \<Rightarrow> span list \<Rightarrow> bytes" where
  "reported_tenant scope spans =
     (case scope of
        Some t \<Rightarrow> t
      | None \<Rightarrow> let first = tenant (hd spans) in if list_all (\<lambda>s. tenant s = first) spans then first else [])"

definition trace_members :: "span list \<Rightarrow> bytes \<Rightarrow> span list" where
  "trace_members spans t = filter (\<lambda>s. trace_id s = t) spans"

text \<open>\<open>min_by_key\<close>: the first of the least.\<close>

definition trace_root :: "span list \<Rightarrow> span" where
  "trace_root members = hd (sort_key start_time_ns members)"

definition session_trace_of :: "f64_lib \<Rightarrow> pricing \<Rightarrow> span list \<Rightarrow> bytes \<Rightarrow> session_trace" where
  "session_trace_of fl p spans t =
     (let members = trace_members spans t; root = trace_root members
      in \<lparr>st_trace_id = t, st_root_name = name root, st_first_start_ns = start_time_ns root,
          st_last_end_ns = fold max (map end_time_ns members) 0,
          st_counters = fold (\<lambda>s. counters_absorb fl s (span_facts fl p s)) members counters_default\<rparr>)"

definition session_detail :: "f64_lib \<Rightarrow> pricing \<Rightarrow> bytes option \<Rightarrow> bytes \<Rightarrow> span list \<Rightarrow> (session_summary \<times> session_trace list) option" where
  "session_detail fl p scope session_id spans =
     (if spans = [] then None
      else
        let e = fold (\<lambda>s. session_absorb fl s (span_facts fl p s)) spans session_default
        in Some (summary_of (reported_tenant scope spans) session_id e,
                 sort_key st_first_start_ns (map (session_trace_of fl p spans) (sorted_list_of_set (trace_id ` set spans)))))"

definition session_in ::
  "'seg reader \<Rightarrow> store_lib \<Rightarrow> f64_lib \<Rightarrow> pricing \<Rightarrow> write_buffer \<Rightarrow> 'seg store_segment list \<Rightarrow> (span \<Rightarrow> bool) option
    \<Rightarrow> bytes option \<Rightarrow> bytes \<Rightarrow> (session_summary \<times> session_trace list) option task" where
  "session_in rd lib fl p w segs erased scope session_id =
     next_do (resolve_session_spans_in rd lib w segs scope session_id erased) (\<lambda>spans.
       give (session_detail fl p scope session_id spans))"

section \<open>What an aggregate counts\<close>

text \<open>The counters of a map, against the set of the spans counted.\<close>

definition totals :: "f64_lib \<Rightarrow> pricing \<Rightarrow> (span \<Rightarrow> 'k option) \<Rightarrow> span set \<Rightarrow> ('k \<rightharpoonup> counters) \<Rightarrow> bool" where
  "totals fl p key counted m \<longleftrightarrow>
     (\<forall>k. let part = {s \<in> counted. key s = Some k} in
        case m k of
          None \<Rightarrow> part = {}
        | Some c \<Rightarrow> part \<noteq> {} \<and> list_all (\<lambda>(field, weight). field c = saturated (\<Sum>s\<in>part. weight s)) (span_measures fl p))"

definition session_totals :: "f64_lib \<Rightarrow> pricing \<Rightarrow> span set \<Rightarrow> (bytes \<times> bytes \<rightharpoonup> session_counters) \<Rightarrow> bool" where
  "session_totals fl p counted m \<longleftrightarrow>
     (\<forall>k. let part = {s \<in> counted. session_of fl p s = Some k} in
        case m k of
          None \<Rightarrow> part = {}
        | Some e \<Rightarrow>
            part \<noteq> {}
            \<and> list_all (\<lambda>(field, weight). field (sc_counters e) = saturated (\<Sum>s\<in>part. weight s)) (span_measures fl p)
            \<and> sc_first_start_ns e = Min (start_time_ns ` part) \<and> sc_last_end_ns e = Max (end_time_ns ` part)
            \<and> sc_traces e = trace_id ` part \<and> preferred (sc_session_key e) (session_key_of fl p ` part))"

text \<open>The group a span is counted in, as the key of the merged map.\<close>

definition group_key :: "f64_lib \<Rightarrow> pricing \<Rightarrow> llm_group_by \<Rightarrow> span \<Rightarrow> (bytes \<times> bytes) option" where
  "group_key fl p by s =
     (case by of
        Session \<Rightarrow> session_of fl p s
      | Model \<Rightarrow> map_option (Pair []) (lf_model (span_facts fl p s))
      | Provider \<Rightarrow> map_option (Pair []) (lf_provider (span_facts fl p s))
      | Service \<Rightarrow> Some ([], service s)
      | Day \<Rightarrow> Some ([], day_bucket (start_time_ns s)))"

lemma filter_distinct: "distinct xs \<Longrightarrow> filter_mset P (mset xs) = mset_set {s \<in> set xs. P s}"
  by (simp add: mset_set_set [symmetric] filter_mset_mset_set)

lemma tallies_set: "finite part \<Longrightarrow> tallies fl p c (mset_set part) \<longleftrightarrow>
    list_all (\<lambda>(field, weight). field c = saturated (\<Sum>s\<in>part. weight s)) (span_measures fl p)"
  by (simp add: tallies_def sum_unfold_sum_mset)

lemma gathers_totals:
  assumes d: "distinct xs" and g: "gathers (tallies fl p) key (mset xs) m"
  shows "totals fl p key (set xs) m"
  unfolding totals_def Let_def
proof
  fix k
  let ?part = "{s \<in> set xs. key s = Some k}"
  have "case m k of None \<Rightarrow> mset_set ?part = {#} | Some c \<Rightarrow> mset_set ?part \<noteq> {#} \<and> tallies fl p c (mset_set ?part)"
    using g unfolding gathers_def Let_def filter_distinct [OF d] by (rule spec)
  then show "case m k of None \<Rightarrow> ?part = {} | Some c \<Rightarrow> ?part \<noteq> {}
      \<and> list_all (\<lambda>(field, weight). field c = saturated (\<Sum>s\<in>?part. weight s)) (span_measures fl p)"
    by (cases "m k") (simp_all add: mset_set_empty_iff tallies_set)
qed

lemma session_tallies_set:
  assumes "finite part" and "part \<noteq> {}" and t: "session_tallies fl p e (mset_set part)"
  shows "list_all (\<lambda>(field, weight). field (sc_counters e) = saturated (\<Sum>s\<in>part. weight s)) (span_measures fl p)
      \<and> sc_first_start_ns e = Min (start_time_ns ` part) \<and> sc_last_end_ns e = Max (end_time_ns ` part)
      \<and> sc_traces e = trace_id ` part \<and> preferred (sc_session_key e) (session_key_of fl p ` part)"
proof -
  have "mset_set part \<noteq> {#}" and "set_mset (mset_set part) = part"
    using assms(1,2) by (simp_all only: mset_set_empty_iff finite_set_mset_mset_set) blast+
  then show ?thesis using t tallies_set [OF assms(1), of fl p "sc_counters e"] by (simp add: session_tallies_def)
qed

lemma gathers_session_totals:
  assumes d: "distinct xs" and g: "gathers (session_tallies fl p) (session_of fl p) (mset xs) m"
  shows "session_totals fl p (set xs) m"
  unfolding session_totals_def Let_def
proof
  fix k
  define part where "part = {s \<in> set xs. session_of fl p s = Some k}"
  have fin: "finite part" by (simp add: part_def)
  have held: "case m k of None \<Rightarrow> mset_set part = {#} | Some c \<Rightarrow> mset_set part \<noteq> {#} \<and> session_tallies fl p c (mset_set part)"
    using g unfolding gathers_def Let_def filter_distinct [OF d] part_def by (rule spec)
  have ne: "part \<noteq> {}" "session_tallies fl p e (mset_set part)" if "m k = Some e" for e
    using held that fin by (simp_all only: option.case mset_set_empty_iff simp_thms)
  have none: "part = {}" if "m k = None"
    using held that fin by (simp only: option.case mset_set_empty_iff simp_thms)
  show "case m k of None \<Rightarrow> {s \<in> set xs. session_of fl p s = Some k} = {} | Some e \<Rightarrow> {s \<in> set xs. session_of fl p s = Some k} \<noteq> {}
      \<and> list_all (\<lambda>(field, weight). field (sc_counters e) = saturated (\<Sum>s | s \<in> set xs \<and> session_of fl p s = Some k. weight s)) (span_measures fl p)
      \<and> sc_first_start_ns e = Min (start_time_ns ` {s \<in> set xs. session_of fl p s = Some k})
      \<and> sc_last_end_ns e = Max (end_time_ns ` {s \<in> set xs. session_of fl p s = Some k})
      \<and> sc_traces e = trace_id ` {s \<in> set xs. session_of fl p s = Some k}
      \<and> preferred (sc_session_key e) (session_key_of fl p ` {s \<in> set xs. session_of fl p s = Some k})"
    unfolding part_def [symmetric]
  proof (split option.split, intro conjI allI impI)
    show "part = {}" if "m k = None" using none [OF that] .
  qed (use ne session_tallies_set [OF fin] in blast)+
qed

text \<open>A rollup's groups, and the merge of the rollups of several lists of spans.\<close>

lemma gathers_at:
  assumes "gathers counts key ss m"
  shows "case m k of None \<Rightarrow> filter_mset (\<lambda>s. key s = Some k) ss = {#}
    | Some c \<Rightarrow> filter_mset (\<lambda>s. key s = Some k) ss \<noteq> {#} \<and> counts c (filter_mset (\<lambda>s. key s = Some k) ss)"
  using assms unfolding gathers_def Let_def by (rule spec)

lemma gathers_unscoped:
  assumes "gathers (tallies fl p) key ss m"
  shows "gathers (tallies fl p) (\<lambda>s. map_option (Pair []) (key s)) ss (unscoped m)"
  unfolding gathers_def Let_def
proof
  fix k :: "bytes \<times> bytes"
  have part: "filter_mset (\<lambda>s. map_option (Pair []) (key s) = Some k) ss
      = (if fst k = [] then filter_mset (\<lambda>s. key s = Some (snd k)) ss else {#})"
    by (cases k) (auto intro: filter_mset_cong)
  have m: "unscoped m k = (if fst k = [] then m (snd k) else None)"
    by (cases k) (simp add: unscoped_def)
  show "case unscoped m k of None \<Rightarrow> filter_mset (\<lambda>s. map_option (Pair []) (key s) = Some k) ss = {#}
      | Some c \<Rightarrow> filter_mset (\<lambda>s. map_option (Pair []) (key s) = Some k) ss \<noteq> {#}
          \<and> tallies fl p c (filter_mset (\<lambda>s. map_option (Pair []) (key s) = Some k) ss)"
    using gathers_at [OF assms, of "snd k"] unfolding part m by (cases "fst k = []") (simp_all only: if_True if_False option.case simp_thms)
qed

lemma gathers_scoped:
  assumes "gathers counts (session_of fl p) ss m"
  shows "gathers counts (\<lambda>s. if in_scope scope s then session_of fl p s else None) ss (scoped scope m)"
  unfolding gathers_def Let_def
proof
  fix k
  have own: "tenant s = fst k" if "session_of fl p s = Some k" for s using that by (auto simp: session_of_def)
  have "(if in_scope scope s then session_of fl p s else None) = Some k \<longleftrightarrow> session_of fl p s = Some k \<and> (scope = None \<or> scope = Some (fst k))" for s
    using own [of s] by (auto simp: in_scope_def split: option.splits if_splits)
  then have part: "filter_mset (\<lambda>s. (if in_scope scope s then session_of fl p s else None) = Some k) ss
      = (if scope = None \<or> scope = Some (fst k) then filter_mset (\<lambda>s. session_of fl p s = Some k) ss else {#})"
    by (auto intro: filter_mset_cong)
  have m: "scoped scope m k = (if scope = None \<or> scope = Some (fst k) then m k else None)"
    by (auto simp: scoped_def split: option.splits)
  from gathers_at [OF assms, of k] show "case scoped scope m k of None \<Rightarrow> filter_mset (\<lambda>s. (if in_scope scope s then session_of fl p s else None) = Some k) ss = {#}
      | Some c \<Rightarrow> filter_mset (\<lambda>s. (if in_scope scope s then session_of fl p s else None) = Some k) ss \<noteq> {#}
          \<and> counts c (filter_mset (\<lambda>s. (if in_scope scope s then session_of fl p s else None) = Some k) ss)"
    unfolding part m by (cases "scope = None \<or> scope = Some (fst k)") (simp_all only: if_True if_False option.case)
qed

definition scoped_key :: "f64_lib \<Rightarrow> pricing \<Rightarrow> llm_group_by \<Rightarrow> bytes option \<Rightarrow> span \<Rightarrow> (bytes \<times> bytes) option" where
  "scoped_key fl p by scope s =
     (if by = Session then (if in_scope scope s then session_of fl p s else None) else group_key fl p by s)"

lemma groups_gather: "gathers (tallies fl p) (scoped_key fl p by scope) (mset g) (rollup_groups by scope (rollup_build fl p g))"
proof -
  have c: "rollup_counts fl p (rollup_build fl p g) (mset g)" by (rule rollup_counts_build)
  show ?thesis
  proof (cases "by")
    case Session
    then have "scoped_key fl p by scope = (\<lambda>s. if in_scope scope s then session_of fl p s else None)"
      by (simp add: scoped_key_def fun_eq_iff)
    then show ?thesis using c gathers_scoped [of "tallies fl p" fl p] Session by (simp add: rollup_counts_def rollup_groups_def)
  next
    case Model
    then have "scoped_key fl p by scope = (\<lambda>s. map_option (Pair []) (lf_model (span_facts fl p s)))"
      by (simp add: scoped_key_def group_key_def fun_eq_iff)
    then show ?thesis using c gathers_unscoped Model by (simp add: rollup_counts_def rollup_groups_def)
  next
    case Provider
    then have "scoped_key fl p by scope = (\<lambda>s. map_option (Pair []) (lf_provider (span_facts fl p s)))"
      by (simp add: scoped_key_def group_key_def fun_eq_iff)
    then show ?thesis using c gathers_unscoped Provider by (simp add: rollup_counts_def rollup_groups_def)
  next
    case Service
    then have "scoped_key fl p by scope = (\<lambda>s. map_option (Pair []) (Some (service s)))"
      by (simp add: scoped_key_def group_key_def fun_eq_iff)
    then show ?thesis using c gathers_unscoped [of fl p "\<lambda>s. Some (service s)"] Service by (simp add: rollup_counts_def rollup_groups_def)
  next
    case Day
    then have "scoped_key fl p by scope = (\<lambda>s. map_option (Pair []) (Some (day_bucket (start_time_ns s))))"
      by (simp add: scoped_key_def group_key_def fun_eq_iff)
    then show ?thesis using c gathers_unscoped [of fl p "\<lambda>s. Some (day_bucket (start_time_ns s))"] Day by (simp add: rollup_counts_def rollup_groups_def)
  qed
qed

lemma foldl_gathers:
  assumes "counts dflt {#}" and "\<And>c d xs ys. counts c xs \<Longrightarrow> counts d ys \<Longrightarrow> ys \<noteq> {#} \<Longrightarrow> counts (merge c d) (xs + ys)"
    and "\<And>g. gathers counts key (mset g) (parts_of (rollup_build fl p g))"
  shows "gathers counts key ss m \<Longrightarrow>
    gathers counts key (ss + mset (concat gs)) (foldl (\<lambda>m r. merge_entries merge dflt m (parts_of r)) m (map (rollup_build fl p) gs))"
proof (induction gs arbitrary: ss m)
  case (Cons g gs)
  have "gathers counts key (ss + mset g) (merge_entries merge dflt m (parts_of (rollup_build fl p g)))"
    by (rule gathers_merge [OF Cons.prems assms(3) assms(1)]) (rule assms(2))
  from Cons.IH [OF this] show ?case by (simp add: add.assoc)
qed simp

lemma merged_groups_gather:
  "gathers (tallies fl p) (scoped_key fl p by scope) (mset (concat gs)) (merged_groups fl by scope (map (rollup_build fl p) gs))"
proof -
  have "gathers (tallies fl p) (scoped_key fl p by scope) ({#} + mset (concat gs)) (merged_groups fl by scope (map (rollup_build fl p) gs))"
    unfolding merged_groups_def
    by (rule foldl_gathers [where counts = "tallies fl p", OF tallies_default _ groups_gather gathers_empty]) (rule tallies_merge)
  then show ?thesis by simp
qed

lemma merged_sessions_gather:
  "gathers (session_tallies fl p) (\<lambda>s. if in_scope scope s then session_of fl p s else None) (mset (concat gs))
    (merged_sessions fl scope (map (rollup_build fl p) gs))"
proof -
  have part: "gathers (session_tallies fl p) (\<lambda>s. if in_scope scope s then session_of fl p s else None) (mset g)
      (scoped scope (ro_sessions (rollup_build fl p g)))" for g
    using rollup_counts_build [of fl p g] by (intro gathers_scoped) (simp add: rollup_counts_def)
  have "gathers (session_tallies fl p) (\<lambda>s. if in_scope scope s then session_of fl p s else None) ({#} + mset (concat gs))
      (merged_sessions fl scope (map (rollup_build fl p) gs))"
    unfolding merged_sessions_def
    by (rule foldl_gathers [where counts = "session_tallies fl p", OF session_tallies_default _ part gathers_empty]) (rule session_tallies_merge)
  then show ?thesis by simp
qed

lemma gathers_filtered:
  assumes "gathers counts (\<lambda>s. if P s then key s else None) (mset xs) m"
  shows "gathers counts key (mset (filter P xs)) m"
proof -
  have "filter_mset (\<lambda>s. key s = Some k) (mset (filter P xs)) = filter_mset (\<lambda>s. (if P s then key s else None) = Some k) (mset xs)" for k
    by (induction xs) auto
  then show ?thesis using assms unfolding gathers_def by simp
qed

lemma gathers_finite:
  assumes "gathers counts key ss m"
  shows "finite (dom m)"
proof (rule finite_subset)
  show "dom m \<subseteq> (\<lambda>s. the (key s)) ` set_mset ss"
  proof
    fix k assume "k \<in> dom m"
    then obtain c where c: "m k = Some c" by blast
    from gathers_at [OF assms, of k] have "filter_mset (\<lambda>s. key s = Some k) ss \<noteq> {#}" unfolding c option.case by blast
    then obtain s where "s \<in># filter_mset (\<lambda>s. key s = Some k) ss" by blast
    then show "k \<in> (\<lambda>s. the (key s)) ` set_mset ss" by (force intro: rev_image_eqI)
  qed
qed simp

section \<open>Aggregates are exact\<close>

text \<open>The stored rollups of the open segments were built from the spans of the segments.\<close>

definition rollups_ok :: "f64_lib \<Rightarrow> pricing \<Rightarrow> (segment store_segment \<times> segment_rollup option) list \<Rightarrow> store \<Rightarrow> bool" where
  "rollups_ok fl p segs st \<longleftrightarrow> list_all2 (\<lambda>(seg, found) s. rollup_ok fl p found (sg_spans s)) segs (segments st)"

lemma fold_of_store:
  assumes "reaches admitted st" and "serves_store lib compress decompress (map fst segs) st" and "all_searchable lib admitted"
    and "rollups_ok fl p segs st"
  obtains gs noted where
    "answers (fold_analytics (local_reader decompress) lib (local_ordinals decompress) fl p (writer st) segs since until' erased scope)
      (map (rollup_build fl p) gs, noted)"
    "distinct (concat gs)" "set (concat gs) = {s \<in> ran (latest_by key_of admitted). folds_span since until' erased scope s}"
proof -
  note view = reachable_view [OF assms(1-3)]
  let ?P = "folds_span since until' erased scope"
  let ?xs = "live_spans ?P (dom (wb_map (writer st))) (map sg_spans (segments st)) @ filter ?P (map snd (wb_spans (writer st)))"
  have "list_all2 (\<lambda>(seg, found) ss. segment_ok (stores_spans lib compress decompress) seg ss \<and> rollup_ok fl p found ss) segs
      (map sg_spans (segments st))"
    using assms(2,4) unfolding serves_store_def rollups_ok_def by (auto simp: list_all2_conv_all_nth split: prod.splits)
  from local_windows.fold_analytics_answers [OF view_okD(1) [OF view(1)] this, of since until' erased scope] obtain gs noted where
    f: "answers (fold_analytics (local_reader decompress) lib (local_ordinals decompress) fl p (writer st) segs since until' erased scope)
      (map (rollup_build fl p) gs, noted)" "mset (concat gs) = mset ?xs" by blast
  have "distinct (map key_of ?xs)" by (rule answer_keys [OF view_okD(1,3) [OF view(1)]])
  then have "distinct (concat gs)" using mset_eq_imp_distinct_iff [OF f(2)] by (auto simp: distinct_map)
  moreover have "lists_exactly (latest_by key_of admitted) ?P (sort_spans ?xs)"
    using answer_lists [OF view_okD(1,3) [OF view(1)], of ?P] unfolding view(2) .
  then have "set (concat gs) = {s \<in> ran (latest_by key_of admitted). ?P s}"
    using mset_eq_setD [OF f(2)] by (simp add: lists_exactly_def sort_spans_def)
  ultimately show thesis using that f(1) by blast
qed

lemma settled_runs:
  assumes "answers m x"
  shows "map_sum id fst (m (fresh_run None)) = Inr x" and "map_sum id fst (m (fresh_run (Some n))) \<in> {Inr x, Inl DeadlineExceeded}"
  using assms [unfolded settles_def, rule_format, of "fresh_run None"] assms [unfolded settles_def, rule_format, of "fresh_run (Some n)"]
  by (auto simp: fresh_run_def)

text \<open>A span sealed, and then admitted again with a session: the newer version is the one counted.\<close>

definition w_called :: span where
  "w_called = (w_span 7 2)\<lparr>attributes := [(ascii ''session.id'', JString [115])]\<rparr>"

definition w_session :: store where
  "w_session = admit 1 [101] [w_called] w_sealed"

definition w_floats :: f64_lib where
  "w_floats = \<lparr>number_text = (\<lambda>n. []), number_f64 = (\<lambda>n. None), parse_f64 = (\<lambda>t. None), f64_ge = (\<lambda>a b. False),
     f64_of_u64 = (\<lambda>w. w), f64_add = (\<lambda>a b. a), f64_mul = (\<lambda>a b. a), f64_div = (\<lambda>a b. a)\<rparr>"

definition w_unpriced :: pricing where
  "w_unpriced = \<lparr>exact = [], prefix_rates = []\<rparr>"

lemma w_session_reached: "reaches [w_span 7 1, w_called] w_session"
proof -
  have "store_step w_sealed [w_called] w_session"
    unfolding w_session_def by (rule admit_step) (simp_all add: held_addresses_def free_address_def w_called_def w_eval)
  from more [OF w_sealed_reached this] show ?thesis by simp
qed

lemma w_session_served:
  "stores_spans w_lib rle_compress rle_decompress g [w_stored_span] \<Longrightarrow>
    serves_store w_lib rle_compress rle_decompress (w_open g) w_session"
  by (simp add: serves_store_def w_open_def segment_ok_def) (simp add: w_session_def w_stored_span_def w_called_def w_eval)

lemma w_session_searchable: "all_searchable w_lib [w_span 7 1, w_called]"
  using w_numbers_searchable by (simp add: all_searchable_def searchable_def w_called_def)

lemma w_session_rollups: "rollups_ok w_floats w_unpriced (map (\<lambda>seg. (seg, None)) (w_open g)) w_session"
  by (simp add: rollups_ok_def w_open_def rollup_ok_def) (simp add: w_session_def w_called_def w_eval)

lemma w_called_latest: "{s \<in> ran (latest_by key_of [w_span 7 1, w_called]). folds_span None None None None s} = {w_called}"
proof -
  have "key_of (w_span 7 1) = ([], [1], [7])" "key_of w_called = ([], [1], [7])"
    by (simp_all add: key_of_def w_span_def w_called_def)
  then show ?thesis by (auto simp: latest_by_def ran_def folds_span_def in_window_def visible_to_def in_scope_def split: if_splits)
qed

lemma w_called_session: "session_of w_floats w_unpriced w_called = Some ([], [115])"
  by (simp add: session_of_def span_facts_def priced_def w_unpriced_def pricing_is_empty_def w_called_def w_span_def facts_def Let_def
      find_map.simps SESSION_KEYS_def attr_str_def ascii_def)

text \<open>C12: an aggregate counts every span once, in its last version. Over any store the engine can reach, and
  whatever the window, the tenant, the erasure mask and the stored rollups at hand, the rows of an aggregation are
  those of one map from groups to counters: a group is in it exactly when a last version admitted, of the window, the
  tenant and not erased, falls in it, and then each of its ten counters is the saturated sum over these very spans
  (the cost, a floating-point sum, is not one of them). The JSON library is taken to read back what it writes.
  The shortcut through stored rollups changes nothing, and a deadline can only refuse the answer.\<close>

theorem aggregates_count_each_last_version_once:
  assumes "reaches admitted st" and "serves_store lib compress decompress (map fst segs) st" and "all_searchable lib admitted"
    and "rollups_ok fl p segs st"
  shows "\<exists>m. totals fl p (group_key fl p by) {s \<in> ran (latest_by key_of admitted). folds_span since until' erased scope s} m
    \<and> map_sum id fst (llm_aggregate_in (local_reader decompress) lib (local_ordinals decompress) fl p (writer st) segs erased scope by
        since until' (fresh_run None)) = Inr (aggregate_rows m)
    \<and> map_sum id fst (llm_aggregate_in (local_reader decompress) lib (local_ordinals decompress) fl p (writer st) segs erased scope by
        since until' (fresh_run (Some n))) \<in> {Inr (aggregate_rows m), Inl DeadlineExceeded}"
proof -
  let ?fold_scope = "case by of Session \<Rightarrow> None | _ \<Rightarrow> scope"
  obtain gs noted where
    f: "answers (fold_analytics (local_reader decompress) lib (local_ordinals decompress) fl p (writer st) segs since until' erased ?fold_scope)
      (map (rollup_build fl p) gs, noted)"
    and gs: "distinct (concat gs)" "set (concat gs) = {s \<in> ran (latest_by key_of admitted). folds_span since until' erased ?fold_scope s}"
    by (rule fold_of_store [OF assms])
  let ?m = "merged_groups fl by scope (map (rollup_build fl p) gs)"
  let ?A = "{s \<in> ran (latest_by key_of admitted). folds_span since until' erased scope s}"
  have t: "totals fl p (scoped_key fl p by scope) (set (concat gs)) ?m"
    by (rule gathers_totals [OF gs(1) merged_groups_gather])
  have part: "{s \<in> set (concat gs). scoped_key fl p by scope s = Some k} = {s \<in> ?A. group_key fl p by s = Some k}" for k
    unfolding gs(2) by (cases "by") (auto simp: scoped_key_def group_key_def folds_span_def in_scope_def split: if_splits)
  have "totals fl p (group_key fl p by) ?A ?m"
    using t unfolding totals_def part .
  moreover have runs: "answers (llm_aggregate_in (local_reader decompress) lib (local_ordinals decompress) fl p (writer st) segs erased scope by
      since until') (aggregate_rows ?m)"
    unfolding llm_aggregate_in_def Let_def by (rule next_settles [OF f]) (simp add: give_settles)
  ultimately show ?thesis
    by (intro exI [of _ ?m] conjI settled_runs [OF runs])
qed

lemma singleton_map:
  assumes "\<And>k. case m k of None \<Rightarrow> k \<noteq> k0 | Some c \<Rightarrow> k = k0 \<and> P c"
  obtains c where "m = [k0 \<mapsto> c]" "P c"
proof -
  obtain c where c: "m k0 = Some c" "P c" using assms [of k0] by (cases "m k0") auto
  have "m k = None" if "k \<noteq> k0" for k using assms [of k] that by (cases "m k") auto
  then have "m = [k0 \<mapsto> c]" using c(1) by (auto simp: fun_eq_iff)
  then show thesis using c(2) by (rule that)
qed

theorem aggregates_count_each_last_version_once_witness:
  "\<exists>g c. stores_spans w_lib rle_compress rle_decompress g [w_stored_span] \<and> c_spans c = 1
    \<and> map_sum id fst (llm_aggregate_in (local_reader rle_decompress) w_lib (local_ordinals rle_decompress) w_floats w_unpriced
        (writer w_session) (map (\<lambda>seg. (seg, None)) (w_open g)) None None Session None None (fresh_run None))
      = Inr [\<lparr>ar_key = [115], ar_counters = c\<rparr>]"
proof -
  obtain g where g: "stores_spans w_lib rle_compress rle_decompress g [w_stored_span]" using w_span_segment by blast
  have "serves_store w_lib rle_compress rle_decompress (map fst (map (\<lambda>seg. (seg, None)) (w_open g))) w_session"
    using w_session_served [OF g] by (simp add: comp_def)
  from aggregates_count_each_last_version_once [OF w_session_reached this w_session_searchable w_session_rollups,
      of Session None None None None 0] obtain m where
    t: "totals w_floats w_unpriced (group_key w_floats w_unpriced Session) {w_called} m"
    and run: "map_sum id fst (llm_aggregate_in (local_reader rle_decompress) w_lib (local_ordinals rle_decompress) w_floats w_unpriced
        (writer w_session) (map (\<lambda>seg. (seg, None)) (w_open g)) None None Session None None (fresh_run None)) = Inr (aggregate_rows m)"
    unfolding w_called_latest by blast
  have "case m k of None \<Rightarrow> k \<noteq> ([], [115]) | Some c \<Rightarrow> k = ([], [115]) \<and> c_spans c = 1" for k
    using t [unfolded totals_def, rule_format, of k]
    by (auto simp: Let_def group_key_def w_called_session span_measures_def conj_commute cong: conj_cong split: option.splits)
  then obtain c where m: "m = [([], [115]) \<mapsto> c]" "c_spans c = 1" by (rule singleton_map)
  have "aggregate_rows m = [\<lparr>ar_key = [115], ar_counters = c\<rparr>]" by (simp add: aggregate_rows_def m(1))
  then show ?thesis using g m(2) run by auto
qed

text \<open>C13: the list of sessions ranks all of them and counts each of them whole. It is the first \<open>limit\<close> of the
  sessions in the order asked for, ties broken by tenant and id, so no session left out ranks before one listed; and
  the summaries are those of one map: a session is in it exactly when a last version admitted, of the window, the
  tenant and not erased, names it; its counters are the saturated sums over these spans, its times their first start
  and last end, its traces theirs, and the key reported the recognised key of highest precedence among them. The
  cost, a floating-point sum, is not pinned, and the JSON library is taken to read back what it writes.\<close>

theorem the_session_list_is_the_top_of_all_sessions:
  assumes "reaches admitted st" and "serves_store lib compress decompress (map fst segs) st" and "all_searchable lib admitted"
    and "rollups_ok fl p segs st"
  shows "\<exists>m rows. session_totals fl p {s \<in> ran (latest_by key_of admitted). folds_span since until' erased scope s} m
    \<and> set rows = {summary_of t session_id e | t session_id e. m (t, session_id) = Some e}
    \<and> sorted (map (summary_rank order) rows) \<and> distinct rows
    \<and> map_sum id fst (sessions_in (local_reader decompress) lib (local_ordinals decompress) fl p (writer st) segs erased scope
        since until' limit order (fresh_run None)) = Inr (take limit rows)
    \<and> map_sum id fst (sessions_in (local_reader decompress) lib (local_ordinals decompress) fl p (writer st) segs erased scope
        since until' limit order (fresh_run (Some n))) \<in> {Inr (take limit rows), Inl DeadlineExceeded}"
proof -
  obtain gs noted where
    f: "answers (fold_analytics (local_reader decompress) lib (local_ordinals decompress) fl p (writer st) segs since until' erased None)
      (map (rollup_build fl p) gs, noted)"
    and gs: "distinct (concat gs)" "set (concat gs) = {s \<in> ran (latest_by key_of admitted). folds_span since until' erased None s}"
    by (rule fold_of_store [OF assms])
  let ?m = "merged_sessions fl scope (map (rollup_build fl p) gs)"
  let ?A = "{s \<in> ran (latest_by key_of admitted). folds_span since until' erased scope s}"
  let ?xs = "filter (in_scope scope) (concat gs)"
  have scoped_gather: "gathers (session_tallies fl p) (session_of fl p) (mset ?xs) ?m"
    using merged_sessions_gather [of fl p scope gs] by (rule gathers_filtered)
  have "set ?xs = ?A" using gs(2) by (auto simp: folds_span_def in_scope_def)
  then have t: "session_totals fl p ?A ?m"
    using gathers_session_totals [OF distinct_filter [OF gs(1)] scoped_gather] by simp
  have fin: "finite (dom ?m)" by (rule gathers_finite [OF scoped_gather])
  let ?rows = "sort_key (summary_rank order) (map (\<lambda>(t, session_id). summary_of t session_id (the (?m (t, session_id)))) (sorted_list_of_set (dom ?m)))"
  have "set ?rows = {summary_of t session_id e | t session_id e. ?m (t, session_id) = Some e}"
    using fin by (force simp: image_iff)
  moreover have "distinct ?rows"
    using fin by (auto simp: distinct_map inj_on_def summary_of_def)
  moreover have runs: "answers (sessions_in (local_reader decompress) lib (local_ordinals decompress) fl p (writer st) segs erased scope
      since until' limit order) (take limit ?rows)"
    unfolding sessions_in_def by (rule next_settles [OF f]) (simp add: give_settles session_rows_def)
  ultimately show ?thesis using t
    by (intro exI [of _ ?m] exI [of _ ?rows] conjI settled_runs [OF runs] sorted_sort_key)
qed

lemma distinct_singleton:
  assumes "distinct xs" and "set xs = {a}"
  shows "xs = [a]"
proof (cases xs)
  case (Cons x ys)
  then have "x = a" "set ys \<subseteq> {a}" "a \<notin> set ys" using assms by auto
  then show ?thesis using Cons by (cases ys) auto
qed (use assms in simp)

lemma w_called_times: "end_time_ns w_called = 2" "trace_id w_called = [1]"
  by (simp_all add: w_called_def w_span_def)

lemma w_called_part:
  "{s \<in> {w_called}. session_of w_floats w_unpriced s = Some k} = (if k = ([], [115]) then {w_called} else {})"
  by (auto simp: w_called_session)

theorem the_session_list_is_the_top_of_all_sessions_witness:
  "\<exists>g e. stores_spans w_lib rle_compress rle_decompress g [w_stored_span] \<and> sc_last_end_ns e = 2 \<and> sc_traces e = {[1]}
    \<and> map_sum id fst (sessions_in (local_reader rle_decompress) w_lib (local_ordinals rle_decompress) w_floats w_unpriced
        (writer w_session) (map (\<lambda>seg. (seg, None)) (w_open g)) None None None None 5 Recent (fresh_run None))
      = Inr [summary_of [] [115] e]"
proof -
  obtain g where g: "stores_spans w_lib rle_compress rle_decompress g [w_stored_span]" using w_span_segment by blast
  have "serves_store w_lib rle_compress rle_decompress (map fst (map (\<lambda>seg. (seg, None)) (w_open g))) w_session"
    using w_session_served [OF g] by (simp add: comp_def)
  from the_session_list_is_the_top_of_all_sessions [OF w_session_reached this w_session_searchable w_session_rollups,
      of None None None None Recent 5 0] obtain m rows where
    t: "session_totals w_floats w_unpriced {w_called} m"
    and rows: "set rows = {summary_of t session_id e | t session_id e. m (t, session_id) = Some e}" "distinct rows"
    and run: "map_sum id fst (sessions_in (local_reader rle_decompress) w_lib (local_ordinals rle_decompress) w_floats w_unpriced
        (writer w_session) (map (\<lambda>seg. (seg, None)) (w_open g)) None None None None 5 Recent (fresh_run None)) = Inr (take 5 rows)"
    unfolding w_called_latest by blast
  have "case m k of None \<Rightarrow> k \<noteq> ([], [115]) | Some e \<Rightarrow> k = ([], [115]) \<and> sc_last_end_ns e = 2 \<and> sc_traces e = {[1]}" for k
    using t [unfolded session_totals_def Let_def w_called_part, rule_format, of k]
    by (cases "k = ([], [115])"; cases "m k") (simp_all add: w_called_times)
  then obtain e where m: "m = [([], [115]) \<mapsto> e]" "sc_last_end_ns e = 2" "sc_traces e = {[1]}"
    by (rule singleton_map) blast
  have "set rows = set [summary_of [] [115] e]" using rows(1) by (auto simp: m(1) split: if_splits)
  then have "rows = [summary_of [] [115] e]"
    using rows(2) by (intro distinct_singleton) simp_all
  then show ?thesis using g m(2,3) run by auto
qed

end
