(* ===== verification/Erasure.thy ===== *)
theory Erasure
  imports Payload Rollup Semconv Content
begin

text \<open>
  Erasure by subject (\<open>src/src/erasure.rs\<close>): what a subject does to a span, the redaction of a payload, the records of
  the tombstone log with the mask over the pending ones, and the search for bytes an erasure should have removed.
\<close>

section \<open>Subjects\<close>

datatype subject =
    Trace_subject bytes bytes
  | Span_subject bytes bytes bytes
  | Session_subject bytes bytes
  | Payload_subject bytes
  | Tenant_subject bytes

text \<open>The fields of the source in its order: trace and tenant; trace, span and tenant; session and tenant.\<close>

definition subject_tenant :: "subject \<Rightarrow> bytes option" where
  "subject_tenant subject =
     (case subject of
        Trace_subject _ t \<Rightarrow> Some t
      | Span_subject _ _ t \<Rightarrow> Some t
      | Session_subject _ t \<Rightarrow> Some t
      | Tenant_subject t \<Rightarrow> Some t
      | Payload_subject _ \<Rightarrow> None)"

definition canonicalized :: "subject \<Rightarrow> subject" where
  "canonicalized subject =
     (case subject of Payload_subject reference \<Rightarrow> Payload_subject (map to_ascii_lowercase reference) | other \<Rightarrow> other)"

definition payload_form :: "bytes \<Rightarrow> bool" where
  "payload_form reference \<longleftrightarrow>
     take 7 reference = ascii ''sha256/'' \<and> length (drop 7 reference) = 64
     \<and> list_all (\<lambda>b. 48 \<le> b \<and> b \<le> 57 \<or> 97 \<le> b \<and> b \<le> 102) (drop 7 reference)"

definition validate_subject :: "subject \<Rightarrow> store_error + unit" where
  "validate_subject subject =
     (if (case subject_tenant subject of Some t \<Rightarrow> t \<noteq> [] \<and> \<not> valid_tenant t | None \<Rightarrow> False)
      then Inl (InvalidSpan ''tenant must be lowercase [a-z0-9][a-z0-9._-], at most 64 bytes'')
      else
        case subject of
          Trace_subject trace _ \<Rightarrow> if trace = [] then Inl (InvalidSpan ''trace_id is empty'') else Inr ()
        | Span_subject trace span _ \<Rightarrow>
            if trace = [] \<or> span = [] then Inl (InvalidSpan ''trace_id and span_id must both be non-empty'') else Inr ()
        | Session_subject session _ \<Rightarrow> if session = [] then Inl (InvalidSpan ''session_id is empty'') else Inr ()
        | Payload_subject reference \<Rightarrow>
            if \<not> payload_form reference then Inl (InvalidSpan ''a payload reference is sha256/<64 lowercase hex characters>'')
            else Inr ()
        | Tenant_subject t \<Rightarrow> if t = [] then Inl (InvalidSpan ''a tenant subject names a non-empty tenant'') else Inr ())"

datatype action = Keep | Drop | Redact

text \<open>\<open>value.get(key)\<close>.\<close>

definition json_get :: "json \<Rightarrow> bytes \<Rightarrow> json option" where
  "json_get v key = (case v of JObject entries \<Rightarrow> map_of entries key | _ \<Rightarrow> None)"

definition unredacted :: "bytes \<Rightarrow> json \<Rightarrow> bool" where
  "unredacted reference v \<longleftrightarrow>
     json_get v PAYLOAD_KEY = Some (JString reference) \<and> json_get v (ascii ''erased'') \<noteq> Some (JBool True)"

definition payload_unredacted :: "span \<Rightarrow> bytes \<Rightarrow> bool" where
  "payload_unredacted s reference \<longleftrightarrow> list_ex (list_ex (\<lambda>(key, v). unredacted reference v)) (payload_maps s)"

definition session_id_of :: "number_lib \<Rightarrow> span \<Rightarrow> bytes option" where
  "session_id_of lib s = lf_session (facts lib (attributes s))"

definition subject_action :: "number_lib \<Rightarrow> subject \<Rightarrow> span \<Rightarrow> action" where
  "subject_action lib subject s =
     (case subject of
        Trace_subject trace t \<Rightarrow> if trace_id s = trace \<and> tenant s = t then Drop else Keep
      | Span_subject trace span t \<Rightarrow> if trace_id s = trace \<and> span_id s = span \<and> tenant s = t then Drop else Keep
      | Session_subject session t \<Rightarrow> if tenant s = t \<and> session_id_of lib s = Some session then Drop else Keep
      | Tenant_subject t \<Rightarrow> if tenant s = t then Drop else Keep
      | Payload_subject reference \<Rightarrow> if payload_unredacted s reference then Redact else Keep)"

definition payload_reference :: "subject \<Rightarrow> bytes option" where
  "payload_reference subject = (case subject of Payload_subject reference \<Rightarrow> Some reference | _ \<Rightarrow> None)"

definition needles :: "subject \<Rightarrow> bytes list" where
  "needles subject =
     (case subject of
        Trace_subject trace _ \<Rightarrow> [trace]
      | Span_subject trace span _ \<Rightarrow> if length span \<ge> 8 then [trace, span] else [trace]
      | Session_subject session _ \<Rightarrow> [session]
      | Payload_subject reference \<Rightarrow> [reference]
      | Tenant_subject t \<Rightarrow> [t])"

section \<open>Redaction\<close>

definition redact_value :: "bytes \<Rightarrow> json \<Rightarrow> json" where
  "redact_value reference v =
     (if unredacted reference v
      then JObject [(PAYLOAD_KEY, JString reference),
                    (ascii ''bytes'', case json_get v (ascii ''bytes'') of Some n \<Rightarrow> n | None \<Rightarrow> JNull),
                    (ascii ''erased'', JBool True)]
      else v)"

definition redact_payload :: "bytes \<Rightarrow> span \<Rightarrow> span \<times> bool" where
  "redact_payload reference s =
     (with_payload_maps (map (map (\<lambda>(key, v). (key, redact_value reference v))) (payload_maps s)) s,
      payload_unredacted s reference)"

text \<open>What an erasure leaves of a span.\<close>

definition after_erasure :: "number_lib \<Rightarrow> subject \<Rightarrow> span \<Rightarrow> span option" where
  "after_erasure lib subject s =
     (case subject_action lib subject s of
        Keep \<Rightarrow> Some s
      | Drop \<Rightarrow> None
      | Redact \<Rightarrow> Some (case payload_reference subject of Some reference \<Rightarrow> fst (redact_payload reference s) | None \<Rightarrow> s))"

lemma redact_value_redacted [simp]: "\<not> unredacted reference (redact_value reference v)"
  by (simp add: redact_value_def unredacted_def json_get_def PAYLOAD_KEY_def ascii_def)

lemma redact_value_other: "reference \<noteq> reference' \<Longrightarrow> unredacted reference' (redact_value reference v) = unredacted reference' v"
  by (auto simp: redact_value_def unredacted_def json_get_def PAYLOAD_KEY_def ascii_def)

text \<open>A value carries a reference exactly when it is an unredacted reference to it.\<close>

lemma carried_ref_iff: "carried_ref v = Some reference \<longleftrightarrow> unredacted reference v"
  by (auto simp: carried_ref_def unredacted_def json_get_def split: json.splits option.splits)

lemma payload_refs_of_iff: "reference \<in> payload_refs_of s \<longleftrightarrow> payload_unredacted s reference"
  unfolding payload_refs_of_def payload_unredacted_def
  by (force simp: map_filter_def list_ex_iff carried_ref_iff [symmetric])

lemma with_payload_maps_fields:
  "key_of (with_payload_maps maps s) = key_of s" "tenant (with_payload_maps maps s) = tenant s"
  "trace_id (with_payload_maps maps s) = trace_id s" "span_id (with_payload_maps maps s) = span_id s"
  "order_key (with_payload_maps maps s) = order_key s"
  by (simp_all add: with_payload_maps_def key_of_def order_key_def)

lemma payload_maps_with:
  assumes "length maps = length (payload_maps s)"
  shows "payload_maps (with_payload_maps maps s) = maps"
proof -
  obtain m ms where maps: "maps = m # ms" using assms by (cases maps) (simp_all add: payload_maps_def)
  have len: "length ms = length (events s) + length (links s)" using assms by (simp add: maps payload_maps_def)
  have zip_events: "map event_attributes (map (\<lambda>(e, attrs). e\<lparr>event_attributes := attrs\<rparr>) (zip es xs)) = xs" if "length es = length xs" for es xs
    using that by (induction es xs rule: list_induct2) simp_all
  have zip_links: "map link_attributes (map (\<lambda>(l, attrs). l\<lparr>link_attributes := attrs\<rparr>) (zip ls xs)) = xs" if "length ls = length xs" for ls xs
    using that by (induction ls xs rule: list_induct2) simp_all
  show ?thesis
    using zip_events [of "events s" "take (length (events s)) ms"] zip_links [of "links s" "drop (length (events s)) ms"] len
    by (simp add: payload_maps_def with_payload_maps_def maps)
qed

lemma redacted_maps:
  "payload_maps (fst (redact_payload reference s)) = map (map (\<lambda>(key, v). (key, redact_value reference v))) (payload_maps s)"
  by (simp add: redact_payload_def payload_maps_with)

lemma redact_removes: "\<not> payload_unredacted (fst (redact_payload reference s)) reference"
  unfolding payload_unredacted_def redacted_maps by (auto simp: list_ex_iff)

lemma redact_keeps_others: "reference \<noteq> reference' \<Longrightarrow> payload_unredacted (fst (redact_payload reference s)) reference' = payload_unredacted s reference'"
  unfolding payload_unredacted_def redacted_maps by (auto simp: list_ex_iff redact_value_other) (force simp: redact_value_other)+

lemma redact_key: "key_of (fst (redact_payload reference s)) = key_of s" "order_key (fst (redact_payload reference s)) = order_key s"
  by (simp_all add: redact_payload_def with_payload_maps_fields)

text \<open>An erasure leaves nothing it would act on again.\<close>

lemma erasure_settles_span: "after_erasure lib subject s = Some s' \<Longrightarrow> subject_action lib subject s' = Keep"
  by (cases subject) (auto simp: after_erasure_def subject_action_def payload_reference_def redact_removes split: if_splits)

lemma erasure_keeps_key: "after_erasure lib subject s = Some s' \<Longrightarrow> key_of s' = key_of s \<and> order_key s' = order_key s"
  by (cases subject) (auto simp: after_erasure_def subject_action_def payload_reference_def redact_key split: if_splits)

lemma erasure_keeps: "subject_action lib subject s = Keep \<Longrightarrow> after_erasure lib subject s = Some s"
  by (simp add: after_erasure_def)

section \<open>Records\<close>

record erase_record =
  er_schema :: u32
  er_id :: u64
  er_requested_unix_ns :: u64
  er_subject :: subject
  er_span_keys :: "span_key list"
  er_payload_refs :: "bytes list"
  er_eval_datasets :: "u64 list"
  er_eval_experiments :: "u64 list"

record settle_record =
  se_schema :: u32
  se_id :: u64
  se_settled_unix_ns :: u64
  se_generation :: u64
  se_spans_removed :: nat
  se_spans_redacted :: nat
  se_annotations_removed :: nat
  se_payloads_removed :: "bytes list"
  se_payloads_retained :: "(bytes \<times> bytes) list"
  se_eval_records_removed :: nat

record note_record =
  no_schema :: u32
  no_id :: u64
  no_payload_refs :: "bytes list"

datatype log_record = Erase erase_record | Settle settle_record | Note note_record

definition ERASURE_SCHEMA :: u32 where
  "ERASURE_SCHEMA = 2"

text \<open>A recorded key of schema 1 has no tenant: it is of the default one.\<close>

datatype recorded_key = Triple bytes bytes bytes | Pair_key bytes bytes

fun into_triple :: "recorded_key \<Rightarrow> span_key" where
  "into_triple (Triple t trace span) = (t, trace, span)"
| "into_triple (Pair_key trace span) = ([], trace, span)"

definition new_erase_record ::
  "u64 \<Rightarrow> u64 \<Rightarrow> subject \<Rightarrow> span_key list \<Rightarrow> bytes list \<Rightarrow> u64 list \<Rightarrow> u64 list \<Rightarrow> erase_record" where
  "new_erase_record n requested subject keys refs datasets experiments =
     \<lparr>er_schema = ERASURE_SCHEMA, er_id = n, er_requested_unix_ns = requested, er_subject = subject, er_span_keys = keys,
      er_payload_refs = refs, er_eval_datasets = datasets, er_eval_experiments = experiments\<rparr>"

section \<open>The mask\<close>

record mask =
  mk_keys :: "span_key set"
  mk_traces :: "(bytes \<times> bytes) set"
  mk_sessions :: "(bytes \<times> bytes) set"
  mk_tenants :: "bytes set"
  mk_payloads :: "bytes set"
  mk_payload_files :: "bytes set"

definition mask_empty :: mask where
  "mask_empty = \<lparr>mk_keys = {}, mk_traces = {}, mk_sessions = {}, mk_tenants = {}, mk_payloads = {}, mk_payload_files = {}\<rparr>"

definition mask_add :: "erase_record \<Rightarrow> mask \<Rightarrow> mask" where
  "mask_add r m =
     (let m = m\<lparr>mk_keys := mk_keys m \<union> set (er_span_keys r), mk_payload_files := mk_payload_files m \<union> set (er_payload_refs r)\<rparr>
      in case er_subject r of
           Trace_subject trace t \<Rightarrow> m\<lparr>mk_traces := insert (t, trace) (mk_traces m)\<rparr>
         | Session_subject session t \<Rightarrow> m\<lparr>mk_sessions := insert (t, session) (mk_sessions m)\<rparr>
         | Payload_subject reference \<Rightarrow>
             m\<lparr>mk_payloads := insert reference (mk_payloads m), mk_payload_files := insert reference (mk_payload_files m)\<rparr>
         | Span_subject trace span t \<Rightarrow> m\<lparr>mk_keys := insert (t, trace, span) (mk_keys m)\<rparr>
         | Tenant_subject t \<Rightarrow> m\<lparr>mk_tenants := insert t (mk_tenants m)\<rparr>)"

definition mask_for_pending :: "erase_record list \<Rightarrow> mask" where
  "mask_for_pending pending = fold mask_add pending mask_empty"

definition covers_for_drop :: "number_lib \<Rightarrow> mask \<Rightarrow> span \<Rightarrow> bool" where
  "covers_for_drop lib m s \<longleftrightarrow>
     (if tenant s \<in> mk_tenants m then True
      else if (tenant s, trace_id s) \<in> mk_traces m then True
      else if key_of s \<in> mk_keys m then True
      else if mk_sessions m \<noteq> {}
      then case session_id_of lib s of Some session \<Rightarrow> (tenant s, session) \<in> mk_sessions m | None \<Rightarrow> False
      else False)"

definition covers :: "number_lib \<Rightarrow> mask \<Rightarrow> span \<Rightarrow> bool" where
  "covers lib m s \<longleftrightarrow>
     (if covers_for_drop lib m s then True else \<exists>reference \<in> mk_payloads m. payload_unredacted s reference)"

definition covers_tenant :: "mask \<Rightarrow> bytes \<Rightarrow> bool" where
  "covers_tenant m t \<longleftrightarrow> t \<in> mk_tenants m"

definition covers_payload_file :: "mask \<Rightarrow> bytes \<Rightarrow> bool" where
  "covers_payload_file m reference \<longleftrightarrow> reference \<in> mk_payload_files m"

text \<open>The address of an annotation.\<close>

record annotation_subject =
  an_trace_id :: bytes
  an_span_id :: bytes
  an_tenant :: bytes
  an_session_id :: bytes

definition covers_annotation :: "mask \<Rightarrow> annotation_subject \<Rightarrow> bool" where
  "covers_annotation m a \<longleftrightarrow>
     (if an_tenant a \<in> mk_tenants m then True
      else if an_trace_id a \<noteq> []
              \<and> ((an_tenant a, an_trace_id a) \<in> mk_traces m \<or> (an_tenant a, an_trace_id a, an_span_id a) \<in> mk_keys m)
      then True
      else an_session_id a \<noteq> [] \<and> (an_tenant a, an_session_id a) \<in> mk_sessions m)"

text \<open>What the barrier of \<open>ingest_batch\<close> lets through, before and after offloading.\<close>

definition barrier_drop :: "number_lib \<Rightarrow> mask option \<Rightarrow> span list \<Rightarrow> span list" where
  "barrier_drop lib m batch = (case m of None \<Rightarrow> batch | Some m \<Rightarrow> filter (\<lambda>s. \<not> covers_for_drop lib m s) batch)"

text \<open>The references of the mask, in whatever order its set is walked.\<close>

definition barrier_redact :: "bytes list \<Rightarrow> span list \<Rightarrow> span list" where
  "barrier_redact references batch = fold (\<lambda>reference. map (\<lambda>s. fst (redact_payload reference s))) references batch"

lemma mask_add_fields:
  "mk_keys (mask_add r m) = mk_keys m \<union> set (er_span_keys r)
     \<union> (case er_subject r of Span_subject trace span t \<Rightarrow> {(t, trace, span)} | _ \<Rightarrow> {})"
  "mk_traces (mask_add r m) = mk_traces m \<union> (case er_subject r of Trace_subject trace t \<Rightarrow> {(t, trace)} | _ \<Rightarrow> {})"
  "mk_sessions (mask_add r m) = mk_sessions m \<union> (case er_subject r of Session_subject session t \<Rightarrow> {(t, session)} | _ \<Rightarrow> {})"
  "mk_tenants (mask_add r m) = mk_tenants m \<union> (case er_subject r of Tenant_subject t \<Rightarrow> {t} | _ \<Rightarrow> {})"
  "mk_payloads (mask_add r m) = mk_payloads m \<union> (case er_subject r of Payload_subject reference \<Rightarrow> {reference} | _ \<Rightarrow> {})"
  "mk_payload_files (mask_add r m) = mk_payload_files m \<union> set (er_payload_refs r)
     \<union> (case er_subject r of Payload_subject reference \<Rightarrow> {reference} | _ \<Rightarrow> {})"
  by (auto simp: mask_add_def Let_def split: subject.splits)

definition mask_le :: "mask \<Rightarrow> mask \<Rightarrow> bool" where
  "mask_le m m' \<longleftrightarrow>
     mk_keys m \<subseteq> mk_keys m' \<and> mk_traces m \<subseteq> mk_traces m' \<and> mk_sessions m \<subseteq> mk_sessions m' \<and> mk_tenants m \<subseteq> mk_tenants m'
     \<and> mk_payloads m \<subseteq> mk_payloads m' \<and> mk_payload_files m \<subseteq> mk_payload_files m'"

lemma mask_le_refl [simp]: "mask_le m m"
  by (simp add: mask_le_def)

lemma mask_le_trans: "mask_le a b \<Longrightarrow> mask_le b c \<Longrightarrow> mask_le a c"
  unfolding mask_le_def by (meson subset_trans)

lemma mask_le_add: "mask_le m (mask_add r m)"
  unfolding mask_le_def mask_add_fields by blast

lemma mask_le_fold: "mask_le m (fold mask_add rs m)"
proof (induction rs arbitrary: m)
  case (Cons r rs)
  show ?case using mask_le_trans [OF mask_le_add Cons.IH] by simp
qed simp

lemma mask_of_member: "r \<in> set pending \<Longrightarrow> \<exists>m. mask_le (mask_add r m) (mask_for_pending pending)"
  unfolding mask_for_pending_def
proof -
  have "r \<in> set pending \<Longrightarrow> \<exists>m. mask_le (mask_add r m) (fold mask_add pending m0)" for m0
  proof (induction pending arbitrary: m0)
    case (Cons q pending)
    then show ?case by (cases "r = q") (auto intro: mask_le_fold)
  qed simp
  then show "r \<in> set pending \<Longrightarrow> \<exists>m. mask_le (mask_add r m) (fold mask_add pending mask_empty)" .
qed

lemma covers_for_drop_iff:
  "covers_for_drop lib m s \<longleftrightarrow>
     tenant s \<in> mk_tenants m \<or> (tenant s, trace_id s) \<in> mk_traces m \<or> key_of s \<in> mk_keys m
     \<or> (\<exists>session. session_id_of lib s = Some session \<and> (tenant s, session) \<in> mk_sessions m)"
  by (auto simp: covers_for_drop_def split: option.splits)

lemma covers_iff: "covers lib m s \<longleftrightarrow> covers_for_drop lib m s \<or> (\<exists>reference \<in> mk_payloads m. payload_unredacted s reference)"
  by (simp add: covers_def)

text \<open>A pending erasure's mask covers whatever the erasure would act on: reads hide it, and what is not to be redacted
  is not admitted.\<close>

lemma pending_drops:
  assumes "r \<in> set pending" and "subject_action lib (er_subject r) s = Drop"
  shows "covers_for_drop lib (mask_for_pending pending) s"
proof -
  obtain m where "mask_le (mask_add r m) (mask_for_pending pending)" using mask_of_member [OF assms(1)] by blast
  then show ?thesis
    using assms(2) unfolding covers_for_drop_iff mask_le_def mask_add_fields
    by (cases "er_subject r") (auto simp: subject_action_def key_of_def split: if_splits)
qed

lemma pending_redacts:
  assumes "r \<in> set pending" and "subject_action lib (er_subject r) s = Redact"
  shows "\<exists>reference. payload_reference (er_subject r) = Some reference \<and> reference \<in> mk_payloads (mask_for_pending pending)
    \<and> payload_unredacted s reference"
proof -
  obtain m where "mask_le (mask_add r m) (mask_for_pending pending)" using mask_of_member [OF assms(1)] by blast
  then show ?thesis
    using assms(2) unfolding mask_le_def mask_add_fields
    by (cases "er_subject r") (auto simp: subject_action_def payload_reference_def split: if_splits)
qed

lemma pending_covers:
  assumes "r \<in> set pending" and "subject_action lib (er_subject r) s \<noteq> Keep"
  shows "covers lib (mask_for_pending pending) s"
proof (cases "subject_action lib (er_subject r) s")
  case Drop
  then show ?thesis using pending_drops [OF assms(1)] by (simp add: covers_iff)
next
  case Redact
  then show ?thesis using pending_redacts [OF assms(1)] by (auto simp: covers_iff)
qed (use assms(2) in simp)

text \<open>And nothing the barrier admits is acted on by a pending erasure.\<close>

lemma barrier_redacted:
  "s \<in> set (barrier_redact references batch) \<Longrightarrow> reference \<in> set references \<Longrightarrow> \<not> payload_unredacted s reference"
proof (induction references arbitrary: batch)
  case (Cons r references)
  have fold_keeps: "\<not> payload_unredacted s reference"
    if "s \<in> set (barrier_redact rs batch)" "\<And>s. s \<in> set batch \<Longrightarrow> \<not> payload_unredacted s reference" for rs batch
    using that
  proof (induction rs arbitrary: batch)
    case (Cons q rs)
    have "\<not> payload_unredacted t reference" if "t \<in> set (map (\<lambda>s. fst (redact_payload q s)) batch)" for t
      using that Cons.prems(2) redact_removes redact_keeps_others by (cases "q = reference") auto
    then show ?case using Cons.prems(1)
      by (intro Cons.IH [of "map (\<lambda>s. fst (redact_payload q s)) batch"]) (simp_all add: barrier_redact_def)
  qed (simp add: barrier_redact_def)
  have step: "s \<in> set (barrier_redact references (map (\<lambda>s. fst (redact_payload r s)) batch))"
    using Cons.prems(1) by (simp add: barrier_redact_def)
  show ?case
  proof (cases "reference = r")
    case True
    show ?thesis by (rule fold_keeps [OF step]) (auto simp: True redact_removes)
  next
    case False
    then show ?thesis using Cons.IH [OF step] Cons.prems(2) by simp
  qed
qed (simp add: barrier_redact_def)

lemma redacted_attributes:
  "attributes (fst (redact_payload reference s)) = map (\<lambda>(key, v). (key, redact_value reference v)) (attributes s)"
  by (simp add: redact_payload_def with_payload_maps_def payload_maps_def)

text \<open>A redaction replaces an object by an object, which no session key reads.\<close>

lemma attr_str_redacted: "attr_str lib (map (\<lambda>(key, v). (key, redact_value reference v)) attrs) k = attr_str lib attrs k"
proof -
  have "map_of (map (\<lambda>(key, v). (key, redact_value reference v)) attrs) k = map_option (redact_value reference) (map_of attrs k)"
    by (induction attrs) auto
  moreover have "(case redact_value reference v of JString t \<Rightarrow> if t \<noteq> [] then Some t else None | JNumber n \<Rightarrow> Some (number_text lib n) | _ \<Rightarrow> None)
      = (case v of JString t \<Rightarrow> if t \<noteq> [] then Some t else None | JNumber n \<Rightarrow> Some (number_text lib n) | _ \<Rightarrow> None)" for v
    by (cases v) (simp_all add: redact_value_def unredacted_def json_get_def)
  ultimately show ?thesis by (simp add: attr_str_def split: option.split)
qed

lemma session_redacted: "session_id_of lib (fst (redact_payload reference s)) = session_id_of lib s"
  by (simp add: session_id_of_def facts_def Let_def redacted_attributes attr_str_redacted)

lemma drop_redacted: "covers_for_drop lib m (fst (redact_payload reference s)) = covers_for_drop lib m s"
  unfolding covers_for_drop_iff
  by (simp add: session_redacted redact_key) (simp add: redact_payload_def with_payload_maps_fields)

lemma barrier_redact_from:
  "s \<in> set (barrier_redact references batch) \<Longrightarrow> \<exists>s0 \<in> set batch. covers_for_drop lib m s = covers_for_drop lib m s0"
proof (induction references arbitrary: batch)
  case (Cons r references)
  then have "s \<in> set (barrier_redact references (map (\<lambda>s. fst (redact_payload r s)) batch))" by (simp add: barrier_redact_def)
  from Cons.IH [OF this] show ?case by (auto simp: drop_redacted)
qed (auto simp: barrier_redact_def)

text \<open>Offloading may come between, as long as it leaves identities and sessions as they were.\<close>

lemma barrier_admits_nothing_pending:
  assumes "s \<in> set (barrier_redact references (map offload (barrier_drop lib (Some (mask_for_pending pending)) batch)))"
    and "set references = mk_payloads (mask_for_pending pending)"
    and "\<And>s. covers_for_drop lib (mask_for_pending pending) (offload s) = covers_for_drop lib (mask_for_pending pending) s"
    and "r \<in> set pending"
  shows "subject_action lib (er_subject r) s = Keep"
proof (cases "subject_action lib (er_subject r) s")
  case Drop
  then have "covers_for_drop lib (mask_for_pending pending) s" using pending_drops [OF assms(4)] by blast
  moreover obtain s0 where "s0 \<in> set (map offload (barrier_drop lib (Some (mask_for_pending pending)) batch))"
    "covers_for_drop lib (mask_for_pending pending) s = covers_for_drop lib (mask_for_pending pending) s0"
    using barrier_redact_from [OF assms(1)] by blast
  ultimately show ?thesis using assms(3) by (auto simp: barrier_drop_def)
next
  case Redact
  then obtain reference where "reference \<in> mk_payloads (mask_for_pending pending)" "payload_unredacted s reference"
    using pending_redacts [OF assms(4)] by blast
  then show ?thesis using barrier_redacted [OF assms(1), of reference] assms(2) by simp
qed simp

end
