(* ===== verification/Tombstones.thy ===== *)
theory Tombstones
  imports Erasure Span_Record
begin

text \<open>
  The tombstone log (\<open>ErasureLog\<close> of \<open>src/src/erasure.rs\<close>): its replayed records, its file, the operations that
  append to it, and its opening after a crash. Rendering a record as a line of JSON and reading one back are
  arguments of the definitions, the \<open>serde_json\<close> calls of the code; \<open>json_lines\<close> is what the code relies on of them.
\<close>

section \<open>The replayed state\<close>

text \<open>The \<open>BTreeMap\<close> by id, on the list of its entries in key order.\<close>

type_synonym erasures = "(u64 \<times> erase_record \<times> settle_record option) list"

record erasure_inner =
  in_records :: erasures
  in_mask :: "mask option"

definition pending_records :: "erasures \<Rightarrow> erase_record list" where
  "pending_records m = map (\<lambda>(n, erase, settle). erase) (filter (\<lambda>(n, erase, settle). settle = None) m)"

definition rebuild_mask :: "erasures \<Rightarrow> erasure_inner" where
  "rebuild_mask m =
     \<lparr>in_records = m,
      in_mask = (let pending = pending_records m in if pending = [] then None else Some (mask_for_pending pending))\<rparr>"

text \<open>\<open>get_mut\<close>.\<close>

definition alter_entry :: "'k \<Rightarrow> ('v \<Rightarrow> 'v) \<Rightarrow> ('k \<times> 'v) list \<Rightarrow> ('k \<times> 'v) list" where
  "alter_entry k f m = map (\<lambda>(k', v). if k' = k then (k', f v) else (k', v)) m"

definition merge_refs :: "bytes list \<Rightarrow> erase_record \<Rightarrow> erase_record" where
  "merge_refs references r = r\<lparr>er_payload_refs := remdups_adj (sort (er_payload_refs r @ references))\<rparr>"

definition apply_record :: "log_record \<Rightarrow> erasures \<Rightarrow> erasures" where
  "apply_record r m =
     (case r of
        Erase erase \<Rightarrow> bt_insert (er_id erase) (erase, None) m
      | Settle settle \<Rightarrow> alter_entry (se_id settle) (\<lambda>(erase, held). (erase, Some settle)) m
      | Note note \<Rightarrow> alter_entry (no_id note) (\<lambda>(erase, held). (merge_refs (no_payload_refs note) erase, held)) m)"

definition replayed :: "log_record list \<Rightarrow> erasures" where
  "replayed rs = fold apply_record rs []"

section \<open>Opening\<close>

definition is_ascii_whitespace :: "u8 \<Rightarrow> bool" where
  "is_ascii_whitespace b \<longleftrightarrow> b = 9 \<or> b = 10 \<or> b = 12 \<or> b = 13 \<or> b = 32"

text \<open>\<open>split_inclusive\<close> at newlines.\<close>

fun split_lines :: "bytes \<Rightarrow> bytes list" where
  "split_lines [] = []"
| "split_lines (b # bs) =
     (if b = 10 then [b] # split_lines bs
      else case split_lines bs of [] \<Rightarrow> [[b]] | l # ls \<Rightarrow> (b # l) # ls)"

text \<open>The loop of \<open>open\<close>: the records, and the length to heal the file to when its last line is torn. A file's
  length is a \<open>u64\<close>, so the saturating sum of the line lengths is the sum.\<close>

fun replay_lines :: "(bytes \<Rightarrow> log_record option) \<Rightarrow> bool \<Rightarrow> bytes list \<Rightarrow> erasures \<Rightarrow> nat \<Rightarrow> store_error + (erasures \<times> nat option)" where
  "replay_lines parse terminated [] m valid_len = Inr (m, None)"
| "replay_lines parse terminated (line # lines) m valid_len =
     (if list_all is_ascii_whitespace line then replay_lines parse terminated lines m (valid_len + length line)
      else
        case parse line of
          Some r \<Rightarrow> replay_lines parse terminated lines (apply_record r m) (valid_len + length line)
        | None \<Rightarrow> if lines = [] \<and> \<not> terminated then Inr (m, Some valid_len) else Inl Json_error)"

record erasure_log =
  el_file :: bytes
  el_inner :: erasure_inner

text \<open>A file that does not exist reads as an empty one. The writes that heal it succeed.\<close>

definition open_erasures :: "(bytes \<Rightarrow> log_record option) \<Rightarrow> bytes \<Rightarrow> store_error + erasure_log" where
  "open_erasures parse contents =
     (let terminated = contents \<noteq> [] \<and> last contents = 10
      in case replay_lines parse terminated (split_lines contents) [] 0 of
           Inl e \<Rightarrow> Inl e
         | Inr (m, torn) \<Rightarrow>
             Inr \<lparr>el_file = (case torn of
                                Some valid_len \<Rightarrow> take valid_len contents
                              | None \<Rightarrow> if contents \<noteq> [] \<and> \<not> terminated then contents @ [10] else contents),
                  el_inner = rebuild_mask m\<rparr>)"

section \<open>Appending\<close>

text \<open>How an append ends: synced, or failed after some bytes of the line reached the file (all of them when the
  sync is what failed).\<close>

datatype append_end = Appended | Failed_after nat

definition line_of :: "(log_record \<Rightarrow> bytes) \<Rightarrow> log_record \<Rightarrow> bytes" where
  "line_of render r = render r @ [10]"

definition append_line :: "(log_record \<Rightarrow> bytes) \<Rightarrow> append_end \<Rightarrow> log_record \<Rightarrow> bytes \<Rightarrow> bytes \<times> bool" where
  "append_line render how r file =
     (case how of
        Appended \<Rightarrow> (file @ line_of render r, True)
      | Failed_after n \<Rightarrow> (file @ take n (line_of render r), False))"

text \<open>The section every operation shares: append, then the state, only when the append succeeded.\<close>

definition recorded :: "(log_record \<Rightarrow> bytes) \<Rightarrow> append_end \<Rightarrow> log_record \<Rightarrow> erasure_log \<Rightarrow> erasure_log \<times> bool" where
  "recorded render how r log =
     (case append_line render how r (el_file log) of
        (contents, True) \<Rightarrow> (\<lparr>el_file = contents, el_inner = rebuild_mask (apply_record r (in_records (el_inner log)))\<rparr>, True)
      | (contents, False) \<Rightarrow> (log\<lparr>el_file := contents\<rparr>, False))"

definition next_erasure_id :: "erasures \<Rightarrow> u64" where
  "next_erasure_id m = saturating_add (if m = [] then 0 else fst (last m)) 1"

definition begin_erasure ::
  "(log_record \<Rightarrow> bytes) \<Rightarrow> append_end \<Rightarrow> u64 \<Rightarrow> subject \<Rightarrow> span_key list \<Rightarrow> bytes list \<Rightarrow> u64 list \<Rightarrow> u64 list \<Rightarrow> erasure_log
    \<Rightarrow> erasure_log \<times> erase_record option" where
  "begin_erasure render how requested subject keys references datasets experiments log =
     (let erase = new_erase_record (next_erasure_id (in_records (el_inner log))) requested subject keys references datasets experiments
      in case recorded render how (Erase erase) log of
           (log, True) \<Rightarrow> (log, Some erase)
         | (log, False) \<Rightarrow> (log, None))"

definition record_settle :: "(log_record \<Rightarrow> bytes) \<Rightarrow> append_end \<Rightarrow> settle_record \<Rightarrow> erasure_log \<Rightarrow> erasure_log \<times> bool" where
  "record_settle render how settle log = recorded render how (Settle settle) log"

definition note_payload_refs :: "(log_record \<Rightarrow> bytes) \<Rightarrow> append_end \<Rightarrow> u64 \<Rightarrow> bytes list \<Rightarrow> erasure_log \<Rightarrow> erasure_log \<times> bool" where
  "note_payload_refs render how n references log =
     (if references = [] then (log, True)
      else recorded render how (Note \<lparr>no_schema = ERASURE_SCHEMA, no_id = n, no_payload_refs = references\<rparr>) log)"

definition log_mask :: "erasure_log \<Rightarrow> mask option" where
  "log_mask log = in_mask (el_inner log)"

definition pending_erasures :: "erasure_log \<Rightarrow> erase_record list" where
  "pending_erasures log = pending_records (in_records (el_inner log))"

definition list_erasures :: "erasure_log \<Rightarrow> (erase_record \<times> settle_record option) list" where
  "list_erasures log = map snd (in_records (el_inner log))"

definition get_erasure :: "u64 \<Rightarrow> erasure_log \<Rightarrow> (erase_record \<times> settle_record option) option" where
  "get_erasure n log = map_of (in_records (el_inner log)) n"

section \<open>What the log holds\<close>

text \<open>What is relied on of the JSON of the given records: a document is one line, is read back with or without the
  newline behind it, and no proper prefix of it is a document or blank.\<close>

definition json_lines :: "(bytes \<Rightarrow> log_record option) \<Rightarrow> (log_record \<Rightarrow> bytes) \<Rightarrow> log_record set \<Rightarrow> bool" where
  "json_lines parse render rs \<longleftrightarrow>
     (\<forall>r \<in> rs. render r \<noteq> [] \<and> 10 \<notin> set (render r) \<and> \<not> is_ascii_whitespace (hd (render r))
        \<and> parse (render r) = Some r \<and> parse (line_of render r) = Some r
        \<and> (\<forall>n. 0 < n \<longrightarrow> n < length (render r) \<longrightarrow> parse (take n (render r)) = None))"

text \<open>The log after appending these records, in this order, since it was created.\<close>

definition log_of :: "(log_record \<Rightarrow> bytes) \<Rightarrow> log_record list \<Rightarrow> erasure_log" where
  "log_of render rs = \<lparr>el_file = concat (map (line_of render) rs), el_inner = rebuild_mask (replayed rs)\<rparr>"

lemma log_of_Nil [simp]: "log_of render [] = \<lparr>el_file = [], el_inner = \<lparr>in_records = [], in_mask = None\<rparr>\<rparr>"
  by (simp add: log_of_def replayed_def rebuild_mask_def pending_records_def)

lemma recorded_appended: "recorded render Appended r (log_of render rs) = (log_of render (rs @ [r]), True)"
  by (simp add: recorded_def append_line_def log_of_def replayed_def rebuild_mask_def)

lemma split_lines_eq_Nil [simp]: "split_lines bs = [] \<longleftrightarrow> bs = []"
  by (cases bs) (auto split: list.split)

lemma split_lines_plain: "10 \<notin> set bs \<Longrightarrow> bs \<noteq> [] \<Longrightarrow> split_lines bs = [bs]"
proof (induction bs)
  case (Cons b bs)
  then show ?case by (cases "bs = []") auto
qed simp

lemma split_lines_line: "10 \<notin> set bs \<Longrightarrow> split_lines (bs @ 10 # rest) = (bs @ [10]) # split_lines rest"
  by (induction bs) (auto split: list.split)

lemma blank_line: "render r \<noteq> [] \<Longrightarrow> \<not> is_ascii_whitespace (hd (render r)) \<Longrightarrow> 0 < n \<Longrightarrow> \<not> list_all is_ascii_whitespace (take n (line_of render r))"
  by (cases "render r"; cases n) (simp_all add: line_of_def)

lemma json_lines_insert:
  "json_lines parse render (insert r rs) \<longleftrightarrow>
     json_lines parse render {r} \<and> json_lines parse render rs"
  by (auto simp: json_lines_def)

lemma replay_logged:
  assumes "json_lines parse render (set rs)"
  shows "replay_lines parse terminated (split_lines (concat (map (line_of render) rs) @ rest)) m n
    = replay_lines parse terminated (split_lines rest) (fold apply_record rs m) (n + length (concat (map (line_of render) rs)))"
  using assms
proof (induction rs arbitrary: m n)
  case (Cons r rs)
  have r: "render r \<noteq> []" "10 \<notin> set (render r)" "\<not> is_ascii_whitespace (hd (render r))" "parse (line_of render r) = Some r"
    using Cons.prems by (auto simp: json_lines_def)
  have "\<not> list_all is_ascii_whitespace (line_of render r)"
    using blank_line [of render r "length (line_of render r)"] r(1,3) by (simp add: line_of_def)
  moreover have "split_lines (concat (map (line_of render) (r # rs)) @ rest)
      = line_of render r # split_lines (concat (map (line_of render) rs) @ rest)"
    using split_lines_line [OF r(2)] by (simp add: line_of_def)
  moreover have "json_lines parse render (set rs)" using Cons.prems by (simp add: json_lines_def)
  ultimately show ?case using Cons.IH r(4) by (simp add: add.assoc)
qed simp

text \<open>A reopened log is the log, and an append torn by a crash is done or undone.\<close>

lemma terminated_file: "concat (map (line_of render) rs) \<noteq> [] \<Longrightarrow> last (concat (map (line_of render) rs)) = 10"
  by (induction rs rule: rev_induct) (simp_all add: line_of_def)

lemma open_logged:
  assumes "json_lines parse render (set rs)"
  shows "open_erasures parse (el_file (log_of render rs)) = Inr (log_of render rs)"
proof -
  define contents where "contents = concat (map (line_of render) rs)"
  have "contents = [] \<or> last contents = 10" using terminated_file [of render rs] unfolding contents_def by blast
  moreover have "replay_lines parse terminated (split_lines contents) [] 0 = Inr (replayed rs, None)" for terminated
    using replay_logged [OF assms, of terminated "[]" "[]" 0] by (simp add: contents_def replayed_def)
  ultimately show ?thesis by (auto simp: open_erasures_def log_of_def simp flip: contents_def)
qed

lemma open_torn:
  assumes codec: "json_lines parse render (insert r (set rs))" and n: "0 < n" "n \<le> length (render r)"
  shows "open_erasures parse (el_file (log_of render rs) @ take n (line_of render r))
    = Inr (log_of render (if n = length (render r) then rs @ [r] else rs))"
proof -
  let ?old = "concat (map (line_of render) rs)" and ?new = "take n (render r)"
  have rs: "json_lines parse render (set rs)" using codec by (simp add: json_lines_def)
  have r: "render r \<noteq> []" "10 \<notin> set (render r)" "\<not> is_ascii_whitespace (hd (render r))"
    "parse ?new = (if n = length (render r) then Some r else None)"
    using codec n by (auto simp: json_lines_def)
  have new: "take n (line_of render r) = ?new" using n by (simp add: line_of_def)
  have plain: "?new \<noteq> []" "10 \<notin> set ?new" using n r(1,2) by (auto dest: in_set_takeD)
  then have not10: "last ?new \<noteq> 10" using last_in_set by metis
  have blank: "\<not> list_all is_ascii_whitespace ?new" using blank_line [of render, OF r(1,3) n(1)] new by simp
  have last: "\<not> (?old @ ?new \<noteq> [] \<and> last (?old @ ?new) = 10)" using plain not10 by simp
  have "replay_lines parse False (split_lines (?old @ ?new)) [] 0
      = (if n = length (render r) then Inr (replayed (rs @ [r]), None) else Inr (replayed rs, Some (length ?old)))"
    unfolding replay_logged [OF rs] split_lines_plain [OF plain(2,1)] using r(4) blank by (simp add: replayed_def)
  then show ?thesis
    using last plain(1)
    unfolding log_of_def open_erasures_def new erasure_log.select_convs Let_def
    by (cases "n = length (render r)") (simp_all add: line_of_def)
qed

lemma open_failed:
  assumes "json_lines parse render (insert r (set rs))"
  shows "open_erasures parse (el_file (fst (recorded render (Failed_after n) r (log_of render rs))))
    = Inr (log_of render (if n < length (render r) then rs else rs @ [r]))"
proof -
  have rs: "json_lines parse render (set rs)" and r: "json_lines parse render {r}" and both: "json_lines parse render (set (rs @ [r]))"
    using assms by (auto simp: json_lines_def)
  have len: "0 < length (render r)" using r by (simp add: json_lines_def)
  have torn: "el_file (fst (recorded render (Failed_after n) r (log_of render rs))) = el_file (log_of render rs) @ take n (line_of render r)"
    by (simp add: recorded_def append_line_def)
  have "el_file (log_of render rs) @ line_of render r = el_file (log_of render (rs @ [r]))" by (simp add: log_of_def)
  moreover have "take n (line_of render r) = line_of render r" if "n > length (render r)" using that by (simp add: line_of_def)
  ultimately have "open_erasures parse (el_file (log_of render rs) @ take n (line_of render r)) = Inr (log_of render (rs @ [r]))"
    if "n > length (render r)" using that open_logged [OF both] by simp
  then show ?thesis
    unfolding torn using open_logged [OF rs] open_torn [OF assms, of n] len
    by (cases "n = 0"; cases "n > length (render r)") (auto simp: not_less)
qed

text \<open>C20: the tombstone log recovers every erasure it acknowledged. An append that succeeds adds its record to file and
  memory alike; when one is cut short at any byte, by a crash or an error of the write or the sync, the next open restores the log of all earlier
  records, with the new one as well exactly when its whole document had reached the file, and leaves the file such
  that later appends and opens work.\<close>

theorem a_torn_append_is_done_or_undone:
  assumes "json_lines parse render (insert r (set rs))"
  shows "recorded render Appended r (log_of render rs) = (log_of render (rs @ [r]), True)
    \<and> open_erasures parse (el_file (fst (recorded render (Failed_after n) r (log_of render rs))))
      = Inr (log_of render (if n < length (render r) then rs else rs @ [r]))"
  using recorded_appended open_failed [OF assms] by simp

definition w_erase :: erase_record where
  "w_erase = new_erase_record 1 7 (Trace_subject [1] []) [([], [1], [2])] [] [] []"

definition w_settle :: settle_record where
  "w_settle = \<lparr>se_schema = ERASURE_SCHEMA, se_id = 1, se_settled_unix_ns = 9, se_generation = 3, se_spans_removed = 1,
     se_spans_redacted = 0, se_annotations_removed = 0, se_payloads_removed = [], se_payloads_retained = [],
     se_eval_records_removed = 0\<rparr>"

definition w_render :: "log_record \<Rightarrow> bytes" where
  "w_render r = (case r of Erase e \<Rightarrow> ascii ''{e}'' | Settle s \<Rightarrow> ascii ''{s}'' | Note n \<Rightarrow> ascii ''{n}'')"

definition w_parse :: "bytes \<Rightarrow> log_record option" where
  "w_parse line =
     (if take 3 line = ascii ''{e}'' then Some (Erase w_erase) else if take 3 line = ascii ''{s}'' then Some (Settle w_settle) else None)"

lemma w_json_lines: "json_lines w_parse w_render {Settle w_settle, Erase w_erase}"
proof -
  have "w_parse (take n (w_render r)) = None" if "n < 3" for n r
    using that by (auto simp: w_parse_def w_render_def ascii_def split: log_record.splits) (auto simp: less_Suc_eq numeral_eq_Suc)
  moreover have "length (w_render r) = 3" for r by (simp add: w_render_def ascii_def split: log_record.split)
  moreover have "\<forall>r \<in> {Settle w_settle, Erase w_erase}. w_render r \<noteq> [] \<and> 10 \<notin> set (w_render r)
      \<and> \<not> is_ascii_whitespace (hd (w_render r)) \<and> w_parse (w_render r) = Some r \<and> w_parse (line_of w_render r) = Some r"
    by (simp add: w_render_def w_parse_def line_of_def ascii_def is_ascii_whitespace_def)
  ultimately show ?thesis unfolding json_lines_def by metis
qed

theorem a_torn_append_is_done_or_undone_witness:
  "open_erasures w_parse (el_file (fst (recorded w_render (Failed_after 2) (Settle w_settle) (log_of w_render [Erase w_erase]))))
     = Inr (log_of w_render [Erase w_erase])"
  using a_torn_append_is_done_or_undone [of w_parse w_render "Settle w_settle" "[Erase w_erase]" 2] w_json_lines
  by (simp add: w_render_def ascii_def)

text \<open>But a failed append leaves its fragment in the file of the running process, and the next append lands behind
  it: from then on no open succeeds.\<close>

lemma a_failed_append_blocks_every_later_open:
  assumes "json_lines parse render (insert r (set rs))" and "json_lines parse render {r'}"
    and "0 < n" "n < length (render r)" and "parse (take n (render r) @ line_of render r') = None"
  shows "open_erasures parse (el_file (fst (recorded render Appended r' (fst (recorded render (Failed_after n) r (log_of render rs))))))
    = Inl Json_error"
proof -
  let ?old = "concat (map (line_of render) rs)" and ?bad = "take n (render r) @ line_of render r'"
  have rs: "json_lines parse render (set rs)" using assms(1) by (simp add: json_lines_def)
  have r: "render r \<noteq> []" "10 \<notin> set (render r)" "\<not> is_ascii_whitespace (hd (render r))" "10 \<notin> set (render r')"
    using assms(1,2) by (auto simp: json_lines_def)
  have blank: "\<not> list_all is_ascii_whitespace ?bad" using r(1,3) assms(3) by (cases "render r"; cases n) simp_all
  have "split_lines ?bad = [?bad]"
    using split_lines_line [of "take n (render r) @ render r'" "[]"] r(2,4) by (auto simp: line_of_def dest: in_set_takeD)
  then have "replay_lines parse True (split_lines (?old @ ?bad)) [] 0 = Inl Json_error"
    unfolding replay_logged [OF rs] using blank assms(5) by simp
  then show ?thesis
    using assms(4) by (simp add: recorded_def append_line_def log_of_def open_erasures_def line_of_def)
qed

section \<open>What is pending\<close>

lemma alter_entry_keys [simp]: "map fst (alter_entry k f m) = map fst m"
  by (induction m) (auto simp: alter_entry_def)

lemma map_of_alter: "map_of (alter_entry k f m) n = (if n = k then map_option f (map_of m n) else map_of m n)"
  by (induction m) (auto simp: alter_entry_def)

lemma apply_record_sorted: "sorted_wrt (<) (map fst m) \<Longrightarrow> sorted_wrt (<) (map fst (apply_record r m))"
  by (cases r) (simp_all add: apply_record_def bt_insert_sorted)

lemma replayed_sorted: "sorted_wrt (<) (map fst (replayed rs))"
  by (induction rs rule: rev_induct) (simp_all add: replayed_def apply_record_sorted)

text \<open>The records that end or replace an erasure.\<close>

fun concludes :: "u64 \<Rightarrow> log_record \<Rightarrow> bool" where
  "concludes n (Erase erase) = (er_id erase = n)"
| "concludes n (Settle settle) = (se_id settle = n)"
| "concludes n (Note note) = False"

lemma applied_pending:
  assumes "map_of m n = Some (erase, None)" and "\<not> concludes n r"
  shows "\<exists>references. map_of (apply_record r m) n = Some (erase\<lparr>er_payload_refs := references\<rparr>, None)"
proof -
  have "\<exists>references. erase = erase\<lparr>er_payload_refs := references\<rparr>" by (rule exI [of _ "er_payload_refs erase"]) simp
  then show ?thesis
    using assms by (cases r) (auto simp: apply_record_def map_of_bt_insert map_of_alter merge_refs_def)
qed

lemma replayed_pending:
  "map_of m n = Some (erase, None) \<Longrightarrow> list_all (\<lambda>r. \<not> concludes n r) rs
    \<Longrightarrow> \<exists>references. map_of (fold apply_record rs m) n = Some (erase\<lparr>er_payload_refs := references\<rparr>, None)"
proof (induction rs arbitrary: m erase)
  case Nil
  then show ?case by (auto intro: exI [of _ "er_payload_refs erase"])
next
  case (Cons r rs)
  then obtain references where "map_of (apply_record r m) n = Some (erase\<lparr>er_payload_refs := references\<rparr>, None)"
    using applied_pending by (metis list.pred_inject(2))
  from Cons.IH [OF this] Cons.prems(2) show ?case by auto
qed

lemma pending_of_entry: "map_of m n = Some (erase, None) \<Longrightarrow> erase \<in> set (pending_records m)"
  by (force simp: pending_records_def dest: map_of_SomeD)

lemma log_mask_of: "log_mask (log_of render rs) = (let pending = pending_erasures (log_of render rs) in if pending = [] then None else Some (mask_for_pending pending))"
  by (simp add: log_mask_def pending_erasures_def log_of_def rebuild_mask_def)

text \<open>What the log goes through after an erasure began: appends, each with the way it ends.\<close>

definition appends :: "(log_record \<Rightarrow> bytes) \<Rightarrow> (append_end \<times> log_record) list \<Rightarrow> erasure_log \<Rightarrow> erasure_log" where
  "appends render = fold (\<lambda>(how, r) log. fst (recorded render how r log))"

lemma appends_inner:
  "el_inner log = rebuild_mask m \<Longrightarrow>
    el_inner (appends render qs log) = rebuild_mask (fold apply_record (map snd (filter (\<lambda>(how, r). how = Appended) qs)) m)"
proof (induction qs arbitrary: log m)
  case (Cons q qs)
  obtain how r where q: "q = (how, r)" by fastforce
  have "el_inner (fst (recorded render how r log)) = (if how = Appended then rebuild_mask (apply_record r m) else rebuild_mask m)"
    using Cons.prems by (simp add: recorded_def append_line_def rebuild_mask_def split: append_end.split)
  then show ?case using Cons.IH [of "fst (recorded render how r log)"] by (cases "how = Appended") (simp_all add: appends_def q)
qed (simp add: appends_def)

lemma appends_all: "appends render (map (Pair Appended) rs') (log_of render rs) = log_of render (rs @ rs')"
  by (induction rs' arbitrary: rs) (simp_all add: appends_def recorded_appended)

lemma pending_hides:
  assumes "map_of m n = Some (erase, None)" and "list_all (\<lambda>r. \<not> concludes n r) rs" and "subject_action lib (er_subject erase) s \<noteq> Keep"
  shows "\<exists>held. in_mask (rebuild_mask (fold apply_record rs m)) = Some held \<and> covers lib held s"
proof -
  obtain references where "map_of (fold apply_record rs m) n = Some (erase\<lparr>er_payload_refs := references\<rparr>, None)"
    using replayed_pending [OF assms(1,2)] by blast
  from pending_of_entry [OF this] have p: "erase\<lparr>er_payload_refs := references\<rparr> \<in> set (pending_records (fold apply_record rs m))" .
  then have "in_mask (rebuild_mask (fold apply_record rs m)) = Some (mask_for_pending (pending_records (fold apply_record rs m)))"
    by (auto simp: rebuild_mask_def Let_def)
  moreover have "covers lib (mask_for_pending (pending_records (fold apply_record rs m))) s"
    using pending_covers [OF p] assms(3) by simp
  ultimately show ?thesis by blast
qed

lemma begun:
  assumes "begin_erasure render Appended requested subject keys references datasets experiments (log_of render ps) = (log, Some erase)"
  shows "log = log_of render (ps @ [Erase erase])" "er_subject erase = subject"
    "map_of (apply_record (Erase erase) (replayed ps)) (er_id erase) = Some (erase, None)"
  using assms unfolding begin_erasure_def recorded_appended Let_def
  by (auto simp: new_erase_record_def apply_record_def map_of_bt_insert)

text \<open>C21: an erasure begun and not settled hides what it acts on, in this process and after any restart. From the moment
  its begin succeeds, whatever is appended since and however those appends end, as long as no settle of it succeeds the
  mask of the running log covers every span it would drop or redact, though its record resolved none of them; and as
  long as none of its settles was attempted, so does the mask of the log reopened after all appends but the last
  succeeded, wherever that last one was cut short.\<close>

theorem an_unsettled_erasure_hides_its_subject:
  assumes "begin_erasure render Appended requested subject keys references datasets experiments (log_of render ps) = (log, Some erase)"
    and "list_all (\<lambda>(how, r). how = Appended \<longrightarrow> \<not> concludes (er_id erase) r) qs"
    and "subject_action lib subject s \<noteq> Keep"
  shows "(\<exists>m. log_mask (appends render qs log) = Some m \<and> covers lib m s)
    \<and> (json_lines parse render (set ps \<union> {Erase erase} \<union> snd ` set qs) \<and> list_all (\<lambda>(how, r). \<not> concludes (er_id erase) r) qs
        \<and> list_all (\<lambda>(how, r). how = Appended) (butlast qs) \<longrightarrow>
       (\<exists>reopened m. open_erasures parse (el_file (appends render qs log)) = Inr reopened \<and> log_mask reopened = Some m \<and> covers lib m s))"
proof
  note b = begun [OF assms(1)]
  have act: "subject_action lib (er_subject erase) s \<noteq> Keep" using assms(3) b(2) by simp
  have inner: "el_inner log = rebuild_mask (apply_record (Erase erase) (replayed ps))"
    by (simp add: b(1) log_of_def replayed_def)
  have "list_all (\<lambda>r. \<not> concludes (er_id erase) r) (map snd (filter (\<lambda>(how, r). how = Appended) qs))"
    using assms(2) by (auto simp: list_all_iff)
  from pending_hides [OF b(3) this act] show "\<exists>m. log_mask (appends render qs log) = Some m \<and> covers lib m s"
    unfolding log_mask_def appends_inner [OF inner] .
  show "json_lines parse render (set ps \<union> {Erase erase} \<union> snd ` set qs) \<and> list_all (\<lambda>(how, r). \<not> concludes (er_id erase) r) qs
        \<and> list_all (\<lambda>(how, r). how = Appended) (butlast qs) \<longrightarrow>
       (\<exists>reopened m. open_erasures parse (el_file (appends render qs log)) = Inr reopened \<and> log_mask reopened = Some m \<and> covers lib m s)"
  proof (intro impI; elim conjE)
    assume codec: "json_lines parse render (set ps \<union> {Erase erase} \<union> snd ` set qs)"
      and none: "list_all (\<lambda>(how, r). \<not> concludes (er_id erase) r) qs" and whole: "list_all (\<lambda>(how, r). how = Appended) (butlast qs)"
    have "\<exists>rs. set rs \<subseteq> snd ` set qs \<and> open_erasures parse (el_file (appends render qs log)) = Inr (log_of render (ps @ Erase erase # rs))"
    proof (cases qs rule: rev_cases)
      case Nil
      have "json_lines parse render (set (ps @ [Erase erase]))" using codec by (simp add: json_lines_def)
      then show ?thesis using open_logged by (intro exI [of _ "[]"]) (simp add: Nil appends_def b(1))
    next
      case (snoc init q)
      obtain how r where q: "q = (how, r)" by fastforce
      let ?rs = "ps @ Erase erase # map snd init"
      have "list_all (\<lambda>(how, r). how = Appended) init" using whole by (simp add: snoc)
      then have "init = map (Pair Appended) (map snd init)" by (induction init) auto
      then have "appends render init log = log_of render ?rs"
        using appends_all [of render "map snd init" "ps @ [Erase erase]"] b(1) by simp
      then have run: "appends render qs log = fst (recorded render how r (log_of render ?rs))" by (simp add: snoc q appends_def)
      have lines: "json_lines parse render (insert r (set ?rs))" using codec by (auto simp: json_lines_def snoc q)
      show ?thesis
      proof (cases how)
        case Appended
        have "json_lines parse render (set (?rs @ [r]))" using lines by (simp add: json_lines_def)
        then show ?thesis unfolding run Appended using open_logged [of parse render "?rs @ [r]"] recorded_appended [of render r ?rs]
          by (intro exI [of _ "map snd init @ [r]"]) (auto simp: snoc q)
      next
        case (Failed_after n)
        show ?thesis unfolding run Failed_after using open_failed [OF lines, of n]
          by (intro exI [of _ "if n < length (render r) then map snd init else map snd init @ [r]"]) (auto simp: snoc q)
      qed
    qed
    then obtain rs where rs: "set rs \<subseteq> snd ` set qs"
      "open_erasures parse (el_file (appends render qs log)) = Inr (log_of render (ps @ Erase erase # rs))" by blast
    have "list_all (\<lambda>r. \<not> concludes (er_id erase) r) rs" using rs(1) none by (fastforce simp: list_all_iff)
    from pending_hides [OF b(3) this act] have
      "\<exists>m. log_mask (log_of render (ps @ Erase erase # rs)) = Some m \<and> covers lib m s"
      by (simp add: log_mask_def log_of_def replayed_def)
    with rs(2) show "\<exists>reopened m. open_erasures parse (el_file (appends render qs log)) = Inr reopened \<and> log_mask reopened = Some m \<and> covers lib m s"
      by blast
  qed
qed

definition w_log_begun :: erasure_log where
  "w_log_begun = log_of w_render [Settle w_settle, Erase w_erase]"

lemma w_begins: "begin_erasure w_render Appended 7 (Trace_subject [1] []) [([], [1], [2])] [] [] [] (log_of w_render [Settle w_settle]) = (w_log_begun, Some w_erase)"
proof -
  have "in_records (el_inner (log_of w_render [Settle w_settle])) = []"
    by (simp add: log_of_def replayed_def apply_record_def alter_entry_def rebuild_mask_def)
  then show ?thesis
    unfolding begin_erasure_def recorded_appended Let_def by (simp add: w_log_begun_def next_erasure_id_def saturating_add_def w_erase_def recorded_appended)
qed

theorem an_unsettled_erasure_hides_its_subject_witness:
  "\<forall>lib. \<exists>m. log_mask (appends w_render [(Failed_after 1, Settle w_settle)] w_log_begun) = Some m \<and> covers lib m (w_span 2 0)"
proof
  fix lib
  have "subject_action lib (Trace_subject [1] []) (w_span 2 0) \<noteq> Keep" by (simp add: subject_action_def w_span_def)
  from an_unsettled_erasure_hides_its_subject [OF w_begins, of "[(Failed_after 1, Settle w_settle)]", OF _ this]
  show "\<exists>m. log_mask (appends w_render [(Failed_after 1, Settle w_settle)] w_log_begun) = Some m \<and> covers lib m (w_span 2 0)"
    by simp
qed

text \<open>A new erasure takes an id no record has, until the ids run out.\<close>

lemma bt_insert_last: "sorted_wrt (<) (map fst m) \<Longrightarrow> list_all (\<lambda>e. fst e < k) m \<Longrightarrow> bt_insert k v m = m @ [(k, v)]"
  by (induction k v m rule: bt_insert.induct) auto

lemma below_next: "n \<noteq> - 1 \<Longrightarrow> n < saturating_add n 1"
  for n :: u64
proof -
  assume "n \<noteq> - 1"
  moreover have max: "unat (- 1 :: u64) = 2 ^ 64 - 1" by (simp add: unsigned_minus_1_eq_mask mask_eq_exp_minus_1)
  ultimately have "unat n \<noteq> 2 ^ 64 - 1" by (metis word_unat_eq_iff)
  then have "unat n + 1 < 2 ^ 64" using unat_u64_lt [of n] by linarith
  then show ?thesis using unat_add_lt [of n 1] by (simp add: saturating_add_def word_less_nat_alt)
qed

lemma ids_below_next:
  assumes "sorted_wrt (<) (map fst m)" and "- 1 \<notin> fst ` set m"
  shows "list_all (\<lambda>e. fst e < next_erasure_id m) m"
proof (cases m rule: rev_cases)
  case (snoc init e)
  have "fst e \<noteq> - 1" using assms(2) by (auto simp: snoc)
  then have "fst e < saturating_add (fst e) 1" by (rule below_next)
  moreover have "x \<in> set init \<Longrightarrow> fst x < fst e" for x using assms(1) by (auto simp: snoc sorted_wrt_append)
  ultimately show ?thesis by (fastforce simp: snoc next_erasure_id_def list_all_iff dest: order.strict_trans)
qed simp

lemma begin_takes_a_fresh_id:
  assumes "begin_erasure render Appended requested subject keys references datasets experiments (log_of render rs) = (log, Some erase)"
    and "- 1 \<notin> fst ` set (replayed rs)"
  shows "log = log_of render (rs @ [Erase erase]) \<and> get_erasure (er_id erase) (log_of render rs) = None
    \<and> list_erasures log = list_erasures (log_of render rs) @ [(erase, None)]"
proof -
  have log: "log = log_of render (rs @ [Erase erase])" and n: "er_id erase = next_erasure_id (replayed rs)"
    using assms(1) unfolding begin_erasure_def recorded_appended Let_def by (auto simp: log_of_def rebuild_mask_def new_erase_record_def)
  note below = ids_below_next [OF replayed_sorted assms(2), folded n]
  have "er_id erase \<notin> fst ` set (replayed rs)" using below by (auto simp: list_all_iff)
  moreover have "replayed (rs @ [Erase erase]) = replayed rs @ [(er_id erase, erase, None)]"
    using bt_insert_last [OF replayed_sorted below] by (simp add: replayed_def apply_record_def)
  ultimately show ?thesis
    using log by (simp add: get_erasure_def list_erasures_def log_of_def rebuild_mask_def map_of_eq_None_iff)
qed

section \<open>The strict reading\<close>

text \<open>\<open>pending_count_in_bytes\<close>: what an archive asserts of a log that outlives the store. Lines are split without
  their newlines; a torn or malformed line is an error.\<close>

definition ARCHIVE_TOMBSTONE_LOG_BOUND :: nat where
  "ARCHIVE_TOMBSTONE_LOG_BOUND = 64 * 2 ^ 20"

fun split_on_newline :: "bytes \<Rightarrow> bytes list" where
  "split_on_newline [] = [[]]"
| "split_on_newline (b # bs) =
     (if b = 10 then [] # split_on_newline bs
      else case split_on_newline bs of [] \<Rightarrow> [[b]] | l # ls \<Rightarrow> (b # l) # ls)"

fun count_lines :: "(bytes \<Rightarrow> log_record option) \<Rightarrow> bytes list \<Rightarrow> u64 set \<Rightarrow> store_error + nat" where
  "count_lines parse [] pending = Inr (card pending)"
| "count_lines parse (line # lines) pending =
     (if list_all is_ascii_whitespace line then count_lines parse lines pending
      else
        case parse line of
          None \<Rightarrow> Inl Json_error
        | Some (Erase erase) \<Rightarrow> count_lines parse lines (insert (er_id erase) pending)
        | Some (Settle settle) \<Rightarrow> count_lines parse lines (pending - {se_id settle})
        | Some (Note note) \<Rightarrow> count_lines parse lines pending)"

definition pending_count_in_bytes :: "(bytes \<Rightarrow> log_record option) \<Rightarrow> bytes \<Rightarrow> store_error + nat" where
  "pending_count_in_bytes parse contents =
     (if length contents > ARCHIVE_TOMBSTONE_LOG_BOUND then Inl Io_error
      else count_lines parse (split_on_newline contents) {})"

definition pending_ids :: "erasures \<Rightarrow> u64 set" where
  "pending_ids m = {n. \<exists>erase. map_of m n = Some (erase, None)}"

lemma split_on_newline_line: "10 \<notin> set bs \<Longrightarrow> split_on_newline (bs @ 10 # rest) = bs # split_on_newline rest"
  by (induction bs) (auto split: list.split)

lemma pending_ids_applied:
  "pending_ids (apply_record r m) =
     (case r of Erase erase \<Rightarrow> insert (er_id erase) (pending_ids m) | Settle settle \<Rightarrow> pending_ids m - {se_id settle} | Note note \<Rightarrow> pending_ids m)"
  by (cases r) (auto simp: pending_ids_def apply_record_def map_of_bt_insert map_of_alter)

lemma count_logged:
  assumes "json_lines parse render (set rs)"
  shows "count_lines parse (split_on_newline (concat (map (line_of render) rs))) (pending_ids m) = Inr (card (pending_ids (fold apply_record rs m)))"
  using assms
proof (induction rs arbitrary: m)
  case (Cons r rs)
  have r: "render r \<noteq> []" "10 \<notin> set (render r)" "\<not> is_ascii_whitespace (hd (render r))" "parse (render r) = Some r"
    and rs: "json_lines parse render (set rs)"
    using Cons.prems by (auto simp: json_lines_def)
  have "\<not> list_all is_ascii_whitespace (render r)" using r(1,3) by (cases "render r") auto
  moreover have "split_on_newline (concat (map (line_of render) (r # rs))) = render r # split_on_newline (concat (map (line_of render) rs))"
    using split_on_newline_line [OF r(2)] by (simp add: line_of_def)
  ultimately show ?case
    using Cons.IH [OF rs, of "apply_record r m"] r(4) by (cases r) (simp_all add: pending_ids_applied)
qed simp

lemma pending_ids_count:
  assumes "sorted_wrt (<) (map fst m)"
  shows "card (pending_ids m) = length (pending_records m)"
proof -
  have d: "distinct (map fst m)" using assms strict_sorted_iff sorted_wrt_map by blast
  have "pending_ids m = fst ` set (filter (\<lambda>(n, erase, settle). settle = None) m)"
    by (auto simp: pending_ids_def map_of_eq_Some_iff [OF d] intro: rev_image_eqI)
  then show ?thesis
    using d distinct_card [of "map fst (filter (\<lambda>(n, erase, settle). settle = None) m)"]
    by (simp add: pending_records_def distinct_map_filter)
qed

lemma strict_count_agrees:
  assumes "json_lines parse render (set rs)" and "length (el_file (log_of render rs)) \<le> ARCHIVE_TOMBSTONE_LOG_BOUND"
  shows "pending_count_in_bytes parse (el_file (log_of render rs)) = Inr (length (pending_erasures (log_of render rs)))"
  using count_logged [OF assms(1), of "[]"] assms(2) pending_ids_count [OF replayed_sorted, of rs]
  by (simp add: pending_count_in_bytes_def log_of_def pending_erasures_def rebuild_mask_def replayed_def pending_ids_def)

end
