(* ===== verification/Byte_Scan.thy ===== *)
theory Byte_Scan
  imports Erasure
begin

text \<open>
  What the receipt of an erasure counts (\<open>count_occurrences\<close>, \<open>count_in\<close> and \<open>classify_matches\<close> of
  \<open>src/src/erasure.rs\<close>): the bytes of a file searched for a subject's identifiers as they are read in, and the spans found
  live again.
\<close>

section \<open>One window\<close>

text \<open>\<open>windows(n).position\<close>.\<close>

definition position_of :: "bytes \<Rightarrow> bytes \<Rightarrow> nat option" where
  "position_of pat haystack =
     find (\<lambda>i. take (length pat) (drop i haystack) = pat) [0 ..< length haystack + 1 - length pat]"

text \<open>The loop of \<open>count_in\<close>, on what is left of the haystack. \<open>count_in\<close> keeps the empty needle out, on which it would not end.\<close>

function count_from :: "bytes \<Rightarrow> bytes \<Rightarrow> nat" where
  "count_from pat rest =
     (if length pat \<le> length rest then
        case position_of pat rest of
          Some at \<Rightarrow> if pat = [] then 0 else 1 + count_from pat (drop (at + 1) rest)
        | None \<Rightarrow> 0
      else 0)"
  by auto
termination by (relation "measure (length \<circ> snd)") (auto intro!: diff_less)

declare count_from.simps [simp del]

definition count_in :: "bytes \<Rightarrow> bytes \<Rightarrow> nat" where
  "count_in haystack pat = (if pat = [] \<or> length haystack < length pat then 0 else count_from pat haystack)"

section \<open>The stream\<close>

text \<open>One round of the loop of \<open>count_occurrences\<close>: the carried tail is counted out, the window counted in, and the new tail kept.\<close>

definition scan_chunk :: "bytes list \<Rightarrow> nat \<Rightarrow> bytes \<Rightarrow> nat \<times> bytes \<Rightarrow> nat \<times> bytes" where
  "scan_chunk pats longest chunk = (\<lambda>(n, carry).
     let n = fold (\<lambda>pat n. n - count_in carry pat) pats n;
         window = carry @ chunk;
         n = fold (\<lambda>pat n. n + count_in window pat) pats n;
         keep = min (longest - 1) (length window)
     in (n, drop (length window - keep) window))"

text \<open>The argument: what the reads of the file returned, in order, before the empty one. No file, no reads.\<close>

definition longest_needle :: "bytes list \<Rightarrow> nat" where
  "longest_needle pats = (if pats = [] then 0 else Max (set (map length pats)))"

definition count_occurrences :: "bytes list \<Rightarrow> bytes list \<Rightarrow> nat" where
  "count_occurrences reads pats =
     (let longest = longest_needle pats
      in if longest = 0 then 0 else fst (fold (scan_chunk pats longest) reads (0, [])))"

section \<open>Every occurrence once\<close>

text \<open>The positions a needle stands at.\<close>

definition found_at :: "bytes \<Rightarrow> bytes \<Rightarrow> nat \<Rightarrow> bool" where
  "found_at pat bs i \<longleftrightarrow> take (length pat) (drop i bs) = pat"

definition occurrences :: "bytes \<Rightarrow> bytes \<Rightarrow> nat" where
  "occurrences pat bs = (if pat = [] then 0 else length (filter (found_at pat bs) [0 ..< length bs]))"

lemma found_at_length: "found_at pat bs i \<Longrightarrow> pat \<noteq> [] \<Longrightarrow> i + length pat \<le> length bs"
proof -
  assume "found_at pat bs i" and n: "pat \<noteq> []"
  then have "length (take (length pat) (drop i bs)) = length pat" by (simp add: found_at_def)
  then have "length pat \<le> length bs - i" by (simp add: min_def split: if_splits)
  then show ?thesis using n by (cases pat) simp_all
qed

lemma length_filter_upt_shift: "length (filter P [a ..< a + n]) = length (filter (\<lambda>i. P (a + i)) [0 ..< n])"
proof -
  have "[a ..< a + n] = map (\<lambda>i. a + i) [0 ..< n]" by (simp add: map_add_upt add.commute)
  then show ?thesis by (simp add: filter_map comp_def)
qed

lemma occurrences_split:
  assumes "pat \<noteq> []"
  shows "occurrences pat (as @ bs) = length (filter (found_at pat (as @ bs)) [0 ..< length as]) + occurrences pat bs"
proof -
  have "[0 ..< length (as @ bs)] = [0 ..< length as] @ [length as ..< length as + length bs]" 
    using upt_add_eq_append [of 0 "length as" "length bs"] by simp
  moreover have "found_at pat (as @ bs) (length as + i) = found_at pat bs i" for i by (simp add: found_at_def)
  ultimately show ?thesis using assms by (simp add: occurrences_def length_filter_upt_shift)
qed

lemma position_of_None:
  assumes "position_of pat bs = None" and "pat \<noteq> []"
  shows "occurrences pat bs = 0"
proof -
  have "\<not> found_at pat bs i" if "i < length bs" for i
    using assms found_at_length [of pat bs i] by (auto simp: position_of_def find_None_iff found_at_def)
  then show ?thesis by (simp add: occurrences_def filter_empty_conv)
qed

lemma position_of_Some:
  assumes "position_of pat bs = Some at" and "pat \<noteq> []"
  shows "occurrences pat bs = 1 + occurrences pat (drop (at + 1) bs)" "at < length bs"
proof -
  obtain m where m: "m < length bs + 1 - length pat" "[0 ..< length bs + 1 - length pat] ! m = at"
    "found_at pat bs at" "\<forall>j < m. \<not> found_at pat bs ([0 ..< length bs + 1 - length pat] ! j)"
    using assms(1) by (auto simp: position_of_def find_Some_iff found_at_def)
  then have at: "found_at pat bs at" "\<And>j. j < at \<Longrightarrow> \<not> found_at pat bs j" by auto
  show len: "at < length bs" using found_at_length [OF at(1) assms(2)] assms(2) by (cases pat) auto
  have bs: "bs = take (at + 1) bs @ drop (at + 1) bs" and tk: "length (take (at + 1) bs) = at + 1" using len by simp_all
  have "filter (found_at pat bs) [0 ..< at + 1] = [at]" using at by (simp add: filter_empty_conv)
  then show "occurrences pat bs = 1 + occurrences pat (drop (at + 1) bs)"
    using occurrences_split [OF assms(2), of "take (at + 1) bs" "drop (at + 1) bs"] unfolding tk bs [symmetric] by simp
qed

lemma count_from_occurrences: "pat \<noteq> [] \<Longrightarrow> count_from pat bs = occurrences pat bs"
proof (induction pat bs rule: count_from.induct)
  case (1 pat rest)
  show ?case
  proof (cases "length pat \<le> length rest")
    case False
    then have "\<not> found_at pat rest i" for i using found_at_length [of pat rest i] 1 by force
    then show ?thesis using False by (simp add: count_from.simps occurrences_def)
  next
    case True
    show ?thesis
    proof (cases "position_of pat rest")
      case None
      then show ?thesis using position_of_None [of pat rest] 1 by (simp add: count_from.simps)
    next
      case (Some at)
      have "count_from pat (drop (at + 1) rest) = occurrences pat (drop (at + 1) rest)"
        using 1(1) [OF True Some 1(2) 1(2)] .
      then show ?thesis using position_of_Some [OF Some 1(2)] True Some 1(2) by (simp add: count_from.simps [of pat rest])
    qed
  qed
qed

lemma count_in_occurrences: "count_in bs pat = occurrences pat bs"
proof (cases "pat = []")
  case False
  have "occurrences pat bs = 0" if "length bs < length pat"
    using that found_at_length [of pat bs] False by (fastforce simp: occurrences_def filter_empty_conv)
  then show ?thesis using count_from_occurrences False by (simp add: count_in_def)
qed (simp add: count_in_def occurrences_def)

text \<open>A tail of all but one of the needle's bytes sees every occurrence that was not whole before it.\<close>

lemma occurrences_carry:
  assumes "as = [] \<or> length pat \<le> length carry + 1"
  shows "occurrences pat (as @ carry @ chunk) + occurrences pat carry
    = occurrences pat (as @ carry) + occurrences pat (carry @ chunk)"
proof (cases "pat = [] \<or> as = []")
  case False
  then have n: "pat \<noteq> []" "length pat \<le> length carry + 1" using assms by auto
  have "found_at pat (as @ carry @ chunk) i = found_at pat (as @ carry) i" if "i < length as" for i
  proof -
    have "length pat \<le> length (drop i (as @ carry))" using that n by simp
    then have take_carry: "take (length pat) (drop i (as @ carry) @ chunk) = take (length pat) (drop i (as @ carry))" by simp
    have drop_carry: "drop i (as @ carry @ chunk) = drop i (as @ carry) @ chunk" using that by simp
    show ?thesis unfolding found_at_def drop_carry take_carry by (rule refl)
  qed
  then have "filter (found_at pat (as @ carry @ chunk)) [0 ..< length as] = filter (found_at pat (as @ carry)) [0 ..< length as]"
    by (intro filter_cong) auto
  then show ?thesis using occurrences_split [OF n(1), of as "carry @ chunk"] occurrences_split [OF n(1), of as carry] by simp
qed (auto simp: occurrences_def)

definition all_occurrences :: "bytes list \<Rightarrow> bytes \<Rightarrow> nat" where
  "all_occurrences pats bs = sum_list (map (\<lambda>pat. occurrences pat bs) pats)"

lemma occurrences_Nil [simp]: "occurrences pat [] = 0"
  by (simp only: occurrences_def list.size upt.simps filter.simps) simp

lemma all_occurrences_Nil: "all_occurrences pats [] = 0"
  by (simp only: all_occurrences_def occurrences_Nil) (simp only: map_replicate_const sum_list_replicate mult_0_right)

lemma fold_count_out: "fold (\<lambda>pat n. n - count_in carry pat) pats n = n - all_occurrences pats carry"
  by (induction pats arbitrary: n) (simp_all add: all_occurrences_def count_in_occurrences)

lemma fold_count_in: "fold (\<lambda>pat n. n + count_in window pat) pats n = n + all_occurrences pats window"
  by (induction pats arbitrary: n) (simp_all add: all_occurrences_def count_in_occurrences)

lemma all_occurrences_carry:
  assumes "\<And>pat. pat \<in> set pats \<Longrightarrow> as = [] \<or> length pat \<le> length carry + 1"
  shows "all_occurrences pats (as @ carry @ chunk) + all_occurrences pats carry
    = all_occurrences pats (as @ carry) + all_occurrences pats (carry @ chunk)"
  using assms
proof (induction pats)
  case (Cons pat pats)
  then show ?case using occurrences_carry [of as pat carry chunk] by (simp add: all_occurrences_def)
qed (simp add: all_occurrences_def)

text \<open>Between rounds: the count of what was read, and its tail.\<close>

definition scanned :: "bytes list \<Rightarrow> nat \<Rightarrow> bytes \<Rightarrow> nat \<times> bytes" where
  "scanned pats longest bs = (all_occurrences pats bs, drop (length bs - min (longest - 1) (length bs)) bs)"

lemma all_occurrences_suffix: "all_occurrences pats bs \<le> all_occurrences pats (as @ bs)"
proof (induction pats)
  case (Cons pat pats)
  have "occurrences pat bs \<le> occurrences pat (as @ bs)"
    using occurrences_split [of pat as bs] by (cases "pat = []") (simp_all add: occurrences_def)
  with Cons show ?case by (simp add: all_occurrences_def)
qed (simp add: all_occurrences_def)

lemma scan_chunk_scanned:
  assumes "\<And>pat. pat \<in> set pats \<Longrightarrow> length pat \<le> longest"
  shows "scan_chunk pats longest chunk (scanned pats longest bs) = scanned pats longest (bs @ chunk)"
proof -
  define keep where "keep = min (longest - 1) (length bs)"
  define as carry where "as = take (length bs - keep) bs" and "carry = drop (length bs - keep) bs"
  have bs: "bs = as @ carry" and len: "length carry = keep" "length as = length bs - keep"
    by (simp_all add: as_def carry_def keep_def)
  have "as = [] \<or> length pat \<le> length carry + 1" if "pat \<in> set pats" for pat
    using assms [OF that] unfolding len keep_def by (auto simp: as_def keep_def min_def)
  from all_occurrences_carry [of pats as carry chunk, OF this] have total:
    "all_occurrences pats bs - all_occurrences pats carry + all_occurrences pats (carry @ chunk) = all_occurrences pats (bs @ chunk)"
    using all_occurrences_suffix [of pats carry as] by (simp add: bs)
  let ?keep = "min (longest - 1) (length (carry @ chunk))" and ?keep' = "min (longest - 1) (length (bs @ chunk))"
  have k: "?keep = ?keep'" using len by (auto simp: keep_def min_def)
  have "drop (length (carry @ chunk) - ?keep) (carry @ chunk) = drop (length (bs @ chunk) - ?keep') (bs @ chunk)"
  proof -
    have "length (bs @ chunk) - ?keep' = length as + (length (carry @ chunk) - ?keep)" unfolding k [symmetric] by (simp add: bs)
    then show ?thesis by (simp add: bs)
  qed
  moreover have "scanned pats longest bs = (all_occurrences pats bs, carry)" by (simp add: scanned_def carry_def keep_def)
  ultimately show ?thesis
    using total by (simp only: scan_chunk_def scanned_def fold_count_out fold_count_in Let_def prod.case)
qed

lemma scan_scanned:
  assumes "\<And>pat. pat \<in> set pats \<Longrightarrow> length pat \<le> longest"
  shows "fold (scan_chunk pats longest) reads (scanned pats longest bs) = scanned pats longest (bs @ concat reads)"
  by (induction reads arbitrary: bs) (simp_all add: scan_chunk_scanned [OF assms])

text \<open>C22: the byte scan of a receipt misses nothing and counts nothing twice. However the reads cut the file, the
  result is the number of positions each identifier stands at in the whole of it, summed over the identifiers: one that straddles
  reads, several that overlap, one in the last bytes.\<close>

theorem the_scan_counts_every_occurrence_once:
  "count_occurrences reads pats = sum_list (map (\<lambda>pat. occurrences pat (concat reads)) pats)"
proof (cases "longest_needle pats = 0")
  case True
  then have "pat \<in> set pats \<Longrightarrow> pat = []" for pat
    by (cases "pats = []") (auto simp: longest_needle_def simp flip: le_zero_eq intro: Max_ge)
  then have "all_occurrences pats bs = 0" for bs by (auto simp: all_occurrences_def occurrences_def)
  then show ?thesis using True by (simp add: count_occurrences_def all_occurrences_def)
next
  case False
  have "pat \<in> set pats \<Longrightarrow> length pat \<le> longest_needle pats" for pat
    by (auto simp: longest_needle_def intro: Max_ge)
  from scan_scanned [of pats "longest_needle pats" reads "[]", OF this]
  have "fold (scan_chunk pats (longest_needle pats)) reads (scanned pats (longest_needle pats) [])
      = scanned pats (longest_needle pats) (concat reads)" by (simp only: append_Nil)
  moreover have "all_occurrences pats [] = 0" by (rule all_occurrences_Nil)
  then have "scanned pats (longest_needle pats) [] = (0, [])" by (simp add: scanned_def)
  ultimately show ?thesis using False by (simp add: count_occurrences_def scanned_def all_occurrences_def)
qed

section \<open>Live again\<close>

text \<open>Of the spans found, each key once: those the erasure covered, and the others.\<close>

fun classify_from :: "span_key set \<Rightarrow> span_key list \<Rightarrow> span_key set \<Rightarrow> nat \<times> nat \<Rightarrow> nat \<times> nat" where
  "classify_from erased [] seen classes = classes"
| "classify_from erased (k # ks) seen (re_delivered, new_activity) =
     (if k \<in> seen then classify_from erased ks seen (re_delivered, new_activity)
      else classify_from erased ks (insert k seen)
             (if k \<in> erased then (re_delivered + 1, new_activity) else (re_delivered, new_activity + 1)))"

definition classify_matches :: "span_key set \<Rightarrow> span_key list \<Rightarrow> nat \<times> nat" where
  "classify_matches erased found = classify_from erased found {} (0, 0)"

lemma classify_from_counts:
  "classify_from erased ks seen (a, b) = (a + card (set ks \<inter> erased - seen), b + card (set ks - erased - seen))"
proof (induction ks arbitrary: seen a b)
  case (Cons k ks)
  show ?case
  proof (cases "k \<in> seen")
    case True
    then have "set (k # ks) \<inter> erased - seen = set ks \<inter> erased - seen" "set (k # ks) - erased - seen = set ks - erased - seen" by auto
    then show ?thesis using Cons True by simp
  next
    case new: False
    show ?thesis
    proof (cases "k \<in> erased")
      case True
      have "set (k # ks) \<inter> erased - seen = insert k (set ks \<inter> erased - insert k seen)"
        "set (k # ks) - erased - seen = set ks - erased - insert k seen" using True new by auto
      then show ?thesis using Cons True new by simp
    next
      case False
      have "set (k # ks) \<inter> erased - seen = set ks \<inter> erased - insert k seen"
        "set (k # ks) - erased - seen = insert k (set ks - erased - insert k seen)" using False new by auto
      then show ?thesis using Cons False new by simp
    qed
  qed
qed simp

lemma classify_counts: "classify_matches erased found = (card (set found \<inter> erased), card (set found - erased))"
  by (simp add: classify_matches_def classify_from_counts)

end
