(* ===== verification/Erase_Store.thy ===== *)
theory Erase_Store
  imports Erasure Rollup_File Expiry Query_Properties
begin

text \<open>
  An erasure carried out on the store (\<open>purge_subject_locked\<close>, \<open>segment_may_hold_subject\<close>, \<open>checkpoint_locked\<close> with
  \<open>seal_with_permit\<close>, and \<open>complete_erasure\<close> of \<open>src/src/lib.rs\<close>): what one pass removes and redacts, and that a settled erasure has left
  nothing of its subject anywhere in the store.
\<close>

section \<open>One pass\<close>

record subject_purge =
  pu_removed :: nat
  pu_redacted :: nat
  pu_keys :: "span_key set"
  pu_refs :: "bytes set"

definition purge_default :: subject_purge where
  "purge_default = \<lparr>pu_removed = 0, pu_redacted = 0, pu_keys = {}, pu_refs = {}\<rparr>"

definition note_dropped :: "span \<Rightarrow> subject_purge \<Rightarrow> subject_purge" where
  "note_dropped s p = p\<lparr>pu_removed := pu_removed p + 1, pu_keys := insert (key_of s) (pu_keys p), pu_refs := pu_refs p \<union> payload_refs_of s\<rparr>"

definition note_redacted :: "span \<Rightarrow> subject_purge \<Rightarrow> subject_purge" where
  "note_redacted s p = p\<lparr>pu_redacted := pu_redacted p + 1, pu_keys := insert (key_of s) (pu_keys p)\<rparr>"

definition redacted_for :: "subject \<Rightarrow> span \<Rightarrow> span" where
  "redacted_for subject s = (case payload_reference subject of Some reference \<Rightarrow> fst (redact_payload reference s) | None \<Rightarrow> s)"

text \<open>The loop over the spans of a segment, and the one over the handles of the buffer, where a redacted span is a fresh
  allocation. The results: what is kept, whether anything changed, and the tally.\<close>

fun purge_spans :: "number_lib \<Rightarrow> subject \<Rightarrow> span list \<Rightarrow> subject_purge \<Rightarrow> span list \<times> bool \<times> subject_purge" where
  "purge_spans lib subject [] p = ([], False, p)"
| "purge_spans lib subject (s # ss) p =
     (case subject_action lib subject s of
        Keep \<Rightarrow> let (kept, changed, p) = purge_spans lib subject ss p in (s # kept, changed, p)
      | Drop \<Rightarrow> let (kept, changed, p) = purge_spans lib subject ss (note_dropped s p) in (kept, True, p)
      | Redact \<Rightarrow> let (kept, changed, p) = purge_spans lib subject ss (note_redacted s p) in (redacted_for subject s # kept, True, p))"

fun purge_handles ::
  "number_lib \<Rightarrow> subject \<Rightarrow> (nat \<Rightarrow> nat) \<Rightarrow> handle list \<Rightarrow> subject_purge \<Rightarrow> handle list \<times> bool \<times> subject_purge" where
  "purge_handles lib subject fresh [] p = ([], False, p)"
| "purge_handles lib subject fresh ((a, s) # hs) p =
     (case subject_action lib subject s of
        Keep \<Rightarrow> let (kept, changed, p) = purge_handles lib subject fresh hs p in ((a, s) # kept, changed, p)
      | Drop \<Rightarrow> let (kept, changed, p) = purge_handles lib subject fresh hs (note_dropped s p) in (kept, True, p)
      | Redact \<Rightarrow>
          let (kept, changed, p) = purge_handles lib subject fresh hs (note_redacted s p) in ((fresh a, redacted_for subject s) # kept, True, p))"

definition purge_buffer :: "number_lib \<Rightarrow> subject \<Rightarrow> nat \<Rightarrow> (nat \<Rightarrow> nat) \<Rightarrow> bool \<Rightarrow> store \<Rightarrow> store \<times> subject_purge option" where
  "purge_buffer lib subject now fresh rewrite_ok st =
     (let (kept, changed, p) = purge_handles lib subject fresh (wb_spans (writer st)) purge_default
      in if changed then
           if \<not> rewrite_ok then (st, None)
           else (st\<lparr>log := map snd kept, writer := wb_restore now kept (writer st)\<rparr>, Some p)
         else (st, Some p))"

text \<open>What a pass runs against: the open segment of each handle with the bytes of its sidecar, if there is one, the
  pricing of the store, the allocations (the handles of redacted spans, the segments a rewrite opens), and how its
  writes end.\<close>

record purge_env =
  pe_decompress :: "bytes \<Rightarrow> nat \<Rightarrow> bytes option"
  pe_open :: "seg_handle \<Rightarrow> segment"
  pe_sidecar :: "seg_handle \<Rightarrow> bytes option"
  pe_pricing :: pricing
  pe_now :: nat
  pe_handles :: "nat \<Rightarrow> nat"
  pe_segments :: "seg_handle \<Rightarrow> nat \<times> u64"
  pe_io :: expiry_io

abbreviation pe_reader :: "purge_env \<Rightarrow> segment reader" where
  "pe_reader env \<equiv> local_reader (pe_decompress env)"

definition rollup_binding :: "u64 \<Rightarrow> segment \<Rightarrow> u64 \<Rightarrow> binding" where
  "rollup_binding len g pricing_fingerprint =
     \<lparr>bi_segment_bytes = len, bi_record_count = of_nat (length (s_record_offsets g)),
      bi_min_start_ns = fst (timestamps (s_header g)), bi_max_start_ns = snd (timestamps (s_header g)),
      bi_pricing_fingerprint = pricing_fingerprint\<rparr>"

text \<open>The question put to the indexes and the sidecar, before anything is decoded.\<close>

definition segment_may_hold_subject :: "store_lib \<Rightarrow> purge_env \<Rightarrow> seg_handle \<Rightarrow> subject \<Rightarrow> store_error + bool" where
  "segment_may_hold_subject lib env seg subject =
     (let g = pe_open env seg; traced = (\<lambda>trace. and_then (trace_spans (pe_reader env) lib g trace) (\<lambda>spans. Inr (spans \<noteq> []))) in
      case subject of
        Trace_subject trace t \<Rightarrow> traced trace
      | Span_subject trace span t \<Rightarrow> traced trace
      | Session_subject session t \<Rightarrow>
          Inr (list_ex (\<lambda>key. list_ex (\<lambda>v. attribute_candidates (pe_reader env) lib g key v \<noteq> []) (session_values (numbers lib) session)) SESSION_KEYS)
      | Tenant_subject t \<Rightarrow> Inr (rd_candidates (pe_reader env) g IDX_TENANT t \<noteq> [])
      | Payload_subject reference \<Rightarrow>
          Inr (case load_rollup (pe_sidecar env seg) (rollup_binding (sg_bytes seg) g (fingerprint (pe_pricing env))) of
                 Some rollup \<Rightarrow> reference \<in> ro_payload_refs rollup
               | None \<Rightarrow> True))"

definition spans_parsed :: "store_lib \<Rightarrow> purge_env \<Rightarrow> seg_handle \<Rightarrow> store_error + span list" where
  "spans_parsed lib env seg = spans_parsed_in_window (pe_reader env) lib (local_ordinals (pe_decompress env)) (pe_open env seg) None None"

text \<open>One turn of the loop over the pinned segments.\<close>

definition purge_segment :: "store_lib \<Rightarrow> subject \<Rightarrow> purge_env \<Rightarrow> seg_handle \<Rightarrow> store \<Rightarrow> subject_purge \<Rightarrow> store \<times> subject_purge option" where
  "purge_segment lib subject env seg st p =
     (case segment_may_hold_subject lib env seg subject of
        Inl e \<Rightarrow> (st, None)
      | Inr may \<Rightarrow>
          if \<not> may then (st, Some p)
          else
            case spans_parsed lib env seg of
              Inl e \<Rightarrow> (st, None)
            | Inr all \<Rightarrow>
                let (kept, changed, p) = purge_spans (numbers lib) subject all p;
                    new = \<lparr>sg_addr = fst (pe_segments env seg), sg_id = sg_id seg, sg_bytes = snd (pe_segments env seg), sg_spans = sort_spans kept\<rparr>
                in if \<not> changed then (st, Some p)
                   else if kept = [] then
                     if unlink_ok (pe_io env) (sg_id seg) then (retire_expired_segment seg st, Some p) else (st, None)
                   else
                     case rewrite_outcome (pe_io env) (sg_id seg) of
                       NotWritten \<Rightarrow> (st, None)
                     | LeftBehind \<Rightarrow> (st\<lparr>disk := replace_file (entry_of new) (disk st)\<rparr>, None)
                     | Written \<Rightarrow> (rewrite_expired_segment seg new st, Some p))"

fun purge_segments :: "store_lib \<Rightarrow> subject \<Rightarrow> purge_env \<Rightarrow> seg_handle list \<Rightarrow> store \<Rightarrow> subject_purge \<Rightarrow> store \<times> subject_purge option" where
  "purge_segments lib subject env [] st p = (st, Some p)"
| "purge_segments lib subject env (seg # segs) st p =
     (case purge_segment lib subject env seg st p of
        (st, None) \<Rightarrow> (st, None)
      | (st, Some p) \<Rightarrow> purge_segments lib subject env segs st p)"

definition purge_subject_locked :: "store_lib \<Rightarrow> subject \<Rightarrow> purge_env \<Rightarrow> store \<Rightarrow> store \<times> subject_purge option" where
  "purge_subject_locked lib subject env st =
     (case purge_buffer (numbers lib) subject (pe_now env) (pe_handles env) (log_rewrite_ok (pe_io env)) st of
        (st, None) \<Rightarrow> (st, None)
      | (st, Some p) \<Rightarrow> purge_segments lib subject env (segments st) st p)"

section \<open>What a pass leaves\<close>

text \<open>The versions an erasure leaves, of a list and of the stored versions with their segments.\<close>

definition spared :: "number_lib \<Rightarrow> subject \<Rightarrow> span list \<Rightarrow> span list" where
  "spared lib subject ss = List.map_filter (after_erasure lib subject) ss"

definition spared_stored :: "number_lib \<Rightarrow> subject \<Rightarrow> (nat \<times> span) multiset \<Rightarrow> (nat \<times> span) multiset" where
  "spared_stored lib subject M =
     image_mset (\<lambda>(i, s). (i, the (after_erasure lib subject s))) (filter_mset (\<lambda>(i, s). after_erasure lib subject s \<noteq> None) M)"

definition untouched :: "number_lib \<Rightarrow> subject \<Rightarrow> span \<Rightarrow> bool" where
  "untouched lib subject s \<longleftrightarrow> subject_action lib subject s = Keep"

definition acted :: "number_lib \<Rightarrow> subject \<Rightarrow> action \<Rightarrow> span list \<Rightarrow> nat" where
  "acted lib subject act ss = length (filter (\<lambda>s. subject_action lib subject s = act) ss)"

lemma spared_simps [simp]:
  "spared lib subject [] = []"
  "spared lib subject (s # ss) = (case after_erasure lib subject s of None \<Rightarrow> spared lib subject ss | Some s' \<Rightarrow> s' # spared lib subject ss)"
  by (simp_all add: spared_def map_filter_simps split: option.split)

lemma spared_stored_simps [simp]:
  "spared_stored lib subject {#} = {#}"
  "spared_stored lib subject (M + N) = spared_stored lib subject M + spared_stored lib subject N"
  by (simp_all add: spared_stored_def)

lemma spared_stored_image: "spared_stored lib subject (image_mset (Pair i) (mset ss)) = image_mset (Pair i) (mset (spared lib subject ss))"
  by (induction ss) (auto simp: spared_stored_def split: option.split)

lemma spared_untouched: "s \<in> set (spared lib subject ss) \<Longrightarrow> untouched lib subject s"
  by (auto simp: spared_def map_filter_def untouched_def dest: erasure_settles_span)

lemma spared_all: "list_all (untouched lib subject) ss \<Longrightarrow> spared lib subject ss = ss"
  by (induction ss) (simp_all add: untouched_def erasure_keeps)

lemma spared_stored_all: "list_all (untouched lib subject) ss \<Longrightarrow> spared_stored lib subject (image_mset (Pair i) (mset ss)) = image_mset (Pair i) (mset ss)"
  by (simp add: spared_stored_image spared_all)

text \<open>The tally of a list of spans on top of an earlier one.\<close>

definition tallied :: "number_lib \<Rightarrow> subject \<Rightarrow> span list \<Rightarrow> subject_purge \<Rightarrow> subject_purge" where
  "tallied lib subject ss p =
     \<lparr>pu_removed = pu_removed p + acted lib subject Drop ss,
      pu_redacted = pu_redacted p + acted lib subject Redact ss,
      pu_keys = pu_keys p \<union> key_of ` {s \<in> set ss. \<not> untouched lib subject s},
      pu_refs = pu_refs p \<union> \<Union> (payload_refs_of ` {s \<in> set ss. subject_action lib subject s = Drop})\<rparr>"

lemma tallied_append: "tallied lib subject (as @ bs) p = tallied lib subject bs (tallied lib subject as p)"
  by (auto simp: tallied_def acted_def)

lemma tallied_Nil [simp]: "tallied lib subject [] p = p"
  by (simp add: tallied_def acted_def)

lemma tallied_Cons:
  "tallied lib subject (s # ss) p =
     tallied lib subject ss (case subject_action lib subject s of Keep \<Rightarrow> p | Drop \<Rightarrow> note_dropped s p | Redact \<Rightarrow> note_redacted s p)"
  by (cases "subject_action lib subject s") (auto simp: tallied_def acted_def untouched_def note_dropped_def note_redacted_def)

lemma purge_spans_result:
  "purge_spans lib subject ss p = (spared lib subject ss, \<not> list_all (untouched lib subject) ss, tallied lib subject ss p)"
  by (induction ss arbitrary: p)
    (auto simp: tallied_Cons untouched_def after_erasure_def redacted_for_def split: action.split option.split)

lemma purge_handles_spans:
  "map snd (fst (purge_handles lib subject fresh hs p)) = fst (purge_spans lib subject (map snd hs) p)
    \<and> snd (purge_handles lib subject fresh hs p) = snd (purge_spans lib subject (map snd hs) p)"
  by (induction lib subject fresh hs p rule: purge_handles.induct) (simp_all add: Let_def case_prod_beta split: action.split)

lemma purge_handles_result:
  "purge_handles lib subject fresh hs p = (hs', changed, p') \<Longrightarrow>
     map snd hs' = spared lib subject (map snd hs) \<and> changed = (\<not> list_all (untouched lib subject) (map snd hs))
     \<and> p' = tallied lib subject (map snd hs) p"
  using purge_handles_spans [of lib subject fresh hs p] by (simp add: purge_spans_result)

lemma purge_buffer_result:
  assumes "purge_buffer lib subject now fresh rewrite_ok st = (st', Some p)"
  shows "map snd (wb_spans (writer st')) = spared lib subject (map snd (wb_spans (writer st)))
    \<and> segments st' = segments st \<and> disk st' = disk st \<and> unsynced st' = unsynced st \<and> sealing st' = sealing st \<and> merging st' = merging st
    \<and> p = tallied lib subject (map snd (wb_spans (writer st))) purge_default"
proof -
  obtain left changed q where k: "purge_handles lib subject fresh (wb_spans (writer st)) purge_default = (left, changed, q)"
    by (metis prod_cases3)
  note r = purge_handles_result [OF k]
  show ?thesis
    using assms r spared_all [of lib subject "map snd (wb_spans (writer st))"]
    by (auto simp: purge_buffer_def k wb_restore_def reindex_def Let_def split: if_splits)
qed

text \<open>What the probes rest on. The open segment stores the spans of its handle, as a file encoded from them and opened again
  does; its sidecar is one of no use, or the encoding of a rollup built from those spans in some order; and parsing a
  printed number gives the number.\<close>

definition sidecar_of :: "bytes option \<Rightarrow> binding \<Rightarrow> span list \<Rightarrow> bool" where
  "sidecar_of sidecar expected ss \<longleftrightarrow>
     load_rollup sidecar expected = None
     \<or> (\<exists>fl p b ys. sidecar = Some (encode_rollup b (rollup_build fl p ys)) \<and> mset ys = mset ss
          \<and> rollup_fits (rollup_build fl p ys) \<and> card (ro_key_hashes (rollup_build fl p ys)) < 2 ^ 64 \<and> describes b (rollup_build fl p ys))"

definition serves_handle :: "store_lib \<Rightarrow> purge_env \<Rightarrow> seg_handle \<Rightarrow> bool" where
  "serves_handle lib env seg \<longleftrightarrow>
     (\<exists>compress. stores_spans lib compress (pe_decompress env) (pe_open env seg) (sg_spans seg))
     \<and> sidecar_of (pe_sidecar env seg) (rollup_binding (sg_bytes seg) (pe_open env seg) (fingerprint (pe_pricing env))) (sg_spans seg)"

definition reads_numbers :: "number_lib \<Rightarrow> subject \<Rightarrow> bool" where
  "reads_numbers lib subject =
     (case subject of
        Session_subject session t \<Rightarrow> \<forall>n. number_text lib n = session \<longrightarrow> JNumber n \<in> set (session_values lib session)
      | _ \<Rightarrow> True)"

lemma session_probed:
  assumes "session_id_of lib s = Some session" and "\<And>n. number_text lib n = session \<Longrightarrow> JNumber n \<in> set (session_values lib session)"
  shows "\<exists>key \<in> set SESSION_KEYS. \<exists>v \<in> set (session_values lib session). map_of (attributes s) key = Some v"
proof -
  have "find_map (attr_str lib (attributes s)) SESSION_KEYS = Some session"
    using assms(1) session_first_str [of lib "attributes s"] by (simp add: session_id_of_def first_str_def)
  then obtain key where key: "key \<in> set SESSION_KEYS" "attr_str lib (attributes s) key = Some session"
    using find_map_holds by metis
  then obtain v where v: "map_of (attributes s) key = Some v" "v = JString session \<or> (\<exists>n. v = JNumber n \<and> number_text lib n = session)"
    by (auto simp: attr_str_def split: option.splits json.splits if_splits)
  have "v \<in> set (session_values lib session)" using v(2) assms(2) by (auto simp: session_values_def)
  then show ?thesis using key(1) v(1) by blast
qed

lemma validate_tenant: "validate_subject (Tenant_subject t) = Inr () \<Longrightarrow> t \<noteq> []"
  by (simp add: validate_subject_def subject_tenant_def split: if_splits)

text \<open>The sidecar names every reference of its segment, a candidate list every record.\<close>

lemma sidecar_references:
  assumes "sidecar_of sidecar expected ss" and "load_rollup sidecar expected = Some rollup" and "s \<in> set ss"
  shows "payload_refs_of s \<subseteq> ro_payload_refs rollup"
proof -
  obtain fl p b ys where e: "sidecar = Some (encode_rollup b (rollup_build fl p ys))" "mset ys = mset ss"
    "rollup_fits (rollup_build fl p ys)" "card (ro_key_hashes (rollup_build fl p ys)) < 2 ^ 64" "describes b (rollup_build fl p ys)"
    using assms(1,2) by (auto simp: sidecar_of_def)
  have "rollup = rollup_build fl p ys" using assms(2) by (simp add: e(1) load_rollup_def decode_encode [OF e(3-5)] split: if_splits)
  then have "ro_payload_refs rollup = (\<Union>s \<in> set ss. payload_refs_of s)"
    using rollup_counts_build [of fl p ys] mset_eq_setD [OF e(2)] by (simp add: rollup_counts_def)
  with assms(3) show ?thesis by auto
qed

lemma admitted_candidates: "admits_all rd g ss P cand \<Longrightarrow> s \<in> set ss \<Longrightarrow> P s \<Longrightarrow> cand \<noteq> []"
  by (fastforce simp: admits_all_def in_set_conv_nth)

lemma sort_nothing: "sort xs = [] \<longleftrightarrow> xs = []"
  by (metis set_empty set_sort)

lemma attribute_probed:
  assumes st: "stores_spans lib compress decompress g ss" and s: "s \<in> set ss" and "map_of (attributes s) key = Some v" and "\<not> reserved key"
  shows "attribute_candidates (local_reader decompress) lib g key v \<noteq> []"
proof -
  have "distinct (map fst (attributes s))" using st s by (auto simp: stores_spans_def list_all_iff storable_def)
  from indexed_attribute [OF this assms(3,4)] have mem: "(key, canonical_value lib v) \<in> set (index_attributes lib s)" .
  have "rd_candidates (local_reader decompress) g key (canonical_value lib v) \<noteq> []"
    by (rule admitted_candidates [OF local_candidates [OF st] s mem])
  then show ?thesis
    using encodings_of_value [of lib v] by (auto simp: attribute_candidates_def sort_nothing split: list.split)
qed

lemma session_keys_open: "key \<in> set SESSION_KEYS \<Longrightarrow> \<not> reserved key"
  by (auto simp: SESSION_KEYS_def reserved_def ascii_def)

lemma may_hold_answers:
  assumes "serves_handle lib env seg" and "reads_numbers (numbers lib) subject" and "validate_subject subject = Inr ()"
  shows "\<exists>may. segment_may_hold_subject lib env seg subject = Inr may \<and> (\<not> may \<longrightarrow> list_all (untouched (numbers lib) subject) (sg_spans seg))"
proof -
  let ?g = "pe_open env seg"
  obtain compress where st: "stores_spans lib compress (pe_decompress env) ?g (sg_spans seg)" using assms(1) by (auto simp: serves_handle_def)
  have traced: "trace_spans (pe_reader env) lib ?g t = Inr (filter (\<lambda>s. trace_id s = t) (sg_spans seg))" for t
    by (rule segment_reads.trace_spans_answers [OF local_segments.segment_reads_axioms, OF st])
  show ?thesis
  proof (cases subject)
    case (Session_subject session t)
    have "list_all (untouched (numbers lib) subject) (sg_spans seg)"
      if no: "\<not> list_ex (\<lambda>key. list_ex (\<lambda>v. attribute_candidates (pe_reader env) lib ?g key v \<noteq> []) (session_values (numbers lib) session)) SESSION_KEYS"
    proof (rule ccontr)
      assume "\<not> list_all (untouched (numbers lib) subject) (sg_spans seg)"
      then obtain s where s: "s \<in> set (sg_spans seg)" "session_id_of (numbers lib) s = Some session"
        by (auto simp: Session_subject subject_action_def untouched_def list_all_iff split: if_splits)
      from session_probed [OF s(2)] assms(2) obtain key v where
        kv: "key \<in> set SESSION_KEYS" "v \<in> set (session_values (numbers lib) session)" "map_of (attributes s) key = Some v"
        by (auto simp: Session_subject reads_numbers_def)
      from attribute_probed [OF st s(1) kv(3) session_keys_open [OF kv(1)]] kv(1,2) no show False by (auto simp: list_ex_iff)
    qed
    then show ?thesis by (auto simp: segment_may_hold_subject_def Session_subject)
  next
    case (Tenant_subject t)
    have "list_all (untouched (numbers lib) subject) (sg_spans seg)" if "rd_candidates (pe_reader env) ?g IDX_TENANT t = []"
    proof -
      have "t \<noteq> []" using assms(3) validate_tenant by (simp add: Tenant_subject)
      then have "tenant s \<noteq> t" if "s \<in> set (sg_spans seg)" for s
        using admitted_candidates [OF local_candidates [OF st] that] indexed_fields(3) [of s lib] \<open>rd_candidates _ _ _ _ = []\<close> by metis
      then show ?thesis by (simp add: Tenant_subject list_all_iff untouched_def subject_action_def)
    qed
    then show ?thesis by (auto simp: segment_may_hold_subject_def Tenant_subject)
  next
    case (Payload_subject reference)
    have "list_all (untouched (numbers lib) subject) (sg_spans seg)"
      if "load_rollup (pe_sidecar env seg) (rollup_binding (sg_bytes seg) ?g (fingerprint (pe_pricing env))) = Some rollup"
        "reference \<notin> ro_payload_refs rollup" for rollup
      using sidecar_references [OF _ that(1)] that(2) assms(1)
      by (fastforce simp: serves_handle_def Payload_subject list_all_iff untouched_def subject_action_def payload_refs_of_iff [symmetric])
    then show ?thesis by (auto simp: segment_may_hold_subject_def Payload_subject Let_def split: option.split)
  qed (auto simp: segment_may_hold_subject_def traced and_then_Inr list_all_iff untouched_def subject_action_def filter_empty_conv)
qed

lemma parsed_spans: "serves_handle lib env seg \<Longrightarrow> spans_parsed lib env seg = Inr (sg_spans seg)"
  using local_windows.window_read [of lib _ "pe_decompress env" "pe_open env seg" "sg_spans seg" None None]
  by (auto simp: serves_handle_def spans_parsed_def in_window_def)

lemma acted_none: "list_all (untouched lib subject) ss \<Longrightarrow> act \<noteq> Keep \<Longrightarrow> acted lib subject act ss = 0"
  by (auto simp: acted_def list_all_iff untouched_def filter_empty_conv)

lemma tallied_all:
  assumes "list_all (untouched lib subject) ss"
  shows "tallied lib subject ss p = p"
  using assms by (induction ss arbitrary: p) (simp_all add: tallied_Cons untouched_def)

text \<open>The locks and fresh allocations a pass runs under, and its subject.\<close>

definition purge_ready :: "store_lib \<Rightarrow> subject \<Rightarrow> purge_env \<Rightarrow> store \<Rightarrow> bool" where
  "purge_ready lib subject env st \<longleftrightarrow>
     validate_subject subject = Inr () \<and> reads_numbers (numbers lib) subject
     \<and> list_all (serves_handle lib env) (segments st) \<and> distinct (map sg_addr (segments st))
     \<and> list_all (\<lambda>seg. fst (pe_segments env seg) \<notin> sg_addr ` set (segments st)) (segments st)"

definition clean_entry :: "number_lib \<Rightarrow> subject \<Rightarrow> seg_entry \<Rightarrow> bool" where
  "clean_entry lib subject e \<longleftrightarrow> list_all (untouched lib subject) (entry_spans e)"

definition clean_handle :: "number_lib \<Rightarrow> subject \<Rightarrow> seg_handle \<Rightarrow> bool" where
  "clean_handle lib subject seg \<longleftrightarrow> list_all (untouched lib subject) (sg_spans seg)"

lemma purge_segment_result:
  assumes run: "purge_segment lib subject env seg st p = (st', Some p')"
    and segs: "segments st = front @ seg # segs" "sg_addr seg \<notin> sg_addr ` set front"
    and probe: "serves_handle lib env seg" "reads_numbers (numbers lib) subject" "validate_subject subject = Inr ()"
  shows "\<exists>mid. segments st' = front @ mid @ segs \<and> stored mid = spared_stored (numbers lib) subject (stored [seg])
    \<and> sg_addr ` set mid \<subseteq> {sg_addr seg, fst (pe_segments env seg)} \<and> subseq (map sg_id mid) [sg_id seg]
    \<and> p' = tallied (numbers lib) subject (sg_spans seg) p
    \<and> writer st' = writer st \<and> unsynced st' = unsynced st \<and> sealing st' = sealing st \<and> merging st' = merging st
    \<and> (\<forall>e \<in> set (disk st'). clean_entry (numbers lib) subject e \<or> e \<in> set (disk st) \<and> (sg_id seg = fst e \<longrightarrow> clean_handle (numbers lib) subject seg))"
proof (cases "list_all (untouched (numbers lib) subject) (sg_spans seg)")
  case True
  then have "st' = st \<and> p' = p"
    using run tallied_all [OF True] may_hold_answers [OF probe] by (auto simp: purge_segment_def parsed_spans [OF probe(1)] purge_spans_result Let_def split: if_splits)
  moreover have "clean_handle (numbers lib) subject seg" using True by (simp add: clean_handle_def)
  ultimately show ?thesis
    using segs(1) True by (intro exI [of _ "[seg]"]) (auto simp: tallied_all spared_stored_all)
next
  case False
  let ?left = "spared (numbers lib) subject (sg_spans seg)"
  let ?new = "\<lparr>sg_addr = fst (pe_segments env seg), sg_id = sg_id seg, sg_bytes = snd (pe_segments env seg), sg_spans = sort_spans ?left\<rparr>"
  have hold: "segment_may_hold_subject lib env seg subject = Inr True" using may_hold_answers [OF probe] False by auto
  show ?thesis
  proof (cases "?left = []")
    case True
    then have "st' = retire_expired_segment seg st" "p' = tallied (numbers lib) subject (sg_spans seg) p"
      using run False hold by (auto simp: purge_segment_def parsed_spans [OF probe(1)] purge_spans_result Let_def split: if_splits)
    then show ?thesis
      using segs True
      by (intro exI [of _ "[]"]) (auto simp: retire_expired_segment_def replace_held_at unlink_file_def entry_of_def spared_stored_image)
  next
    case left: False
    then have st': "st' = rewrite_expired_segment seg ?new st" "p' = tallied (numbers lib) subject (sg_spans seg) p"
      using run False hold by (auto simp: purge_segment_def parsed_spans [OF probe(1)] purge_spans_result Let_def split: if_splits write_outcome.splits)
    have "clean_entry (numbers lib) subject (entry_of ?new)"
      by (simp add: clean_entry_def entry_of_def list_all_iff sort_spans_def spared_untouched)
    then show ?thesis
      using segs st'
      by (intro exI [of _ "[?new]"])
        (auto simp: rewrite_expired_segment_def replace_held_at replace_file_def spared_stored_image sort_spans_def entry_of_def)
  qed
qed

lemma purge_segments_result:
  assumes "purge_segments lib subject env segs st p = (st', Some p')"
    and "segments st = front @ segs" and "list_all (serves_handle lib env) segs" and "distinct (map sg_addr segs)"
    and "sg_addr ` set front \<inter> sg_addr ` set segs = {}"
    and "\<And>seg h. seg \<in> set segs \<Longrightarrow> h \<in> set segs \<Longrightarrow> fst (pe_segments env seg) \<noteq> sg_addr h"
    and "reads_numbers (numbers lib) subject" "validate_subject subject = Inr ()"
  shows "\<exists>front'. segments st' = front @ front' \<and> stored front' = spared_stored (numbers lib) subject (stored segs)
    \<and> subseq (map sg_id front') (map sg_id segs) \<and> p' = tallied (numbers lib) subject (concat (map sg_spans segs)) p
    \<and> writer st' = writer st \<and> unsynced st' = unsynced st \<and> sealing st' = sealing st \<and> merging st' = merging st
    \<and> (\<forall>e \<in> set (disk st'). clean_entry (numbers lib) subject e \<or> e \<in> set (disk st) \<and> (\<forall>h \<in> set segs. sg_id h = fst e \<longrightarrow> clean_handle (numbers lib) subject h))"
  using assms(1-6)
proof (induction segs arbitrary: st p front)
  case (Cons seg segs)
  obtain st1 p1 where one: "purge_segment lib subject env seg st p = (st1, Some p1)"
    and rest: "purge_segments lib subject env segs st1 p1 = (st', Some p')"
    using Cons.prems(1) by (auto split: prod.splits option.splits)
  have addr: "sg_addr seg \<notin> sg_addr ` set front" "sg_addr seg \<notin> sg_addr ` set segs" "distinct (map sg_addr segs)"
    using Cons.prems(4,5) by auto
  have probe: "serves_handle lib env seg" "list_all (serves_handle lib env) segs" using Cons.prems(3) by simp_all
  from purge_segment_result [OF one Cons.prems(2) addr(1) probe(1) assms(7,8)] obtain mid where mid:
    "segments st1 = (front @ mid) @ segs" "stored mid = spared_stored (numbers lib) subject (stored [seg])"
    "sg_addr ` set mid \<subseteq> {sg_addr seg, fst (pe_segments env seg)}" "subseq (map sg_id mid) [sg_id seg]"
    "p1 = tallied (numbers lib) subject (sg_spans seg) p"
    "writer st1 = writer st" "unsynced st1 = unsynced st" "sealing st1 = sealing st" "merging st1 = merging st"
    "\<forall>e \<in> set (disk st1). clean_entry (numbers lib) subject e \<or> e \<in> set (disk st) \<and> (sg_id seg = fst e \<longrightarrow> clean_handle (numbers lib) subject seg)"
    by auto
  have "fst (pe_segments env seg) \<notin> sg_addr ` set segs" using Cons.prems(6) [of seg] by auto
  then have dis: "sg_addr ` set (front @ mid) \<inter> sg_addr ` set segs = {}" using mid(3) addr(2) Cons.prems(5) by auto
  have fr: "\<And>g h. g \<in> set segs \<Longrightarrow> h \<in> set segs \<Longrightarrow> fst (pe_segments env g) \<noteq> sg_addr h" using Cons.prems(6) by simp
  from Cons.IH [OF rest mid(1) probe(2) addr(3) dis fr] obtain more where more:
    "segments st' = (front @ mid) @ more" "stored more = spared_stored (numbers lib) subject (stored segs)"
    "subseq (map sg_id more) (map sg_id segs)" "p' = tallied (numbers lib) subject (concat (map sg_spans segs)) p1"
    "writer st' = writer st1" "unsynced st' = unsynced st1" "sealing st' = sealing st1" "merging st' = merging st1"
    "\<forall>e \<in> set (disk st'). clean_entry (numbers lib) subject e \<or> e \<in> set (disk st1) \<and> (\<forall>h \<in> set segs. sg_id h = fst e \<longrightarrow> clean_handle (numbers lib) subject h)"
    by blast
  have "subseq (map sg_id mid @ map sg_id more) ([sg_id seg] @ map sg_id segs)" using mid(4) more(3) by (rule list_emb_append_mono)
  then show ?case
    using more mid
    by (intro exI [of _ "mid @ more"]) (auto simp: tallied_append [symmetric] simp flip: spared_stored_simps(2))
qed simp

lemma purge_result:
  assumes "purge_subject_locked lib subject env st = (st', Some p)" and "purge_ready lib subject env st"
  shows "map snd (wb_spans (writer st')) = spared (numbers lib) subject (map snd (wb_spans (writer st)))"
    "stored (segments st') = spared_stored (numbers lib) subject (stored (segments st))"
    "subseq (map sg_id (segments st')) (map sg_id (segments st))"
    "p = tallied (numbers lib) subject (map snd (wb_spans (writer st)) @ concat (map sg_spans (segments st))) purge_default"
    "unsynced st' = unsynced st" "sealing st' = sealing st" "merging st' = merging st"
    "\<forall>e \<in> set (disk st'). clean_entry (numbers lib) subject e \<or> e \<in> set (disk st) \<and> (\<forall>h \<in> set (segments st). sg_id h = fst e \<longrightarrow> clean_handle (numbers lib) subject h)"
proof -
  obtain st1 p1 where b: "purge_buffer (numbers lib) subject (pe_now env) (pe_handles env) (log_rewrite_ok (pe_io env)) st = (st1, Some p1)"
    and s: "purge_segments lib subject env (segments st1) st1 p1 = (st', Some p)"
    using assms(1) by (auto simp: purge_subject_locked_def split: prod.splits option.splits)
  note B = purge_buffer_result [OF b]
  note R = assms(2) [unfolded purge_ready_def]
  have "fst (pe_segments env seg) \<noteq> sg_addr h" if "seg \<in> set (segments st1)" "h \<in> set (segments st1)" for seg h
    using R that B by (auto simp: list_all_iff)
  from purge_segments_result [OF s, of "[]"] this obtain front' where k:
    "segments st' = front'" "stored front' = spared_stored (numbers lib) subject (stored (segments st1))"
    "subseq (map sg_id front') (map sg_id (segments st1))" "p = tallied (numbers lib) subject (concat (map sg_spans (segments st1))) p1"
    "writer st' = writer st1" "unsynced st' = unsynced st1" "sealing st' = sealing st1" "merging st' = merging st1"
    "\<forall>e \<in> set (disk st'). clean_entry (numbers lib) subject e \<or> e \<in> set (disk st1) \<and> (\<forall>h \<in> set (segments st1). sg_id h = fst e \<longrightarrow> clean_handle (numbers lib) subject h)"
    using R B by auto
  show "map snd (wb_spans (writer st')) = spared (numbers lib) subject (map snd (wb_spans (writer st)))"
    "stored (segments st') = spared_stored (numbers lib) subject (stored (segments st))"
    "subseq (map sg_id (segments st')) (map sg_id (segments st))"
    "p = tallied (numbers lib) subject (map snd (wb_spans (writer st)) @ concat (map sg_spans (segments st))) purge_default"
    "unsynced st' = unsynced st" "sealing st' = sealing st" "merging st' = merging st"
    "\<forall>e \<in> set (disk st'). clean_entry (numbers lib) subject e \<or> e \<in> set (disk st) \<and> (\<forall>h \<in> set (segments st). sg_id h = fst e \<longrightarrow> clean_handle (numbers lib) subject h)"
    using k B by (simp_all add: tallied_append)
qed

text \<open>C6: a purge removes and redacts exactly its subject. When the open segments store the spans of their handles and a
  sidecar that loads was written for its segment, then in the buffer, and in every live segment in its place, each
  stored version the subject names is gone, each one that carries the subject's payload is redacted, and every
  other version is front as it was and where it was, though segments were skipped on the word of their trace and attribute
  indexes or their sidecar; the tally reports the numbers of both and their keys.\<close>

theorem a_purge_removes_exactly_its_subject:
  assumes "purge_subject_locked lib subject env st = (st', Some p)" and "purge_ready lib subject env st"
  shows "map snd (wb_spans (writer st')) = spared (numbers lib) subject (map snd (wb_spans (writer st)))
    \<and> stored (segments st') = spared_stored (numbers lib) subject (stored (segments st))
    \<and> subseq (map sg_id (segments st')) (map sg_id (segments st))
    \<and> (let found = map snd (wb_spans (writer st)) @ concat (map sg_spans (segments st))
       in pu_removed p = acted (numbers lib) subject Drop found \<and> pu_redacted p = acted (numbers lib) subject Redact found
          \<and> pu_keys p = key_of ` {s \<in> set found. subject_action (numbers lib) subject s \<noteq> Keep})"
  using purge_result [OF assms] by (simp add: Let_def tallied_def purge_default_def untouched_def)

text \<open>A sealed span to erase, beside one in the buffer to keep.\<close>

definition w_erased :: seg_handle where
  "w_erased = \<lparr>sg_addr = 0, sg_id = 0, sg_bytes = 9, sg_spans = [w_stored_span]\<rparr>"

definition w_holding :: store where
  "w_holding = open_store 0 [(0, 9, [w_stored_span])] [] [w_span (Suc 0) 5]"

lemma w_holding_eq:
  "w_holding = \<lparr>writer = upsert 0 0 (w_span (Suc 0) 5) wb_default, segments = [w_erased], next_segment = 1, disk = [(0, 9, [w_stored_span])],
     unsynced = [], journals = [], log = [w_span (Suc 0) 5], sealing = None, merging = None\<rparr>"
  by (simp add: w_holding_def open_store_def recover_supersede_markers_def load_segments_def w_erased_def puts_def upsert_call_def)

definition w_purging :: "segment \<Rightarrow> purge_env" where
  "w_purging g =
     \<lparr>pe_decompress = rle_decompress, pe_open = (\<lambda>seg. g), pe_sidecar = (\<lambda>seg. None), pe_pricing = \<lparr>exact = [], prefix_rates = []\<rparr>,
      pe_now = 0, pe_handles = (\<lambda>a. a + 1000), pe_segments = (\<lambda>seg. (7, 6)), pe_io = w_io\<rparr>"

definition w_subject :: subject where
  "w_subject = Span_subject [1] [7] []"

lemma w_actions: "subject_action lib w_subject (w_span (Suc 0) n) = Keep" "subject_action lib w_subject w_stored_span = Drop"
  by (simp_all add: subject_action_def w_subject_def w_span_def w_stored_span_def)

lemma w_buffer: "wb_spans (writer w_holding) = [(0, w_span (Suc 0) 5)]"
  by (simp add: w_holding_eq upsert_def wb_default_def Let_def)

lemma w_segments: "segments w_holding = [w_erased]"
  by (simp add: w_holding_eq)

lemma w_purge_ready: "stores_spans w_lib rle_compress rle_decompress g [w_stored_span] \<Longrightarrow> purge_ready w_lib w_subject (w_purging g) w_holding"
  by (auto simp: purge_ready_def w_subject_def validate_subject_def subject_tenant_def reads_numbers_def w_purging_def w_segments
      serves_handle_def w_erased_def sidecar_of_def load_rollup_def)

definition w_cleared :: store where
  "w_cleared = w_holding\<lparr>segments := [], disk := []\<rparr>"

lemma w_purged:
  assumes "stores_spans w_lib rle_compress rle_decompress g [w_stored_span]"
  shows "\<exists>p. purge_subject_locked w_lib w_subject (w_purging g) w_holding = (w_cleared, Some p)"
proof -
  have ready: "serves_handle w_lib (w_purging g) w_erased" using w_purge_ready [OF assms] by (simp add: purge_ready_def w_segments)
  have "trace_spans (pe_reader (w_purging g)) w_lib g [1] = Inr (filter (\<lambda>s. trace_id s = [1]) [w_stored_span])"
    using segment_reads.trace_spans_answers [OF local_segments.segment_reads_axioms, OF assms] by (simp add: w_purging_def)
  then have may: "segment_may_hold_subject w_lib (w_purging g) w_erased w_subject = Inr True"
    by (simp add: segment_may_hold_subject_def w_subject_def w_purging_def w_stored_span_def w_span_def)
  show ?thesis
    by (simp add: purge_subject_locked_def purge_buffer_def w_buffer w_segments w_actions Let_def purge_segment_def may parsed_spans [OF ready])
      (simp add: w_erased_def w_actions w_purging_def w_io_def retire_expired_segment_def w_cleared_def w_holding_eq entry_of_def unlink_file_def Let_def)
qed

theorem a_purge_removes_exactly_its_subject_witness:
  "\<exists>g st' p. stores_spans w_lib rle_compress rle_decompress g [w_stored_span]
    \<and> purge_subject_locked w_lib w_subject (w_purging g) w_holding = (st', Some p)
    \<and> map snd (wb_spans (writer st')) = [w_span 1 5] \<and> stored (segments st') = {#} \<and> pu_removed p = 1"
proof -
  obtain g where g: "stores_spans w_lib rle_compress rle_decompress g [w_stored_span]" using w_span_segment by blast
  obtain p where run: "purge_subject_locked w_lib w_subject (w_purging g) w_holding = (w_cleared, Some p)" using w_purged [OF g] by blast
  have "spared (numbers w_lib) w_subject [w_span (Suc 0) 5] = [w_span (Suc 0) 5]" "after_erasure (numbers w_lib) w_subject w_stored_span = None"
    "acted (numbers w_lib) w_subject Drop [w_span (Suc 0) 5, w_stored_span] = 1"
    by (simp_all add: after_erasure_def w_actions acted_def)
  then have "map snd (wb_spans (writer w_cleared)) = [w_span 1 5] \<and> stored (segments w_cleared) = {#} \<and> pu_removed p = 1"
    using a_purge_removes_exactly_its_subject [OF run w_purge_ready [OF g]]
    by (simp add: w_buffer w_segments w_erased_def spared_stored_def Let_def)
  then show ?thesis using g run by (intro exI [of _ g] exI [of _ w_cleared] exI [of _ p]) simp
qed

section \<open>The whole erasure\<close>

text \<open>\<open>seal_with_permit\<close>, run through: how it ended.\<close>

datatype seal_end = Nothing_to_seal | Seal_failed | Seal_published

record seal_env =
  sv_outcome :: write_outcome
  sv_addr :: nat
  sv_bytes :: u64
  sv_now :: nat
  sv_reclaim :: bool
  sv_log_ok :: bool

definition reconcile_fails :: "seal_env \<Rightarrow> store \<Rightarrow> bool" where
  "reconcile_fails env st \<longleftrightarrow>
     (case sealing st of
        None \<Rightarrow> False
      | Some j \<Rightarrow> (survivors (fst ` set (d_spans j)) (writer st) = [] \<or> sv_reclaim env) \<and> \<not> sv_log_ok env)"

definition seal_with_permit :: "seal_env \<Rightarrow> store \<Rightarrow> store \<times> seal_end" where
  "seal_with_permit env st =
     (case seal_drain st of
        None \<Rightarrow> (st, Nothing_to_seal)
      | Some st \<Rightarrow>
          (case seal_write (sv_outcome env) (sv_addr env) (sv_bytes env) st of
             None \<Rightarrow> (st, Seal_failed)
           | Some st \<Rightarrow>
               (case seal_publish st of
                  None \<Rightarrow> (st, Seal_failed)
                | Some st \<Rightarrow>
                    (case reconcile_after_publish (sv_now env) (sv_reclaim env) (sv_log_ok env) st of
                       None \<Rightarrow> (st, Seal_failed)
                     | Some st' \<Rightarrow> (st', if reconcile_fails env st then Seal_failed else Seal_published)))))"

text \<open>The log once its frames are folded: reset, or rewritten to what the buffer still holds.\<close>

definition roll_log :: "store \<Rightarrow> store" where
  "roll_log st = (let survivors = map snd (wb_spans (writer st)) in if survivors = [] then st\<lparr>log := []\<rparr> else st\<lparr>log := survivors\<rparr>)"

text \<open>\<open>checkpoint_locked\<close> with no admission between the seal and the fold point, so that its loop ends at once. The
  manifest and the pointer are an outcome here: a failure to publish the generation comes before the log is touched.\<close>

definition checkpoint_locked :: "seal_env \<Rightarrow> bool \<Rightarrow> bool \<Rightarrow> store \<Rightarrow> store \<times> bool" where
  "checkpoint_locked env publish_ok log_ok st =
     (case seal_with_permit env st of
        (st, Seal_failed) \<Rightarrow> (st, False)
      | (st, _) \<Rightarrow>
          if \<not> publish_ok \<or> \<not> log_ok then (st, False)
          else (roll_log st, True))"

end
