(* ===== verification/Erase_Steps.thy ===== *)
theory Erase_Steps
  imports Erase_Store Store_Limits
begin

text \<open>
  What runs beside an erasure (\<open>complete_erasure\<close> of \<open>src/src/lib.rs\<close>): everything a store holds, which no step but an
  admission adds to; the steps of the store in between, among them the passes that rewrite segments in place, of expiry and
  of other erasures; and which segment files can still carry something of the subject while they run.
\<close>

section \<open>Everything a store holds\<close>

definition spans_of :: "seg_handle list \<Rightarrow> span set" where
  "spans_of segs = \<Union> (set ` sg_spans ` set segs)"

definition spans_in :: "seg_entry list \<Rightarrow> span set" where
  "spans_in d = \<Union> (set ` entry_spans ` set d)"

definition handled :: "handle list \<Rightarrow> span set" where
  "handled hs = snd ` set hs"

definition held_by_seal :: "seal_job \<Rightarrow> span set" where
  "held_by_seal j = handled (d_spans j) \<union> (case d_phase j of SealWritten s \<Rightarrow> set (sg_spans s) | _ \<Rightarrow> {})"

definition held :: "store \<Rightarrow> span set" where
  "held st =
     handled (wb_spans (writer st)) \<union> spans_of (segments st) \<union> spans_in (disk st) \<union> spans_in (unsynced st)
     \<union> (case sealing st of None \<Rightarrow> {} | Some j \<Rightarrow> held_by_seal j)
     \<union> (case merging st of None \<Rightarrow> {} | Some m \<Rightarrow> spans_of (m_inputs m) \<union> spans_of (m_outputs m))"

lemma spans_of_simps [simp]:
  "spans_of [] = {}" "spans_of (h # hs) = set (sg_spans h) \<union> spans_of hs" "spans_of (as @ bs) = spans_of as \<union> spans_of bs"
  by (simp_all add: spans_of_def)

lemma spans_in_simps [simp]:
  "spans_in [] = {}" "spans_in (e # d) = set (entry_spans e) \<union> spans_in d" "spans_in (d @ d') = spans_in d \<union> spans_in d'"
  by (simp_all add: spans_in_def)

lemma handled_mono: "set as \<subseteq> set bs \<Longrightarrow> handled as \<subseteq> handled bs"
  by (auto simp: handled_def)

lemma set_handles: "set (map snd hs) = handled hs"
  by (simp add: handled_def)

lemma spans_of_mono: "set as \<subseteq> set bs \<Longrightarrow> spans_of as \<subseteq> spans_of bs"
  by (auto simp: spans_of_def)

lemma spans_of_sort [simp]: "spans_of (sort_key f hs) = spans_of hs"
  by (simp add: spans_of_def)

lemma spans_in_mono: "set as \<subseteq> set bs \<Longrightarrow> spans_in as \<subseteq> spans_in bs"
  by (auto simp: spans_in_def)

lemma heldD:
  "handled (wb_spans (writer st)) \<subseteq> held st" "spans_of (segments st) \<subseteq> held st" "spans_in (disk st) \<subseteq> held st"
  "spans_in (unsynced st) \<subseteq> held st"
  "sealing st = Some j \<Longrightarrow> held_by_seal j \<subseteq> held st" "merging st = Some m \<Longrightarrow> spans_of (m_inputs m) \<union> spans_of (m_outputs m) \<subseteq> held st"
  by (auto simp: held_def)

lemma heldI:
  assumes "handled (wb_spans (writer st)) \<subseteq> X" "spans_of (segments st) \<subseteq> X" "spans_in (disk st) \<subseteq> X" "spans_in (unsynced st) \<subseteq> X"
    "\<And>j. sealing st = Some j \<Longrightarrow> held_by_seal j \<subseteq> X" "\<And>m. merging st = Some m \<Longrightarrow> spans_of (m_inputs m) \<union> spans_of (m_outputs m) \<subseteq> X"
  shows "held st \<subseteq> X"
  using assms unfolding held_def by (auto split: option.splits)

lemma puts_held: "handled (wb_spans (puts upsert_call us wb)) \<subseteq> handled (wb_spans wb) \<union> set (map snd us)"
proof (induction us arbitrary: wb)
  case (Cons u us)
  obtain now a s where u: "u = ((now, a), s)" by (metis prod.exhaust)
  have "set (wb_spans (upsert now a s wb)) \<subseteq> insert (a, s) (set (wb_spans wb))"
    by (simp add: upsert_def Let_def set_update_subset_insert subset_insertI split: option.split)
  then have "handled (wb_spans (upsert now a s wb)) \<subseteq> insert s (handled (wb_spans wb))" by (auto simp: handled_def)
  moreover have "puts upsert_call (u # us) wb = puts upsert_call us (upsert now a s wb)" by (simp add: puts_def u upsert_call_def)
  moreover have "set (map snd (u # us)) = insert s (set (map snd us))" by (simp add: u)
  ultimately show ?case using Cons.IH [of "upsert now a s wb"] by (simp only:) blast
qed (simp add: puts_def)

lemma group_subset: "i < length (groups ns xs) \<Longrightarrow> set (groups ns xs ! i) \<subseteq> set xs"
proof (induction ns arbitrary: xs i)
  case (Cons n ns)
  show ?case
  proof (cases i)
    case (Suc k)
    then have "set (groups ns (drop n xs) ! k) \<subseteq> set (drop n xs)" using Cons by simp
    then show ?thesis using Suc set_drop_subset [of n xs] by simp
  qed (simp add: set_take_subset)
qed simp

lemma merge_group_subset: "set (merge_group g) \<subseteq> spans_of g"
proof
  fix s assume "s \<in> set (merge_group g)"
  then have "latest_by key_of (merge_group g) (key_of s) = Some s"
    using merge_group_spec(1) [of g] by (simp add: latest_by_distinct)
  then have "latest_by key_of (concat (map sg_spans g)) (key_of s) = Some s" by (simp add: merge_group_spec(2))
  then show "s \<in> spans_of g" using latest_by_key by (fastforce simp: spans_of_def)
qed

text \<open>No step of the store but a crash makes versions the store did not hold, and the log grows by what is admitted or is
  rewritten from the buffer.\<close>

lemma write_segment_held:
  assumes "write_segment outcome addr len n spans d = (d', sealed)"
  shows "spans_in d' \<subseteq> spans_in d \<union> set spans" "sealed = Some s \<Longrightarrow> sg_spans s = spans"
  using assms by (auto simp: write_segment_def split: if_splits write_outcome.splits)

lemma seal_write_held:
  assumes "seal_write outcome addr len st = Some st'"
  shows "held st' \<subseteq> held st \<and> log st' = log st"
proof -
  obtain j where j: "sealing st = Some j" "d_phase j = SealWriting"
    using assms by (auto simp: seal_write_def split: option.splits if_splits)
  let ?spans = "sort_spans (map snd (d_spans j))"
  obtain d' sealed where w: "write_segment outcome addr len (d_id j) ?spans (disk st) = (d', sealed)" by fastforce
  have st': "st' = (case sealed of None \<Rightarrow> st\<lparr>disk := d', sealing := None\<rparr>
      | Some s \<Rightarrow> st\<lparr>disk := d', sealing := Some (j\<lparr>d_phase := SealWritten s\<rparr>)\<rparr>)"
    using assms j w by (simp add: seal_write_def split: option.splits)
  have drained: "set ?spans \<subseteq> held st" using heldD(5) [OF j(1)] by (simp add: held_by_seal_def handled_def)
  then have "held_by_seal (j\<lparr>d_phase := SealWritten s\<rparr>) \<subseteq> held st" if "sealed = Some s" for s
    using write_segment_held(2) [OF w that] by (simp add: held_by_seal_def handled_def)
  moreover have "spans_in d' \<subseteq> held st" using write_segment_held(1) [OF w] drained heldD(3) [of st] by blast
  ultimately have "held st' \<subseteq> held st"
    using heldD(1,2,4) [of st] heldD(6) [of st] by (intro heldI) (simp_all add: st' split: option.splits)
  then show ?thesis by (simp add: st' split: option.split)
qed

lemma seal_publish_held:
  assumes "seal_publish st = Some st'"
  shows "held st' \<subseteq> held st \<and> log st' = log st"
proof -
  obtain j s where j: "sealing st = Some j" "d_phase j = SealWritten s"
    and st': "st' = st\<lparr>segments := sort_key sg_id (segments st @ [s]), sealing := Some (j\<lparr>d_phase := SealPublished\<rparr>)\<rparr>"
    using assms by (auto simp: seal_publish_def split: option.splits seal_phase.splits)
  have "set (sg_spans s) \<union> handled (d_spans j) \<subseteq> held st" using heldD(5) [OF j(1)] j(2) by (simp add: held_by_seal_def)
  then have "held st' \<subseteq> held st"
    using heldD(1-4) [of st] heldD(6) [of st] by (intro heldI) (auto simp: st' held_by_seal_def)
  then show ?thesis by (simp add: st')
qed

lemma reconcile_held:
  assumes "reconcile_after_publish now reclaim log_ok st = Some st'"
  shows "held st' \<subseteq> held st \<and> set (log st') \<subseteq> set (log st) \<union> held st"
proof -
  obtain j where j: "sealing st = Some j" using assms by (auto simp: reconcile_after_publish_def split: option.splits)
  let ?w = "evict_sealed now (fst ` set (d_spans j)) (writer st)"
  have w: "set (wb_spans ?w) \<subseteq> set (wb_spans (writer st))" by (auto simp: evict_sealed_def reindex_def Let_def)
  have rest: "set (survivors (fst ` set (d_spans j)) (writer st)) \<subseteq> handled (wb_spans (writer st))" by (auto simp: survivors_def handled_def)
  have cases: "writer st' = writer st \<and> log st' = log st \<or>
      wb_spans (writer st') = wb_spans ?w \<and> set (log st') \<subseteq> set (log st) \<union> set (survivors (fst ` set (d_spans j)) (writer st))"
    and same: "segments st' = segments st" "disk st' = disk st" "unsynced st' = unsynced st" "merging st' = merging st" "sealing st' = None"
    using assms j by (auto simp: reconcile_after_publish_def Let_def split: if_splits)
  have "handled (wb_spans (writer st')) \<subseteq> held st" using cases handled_mono [OF w] heldD(1) [of st] by auto
  then have "held st' \<subseteq> held st"
    using heldD(2-4) [of st] heldD(6) [of st] same by (intro heldI) simp_all
  moreover have "set (log st') \<subseteq> set (log st) \<union> held st" using cases rest heldD(1) [of st] by (elim disjE) auto
  ultimately show ?thesis by blast
qed

lemma drain_held:
  assumes "seal_drain st = Some st'"
  shows "held st' \<subseteq> held st \<and> log st' = log st"
proof -
  let ?j = "\<lparr>d_spans = wb_spans (writer st), d_upserts = wb_upserts (writer st), d_id = next_segment st, d_phase = SealWriting\<rparr>"
  have st': "st' = st\<lparr>next_segment := next_segment st + 1, sealing := Some ?j\<rparr>"
    using assms by (simp add: seal_drain_def split: if_splits)
  have "held_by_seal ?j = handled (wb_spans (writer st))" by (simp add: held_by_seal_def)
  then have "held st' \<subseteq> held st" using heldD(1-4) [of st] heldD(6) [of st] by (intro heldI) (simp_all add: st')
  then show ?thesis by (simp add: st')
qed

lemma pin_held:
  assumes "merge_pin settings watermark select journal_write st = Some st'"
  shows "held st' \<subseteq> held st \<and> log st' = log st"
proof -
  have same: "writer st' = writer st" "segments st' = segments st" "disk st' = disk st" "unsynced st' = unsynced st" "sealing st' = None" "log st' = log st"
    and none: "merging st = None"
    and m: "\<And>m. merging st' = Some m \<Longrightarrow> set (m_inputs m) \<subseteq> set (segments st) \<and> m_outputs m = []"
    using assms by (auto simp: merge_pin_def Let_def split: if_splits option.splits write_outcome.splits dest!: subsetD [OF set_drop_subset])
  have "spans_of (m_inputs m) \<union> spans_of (m_outputs m) \<subseteq> held st" if "merging st' = Some m" for m
    using m [OF that] spans_of_mono [of "m_inputs m" "segments st"] heldD(2) [of st] by auto
  then have "held st' \<subseteq> held st" using heldD(1-4) [of st] same by (intro heldI) simp_all
  then show ?thesis using same by simp
qed

text \<open>A merge writes one output per chunk.\<close>

definition merge_shape :: "store \<Rightarrow> bool" where
  "merge_shape st = (case merging st of None \<Rightarrow> True | Some m \<Rightarrow> length (m_outputs m) \<le> length (m_chunks m))"

lemma merge_write_held:
  assumes "merge_write outcome addr len st = Some st'" and "merge_shape st"
  shows "held st' \<subseteq> held st \<and> log st' = log st"
proof -
  obtain m where m: "merging st = Some m" using assms by (auto simp: merge_write_def split: option.splits)
  let ?i = "length (m_outputs m)"
  let ?g = "groups (m_chunks m) (m_inputs m) ! ?i"
  obtain d' sealed where w: "write_segment outcome addr len (m_first m + ?i) (merge_group ?g) (disk st) = (d', sealed)" by fastforce
  have st': "st' = (case sealed of None \<Rightarrow> st\<lparr>disk := d', merging := Some (m\<lparr>m_phase := Aborting 0\<rparr>)\<rparr>
      | Some s \<Rightarrow> st\<lparr>disk := d', merging := Some (m\<lparr>m_outputs := m_outputs m @ [s]\<rparr>)\<rparr>)" and "?i \<noteq> length (m_chunks m)"
    using assms m w by (auto simp: merge_write_def Let_def split: option.splits if_splits)
  then have i: "?i < length (m_chunks m)" using assms(2) m by (simp add: merge_shape_def)
  note M = heldD(6) [OF m]
  have g: "set (merge_group ?g) \<subseteq> held st"
    using merge_group_subset [of ?g] group_subset [of ?i "m_chunks m" "m_inputs m"] spans_of_mono [of ?g "m_inputs m"] M i by auto
  have "spans_in d' \<subseteq> held st" using write_segment_held(1) [OF w] g heldD(3) [of st] by blast
  moreover have "set (sg_spans s) \<subseteq> held st" if "sealed = Some s" for s using write_segment_held(2) [OF w that] g by simp
  ultimately have "held st' \<subseteq> held st"
    using heldD(1,2,4,5) [of st] M by (intro heldI) (auto simp: st' split: option.splits)
  then show ?thesis by (simp add: st' split: option.split)
qed

lemma merge_publish_held:
  assumes "merge_publish st = Some st'"
  shows "held st' \<subseteq> held st \<and> log st' = log st"
proof -
  obtain m where m: "merging st = Some m" using assms by (auto simp: merge_publish_def split: option.splits)
  note M = heldD(6) [OF m]
  have st': "st' = (case run_position (segments st) (m_inputs m) of
      None \<Rightarrow> st\<lparr>merging := Some (m\<lparr>m_phase := Aborting 0\<rparr>)\<rparr>
    | Some start \<Rightarrow>
        st\<lparr>segments := sort_key sg_id (take start (segments st) @ m_outputs m @ drop (start + length (m_inputs m)) (segments st)),
           merging := Some (m\<lparr>m_phase := Deleting 0\<rparr>)\<rparr>)"
    using assms m by (simp add: merge_publish_def split: if_splits option.splits)
  have same: "writer st' = writer st" "disk st' = disk st" "unsynced st' = unsynced st" "sealing st' = sealing st" "log st' = log st"
    and m': "\<And>m'. merging st' = Some m' \<Longrightarrow> m_inputs m' = m_inputs m \<and> m_outputs m' = m_outputs m"
    by (auto simp: st' split: option.splits)
  have segs: "set (segments st') \<subseteq> set (segments st) \<union> set (m_outputs m)"
  proof (cases "run_position (segments st) (m_inputs m)")
    case (Some start)
    then show ?thesis
      using set_take_subset [of start "segments st"] set_drop_subset [of "start + length (m_inputs m)" "segments st"]
      by (simp add: st') blast
  qed (simp add: st')
  have "spans_of (segments st') \<subseteq> held st"
    using spans_of_mono [of "segments st'" "segments st @ m_outputs m"] segs heldD(2) [of st] M by auto
  moreover have "spans_of (m_inputs m') \<union> spans_of (m_outputs m') \<subseteq> held st" if "merging st' = Some m'" for m'
    using m' [OF that] M by simp
  ultimately have "held st' \<subseteq> held st" using heldD(1,3,4,5) [of st] same by (intro heldI) simp_all
  then show ?thesis using same by simp
qed

lemma unlink_step_same [simp]:
  "writer (unlink_step n st) = writer st" "segments (unlink_step n st) = segments st" "sealing (unlink_step n st) = sealing st"
  "log (unlink_step n st) = log st" "merging (unlink_step n st) = merging st"
  by (simp_all add: unlink_step_def)

lemma unlink_step_held:
  "spans_in (disk (unlink_step n st)) \<subseteq> held st" "spans_in (unsynced (unlink_step n st)) \<subseteq> held st"
proof -
  have "spans_in (unlink_file n (disk st)) \<subseteq> spans_in (disk st)" "spans_in (filter (\<lambda>e. fst e = n) (disk st)) \<subseteq> spans_in (disk st)"
    by (rule spans_in_mono; simp add: unlink_file_def)+
  then show "spans_in (disk (unlink_step n st)) \<subseteq> held st" "spans_in (unsynced (unlink_step n st)) \<subseteq> held st"
    using heldD(3,4) [of st] by (auto simp: unlink_step_def)
qed

lemma merge_unlink_held:
  assumes "merge_unlink unlinked st = Some st'"
  shows "held st' \<subseteq> held st \<and> log st' = log st"
proof -
  obtain m where m: "merging st = Some m" using assms by (auto simp: merge_unlink_def split: option.splits)
  have same: "writer st' = writer st" "segments st' = segments st" "sealing st' = sealing st" "log st' = log st"
    and m': "\<And>m'. merging st' = Some m' \<Longrightarrow> m_inputs m' = m_inputs m \<and> m_outputs m' = m_outputs m"
    and files: "disk st' = disk st \<and> unsynced st' = unsynced st
      \<or> (\<exists>n. disk st' = disk (unlink_step n st) \<and> unsynced st' = unsynced (unlink_step n st))"
    using assms m by (auto simp: merge_unlink_def split: if_splits merge_phase.splits)
  from files have "spans_in (disk st') \<subseteq> held st \<and> spans_in (unsynced st') \<subseteq> held st"
    using unlink_step_held [of _ st] heldD(3,4) [of st] by (elim disjE exE) simp_all
  moreover have "spans_of (m_inputs m') \<union> spans_of (m_outputs m') \<subseteq> held st" if "merging st' = Some m'" for m'
    using m' [OF that] heldD(6) [OF m] by simp
  ultimately have "held st' \<subseteq> held st" using same heldD(1,2,5) [of st] by (intro heldI) simp_all
  then show ?thesis using same by simp
qed

lemma merge_finish_held:
  assumes "merge_finish remove_ok st = Some st'"
  shows "held st' \<subseteq> held st \<and> log st' = log st"
proof -
  have same: "writer st' = writer st" "segments st' = segments st" "disk st' = disk st" "unsynced st' = []" "sealing st' = sealing st"
    "merging st' = None" "log st' = log st"
    using assms by (auto simp: merge_finish_def split: option.splits if_splits)
  then have "held st' \<subseteq> held st" using heldD(1,2,3,5) [of st] by (intro heldI) simp_all
  then show ?thesis using same by simp
qed

lemma admit_held: "length addrs = length spans \<Longrightarrow> held (admit now addrs spans st) \<subseteq> held st \<union> set spans"
proof -
  assume len: "length addrs = length spans"
  have "set (map snd (zip (map (Pair now) addrs) spans)) \<subseteq> set spans" using len by simp
  then have "handled (wb_spans (writer (admit now addrs spans st))) \<subseteq> held st \<union> set spans"
    using puts_held [of "zip (map (Pair now) addrs) spans" "writer st"] heldD(1) [of st] by (simp add: admit_def) blast
  then show ?thesis using heldD(2-4) [of st] heldD(5) [of st] heldD(6) [of st]
    by (intro heldI) (auto simp: admit_def)
qed

section \<open>The steps around an erasure\<close>

text \<open>What the store does meanwhile. The argument after the store: the spans admitted. Writes of segments may fail on either
  side of the rename, as may journals and their removal and the log; but a seal that fails behind its rename carries nothing
  of the subject, and files are unlinked. The log is also rolled by the checkpoints of others. Live allocations
  have distinct addresses.\<close>

definition strands :: "number_lib \<Rightarrow> subject \<Rightarrow> write_outcome \<Rightarrow> store \<Rightarrow> bool" where
  "strands lib subject outcome st \<longleftrightarrow>
     outcome = LeftBehind \<and> (\<exists>j. sealing st = Some j \<and> \<not> list_all (untouched lib subject) (map snd (d_spans j)))"

inductive live_step :: "number_lib \<Rightarrow> subject \<Rightarrow> store \<Rightarrow> span list \<Rightarrow> store \<Rightarrow> bool" for lib subject where
  live_admit: "length addrs = length spans \<Longrightarrow> live_step lib subject st spans (admit now addrs spans st)"
| live_drain: "seal_drain st = Some st' \<Longrightarrow> live_step lib subject st [] st'"
| live_seal_write: "\<not> strands lib subject outcome st \<Longrightarrow> seal_write outcome addr len st = Some st' \<Longrightarrow> live_step lib subject st [] st'"
| live_seal_publish: "seal_publish st = Some st' \<Longrightarrow> live_step lib subject st [] st'"
| live_reconcile: "reconcile_after_publish now reclaim log_ok st = Some st' \<Longrightarrow> live_step lib subject st [] st'"
| live_roll_log: "sealing st = None \<Longrightarrow> live_step lib subject st [] (roll_log st)"
| live_pin: "merge_pin settings watermark select journal_write st = Some st' \<Longrightarrow> live_step lib subject st [] st'"
| live_merge_write: "merge_write outcome addr len st = Some st' \<Longrightarrow> live_step lib subject st [] st'"
| live_merge_publish: "distinct (map sg_addr (segments st)) \<Longrightarrow> merge_publish st = Some st' \<Longrightarrow> live_step lib subject st [] st'"
| live_merge_unlink: "merge_unlink True st = Some st' \<Longrightarrow> live_step lib subject st [] st'"
| live_merge_finish: "merge_finish remove_ok st = Some st' \<Longrightarrow> live_step lib subject st [] st'"

lemma roll_log_held: "held (roll_log st) = held st \<and> set (log (roll_log st)) \<subseteq> held st"
  by (auto simp: roll_log_def Let_def held_def handled_def)

lemma live_step_held: "live_step lib subject st spans st' \<Longrightarrow> merge_shape st \<Longrightarrow> held st' \<subseteq> held st \<union> set spans"
  by (induction rule: live_step.induct)
    (auto dest: drain_held seal_write_held seal_publish_held reconcile_held pin_held merge_write_held merge_publish_held merge_unlink_held
        merge_finish_held subsetD [OF admit_held] simp: roll_log_held)

lemma live_step_log: "live_step lib subject st spans st' \<Longrightarrow> merge_shape st \<Longrightarrow> set (log st') \<subseteq> set (log st) \<union> held st \<union> set spans"
  by (induction rule: live_step.induct)
    (auto dest: drain_held seal_write_held seal_publish_held reconcile_held pin_held merge_write_held merge_publish_held merge_unlink_held
        merge_finish_held roll_log_held [THEN conjunct2, THEN subsetD] simp: admit_def)

lemma seal_merging:
  "seal_drain st = Some st' \<Longrightarrow> merging st' = merging st"
  "seal_write outcome addr len st = Some st' \<Longrightarrow> merging st' = merging st"
  "seal_publish st = Some st' \<Longrightarrow> merging st' = merging st"
  "reconcile_after_publish now reclaim log_ok st = Some st' \<Longrightarrow> merging st' = merging st"
  by (auto simp: seal_drain_def seal_write_def seal_publish_def reconcile_after_publish_def Let_def
      split: if_splits option.splits seal_phase.splits prod.splits)

lemma live_step_shape: "live_step lib subject st spans st' \<Longrightarrow> merge_shape st \<Longrightarrow> merge_shape st'"
proof (induction rule: live_step.induct)
  case (live_merge_write outcome addr len st st')
  then show ?case
    by (auto simp: merge_shape_def merge_write_def Let_def split: option.splits if_splits prod.splits)
next
  case (live_pin settings watermark select journal_write st st')
  then show ?case
    by (auto simp: merge_shape_def merge_pin_def Let_def split: option.splits if_splits write_outcome.splits)
next
  case (live_merge_publish st st')
  then show ?case by (auto simp: merge_shape_def merge_publish_def split: option.splits if_splits)
next
  case (live_merge_unlink st st')
  then show ?case by (auto simp: merge_shape_def merge_unlink_def split: option.splits if_splits merge_phase.splits)
next
  case (live_merge_finish remove_ok st st')
  then show ?case by (auto simp: merge_shape_def merge_finish_def split: option.splits if_splits)
qed (simp_all add: merge_shape_def admit_def seal_merging roll_log_def Let_def)

text \<open>A crash keeps files and log; what it opens holds nothing else.\<close>

lemma fold_subset: "(\<And>x d. set (f x d) \<subseteq> set d) \<Longrightarrow> set (fold f xs d) \<subseteq> set d"
proof (induction xs arbitrary: d)
  case (Cons x xs)
  then have "set (fold f xs (f x d)) \<subseteq> set (f x d)" by blast
  then show ?case using Cons.prems [of x d] by simp
qed simp

lemma map_enumerate_snd: "map (\<lambda>x. f (snd x)) (enumerate n xs) = map f xs"
  by (induction xs arbitrary: n) simp_all

lemma crash_held:
  assumes "set restored \<subseteq> set (unsynced st)"
  shows "held (crash_and_open now restored st) \<union> set (log (crash_and_open now restored st)) \<subseteq> held st \<union> set (log st)"
    "merge_shape (crash_and_open now restored st)"
proof -
  let ?d = "recover_supersede_markers (journals st) (disk st @ restored)"
  have step: "set (recover_merge j d) \<subseteq> set d" for j d
  proof -
    have "set (fold unlink_file ns d) \<subseteq> set d" for ns by (rule fold_subset) (auto simp: unlink_file_def)
    then show ?thesis by (simp add: recover_merge_def Let_def)
  qed
  have "set (fold recover_merge js d) \<subseteq> set d" for js d by (rule fold_subset) (rule step)
  then have "set ?d \<subseteq> set (disk st @ restored)" unfolding recover_supersede_markers_def .
  then have "set ?d \<subseteq> set (disk st @ unsynced st)" using assms by auto
  then have files: "spans_in ?d \<subseteq> held st" using spans_in_mono [of ?d "disk st @ unsynced st"] heldD(3,4) [of st] by auto
  have "map sg_spans (load_segments ?d) = map entry_spans (sort_key fst ?d)"
    by (simp add: load_segments_def comp_def case_prod_beta map_enumerate_snd [of entry_spans])
  from arg_cong [OF this, of set] have "sg_spans ` set (load_segments ?d) = entry_spans ` set ?d" by (simp only: set_map set_sort)
  then have segs: "spans_of (load_segments ?d) \<subseteq> spans_in ?d" by (simp add: spans_of_def spans_in_def)
  have "handled (wb_spans (puts upsert_call (map (\<lambda>(a, s). ((now, a), s)) (enumerate 0 (log st))) wb_default)) \<subseteq> set (log st)"
    using puts_held [of "map (\<lambda>(a, s). ((now, a), s)) (enumerate 0 (log st))" wb_default]
    by (simp add: wb_default_def handled_def comp_def case_prod_beta)
  then show "held (crash_and_open now restored st) \<union> set (log (crash_and_open now restored st)) \<subseteq> held st \<union> set (log st)"
    using files segs unfolding held_def [of "crash_and_open now restored st"]
    by (auto simp: crash_and_open_def open_store_def Let_def)
  show "merge_shape (crash_and_open now restored st)" by (simp add: merge_shape_def crash_and_open_def open_store_def Let_def)
qed

section \<open>The files of the subject\<close>

text \<open>A segment that carries something of the subject under the number; and the files a merge in flight has still to
  remove: its inputs once the outputs are live, else its outputs.\<close>

definition suspect :: "number_lib \<Rightarrow> subject \<Rightarrow> seg_handle list \<Rightarrow> nat \<Rightarrow> bool" where
  "suspect lib subject segs n \<longleftrightarrow> (\<exists>s \<in> set segs. sg_id s = n \<and> \<not> clean_handle lib subject s)"

definition doomed_files :: "store \<Rightarrow> nat set" where
  "doomed_files st =
     (case merging st of
        None \<Rightarrow> {}
      | Some m \<Rightarrow>
          (case m_phase m of
             Merging \<Rightarrow> {}
           | Deleting n \<Rightarrow> sg_id ` set (drop n (m_inputs m))
           | Aborting n \<Rightarrow> {m_first m + n ..< m_first m + length (m_chunks m)}))"

text \<open>Every file that carries something of the subject has the number of a segment that does as well, live or about to be
  published, or is about to be removed.\<close>

definition guarded :: "number_lib \<Rightarrow> subject \<Rightarrow> store \<Rightarrow> bool" where
  "guarded lib subject st \<longleftrightarrow>
     (\<forall>e \<in> set (disk st). clean_entry lib subject e \<or> suspect lib subject (handles st) (fst e) \<or> fst e \<in> doomed_files st)"

definition merge_ok :: "store \<Rightarrow> bool" where
  "merge_ok st \<longleftrightarrow>
     (case merging st of
        None \<Rightarrow> unsynced st = []
      | Some m \<Rightarrow>
          length (m_outputs m) \<le> length (m_chunks m) \<and> sg_id ` set (m_outputs m) \<subseteq> {m_first m ..< m_first m + length (m_chunks m)}
          \<and> (m_phase m = Merging \<longrightarrow> set (m_inputs m) \<subseteq> set (segments st)))"

definition accounted :: "number_lib \<Rightarrow> subject \<Rightarrow> store \<Rightarrow> bool" where
  "accounted lib subject st \<longleftrightarrow> merge_ok st \<and> guarded lib subject st"

lemma suspect_mono: "suspect lib subject as n \<Longrightarrow> set as \<subseteq> set bs \<Longrightarrow> suspect lib subject bs n"
  by (auto simp: suspect_def)

lemma suspect_append [simp]: "suspect lib subject (as @ bs) n \<longleftrightarrow> suspect lib subject as n \<or> suspect lib subject bs n"
  by (auto simp: suspect_def)

lemma suspect_Nil [simp]: "\<not> suspect lib subject [] n"
  by (simp add: suspect_def)

lemma suspect_Cons [simp]: "suspect lib subject (s # segs) n \<longleftrightarrow> sg_id s = n \<and> \<not> clean_handle lib subject s \<or> suspect lib subject segs n"
  by (auto simp: suspect_def)

lemma suspect_sort [simp]: "suspect lib subject (sort_key f segs) n = suspect lib subject segs n"
  by (simp add: suspect_def)

lemma merge_ok_shape: "merge_ok st \<Longrightarrow> merge_shape st"
  by (auto simp: merge_ok_def merge_shape_def split: option.splits)

text \<open>A step that keeps the files, the merge and the segments leaves everything accounted for.\<close>

lemma accounted_same:
  assumes "accounted lib subject st" and "disk st' = disk st" "merging st' = merging st" "unsynced st' = unsynced st"
    and "set (handles st) \<subseteq> set (handles st')" "set (segments st) \<subseteq> set (segments st')"
  shows "accounted lib subject st'"
proof -
  have "merge_ok st'" using assms by (auto simp: accounted_def merge_ok_def split: option.splits)
  moreover have "guarded lib subject st'"
    using assms(1,2) suspect_mono [OF _ assms(5)] by (auto simp: accounted_def guarded_def doomed_files_def assms(3))
  ultimately show ?thesis by (simp add: accounted_def)
qed

lemma accounted_clean:
  assumes "merge_ok st'" and "\<And>e. e \<in> set (disk st') \<Longrightarrow> clean_entry lib subject e"
  shows "accounted lib subject st'"
  using assms by (simp add: accounted_def guarded_def)

lemma seal_write_accounted:
  assumes acc: "accounted lib subject st" and safe: "\<not> strands lib subject outcome st" and run: "seal_write outcome addr len st = Some st'"
  shows "accounted lib subject st'"
proof -
  obtain j where j: "sealing st = Some j" "d_phase j = SealWriting"
    using run by (auto simp: seal_write_def split: option.splits if_splits)
  let ?spans = "sort_spans (map snd (d_spans j))"
  obtain d' sealed where w: "write_segment outcome addr len (d_id j) ?spans (disk st) = (d', sealed)" by fastforce
  have st': "st' = (case sealed of None \<Rightarrow> st\<lparr>disk := d', sealing := None\<rparr>
      | Some s \<Rightarrow> st\<lparr>disk := d', sealing := Some (j\<lparr>d_phase := SealWritten s\<rparr>)\<rparr>)"
    using run j w by (simp add: seal_write_def split: option.splits)
  have none: "sealed_handle st = []" by (simp add: sealed_handle_def j)
  have same: "segments st' = segments st" "merging st' = merging st" "unsynced st' = unsynced st" "disk st' = d'"
    "merged_handles st' = merged_handles st" "doomed_files st' = doomed_files st"
    by (simp_all add: st' merged_handles_def doomed_files_def split: option.split)
  have "clean_entry lib subject e \<or> suspect lib subject (handles st') (fst e)" if "e \<in> set d'" "e \<notin> set (disk st)" for e
  proof -
    have "outcome = LeftBehind \<and> e = (d_id j, len, ?spans)
        \<or> e = (d_id j, len, ?spans) \<and> sealed = Some \<lparr>sg_addr = addr, sg_id = d_id j, sg_bytes = len, sg_spans = ?spans\<rparr>"
      using w that by (auto simp: write_segment_def split: if_splits write_outcome.splits)
    then consider "outcome = LeftBehind" "e = (d_id j, len, ?spans)"
      | "e = (d_id j, len, ?spans)" "sealed = Some \<lparr>sg_addr = addr, sg_id = d_id j, sg_bytes = len, sg_spans = ?spans\<rparr>"
      by blast
    then show ?thesis
    proof cases
      case 1
      then have "list_all (untouched lib subject) (map snd (d_spans j))" using safe j by (auto simp: strands_def)
      then show ?thesis using 1(2) by (simp add: clean_entry_def sort_spans_def list_all_iff)
    next
      case 2
      then have "sealed_handle st' = [\<lparr>sg_addr = addr, sg_id = d_id j, sg_bytes = len, sg_spans = ?spans\<rparr>]" by (simp add: st' sealed_handle_def)
      then show ?thesis using 2(1) by (simp add: handles_def suspect_def clean_entry_def clean_handle_def)
    qed
  qed
  moreover have "set (handles st) \<subseteq> set (handles st')" using same none by (auto simp: handles_def)
  ultimately have "guarded lib subject st'"
    using acc suspect_mono [of lib subject "handles st" _ "handles st'"] unfolding accounted_def guarded_def same(4,6) by blast
  moreover have "merge_ok st'" using acc by (simp add: accounted_def merge_ok_def same split: option.splits)
  ultimately show ?thesis by (simp add: accounted_def)
qed

lemma merge_write_accounted:
  assumes acc: "accounted lib subject st" and run: "merge_write outcome addr len st = Some st'"
  shows "accounted lib subject st'"
proof -
  obtain m where m: "merging st = Some m" "m_phase m = Merging" using run by (auto simp: merge_write_def Let_def split: option.splits if_splits)
  let ?i = "length (m_outputs m)"
  let ?spans = "merge_group (groups (m_chunks m) (m_inputs m) ! ?i)"
  obtain d' sealed where w: "write_segment outcome addr len (m_first m + ?i) ?spans (disk st) = (d', sealed)" by fastforce
  have st': "st' = (case sealed of None \<Rightarrow> st\<lparr>disk := d', merging := Some (m\<lparr>m_phase := Aborting 0\<rparr>)\<rparr>
      | Some s \<Rightarrow> st\<lparr>disk := d', merging := Some (m\<lparr>m_outputs := m_outputs m @ [s]\<rparr>)\<rparr>)" and ne: "?i \<noteq> length (m_chunks m)"
    using run m w by (auto simp: merge_write_def Let_def split: option.splits if_splits)
  have M: "?i \<le> length (m_chunks m)" "sg_id ` set (m_outputs m) \<subseteq> {m_first m ..< m_first m + length (m_chunks m)}" "set (m_inputs m) \<subseteq> set (segments st)"
    and G: "\<And>e. e \<in> set (disk st) \<Longrightarrow> clean_entry lib subject e \<or> suspect lib subject (segments st @ sealed_handle st @ m_outputs m) (fst e)"
    using acc m by (auto simp: accounted_def merge_ok_def guarded_def handles_def merged_handles_def doomed_files_def)
  have old: "e \<in> set (disk st) \<or> fst e = m_first m + ?i" if "e \<in> set d'" for e
    using w that by (auto simp: write_segment_def split: if_splits write_outcome.splits)
  show ?thesis
  proof (cases sealed)
    case None
    have "guarded lib subject st'"
      using G old M(1,2) ne
      by (fastforce simp: guarded_def st' None handles_def merged_handles_def doomed_files_def sealed_handle_def suspect_def)
    then show ?thesis using M by (simp add: accounted_def merge_ok_def st' None)
  next
    case (Some s)
    have s: "s = \<lparr>sg_addr = addr, sg_id = m_first m + ?i, sg_bytes = len, sg_spans = ?spans\<rparr>" "d' = (m_first m + ?i, len, ?spans) # disk st"
      using w Some by (auto simp: write_segment_def split: if_splits write_outcome.splits)
    have "clean_entry lib subject (m_first m + ?i, len, ?spans) \<or> suspect lib subject [s] (m_first m + ?i)"
      by (simp add: suspect_def s clean_entry_def clean_handle_def)
    then have "guarded lib subject st'"
      using G by (auto simp: guarded_def st' Some handles_def merged_handles_def sealed_handle_def s(2) m(2))
    then show ?thesis using M ne by (simp add: accounted_def merge_ok_def st' Some s(1))
  qed
qed

text \<open>The handles at the place a run is found are those of the run, when addresses tell handles apart.\<close>

lemma run_position_ids:
  assumes "run_position segs run = Some start" and "distinct (map sg_addr segs)" and "set run \<subseteq> set segs"
  shows "set (take (length run) (drop start segs)) \<subseteq> set run"
proof
  fix s assume s: "s \<in> set (take (length run) (drop start segs))"
  have "list_all2 (\<lambda>a b. sg_addr a = sg_addr b) (take (length run) (drop start segs)) run"
    using assms(1) by (auto simp: run_position_def find_Some_iff split: if_splits)
  moreover obtain i where "i < length (take (length run) (drop start segs))" "s = take (length run) (drop start segs) ! i"
    using s by (auto simp: in_set_conv_nth)
  ultimately have "sg_addr s = sg_addr (run ! i)" "i < length run" by (auto simp: list_all2_conv_all_nth)
  then obtain r where "r \<in> set run" "sg_addr s = sg_addr r" using nth_mem by blast
  moreover have "s \<in> set segs" using s by (blast dest: in_set_takeD in_set_dropD)
  ultimately show "s \<in> set run" using assms(2,3) by (auto simp: distinct_map inj_on_def)
qed

lemma merge_publish_accounted:
  assumes acc: "accounted lib subject st" and dis: "distinct (map sg_addr (segments st))" and run: "merge_publish st = Some st'"
  shows "accounted lib subject st'"
proof -
  obtain m where m: "merging st = Some m" "m_phase m = Merging"
    and st': "st' = (case run_position (segments st) (m_inputs m) of
      None \<Rightarrow> st\<lparr>merging := Some (m\<lparr>m_phase := Aborting 0\<rparr>)\<rparr>
    | Some start \<Rightarrow>
        st\<lparr>segments := sort_key sg_id (take start (segments st) @ m_outputs m @ drop (start + length (m_inputs m)) (segments st)),
           merging := Some (m\<lparr>m_phase := Deleting 0\<rparr>)\<rparr>)"
    using run by (auto simp: merge_publish_def split: option.splits if_splits)
  have M: "length (m_outputs m) \<le> length (m_chunks m)" "sg_id ` set (m_outputs m) \<subseteq> {m_first m ..< m_first m + length (m_chunks m)}"
      "set (m_inputs m) \<subseteq> set (segments st)"
    and G: "\<And>e. e \<in> set (disk st) \<Longrightarrow> clean_entry lib subject e \<or> suspect lib subject (segments st @ sealed_handle st @ m_outputs m) (fst e)"
    using acc m by (auto simp: accounted_def merge_ok_def guarded_def handles_def merged_handles_def doomed_files_def)
  show ?thesis
  proof (cases "run_position (segments st) (m_inputs m)")
    case None
    have "guarded lib subject st'"
      using G M(2) by (fastforce simp: guarded_def st' None handles_def merged_handles_def doomed_files_def sealed_handle_def suspect_def)
    then show ?thesis using M by (simp add: accounted_def merge_ok_def st' None)
  next
    case (Some start)
    let ?run = "take (length (m_inputs m)) (drop start (segments st))"
    let ?rest = "take start (segments st) @ drop (start + length (m_inputs m)) (segments st)"
    have "segments st = take start (segments st) @ ?run @ drop (start + length (m_inputs m)) (segments st)"
      by (metis append_take_drop_id drop_drop add.commute)
    then have "set (segments st) \<subseteq> set ?rest \<union> set ?run" by (metis Un_commute Un_left_commute set_append subset_refl)
    then have "suspect lib subject ?rest n \<or> n \<in> sg_id ` set (m_inputs m)" if "suspect lib subject (segments st) n" for n
      using that run_position_ids [OF Some dis M(3)] by (fastforce simp: suspect_def)
    then have "guarded lib subject st'"
      using G by (auto simp: guarded_def st' Some handles_def merged_handles_def doomed_files_def sealed_handle_def)
    then show ?thesis using M by (simp add: accounted_def merge_ok_def st' Some)
  qed
qed

lemma merge_unlink_accounted:
  assumes acc: "accounted lib subject st" and run: "merge_unlink True st = Some st'"
  shows "accounted lib subject st'"
proof -
  obtain m where m: "merging st = Some m" using run by (auto simp: merge_unlink_def split: option.splits)
  have M: "length (m_outputs m) \<le> length (m_chunks m)" "sg_id ` set (m_outputs m) \<subseteq> {m_first m ..< m_first m + length (m_chunks m)}"
    using acc m by (auto simp: accounted_def merge_ok_def)
  show ?thesis
  proof (cases "m_phase m")
    case (Deleting n)
    let ?id = "sg_id (m_inputs m ! n)"
    have n: "n < length (m_inputs m) \<or> drop n (m_inputs m) = []" "n \<noteq> length (m_inputs m)"
      and st': "st' = (unlink_step ?id st)\<lparr>merging := Some (m\<lparr>m_phase := Deleting (n + 1)\<rparr>)\<rparr>"
      using run m Deleting by (auto simp: merge_unlink_def split: if_splits)
    have sub: "sg_id ` set (drop n (m_inputs m)) \<subseteq> insert ?id (sg_id ` set (drop (Suc n) (m_inputs m)))"
      using n(1) Cons_nth_drop_Suc [of n "m_inputs m"] by (cases "n < length (m_inputs m)") (metis image_insert list.simps(15) subset_refl, simp)
    have same: "handles st' = handles st" "doomed_files st' = sg_id ` set (drop (Suc n) (m_inputs m))"
      "doomed_files st = sg_id ` set (drop n (m_inputs m))"
      by (simp_all add: st' handles_def sealed_handle_def merged_handles_def m Deleting unlink_step_def doomed_files_def)
    have "guarded lib subject st'"
      unfolding guarded_def same
    proof
      fix e assume "e \<in> set (disk st')"
      then have "e \<in> set (disk st)" "fst e \<noteq> ?id" by (simp_all add: st' unlink_step_def unlink_file_def)
      moreover have "clean_entry lib subject e \<or> suspect lib subject (handles st) (fst e) \<or> fst e \<in> doomed_files st"
        using acc \<open>e \<in> set (disk st)\<close> by (simp add: accounted_def guarded_def)
      ultimately show "clean_entry lib subject e \<or> suspect lib subject (handles st) (fst e) \<or> fst e \<in> sg_id ` set (drop (Suc n) (m_inputs m))"
        using sub unfolding same(3) by blast
    qed
    then show ?thesis using M by (simp add: accounted_def merge_ok_def st')
  next
    case (Aborting n)
    have st': "st' = (unlink_step (m_first m + n) st)\<lparr>merging := Some (m\<lparr>m_phase := Aborting (n + 1)\<rparr>)\<rparr>"
      using run m Aborting by (auto simp: merge_unlink_def split: if_splits)
    have "guarded lib subject st'"
      using acc m Aborting
      by (fastforce simp: accounted_def guarded_def st' unlink_step_def unlink_file_def handles_def merged_handles_def doomed_files_def sealed_handle_def)
    then show ?thesis using M by (simp add: accounted_def merge_ok_def st')
  qed (use run m in \<open>simp add: merge_unlink_def\<close>)
qed

lemma merge_finish_accounted:
  assumes acc: "accounted lib subject st" and run: "merge_finish remove_ok st = Some st'"
  shows "accounted lib subject st'"
proof -
  obtain m where m: "merging st = Some m" "m_phase m = Deleting (length (m_inputs m)) \<or> m_phase m = Aborting (length (m_chunks m))"
    and same: "segments st' = segments st" "disk st' = disk st" "unsynced st' = []" "sealing st' = sealing st" "merging st' = None"
    using run by (auto simp: merge_finish_def split: option.splits if_splits)
  have "handles st = handles st'" "doomed_files st = {}" "doomed_files st' = {}"
    using m by (auto simp: handles_def merged_handles_def sealed_handle_def same doomed_files_def)
  then show ?thesis using acc by (simp add: accounted_def guarded_def merge_ok_def same)
qed

lemma pin_accounted:
  assumes acc: "accounted lib subject st" and run: "merge_pin settings watermark select journal_write st = Some st'"
  shows "accounted lib subject st'"
proof -
  have none: "merging st = None" "sealing st = None"
    and same: "segments st' = segments st" "disk st' = disk st" "unsynced st' = unsynced st" "sealing st' = sealing st"
    and m: "\<And>m. merging st' = Some m \<Longrightarrow> set (m_inputs m) \<subseteq> set (segments st) \<and> m_outputs m = [] \<and> m_phase m = Merging"
    using run by (auto simp: merge_pin_def Let_def split: if_splits option.splits write_outcome.splits dest!: subsetD [OF set_drop_subset])
  have "handles st' = handles st" "doomed_files st' = {}"
    using m none by (auto simp: handles_def merged_handles_def sealed_handle_def same doomed_files_def split: option.split)
  then have "guarded lib subject st'" using acc none by (simp add: accounted_def guarded_def same doomed_files_def)
  moreover have "merge_ok st'" using acc m none by (auto simp: accounted_def merge_ok_def same split: option.split)
  ultimately show ?thesis by (simp add: accounted_def)
qed

lemma live_step_accounted: "live_step lib subject st spans st' \<Longrightarrow> accounted lib subject st \<Longrightarrow> accounted lib subject st'"
proof (induction rule: live_step.induct)
  case (live_admit addrs spans st now)
  then show ?case by (intro accounted_same [OF live_admit.prems]) (simp_all add: admit_def handles_def sealed_handle_def merged_handles_def)
next
  case (live_drain st st')
  then have "sealing st = None" "st' = st\<lparr>next_segment := next_segment st', sealing := sealing st'\<rparr>"
    by (auto simp: seal_drain_def split: if_splits)
  then show ?case using live_drain
    by (intro accounted_same [OF live_drain.prems]) (auto simp: seal_drain_def handles_def sealed_handle_def merged_handles_def split: if_splits)
next
  case (live_seal_publish st st')
  then obtain j s where "sealing st = Some j" "d_phase j = SealWritten s"
    "st' = st\<lparr>segments := sort_key sg_id (segments st @ [s]), sealing := Some (j\<lparr>d_phase := SealPublished\<rparr>)\<rparr>"
    by (auto simp: seal_publish_def split: option.splits seal_phase.splits)
  then show ?case using live_seal_publish
    by (intro accounted_same [OF live_seal_publish.prems]) (auto simp: handles_def sealed_handle_def merged_handles_def)
next
  case (live_reconcile now reclaim log_ok st st')
  then obtain j where "sealing st = Some j" "d_phase j = SealPublished" "disk st' = disk st" "merging st' = merging st" "unsynced st' = unsynced st"
      "segments st' = segments st" "sealing st' = None"
    by (auto simp: reconcile_after_publish_def Let_def split: option.splits if_splits)
  then show ?case using live_reconcile by (intro accounted_same [OF live_reconcile.prems]) (auto simp: handles_def sealed_handle_def merged_handles_def)
next
  case (live_roll_log st)
  then show ?case by (intro accounted_same [OF live_roll_log.prems]) (simp_all add: roll_log_def Let_def handles_def sealed_handle_def merged_handles_def)
qed (blast intro: seal_write_accounted merge_write_accounted merge_publish_accounted merge_unlink_accounted merge_finish_accounted pin_accounted)+

text \<open>Everything a crash leaves is opened.\<close>

lemma opened_accounted: "accounted lib subject (open_store now d js l)"
proof -
  let ?st = "open_store now d js l" and ?d = "recover_supersede_markers js d"
  have "suspect lib subject (load_segments ?d) (fst e)" if "e \<in> set ?d" "\<not> clean_entry lib subject e" for e
  proof -
    have "(fst e, entry_spans e) \<in> set (map (\<lambda>e. (fst e, entry_spans e)) (sort_key fst ?d))" using that(1) by simp
    also have "map (\<lambda>e. (fst e, entry_spans e)) (sort_key fst ?d) = map (\<lambda>s. (sg_id s, sg_spans s)) (load_segments ?d)"
      by (simp add: load_segments_def comp_def case_prod_beta map_enumerate_snd [of "\<lambda>e. (fst e, entry_spans e)"])
    finally show ?thesis using that(2) by (force simp: suspect_def clean_entry_def clean_handle_def)
  qed
  moreover have "disk ?st = ?d" "handles ?st = load_segments ?d" "merging ?st = None" "unsynced ?st = []"
    by (simp_all add: open_store_def Let_def handles_def sealed_handle_def merged_handles_def)
  ultimately show ?thesis unfolding accounted_def merge_ok_def guarded_def by auto
qed

section \<open>Passes that rewrite segments in place\<close>

text \<open>What such a pass leaves of a set of spans, when \<open>f\<close> is what it leaves of one.\<close>

definition image_under :: "(span \<Rightarrow> span option) \<Rightarrow> span set \<Rightarrow> span set" where
  "image_under f X = {s'. \<exists>s \<in> X. f s = Some s'}"

lemma image_under_Un [simp]: "image_under f (X \<union> Y) = image_under f X \<union> image_under f Y"
  by (auto simp: image_under_def)

lemma image_under_mono: "X \<subseteq> Y \<Longrightarrow> image_under f X \<subseteq> image_under f Y"
  by (auto simp: image_under_def)

text \<open>The loop over the pinned segments, of which the first ones are behind it: each is kept, retired, rewritten with its file,
  or has its file rewritten and the pass fails there. It may end anywhere.\<close>

inductive walked :: "(span \<Rightarrow> span option) \<Rightarrow> seg_handle list \<Rightarrow> seg_handle list \<Rightarrow> store \<Rightarrow> store \<Rightarrow> bool" for f where
  stops: "walked f front segs st st"
| keeps_one: "walked f (front @ [seg]) segs st st' \<Longrightarrow> walked f front (seg # segs) st st'"
| retires_one: "walked f front segs (st\<lparr>disk := unlink_file (sg_id seg) (disk st), segments := front @ segs\<rparr>) st'
    \<Longrightarrow> walked f front (seg # segs) st st'"
| rewrites_one: "sg_id new = sg_id seg \<Longrightarrow> set (sg_spans new) \<subseteq> image_under f (set (sg_spans seg))
    \<Longrightarrow> walked f (front @ [new]) segs (st\<lparr>disk := replace_file (entry_of new) (disk st), segments := front @ new # segs\<rparr>) st'
    \<Longrightarrow> walked f front (seg # segs) st st'"
| leaves_one: "sg_id new = sg_id seg \<Longrightarrow> set (sg_spans new) \<subseteq> image_under f (set (sg_spans seg))
    \<Longrightarrow> walked f front (seg # segs) st (st\<lparr>disk := replace_file (entry_of new) (disk st)\<rparr>)"

text \<open>What leaves nothing new of the subject.\<close>

definition spares :: "number_lib \<Rightarrow> subject \<Rightarrow> (span \<Rightarrow> span option) \<Rightarrow> bool" where
  "spares lib subject f \<longleftrightarrow> (\<forall>s s'. untouched lib subject s \<longrightarrow> f s = Some s' \<longrightarrow> untouched lib subject s')"

definition quiet :: "store \<Rightarrow> bool" where
  "quiet st \<longleftrightarrow> sealing st = None \<and> merging st = None"

lemma quiet_accounted:
  "quiet st \<Longrightarrow> accounted lib subject st \<longleftrightarrow> unsynced st = [] \<and> (\<forall>e \<in> set (disk st). clean_entry lib subject e \<or> suspect lib subject (segments st) (fst e))"
  by (simp add: quiet_def accounted_def merge_ok_def guarded_def handles_def sealed_handle_def merged_handles_def doomed_files_def)

lemma rewritten_clean:
  assumes "spares lib subject f" and "set (sg_spans new) \<subseteq> image_under f (set (sg_spans seg))" and "clean_handle lib subject seg"
  shows "clean_handle lib subject new"
  using assms by (fastforce simp: spares_def image_under_def clean_handle_def list_all_iff)

lemma replace_file_mem: "e \<in> set (replace_file new d) \<Longrightarrow> e = new \<or> e \<in> set d \<and> fst e \<noteq> fst new"
  by (auto simp: replace_file_def split: if_splits)

lemma walked_accounted:
  "walked f front segs st st' \<Longrightarrow> spares lib subject f \<Longrightarrow> quiet st \<Longrightarrow> segments st = front @ segs \<Longrightarrow> accounted lib subject st
    \<Longrightarrow> accounted lib subject st' \<and> quiet st' \<and> writer st' = writer st \<and> log st' = log st"
proof (induction rule: walked.induct)
  case (stops front segs st)
  then show ?case by simp
next
  case (keeps_one front seg segs st st')
  then show ?case by simp
next
  case (retires_one front segs seg st st')
  let ?st = "st\<lparr>disk := unlink_file (sg_id seg) (disk st), segments := front @ segs\<rparr>"
  have q: "quiet ?st" using retires_one.prems(2) by (simp add: quiet_def)
  have "accounted lib subject ?st"
    using retires_one.prems(4) unfolding quiet_accounted [OF retires_one.prems(2)] quiet_accounted [OF q] retires_one.prems(3)
    by (auto simp: unlink_file_def)
  from retires_one.IH [OF retires_one.prems(1) q _ this] show ?case by simp
next
  case (rewrites_one new seg front segs st st')
  let ?st = "st\<lparr>disk := replace_file (entry_of new) (disk st), segments := front @ new # segs\<rparr>"
  have q: "quiet ?st" using rewrites_one.prems(2) by (simp add: quiet_def)
  have "clean_entry lib subject (entry_of new) \<or> suspect lib subject (front @ new # segs) (sg_id new)"
    by (auto simp: suspect_def clean_entry_def clean_handle_def entry_of_def)
  then have "accounted lib subject ?st"
    using rewrites_one.prems(4) rewrites_one.hyps(1)
    unfolding quiet_accounted [OF rewrites_one.prems(2)] quiet_accounted [OF q] rewrites_one.prems(3)
    by (auto dest!: replace_file_mem simp: entry_of_def)
  from rewrites_one.IH [OF rewrites_one.prems(1) q _ this] show ?case by simp
next
  case (leaves_one new seg front segs st)
  let ?st = "st\<lparr>disk := replace_file (entry_of new) (disk st)\<rparr>"
  have q: "quiet ?st" using leaves_one.prems(2) by (simp add: quiet_def)
  have "clean_entry lib subject (entry_of new) \<or> suspect lib subject (segments st) (sg_id new)"
    using rewritten_clean [OF leaves_one.prems(1) leaves_one.hyps(2)] leaves_one.hyps(1)
    by (auto simp: leaves_one.prems(3) suspect_def clean_entry_def clean_handle_def entry_of_def)
  then have "accounted lib subject ?st"
    using leaves_one.prems(4) unfolding quiet_accounted [OF leaves_one.prems(2)] quiet_accounted [OF q]
    by (auto dest!: replace_file_mem simp: entry_of_def)
  then show ?case using q by simp
qed

lemma walked_held:
  "walked f front segs st st' \<Longrightarrow> segments st = front @ segs \<Longrightarrow> held st' \<subseteq> held st \<union> image_under f (spans_of segs)"
proof (induction rule: walked.induct)
  case (stops front segs st)
  then show ?case by simp
next
  case (keeps_one front seg segs st st')
  then show ?case by auto
next
  case (retires_one front segs seg st st')
  let ?st = "st\<lparr>disk := unlink_file (sg_id seg) (disk st), segments := front @ segs\<rparr>"
  have "spans_in (unlink_file (sg_id seg) (disk st)) \<subseteq> spans_in (disk st)" by (rule spans_in_mono) (auto simp: unlink_file_def)
  then have "held ?st \<subseteq> held st" using retires_one.prems by (auto simp: held_def)
  then show ?case using retires_one.IH by auto
next
  case (rewrites_one new seg front segs st st')
  let ?st = "st\<lparr>disk := replace_file (entry_of new) (disk st), segments := front @ new # segs\<rparr>"
  have "spans_in (replace_file (entry_of new) (disk st)) \<subseteq> spans_in (disk st) \<union> set (sg_spans new)"
    by (force simp: spans_in_def entry_of_def dest!: replace_file_mem)
  then have "held ?st \<subseteq> held st \<union> image_under f (set (sg_spans seg))" using rewrites_one.prems rewrites_one.hyps(2) by (auto simp: held_def)
  then show ?case using rewrites_one.IH by auto
next
  case (leaves_one new seg front segs st)
  have "spans_in (replace_file (entry_of new) (disk st)) \<subseteq> spans_in (disk st) \<union> set (sg_spans new)"
    by (force simp: spans_in_def entry_of_def dest!: replace_file_mem)
  then show ?case using leaves_one.hyps(2) by (auto simp: held_def)
qed

text \<open>A whole pass: the buffer with the log, then the segments.\<close>

definition swept :: "(span \<Rightarrow> span option) \<Rightarrow> store \<Rightarrow> store \<Rightarrow> bool" where
  "swept f st st' \<longleftrightarrow>
     (\<exists>st1. (st1 = st
          \<or> (\<exists>hs l w. st1 = st\<lparr>log := l, writer := w\<rparr> \<and> wb_spans w = hs \<and> handled hs \<subseteq> handled (wb_spans (writer st)) \<union> image_under f (handled (wb_spans (writer st)))
               \<and> set l \<subseteq> handled hs))
        \<and> (st' = st1 \<or> walked f [] (segments st1) st1 st'))"

lemma swept_keeps:
  assumes run: "swept f st st'" and f: "spares lib subject f" and q: "quiet st" and acc: "accounted lib subject st"
  shows "accounted lib subject st'" "quiet st'" "held st' \<subseteq> held st \<union> image_under f (held st)"
    "set (log st') \<subseteq> set (log st) \<union> held st \<union> image_under f (held st)"
proof -
  obtain st1 where one: "st1 = st \<or> (\<exists>l w. st1 = st\<lparr>log := l, writer := w\<rparr>
        \<and> handled (wb_spans w) \<subseteq> handled (wb_spans (writer st)) \<union> image_under f (handled (wb_spans (writer st))) \<and> set l \<subseteq> handled (wb_spans w))"
    and two: "st' = st1 \<or> walked f [] (segments st1) st1 st'"
    using run by (auto simp: swept_def)
  have same: "segments st1 = segments st" "disk st1 = disk st" "unsynced st1 = unsynced st" "sealing st1 = sealing st" "merging st1 = merging st"
    using one by auto
  have q1: "quiet st1" using q by (simp add: quiet_def same)
  have acc1: "accounted lib subject st1" using acc by (simp add: quiet_accounted [OF q1] quiet_accounted [OF q] same)
  have buffer: "handled (wb_spans (writer st1)) \<subseteq> held st \<union> image_under f (held st)"
    using one heldD(1) [of st] image_under_mono [OF heldD(1) [of st], of f] by auto
  then have held1: "held st1 \<subseteq> held st \<union> image_under f (held st)"
    using q heldD(2-4) [of st] by (intro heldI) (auto simp: same quiet_def)
  have log1: "set (log st1) \<subseteq> set (log st) \<union> handled (wb_spans (writer st1))" using one by auto
  have seg: "image_under f (spans_of (segments st1)) \<subseteq> image_under f (held st)"
    unfolding same by (rule image_under_mono [OF heldD(2)])
  have "accounted lib subject st' \<and> quiet st' \<and> writer st' = writer st1 \<and> log st' = log st1 \<and> held st' \<subseteq> held st1 \<union> image_under f (held st)"
    using two walked_accounted [OF _ f q1 _ acc1, of "[]" "segments st1" st'] walked_held [of f "[]" "segments st1" st1 st'] seg acc1 q1 by auto
  then show "accounted lib subject st'" "quiet st'" "held st' \<subseteq> held st \<union> image_under f (held st)"
    "set (log st') \<subseteq> set (log st) \<union> held st \<union> image_under f (held st)"
    using held1 log1 buffer by auto
qed

section \<open>Expiry and erasures are such passes\<close>

text \<open>The pinned handles and those a rewrite opens have addresses of their own; and a segment whose records can be read gives
  the spans of its handle.\<close>

definition fresh_addresses :: "(seg_handle \<Rightarrow> nat \<times> u64) \<Rightarrow> seg_handle list \<Rightarrow> bool" where
  "fresh_addresses fresh segs \<longleftrightarrow> distinct (map sg_addr segs) \<and> (\<forall>seg \<in> set segs. fst (fresh seg) \<notin> sg_addr ` set segs)"

definition reads_truly :: "store_lib \<Rightarrow> purge_env \<Rightarrow> seg_handle \<Rightarrow> bool" where
  "reads_truly lib env seg \<longleftrightarrow> (\<forall>ss. spans_parsed lib env seg = Inr ss \<longrightarrow> ss = sg_spans seg)"

definition keeps_unexpired :: "expiry_cutoffs \<Rightarrow> span \<Rightarrow> span option" where
  "keeps_unexpired c s = (if expired_span c s then None else Some s)"

lemma spared_image: "set (spared lib subject ss) = image_under (after_erasure lib subject) (set ss)"
  by (induction ss) (auto simp: image_under_def split: option.splits)

lemma purge_segments_walked:
  assumes "purge_segments lib subject env segs st p = (st', r)" and "segments st = front @ segs"
    and "sg_addr ` set front \<inter> sg_addr ` set segs = {}" and "distinct (map sg_addr segs)"
    and "\<forall>g \<in> set segs. \<forall>h \<in> set segs. fst (pe_segments env g) \<noteq> sg_addr h" and "list_all (reads_truly lib env) segs"
  shows "walked (after_erasure (numbers lib) subject) front segs st st'"
  using assms
proof (induction segs arbitrary: st p front)
  case Nil
  then show ?case by (auto intro: stops)
next
  case (Cons seg segs)
  let ?f = "after_erasure (numbers lib) subject"
  let ?left = "spared (numbers lib) subject (sg_spans seg)"
  let ?new = "\<lparr>sg_addr = fst (pe_segments env seg), sg_id = sg_id seg, sg_bytes = snd (pe_segments env seg), sg_spans = sort_spans ?left\<rparr>"
  have new: "sg_id ?new = sg_id seg" "set (sg_spans ?new) \<subseteq> image_under ?f (set (sg_spans seg))"
    by (simp_all add: sort_spans_def spared_image)
  have at: "replace_held (sg_addr seg) h (segments st) = front @ (case h of None \<Rightarrow> [] | Some h' \<Rightarrow> [h']) @ segs" for h
    using Cons.prems(2,3) by (simp add: replace_held_at)
  have go: "walked ?f front' segs st1 st'"
    if "purge_segments lib subject env segs st1 p1 = (st', r)" "segments st1 = front' @ segs"
      "sg_addr ` set front' \<subseteq> insert (fst (pe_segments env seg)) (insert (sg_addr seg) (sg_addr ` set front))" for front' st1 p1
  proof (rule Cons.IH [OF that(1,2)])
    have "insert (fst (pe_segments env seg)) (insert (sg_addr seg) (sg_addr ` set front)) \<inter> sg_addr ` set segs = {}" using Cons.prems(3-5) by auto
    then show "sg_addr ` set front' \<inter> sg_addr ` set segs = {}" using that(3) by blast
  qed (use Cons.prems(4-6) in auto)
  have kept: ?case if "purge_segments lib subject env segs st p1 = (st', r)" for p1
    using go [OF that, of "front @ [seg]"] Cons.prems(2) by (auto intro: keeps_one)
  have retired: ?case if "purge_segments lib subject env segs (retire_expired_segment seg st) p1 = (st', r)" for p1
    using go [OF that, of front] at [of None] by (auto intro: retires_one simp: retire_expired_segment_def)
  have e: "rewrite_expired_segment seg ?new st = st\<lparr>disk := replace_file (entry_of ?new) (disk st), segments := front @ ?new # segs\<rparr>"
    using at [of "Some ?new"] by (simp add: rewrite_expired_segment_def)
  have rewritten: ?case if "purge_segments lib subject env segs (rewrite_expired_segment seg ?new st) p1 = (st', r)" for p1
    by (rule rewrites_one [OF new]) (rule go [OF that [unfolded e]], auto)
  have left: ?case if "st' = st\<lparr>disk := replace_file (entry_of ?new) (disk st)\<rparr>"
    unfolding that by (rule leaves_one [OF new])
  obtain st1 r1 where one: "purge_segment lib subject env seg st p = (st1, r1)" by fastforce
  have run: "(case r1 of None \<Rightarrow> (st1, None) | Some p1 \<Rightarrow> purge_segments lib subject env segs st1 p1) = (st', r)"
    using Cons.prems(1) by (simp add: one)
  have truly: "ss = sg_spans seg" if "spans_parsed lib env seg = Inr ss" for ss
    using Cons.prems(6) that by (simp add: reads_truly_def)
  have "st1 = st \<or> st1 = retire_expired_segment seg st \<and> r1 \<noteq> None \<or> st1 = rewrite_expired_segment seg ?new st \<and> r1 \<noteq> None
      \<or> st1 = st\<lparr>disk := replace_file (entry_of ?new) (disk st)\<rparr> \<and> r1 = None"
    using one by (auto simp: purge_segment_def Let_def purge_spans_result dest!: truly split: sum.splits if_splits write_outcome.splits)
  then show ?case
    using run kept retired rewritten left stops [of ?f front "seg # segs" st] by (elim disjE) (auto split: option.splits)
qed

lemma purge_buffer_swept:
  assumes "purge_buffer lib subject now fresh ok st = (st1, r)"
  shows "st1 = st \<or> (\<exists>hs l w. st1 = st\<lparr>log := l, writer := w\<rparr> \<and> wb_spans w = hs
      \<and> handled hs \<subseteq> handled (wb_spans (writer st)) \<union> image_under (after_erasure lib subject) (handled (wb_spans (writer st))) \<and> set l \<subseteq> handled hs)"
proof (cases "st1 = st")
  case False
  obtain left changed q where k: "purge_handles lib subject fresh (wb_spans (writer st)) purge_default = (left, changed, q)" by (metis prod_cases3)
  have "map snd left = spared lib subject (map snd (wb_spans (writer st)))" using purge_handles_result [OF k] by simp
  from arg_cong [OF this, of set] have "handled left = image_under (after_erasure lib subject) (handled (wb_spans (writer st)))"
    by (simp only: set_handles spared_image)
  moreover have "st1 = st\<lparr>log := map snd left, writer := wb_restore now left (writer st)\<rparr>"
    using assms False by (auto simp: purge_buffer_def k split: if_splits)
  moreover have "wb_spans (wb_restore now left (writer st)) = left" by (simp add: wb_restore_def reindex_def Let_def)
  ultimately show ?thesis using set_handles [of left] by (intro disjI2 exI conjI) (assumption | simp)+
qed simp

lemma purge_swept:
  assumes "purge_subject_locked lib subject env st = (st', r)" and "fresh_addresses (pe_segments env) (segments st)"
    and "list_all (reads_truly lib env) (segments st)"
  shows "swept (after_erasure (numbers lib) subject) st st'"
proof -
  obtain st1 r1 where b: "purge_buffer (numbers lib) subject (pe_now env) (pe_handles env) (log_rewrite_ok (pe_io env)) st = (st1, r1)" by fastforce
  note B = purge_buffer_swept [OF b]
  have same: "segments st1 = segments st" using B by auto
  have "st' = st1 \<or> walked (after_erasure (numbers lib) subject) [] (segments st1) st1 st'"
  proof (cases r1)
    case (Some p)
    then have "purge_segments lib subject env (segments st1) st1 p = (st', r)" using assms(1) by (simp add: purge_subject_locked_def b)
    from purge_segments_walked [OF this, of "[]"] show ?thesis using assms(2,3) by (auto simp: fresh_addresses_def same)
  qed (use assms(1) in \<open>simp add: purge_subject_locked_def b\<close>)
  with B show ?thesis unfolding swept_def by blast
qed

lemma expire_segments_walked:
  assumes "expire_segments c bounds fresh io segs st removed = (st', r)" and "segments st = front @ segs"
    and "sg_addr ` set front \<inter> sg_addr ` set segs = {}" and "distinct (map sg_addr segs)"
    and "\<forall>g \<in> set segs. \<forall>h \<in> set segs. fst (fresh g) \<noteq> sg_addr h"
  shows "walked (keeps_unexpired c) front segs st st'"
  using assms
proof (induction segs arbitrary: st removed front)
  case Nil
  then show ?case by (auto intro: stops)
next
  case (Cons seg segs)
  let ?left = "filter (\<lambda>s. \<not> expired_span c s) (sg_spans seg)"
  let ?new = "\<lparr>sg_addr = fst (fresh seg), sg_id = sg_id seg, sg_bytes = snd (fresh seg), sg_spans = sort_spans ?left\<rparr>"
  have new: "sg_id ?new = sg_id seg" "set (sg_spans ?new) \<subseteq> image_under (keeps_unexpired c) (set (sg_spans seg))"
    by (auto simp: sort_spans_def image_under_def keeps_unexpired_def)
  have at: "replace_held (sg_addr seg) h (segments st) = front @ (case h of None \<Rightarrow> [] | Some h' \<Rightarrow> [h']) @ segs" for h
    using Cons.prems(2,3) by (simp add: replace_held_at)
  have go: "walked (keeps_unexpired c) front' segs st1 st'"
    if "expire_segments c bounds fresh io segs st1 n = (st', r)" "segments st1 = front' @ segs"
      "sg_addr ` set front' \<subseteq> insert (fst (fresh seg)) (insert (sg_addr seg) (sg_addr ` set front))" for front' st1 n
  proof (rule Cons.IH [OF that(1,2)])
    have "insert (fst (fresh seg)) (insert (sg_addr seg) (sg_addr ` set front)) \<inter> sg_addr ` set segs = {}" using Cons.prems(3-5) by auto
    then show "sg_addr ` set front' \<inter> sg_addr ` set segs = {}" using that(3) by blast
  qed (use Cons.prems(4,5) in auto)
  have kept: ?case if "expire_segments c bounds fresh io segs st n = (st', r)" for n
    using go [OF that, of "front @ [seg]"] Cons.prems(2) by (auto intro: keeps_one)
  have retired: ?case if "expire_segments c bounds fresh io segs (retire_expired_segment seg st) n = (st', r)" for n
    using go [OF that, of front] at [of None] by (auto intro: retires_one simp: retire_expired_segment_def)
  have e: "rewrite_expired_segment seg ?new st = st\<lparr>disk := replace_file (entry_of ?new) (disk st), segments := front @ ?new # segs\<rparr>"
    using at [of "Some ?new"] by (simp add: rewrite_expired_segment_def)
  have rewritten: ?case if "expire_segments c bounds fresh io segs (rewrite_expired_segment seg ?new st) n = (st', r)" for n
    by (rule rewrites_one [OF new]) (rule go [OF that [unfolded e]], auto)
  show ?case
    using Cons.prems(1) unfolding expire_segments.simps Let_def
    by (auto intro: kept retired rewritten stops leaves_one [OF new] split: if_splits write_outcome.splits)
qed

lemma expire_swept:
  assumes "expire_by_policy c bounds fresh io st = (st', r)" and "fresh_addresses fresh (segments st)"
  shows "swept (keeps_unexpired c) st st'"
proof -
  obtain st1 r1 where b: "expire_buffer c (log_rewrite_ok io) st = (st1, r1)" by fastforce
  let ?w = "wb_retain (\<lambda>s. \<not> expired_span c s) (writer st)"
  have spans: "wb_spans ?w = filter (\<lambda>h. \<not> expired_span c (snd h)) (wb_spans (writer st))" by (simp add: wb_retain_def reindex_def Let_def)
  have B: "st1 = st \<or> st1 = st\<lparr>log := filter (\<lambda>s. \<not> expired_span c s) (map snd (wb_spans (writer st))), writer := ?w\<rparr>"
    using b by (auto simp: expire_buffer_def Let_def split: if_splits)
  have "handled (wb_spans ?w) \<subseteq> handled (wb_spans (writer st))" "set (filter (\<lambda>s. \<not> expired_span c s) (map snd (wb_spans (writer st)))) \<subseteq> handled (wb_spans ?w)"
    by (auto simp: handled_def spans)
  then have B': "st1 = st \<or> (\<exists>hs l w. st1 = st\<lparr>log := l, writer := w\<rparr> \<and> wb_spans w = hs
      \<and> handled hs \<subseteq> handled (wb_spans (writer st)) \<union> image_under (keeps_unexpired c) (handled (wb_spans (writer st))) \<and> set l \<subseteq> handled hs)"
    using B by (elim disjE) blast+
  have same: "segments st1 = segments st" using B by auto
  have "st' = st1 \<or> walked (keeps_unexpired c) [] (segments st1) st1 st'"
  proof (cases r1)
    case (Some n)
    then have "expire_segments c bounds fresh io (segments st1) st1 n = (st', r)" using assms(1) by (simp add: expire_by_policy_def b)
    from expire_segments_walked [OF this, of "[]"] show ?thesis using assms(2) by (auto simp: fresh_addresses_def same)
  qed (use assms(1) in \<open>simp add: expire_by_policy_def b\<close>)
  with B' show ?thesis unfolding swept_def by blast
qed

text \<open>Neither makes a span of one subject out of a span of none: expiry changes no span, and the redaction of one payload
  leaves trace, tenant, session and other payloads as they were.\<close>

lemma unexpired_spares: "spares lib subject (keeps_unexpired c)"
  by (simp add: spares_def keeps_unexpired_def)

lemma redacted_attribute_map:
  "attributes (fst (redact_payload reference s)) = map (\<lambda>(key, v). (key, redact_value reference v)) (attributes s)"
  using redacted_maps [of reference s] by (simp add: payload_maps_def)

lemma redacted_session: "session_id_of lib (fst (redact_payload reference s)) = session_id_of lib s"
proof -
  have object: "unredacted reference v \<Longrightarrow> \<exists>entries. v = JObject entries" for v
    by (auto simp: unredacted_def json_get_def split: json.splits)
  have m: "map_of (map (\<lambda>(k, v). (k, f v)) xs) key = map_option f (map_of xs key)" for f :: "json \<Rightarrow> json" and xs key
    by (induction xs) auto
  have "attr_str lib (attributes (fst (redact_payload reference s))) key = attr_str lib (attributes s) key" for key
  proof (cases "map_of (attributes s) key")
    case (Some v)
    then show ?thesis using object [of v] unfolding redacted_attribute_map attr_str_def m
      by (cases v) (auto simp: redact_value_def)
  qed (simp add: redacted_attribute_map attr_str_def m)
  then have "attr_str lib (attributes (fst (redact_payload reference s))) = attr_str lib (attributes s)" by (rule ext)
  then show ?thesis by (simp add: session_id_of_def session_first_str first_str_def)
qed

lemma erasure_spares: "spares lib subject (after_erasure lib other)"
proof -
  have "untouched lib subject (fst (redact_payload reference s))" if "untouched lib subject s" for reference s
  proof (cases subject)
    case (Payload_subject reference')
    then show ?thesis using that redact_removes [of reference s] redact_keeps_others [of reference reference' s]
      by (cases "reference = reference'") (auto simp: untouched_def subject_action_def split: if_splits)
  qed (use that in \<open>auto simp: untouched_def subject_action_def redacted_session split: if_splits\<close>,
       simp_all add: redact_payload_def with_payload_maps_fields)
  then show ?thesis
    by (auto simp: spares_def after_erasure_def split: action.splits option.splits)
qed

end
