(* ===== verification/Erase_Settled.thy ===== *)
theory Erase_Settled
  imports Erase_Steps
begin

text \<open>
  An erasure as a machine: \<open>complete_erasure\<close> of \<open>src/src/lib.rs\<close> (purge, confirming purge, checkpoint, settle), from the store as
  it is opened, among the admissions the barrier lets through, the seals and merges of the store, expiry, other erasures,
  failures, and crashes, from which a pending erasure is resumed; and what is left of the subject once it is settled.
\<close>

section \<open>The machine\<close>

datatype erase_phase = Idle | Begun | Purged | Confirmed | Published | Settled

text \<open>An erasure begins at any time: from its intent record on, the barrier lets no span of the subject in. A purge runs under the
  seal permit and the maintenance lock, so with no seal and no merge in flight; a checkpoint, expiry and other erasures as
  well. A step that fails leaves the erasure pending, and so does a crash: it is begun again.\<close>

inductive erasing :: "store_lib \<Rightarrow> subject \<Rightarrow> erase_phase \<times> store \<Rightarrow> erase_phase \<times> store \<Rightarrow> bool" for lib subject where
  begins: "erasing lib subject (Idle, st) (Begun, st)"
| purged: "purge_subject_locked lib subject env st = (st', Some p) \<Longrightarrow> purge_ready lib subject env st \<Longrightarrow> quiet st
    \<Longrightarrow> erasing lib subject (Begun, st) (Purged, st')"
| confirmed: "purge_subject_locked lib subject env st = (st', Some p) \<Longrightarrow> purge_ready lib subject env st \<Longrightarrow> quiet st
    \<Longrightarrow> erasing lib subject (Purged, st) (Confirmed, st')"
| purge_failed: "purge_subject_locked lib subject env st = (st', None) \<Longrightarrow> fresh_addresses (pe_segments env) (segments st)
    \<Longrightarrow> list_all (reads_truly lib env) (segments st) \<Longrightarrow> quiet st
    \<Longrightarrow> phase = Begun \<or> phase = Purged \<Longrightarrow> erasing lib subject (phase, st) (Begun, st')"
| published: "checkpoint_locked env publish_ok log_ok st = (st', True) \<Longrightarrow> quiet st
    \<Longrightarrow> erasing lib subject (Confirmed, st) (Published, st')"
| checkpoint_failed: "checkpoint_locked env publish_ok log_ok st = (st', False) \<Longrightarrow> quiet st
    \<Longrightarrow> erasing lib subject (Confirmed, st) (Begun, st')"
| settled: "erasing lib subject (Published, st) (Settled, st)"
| meanwhile: "live_step (numbers lib) subject st spans st' \<Longrightarrow> phase = Idle \<or> list_all (untouched (numbers lib) subject) spans
    \<Longrightarrow> erasing lib subject (phase, st) (phase, st')"
| expired: "expire_by_policy c bounds fresh io st = (st', removed) \<Longrightarrow> fresh_addresses fresh (segments st) \<Longrightarrow> quiet st
    \<Longrightarrow> erasing lib subject (phase, st) (phase, st')"
| other_purged: "purge_subject_locked lib other env st = (st', found) \<Longrightarrow> fresh_addresses (pe_segments env) (segments st)
    \<Longrightarrow> list_all (reads_truly lib env) (segments st) \<Longrightarrow> quiet st
    \<Longrightarrow> erasing lib subject (phase, st) (phase, st')"
| crashed: "set restored \<subseteq> set (unsynced st)
    \<Longrightarrow> erasing lib subject (phase, st) (if phase = Settled \<or> phase = Idle then phase else Begun, crash_and_open now restored st)"

definition all_untouched :: "number_lib \<Rightarrow> subject \<Rightarrow> span set \<Rightarrow> bool" where
  "all_untouched lib subject X \<longleftrightarrow> (\<forall>s \<in> X. untouched lib subject s)"

fun phase_inv :: "number_lib \<Rightarrow> subject \<Rightarrow> erase_phase \<times> store \<Rightarrow> bool" where
  "phase_inv lib subject (phase, st) \<longleftrightarrow>
     accounted lib subject st \<and> (phase \<noteq> Idle \<and> phase \<noteq> Begun \<longrightarrow> all_untouched lib subject (held st))
     \<and> (phase = Published \<or> phase = Settled \<longrightarrow> all_untouched lib subject (set (log st)))"

lemma all_untouched_mono: "all_untouched lib subject X \<Longrightarrow> Y \<subseteq> X \<Longrightarrow> all_untouched lib subject Y"
  by (auto simp: all_untouched_def)

lemma all_untouched_Un: "all_untouched lib subject (X \<union> Y) \<longleftrightarrow> all_untouched lib subject X \<and> all_untouched lib subject Y"
  by (auto simp: all_untouched_def)

lemma all_untouched_empty [simp]: "all_untouched lib subject {}"
  by (simp add: all_untouched_def)

lemma untouched_image: "spares lib subject f \<Longrightarrow> all_untouched lib subject X \<Longrightarrow> all_untouched lib subject (image_under f X)"
  by (auto simp: all_untouched_def spares_def image_under_def)

lemma spans_of_stored: "spans_of segs = snd ` set_mset (stored segs)"
  by (induction segs) (auto simp: image_Un image_image)

lemma untouched_accounted:
  assumes "all_untouched lib subject (held st)" and "merge_ok st"
  shows "accounted lib subject st"
proof (rule accounted_clean [OF assms(2)])
  fix e assume "e \<in> set (disk st)"
  then have "set (entry_spans e) \<subseteq> held st" using heldD(3) [of st] by (auto simp: spans_in_def)
  with assms(1) show "clean_entry lib subject e" by (auto simp: clean_entry_def all_untouched_def list_all_iff)
qed

text \<open>A purge that succeeds leaves nothing anywhere: what it kept is untouched, and a file with something of the subject would have
  the number of a segment it has been through.\<close>

lemma purged_untouched:
  assumes "purge_subject_locked lib subject env st = (st', Some p)" and "purge_ready lib subject env st"
    and "accounted (numbers lib) subject st" and q: "quiet st"
  shows "all_untouched (numbers lib) subject (held st')" "quiet st'" "unsynced st' = []"
proof -
  note r = purge_result [OF assms(1,2)]
  have "handled (wb_spans (writer st')) = set (spared (numbers lib) subject (map snd (wb_spans (writer st))))"
    unfolding r(1) [symmetric] by (rule set_handles [symmetric])
  then have "all_untouched (numbers lib) subject (handled (wb_spans (writer st')))"
    by (auto simp: all_untouched_def dest: spared_untouched)
  moreover have "all_untouched (numbers lib) subject (spans_of (segments st'))"
    unfolding spans_of_stored r(2)
    by (auto simp: all_untouched_def spared_stored_def untouched_def dest: erasure_settles_span)
  moreover have "clean_entry (numbers lib) subject e" if "e \<in> set (disk st')" for e
    using r(8) assms(3) that unfolding quiet_accounted [OF q] suspect_def by blast
  then have "all_untouched (numbers lib) subject (spans_in (disk st'))"
    by (auto simp: all_untouched_def spans_in_def clean_entry_def list_all_iff)
  moreover show "quiet st'" using r(6,7) q by (simp add: quiet_def)
  moreover show "unsynced st' = []" using r(5) assms(3) q by (simp add: accounted_def merge_ok_def quiet_def)
  ultimately show "all_untouched (numbers lib) subject (held st')"
    by (simp add: held_def all_untouched_Un quiet_def)
qed

lemma purged_inv:
  assumes "purge_subject_locked lib subject env st = (st', Some p)" and "purge_ready lib subject env st"
    and "accounted (numbers lib) subject st" and "quiet st"
  shows "accounted (numbers lib) subject st' \<and> all_untouched (numbers lib) subject (held st')"
  using purged_untouched [OF assms] by (auto intro: untouched_accounted simp: merge_ok_def quiet_def)

lemma seal_with_permit_held:
  assumes "seal_with_permit env st = (st', how)"
  shows "held st' \<subseteq> held st" "merging st' = merging st"
proof -
  have d: "held b \<subseteq> held a \<and> merging b = merging a" if "seal_drain a = Some b" for a b
    using drain_held [OF that] seal_merging(1) [OF that] by simp
  have w: "held b \<subseteq> held a \<and> merging b = merging a" if "seal_write outcome addr len a = Some b" for outcome addr len a b
    using seal_write_held [OF that] seal_merging(2) [OF that] by simp
  have p: "held b \<subseteq> held a \<and> merging b = merging a" if "seal_publish a = Some b" for a b
    using seal_publish_held [OF that] seal_merging(3) [OF that] by simp
  have r: "held b \<subseteq> held a \<and> merging b = merging a" if "reconcile_after_publish now reclaim log_ok a = Some b" for now reclaim log_ok a b
    using reconcile_held [OF that] seal_merging(4) [OF that] by simp
  consider "st' = st"
    | a where "seal_drain st = Some a" "st' = a"
    | a b where "seal_drain st = Some a" "seal_write (sv_outcome env) (sv_addr env) (sv_bytes env) a = Some b" "st' = b"
    | a b c where "seal_drain st = Some a" "seal_write (sv_outcome env) (sv_addr env) (sv_bytes env) a = Some b" "seal_publish b = Some c" "st' = c"
    | a b c where "seal_drain st = Some a" "seal_write (sv_outcome env) (sv_addr env) (sv_bytes env) a = Some b" "seal_publish b = Some c"
        "reconcile_after_publish (sv_now env) (sv_reclaim env) (sv_log_ok env) c = Some st'"
    using assms unfolding seal_with_permit_def by (auto split: option.splits)
  then have "held st' \<subseteq> held st \<and> merging st' = merging st"
  proof cases
    case (2 a)
    then show ?thesis using d by blast
  next
    case (3 a b)
    then show ?thesis using d [OF 3(1)] w [OF 3(2)] by auto
  next
    case (4 a b c)
    then show ?thesis using d [OF 4(1)] w [OF 4(2)] p [OF 4(3)] by auto
  next
    case (5 a b c)
    then show ?thesis using d [OF 5(1)] w [OF 5(2)] p [OF 5(3)] r [OF 5(4)] by auto
  qed simp
  then show "held st' \<subseteq> held st" "merging st' = merging st" by simp_all
qed

lemma held_log [simp]: "held (st\<lparr>log := l\<rparr>) = held st"
  by (simp add: held_def)

lemma checkpoint_held:
  assumes "checkpoint_locked env publish_ok log_ok st = (st', done_ok)"
  shows "held st' \<subseteq> held st" "merging st' = merging st" "done_ok \<Longrightarrow> set (log st') \<subseteq> held st"
proof -
  obtain st1 how where seal: "seal_with_permit env st = (st1, how)" by fastforce
  note S = seal_with_permit_held [OF seal]
  have st': "st' = st1 \<and> \<not> done_ok \<or> (\<exists>l. st' = st1\<lparr>log := l\<rparr> \<and> set l \<subseteq> handled (wb_spans (writer st1)))"
    using assms by (auto simp: checkpoint_locked_def roll_log_def seal Let_def handled_def split: seal_end.splits if_splits)
  show "held st' \<subseteq> held st" "merging st' = merging st" using st' S by auto
  show "set (log st') \<subseteq> held st" if done_ok
  proof -
    have "set (log st') \<subseteq> handled (wb_spans (writer st1))" using st' that by auto
    then show ?thesis using S(1) heldD(1) [of st1] by blast
  qed
qed

lemma checkpoint_unsynced:
  assumes "checkpoint_locked env publish_ok log_ok st = (st', done_ok)"
  shows "unsynced st' = unsynced st"
proof -
  have steps: "seal_drain a = Some b \<Longrightarrow> unsynced b = unsynced a" "seal_write outcome addr len a = Some b \<Longrightarrow> unsynced b = unsynced a"
    "seal_publish a = Some b \<Longrightarrow> unsynced b = unsynced a" "reconcile_after_publish now reclaim ok a = Some b \<Longrightarrow> unsynced b = unsynced a"
    for a b outcome addr len now reclaim ok
    by (auto simp: seal_drain_def seal_write_def seal_publish_def reconcile_after_publish_def Let_def
        split: if_splits option.splits prod.splits seal_phase.splits)
  obtain st1 how where seal: "seal_with_permit env st = (st1, how)" by fastforce
  then have "unsynced st1 = unsynced st" by (auto simp: seal_with_permit_def steps split: option.splits)
  then show ?thesis using assms by (auto simp: checkpoint_locked_def roll_log_def seal Let_def split: seal_end.splits if_splits)
qed

text \<open>A checkpoint keeps everything accounted for: by now all the store holds is untouched.\<close>

lemma checkpoint_inv:
  assumes run: "checkpoint_locked env publish_ok log_ok st = (st', done_ok)" and acc: "accounted lib subject st"
    and "quiet st" and clean: "all_untouched lib subject (held st)"
  shows "accounted lib subject st' \<and> all_untouched lib subject (held st') \<and> (done_ok \<longrightarrow> all_untouched lib subject (set (log st')))"
proof -
  note C = checkpoint_held [OF run]
  have "merge_ok st'" using acc assms(3) C(2) checkpoint_unsynced [OF run] by (simp add: accounted_def merge_ok_def quiet_def)
  then show ?thesis
    using all_untouched_mono [OF clean C(1)] all_untouched_mono [OF clean C(3)] untouched_accounted by blast
qed

lemma swept_inv:
  assumes "swept f st st'" and f: "spares (numbers lib) subject f" and "quiet st" and inv: "phase_inv (numbers lib) subject (phase, st)"
  shows "phase_inv (numbers lib) subject (phase, st')"
proof -
  have "accounted (numbers lib) subject st" using inv by simp
  note S = swept_keeps [OF assms(1-3) this]
  have "all_untouched (numbers lib) subject (held st')" if "all_untouched (numbers lib) subject (held st)"
    using S(3) untouched_image [OF f that] that unfolding all_untouched_def by blast
  moreover have "all_untouched (numbers lib) subject (set (log st'))"
    if "all_untouched (numbers lib) subject (held st)" "all_untouched (numbers lib) subject (set (log st))"
    using S(4) untouched_image [OF f that(1)] that unfolding all_untouched_def by blast
  ultimately show ?thesis using inv S(1) by auto
qed

lemma live_step_inv:
  assumes step: "live_step (numbers lib) subject st spans st'" and ok: "phase = Idle \<or> list_all (untouched (numbers lib) subject) spans"
    and inv: "phase_inv (numbers lib) subject (phase, st)"
  shows "phase_inv (numbers lib) subject (phase, st')"
proof -
  have acc: "accounted (numbers lib) subject st" using inv by simp
  then have shape: "merge_shape st" by (simp add: accounted_def merge_ok_shape)
  note L = live_step_accounted [OF step acc] live_step_held [OF step shape] live_step_log [OF step shape]
  show ?thesis
  proof (cases "phase = Idle")
    case False
    then have new: "all_untouched (numbers lib) subject (set spans)" using ok by (simp add: all_untouched_def list_all_iff)
    have "all_untouched (numbers lib) subject (held st')" if "all_untouched (numbers lib) subject (held st)"
      using L(2) new that unfolding all_untouched_def by blast
    moreover have "all_untouched (numbers lib) subject (set (log st'))"
      if "all_untouched (numbers lib) subject (held st)" "all_untouched (numbers lib) subject (set (log st))"
      using L(3) new that unfolding all_untouched_def by blast
    ultimately show ?thesis using inv L(1) by auto
  qed (use L(1) in simp)
qed

lemma erasing_keeps: "erasing lib subject u v \<Longrightarrow> phase_inv (numbers lib) subject u \<Longrightarrow> phase_inv (numbers lib) subject v"
proof (induction rule: erasing.induct)
  case (purged env st st' p)
  then show ?case using purged_inv [OF purged.hyps(1,2) _ purged.hyps(3)] by simp
next
  case (confirmed env st st' p)
  then show ?case using purged_inv [OF confirmed.hyps(1,2) _ confirmed.hyps(3)] by simp
next
  case (purge_failed env st st' phase)
  then show ?case using swept_inv [OF purge_swept [OF purge_failed.hyps(1-3)] erasure_spares purge_failed.hyps(4), where phase = Begun] by simp
next
  case (published env publish_ok log_ok st st')
  then show ?case using checkpoint_inv [OF published.hyps(1) _ published.hyps(2)] by simp
next
  case (checkpoint_failed env publish_ok log_ok st st')
  then show ?case using checkpoint_inv [OF checkpoint_failed.hyps(1) _ checkpoint_failed.hyps(2)] by simp
next
  case (meanwhile st spans st' phase)
  then show ?case by (blast intro: live_step_inv)
next
  case (expired c bounds fresh io st st' removed phase)
  then show ?case using swept_inv [OF expire_swept [OF expired.hyps(1,2)] unexpired_spares expired.hyps(3)] by blast
next
  case (other_purged other env st st' found phase)
  then show ?case using swept_inv [OF purge_swept [OF other_purged.hyps(1-3)] erasure_spares other_purged.hyps(4)] by blast
next
  case (crashed restored st phase now)
  note C = crash_held [OF crashed.hyps]
  have acc: "accounted (numbers lib) subject (crash_and_open now restored st)" unfolding crash_and_open_def by (rule opened_accounted)
  show ?case
  proof (cases "phase = Settled")
    case True
    then have "all_untouched (numbers lib) subject (held st \<union> set (log st))" using crashed.prems by (simp add: all_untouched_Un)
    then have "all_untouched (numbers lib) subject (held (crash_and_open now restored st) \<union> set (log (crash_and_open now restored st)))"
      using C(1) by (rule all_untouched_mono)
    then show ?thesis using acc True by (simp add: all_untouched_Un)
  next
    case False
    then show ?thesis using acc by simp
  qed
qed simp_all

lemma erasing_reaches: "(erasing lib subject)\<^sup>*\<^sup>* u v \<Longrightarrow> phase_inv (numbers lib) subject u \<Longrightarrow> phase_inv (numbers lib) subject v"
  by (induction rule: rtranclp_induct) (auto intro: erasing_keeps)

text \<open>C5: a settled erasure has left nothing of its subject. From the opening of any directory on, however the erasure's begin, its
  purge, its confirmation and its checkpoint were interleaved with admissions (of anything before it began, and of what the
  barrier lets through after), seals, merges, expiry, other erasures, failures of each and crashes: once the erasure is settled, no span of
  the buffer, of the live segments, of any segment file, of a seal or merge in flight, or of the log is one it would drop or redact, and
  none comes back after a restart, until one is admitted anew. Left out, since the store was opened: a seal that carried spans of the subject and failed
  behind the rename of its file, and an unlink of a merge that failed. The segments the successful purges went through store the spans of
  their handles, and their sidecars were written for them.\<close>

theorem a_settled_erasure_leaves_nothing:
  assumes "(erasing lib subject)\<^sup>*\<^sup>* (Idle, open_store now d js l) (Settled, st)"
  shows "\<forall>s \<in> held st \<union> set (log st). subject_action (numbers lib) subject s = Keep"
proof -
  have "phase_inv (numbers lib) subject (Idle, open_store now d js l)" using opened_accounted by simp
  from erasing_reaches [OF assms(1) this] show ?thesis by (auto simp: all_untouched_def untouched_def)
qed

text \<open>The store of one segment to erase and one span to keep, through an erasure whose checkpoint seals the buffer.\<close>

definition w_sealing :: seal_env where
  "w_sealing = \<lparr>sv_outcome = Written, sv_addr = 9, sv_bytes = 6, sv_now = 0, sv_reclaim = False, sv_log_ok = True\<rparr>"

definition w_erasure_done :: store where
  "w_erasure_done = fst (checkpoint_locked w_sealing True True w_cleared)"

lemma w_cleared_eq:
  "w_cleared = \<lparr>writer = \<lparr>wb_spans = [(0, w_span (Suc 0) 5)], wb_index = [key_of (w_span (Suc 0) 5) \<mapsto> 0], wb_upserts = 1, wb_oldest_at = Some 0\<rparr>,
     segments = [], next_segment = 1, disk = [], unsynced = [], journals = [], log = [w_span (Suc 0) 5], sealing = None, merging = None\<rparr>"
  by (simp add: w_cleared_def w_holding_eq upsert_def wb_default_def Let_def)

lemma w_checkpointed:
  "checkpoint_locked w_sealing True True w_cleared = (w_erasure_done, True)" "disk w_erasure_done = [(1, 6, [w_span (Suc 0) 5])]"
  by (simp_all add: w_erasure_done_def checkpoint_locked_def roll_log_def seal_with_permit_def reconcile_fails_def w_sealing_def w_cleared_eq w_eval)

lemma w_purged_again:
  "\<exists>p. purge_subject_locked w_lib w_subject (w_purging g) w_cleared = (w_cleared, Some p)"
  by (simp add: purge_subject_locked_def purge_buffer_def w_cleared_eq w_actions Let_def)

lemma w_settled:
  assumes "stores_spans w_lib rle_compress rle_decompress g [w_stored_span]"
  shows "(erasing w_lib w_subject)\<^sup>*\<^sup>* (Idle, w_holding) (Settled, w_erasure_done)"
proof -
  have quiet: "quiet w_holding" "quiet w_cleared" by (simp_all add: quiet_def w_holding_eq w_cleared_eq)
  have ready: "purge_ready w_lib w_subject (w_purging g) w_cleared"
    by (simp add: purge_ready_def w_cleared_eq w_subject_def validate_subject_def subject_tenant_def reads_numbers_def)
  obtain p q where "purge_subject_locked w_lib w_subject (w_purging g) w_holding = (w_cleared, Some p)"
    "purge_subject_locked w_lib w_subject (w_purging g) w_cleared = (w_cleared, Some q)"
    using w_purged [OF assms] w_purged_again by blast
  then have "erasing w_lib w_subject (Begun, w_holding) (Purged, w_cleared)" "erasing w_lib w_subject (Purged, w_cleared) (Confirmed, w_cleared)"
    using quiet ready w_purge_ready [OF assms] by (auto intro: purged confirmed)
  moreover have "erasing w_lib w_subject (Confirmed, w_cleared) (Published, w_erasure_done)" using w_checkpointed(1) quiet by (auto intro: published)
  moreover have "erasing w_lib w_subject (Idle, w_holding) (Begun, w_holding)" "erasing w_lib w_subject (Published, w_erasure_done) (Settled, w_erasure_done)"
    by (rule begins, rule settled)
  ultimately show ?thesis by (meson converse_rtranclp_into_rtranclp rtranclp.rtrancl_refl)
qed

theorem a_settled_erasure_leaves_nothing_witness:
  "\<exists>st. (erasing w_lib w_subject)\<^sup>*\<^sup>* (Idle, w_holding) (Settled, st) \<and> w_stored_span \<in> held w_holding
    \<and> w_span (Suc 0) 5 \<in> held st \<and> w_stored_span \<notin> held st \<union> set (log st)"
proof -
  obtain g where g: "stores_spans w_lib rle_compress rle_decompress g [w_stored_span]" using w_span_segment by blast
  have "w_stored_span \<notin> held w_erasure_done \<union> set (log w_erasure_done)"
    using a_settled_erasure_leaves_nothing [OF w_settled [OF g, unfolded w_holding_def]] w_actions(2) [of "numbers w_lib"] by auto
  moreover have "w_span (Suc 0) 5 \<in> held w_erasure_done" by (simp add: held_def w_checkpointed(2))
  moreover have "w_stored_span \<in> held w_holding" by (simp add: held_def w_holding_eq)
  ultimately show ?thesis using w_settled [OF g] by blast
qed

section \<open>A file the purge does not see\<close>

text \<open>The one condition of the machine the code does not establish: a seal whose write fails after the rename leaves its file in the
  directory and no handle to it. A purge walks the live segments; the erasure completes, and the next open loads the file.\<close>

definition w_stranded :: store where
  "w_stranded = the (seal_write LeftBehind 5 9 (the (seal_drain (admit 0 [100] [w_stored_span] empty_store))))"

definition w_emptied :: store where
  "w_emptied = w_stranded\<lparr>writer := wb_restore 0 [] (writer w_stranded), log := []\<rparr>"

lemma w_stranded_eq:
  "w_stranded = \<lparr>writer = \<lparr>wb_spans = [(100, w_stored_span)], wb_index = [key_of w_stored_span \<mapsto> 0], wb_upserts = 1, wb_oldest_at = Some 0\<rparr>,
     segments = [], next_segment = 1, disk = [(0, 9, [w_stored_span])], unsynced = [], journals = [], log = [w_stored_span], sealing = None, merging = None\<rparr>"
  unfolding w_stranded_def by (simp add: w_eval)

lemma w_emptied_eq:
  "w_emptied = w_stranded\<lparr>writer := wb_default\<lparr>wb_upserts := 1\<rparr>, log := []\<rparr>"
  by (simp add: w_emptied_def w_stranded_eq wb_restore_def reindex_def wb_default_def)

theorem a_leftover_segment_survives_an_erasure:
  "\<exists>p q. purge_subject_locked w_lib w_subject (w_purging g) w_stranded = (w_emptied, Some p)
    \<and> purge_subject_locked w_lib w_subject (w_purging g) w_emptied = (w_emptied, Some q)
    \<and> checkpoint_locked w_sealing True True w_emptied = (w_emptied, True)
    \<and> visible w_emptied (key_of w_stored_span) = None
    \<and> visible (crash_and_open 0 [] w_emptied) (key_of w_stored_span) = Some w_stored_span"
proof -
  have one: "\<exists>p. purge_subject_locked w_lib w_subject (w_purging g) w_stranded = (w_emptied, Some p)"
    by (simp add: purge_subject_locked_def purge_buffer_def w_stranded_eq w_actions Let_def w_emptied_def) (simp add: w_purging_def w_io_def)
  have two: "\<exists>q. purge_subject_locked w_lib w_subject (w_purging g) w_emptied = (w_emptied, Some q)"
    by (simp add: purge_subject_locked_def purge_buffer_def w_emptied_eq w_stranded_eq wb_default_def Let_def)
  have three: "checkpoint_locked w_sealing True True w_emptied = (w_emptied, True)"
    by (simp add: checkpoint_locked_def roll_log_def seal_with_permit_def seal_drain_def w_emptied_eq w_stranded_eq wb_default_def wb_is_empty_def)
  have gone: "visible w_emptied (key_of w_stored_span) = None"
    by (simp add: visible_def w_emptied_eq w_stranded_eq segments_view_def wb_map_def wb_default_def latest_by_def)
  have "segments_view (segments (crash_and_open 0 [] w_emptied)) = latest_by key_of [w_stored_span]"
    by (simp add: w_emptied_eq w_stranded_eq crash_and_open_def open_store_def Let_def segments_view_load entries_view_def
        recover_supersede_markers_def)
  moreover have "wb_map (writer (crash_and_open 0 [] w_emptied)) = Map.empty"
    by (simp add: crash_and_open_def open_store_def Let_def w_emptied_eq puts_def)
  ultimately have "visible (crash_and_open 0 [] w_emptied) (key_of w_stored_span) = Some w_stored_span"
    by (simp add: visible_def latest_by_def)
  with one two three gone show ?thesis by blast
qed

end
