(* ===== verification/Spec2Isabelle.thy ===== *)
theory Spec2Isabelle
  imports Crc Wal Wal_Commit Varint Segment_Index Siphash Content Content_Index Segment_Records Segment_Header Segment_File Segment_Open Segment_Sound Segment_Properties Block_Cache Segment_Eager Store_Limits Pricing Paging Tail Payload_Sweep Civil_Day Rollup_File Aggregates Tombstones Byte_Scan Erase_Settled
begin

text \<open>
  Traza is a store for trace spans, written in Rust: one process, one directory, a write-ahead log, a write buffer,
  immutable segment files, and a query engine over buffer and segments. This development models the engine
  (\<open>src/src/\<close>) and proves what makes it correct. This theory only gathers the others; what follows says how they fit.

  The parts and how they work together. A batch of spans (\<open>Span\<close>) is validated, its long attribute texts are moved to
  content-addressed files (\<open>Payload\<close>, \<open>Sha256\<close>), it is framed and appended to the log (\<open>Wal\<close>, \<open>Wal_Commit\<close>, with the
  checksum of \<open>Crc\<close>) and upserted into the write buffer (\<open>Write_Buffer\<close>), and then published to the ring the live
  subscribers read (\<open>Tail\<close>). A seal drains the buffer into a segment file, a merge replaces a run of segments by fewer
  (\<open>Compaction\<close>), expiry rewrites what is past its retention (\<open>Expiry\<close>), and an open recovers from what a crash left
  (\<open>Store_State\<close>, \<open>Store_Machine\<close>). Queries merge buffer and segments newest first (\<open>Query_View\<close>, \<open>Lookups\<close>,
  \<open>Paging\<close>), and aggregates fold over the rollups of the segments (\<open>Rollup\<close>, \<open>Fold_Analytics\<close>, \<open>Aggregates\<close>), which
  are kept in sidecar files (\<open>Rollup_File\<close>). An erasure is recorded in the tombstone log, hides its subject while it is
  pending, purges it from buffer, log and segments, and is settled (\<open>Erasure\<close>, \<open>Tombstones\<close>, \<open>Erase_Store\<close>,
  \<open>Erase_Steps\<close>, \<open>Erase_Settled\<close>).

  Vocabulary. \<open>Traza_Prelude\<close> has the machine integers, the little-endian encodings, the locale of prefix codecs and
  UTF-8. A string is its bytes. A fallible function returns a sum, the error on the left, or an option where the code
  does; a machine integer is a word of its width, \<open>usize\<close> a natural number below 2 ^ 64 where a bound matters and
  otherwise unbounded; a \<open>BTreeMap\<close> that is encoded is a list in key order, any other map a HOL map.

  Storage.
    \<open>Crc\<close> (\<open>crc.rs\<close>): the sixteen tables, the 16-byte steps and the equality with the bitwise CRC-32.
    \<open>Wal\<close> (\<open>wal.rs\<close>): frames, stamps, recovery of both versions of the log; replay is exact, damage inside is refused,
    a torn tail is cut. \<open>Wal_Commit\<close>: append, group commit, reset, rewrite and crash as steps, each failing wherever its
    calls can; what was acknowledged survives unless the file is in one of two doubtful states a failure leaves (part of a
    frame or an unsynced truncation in it, an unsynced rename), and two ways in which a failed call stops or loses later commits.
    \<open>Varint\<close>, \<open>Segment_Index\<close>, \<open>Content_Index\<close>, \<open>Segment_Records\<close>, \<open>Segment_Header\<close>, \<open>Segment_File\<close> (\<open>segment.rs\<close>):
    the file format of a segment, section by section, its encoder, its lazy open and its queries; \<open>Segment_Build\<close>,
    \<open>Segment_Carve\<close>, \<open>Segment_Open\<close>, \<open>Segment_Queries\<close> and \<open>Segment_Sound\<close> follow the encoder's output through the
    open and every query, \<open>Segment_Eager\<close> has the open that decodes everything, \<open>Block_Cache\<close> the cache of decoded
    blocks, and \<open>Segment_Properties\<close> what holds of the file as a whole.
    \<open>Siphash\<close> (\<open>hash.rs\<close>) and \<open>Content\<close> (\<open>content.rs\<close>): the digests and the tokens the indexes are built of.
    \<open>Rollup_File\<close> (\<open>rollup_file.rs\<close>): the sidecar of a segment, its two checksums and its binding.

  The store (\<open>lib.rs\<close>).
    \<open>Span\<close>, \<open>Write_Buffer\<close>, \<open>Compaction\<close>, \<open>Expiry\<close>: the data model, the buffer, the choice of runs to merge, retention.
    \<open>Store_State\<close> has the state of a store and its operations, one critical section or one file-system call of the
    code each; \<open>Store_Machine\<close> the interleavings its locks allow, with crashes and failing writes, but no failure that
    leaves a merge's journal behind its merge; \<open>Store_View\<close> and \<open>Store_Safety\<close> the
    invariant and its preservation; \<open>Store_Queries\<close> what the queries need of a reachable store. \<open>Store_Limits\<close> runs
    histories the guarantees do not survive.
    \<open>Query_Task\<close> has the budget of a request: a task is a function of the checks its deadline still lets pass, and
    settles on a result if any budget gives that result or the refusal. \<open>Span_Record\<close>, \<open>Segment_Reads\<close>, \<open>Store_Reads\<close>
    and \<open>Supersede\<close> are the reads a query is made of, over an interface of segments (the locale \<open>segment_reads\<close>,
    interpreted by the segment files of the model). \<open>Query_View\<close> has the queries themselves, \<open>Query_Merge\<close> and
    \<open>Query_Exact\<close> their equality with the list of all live matches, \<open>Query_Properties\<close> the composition with the
    reachable stores. \<open>Lookups\<close> and \<open>Lookup_Properties\<close>: traces and sessions. \<open>Paging\<close>: pinned views, pages, and the
    streamed export (\<open>bin/traza-server.rs\<close>).

  Beside the store.
    \<open>Tail\<close> (\<open>tail.rs\<close>): the ring, its veils, its bounds, and the subscribers that wait on it, with the gaps they are told
    of and open the stream again after.
    \<open>Payload\<close>, \<open>Payload_Sweep\<close> and \<open>Sha256\<close> (\<open>payload.rs\<close>): offloading, loading, and the sweep against concurrent
    ingests; a reference a client supplies is touched by none, and its payload can be swept.
    \<open>Semconv\<close> (\<open>semconv.rs\<close>) and \<open>Pricing\<close> (\<open>pricing.rs\<close>): the facts of a model call, and what it costs.
    \<open>Civil_Day\<close>, \<open>Rollup\<close>, \<open>Rollup_Counts\<close>, \<open>Fold_Analytics\<close> and \<open>Aggregates\<close> (\<open>analytics.rs\<close>): days, counters, the
    fold that uses a stored rollup where it may, and the aggregates and session views over it.

  Erasure (\<open>erasure.rs\<close>, and its part of \<open>lib.rs\<close>).
    \<open>Erasure\<close>: subjects and what they do to a span, redaction, the records, the mask over the pending ones and the
    barrier of an ingest. \<open>Tombstones\<close>: the log's file and memory, its appends and its opening after a crash; lines of
    JSON are read and written by parameters. \<open>Byte_Scan\<close>: the search for a subject's identifiers in the bytes of a file. \<open>Erase_Store\<close>: one
    purge pass over the store of \<open>Store_State\<close>, which asks the indexes and the sidecar of each open segment before it decodes it,
    and the checkpoint behind it. \<open>Erase_Steps\<close>: what runs beside an erasure, and which files can carry something of its subject
    meanwhile. \<open>Erase_Settled\<close>: the phases of an erasure among the steps of the store, expiry, other erasures and crashes, from the
    opening of a directory on. A seal that fails behind its rename while it carries spans of the subject, and a failed unlink of a
    merge, are not among the steps; the last section runs the history of the first.

  What the groups of lemmas show. Codecs read back what they wrote and accept nothing else; damage is refused. Every
  step of the engine's own keeps what readers see; a crash loses nothing acknowledged, in the machines above. A query is exact: the last
  admitted versions that match, each once, in order, whatever indexes, caches and shortcuts it took. A subscriber sees
  each admission once or is told of the gap it fell into. A sweep removes no payload the store offloaded for a live span. Counters are the saturated sums
  over the last versions. A pending erasure hides its subject and a settled one has left nothing of it. Where the code falls short of this, the theorem states the history that shows it.

  Bounds and fuel. There is no fuel: loops are structural recursion or have a measure, such as the rounds of
  \<open>size_tier_loop\<close> in \<open>Compaction\<close>, which the code itself stops after 32. The deadline of a request is
  a number of checks, not a clock. Statements about lengths assume no buffer longer than \<open>isize::MAX\<close>.

  Parameters. LZ4 (by the law \<open>lz4_block\<close>: a compressed block decompresses, and is no shorter than a share of it),
  \<open>serde_json\<close> (text of a value and back), the arithmetic, printing and parsing of \<open>f64\<close>, and the hash maps' order of
  iteration do not belong to this repository: they are arguments of the definitions that use them, or left open.

  Not modelled, and what stands in for it. The file system is its calls: each may fail where the code has a branch
  for it, but a single write is not torn except in the log, whose bytes may be cut anywhere. In the store's machine an
  admission is durable at once (how it becomes durable is \<open>Wal_Commit\<close>), and unlinks and the removal of journals
  succeed, as a journal that is written is (\<open>Store_Limits\<close> has the failing case); segment numbers are natural numbers; an input of a merge that cannot
  be read is an output not written. Metrics, elapsed times, the caches of rollups and of key hashes are not state. The
  live tail's size of a span is a parameter; the sweep of payloads assumes an ingest commits and a walk ends within
  the ten minutes a touch protects. The sockets of an export take every write. Rows of an aggregate are collected in
  key order before they are sorted. The server and its routing, the tool server, the generators, benches and
  command lines, OTLP decoding, object storage, generations, migration, evaluations, annotations, the receipt of an
  erasure and its share of annotations, evaluations and payload files, diagnosis of sessions, insights, authentication and the user interface are not modelled; the manifest gives the reason for
  each.
\<close>

end
